(* ===== verification/Prelude.thy ===== *)
theory Prelude
  imports Main "HOL-Library.Word"
begin

unbundle bit_operations_syntax

text \<open>
  Shared vocabulary of the development: machine words, the result type of a kernel
  operation, loops over lists with early exit, and the generic facts on words, lists and
  results that the component theories use.

  A C function of the kernel is a HOL function from the state to a result:
  \<^item> \<open>Ok x\<close>: it returns; \<open>x\<close> holds the return value and the new state;
  \<^item> \<open>Panic msg\<close>: it calls \<open>panic\<close> or \<open>PANIC_FN\<close> (kernel/util/kprint.c), which never
    returns; \<open>msg\<close> is the text printed, with the function name \<open>PANIC_FN\<close> puts in front;
  \<^item> \<open>Block\<close>: the caller has to wait (it sleeps on a channel, or spins on a lock another CPU
    holds) and the call does not finish before some other step happens;
  \<^item> \<open>Hang\<close>: the code loops for ever (or recurses without bound) at this point.
\<close>

section \<open>Machine words\<close>

type_synonym u8 = "8 word"
type_synonym u16 = "16 word"
type_synonym u32 = "32 word"
type_synonym u64 = "64 word"

text \<open>Facts that evaluate constants of the memory layout and of the lock discipline.\<close>

named_theorems layout_simps "constants of the memory layout"
named_theorems lock_simps "evaluation of lock operations"

section \<open>Results of kernel operations\<close>

datatype 'a kres = Ok 'a | Panic string | Block | Hang

primrec kbind :: "'a kres \<Rightarrow> ('a \<Rightarrow> 'b kres) \<Rightarrow> 'b kres" where
  "kbind (Ok x) f = f x"
| "kbind (Panic e) f = Panic e"
| "kbind Block f = Block"
| "kbind Hang f = Hang"

lemma kbind_Ok_conv [simp]: "kbind m f = Ok y \<longleftrightarrow> (\<exists>x. m = Ok x \<and> f x = Ok y)"
  by (cases m) auto

lemma kbind_assoc: "kbind (kbind m f) g = kbind m (\<lambda>x. kbind (f x) g)"
  by (cases m) auto

lemma kbind_Ok_right [simp]: "kbind m Ok = m"
  by (cases m) auto

lemma kbind_cong [fundef_cong]:
  "m = m' \<Longrightarrow> (\<And>x. m' = Ok x \<Longrightarrow> f x = g x) \<Longrightarrow> kbind m f = kbind m' g"
  by (cases m') auto

lemma kbind_Panic_conv:
  "kbind m f = Panic e \<longleftrightarrow> m = Panic e \<or> (\<exists>x. m = Ok x \<and> f x = Panic e)"
  by (cases m) auto

text \<open>
  \<open>kok P r\<close>: the call returns and its result satisfies \<open>P\<close> (total correctness of one call).
\<close>

definition kok :: "('a \<Rightarrow> bool) \<Rightarrow> 'a kres \<Rightarrow> bool" where
  "kok P r \<longleftrightarrow> (\<exists>x. r = Ok x \<and> P x)"

lemma kok_Ok [simp]: "kok P (Ok x) \<longleftrightarrow> P x"
  by (simp add: kok_def)

lemma kok_not_Ok [simp]: "\<not> kok P (Panic e)" "\<not> kok P Block" "\<not> kok P Hang"
  by (simp_all add: kok_def)

lemma kokI: "r = Ok x \<Longrightarrow> P x \<Longrightarrow> kok P r"
  by (simp add: kok_def)

lemma kokE: "kok P r \<Longrightarrow> (\<And>x. r = Ok x \<Longrightarrow> P x \<Longrightarrow> Q) \<Longrightarrow> Q"
  by (auto simp: kok_def)

lemma kok_mono: "kok P r \<Longrightarrow> (\<And>x. P x \<Longrightarrow> Q x) \<Longrightarrow> kok Q r"
  by (auto simp: kok_def)

lemma kok_bind: "kok P (kbind m f) \<longleftrightarrow> kok (\<lambda>x. kok P (f x)) m"
  by (cases m) auto

section \<open>Loops\<close>

text \<open>
  \<open>kfold f [i, j, \<dots>] s\<close> runs the body \<open>f\<close> for each index in turn and stops at the first
  call that does not return.
\<close>

primrec kfold :: "('i \<Rightarrow> 's \<Rightarrow> 's kres) \<Rightarrow> 'i list \<Rightarrow> 's \<Rightarrow> 's kres" where
  "kfold f [] s = Ok s"
| "kfold f (i # is) s = kbind (f i s) (kfold f is)"

lemma kfold_append: "kfold f (xs @ ys) s = kbind (kfold f xs s) (kfold f ys)"
  by (induction xs arbitrary: s) (auto simp: kbind_assoc intro: kbind_cong)

lemma kfold_Nil_fun [simp]: "kfold f [] = Ok"
  by (rule ext) simp

lemma kfold_snoc: "kfold f (xs @ [x]) s = kbind (kfold f xs s) (f x)"
proof -
  have "kfold f [x] = f x" by (rule ext) simp
  then show ?thesis by (simp add: kfold_append)
qed

lemma kfold_invariant:
  assumes "P s" and "\<And>i s. i \<in> set is \<Longrightarrow> P s \<Longrightarrow> kok P (f i s)"
  shows "kok P (kfold f is s)"
  using assms
proof (induction "is" arbitrary: s)
  case Nil
  then show ?case by simp
next
  case (Cons i js)
  then have "kok P (f i s)" by simp
  then obtain s' where "f i s = Ok s'" "P s'" by (auto simp: kok_def)
  moreover have "kok P (kfold f js s')"
    using Cons.prems(2) \<open>P s'\<close> by (intro Cons.IH) auto
  ultimately show ?case by simp
qed

text \<open>
  A loop that may return early: the body gives \<open>Some r\<close> to return \<open>r\<close>, \<open>None\<close> to go on.
\<close>

primrec kfor :: "('i \<Rightarrow> 's \<Rightarrow> ('r option \<times> 's) kres) \<Rightarrow> 'i list \<Rightarrow> 's \<Rightarrow> ('r option \<times> 's) kres" where
  "kfor f [] s = Ok (None, s)"
| "kfor f (i # is) s =
     kbind (f i s) (\<lambda>(r, s). case r of None \<Rightarrow> kfor f is s | Some v \<Rightarrow> Ok (Some v, s))"

text \<open>
  The first index of a table that satisfies a test, as in a \<open>for\<close> loop that breaks.
\<close>

primrec find_index_from :: "nat \<Rightarrow> ('a \<Rightarrow> bool) \<Rightarrow> 'a list \<Rightarrow> nat option" where
  "find_index_from k P [] = None"
| "find_index_from k P (x # xs) = (if P x then Some k else find_index_from (Suc k) P xs)"

definition find_index :: "('a \<Rightarrow> bool) \<Rightarrow> 'a list \<Rightarrow> nat option" where
  "find_index P xs = find_index_from 0 P xs"

lemma find_index_from_None:
  "find_index_from k P xs = None \<longleftrightarrow> (\<forall>x \<in> set xs. \<not> P x)"
  by (induction xs arbitrary: k) auto

lemma find_index_from_Some:
  "find_index_from k P xs = Some i \<Longrightarrow>
     k \<le> i \<and> i - k < length xs \<and> P (xs ! (i - k)) \<and> (\<forall>j < i - k. \<not> P (xs ! j))"
proof (induction xs arbitrary: k)
  case Nil
  then show ?case by simp
next
  case (Cons x xs)
  show ?case
  proof (cases "P x")
    case True
    with Cons.prems show ?thesis by simp
  next
    case False
    with Cons.prems have "find_index_from (Suc k) P xs = Some i" by simp
    from Cons.IH [OF this] have
      IH: "Suc k \<le> i" "i - Suc k < length xs" "P (xs ! (i - Suc k))"
        "\<forall>j < i - Suc k. \<not> P (xs ! j)"
      by auto
    then have "i - k = Suc (i - Suc k)" by simp
    with IH False show ?thesis by (auto simp: less_Suc_eq_0_disj)
  qed
qed

lemma find_index_None: "find_index P xs = None \<longleftrightarrow> (\<forall>x \<in> set xs. \<not> P x)"
  by (simp add: find_index_def find_index_from_None)

lemma find_index_Some:
  "find_index P xs = Some i \<Longrightarrow> i < length xs \<and> P (xs ! i) \<and> (\<forall>j < i. \<not> P (xs ! j))"
  using find_index_from_Some [of 0 P xs i] by (simp add: find_index_def)

section \<open>Word arithmetic\<close>

lemma unat_add_no_wrap:
  fixes a b :: "'a::len word"
  assumes "unat a + unat b < 2 ^ LENGTH('a)"
  shows "unat (a + b) = unat a + unat b"
  using assms by (simp add: unat_word_ariths)

lemma unat_word_of_nat [simp]:
  assumes "n < 2 ^ LENGTH('a)"
  shows "unat (word_of_nat n :: 'a::len word) = n"
  using assms by (simp add: unat_of_nat)

lemma unat_add_of_nat:
  fixes a :: "'a::len word"
  assumes "unat a + n < 2 ^ LENGTH('a)"
  shows "unat (a + word_of_nat n) = unat a + n"
  using assms by (subst unat_add_no_wrap) simp_all

lemma word_eq_iff_unat: "(a :: 'a::len word) = b \<longleftrightarrow> unat a = unat b"
  by (auto intro: word_unat_eq_iff [THEN iffD2])

lemma word_add_sub_of_nat [simp]: "(a + word_of_nat n :: 'a::len word) - a = word_of_nat n"
  by simp

end
