(* ===== verification/Spin_Lock.thy ===== *)
theory Spin_Lock
  imports Prelude
begin

text \<open>
  Spin locks and interrupt nesting: kernel/trap/introff.c, kernel/lock/spin_lock.c and the
  parts of include/cpus.h they use.

  The first half is the code on a machine with many CPUs: \<open>hart\<close> is the interrupt state a CPU
  keeps (\<open>sstatus.SIE\<close> and the two fields of \<open>struct cpu\<close>), \<open>spin_lock\<close> is the C struct, and
  the steps of \<open>acquire_spin_lock\<close> and \<open>release_spin_lock\<close> interleave between CPUs at the
  granularity of their memory accesses. Mutual exclusion is proved for every interleaving.

  The second half is what one CPU sees of its own locks (\<open>lock_state\<close>: the locks it holds and
  its nesting depth). Code between an acquire and the matching release runs with no other CPU
  touching the data the lock protects, so the kernel components below run on this view.
\<close>

section \<open>Interrupt nesting\<close>

record hart =
  sie :: bool
  origin_ie :: bool
  introff_n :: int

text \<open>\<open>cpu_id\<close> of cpus.h spins for ever when interrupts are on, and \<open>my_cpu\<close> calls it.\<close>

definition my_cpu_guard :: "hart \<Rightarrow> hart kres" where
  "my_cpu_guard h = (if sie h then Hang else Ok h)"

definition push_introff :: "hart \<Rightarrow> hart kres" where
  "push_introff h =
     (let oie = sie h in
      kbind (my_cpu_guard (h\<lparr>sie := False\<rparr>)) (\<lambda>h.
        let h = (if introff_n h = 0 then h\<lparr>origin_ie := oie\<rparr> else h) in
        Ok (h\<lparr>introff_n := introff_n h + 1\<rparr>)))"

definition pop_introff :: "hart \<Rightarrow> hart kres" where
  "pop_introff h =
     kbind (my_cpu_guard h) (\<lambda>h.
       if sie h then Panic ''pop_introff when status(sie) != 0''
       else if introff_n h \<le> 0 then Panic ''pop_introff without push_introff before''
       else
         let h = h\<lparr>introff_n := introff_n h - 1\<rparr> in
         if introff_n h = 0 \<and> origin_ie h then Ok (h\<lparr>sie := True\<rparr>) else Ok h)"

lemma push_introff_eq:
  "push_introff h = Ok (h\<lparr>sie := False,
     origin_ie := (if introff_n h = 0 then sie h else origin_ie h), introff_n := introff_n h + 1\<rparr>)"
  by (simp add: push_introff_def my_cpu_guard_def Let_def)

text \<open>Interrupts are off whenever the nesting depth is positive.\<close>

definition hart_ok :: "hart \<Rightarrow> bool" where
  "hart_ok h \<longleftrightarrow> 0 \<le> introff_n h \<and> (0 < introff_n h \<longrightarrow> \<not> sie h)"

lemma push_introff_ok: "hart_ok h \<Longrightarrow> kok (\<lambda>h'. hart_ok h' \<and> 0 < introff_n h') (push_introff h)"
  by (auto simp: push_introff_eq hart_ok_def)

lemma pop_introff_ok:
  "hart_ok h \<Longrightarrow> 0 < introff_n h \<Longrightarrow> kok (\<lambda>h'. hart_ok h' \<and> introff_n h' = introff_n h - 1) (pop_introff h)"
  by (auto simp: pop_introff_def my_cpu_guard_def hart_ok_def Let_def)

fun push_n :: "nat \<Rightarrow> hart \<Rightarrow> hart kres" where
  "push_n 0 h = Ok h"
| "push_n (Suc n) h = kbind (push_introff h) (push_n n)"

fun pop_n :: "nat \<Rightarrow> hart \<Rightarrow> hart kres" where
  "pop_n 0 h = Ok h"
| "pop_n (Suc n) h = kbind (pop_introff h) (pop_n n)"

lemma push_n_eq:
  "hart_ok h \<Longrightarrow> push_n n h = Ok (h\<lparr>sie := (if n = 0 then sie h else False),
     origin_ie := (if n \<noteq> 0 \<and> introff_n h = 0 then sie h else origin_ie h),
     introff_n := introff_n h + int n\<rparr>)"
proof (induction n arbitrary: h)
  case 0
  then show ?case by simp
next
  case (Suc n)
  then show ?case
    by (auto simp: push_introff_eq hart_ok_def)
qed

lemma pop_n_eq:
  "\<not> sie h \<Longrightarrow> int n \<le> introff_n h \<Longrightarrow>
   pop_n n h = Ok (h\<lparr>sie := (n \<noteq> 0 \<and> introff_n h = int n \<and> origin_ie h), introff_n := introff_n h - int n\<rparr>)"
proof (induction n arbitrary: h)
  case 0
  then show ?case by simp
next
  case (Suc n)
  let ?h = "h\<lparr>introff_n := introff_n h - 1\<rparr>"
  show ?case
  proof (cases "n = 0")
    case True
    with Suc.prems show ?thesis
      by (auto simp: pop_introff_def my_cpu_guard_def Let_def)
  next
    case False
    with Suc.prems have "pop_introff h = Ok ?h"
      by (auto simp: pop_introff_def my_cpu_guard_def Let_def)
    moreover have "pop_n n ?h = Ok (?h\<lparr>sie := (n \<noteq> 0 \<and> introff_n ?h = int n \<and> origin_ie ?h),
        introff_n := introff_n ?h - int n\<rparr>)"
      using Suc.prems by (intro Suc.IH) auto
    ultimately show ?thesis using False by (auto simp: algebra_simps)
  qed
qed

section \<open>The lock\<close>

record spin_lock =
  locked :: u32
  cpu_id :: u64

definition init_spin_lock :: spin_lock where
  "init_spin_lock = \<lparr>locked = 0, cpu_id = -1\<rparr>"

definition check_not_hold :: "hart \<Rightarrow> u64 \<Rightarrow> spin_lock \<Rightarrow> unit kres" where
  "check_not_hold h me l =
     kbind (my_cpu_guard h) (\<lambda>_.
       if cpu_id l = me then Panic ''check_not_hold: acquired holding lock'' else Ok ())"

definition check_hold :: "hart \<Rightarrow> u64 \<Rightarrow> spin_lock \<Rightarrow> unit kres" where
  "check_hold h me l =
     (if locked l \<noteq> 1 then Panic ''check_hold: release spin_lock never acquired''
      else kbind (my_cpu_guard h) (\<lambda>_.
        if cpu_id l \<noteq> me then Panic ''check_hold: release spin_lock not hold by this cpu''
        else Ok ()))"

text \<open>
  The machine: one lock per name \<open>'l\<close>, one hart per CPU number. The code of a CPU is between
  two lock calls, or inside one of them.
\<close>

datatype 'l lock_pc =
    Running            \<comment> \<open>outside the lock functions\<close>
  | Spinning 'l        \<comment> \<open>past check_not_hold, in the test-and-set loop\<close>
  | Taken 'l           \<comment> \<open>the test-and-set returned 0; cpu_id not stored yet\<close>
  | Unowned 'l         \<comment> \<open>in release: cpu_id cleared, locked not yet\<close>
  | Popping 'l         \<comment> \<open>in release: locked cleared, pop_introff not called yet\<close>

record 'l lock_sys =
  locks :: "'l \<Rightarrow> spin_lock"
  harts :: "u64 \<Rightarrow> hart"
  pc :: "u64 \<Rightarrow> 'l lock_pc"
  owned :: "u64 \<Rightarrow> 'l set"   \<comment> \<open>ghost: the locks whose acquire has returned\<close>

definition init_lock_sys :: "'l lock_sys" where
  "init_lock_sys = \<lparr>locks = (\<lambda>_. init_spin_lock),
     harts = (\<lambda>_. \<lparr>sie = False, origin_ie = False, introff_n = 0\<rparr>),
     pc = (\<lambda>_. Running), owned = (\<lambda>_. {})\<rparr>"

text \<open>
  The five pieces of code, each one atomic access to the lock: what CPU \<open>me\<close> does to the
  machine. \<open>Block\<close> is one unsuccessful turn of the spin loop.
\<close>

definition acquire_enter :: "u64 \<Rightarrow> 'l \<Rightarrow> 'l lock_sys \<Rightarrow> 'l lock_sys kres" where
  "acquire_enter me l s =
     kbind (push_introff (harts s me)) (\<lambda>h.
     kbind (check_not_hold h me (locks s l)) (\<lambda>_.
       Ok (s\<lparr>harts := (harts s)(me := h), pc := (pc s)(me := Spinning l)\<rparr>)))"

definition acquire_try :: "u64 \<Rightarrow> 'l \<Rightarrow> 'l lock_sys \<Rightarrow> 'l lock_sys kres" where
  "acquire_try me l s =
     (if locked (locks s l) \<noteq> 0 then Block
      else Ok (s\<lparr>locks := (locks s)(l := (locks s l)\<lparr>locked := 1\<rparr>),
                pc := (pc s)(me := Taken l)\<rparr>))"

definition acquire_finish :: "u64 \<Rightarrow> 'l \<Rightarrow> 'l lock_sys \<Rightarrow> 'l lock_sys kres" where
  "acquire_finish me l s =
     Ok (s\<lparr>locks := (locks s)(l := (locks s l)\<lparr>cpu_id := me\<rparr>),
          pc := (pc s)(me := Running), owned := (owned s)(me := insert l (owned s me))\<rparr>)"

definition release_enter :: "u64 \<Rightarrow> 'l \<Rightarrow> 'l lock_sys \<Rightarrow> 'l lock_sys kres" where
  "release_enter me l s =
     kbind (check_hold (harts s me) me (locks s l)) (\<lambda>_.
       Ok (s\<lparr>locks := (locks s)(l := (locks s l)\<lparr>cpu_id := -1\<rparr>),
            pc := (pc s)(me := Unowned l), owned := (owned s)(me := owned s me - {l})\<rparr>))"

definition release_unlock :: "u64 \<Rightarrow> 'l \<Rightarrow> 'l lock_sys \<Rightarrow> 'l lock_sys kres" where
  "release_unlock me l s =
     Ok (s\<lparr>locks := (locks s)(l := (locks s l)\<lparr>locked := 0\<rparr>), pc := (pc s)(me := Popping l)\<rparr>)"

definition release_pop :: "u64 \<Rightarrow> 'l lock_sys \<Rightarrow> 'l lock_sys kres" where
  "release_pop me s =
     kbind (pop_introff (harts s me)) (\<lambda>h.
       Ok (s\<lparr>harts := (harts s)(me := h), pc := (pc s)(me := Running)\<rparr>))"

text \<open>The two functions, run by one CPU with no other CPU in between.\<close>

definition acquire_spin_lock :: "u64 \<Rightarrow> 'l \<Rightarrow> 'l lock_sys \<Rightarrow> 'l lock_sys kres" where
  "acquire_spin_lock me l s =
     kbind (acquire_enter me l s) (\<lambda>s. kbind (acquire_try me l s) (acquire_finish me l))"

definition release_spin_lock :: "u64 \<Rightarrow> 'l \<Rightarrow> 'l lock_sys \<Rightarrow> 'l lock_sys kres" where
  "release_spin_lock me l s =
     kbind (release_enter me l s) (\<lambda>s. kbind (release_unlock me l s) (release_pop me))"

text \<open>
  Every interleaving of the CPUs \<open>0 \<dots> MAX_CPU_NUM - 1\<close>. A CPU starts an acquire or a release of
  any lock whenever it is outside the lock functions; outside them, and with no lock held, it
  may also turn interrupts on (\<open>intron\<close> in the scheduler and in the trap handlers).
\<close>

definition MAX_CPU_NUM :: nat where "MAX_CPU_NUM = 8"

definition is_cpu :: "u64 \<Rightarrow> bool" where
  "is_cpu c \<longleftrightarrow> unat c < MAX_CPU_NUM"

lemma not_is_cpu_minus_one [simp]: "\<not> is_cpu (- 1)"
  by (simp add: is_cpu_def MAX_CPU_NUM_def unsigned_minus_1_eq_mask mask_eq_exp_minus_1)

inductive lock_step :: "'l lock_sys \<Rightarrow> 'l lock_sys \<Rightarrow> bool" where
  enter: "is_cpu c \<Longrightarrow> pc s c = Running \<Longrightarrow> acquire_enter c l s = Ok t \<Longrightarrow> lock_step s t"
| spin: "is_cpu c \<Longrightarrow> pc s c = Spinning l \<Longrightarrow> acquire_try c l s = Ok t \<Longrightarrow> lock_step s t"
| finish: "is_cpu c \<Longrightarrow> pc s c = Taken l \<Longrightarrow> acquire_finish c l s = Ok t \<Longrightarrow> lock_step s t"
| leave: "is_cpu c \<Longrightarrow> pc s c = Running \<Longrightarrow> release_enter c l s = Ok t \<Longrightarrow> lock_step s t"
| unlock: "is_cpu c \<Longrightarrow> pc s c = Unowned l \<Longrightarrow> release_unlock c l s = Ok t \<Longrightarrow> lock_step s t"
| popoff: "is_cpu c \<Longrightarrow> pc s c = Popping l \<Longrightarrow> release_pop c s = Ok t \<Longrightarrow> lock_step s t"
| intr_on: "is_cpu c \<Longrightarrow> pc s c = Running \<Longrightarrow> introff_n (harts s c) = 0 \<Longrightarrow>
    lock_step s (s\<lparr>harts := (harts s)(c := (harts s c)\<lparr>sie := True\<rparr>)\<rparr>)"

inductive lock_reachable :: "'l lock_sys \<Rightarrow> bool" where
  start: "lock_reachable init_lock_sys"
| step: "lock_reachable s \<Longrightarrow> lock_step s t \<Longrightarrow> lock_reachable t"

text \<open>
  The invariant ties the lock word to the program counters: CPU \<open>c\<close> occupies \<open>l\<close> when it owns
  it, has just taken it or has not unlocked it yet.
\<close>

definition occupies :: "'l lock_sys \<Rightarrow> u64 \<Rightarrow> 'l \<Rightarrow> bool" where
  "occupies s c l \<longleftrightarrow> l \<in> owned s c \<or> pc s c = Taken l \<or> pc s c = Unowned l"

definition lock_inv :: "'l lock_sys \<Rightarrow> bool" where
  "lock_inv s \<longleftrightarrow>
     (\<forall>c l. occupies s c l \<longrightarrow> is_cpu c \<and> locked (locks s l) = 1 \<and> (\<forall>d. occupies s d l \<longrightarrow> d = c)) \<and>
     (\<forall>c l. l \<in> owned s c \<longleftrightarrow> is_cpu c \<and> cpu_id (locks s l) = c) \<and>
     (\<forall>c l. pc s c = Taken l \<or> pc s c = Unowned l \<longrightarrow> l \<notin> owned s c) \<and>
     (\<forall>l. locked (locks s l) \<noteq> 0 \<longrightarrow> locked (locks s l) = 1 \<and> (\<exists>c. occupies s c l))"

lemma lock_inv_init: "lock_inv init_lock_sys"
  by (auto simp: lock_inv_def init_lock_sys_def occupies_def init_spin_lock_def)

lemmas lock_code =
  acquire_enter_def acquire_try_def acquire_finish_def release_enter_def release_unlock_def
  release_pop_def check_not_hold_def check_hold_def my_cpu_guard_def

text \<open>Each step moves at most one CPU's claim on one lock.\<close>

lemma enter_effect:
  assumes "pc s c = Running" and "acquire_enter c l s = Ok t"
  shows "locks t = locks s" "owned t = owned s" "occupies t d k \<longleftrightarrow> occupies s d k"
    "pc t d = Taken k \<or> pc t d = Unowned k \<longleftrightarrow> pc s d = Taken k \<or> pc s d = Unowned k"
  using assms by (auto simp: lock_code occupies_def split: if_splits)

lemma spin_effect:
  assumes "pc s c = Spinning l" and "acquire_try c l s = Ok t"
  shows "locked (locks s l) = 0" "owned t = owned s"
    "locks t = (locks s)(l := (locks s l)\<lparr>locked := 1\<rparr>)"
    "occupies t d k \<longleftrightarrow> occupies s d k \<or> d = c \<and> k = l"
    "pc t d = Taken k \<or> pc t d = Unowned k \<longleftrightarrow> d = c \<and> k = l \<or> pc s d = Taken k \<or> pc s d = Unowned k"
  using assms by (auto simp: lock_code occupies_def split: if_splits)

lemma finish_effect:
  assumes "pc s c = Taken l" and "acquire_finish c l s = Ok t"
  shows "owned t = (owned s)(c := insert l (owned s c))"
    "locks t = (locks s)(l := (locks s l)\<lparr>cpu_id := c\<rparr>)"
    "occupies t d k \<longleftrightarrow> occupies s d k"
    "pc t d = Taken k \<or> pc t d = Unowned k \<longleftrightarrow> d \<noteq> c \<and> (pc s d = Taken k \<or> pc s d = Unowned k)"
  using assms by (auto simp: lock_code occupies_def split: if_splits)

lemma leave_effect:
  assumes "pc s c = Running" and "release_enter c l s = Ok t"
  shows "cpu_id (locks s l) = c" "owned t = (owned s)(c := owned s c - {l})"
    "locks t = (locks s)(l := (locks s l)\<lparr>cpu_id := -1\<rparr>)"
    "l \<in> owned s c \<Longrightarrow> occupies t d k \<longleftrightarrow> occupies s d k"
    "pc t d = Taken k \<or> pc t d = Unowned k \<longleftrightarrow> d = c \<and> k = l \<or> pc s d = Taken k \<or> pc s d = Unowned k"
  using assms by (auto simp: lock_code occupies_def split: if_splits)

lemma unlock_effect:
  assumes "pc s c = Unowned l" and "release_unlock c l s = Ok t"
  shows "owned t = owned s" "locks t = (locks s)(l := (locks s l)\<lparr>locked := 0\<rparr>)"
    "l \<notin> owned s c \<Longrightarrow> occupies t d k \<longleftrightarrow> occupies s d k \<and> \<not> (d = c \<and> k = l)"
    "pc t d = Taken k \<or> pc t d = Unowned k \<longleftrightarrow> d \<noteq> c \<and> (pc s d = Taken k \<or> pc s d = Unowned k)"
  using assms by (auto simp: lock_code occupies_def split: if_splits)

lemma popoff_effect:
  assumes "pc s c = Popping l" and "release_pop c s = Ok t"
  shows "locks t = locks s" "owned t = owned s" "occupies t d k \<longleftrightarrow> occupies s d k"
    "pc t d = Taken k \<or> pc t d = Unowned k \<longleftrightarrow> pc s d = Taken k \<or> pc s d = Unowned k"
  using assms by (auto simp: lock_code occupies_def split: if_splits)

lemma lock_invD:
  assumes "lock_inv s"
  shows occ_cpu: "occupies s c l \<Longrightarrow> is_cpu c"
    and occ_locked: "occupies s c l \<Longrightarrow> locked (locks s l) = 1"
    and occ_unique: "occupies s c l \<Longrightarrow> occupies s d l \<Longrightarrow> d = c"
    and owned_iff: "l \<in> owned s c \<longleftrightarrow> is_cpu c \<and> cpu_id (locks s l) = c"
    and not_owned: "pc s c = Taken l \<or> pc s c = Unowned l \<Longrightarrow> l \<notin> owned s c"
    and locked_occ: "locked (locks s l) \<noteq> 0 \<Longrightarrow> locked (locks s l) = 1 \<and> (\<exists>c. occupies s c l)"
  using assms unfolding lock_inv_def by blast+

lemma not_owned_id:
  assumes "lock_inv s" and "pc s (cpu_id (locks s l)) \<in> {Taken l, Unowned l}"
  shows "\<not> is_cpu (cpu_id (locks s l))"
  using not_owned [OF assms(1), of "cpu_id (locks s l)" l] owned_iff [OF assms(1), of l "cpu_id (locks s l)"]
    assms(2) by blast

lemma not_owned_id':
  "lock_inv s \<Longrightarrow> pc s (cpu_id (locks s l)) = Taken l \<Longrightarrow> \<not> is_cpu (cpu_id (locks s l))"
  "lock_inv s \<Longrightarrow> pc s (cpu_id (locks s l)) = Unowned l \<Longrightarrow> \<not> is_cpu (cpu_id (locks s l))"
  by (simp_all add: not_owned_id)

lemma lock_invI:
  assumes "\<And>c l. occupies s c l \<Longrightarrow> is_cpu c"
    and "\<And>c l. occupies s c l \<Longrightarrow> locked (locks s l) = 1"
    and "\<And>c d l. occupies s c l \<Longrightarrow> occupies s d l \<Longrightarrow> d = c"
    and "\<And>c l. l \<in> owned s c \<longleftrightarrow> is_cpu c \<and> cpu_id (locks s l) = c"
    and "\<And>c l. pc s c = Taken l \<or> pc s c = Unowned l \<Longrightarrow> l \<notin> owned s c"
    and "\<And>l. locked (locks s l) \<noteq> 0 \<Longrightarrow> locked (locks s l) = 1 \<and> (\<exists>c. occupies s c l)"
  shows "lock_inv s"
  using assms unfolding lock_inv_def by blast

lemma lock_inv_uniform:
  assumes "lock_inv s" "locks t = locks s" "owned t = owned s"
    and "\<And>d k. occupies t d k \<longleftrightarrow> occupies s d k"
    and "\<And>d k. pc t d = Taken k \<or> pc t d = Unowned k \<longleftrightarrow> pc s d = Taken k \<or> pc s d = Unowned k"
  shows "lock_inv t"
  using assms(1) unfolding lock_inv_def assms(2-5) .

lemma lock_step_inv:
  assumes step: "lock_step s t" and inv: "lock_inv s"
  shows "lock_inv t"
  using step
proof (cases rule: lock_step.cases)
  case (enter c l)
  show ?thesis
    by (rule lock_inv_uniform [OF inv enter_effect [OF enter(2,3)]])
next
  case (spin c l)
  note e = spin_effect [OF spin(2,3)]
  have free: "\<not> occupies s d l" for d
    using occ_locked [OF inv, of d l] e(1) by auto
  have nown: "l \<notin> owned s d" for d
    using free [of d] by (simp add: occupies_def)
  show ?thesis
    by (rule lock_invI; (unfold e(2-5))?)
      (use spin(1) free nown in \<open>auto simp: lock_invD [OF inv] dest: occ_unique [OF inv] locked_occ [OF inv]
        not_owned [OF inv] not_owned_id' [OF inv]\<close>)
next
  case (finish c l)
  note e = finish_effect [OF finish(2,3)]
  have only: "occupies s d l \<longleftrightarrow> d = c" for d
    using finish(2) occ_unique [OF inv, of c l d] by (auto simp: occupies_def)
  then have "l \<notin> owned s d" if "d \<noteq> c" for d
    using that by (auto simp: occupies_def)
  then show ?thesis
    by (intro lock_invI; (unfold e)?)
      (use finish(1) only in \<open>auto simp: lock_invD [OF inv] dest: occ_unique [OF inv] locked_occ [OF inv]
        not_owned [OF inv] not_owned_id' [OF inv]\<close>)
next
  case (leave c l)
  note e = leave_effect [OF leave(2,3)]
  have own: "l \<in> owned s c" using e(1) leave(1) owned_iff [OF inv] by simp
  then have only: "occupies s d l \<longleftrightarrow> d = c" for d
    using occ_unique [OF inv, of c l d] by (auto simp: occupies_def)
  then have others: "l \<notin> owned s d" if "d \<noteq> c" for d
    using that by (auto simp: occupies_def)
  show ?thesis
    by (rule lock_invI; (unfold e(2,3) e(4) [OF own] e(5))?)
      (use leave(1) only others in \<open>auto simp: lock_invD [OF inv] dest: occ_unique [OF inv] locked_occ [OF inv]
        not_owned [OF inv] not_owned_id' [OF inv]\<close>)
next
  case (unlock c l)
  note e = unlock_effect [OF unlock(2,3)]
  have nown: "l \<notin> owned s c" using not_owned [OF inv] unlock(2) by auto
  have only: "occupies s d l \<longleftrightarrow> d = c" for d
    using unlock(2) occ_unique [OF inv, of c l d] by (auto simp: occupies_def)
  show ?thesis
    by (rule lock_invI; (unfold e(1,2) e(3) [OF nown] e(4))?)
      (use only in \<open>auto simp: lock_invD [OF inv] dest: occ_unique [OF inv] locked_occ [OF inv]
        not_owned [OF inv] not_owned_id' [OF inv]\<close>)
next
  case (popoff c l)
  show ?thesis
    by (rule lock_inv_uniform [OF inv popoff_effect [OF popoff(2,3)]])
next
  case (intr_on c)
  show ?thesis
    by (rule lock_inv_uniform [OF inv]) (simp_all add: intr_on occupies_def)
qed

lemma lock_reachable_inv: "lock_reachable s \<Longrightarrow> lock_inv s"
  by (induction rule: lock_reachable.induct) (auto intro: lock_inv_init lock_step_inv)

text \<open>The nesting depth counts the locks a CPU holds, plus the lock call it is inside.\<close>

definition depth_inv :: "'l lock_sys \<Rightarrow> bool" where
  "depth_inv s \<longleftrightarrow> (\<forall>c. finite (owned s c) \<and> hart_ok (harts s c) \<and>
     introff_n (harts s c) = int (card (owned s c)) + (if pc s c = Running then 0 else 1))"

lemma depth_inv_init: "depth_inv init_lock_sys"
  by (simp add: depth_inv_def init_lock_sys_def hart_ok_def)

lemma depth_invI:
  assumes "depth_inv s"
    and "\<And>d. d \<noteq> c \<Longrightarrow> owned t d = owned s d \<and> harts t d = harts s d \<and> pc t d = pc s d"
    and "finite (owned t c)" "hart_ok (harts t c)"
    and "introff_n (harts t c) = int (card (owned t c)) + (if pc t c = Running then 0 else 1)"
  shows "depth_inv t"
  unfolding depth_inv_def
proof
  fix d
  show "finite (owned t d) \<and> hart_ok (harts t d) \<and>
    introff_n (harts t d) = int (card (owned t d)) + (if pc t d = Running then 0 else 1)"
    using assms by (cases "d = c") (simp_all add: depth_inv_def)
qed

lemma lock_step_depth:
  assumes step: "lock_step s t" and inv: "lock_inv s" and dep: "depth_inv s"
  shows "depth_inv t"
  using step
proof (cases rule: lock_step.cases)
  case (enter c l)
  with dep [unfolded depth_inv_def, rule_format, of c] show ?thesis
    by (intro depth_invI [OF dep, of c]) (auto simp: lock_code push_introff_eq hart_ok_def split: if_splits)
next
  case (spin c l)
  with dep [unfolded depth_inv_def, rule_format, of c] show ?thesis
    by (intro depth_invI [OF dep, of c]) (auto simp: lock_code split: if_splits)
next
  case (finish c l)
  then have "l \<notin> owned s c" using not_owned [OF inv] by blast
  with finish dep [unfolded depth_inv_def, rule_format, of c] show ?thesis
    by (intro depth_invI [OF dep, of c]) (auto simp: lock_code)
next
  case (leave c l)
  then have own: "l \<in> owned s c"
    using leave_effect(1) [OF leave(2,3)] owned_iff [OF inv, of l c] by simp
  then have "0 < card (owned s c)"
    using dep by (auto simp: depth_inv_def card_gt_0_iff)
  with own leave dep [unfolded depth_inv_def, rule_format, of c] show ?thesis
    by (intro depth_invI [OF dep, of c]) (auto simp: lock_code of_nat_diff split: if_splits)
next
  case (unlock c l)
  with dep [unfolded depth_inv_def, rule_format, of c] show ?thesis
    by (intro depth_invI [OF dep, of c]) (auto simp: lock_code)
next
  case (popoff c l)
  with dep [unfolded depth_inv_def, rule_format, of c] show ?thesis
    by (intro depth_invI [OF dep, of c])
      (auto simp: lock_code pop_introff_def my_cpu_guard_def hart_ok_def Let_def split: if_splits)
next
  case (intr_on c)
  with dep [unfolded depth_inv_def, rule_format, of c] show ?thesis
    by (intro depth_invI [OF dep, of c]) (auto simp: hart_ok_def)
qed

lemma lock_reachable_depth: "lock_reachable s \<Longrightarrow> depth_inv s"
  by (induction rule: lock_reachable.induct)
    (auto intro: depth_inv_init lock_step_depth lock_reachable_inv)

section \<open>One CPU's view of its locks\<close>

datatype lock_id =
    MemContainerLock | PidLock | FreeCpusLock | UmBoxLock | TickLock | LogLock | BcacheLock
  | IcacheLock | FtableLock | VdiskLock | InputLinesLock | UartInputLock | UartOutputLock
  | KprintfLock | ProcLock nat | PgroupLock nat | PipeLock u64 | BufLk nat | InodeLk nat | RwLk

record lock_state =
  held :: "lock_id set"
  noff :: nat

definition acquire :: "lock_id \<Rightarrow> 'a lock_state_scheme \<Rightarrow> 'a lock_state_scheme kres" where
  "acquire l s =
     (if l \<in> held s then Panic ''check_not_hold: acquired holding lock''
      else Ok (s\<lparr>held := insert l (held s), noff := Suc (noff s)\<rparr>))"

definition release :: "lock_id \<Rightarrow> 'a lock_state_scheme \<Rightarrow> 'a lock_state_scheme kres" where
  "release l s =
     (if l \<notin> held s then Panic ''check_hold: release spin_lock never acquired''
      else if noff s = 0 then Panic ''pop_introff without push_introff before''
      else Ok (s\<lparr>held := held s - {l}, noff := noff s - 1\<rparr>))"

definition push_off :: "'a lock_state_scheme \<Rightarrow> 'a lock_state_scheme kres" where
  "push_off s = Ok (s\<lparr>noff := Suc (noff s)\<rparr>)"

definition pop_off :: "'a lock_state_scheme \<Rightarrow> 'a lock_state_scheme kres" where
  "pop_off s =
     (if noff s = 0 then Panic ''pop_introff without push_introff before''
      else Ok (s\<lparr>noff := noff s - 1\<rparr>))"

lemma acquire_free [lock_simps]:
  "l \<notin> held s \<Longrightarrow> acquire l s = Ok (s\<lparr>held := insert l (held s), noff := Suc (noff s)\<rparr>)"
  by (simp add: acquire_def)

lemma release_held [lock_simps]:
  "l \<in> held s \<Longrightarrow> 0 < noff s \<Longrightarrow> release l s = Ok (s\<lparr>held := held s - {l}, noff := noff s - 1\<rparr>)"
  by (simp add: release_def)

lemma pop_off_pos [lock_simps]: "0 < noff s \<Longrightarrow> pop_off s = Ok (s\<lparr>noff := noff s - 1\<rparr>)"
  by (simp add: pop_off_def)

declare push_off_def [lock_simps]

definition lock_view :: "u64 \<Rightarrow> lock_id lock_sys \<Rightarrow> lock_state" where
  "lock_view c s = \<lparr>held = owned s c, noff = nat (introff_n (harts s c))\<rparr>"

section \<open>Properties\<close>

text \<open>
  C1: mutual exclusion of spin locks. In every state that the CPUs can reach by any
  interleaving of their lock calls (test-and-set, store of the owner, clearing of owner and
  lock word as separate steps), no lock is owned by two CPUs, and a CPU that owns a lock has
  its interrupts off.
\<close>

theorem spin_lock_mutual_exclusion:
  assumes "lock_reachable s" and "l \<in> owned s c"
  shows "\<not> sie (harts s c) \<and> (\<forall>d. l \<in> owned s d \<longrightarrow> d = c)"
proof
  have dep: "depth_inv s" and inv: "lock_inv s"
    using assms(1) by (auto intro: lock_reachable_depth lock_reachable_inv)
  have "0 < card (owned s c)"
    using dep assms(2) by (auto simp: depth_inv_def card_gt_0_iff)
  then show "\<not> sie (harts s c)"
    using dep [unfolded depth_inv_def, rule_format, of c] by (auto simp: hart_ok_def)
  show "\<forall>d. l \<in> owned s d \<longrightarrow> d = c"
    using occ_unique [OF inv, of c l] assms(2) by (auto simp: occupies_def)
qed

theorem spin_lock_mutual_exclusion_witness:
  "\<exists>s. lock_reachable s \<and> (3 :: nat) \<in> owned s 5 \<and> \<not> sie (harts s 5) \<and> (\<forall>d. 3 \<in> owned s d \<longrightarrow> d = 5)"
proof -
  have c: "is_cpu 5" by (simp add: is_cpu_def MAX_CPU_NUM_def)
  obtain s1 where s1: "acquire_enter 5 3 (init_lock_sys :: nat lock_sys) = Ok s1"
    "pc s1 5 = Spinning 3" "locked (locks s1 3) = 0"
    by (simp add: lock_code push_introff_eq init_lock_sys_def init_spin_lock_def)
  obtain s2 where s2: "acquire_try 5 3 s1 = Ok s2" "pc s2 5 = Taken 3"
    using s1 by (simp add: lock_code)
  obtain s3 where s3: "acquire_finish 5 3 s2 = Ok s3" "3 \<in> owned s3 5"
    by (simp add: lock_code)
  have p: "pc (init_lock_sys :: nat lock_sys) 5 = Running" by (simp add: init_lock_sys_def)
  have "lock_reachable s1"
    by (rule lock_reachable.step [OF lock_reachable.start lock_step.enter [OF c p s1(1)]])
  from lock_reachable.step [OF this lock_step.spin [OF c s1(2) s2(1)]]
  have "lock_reachable s2" .
  from lock_reachable.step [OF this lock_step.finish [OF c s2(2) s3(1)]]
  have "lock_reachable s3" .
  with s3 spin_lock_mutual_exclusion [of s3 3 5] show ?thesis by blast
qed

text \<open>
  The debugging checks never fire wrongly. In every reachable state, a CPU outside the lock
  functions that calls \<open>acquire_spin_lock\<close> panics exactly when it already owns the lock, a CPU
  that calls \<open>release_spin_lock\<close> gets past the check exactly when it owns it (otherwise it
  panics, or stays in \<open>cpu_id\<close> when its interrupts are on and another CPU has the lock), and the
  \<open>pop_introff\<close> at the end of a release always succeeds.
\<close>

lemma spin_lock_checks_exact:
  assumes "lock_reachable s" and "is_cpu c"
  shows "(pc s c = Running \<longrightarrow>
      ((\<exists>e. acquire_enter c l s = Panic e) \<longleftrightarrow> l \<in> owned s c) \<and>
      ((\<exists>t. release_enter c l s = Ok t) \<longleftrightarrow> l \<in> owned s c) \<and>
      (l \<notin> owned s c \<longrightarrow> (\<exists>e. release_enter c l s = Panic e) \<or>
         release_enter c l s = Hang \<and> sie (harts s c) \<and> locked (locks s l) = 1)) \<and>
    (pc s c = Popping l \<longrightarrow> (\<exists>t. release_pop c s = Ok t))"
proof -
  have inv: "lock_inv s" and dep: "depth_inv s"
    using assms(1) by (auto intro: lock_reachable_depth lock_reachable_inv)
  have lk: "l \<in> owned s c \<Longrightarrow> locked (locks s l) = 1"
    using occ_locked [OF inv] by (auto simp: occupies_def)
  have "l \<in> owned s c \<Longrightarrow> 0 < card (owned s c)"
    using dep by (auto simp: depth_inv_def card_gt_0_iff)
  then have off: "l \<in> owned s c \<Longrightarrow> \<not> sie (harts s c)"
    using dep [unfolded depth_inv_def, rule_format, of c] by (auto simp: hart_ok_def)
  have "(\<exists>e. acquire_enter c l s = Panic e) \<longleftrightarrow> l \<in> owned s c"
    using assms(2) owned_iff [OF inv] by (auto simp: lock_code push_introff_eq)
  moreover have "(\<exists>t. release_enter c l s = Ok t) \<longleftrightarrow> l \<in> owned s c"
    using assms(2) owned_iff [OF inv] lk off by (auto simp: lock_code)
  moreover have "(\<exists>e. release_enter c l s = Panic e) \<or> release_enter c l s = Hang \<and> sie (harts s c) \<and> locked (locks s l) = 1"
    if "l \<notin> owned s c"
    using that assms(2) owned_iff [OF inv] by (auto simp: lock_code)
  moreover have "\<exists>t. release_pop c s = Ok t" if "pc s c = Popping l"
    using that dep [unfolded depth_inv_def, rule_format, of c]
    by (auto simp: lock_code pop_introff_def my_cpu_guard_def hart_ok_def Let_def)
  ultimately show ?thesis by blast
qed

text \<open>
  C6: the per-CPU view used by the kernel components is what the lock code does. When a CPU
  runs a whole acquire or release in a reachable state and it returns, the locks it owns and
  its nesting depth change as \<open>acquire\<close> and \<open>release\<close> say; when the acquire panics, so does
  the view.
\<close>

theorem lock_view_refines:
  assumes "lock_reachable s" and "is_cpu c" and "pc s c = Running"
  shows "(\<forall>t. acquire_spin_lock c l s = Ok t \<longrightarrow> acquire l (lock_view c s) = Ok (lock_view c t)) \<and>
    (\<forall>t. release_spin_lock c l s = Ok t \<longrightarrow> release l (lock_view c s) = Ok (lock_view c t)) \<and>
    (\<forall>e. acquire_spin_lock c l s = Panic e \<longrightarrow> acquire l (lock_view c s) = Panic e)"
proof -
  have inv: "lock_inv s" and dep: "depth_inv s"
    using assms(1) by (auto intro: lock_reachable_depth lock_reachable_inv)
  have n: "0 \<le> introff_n (harts s c)" and ok: "hart_ok (harts s c)"
    using dep by (auto simp: depth_inv_def hart_ok_def)
  have own: "l \<in> owned s c \<longleftrightarrow> cpu_id (locks s l) = c"
    using owned_iff [OF inv] assms(2) by simp
  have pos: "l \<in> owned s c \<Longrightarrow> 0 < introff_n (harts s c)"
    using dep by (auto simp: depth_inv_def card_gt_0_iff)
  have "acquire l (lock_view c s) = Ok (lock_view c t)" if "acquire_spin_lock c l s = Ok t" for t
    using that own n
    by (auto simp: acquire_spin_lock_def acquire_def lock_view_def lock_code push_introff_eq
        Suc_nat_eq_nat_zadd1 split: if_splits)
  moreover have "release l (lock_view c s) = Ok (lock_view c t)" if "release_spin_lock c l s = Ok t" for t
    using that own n pos
    by (auto simp: release_spin_lock_def release_def lock_view_def lock_code pop_introff_def
        my_cpu_guard_def Let_def nat_diff_distrib split: if_splits)
  moreover have "acquire l (lock_view c s) = Panic e" if "acquire_spin_lock c l s = Panic e" for e
    using that own
    by (auto simp: acquire_spin_lock_def acquire_def lock_view_def lock_code push_introff_eq
        kbind_Panic_conv split: if_splits)
  ultimately show ?thesis by blast
qed

theorem lock_view_refines_witness:
  "\<exists>t. lock_reachable (init_lock_sys :: lock_id lock_sys) \<and> is_cpu 1 \<and> acquire_spin_lock 1 PidLock init_lock_sys = Ok t \<and>
     acquire PidLock (lock_view 1 init_lock_sys) = Ok (lock_view 1 t) \<and>
     held (lock_view 1 t) = {PidLock}"
proof -
  have r: "lock_reachable (init_lock_sys :: lock_id lock_sys)" by (rule lock_reachable.start)
  have c: "is_cpu 1" by (simp add: is_cpu_def MAX_CPU_NUM_def)
  have p: "pc (init_lock_sys :: lock_id lock_sys) 1 = Running" by (simp add: init_lock_sys_def)
  obtain t where t: "acquire_spin_lock 1 PidLock init_lock_sys = Ok t" "owned t 1 = {PidLock}"
    by (simp add: acquire_spin_lock_def lock_code push_introff_eq init_lock_sys_def init_spin_lock_def)
  then have "acquire PidLock (lock_view 1 init_lock_sys) = Ok (lock_view 1 t)"
    using lock_view_refines [OF r c p, of PidLock] by blast
  then show ?thesis
    by (intro exI [of _ t] conjI r c t(1)) (simp_all add: lock_view_def t(2))
qed

end
