(* ===== verification/Kalloc.thy ===== *)
theory Kalloc
  imports Spin_Lock
begin

text \<open>
  Physical memory and the page allocator: kernel/vm/kalloc.c, the byte loops \<open>memset\<close>,
  \<open>memcpy\<close> and \<open>memmove\<close> of kernel/vm/vm.c, and the layout constants of
  include/riscv/vm_system.h and include/vm/memory_layout.h.

  Memory is a function from 64-bit addresses to bytes; the kernel runs with the identity map
  that \<open>kvm_init\<close> sets up, so kernel pointers are addresses of it. The free list is a linked
  list through the first word of the free pages, as in the code. \<open>kernel_end\<close> is the symbol the
  linker provides (kernel/kernel.ld); it is a field of the state that no operation changes.
\<close>

section \<open>Layout\<close>

abbreviation (input) PGSIZE :: u64 where "PGSIZE \<equiv> 4096"

definition PGSIZE_MASK :: u64 where "PGSIZE_MASK = push_bit 12 1 - 1"
definition VA_END :: u64 where "VA_END = push_bit 38 1"
definition MAX_VA :: u64 where "MAX_VA = VA_END - 1"
definition KERNEL_BASE :: u64 where "KERNEL_BASE = 0x80000000"
definition MEMORY_SIZE :: u64 where "MEMORY_SIZE = 128 * push_bit 20 1"
definition MEMORY_END :: u64 where "MEMORY_END = KERNEL_BASE + MEMORY_SIZE"
definition TRAMPOLINE_BASE :: u64 where "TRAMPOLINE_BASE = VA_END - PGSIZE"
definition PROC_VA_START :: u64 where "PROC_VA_START = 0x1000"
definition PROC_VA_END :: u64 where "PROC_VA_END = VA_END - PGSIZE * 4"
definition USTACK_BASE :: u64 where "USTACK_BASE = VA_END - PGSIZE * 3"
definition TRAPFRAME_BASE :: u64 where "TRAPFRAME_BASE = VA_END - PGSIZE * 2"

definition ROUND_UP_PGSIZE :: "u64 \<Rightarrow> u64" where
  "ROUND_UP_PGSIZE a = (a + PGSIZE - 1) AND NOT PGSIZE_MASK"

definition ROUND_DOWN_PGSIZE :: "u64 \<Rightarrow> u64" where
  "ROUND_DOWN_PGSIZE a = a AND NOT PGSIZE_MASK"

lemma PGSIZE_MASK_mask: "PGSIZE_MASK = mask 12"
  by (simp add: PGSIZE_MASK_def mask_eq_exp_minus_1 push_bit_eq_mult)

lemma VA_END_eq [layout_simps]: "VA_END = 274877906944"
  by (simp add: VA_END_def push_bit_eq_mult)

lemma MAX_VA_eq [layout_simps]: "MAX_VA = 274877906943"
  by (simp add: MAX_VA_def VA_END_eq)

lemma MEMORY_END_eq [layout_simps]: "MEMORY_END = 2281701376"
  by (simp add: MEMORY_END_def KERNEL_BASE_def MEMORY_SIZE_def push_bit_eq_mult)

declare KERNEL_BASE_def [layout_simps] PROC_VA_START_def [layout_simps]

lemma user_layout_eq [layout_simps]:
  "TRAMPOLINE_BASE = 274877902848" "TRAPFRAME_BASE = 274877898752"
  "USTACK_BASE = 274877894656" "PROC_VA_END = 274877890560"
  by (simp_all add: TRAMPOLINE_BASE_def TRAPFRAME_BASE_def USTACK_BASE_def PROC_VA_END_def VA_END_eq)

lemma unat_ROUND_DOWN_PGSIZE: "unat (ROUND_DOWN_PGSIZE a) = unat a - unat a mod 4096"
proof -
  have "ROUND_DOWN_PGSIZE a = push_bit 12 (drop_bit 12 a)"
    by (rule bit_word_eqI) (auto simp: ROUND_DOWN_PGSIZE_def PGSIZE_MASK_mask bit_simps)
  then have "unat (ROUND_DOWN_PGSIZE a) = unat (drop_bit 12 a * 4096)"
    by (simp add: push_bit_eq_mult mult.commute)
  also have "\<dots> = unat (drop_bit 12 a) * 4096"
  proof -
    have "unat (drop_bit 12 a) = unat a div 4096"
      by (simp add: drop_bit_eq_div unat_div_distrib)
    moreover have "unat a < 2 ^ 64" using unsigned_less [of a] by simp
    ultimately show ?thesis by (simp add: unat_word_ariths mult.commute)
  qed
  also have "\<dots> = unat a - unat a mod 4096"
    by (simp add: drop_bit_eq_div unat_div_distrib minus_mod_eq_div_mult)
  finally show ?thesis .
qed

text \<open>\<open>page_aligned a\<close>: the test \<open>a % PGSIZE == 0\<close> of the code.\<close>

definition page_aligned :: "u64 \<Rightarrow> bool" where
  "page_aligned a \<longleftrightarrow> a mod PGSIZE = 0"

lemma page_aligned_unat: "page_aligned a \<longleftrightarrow> unat a mod 4096 = 0"
  by (simp add: page_aligned_def word_eq_iff_unat unat_word_ariths unat_mod)

lemma page_aligned_bound: "page_aligned a \<Longrightarrow> unat a + 4096 \<le> 2 ^ 64"
proof -
  assume "page_aligned a"
  then obtain k where k: "unat a = 4096 * k"
    by (auto simp: page_aligned_unat elim: dvdE)
  have "4096 * k < (2 ^ 64 :: nat)" using unsigned_less [of a, where ?'a = nat] k by simp
  then have "k < 2 ^ 52" by simp
  with k show ?thesis by simp
qed

lemma page_aligned_ROUND_DOWN: "page_aligned (ROUND_DOWN_PGSIZE a)"
  by (simp add: page_aligned_unat unat_ROUND_DOWN_PGSIZE)

lemma ROUND_UP_eq: "ROUND_UP_PGSIZE a = ROUND_DOWN_PGSIZE (a + 4095)"
  by (simp add: ROUND_UP_PGSIZE_def ROUND_DOWN_PGSIZE_def add.commute)

lemma page_aligned_ROUND_UP: "page_aligned (ROUND_UP_PGSIZE a)"
  by (simp add: ROUND_UP_eq page_aligned_ROUND_DOWN)

lemma unat_ROUND_UP_PGSIZE:
  "unat a + 4095 < 2 ^ 64 \<Longrightarrow> unat (ROUND_UP_PGSIZE a) = (unat a + 4095) div 4096 * 4096"
  by (simp add: ROUND_UP_eq unat_ROUND_DOWN_PGSIZE unat_add_no_wrap minus_mod_eq_div_mult)

section \<open>Memory\<close>

type_synonym mem = "u64 \<Rightarrow> u8"

text \<open>Little-endian loads and stores of \<open>k\<close> bytes.\<close>

primrec load_bytes :: "nat \<Rightarrow> mem \<Rightarrow> u64 \<Rightarrow> 'w::len word" where
  "load_bytes 0 m a = 0"
| "load_bytes (Suc k) m a = ucast (m a) OR push_bit 8 (load_bytes k m (a + 1))"

definition load64 :: "mem \<Rightarrow> u64 \<Rightarrow> u64" where
  "load64 m a = load_bytes 8 m a"

definition store_bytes :: "nat \<Rightarrow> mem \<Rightarrow> u64 \<Rightarrow> 'w::len word \<Rightarrow> mem" where
  "store_bytes k m a v = (\<lambda>x. if unat (x - a) < k then ucast (drop_bit (8 * unat (x - a)) v) else m x)"

definition store64 :: "mem \<Rightarrow> u64 \<Rightarrow> u64 \<Rightarrow> mem" where
  "store64 m a v = store_bytes 8 m a v"

lemma bit_u8_ge: "8 \<le> n \<Longrightarrow> \<not> bit (b :: u8) n"
  using bit_imp_le_length [of b n] by auto

lemma bit_load_bytes:
  "bit (load_bytes k m a :: 'w::len word) n \<longleftrightarrow>
     n < LENGTH('w) \<and> n < 8 * k \<and> bit (m (a + word_of_nat (n div 8))) (n mod 8)"
proof (induction k arbitrary: a n)
  case 0
  then show ?case by simp
next
  case (Suc k)
  show ?case
  proof (cases "n < 8")
    case True
    then show ?thesis by (auto simp: bit_simps)
  next
    case False
    then obtain j where j: "n = j + 8" by (metis add.commute le_add_diff_inverse not_less)
    then show ?thesis
      by (auto simp: bit_simps Suc.IH bit_u8_ge div_add_self2 add.assoc)
  qed
qed

lemma load_bytes_cong:
  assumes "\<And>i. i < k \<Longrightarrow> m (a + word_of_nat i) = m' (b + word_of_nat i)"
  shows "load_bytes k m a = (load_bytes k m' b :: 'w::len word)"
  by (rule bit_word_eqI) (auto simp: bit_load_bytes assms)

lemma load_store_bytes:
  assumes "8 * k = LENGTH('w)" "k < 2 ^ 64"
  shows "load_bytes k (store_bytes k m a v) a = (v :: 'w::len word)"
proof (rule bit_word_eqI)
  fix n assume n: "n < LENGTH('w)"
  then have "n div 8 < k" using assms by auto
  then show "bit (load_bytes k (store_bytes k m a v) a :: 'w word) n = bit v n"
    using n assms by (auto simp: bit_load_bytes store_bytes_def bit_simps)
qed

lemma load64_store64_same [simp]: "load64 (store64 m a v) a = v"
  by (simp add: load64_def store64_def load_store_bytes)

lemma load64_cong:
  "(\<And>i. i < 8 \<Longrightarrow> m (a + word_of_nat i) = m' (b + word_of_nat i)) \<Longrightarrow> load64 m a = load64 m' b"
  unfolding load64_def by (rule load_bytes_cong)

definition aligned8 :: "u64 \<Rightarrow> bool" where "aligned8 a \<longleftrightarrow> unat a mod 8 = 0"

lemma aligned8_add:
  assumes "aligned8 a" "i < 8"
  shows "unat (a + word_of_nat i) = unat a + i"
proof -
  obtain k where k: "unat a = 8 * k" using assms by (auto simp: aligned8_def elim: dvdE)
  have "8 * k < (2 ^ 64 :: nat)" using unsigned_less [of a, where ?'a = nat] k by simp
  then have "8 * k + i < 2 ^ 64" using assms by simp
  with k show ?thesis by (subst unat_add_of_nat) simp_all
qed

lemma aligned8_div:
  assumes "aligned8 a" "unat (x - a) < 8"
  shows "unat x div 8 = unat a div 8"
proof -
  have "x = a + word_of_nat (unat (x - a))" by simp
  then have "unat x = unat a + unat (x - a)" using aligned8_add assms by metis
  then show ?thesis using assms by (auto simp: aligned8_def elim: dvdE)
qed

lemma aligned8_eqI: "aligned8 a \<Longrightarrow> aligned8 b \<Longrightarrow> unat a div 8 = unat b div 8 \<Longrightarrow> a = b"
  by (auto simp: aligned8_def word_eq_iff_unat elim!: dvdE)

lemma load64_store64_other:
  assumes "aligned8 a" "aligned8 b" "a \<noteq> b"
  shows "load64 (store64 m a v) b = load64 m b"
proof (rule load64_cong)
  fix i :: nat assume "i < 8"
  then have "unat (b + word_of_nat i) div 8 = unat b div 8"
    using aligned8_div [OF assms(2), of "b + word_of_nat i"] by simp
  then have "\<not> unat (b + word_of_nat i - a) < 8"
    using aligned8_div [OF assms(1), of "b + word_of_nat i"] aligned8_eqI assms by metis
  then show "store64 m a v (b + word_of_nat i) = m (b + word_of_nat i)"
    by (simp add: store64_def store_bytes_def)
qed

lemma load64_store64:
  "aligned8 a \<Longrightarrow> aligned8 b \<Longrightarrow> load64 (store64 m a v) b = (if a = b then v else load64 m b)"
  by (simp add: load64_store64_other)

text \<open>
  \<open>memset\<close>, \<open>memcpy\<close> and \<open>memmove\<close> of vm.c: byte loops over addresses that wrap. The
  descending loop of \<open>memmove\<close> starts at \<open>dst + n\<close> and decrements before each access, so it
  copies the offsets \<open>n - 1, \<dots>, 0\<close>.
\<close>

definition memset :: "mem \<Rightarrow> u64 \<Rightarrow> u32 \<Rightarrow> u64 \<Rightarrow> mem" where
  "memset m a val len = fold (\<lambda>i m. m(a + word_of_nat i := ucast val)) [0..<unat len] m"

definition copy_byte :: "u64 \<Rightarrow> u64 \<Rightarrow> nat \<Rightarrow> mem \<Rightarrow> mem" where
  "copy_byte dst src i m = m(dst + word_of_nat i := m (src + word_of_nat i))"

lemma copy_byte_apply:
  "copy_byte dst src i m x = (if x = dst + word_of_nat i then m (src + word_of_nat i) else m x)"
  by (simp add: copy_byte_def)

definition memcpy :: "mem \<Rightarrow> u64 \<Rightarrow> u64 \<Rightarrow> u64 \<Rightarrow> mem" where
  "memcpy m dest src len = fold (copy_byte dest src) [0..<unat len] m"

definition memmove :: "mem \<Rightarrow> u64 \<Rightarrow> u64 \<Rightarrow> int \<Rightarrow> mem" where
  "memmove m vdst vsrc n =
     (if vsrc > vdst then fold (copy_byte vdst vsrc) [0..<nat n] m
      else fold (copy_byte vdst vsrc) (rev [0..<nat n]) m)"

lemma word_of_nat_sub_eq:
  fixes x a :: u64
  assumes "i < 2 ^ 64"
  shows "x = a + word_of_nat i \<longleftrightarrow> unat (x - a) = i"
proof
  assume "unat (x - a) = i"
  then have "word_of_nat (unat (x - a)) = (word_of_nat i :: u64)" by simp
  then show "x = a + word_of_nat i" by (simp add: algebra_simps)
qed (use assms in simp)

lemma memset_fold:
  "n \<le> 2 ^ 64 \<Longrightarrow> fold (\<lambda>i m. m(a + word_of_nat i := b)) [0..<n] m x =
     (if unat (x - a) < n then b else m x)" for a :: u64
proof (induction n)
  case (Suc n)
  then show ?case using word_of_nat_sub_eq [of n x a] by (auto simp: less_Suc_eq)
qed simp

lemma memset_apply: "memset m a val len x = (if x - a < len then ucast val else m x)"
proof -
  have "unat len \<le> 2 ^ 64" using unsigned_less [of len, where ?'a = nat] by simp
  then show ?thesis by (simp add: memset_def memset_fold word_less_nat_alt)
qed

text \<open>
  Copying a set of offsets in some order gives what was there before, when no byte is read
  after it was overwritten.
\<close>

lemma copy_fold:
  assumes "distinct is" "\<forall>i \<in> set is. i < 2 ^ 64"
    "sorted_wrt (\<lambda>l k. dst + word_of_nat l \<noteq> src + word_of_nat k) is"
  shows "fold (copy_byte dst src) is m x =
    (if unat (x - dst) \<in> set is then m (src + (x - dst)) else m x)"
  using assms
proof (induction "is" arbitrary: x rule: rev_induct)
  case (snoc i js)
  have IH: "fold (copy_byte dst src) js m y =
      (if unat (y - dst) \<in> set js then m (src + (y - dst)) else m y)" for y
    using snoc.prems by (intro snoc.IH) (simp_all add: sorted_wrt_append)
  have "dst + word_of_nat (unat (src + word_of_nat i - dst)) = src + word_of_nat i" by simp
  then have "\<not> unat (src + word_of_nat i - dst) \<in> set js"
    using snoc.prems(3) by (auto simp: sorted_wrt_append)
  moreover have "fold (copy_byte dst src) (js @ [i]) m x =
      (if x = dst + word_of_nat i then fold (copy_byte dst src) js m (src + word_of_nat i)
       else fold (copy_byte dst src) js m x)"
    using copy_byte_apply [of dst src i] by simp
  ultimately show ?case
    using snoc.prems word_of_nat_sub_eq [of i x dst] by (auto simp: IH)
qed simp

text \<open>Two byte ranges that do not meet.\<close>

definition disjoint_ranges :: "u64 \<Rightarrow> u64 \<Rightarrow> nat \<Rightarrow> bool" where
  "disjoint_ranges a b n \<longleftrightarrow> (\<forall>i < n. \<forall>j < n. a + word_of_nat i \<noteq> b + word_of_nat j)"

lemma memcpy_apply:
  assumes "disjoint_ranges dest src (unat len)"
  shows "memcpy m dest src len x = (if x - dest < len then m (src + (x - dest)) else m x)"
proof -
  have "unat len \<le> 2 ^ 64" using unsigned_less [of len, where ?'a = nat] by simp
  then show ?thesis
    unfolding memcpy_def using assms
    by (subst copy_fold)
      (auto simp: word_less_nat_alt disjoint_ranges_def intro: sorted_wrt_mono_rel [OF _ sorted_wrt_upt])
qed

lemma memmove_apply:
  assumes "unat dst + nat n \<le> 2 ^ 64" "unat src + nat n \<le> 2 ^ 64"
  shows "memmove m dst src n x = (if unat (x - dst) < nat n then m (src + (x - dst)) else m x)"
proof -
  have add: "unat (dst + word_of_nat i) = unat dst + i" "unat (src + word_of_nat i) = unat src + i"
    if "i < nat n" for i
    using that assms by (auto intro!: unat_add_of_nat)
  have lt: "i < nat n \<Longrightarrow> i < 2 ^ 64" for i using assms by simp
  show ?thesis
  proof (cases "src > dst")
    case True
    have "dst + word_of_nat l \<noteq> src + word_of_nat k" if "k < nat n" "l < k" for k l
      using that True add [of k] add [of l] by (auto simp: word_eq_iff_unat word_less_nat_alt)
    then have "sorted_wrt (\<lambda>l k. dst + word_of_nat l \<noteq> src + word_of_nat k) [0..<nat n]"
      by (intro sorted_wrt_mono_rel [OF _ sorted_wrt_upt]) simp
    with True lt show ?thesis
      by (simp add: memmove_def copy_fold)
  next
    case False
    have "dst + word_of_nat l \<noteq> src + word_of_nat k" if "l < nat n" "k < l" for k l
      using that False add [of k] add [of l] by (auto simp: word_eq_iff_unat word_less_nat_alt)
    then have "sorted_wrt (\<lambda>l k. dst + word_of_nat l \<noteq> src + word_of_nat k) (rev [0..<nat n])"
      unfolding sorted_wrt_rev by (intro sorted_wrt_mono_rel [OF _ sorted_wrt_upt]) simp
    with False lt show ?thesis
      by (simp add: memmove_def copy_fold)
  qed
qed


section \<open>The page allocator\<close>

record vm_state = lock_state +
  mem :: "u64 \<Rightarrow> u8"
  mem_head :: u64
  kernel_end :: u64

definition make_garbage_value :: "u64 \<Rightarrow> mem \<Rightarrow> mem" where
  "make_garbage_value a m = memset m a 0x5 PGSIZE"

definition kfree :: "u64 \<Rightarrow> 'a vm_state_scheme \<Rightarrow> 'a vm_state_scheme kres" where
  "kfree p s =
     (if p < kernel_end s \<or> p \<ge> MEMORY_END \<or> p mod PGSIZE \<noteq> 0 then Panic ''kfree: free invalid page''
      else if p = 0 then Ok s
      else
        kbind (acquire MemContainerLock s) (\<lambda>s.
        let s = s\<lparr>mem := store64 (mem s) p (mem_head s)\<rparr>;
            s = s\<lparr>mem_head := p\<rparr> in
        release MemContainerLock s))"

definition kalloc :: "'a vm_state_scheme \<Rightarrow> (u64 \<times> 'a vm_state_scheme) kres" where
  "kalloc s =
     kbind (acquire MemContainerLock s) (\<lambda>s.
     if mem_head s = 0 then kbind (release MemContainerLock s) (\<lambda>s. Ok (0, s))
     else
       let p = mem_head s;
           s = s\<lparr>mem_head := load64 (mem s) p\<rparr> in
       kbind (release MemContainerLock s) (\<lambda>s.
       Ok (p, s\<lparr>mem := make_garbage_value p (mem s)\<rparr>)))"

text \<open>
  The loop of \<open>kalloc_init\<close> runs until \<open>cur_page\<close> equals the end of memory; both are page
  aligned, so the distance (modulo the address space) shrinks by a page each time.
\<close>

lemma page_aligned_iff_mult: "page_aligned a \<longleftrightarrow> (\<exists>k. a = 4096 * k)"
proof
  assume "page_aligned a"
  then obtain k where k: "unat a = 4096 * k" by (auto simp: page_aligned_unat elim: dvdE)
  then have "word_of_nat (unat a) = (word_of_nat (4096 * k) :: u64)" by simp
  then have "a = 4096 * word_of_nat k" by simp
  then show "\<exists>k. a = 4096 * k" ..
next
  assume "\<exists>k. a = 4096 * k"
  then show "page_aligned a"
    by (auto simp: page_aligned_unat unat_word_ariths mod_mod_cancel)
qed

lemma page_aligned_add [intro]: "page_aligned a \<Longrightarrow> page_aligned b \<Longrightarrow> page_aligned (a + b)"
  by (auto simp: page_aligned_iff_mult) (metis distrib_left)

lemma page_aligned_diff [intro]: "page_aligned a \<Longrightarrow> page_aligned b \<Longrightarrow> page_aligned (a - b)"
  by (auto simp: page_aligned_iff_mult) (metis right_diff_distrib)

lemma page_aligned_consts [simp]: "page_aligned 0" "page_aligned 4096" "page_aligned MEMORY_END"
  by (simp_all add: page_aligned_def layout_simps)

lemma page_aligned_nonzero: "page_aligned a \<Longrightarrow> a \<noteq> 0 \<Longrightarrow> 4096 \<le> unat a"
  by (auto simp: page_aligned_unat dvd_imp_le word_eq_iff_unat elim!: dvdE)

lemma kalloc_init_measure:
  assumes "cur \<noteq> MEMORY_END" "page_aligned cur"
  shows "unat (MEMORY_END - (cur + PGSIZE)) < unat (MEMORY_END - cur)"
proof -
  let ?d = "MEMORY_END - cur"
  have "page_aligned ?d" using assms by auto
  then have "4096 \<le> unat ?d" using assms page_aligned_nonzero by simp
  then have "unat (?d - 4096) = unat ?d - 4096"
    by (subst unat_sub) (simp_all add: word_le_nat_alt)
  moreover have "MEMORY_END - (cur + PGSIZE) = ?d - 4096" by simp
  ultimately show ?thesis using \<open>4096 \<le> unat ?d\<close> by (simp only:)
qed

lemma kfree_Ok_aligned: "kfree p s = Ok t \<Longrightarrow> page_aligned p"
  by (auto simp: kfree_def page_aligned_def split: if_splits)

function kalloc_init_loop :: "u64 \<Rightarrow> 'a vm_state_scheme \<Rightarrow> 'a vm_state_scheme kres" where
  "kalloc_init_loop cur s =
     (if cur = MEMORY_END then Ok s
      else kbind (kfree cur s) (kalloc_init_loop (cur + PGSIZE)))"
  by pat_completeness auto
termination
  by (relation "measure (\<lambda>(cur, s). unat (MEMORY_END - cur))") (auto intro: kalloc_init_measure kfree_Ok_aligned)

declare kalloc_init_loop.simps [simp del]

definition kalloc_init :: "'a vm_state_scheme \<Rightarrow> 'a vm_state_scheme kres" where
  "kalloc_init s =
     (let s = s\<lparr>mem_head := 0\<rparr> in
      if MEMORY_END mod PGSIZE \<noteq> 0 then Panic ''kalloc_init: MEMORY_END is not aligned to PGSIZE''
      else kalloc_init_loop (ROUND_UP_PGSIZE (kernel_end s)) s)"

section \<open>Pages as units\<close>

text \<open>The page number of an address; pages of different numbers share no byte.\<close>

definition in_page :: "u64 \<Rightarrow> u64 \<Rightarrow> bool" where
  "in_page p x \<longleftrightarrow> x - p < PGSIZE"

lemma in_page_add: "n < 4096 \<Longrightarrow> in_page p (p + word_of_nat n)"
  by (simp add: in_page_def word_less_nat_alt)

lemma in_page_self [simp]: "in_page p p" 
  by (simp add: in_page_def)

lemma aligned_add_unat:
  assumes "page_aligned p" "n < 4096"
  shows "unat (p + word_of_nat n) = unat p + n"
  using page_aligned_bound [OF assms(1)] assms(2) by (intro unat_add_of_nat) simp

lemma in_page_unat:
  assumes "page_aligned p"
  shows "in_page p x \<longleftrightarrow> unat x div 4096 = unat p div 4096"
proof
  assume "in_page p x"
  then have "unat (x - p) < 4096" by (simp add: in_page_def word_less_nat_alt)
  moreover have "x = p + word_of_nat (unat (x - p))" by simp
  ultimately have "unat x = unat p + unat (x - p)" using aligned_add_unat [OF assms] by metis
  then show "unat x div 4096 = unat p div 4096"
    using assms \<open>unat (x - p) < 4096\<close> by (auto simp: page_aligned_unat elim!: dvdE)
next
  assume "unat x div 4096 = unat p div 4096"
  then have "unat x = unat p + unat x mod 4096"
    using assms unfolding page_aligned_unat by (metis add.right_neutral mult_div_mod_eq)
  then have "x = p + word_of_nat (unat x mod 4096)"
    using aligned_add_unat [OF assms, of "unat x mod 4096"] by (simp add: word_eq_iff_unat)
  then show "in_page p x" using in_page_add [of "unat x mod 4096" p] by simp
qed

lemma page_aligned_eqI:
  "page_aligned p \<Longrightarrow> page_aligned q \<Longrightarrow> unat p div 4096 = unat q div 4096 \<Longrightarrow> p = q"
  by (auto simp: page_aligned_unat word_eq_iff_unat elim!: dvdE)

lemma in_page_unique:
  "page_aligned p \<Longrightarrow> page_aligned q \<Longrightarrow> in_page p x \<Longrightarrow> in_page q x \<Longrightarrow> p = q"
  by (metis in_page_unat page_aligned_eqI)

lemma page_aligned_aligned8: "page_aligned p \<Longrightarrow> aligned8 p"
  by (auto simp: page_aligned_unat aligned8_def elim!: dvdE)

text \<open>Two memories agree on a page.\<close>

definition same_page :: "u64 \<Rightarrow> mem \<Rightarrow> mem \<Rightarrow> bool" where
  "same_page p m m' \<longleftrightarrow> (\<forall>x. in_page p x \<longrightarrow> m x = m' x)"

lemma same_page_refl [simp]: "same_page p m m"
  by (simp add: same_page_def)

lemma same_page_trans [trans]: "same_page p m m' \<Longrightarrow> same_page p m' m'' \<Longrightarrow> same_page p m m''"
  by (simp add: same_page_def)

lemma same_page_sym: "same_page p m m' \<Longrightarrow> same_page p m' m"
  by (simp add: same_page_def)

lemma aligned8_in_page:
  assumes "page_aligned p" "in_page p a" "aligned8 a" "i < 8"
  shows "in_page p (a + word_of_nat i)"
proof -
  have "unat (a + word_of_nat i) div 8 = unat a div 8"
    using aligned8_div [OF assms(3), of "a + word_of_nat i"] assms(4) by simp
  then have "unat (a + word_of_nat i) div 8 div 512 = unat a div 8 div 512" by simp
  then show ?thesis using assms(1,2) by (simp add: in_page_unat div_mult2_eq [symmetric])
qed

lemma same_page_load64:
  assumes "same_page p m m'" "page_aligned p" "in_page p a" "aligned8 a"
  shows "load64 m a = load64 m' a"
  using assms aligned8_in_page by (intro load64_cong) (simp add: same_page_def)

lemma store64_in_page:
  assumes "page_aligned p" "in_page p a" "aligned8 a" "\<not> in_page p x"
  shows "store64 m a v x = m x"
proof -
  have "\<not> unat (x - a) < 8"
    using aligned8_in_page [OF assms(1-3), of "unat (x - a)"] assms(4) by auto
  then show ?thesis by (simp add: store64_def store_bytes_def)
qed

lemma same_page_store64:
  assumes "page_aligned p" "page_aligned q" "in_page q a" "aligned8 a" "p \<noteq> q"
  shows "same_page p m (store64 m a v)"
  using assms store64_in_page [OF assms(2-4)] in_page_unique unfolding same_page_def by metis

lemma make_garbage_apply: "make_garbage_value p m x = (if in_page p x then 5 else m x)"
  by (simp add: make_garbage_value_def memset_apply in_page_def)

lemma same_page_garbage:
  "page_aligned p \<Longrightarrow> page_aligned q \<Longrightarrow> p \<noteq> q \<Longrightarrow> same_page p m (make_garbage_value q m)"
  using in_page_unique by (auto simp: same_page_def make_garbage_apply)

lemma page_disjoint_ranges:
  assumes "page_aligned p" "page_aligned q" "p \<noteq> q" "n \<le> 4096"
  shows "disjoint_ranges p q n"
  using assms in_page_unique [OF assms(1,2)] in_page_add [of _ p] in_page_add [of _ q]
  unfolding disjoint_ranges_def by (metis less_le_trans)

section \<open>The free list\<close>

primrec free_chain :: "mem \<Rightarrow> u64 \<Rightarrow> u64 list \<Rightarrow> bool" where
  "free_chain m h [] \<longleftrightarrow> h = 0"
| "free_chain m h (p # ps) \<longleftrightarrow> h = p \<and> p \<noteq> 0 \<and> free_chain m (load64 m p) ps"

text \<open>A page the allocator may own: between the end of the kernel image and the end of memory.\<close>

definition valid_page :: "u64 \<Rightarrow> u64 \<Rightarrow> bool" where
  "valid_page ke p \<longleftrightarrow> page_aligned p \<and> ke \<le> p \<and> p < MEMORY_END \<and> p \<noteq> 0"

definition free_list :: "'a vm_state_scheme \<Rightarrow> u64 list \<Rightarrow> bool" where
  "free_list s ps \<longleftrightarrow> distinct ps \<and> (\<forall>p \<in> set ps. valid_page (kernel_end s) p) \<and>
     free_chain (mem s) (mem_head s) ps"

lemma valid_page_aligned [dest]: "valid_page ke p \<Longrightarrow> page_aligned p"
  by (simp add: valid_page_def)

lemma free_chain_cong:
  "(\<And>p. p \<in> set ps \<Longrightarrow> load64 m p = load64 m' p) \<Longrightarrow> free_chain m h ps = free_chain m' h ps"
  by (induction ps arbitrary: h) auto

lemma free_chain_same_page:
  assumes "\<And>p. p \<in> set ps \<Longrightarrow> page_aligned p \<and> same_page p m m'"
  shows "free_chain m h ps = free_chain m' h ps"
proof (rule free_chain_cong)
  fix p assume "p \<in> set ps"
  with assms show "load64 m p = load64 m' p"
    by (intro same_page_load64 [of p]) (simp_all add: page_aligned_aligned8)
qed

lemma free_chain_unique: "free_chain m h ps \<Longrightarrow> free_chain m h qs \<Longrightarrow> ps = qs"
proof (induction ps arbitrary: h qs)
  case Nil
  then show ?case by (cases qs) auto
next
  case (Cons p ps)
  then show ?case by (cases qs) auto
qed

text \<open>The state \<open>kalloc\<close> and \<open>kfree\<close> leave, when the allocator lock is free.\<close>

lemma kalloc_empty:
  "MemContainerLock \<notin> held s \<Longrightarrow> mem_head s = 0 \<Longrightarrow> kalloc s = Ok (0, s)"
  by (simp add: kalloc_def lock_simps)

lemma kalloc_take:
  "MemContainerLock \<notin> held s \<Longrightarrow> mem_head s \<noteq> 0 \<Longrightarrow>
     kalloc s = Ok (mem_head s, s\<lparr>mem_head := load64 (mem s) (mem_head s),
       mem := make_garbage_value (mem_head s) (mem s)\<rparr>)"
  by (simp add: kalloc_def lock_simps Let_def)

lemma kfree_put:
  "MemContainerLock \<notin> held s \<Longrightarrow> valid_page (kernel_end s) p \<Longrightarrow>
     kfree p s = Ok (s\<lparr>mem := store64 (mem s) p (mem_head s), mem_head := p\<rparr>)"
  by (simp add: kfree_def lock_simps Let_def valid_page_def page_aligned_def not_less not_le)

lemma kalloc_free_list:
  assumes "free_list s (p # ps)" "MemContainerLock \<notin> held s"
  shows "\<exists>s'. kalloc s = Ok (p, s') \<and> free_list s' ps \<and> p = mem_head s \<and>
    s' = s\<lparr>mem_head := load64 (mem s) p, mem := make_garbage_value p (mem s)\<rparr>"
proof -
  have h: "mem_head s = p" "p \<noteq> 0" "free_chain (mem s) (load64 (mem s) p) ps"
    and v: "distinct (p # ps)" "\<And>q. q \<in> set (p # ps) \<Longrightarrow> valid_page (kernel_end s) q"
    using assms(1) by (auto simp: free_list_def)
  have "free_chain (make_garbage_value p (mem s)) (load64 (mem s) p) ps"
    using h(3) v by (subst free_chain_same_page [symmetric]) (auto intro!: same_page_garbage)
  with h v assms(2) show ?thesis by (auto simp: kalloc_take free_list_def)
qed

lemma kfree_free_list:
  assumes "free_list s ps" "MemContainerLock \<notin> held s" "valid_page (kernel_end s) p" "p \<notin> set ps"
  shows "\<exists>s'. kfree p s = Ok s' \<and> free_list s' (p # ps) \<and>
    s' = s\<lparr>mem := store64 (mem s) p (mem_head s), mem_head := p\<rparr>"
proof -
  have "free_chain (store64 (mem s) p (mem_head s)) (mem_head s) ps"
    using assms
    by (subst free_chain_same_page [symmetric, where m = "mem s"])
      (auto simp: free_list_def intro!: same_page_store64 [where q = p] page_aligned_aligned8)
  with assms show ?thesis by (auto simp: kfree_put free_list_def valid_page_def)
qed


section \<open>The interface of a page allocator\<close>

text \<open>
  What the rest of the kernel relies on. \<open>repr s F\<close>: in state \<open>s\<close> exactly the pages of \<open>F\<close> are
  free. \<open>same_on F s s'\<close>: a client moved from \<open>s\<close> to \<open>s'\<close> without writing the pages of \<open>F\<close>.
\<close>

locale page_allocator =
  fixes alloc :: "'s \<Rightarrow> (u64 \<times> 's) kres"
    and free :: "u64 \<Rightarrow> 's \<Rightarrow> 's kres"
    and repr :: "'s \<Rightarrow> u64 set \<Rightarrow> bool"
    and arena :: "'s \<Rightarrow> u64 set"
    and same_on :: "u64 set \<Rightarrow> 's \<Rightarrow> 's \<Rightarrow> bool"
  assumes alloc_law: "repr s F \<Longrightarrow>
      kok (\<lambda>(p, s'). arena s' = arena s \<and>
        (if F = {} then p = 0 \<and> repr s' {} else p \<in> F \<and> repr s' (F - {p}))) (alloc s)"
    and free_law: "repr s F \<Longrightarrow> p \<in> arena s \<Longrightarrow> p \<notin> F \<Longrightarrow>
      kok (\<lambda>s'. arena s' = arena s \<and> repr s' (insert p F)) (free p s)"
    and write_law: "repr s F \<Longrightarrow> same_on F s s' \<Longrightarrow> repr s' F \<and> arena s' = arena s"
    and repr_arena: "repr s F \<Longrightarrow> F \<subseteq> arena s"
    and repr_nonzero: "repr s F \<Longrightarrow> 0 \<notin> F"
begin

text \<open>
  A client that owns pages: it allocates, frees pages it owns, and writes pages it owns.
\<close>

inductive client :: "'s \<Rightarrow> u64 set \<Rightarrow> 's \<Rightarrow> u64 set \<Rightarrow> bool" where
  none: "client s own s own"
| take: "client s own t own' \<Longrightarrow> alloc t = Ok (p, t') \<Longrightarrow>
    client s own t' (if p = 0 then own' else insert p own')"
| give: "client s own t own' \<Longrightarrow> p \<in> own' \<Longrightarrow> free p t = Ok t' \<Longrightarrow> client s own t' (own' - {p})"
| scribble: "client s own t own' \<Longrightarrow> same_on (arena t - own') t t' \<Longrightarrow> client s own t' own'"

lemma client_partition:
  assumes "client s own t own'" "repr s (arena s - own)" "own \<subseteq> arena s"
  shows "repr t (arena t - own') \<and> own' \<subseteq> arena t \<and> arena t = arena s"
  using assms
proof (induction rule: client.induct)
  case (take s own t own' p t')
  then have IH: "repr t (arena t - own')" "own' \<subseteq> arena t" "arena t = arena s" by auto
  have a: "arena t' = arena t"
    and p: "if arena t - own' = {} then p = 0 \<and> repr t' {}
      else p \<in> arena t - own' \<and> repr t' (arena t - own' - {p})"
    using alloc_law [OF IH(1)] unfolding take.hyps(2) kok_Ok prod.case by blast+
  show ?case
  proof (cases "arena t - own' = {}")
    case True
    with p IH a show ?thesis by simp
  next
    case False
    with p have "p \<in> arena t" "repr t' (arena t - own' - {p})" "p \<noteq> 0"
      using repr_nonzero [OF IH(1)] by auto
    moreover have "arena t - own' - {p} = arena t' - insert p own'" using a by auto
    ultimately show ?thesis using IH a by auto
  qed
next
  case (give s own t own' p t')
  then have IH: "repr t (arena t - own')" "own' \<subseteq> arena t" "arena t = arena s" by auto
  with give.hyps(2) have "p \<in> arena t" "p \<notin> arena t - own'" by auto
  from free_law [OF IH(1) this] give.hyps(3)
  have "arena t' = arena t" "repr t' (insert p (arena t - own'))" by auto
  moreover have "insert p (arena t - own') = arena t - (own' - {p})"
    using \<open>p \<in> arena t\<close> by auto
  ultimately show ?case using IH by auto
next
  case (scribble s own t own' t')
  then show ?case using write_law by metis
qed simp

lemma client_alloc_fresh:
  assumes "client s own t own'" "repr s (arena s - own)" "own \<subseteq> arena s"
  shows "\<exists>p t'. alloc t = Ok (p, t') \<and> (if own' = arena s then p = 0 else p \<in> arena s - own')"
proof -
  from client_partition [OF assms]
  have r: "repr t (arena t - own')" "own' \<subseteq> arena t" "arena t = arena s" by auto
  show ?thesis using alloc_law [OF r(1)] r by (auto simp: kok_def split: if_splits)
qed

lemma client_free_ok:
  assumes "client s own t own'" "repr s (arena s - own)" "own \<subseteq> arena s" "p \<in> own'"
  shows "\<exists>t'. free p t = Ok t'"
proof -
  from client_partition [OF assms(1-3)]
  have r: "repr t (arena t - own')" "own' \<subseteq> arena t" by auto
  show ?thesis using free_law [OF r(1), of p] r assms(4) by (auto simp: kok_def)
qed

end

definition pages_of :: "'a vm_state_scheme \<Rightarrow> u64 set" where
  "pages_of s = {p. valid_page (kernel_end s) p}"

definition free_repr :: "'a vm_state_scheme \<Rightarrow> u64 set \<Rightarrow> bool" where
  "free_repr s F \<longleftrightarrow> MemContainerLock \<notin> held s \<and> (\<exists>ps. free_list s ps \<and> set ps = F)"

text \<open>A client keeps the allocator's variables and lock and the bytes of the pages in \<open>F\<close>.\<close>

definition writes_outside :: "u64 set \<Rightarrow> 'a vm_state_scheme \<Rightarrow> 'a vm_state_scheme \<Rightarrow> bool" where
  "writes_outside F s s' \<longleftrightarrow> (\<forall>p \<in> F. same_page p (mem s) (mem s')) \<and> mem_head s' = mem_head s \<and>
     kernel_end s' = kernel_end s \<and> (MemContainerLock \<in> held s' \<longleftrightarrow> MemContainerLock \<in> held s)"

interpretation kmem: page_allocator kalloc kfree free_repr pages_of writes_outside
proof
  fix s :: "'a vm_state_scheme" and F
  assume "free_repr s F"
  then obtain ps where ps: "MemContainerLock \<notin> held s" "free_list s ps" "set ps = F"
    by (auto simp: free_repr_def)
  show "kok (\<lambda>(p, s'). pages_of s' = pages_of s \<and>
    (if F = {} then p = 0 \<and> free_repr s' {} else p \<in> F \<and> free_repr s' (F - {p}))) (kalloc s)"
  proof (cases ps)
    case Nil
    with ps show ?thesis by (auto simp: kalloc_empty free_list_def free_repr_def)
  next
    case (Cons p qs)
    then have "distinct (p # qs)" using ps by (simp add: free_list_def)
    with kalloc_free_list [of s p qs] ps Cons show ?thesis
      by (auto simp: free_repr_def pages_of_def)
  qed
  show "F \<subseteq> pages_of s" "0 \<notin> F"
    using ps by (auto simp: pages_of_def free_list_def valid_page_def)
next
  fix s :: "'a vm_state_scheme" and F p
  assume "free_repr s F" "p \<in> pages_of s" "p \<notin> F"
  then obtain ps where ps: "MemContainerLock \<notin> held s" "free_list s ps" "set ps = F"
    "valid_page (kernel_end s) p" "p \<notin> set ps"
    by (auto simp: free_repr_def pages_of_def)
  with kfree_free_list [OF ps(2,1,4,5)]
  show "kok (\<lambda>s'. pages_of s' = pages_of s \<and> free_repr s' (insert p F)) (kfree p s)"
    by (auto simp: free_repr_def pages_of_def intro!: exI [of _ "p # ps"])
next
  fix s s' :: "'a vm_state_scheme" and F
  assume "free_repr s F" and w: "writes_outside F s s'"
  then obtain ps where ps: "MemContainerLock \<notin> held s" "free_list s ps" "set ps = F"
    by (auto simp: free_repr_def)
  have "free_chain (mem s') (mem_head s') ps"
    using w ps by (subst free_chain_same_page [of ps "mem s'" "mem s"])
      (auto simp: free_list_def writes_outside_def intro: same_page_sym)
  with ps w show "free_repr s' F \<and> pages_of s' = pages_of s"
    by (auto simp: free_repr_def pages_of_def writes_outside_def free_list_def)
qed

lemma free_repr_unique: "free_repr s F \<Longrightarrow> free_repr s G \<Longrightarrow> F = G"
  using free_chain_unique by (auto simp: free_repr_def free_list_def)

section \<open>Initialisation\<close>

text \<open>What the linker script promises of the end of the kernel image.\<close>

definition linker_layout :: "u64 \<Rightarrow> bool" where
  "linker_layout ke \<longleftrightarrow> KERNEL_BASE \<le> ke \<and> ke \<le> MEMORY_END"

lemma aligned_less_next:
  assumes "page_aligned p" "page_aligned q"
  shows "unat p < unat q + 4096 \<longleftrightarrow> unat p \<le> unat q"
  using assms by (auto simp: page_aligned_unat elim!: dvdE)

lemma unat_next_page: "page_aligned p \<Longrightarrow> p < MEMORY_END \<Longrightarrow> unat (p + 4096) = unat p + 4096"
  using unat_add_no_wrap [of p 4096] by (simp add: word_less_nat_alt layout_simps)

lemma kalloc_init_loop_frees:
  assumes "page_aligned cur" "kernel_end s \<le> cur" "cur \<le> MEMORY_END" "cur \<noteq> 0"
    and "MemContainerLock \<notin> held s" "free_list s ps"
    and "set ps = {p. valid_page (kernel_end s) p \<and> p < cur}"
  shows "kok (\<lambda>s'. free_repr s' (pages_of s') \<and> kernel_end s' = kernel_end s) (kalloc_init_loop cur s)"
  using assms
proof (induction cur s arbitrary: ps rule: kalloc_init_loop.induct)
  case (1 cur s)
  show ?case
  proof (cases "cur = MEMORY_END")
    case True
    have "set ps = pages_of s" using 1 True by (auto simp: pages_of_def valid_page_def)
    then show ?thesis using 1 True
      by (subst kalloc_init_loop.simps) (auto simp: free_repr_def)
  next
    case False
    then have lt: "cur < MEMORY_END" using "1.prems" by simp
    then have v: "valid_page (kernel_end s) cur" "cur \<notin> set ps"
      using "1.prems" by (auto simp: valid_page_def)
    obtain s' where s': "kfree cur s = Ok s'" "free_list s' (cur # ps)"
      "kernel_end s' = kernel_end s" "held s' = held s"
      using kfree_free_list [OF "1.prems"(6,5) v] by auto
    note u = unat_next_page [OF "1.prems"(1) lt]
    have "valid_page (kernel_end s) p \<and> p < cur + 4096 \<longleftrightarrow> valid_page (kernel_end s) p \<and> (p = cur \<or> p < cur)" for p
      using aligned_less_next [of p cur] "1.prems"(1) u
      by (auto simp: valid_page_def word_less_nat_alt word_eq_iff_unat)
    then have set: "set (cur # ps) = {p. valid_page (kernel_end s') p \<and> p < cur + 4096}"
      using "1.prems"(7) v s'(3) by auto
    have le: "cur + 4096 \<le> MEMORY_END"
      using lt aligned_less_next [of MEMORY_END cur] "1.prems"(1) u
      by (auto simp: word_less_nat_alt word_le_nat_alt)
    have "kok (\<lambda>t. free_repr t (pages_of t) \<and> kernel_end t = kernel_end s') (kalloc_init_loop (cur + 4096) s')"
    proof (rule "1.IH" [OF False s'(1) _ _ le _ _ s'(2) set])
      show "page_aligned (cur + 4096)" using "1.prems"(1) by auto
      show "kernel_end s' \<le> cur + 4096" "cur + 4096 \<noteq> 0" "MemContainerLock \<notin> held s'"
        using "1.prems"(2,5) u s'(3,4) by (auto simp: word_le_nat_alt)
    qed
    then show ?thesis
      using False s' by (subst kalloc_init_loop.simps) simp
  qed
qed

lemma ROUND_UP_bounds:
  assumes "linker_layout ke"
  shows "ke \<le> ROUND_UP_PGSIZE ke" "ROUND_UP_PGSIZE ke \<le> MEMORY_END" "ROUND_UP_PGSIZE ke \<noteq> 0"
    "page_aligned p \<Longrightarrow> ke \<le> p \<Longrightarrow> ROUND_UP_PGSIZE ke \<le> p"
proof -
  have b: "2147483648 \<le> unat ke" "unat ke \<le> 2281701376"
    using assms by (simp_all add: linker_layout_def layout_simps word_le_nat_alt)
  then have u: "unat (ROUND_UP_PGSIZE ke) = (unat ke + 4095) div 4096 * 4096"
    by (intro unat_ROUND_UP_PGSIZE) simp
  have "unat ke \<le> (unat ke + 4095) div 4096 * 4096"
    using div_mult_mod_eq [of "unat ke + 4095" 4096] mod_less_divisor [of 4096 "unat ke + 4095"]
    by linarith
  then show "ke \<le> ROUND_UP_PGSIZE ke" by (simp add: word_le_nat_alt u)
  then show "ROUND_UP_PGSIZE ke \<noteq> 0" using b by (auto simp: word_le_nat_alt)
  have "(unat ke + 4095) div 4096 \<le> (2281701376 + 4095) div 4096"
    using b by (intro div_le_mono) simp
  then show "ROUND_UP_PGSIZE ke \<le> MEMORY_END" by (simp add: word_le_nat_alt u layout_simps)
  show "ROUND_UP_PGSIZE ke \<le> p" if pa: "page_aligned p" and le: "ke \<le> p"
  proof -
    obtain k where k: "unat p = 4096 * k" using pa by (auto simp: page_aligned_unat elim: dvdE)
    then have "(unat ke + 4095) div 4096 < Suc k" using le
      by (subst div_less_iff_less_mult) (auto simp: word_le_nat_alt)
    then show ?thesis by (simp add: word_le_nat_alt u k)
  qed
qed

text \<open>
  After \<open>kalloc_init\<close>, every page between the end of the kernel image and the end of memory
  is on the free list, once, and no other page is; the loop ends and no call panics.
\<close>

lemma kalloc_init_frees:
  assumes "linker_layout (kernel_end s)" and "MemContainerLock \<notin> held s"
  shows "kok (\<lambda>s'. free_repr s' (pages_of s') \<and> kernel_end s' = kernel_end s) (kalloc_init s)"
proof -
  let ?cur = "ROUND_UP_PGSIZE (kernel_end s)"
  have "set [] = {p. valid_page (kernel_end s) p \<and> p < ?cur}"
    using ROUND_UP_bounds(4) [OF assms(1)] by (auto simp: valid_page_def not_le [symmetric])
  moreover have "free_list (s\<lparr>mem_head := 0\<rparr>) []" by (simp add: free_list_def)
  ultimately have "kok (\<lambda>s'. free_repr s' (pages_of s') \<and> kernel_end s' = kernel_end s)
      (kalloc_init_loop ?cur (s\<lparr>mem_head := 0\<rparr>))"
    using kalloc_init_loop_frees [of ?cur "s\<lparr>mem_head := 0\<rparr>" "[]"] assms(2)
      ROUND_UP_bounds [OF assms(1)] page_aligned_ROUND_UP by simp
  then show ?thesis
    using page_aligned_consts(3)
    by (auto simp: kalloc_init_def page_aligned_def kok_def)
qed

section \<open>Properties\<close>

text \<open>
  C2: the allocator never hands out a page twice. Take any sequence of \<open>kalloc\<close> calls, \<open>kfree\<close>
  calls on pages the caller owns, and writes by the caller to anything but the free pages and
  the allocator's variables, from a state where the caller owns the pages of \<open>own\<close> and all
  others are free. Then \<open>kalloc\<close> returns, with a page that is owned by nobody or with NULL if
  none is left, and \<open>kfree\<close> of an owned page succeeds.
\<close>

theorem kalloc_no_double_alloc:
  assumes "free_repr s (pages_of s - own)" and "own \<subseteq> pages_of s"
    and "kmem.client s own t own'"
  shows "(\<exists>p t'. kalloc t = Ok (p, t') \<and>
      (if own' = pages_of s then p = 0 else p \<in> pages_of s - own')) \<and>
    (\<forall>p \<in> own'. \<exists>t'. kfree p t = Ok t')"
  using kmem.client_alloc_fresh [OF assms(3,1,2)] kmem.client_free_ok [OF assms(3,1,2)] by blast

theorem kalloc_no_double_alloc_witness:
  "\<exists>s own t' p. free_repr s (pages_of s - own) \<and> own \<subseteq> pages_of s \<and>
     kmem.client (s :: vm_state) own s own \<and> kalloc s = Ok (p, t') \<and> own = {0x87fff000} \<and> p = 0"
proof -
  define s :: vm_state where
    "s = \<lparr>held = {}, noff = 0, mem = (\<lambda>_. 0), mem_head = 0, kernel_end = 0x87fff000\<rparr>"
  have le: "p = 0x87fff000" if "valid_page 0x87fff000 p" for p
  proof -
    have "unat p < 2281701376" "2281697280 \<le> unat p" "unat p mod 4096 = 0"
      using that by (auto simp: valid_page_def page_aligned_unat layout_simps word_le_nat_alt word_less_nat_alt)
    then have "unat p = 2281697280" by (auto elim!: dvdE)
    then show ?thesis by (simp add: word_eq_iff_unat)
  qed
  moreover have "valid_page 0x87fff000 0x87fff000"
    by (simp add: valid_page_def page_aligned_def layout_simps)
  ultimately have pages: "pages_of s = {0x87fff000}" by (auto simp: pages_of_def s_def)
  have r: "free_repr s (pages_of s - {0x87fff000})"
    unfolding pages by (simp add: free_repr_def s_def free_list_def exI [of _ "[]"])
  have c: "kmem.client s {0x87fff000} s {0x87fff000}" by (rule kmem.client.none)
  from kalloc_no_double_alloc [OF r _ c] pages
  obtain t' where t': "kalloc s = Ok (0, t')" by auto
  show ?thesis
    by (rule exI [of _ s], rule exI [of _ "{0x87fff000}"], rule exI [of _ t'], rule exI [of _ 0])
      (use r c t' pages in simp)
qed

end
