(* ===== verification/Vm.thy ===== *)
theory Vm
  imports Kalloc
begin

text \<open>
  Page tables: kernel/vm/vm.c with the macros of include/riscv/vm_system.h and the inline
  functions of include/vm/vm.h.

  The tables live in the byte memory of the state, as in the code: \<open>walk\<close> reads and writes
  entries with 64-bit loads and stores and takes new table pages from \<open>kalloc\<close>. The
  abstraction is \<open>pte_at m l t va\<close>, the entry that translates \<open>va\<close> in the table at \<open>t\<close>
  (0 where a table is missing); \<open>tables m l t\<close> is the set of pages that the table occupies and
  \<open>table_wf\<close> says that they form a tree.
\<close>

section \<open>Page table entries\<close>

definition PTE_V :: u64 where "PTE_V = push_bit 0 1"
definition PTE_R :: u64 where "PTE_R = push_bit 1 1"
definition PTE_W :: u64 where "PTE_W = push_bit 2 1"
definition PTE_X :: u64 where "PTE_X = push_bit 3 1"
definition PTE_U :: u64 where "PTE_U = push_bit 4 1"

definition PTE_ATTRIBUTE_MASK :: u64 where "PTE_ATTRIBUTE_MASK = push_bit 10 1 - 1"
definition PTE_PPN_MASK :: u64 where "PTE_PPN_MASK = push_bit 10 (push_bit 44 1 - 1)"
definition VPN_LEVEL_N_MASK :: u64 where "VPN_LEVEL_N_MASK = push_bit 9 1 - 1"

definition VPN_LEVEL_N :: "u64 \<Rightarrow> nat \<Rightarrow> u64" where
  "VPN_LEVEL_N va level = drop_bit (12 + level * 9) va AND VPN_LEVEL_N_MASK"

definition PTE_GET_PPN :: "u64 \<Rightarrow> u64" where
  "PTE_GET_PPN e = drop_bit 10 (e AND PTE_PPN_MASK)"

definition PTE_GET_ATTRIBUTE :: "u64 \<Rightarrow> u64" where
  "PTE_GET_ATTRIBUTE e = e AND PTE_ATTRIBUTE_MASK"

definition PTE_GET_PA :: "u64 \<Rightarrow> u64" where
  "PTE_GET_PA e = push_bit 12 (PTE_GET_PPN e)"

definition MAKE_PTE :: "u64 \<Rightarrow> u64 \<Rightarrow> u64" where
  "MAKE_PTE pa attribute =
     (push_bit 10 (drop_bit 12 pa) AND PTE_PPN_MASK) OR (attribute AND PTE_ATTRIBUTE_MASK)"

lemma mask_consts:
  "PTE_ATTRIBUTE_MASK = mask 10" "PTE_PPN_MASK = push_bit 10 (mask 44)" "VPN_LEVEL_N_MASK = mask 9"
  by (simp_all add: PTE_ATTRIBUTE_MASK_def PTE_PPN_MASK_def VPN_LEVEL_N_MASK_def
      mask_eq_exp_minus_1 push_bit_eq_mult)

lemma pte_flag_consts: "PTE_V = 1" "PTE_R = 2" "PTE_W = 4" "PTE_X = 8" "PTE_U = 16"
  by (simp_all add: PTE_V_def PTE_R_def PTE_W_def PTE_X_def PTE_U_def push_bit_eq_mult)

text \<open>Addresses a PTE can hold: page aligned, below \<open>2 ^ 56\<close>.\<close>

definition pte_pa :: "u64 \<Rightarrow> bool" where
  "pte_pa pa \<longleftrightarrow> pa AND NOT (push_bit 12 (mask 44)) = 0"

lemma pte_pa_bit: "pte_pa pa \<longleftrightarrow> (\<forall>n. bit pa n \<longrightarrow> 12 \<le> n \<and> n < 56)"
proof -
  have "pte_pa pa \<longleftrightarrow> (\<forall>n < 64. bit pa n \<longrightarrow> 12 \<le> n \<and> n < 56)"
    unfolding pte_pa_def by (auto simp: bit_eq_iff bit_simps)
  then show ?thesis using bit_imp_le_length [of pa] by auto
qed

lemma PTE_GET_PA_MAKE_PTE: "pte_pa pa \<Longrightarrow> PTE_GET_PA (MAKE_PTE pa attr) = pa"
  unfolding pte_pa_bit
  by (rule bit_word_eqI)
    (auto simp: PTE_GET_PA_def PTE_GET_PPN_def MAKE_PTE_def mask_consts bit_simps)

lemma PTE_GET_ATTRIBUTE_MAKE_PTE:
  "PTE_GET_ATTRIBUTE (MAKE_PTE pa attr) = attr AND PTE_ATTRIBUTE_MASK"
  by (rule bit_word_eqI)
    (auto simp: PTE_GET_ATTRIBUTE_def MAKE_PTE_def mask_consts bit_simps)

lemma MAKE_PTE_GET:
  assumes "e AND NOT (mask 54) = 0"
  shows "MAKE_PTE (PTE_GET_PA e) (PTE_GET_ATTRIBUTE e) = e"
proof (rule bit_word_eqI)
  fix n assume "n < LENGTH(64)"
  moreover have "bit e n \<Longrightarrow> n < 54"
    using assms by (metis bit_and_iff bit_mask_iff bit_not_iff bit_0_eq bot_apply bot_bool_def
        bit_imp_possible_bit)
  ultimately show "bit (MAKE_PTE (PTE_GET_PA e) (PTE_GET_ATTRIBUTE e)) n = bit e n"
    by (auto simp: MAKE_PTE_def PTE_GET_PA_def PTE_GET_PPN_def PTE_GET_ATTRIBUTE_def
        mask_consts bit_simps)
qed

definition pte_valid :: "u64 \<Rightarrow> bool" where
  "pte_valid e \<longleftrightarrow> e AND PTE_V \<noteq> 0"

lemma pte_valid_bit: "pte_valid e \<longleftrightarrow> bit e 0"
  by (simp add: pte_valid_def pte_flag_consts bit_0 and_one_eq odd_iff_mod_2_eq_one)

lemma pte_valid_MAKE_PTE: "bit attr 0 \<Longrightarrow> pte_valid (MAKE_PTE pa attr)"
  by (simp add: pte_valid_bit MAKE_PTE_def mask_consts bit_simps)

lemma pte_valid_0 [simp]: "\<not> pte_valid 0"
  by (simp add: pte_valid_def)

lemma PTE_GET_PA_aligned: "page_aligned (PTE_GET_PA e)"
proof -
  have "PTE_GET_PA e = 4096 * PTE_GET_PPN e" by (simp add: PTE_GET_PA_def push_bit_eq_mult mult.commute)
  then show ?thesis by (auto simp: page_aligned_iff_mult)
qed

lemma valid_page_pte_pa:
  assumes "valid_page ke p"
  shows "pte_pa p"
  unfolding pte_pa_bit
proof (intro allI impI)
  fix n assume n: "bit p n"
  have lt: "unat p < 2 ^ 32" using assms by (simp add: valid_page_def layout_simps word_less_nat_alt)
  have "take_bit 32 p = p"
    using lt by (simp add: word_eq_iff_unat unsigned_take_bit_eq take_bit_nat_eq_self)
  then have "n < 32" using n by (metis bit_take_bit_iff)
  moreover have "12 \<le> n"
  proof -
    obtain k where "p = 4096 * k" using assms page_aligned_iff_mult by (auto simp: valid_page_def)
    then have "p = push_bit 12 k" by (simp add: push_bit_eq_mult mult.commute)
    with n show ?thesis by (simp add: bit_simps)
  qed
  ultimately show "12 \<le> n \<and> n < 56" by simp
qed

section \<open>Entries of a table\<close>

definition entry :: "u64 \<Rightarrow> nat \<Rightarrow> u64" where
  "entry t i = t + 8 * word_of_nat i"

definition vpn :: "u64 \<Rightarrow> nat \<Rightarrow> nat" where
  "vpn va level = unat (VPN_LEVEL_N va level)"

lemma vpn_less [simp]: "vpn va level < 512"
proof -
  have "VPN_LEVEL_N va level \<le> mask 9"
    by (simp add: VPN_LEVEL_N_def mask_consts word_and_le1)
  then have "unat (VPN_LEVEL_N va level) \<le> unat (mask 9 :: u64)" by (simp add: word_le_nat_alt)
  then show ?thesis by (simp add: vpn_def mask_eq_exp_minus_1)
qed

lemma unat_entry:
  assumes "page_aligned t" "i < 512"
  shows "unat (entry t i) = unat t + 8 * i"
  using aligned_add_unat [OF assms(1), of "8 * i"] assms(2) by (simp add: entry_def)

lemma entry_in_page: "page_aligned t \<Longrightarrow> i < 512 \<Longrightarrow> in_page t (entry t i)"
  using in_page_add [of "8 * i" t] by (simp add: entry_def)

lemma entry_aligned8: "page_aligned t \<Longrightarrow> i < 512 \<Longrightarrow> aligned8 (entry t i)"
  by (auto simp: aligned8_def unat_entry page_aligned_unat elim!: dvdE)

lemma entry_inject: "page_aligned t \<Longrightarrow> i < 512 \<Longrightarrow> j < 512 \<Longrightarrow> entry t i = entry t j \<longleftrightarrow> i = j"
  by (auto simp: word_eq_iff_unat unat_entry)

lemma entry_nonzero: "page_aligned t \<Longrightarrow> t \<noteq> 0 \<Longrightarrow> i < 512 \<Longrightarrow> entry t i \<noteq> 0"
  by (auto simp: word_eq_iff_unat unat_entry)

lemma load64_store64_entry:
  "page_aligned t \<Longrightarrow> i < 512 \<Longrightarrow> j < 512 \<Longrightarrow>
    load64 (store64 m (entry t i) v) (entry t j) = (if i = j then v else load64 m (entry t j))"
  by (simp add: load64_store64 entry_aligned8 entry_inject)

lemma same_page_entry:
  "same_page t m m' \<Longrightarrow> page_aligned t \<Longrightarrow> i < 512 \<Longrightarrow> load64 m (entry t i) = load64 m' (entry t i)"
  by (rule same_page_load64 [of t]) (simp_all add: entry_in_page entry_aligned8)

lemma same_page_store_entry:
  "page_aligned p \<Longrightarrow> page_aligned t \<Longrightarrow> i < 512 \<Longrightarrow> p \<noteq> t \<Longrightarrow> same_page p m (store64 m (entry t i) v)"
  by (rule same_page_store64) (simp_all add: entry_in_page entry_aligned8)

section \<open>Walking a table\<close>

definition get_clear_page :: "'a vm_state_scheme \<Rightarrow> (u64 \<times> 'a vm_state_scheme) kres" where
  "get_clear_page s =
     kbind (kalloc s) (\<lambda>(pg, s).
     if pg = 0 then Ok (0, s)
     else Ok (pg, s\<lparr>mem := memset (mem s) pg 0 PGSIZE\<rparr>))"

abbreviation (input) MAX_LEVEL :: nat where "MAX_LEVEL \<equiv> 2"

text \<open>The loop of \<open>walk\<close>, on the level counter; the \<open>bool\<close> is \<open>alloc == ALLOC\<close>.\<close>

primrec walk_loop :: "nat \<Rightarrow> u64 \<Rightarrow> u64 \<Rightarrow> bool \<Rightarrow> 'a vm_state_scheme \<Rightarrow> (u64 \<times> 'a vm_state_scheme) kres" where
  "walk_loop 0 cur_table va alloc s = Ok (entry cur_table (vpn va 0), s)"
| "walk_loop (Suc level) cur_table va alloc s =
     (let cur_pte = entry cur_table (vpn va (Suc level)) in
      if \<not> pte_valid (load64 (mem s) cur_pte) then
        if \<not> alloc then Ok (0, s)
        else
          kbind (get_clear_page s) (\<lambda>(pg, s).
          if pg = 0 then Ok (0, s)
          else
            let s = s\<lparr>mem := store64 (mem s) cur_pte (MAKE_PTE pg PTE_V)\<rparr> in
            walk_loop level (PTE_GET_PA (load64 (mem s) cur_pte)) va alloc s)
      else walk_loop level (PTE_GET_PA (load64 (mem s) cur_pte)) va alloc s)"

definition walk :: "u64 \<Rightarrow> u64 \<Rightarrow> bool \<Rightarrow> 'a vm_state_scheme \<Rightarrow> (u64 \<times> 'a vm_state_scheme) kres" where
  "walk pgtable va alloc s =
     (if va > MAX_VA then Ok (0, s) else walk_loop MAX_LEVEL pgtable va alloc s)"

section \<open>The abstract table\<close>

primrec pte_at :: "mem \<Rightarrow> nat \<Rightarrow> u64 \<Rightarrow> u64 \<Rightarrow> u64" where
  "pte_at m 0 t va = load64 m (entry t (vpn va 0))"
| "pte_at m (Suc l) t va =
     (let e = load64 m (entry t (vpn va (Suc l))) in
      if pte_valid e then pte_at m l (PTE_GET_PA e) va else 0)"

primrec leaf_addr :: "mem \<Rightarrow> nat \<Rightarrow> u64 \<Rightarrow> u64 \<Rightarrow> u64" where
  "leaf_addr m 0 t va = entry t (vpn va 0)"
| "leaf_addr m (Suc l) t va =
     (let e = load64 m (entry t (vpn va (Suc l))) in
      if pte_valid e then leaf_addr m l (PTE_GET_PA e) va else 0)"

primrec tables :: "mem \<Rightarrow> nat \<Rightarrow> u64 \<Rightarrow> u64 set" where
  "tables m 0 t = {t}"
| "tables m (Suc l) t = insert t (\<Union>i \<in> {..<512}.
     let e = load64 m (entry t i) in if pte_valid e then tables m l (PTE_GET_PA e) else {})"

text \<open>The pages below entry \<open>i\<close> of the table \<open>t\<close> at level \<open>Suc l\<close>.\<close>

definition subtables :: "mem \<Rightarrow> nat \<Rightarrow> u64 \<Rightarrow> nat \<Rightarrow> u64 set" where
  "subtables m l t i =
     (let e = load64 m (entry t i) in if pte_valid e then tables m l (PTE_GET_PA e) else {})"

primrec table_wf :: "mem \<Rightarrow> nat \<Rightarrow> u64 \<Rightarrow> bool" where
  "table_wf m 0 t \<longleftrightarrow> page_aligned t \<and> t \<noteq> 0"
| "table_wf m (Suc l) t \<longleftrightarrow> page_aligned t \<and> t \<noteq> 0 \<and>
     (\<forall>i < 512. let e = load64 m (entry t i) in pte_valid e \<longrightarrow> table_wf m l (PTE_GET_PA e)) \<and>
     (\<forall>i < 512. t \<notin> subtables m l t i) \<and>
     (\<forall>i < 512. \<forall>j < 512. i \<noteq> j \<longrightarrow> subtables m l t i \<inter> subtables m l t j = {})"

lemma tables_Suc: "tables m (Suc l) t = insert t (\<Union>i \<in> {..<512}. subtables m l t i)"
  by (simp add: subtables_def)

lemma root_in_tables [simp]: "t \<in> tables m l t"
  by (cases l) simp_all

lemma table_wf_root: "table_wf m l t \<Longrightarrow> page_aligned t \<and> t \<noteq> 0"
  by (cases l) simp_all

lemma table_wf_child:
  "table_wf m (Suc l) t \<Longrightarrow> i < 512 \<Longrightarrow> pte_valid (load64 m (entry t i)) \<Longrightarrow>
     table_wf m l (PTE_GET_PA (load64 m (entry t i)))"
  by (simp add: Let_def)

lemma tables_aligned: "table_wf m l t \<Longrightarrow> p \<in> tables m l t \<Longrightarrow> page_aligned p \<and> p \<noteq> 0"
proof (induction l arbitrary: t)
  case (Suc l)
  then show ?case
    unfolding tables_Suc by (auto simp: subtables_def Let_def split: if_splits)
qed simp

lemma pte_at_leaf:
  "table_wf m l t \<Longrightarrow> pte_at m l t va = (if leaf_addr m l t va = 0 then 0 else load64 m (leaf_addr m l t va))"
proof (induction l arbitrary: t)
  case 0
  then show ?case by (simp add: entry_nonzero)
next
  case (Suc l)
  show ?case
    using Suc.IH [OF table_wf_child [OF Suc.prems vpn_less]] by (simp add: Let_def)
qed

text \<open>What a table means depends only on the pages it occupies.\<close>

lemma tables_frame:
  assumes "table_wf m l t" "\<And>p. p \<in> tables m l t \<Longrightarrow> same_page p m m'"
  shows "tables m' l t = tables m l t \<and> table_wf m' l t \<and> pte_at m' l t va = pte_at m l t va \<and>
    leaf_addr m' l t va = leaf_addr m l t va"
  using assms
proof (induction l arbitrary: t)
  case 0
  then have "load64 m (entry t (vpn va 0)) = load64 m' (entry t (vpn va 0))"
    by (intro same_page_entry) auto
  with 0 show ?case by simp
next
  case (Suc l)
  have al: "page_aligned t" using Suc.prems by simp
  have e: "load64 m' (entry t i) = load64 m (entry t i)" if "i < 512" for i
    using same_page_entry [of t m m' i] Suc.prems that by (simp add: tables_Suc)
  have IH: "tables m' l u = tables m l u \<and> table_wf m' l u \<and> pte_at m' l u va = pte_at m l u va \<and>
      leaf_addr m' l u va = leaf_addr m l u va"
    if "i < 512" "pte_valid (load64 m (entry t i))" "u = PTE_GET_PA (load64 m (entry t i))" for i u
  proof (rule Suc.IH)
    show "table_wf m l u" using table_wf_child [OF Suc.prems(1)] that by simp
    show "same_page p m m'" if "p \<in> tables m l u" for p
      using Suc.prems(2) [of p] that \<open>i < 512\<close> \<open>u = _\<close> \<open>pte_valid _\<close>
      by (auto simp: tables_Suc subtables_def Let_def)
  qed
  have sub: "subtables m' l t i = subtables m l t i" if "i < 512" for i
    using IH [of i] e [OF that] that by (auto simp: subtables_def Let_def)
  have "tables m' (Suc l) t = tables m (Suc l) t" unfolding tables_Suc by (simp add: sub)
  moreover have "table_wf m' (Suc l) t"
    using Suc.prems(1) IH by (auto simp: e sub Let_def)
  moreover have "pte_at m' (Suc l) t va = pte_at m (Suc l) t va"
    "leaf_addr m' (Suc l) t va = leaf_addr m (Suc l) t va"
    using IH [OF vpn_less _ refl, of va "Suc l"] by (simp_all add: e Let_def)
  ultimately show ?case by blast
qed

lemmas tables_frame_set = tables_frame [THEN conjunct1]
lemmas tables_frame_wf = tables_frame [THEN conjunct2, THEN conjunct1]
lemmas tables_frame_pte = tables_frame [THEN conjunct2, THEN conjunct2, THEN conjunct1]
lemmas tables_frame_leaf = tables_frame [THEN conjunct2, THEN conjunct2, THEN conjunct2]

text \<open>A page of zeros is an empty table at every level.\<close>

lemma load64_zero_page:
  assumes "\<And>x. in_page p x \<Longrightarrow> m x = 0" "page_aligned p" "i < 512"
  shows "load64 m (entry p i) = 0"
proof -
  have "load64 m (entry p i) = load64 (\<lambda>_. 0) (entry p i)"
    using assms by (intro same_page_load64 [of p]) (auto simp: same_page_def entry_in_page entry_aligned8)
  also have "\<dots> = 0" by (rule bit_word_eqI) (simp add: load64_def bit_load_bytes)
  finally show ?thesis .
qed

lemma empty_table:
  assumes "\<And>x. in_page p x \<Longrightarrow> m x = 0" "page_aligned p" "p \<noteq> 0"
  shows "tables m l p = {p} \<and> table_wf m l p \<and> pte_at m l p va = 0"
proof (cases l)
  case 0
  then show ?thesis using load64_zero_page [OF assms(1,2)] assms by simp
next
  case (Suc k)
  have "load64 m (entry p i) = 0" if "i < 512" for i
    using load64_zero_page [OF assms(1,2) that] .
  then show ?thesis using Suc assms by (auto simp: subtables_def)
qed

text \<open>
  Replacing what lies below one entry: the other entries, their subtables and the table page
  itself (but for the entry) stay the same.
\<close>

lemma table_update_child:
  assumes wf: "table_wf m (Suc l) t" and i: "i < 512"
    and e: "\<And>j. j < 512 \<Longrightarrow> j \<noteq> i \<Longrightarrow> load64 m' (entry t j) = load64 m (entry t j)"
    and v: "pte_valid (load64 m' (entry t i))" and u: "u = PTE_GET_PA (load64 m' (entry t i))"
    and wfu: "table_wf m' l u"
    and tu: "tables m' l u = subtables m l t i \<union> N" and N: "N \<inter> tables m (Suc l) t = {}"
    and fr: "\<And>p. p \<in> tables m (Suc l) t \<Longrightarrow> p \<noteq> t \<Longrightarrow> p \<notin> subtables m l t i \<Longrightarrow> same_page p m m'"
  shows "table_wf m' (Suc l) t \<and> tables m' (Suc l) t = tables m (Suc l) t \<union> N \<and>
    pte_at m' (Suc l) t va =
      (if vpn va (Suc l) = i then pte_at m' l u va else pte_at m (Suc l) t va)"
proof -
  have disj: "subtables m l t a \<inter> subtables m l t b = {}" if "a < 512" "b < 512" "a \<noteq> b" for a b
    using wf that by simp
  have nt: "t \<notin> subtables m l t a" if "a < 512" for a using wf that by simp
  have sub_t: "subtables m l t a \<subseteq> tables m (Suc l) t" if "a < 512" for a
    unfolding tables_Suc using that by auto
  have other: "tables m' l w = tables m l w \<and> table_wf m' l w \<and> pte_at m' l w va = pte_at m l w va"
    if "j < 512" "j \<noteq> i" "pte_valid (load64 m (entry t j))" "w = PTE_GET_PA (load64 m (entry t j))" for j w
  proof -
    have "tables m l w = subtables m l t j" using that by (simp add: subtables_def)
    then have "\<And>p. p \<in> tables m l w \<Longrightarrow> same_page p m m'"
      using fr sub_t [OF that(1)] nt [OF that(1)] disj [OF that(1) i that(2)] by blast
    from tables_frame [OF _ this] table_wf_child [OF wf that(1,3)] that(4) show ?thesis by simp
  qed
  have sub: "subtables m' l t j = subtables m l t j" if "j < 512" "j \<noteq> i" for j
    using other [OF that] e [OF that] by (simp add: subtables_def Let_def)
  have subi: "subtables m' l t i = subtables m l t i \<union> N"
    using v u tu by (simp add: subtables_def)
  have subs: "subtables m' l t j = (if j = i then subtables m l t i \<union> N else subtables m l t j)"
    if "j < 512" for j using sub [OF that] subi by simp
  have "tables m' (Suc l) t = tables m (Suc l) t \<union> N"
    unfolding tables_Suc using i by (auto simp: subs split: if_splits)
  moreover have "table_wf m' (Suc l) t"
  proof -
    have c: "table_wf m' l (PTE_GET_PA (load64 m' (entry t j)))"
      if "j < 512" "pte_valid (load64 m' (entry t j))" for j
      using other [OF that(1)] e [OF that(1)] wfu u that by (cases "j = i") auto
    have n: "t \<notin> subtables m' l t j" if "j < 512" for j
    proof -
      have "t \<notin> N" using N root_in_tables [of t m "Suc l"] by blast
      then show ?thesis using nt [OF that] nt [OF i] by (simp add: subs [OF that])
    qed
    have d: "subtables m' l t a \<inter> subtables m' l t b = {}" if "a < 512" "b < 512" "a \<noteq> b" for a b
    proof -
      have N': "N \<inter> subtables m l t a = {}" "N \<inter> subtables m l t b = {}"
        using N sub_t [OF that(1)] sub_t [OF that(2)] by blast+
      show ?thesis
        using disj [OF that] N' that(3) unfolding subs [OF that(1)] subs [OF that(2)]
        by (auto simp: Int_Un_distrib Int_Un_distrib2 Int_commute)
    qed
    show ?thesis using table_wf_root [OF wf] c n d by (simp add: Let_def)
  qed
  moreover have "pte_at m' (Suc l) t va =
      (if vpn va (Suc l) = i then pte_at m' l u va else pte_at m (Suc l) t va)"
    using v u e [OF vpn_less [of va "Suc l"]] other [OF vpn_less [of va "Suc l"] _ _ refl]
    by (auto simp: Let_def)
  ultimately show ?thesis by blast
qed

section \<open>What \<open>walk\<close> does\<close>

text \<open>Only memory and the head of the free list change.\<close>

definition only_mem :: "'a vm_state_scheme \<Rightarrow> 'a vm_state_scheme \<Rightarrow> bool" where
  "only_mem s s' \<longleftrightarrow> s' = s\<lparr>mem := mem s', mem_head := mem_head s'\<rparr>"

lemma only_mem_refl [simp]: "only_mem s s"
  by (simp add: only_mem_def)

lemma only_mem_eqs: "only_mem s s' \<Longrightarrow> kernel_end s' = kernel_end s \<and> held s' = held s \<and> noff s' = noff s"
  unfolding only_mem_def by (metis vm_state.ext_inject vm_state.surjective lock_state.ext_inject
      lock_state.surjective vm_state.update_convs(1,2) lock_state.simps(1,2) vm_state.select_convs(3))

lemma only_mem_trans [trans]: "only_mem s s' \<Longrightarrow> only_mem s' s'' \<Longrightarrow> only_mem s s''"
proof -
  assume a: "only_mem s s'" and b: "only_mem s' s''"
  have "s'' = (s\<lparr>mem := mem s', mem_head := mem_head s'\<rparr>)\<lparr>mem := mem s'', mem_head := mem_head s''\<rparr>"
    using a b unfolding only_mem_def by metis
  then show ?thesis unfolding only_mem_def by simp
qed

lemma get_clear_page_spec:
  assumes "free_repr s F"
  shows "kok (\<lambda>(p, s'). only_mem s s' \<and> (if F = {} then p = 0 \<and> s' = s
    else p \<in> F \<and> free_repr s' (F - {p}) \<and> (\<forall>x. mem s' x = (if in_page p x then 0 else mem s x))))
    (get_clear_page s)"
proof -
  obtain ps where ps: "MemContainerLock \<notin> held s" "free_list s ps" "set ps = F"
    using assms by (auto simp: free_repr_def)
  show ?thesis
  proof (cases ps)
    case Nil
    then show ?thesis using ps by (simp add: get_clear_page_def free_list_def kalloc_empty)
  next
    case (Cons p qs)
    then obtain s1 where s1: "kalloc s = Ok (p, s1)" "free_list s1 qs"
      "s1 = s\<lparr>mem_head := load64 (mem s) p, mem := make_garbage_value p (mem s)\<rparr>"
      using kalloc_free_list [of s p qs] ps by auto
    have v: "page_aligned p" "p \<noteq> 0" "p \<notin> set qs"
      using ps Cons by (auto simp: free_list_def valid_page_def)
    define s2 where "s2 = s1\<lparr>mem := memset (mem s1) p 0 PGSIZE\<rparr>"
    have m2: "mem s2 x = (if in_page p x then 0 else mem s x)" for x
      by (simp add: s2_def s1(3) memset_apply make_garbage_apply in_page_def)
    have "page_aligned q" if "q \<in> set qs" for q
      using s1(2) that by (auto simp: free_list_def)
    then have "same_page q (mem s1) (mem s2)" if "q \<in> set qs" for q
      using that v in_page_unique [OF _ v(1)]
      by (auto simp: same_page_def s2_def memset_apply in_page_def [symmetric])
    then have "writes_outside (set qs) s1 s2" by (simp add: writes_outside_def s2_def)
    moreover have "free_repr s1 (set qs)" using s1 ps by (auto simp: free_repr_def)
    ultimately have "free_repr s2 (set qs)" using kmem.write_law by blast
    moreover have "F - {p} = set qs" "p \<in> F" "F \<noteq> {}" using ps Cons v by auto
    moreover have "only_mem s s2" by (simp add: only_mem_def s2_def s1(3))
    moreover have "get_clear_page s = Ok (p, s2)" using s1(1) v by (simp add: get_clear_page_def s2_def)
    ultimately show ?thesis using m2 by simp
  qed
qed

text \<open>
  A table grows by pages of the free list; \<open>F\<close> and \<open>F'\<close> are the free pages before and after.
  No page outside the table changes.
\<close>

definition table_step ::
  "nat \<Rightarrow> u64 \<Rightarrow> 'a vm_state_scheme \<Rightarrow> u64 set \<Rightarrow> 'a vm_state_scheme \<Rightarrow> u64 set \<Rightarrow> bool" where
  "table_step l t s F s' F' \<longleftrightarrow> only_mem s s' \<and> F' \<subseteq> F \<and> free_repr s' F' \<and>
     table_wf (mem s') l t \<and> tables (mem s') l t = tables (mem s) l t \<union> (F - F') \<and>
     (\<forall>p. page_aligned p \<and> p \<notin> tables (mem s') l t \<longrightarrow> same_page p (mem s) (mem s'))"

lemma table_step_refl: "table_wf (mem s) l t \<Longrightarrow> free_repr s F \<Longrightarrow> table_step l t s F s F"
  by (simp add: table_step_def)

lemma table_step_trans:
  "table_step l t s F s' F' \<Longrightarrow> table_step l t s' F' s'' F'' \<Longrightarrow> table_step l t s F s'' F''"
  by (auto simp: table_step_def intro: only_mem_trans) (metis UnCI same_page_trans)+

lemma table_step_descend:
  assumes wf: "table_wf (mem s) (Suc l) t" and F: "tables (mem s) (Suc l) t \<inter> F = {}"
    and i: "i < 512" and v: "pte_valid (load64 (mem s) (entry t i))"
    and u: "u = PTE_GET_PA (load64 (mem s) (entry t i))"
    and st: "table_step l u s F s' F'"
  shows "table_step (Suc l) t s F s' F' \<and> load64 (mem s') (entry t i) = load64 (mem s) (entry t i) \<and>
    pte_at (mem s') (Suc l) t va =
      (if vpn va (Suc l) = i then pte_at (mem s') l u va else pte_at (mem s) (Suc l) t va)"
proof -
  have sub: "subtables (mem s) l t i = tables (mem s) l u" using v u by (simp add: subtables_def)
  have tu: "tables (mem s') l u = subtables (mem s) l t i \<union> (F - F')"
    using st sub by (simp add: table_step_def)
  have "t \<notin> tables (mem s') l u"
    using wf i F unfolding tu tables_Suc by auto
  then have pt: "same_page t (mem s) (mem s')"
    using st table_wf_root [OF wf] by (simp add: table_step_def)
  have e: "load64 (mem s') (entry t j) = load64 (mem s) (entry t j)" if "j < 512" for j
    using same_page_entry [OF pt] table_wf_root [OF wf] that by simp
  have fr: "same_page p (mem s) (mem s')"
    if "p \<in> tables (mem s) (Suc l) t" "p \<noteq> t" "p \<notin> subtables (mem s) l t i" for p
  proof -
    have "p \<notin> tables (mem s') l u" using that F unfolding tu by blast
    then show ?thesis using st tables_aligned [OF wf that(1)] by (simp add: table_step_def)
  qed
  have N: "(F - F') \<inter> tables (mem s) (Suc l) t = {}" using F by blast
  have wfu: "table_wf (mem s') l u" using st by (simp add: table_step_def)
  note up = table_update_child [OF wf i e _ _ wfu tu N fr, of va]
  have up': "table_wf (mem s') (Suc l) t \<and> tables (mem s') (Suc l) t = tables (mem s) (Suc l) t \<union> (F - F') \<and>
    pte_at (mem s') (Suc l) t va =
      (if vpn va (Suc l) = i then pte_at (mem s') l u va else pte_at (mem s) (Suc l) t va)"
    using up v u e [OF i] by simp
  moreover have "tables (mem s') l u \<subseteq> tables (mem s') (Suc l) t"
    using up' tu i unfolding tables_Suc by auto
  ultimately show ?thesis using st e [OF i] unfolding table_step_def by blast
qed

lemma walk_loop_no_alloc: "walk_loop l t va False s = Ok (leaf_addr (mem s) l t va, s)"
  by (induction l arbitrary: t) (simp_all add: Let_def)

text \<open>An absent subtable: \<open>walk\<close> puts a fresh empty table there.\<close>

lemma table_step_new:
  assumes wf: "table_wf (mem s) (Suc l) t" and F: "tables (mem s) (Suc l) t \<inter> F = {}"
    and rep: "free_repr s F" and i: "i < 512" and v: "\<not> pte_valid (load64 (mem s) (entry t i))"
    and q: "q \<in> F" and om: "only_mem s s1" and rep1: "free_repr s1 (F - {q})"
    and m1: "\<And>x. mem s1 x = (if in_page q x then 0 else mem s x)"
    and s2: "s2 = s1\<lparr>mem := store64 (mem s1) (entry t i) (MAKE_PTE q PTE_V)\<rparr>"
  shows "table_step (Suc l) t s F s2 (F - {q}) \<and> load64 (mem s2) (entry t i) = MAKE_PTE q PTE_V \<and>
    pte_at (mem s2) (Suc l) t va = pte_at (mem s) (Suc l) t va"
proof -
  have t: "page_aligned t" "t \<noteq> 0" using table_wf_root [OF wf] by auto
  have qv: "valid_page (kernel_end s) q"
    using kmem.repr_arena [OF rep] q by (auto simp: pages_of_def)
  then have qa: "page_aligned q" "q \<noteq> 0" by (auto simp: valid_page_def)
  have qt: "q \<noteq> t" using q F root_in_tables [of t "mem s" "Suc l"] by blast
  have e: "load64 (mem s2) (entry t j) = (if j = i then MAKE_PTE q PTE_V else load64 (mem s) (entry t j))"
    if "j < 512" for j
  proof -
    have "same_page t (mem s1) (mem s)"
      using in_page_unique [OF qa(1) t(1)] qt by (auto simp: same_page_def m1)
    then show ?thesis using that i t same_page_entry [of t "mem s1" "mem s" j]
      by (simp add: s2 load64_store64_entry)
  qed
  have val: "pte_valid (MAKE_PTE q PTE_V)" "PTE_GET_PA (MAKE_PTE q PTE_V) = q"
    using PTE_GET_PA_MAKE_PTE [OF valid_page_pte_pa [OF qv]]
    by (auto intro: pte_valid_MAKE_PTE simp: pte_flag_consts)
  have same: "same_page p (mem s) (mem s2)" if "page_aligned p" "p \<noteq> q" "p \<noteq> t" for p
  proof -
    have "same_page p (mem s) (mem s1)"
      using in_page_unique [OF qa(1) that(1)] that by (auto simp: same_page_def m1)
    also have "same_page p (mem s1) (mem s2)"
      using same_page_store_entry [OF that(1) t(1) i that(3)] by (simp add: s2)
    finally show ?thesis .
  qed
  have "mem s2 x = 0" if "in_page q x" for x
    using same_page_store_entry [OF qa(1) t(1) i qt, of "mem s1"] that m1
    by (simp add: s2 same_page_def)
  from empty_table [OF this qa]
  have emp: "tables (mem s2) l q = {q}" "table_wf (mem s2) l q" "pte_at (mem s2) l q va = 0" by auto
  have sub: "subtables (mem s) l t i = {}" using v by (simp add: subtables_def)
  have N: "{q} \<inter> tables (mem s) (Suc l) t = {}" using q F by blast
  have "table_wf (mem s2) (Suc l) t \<and> tables (mem s2) (Suc l) t = tables (mem s) (Suc l) t \<union> {q} \<and>
    pte_at (mem s2) (Suc l) t va =
      (if vpn va (Suc l) = i then pte_at (mem s2) l q va else pte_at (mem s) (Suc l) t va)"
  proof (rule table_update_child [OF wf i _ _ _ emp(2)])
    show "same_page p (mem s) (mem s2)" if "p \<in> tables (mem s) (Suc l) t" "p \<noteq> t" for p
      using same that tables_aligned [OF wf that(1)] N by auto
  qed (use e i val emp sub N in auto)
  moreover have "free_repr s2 (F - {q})"
  proof -
    have "same_page p (mem s1) (mem s2)" if "p \<in> F - {q}" for p
      using kmem.repr_arena [OF rep] that F root_in_tables [of t "mem s" "Suc l"]
      by (auto simp: s2 pages_of_def intro!: same_page_store_entry [OF _ t(1) i])
    then have "writes_outside (F - {q}) s1 s2" by (simp add: writes_outside_def s2)
    then show ?thesis using kmem.write_law [OF rep1] by blast
  qed
  moreover have "only_mem s s2"
    using om by (rule only_mem_trans) (simp add: only_mem_def s2)
  moreover have "pte_at (mem s) (Suc l) t va = 0" if "vpn va (Suc l) = i"
    using v that by simp
  ultimately show ?thesis
    using e [OF i] emp(3) same q F unfolding table_step_def by auto
qed

text \<open>
  The outcome of a walk that may allocate: it takes at most \<open>b\<close> pages, and NULL only when fewer
  than \<open>b\<close> pages were free.
\<close>

definition walk_post ::
  "nat \<Rightarrow> nat \<Rightarrow> u64 \<Rightarrow> u64 \<Rightarrow> 'a vm_state_scheme \<Rightarrow> u64 set \<Rightarrow> u64 \<times> 'a vm_state_scheme \<Rightarrow> bool" where
  "walk_post b l t va s F r = (case r of (a, s') \<Rightarrow>
     \<exists>F'. table_step l t s F s' F' \<and> (\<forall>w. pte_at (mem s') l t w = pte_at (mem s) l t w) \<and>
       card F \<le> card F' + b \<and> (if a = 0 then F' = {} \<and> card F < b else a = leaf_addr (mem s') l t va))"

lemma walk_descend:
  assumes wf: "table_wf (mem s) (Suc l) t" and F: "tables (mem s) (Suc l) t \<inter> F = {}"
    and v: "pte_valid (load64 (mem s) (entry t (vpn va (Suc l))))"
    and u: "u = PTE_GET_PA (load64 (mem s) (entry t (vpn va (Suc l))))"
    and post: "walk_post b l u va s F r"
  shows "walk_post b (Suc l) t va s F r"
proof -
  obtain a s' F' where r: "r = (a, s')" and st: "table_step l u s F s' F'"
    and w: "\<And>w. pte_at (mem s') l u w = pte_at (mem s) l u w"
    and a: "card F \<le> card F' + b" "if a = 0 then F' = {} \<and> card F < b else a = leaf_addr (mem s') l u va"
    using post by (auto simp: walk_post_def split: prod.splits)
  note d = table_step_descend [OF wf F vpn_less v u st]
  have "pte_at (mem s') (Suc l) t x = pte_at (mem s) (Suc l) t x" for x
    using d [of x] w [of x] v u by (simp add: Let_def)
  moreover have "leaf_addr (mem s') (Suc l) t va = leaf_addr (mem s') l u va"
    using d [of va] v u by (simp add: Let_def)
  ultimately show ?thesis using d [of va] a r by (auto simp: walk_post_def)
qed

lemma walk_post_mono: "walk_post b l t va s F r \<Longrightarrow> b \<le> b' \<Longrightarrow> walk_post b' l t va s F r"
  by (auto simp: walk_post_def split: if_splits)

lemma walk_post_trans:
  assumes "table_step l t s F s' F'" "\<And>w. pte_at (mem s') l t w = pte_at (mem s) l t w"
    and "walk_post b l t va s' F' r" "card F \<le> Suc (card F')"
  shows "walk_post (Suc b) l t va s F r"
proof -
  obtain a s'' F'' where r: "r = (a, s'')" "table_step l t s' F' s'' F''"
    "\<And>w. pte_at (mem s'') l t w = pte_at (mem s') l t w"
    "card F' \<le> card F'' + b" "if a = 0 then F'' = {} \<and> card F' < b else a = leaf_addr (mem s'') l t va"
    using assms(3) by (auto simp: walk_post_def split: prod.splits)
  then show ?thesis
    using table_step_trans [OF assms(1) r(2)] assms(2,4) by (auto simp: walk_post_def)
qed

lemma walk_loop_spec:
  assumes "table_wf (mem s) l t" "free_repr s F" "tables (mem s) l t \<inter> F = {}"
  shows "kok (walk_post l l t va s F) (walk_loop l t va True s)"
  using assms
proof (induction l arbitrary: s t F)
  case 0
  then show ?case
    by (auto simp: walk_post_def table_step_refl entry_nonzero intro!: exI [of _ F])
next
  case (Suc l)
  let ?i = "vpn va (Suc l)"
  let ?e = "load64 (mem s) (entry t ?i)"
  have down: "kok (walk_post l (Suc l) t va s F) (walk_loop l (PTE_GET_PA (load64 (mem s) (entry t ?i))) va True s)"
    if wf: "table_wf (mem s) (Suc l) t" "free_repr s F" "tables (mem s) (Suc l) t \<inter> F = {}"
      and v: "pte_valid (load64 (mem s) (entry t ?i))" for s :: "'a vm_state_scheme" and F
  proof -
    have "subtables (mem s) l t ?i \<subseteq> tables (mem s) (Suc l) t" 
      unfolding tables_Suc using vpn_less by blast
    then have "tables (mem s) l (PTE_GET_PA (load64 (mem s) (entry t ?i))) \<inter> F = {}"
      using that(3) v by (auto simp: subtables_def)
    from Suc.IH [OF table_wf_child [OF wf(1) vpn_less v] wf(2) this]
    show ?thesis by (rule kok_mono) (rule walk_descend [OF wf(1,3) v refl])
  qed
  show ?case
  proof (cases "pte_valid ?e")
    case True
    have "kok (walk_post (Suc l) (Suc l) t va s F) (walk_loop l (PTE_GET_PA ?e) va True s)"
      using down [OF Suc.prems True] by (rule kok_mono) (rule walk_post_mono [OF _ le_SucI [OF order_refl]])
    then show ?thesis using True by (simp add: Let_def)
  next
    case False
    obtain q s1 where g: "get_clear_page s = Ok (q, s1)"
      and om: "only_mem s s1"
      and q: "if F = {} then q = 0 \<and> s1 = s
        else q \<in> F \<and> free_repr s1 (F - {q}) \<and> (\<forall>x. mem s1 x = (if in_page q x then 0 else mem s x))"
      using get_clear_page_spec [OF Suc.prems(2)] by (auto simp: kok_def)
    show ?thesis
    proof (cases "F = {}")
      case True
      with False g q table_step_refl [OF Suc.prems(1,2)] show ?thesis
        by (simp add: walk_post_def exI [of _ "{}"])
    next
      case ne: False
      define s2 where "s2 = s1\<lparr>mem := store64 (mem s1) (entry t ?i) (MAKE_PTE q PTE_V)\<rparr>"
      have q0: "q \<noteq> 0" using q ne kmem.repr_nonzero [OF Suc.prems(2)] by auto
      have qF: "q \<in> F" "free_repr s1 (F - {q})" "\<And>x. mem s1 x = (if in_page q x then 0 else mem s x)"
        using q ne by simp_all
      note new = table_step_new [OF Suc.prems(1,3,2) vpn_less False qF(1) om qF(2,3) s2_def]
      have v2: "pte_valid (load64 (mem s2) (entry t ?i))"
        using new by (simp add: pte_valid_MAKE_PTE pte_flag_consts)
      have "table_wf (mem s2) (Suc l) t" "free_repr s2 (F - {q})"
        "tables (mem s2) (Suc l) t \<inter> (F - {q}) = {}"
        using new Suc.prems(3) unfolding table_step_def by blast+
      note d = down [OF this v2]
      have c: "card F \<le> Suc (card (F - {q}))"
        using qF(1) by (metis card_Suc_Diff1 card.infinite order_refl zero_le)
      have "kok (walk_post (Suc l) (Suc l) t va s F)
          (walk_loop l (PTE_GET_PA (load64 (mem s2) (entry t ?i))) va True s2)"
        using d by (rule kok_mono) (use new c walk_post_trans in blast)
      then show ?thesis
        using False g q0 by (simp add: s2_def Let_def)
    qed
  qed
qed

text \<open>Writing the leaf entry that \<open>walk\<close> returns changes the translation of one page.\<close>

definition same_vpn :: "nat \<Rightarrow> u64 \<Rightarrow> u64 \<Rightarrow> bool" where
  "same_vpn l va w \<longleftrightarrow> (\<forall>k \<le> l. vpn va k = vpn w k)"

lemma leaf_store:
  assumes "table_wf m l t" "leaf_addr m l t va \<noteq> 0"
  shows "let m' = store64 m (leaf_addr m l t va) v in
    table_wf m' l t \<and> tables m' l t = tables m l t \<and>
    (\<forall>p. page_aligned p \<and> p \<notin> tables m l t \<longrightarrow> same_page p m m') \<and>
    (\<forall>w. pte_at m' l t w = (if same_vpn l va w then v else pte_at m l t w))"
  using assms
proof (induction l arbitrary: t)
  case 0
  then have t: "page_aligned t" by simp
  show ?case
    using 0 by (auto simp: Let_def load64_store64_entry same_vpn_def intro: same_page_store_entry [OF _ t])
next
  case (Suc l)
  let ?i = "vpn va (Suc l)" let ?m' = "store64 m (leaf_addr m (Suc l) t va) v"
  let ?u = "PTE_GET_PA (load64 m (entry t ?i))"
  have t: "page_aligned t" using Suc.prems by simp
  have v: "pte_valid (load64 m (entry t ?i))" and la: "leaf_addr m (Suc l) t va = leaf_addr m l ?u va"
    using Suc.prems(2) by (auto simp: Let_def split: if_splits)
  have sub: "subtables m l t ?i = tables m l ?u" using v by (simp add: subtables_def)
  have sub_t: "tables m l ?u \<subseteq> tables m (Suc l) t" using sub vpn_less unfolding tables_Suc by blast
  have "leaf_addr m l ?u va \<noteq> 0" using Suc.prems(2) la by simp
  from Suc.IH [OF table_wf_child [OF Suc.prems(1) vpn_less v] this]
  have IH: "table_wf ?m' l ?u" "tables ?m' l ?u = tables m l ?u"
    "\<And>p. page_aligned p \<Longrightarrow> p \<notin> tables m l ?u \<Longrightarrow> same_page p m ?m'"
    "\<And>w. pte_at ?m' l ?u w = (if same_vpn l va w then v else pte_at m l ?u w)"
    unfolding la by (simp_all add: Let_def)
  have "t \<notin> tables m l ?u" using Suc.prems(1) sub vpn_less [of va "Suc l"] by (auto simp del: vpn_less)
  then have e: "load64 ?m' (entry t j) = load64 m (entry t j)" if "j < 512" for j
    using same_page_entry [OF IH(3) t that] t by simp
  have "table_wf ?m' (Suc l) t \<and> tables ?m' (Suc l) t = tables m (Suc l) t \<union> {} \<and>
    pte_at ?m' (Suc l) t w = (if vpn w (Suc l) = ?i then pte_at ?m' l ?u w else pte_at m (Suc l) t w)" for w
  proof (rule table_update_child [OF Suc.prems(1) vpn_less e _ _ IH(1)])
    show "same_page p m ?m'" if "p \<in> tables m (Suc l) t" "p \<notin> subtables m l t ?i" for p
      using IH(3) that sub tables_aligned [OF Suc.prems(1) that(1)] by simp
  qed (use e v sub IH(2) in simp_all)
  moreover have "same_vpn (Suc l) va w \<longleftrightarrow> vpn w (Suc l) = ?i \<and> same_vpn l va w" for w
    by (auto simp: same_vpn_def le_Suc_eq)
  ultimately show ?case
    using IH(3,4) sub_t v by (auto simp: Let_def)
qed

section \<open>Mapping and unmapping\<close>

definition map_page :: "u64 \<Rightarrow> u64 \<Rightarrow> u64 \<Rightarrow> u64 \<Rightarrow> 'a vm_state_scheme \<Rightarrow> (int \<times> 'a vm_state_scheme) kres" where
  "map_page pgtable va pa attribute s =
     kbind (walk pgtable va True s) (\<lambda>(target, s).
     if target = 0 then Ok (-1, s)
     else if pte_valid (load64 (mem s) target) then
       Panic ''map_page: try to map page that has been mapped''
     else Ok (0, s\<lparr>mem := store64 (mem s) target (MAKE_PTE pa (attribute OR PTE_V))\<rparr>))"

text \<open>The flags are \<open>free == FREE\<close> and \<open>panic_when_unmap == PANIC\<close>.\<close>

definition unmap_page_flex :: "u64 \<Rightarrow> u64 \<Rightarrow> bool \<Rightarrow> bool \<Rightarrow> 'a vm_state_scheme \<Rightarrow> 'a vm_state_scheme kres" where
  "unmap_page_flex pgtable va free panic_when_unmap s =
     kbind (walk pgtable va False s) (\<lambda>(target, s).
     if target = 0 \<or> \<not> pte_valid (load64 (mem s) target) then
       if panic_when_unmap then Panic ''unmap_page_flex: unmap unmaped page'' else Ok s
     else
       kbind (if free then kfree (PTE_GET_PA (load64 (mem s) target)) s else Ok s) (\<lambda>s.
       Ok (s\<lparr>mem := store64 (mem s) target 0\<rparr>)))"

definition unmap_page :: "u64 \<Rightarrow> u64 \<Rightarrow> 'a vm_state_scheme \<Rightarrow> 'a vm_state_scheme kres" where
  "unmap_page pgtable va = unmap_page_flex pgtable va False True"

definition unmap_page_free :: "u64 \<Rightarrow> u64 \<Rightarrow> 'a vm_state_scheme \<Rightarrow> 'a vm_state_scheme kres" where
  "unmap_page_free pgtable va = unmap_page_flex pgtable va True True"

primrec unmap_loop :: "nat \<Rightarrow> u64 \<Rightarrow> u64 \<Rightarrow> bool \<Rightarrow> bool \<Rightarrow> 'a vm_state_scheme \<Rightarrow> 'a vm_state_scheme kres" where
  "unmap_loop 0 pgtable va free panic s = Ok s"
| "unmap_loop (Suc n) pgtable va free panic s =
     kbind (unmap_page_flex pgtable va free panic s) (unmap_loop n pgtable (va + PGSIZE) free panic)"

definition unmap_n_pages_flex ::
  "u64 \<Rightarrow> u64 \<Rightarrow> int \<Rightarrow> bool \<Rightarrow> bool \<Rightarrow> 'a vm_state_scheme \<Rightarrow> 'a vm_state_scheme kres" where
  "unmap_n_pages_flex pgtable va n free panic = unmap_loop (nat n) pgtable va free panic"

definition unmap_n_pages :: "u64 \<Rightarrow> u64 \<Rightarrow> int \<Rightarrow> 'a vm_state_scheme \<Rightarrow> 'a vm_state_scheme kres" where
  "unmap_n_pages pgtable va n = unmap_n_pages_flex pgtable va n False True"

definition unmap_n_pages_free :: "u64 \<Rightarrow> u64 \<Rightarrow> int \<Rightarrow> 'a vm_state_scheme \<Rightarrow> 'a vm_state_scheme kres" where
  "unmap_n_pages_free pgtable va n = unmap_n_pages_flex pgtable va n True True"

definition unmap_n_pages_free_hole :: "u64 \<Rightarrow> u64 \<Rightarrow> int \<Rightarrow> 'a vm_state_scheme \<Rightarrow> 'a vm_state_scheme kres" where
  "unmap_n_pages_free_hole pgtable va n = unmap_n_pages_flex pgtable va n True False"

primrec map_n_loop ::
  "nat \<Rightarrow> int \<Rightarrow> u64 \<Rightarrow> u64 \<Rightarrow> u64 \<Rightarrow> u64 \<Rightarrow> u64 \<Rightarrow> 'a vm_state_scheme \<Rightarrow> (int \<times> 'a vm_state_scheme) kres" where
  "map_n_loop 0 i pgtable va_start va pa attribute s = Ok (0, s)"
| "map_n_loop (Suc n) i pgtable va_start va pa attribute s =
     kbind (map_page pgtable va pa attribute s) (\<lambda>(err, s).
     if err \<noteq> 0 then kbind (unmap_n_pages pgtable va_start i s) (\<lambda>s. Ok (-1, s))
     else map_n_loop n (i + 1) pgtable va_start (va + PGSIZE) (pa + PGSIZE) attribute s)"

definition map_n_pages :: "u64 \<Rightarrow> u64 \<Rightarrow> int \<Rightarrow> u64 \<Rightarrow> u64 \<Rightarrow> 'a vm_state_scheme \<Rightarrow> (int \<times> 'a vm_state_scheme) kres" where
  "map_n_pages pgtable va n pa attribute = map_n_loop (nat n) 0 pgtable va va pa attribute"

section \<open>Releasing and copying whole tables\<close>

text \<open>
  \<open>free_page_table_aux\<close> recurses with \<open>level - 1\<close> and stops only at level 1, so a call with
  level 0 or less follows entries without a bound on the depth; the first argument bounds the
  depth, \<open>Hang\<close> is running past it.
\<close>

primrec free_page_table_aux :: "nat \<Rightarrow> u64 \<Rightarrow> int \<Rightarrow> 'a vm_state_scheme \<Rightarrow> 'a vm_state_scheme kres" where
  "free_page_table_aux 0 table level s = Hang"
| "free_page_table_aux (Suc depth) table level s =
     kbind (kfold (\<lambda>i s.
         let e = load64 (mem s) (entry table i) in
         if \<not> pte_valid e then Ok s
         else if level = 1 then kfree (PTE_GET_PA e) s
         else free_page_table_aux depth (PTE_GET_PA e) (level - 1) s) [0..<512] s)
       (kfree table)"

definition free_page_table :: "u64 \<Rightarrow> 'a vm_state_scheme \<Rightarrow> 'a vm_state_scheme kres" where
  "free_page_table pgtable = free_page_table_aux 2 pgtable 2"

text \<open>
  \<open>copy_page_table_aux\<close>: the result is a table, NULL when the table is empty, or
  \<open>(page_table)-1\<close> when memory ran out. The first argument bounds the depth of the clean-up.
\<close>

primrec copy_page_table_aux :: "nat \<Rightarrow> nat \<Rightarrow> u64 \<Rightarrow> 'a vm_state_scheme \<Rightarrow> (u64 \<times> 'a vm_state_scheme) kres" where
  "copy_page_table_aux depth 0 table s =
     kbind (get_clear_page s) (\<lambda>(copy_table, s).
     if copy_table = 0 then Ok (-1, s)
     else
       kbind (kfor (\<lambda>i (has_sub_page, s).
           let e = load64 (mem s) (entry table i) in
           if \<not> pte_valid e then Ok (None, has_sub_page, s)
           else
             kbind (kalloc s) (\<lambda>(page, s).
             if page = 0 then
               kbind (free_page_table_aux depth copy_table 0 s) (\<lambda>s. Ok (Some (-1), True, s))
             else
               let s = s\<lparr>mem := memcpy (mem s) page (PTE_GET_PA e) PGSIZE\<rparr>;
                   s = s\<lparr>mem := store64 (mem s) (entry copy_table i) (MAKE_PTE page (PTE_GET_ATTRIBUTE e))\<rparr> in
               Ok (None, True, s))) [0..<512] (False, s)) (\<lambda>(r, has_sub_page, s).
       case r of
         Some v \<Rightarrow> Ok (v, s)
       | None \<Rightarrow> if has_sub_page then Ok (copy_table, s) else kbind (kfree copy_table s) (\<lambda>s. Ok (0, s))))"
| "copy_page_table_aux depth (Suc level) table s =
     kbind (get_clear_page s) (\<lambda>(copy_table, s).
     if copy_table = 0 then Ok (-1, s)
     else
       kbind (kfor (\<lambda>i (has_sub_page, s).
           let e = load64 (mem s) (entry table i) in
           if \<not> pte_valid e then Ok (None, has_sub_page, s)
           else
             kbind (copy_page_table_aux depth level (PTE_GET_PA e) s) (\<lambda>(sub_table, s).
             if sub_table = 0 then Ok (None, True, s)
             else if sub_table = -1 then
               kbind (free_page_table_aux depth copy_table (int (Suc level)) s) (\<lambda>s. Ok (Some (-1), True, s))
             else
               Ok (None, True, s\<lparr>mem := store64 (mem s) (entry copy_table i)
                 (MAKE_PTE sub_table (PTE_GET_ATTRIBUTE e))\<rparr>))) [0..<512] (False, s)) (\<lambda>(r, has_sub_page, s).
       case r of
         Some v \<Rightarrow> Ok (v, s)
       | None \<Rightarrow> if has_sub_page then Ok (copy_table, s) else kbind (kfree copy_table s) (\<lambda>s. Ok (0, s))))"

definition copy_page_table :: "nat \<Rightarrow> u64 \<Rightarrow> 'a vm_state_scheme \<Rightarrow> (u64 \<times> 'a vm_state_scheme) kres" where
  "copy_page_table depth pgtable s =
     kbind (copy_page_table_aux depth MAX_LEVEL pgtable s) (\<lambda>(ret, s).
     Ok (if ret = 0 \<or> ret = -1 then 0 else ret, s))"

text \<open>
  The loop of \<open>merge_page_table_in_interval\<close> tests \<open>cur_mem < end\<close> on addresses that wrap; its
  first argument bounds the rounds (\<open>Hang\<close> past it), and \<open>unat end div 4096 + 2\<close> rounds are
  enough when \<open>end\<close> is at least a page below the end of the address space.
\<close>

primrec merge_loop :: "nat \<Rightarrow> u64 \<Rightarrow> u64 \<Rightarrow> u64 \<Rightarrow> u64 \<Rightarrow> 'a vm_state_scheme \<Rightarrow> ((bool \<times> u64) \<times> 'a vm_state_scheme) kres" where
  "merge_loop 0 mapped_table pgtable cur_mem fin s = Hang"
| "merge_loop (Suc n) mapped_table pgtable cur_mem fin s =
     (if \<not> cur_mem < fin then Ok ((True, cur_mem), s)
      else
        kbind (walk pgtable cur_mem False s) (\<lambda>(pte, s).
        if pte = 0 then merge_loop n mapped_table pgtable (cur_mem + PGSIZE) fin s
        else
          let origin_page = PTE_GET_PA (load64 (mem s) pte);
              attribute = PTE_GET_ATTRIBUTE (load64 (mem s) pte) in
          kbind (kalloc s) (\<lambda>(copy_page, s).
          if copy_page = 0 then Ok ((False, cur_mem), s)
          else
            let s = s\<lparr>mem := memcpy (mem s) copy_page origin_page PGSIZE\<rparr> in
            kbind (map_page mapped_table cur_mem copy_page attribute s) (\<lambda>(err, s).
            if err \<noteq> 0 then Ok ((False, cur_mem), s)
            else merge_loop n mapped_table pgtable (cur_mem + PGSIZE) fin s))))"

definition merge_page_table_in_interval ::
  "u64 \<Rightarrow> u64 \<Rightarrow> u64 \<Rightarrow> u64 \<Rightarrow> 'a vm_state_scheme \<Rightarrow> (int \<times> 'a vm_state_scheme) kres" where
  "merge_page_table_in_interval mapped_table pgtable start fin s =
     kbind (merge_loop (unat fin div 4096 + 2) mapped_table pgtable start fin s) (\<lambda>((ok, cur_mem), s).
     if ok then Ok (0, s)
     else
       kbind (unmap_n_pages_free_hole mapped_table start
         (sint (ucast ((cur_mem - start) div PGSIZE) :: u32)) s) (\<lambda>s.
       Ok (-1, s)))"

section \<open>Address spaces as maps\<close>

lemma vpn_div:
  "vpn va 0 = unat va div 4096 mod 512" "vpn va (Suc 0) = unat va div 2097152 mod 512"
  "vpn va 2 = unat va div 1073741824 mod 512"
  by (simp_all add: vpn_def VPN_LEVEL_N_def mask_consts take_bit_eq_mask [symmetric] take_bit_eq_mod
      drop_bit_eq_div unat_div_distrib unat_mod)

lemma MAX_VA_page: "va \<le> MAX_VA \<longleftrightarrow> unat va div 4096 < 2 ^ 26"
proof -
  have "va \<le> MAX_VA \<longleftrightarrow> unat va < 2 ^ 26 * 4096" by (auto simp: word_le_nat_alt layout_simps)
  then show ?thesis by (simp add: div_less_iff_less_mult)
qed

lemma three_digits:
  fixes a b :: nat
  assumes "a < 2 ^ 26" "b < 2 ^ 26"
  shows "a = b \<longleftrightarrow> a mod 512 = b mod 512 \<and> a div 512 mod 512 = b div 512 mod 512 \<and>
    a div 262144 mod 512 = b div 262144 mod 512"
proof -
  have "x = x div 262144 mod 512 * 262144 + x div 512 mod 512 * 512 + x mod 512" if "x < 2 ^ 26" for x :: nat
  proof -
    have "x div 262144 < 512" using that by (simp add: div_less_iff_less_mult)
    moreover have "x div 512 div 512 = x div 262144" by (simp add: div_mult2_eq [symmetric])
    moreover have "x = x div 512 * 512 + x mod 512"
      "x div 512 = x div 512 div 512 * 512 + x div 512 mod 512" by simp_all
    ultimately show ?thesis by (simp only: mod_less)
  qed
  then show ?thesis using assms by metis
qed

lemma same_vpn_page:
  assumes "va \<le> MAX_VA" "w \<le> MAX_VA"
  shows "same_vpn 2 va w \<longleftrightarrow> unat va div 4096 = unat w div 4096"
proof -
  have d: "x div 2097152 = x div 4096 div 512" "x div 1073741824 = x div 4096 div 262144" for x :: nat
    by (simp_all add: div_mult2_eq [symmetric])
  have "same_vpn 2 va w \<longleftrightarrow> vpn va 0 = vpn w 0 \<and> vpn va (Suc 0) = vpn w (Suc 0) \<and> vpn va 2 = vpn w 2"
    by (auto simp: same_vpn_def numeral_2_eq_2 le_Suc_eq)
  then show ?thesis
    using three_digits [of "unat va div 4096" "unat w div 4096"] assms
    by (simp add: vpn_div d MAX_VA_page)
qed

lemma pte_at_cong: "same_vpn l va w \<Longrightarrow> pte_at m l t va = pte_at m l t w"
  by (induction l arbitrary: t) (simp_all add: same_vpn_def Let_def)

definition page_va :: "nat \<Rightarrow> u64" where
  "page_va k = word_of_nat (4096 * k)"

lemma unat_page_va: "k < 2 ^ 26 \<Longrightarrow> unat (page_va k) = 4096 * k"
  unfolding page_va_def by (rule unat_word_of_nat) simp

lemma page_va_page: "k < 2 ^ 26 \<Longrightarrow> page_va k \<le> MAX_VA \<and> unat (page_va k) div 4096 = k"
  by (simp add: MAX_VA_page unat_page_va)

text \<open>
  The address space of the table \<open>t\<close>: a map from page numbers to valid entries.
\<close>

definition lookup :: "'a vm_state_scheme \<Rightarrow> u64 \<Rightarrow> nat \<Rightarrow> u64 option" where
  "lookup s t k =
     (if k < 2 ^ 26 \<and> pte_valid (pte_at (mem s) 2 t (page_va k)) then Some (pte_at (mem s) 2 t (page_va k))
      else None)"

lemma lookup_va:
  assumes "va \<le> MAX_VA"
  shows "lookup s t (unat va div 4096) =
    (if pte_valid (pte_at (mem s) 2 t va) then Some (pte_at (mem s) 2 t va) else None)"
proof -
  have k: "unat va div 4096 < 2 ^ 26" using assms by (simp add: MAX_VA_page)
  have "same_vpn 2 (page_va (unat va div 4096)) va"
    using page_va_page [OF k] same_vpn_page assms by simp
  from pte_at_cong [OF this] show ?thesis using k by (simp add: lookup_def)
qed

lemma lookup_cong: "(\<And>w. pte_at (mem s') 2 t w = pte_at (mem s) 2 t w) \<Longrightarrow> lookup s' t = lookup s t"
  by (auto simp: lookup_def)

lemma lookup_update:
  assumes "va \<le> MAX_VA" "\<And>w. pte_at (mem s') 2 t w = (if same_vpn 2 va w then v else pte_at (mem s) 2 t w)"
  shows "lookup s' t = (lookup s t)(unat va div 4096 := (if pte_valid v then Some v else None))"
proof
  fix k
  show "lookup s' t k = ((lookup s t)(unat va div 4096 := (if pte_valid v then Some v else None))) k"
  proof (cases "k < 2 ^ 26")
    case True
    then show ?thesis
      using same_vpn_page [OF assms(1), of "page_va k"] page_va_page [OF True]
      by (auto simp: lookup_def assms(2))
  next
    case False
    then show ?thesis using assms(1) by (auto simp: lookup_def MAX_VA_page)
  qed
qed

text \<open>The invariant of one address space: its tables form a tree, apart from the free pages.\<close>

definition space_ok :: "'a vm_state_scheme \<Rightarrow> u64 \<Rightarrow> u64 set \<Rightarrow> bool" where
  "space_ok s t F \<longleftrightarrow> table_wf (mem s) 2 t \<and> free_repr s F \<and> tables (mem s) 2 t \<inter> F = {}"

lemma table_step_space_ok:
  "space_ok s t F \<Longrightarrow> table_step 2 t s F s' F' \<Longrightarrow> space_ok s' t F'"
  unfolding space_ok_def table_step_def by blast

lemma walk_space:
  assumes "space_ok s t F" "va \<le> MAX_VA"
  shows "kok (walk_post 2 2 t va s F) (walk t va True s)"
  using walk_loop_spec [of s 2 t F va] assms by (auto simp: walk_def space_ok_def)

lemma walk_no_alloc:
  "walk t va False s = Ok (if va > MAX_VA then 0 else leaf_addr (mem s) 2 t va, s)"
  by (simp add: walk_def walk_loop_no_alloc)

lemma free_repr_aligned: "free_repr s F \<Longrightarrow> p \<in> F \<Longrightarrow> page_aligned p"
  using kmem.repr_arena by (auto simp: pages_of_def)

text \<open>Storing an entry through the leaf address keeps everything but that entry.\<close>

lemma store_leaf_step:
  assumes ok: "space_ok s t F" and la: "leaf_addr (mem s) 2 t va \<noteq> 0"
    and s': "s' = s\<lparr>mem := store64 (mem s) (leaf_addr (mem s) 2 t va) v\<rparr>"
  shows "table_step 2 t s F s' F \<and> (\<forall>w. pte_at (mem s') 2 t w = (if same_vpn 2 va w then v else pte_at (mem s) 2 t w))"
proof -
  have wf: "table_wf (mem s) 2 t" and F: "free_repr s F" "tables (mem s) 2 t \<inter> F = {}"
    using ok by (auto simp: space_ok_def)
  note ls = leaf_store [OF wf la, of v, unfolded Let_def]
  have "same_page p (mem s) (mem s')" if "p \<in> F" for p
  proof -
    have "page_aligned p" "p \<notin> tables (mem s) 2 t"
      using free_repr_aligned [OF F(1) that] F(2) that by auto
    then show ?thesis using ls by (simp add: s')
  qed
  then have "writes_outside F s s'" by (simp add: writes_outside_def s')
  then have "free_repr s' F" using kmem.write_law [OF F(1)] by blast
  with ls show ?thesis by (simp add: table_step_def s' only_mem_def)
qed

definition map_post ::
  "u64 \<Rightarrow> u64 \<Rightarrow> u64 \<Rightarrow> 'a vm_state_scheme \<Rightarrow> u64 set \<Rightarrow> int \<times> 'a vm_state_scheme \<Rightarrow> bool" where
  "map_post t va e s F r = (case r of (err, s') \<Rightarrow> \<exists>F'. table_step 2 t s F s' F' \<and> card F \<le> card F' + 2 \<and>
     (if err = 0 then lookup s' t = (lookup s t)(unat va div 4096 \<mapsto> e)
      else err = -1 \<and> F' = {} \<and> card F < 2 \<and> lookup s' t = lookup s t))"

lemma map_page_spec:
  assumes ok: "space_ok s t F" and va: "va \<le> MAX_VA" and un: "lookup s t (unat va div 4096) = None"
  shows "kok (map_post t va (MAKE_PTE pa (attr OR PTE_V)) s F) (map_page t va pa attr s)"
proof -
  obtain a s1 F1 where w: "walk t va True s = Ok (a, s1)" and st: "table_step 2 t s F s1 F1"
    and p: "\<And>w. pte_at (mem s1) 2 t w = pte_at (mem s) 2 t w"
    and c: "card F \<le> card F1 + 2"
    and a: "if a = 0 then F1 = {} \<and> card F < 2 else a = leaf_addr (mem s1) 2 t va"
    using walk_space [OF ok va] by (auto simp: kok_def walk_post_def)
  have lk: "lookup s1 t = lookup s t" using p by (rule lookup_cong)
  have ok1: "space_ok s1 t F1" by (rule table_step_space_ok [OF ok st])
  show ?thesis
  proof (cases "a = 0")
    case True
    then show ?thesis using w st a c lk by (auto simp: map_page_def map_post_def)
  next
    case False
    let ?v = "MAKE_PTE pa (attr OR PTE_V)"
    define s2 where "s2 = s1\<lparr>mem := store64 (mem s1) a ?v\<rparr>"
    have la: "leaf_addr (mem s1) 2 t va = a" "leaf_addr (mem s1) 2 t va \<noteq> 0" using a False by auto
    have nv: "\<not> pte_valid (load64 (mem s1) a)"
      using un lookup_va [OF va, of s1 t] pte_at_leaf [of "mem s1" 2 t va] ok1 la lk
      by (auto simp: space_ok_def split: if_splits)
    have v: "pte_valid ?v"
      by (rule pte_valid_MAKE_PTE) (simp add: pte_flag_consts bit_simps)
    note sl = store_leaf_step [OF ok1 la(2), of s2 ?v, unfolded la(1), OF s2_def]
    have "table_step 2 t s F s2 F1" using sl table_step_trans [OF st] by blast
    moreover have "lookup s2 t = (lookup s t)(unat va div 4096 \<mapsto> ?v)"
      using lookup_update [OF va, of s2 t ?v s1] sl v lk by simp
    ultimately show ?thesis
      using w False nv c by (auto simp: map_page_def map_post_def s2_def)
  qed
qed

lemma walk_loop_present:
  "leaf_addr (mem s) l t va \<noteq> 0 \<Longrightarrow> walk_loop l t va alloc s = Ok (leaf_addr (mem s) l t va, s)"
  by (induction l arbitrary: t) (auto simp: Let_def split: if_splits)

lemma lookup_leaf:
  assumes "space_ok s t F" "va \<le> MAX_VA" "lookup s t (unat va div 4096) = Some e"
  shows "leaf_addr (mem s) 2 t va \<noteq> 0 \<and> load64 (mem s) (leaf_addr (mem s) 2 t va) = e \<and> pte_valid e"
  using assms lookup_va [of va s t] pte_at_leaf [of "mem s" 2 t va]
  by (auto simp: space_ok_def split: if_splits)

lemma lookup_no_leaf:
  assumes "space_ok s t F" "va \<le> MAX_VA" "lookup s t (unat va div 4096) = None"
  shows "leaf_addr (mem s) 2 t va = 0 \<or> \<not> pte_valid (load64 (mem s) (leaf_addr (mem s) 2 t va))"
  using assms lookup_va [of va s t] pte_at_leaf [of "mem s" 2 t va]
  by (auto simp: space_ok_def split: if_splits)

lemma map_page_mapped:
  assumes "space_ok s t F" "va \<le> MAX_VA" "lookup s t (unat va div 4096) = Some e"
  shows "map_page t va pa attr s = Panic ''map_page: try to map page that has been mapped''"
  using lookup_leaf [OF assms] walk_loop_present [of s 2 t va True] assms(2)
  by (auto simp: map_page_def walk_def)

section \<open>Unmapping\<close>

lemma unmap_page_spec:
  assumes ok: "space_ok s t F" and va: "va \<le> MAX_VA" and e: "lookup s t (unat va div 4096) = Some e"
  shows "kok (\<lambda>s'. table_step 2 t s F s' F \<and> lookup s' t = (lookup s t)(unat va div 4096 := None))
    (unmap_page t va s)"
proof -
  define s' where "s' = s\<lparr>mem := store64 (mem s) (leaf_addr (mem s) 2 t va) 0\<rparr>"
  note la = lookup_leaf [OF ok va e]
  note st = store_leaf_step [OF ok la [THEN conjunct1] s'_def]
  then have "lookup s' t = (lookup s t)(unat va div 4096 := None)"
    using lookup_update [OF va, of s' t 0 s] by simp
  moreover have "unmap_page t va s = Ok s'"
    using la va by (auto simp: unmap_page_def unmap_page_flex_def walk_no_alloc s'_def)
  ultimately show ?thesis using st by simp
qed

lemma unmap_page_unmapped:
  assumes "space_ok s t F" "va \<le> MAX_VA" "lookup s t (unat va div 4096) = None"
  shows "unmap_page_flex t va free panic s =
    (if panic then Panic ''unmap_page_flex: unmap unmaped page'' else Ok s)"
  using lookup_no_leaf [OF assms] assms(2) by (auto simp: unmap_page_flex_def walk_no_alloc)

text \<open>
  Unmapping with \<open>FREE\<close> gives the page back; it must be a page of the allocator that is neither
  free nor part of the table.
\<close>

lemma unmap_free_spec:
  assumes ok: "space_ok s t F" and va: "va \<le> MAX_VA" and e: "lookup s t (unat va div 4096) = Some e"
    and p: "PTE_GET_PA e \<in> pages_of s - F - tables (mem s) 2 t"
  shows "kok (\<lambda>s'. only_mem s s' \<and> space_ok s' t (insert (PTE_GET_PA e) F) \<and>
      tables (mem s') 2 t = tables (mem s) 2 t \<and> lookup s' t = (lookup s t)(unat va div 4096 := None) \<and>
      (\<forall>q. page_aligned q \<and> q \<notin> tables (mem s) 2 t \<and> q \<noteq> PTE_GET_PA e \<longrightarrow> same_page q (mem s) (mem s')))
    (unmap_page_flex t va True panic s)"
proof -
  let ?p = "PTE_GET_PA e"
  have wf: "table_wf (mem s) 2 t" and rep: "free_repr s F" and dj: "tables (mem s) 2 t \<inter> F = {}"
    using ok by (auto simp: space_ok_def)
  obtain ps where ps: "MemContainerLock \<notin> held s" "free_list s ps" "set ps = F"
    using rep by (auto simp: free_repr_def)
  have pv: "valid_page (kernel_end s) ?p" "?p \<notin> set ps" "page_aligned ?p"
    using p ps by (auto simp: pages_of_def)
  define s1 where "s1 = s\<lparr>mem := store64 (mem s) ?p (mem_head s), mem_head := ?p\<rparr>"
  have k: "kfree ?p s = Ok s1" "free_list s1 (?p # ps)"
    using kfree_free_list [OF ps(2,1) pv(1,2)] by (simp_all add: s1_def)
  have same: "same_page q (mem s) (mem s1)" if "page_aligned q" "q \<noteq> ?p" for q
    using same_page_store64 [OF that(1) pv(3) in_page_self page_aligned_aligned8 that(2)] pv(3)
    by (simp add: s1_def)
  have fr: "tables (mem s1) 2 t = tables (mem s) 2 t \<and> table_wf (mem s1) 2 t \<and>
      pte_at (mem s1) 2 t w = pte_at (mem s) 2 t w \<and> leaf_addr (mem s1) 2 t w = leaf_addr (mem s) 2 t w" for w
    using tables_frame [OF wf] same tables_aligned [OF wf] p by blast
  have ok1: "space_ok s1 t (insert ?p F)"
    using fr dj p k ps by (auto simp: space_ok_def free_repr_def s1_def intro!: exI [of _ "?p # ps"])
  define s2 where "s2 = s1\<lparr>mem := store64 (mem s1) (leaf_addr (mem s1) 2 t va) 0\<rparr>"
  note la = lookup_leaf [OF ok va e]
  have la1: "leaf_addr (mem s1) 2 t va \<noteq> 0" using la fr by simp
  note st = store_leaf_step [OF ok1 la1 s2_def]
  have "lookup s2 t = (lookup s t)(unat va div 4096 := None)"
    using lookup_update [OF va, of s2 t 0 s1] st lookup_cong [of s1 t s] fr by simp
  moreover have "unmap_page_flex t va True panic s = Ok s2"
    using la va k fr [of va] by (auto simp: unmap_page_flex_def walk_no_alloc s2_def)
  moreover have "space_ok s2 t (insert ?p F)" using table_step_space_ok [OF ok1] st by blast
  moreover have "only_mem s s2"
    by (rule only_mem_trans [of s s1]) (auto simp: only_mem_def s1_def s2_def)
  moreover have t2: "tables (mem s2) 2 t = tables (mem s) 2 t"
    using st fr by (simp add: table_step_def)
  moreover have "same_page q (mem s) (mem s2)"
    if "page_aligned q" "q \<notin> tables (mem s) 2 t" "q \<noteq> ?p" for q
  proof -
    have "q \<notin> tables (mem s2) 2 t" using t2 that(2) by simp
    then have "same_page q (mem s1) (mem s2)" using st that(1) by (simp add: table_step_def)
    with same [OF that(1,3)] show ?thesis by (rule same_page_trans)
  qed
  ultimately show ?thesis using t2 by simp
qed

section \<open>Runs of pages\<close>

lemma next_page_no:
  assumes "va \<le> MAX_VA"
  shows "unat (va + 4096) div 4096 = unat va div 4096 + 1"
proof -
  have "unat (va + 4096) = unat va + 4096"
    using assms by (subst unat_add_no_wrap) (auto simp: word_le_nat_alt layout_simps)
  then show ?thesis by simp
qed

text \<open>\<open>remap f k n g\<close>: the map \<open>g\<close> with \<open>f 0, \<dots>, f (n - 1)\<close> put at \<open>k, \<dots>, k + n - 1\<close>.\<close>

definition remap :: "(nat \<Rightarrow> 'b) \<Rightarrow> nat \<Rightarrow> nat \<Rightarrow> (nat \<Rightarrow> 'b) \<Rightarrow> nat \<Rightarrow> 'b" where
  "remap f k n g = (\<lambda>j. if k \<le> j \<and> j < k + n then f (j - k) else g j)"

lemma remap_0 [simp]: "remap f k 0 g = g"
  by (rule ext) (auto simp: remap_def)

lemma remap_Suc_front: "remap f k (Suc n) g = remap (\<lambda>i. f (Suc i)) (Suc k) n (g(k := f 0))"
  by (rule ext) (auto simp: remap_def Suc_diff_Suc)

lemma remap_Suc_back: "remap f k (Suc n) g = (remap f k n g)(k + n := f n)"
  by (rule ext) (auto simp: remap_def less_Suc_eq)

lemma remap_twice: "remap f k n (remap h k n g) = remap f k n g"
  by (rule ext) (simp add: remap_def)

lemma remap_same: "(\<And>i. i < n \<Longrightarrow> f i = g (k + i)) \<Longrightarrow> remap f k n g = g"
  by (rule ext) (auto simp: remap_def)

lemma unmap_loop_spec:
  assumes "space_ok s t F" "unat va div 4096 + n \<le> 2 ^ 26"
    and "\<And>i. i < n \<Longrightarrow> lookup s t (unat va div 4096 + i) \<noteq> None"
  shows "kok (\<lambda>s'. table_step 2 t s F s' F \<and> lookup s' t = remap (\<lambda>_. None) (unat va div 4096) n (lookup s t))
    (unmap_loop n t va False True s)"
  using assms
proof (induction n arbitrary: s va)
  case 0
  then show ?case by (simp add: table_step_refl space_ok_def)
next
  case (Suc n)
  let ?k = "unat va div 4096"
  have va: "va \<le> MAX_VA" using Suc.prems(2) by (simp add: MAX_VA_page)
  obtain e where e: "lookup s t ?k = Some e" using Suc.prems(3) [of 0] by auto
  obtain s1 where s1: "unmap_page_flex t va False True s = Ok s1" "table_step 2 t s F s1 F"
    "lookup s1 t = (lookup s t)(?k := None)"
    using unmap_page_spec [OF Suc.prems(1) va e] by (auto simp: kok_def unmap_page_def)
  note np = next_page_no [OF va]
  have "kok (\<lambda>s'. table_step 2 t s1 F s' F \<and>
      lookup s' t = remap (\<lambda>_. None) (Suc ?k) n (lookup s1 t)) (unmap_loop n t (va + 4096) False True s1)"
    using Suc.IH [of s1 "va + 4096"] Suc.prems(2,3) np s1(3) table_step_space_ok [OF Suc.prems(1) s1(2)]
    by (fastforce simp: add.assoc)
  then show ?case
    using s1 table_step_trans [OF s1(2)] by (auto simp: remap_Suc_front kok_def)
qed

lemma map_n_loop_spec:
  fixes t attr pa0 :: u64
  defines "f \<equiv> (\<lambda>j :: nat. Some (MAKE_PTE (pa0 + 4096 * word_of_nat j) (attr OR PTE_V)))"
  assumes "space_ok s t F" "k = unat va0 div 4096" "unat va div 4096 = k + i" "k + i + n \<le> 2 ^ 26"
    and "\<And>j. j < i + n \<Longrightarrow> L (k + j) = None" and "lookup s t = remap f k i L"
    and "pa = pa0 + 4096 * word_of_nat i"
  shows "kok (\<lambda>(err, s'). \<exists>F'. table_step 2 t s F s' F' \<and>
    (if err = 0 then lookup s' t = remap f k (i + n) L else err = -1 \<and> lookup s' t = L))
    (map_n_loop n (int i) t va0 va pa attr s)"
  using assms(2-)
proof (induction n arbitrary: s F va i pa)
  case 0
  then show ?case using table_step_refl [of s 2 t F] by (auto simp: space_ok_def)
next
  case (Suc n)
  have va: "va \<le> MAX_VA" using Suc.prems(3,4) by (simp add: MAX_VA_page)
  have un: "lookup s t (unat va div 4096) = None"
    using Suc.prems(3,5,6) by (simp add: remap_def)
  obtain err s1 F1 where m: "map_page t va pa attr s = Ok (err, s1)" and st: "table_step 2 t s F s1 F1"
    and r: "if err = 0 then lookup s1 t = (lookup s t)(unat va div 4096 \<mapsto> MAKE_PTE pa (attr OR PTE_V))
      else err = -1 \<and> F1 = {} \<and> card F < 2 \<and> lookup s1 t = lookup s t"
    using map_page_spec [OF Suc.prems(1) va un, of pa attr] by (auto simp: kok_def map_post_def)
  have ok1: "space_ok s1 t F1" by (rule table_step_space_ok [OF Suc.prems(1) st])
  show ?case
  proof (cases "err = 0")
    case True
    have l1: "lookup s1 t = remap f k (Suc i) L"
      using r True Suc.prems(3,6,7) by (simp add: remap_Suc_back f_def)
    have "kok (\<lambda>(err, s'). \<exists>F'. table_step 2 t s1 F1 s' F' \<and>
      (if err = 0 then lookup s' t = remap f k (Suc i + n) L else err = -1 \<and> lookup s' t = L))
      (map_n_loop n (int (Suc i)) t va0 (va + 4096) (pa + 4096) attr s1)"
      using Suc.prems(2-5,7) next_page_no [OF va]
      by (intro Suc.IH [OF ok1 _ _ _ _ l1]) (auto simp: algebra_simps)
    then show ?thesis using m True table_step_trans [OF st] by (fastforce simp: kok_def algebra_simps)
  next
    case False
    have l1: "lookup s1 t = remap f k i L" using r False Suc.prems(6) by simp
    have run: "unat va0 div 4096 + i \<le> 2 ^ 26" using Suc.prems(2,4) by simp
    have "lookup s1 t (unat va0 div 4096 + j) \<noteq> None" if "j < i" for j
      using that Suc.prems(2) by (simp add: l1 remap_def f_def)
    from unmap_loop_spec [OF ok1 run this] obtain s2 where
      s2: "unmap_loop i t va0 False True s1 = Ok s2" "table_step 2 t s1 F1 s2 F1"
        "lookup s2 t = remap (\<lambda>_. None) k i (lookup s1 t)"
      using Suc.prems(2) by (auto simp: kok_def)
    have "lookup s2 t = L"
      unfolding s2(3) l1 remap_twice using Suc.prems(5) by (intro remap_same) simp
    moreover have eq: "map_n_loop (Suc n) (int i) t va0 va pa attr s = Ok (-1, s2)"
      using m False s2(1) by (simp add: unmap_n_pages_def unmap_n_pages_flex_def)
    ultimately show ?thesis
      unfolding eq using table_step_trans [OF st s2(2)] by auto
  qed
qed

section \<open>Giving a table back\<close>

text \<open>
  \<open>kfree\<close> of one table page: the pages that are not freed keep their bytes.
\<close>

definition frees :: "'a vm_state_scheme \<Rightarrow> u64 set \<Rightarrow> 'a vm_state_scheme \<Rightarrow> u64 set \<Rightarrow> bool" where
  "frees s F s' P \<longleftrightarrow> only_mem s s' \<and> free_repr s' (F \<union> P) \<and>
     (\<forall>q. page_aligned q \<and> q \<notin> P \<longrightarrow> same_page q (mem s) (mem s'))"

lemma frees_refl: "free_repr s F \<Longrightarrow> frees s F s {}"
  by (simp add: frees_def)

lemma frees_trans:
  "frees s F s' P \<Longrightarrow> frees s' (F \<union> P) s'' Q \<Longrightarrow> frees s F s'' (P \<union> Q)"
  unfolding frees_def by (auto simp: Un_assoc intro: only_mem_trans same_page_trans)

lemma kfree_frees:
  assumes "free_repr s F" "p \<in> pages_of s" "p \<notin> F"
  shows "kok (\<lambda>s'. frees s F s' {p}) (kfree p s)"
proof -
  obtain ps where ps: "MemContainerLock \<notin> held s" "free_list s ps" "set ps = F"
    using assms by (auto simp: free_repr_def)
  have v: "valid_page (kernel_end s) p" "p \<notin> set ps" using assms ps by (auto simp: pages_of_def)
  then have pa: "page_aligned p" by auto
  obtain s' where s': "kfree p s = Ok s'" "free_list s' (p # ps)"
    "s' = s\<lparr>mem := store64 (mem s) p (mem_head s), mem_head := p\<rparr>"
    using kfree_free_list [OF ps(2,1) v] by auto
  have "same_page q (mem s) (mem s')" if "page_aligned q" "q \<noteq> p" for q
    using same_page_store64 [OF that(1) pa in_page_self page_aligned_aligned8 that(2)] pa by (simp add: s'(3))
  then show ?thesis
    using s' ps by (auto simp: frees_def only_mem_def free_repr_def intro!: exI [of _ "p # ps"])
qed

lemma only_mem_pages_of: "only_mem s s' \<Longrightarrow> pages_of s' = pages_of s"
  by (simp add: pages_of_def only_mem_eqs)

lemma free_entries_spec:
  assumes wf: "table_wf (mem s) (Suc l) t" and rep: "free_repr s F"
    and dj: "tables (mem s) (Suc l) t \<inter> F = {}" and pg: "tables (mem s) (Suc l) t \<subseteq> pages_of s"
    and body: "\<And>i s' F'. i < 512 \<Longrightarrow> free_repr s' F' \<Longrightarrow> only_mem s s' \<Longrightarrow>
      pte_valid (load64 (mem s) (entry t i)) \<Longrightarrow>
      (\<And>q. q \<in> subtables (mem s) l t i \<Longrightarrow> same_page q (mem s) (mem s')) \<Longrightarrow>
      subtables (mem s) l t i \<inter> F' = {} \<Longrightarrow>
      kok (\<lambda>s''. frees s' F' s'' (subtables (mem s) l t i)) (g (PTE_GET_PA (load64 (mem s) (entry t i))) s')"
    and n: "n \<le> 512"
  shows "kok (\<lambda>s'. frees s F s' (\<Union>i<n. subtables (mem s) l t i))
    (kfold (\<lambda>i s. let e = load64 (mem s) (entry t i) in if \<not> pte_valid e then Ok s else g (PTE_GET_PA e) s) [0..<n] s)"
  using n
proof (induction n)
  case 0
  then show ?case using rep by (simp add: frees_refl)
next
  case (Suc n)
  let ?S = "subtables (mem s) l t" let ?P = "\<Union>i<n. ?S i"
  obtain s1 where s1: "frees s F s1 ?P"
    "kfold (\<lambda>i s. let e = load64 (mem s) (entry t i) in if \<not> pte_valid e then Ok s else g (PTE_GET_PA e) s) [0..<n] s = Ok s1"
    using Suc.IH Suc.prems by (auto simp: kok_def)
  have t: "page_aligned t" using table_wf_root [OF wf] by simp
  have nt: "t \<notin> ?P" using wf Suc.prems by auto
  have same: "same_page q (mem s) (mem s1)" if "page_aligned q" "q \<notin> ?P" for q
    using s1(1) that by (simp add: frees_def)
  have e: "load64 (mem s1) (entry t n) = load64 (mem s) (entry t n)"
    using same_page_entry [OF same [OF t nt] t] Suc.prems by simp
  have dis: "?S n \<inter> ?P = {}"
  proof -
    have "?S n \<inter> ?S i = {}" if "i < n" for i using wf that Suc.prems by simp
    then show ?thesis by blast
  qed
  have sub: "?S n \<subseteq> tables (mem s) (Suc l) t" using Suc.prems unfolding tables_Suc by auto
  have un: "(\<Union>i<Suc n. ?S i) = ?P \<union> ?S n" by (auto simp: less_Suc_eq)
  have "kok (\<lambda>s'. frees s F s' (?P \<union> ?S n))
    (if \<not> pte_valid (load64 (mem s) (entry t n)) then Ok s1 else g (PTE_GET_PA (load64 (mem s) (entry t n))) s1)"
  proof (cases "pte_valid (load64 (mem s) (entry t n))")
    case False
    then have "?S n = {}" by (simp add: subtables_def)
    with s1 False show ?thesis by simp
  next
    case True
    have "same_page q (mem s) (mem s1)" if "q \<in> ?S n" for q
      using same tables_aligned [OF wf, of q] sub that dis by blast
    moreover have "?S n \<inter> (F \<union> ?P) = {}" using dis sub dj by blast
    ultimately have "kok (\<lambda>s''. frees s1 (F \<union> ?P) s'' (?S n)) (g (PTE_GET_PA (load64 (mem s) (entry t n))) s1)"
      using s1(1) Suc.prems True by (intro body) (auto simp: frees_def)
    then show ?thesis using True frees_trans [OF s1(1)] by (auto elim: kok_mono)
  qed
  then show ?case
    unfolding un using s1(2) by (auto simp: kfold_snoc e Let_def split: if_splits)
qed

lemma free_table_spec:
  assumes wf: "table_wf (mem s) (Suc l) t" and rep: "free_repr s F"
    and dj: "tables (mem s) (Suc l) t \<inter> F = {}" and pg: "tables (mem s) (Suc l) t \<subseteq> pages_of s"
    and body: "\<And>i s' F'. i < 512 \<Longrightarrow> free_repr s' F' \<Longrightarrow> only_mem s s' \<Longrightarrow>
      pte_valid (load64 (mem s) (entry t i)) \<Longrightarrow>
      (\<And>q. q \<in> subtables (mem s) l t i \<Longrightarrow> same_page q (mem s) (mem s')) \<Longrightarrow>
      subtables (mem s) l t i \<inter> F' = {} \<Longrightarrow>
      kok (\<lambda>s''. frees s' F' s'' (subtables (mem s) l t i)) (g (PTE_GET_PA (load64 (mem s) (entry t i))) s')"
  shows "kok (\<lambda>s'. frees s F s' (tables (mem s) (Suc l) t))
    (kbind (kfold (\<lambda>i s. let e = load64 (mem s) (entry t i) in
       if \<not> pte_valid e then Ok s else g (PTE_GET_PA e) s) [0..<512] s) (kfree t))"
proof -
  let ?P = "\<Union>i<512. subtables (mem s) l t i"
  obtain s1 where s1: "frees s F s1 ?P"
    "kfold (\<lambda>i s. let e = load64 (mem s) (entry t i) in if \<not> pte_valid e then Ok s else g (PTE_GET_PA e) s) [0..<512] s = Ok s1"
    using free_entries_spec [OF wf rep dj pg body, of 512] unfolding kok_def by blast
  have "t \<notin> subtables (mem s) l t i" if "i < 512" for i using wf that by simp
  then have t: "t \<notin> ?P" "t \<notin> F" "t \<in> pages_of s"
    using dj pg root_in_tables [of t "mem s" "Suc l"] by blast+
  have "free_repr s1 (F \<union> ?P)" "only_mem s s1" using s1(1) by (simp_all add: frees_def)
  then have "kok (\<lambda>s'. frees s1 (F \<union> ?P) s' {t}) (kfree t s1)"
    using t only_mem_pages_of by (intro kfree_frees) auto
  then have "kok (\<lambda>s'. frees s F s' (?P \<union> {t})) (kfree t s1)"
    by (rule kok_mono) (rule frees_trans [OF s1(1)])
  moreover have "?P \<union> {t} = tables (mem s) (Suc l) t" unfolding tables_Suc by auto
  ultimately show ?thesis using s1(2) by simp
qed

lemma free_level1:
  assumes wf: "table_wf (mem s) (Suc 0) t" and rep: "free_repr s F"
    and dj: "tables (mem s) (Suc 0) t \<inter> F = {}" and pg: "tables (mem s) (Suc 0) t \<subseteq> pages_of s"
  shows "kok (\<lambda>s'. frees s F s' (tables (mem s) (Suc 0) t)) (free_page_table_aux (Suc d) t 1 s)"
proof -
  have "kok (\<lambda>s''. frees s' F' s'' (subtables (mem s) 0 t i)) (kfree (PTE_GET_PA (load64 (mem s) (entry t i))) s')"
    if i: "i < 512" "free_repr s' F'" "only_mem s s'" and v: "pte_valid (load64 (mem s) (entry t i))"
      and d: "subtables (mem s) 0 t i \<inter> F' = {}" for i s' F'
  proof -
    have eq: "subtables (mem s) 0 t i = {PTE_GET_PA (load64 (mem s) (entry t i))}"
      using v by (simp add: subtables_def)
    have "subtables (mem s) 0 t i \<subseteq> tables (mem s) (Suc 0) t" using i unfolding tables_Suc by auto
    then show ?thesis
      using d i pg only_mem_pages_of [OF i(3)] unfolding eq by (intro kfree_frees) auto
  qed
  from free_table_spec [OF wf rep dj pg, of kfree] this show ?thesis
    by (simp add: Let_def del: tables.simps cong: if_cong)
qed

lemma free_level2:
  assumes wf: "table_wf (mem s) 2 t" and rep: "free_repr s F"
    and dj: "tables (mem s) 2 t \<inter> F = {}" and pg: "tables (mem s) 2 t \<subseteq> pages_of s"
  shows "kok (\<lambda>s'. frees s F s' (tables (mem s) 2 t)) (free_page_table t s)"
proof -
  let ?g = "\<lambda>p. free_page_table_aux (Suc 0) p 1"
  note two = numeral_2_eq_2
  have "kok (\<lambda>s''. frees s' F' s'' (subtables (mem s) (Suc 0) t i)) (?g (PTE_GET_PA (load64 (mem s) (entry t i))) s')"
    if i: "i < 512" "free_repr s' F'" "only_mem s s'" and v: "pte_valid (load64 (mem s) (entry t i))"
      and same: "\<And>q. q \<in> subtables (mem s) (Suc 0) t i \<Longrightarrow> same_page q (mem s) (mem s')"
      and d: "subtables (mem s) (Suc 0) t i \<inter> F' = {}" for i s' F'
  proof -
    let ?u = "PTE_GET_PA (load64 (mem s) (entry t i))"
    have eq: "subtables (mem s) (Suc 0) t i = tables (mem s) (Suc 0) ?u"
      using v by (simp add: subtables_def Let_def)
    have wfu: "table_wf (mem s) (Suc 0) ?u" using table_wf_child wf i(1) v two by metis
    have fr: "tables (mem s') (Suc 0) ?u = tables (mem s) (Suc 0) ?u" "table_wf (mem s') (Suc 0) ?u"
      using tables_frame [OF wfu same [unfolded eq]] by blast+
    have "subtables (mem s) (Suc 0) t i \<subseteq> tables (mem s) 2 t"
      using i unfolding two tables_Suc by auto
    then have "tables (mem s) (Suc 0) ?u \<subseteq> pages_of s'"
      using pg only_mem_pages_of [OF i(3)] unfolding eq by blast
    with d show ?thesis
      unfolding eq by (intro free_level1 [OF fr(2) i(2), of 0, unfolded fr(1)])
  qed
  from free_table_spec [OF wf [unfolded two] rep dj [unfolded two] pg [unfolded two], of ?g] this
  show ?thesis by (simp add: free_page_table_def two Let_def del: tables.simps cong: if_cong)
qed

section \<open>The interface of an address space\<close>

text \<open>
  What the process code relies on: binding an absent page adds it or changes nothing, and
  unbinding a present one removes it. \<open>mk\<close> builds the entry from address and attributes.
\<close>

locale address_space =
  fixes ok :: "'s \<Rightarrow> bool"
    and look :: "'s \<Rightarrow> nat \<Rightarrow> u64 option"
    and bind :: "nat \<Rightarrow> u64 \<Rightarrow> u64 \<Rightarrow> 's \<Rightarrow> (int \<times> 's) kres"
    and unbind :: "nat \<Rightarrow> 's \<Rightarrow> 's kres"
    and mk :: "u64 \<Rightarrow> u64 \<Rightarrow> u64"
  assumes look_bound: "look s k = Some e \<Longrightarrow> k < 2 ^ 26"
    and bind_law: "ok s \<Longrightarrow> k < 2 ^ 26 \<Longrightarrow> look s k = None \<Longrightarrow>
      kok (\<lambda>(err, s'). ok s' \<and>
        (if err = 0 then look s' = (look s)(k \<mapsto> mk pa attr) else look s' = look s)) (bind k pa attr s)"
    and unbind_law: "ok s \<Longrightarrow> look s k = Some e \<Longrightarrow>
      kok (\<lambda>s'. ok s' \<and> look s' = (look s)(k := None)) (unbind k s)"
begin

lemma bind_unbind:
  assumes "ok s" "k < 2 ^ 26" "look s k = None" "bind k pa attr s = Ok (0, s1)"
  shows "kok (\<lambda>s2. ok s2 \<and> look s2 = look s) (unbind k s1)"
proof -
  have s1: "ok s1" "look s1 = (look s)(k \<mapsto> mk pa attr)"
    using bind_law [OF assms(1-3), of pa attr] assms(4) by auto
  have "(look s)(k := None) = look s" using assms(3) by auto
  with unbind_law [OF s1(1), of k] s1(2) show ?thesis by simp
qed

text \<open>Pages bound one after the other, as process creation does, undone in any order.\<close>

primrec bind_all :: "(nat \<times> u64 \<times> u64) list \<Rightarrow> 's \<Rightarrow> (int \<times> 's) kres" where
  "bind_all [] s = Ok (0, s)"
| "bind_all (b # bs) s = (case b of (k, pa, attr) \<Rightarrow>
     kbind (bind k pa attr s) (\<lambda>(err, s). if err \<noteq> 0 then Ok (err, s) else bind_all bs s))"

lemma bind_all_law:
  assumes "ok s" "distinct (map fst bs)" "\<forall>k \<in> fst ` set bs. k < 2 ^ 26 \<and> look s k = None"
  shows "kok (\<lambda>(err, s'). ok s' \<and> (\<forall>k. k \<notin> fst ` set bs \<longrightarrow> look s' k = look s k) \<and>
    (err = 0 \<longrightarrow> (\<forall>(k, pa, attr) \<in> set bs. look s' k = Some (mk pa attr)))) (bind_all bs s)"
  using assms
proof (induction bs arbitrary: s)
  case (Cons b bs)
  obtain k pa attr where b: "b = (k, pa, attr)" by (cases b)
  obtain err s1 where s1: "bind k pa attr s = Ok (err, s1)" "ok s1"
    "if err = 0 then look s1 = (look s)(k \<mapsto> mk pa attr) else look s1 = look s"
    using bind_law [OF Cons.prems(1), of k pa attr] Cons.prems(3) b by (auto simp: kok_def)
  show ?case
  proof (cases "err = 0")
    case False
    with s1 b show ?thesis by simp
  next
    case True
    have k: "k \<notin> fst ` set bs" using Cons.prems(2) b by simp
    have "kok (\<lambda>(err, s'). ok s' \<and> (\<forall>j. j \<notin> fst ` set bs \<longrightarrow> look s' j = look s1 j) \<and>
      (err = 0 \<longrightarrow> (\<forall>(k, pa, attr) \<in> set bs. look s' k = Some (mk pa attr)))) (bind_all bs s1)"
      using Cons.prems(2,3) s1 True b k by (intro Cons.IH) auto
    then show ?thesis using s1 True b k by (auto simp: kok_def)
  qed
qed simp

end

interpretation space: address_space "\<lambda>s. \<exists>F. space_ok s t F" "\<lambda>s. lookup s t"
  "\<lambda>k. map_page t (page_va k)" "\<lambda>k. unmap_page t (page_va k)" "\<lambda>pa attr. MAKE_PTE pa (attr OR PTE_V)"
  for t
proof
  show "k < 2 ^ 26" if "lookup s t k = Some e" for s k e
    using that by (simp add: lookup_def split: if_splits)
next
  fix s :: "'a vm_state_scheme" and k pa attr
  assume "\<exists>F. space_ok s t F" "k < 2 ^ 26" "lookup s t k = None"
  then obtain F where F: "space_ok s t F" by blast
  from map_page_spec [OF F, of "page_va k" pa attr] page_va_page [OF \<open>k < 2 ^ 26\<close>] \<open>lookup s t k = None\<close>
  show "kok (\<lambda>(err, s'). (\<exists>F. space_ok s' t F) \<and>
    (if err = 0 then lookup s' t = (lookup s t)(k \<mapsto> MAKE_PTE pa (attr OR PTE_V)) else lookup s' t = lookup s t))
    (map_page t (page_va k) pa attr s)"
    using table_step_space_ok [OF F] by (auto elim!: kok_mono simp: map_post_def split: if_splits) blast+
next
  fix s :: "'a vm_state_scheme" and k e
  assume "\<exists>F. space_ok s t F" and e: "lookup s t k = Some e"
  then obtain F where F: "space_ok s t F" by blast
  have k: "k < 2 ^ 26" using e by (simp add: lookup_def split: if_splits)
  from unmap_page_spec [OF F, of "page_va k" e] page_va_page [OF k] e
  show "kok (\<lambda>s'. (\<exists>F. space_ok s' t F) \<and> lookup s' t = (lookup s t)(k := None)) (unmap_page t (page_va k) s)"
    using table_step_space_ok [OF F] by (auto elim!: kok_mono) blast?
qed

section \<open>A small machine\<close>

text \<open>
  The last three pages of memory are the allocator's: an empty table and two free pages. The
  witnesses below run on it.
\<close>

definition tiny_root :: u64 where "tiny_root = 0x87ffd000"

definition tiny_vm :: vm_state where
  "tiny_vm = \<lparr>held = {}, noff = 0, mem = store64 (\<lambda>_. 0) 0x87ffe000 0x87fff000,
     mem_head = 0x87ffe000, kernel_end = 0x87ffd000\<rparr>"

lemma tiny_pages:
  "valid_page (kernel_end tiny_vm) 0x87ffd000" "valid_page (kernel_end tiny_vm) 0x87ffe000"
  "valid_page (kernel_end tiny_vm) 0x87fff000"
  by (simp_all add: tiny_vm_def valid_page_def page_aligned_def layout_simps)

lemma tiny_mem:
  "page_aligned p \<Longrightarrow> p \<noteq> 0x87ffe000 \<Longrightarrow> in_page p x \<Longrightarrow> mem tiny_vm x = 0"
  using store64_in_page [of "0x87ffe000" "0x87ffe000" x "\<lambda>_. 0" "0x87fff000"]
    in_page_unique [of p "0x87ffe000" x] tiny_pages(2)
  by (auto simp: tiny_vm_def page_aligned_aligned8)

lemma tiny_free: "free_repr tiny_vm {0x87ffe000, 0x87fff000}"
proof -
  have "load64 (mem tiny_vm) 0x87fff000 = 0"
    using load64_zero_page [of "0x87fff000" "mem tiny_vm" 0] tiny_mem [of "0x87fff000"] tiny_pages(3)
    by (auto simp: entry_def)
  moreover have "load64 (mem tiny_vm) 0x87ffe000 = 0x87fff000"
    by (simp add: tiny_vm_def)
  ultimately have "free_list tiny_vm [0x87ffe000, 0x87fff000]"
    using tiny_pages by (simp add: free_list_def) (simp add: tiny_vm_def)
  then show ?thesis by (auto simp: free_repr_def tiny_vm_def intro!: exI [of _ "[0x87ffe000, 0x87fff000]"])
qed

lemma tiny_tables: "tables (mem tiny_vm) 2 tiny_root = {tiny_root}"
  using tiny_mem tiny_pages(1) empty_table [of tiny_root "mem tiny_vm" 2 0] by (auto simp: tiny_root_def)

lemma tiny_space: "space_ok tiny_vm tiny_root {0x87ffe000, 0x87fff000} \<and> lookup tiny_vm tiny_root k = None"
proof -
  have "tables (mem tiny_vm) 2 tiny_root = {tiny_root} \<and> table_wf (mem tiny_vm) 2 tiny_root \<and>
      pte_at (mem tiny_vm) 2 tiny_root va = 0" for va
    using tiny_mem tiny_pages(1) by (intro empty_table) (auto simp: tiny_root_def)
  then show ?thesis using tiny_free by (auto simp: space_ok_def lookup_def tiny_root_def)
qed

section \<open>Properties\<close>

text \<open>
  C3: \<open>map_page\<close> refines the update of a map. In an address space whose tables form a tree apart
  from the free pages, \<open>map_page\<close> of an unmapped page returns; with 0 the page (and no other) is
  mapped to the new entry, with -1 memory has run out (fewer than two pages were free, the most a
  walk takes) and the mapping is as before. Either way
  the tables still form a tree, every page the tables gained was free, and no page outside the
  tables changes. For a mapped page it panics, and for an address above \<open>MAX_VA\<close> it returns -1
  and changes nothing.
\<close>

theorem map_page_refines:
  assumes "space_ok s t F"
  shows "(va \<le> MAX_VA \<and> lookup s t (unat va div 4096) = None \<longrightarrow>
      kok (\<lambda>(err, s'). \<exists>F'. space_ok s' t F' \<and> table_step 2 t s F s' F' \<and>
        (if err = 0 then lookup s' t = (lookup s t)(unat va div 4096 \<mapsto> MAKE_PTE pa (attr OR PTE_V))
         else err = -1 \<and> F' = {} \<and> card F < 2 \<and> lookup s' t = lookup s t)) (map_page t va pa attr s)) \<and>
    (va \<le> MAX_VA \<and> lookup s t (unat va div 4096) \<noteq> None \<longrightarrow> (\<exists>msg. map_page t va pa attr s = Panic msg)) \<and>
    (MAX_VA < va \<longrightarrow> map_page t va pa attr s = Ok (-1, s))"
proof (intro conjI impI)
  assume "va \<le> MAX_VA \<and> lookup s t (unat va div 4096) = None"
  then have "kok (map_post t va (MAKE_PTE pa (attr OR PTE_V)) s F) (map_page t va pa attr s)"
    using map_page_spec [OF assms] by blast
  then show "kok (\<lambda>(err, s'). \<exists>F'. space_ok s' t F' \<and> table_step 2 t s F s' F' \<and>
        (if err = 0 then lookup s' t = (lookup s t)(unat va div 4096 \<mapsto> MAKE_PTE pa (attr OR PTE_V))
         else err = -1 \<and> F' = {} \<and> card F < 2 \<and> lookup s' t = lookup s t)) (map_page t va pa attr s)"
    by (rule kok_mono) (use table_step_space_ok [OF assms] in \<open>force simp: map_post_def\<close>)
next
  assume "va \<le> MAX_VA \<and> lookup s t (unat va div 4096) \<noteq> None"
  then show "\<exists>msg. map_page t va pa attr s = Panic msg" using map_page_mapped [OF assms] by blast
qed (simp add: map_page_def walk_def)

lemma tiny_map_page:
  assumes "k < 2 ^ 26"
  shows "\<exists>s1 F1. map_page tiny_root (page_va k) pa attr tiny_vm = Ok (0, s1) \<and>
    table_step 2 tiny_root tiny_vm {0x87ffe000, 0x87fff000} s1 F1 \<and>
    lookup s1 tiny_root = [k \<mapsto> MAKE_PTE pa (attr OR PTE_V)]"
proof -
  have "kok (map_post tiny_root (page_va k) (MAKE_PTE pa (attr OR PTE_V)) tiny_vm
      {0x87ffe000, 0x87fff000}) (map_page tiny_root (page_va k) pa attr tiny_vm)"
    using tiny_space page_va_page [OF assms] by (intro map_page_spec) auto
  moreover have "lookup tiny_vm tiny_root = Map.empty" using tiny_space by auto
  ultimately show ?thesis
    using page_va_page [OF assms] by (auto simp: kok_def map_post_def split: if_splits)
qed

theorem map_page_refines_witness:
  "\<exists>s'. map_page tiny_root (page_va 1) 0x87fff000 PTE_R tiny_vm = Ok (0, s') \<and>
     lookup s' tiny_root = (lookup tiny_vm tiny_root)(1 \<mapsto> MAKE_PTE 0x87fff000 (PTE_R OR PTE_V))"
proof -
  obtain s1 where s1: "map_page tiny_root (page_va 1) 0x87fff000 PTE_R tiny_vm = Ok (0, s1)"
    using tiny_map_page [of 1] by fastforce
  then show ?thesis
    using map_page_refines [OF conjunct1 [OF tiny_space], of "page_va 1" "0x87fff000" PTE_R]
      tiny_space page_va_page [of 1] by auto
qed

text \<open>
  C4: \<open>map_n_pages\<close> maps all of its pages or none. For a run of unmapped pages it returns 0 and
  page \<open>i\<close> of the run is mapped to page \<open>i\<close> of the physical range, or it returns -1 and every
  page is mapped as before the call.
\<close>

theorem map_n_pages_all_or_nothing:
  assumes "space_ok s t F" and "unat va div 4096 + nat n \<le> 2 ^ 26"
    and "\<forall>i < nat n. lookup s t (unat va div 4096 + i) = None"
  shows "kok (\<lambda>(err, s'). \<exists>F'. space_ok s' t F' \<and>
    (if err = 0
     then lookup s' t = remap (\<lambda>i. Some (MAKE_PTE (pa + 4096 * word_of_nat i) (attr OR PTE_V)))
       (unat va div 4096) (nat n) (lookup s t)
     else err = -1 \<and> lookup s' t = lookup s t)) (map_n_pages t va n pa attr s)"
proof -
  have "kok (\<lambda>(err, s'). \<exists>F'. table_step 2 t s F s' F' \<and>
    (if err = 0 then lookup s' t = remap (\<lambda>i. Some (MAKE_PTE (pa + 4096 * word_of_nat i) (attr OR PTE_V)))
       (unat va div 4096) (0 + nat n) (lookup s t) else err = -1 \<and> lookup s' t = lookup s t))
    (map_n_loop (nat n) (int 0) t va va pa attr s)"
    using assms by (intro map_n_loop_spec) auto
  then show ?thesis
    using table_step_space_ok [OF assms(1)] unfolding map_n_pages_def
    by (auto elim!: kok_mono split: if_splits)
qed

theorem map_n_pages_all_or_nothing_witness:
  "kok (\<lambda>(err, s'). \<exists>F'. space_ok s' tiny_root F' \<and>
    (if err = 0
     then lookup s' tiny_root = remap (\<lambda>i. Some (MAKE_PTE (0x10000000 + 4096 * word_of_nat i) (PTE_W OR PTE_V)))
       65536 2 (lookup tiny_vm tiny_root)
     else err = -1 \<and> lookup s' tiny_root = lookup tiny_vm tiny_root))
   (map_n_pages tiny_root 0x10000000 2 0x10000000 PTE_W tiny_vm)"
  using map_n_pages_all_or_nothing [of tiny_vm tiny_root "{0x87ffe000, 0x87fff000}" "0x10000000" 2 "0x10000000" PTE_W]
    tiny_space by (auto elim!: kok_mono split: if_splits)

text \<open>
  Mapping and unmapping round trip. When \<open>map_page\<close> of an unmapped page succeeds, \<open>unmap_page\<close>
  of the same page succeeds and the address space maps what it mapped before; a second
  \<open>unmap_page\<close> panics.
\<close>

lemma map_unmap_roundtrip:
  assumes "space_ok s t F" and "k < 2 ^ 26" and "lookup s t k = None"
    and "map_page t (page_va k) pa attr s = Ok (0, s1)"
  shows "kok (\<lambda>s2. lookup s2 t = lookup s t \<and>
      unmap_page t (page_va k) s2 = Panic ''unmap_page_flex: unmap unmaped page'')
    (unmap_page t (page_va k) s1)"
proof -
  have "\<exists>F. space_ok s t F" using assms(1) by blast
  from space.bind_unbind [OF this assms(2,3,4)]
  have "kok (\<lambda>s2. (\<exists>F. space_ok s2 t F) \<and> lookup s2 t = lookup s t) (unmap_page t (page_va k) s1)" .
  then show ?thesis
  proof (rule kok_mono)
    fix s2 assume "(\<exists>F. space_ok s2 t F) \<and> lookup s2 t = lookup s t"
    then obtain F2 where F2: "space_ok s2 t F2" "lookup s2 t = lookup s t" by blast
    with unmap_page_unmapped [OF F2(1), of "page_va k" False True] page_va_page [OF assms(2)] assms(3)
    show "lookup s2 t = lookup s t \<and>
      unmap_page t (page_va k) s2 = Panic ''unmap_page_flex: unmap unmaped page''"
      by (simp add: unmap_page_def)
  qed
qed

text \<open>
  C5: \<open>free_page_table\<close> gives back every page of the table and nothing else. For a table whose
  pages belong to the allocator and are not free, the call returns, the free pages are those of
  before together with all pages of the table, and every other page keeps its bytes.
\<close>

theorem free_page_table_returns_all:
  assumes "space_ok s t F" and "tables (mem s) 2 t \<subseteq> pages_of s"
  shows "kok (\<lambda>s'. free_repr s' (F \<union> tables (mem s) 2 t) \<and>
      (\<forall>q. page_aligned q \<and> q \<notin> tables (mem s) 2 t \<longrightarrow> same_page q (mem s) (mem s')))
    (free_page_table t s)"
  using free_level2 [of s t F] assms unfolding space_ok_def
  by (auto elim!: kok_mono simp: frees_def)

theorem free_page_table_returns_all_witness:
  "kok (\<lambda>s'. free_repr s' {0x87ffd000, 0x87ffe000, 0x87fff000}) (free_page_table tiny_root tiny_vm)"
proof -
  note t = tiny_tables
  have "tables (mem tiny_vm) 2 tiny_root \<subseteq> pages_of tiny_vm"
    using tiny_pages(1) unfolding t by (simp add: pages_of_def tiny_root_def)
  from free_page_table_returns_all [OF conjunct1 [OF tiny_space] this] show ?thesis
    unfolding t by (auto elim!: kok_mono simp: tiny_root_def insert_commute)
qed

end
