(* ===== verification/Vm_Copy.thy ===== *)
theory Vm_Copy
  imports Vm
begin

text \<open>
  Copying between kernel buffers and user memory: the second half of kernel/vm/vm.c. User
  addresses are translated page by page with \<open>walk\<close>; the bytes move in physical memory.
\<close>

section \<open>The code\<close>

datatype copy_way = COPY_IN | COPY_OUT | COPY_IN_STR | COPY_OUT_STR
datatype copy_res = COPY_SUCCESS | COPY_FAIL | COPY_FINISH

definition check_uva_attribute_valid :: "u64 \<Rightarrow> int" where
  "check_uva_attribute_valid attribute =
     (if attribute AND PTE_U = 0 then -1
      else if attribute AND PTE_R = 0 \<and> attribute AND PTE_X = 0 then -1
      else 0)"

text \<open>The loop of \<open>copy_str_in_page\<close>, on the number of bytes left.\<close>

primrec copy_str_in_page :: "nat \<Rightarrow> u64 \<Rightarrow> u64 \<Rightarrow> bool \<Rightarrow> copy_way \<Rightarrow> mem \<Rightarrow> copy_res \<times> mem" where
  "copy_str_in_page 0 mem_start kva meet_end way m = (if meet_end then COPY_FAIL else COPY_SUCCESS, m)"
| "copy_str_in_page (Suc n) mem_start kva meet_end way m =
     (let copy_char = (if way = COPY_IN_STR then m mem_start else m kva);
          m = (if way = COPY_IN_STR then m(kva := copy_char) else m(mem_start := copy_char)) in
      if copy_char = 0 then (COPY_FINISH, m)
      else copy_str_in_page n (mem_start + 1) (kva + 1) meet_end way m)"

definition handle_copy_for_page_with_way ::
  "u64 \<Rightarrow> u64 \<Rightarrow> u64 \<Rightarrow> u64 \<Rightarrow> copy_way \<Rightarrow> mem \<Rightarrow> copy_res \<times> mem" where
  "handle_copy_for_page_with_way mem_start kva copy_size sz way m =
     (if way = COPY_IN then (COPY_SUCCESS, memcpy m kva mem_start copy_size)
      else if way = COPY_OUT then (COPY_SUCCESS, memcpy m mem_start kva copy_size)
      else if way = COPY_IN_STR then
        copy_str_in_page (unat copy_size) mem_start kva (sz = copy_size) COPY_IN_STR m
      else copy_str_in_page (unat copy_size) mem_start kva (sz = copy_size) COPY_OUT_STR m)"

definition chunk :: "u64 \<Rightarrow> u64 \<Rightarrow> u64" where
  "chunk uva sz = min (PGSIZE - uva mod PGSIZE) sz"

lemma unat_mod_page: "unat (a mod 4096 :: u64) = unat a mod 4096"
  by (simp add: unat_mod)

lemma unat_chunk: "unat (chunk uva sz) = min (4096 - unat uva mod 4096) (unat sz)"
proof -
  have "uva mod 4096 \<le> 4096" by (simp add: word_le_nat_alt unat_mod)
  then have "unat (4096 - uva mod 4096) = 4096 - unat uva mod 4096"
    by (simp add: unat_sub unat_mod)
  then show ?thesis by (simp add: chunk_def min_def word_le_nat_alt)
qed

lemma chunk_pos: "0 < sz \<Longrightarrow> 0 < chunk uva sz"
  by (simp add: word_less_nat_alt unat_chunk)

lemma chunk_le: "chunk uva sz \<le> sz"
  by (simp add: word_le_nat_alt unat_chunk)

lemma chunk_rest: "unat (sz - chunk uva sz) = unat sz - unat (chunk uva sz)"
  by (rule unat_sub) (rule chunk_le)

function copy_in_or_out_may_str ::
  "u64 \<Rightarrow> u64 \<Rightarrow> u64 \<Rightarrow> u64 \<Rightarrow> copy_way \<Rightarrow> 'a vm_state_scheme \<Rightarrow> (int \<times> 'a vm_state_scheme) kres" where
  "copy_in_or_out_may_str upgtable uva kva sz way s =
     (if \<not> sz > 0 then Ok (0, s)
      else
        kbind (walk upgtable uva False s) (\<lambda>(pte, s).
        if pte = 0 then Ok (-1, s)
        else
          let attribute = PTE_GET_ATTRIBUTE (load64 (mem s) pte) in
          if check_uva_attribute_valid attribute \<noteq> 0 then Ok (-1, s)
          else
            let page = PTE_GET_PA (load64 (mem s) pte);
                mem_start = page + uva mod PGSIZE;
                copy_size = chunk uva sz;
                (r, m) = handle_copy_for_page_with_way mem_start kva copy_size sz way (mem s);
                s = s\<lparr>mem := m\<rparr> in
            case r of
              COPY_SUCCESS \<Rightarrow>
                copy_in_or_out_may_str upgtable (uva + copy_size) (kva + copy_size) (sz - copy_size) way s
            | COPY_FAIL \<Rightarrow> Ok (-1, s)
            | COPY_FINISH \<Rightarrow> Ok (0, s)))"
  by pat_completeness auto
termination
  by (relation "measure (\<lambda>(t, uva, kva, sz, way, s). unat sz)")
    (auto simp: chunk_rest unat_chunk word_less_nat_alt)

declare copy_in_or_out_may_str.simps [simp del]

definition copy_in :: "u64 \<Rightarrow> u64 \<Rightarrow> u64 \<Rightarrow> u64 \<Rightarrow> 'a vm_state_scheme \<Rightarrow> (int \<times> 'a vm_state_scheme) kres" where
  "copy_in upgtable uva kva sz = copy_in_or_out_may_str upgtable uva kva sz COPY_IN"

definition copy_out :: "u64 \<Rightarrow> u64 \<Rightarrow> u64 \<Rightarrow> u64 \<Rightarrow> 'a vm_state_scheme \<Rightarrow> (int \<times> 'a vm_state_scheme) kres" where
  "copy_out upgtable uva kva sz = copy_in_or_out_may_str upgtable uva kva sz COPY_OUT"

definition copy_in_str :: "u64 \<Rightarrow> u64 \<Rightarrow> u64 \<Rightarrow> u64 \<Rightarrow> 'a vm_state_scheme \<Rightarrow> (int \<times> 'a vm_state_scheme) kres" where
  "copy_in_str upgtable uva kva sz = copy_in_or_out_may_str upgtable uva kva sz COPY_IN_STR"

definition copy_out_str :: "u64 \<Rightarrow> u64 \<Rightarrow> u64 \<Rightarrow> u64 \<Rightarrow> 'a vm_state_scheme \<Rightarrow> (int \<times> 'a vm_state_scheme) kres" where
  "copy_out_str upgtable uva kva sz = copy_in_or_out_may_str upgtable uva kva sz COPY_OUT_STR"

definition copyin :: "u64 \<Rightarrow> u64 \<Rightarrow> u64 \<Rightarrow> u64 \<Rightarrow> 'a vm_state_scheme \<Rightarrow> (int \<times> 'a vm_state_scheme) kres" where
  "copyin pgtable dst src sz = copy_in pgtable src dst sz"

definition copyout :: "u64 \<Rightarrow> u64 \<Rightarrow> u64 \<Rightarrow> u64 \<Rightarrow> 'a vm_state_scheme \<Rightarrow> (int \<times> 'a vm_state_scheme) kres" where
  "copyout pgtable dst src sz = copy_out pgtable dst src sz"

definition copyinstr :: "u64 \<Rightarrow> u64 \<Rightarrow> u64 \<Rightarrow> u64 \<Rightarrow> 'a vm_state_scheme \<Rightarrow> (int \<times> 'a vm_state_scheme) kres" where
  "copyinstr pgtable dst src sz = copy_in_str pgtable src dst sz"

definition copyoutstr :: "u64 \<Rightarrow> u64 \<Rightarrow> u64 \<Rightarrow> u64 \<Rightarrow> 'a vm_state_scheme \<Rightarrow> (int \<times> 'a vm_state_scheme) kres" where
  "copyoutstr upgtable dst src sz = copy_out_str upgtable dst src sz"

text \<open>The flag is \<open>user_dst == UPTR\<close>. \<open>memmove\<close> takes an \<open>int\<close>: the size is truncated.\<close>

definition copyout_uork :: "u64 \<Rightarrow> u64 \<Rightarrow> u64 \<Rightarrow> u64 \<Rightarrow> bool \<Rightarrow> 'a vm_state_scheme \<Rightarrow> (int \<times> 'a vm_state_scheme) kres" where
  "copyout_uork pgtable dst src sz user_dst s =
     (if user_dst then copyout pgtable dst src sz s
      else Ok (0, s\<lparr>mem := memmove (mem s) dst src (sint (ucast sz :: u32))\<rparr>))"

definition copyin_uork :: "u64 \<Rightarrow> u64 \<Rightarrow> u64 \<Rightarrow> u64 \<Rightarrow> bool \<Rightarrow> 'a vm_state_scheme \<Rightarrow> (int \<times> 'a vm_state_scheme) kres" where
  "copyin_uork pgtable dst src sz user_src s =
     (if user_src then copyin pgtable dst src sz s
      else Ok (0, s\<lparr>mem := memmove (mem s) dst src (sint (ucast sz :: u32))\<rparr>))"

section \<open>User addresses\<close>

text \<open>
  The physical address of a user byte, where the copy functions accept it. They accept every
  entry that is a user entry and readable or executable.
\<close>

definition uaddr :: "mem \<Rightarrow> u64 \<Rightarrow> u64 \<Rightarrow> u64 option" where
  "uaddr m t va =
     (let e = pte_at m 2 t va in
      if va \<le> MAX_VA \<and> check_uva_attribute_valid (PTE_GET_ATTRIBUTE e) = 0
      then Some (PTE_GET_PA e + va mod 4096) else None)"

lemma same_vpn_div: "unat a div 4096 = unat b div 4096 \<Longrightarrow> same_vpn 2 a b"
proof -
  assume a: "unat a div 4096 = unat b div 4096"
  have "x div 2097152 = x div 4096 div 512" "x div 1073741824 = x div 4096 div 262144" for x :: nat
    by (simp_all add: div_mult2_eq [symmetric])
  then have "vpn a k = vpn b k" if "k = 0 \<or> k = Suc 0 \<or> k = 2" for k
    using that a vpn_div [of a] vpn_div [of b] by auto
  then show ?thesis by (auto simp: same_vpn_def numeral_2_eq_2 le_Suc_eq)
qed

lemma unat_in_chunk:
  fixes uva :: u64
  assumes "unat uva mod 4096 + j < 4096"
  shows "unat (uva + word_of_nat j) = unat uva + j"
proof (rule unat_add_of_nat)
  have "page_aligned (ROUND_DOWN_PGSIZE uva)" by (rule page_aligned_ROUND_DOWN)
  then have "unat uva - unat uva mod 4096 + 4096 \<le> 2 ^ 64"
    using page_aligned_bound unat_ROUND_DOWN_PGSIZE by metis
  then show "unat uva + j < 2 ^ LENGTH(64)" using assms by simp
qed

lemma uaddr_chunk:
  assumes "j < unat (chunk uva sz)"
  shows "uaddr m t (uva + word_of_nat j) = map_option (\<lambda>a. a + word_of_nat j) (uaddr m t uva)"
proof -
  have j: "unat uva mod 4096 + j < 4096" using assms by (simp add: unat_chunk less_diff_conv add.commute)
  have u: "unat (uva + word_of_nat j) = unat uva + j" by (rule unat_in_chunk [OF j])
  have d: "(unat uva + j) div 4096 = unat uva div 4096"
  proof -
    have "unat uva + j = unat uva div 4096 * 4096 + (unat uva mod 4096 + j)" by simp
    then show ?thesis using j by (metis div_mult_self3 add.commute div_less add.right_neutral zero_neq_numeral)
  qed
  have m: "(unat uva + j) mod 4096 = unat uva mod 4096 + j"
  proof -
    have "(unat uva + j) mod 4096 = (unat uva mod 4096 + j) mod 4096" by (simp add: mod_add_left_eq)
    with j show ?thesis by simp
  qed
  have "pte_at m 2 t (uva + word_of_nat j) = pte_at m 2 t uva"
    by (rule pte_at_cong) (rule same_vpn_div, simp add: u d)
  moreover have "uva + word_of_nat j \<le> MAX_VA \<longleftrightarrow> uva \<le> MAX_VA" by (simp add: MAX_VA_page u d)
  moreover have "(uva + word_of_nat j) mod 4096 = uva mod 4096 + word_of_nat j"
  proof -
    have "unat (uva mod 4096 + word_of_nat j) = unat uva mod 4096 + j"
      using j by (subst unat_add_of_nat) (simp_all add: unat_mod)
    then show ?thesis by (simp add: word_eq_iff_unat unat_mod u m)
  qed
  ultimately show ?thesis by (simp add: uaddr_def Let_def)
qed

text \<open>One round of the loop.\<close>

lemma copy_step:
  assumes wf: "table_wf (mem s) 2 t" and pos: "sz > 0"
  shows "copy_in_or_out_may_str t uva kva sz way s =
    (case uaddr (mem s) t uva of
      None \<Rightarrow> Ok (-1, s)
    | Some a \<Rightarrow>
        let (r, m) = handle_copy_for_page_with_way a kva (chunk uva sz) sz way (mem s) in
        case r of
          COPY_SUCCESS \<Rightarrow> copy_in_or_out_may_str t (uva + chunk uva sz) (kva + chunk uva sz)
            (sz - chunk uva sz) way (s\<lparr>mem := m\<rparr>)
        | COPY_FAIL \<Rightarrow> Ok (-1, s\<lparr>mem := m\<rparr>)
        | COPY_FINISH \<Rightarrow> Ok (0, s\<lparr>mem := m\<rparr>))"
proof -
  have z: "check_uva_attribute_valid (PTE_GET_ATTRIBUTE 0) \<noteq> 0"
    by (simp add: check_uva_attribute_valid_def PTE_GET_ATTRIBUTE_def)
  show ?thesis
    using pos pte_at_leaf [OF wf, of uva] z
    by (subst copy_in_or_out_may_str.simps)
      (auto simp: walk_no_alloc uaddr_def Let_def split: prod.splits)
qed


section \<open>What copying does\<close>

definition uread :: "mem \<Rightarrow> u64 \<Rightarrow> u64 \<Rightarrow> u8" where
  "uread m t va = m (the (uaddr m t va))"

definition accessible :: "mem \<Rightarrow> u64 \<Rightarrow> u64 \<Rightarrow> nat \<Rightarrow> bool" where
  "accessible m t uva n \<longleftrightarrow> (\<forall>j < n. uaddr m t (uva + word_of_nat j) \<noteq> None)"

text \<open>The bytes of \<open>A\<close> are outside the table.\<close>

definition off_table :: "mem \<Rightarrow> u64 \<Rightarrow> u64 set \<Rightarrow> bool" where
  "off_table m t A \<longleftrightarrow> (\<forall>x \<in> A. \<forall>p \<in> tables m 2 t. \<not> in_page p x)"

lemma off_table_frame:
  assumes wf: "table_wf m 2 t" and off: "off_table m t A" and same: "\<And>x. x \<notin> A \<Longrightarrow> m' x = m x"
  shows "table_wf m' 2 t \<and> tables m' 2 t = tables m 2 t \<and> uaddr m' t = uaddr m t"
proof -
  have "same_page p m m'" if "p \<in> tables m 2 t" for p
    using that off same unfolding same_page_def off_table_def by metis
  note fr = tables_frame [OF wf this]
  have "uaddr m' t va = uaddr m t va" for va using fr [of va] by (simp add: uaddr_def)
  with fr show ?thesis by auto
qed

definition range_of :: "u64 \<Rightarrow> nat \<Rightarrow> u64 set" where
  "range_of a n = {x. unat (x - a) < n}"

lemma range_of_add: "i < n \<Longrightarrow> n \<le> 2 ^ 64 \<Longrightarrow> a + word_of_nat i \<in> range_of a n"
  by (simp add: range_of_def)

lemma range_of_split:
  assumes "unat c \<le> n" "n < 2 ^ 64"
  shows "x \<in> range_of a n \<longleftrightarrow> x \<in> range_of a (unat c) \<or> x \<in> range_of (a + c) (n - unat c)"
proof -
  have *: "x - (a + c) = x - a - c" by simp
  show ?thesis
  proof (cases "unat (x - a) < unat c")
    case True
    then show ?thesis using assms by (simp add: range_of_def)
  next
    case False
    then have "unat (x - a - c) = unat (x - a) - unat c"
      by (intro unat_sub) (simp add: word_le_nat_alt)
    then show ?thesis using False assms unfolding range_of_def mem_Collect_eq * by auto
  qed
qed

lemma range_of_disj:
  assumes "unat c \<le> n" "n < 2 ^ 64" "x \<in> range_of a (unat c)"
  shows "x \<notin> range_of (a + c) (n - unat c)"
proof
  assume b: "x \<in> range_of (a + c) (n - unat c)"
  have "x - a = c + (x - (a + c))" by simp
  moreover have "unat c + unat (x - (a + c)) < 2 ^ 64" using b assms by (auto simp: range_of_def)
  ultimately have "unat (x - a) = unat c + unat (x - (a + c))" using unat_add_no_wrap [of c "x - (a + c)"] by simp
  then show False using assms(3) by (simp add: range_of_def)
qed

lemma accessible_split:
  assumes "uaddr m t uva = Some a"
  shows "accessible m t uva (unat sz) \<longleftrightarrow>
    accessible m t (uva + chunk uva sz) (unat (sz - chunk uva sz))"
proof -
  let ?c = "unat (chunk uva sz)"
  have le: "?c \<le> unat sz" by (simp add: unat_chunk)
  have first: "uaddr m t (uva + word_of_nat j) \<noteq> None" if "j < ?c" for j
    using uaddr_chunk [OF that] assms by simp
  have eq: "uva + chunk uva sz + word_of_nat j = uva + word_of_nat (?c + j)" for j by simp
  show ?thesis
  proof
    assume a: "accessible m t uva (unat sz)"
    show "accessible m t (uva + chunk uva sz) (unat (sz - chunk uva sz))"
      unfolding accessible_def eq chunk_rest
    proof (intro allI impI)
      fix j assume "j < unat sz - ?c"
      then have "?c + j < unat sz" by simp
      with a show "uaddr m t (uva + word_of_nat (?c + j)) \<noteq> None" unfolding accessible_def by blast
    qed
  next
    assume r: "accessible m t (uva + chunk uva sz) (unat (sz - chunk uva sz))"
    show "accessible m t uva (unat sz)"
      unfolding accessible_def
    proof (intro allI impI)
      fix j assume j: "j < unat sz"
      show "uaddr m t (uva + word_of_nat j) \<noteq> None"
      proof (cases "j < ?c")
        case False
        then have "j - ?c < unat (sz - chunk uva sz)" using j le by (simp add: chunk_rest)
        then have "uaddr m t (uva + word_of_nat (?c + (j - ?c))) \<noteq> None"
          using r unfolding accessible_def eq by blast
        then show ?thesis using False by simp
      qed (rule first)
    qed
  qed
qed


text \<open>The shape of both proofs: the first chunk, then the rest.\<close>

lemma chunk_offset:
  assumes "unat (chunk uva sz) \<le> j" "j < unat sz"
  shows "j - unat (chunk uva sz) < unat (sz - chunk uva sz)"
    and "a + word_of_nat j = a + chunk uva sz + word_of_nat (j - unat (chunk uva sz))"
  using assms by (simp_all add: chunk_rest of_nat_diff)

text \<open>
  The kernel buffer of a copy from user memory: outside the user's tables and apart from the
  user bytes that are read.
\<close>

definition copy_in_pre :: "mem \<Rightarrow> u64 \<Rightarrow> u64 \<Rightarrow> u64 \<Rightarrow> nat \<Rightarrow> bool" where
  "copy_in_pre m t uva kva n \<longleftrightarrow> table_wf m 2 t \<and> off_table m t (range_of kva n) \<and>
     (\<forall>j < n. \<forall>a. uaddr m t (uva + word_of_nat j) = Some a \<longrightarrow> a \<notin> range_of kva n)"

lemma unat_less_64: "unat (a :: u64) < 2 ^ 64"
  using unsigned_less [of a, where ?'a = nat] by simp

lemma range_of_chunks:
  "range_of kva (unat (chunk uva sz)) \<subseteq> range_of kva (unat sz)"
  "range_of (kva + chunk uva sz) (unat (sz - chunk uva sz)) \<subseteq> range_of kva (unat sz)"
  using range_of_split [of "chunk uva sz" "unat sz", OF _ unat_less_64]
  by (auto simp: chunk_rest unat_chunk)

lemma copy_in_pre_disjoint:
  assumes pre: "copy_in_pre m t uva kva (unat sz)" and a: "uaddr m t uva = Some a"
  shows "disjoint_ranges kva a (unat (chunk uva sz))"
  unfolding disjoint_ranges_def
proof (intro allI impI)
  fix i j assume ij: "i < unat (chunk uva sz)" "j < unat (chunk uva sz)"
  have le: "unat (chunk uva sz) \<le> unat sz" by (simp add: unat_chunk)
  have "kva + word_of_nat i \<in> range_of kva (unat sz)"
    using ij le unat_less_64 [of sz] by (intro range_of_add) auto
  moreover have "a + word_of_nat j \<notin> range_of kva (unat sz)"
    using pre uaddr_chunk [OF ij(2), of m t] a less_le_trans [OF ij(2) le] unfolding copy_in_pre_def by simp
  ultimately show "kva + word_of_nat i \<noteq> a + word_of_nat j" by auto
qed

lemma copy_in_pre_rest:
  assumes pre: "copy_in_pre m t uva kva (unat sz)"
    and m1: "\<And>x. x \<notin> range_of kva (unat (chunk uva sz)) \<Longrightarrow> m1 x = m x"
  shows "copy_in_pre m1 t (uva + chunk uva sz) (kva + chunk uva sz) (unat (sz - chunk uva sz)) \<and>
    uaddr m1 t = uaddr m t"
proof -
  let ?c = "chunk uva sz"
  have keep: "m1 x = m x" if "x \<notin> range_of kva (unat sz)" for x
    using that m1 range_of_chunks(1) by blast
  have wf: "table_wf m 2 t" and off: "off_table m t (range_of kva (unat sz))"
    using pre by (auto simp: copy_in_pre_def)
  note fr = off_table_frame [OF wf off keep]
  have "off_table m1 t (range_of (kva + ?c) (unat (sz - ?c)))"
    using off range_of_chunks(2) [of kva uva sz] fr by (auto simp: off_table_def)
  moreover have "b \<notin> range_of (kva + ?c) (unat (sz - ?c))"
    if "j < unat (sz - ?c)" "uaddr m1 t (uva + ?c + word_of_nat j) = Some b" for j b
  proof -
    have "unat ?c + j < unat sz" using that(1) by (simp add: chunk_rest)
    moreover have "uaddr m t (uva + word_of_nat (unat ?c + j)) = Some b"
      using that(2) fr by (simp add: add.assoc)
    ultimately show ?thesis using pre range_of_chunks(2) [of kva uva sz] unfolding copy_in_pre_def by blast
  qed
  ultimately show ?thesis using fr by (auto simp: copy_in_pre_def)
qed

lemma copy_in_loop_spec:
  assumes "copy_in_pre (mem s) t uva kva (unat sz)"
  shows "\<exists>r m'. copy_in_or_out_may_str t uva kva sz COPY_IN s = Ok (r, s\<lparr>mem := m'\<rparr>) \<and>
    (\<forall>x. x \<notin> range_of kva (unat sz) \<longrightarrow> m' x = mem s x) \<and>
    (if accessible (mem s) t uva (unat sz)
     then r = 0 \<and> (\<forall>j < unat sz. m' (kva + word_of_nat j) = uread (mem s) t (uva + word_of_nat j))
     else r = -1)"
  using assms
proof (induction "unat sz" arbitrary: sz uva kva s rule: less_induct)
  case less
  let ?c = "chunk uva sz" let ?m = "mem s"
  have wf: "table_wf ?m 2 t" using less.prems by (simp add: copy_in_pre_def)
  consider "sz = 0" | "sz > 0" "uaddr ?m t uva = None" | a where "sz > 0" "uaddr ?m t uva = Some a"
    by (cases "uaddr ?m t uva") (auto simp: word_gt_0)
  then show ?case
  proof cases
    case 1
    then show ?thesis
      by (subst copy_in_or_out_may_str.simps) (auto simp: accessible_def intro!: exI [of _ ?m])
  next
    case 2
    then have "\<not> accessible ?m t uva (unat sz)"
      by (auto simp: accessible_def word_less_nat_alt intro!: exI [of _ 0])
    then show ?thesis using 2 copy_step [OF wf 2(1)] by (auto intro!: exI [of _ ?m])
  next
    case (3 a)
    have c: "unat ?c \<le> unat sz" "0 < unat ?c" using 3 by (auto simp: unat_chunk word_less_nat_alt)
    define m1 where "m1 = memcpy ?m kva a ?c"
    have m1: "m1 x = (if x \<in> range_of kva (unat ?c) then ?m (a + (x - kva)) else ?m x)" for x
      by (simp add: m1_def memcpy_apply [OF copy_in_pre_disjoint [OF less.prems 3(2)]] range_of_def word_less_nat_alt)
    have rest: "copy_in_pre m1 t (uva + ?c) (kva + ?c) (unat (sz - ?c))" and ua1: "uaddr m1 t = uaddr ?m t"
      using copy_in_pre_rest [OF less.prems, of m1] m1 by auto
    have "unat (sz - ?c) < unat sz" using c by (simp add: chunk_rest)
    then obtain r m' where IH:
      "copy_in_or_out_may_str t (uva + ?c) (kva + ?c) (sz - ?c) COPY_IN (s\<lparr>mem := m1\<rparr>) = Ok (r, s\<lparr>mem := m'\<rparr>)"
      "\<And>x. x \<notin> range_of (kva + ?c) (unat (sz - ?c)) \<Longrightarrow> m' x = m1 x"
      "if accessible m1 t (uva + ?c) (unat (sz - ?c))
       then r = 0 \<and> (\<forall>j < unat (sz - ?c). m' (kva + ?c + word_of_nat j) = uread m1 t (uva + ?c + word_of_nat j))
       else r = -1"
      using less.hyps [of "sz - ?c" "s\<lparr>mem := m1\<rparr>" "uva + ?c" "kva + ?c"] rest by auto
    have run: "copy_in_or_out_may_str t uva kva sz COPY_IN s = Ok (r, s\<lparr>mem := m'\<rparr>)"
      using copy_step [OF wf 3(1)] 3(2) IH(1) by (simp add: handle_copy_for_page_with_way_def m1_def)
    have out: "m' x = ?m x" if "x \<notin> range_of kva (unat sz)" for x
      using that IH(2) [of x] m1 [of x] range_of_chunks [of kva uva sz] by (auto split: if_splits)
    have acc: "accessible ?m t uva (unat sz) \<longleftrightarrow> accessible m1 t (uva + ?c) (unat (sz - ?c))"
      using accessible_split [OF 3(2), of sz] ua1 by (simp add: accessible_def)
    have "m' (kva + word_of_nat j) = uread ?m t (uva + word_of_nat j)"
      if A: "accessible ?m t uva (unat sz)" and j: "j < unat sz" for j
    proof (cases "j < unat ?c")
      case True
      have k: "kva + word_of_nat j \<in> range_of kva (unat ?c)"
        using True unat_less_64 [of ?c] by (intro range_of_add) auto
      then have "m' (kva + word_of_nat j) = m1 (kva + word_of_nat j)"
        using IH(2) range_of_disj [OF c(1) unat_less_64 k] by (simp add: chunk_rest)
      then show ?thesis using k m1 uaddr_chunk [OF True] 3(2) by (simp add: uread_def)
    next
      case False
      then have f: "unat ?c \<le> j" by simp
      note o = chunk_offset [OF f j]
      obtain b where b: "uaddr ?m t (uva + word_of_nat j) = Some b" using A j by (auto simp: accessible_def)
      have "m' (kva + word_of_nat j) = uread m1 t (uva + word_of_nat j)"
        using IH(3) A acc o(1) unfolding o(2) [of kva] o(2) [of uva] by simp
      also have "\<dots> = ?m b"
        using b ua1 m1 [of b] range_of_chunks(1) [of kva uva sz] less.prems j
        by (auto simp: uread_def copy_in_pre_def)
      finally show ?thesis using b by (simp add: uread_def)
    qed
    then show ?thesis using run out acc IH(3) by (intro exI [of _ r] exI [of _ m']) auto
  qed
qed

definition uset :: "mem \<Rightarrow> u64 \<Rightarrow> u64 \<Rightarrow> nat \<Rightarrow> u64 set" where
  "uset m t uva n = {a. \<exists>j < n. uaddr m t (uva + word_of_nat j) = Some a}"

definition uinj :: "mem \<Rightarrow> u64 \<Rightarrow> u64 \<Rightarrow> nat \<Rightarrow> bool" where
  "uinj m t uva n \<longleftrightarrow> (\<forall>i < n. \<forall>j < n. \<forall>a. uaddr m t (uva + word_of_nat i) = Some a \<longrightarrow>
     uaddr m t (uva + word_of_nat j) = Some a \<longrightarrow> i = j)"

lemma uset_rest: "uset m t (uva + chunk uva sz) (unat (sz - chunk uva sz)) \<subseteq> uset m t uva (unat sz)"
proof
  fix x assume "x \<in> uset m t (uva + chunk uva sz) (unat (sz - chunk uva sz))"
  then obtain j where j: "j < unat sz - unat (chunk uva sz)"
    "uaddr m t (uva + chunk uva sz + word_of_nat j) = Some x"
    by (auto simp: uset_def chunk_rest)
  then have "uaddr m t (uva + word_of_nat (unat (chunk uva sz) + j)) = Some x" by (simp add: add.assoc)
  with j(1) show "x \<in> uset m t uva (unat sz)"
    unfolding uset_def by (auto intro!: exI [of _ "unat (chunk uva sz) + j"])
qed

lemma uinj_rest:
  assumes "uinj m t uva (unat sz)"
  shows "uinj m t (uva + chunk uva sz) (unat (sz - chunk uva sz))"
  unfolding uinj_def
proof (intro allI impI)
  fix i j a
  let ?c = "unat (chunk uva sz)"
  assume ij: "i < unat (sz - chunk uva sz)" "j < unat (sz - chunk uva sz)"
    and "uaddr m t (uva + chunk uva sz + word_of_nat i) = Some a"
      "uaddr m t (uva + chunk uva sz + word_of_nat j) = Some a"
  then have "uaddr m t (uva + word_of_nat (?c + i)) = Some a" "uaddr m t (uva + word_of_nat (?c + j)) = Some a"
    by (simp_all add: add.assoc)
  moreover have "?c + i < unat sz" "?c + j < unat sz" using ij by (simp_all add: chunk_rest)
  ultimately have "?c + i = ?c + j" using assms unfolding uinj_def by blast
  then show "i = j" by simp
qed

lemma copy_out_loop_spec:
  assumes "table_wf (mem s) 2 t" "off_table (mem s) t (uset (mem s) t uva (unat sz))"
    and "uinj (mem s) t uva (unat sz)" "uset (mem s) t uva (unat sz) \<inter> range_of kva (unat sz) = {}"
  shows "\<exists>r m'. copy_in_or_out_may_str t uva kva sz COPY_OUT s = Ok (r, s\<lparr>mem := m'\<rparr>) \<and>
    (\<forall>x. x \<notin> uset (mem s) t uva (unat sz) \<longrightarrow> m' x = mem s x) \<and>
    (if accessible (mem s) t uva (unat sz)
     then r = 0 \<and> (\<forall>j < unat sz. m' (the (uaddr (mem s) t (uva + word_of_nat j))) = mem s (kva + word_of_nat j))
     else r = -1)"
  using assms
proof (induction "unat sz" arbitrary: sz uva kva s rule: less_induct)
  case less
  show ?case
  proof (cases "sz > 0")
    case False
    then have "sz = 0" by (simp add: word_gt_0)
    then show ?thesis
      by (subst copy_in_or_out_may_str.simps) (auto simp: accessible_def intro!: exI [of _ "mem s"])
  next
    case pos: True
    have n: "unat sz < 2 ^ 64" using unsigned_less [of sz, where ?'a = nat] by simp
    show ?thesis
    proof (cases "uaddr (mem s) t uva")
      case None
      then have "\<not> accessible (mem s) t uva (unat sz)"
        using pos by (auto simp: accessible_def word_less_nat_alt intro!: exI [of _ 0])
      then show ?thesis
        using None copy_step [OF less.prems(1) pos] by (auto intro!: exI [of _ "mem s"])
    next
      case (Some a)
      let ?c = "chunk uva sz" let ?m = "mem s" let ?U = "uset (mem s) t uva (unat sz)"
      let ?R = "uset (mem s) t (uva + ?c) (unat (sz - ?c))"
      have c: "unat ?c \<le> unat sz" "0 < unat ?c" using pos by (auto simp: unat_chunk word_less_nat_alt)
      have ua: "uaddr ?m t (uva + word_of_nat j) = Some (a + word_of_nat j)" if "j < unat ?c" for j
        using uaddr_chunk [OF that] Some by simp
      have inU: "x \<in> ?U" if "x \<in> range_of a (unat ?c)" for x
      proof -
        have "unat (x - a) < unat ?c" using that by (simp add: range_of_def)
        with ua [OF this] c show ?thesis unfolding uset_def by (auto intro!: exI [of _ "unat (x - a)"])
      qed
      define m1 where "m1 = memcpy ?m a kva ?c"
      have dj: "disjoint_ranges a kva (unat ?c)"
        unfolding disjoint_ranges_def
      proof (intro allI impI)
        fix i j assume ij: "i < unat ?c" "j < unat ?c"
        have "kva + word_of_nat j \<in> range_of kva (unat sz)" using ij c n by (intro range_of_add) auto
        moreover have "a + word_of_nat i \<in> ?U" using ij c n by (intro inU range_of_add) auto
        ultimately show "a + word_of_nat i \<noteq> kva + word_of_nat j" using less.prems(4) by auto
      qed
      have m1: "m1 x = (if x \<in> range_of a (unat ?c) then ?m (kva + (x - a)) else ?m x)" for x
        by (simp add: m1_def memcpy_apply [OF dj] range_of_def word_less_nat_alt)
      have keep: "m1 x = ?m x" if "x \<notin> ?U" for x using that m1 [of x] inU by auto
      have fr: "table_wf m1 2 t" "tables m1 2 t = tables ?m 2 t" "uaddr m1 t = uaddr ?m t"
        using off_table_frame [OF less.prems(1,2) keep] by auto
      have us: "uset m1 t = uset ?m t" by (simp add: uset_def fr(3) fun_eq_iff)
      have off: "off_table m1 t ?R"
        using less.prems(2) uset_rest [of ?m t uva sz] by (auto simp: off_table_def fr(2))
      have inj: "uinj m1 t (uva + ?c) (unat (sz - ?c))"
        using uinj_rest [OF less.prems(3)] by (simp add: uinj_def fr(3))
      have subk: "range_of (kva + ?c) (unat (sz - ?c)) \<subseteq> range_of kva (unat sz)"
        using range_of_split [OF c(1) n] by (auto simp: chunk_rest)
      then have dis: "?R \<inter> range_of (kva + ?c) (unat (sz - ?c)) = {}"
        using less.prems(4) uset_rest [of ?m t uva sz] by blast
      have "unat (sz - ?c) < unat sz" using c by (simp add: chunk_rest)
      then obtain r m' where IH:
        "copy_in_or_out_may_str t (uva + ?c) (kva + ?c) (sz - ?c) COPY_OUT (s\<lparr>mem := m1\<rparr>) = Ok (r, s\<lparr>mem := m'\<rparr>)"
        "\<And>x. x \<notin> ?R \<Longrightarrow> m' x = m1 x"
        "if accessible m1 t (uva + ?c) (unat (sz - ?c))
         then r = 0 \<and> (\<forall>j < unat (sz - ?c). m' (the (uaddr ?m t (uva + ?c + word_of_nat j))) = m1 (kva + ?c + word_of_nat j))
         else r = -1"
        using less.hyps [of "sz - ?c" "s\<lparr>mem := m1\<rparr>" "uva + ?c" "kva + ?c"] fr off inj dis
        by (auto simp: us cong: if_cong)
      have run: "copy_in_or_out_may_str t uva kva sz COPY_OUT s = Ok (r, s\<lparr>mem := m'\<rparr>)"
        using copy_step [OF less.prems(1) pos] Some IH(1)
        by (simp add: handle_copy_for_page_with_way_def m1_def)
      have out: "m' x = ?m x" if "x \<notin> ?U" for x
        using that IH(2) [of x] keep [of x] uset_rest [of ?m t uva sz] by auto
      have acc: "accessible ?m t uva (unat sz) \<longleftrightarrow> accessible m1 t (uva + ?c) (unat (sz - ?c))"
        using accessible_split [OF Some, of sz] fr(3) by (simp add: accessible_def)
      have "m' (the (uaddr ?m t (uva + word_of_nat j))) = ?m (kva + word_of_nat j)"
        if A: "accessible ?m t uva (unat sz)" and j: "j < unat sz" for j
      proof (cases "j < unat ?c")
        case True
        have "a + word_of_nat j \<notin> ?R"
        proof
          assume "a + word_of_nat j \<in> ?R"
          then obtain i where i: "i < unat (sz - ?c)" "uaddr ?m t (uva + ?c + word_of_nat i) = Some (a + word_of_nat j)"
            by (auto simp: uset_def)
          then have "uaddr ?m t (uva + word_of_nat (unat ?c + i)) = Some (a + word_of_nat j)" by (simp add: add.assoc)
          moreover have "unat ?c + i < unat sz" using i(1) by (simp add: chunk_rest)
          ultimately have "unat ?c + i = j" using less.prems(3) ua [OF True] j unfolding uinj_def by blast
          with True show False by simp
        qed
        moreover have "a + word_of_nat j \<in> range_of a (unat ?c)" using True n c by (intro range_of_add) auto
        ultimately show ?thesis using IH(2) m1 ua [OF True] by simp
      next
        case False
        then have f: "unat ?c \<le> j" by simp
        note o = chunk_offset [OF f j]
        have k: "kva + word_of_nat j \<notin> ?U"
          using less.prems(4) range_of_add [OF j, of kva] n by auto
        have "m' (the (uaddr ?m t (uva + word_of_nat j))) = m1 (kva + word_of_nat j)"
          using IH(3) A acc o(1) unfolding o(2) [of kva] o(2) [of uva] by simp
        also have "\<dots> = ?m (kva + word_of_nat j)" using m1 k inU by auto
        finally show ?thesis .
      qed
      then show ?thesis using run out acc IH(3) by (intro exI [of _ r] exI [of _ m']) auto
    qed
  qed
qed


section \<open>Strings\<close>

text \<open>
  One page of a string copy into the kernel: it stops after the first NUL.
\<close>

lemma copy_str_in_page_spec:
  assumes "disjoint_ranges kva a n" "n < 2 ^ 64" "copy_str_in_page n a kva me COPY_IN_STR m = (r, m')"
  shows "(\<forall>x. x \<notin> range_of kva n \<longrightarrow> m' x = m x) \<and>
    (if \<exists>k < n. m (a + word_of_nat k) = 0
     then r = COPY_FINISH \<and> (\<exists>k < n. m (a + word_of_nat k) = 0 \<and>
       (\<forall>j < k. m (a + word_of_nat j) \<noteq> 0) \<and> (\<forall>j \<le> k. m' (kva + word_of_nat j) = m (a + word_of_nat j)))
     else r = (if me then COPY_FAIL else COPY_SUCCESS) \<and>
       (\<forall>j < n. m' (kva + word_of_nat j) = m (a + word_of_nat j)))"
  using assms
proof (induction n arbitrary: a kva m)
  case 0
  then show ?case by simp
next
  case (Suc n)
  let ?m = "m(kva := m a)"
  have d: "kva + word_of_nat i \<noteq> a + word_of_nat j" if "i < Suc n" "j < Suc n" for i j
    using Suc.prems(1) that by (simp add: disjoint_ranges_def)
  have sh: "x + word_of_nat (Suc j) = x + 1 + word_of_nat j" for x :: u64 and j by simp
  have rng: "x \<in> range_of kva (Suc n) \<longleftrightarrow> x = kva \<or> x \<in> range_of (kva + 1) n" for x
    using range_of_split [of 1 "Suc n" x kva] Suc.prems(2) by (auto simp: range_of_def unat_eq_zero)
  have src: "?m (a + word_of_nat j) = m (a + word_of_nat j)" if "j < Suc n" for j
    using d [of 0 j] that by auto
  show ?case
  proof (cases "m a = 0")
    case True
    then have "r = COPY_FINISH" "m' = ?m" using Suc.prems(3) by auto
    moreover have "\<exists>k < Suc n. m (a + word_of_nat k) = 0" using True by (intro exI [of _ 0]) simp
    moreover have "\<forall>x. x \<notin> range_of kva (Suc n) \<longrightarrow> ?m x = m x" using rng by auto
    ultimately show ?thesis using True by (auto intro!: exI [of _ 0])
  next
    case False
    have dj: "disjoint_ranges (kva + 1) (a + 1) n"
      unfolding disjoint_ranges_def using d [of "Suc _" "Suc _"] by (simp add: add.assoc)
    have "copy_str_in_page n (a + 1) (kva + 1) me COPY_IN_STR ?m = (r, m')"
      using Suc.prems(3) False by simp
    note IH = Suc.IH [OF dj _ this]
    have n: "n < 2 ^ 64" using Suc.prems(2) by simp
    have m0: "m' kva = m a"
    proof -
      have "kva \<notin> range_of (kva + 1) n"
        using range_of_disj [of 1 "Suc n" kva kva] Suc.prems(2) by (simp add: range_of_def)
      then show ?thesis using IH [OF n] by simp
    qed
    have tail: "?m (a + 1 + word_of_nat j) = m (a + word_of_nat (Suc j))" if "j < n" for j
      using src [of "Suc j"] that by (simp add: add.assoc)
    have ex: "(\<exists>k < Suc n. m (a + word_of_nat k) = 0) \<longleftrightarrow> (\<exists>k < n. ?m (a + 1 + word_of_nat k) = 0)"
    proof
      assume "\<exists>k < Suc n. m (a + word_of_nat k) = 0"
      then obtain k where k: "k < Suc n" "m (a + word_of_nat k) = 0" by blast
      then obtain k' where k': "k = Suc k'" using False by (cases k) auto
      then have "k' < n" using k(1) by simp
      moreover have "?m (a + 1 + word_of_nat k') = 0"
        using tail [OF \<open>k' < n\<close>] k(2) unfolding k' by (simp only:)
      ultimately show "\<exists>k < n. ?m (a + 1 + word_of_nat k) = 0" by blast
    qed (use tail in \<open>metis Suc_less_eq\<close>)
    have out: "\<forall>x. x \<notin> range_of kva (Suc n) \<longrightarrow> m' x = m x" using IH [OF n] rng by auto
    show ?thesis
    proof (cases "\<exists>k < n. ?m (a + 1 + word_of_nat k) = 0")
      case True
      then obtain k where k: "r = COPY_FINISH" "k < n" "?m (a + 1 + word_of_nat k) = 0"
        "\<forall>j < k. ?m (a + 1 + word_of_nat j) \<noteq> 0"
        "\<forall>j \<le> k. m' (kva + 1 + word_of_nat j) = ?m (a + 1 + word_of_nat j)"
        using IH [OF n] by auto
      have "\<forall>j < Suc k. m (a + word_of_nat j) \<noteq> 0"
        using k(2,4) tail False by (auto simp: less_Suc_eq_0_disj)
      moreover have "\<forall>j \<le> Suc k. m' (kva + word_of_nat j) = m (a + word_of_nat j)"
      proof (intro allI impI)
        fix j assume "j \<le> Suc k"
        then show "m' (kva + word_of_nat j) = m (a + word_of_nat j)"
          using k(2,5) tail m0 by (cases j) (auto simp: add.assoc)
      qed
      moreover have "m (a + word_of_nat (Suc k)) = 0" using k(2,3) tail by simp
      ultimately show ?thesis using out k(1,2) ex True by auto
    next
      case none: False
      then have r: "r = (if me then COPY_FAIL else COPY_SUCCESS)"
        "\<forall>j < n. m' (kva + 1 + word_of_nat j) = ?m (a + 1 + word_of_nat j)"
        using IH [OF n] by auto
      have "m' (kva + word_of_nat j) = m (a + word_of_nat j)" if "j < Suc n" for j
        using that r(2) tail m0 by (cases j) (auto simp: add.assoc)
      then show ?thesis using out r(1) ex none by auto
    qed
  qed
qed


text \<open>\<open>has_str\<close>: a NUL within \<open>n\<close> bytes, all of them up to it accessible.\<close>

definition str_at :: "mem \<Rightarrow> u64 \<Rightarrow> u64 \<Rightarrow> nat \<Rightarrow> bool" where
  "str_at m t uva k \<longleftrightarrow> accessible m t uva (Suc k) \<and> uread m t (uva + word_of_nat k) = 0 \<and>
     (\<forall>j < k. uread m t (uva + word_of_nat j) \<noteq> 0)"

lemma str_at_chunk:
  assumes "uaddr m t uva = Some a" "k < unat (chunk uva sz)"
  shows "str_at m t uva k \<longleftrightarrow> m (a + word_of_nat k) = 0 \<and> (\<forall>j < k. m (a + word_of_nat j) \<noteq> 0)"
proof -
  have "uaddr m t (uva + word_of_nat j) = Some (a + word_of_nat j)" if "j \<le> k" for j
    using uaddr_chunk [of j uva sz m t] that assms by simp
  then show ?thesis by (auto simp: str_at_def accessible_def uread_def)
qed

lemma str_at_rest:
  assumes a: "uaddr m t uva = Some a"
    and nz: "\<And>j. j < unat (chunk uva sz) \<Longrightarrow> m (a + word_of_nat j) \<noteq> 0"
    and k: "k < unat (sz - chunk uva sz)"
  shows "str_at m t uva (unat (chunk uva sz) + k) \<longleftrightarrow> str_at m t (uva + chunk uva sz) k"
proof -
  let ?c = "unat (chunk uva sz)"
  have eq: "uva + chunk uva sz + word_of_nat j = uva + word_of_nat (?c + j)" for j by simp
  have ua: "uaddr m t (uva + word_of_nat j) = Some (a + word_of_nat j)" if "j < ?c" for j
    using uaddr_chunk [OF that] a by simp
  have split: "(\<forall>j < ?c + i. P j) \<longleftrightarrow> (\<forall>j < ?c. P j) \<and> (\<forall>j < i. P (?c + j))" for P i
  proof (intro iffI conjI allI impI)
    fix j assume h: "(\<forall>j < ?c. P j) \<and> (\<forall>j < i. P (?c + j))" and j: "j < ?c + i"
    show "P j"
    proof (cases "j < ?c")
      case False
      then have "j - ?c < i" "?c + (j - ?c) = j" using j by auto
      with h show ?thesis by metis
    qed (use h in blast)
  qed auto
  have acc: "accessible m t uva (Suc (?c + k)) \<longleftrightarrow> accessible m t (uva + chunk uva sz) (Suc k)"
    using split [of "Suc k" "\<lambda>j. uaddr m t (uva + word_of_nat j) \<noteq> None"] ua
    unfolding accessible_def eq add_Suc_right by auto
  have "(\<forall>j < ?c + k. uread m t (uva + word_of_nat j) \<noteq> 0) \<longleftrightarrow>
      (\<forall>j < k. uread m t (uva + word_of_nat (?c + j)) \<noteq> 0)"
    using split [of k "\<lambda>j. uread m t (uva + word_of_nat j) \<noteq> 0"] ua nz by (simp add: uread_def)
  then show ?thesis unfolding str_at_def acc eq by simp
qed

lemma str_at_mem_cong:
  assumes "uaddr m' t = uaddr m t"
    and "\<And>j. j \<le> k \<Longrightarrow> uaddr m t (uva + word_of_nat j) \<noteq> None \<Longrightarrow>
      uread m' t (uva + word_of_nat j) = uread m t (uva + word_of_nat j)"
  shows "str_at m' t uva k \<longleftrightarrow> str_at m t uva k"
proof (cases "accessible m t uva (Suc k)")
  case True
  then have "uread m' t (uva + word_of_nat j) = uread m t (uva + word_of_nat j)" if "j \<le> k" for j
    using assms(2) [OF that] that by (simp add: accessible_def)
  then show ?thesis using assms(1) by (simp add: str_at_def accessible_def)
next
  case False
  moreover have "accessible m' t uva (Suc k) \<longleftrightarrow> accessible m t uva (Suc k)"
    using assms(1) by (simp add: accessible_def)
  ultimately show ?thesis by (simp add: str_at_def)
qed

text \<open>A string whose end lies behind the first page: what was copied of both parts.\<close>

lemma copy_str_glue:
  assumes pre: "copy_in_pre m t uva kva (unat sz)" and a: "uaddr m t uva = Some a"
    and nz: "\<And>j. j < unat (chunk uva sz) \<Longrightarrow> m (a + word_of_nat j) \<noteq> 0"
    and m1: "\<And>x. x \<notin> range_of kva (unat (chunk uva sz)) \<Longrightarrow> m1 x = m x"
    and first: "\<And>j. j < unat (chunk uva sz) \<Longrightarrow> m1 (kva + word_of_nat j) = m (a + word_of_nat j)"
    and k: "k < unat (sz - chunk uva sz)"
  shows "str_at m t uva (unat (chunk uva sz) + k) \<longleftrightarrow> str_at m1 t (uva + chunk uva sz) k"
    and "str_at m1 t (uva + chunk uva sz) k \<Longrightarrow>
      (\<And>x. x \<notin> range_of (kva + chunk uva sz) (unat (sz - chunk uva sz)) \<Longrightarrow> m' x = m1 x) \<Longrightarrow>
      (\<And>j. j \<le> k \<Longrightarrow> m' (kva + chunk uva sz + word_of_nat j) = uread m1 t (uva + chunk uva sz + word_of_nat j)) \<Longrightarrow>
      j \<le> unat (chunk uva sz) + k \<Longrightarrow> m' (kva + word_of_nat j) = uread m t (uva + word_of_nat j)"
proof -
  let ?c = "chunk uva sz"
  have c: "unat ?c \<le> unat sz" by (simp add: unat_chunk)
  have ua1: "uaddr m1 t = uaddr m t" using copy_in_pre_rest [OF pre m1] by simp
  have eq: "x + ?c + word_of_nat j = x + word_of_nat (unat ?c + j)" for x j by simp
  have rd: "uread m1 t (uva + word_of_nat j) = uread m t (uva + word_of_nat j)"
    if j: "j < unat sz" and acc: "uaddr m t (uva + word_of_nat j) \<noteq> None" for j
  proof -
    obtain b where b: "uaddr m t (uva + word_of_nat j) = Some b" using acc by auto
    then have "b \<notin> range_of kva (unat sz)" using pre j by (auto simp: copy_in_pre_def)
    then have "m1 b = m b" using m1 range_of_chunks(1) [of kva uva sz] by blast
    then show ?thesis using b ua1 by (simp add: uread_def)
  qed
  have lt: "unat ?c + j < unat sz" if "j \<le> k" for j using k that by (simp add: chunk_rest)
  have "str_at m1 t (uva + ?c) k \<longleftrightarrow> str_at m t (uva + ?c) k"
  proof (rule str_at_mem_cong [OF ua1])
    show "uread m1 t (uva + ?c + word_of_nat j) = uread m t (uva + ?c + word_of_nat j)"
      if "j \<le> k" "uaddr m t (uva + ?c + word_of_nat j) \<noteq> None" for j
      using rd [OF lt [OF that(1)]] that(2) unfolding eq by blast
  qed
  then show st: "str_at m t uva (unat ?c + k) \<longleftrightarrow> str_at m1 t (uva + ?c) k"
    using str_at_rest [OF a nz k] by simp
  assume s1: "str_at m1 t (uva + ?c) k"
    and m': "\<And>x. x \<notin> range_of (kva + ?c) (unat (sz - ?c)) \<Longrightarrow> m' x = m1 x"
    and cp: "\<And>j. j \<le> k \<Longrightarrow> m' (kva + ?c + word_of_nat j) = uread m1 t (uva + ?c + word_of_nat j)"
    and j: "j \<le> unat ?c + k"
  show "m' (kva + word_of_nat j) = uread m t (uva + word_of_nat j)"
  proof (cases "j < unat ?c")
    case True
    have r: "kva + word_of_nat j \<in> range_of kva (unat ?c)"
      using True unat_less_64 [of ?c] by (intro range_of_add) auto
    then have "m' (kva + word_of_nat j) = m1 (kva + word_of_nat j)"
      using m' range_of_disj [OF c unat_less_64 r] by (simp add: chunk_rest)
    then show ?thesis using first [OF True] uaddr_chunk [OF True] a by (simp add: uread_def)
  next
    case False
    then have i: "j - unat ?c \<le> k" "unat ?c + (j - unat ?c) = j" using j by auto
    have "uaddr m t (uva + word_of_nat j) \<noteq> None"
      using s1 st j by (auto simp: str_at_def accessible_def)
    moreover have "j < unat sz" using lt [OF i(1)] i(2) by simp
    ultimately show ?thesis using cp [OF i(1)] rd unfolding eq i(2) by simp
  qed
qed

lemma copy_in_str_loop_spec:
  assumes "copy_in_pre (mem s) t uva kva (unat sz)" "sz > 0"
  shows "\<exists>r m'. copy_in_or_out_may_str t uva kva sz COPY_IN_STR s = Ok (r, s\<lparr>mem := m'\<rparr>) \<and>
    (\<forall>x. x \<notin> range_of kva (unat sz) \<longrightarrow> m' x = mem s x) \<and>
    (if \<exists>k < unat sz. str_at (mem s) t uva k
     then r = 0 \<and> (\<exists>k < unat sz. str_at (mem s) t uva k \<and>
       (\<forall>j \<le> k. m' (kva + word_of_nat j) = uread (mem s) t (uva + word_of_nat j)))
     else r = -1)"
  using assms
proof (induction "unat sz" arbitrary: sz uva kva s rule: less_induct)
  case less
  let ?c = "chunk uva sz" let ?m = "mem s"
  have wf: "table_wf ?m 2 t" using less.prems by (simp add: copy_in_pre_def)
  show ?case
  proof (cases "uaddr ?m t uva")
    case None
    then have "\<not> str_at ?m t uva k" for k
      by (auto simp: str_at_def accessible_def intro!: exI [of _ 0])
    then show ?thesis using None copy_step [OF wf less.prems(2)] by (auto intro!: exI [of _ ?m])
  next
    case (Some a)
    have c: "unat ?c \<le> unat sz" "0 < unat ?c" using less.prems(2) by (auto simp: unat_chunk word_less_nat_alt)
    obtain r m1 where p: "copy_str_in_page (unat ?c) a kva (sz = ?c) COPY_IN_STR ?m = (r, m1)"
      by (cases "copy_str_in_page (unat ?c) a kva (sz = ?c) COPY_IN_STR ?m")
    note sp = copy_str_in_page_spec [OF copy_in_pre_disjoint [OF less.prems(1) Some] unat_less_64 p]
    note step = copy_step [OF wf less.prems(2), of uva kva COPY_IN_STR]
    have out1: "m1 x = ?m x" if "x \<notin> range_of kva (unat ?c)" for x using sp that by blast
    have sub: "range_of kva (unat ?c) \<subseteq> range_of kva (unat sz)" by (rule range_of_chunks)
    have ua: "uread ?m t (uva + word_of_nat j) = ?m (a + word_of_nat j)" if "j < unat ?c" for j
      using uaddr_chunk [OF that] Some by (simp add: uread_def)
    show ?thesis
    proof (cases "\<exists>k < unat ?c. ?m (a + word_of_nat k) = 0")
      case True
      then obtain k where k: "r = COPY_FINISH" "k < unat ?c" "?m (a + word_of_nat k) = 0"
        "\<forall>j < k. ?m (a + word_of_nat j) \<noteq> 0" "\<forall>j \<le> k. m1 (kva + word_of_nat j) = ?m (a + word_of_nat j)"
        using sp by auto
      have st: "str_at ?m t uva k" using str_at_chunk [OF Some k(2)] k by simp
      have run: "copy_in_or_out_may_str t uva kva sz COPY_IN_STR s = Ok (0, s\<lparr>mem := m1\<rparr>)"
        using step Some p k(1) by (simp add: handle_copy_for_page_with_way_def)
      have "\<forall>j \<le> k. m1 (kva + word_of_nat j) = uread ?m t (uva + word_of_nat j)"
        using k(2,5) ua by simp
      moreover have "k < unat sz" using k(2) c by simp
      ultimately show ?thesis
        using run out1 sub st by (intro exI [of _ 0] exI [of _ m1]) auto
    next
      case False
      then have r: "r = (if sz = ?c then COPY_FAIL else COPY_SUCCESS)"
        "\<forall>j < unat ?c. m1 (kva + word_of_nat j) = ?m (a + word_of_nat j)" using sp by auto
      have nz: "?m (a + word_of_nat j) \<noteq> 0" if "j < unat ?c" for j using False that by blast
      have no: "\<not> str_at ?m t uva k" if "k < unat ?c" for k using str_at_chunk [OF Some that] nz [OF that] by simp
      show ?thesis
      proof (cases "sz = ?c")
        case True
        then have "copy_in_or_out_may_str t uva kva sz COPY_IN_STR s = Ok (-1, s\<lparr>mem := m1\<rparr>)"
          using step Some p r(1) by (simp add: handle_copy_for_page_with_way_def)
        then show ?thesis using no True out1 sub by (intro exI [of _ "-1"] exI [of _ m1]) auto
      next
        case more: False
        have rest: "copy_in_pre m1 t (uva + ?c) (kva + ?c) (unat (sz - ?c))" and ua1: "uaddr m1 t = uaddr ?m t"
          using copy_in_pre_rest [OF less.prems(1) out1] by auto
        have glue: "str_at ?m t uva (unat ?c + k) \<longleftrightarrow> str_at m1 t (uva + ?c) k" if "k < unat (sz - ?c)" for k
          by (rule copy_str_glue(1) [OF less.prems(1) Some nz out1 _ that]) (use r(2) in auto)
        have gt: "sz - ?c > 0" using more chunk_le [of uva sz] by (simp add: word_gt_0)
        have "unat (sz - ?c) < unat sz" using c by (simp add: chunk_rest)
        then obtain q m' where IH:
          "copy_in_or_out_may_str t (uva + ?c) (kva + ?c) (sz - ?c) COPY_IN_STR (s\<lparr>mem := m1\<rparr>) = Ok (q, s\<lparr>mem := m'\<rparr>)"
          "\<And>x. x \<notin> range_of (kva + ?c) (unat (sz - ?c)) \<Longrightarrow> m' x = m1 x"
          "if \<exists>k < unat (sz - ?c). str_at m1 t (uva + ?c) k
           then q = 0 \<and> (\<exists>k < unat (sz - ?c). str_at m1 t (uva + ?c) k \<and>
             (\<forall>j \<le> k. m' (kva + ?c + word_of_nat j) = uread m1 t (uva + ?c + word_of_nat j)))
           else q = -1"
          using less.hyps [of "sz - ?c" "s\<lparr>mem := m1\<rparr>" "uva + ?c" "kva + ?c"] rest gt
          by (auto cong: if_cong)
        have run: "copy_in_or_out_may_str t uva kva sz COPY_IN_STR s = Ok (q, s\<lparr>mem := m'\<rparr>)"
          using step Some p r(1) more IH(1) by (simp add: handle_copy_for_page_with_way_def)
        have out: "m' x = ?m x" if "x \<notin> range_of kva (unat sz)" for x
        proof -
          have "x \<notin> range_of kva (unat ?c)" "x \<notin> range_of (kva + ?c) (unat (sz - ?c))"
            using that range_of_chunks [of kva uva sz] by blast+
          then show ?thesis using IH(2) out1 by simp
        qed
        have shift: "(\<exists>k < unat sz. str_at ?m t uva k) \<longleftrightarrow> (\<exists>k < unat (sz - ?c). str_at m1 t (uva + ?c) k)"
        proof
          assume "\<exists>k < unat sz. str_at ?m t uva k"
          then obtain k where k: "k < unat sz" "str_at ?m t uva k" by blast
          then have "unat ?c \<le> k" using no by (meson not_le)
          then have "k - unat ?c < unat (sz - ?c)" "unat ?c + (k - unat ?c) = k"
            using k(1) by (simp_all add: chunk_rest)
          with k(2) glue show "\<exists>k < unat (sz - ?c). str_at m1 t (uva + ?c) k" by metis
        next
          assume "\<exists>k < unat (sz - ?c). str_at m1 t (uva + ?c) k"
          then obtain k where k: "k < unat (sz - ?c)" "str_at m1 t (uva + ?c) k" by blast
          then have "str_at ?m t uva (unat ?c + k)" "unat ?c + k < unat sz"
            using glue by (simp_all add: chunk_rest)
          then show "\<exists>k < unat sz. str_at ?m t uva k" by blast
        qed
        show ?thesis
        proof (cases "\<exists>k < unat (sz - ?c). str_at m1 t (uva + ?c) k")
          case True
          then obtain k where k: "q = 0" "k < unat (sz - ?c)" "str_at m1 t (uva + ?c) k"
            "\<And>j. j \<le> k \<Longrightarrow> m' (kva + ?c + word_of_nat j) = uread m1 t (uva + ?c + word_of_nat j)"
            using IH(3) by auto
          have "m' (kva + word_of_nat j) = uread ?m t (uva + word_of_nat j)" if "j \<le> unat ?c + k" for j
            by (rule copy_str_glue(2) [OF less.prems(1) Some nz out1 _ k(2,3) IH(2) k(4) that]) (use r(2) in auto)
          moreover have "unat ?c + k < unat sz" using k(2) by (simp add: chunk_rest)
          moreover have "str_at ?m t uva (unat ?c + k)" using glue k by simp
          ultimately show ?thesis
            using run out k(1) shift True by (intro exI [of _ q] exI [of _ m']) auto
        next
          case F: False
          then show ?thesis using run out shift IH(3) by (intro exI [of _ q] exI [of _ m']) auto
        qed
      qed
    qed
  qed
qed

section \<open>A small user space\<close>

text \<open>
  The machine of the page table theory with page 1 of the user mapped to the physical page
  \<open>0x80000000\<close>, readable, writable and a user page.
\<close>

lemma page_no_in_page: "page_aligned p \<Longrightarrow> unat x div 4096 \<noteq> unat p div 4096 \<Longrightarrow> \<not> in_page p x"
  by (simp add: in_page_unat)

lemma tiny_user:
  "\<exists>s :: vm_state. table_wf (mem s) 2 tiny_root \<and>
     tables (mem s) 2 tiny_root \<subseteq> {tiny_root, 0x87ffe000, 0x87fff000} \<and>
     (\<forall>j < 4096. uaddr (mem s) tiny_root (0x1000 + word_of_nat j) = Some (0x80000000 + word_of_nat j))"
proof -
  let ?attr = "PTE_R OR PTE_W OR PTE_U"
  obtain s F where s: "table_step 2 tiny_root tiny_vm {0x87ffe000, 0x87fff000} s F"
    "lookup s tiny_root = [1 \<mapsto> MAKE_PTE 0x80000000 (?attr OR PTE_V)]"
    using tiny_map_page [of 1 "0x80000000" ?attr] by auto
  let ?e = "MAKE_PTE 0x80000000 (?attr OR PTE_V)"
  have m: "(0x1000 :: u64) \<le> MAX_VA" by (simp add: layout_simps)
  have "pte_at (mem s) 2 tiny_root 0x1000 = ?e"
    using lookup_va [OF m, of s tiny_root] s(2) by (auto split: if_splits)
  moreover have "pte_pa 0x80000000" by (simp add: pte_pa_def mask_eq_exp_minus_1 push_bit_eq_mult)
  moreover have "check_uva_attribute_valid (PTE_GET_ATTRIBUTE ?e) = 0"
    by (simp add: PTE_GET_ATTRIBUTE_MAKE_PTE check_uva_attribute_valid_def pte_flag_consts
        PTE_ATTRIBUTE_MASK_def push_bit_eq_mult)
  ultimately have u: "uaddr (mem s) tiny_root 0x1000 = Some 0x80000000"
    using m by (simp add: uaddr_def PTE_GET_PA_MAKE_PTE)
  have "uaddr (mem s) tiny_root (0x1000 + word_of_nat j) = Some (0x80000000 + word_of_nat j)" if "j < 4096" for j
    using uaddr_chunk [of j "0x1000" "0x1000" "mem s" tiny_root] that u by (simp add: unat_chunk)
  then show ?thesis
    using s(1) tiny_tables by (intro exI [of _ s]) (auto simp: table_step_def)
qed

lemma tiny_off_table:
  assumes "tables m 2 tiny_root \<subseteq> {tiny_root, 0x87ffe000, 0x87fff000}"
    and "\<And>x. x \<in> A \<Longrightarrow> unat x < 0x87ffd000"
  shows "off_table m tiny_root A"
proof -
  have "\<not> in_page p x" if "unat x < 0x87ffd000" "p = 0x87ffd000 \<or> p = 0x87ffe000 \<or> p = 0x87fff000" for p x
  proof -
    have "unat x div 4096 < 0x87ffd" using that(1) by (simp add: div_less_iff_less_mult)
    then show ?thesis
      using that(2) by (intro page_no_in_page) (auto simp: page_aligned_def)
  qed
  then show ?thesis using assms by (fastforce simp: off_table_def tiny_root_def)
qed

lemma range_of_bounds:
  assumes "x \<in> range_of a n" "unat a + n < 2 ^ 64"
  shows "unat a \<le> unat x \<and> unat x < unat a + n"
proof -
  have "x = a + word_of_nat (unat (x - a))" by simp
  moreover have "unat (x - a) < n" using assms by (simp add: range_of_def)
  ultimately show ?thesis using unat_add_of_nat [of a "unat (x - a)"] assms(2) by simp
qed

lemma tiny_copy_pre:
  assumes "tables m 2 tiny_root \<subseteq> {tiny_root, 0x87ffe000, 0x87fff000}" "table_wf m 2 tiny_root"
    and "\<forall>j < 4096. uaddr m tiny_root (0x1000 + word_of_nat j) = Some (0x80000000 + word_of_nat j)"
    and "kva = 0x80002000 \<or> kva = 0x80004000"
  shows "copy_in_pre m tiny_root 0x1000 kva 16"
    "uset m tiny_root 0x1000 16 \<inter> range_of kva 16 = {}"
    "off_table m tiny_root (uset m tiny_root 0x1000 16)"
    "uinj m tiny_root 0x1000 16" "accessible m tiny_root 0x1000 16"
proof -
  have u: "uaddr m tiny_root (0x1000 + word_of_nat j) = Some (0x80000000 + word_of_nat j)" if "j < 16" for j
    using assms(3) that by simp
  have ub: "unat (0x80000000 + word_of_nat j :: u64) = 0x80000000 + j" if "j < 16" for j
    using that by (subst unat_add_of_nat) simp_all
  have k: "0x80002000 \<le> unat x \<and> unat x < 0x80005000" if "x \<in> range_of kva 16" for x
    using range_of_bounds [OF that] assms(4) by auto
  have us: "\<exists>j < 16. x = 0x80000000 + word_of_nat j" if "x \<in> uset m tiny_root 0x1000 16" for x
    using that u by (auto simp: uset_def)
  have nk: "0x80000000 + word_of_nat j \<notin> range_of kva 16" if "j < 16" for j
    using k [of "0x80000000 + word_of_nat j"] ub [OF that] that by auto
  then show "uset m tiny_root 0x1000 16 \<inter> range_of kva 16 = {}" using us by blast
  show "copy_in_pre m tiny_root 0x1000 kva 16"
  proof -
    have "unat x < 0x87ffd000" if "x \<in> range_of kva 16" for x using k [OF that] by simp
    then have "off_table m tiny_root (range_of kva 16)" by (rule tiny_off_table [OF assms(1)])
    then show ?thesis unfolding copy_in_pre_def using assms(2) u nk by auto
  qed
  show "off_table m tiny_root (uset m tiny_root 0x1000 16)"
  proof (rule tiny_off_table [OF assms(1)])
    show "unat x < 0x87ffd000" if "x \<in> uset m tiny_root 0x1000 16" for x
      using us [OF that] ub by fastforce
  qed
  show "uinj m tiny_root 0x1000 16"
    unfolding uinj_def using u ub by (metis add_left_cancel option.inject)
  show "accessible m tiny_root 0x1000 16" using u by (simp add: accessible_def)
qed

section \<open>Properties\<close>

text \<open>
  C7: \<open>copy_in\<close> reads user memory through the page table. When the kernel buffer is outside the
  user's tables and apart from the bytes read, the call returns 0 exactly if every byte of the
  user range is accessible, and then the buffer holds the user's bytes; otherwise it returns -1.
  Nothing outside the buffer changes.
\<close>

theorem copy_in_correct:
  assumes "copy_in_pre (mem s) t uva kva (unat sz)"
  shows "\<exists>r m'. copy_in t uva kva sz s = Ok (r, s\<lparr>mem := m'\<rparr>) \<and>
    (\<forall>x. x \<notin> range_of kva (unat sz) \<longrightarrow> m' x = mem s x) \<and>
    (if accessible (mem s) t uva (unat sz)
     then r = 0 \<and> (\<forall>j < unat sz. m' (kva + word_of_nat j) = uread (mem s) t (uva + word_of_nat j))
     else r = -1)"
  unfolding copy_in_def by (rule copy_in_loop_spec [OF assms])

theorem copy_in_correct_witness:
  "\<exists>(s :: vm_state) m'. copy_in_pre (mem s) tiny_root 0x1000 0x80002000 16 \<and>
     copy_in tiny_root 0x1000 0x80002000 16 s = Ok (0, s\<lparr>mem := m'\<rparr>) \<and>
     (\<forall>j < (16 :: nat). m' (0x80002000 + word_of_nat j) = mem s (0x80000000 + word_of_nat j))"
proof -
  obtain s :: vm_state where s: "table_wf (mem s) 2 tiny_root"
    "tables (mem s) 2 tiny_root \<subseteq> {tiny_root, 0x87ffe000, 0x87fff000}"
    "\<forall>j < 4096. uaddr (mem s) tiny_root (0x1000 + word_of_nat j) = Some (0x80000000 + word_of_nat j)"
    using tiny_user by blast
  note pre = tiny_copy_pre [OF s(2,1,3), of "0x80002000"]
  have p: "copy_in_pre (mem s) tiny_root 0x1000 0x80002000 (unat (16 :: u64))" using pre(1) by simp
  obtain m' where m': "copy_in tiny_root 0x1000 0x80002000 16 s = Ok (0, s\<lparr>mem := m'\<rparr>)"
    "\<forall>j < (16 :: nat). m' (0x80002000 + word_of_nat j) = uread (mem s) tiny_root (0x1000 + word_of_nat j)"
    using copy_in_correct [OF p] pre(5) by auto
  show ?thesis
    by (rule exI [of _ s], rule exI [of _ m']) (use m' pre(1) s(3) in \<open>simp add: uread_def\<close>)
qed

text \<open>
  C8: what \<open>copy_out\<close> writes, \<open>copy_in\<close> reads back. For a user range that is accessible, injective
  and outside the tables, and kernel buffers apart from it, \<open>copy_out\<close> returns 0 and changes no
  byte but those of the user range, and \<open>copy_in\<close> into a second buffer then returns 0 and
  leaves there the bytes of the first.
\<close>

theorem copy_out_in_roundtrip:
  assumes "copy_in_pre (mem s) t uva kva2 (unat sz)" and "accessible (mem s) t uva (unat sz)"
    and "off_table (mem s) t (uset (mem s) t uva (unat sz))" and "uinj (mem s) t uva (unat sz)"
    and "uset (mem s) t uva (unat sz) \<inter> range_of kva (unat sz) = {}"
  shows "\<exists>m1 m2. copy_out t uva kva sz s = Ok (0, s\<lparr>mem := m1\<rparr>) \<and>
    (\<forall>x. x \<notin> uset (mem s) t uva (unat sz) \<longrightarrow> m1 x = mem s x) \<and>
    copy_in t uva kva2 sz (s\<lparr>mem := m1\<rparr>) = Ok (0, s\<lparr>mem := m2\<rparr>) \<and>
    (\<forall>j < unat sz. m2 (kva2 + word_of_nat j) = mem s (kva + word_of_nat j))"
proof -
  have wf: "table_wf (mem s) 2 t" using assms(1) by (simp add: copy_in_pre_def)
  obtain m1 where m1: "copy_out t uva kva sz s = Ok (0, s\<lparr>mem := m1\<rparr>)"
    "\<And>x. x \<notin> uset (mem s) t uva (unat sz) \<Longrightarrow> m1 x = mem s x"
    "\<And>j. j < unat sz \<Longrightarrow> m1 (the (uaddr (mem s) t (uva + word_of_nat j))) = mem s (kva + word_of_nat j)"
    using copy_out_loop_spec [OF wf assms(3-5)] assms(2) by (auto simp: copy_out_def)
  have fr: "table_wf m1 2 t" "tables m1 2 t = tables (mem s) 2 t" "uaddr m1 t = uaddr (mem s) t"
    using off_table_frame [OF wf assms(3) m1(2)] by auto
  have "copy_in_pre (mem (s\<lparr>mem := m1\<rparr>)) t uva kva2 (unat sz)"
    using assms(1) fr by (simp add: copy_in_pre_def off_table_def)
  from copy_in_loop_spec [OF this] obtain m2 where m2:
    "copy_in t uva kva2 sz (s\<lparr>mem := m1\<rparr>) = Ok (0, s\<lparr>mem := m2\<rparr>)"
    "\<And>j. j < unat sz \<Longrightarrow> m2 (kva2 + word_of_nat j) = uread m1 t (uva + word_of_nat j)"
    using assms(2) fr(3) by (auto simp: copy_in_def accessible_def)
  show ?thesis using m1 m2 fr(3) by (intro exI [of _ m1] exI [of _ m2]) (auto simp: uread_def)
qed

theorem copy_out_in_roundtrip_witness:
  "\<exists>(s :: vm_state) m1 m2. copy_out tiny_root 0x1000 0x80002000 16 s = Ok (0, s\<lparr>mem := m1\<rparr>) \<and>
     copy_in tiny_root 0x1000 0x80004000 16 (s\<lparr>mem := m1\<rparr>) = Ok (0, s\<lparr>mem := m2\<rparr>) \<and>
     (\<forall>j < (16 :: nat). m2 (0x80004000 + word_of_nat j) = mem s (0x80002000 + word_of_nat j))"
proof -
  obtain s :: vm_state where s: "table_wf (mem s) 2 tiny_root"
    "tables (mem s) 2 tiny_root \<subseteq> {tiny_root, 0x87ffe000, 0x87fff000}"
    "\<forall>j < 4096. uaddr (mem s) tiny_root (0x1000 + word_of_nat j) = Some (0x80000000 + word_of_nat j)"
    using tiny_user by blast
  note a = tiny_copy_pre [OF s(2,1,3), of "0x80002000"] and b = tiny_copy_pre [OF s(2,1,3), of "0x80004000"]
  have "unat (16 :: u64) = 16" by simp
  then show ?thesis
    using copy_out_in_roundtrip [of s tiny_root "0x1000" "0x80004000" 16 "0x80002000"] a b by auto
qed

text \<open>
  C9: \<open>copy_in_str\<close> copies a string and its NUL. With the buffer as for \<open>copy_in\<close> and a positive
  size, the call returns 0 exactly if a NUL lies within the size and every byte up to it is
  accessible, and then the buffer holds the string with its NUL; otherwise it returns -1.
\<close>

theorem copy_in_str_correct:
  assumes "copy_in_pre (mem s) t uva kva (unat sz)" and "sz > 0"
  shows "\<exists>r m'. copy_in_str t uva kva sz s = Ok (r, s\<lparr>mem := m'\<rparr>) \<and>
    (\<forall>x. x \<notin> range_of kva (unat sz) \<longrightarrow> m' x = mem s x) \<and>
    (if \<exists>k < unat sz. str_at (mem s) t uva k
     then r = 0 \<and> (\<exists>k < unat sz. str_at (mem s) t uva k \<and>
       (\<forall>j \<le> k. m' (kva + word_of_nat j) = uread (mem s) t (uva + word_of_nat j)))
     else r = -1)"
  unfolding copy_in_str_def by (rule copy_in_str_loop_spec [OF assms])

theorem copy_in_str_correct_witness:
  "\<exists>(s :: vm_state) r m'. copy_in_pre (mem s) tiny_root 0x1000 0x80002000 16 \<and>
     copy_in_str tiny_root 0x1000 0x80002000 16 s = Ok (r, s\<lparr>mem := m'\<rparr>) \<and> r \<in> {0, -1}"
proof -
  obtain s :: vm_state where s: "table_wf (mem s) 2 tiny_root"
    "tables (mem s) 2 tiny_root \<subseteq> {tiny_root, 0x87ffe000, 0x87fff000}"
    "\<forall>j < 4096. uaddr (mem s) tiny_root (0x1000 + word_of_nat j) = Some (0x80000000 + word_of_nat j)"
    using tiny_user by blast
  note pre = tiny_copy_pre(1) [OF s(2,1,3), of "0x80002000"]
  have p: "copy_in_pre (mem s) tiny_root 0x1000 0x80002000 (unat (16 :: u64))" using pre by simp
  have "(16 :: u64) > 0" by simp
  from copy_in_str_correct [OF p this] obtain r m' where
    "copy_in_str tiny_root 0x1000 0x80002000 16 s = Ok (r, s\<lparr>mem := m'\<rparr>)" "r \<in> {0, -1}"
    by (auto split: if_splits)
  with pre show ?thesis by auto
qed

text \<open>
  The permission check never looks at \<open>PTE_W\<close>: a user page that is only readable is accepted by
  \<open>copy_out\<close>, which writes to it.
\<close>

lemma copy_out_ignores_write_permission:
  "check_uva_attribute_valid (attribute AND NOT PTE_W) = check_uva_attribute_valid attribute"
  by (simp add: check_uva_attribute_valid_def pte_flag_consts and.assoc)

end
