(* ===== verification/List_Head.thy ===== *)
theory List_Head
  imports Prelude
begin

text \<open>
  Doubly linked lists: include/util/list.h (the functions the kernel uses and their relatives)
  and kernel/util/list.c. A node is an address; the state is the pair of pointer fields of all
  nodes. \<open>CONFIG_LIST_HARDENED\<close> is set in list_include.h and \<open>IS_ENABLED\<close> is 0 there, so
  \<open>__list_add\<close> and \<open>__list_del_entry\<close> check the neighbours and panic on corruption.

  The abstraction is \<open>ring L h xs\<close>: starting at the head \<open>h\<close>, the nodes are \<open>xs\<close> in order.
\<close>

section \<open>The code\<close>

record 'a links =
  nxt :: "'a \<Rightarrow> 'a"
  prv :: "'a \<Rightarrow> 'a"

definition set_next :: "'a \<Rightarrow> 'a \<Rightarrow> 'a links \<Rightarrow> 'a links" where
  "set_next a b L = L\<lparr>nxt := (nxt L)(a := b)\<rparr>"

definition set_prev :: "'a \<Rightarrow> 'a \<Rightarrow> 'a links \<Rightarrow> 'a links" where
  "set_prev a b L = L\<lparr>prv := (prv L)(a := b)\<rparr>"

text \<open>A pointer to a node, or one of the two poison values (\<open>0x100\<close>, \<open>0x122\<close>: no node is there).\<close>

datatype 'n lptr = Node 'n | LIST_POISON1 | LIST_POISON2

definition INIT_LIST_HEAD :: "'a \<Rightarrow> 'a links \<Rightarrow> 'a links" where
  "INIT_LIST_HEAD l L = set_prev l l (set_next l l L)"

definition list_add_valid_or_report :: "bool kres" where
  "list_add_valid_or_report = Panic ''__list_add_valid_or_report''"

definition list_del_entry_valid_or_report :: "bool kres" where
  "list_del_entry_valid_or_report = Panic ''__list_del_entry_valid_or_report''"

definition list_add_valid :: "'a \<Rightarrow> 'a \<Rightarrow> 'a \<Rightarrow> 'a links \<Rightarrow> bool kres" where
  "list_add_valid new prev next L =
     (if prv L next = prev \<and> nxt L prev = next \<and> new \<noteq> prev \<and> new \<noteq> next then Ok True
      else list_add_valid_or_report)"

definition list_del_entry_valid :: "'a \<Rightarrow> 'a links \<Rightarrow> bool kres" where
  "list_del_entry_valid entry L =
     (if nxt L (prv L entry) = entry \<and> prv L (nxt L entry) = entry then Ok True
      else list_del_entry_valid_or_report)"

definition list_add_between :: "'a \<Rightarrow> 'a \<Rightarrow> 'a \<Rightarrow> 'a links \<Rightarrow> 'a links" where
  "list_add_between new prev next L =
     set_next prev new (set_prev new prev (set_next new next (set_prev next new L)))"

definition u_list_add :: "'a \<Rightarrow> 'a \<Rightarrow> 'a \<Rightarrow> 'a links \<Rightarrow> 'a links kres" where
  "u_list_add new prev next L =
     kbind (list_add_valid new prev next L) (\<lambda>ok.
     if \<not> ok then Ok L else Ok (list_add_between new prev next L))"

definition list_add :: "'a \<Rightarrow> 'a \<Rightarrow> 'a links \<Rightarrow> 'a links kres" where
  "list_add new head L = u_list_add new head (nxt L head) L"

definition list_add_tail :: "'a \<Rightarrow> 'a \<Rightarrow> 'a links \<Rightarrow> 'a links kres" where
  "list_add_tail new head L = u_list_add new (prv L head) head L"

definition u_list_del :: "'a \<Rightarrow> 'a \<Rightarrow> 'a links \<Rightarrow> 'a links" where
  "u_list_del prev next L = set_next prev next (set_prev next prev L)"

definition list_del_entry :: "'a \<Rightarrow> 'a links \<Rightarrow> 'a links kres" where
  "list_del_entry entry L =
     kbind (list_del_entry_valid entry L) (\<lambda>ok.
     if \<not> ok then Ok L else Ok (u_list_del (prv L entry) (nxt L entry) L))"

definition list_del :: "'n lptr \<Rightarrow> 'n lptr links \<Rightarrow> 'n lptr links kres" where
  "list_del entry L =
     kbind (list_del_entry entry L) (\<lambda>L.
     Ok (set_prev entry LIST_POISON2 (set_next entry LIST_POISON1 L)))"

definition list_del_init :: "'a \<Rightarrow> 'a links \<Rightarrow> 'a links kres" where
  "list_del_init entry L = kbind (list_del_entry entry L) (\<lambda>L. Ok (INIT_LIST_HEAD entry L))"

definition list_replace :: "'a \<Rightarrow> 'a \<Rightarrow> 'a links \<Rightarrow> 'a links" where
  "list_replace old new L =
     (let L = set_next new (nxt L old) L;
          L = set_prev (nxt L new) new L;
          L = set_prev new (prv L old) L in
      set_next (prv L new) new L)"

definition list_move :: "'a \<Rightarrow> 'a \<Rightarrow> 'a links \<Rightarrow> 'a links kres" where
  "list_move l head L = kbind (list_del_entry l L) (list_add l head)"

definition list_move_tail :: "'a \<Rightarrow> 'a \<Rightarrow> 'a links \<Rightarrow> 'a links kres" where
  "list_move_tail l head L = kbind (list_del_entry l L) (list_add_tail l head)"

definition list_is_first :: "'a \<Rightarrow> 'a \<Rightarrow> 'a links \<Rightarrow> bool" where
  "list_is_first l head L \<longleftrightarrow> prv L l = head"

definition list_is_last :: "'a \<Rightarrow> 'a \<Rightarrow> 'a links \<Rightarrow> bool" where
  "list_is_last l head L \<longleftrightarrow> nxt L l = head"

definition list_empty :: "'a \<Rightarrow> 'a links \<Rightarrow> bool" where
  "list_empty head L \<longleftrightarrow> nxt L head = head"

definition list_rotate_left :: "'a \<Rightarrow> 'a links \<Rightarrow> 'a links kres" where
  "list_rotate_left head L =
     (if \<not> list_empty head L then list_move_tail (nxt L head) head L else Ok L)"

definition list_is_singular :: "'a \<Rightarrow> 'a links \<Rightarrow> bool" where
  "list_is_singular head L \<longleftrightarrow> \<not> list_empty head L \<and> nxt L head = prv L head"

text \<open>
  \<open>list_for_each\<close>: the nodes from \<open>pos\<close> on until the head comes back; the first argument
  bounds the rounds, \<open>Hang\<close> past it.
\<close>

primrec list_walk :: "nat \<Rightarrow> 'a \<Rightarrow> 'a \<Rightarrow> 'a links \<Rightarrow> 'a list kres" where
  "list_walk 0 pos head L = Hang"
| "list_walk (Suc n) pos head L =
     (if pos = head then Ok []
      else kbind (list_walk n (nxt L pos) head L) (\<lambda>xs. Ok (pos # xs)))"

definition list_count_nodes :: "nat \<Rightarrow> 'a \<Rightarrow> 'a links \<Rightarrow> nat kres" where
  "list_count_nodes n head L = kbind (list_walk n (nxt L head) head L) (\<lambda>xs. Ok (length xs))"

definition u_list_splice :: "'a \<Rightarrow> 'a \<Rightarrow> 'a \<Rightarrow> 'a links \<Rightarrow> 'a links" where
  "u_list_splice l prev next L =
     (let first = nxt L l; last = prv L l in
      set_prev next last (set_next last next (set_next prev first (set_prev first prev L))))"

definition list_splice :: "'a \<Rightarrow> 'a \<Rightarrow> 'a links \<Rightarrow> 'a links" where
  "list_splice l head L = (if \<not> list_empty l L then u_list_splice l head (nxt L head) L else L)"

definition list_splice_tail :: "'a \<Rightarrow> 'a \<Rightarrow> 'a links \<Rightarrow> 'a links" where
  "list_splice_tail l head L = (if \<not> list_empty l L then u_list_splice l (prv L head) head L else L)"

definition list_splice_init :: "'a \<Rightarrow> 'a \<Rightarrow> 'a links \<Rightarrow> 'a links" where
  "list_splice_init l head L =
     (if \<not> list_empty l L then INIT_LIST_HEAD l (u_list_splice l head (nxt L head) L) else L)"

definition list_splice_tail_init :: "'a \<Rightarrow> 'a \<Rightarrow> 'a links \<Rightarrow> 'a links" where
  "list_splice_tail_init l head L =
     (if \<not> list_empty l L then INIT_LIST_HEAD l (u_list_splice l (prv L head) head L) else L)"

section \<open>Rings\<close>

text \<open>Consecutive nodes of \<open>path\<close> point to each other.\<close>

fun path :: "'a links \<Rightarrow> 'a list \<Rightarrow> bool" where
  "path L (a # b # xs) \<longleftrightarrow> nxt L a = b \<and> prv L b = a \<and> path L (b # xs)"
| "path L xs \<longleftrightarrow> True"

definition ring :: "'a links \<Rightarrow> 'a \<Rightarrow> 'a list \<Rightarrow> bool" where
  "ring L h xs \<longleftrightarrow> path L (h # xs @ [h]) \<and> distinct (h # xs)"

lemma links_simps [simp]:
  "nxt (set_next a b L) x = (if x = a then b else nxt L x)" "prv (set_next a b L) x = prv L x"
  "prv (set_prev a b L) x = (if x = a then b else prv L x)" "nxt (set_prev a b L) x = nxt L x"
  by (simp_all add: set_next_def set_prev_def)

lemma path_append: "path L (xs @ a # ys) \<longleftrightarrow> path L (xs @ [a]) \<and> path L (a # ys)"
proof (induction xs)
  case (Cons b xs)
  then show ?case by (cases xs) auto
qed simp

lemma path_snoc: "path L (xs @ [a, b]) \<longleftrightarrow> path L (xs @ [a]) \<and> nxt L a = b \<and> prv L b = a"
  using path_append [of L xs a "[b]"] by simp

lemma path_cong:
  assumes "\<And>x. x \<in> set (butlast xs) \<Longrightarrow> nxt L' x = nxt L x" "\<And>x. x \<in> set (tl xs) \<Longrightarrow> prv L' x = prv L x"
  shows "path L' xs = path L xs"
  using assms
proof (induction L xs rule: path.induct)
  case (1 L a b xs)
  have "path L' (b # xs) = path L (b # xs)"
  proof (rule "1.IH")
    show "nxt L' x = nxt L x" if "x \<in> set (butlast (b # xs))" for x
      using "1.prems"(1) [of x] that by simp
    show "prv L' x = prv L x" if "x \<in> set (tl (b # xs))" for x
      using "1.prems"(2) [of x] that by simp
  qed
  then show ?case using "1.prems"(1) [of a] "1.prems"(2) [of b] by simp
qed auto

text \<open>Every split of a ring: the nodes up to \<open>last (h # ys)\<close>, one edge, and the rest.\<close>

lemma ring_split:
  "ring L h (ys @ zs) \<longleftrightarrow> path L (h # ys) \<and> path L (zs @ [h]) \<and>
     nxt L (last (h # ys)) = hd (zs @ [h]) \<and> prv L (hd (zs @ [h])) = last (h # ys) \<and> distinct (h # ys @ zs)"
proof -
  define as p n bs where "as = butlast (h # ys)" and "p = last (h # ys)" and "n = hd (zs @ [h])" and "bs = tl (zs @ [h])"
  have e: "h # ys = as @ [p]" "zs @ [h] = n # bs"
    unfolding as_def p_def n_def bs_def by simp_all
  have "h # (ys @ zs) @ [h] = as @ p # n # bs" using e by (metis append.assoc append_Cons append_Nil)
  then have "path L (h # (ys @ zs) @ [h]) \<longleftrightarrow> path L (as @ [p]) \<and> nxt L p = n \<and> prv L n = p \<and> path L (n # bs)"
    using path_append [of L as p "n # bs"] by simp
  then show ?thesis
    unfolding ring_def p_def [symmetric] n_def [symmetric] e [symmetric] by auto
qed

lemma ring_next: "ring L h (ys @ zs) \<Longrightarrow> nxt L (last (h # ys)) = hd (zs @ [h])"
  and ring_prev: "ring L h (ys @ zs) \<Longrightarrow> prv L (hd (zs @ [h])) = last (h # ys)"
  by (simp_all add: ring_split)

lemma ring_frame:
  assumes "ring L h xs" "\<And>x. x \<in> set (h # xs) \<Longrightarrow> nxt L' x = nxt L x \<and> prv L' x = prv L x"
  shows "ring L' h xs"
proof -
  have "path L' (h # xs @ [h]) = path L (h # xs @ [h])"
    using assms(2) by (intro path_cong) (auto simp: butlast_append)
  then show ?thesis using assms(1) by (simp add: ring_def)
qed

text \<open>Insertion between two neighbours and deletion of a node.\<close>

lemma path_insert:
  assumes "path L (as @ [p])" "path L (n # bs)" "p \<notin> set as" "n \<notin> set bs"
    and "x \<notin> set (as @ p # n # bs)" "p \<notin> set (butlast (n # bs))" "n \<notin> set (tl (as @ [p]))"
  shows "path (list_add_between x p n L) (as @ p # x # n # bs)"
proof -
  let ?L = "list_add_between x p n L"
  have nl: "nxt ?L a = (if a = p then x else if a = x then n else nxt L a)"
    and pl: "prv ?L a = (if a = x then p else if a = n then x else prv L a)" for a
    using assms(5) by (auto simp: list_add_between_def)
  have "path ?L (as @ [p]) = path L (as @ [p])"
  proof (rule path_cong)
    show "nxt ?L a = nxt L a" if "a \<in> set (butlast (as @ [p]))" for a
      using that assms(3,5) by (auto simp: nl)
    show "prv ?L a = prv L a" if "a \<in> set (tl (as @ [p]))" for a
      using that assms(5,7) by (cases as) (auto simp: pl)
  qed
  moreover have "path ?L (n # bs) = path L (n # bs)"
  proof (rule path_cong)
    show "nxt ?L a = nxt L a" if "a \<in> set (butlast (n # bs))" for a
      using that assms(5,6) in_set_butlastD [OF that] by (auto simp: nl)
    show "prv ?L a = prv L a" if "a \<in> set (tl (n # bs))" for a
      using that assms(4,5) by (auto simp: pl)
  qed
  moreover have "nxt ?L p = x" "prv ?L x = p" "nxt ?L x = n" "prv ?L n = x"
    using assms(5) by (auto simp: nl pl)
  ultimately show ?thesis
    using assms(1,2) path_append [of ?L as p "x # n # bs"] by simp
qed

text \<open>The four pieces of a ring around an edge.\<close>

lemma ring_pieces:
  assumes "distinct (h # ys @ zs)"
  obtains as p n bs where "h # ys = as @ [p]" "zs @ [h] = n # bs" "p = last (h # ys)" "n = hd (zs @ [h])"
    "p \<notin> set as" "n \<notin> set bs" "p \<notin> set (butlast (n # bs))" "n \<notin> set (tl (as @ [p]))"
proof -
  have e: "h # ys = butlast (h # ys) @ [last (h # ys)]" "zs @ [h] = hd (zs @ [h]) # tl (zs @ [h])"
    by simp_all
  show ?thesis
  proof (rule that [OF e refl refl])
    have "distinct (h # ys)" using assms by simp
    then have "distinct (butlast (h # ys) @ [last (h # ys)])" by (simp only: e(1) [symmetric])
    then show "last (h # ys) \<notin> set (butlast (h # ys))" unfolding distinct_append by auto
    show "hd (zs @ [h]) \<notin> set (tl (zs @ [h]))" using assms by (cases zs) auto
    have "last (h # ys) \<notin> set zs" using assms last_in_set [of "h # ys"] by (auto simp del: last.simps)
    then show "last (h # ys) \<notin> set (butlast (hd (zs @ [h]) # tl (zs @ [h])))"
      by (simp only: e(2) [symmetric] butlast_snoc not_False_eq_True)
    show "hd (zs @ [h]) \<notin> set (tl (butlast (h # ys) @ [last (h # ys)]))"
      using assms by (simp only: e(1) [symmetric]) (cases zs, auto)
  qed
qed

lemma ring_insert:
  assumes r: "ring L h (ys @ zs)" and x: "x \<notin> set (h # ys @ zs)"
  shows "ring (list_add_between x (last (h # ys)) (hd (zs @ [h])) L) h (ys @ x # zs)"
proof -
  have d: "distinct (h # ys @ zs)" "path L (h # ys)" "path L (zs @ [h])" using r by (auto simp: ring_split)
  obtain as p n bs where c: "h # ys = as @ [p]" "zs @ [h] = n # bs" "p = last (h # ys)" "n = hd (zs @ [h])"
    "p \<notin> set as" "n \<notin> set bs" "p \<notin> set (butlast (n # bs))" "n \<notin> set (tl (as @ [p]))"
    using ring_pieces [OF d(1)] by blast
  have "x \<notin> set (as @ p # n # bs)"
    using x arg_cong [OF c(1), of set] arg_cong [OF c(2), of set] by auto
  then have "path (list_add_between x p n L) (as @ p # x # n # bs)"
    using d(2,3) unfolding c(1,2) by (intro path_insert c(5-8))
  moreover have "as @ p # x # n # bs = h # (ys @ x # zs) @ [h]"
    using c(1,2) by (metis append.assoc append_Cons append_Nil)
  ultimately show ?thesis using d(1) x c(3,4) by (auto simp: ring_def)
qed

lemma path_remove:
  assumes "path L (as @ p # x # n # bs)" "p \<notin> set as" "n \<notin> set bs"
    and "p \<notin> set (butlast (n # bs))" "n \<notin> set (tl (as @ [p]))"
  shows "path (u_list_del p n L) (as @ p # n # bs)"
proof -
  let ?L = "u_list_del p n L"
  have o: "path L (as @ [p])" "path L (n # bs)"
    using assms(1) path_append [of L as p "x # n # bs"] by auto
  have "path ?L (as @ [p]) = path L (as @ [p])"
  proof (rule path_cong)
    show "nxt ?L a = nxt L a" if "a \<in> set (butlast (as @ [p]))" for a
      using that assms(2) by (auto simp: u_list_del_def)
    show "prv ?L a = prv L a" if "a \<in> set (tl (as @ [p]))" for a
      using that assms(5) by (auto simp: u_list_del_def)
  qed
  moreover have "path ?L (n # bs) = path L (n # bs)"
  proof (rule path_cong)
    show "nxt ?L a = nxt L a" if "a \<in> set (butlast (n # bs))" for a
      using that assms(4) by (auto simp: u_list_del_def)
    show "prv ?L a = prv L a" if "a \<in> set (tl (n # bs))" for a
      using that assms(3) by (auto simp: u_list_del_def)
  qed
  ultimately show ?thesis
    using o path_append [of ?L as p "n # bs"] by (simp add: u_list_del_def)
qed

lemma ring_remove:
  assumes r: "ring L h (ys @ x # zs)"
  shows "ring (u_list_del (last (h # ys)) (hd (zs @ [h])) L) h (ys @ zs)"
proof -
  have d: "distinct (h # ys @ zs)" using r by (simp add: ring_def)
  obtain as p n bs where c: "h # ys = as @ [p]" "zs @ [h] = n # bs" "p = last (h # ys)" "n = hd (zs @ [h])"
    "p \<notin> set as" "n \<notin> set bs" "p \<notin> set (butlast (n # bs))" "n \<notin> set (tl (as @ [p]))"
    using ring_pieces [OF d] by blast
  have e: "as @ p # x # n # bs = h # (ys @ x # zs) @ [h]" "as @ p # n # bs = h # (ys @ zs) @ [h]"
    using c(1,2) by (metis append.assoc append_Cons append_Nil)+
  have "path L (as @ p # x # n # bs)" unfolding e using r by (simp add: ring_def)
  then have "path (u_list_del p n L) (as @ p # n # bs)" by (intro path_remove c(5-8))
  then show ?thesis using d c(3,4) unfolding e by (simp add: ring_def)
qed

section \<open>What the operations do to a ring\<close>

lemma INIT_LIST_HEAD_ring: "ring (INIT_LIST_HEAD h L) h []"
  by (simp add: ring_def INIT_LIST_HEAD_def)

lemma list_add_between_frame:
  "a \<notin> {x, p} \<Longrightarrow> nxt (list_add_between x p n L) a = nxt L a"
  "a \<notin> {x, n} \<Longrightarrow> prv (list_add_between x p n L) a = prv L a"
  by (auto simp: list_add_between_def)

lemma u_list_add_ring:
  assumes "ring L h (ys @ zs)" "x \<notin> set (h # ys @ zs)"
  shows "u_list_add x (last (h # ys)) (hd (zs @ [h])) L =
    Ok (list_add_between x (last (h # ys)) (hd (zs @ [h])) L)"
proof -
  have "last (h # ys) \<in> set (h # ys)" "hd (zs @ [h]) \<in> set (zs @ [h])" by (rule last_in_set hd_in_set, simp)+
  then have "x \<noteq> last (h # ys)" "x \<noteq> hd (zs @ [h])" using assms(2) by auto
  then show ?thesis
    using ring_next [OF assms(1)] ring_prev [OF assms(1)] by (simp add: u_list_add_def list_add_valid_def)
qed

lemma list_add_ring:
  assumes "ring L h xs" "x \<notin> set (h # xs)"
  shows "kok (\<lambda>L'. ring L' h (x # xs)) (list_add x h L)"
proof -
  have n: "nxt L h = hd (xs @ [h])" using ring_next [of L h "[]" xs] assms(1) by simp
  show ?thesis
    using u_list_add_ring [of L h "[]" xs x] ring_insert [of L h "[]" xs x] assms
    by (simp add: list_add_def n)
qed

lemma list_add_tail_ring:
  assumes "ring L h xs" "x \<notin> set (h # xs)"
  shows "kok (\<lambda>L'. ring L' h (xs @ [x])) (list_add_tail x h L)"
proof -
  have p: "prv L h = last (h # xs)" using ring_prev [of L h xs "[]"] assms(1) by simp
  show ?thesis
    using u_list_add_ring [of L h xs "[]" x] ring_insert [of L h xs "[]" x] assms
    by (simp add: list_add_tail_def p del: last.simps)
qed

lemma list_del_entry_ring:
  assumes "ring L h (ys @ x # zs)"
  shows "list_del_entry x L = Ok (u_list_del (last (h # ys)) (hd (zs @ [h])) L)"
proof -
  have p: "prv L x = last (h # ys)" "nxt L (last (h # ys)) = x"
    using ring_prev [of L h ys "x # zs"] ring_next [of L h ys "x # zs"] assms by simp_all
  have n: "nxt L x = hd (zs @ [h])" "prv L (hd (zs @ [h])) = x"
    using ring_next [of L h "ys @ [x]" zs] ring_prev [of L h "ys @ [x]" zs] assms by simp_all
  show ?thesis
    unfolding list_del_entry_def list_del_entry_valid_def p(1) n(1) using p(2) n(2) by simp
qed

lemma list_del_ring:
  assumes "ring L h (ys @ x # zs)"
  shows "kok (\<lambda>L'. ring L' h (ys @ zs)) (list_del x L)"
proof -
  have x: "x \<notin> set (h # ys @ zs)" using assms by (auto simp: ring_def)
  have "ring (set_prev x b (set_next x a (u_list_del (last (h # ys)) (hd (zs @ [h])) L))) h (ys @ zs)" for a b
    by (rule ring_frame [OF ring_remove [OF assms]]) (use x in auto)
  then show ?thesis by (simp add: list_del_def list_del_entry_ring [OF assms])
qed

lemma list_del_init_ring:
  assumes "ring L h (ys @ x # zs)"
  shows "kok (\<lambda>L'. ring L' h (ys @ zs) \<and> ring L' x []) (list_del_init x L)"
proof -
  have x: "x \<notin> set (h # ys @ zs)" using assms by (auto simp: ring_def)
  have "ring (INIT_LIST_HEAD x (u_list_del (last (h # ys)) (hd (zs @ [h])) L)) h (ys @ zs)"
    by (rule ring_frame [OF ring_remove [OF assms]]) (use x in \<open>auto simp: INIT_LIST_HEAD_def\<close>)
  then show ?thesis by (simp add: list_del_init_def list_del_entry_ring [OF assms] INIT_LIST_HEAD_ring)
qed

lemma list_move_tail_ring:
  assumes "ring L h (ys @ x # zs)"
  shows "kok (\<lambda>L'. ring L' h (ys @ zs @ [x])) (list_move_tail x h L)"
  using list_add_tail_ring [OF ring_remove [OF assms], of x] assms
  by (auto simp: list_move_tail_def list_del_entry_ring [OF assms] ring_def)

lemma list_move_ring:
  assumes "ring L h (ys @ x # zs)"
  shows "kok (\<lambda>L'. ring L' h (x # ys @ zs)) (list_move x h L)"
  using list_add_ring [OF ring_remove [OF assms], of x] assms
  by (auto simp: list_move_def list_del_entry_ring [OF assms] ring_def)

lemma list_empty_ring: "ring L h xs \<Longrightarrow> list_empty h L \<longleftrightarrow> xs = []"
  using ring_next [of L h "[]" xs] by (cases xs) (auto simp: list_empty_def ring_def)

lemma list_rotate_left_ring:
  assumes "ring L h xs"
  shows "kok (\<lambda>L'. ring L' h (rotate1 xs)) (list_rotate_left h L)"
proof (cases xs)
  case Nil
  then show ?thesis using assms list_empty_ring [OF assms] by (simp add: list_rotate_left_def)
next
  case (Cons x ys)
  have n: "nxt L h = x" using ring_next [of L h "[]" xs] assms Cons by simp
  then show ?thesis
    using list_move_tail_ring [of L h "[]" x ys] assms Cons list_empty_ring [OF assms]
    by (simp add: list_rotate_left_def)
qed

lemma list_walk_path:
  assumes "path L (pos # xs @ [h])" "h \<notin> set (pos # xs)" "length xs + 1 < n"
  shows "list_walk n pos h L = Ok (pos # xs)"
  using assms
proof (induction xs arbitrary: pos n)
  case Nil
  then obtain m where "n = Suc (Suc m)" by (metis Suc_less_eq2 add_0 list.size(3) One_nat_def less_Suc_eq_0_disj not_less0 gr0_conv_Suc)
  with Nil show ?case by auto
next
  case (Cons x xs)
  then obtain m where m: "n = Suc m" "length xs + 1 < m" by (cases n) auto
  have "list_walk m x h L = Ok (x # xs)" using Cons.prems m by (intro Cons.IH) auto
  then show ?case using Cons.prems m by auto
qed

lemma list_walk_ring:
  assumes "ring L h xs" "length xs < n"
  shows "list_walk n (nxt L h) h L = Ok xs"
proof (cases xs)
  case Nil
  then obtain m where "n = Suc m" using assms(2) by (cases n) auto
  then show ?thesis using Nil ring_next [of L h "[]" xs] assms(1) by simp
next
  case (Cons x ys)
  then have "nxt L h = x" "path L (x # ys @ [h])" using assms(1) by (auto simp: ring_def)
  then show ?thesis using list_walk_path [of L x ys h n] Cons assms by (auto simp: ring_def)
qed

lemma list_count_nodes_ring: "ring L h xs \<Longrightarrow> length xs < n \<Longrightarrow> list_count_nodes n h L = Ok (length xs)"
  by (simp add: list_count_nodes_def list_walk_ring)

lemma path_prefix: "path L (xs @ ys) \<Longrightarrow> path L xs"
  by (induction L xs rule: path.induct) auto

lemma list_splice_ring:
  assumes h: "ring L h xs" and l: "ring L l ys" and dj: "set (h # xs) \<inter> set (l # ys) = {}"
  shows "ring (list_splice l h L) h (ys @ xs)"
proof (cases "ys = []")
  case True
  then show ?thesis using h list_empty_ring [OF l] by (simp add: list_splice_def)
next
  case False
  let ?n = "hd (xs @ [h])" let ?f = "hd ys" let ?e = "last ys"
  let ?L = "list_splice l h L"
  have n: "nxt L h = ?n" using ring_next [of L h "[]" xs] h by simp
  have fe: "nxt L l = ?f" "prv L l = ?e"
    using ring_next [of L l "[]" ys] ring_prev [of L l ys "[]"] l False by simp_all
  have mem: "?f \<in> set ys" "?e \<in> set ys" "?n \<in> set (xs @ [h])"
    using False hd_in_set [of "xs @ [h]"] by simp_all
  have d: "distinct xs" "distinct ys" "h \<notin> set xs" "h \<notin> set ys" "set xs \<inter> set ys = {}"
    using h l dj by (auto simp: ring_def)
  have nl: "nxt ?L a = (if a = ?e then ?n else if a = h then ?f else nxt L a)"
    and pl: "prv ?L a = (if a = ?n then ?e else if a = ?f then h else prv L a)" for a
    using False list_empty_ring [OF l] by (auto simp: list_splice_def u_list_splice_def n fe Let_def)
  have fn: "?f \<noteq> ?n" "?e \<noteq> h" using mem d by auto
  have "path L (ys @ [l])" using l False by (cases ys) (auto simp: ring_def)
  then have py: "path L ys" by (rule path_prefix)
  have px: "path L (xs @ [h])" using h path_append [of L "[h]" ?n "tl (xs @ [h])"] by (cases xs) (auto simp: ring_def)
  have "path ?L ys = path L ys"
  proof (rule path_cong)
    show "nxt ?L a = nxt L a" if "a \<in> set (butlast ys)" for a
      using that d in_set_butlastD [OF that] False
      by (auto simp: nl) (metis append_butlast_last_id distinct_append disjoint_iff list.set_intros(1))
    show "prv ?L a = prv L a" if "a \<in> set (tl ys)" for a
      using that d mem(3) False by (cases ys) (auto simp: pl)
  qed
  moreover have "path ?L (xs @ [h]) = path L (xs @ [h])"
  proof (rule path_cong)
    show "nxt ?L a = nxt L a" if "a \<in> set (butlast (xs @ [h]))" for a using that d mem by (auto simp: nl)
    show "prv ?L a = prv L a" if "a \<in> set (tl (xs @ [h]))" for a
      using that d mem by (cases xs) (auto simp: pl)
  qed
  moreover have "nxt ?L h = ?f" "prv ?L ?f = h" "nxt ?L ?e = ?n" "prv ?L ?n = ?e" using fn by (auto simp: nl pl)
  moreover have n': "xs @ [h] = ?n # tl (xs @ [h])" by (cases xs) auto
  ultimately have "path ?L (?e # ?n # tl (xs @ [h]))" "path ?L (h # ys)"
    using py px False by (metis path.simps(1), cases ys, auto)
  moreover have "(h # butlast ys) @ [?e] = h # ys" using False by simp
  ultimately have "path ?L (h # butlast ys @ ?e # ?n # tl (xs @ [h]))"
    using path_append [of ?L "h # butlast ys" ?e "?n # tl (xs @ [h])"] by simp
  moreover have "h # butlast ys @ ?e # ?n # tl (xs @ [h]) = h # (ys @ xs) @ [h]"
    using False n' by (metis append.assoc append_Cons append_Nil append_butlast_last_id)
  ultimately have "path ?L (h # (ys @ xs) @ [h])" by (simp only:)
  then show ?thesis using d by (auto simp: ring_def)
qed

section \<open>The interface of an intrusive list\<close>

text \<open>
  What the process groups and the scheduler rely on: \<open>repr s h xs\<close> says that the list with head
  \<open>h\<close> holds the nodes \<open>xs\<close> in this order.
\<close>

locale node_list =
  fixes repr :: "'s \<Rightarrow> 'a \<Rightarrow> 'a list \<Rightarrow> bool"
    and init :: "'a \<Rightarrow> 's \<Rightarrow> 's"
    and add :: "'a \<Rightarrow> 'a \<Rightarrow> 's \<Rightarrow> 's kres"
    and add_tail :: "'a \<Rightarrow> 'a \<Rightarrow> 's \<Rightarrow> 's kres"
    and del :: "'a \<Rightarrow> 's \<Rightarrow> 's kres"
    and empty :: "'a \<Rightarrow> 's \<Rightarrow> bool"
  assumes init_law: "repr (init h s) h []"
    and repr_distinct: "repr s h xs \<Longrightarrow> distinct (h # xs)"
    and add_law: "repr s h xs \<Longrightarrow> x \<notin> set (h # xs) \<Longrightarrow> kok (\<lambda>s'. repr s' h (x # xs)) (add x h s)"
    and add_tail_law: "repr s h xs \<Longrightarrow> x \<notin> set (h # xs) \<Longrightarrow> kok (\<lambda>s'. repr s' h (xs @ [x])) (add_tail x h s)"
    and del_law: "repr s h (ys @ x # zs) \<Longrightarrow> kok (\<lambda>s'. repr s' h (ys @ zs)) (del x s)"
    and empty_law: "repr s h xs \<Longrightarrow> empty h s \<longleftrightarrow> xs = []"
begin

text \<open>The scheduler puts the process it ran at the end of its group's list.\<close>

definition requeue :: "'a \<Rightarrow> 'a \<Rightarrow> 's \<Rightarrow> 's kres" where
  "requeue x h s = kbind (del x s) (add_tail x h)"

lemma requeue_law:
  assumes "repr s h (ys @ x # zs)"
  shows "kok (\<lambda>s'. repr s' h (ys @ zs @ [x])) (requeue x h s)"
proof -
  have "x \<notin> set (h # ys @ zs)" using repr_distinct [OF assms] by auto
  then show ?thesis
    using del_law [OF assms] add_tail_law [of _ h "ys @ zs" x] by (auto simp: requeue_def kok_def)
qed

primrec turns :: "'a list \<Rightarrow> 'a \<Rightarrow> 's \<Rightarrow> 's kres" where
  "turns [] h s = Ok s"
| "turns (x # xs) h s = kbind (requeue x h s) (turns xs h)"

lemma turns_rotate:
  assumes "repr s h (xs @ ys)"
  shows "kok (\<lambda>s'. repr s' h (ys @ xs)) (turns xs h s)"
  using assms
proof (induction xs arbitrary: s ys)
  case (Cons x xs)
  have "kok (\<lambda>s'. repr s' h (xs @ ys @ [x])) (requeue x h s)"
    using requeue_law [of s h "[]" x "xs @ ys"] Cons.prems by simp
  then show ?case using Cons.IH [of _ "ys @ [x]"] by (auto simp: kok_def)
qed simp

text \<open>Round robin: giving each process in front its turn brings every process to the front.\<close>

lemma round_robin_fair:
  assumes "repr s h xs" "x \<in> set xs"
  shows "\<exists>k < length xs. kok (\<lambda>s'. \<exists>zs. repr s' h (x # zs)) (turns (take k xs) h s)"
proof -
  obtain k where k: "k < length xs" "xs ! k = x" using assms(2) by (auto simp: in_set_conv_nth)
  have "kok (\<lambda>s'. repr s' h (drop k xs @ take k xs)) (turns (take k xs) h s)"
    using assms(1) by (intro turns_rotate) simp
  moreover have "drop k xs = x # drop (Suc k) xs" using k by (simp add: Cons_nth_drop_Suc [symmetric])
  ultimately show ?thesis using k(1) by (auto elim!: kok_mono intro!: exI [of _ k])
qed

lemma round_robin_cycle:
  assumes "repr s h xs"
  shows "kok (\<lambda>s'. repr s' h xs) (turns xs h s)"
  using turns_rotate [of s h xs "[]"] assms by simp

end

interpretation kl: node_list "ring :: 'n lptr links \<Rightarrow> _" INIT_LIST_HEAD list_add list_add_tail list_del list_empty
proof
  show "distinct (h # xs)" if "ring L h xs" for L :: "'n lptr links" and h xs using that by (simp add: ring_def)
qed (auto intro: INIT_LIST_HEAD_ring list_add_ring list_add_tail_ring list_del_ring simp: list_empty_ring)

section \<open>Properties\<close>


definition pair_ring :: "nat lptr links" where
  "pair_ring = \<lparr>nxt = (\<lambda>a. if a = Node 0 then Node 1 else if a = Node 1 then Node 2 else if a = Node 2 then Node 0 else a),
     prv = (\<lambda>a. if a = Node 0 then Node 2 else if a = Node 1 then Node 0 else if a = Node 2 then Node 1 else a)\<rparr>"

lemma pair_ring_ring: "ring pair_ring (Node 0) [Node 1, Node 2]" "ring pair_ring (Node 9) []"
  by (simp_all add: ring_def pair_ring_def)


text \<open>
  Round robin is fair. When the scheduler puts the process it ran at the end of the group's
  list (\<open>list_del\<close>, \<open>list_add_tail\<close>), then after fewer turns than there are processes any given
  process is in front, and after one turn each the list is as it was.
\<close>

lemma round_robin_list:
  assumes "ring L h xs" and "x \<in> set xs"
  shows "(\<exists>k < length xs. kok (\<lambda>L'. \<exists>zs. ring L' h (x # zs)) (kl.turns (take k xs) h L)) \<and>
    kok (\<lambda>L'. ring L' h xs) (kl.turns xs h L)"
  using kl.round_robin_fair [OF assms] kl.round_robin_cycle [OF assms(1)] by blast

end
