(* ===== verification/Proc_State.thy ===== *)
theory Proc_State
  imports Vm_Copy List_Head
begin

text \<open>
  The process table and sleeping: include/process/process.h, include/cpus.h,
  kernel/scheduler/sleep.c, the pid allocator of kernel/process/process.c, and
  \<open>switch_to_scheduler\<close> and \<open>yield\<close> of kernel/trap/intr_handler.c.

  A pointer to a process is its index in \<open>proc_set\<close>, a pointer to a CPU its index in \<open>cpus\<close>;
  \<open>me\<close> is the CPU that runs (the register \<open>tp\<close>). A sleep channel is a value of \<open>chan\<close>, one
  constructor per object whose address the kernel sleeps on; NULL is \<open>NoChan\<close>. The registers of a
  trap frame are words of memory at its address.
\<close>

section \<open>State\<close>

datatype pstatus = UNUSED | USED | RUNABLE | RUNNING | SLEEP | ZOMBIE

datatype chan =
    NoChan | TickChan | LogChan | BufLockChan nat | InodeLockChan nat | DiskFreeChan | BufChan nat
  | PipeReadChan u64 | PipeWriteChan u64 | CpuMessageChan nat | LinesChan | UartTxChan | UartRxChan
  | RwReadersChan | RwWritersChan

record proc_context =
  ctx_ra :: u64
  ctx_sp :: u64

record process =
  p_pid :: int
  p_status :: pstatus
  p_killed :: bool
  p_xstatus :: int
  p_chain :: chan
  p_parent :: "nat option"
  p_ustack :: u64
  p_mem_start :: u64
  p_mem_brk :: u64
  p_mem_end :: u64
  p_pgtable :: u64
  p_ofile :: "nat option list"
  p_cwd :: "nat option"
  p_kstack :: u64
  p_trap_frame :: u64
  p_context :: proc_context
  p_pgroup_id :: int

record cpu =
  c_cpu_id :: int
  c_pgroup_id :: int
  c_my_proc :: "nat option"

record proc_state = vm_state +
  procs :: "process list"
  pid_set :: "bool list"
  cpus :: "cpu list"
  me :: nat
  tick_count :: u64

abbreviation (input) STATIC_PROC_NUM :: nat where "STATIC_PROC_NUM \<equiv> 64"

abbreviation proc :: "nat \<Rightarrow> 'a proc_state_scheme \<Rightarrow> process" where
  "proc i s \<equiv> procs s ! i"

definition upd_proc :: "nat \<Rightarrow> (process \<Rightarrow> process) \<Rightarrow> 'a proc_state_scheme \<Rightarrow> 'a proc_state_scheme" where
  "upd_proc i f s = s\<lparr>procs := (procs s)[i := f (procs s ! i)]\<rparr>"

definition upd_cpu :: "nat \<Rightarrow> (cpu \<Rightarrow> cpu) \<Rightarrow> 'a proc_state_scheme \<Rightarrow> 'a proc_state_scheme" where
  "upd_cpu i f s = s\<lparr>cpus := (cpus s)[i := f (cpus s ! i)]\<rparr>"

text \<open>\<open>my_proc\<close> reads the field with interrupts off; it leaves the nesting as it was.\<close>

definition my_proc :: "'a proc_state_scheme \<Rightarrow> nat option" where
  "my_proc s = c_my_proc (cpus s ! me s)"

section \<open>Process ids\<close>

definition process_init :: "'a proc_state_scheme \<Rightarrow> 'a proc_state_scheme" where
  "process_init s = s\<lparr>procs := map (\<lambda>p. p\<lparr>p_pid := -1, p_status := UNUSED, p_pgroup_id := -1\<rparr>) (procs s)\<rparr>"

definition alloc_pid :: "'a proc_state_scheme \<Rightarrow> (int \<times> 'a proc_state_scheme) kres" where
  "alloc_pid s =
     kbind (acquire PidLock s) (\<lambda>s.
     case find_index Not (pid_set s) of
       None \<Rightarrow> kbind (release PidLock s) (\<lambda>s. Ok (-1, s))
     | Some i \<Rightarrow>
         kbind (release PidLock (s\<lparr>pid_set := (pid_set s)[i := True]\<rparr>)) (\<lambda>s. Ok (int i, s)))"

definition free_pid :: "int \<Rightarrow> 'a proc_state_scheme \<Rightarrow> 'a proc_state_scheme kres" where
  "free_pid i s =
     kbind (acquire PidLock s) (\<lambda>s.
     if \<not> pid_set s ! nat i then Panic ''free_pid: try to free unused pid''
     else release PidLock (s\<lparr>pid_set := (pid_set s)[nat i := False]\<rparr>))"

section \<open>Giving up the CPU\<close>

text \<open>
  \<open>switch_to_scheduler\<close> panics unless exactly one \<open>push_introff\<close> is open, that is unless the
  process lock is the only spin lock held. The parameter \<open>sw\<close> stands for the context switch: what
  the scheduler and every other process do until this process is switched to again. Callers that
  are modelled up to the point where they wait pass \<open>\<lambda>_. Block\<close>.
\<close>

definition switch_to_scheduler ::
  "('a proc_state_scheme \<Rightarrow> 'a proc_state_scheme kres) \<Rightarrow> 'a proc_state_scheme \<Rightarrow> 'a proc_state_scheme kres" where
  "switch_to_scheduler sw s =
     (if noff s \<noteq> 1 then Panic ''switch_to_scheduler: introff_n != 1'' else sw s)"

definition sleep ::
  "('a proc_state_scheme \<Rightarrow> 'a proc_state_scheme kres) \<Rightarrow> lock_id \<Rightarrow> chan \<Rightarrow>
     'a proc_state_scheme \<Rightarrow> 'a proc_state_scheme kres" where
  "sleep sw lock c s =
     (case my_proc s of
        None \<Rightarrow> Panic ''sleep: no process''
      | Some p \<Rightarrow>
          if p_chain (proc p s) \<noteq> NoChan then Panic ''sleep: sleep when sleeping''
          else
            kbind (if lock \<noteq> ProcLock p then kbind (acquire (ProcLock p) s) (release lock) else Ok s) (\<lambda>s.
            kbind (switch_to_scheduler sw (upd_proc p (\<lambda>q. q\<lparr>p_status := SLEEP, p_chain := c\<rparr>) s)) (\<lambda>s.
            if lock \<noteq> ProcLock p then kbind (release (ProcLock p) s) (acquire lock) else Ok s)))"

text \<open>A caller that runs into a sleep, when nothing of what happens after it is modelled.\<close>

abbreviation sleep_block :: "lock_id \<Rightarrow> chan \<Rightarrow> 'a proc_state_scheme \<Rightarrow> 'b kres" where
  "sleep_block lock c s \<equiv> kbind (sleep (\<lambda>_. Block) lock c s) (\<lambda>_. Block)"

definition wake_up_one :: "chan \<Rightarrow> nat \<Rightarrow> 'a proc_state_scheme \<Rightarrow> 'a proc_state_scheme kres" where
  "wake_up_one c i s =
     kbind (acquire (ProcLock i) s) (\<lambda>s.
     release (ProcLock i)
       (if p_status (proc i s) = SLEEP \<and> p_chain (proc i s) = c
        then upd_proc i (\<lambda>q. q\<lparr>p_status := RUNABLE, p_chain := NoChan\<rparr>) s else s))"

definition wake_up :: "chan \<Rightarrow> 'a proc_state_scheme \<Rightarrow> 'a proc_state_scheme kres" where
  "wake_up c s = kfold (wake_up_one c) [0..<STATIC_PROC_NUM] s"

definition yield ::
  "('a proc_state_scheme \<Rightarrow> 'a proc_state_scheme kres) \<Rightarrow> pstatus \<Rightarrow>
     'a proc_state_scheme \<Rightarrow> 'a proc_state_scheme kres" where
  "yield sw st s =
     (case my_proc s of
        None \<Rightarrow> Panic ''yield: no process''
      | Some p \<Rightarrow>
          kbind (acquire (ProcLock p) s) (\<lambda>s.
          kbind (switch_to_scheduler sw (upd_proc p (\<lambda>q. q\<lparr>p_status := st\<rparr>) s))
            (release (ProcLock p))))"

section \<open>Lemmas\<close>

lemma upd_proc_simps [simp]:
  "held (upd_proc i f s) = held s" "noff (upd_proc i f s) = noff s" "mem (upd_proc i f s) = mem s"
  "cpus (upd_proc i f s) = cpus s" "me (upd_proc i f s) = me s" "pid_set (upd_proc i f s) = pid_set s"
  "length (procs (upd_proc i f s)) = length (procs s)" "my_proc (upd_proc i f s) = my_proc s"
  "tick_count (upd_proc i f s) = tick_count s" "kernel_end (upd_proc i f s) = kernel_end s"
  "mem_head (upd_proc i f s) = mem_head s"
  by (simp_all add: upd_proc_def my_proc_def)

lemma proc_upd_proc:
  "i < length (procs s) \<Longrightarrow> proc j (upd_proc i f s) = (if i = j then f (proc i s) else proc j s)"
  by (simp add: upd_proc_def nth_list_update)

text \<open>What \<open>wake_up\<close> leaves: every sleeper on the channel is runnable, nothing else changed.\<close>

definition woken :: "chan \<Rightarrow> process \<Rightarrow> process" where
  "woken c p = (if p_status p = SLEEP \<and> p_chain p = c then p\<lparr>p_status := RUNABLE, p_chain := NoChan\<rparr> else p)"

lemma woken_idem [simp]: "woken c (woken c p) = woken c p"
  by (simp add: woken_def)

lemma wake_up_one_eq:
  assumes "ProcLock i \<notin> held s" "i < length (procs s)"
  shows "wake_up_one c i s = Ok (s\<lparr>procs := (procs s)[i := woken c (procs s ! i)]\<rparr>)"
proof -
  have "(procs s)[i := procs s ! i] = procs s" by simp
  then show ?thesis using assms by (auto simp: wake_up_one_def lock_simps upd_proc_def woken_def)
qed

lemma wake_up_fold:
  assumes "\<And>i. i < n \<Longrightarrow> ProcLock i \<notin> held s" "n \<le> length (procs s)"
  shows "kfold (wake_up_one c) [0..<n] s = Ok (s\<lparr>procs := map (woken c) (take n (procs s)) @ drop n (procs s)\<rparr>)"
  using assms
proof (induction n)
  case (Suc n)
  let ?t = "s\<lparr>procs := map (woken c) (take n (procs s)) @ drop n (procs s)\<rparr>"
  have n: "n < length (procs s)" using Suc.prems by simp
  have nth: "procs ?t ! n = procs s ! n" using n by (simp add: nth_append)
  have "(procs ?t)[n := woken c (procs s ! n)] = map (woken c) (take (Suc n) (procs s)) @ drop (Suc n) (procs s)"
    using n by (simp add: list_update_append take_Suc_conv_app_nth Cons_nth_drop_Suc [symmetric])
  then show ?case
    using Suc n nth wake_up_one_eq [of n ?t c] by (simp add: kfold_snoc)
qed simp

lemma wake_up_eq:
  assumes "\<And>i. ProcLock i \<notin> held s" "length (procs s) = STATIC_PROC_NUM"
  shows "wake_up c s = Ok (s\<lparr>procs := map (woken c) (procs s)\<rparr>)"
  using wake_up_fold [of 64 s c] assms by (simp add: wake_up_def)

text \<open>A process that holds one spin lock sleeps and is switched to again.\<close>

lemma sleep_through:
  assumes s: "my_proc s = Some p" "p_chain (proc p s) = NoChan" "held s = {l}" "noff s = 1" "l \<noteq> ProcLock p"
    and sw: "sw (upd_proc p (\<lambda>q. q\<lparr>p_status := SLEEP, p_chain := c\<rparr>) (s\<lparr>held := {ProcLock p}, noff := 1\<rparr>)) = Ok t" "held t = {ProcLock p}" "noff t = 1"
  shows "sleep sw l c s = Ok (t\<lparr>held := {l}, noff := 1\<rparr>)"
proof -
  have a: "kbind (acquire (ProcLock p) s) (release l) = Ok (s\<lparr>held := {ProcLock p}, noff := 1\<rparr>)"
  proof -
    have "acquire (ProcLock p) s = Ok (s\<lparr>held := {ProcLock p, l}, noff := 2\<rparr>)" using s by (simp add: lock_simps numeral_2_eq_2)
    moreover have "{ProcLock p, l} - {l} = {ProcLock p}" using s(5) by auto
    ultimately show ?thesis by (simp add: release_held)
  qed
  have b: "kbind (release (ProcLock p) t) (acquire l) = Ok (t\<lparr>held := {l}, noff := 1\<rparr>)" using sw(2,3) s(5) by (simp add: lock_simps)
  have c: "switch_to_scheduler sw (upd_proc p (\<lambda>q. q\<lparr>p_status := SLEEP, p_chain := c\<rparr>) (s\<lparr>held := {ProcLock p}, noff := 1\<rparr>)) = Ok t"
    using sw(1) by (simp add: switch_to_scheduler_def)
  show ?thesis unfolding sleep_def s(1) option.case s(2) by (simp only: a b c s(5) if_True if_False simp_thms kbind.simps)
qed

end
