(* ===== verification/Sleep.thy ===== *)
theory Sleep
  imports Proc_State
begin

text \<open>
  The sleep/wake-up protocol of kernel/scheduler/sleep.c under interleaving.

  Any number of processes share a condition guarded by a spin lock, in the way every client of
  \<open>sleep\<close> and \<open>wake_up\<close> in the kernel uses them (log.c, pipe.c, sleeplock.c, virtio_disk.c, console.c):
  a waiter takes the lock and sleeps while the condition is false, a waker takes the lock, makes
  the condition true and calls \<open>wake_up\<close>. A step is one access to a lock or one of the
  assignments of \<open>sleep\<close>, \<open>wake_up\<close> and the scheduler; steps of different processes and CPUs
  interleave freely.
\<close>

section \<open>The system\<close>

text \<open>
  Where a process is. \<open>Checking\<close> to \<open>Reacquire\<close> are the waiter (\<open>Enter1\<close> holds both locks,
  \<open>Enter2\<close> has released the condition's lock, \<open>Entered\<close> has set status and channel and is about
  to switch, \<open>Asleep\<close> is off its CPU); \<open>Setting\<close> to \<open>Finishing\<close> are the waker, \<open>Waking i\<close> at
  iteration \<open>i\<close> of the loop and \<open>WakingAt i\<close> inside it with the lock of process \<open>i\<close>.
\<close>

datatype ppc = Idle | Checking | Enter1 | Enter2 | Entered | Asleep | Resumed | Reacquire
  | Setting | Waking nat | WakingAt nat | Finishing

record sleep_sys =
  ss_pc :: "nat \<Rightarrow> ppc"
  ss_status :: "nat \<Rightarrow> pstatus"
  ss_chain :: "nat \<Rightarrow> bool"
  ss_cond :: bool
  ss_lk :: "nat option"
  ss_plock :: "nat \<Rightarrow> nat option"

definition init_sleep_sys :: sleep_sys where
  "init_sleep_sys = \<lparr>ss_pc = (\<lambda>_. Idle), ss_status = (\<lambda>_. RUNNING), ss_chain = (\<lambda>_. False),
     ss_cond = False, ss_lk = None, ss_plock = (\<lambda>_. None)\<rparr>"

text \<open>
  \<open>ss_lk\<close> and \<open>ss_plock p\<close> are the owners of the condition's lock and of \<open>proc_set[p].lock\<close>. A
  lock that is switched to the scheduler with a process counts as that process's until
  \<open>run_process\<close> releases it; the scheduler takes the lock of a runnable process and hands it over
  in the same way.
\<close>

inductive sleep_step :: "sleep_sys \<Rightarrow> sleep_sys \<Rightarrow> bool" where
  wait_start: "p < STATIC_PROC_NUM \<Longrightarrow> ss_pc s p = Idle \<Longrightarrow> ss_lk s = None \<Longrightarrow>
     sleep_step s (s\<lparr>ss_lk := Some p, ss_pc := (ss_pc s)(p := Checking)\<rparr>)"
| wait_done: "ss_pc s p = Checking \<Longrightarrow> ss_cond s \<Longrightarrow>
     sleep_step s (s\<lparr>ss_cond := b, ss_lk := None, ss_pc := (ss_pc s)(p := Idle)\<rparr>)"
| sleep_lock: "ss_pc s p = Checking \<Longrightarrow> \<not> ss_cond s \<Longrightarrow> ss_plock s p = None \<Longrightarrow>
     sleep_step s (s\<lparr>ss_plock := (ss_plock s)(p := Some p), ss_pc := (ss_pc s)(p := Enter1)\<rparr>)"
| sleep_unlock: "ss_pc s p = Enter1 \<Longrightarrow>
     sleep_step s (s\<lparr>ss_lk := None, ss_pc := (ss_pc s)(p := Enter2)\<rparr>)"
| sleep_set: "ss_pc s p = Enter2 \<Longrightarrow>
     sleep_step s (s\<lparr>ss_status := (ss_status s)(p := SLEEP), ss_chain := (ss_chain s)(p := True),
       ss_pc := (ss_pc s)(p := Entered)\<rparr>)"
| sleep_switch: "ss_pc s p = Entered \<Longrightarrow>
     sleep_step s (s\<lparr>ss_plock := (ss_plock s)(p := None), ss_pc := (ss_pc s)(p := Asleep)\<rparr>)"
| sched_pick: "ss_pc s p = Asleep \<Longrightarrow> ss_plock s p = None \<Longrightarrow> ss_status s p = RUNABLE \<Longrightarrow>
     sleep_step s (s\<lparr>ss_plock := (ss_plock s)(p := Some p), ss_status := (ss_status s)(p := RUNNING),
       ss_pc := (ss_pc s)(p := Resumed)\<rparr>)"
| sleep_release: "ss_pc s p = Resumed \<Longrightarrow>
     sleep_step s (s\<lparr>ss_plock := (ss_plock s)(p := None), ss_pc := (ss_pc s)(p := Reacquire)\<rparr>)"
| sleep_reacquire: "ss_pc s p = Reacquire \<Longrightarrow> ss_lk s = None \<Longrightarrow>
     sleep_step s (s\<lparr>ss_lk := Some p, ss_pc := (ss_pc s)(p := Checking)\<rparr>)"
| wake_start: "ss_pc s q = Idle \<Longrightarrow> ss_lk s = None \<Longrightarrow>
     sleep_step s (s\<lparr>ss_lk := Some q, ss_pc := (ss_pc s)(q := Setting)\<rparr>)"
| wake_set: "ss_pc s q = Setting \<Longrightarrow>
     sleep_step s (s\<lparr>ss_cond := True, ss_pc := (ss_pc s)(q := Waking 0)\<rparr>)"
| wake_lock: "ss_pc s q = Waking i \<Longrightarrow> i < STATIC_PROC_NUM \<Longrightarrow> ss_plock s i = None \<Longrightarrow>
     sleep_step s (s\<lparr>ss_plock := (ss_plock s)(i := Some q), ss_pc := (ss_pc s)(q := WakingAt i)\<rparr>)"
| wake_one: "ss_pc s q = WakingAt i \<Longrightarrow>
     sleep_step s (s\<lparr>ss_status := (if ss_status s i = SLEEP \<and> ss_chain s i
                                     then (ss_status s)(i := RUNABLE) else ss_status s),
       ss_chain := (if ss_status s i = SLEEP \<and> ss_chain s i then (ss_chain s)(i := False) else ss_chain s),
       ss_plock := (ss_plock s)(i := None), ss_pc := (ss_pc s)(q := Waking (Suc i))\<rparr>)"
| wake_end: "ss_pc s q = Waking STATIC_PROC_NUM \<Longrightarrow>
     sleep_step s (s\<lparr>ss_pc := (ss_pc s)(q := Finishing)\<rparr>)"
| wake_done: "ss_pc s q = Finishing \<Longrightarrow>
     sleep_step s (s\<lparr>ss_lk := None, ss_pc := (ss_pc s)(q := Idle)\<rparr>)"

inductive sleep_reachable :: "sleep_sys \<Rightarrow> bool" where
  start: "sleep_reachable init_sleep_sys"
| step: "sleep_reachable s \<Longrightarrow> sleep_step s t \<Longrightarrow> sleep_reachable t"

section \<open>Invariant\<close>

fun owns_lk :: "ppc \<Rightarrow> bool" where
  "owns_lk Checking = True"
| "owns_lk Enter1 = True"
| "owns_lk Setting = True"
| "owns_lk (Waking i) = True"
| "owns_lk (WakingAt i) = True"
| "owns_lk Finishing = True"
| "owns_lk _ = False"

fun owned_plock :: "nat \<Rightarrow> ppc \<Rightarrow> nat option" where
  "owned_plock p Enter1 = Some p"
| "owned_plock p Enter2 = Some p"
| "owned_plock p Entered = Some p"
| "owned_plock p Resumed = Some p"
| "owned_plock p (WakingAt i) = Some i"
| "owned_plock p _ = None"

text \<open>Ownership of the locks follows from where the processes are.\<close>

definition lk_inv :: "(nat \<Rightarrow> ppc) \<Rightarrow> nat option \<Rightarrow> bool" where
  "lk_inv at lk \<longleftrightarrow> (\<forall>p. lk = Some p \<longleftrightarrow> owns_lk (at p))"

definition plock_inv :: "(nat \<Rightarrow> ppc) \<Rightarrow> (nat \<Rightarrow> nat option) \<Rightarrow> bool" where
  "plock_inv at pl \<longleftrightarrow> (\<forall>p q. pl p = Some q \<longleftrightarrow> owned_plock q (at q) = Some p)"

definition locks_ok :: "sleep_sys \<Rightarrow> bool" where
  "locks_ok s \<longleftrightarrow> lk_inv (ss_pc s) (ss_lk s) \<and> plock_inv (ss_pc s) (ss_plock s)"

lemma lk_inv_keep: "lk_inv at lk \<Longrightarrow> owns_lk c = owns_lk (at p) \<Longrightarrow> lk_inv (at(p := c)) lk"
  by (auto simp: lk_inv_def)

lemma lk_inv_take: "lk_inv at None \<Longrightarrow> owns_lk c \<Longrightarrow> lk_inv (at(p := c)) (Some p)"
  by (auto simp: lk_inv_def)

lemma lk_inv_drop:
  assumes "lk_inv at lk" "owns_lk (at p)" "\<not> owns_lk c"
  shows "lk_inv (at(p := c)) None"
proof -
  have "lk = Some p" using assms(1,2) by (simp add: lk_inv_def)
  then have "q \<noteq> p \<Longrightarrow> \<not> owns_lk (at q)" for q using assms(1) by (auto simp: lk_inv_def)
  then show ?thesis using assms(3) by (simp add: lk_inv_def)
qed

lemma plock_inv_keep:
  "plock_inv at pl \<Longrightarrow> owned_plock p c = owned_plock p (at p) \<Longrightarrow> plock_inv (at(p := c)) pl"
  by (simp add: plock_inv_def)

lemma plock_inv_take:
  assumes "plock_inv at pl" "pl i = None" "owned_plock q c = Some i" "owned_plock q (at q) = None"
  shows "plock_inv (at(q := c)) (pl(i := Some q))"
  using assms unfolding plock_inv_def by (auto, metis option.distinct(1))

lemma plock_inv_drop:
  assumes "plock_inv at pl" "owned_plock q (at q) = Some i" "owned_plock q c = None"
  shows "plock_inv (at(q := c)) (pl(i := None))"
  using assms unfolding plock_inv_def by (auto, (metis option.inject)+)

lemma locks_ok_step: "sleep_step s t \<Longrightarrow> locks_ok s \<Longrightarrow> locks_ok t"
  by (cases rule: sleep_step.cases, assumption)
     (auto simp: locks_ok_def intro: lk_inv_keep lk_inv_take lk_inv_drop
        plock_inv_keep plock_inv_take plock_inv_drop)

text \<open>What status and channel of a process can be, by where it is.\<close>

fun proc_ok :: "ppc \<Rightarrow> pstatus \<Rightarrow> bool \<Rightarrow> bool" where
  "proc_ok Entered st ch = (st = SLEEP \<and> ch)"
| "proc_ok Asleep st ch = (st = SLEEP \<and> ch \<or> st = RUNABLE \<and> \<not> ch)"
| "proc_ok _ st ch = (st = RUNNING \<and> \<not> ch)"

definition status_ok :: "sleep_sys \<Rightarrow> bool" where
  "status_ok s \<longleftrightarrow> (\<forall>p. proc_ok (ss_pc s p) (ss_status s p) (ss_chain s p))"

lemma proc_ok_asleep: "proc_ok c SLEEP ch \<Longrightarrow> c = Entered \<or> c = Asleep"
  by (cases c) auto

lemma status_ok_D: "status_ok s \<Longrightarrow> ss_pc s p = c \<Longrightarrow> proc_ok c (ss_status s p) (ss_chain s p)"
  by (auto simp: status_ok_def)

text \<open>Only a process that is off its CPU can have its status changed by \<open>wake_up\<close>.\<close>

lemma wake_target_asleep:
  assumes "locks_ok s" "status_ok s" "ss_pc s q = WakingAt i" "ss_status s i = SLEEP"
  shows "ss_pc s i = Asleep"
proof -
  have "proc_ok (ss_pc s i) SLEEP (ss_chain s i)" using assms(2,4) by (metis status_ok_D)
  then consider "ss_pc s i = Entered" | "ss_pc s i = Asleep" using proc_ok_asleep by blast
  then show ?thesis
  proof cases
    case 1
    then have "ss_plock s i = Some i" "ss_plock s i = Some q"
      using assms(1,3) by (simp_all add: locks_ok_def plock_inv_def)
    then show ?thesis using 1 assms(3) by simp
  qed
qed

lemma status_ok_step:
  assumes "sleep_step s t" "status_ok s" "locks_ok s"
  shows "status_ok t"
  using assms
proof (cases rule: sleep_step.cases)
  case (wake_one q i)
  then show ?thesis
    using wake_target_asleep [OF assms(3,2), of q i] status_ok_D [OF assms(2), of q "WakingAt i"] assms(2)
    by (auto simp: status_ok_def)
qed (use assms(2) in \<open>auto simp: status_ok_def dest: status_ok_D [OF assms(2)]\<close>)

text \<open>A waker in its loop that has not passed process \<open>p\<close> yet.\<close>

definition wake_coming :: "sleep_sys \<Rightarrow> nat \<Rightarrow> bool" where
  "wake_coming s p \<longleftrightarrow> (\<exists>q i. (ss_pc s q = Waking i \<or> ss_pc s q = WakingAt i) \<and> i \<le> p)"

definition no_loss :: "sleep_sys \<Rightarrow> bool" where
  "no_loss s \<longleftrightarrow> (\<forall>p.
     (ss_pc s p = Enter1 \<longrightarrow> \<not> ss_cond s) \<and>
     (ss_pc s p = Enter2 \<or> ss_status s p = SLEEP \<longrightarrow> p < STATIC_PROC_NUM \<and> (ss_cond s \<longrightarrow> wake_coming s p)) \<and>
     (ss_pc s p = Checking \<or> ss_pc s p = Enter1 \<longrightarrow> p < STATIC_PROC_NUM) \<and>
     (ss_pc s p = Asleep \<or> ss_pc s p = Resumed \<or> ss_pc s p = Reacquire \<longrightarrow> p < STATIC_PROC_NUM))"

lemma no_loss_D:
  assumes "no_loss s"
  shows "ss_pc s p = Enter1 \<Longrightarrow> \<not> ss_cond s"
    "ss_pc s p = Enter2 \<Longrightarrow> ss_cond s \<Longrightarrow> wake_coming s p"
    "ss_status s p = SLEEP \<Longrightarrow> ss_cond s \<Longrightarrow> wake_coming s p"
  using assms by (auto simp: no_loss_def)

lemma wake_coming_other:
  assumes "wake_coming s p" "\<And>i. ss_pc s q \<noteq> Waking i" "\<And>i. ss_pc s q \<noteq> WakingAt i"
    "ss_pc t = (ss_pc s)(q := c)"
  shows "wake_coming t p"
proof -
  from assms(1) obtain r i where r: "ss_pc s r = Waking i \<or> ss_pc s r = WakingAt i" "i \<le> p"
    by (auto simp: wake_coming_def)
  then have "r \<noteq> q" using assms(2,3) by auto
  then show ?thesis using r assms(4) by (auto simp: wake_coming_def)
qed

lemma wake_coming_self: "ss_pc t q = Waking i \<or> ss_pc t q = WakingAt i \<Longrightarrow> i \<le> p \<Longrightarrow> wake_coming t p"
  by (auto simp: wake_coming_def)

text \<open>Only the owner of the condition's lock is a waker in its loop.\<close>

lemma wake_coming_owner:
  assumes "wake_coming s p" "locks_ok s" "owns_lk (ss_pc s q)"
  shows "\<exists>i. (ss_pc s q = Waking i \<or> ss_pc s q = WakingAt i) \<and> i \<le> p"
proof -
  from assms(1) obtain r i where r: "ss_pc s r = Waking i \<or> ss_pc s r = WakingAt i" "i \<le> p"
    by (auto simp: wake_coming_def)
  then have "owns_lk (ss_pc s r)" by auto
  then have "ss_lk s = Some r" "ss_lk s = Some q" using assms(2,3) by (auto simp: locks_ok_def lk_inv_def)
  then have "r = q" by simp
  then show ?thesis using r by blast
qed

lemma wake_coming_free: "wake_coming s p \<Longrightarrow> locks_ok s \<Longrightarrow> ss_lk s \<noteq> None"
  by (auto simp: wake_coming_def locks_ok_def lk_inv_def)
     (metis owns_lk.simps(4,5))+

text \<open>A state in which nobody is in the loop of \<open>wake_up\<close>: the condition is false or nobody sleeps.\<close>

lemma no_loss_quiet:
  assumes "no_loss s" "locks_ok s" "ss_lk s = None \<or> (\<exists>q. owns_lk (ss_pc s q) \<and>
    (\<forall>i. ss_pc s q \<noteq> Waking i \<and> ss_pc s q \<noteq> WakingAt i))"
  shows "ss_cond s \<Longrightarrow> ss_pc s p \<noteq> Enter2 \<and> ss_status s p \<noteq> SLEEP"
proof -
  assume c: "ss_cond s"
  have "\<not> wake_coming s p"
    using assms(2,3) wake_coming_free [of s p] wake_coming_owner [of s p] by blast
  then show ?thesis using no_loss_D(2,3) [OF assms(1)] c by blast
qed

lemma no_loss_step:
  assumes st: "sleep_step s t" and nl: "no_loss s" and lo: "locks_ok s" and so: "status_ok s"
  shows "no_loss t"
  using st
proof (cases rule: sleep_step.cases)
  case (wait_start p)
  then show ?thesis using no_loss_quiet [OF nl lo] nl by (auto simp: no_loss_def)
next
  case (wait_done p b)
  then have "ss_pc s p' \<noteq> Enter2 \<and> ss_status s p' \<noteq> SLEEP" for p'
    by (intro no_loss_quiet [OF nl lo] disjI2 exI [of _ p]) auto
  then show ?thesis using wait_done nl by (auto simp: no_loss_def)
next
  case (sleep_set p)
  then show ?thesis using nl wake_coming_other [of s _ p t] by (auto simp: no_loss_def)
next
  case (sleep_reacquire p)
  then show ?thesis using no_loss_quiet [OF nl lo] nl by (auto simp: no_loss_def)
next
  case (wake_start q)
  then show ?thesis using no_loss_quiet [OF nl lo] nl by (auto simp: no_loss_def)
next
  case (wake_set q)
  have "wake_coming t p" for p using wake_set wake_coming_self [of t q 0 p] by simp
  moreover have "ss_pc t p \<noteq> Enter1" for p
  proof
    assume "ss_pc t p = Enter1"
    then have "p \<noteq> q" "ss_pc s p = Enter1" using wake_set by (auto split: if_splits)
    then have "ss_lk s = Some p" "ss_lk s = Some q"
      using lo wake_set by (auto simp: locks_ok_def lk_inv_def)
    then show False using \<open>p \<noteq> q\<close> by simp
  qed
  ultimately show ?thesis using nl wake_set by (auto simp: no_loss_def)
next
  case (wake_lock q i)
  have "wake_coming t p" if "wake_coming s p" for p
    using wake_coming_owner [OF that lo, of q] wake_lock wake_coming_self [of t q i p] by auto
  then show ?thesis using nl wake_lock by (auto simp: no_loss_def)
next
  case (wake_one q i)
  have up: "wake_coming t p" if "wake_coming s p" "p \<noteq> i" for p
    using wake_coming_owner [OF that(1) lo, of q] wake_one wake_coming_self [of t q "Suc i" p] that(2) by auto
  have pl: "ss_plock s i = Some q" using lo wake_one by (simp add: locks_ok_def plock_inv_def)
  have "ss_pc s i = Enter2 \<Longrightarrow> ss_plock s i = Some i"
    using lo by (simp add: locks_ok_def plock_inv_def)
  then have "ss_pc s i = Enter2 \<Longrightarrow> q = i" using pl by simp
  then have "ss_pc t i \<noteq> Enter2" using wake_one(2) by (cases "i = q") (auto simp: wake_one(1))
  moreover have "ss_status t i \<noteq> SLEEP"
    using wake_target_asleep [OF lo so wake_one(2)] status_ok_D [OF so, of i Asleep] wake_one by auto
  ultimately show ?thesis
    using nl wake_one up by (auto simp: no_loss_def split: if_splits)
next
  case (wake_end q)
  have "\<not> ss_cond s" if "ss_pc s p = Enter2 \<or> ss_status s p = SLEEP" for p
  proof
    assume "ss_cond s"
    then have "wake_coming s p" "p < STATIC_PROC_NUM" using that nl by (auto simp: no_loss_def)
    then show False using wake_coming_owner [OF _ lo, of p q] wake_end by auto
  qed
  then show ?thesis using nl wake_end by (auto simp: no_loss_def)
next
  case (wake_done q)
  then have "ss_cond s \<Longrightarrow> ss_pc s p \<noteq> Enter2 \<and> ss_status s p \<noteq> SLEEP" for p
    by (intro no_loss_quiet [OF nl lo] disjI2 exI [of _ q]) auto
  then show ?thesis using wake_done nl by (auto simp: no_loss_def)
next
  case (sleep_lock p)
  then show ?thesis using nl by (auto simp: no_loss_def)
next
  case (sleep_unlock p)
  then show ?thesis using nl by (auto simp: no_loss_def)
next
  case (sleep_switch p)
  then have "ss_status s p = SLEEP" using status_ok_D [OF so, of p Entered] by simp
  then show ?thesis using sleep_switch nl wake_coming_other [of s _ p t] by (auto simp: no_loss_def)
next
  case (sched_pick p)
  then show ?thesis using nl wake_coming_other [of s _ p t] by (auto simp: no_loss_def)
next
  case (sleep_release p)
  then show ?thesis using nl wake_coming_other [of s _ p t] by (auto simp: no_loss_def)
qed

lemma sleep_reachable_inv: "sleep_reachable s \<Longrightarrow> locks_ok s \<and> status_ok s \<and> no_loss s"
proof (induction rule: sleep_reachable.induct)
  case start
  show ?case
    by (simp add: locks_ok_def lk_inv_def plock_inv_def status_ok_def no_loss_def init_sleep_sys_def)
next
  case (step s t)
  then show ?case using locks_ok_step status_ok_step no_loss_step by blast
qed

section \<open>Property\<close>

text \<open>
  C11: no wake-up is lost. In every state the processes and CPUs can reach by any interleaving of
  the steps of \<open>sleep\<close>, \<open>wake_up\<close> and the scheduler: a process that sleeps although the condition
  is true is still ahead of a waker that is in the loop of \<open>wake_up\<close> and holds the condition's lock;
  so once the lock is free again nobody sleeps on a true condition. A waiter that is about to call
  \<open>sleep\<close> has no channel set, so the panic "sleep when sleeping" is never taken.
\<close>

theorem no_lost_wakeup:
  assumes "sleep_reachable s"
  shows "(ss_status s p = SLEEP \<and> ss_cond s \<longrightarrow>
           (\<exists>q i. ss_lk s = Some q \<and> (ss_pc s q = Waking i \<or> ss_pc s q = WakingAt i) \<and> i \<le> p)) \<and>
         (ss_lk s = None \<and> ss_cond s \<longrightarrow> ss_status s p \<noteq> SLEEP) \<and>
         (ss_pc s p = Checking \<longrightarrow> \<not> ss_chain s p)"
proof -
  have inv: "locks_ok s" "status_ok s" "no_loss s" using sleep_reachable_inv [OF assms] by auto
  have "\<exists>q i. ss_lk s = Some q \<and> (ss_pc s q = Waking i \<or> ss_pc s q = WakingAt i) \<and> i \<le> p"
    if "ss_status s p = SLEEP" "ss_cond s"
  proof -
    have w: "wake_coming s p" using no_loss_D(3) [OF inv(3) that] .
    then obtain q where q: "ss_lk s = Some q" using wake_coming_free [OF w inv(1)] by auto
    then have "owns_lk (ss_pc s q)" using inv(1) by (auto simp: locks_ok_def lk_inv_def)
    then show ?thesis using wake_coming_owner [OF w inv(1)] q by blast
  qed
  moreover have "ss_pc s p = Checking \<Longrightarrow> \<not> ss_chain s p"
    using status_ok_D [OF inv(2), of p Checking] by simp
  ultimately show ?thesis by auto
qed

theorem no_lost_wakeup_witness:
  "\<exists>s. sleep_reachable s \<and> ss_status s 0 = SLEEP \<and> ss_cond s \<and>
     (\<exists>q i. ss_lk s = Some q \<and> (ss_pc s q = Waking i \<or> ss_pc s q = WakingAt i) \<and> i \<le> 0)"
proof -
  note step = sleep_reachable.step [OF _ sleep_step.wait_start [of 0]]
    sleep_reachable.step [OF _ sleep_step.sleep_lock [of _ 0]]
    sleep_reachable.step [OF _ sleep_step.sleep_unlock [of _ 0]]
    sleep_reachable.step [OF _ sleep_step.sleep_set [of _ 0]]
    sleep_reachable.step [OF _ sleep_step.wake_start [of _ 1]]
    sleep_reachable.step [OF _ sleep_step.wake_set [of _ 1]]
  define s where "s = init_sleep_sys\<lparr>ss_lk := Some 1, ss_cond := True, ss_plock := (\<lambda>_. None)(0 := Some 0),
    ss_status := (\<lambda>_. RUNNING)(0 := SLEEP), ss_chain := (\<lambda>_. False)(0 := True),
    ss_pc := (\<lambda>_. Idle)(0 := Entered, 1 := Waking 0)\<rparr>"
  have "sleep_reachable init_sleep_sys" by (rule sleep_reachable.start)
  note step(1) [OF this]
  then have "sleep_reachable (init_sleep_sys\<lparr>ss_lk := Some 0, ss_pc := (\<lambda>_. Idle)(0 := Checking)\<rparr>)"
    by (simp add: init_sleep_sys_def)
  note step(2) [OF this]
  then have "sleep_reachable (init_sleep_sys\<lparr>ss_lk := Some 0, ss_plock := (\<lambda>_. None)(0 := Some 0),
      ss_pc := (\<lambda>_. Idle)(0 := Enter1)\<rparr>)"
    by (simp add: init_sleep_sys_def)
  note step(3) [OF this]
  then have "sleep_reachable (init_sleep_sys\<lparr>ss_plock := (\<lambda>_. None)(0 := Some 0),
      ss_pc := (\<lambda>_. Idle)(0 := Enter2)\<rparr>)"
    by (simp add: init_sleep_sys_def)
  note step(4) [OF this]
  then have "sleep_reachable (init_sleep_sys\<lparr>ss_plock := (\<lambda>_. None)(0 := Some 0),
      ss_status := (\<lambda>_. RUNNING)(0 := SLEEP), ss_chain := (\<lambda>_. False)(0 := True),
      ss_pc := (\<lambda>_. Idle)(0 := Entered)\<rparr>)"
    by (simp add: init_sleep_sys_def)
  note step(6) [OF step(5) [OF this]]
  then have r: "sleep_reachable s"
    by (simp add: init_sleep_sys_def s_def)
  have a: "ss_status s 0 = SLEEP" "ss_cond s" by (simp_all add: s_def)
  show ?thesis using r a no_lost_wakeup [OF r, of 0] by blast
qed

end
