(* ===== verification/Rw_Lock.thy ===== *)
theory Rw_Lock
  imports Sleep
begin

text \<open>
  The reader/writer lock of kernel/lock/rw_r_lock.c.

  The bodies that run under \<open>rw->lock\<close> are functions on the lock's fields; the kernel functions
  wrap them in \<open>acquire_spin_lock\<close>, \<open>sleep\<close>, \<open>wake_up\<close> and \<open>release_spin_lock\<close>. Readers sleep on
  \<open>&rw->write_wait_count\<close> (\<open>RwReadersChan\<close>), writers on \<open>&rw->read_count\<close> (\<open>RwWritersChan\<close>).
\<close>

section \<open>The lock\<close>

record rw_r_lock =
  read_count :: int
  write_active :: int
  write_wait_count :: int

definition init_rw_r_lock :: rw_r_lock where
  "init_rw_r_lock = \<lparr>read_count = 0, write_active = 0, write_wait_count = 0\<rparr>"

text \<open>The guards of the two loops, negated: the caller may go on.\<close>

definition may_read :: "rw_r_lock \<Rightarrow> bool" where
  "may_read rw \<longleftrightarrow> \<not> (write_active rw \<noteq> 0 \<or> write_wait_count rw > 0)"

definition may_write :: "rw_r_lock \<Rightarrow> bool" where
  "may_write rw \<longleftrightarrow> \<not> (read_count rw > 0 \<or> write_active rw \<noteq> 0)"

definition start_read :: "rw_r_lock \<Rightarrow> rw_r_lock" where
  "start_read rw = rw\<lparr>read_count := read_count rw + 1\<rparr>"

definition want_write :: "rw_r_lock \<Rightarrow> rw_r_lock" where
  "want_write rw = rw\<lparr>write_wait_count := write_wait_count rw + 1\<rparr>"

definition start_write :: "rw_r_lock \<Rightarrow> rw_r_lock" where
  "start_write rw = rw\<lparr>write_active := 1, write_wait_count := write_wait_count rw - 1\<rparr>"

text \<open>The bodies of the release functions give the new fields and the channel to wake up.\<close>

definition end_read :: "rw_r_lock \<Rightarrow> (rw_r_lock \<times> chan option) kres" where
  "end_read rw =
     (if write_active rw \<noteq> 0 \<or> read_count rw = 0 then Panic ''read_unlock: we should be reading''
      else
        let rw = rw\<lparr>read_count := read_count rw - 1\<rparr>
        in Ok (rw, if read_count rw = 0 \<and> write_wait_count rw > 0 then Some RwWritersChan else None))"

definition end_write :: "rw_r_lock \<Rightarrow> (rw_r_lock \<times> chan option) kres" where
  "end_write rw =
     (if write_active rw = 0 \<or> read_count rw > 0 then Panic ''write_unlock: we should be writting''
      else
        let rw = rw\<lparr>write_active := 0\<rparr>
        in Ok (rw, Some (if write_wait_count rw > 0 then RwWritersChan else RwReadersChan)))"

section \<open>The kernel functions\<close>

record rw_state = proc_state +
  rw_lock :: rw_r_lock

definition acquire_rw_r_read_lock :: "'a rw_state_scheme \<Rightarrow> 'a rw_state_scheme kres" where
  "acquire_rw_r_read_lock s =
     kbind (acquire RwLk s) (\<lambda>s.
     if \<not> may_read (rw_lock s) then sleep_block RwLk RwReadersChan s
     else release RwLk (s\<lparr>rw_lock := start_read (rw_lock s)\<rparr>))"

definition acquire_rw_r_write_lock :: "'a rw_state_scheme \<Rightarrow> 'a rw_state_scheme kres" where
  "acquire_rw_r_write_lock s =
     kbind (acquire RwLk s) (\<lambda>s.
     let s = s\<lparr>rw_lock := want_write (rw_lock s)\<rparr>
     in if \<not> may_write (rw_lock s) then sleep_block RwLk RwWritersChan s
        else release RwLk (s\<lparr>rw_lock := start_write (rw_lock s)\<rparr>))"

definition wake_up_opt :: "chan option \<Rightarrow> 'a proc_state_scheme \<Rightarrow> 'a proc_state_scheme kres" where
  "wake_up_opt c s = (case c of None \<Rightarrow> Ok s | Some c \<Rightarrow> wake_up c s)"

definition release_rw_r_read_lock :: "'a rw_state_scheme \<Rightarrow> 'a rw_state_scheme kres" where
  "release_rw_r_read_lock s =
     kbind (acquire RwLk s) (\<lambda>s.
     kbind (end_read (rw_lock s)) (\<lambda>(rw, c).
     kbind (wake_up_opt c (s\<lparr>rw_lock := rw\<rparr>)) (release RwLk)))"

definition release_rw_r_write_lock :: "'a rw_state_scheme \<Rightarrow> 'a rw_state_scheme kres" where
  "release_rw_r_write_lock s =
     kbind (acquire RwLk s) (\<lambda>s.
     kbind (end_write (rw_lock s)) (\<lambda>(rw, c).
     kbind (wake_up_opt c (s\<lparr>rw_lock := rw\<rparr>)) (release RwLk)))"

section \<open>Processes that use the lock\<close>

text \<open>
  Processes take and release the lock in any order. Everything between two sleeps runs under the
  spin lock, so it is one step. A process asleep on a channel is \<open>RSleep\<close> or \<open>WSleep\<close>, a woken one
  that has not run again is \<open>RWoken\<close> or \<open>WWoken\<close>.
\<close>

datatype rw_pc = RwIdle | RSleep | RWoken | Reading | WSleep | WWoken | Writing

fun rw_wake :: "chan option \<Rightarrow> rw_pc \<Rightarrow> rw_pc" where
  "rw_wake (Some RwReadersChan) RSleep = RWoken"
| "rw_wake (Some RwWritersChan) WSleep = WWoken"
| "rw_wake _ c = c"

inductive rw_step :: "rw_r_lock \<times> rw_pc list \<Rightarrow> rw_r_lock \<times> rw_pc list \<Rightarrow> bool" where
  rd: "p < length ps \<Longrightarrow> ps ! p = RwIdle \<or> ps ! p = RWoken \<Longrightarrow> may_read rw \<Longrightarrow>
     rw_step (rw, ps) (start_read rw, ps[p := Reading])"
| rd_sleep: "p < length ps \<Longrightarrow> ps ! p = RwIdle \<or> ps ! p = RWoken \<Longrightarrow> \<not> may_read rw \<Longrightarrow>
     rw_step (rw, ps) (rw, ps[p := RSleep])"
| wr: "p < length ps \<Longrightarrow> ps ! p = RwIdle \<Longrightarrow> may_write (want_write rw) \<Longrightarrow>
     rw_step (rw, ps) (start_write (want_write rw), ps[p := Writing])"
| wr_sleep: "p < length ps \<Longrightarrow> ps ! p = RwIdle \<Longrightarrow> \<not> may_write (want_write rw) \<Longrightarrow>
     rw_step (rw, ps) (want_write rw, ps[p := WSleep])"
| rewr: "p < length ps \<Longrightarrow> ps ! p = WWoken \<Longrightarrow> may_write rw \<Longrightarrow>
     rw_step (rw, ps) (start_write rw, ps[p := Writing])"
| rewr_sleep: "p < length ps \<Longrightarrow> ps ! p = WWoken \<Longrightarrow> \<not> may_write rw \<Longrightarrow>
     rw_step (rw, ps) (rw, ps[p := WSleep])"
| unrd: "p < length ps \<Longrightarrow> ps ! p = Reading \<Longrightarrow> end_read rw = Ok (rw', c) \<Longrightarrow>
     rw_step (rw, ps) (rw', map (rw_wake c) (ps[p := RwIdle]))"
| unwr: "p < length ps \<Longrightarrow> ps ! p = Writing \<Longrightarrow> end_write rw = Ok (rw', c) \<Longrightarrow>
     rw_step (rw, ps) (rw', map (rw_wake c) (ps[p := RwIdle]))"

inductive rw_reachable :: "rw_r_lock \<times> rw_pc list \<Rightarrow> bool" where
  start: "rw_reachable (init_rw_r_lock, replicate n RwIdle)"
| step: "rw_reachable x \<Longrightarrow> rw_step x y \<Longrightarrow> rw_reachable y"

section \<open>Invariant\<close>

definition cnt :: "(rw_pc \<Rightarrow> bool) \<Rightarrow> rw_pc list \<Rightarrow> int" where
  "cnt P ps = int (length (filter P ps))"

lemma cnt_update:
  assumes "p < length ps"
  shows "cnt P (ps[p := c]) = cnt P ps - (if P (ps ! p) then 1 else 0) + (if P c then 1 else 0)"
  using assms
proof (induction ps arbitrary: p)
  case (Cons a ps)
  show ?case
  proof (cases p)
    case (Suc q)
    then show ?thesis using Cons.IH [of q] Cons.prems by (auto simp: cnt_def split: if_splits)
  qed (simp add: cnt_def)
qed simp

lemma cnt_map: "(\<And>x. P (f x) = P x) \<Longrightarrow> cnt P (map f ps) = cnt P ps"
  by (simp add: cnt_def filter_map comp_def)

lemma cnt_nonneg [simp]: "0 \<le> cnt P ps"
  by (simp add: cnt_def)

lemma cnt_zero [simp]: "\<not> 0 < cnt P ps \<longleftrightarrow> cnt P ps = 0" "cnt P ps \<le> 0 \<longleftrightarrow> cnt P ps = 0"
  using cnt_nonneg [of P ps] by linarith+

lemma cnt_pos: "0 < cnt P ps \<longleftrightarrow> (\<exists>c \<in> set ps. P c)"
  by (auto simp: cnt_def filter_empty_conv)

definition waiting_write :: "rw_pc \<Rightarrow> bool" where
  "waiting_write c \<longleftrightarrow> c = WSleep \<or> c = WWoken"

definition rw_inv :: "rw_r_lock \<times> rw_pc list \<Rightarrow> bool" where
  "rw_inv x \<longleftrightarrow> (let (rw, ps) = x in
     read_count rw = cnt (\<lambda>c. c = Reading) ps \<and>
     write_active rw = cnt (\<lambda>c. c = Writing) ps \<and>
     write_wait_count rw = cnt waiting_write ps \<and>
     write_active rw \<le> 1 \<and> (write_active rw = 1 \<longrightarrow> read_count rw = 0) \<and>
     (RSleep \<in> set ps \<longrightarrow> \<not> may_read rw) \<and>
     (WSleep \<in> set ps \<longrightarrow> \<not> may_write rw \<or> WWoken \<in> set ps))"

lemma mem_update: "p < length ps \<Longrightarrow> c \<in> set (ps[p := c])"
  by (metis length_list_update nth_list_update_eq nth_mem)

lemma mem_update_other:
  assumes "x \<in> set (ps[p := c])" "x \<noteq> c"
  shows "x \<in> set ps"
  using assms set_update_subset_insert [of ps p c] by auto

lemma mem_update_keep:
  assumes "x \<in> set ps" "p < length ps" "ps ! p \<noteq> x"
  shows "x \<in> set (ps[p := c])"
proof -
  obtain i where "i < length ps" "ps ! i = x" using assms(1) by (auto simp: in_set_conv_nth)
  moreover have "i \<noteq> p" using calculation assms(3) by auto
  ultimately have "ps[p := c] ! i = x" "i < length (ps[p := c])" by auto
  then show ?thesis by (metis nth_mem)
qed

lemma rw_wake_writers: "rw_wake (Some RwWritersChan) x \<noteq> WSleep"
  by (cases x) auto

lemma rw_wake_readers: "rw_wake (Some RwReadersChan) x \<noteq> RSleep"
  by (cases x) auto

lemma rw_wake_iff [simp]:
  "rw_wake c x = Reading \<longleftrightarrow> x = Reading" "rw_wake c x = Writing \<longleftrightarrow> x = Writing"
  "waiting_write (rw_wake c x) = waiting_write x"
  "rw_wake None x = x"
  by (induction c x rule: rw_wake.induct; simp add: waiting_write_def)+

lemma rw_wake_keep [simp]:
  "rw_wake (Some RwReadersChan) x = WSleep \<longleftrightarrow> x = WSleep"
  "rw_wake (Some RwReadersChan) x = WWoken \<longleftrightarrow> x = WWoken"
  "rw_wake (Some RwWritersChan) x = RSleep \<longleftrightarrow> x = RSleep"
  by (cases x; simp)+

lemmas rw_body_defs = may_read_def may_write_def start_read_def want_write_def start_write_def
  end_read_def end_write_def Let_def

lemma rw_inv_init: "rw_inv (init_rw_r_lock, replicate n RwIdle)"
  by (simp add: rw_inv_def init_rw_r_lock_def cnt_def waiting_write_def)

lemma rw_inv_step:
  assumes "rw_step x y" "rw_inv x"
  shows "rw_inv y"
  using assms
proof (induction rule: rw_step.induct)
  case (rd p ps rw)
  then show ?case
    by (auto simp: rw_inv_def rw_body_defs cnt_update waiting_write_def dest!: mem_update_other)
next
  case (rd_sleep p ps rw)
  then show ?case
    by (auto simp: rw_inv_def cnt_update waiting_write_def dest!: mem_update_other intro: mem_update_keep)
next
  case (wr p ps rw)
  then show ?case
    by (auto simp: rw_inv_def rw_body_defs cnt_update waiting_write_def dest!: mem_update_other)
next
  case (wr_sleep p ps rw)
  then show ?case
    by (auto simp: rw_inv_def rw_body_defs cnt_update waiting_write_def dest!: mem_update_other)
next
  case (rewr p ps rw)
  then show ?case
    by (auto simp: rw_inv_def rw_body_defs cnt_update waiting_write_def dest!: mem_update_other)
next
  case (rewr_sleep p ps rw)
  then show ?case
    by (auto simp: rw_inv_def cnt_update waiting_write_def dest!: mem_update_other)
next
  case (unrd p ps rw rw' c)
  note inv = unrd(4)
  let ?qs = "ps[p := RwIdle]"
  have e: "write_active rw = 0" "rw' = rw\<lparr>read_count := read_count rw - 1\<rparr>"
    "c = (if read_count rw - 1 = 0 \<and> write_wait_count rw > 0 then Some RwWritersChan else None)"
    using unrd(3) by (auto simp: end_read_def Let_def split: if_splits)
  have c: "cnt (\<lambda>c. c = Reading) ?qs = cnt (\<lambda>c. c = Reading) ps - 1"
    "cnt (\<lambda>c. c = Writing) ?qs = cnt (\<lambda>c. c = Writing) ps" "cnt waiting_write ?qs = cnt waiting_write ps"
    using unrd(1,2) by (simp_all add: cnt_update waiting_write_def)
  have counts: "read_count rw' = cnt (\<lambda>c. c = Reading) (map (rw_wake c) ?qs) \<and>
    write_active rw' = cnt (\<lambda>c. c = Writing) (map (rw_wake c) ?qs) \<and>
    write_wait_count rw' = cnt waiting_write (map (rw_wake c) ?qs) \<and> write_active rw' \<le> 1 \<and>
    (write_active rw' = 1 \<longrightarrow> read_count rw' = 0)"
    using inv e(1,2) by (simp add: cnt_map c rw_inv_def)
  have "RSleep \<in> set (map (rw_wake c) ?qs) \<Longrightarrow> RSleep \<in> set ps"
    using e(3) by (auto split: if_splits dest!: sym [of RSleep] dest: mem_update_other)
  then have rs: "RSleep \<in> set (map (rw_wake c) ?qs) \<longrightarrow> \<not> may_read rw'"
    using inv e(1,2) by (auto simp: rw_inv_def may_read_def)
  have "\<not> may_write rw'" if zs: "WSleep \<in> set (map (rw_wake c) ?qs)"
  proof -
    have w: "c \<noteq> Some RwWritersChan"
    proof
      assume "c = Some RwWritersChan"
      then show False using zs rw_wake_writers by (auto dest: sym)
    qed
    then have "c = None" using e(3) by (simp split: if_splits)
    then have "WSleep \<in> set ps" using that mem_update_other [of WSleep ps p RwIdle] by simp
    then have "0 < cnt waiting_write ps" unfolding cnt_pos by (auto simp: waiting_write_def)
    then have "0 < write_wait_count rw" using inv by (simp add: rw_inv_def)
    then have "read_count rw - 1 \<noteq> 0" using w e(3) by auto
    moreover have "0 \<le> read_count rw'" using counts by simp
    ultimately show ?thesis using e(2) by (simp add: may_write_def)
  qed
  then show ?case using counts rs by (auto simp: rw_inv_def)
next
  case (unwr p ps rw rw' c)
  note inv = unwr(4)
  let ?qs = "ps[p := RwIdle]"
  have e: "write_active rw \<noteq> 0" "read_count rw \<le> 0" "rw' = rw\<lparr>write_active := 0\<rparr>"
    "c = Some (if write_wait_count rw > 0 then RwWritersChan else RwReadersChan)"
    using unwr(3) by (auto simp: end_write_def Let_def split: if_splits)
  have c: "cnt (\<lambda>c. c = Reading) ?qs = cnt (\<lambda>c. c = Reading) ps"
    "cnt (\<lambda>c. c = Writing) ?qs = cnt (\<lambda>c. c = Writing) ps - 1" "cnt waiting_write ?qs = cnt waiting_write ps"
    using unwr(1,2) by (simp_all add: cnt_update waiting_write_def)
  have counts: "read_count rw' = cnt (\<lambda>c. c = Reading) (map (rw_wake c) ?qs) \<and>
    write_active rw' = cnt (\<lambda>c. c = Writing) (map (rw_wake c) ?qs) \<and>
    write_wait_count rw' = cnt waiting_write (map (rw_wake c) ?qs)"
    using inv e(1-3) by (simp add: cnt_map c rw_inv_def) (metis antisym cnt_nonneg int_one_le_iff_zero_less le_less)
  have rs: "RSleep \<in> set (map (rw_wake c) ?qs) \<longrightarrow> \<not> may_read rw'"
  proof
    assume "RSleep \<in> set (map (rw_wake c) ?qs)"
    then have "c \<noteq> Some RwReadersChan" using rw_wake_readers by (auto dest: sym)
    then show "\<not> may_read rw'" using e(3,4) by (auto simp: may_read_def split: if_splits)
  qed
  have "WSleep \<notin> set (map (rw_wake c) ?qs)"
  proof
    assume w: "WSleep \<in> set (map (rw_wake c) ?qs)"
    then have "c \<noteq> Some RwWritersChan" using rw_wake_writers by (auto dest: sym)
    then have r: "c = Some RwReadersChan" "write_wait_count rw \<le> 0" using e(4) by (auto split: if_splits)
    then have "WSleep \<in> set ps" using w mem_update_other [of WSleep ps p RwIdle] by (auto dest: sym)
    then have "0 < cnt waiting_write ps" unfolding cnt_pos by (auto simp: waiting_write_def)
    then show False using inv r(2) by (simp add: rw_inv_def)
  qed
  then show ?case using counts rs e(3) by (auto simp: rw_inv_def)
qed

lemma rw_reachable_inv: "rw_reachable x \<Longrightarrow> rw_inv x"
  by (induction rule: rw_reachable.induct) (auto intro: rw_inv_init rw_inv_step)

lemma rw_inv_D:
  assumes "rw_inv (rw, ps)"
  shows "read_count rw = cnt (\<lambda>c. c = Reading) ps" "write_active rw = cnt (\<lambda>c. c = Writing) ps"
    "write_wait_count rw = cnt waiting_write ps" "write_active rw \<le> 1"
    "write_active rw = 1 \<Longrightarrow> read_count rw = 0" "RSleep \<in> set ps \<Longrightarrow> \<not> may_read rw"
    "WSleep \<in> set ps \<Longrightarrow> \<not> may_write rw \<or> WWoken \<in> set ps"
  using assms by (auto simp: rw_inv_def)

lemma cnt_two:
  assumes "i < length ps" "j < length ps" "i \<noteq> j" "P (ps ! i)" "P (ps ! j)"
  shows "2 \<le> cnt P ps"
proof -
  have "{i, j} \<subseteq> {k. k < length ps \<and> P (ps ! k)}" using assms by auto
  then have "card {i, j} \<le> card {k. k < length ps \<and> P (ps ! k)}" by (intro card_mono) auto
  then show ?thesis using assms(3) by (simp add: cnt_def length_filter_conv_card)
qed

text \<open>Nobody waits for nothing: a sleeper implies a process that can move.\<close>

lemma rw_not_stuck:
  assumes inv: "rw_inv (rw, ps)" and z: "RSleep \<in> set ps \<or> WSleep \<in> set ps"
  shows "Reading \<in> set ps \<or> Writing \<in> set ps \<or> WWoken \<in> set ps"
proof -
  have w: "Reading \<in> set ps \<or> Writing \<in> set ps \<or> WWoken \<in> set ps" if "WSleep \<in> set ps"
    using rw_inv_D(7) [OF inv that] rw_inv_D(1,2) [OF inv] cnt_pos [of "\<lambda>c. c = Reading" ps]
      cnt_pos [of "\<lambda>c. c = Writing" ps] cnt_nonneg [of "\<lambda>c. c = Writing" ps]
    by (auto simp: may_write_def less_le)
  have "Writing \<in> set ps \<or> WSleep \<in> set ps \<or> WWoken \<in> set ps" if "RSleep \<in> set ps"
    using rw_inv_D(6) [OF inv that] rw_inv_D(2,3) [OF inv] cnt_pos [of waiting_write ps]
      cnt_pos [of "\<lambda>c. c = Writing" ps] cnt_nonneg [of "\<lambda>c. c = Writing" ps]
    by (auto simp: may_read_def waiting_write_def less_le)
  then show ?thesis using w z by blast
qed

section \<open>Property\<close>

text \<open>
  C12: the reader/writer lock. For any number of processes that take and release the lock in any
  order: a process that writes is alone (no other writer, no reader); \<open>read_count\<close> counts exactly
  the readers and \<open>write_active\<close> the writer, so the states are those of the comment above
  \<open>struct rw_r_lock\<close> (\<open>write_active\<close> is 0 or 1, \<open>read_count\<close> is 0 while a writer is active, no
  counter is negative); the panics of the two release functions are never taken by a process that
  holds the lock; and the lock is never stuck: while somebody sleeps on it, some process reads,
  writes, or is a woken writer that will run.
\<close>

theorem rw_lock_correct:
  assumes "rw_reachable (rw, ps)"
  shows "(\<forall>i j. i < length ps \<and> j < length ps \<and> i \<noteq> j \<and> ps ! i = Writing \<longrightarrow>
            ps ! j \<noteq> Writing \<and> ps ! j \<noteq> Reading) \<and>
         read_count rw = cnt (\<lambda>c. c = Reading) ps \<and> write_active rw = cnt (\<lambda>c. c = Writing) ps \<and>
         write_active rw \<in> {0, 1} \<and> (write_active rw = 1 \<longrightarrow> read_count rw = 0) \<and>
         0 \<le> read_count rw \<and> 0 \<le> write_wait_count rw \<and>
         (Reading \<in> set ps \<longrightarrow> (\<exists>y. end_read rw = Ok y)) \<and>
         (Writing \<in> set ps \<longrightarrow> (\<exists>y. end_write rw = Ok y)) \<and>
         (RSleep \<in> set ps \<or> WSleep \<in> set ps \<longrightarrow> Reading \<in> set ps \<or> Writing \<in> set ps \<or> WWoken \<in> set ps)"
proof -
  have inv: "rw_inv (rw, ps)" using rw_reachable_inv [OF assms] .
  note D = rw_inv_D [OF inv]
  have r: "Reading \<in> set ps \<Longrightarrow> read_count rw > 0" using cnt_pos [of "\<lambda>c. c = Reading" ps] D(1) by auto
  have w: "Writing \<in> set ps \<Longrightarrow> write_active rw = 1"
    using cnt_pos [of "\<lambda>c. c = Writing" ps] D(2,4) by auto
  have "ps ! j \<noteq> Writing \<and> ps ! j \<noteq> Reading"
    if "i < length ps" "j < length ps" "i \<noteq> j" "ps ! i = Writing" for i j
  proof -
    have "write_active rw = 1" using w that(1,4) by (metis nth_mem)
    moreover have "ps ! j \<noteq> Writing" using cnt_two [of i ps j "\<lambda>c. c = Writing"] that D(2,4) by auto
    ultimately show ?thesis using r D(5) that(2) by (metis less_irrefl nth_mem)
  qed
  moreover have "Reading \<in> set ps \<Longrightarrow> \<exists>y. end_read rw = Ok y"
  proof -
    assume "Reading \<in> set ps"
    then have "0 < read_count rw" using r by simp
    moreover have "write_active rw = 0 \<or> write_active rw = 1"
      using D(2,4) cnt_nonneg [of "\<lambda>c. c = Writing" ps] by linarith
    ultimately show ?thesis using D(5) by (auto simp: end_read_def Let_def)
  qed
  moreover have "Writing \<in> set ps \<Longrightarrow> \<exists>y. end_write rw = Ok y"
    using w D(5) by (auto simp: end_write_def Let_def)
  moreover have "0 \<le> read_count rw" "0 \<le> write_active rw" "0 \<le> write_wait_count rw"
    using D(1-3) by simp_all
  moreover have "write_active rw \<in> {0, 1}" using D(4) \<open>0 \<le> write_active rw\<close> by auto
  ultimately show ?thesis using D(1,2,5) rw_not_stuck [OF inv] by blast
qed

theorem rw_lock_correct_witness:
  "rw_reachable (\<lparr>read_count = 0, write_active = 1, write_wait_count = 0\<rparr>, [Writing, RSleep]) \<and>
   (\<exists>y. end_write \<lparr>read_count = 0, write_active = 1, write_wait_count = 0\<rparr> = Ok y)"
proof -
  let ?rw = "\<lparr>read_count = 0, write_active = 1, write_wait_count = 0\<rparr>"
  have "rw_reachable (init_rw_r_lock, replicate 2 RwIdle)" by (rule rw_reachable.start)
  then have "rw_reachable (start_write (want_write init_rw_r_lock), (replicate 2 RwIdle)[0 := Writing])"
    by (rule rw_reachable.step) (rule rw_step.wr; simp add: rw_body_defs init_rw_r_lock_def)
  then have "rw_reachable (?rw, [Writing, RwIdle])"
    by (simp add: rw_body_defs init_rw_r_lock_def numeral_2_eq_2)
  then have "rw_reachable (?rw, [Writing, RwIdle][1 := RSleep])"
    by (rule rw_reachable.step) (rule rw_step.rd_sleep; simp add: may_read_def)
  then have r: "rw_reachable (?rw, [Writing, RSleep])" by simp
  show ?thesis using r rw_lock_correct [OF r] by simp
qed

end
