(* ===== verification/Ring_Buffer.thy ===== *)
theory Ring_Buffer
  imports Prelude
begin

text \<open>
  Ring buffers indexed by free-running counters, the queue every buffer of the kernel uses:
  include/util/circular_queue.h, the message box of kernel/process/cpu_message.c, the input and
  output queues of kernel/driver/uart.c and the data of a pipe in kernel/fs/pipe.c. The counters
  only ever grow and wrap at their width; the slot is the counter modulo the capacity.
\<close>

section \<open>Slots and contents\<close>

text \<open>
  \<open>ring_contents d b e\<close>: what a ring with slots \<open>d\<close> and counters \<open>b\<close> (next to read) and \<open>e\<close> (next to
  write) holds, oldest first. The subtraction wraps like the counters.
\<close>

definition ring_contents :: "'a list \<Rightarrow> 'w::len word \<Rightarrow> 'w word \<Rightarrow> 'a list" where
  "ring_contents d b e = map (\<lambda>k. d ! ((unat b + k) mod length d)) [0..<unat (e - b)]"

definition ring_ok :: "nat \<Rightarrow> 'a list \<Rightarrow> 'w::len word \<Rightarrow> 'w word \<Rightarrow> bool" where
  "ring_ok n d b e \<longleftrightarrow> length d = n \<and> 0 < n \<and> n dvd 2 ^ LENGTH('w) \<and> n < 2 ^ LENGTH('w) \<and> unat (e - b) \<le> n"

lemma length_ring_contents [simp]: "length (ring_contents d b e) = unat (e - b)"
  by (simp add: ring_contents_def)

lemma ring_contents_nth:
  "k < unat (e - b) \<Longrightarrow> ring_contents d b e ! k = d ! ((unat b + k) mod length d)"
  by (simp add: ring_contents_def)

text \<open>A counter that wraps still selects the next slot, because the capacity divides \<open>2^w\<close>.\<close>

lemma ring_slot:
  fixes b :: "'w::len word"
  assumes "n dvd 2 ^ LENGTH('w)"
  shows "unat (b + word_of_nat k) mod n = (unat b + k) mod n"
proof -
  have "unat (b + word_of_nat k) = (unat b + k) mod 2 ^ LENGTH('w)"
    by (simp add: unat_word_ariths unat_of_nat mod_simps)
  then show ?thesis using assms by (simp add: mod_mod_cancel)
qed

lemma ring_end_slot:
  fixes b e :: "'w::len word"
  assumes "n dvd 2 ^ LENGTH('w)"
  shows "unat e mod n = (unat b + unat (e - b)) mod n"
proof -
  have "e = b + word_of_nat (unat (e - b))" by simp
  then show ?thesis using ring_slot [OF assms, of b "unat (e - b)"] by simp
qed

lemma ring_empty_iff: "ring_contents d b e = [] \<longleftrightarrow> b = e"
  by (auto simp: ring_contents_def unat_eq_zero)

lemma ring_full_iff:
  fixes b e :: "'w::len word"
  assumes "ring_ok n d b e"
  shows "length (ring_contents d b e) = n \<longleftrightarrow> e = b + word_of_nat n"
    "length (ring_contents d b e) = n \<longleftrightarrow> e - b = word_of_nat n"
proof -
  have n: "n < 2 ^ LENGTH('w)" using assms by (simp add: ring_ok_def)
  then have "unat (e - b) = n \<longleftrightarrow> e - b = word_of_nat n" by (auto simp: word_eq_iff_unat)
  then show "length (ring_contents d b e) = n \<longleftrightarrow> e - b = word_of_nat n"
    "length (ring_contents d b e) = n \<longleftrightarrow> e = b + word_of_nat n"
    by (auto simp: algebra_simps)
qed

section \<open>Writing and reading\<close>

lemma ring_push:
  fixes b e :: "'w::len word"
  assumes ok: "ring_ok n d b e" and room: "unat (e - b) < n"
  shows "ring_ok n (d[unat e mod n := x]) b (e + 1)"
    "ring_contents (d[unat e mod n := x]) b (e + 1) = ring_contents d b e @ [x]"
proof -
  have n: "length d = n" "0 < n" "n dvd 2 ^ LENGTH('w)" "n < 2 ^ LENGTH('w)"
    using ok by (auto simp: ring_ok_def)
  have sz: "unat (e + 1 - b) = Suc (unat (e - b))"
  proof -
    have "unat (e - b + 1) = unat (e - b) + unat (1 :: 'w word)"
      using room n(4) by (intro unat_add_no_wrap) simp
    then show ?thesis by (simp add: algebra_simps)
  qed
  then show "ring_ok n (d[unat e mod n := x]) b (e + 1)" using ok room by (simp add: ring_ok_def)
  have slot: "unat e mod n = (unat b + unat (e - b)) mod n" by (rule ring_end_slot [OF n(3)])
  show "ring_contents (d[unat e mod n := x]) b (e + 1) = ring_contents d b e @ [x]"
  proof (rule nth_equalityI)
    show "length (ring_contents (d[unat e mod n := x]) b (e + 1)) = length (ring_contents d b e @ [x])"
      by (simp add: sz)
    fix k assume "k < length (ring_contents (d[unat e mod n := x]) b (e + 1))"
    then have k: "k < Suc (unat (e - b))" by (simp add: sz)
    have neq: "(unat b + k) mod n \<noteq> unat e mod n" if "k < unat (e - b)"
    proof
      assume "(unat b + k) mod n = unat e mod n"
      then have "(unat b + k) mod n = (unat b + unat (e - b)) mod n" using slot by simp
      then have "n dvd unat (e - b) - k"
        using that mod_eq_dvd_iff_nat [of "unat b + k" "unat b + unat (e - b)" n] by simp
      then show False using that room by (auto dest: dvd_imp_le)
    qed
    show "ring_contents (d[unat e mod n := x]) b (e + 1) ! k = (ring_contents d b e @ [x]) ! k"
    proof (cases "k < unat (e - b)")
      case True
      then show ?thesis using neq n by (simp add: ring_contents_nth sz nth_append)
    next
      case False
      then have "k = unat (e - b)" using k by simp
      then show ?thesis using n slot by (simp add: ring_contents_nth sz nth_append)
    qed
  qed
qed

lemma ring_pop:
  fixes b e :: "'w::len word"
  assumes ok: "ring_ok n d b e" and ne: "b \<noteq> e"
  shows "ring_ok n d (b + 1) e"
    "ring_contents d b e = d ! (unat b mod n) # ring_contents d (b + 1) e"
proof -
  have n: "length d = n" "0 < n" "n dvd 2 ^ LENGTH('w)" "n < 2 ^ LENGTH('w)"
    using ok by (auto simp: ring_ok_def)
  have "e - b \<noteq> 0" using ne by simp
  then have "0 < unat (e - b)" by (simp add: unat_gt_0)
  moreover have "unat (e - b - 1) = unat (e - b) - 1" using \<open>e - b \<noteq> 0\<close> by (simp add: unat_minus_one)
  ultimately have sz: "unat (e - b) = Suc (unat (e - (b + 1)))" by (simp add: algebra_simps)
  then show "ring_ok n d (b + 1) e" using ok by (simp add: ring_ok_def)
  show "ring_contents d b e = d ! (unat b mod n) # ring_contents d (b + 1) e"
  proof (rule nth_equalityI)
    show "length (ring_contents d b e) = length (d ! (unat b mod n) # ring_contents d (b + 1) e)"
      by (simp add: sz)
    fix k assume "k < length (ring_contents d b e)"
    then have k: "k < unat (e - b)" by simp
    show "ring_contents d b e ! k = (d ! (unat b mod n) # ring_contents d (b + 1) e) ! k"
    proof (cases k)
      case (Suc j)
      have "unat (b + 1) mod n = (unat b + 1) mod n" using ring_slot [OF n(3), of b 1] by simp
      then have "(unat (b + 1) + j) mod n = (unat b + k) mod n" using Suc by (metis Suc_eq_plus1 add.assoc add.commute mod_add_left_eq)
      then show ?thesis using k sz Suc n by (simp add: ring_contents_nth)
    qed (use k n in \<open>simp add: ring_contents_nth\<close>)
  qed
qed

text \<open>Dropping the newest element, as the console does on a backspace.\<close>

lemma ring_unpush:
  fixes b e :: "'w::len word"
  assumes ok: "ring_ok n d b e" and ne: "b \<noteq> e"
  shows "ring_ok n d b (e - 1)" "ring_contents d b (e - 1) = butlast (ring_contents d b e)"
proof -
  have "e - b \<noteq> 0" using ne by simp
  moreover have "e - 1 - b = e - b - 1" by simp
  ultimately have sz: "unat (e - 1 - b) = unat (e - b) - 1"
    by (metis unat_minus_one)
  then show "ring_ok n d b (e - 1)" using ok by (auto simp: ring_ok_def)
  show "ring_contents d b (e - 1) = butlast (ring_contents d b e)"
    by (rule nth_equalityI) (simp_all add: sz nth_butlast ring_contents_nth)
qed

section \<open>A bounded queue\<close>

text \<open>
  What a client of such a buffer relies on: \<open>put\<close> appends when the buffer is not full, \<open>get\<close> takes
  the oldest element when it is not empty, and the two tests are exact.
\<close>

locale bounded_queue =
  fixes ok :: "'s \<Rightarrow> bool" and contents :: "'s \<Rightarrow> 'a list" and cap :: nat
    and is_empty :: "'s \<Rightarrow> bool" and is_full :: "'s \<Rightarrow> bool"
    and put :: "'a \<Rightarrow> 's \<Rightarrow> 's" and get :: "'s \<Rightarrow> 'a \<times> 's"
  assumes cap: "ok s \<Longrightarrow> length (contents s) \<le> cap"
    and empty_iff: "ok s \<Longrightarrow> is_empty s \<longleftrightarrow> contents s = []"
    and full_iff: "ok s \<Longrightarrow> is_full s \<longleftrightarrow> length (contents s) = cap"
    and put_ok: "ok s \<Longrightarrow> length (contents s) < cap \<Longrightarrow> ok (put x s) \<and> contents (put x s) = contents s @ [x]"
    and get_ok: "ok s \<Longrightarrow> contents s \<noteq> [] \<Longrightarrow>
      ok (snd (get s)) \<and> contents s = fst (get s) # contents (snd (get s))"
begin

text \<open>A producer writes as long as there is room, a consumer reads as long as there is something.\<close>

primrec put_many :: "'a list \<Rightarrow> 's \<Rightarrow> 's \<times> 'a list" where
  "put_many [] s = (s, [])"
| "put_many (x # xs) s = (if is_full s then (s, x # xs) else put_many xs (put x s))"

primrec get_many :: "nat \<Rightarrow> 's \<Rightarrow> 'a list \<times> 's" where
  "get_many 0 s = ([], s)"
| "get_many (Suc n) s =
     (if is_empty s then ([], s)
      else let (x, s) = get s; (xs, s) = get_many n s in (x # xs, s))"

lemma put_many_spec:
  "ok s \<Longrightarrow> put_many xs s = (s', rest) \<Longrightarrow>
     ok s' \<and> contents s' = contents s @ take (cap - length (contents s)) xs \<and>
     rest = drop (cap - length (contents s)) xs"
proof (induction xs arbitrary: s)
  case (Cons x xs)
  show ?case
  proof (cases "is_full s")
    case True
    then show ?thesis using Cons.prems full_iff by auto
  next
    case False
    then have room: "length (contents s) < cap" using Cons.prems(1) full_iff cap by (metis le_neq_implies_less)
    then obtain m where m: "cap - length (contents s) = Suc m" by (metis Suc_diff_Suc)
    then have m': "cap - Suc (length (contents s)) = m" by simp
    show ?thesis
      using Cons.IH [of "put x s"] put_ok [OF Cons.prems(1) room, of x] Cons.prems(2) False m
      by (simp add: m')
  qed
qed simp

lemma get_many_spec:
  "ok s \<Longrightarrow> get_many n s = (xs, s') \<Longrightarrow>
     ok s' \<and> xs = take n (contents s) \<and> contents s' = drop n (contents s)"
proof (induction n arbitrary: s xs)
  case (Suc n)
  show ?case
  proof (cases "is_empty s")
    case True
    then show ?thesis using Suc.prems empty_iff by auto
  next
    case False
    then have "contents s \<noteq> []" using Suc.prems(1) empty_iff by simp
    then have g: "ok (snd (get s))" "contents s = fst (get s) # contents (snd (get s))"
      using get_ok Suc.prems(1) by auto
    obtain x t where xt: "get s = (x, t)" by fastforce
    obtain ys u where yu: "get_many n t = (ys, u)" by fastforce
    have "xs = x # ys" "s' = u" using Suc.prems(2) False xt yu by auto
    moreover have "ok u \<and> ys = take n (contents t) \<and> contents u = drop n (contents t)"
      using Suc.IH [of t ys] g(1) xt yu calculation(2) by simp
    moreover have "contents s = x # contents t" using g(2) xt by simp
    ultimately show ?thesis by simp
  qed
qed simp

text \<open>What is written is read back in order, up to the room there was.\<close>

lemma queue_roundtrip:
  assumes "ok s" "contents s = []" "length xs \<le> cap"
    "put_many xs s = (t, rest)" "get_many (length xs) t = (ys, u)"
  shows "rest = [] \<and> ys = xs \<and> contents u = []"
  using put_many_spec [OF assms(1,4)] get_many_spec [OF _ assms(5)] assms(2,3) by simp

end

section \<open>include/util/circular_queue.h\<close>

record circular_queue =
  cq_begin :: u64
  cq_end :: u64
  cq_size :: u64
  cq_data :: "u8 list"

definition ccqueue_empty :: "circular_queue \<Rightarrow> bool" where
  "ccqueue_empty q \<longleftrightarrow> cq_begin q = cq_end q"

definition ccqueue_full :: "circular_queue \<Rightarrow> bool" where
  "ccqueue_full q \<longleftrightarrow> cq_end q - cq_begin q = cq_size q"

definition ccqueue_get :: "circular_queue \<Rightarrow> u64 \<Rightarrow> u8" where
  "ccqueue_get q i = cq_data q ! unat (i mod cq_size q)"

definition ccqueue_write :: "u64 \<Rightarrow> u8 \<Rightarrow> circular_queue \<Rightarrow> circular_queue" where
  "ccqueue_write i v q = q\<lparr>cq_data := (cq_data q)[unat (i mod cq_size q) := v]\<rparr>"

text \<open>The way the functions are meant to be used: write at \<open>end++\<close>, read at \<open>begin++\<close>.\<close>

definition ccqueue_put :: "u8 \<Rightarrow> circular_queue \<Rightarrow> circular_queue" where
  "ccqueue_put v q = (ccqueue_write (cq_end q) v q)\<lparr>cq_end := cq_end q + 1\<rparr>"

definition ccqueue_take :: "circular_queue \<Rightarrow> u8 \<times> circular_queue" where
  "ccqueue_take q = (ccqueue_get q (cq_begin q), q\<lparr>cq_begin := cq_begin q + 1\<rparr>)"

definition ccqueue_ok :: "nat \<Rightarrow> circular_queue \<Rightarrow> bool" where
  "ccqueue_ok n q \<longleftrightarrow> unat (cq_size q) = n \<and> ring_ok n (cq_data q) (cq_begin q) (cq_end q)"

definition ccqueue_contents :: "circular_queue \<Rightarrow> u8 list" where
  "ccqueue_contents q = ring_contents (cq_data q) (cq_begin q) (cq_end q)"

interpretation ccq: bounded_queue "ccqueue_ok n" ccqueue_contents n ccqueue_empty ccqueue_full ccqueue_put ccqueue_take
  for n
proof
  fix q x
  assume ok: "ccqueue_ok n q"
  then have r: "ring_ok n (cq_data q) (cq_begin q) (cq_end q)" and n: "unat (cq_size q) = n"
    by (simp_all add: ccqueue_ok_def)
  show "length (ccqueue_contents q) \<le> n" using r by (simp add: ccqueue_contents_def ring_ok_def)
  show "ccqueue_empty q = (ccqueue_contents q = [])"
    by (simp add: ccqueue_empty_def ccqueue_contents_def ring_empty_iff)
  show "ccqueue_full q = (length (ccqueue_contents q) = n)"
    using n by (auto simp: ccqueue_full_def ccqueue_contents_def word_eq_iff_unat)
  show "ccqueue_ok n (ccqueue_put x q) \<and> ccqueue_contents (ccqueue_put x q) = ccqueue_contents q @ [x]"
    if "length (ccqueue_contents q) < n"
    using ring_push [OF r, of x] that n
    by (simp add: ccqueue_put_def ccqueue_write_def ccqueue_contents_def ccqueue_ok_def unat_mod)
  show "ccqueue_ok n (snd (ccqueue_take q)) \<and>
      ccqueue_contents q = fst (ccqueue_take q) # ccqueue_contents (snd (ccqueue_take q))"
    if "ccqueue_contents q \<noteq> []"
  proof -
    have "cq_begin q \<noteq> cq_end q" using that by (simp add: ccqueue_contents_def ring_empty_iff)
    then show ?thesis using ring_pop [OF r] n
      by (simp add: ccqueue_take_def ccqueue_get_def ccqueue_contents_def ccqueue_ok_def unat_mod)
  qed
qed

end
