(* ===== verification/Cpu_Message.thy ===== *)
theory Cpu_Message
  imports Proc_State Ring_Buffer
begin

text \<open>
  The CPU message box of kernel/process/cpu_message.c: a bounded queue of requests for CPUs, sent
  by processes and taken by the schedulers of idle CPUs.
\<close>

section \<open>Messages\<close>

text \<open>
  \<open>struct cpu_message\<close>: the type and the object the pointer refers to, a \<open>need_cpu_message\<close> (sleep
  channel and group id) or a group.
\<close>

datatype cpu_message = EMP_MESSAGE | NEED_CPU chan int | NEED_CPU_FLEX nat

record message_box =
  box :: "cpu_message list"
  box_beg :: u64
  box_end :: u64
  box_size :: u64

abbreviation (input) CPU_MESSAGE_BOX_SIZE :: nat where "CPU_MESSAGE_BOX_SIZE \<equiv> 8"

definition box_empty :: "message_box \<Rightarrow> bool" where
  "box_empty b \<longleftrightarrow> box_size b = 0"

definition box_full :: "message_box \<Rightarrow> bool" where
  "box_full b \<longleftrightarrow> box_size b = word_of_nat CPU_MESSAGE_BOX_SIZE"

definition box_take :: "message_box \<Rightarrow> cpu_message \<times> message_box" where
  "box_take b = (box b ! unat (box_beg b mod word_of_nat CPU_MESSAGE_BOX_SIZE),
     b\<lparr>box_beg := box_beg b + 1, box_size := box_size b - 1\<rparr>)"

definition box_put :: "cpu_message \<Rightarrow> message_box \<Rightarrow> message_box" where
  "box_put m b = b\<lparr>box := (box b)[unat (box_end b mod word_of_nat CPU_MESSAGE_BOX_SIZE) := m],
     box_end := box_end b + 1, box_size := box_size b + 1\<rparr>"

section \<open>Operations\<close>

record box_state = proc_state +
  um_box :: message_box

definition no_message_atomic :: "'a box_state_scheme \<Rightarrow> bool" where
  "no_message_atomic s \<longleftrightarrow> box_size (um_box s) = 0"

definition get_cpu_message :: "'a box_state_scheme \<Rightarrow> (cpu_message \<times> 'a box_state_scheme) kres" where
  "get_cpu_message s =
     kbind (acquire UmBoxLock s) (\<lambda>s.
     if box_empty (um_box s) then kbind (release UmBoxLock s) (\<lambda>s. Ok (EMP_MESSAGE, s))
     else
       let (m, b) = box_take (um_box s)
       in kbind (release UmBoxLock (s\<lparr>um_box := b\<rparr>)) (\<lambda>s.
          if m = EMP_MESSAGE then Panic ''get_cpu_message: get unknow message'' else Ok (m, s)))"

definition send_cpu_message :: "cpu_message \<Rightarrow> 'a box_state_scheme \<Rightarrow> 'a box_state_scheme kres" where
  "send_cpu_message m s =
     kbind (acquire UmBoxLock s) (\<lambda>s.
     if box_full (um_box s) then Panic ''send_cpu_message: cpu message box full''
     else release UmBoxLock (s\<lparr>um_box := box_put m (um_box s)\<rparr>))"

definition resend_cpu_message :: "cpu_message \<Rightarrow> 'a box_state_scheme \<Rightarrow> 'a box_state_scheme kres" where
  "resend_cpu_message m s = (if m \<noteq> EMP_MESSAGE then send_cpu_message m s else Ok s)"

section \<open>The box is a queue\<close>

definition box_contents :: "message_box \<Rightarrow> cpu_message list" where
  "box_contents b = ring_contents (box b) (box_beg b) (box_end b)"

definition box_ok :: "message_box \<Rightarrow> bool" where
  "box_ok b \<longleftrightarrow> ring_ok CPU_MESSAGE_BOX_SIZE (box b) (box_beg b) (box_end b) \<and>
     box_size b = box_end b - box_beg b \<and> EMP_MESSAGE \<notin> set (box_contents b)"

text \<open>\<open>um_box\<close> is zero-initialised: an array of \<open>EMP_MESSAGE\<close>.\<close>

definition init_cpu_message :: message_box where
  "init_cpu_message = \<lparr>box = replicate CPU_MESSAGE_BOX_SIZE EMP_MESSAGE, box_beg = 0, box_end = 0, box_size = 0\<rparr>"

lemma init_box_ok: "box_ok init_cpu_message" "box_contents init_cpu_message = []"
  by (simp_all add: box_ok_def init_cpu_message_def ring_ok_def box_contents_def ring_contents_def)

definition box_ring_ok :: "message_box \<Rightarrow> bool" where
  "box_ring_ok b \<longleftrightarrow> ring_ok CPU_MESSAGE_BOX_SIZE (box b) (box_beg b) (box_end b) \<and>
     box_size b = box_end b - box_beg b"

lemma box_ok_alt: "box_ok b \<longleftrightarrow> box_ring_ok b \<and> EMP_MESSAGE \<notin> set (box_contents b)"
  by (auto simp: box_ok_def box_ring_ok_def)

interpretation mbox: bounded_queue box_ring_ok box_contents CPU_MESSAGE_BOX_SIZE box_empty box_full box_put box_take
proof
  fix b x
  assume "box_ring_ok b"
  then have r: "ring_ok 8 (box b) (box_beg b) (box_end b)" and n: "box_size b = box_end b - box_beg b"
    by (simp_all add: box_ring_ok_def)
  show "length (box_contents b) \<le> 8" using r by (simp add: box_contents_def ring_ok_def)
  show "box_empty b = (box_contents b = [])"
    using n by (auto simp: box_empty_def box_contents_def ring_empty_iff)
  show "box_full b = (length (box_contents b) = 8)"
    using n by (simp add: box_full_def box_contents_def word_eq_iff_unat)
  show "box_ring_ok (box_put x b) \<and> box_contents (box_put x b) = box_contents b @ [x]"
    if "length (box_contents b) < 8"
    using ring_push [OF r, of x] that n by (simp add: box_put_def box_contents_def box_ring_ok_def unat_mod)
  show "box_ring_ok (snd (box_take b)) \<and> box_contents b = fst (box_take b) # box_contents (snd (box_take b))"
    if "box_contents b \<noteq> []"
  proof -
    have "box_beg b \<noteq> box_end b" using that by (simp add: box_contents_def ring_empty_iff)
    then show ?thesis using ring_pop [OF r] n
      by (simp add: box_take_def box_contents_def box_ring_ok_def unat_mod)
  qed
qed

lemma send_cpu_message_eq:
  assumes "box_ok (um_box s)" "UmBoxLock \<notin> held s" "length (box_contents (um_box s)) < CPU_MESSAGE_BOX_SIZE" "m \<noteq> EMP_MESSAGE"
  shows "send_cpu_message m s = Ok (s\<lparr>um_box := box_put m (um_box s)\<rparr>)" "box_ok (box_put m (um_box s))"
    "box_contents (box_put m (um_box s)) = box_contents (um_box s) @ [m]"
proof -
  have r: "box_ring_ok (um_box s)" using assms(1) by (simp add: box_ok_alt)
  show "box_contents (box_put m (um_box s)) = box_contents (um_box s) @ [m]"
    "box_ok (box_put m (um_box s))"
    using mbox.put_ok [OF r assms(3), of m] assms(1,4) by (auto simp: box_ok_alt)
  show "send_cpu_message m s = Ok (s\<lparr>um_box := box_put m (um_box s)\<rparr>)"
    using assms(2,3) mbox.full_iff [OF r] by (simp add: send_cpu_message_def lock_simps)
qed

lemma get_cpu_message_eq:
  assumes "box_ok (um_box s)" "UmBoxLock \<notin> held s" "box_contents (um_box s) = m # ms"
  shows "get_cpu_message s = Ok (m, s\<lparr>um_box := snd (box_take (um_box s))\<rparr>)" "box_ok (snd (box_take (um_box s)))"
    "box_contents (snd (box_take (um_box s))) = ms" "\<not> no_message_atomic s"
proof -
  have r: "box_ring_ok (um_box s)" using assms(1) by (simp add: box_ok_alt)
  have g: "box_ring_ok (snd (box_take (um_box s)))" "fst (box_take (um_box s)) = m"
    "box_contents (snd (box_take (um_box s))) = ms"
    using mbox.get_ok [OF r] assms(3) by auto
  show "box_contents (snd (box_take (um_box s))) = ms" by (rule g(3))
  show "box_ok (snd (box_take (um_box s)))" using g assms(1,3) by (simp add: box_ok_alt)
  have "\<not> box_empty (um_box s)" using mbox.empty_iff [OF r] assms(3) by simp
  then show "\<not> no_message_atomic s" by (simp add: box_empty_def no_message_atomic_def)
  have "m \<noteq> EMP_MESSAGE" using assms(1,3) by (auto simp: box_ok_def)
  then show "get_cpu_message s = Ok (m, s\<lparr>um_box := snd (box_take (um_box s))\<rparr>)"
    using assms(2) \<open>\<not> box_empty (um_box s)\<close> g(2)
    by (simp add: get_cpu_message_def lock_simps split_beta)
qed

lemma no_message_iff: "box_ok (um_box s) \<Longrightarrow> no_message_atomic s \<longleftrightarrow> box_contents (um_box s) = []"
  using mbox.empty_iff [of "um_box s"] by (simp add: box_ok_alt no_message_atomic_def box_empty_def)

section \<open>Property\<close>

text \<open>
  C13: the message box is a FIFO queue of eight requests whose counters may wrap. On a well-formed
  box \<open>send_cpu_message\<close> appends the message or, exactly when eight are waiting, panics;
  \<open>get_cpu_message\<close> returns the oldest message, or \<open>EMP_MESSAGE\<close> when none waits, and never panics;
  \<open>no_message_atomic\<close> tells whether one waits; all keep the box well formed and the locks as they were.
\<close>

theorem message_box_fifo:
  assumes ok: "box_ok (um_box s)" and free: "UmBoxLock \<notin> held s" and m: "m \<noteq> EMP_MESSAGE"
  shows "(if length (box_contents (um_box s)) = CPU_MESSAGE_BOX_SIZE
          then send_cpu_message m s = Panic ''send_cpu_message: cpu message box full''
          else \<exists>b. send_cpu_message m s = Ok (s\<lparr>um_box := b\<rparr>) \<and> box_ok b \<and>
                 box_contents b = box_contents (um_box s) @ [m]) \<and>
         (case box_contents (um_box s) of
            [] \<Rightarrow> no_message_atomic s \<and> get_cpu_message s = Ok (EMP_MESSAGE, s)
          | x # xs \<Rightarrow> \<not> no_message_atomic s \<and> (\<exists>b. get_cpu_message s = Ok (x, s\<lparr>um_box := b\<rparr>) \<and> box_ok b \<and>
                 box_contents b = xs))"
proof -
  have r: "box_ring_ok (um_box s)" using ok by (simp add: box_ok_alt)
  have "send_cpu_message m s = Panic ''send_cpu_message: cpu message box full''"
    if "length (box_contents (um_box s)) = 8"
    using that mbox.full_iff [OF r] free by (simp add: send_cpu_message_def lock_simps)
  moreover have "\<exists>b. send_cpu_message m s = Ok (s\<lparr>um_box := b\<rparr>) \<and> box_ok b \<and>
      box_contents b = box_contents (um_box s) @ [m]" if "length (box_contents (um_box s)) \<noteq> 8"
    using send_cpu_message_eq [OF ok free _ m] mbox.cap [OF r] that by fastforce
  moreover have "no_message_atomic s \<and> get_cpu_message s = Ok (EMP_MESSAGE, s)" if "box_contents (um_box s) = []"
    using that no_message_iff [OF ok] mbox.empty_iff [OF r] free by (simp add: get_cpu_message_def lock_simps)
  moreover have "\<not> no_message_atomic s \<and> (\<exists>b. get_cpu_message s = Ok (x, s\<lparr>um_box := b\<rparr>) \<and> box_ok b \<and> box_contents b = xs)"
    if "box_contents (um_box s) = x # xs" for x xs
    using get_cpu_message_eq [OF ok free that] by blast
  ultimately show ?thesis by (auto split: list.split)
qed

text \<open>A box whose counters are about to wrap: three requests, the last one past \<open>2^64\<close>.\<close>

definition wrapping_box :: message_box where
  "wrapping_box = \<lparr>box = [NEED_CPU_FLEX 3, EMP_MESSAGE, EMP_MESSAGE, EMP_MESSAGE, EMP_MESSAGE, EMP_MESSAGE,
     NEED_CPU_FLEX 1, NEED_CPU_FLEX 2], box_beg = - 2, box_end = 1, box_size = 3\<rparr>"

definition box_example :: box_state where
  "box_example = \<lparr>held = {}, noff = 0, mem = (\<lambda>_. 0), mem_head = 0, kernel_end = 0, procs = [], pid_set = [],
     cpus = [], me = 0, tick_count = 0, um_box = wrapping_box\<rparr>"

lemma wrapping_box_contents:
  "box_contents wrapping_box = [NEED_CPU_FLEX 1, NEED_CPU_FLEX 2, NEED_CPU_FLEX 3]"
  by (simp add: box_contents_def wrapping_box_def ring_contents_def upt_rec)

theorem message_box_fifo_witness:
  "\<exists>b. get_cpu_message box_example = Ok (NEED_CPU_FLEX 1, box_example\<lparr>um_box := b\<rparr>) \<and>
     box_contents b = [NEED_CPU_FLEX 2, NEED_CPU_FLEX 3]"
proof -
  have "box_ok wrapping_box"
    using wrapping_box_contents by (simp add: box_ok_def ring_ok_def) (simp add: wrapping_box_def)
  then show ?thesis
    using message_box_fifo [of box_example "NEED_CPU_FLEX 4"] wrapping_box_contents
    by (auto simp: box_example_def)
qed

end
