(* ===== verification/Proc_Group.thy ===== *)
theory Proc_Group
  imports Cpu_Message List_Head
begin

text \<open>
  Process groups and the CPUs that serve them: kernel/process/proc_group.c and
  include/process/proc_group.h.

  A pointer to a group is its index in \<open>proc_group_set\<close>. The list heads \<open>procs_head\<close> and the nodes
  \<open>pgroup_list\<close> of the processes are nodes of one link structure \<open>plinks\<close>. Each function runs
  without interference from other CPUs between its critical sections; what a context switch brings
  is the parameter \<open>sw\<close> of \<open>yield\<close> and \<open>sleep\<close>. An index outside \<open>proc_group_set\<close> is undefined
  behaviour in C and a panic here, so that every theorem about a returning call also shows that the
  index was in range.
\<close>

section \<open>State\<close>

record proc_group =
  g_id :: int
  g_cpus :: "int list"
  g_exclusively_occupy :: bool

datatype pnode = GroupHead nat | ProcNode nat

record pgroup_state = box_state +
  groups :: "proc_group list"
  plinks :: "pnode lptr links"
  free_cpus :: int
  ext_intr :: "bool list"

text \<open>\<open>ext_intr\<close>: per CPU, whether external interrupts are enabled in \<open>sie\<close> (besides software interrupts).\<close>

abbreviation (input) DEFAULT_PGROUP_ID :: int where "DEFAULT_PGROUP_ID \<equiv> 0"
abbreviation (input) MAX_PROC_GROUP_NUM :: nat where "MAX_PROC_GROUP_NUM \<equiv> 8"

abbreviation group :: "nat \<Rightarrow> 'a pgroup_state_scheme \<Rightarrow> proc_group" where
  "group g s \<equiv> groups s ! g"

abbreviation procs_head :: "nat \<Rightarrow> pnode lptr" where
  "procs_head g \<equiv> Node (GroupHead g)"

abbreviation pgroup_list :: "nat \<Rightarrow> pnode lptr" where
  "pgroup_list p \<equiv> Node (ProcNode p)"

definition upd_group :: "nat \<Rightarrow> (proc_group \<Rightarrow> proc_group) \<Rightarrow> 'a pgroup_state_scheme \<Rightarrow> 'a pgroup_state_scheme" where
  "upd_group g f s = s\<lparr>groups := (groups s)[g := f (groups s ! g)]\<rparr>"

definition get_proc_group :: "int \<Rightarrow> nat kres" where
  "get_proc_group i = (if 0 \<le> i \<and> i < int MAX_PROC_GROUP_NUM then Ok (nat i) else Panic ''proc_group_set: index out of range'')"

definition get_default_pgroup :: nat where
  "get_default_pgroup = nat DEFAULT_PGROUP_ID"

text \<open>Kernel code outside \<open>push_introff\<close> sections runs with interrupts on.\<close>

definition intr_is_on :: "'a lock_state_scheme \<Rightarrow> bool" where
  "intr_is_on s \<longleftrightarrow> noff s = 0"

definition the_proc :: "'a proc_state_scheme \<Rightarrow> (nat \<Rightarrow> 'b kres) \<Rightarrow> 'b kres" where
  "the_proc s f = (case my_proc s of None \<Rightarrow> Panic ''NULL process'' | Some p \<Rightarrow> f p)"

definition with_links :: "(pnode lptr links \<Rightarrow> pnode lptr links kres) \<Rightarrow> 'a pgroup_state_scheme \<Rightarrow> 'a pgroup_state_scheme kres" where
  "with_links f s = kbind (f (plinks s)) (\<lambda>L. Ok (s\<lparr>plinks := L\<rparr>))"

section \<open>Free CPUs\<close>

definition inc_free_cpus :: "'a pgroup_state_scheme \<Rightarrow> 'a pgroup_state_scheme kres" where
  "inc_free_cpus s =
     kbind (acquire FreeCpusLock s) (\<lambda>s.
     if free_cpus s < 0 then Panic ''inc_free_cpus: free cpus < 0''
     else release FreeCpusLock (s\<lparr>free_cpus := free_cpus s + 1\<rparr>))"

definition dec_free_cpus :: "'a pgroup_state_scheme \<Rightarrow> (int \<times> 'a pgroup_state_scheme) kres" where
  "dec_free_cpus s =
     kbind (acquire FreeCpusLock s) (\<lambda>s.
     if free_cpus s < 0 then Panic ''dec_free_cpus: free cpus < 0''
     else if free_cpus s = 0 then kbind (release FreeCpusLock s) (\<lambda>s. Ok (- 1, s))
     else kbind (release FreeCpusLock (s\<lparr>free_cpus := free_cpus s - 1\<rparr>)) (\<lambda>s. Ok (0, s)))"

section \<open>Members of a group\<close>

definition free_pgroup :: "nat \<Rightarrow> 'a pgroup_state_scheme \<Rightarrow> 'a pgroup_state_scheme kres" where
  "free_pgroup g s =
     (if g_id (group g s) = DEFAULT_PGROUP_ID then Panic ''free_pgroup: default group been freed''
      else Ok (upd_group g (\<lambda>gr. gr\<lparr>g_id := - 1, g_exclusively_occupy := False\<rparr>) s))"

text \<open>The CPU argument of the source is always \<open>my_cpu()\<close>; its index is \<open>me s\<close>.\<close>

definition add_my_cpu_to_pgroup :: "nat \<Rightarrow> 'a pgroup_state_scheme \<Rightarrow> 'a pgroup_state_scheme kres" where
  "add_my_cpu_to_pgroup g s =
     (let c = c_cpu_id (cpus s ! me s) in
      if g_cpus (group g s) ! nat c \<noteq> - 1 \<or> c_pgroup_id (cpus s ! me s) \<noteq> - 1
      then Panic ''add_my_cpu_to_pgroup: add cpu that has been added''
      else Ok (upd_cpu (me s) (\<lambda>k. k\<lparr>c_pgroup_id := g_id (group g s)\<rparr>)
             (upd_group g (\<lambda>gr. gr\<lparr>g_cpus := (g_cpus gr)[nat c := c]\<rparr>) s)))"

definition remove_my_cpu_from_pgroup :: "nat \<Rightarrow> 'a pgroup_state_scheme \<Rightarrow> 'a pgroup_state_scheme kres" where
  "remove_my_cpu_from_pgroup g s =
     (let c = c_cpu_id (cpus s ! me s) in
      if g_cpus (group g s) ! nat c \<noteq> c \<or> c_pgroup_id (cpus s ! me s) \<noteq> g_id (group g s)
      then Panic ''remove_my_cpu_from_pgroup: remove cpu that haven't been added''
      else Ok (upd_cpu (me s) (\<lambda>k. k\<lparr>c_pgroup_id := - 1\<rparr>)
             (upd_group g (\<lambda>gr. gr\<lparr>g_cpus := (g_cpus gr)[nat c := - 1]\<rparr>) s)))"

definition add_my_proc_to_pgroup :: "nat \<Rightarrow> nat \<Rightarrow> 'a pgroup_state_scheme \<Rightarrow> 'a pgroup_state_scheme kres" where
  "add_my_proc_to_pgroup g p s =
     (if my_proc s \<noteq> Some p then Panic ''add_my_proc_to_pgroup: add other's proc''
      else if p_pgroup_id (proc p s) \<noteq> - 1 then Panic ''add_my_proc_to_pgroup: add proc that has been added''
      else
        kbind (with_links (list_add (pgroup_list p) (procs_head g)) s) (\<lambda>s.
        Ok (upd_proc p (\<lambda>q. q\<lparr>p_pgroup_id := g_id (group g s)\<rparr>) s)))"

definition remove_my_proc_from_pgroup :: "nat \<Rightarrow> 'a pgroup_state_scheme \<Rightarrow> 'a pgroup_state_scheme kres" where
  "remove_my_proc_from_pgroup p s =
     (if my_proc s \<noteq> Some p then Panic ''remove_my_proc_from_pgroup: add other's proc''
      else if p_pgroup_id (proc p s) = - 1 then Panic ''remove_my_proc_from_pgroup: remove proc that haven't been added''
      else
        kbind (with_links (list_del (pgroup_list p)) s) (\<lambda>s.
        Ok (upd_proc p (\<lambda>q. q\<lparr>p_pgroup_id := - 1\<rparr>) s)))"

definition alloc_pgroup_try :: "nat \<Rightarrow> 'a pgroup_state_scheme \<Rightarrow> (nat option \<times> 'a pgroup_state_scheme) kres" where
  "alloc_pgroup_try i s =
     kbind (acquire (PgroupLock i) s) (\<lambda>s.
     if g_id (group i s) = - 1
     then kbind (add_my_cpu_to_pgroup i (upd_group i (\<lambda>gr. gr\<lparr>g_id := int i\<rparr>) s)) (\<lambda>s.
          kbind (release (PgroupLock i) s) (\<lambda>s. Ok (Some i, s)))
     else kbind (release (PgroupLock i) s) (\<lambda>s. Ok (None, s)))"

definition alloc_pgroup :: "'a pgroup_state_scheme \<Rightarrow> (nat option \<times> 'a pgroup_state_scheme) kres" where
  "alloc_pgroup s = kfor alloc_pgroup_try [0..<MAX_PROC_GROUP_NUM] s"

section \<open>Initialisation\<close>

definition empty_pgroup :: proc_group where
  "empty_pgroup = \<lparr>g_id = - 1, g_cpus = replicate MAX_CPU_NUM (- 1), g_exclusively_occupy = False\<rparr>"

definition proc_group_init :: "'a pgroup_state_scheme \<Rightarrow> 'a pgroup_state_scheme" where
  "proc_group_init s = s\<lparr>groups := replicate MAX_PROC_GROUP_NUM empty_pgroup,
     plinks := fold (\<lambda>i. INIT_LIST_HEAD (procs_head i)) [0..<MAX_PROC_GROUP_NUM] (plinks s),
     free_cpus := 0, um_box := init_cpu_message\<rparr>"

definition setup_default_proc_group :: "nat \<Rightarrow> 'a pgroup_state_scheme \<Rightarrow> 'a pgroup_state_scheme kres" where
  "setup_default_proc_group p s =
     kbind (alloc_pgroup s) (\<lambda>(r, s).
     case r of
       None \<Rightarrow> Panic ''setup_default_proc_group: init group fail''
     | Some g \<Rightarrow>
         if g_id (group g s) \<noteq> DEFAULT_PGROUP_ID then Panic ''setup_default_proc_group: init group fail''
         else
           kbind (with_links (list_add (pgroup_list p) (procs_head g)) s) (\<lambda>s.
           Ok (upd_proc p (\<lambda>q. q\<lparr>p_pgroup_id := DEFAULT_PGROUP_ID\<rparr>) s)))"

definition proc_group_init_hart :: "'a pgroup_state_scheme \<Rightarrow> 'a pgroup_state_scheme kres" where
  "proc_group_init_hart s =
     (let g = get_default_pgroup in
      kbind (acquire (PgroupLock g) s) (\<lambda>s.
      kbind (add_my_cpu_to_pgroup g s) (\<lambda>s.
      kbind (release (PgroupLock g) s) inc_free_cpus)))"

section \<open>Leaving a group\<close>

definition pgroup_cpu_count_unsafe :: "nat \<Rightarrow> 'a pgroup_state_scheme \<Rightarrow> int" where
  "pgroup_cpu_count_unsafe g s = int (length (filter (\<lambda>c. c \<noteq> - 1) (g_cpus (group g s))))"

definition cpu_leave_pgroup :: "'a pgroup_state_scheme \<Rightarrow> (int \<times> 'a pgroup_state_scheme) kres" where
  "cpu_leave_pgroup s =
     (if intr_is_on s then Panic ''cpu_leave_pgroup: call with intr on''
      else
        let origin_id = c_pgroup_id (cpus s ! me s) in
        kbind (get_proc_group origin_id) (\<lambda>old.
        kbind (remove_my_cpu_from_pgroup old s) (\<lambda>s.
        if pgroup_cpu_count_unsafe old s \<noteq> 0 then
          if origin_id \<noteq> DEFAULT_PGROUP_ID then Ok (0, s)
          else kbind (dec_free_cpus s) (\<lambda>(r, s).
               if r = 0 then Ok (0, s)
               else kbind (add_my_cpu_to_pgroup old s) (\<lambda>s. Ok (- 1, s)))
        else if list_empty (procs_head old) (plinks s) then
          kbind (free_pgroup old s) (\<lambda>s. Ok (0, s))
        else kbind (add_my_cpu_to_pgroup old s) (\<lambda>s. Ok (- 1, s)))))"

datatype leave_way = WITH_CPU | JUST_PROC

definition proc_leave_pgroup_may_with_cpu :: "leave_way \<Rightarrow> 'a pgroup_state_scheme \<Rightarrow> (int \<times> 'a pgroup_state_scheme) kres" where
  "proc_leave_pgroup_may_with_cpu way s =
     (if intr_is_on s then Panic ''proc_leave_pgroup_may_with_cpu: call with intr on''
      else the_proc s (\<lambda>p.
        kbind (get_proc_group (p_pgroup_id (proc p s))) (\<lambda>old.
        kbind (acquire (PgroupLock old) s) (\<lambda>s.
        kbind (remove_my_proc_from_pgroup p s) (\<lambda>s.
        if way \<noteq> WITH_CPU then kbind (release (PgroupLock old) s) (\<lambda>s. Ok (0, s))
        else
          kbind (cpu_leave_pgroup s) (\<lambda>(err, s).
          if err \<noteq> 0 then
            kbind (add_my_proc_to_pgroup old p s) (\<lambda>s.
            kbind (release (PgroupLock old) s) (\<lambda>s. Ok (- 1, s)))
          else kbind (release (PgroupLock old) s) (\<lambda>s. Ok (0, s))))))))"

definition proc_leave_pgroup_without_cpu :: "'a pgroup_state_scheme \<Rightarrow> 'a pgroup_state_scheme kres" where
  "proc_leave_pgroup_without_cpu s =
     kbind (proc_leave_pgroup_may_with_cpu JUST_PROC s) (\<lambda>(err, s).
     if err \<noteq> 0 then Panic ''proc_leave_pgroup_without_cpu: proc fail to leave proc group without cpu'' else Ok s)"

definition proc_leave_pgroup_with_cpu :: "'a pgroup_state_scheme \<Rightarrow> (int \<times> 'a pgroup_state_scheme) kres" where
  "proc_leave_pgroup_with_cpu s = proc_leave_pgroup_may_with_cpu WITH_CPU s"

section \<open>System calls on groups\<close>

definition get_pgroup_id :: "'a pgroup_state_scheme \<Rightarrow> int kres" where
  "get_pgroup_id s = the_proc s (\<lambda>p. Ok (p_pgroup_id (proc p s)))"

text \<open>A list of processes has at most \<open>STATIC_PROC_NUM\<close> nodes; the walk is bounded by one more.\<close>

definition pgroup_procs_count_unsafe :: "nat \<Rightarrow> 'a pgroup_state_scheme \<Rightarrow> int kres" where
  "pgroup_procs_count_unsafe g s =
     kbind (list_count_nodes (Suc STATIC_PROC_NUM) (procs_head g) (plinks s)) (\<lambda>n. Ok (int n))"

definition pgroup_procs_count :: "'a pgroup_state_scheme \<Rightarrow> (int \<times> 'a pgroup_state_scheme) kres" where
  "pgroup_procs_count s = the_proc s (\<lambda>p.
     kbind (get_proc_group (p_pgroup_id (proc p s))) (\<lambda>g.
     kbind (acquire (PgroupLock g) s) (\<lambda>s.
     kbind (pgroup_procs_count_unsafe g s) (\<lambda>n.
     kbind (release (PgroupLock g) s) (\<lambda>s. Ok (n, s))))))"

definition create_pgroup :: "'a pgroup_state_scheme \<Rightarrow> (int \<times> 'a pgroup_state_scheme) kres" where
  "create_pgroup s =
     kbind (push_off s) (\<lambda>s.
     kbind (proc_leave_pgroup_with_cpu s) (\<lambda>(err, s).
     if err \<noteq> 0 then kbind (pop_off s) (\<lambda>s. Ok (- 1, s))
     else the_proc s (\<lambda>p.
       kbind (alloc_pgroup s) (\<lambda>(r, s).
       case r of
         None \<Rightarrow> Panic ''create_pgroup: run out of proc group''
       | Some g \<Rightarrow>
           kbind (acquire (PgroupLock g) s) (\<lambda>s.
           kbind (add_my_proc_to_pgroup g p s) (\<lambda>s.
           kbind (release (PgroupLock g) s) (\<lambda>s.
           kbind (pop_off s) (\<lambda>s. Ok (p_pgroup_id (proc p s), s)))))))))"

definition enter_pgroup ::
  "('a pgroup_state_scheme \<Rightarrow> 'a pgroup_state_scheme kres) \<Rightarrow> int \<Rightarrow>
     'a pgroup_state_scheme \<Rightarrow> (int \<times> 'a pgroup_state_scheme) kres" where
  "enter_pgroup sw pgroup_id s =
     (if pgroup_id \<ge> int MAX_PROC_GROUP_NUM \<or> pgroup_id < 0 then Ok (- 1, s)
      else the_proc s (\<lambda>p.
        kbind (get_proc_group (p_pgroup_id (proc p s))) (\<lambda>old.
        let new = nat pgroup_id in
        if new = old then Ok (0, s)
        else
          kbind (push_off s) (\<lambda>s.
          kbind (proc_leave_pgroup_without_cpu s) (\<lambda>s.
          kbind (acquire (PgroupLock new) s) (\<lambda>s.
          if g_id (group new s) = - 1 then
            kbind (release (PgroupLock new) s) (\<lambda>s.
            kbind (acquire (PgroupLock old) s) (\<lambda>s.
            kbind (add_my_proc_to_pgroup old p s) (\<lambda>s.
            kbind (release (PgroupLock old) s) (\<lambda>s.
            kbind (pop_off s) (\<lambda>s. Ok (- 1, s))))))
          else
            kbind (add_my_proc_to_pgroup new p s) (\<lambda>s.
            kbind (release (PgroupLock new) s) (\<lambda>s.
            kbind (pop_off s) (\<lambda>s.
            kbind (yield sw RUNABLE s) (\<lambda>s. Ok (0, s)))))))))))"

section \<open>Called by the scheduler and by fork and exit\<close>

definition cpu_leave_pgroup_if_empty :: "'a pgroup_state_scheme \<Rightarrow> (int \<times> 'a pgroup_state_scheme) kres" where
  "cpu_leave_pgroup_if_empty s =
     kbind (get_proc_group (c_pgroup_id (cpus s ! me s))) (\<lambda>g.
     if \<not> list_empty (procs_head g) (plinks s) then Ok (- 1, s)
     else
       kbind (remove_my_cpu_from_pgroup g s) (\<lambda>s.
       kbind (if pgroup_cpu_count_unsafe g s = 0 then free_pgroup g s else Ok s) (\<lambda>s.
       kbind (release (PgroupLock g) s) (\<lambda>s.
       let d = get_default_pgroup in
       kbind (acquire (PgroupLock d) s) (\<lambda>s.
       kbind (add_my_cpu_to_pgroup d s) (\<lambda>s.
       kbind (release (PgroupLock d) s) (\<lambda>s.
       kbind (inc_free_cpus s) (\<lambda>s.
       kbind (acquire (PgroupLock g) s) (\<lambda>s. Ok (0, s))))))))))"

definition proc_move_to_tail :: "nat \<Rightarrow> nat \<Rightarrow> 'a pgroup_state_scheme \<Rightarrow> 'a pgroup_state_scheme kres" where
  "proc_move_to_tail g p s =
     kbind (with_links (list_del (pgroup_list p)) s) (with_links (list_add_tail (pgroup_list p) (procs_head g)))"

definition forkproc_into_pgroup :: "int \<Rightarrow> nat \<Rightarrow> 'a pgroup_state_scheme \<Rightarrow> (int \<times> 'a pgroup_state_scheme) kres" where
  "forkproc_into_pgroup pgroup_id p s =
     (if pgroup_id \<ge> int MAX_CPU_NUM \<or> pgroup_id < 0 then Ok (- 1, s)
      else
        let g = nat pgroup_id in
        kbind (acquire (PgroupLock g) s) (\<lambda>s.
        if g_id (group g s) = - 1 \<or> g_exclusively_occupy (group g s)
        then kbind (release (PgroupLock g) s) (\<lambda>s. Ok (- 1, s))
        else
          kbind (with_links (list_add (pgroup_list p) (procs_head g)) s) (\<lambda>s.
          kbind (release (PgroupLock g) (upd_proc p (\<lambda>q. q\<lparr>p_pgroup_id := pgroup_id\<rparr>) s)) (\<lambda>s.
          Ok (0, s)))))"

definition exit_pgroup :: "'a pgroup_state_scheme \<Rightarrow> 'a pgroup_state_scheme kres" where
  "exit_pgroup s = proc_leave_pgroup_without_cpu s"

section \<open>System calls on the CPUs of a group\<close>

definition pgroup_cpu_count :: "'a pgroup_state_scheme \<Rightarrow> (int \<times> 'a pgroup_state_scheme) kres" where
  "pgroup_cpu_count s = the_proc s (\<lambda>p.
     kbind (get_proc_group (p_pgroup_id (proc p s))) (\<lambda>g.
     kbind (acquire (PgroupLock g) s) (\<lambda>s.
     let n = pgroup_cpu_count_unsafe g s in
     kbind (release (PgroupLock g) s) (\<lambda>s. Ok (n, s)))))"

definition inc_pgroup_cpus ::
  "('a pgroup_state_scheme \<Rightarrow> 'a pgroup_state_scheme kres) \<Rightarrow>
     'a pgroup_state_scheme \<Rightarrow> (int \<times> 'a pgroup_state_scheme) kres" where
  "inc_pgroup_cpus sw s = the_proc s (\<lambda>p.
     kbind (get_proc_group (p_pgroup_id (proc p s))) (\<lambda>g.
     if p_pgroup_id (proc p s) = DEFAULT_PGROUP_ID \<or> g_exclusively_occupy (group g s) then Ok (- 1, s)
     else
       kbind (dec_free_cpus s) (\<lambda>(err, s).
       if err \<noteq> 0 then Ok (- 1, s)
       else
         kbind (acquire (PgroupLock g) s) (\<lambda>s.
         kbind (send_cpu_message (NEED_CPU (CpuMessageChan p) (p_pgroup_id (proc p s))) s) (\<lambda>s.
         kbind (sleep sw (PgroupLock g) (CpuMessageChan p) s) (\<lambda>s.
         kbind (release (PgroupLock g) s) (\<lambda>s. Ok (0, s))))))))"

definition inc_pgroup_cpus_flex :: "'a pgroup_state_scheme \<Rightarrow> (int \<times> 'a pgroup_state_scheme) kres" where
  "inc_pgroup_cpus_flex s = the_proc s (\<lambda>p.
     kbind (get_proc_group (p_pgroup_id (proc p s))) (\<lambda>g.
     if p_pgroup_id (proc p s) = DEFAULT_PGROUP_ID \<or> g_exclusively_occupy (group g s) then Ok (- 1, s)
     else
       kbind (dec_free_cpus s) (\<lambda>(err, s).
       if err \<noteq> 0 then Ok (- 1, s)
       else kbind (send_cpu_message (NEED_CPU_FLEX g) s) (\<lambda>s. Ok (0, s)))))"

definition dec_pgroup_cpus ::
  "('a pgroup_state_scheme \<Rightarrow> 'a pgroup_state_scheme kres) \<Rightarrow>
     'a pgroup_state_scheme \<Rightarrow> (int \<times> 'a pgroup_state_scheme) kres" where
  "dec_pgroup_cpus sw s =
     kbind (push_off s) (\<lambda>s.
     if c_pgroup_id (cpus s ! me s) = DEFAULT_PGROUP_ID then kbind (pop_off s) (\<lambda>s. Ok (- 1, s))
     else
       kbind (get_proc_group (c_pgroup_id (cpus s ! me s))) (\<lambda>g.
       kbind (acquire (PgroupLock g) s) (\<lambda>s.
       kbind (cpu_leave_pgroup s) (\<lambda>(err, s).
       kbind (release (PgroupLock g) s) (\<lambda>s.
       if err \<noteq> 0 then kbind (pop_off s) (\<lambda>s. Ok (- 1, s))
       else
         let d = get_default_pgroup in
         kbind (acquire (PgroupLock d) s) (\<lambda>s.
         kbind (add_my_cpu_to_pgroup d s) (\<lambda>s.
         kbind (release (PgroupLock d) s) (\<lambda>s.
         kbind (inc_free_cpus s) (\<lambda>s.
         kbind (pop_off s) (\<lambda>s.
         kbind (yield sw RUNABLE s) (\<lambda>s. Ok (0, s))))))))))))"

text \<open>The idle loop of a CPU of the default group serves the oldest request.\<close>

definition message_group :: "cpu_message \<Rightarrow> nat option kres" where
  "message_group m = (case m of
     NEED_CPU c i \<Rightarrow> kbind (get_proc_group i) (\<lambda>g. Ok (Some g))
   | NEED_CPU_FLEX g \<Rightarrow> Ok (Some g)
   | EMP_MESSAGE \<Rightarrow> Ok None)"

definition handle_cpu_acquire :: "'a pgroup_state_scheme \<Rightarrow> 'a pgroup_state_scheme kres" where
  "handle_cpu_acquire s =
     (if c_pgroup_id (cpus s ! me s) \<noteq> DEFAULT_PGROUP_ID
      then Panic ''handle_cpu_acquire: other proc group cpus want to handle cpu acquire''
      else if no_message_atomic s then Ok s
      else
        kbind (get_cpu_message s) (\<lambda>(m, s).
        kbind (message_group m) (\<lambda>r.
        case r of
          None \<Rightarrow> resend_cpu_message m s
        | Some new \<Rightarrow>
            let old = get_default_pgroup in
            kbind (acquire (PgroupLock old) s) (\<lambda>s.
            if pgroup_cpu_count_unsafe old s = 1 then Panic ''handle_cpu_acquire: too many cpus been allocate''
            else
              kbind (remove_my_cpu_from_pgroup old s) (\<lambda>s.
              kbind (release (PgroupLock old) s) (\<lambda>s.
              kbind (acquire (PgroupLock new) s) (\<lambda>s.
              if g_id (group new s) = - 1 then
                (case m of
                   NEED_CPU_FLEX g \<Rightarrow>
                     kbind (release (PgroupLock new) s) (\<lambda>s.
                     kbind (acquire (PgroupLock old) s) (\<lambda>s.
                     kbind (add_my_cpu_to_pgroup old s) (\<lambda>s.
                     kbind (inc_free_cpus s) (release (PgroupLock old)))))
                 | _ \<Rightarrow> Panic ''handle_cpu_acquire: empty group acquire cpu'')
              else
                kbind (add_my_cpu_to_pgroup new s) (\<lambda>s.
                kbind (case m of NEED_CPU c i \<Rightarrow> wake_up c s | _ \<Rightarrow> Ok s)
                  (release (PgroupLock new))))))))))"

section \<open>Exclusive use of a CPU\<close>

definition proc_occupy_cpu :: "'a pgroup_state_scheme \<Rightarrow> (int \<times> 'a pgroup_state_scheme) kres" where
  "proc_occupy_cpu s = the_proc s (\<lambda>p.
     kbind (get_proc_group (p_pgroup_id (proc p s))) (\<lambda>g.
     if p_pgroup_id (proc p s) = DEFAULT_PGROUP_ID then Ok (- 1, s)
     else
       kbind (acquire (PgroupLock g) s) (\<lambda>s.
       kbind (pgroup_procs_count_unsafe g s) (\<lambda>n.
       if n \<noteq> 1 \<or> pgroup_cpu_count_unsafe g s \<noteq> 1 then kbind (release (PgroupLock g) s) (\<lambda>s. Ok (- 1, s))
       else
         let s = upd_group g (\<lambda>gr. gr\<lparr>g_exclusively_occupy := True\<rparr>) s;
             s = s\<lparr>ext_intr := (ext_intr s)[me s := False]\<rparr>
         in kbind (release (PgroupLock g) s) (\<lambda>s. Ok (0, s))))))"

definition proc_release_cpu :: "'a pgroup_state_scheme \<Rightarrow> (int \<times> 'a pgroup_state_scheme) kres" where
  "proc_release_cpu s = the_proc s (\<lambda>p.
     kbind (get_proc_group (p_pgroup_id (proc p s))) (\<lambda>g.
     kbind (acquire (PgroupLock g) s) (\<lambda>s.
     kbind (pgroup_procs_count_unsafe g s) (\<lambda>n.
     if n \<noteq> 1 \<or> pgroup_cpu_count_unsafe g s \<noteq> 1
     then Panic ''proc_release_cpu: process exclusively occupy cpu fail, 1 more procs''
     else if \<not> g_exclusively_occupy (group g s) then kbind (release (PgroupLock g) s) (\<lambda>s. Ok (- 1, s))
     else
       let s = upd_group g (\<lambda>gr. gr\<lparr>g_exclusively_occupy := False\<rparr>) s;
           s = s\<lparr>ext_intr := (ext_intr s)[me s := True]\<rparr>
       in kbind (release (PgroupLock g) s) (\<lambda>s. Ok (0, s))))))"

definition is_exclusive_occupy :: "nat \<Rightarrow> 'a pgroup_state_scheme \<Rightarrow> bool kres" where
  "is_exclusive_occupy p s =
     kbind (get_proc_group (p_pgroup_id (proc p s))) (\<lambda>g. Ok (g_exclusively_occupy (group g s)))"

end
