(* ===== verification/Pgroup_Inv.thy ===== *)
theory Pgroup_Inv
  imports Proc_Group
begin

text \<open>
  The invariant of process groups (include/process/proc_group.h) and what each operation of
  kernel/process/proc_group.c does under it: which process and which CPU belongs to which group, and
  the accounting of free CPUs against the requests in the message box.
\<close>

section \<open>Lists of several groups\<close>

lemma list_add_frame:
  assumes "ring L h xs" "x \<notin> set (h # xs)" "list_add x h L = Ok L'" "a \<notin> set (x # h # xs)"
  shows "nxt L' a = nxt L a \<and> prv L' a = prv L a"
proof -
  have n: "nxt L h = hd (xs @ [h])" using ring_next [of L h "[]" xs] assms(1) by simp
  have "hd (xs @ [h]) \<in> set (h # xs)" by (cases xs) auto
  moreover have "L' = list_add_between x h (hd (xs @ [h])) L"
    using u_list_add_ring [of L h "[]" xs x] assms(1-3) by (simp add: list_add_def n)
  ultimately show ?thesis using assms(4) list_add_between_frame [of a x h "hd (xs @ [h])" L]
      list_add_between_frame(2) [of a x "hd (xs @ [h])" h L] by auto
qed

lemma list_add_tail_frame:
  assumes "ring L h xs" "x \<notin> set (h # xs)" "list_add_tail x h L = Ok L'" "a \<notin> set (x # h # xs)"
  shows "nxt L' a = nxt L a \<and> prv L' a = prv L a"
proof -
  have p: "prv L h = last (h # xs)" using ring_prev [of L h xs "[]"] assms(1) by simp
  have m: "last (h # xs) \<in> set (h # xs)" by (rule last_in_set) simp
  have "L' = list_add_between x (last (h # xs)) h L"
    using u_list_add_ring [of L h xs "[]" x] assms(1-3) by (simp add: list_add_tail_def p del: last.simps)
  moreover have "a \<noteq> last (h # xs)" using m assms(4) by auto
  ultimately show ?thesis using assms(4) list_add_between_frame [of a x "last (h # xs)" h L]
      list_add_between_frame(2) [of a x h "last (h # xs)" L] by auto
qed

lemma list_del_frame:
  assumes "ring L h (ys @ x # zs)" "list_del x L = Ok L'" "a \<notin> set (h # ys @ x # zs)"
  shows "nxt L' a = nxt L a \<and> prv L' a = prv L a"
proof -
  have "last (h # ys) \<in> set (h # ys)" by (rule last_in_set) simp
  then have "a \<noteq> last (h # ys)" "a \<noteq> hd (zs @ [h])" "a \<noteq> x"
    using assms(3) by (auto simp: hd_append split: if_splits)
  then show ?thesis
    using assms(2) by (auto simp: list_del_def list_del_entry_ring [OF assms(1)] u_list_del_def)
qed

text \<open>\<open>m\<close> gives the processes of each group in list order.\<close>

definition rings :: "(nat \<Rightarrow> nat list) \<Rightarrow> pnode lptr links \<Rightarrow> bool" where
  "rings m L \<longleftrightarrow> (\<forall>g < MAX_PROC_GROUP_NUM. ring L (procs_head g) (map pgroup_list (m g)))"

definition members :: "(nat \<Rightarrow> nat list) \<Rightarrow> process list \<Rightarrow> bool" where
  "members m ps \<longleftrightarrow> (\<forall>g < MAX_PROC_GROUP_NUM. \<forall>p. p \<in> set (m g) \<longleftrightarrow> p < length ps \<and> p_pgroup_id (ps ! p) = int g)"

lemma rings_D: "rings m L \<Longrightarrow> g < MAX_PROC_GROUP_NUM \<Longrightarrow> ring L (procs_head g) (map pgroup_list (m g))"
  by (simp add: rings_def)

lemma rings_distinct: "rings m L \<Longrightarrow> g < MAX_PROC_GROUP_NUM \<Longrightarrow> distinct (m g)"
  using kl.repr_distinct [OF rings_D] by (auto simp: distinct_map)

lemma members_D:
  "members m ps \<Longrightarrow> g < MAX_PROC_GROUP_NUM \<Longrightarrow> p \<in> set (m g) \<longleftrightarrow> p < length ps \<and> p_pgroup_id (ps ! p) = int g"
  by (simp add: members_def)

lemma members_disjoint:
  assumes "members m ps" "g < MAX_PROC_GROUP_NUM" "g' < MAX_PROC_GROUP_NUM" "g \<noteq> g'"
  shows "set (m g) \<inter> set (m g') = {}"
  using assms(4) by (auto simp: members_D [OF assms(1,2)] members_D [OF assms(1,3)])

lemma rings_update:
  assumes r: "rings m L" and g: "g < MAX_PROC_GROUP_NUM" and new: "ring L' (procs_head g) (map pgroup_list xs)"
    and fr: "\<And>a. a \<notin> insert (procs_head g) (pgroup_list ` S) \<Longrightarrow> nxt L' a = nxt L a \<and> prv L' a = prv L a"
    and dj: "\<And>g'. g' < MAX_PROC_GROUP_NUM \<Longrightarrow> g' \<noteq> g \<Longrightarrow> S \<inter> set (m g') = {}"
  shows "rings (m(g := xs)) L'"
  unfolding rings_def
proof (intro allI impI)
  fix g' assume g': "g' < MAX_PROC_GROUP_NUM"
  show "ring L' (procs_head g') (map pgroup_list ((m(g := xs)) g'))"
  proof (cases "g' = g")
    case True
    then show ?thesis using new by simp
  next
    case False
    have "ring L' (procs_head g') (map pgroup_list (m g'))"
    proof (rule ring_frame [OF rings_D [OF r g']])
      fix a assume "a \<in> set (procs_head g' # map pgroup_list (m g'))"
      then have "a \<notin> insert (procs_head g) (pgroup_list ` S)" using dj [OF g' False] False by auto
      then show "nxt L' a = nxt L a \<and> prv L' a = prv L a" by (rule fr)
    qed
    then show ?thesis using False by simp
  qed
qed

lemma members_update:
  assumes "members m ps" "p < length ps" "g < MAX_PROC_GROUP_NUM" "p_pgroup_id (ps ! p) = - 1" "set xs = insert p (set (m g))"
  shows "members (m(g := xs)) (ps[p := (ps ! p)\<lparr>p_pgroup_id := int g\<rparr>])"
  using assms by (auto simp: members_def nth_list_update)

lemma members_remove:
  assumes "members m ps" "p < length ps" "g < MAX_PROC_GROUP_NUM" "p_pgroup_id (ps ! p) = int g" "set xs = set (m g) - {p}"
  shows "members (m(g := xs)) (ps[p := (ps ! p)\<lparr>p_pgroup_id := - 1\<rparr>])"
  using assms by (auto simp: members_def nth_list_update)

text \<open>The three list operations the groups use, on all lists at once.\<close>

lemma rings_add:
  assumes r: "rings m L" and me: "members m ps" and g: "g < MAX_PROC_GROUP_NUM"
    and p: "p < length ps" "p_pgroup_id (ps ! p) = - 1"
  shows "kok (\<lambda>L'. rings (m(g := p # m g)) L') (list_add (pgroup_list p) (procs_head g) L)"
proof -
  have np: "p \<notin> set (m g')" if "g' < MAX_PROC_GROUP_NUM" for g' using members_D [OF me that] p by simp
  have x: "pgroup_list p \<notin> set (procs_head g # map pgroup_list (m g))" using np [OF g] by auto
  obtain L' where L': "list_add (pgroup_list p) (procs_head g) L = Ok L'"
    "ring L' (procs_head g) (map pgroup_list (p # m g))"
    using kl.add_law [OF rings_D [OF r g] x] by (auto simp: kok_def)
  have "rings (m(g := p # m g)) L'"
  proof (rule rings_update [OF r g L'(2), of "insert p (set (m g))"])
    show "nxt L' a = nxt L a \<and> prv L' a = prv L a" if "a \<notin> insert (procs_head g) (pgroup_list ` insert p (set (m g)))" for a
      using list_add_frame [OF rings_D [OF r g] x L'(1), of a] that by auto
    show "insert p (set (m g)) \<inter> set (m g') = {}" if "g' < MAX_PROC_GROUP_NUM" "g' \<noteq> g" for g'
      using members_disjoint [OF me g that(1)] np [OF that(1)] that(2) by auto
  qed
  then show ?thesis using L' by simp
qed

lemma rings_del:
  assumes r: "rings m L" and me: "members m ps" and g: "g < MAX_PROC_GROUP_NUM" and p: "p \<in> set (m g)"
  shows "kok (\<lambda>L'. rings (m(g := remove1 p (m g))) L') (list_del (pgroup_list p) L)"
proof -
  obtain ys zs where d: "m g = ys @ p # zs" "p \<notin> set ys" using split_list_first [OF p] by blast
  have rg: "ring L (procs_head g) (map pgroup_list ys @ pgroup_list p # map pgroup_list zs)"
    using rings_D [OF r g] d(1) by simp
  obtain L' where L': "list_del (pgroup_list p) L = Ok L'" "ring L' (procs_head g) (map pgroup_list ys @ map pgroup_list zs)"
    using kl.del_law [OF rg] by (auto simp: kok_def)
  have e: "remove1 p (m g) = ys @ zs" using d by (simp add: remove1_append)
  have "rings (m(g := ys @ zs)) L'"
  proof (rule rings_update [OF r g, of L' "ys @ zs" "set (m g)"])
    show "nxt L' a = nxt L a \<and> prv L' a = prv L a" if "a \<notin> insert (procs_head g) (pgroup_list ` set (m g))" for a
      using list_del_frame [OF rg L'(1), of a] that d(1) by auto
  qed (use L'(2) members_disjoint [OF me g] in auto)
  then show ?thesis using L' e by simp
qed

lemma rings_requeue:
  assumes r: "rings m L" and me: "members m ps" and g: "g < MAX_PROC_GROUP_NUM" and p: "p \<in> set (m g)"
  shows "kok (\<lambda>L'. rings (m(g := remove1 p (m g) @ [p])) L')
    (kbind (list_del (pgroup_list p) L) (list_add_tail (pgroup_list p) (procs_head g)))"
proof -
  obtain L1 where L1: "list_del (pgroup_list p) L = Ok L1" "rings (m(g := remove1 p (m g))) L1"
    using rings_del [OF assms] by (auto simp: kok_def)
  let ?m = "m(g := remove1 p (m g))"
  have "distinct (m g)" by (rule rings_distinct [OF r g])
  then have x: "pgroup_list p \<notin> set (procs_head g # map pgroup_list (?m g))" by auto
  obtain L' where L': "list_add_tail (pgroup_list p) (procs_head g) L1 = Ok L'"
    "ring L' (procs_head g) (map pgroup_list (remove1 p (m g) @ [p]))"
    using kl.add_tail_law [OF rings_D [OF L1(2) g] x] by (auto simp: kok_def)
  have "rings (?m(g := remove1 p (m g) @ [p])) L'"
  proof (rule rings_update [OF L1(2) g L'(2), of "set (m g)"])
    show "nxt L' a = nxt L1 a \<and> prv L' a = prv L1 a" if "a \<notin> insert (procs_head g) (pgroup_list ` set (m g))" for a
      using list_add_tail_frame [OF rings_D [OF L1(2) g] x L'(1), of a] that p
        set_remove1_subset [of p "m g"] by auto
    show "set (m g) \<inter> set (?m g') = {}" if "g' < MAX_PROC_GROUP_NUM" "g' \<noteq> g" for g'
      using members_disjoint [OF me g that(1)] that(2) by auto
  qed
  then show ?thesis using L1 L' by simp
qed

section \<open>CPUs of the groups\<close>

definition cpus_in :: "nat \<Rightarrow> 'a pgroup_state_scheme \<Rightarrow> nat set" where
  "cpus_in g s = {c. c < MAX_CPU_NUM \<and> c_pgroup_id (cpus s ! c) = int g}"

text \<open>The arrays \<open>cpus\<close> of the groups mirror the field \<open>pgroup_id\<close> of the CPUs.\<close>

definition cpus_ok :: "'a pgroup_state_scheme \<Rightarrow> bool" where
  "cpus_ok s \<longleftrightarrow> length (cpus s) = MAX_CPU_NUM \<and> length (groups s) = MAX_PROC_GROUP_NUM \<and>
     me s < MAX_CPU_NUM \<and> c_cpu_id (cpus s ! me s) = int (me s) \<and>
     (\<forall>g < MAX_PROC_GROUP_NUM. length (g_cpus (group g s)) = MAX_CPU_NUM \<and>
        (\<forall>c < MAX_CPU_NUM. g_cpus (group g s) ! c = (if c_pgroup_id (cpus s ! c) = int g then int c else - 1)))"

definition cpu_join :: "nat \<Rightarrow> 'a pgroup_state_scheme \<Rightarrow> 'a pgroup_state_scheme" where
  "cpu_join g s = s\<lparr>cpus := (cpus s)[me s := (cpus s ! me s)\<lparr>c_pgroup_id := int g\<rparr>],
     groups := (groups s)[g := (group g s)\<lparr>g_cpus := (g_cpus (group g s))[me s := int (me s)]\<rparr>]\<rparr>"

definition cpu_part :: "nat \<Rightarrow> 'a pgroup_state_scheme \<Rightarrow> 'a pgroup_state_scheme" where
  "cpu_part g s = s\<lparr>cpus := (cpus s)[me s := (cpus s ! me s)\<lparr>c_pgroup_id := - 1\<rparr>],
     groups := (groups s)[g := (group g s)\<lparr>g_cpus := (g_cpus (group g s))[me s := - 1]\<rparr>]\<rparr>"

lemma cpu_join_fields [simp]:
  "procs (cpu_join g s) = procs s" "plinks (cpu_join g s) = plinks s" "held (cpu_join g s) = held s"
  "noff (cpu_join g s) = noff s" "um_box (cpu_join g s) = um_box s" "free_cpus (cpu_join g s) = free_cpus s"
  "me (cpu_join g s) = me s" "length (groups (cpu_join g s)) = length (groups s)"
  "length (cpus (cpu_join g s)) = length (cpus s)" "ext_intr (cpu_join g s) = ext_intr s"
  by (simp_all add: cpu_join_def)

lemma cpu_part_fields [simp]:
  "procs (cpu_part g s) = procs s" "plinks (cpu_part g s) = plinks s" "held (cpu_part g s) = held s"
  "noff (cpu_part g s) = noff s" "um_box (cpu_part g s) = um_box s" "free_cpus (cpu_part g s) = free_cpus s"
  "me (cpu_part g s) = me s" "length (groups (cpu_part g s)) = length (groups s)"
  "length (cpus (cpu_part g s)) = length (cpus s)" "ext_intr (cpu_part g s) = ext_intr s"
  by (simp_all add: cpu_part_def)

lemma cpu_join_group_nth:
  "group h (cpu_join g s) = (if h = g \<and> g < length (groups s)
     then (group g s)\<lparr>g_cpus := (g_cpus (group g s))[me s := int (me s)]\<rparr> else group h s)"
proof (cases "g < length (groups s)")
  case True
  then show ?thesis by (cases "h = g") (simp_all add: cpu_join_def)
next
  case False
  then have "(groups s)[g := x] = groups s" for x by (simp add: list_update_beyond)
  then show ?thesis using False by (simp add: cpu_join_def)
qed

lemma cpu_join_group [simp]:
  "g_id (group h (cpu_join g s)) = g_id (group h s)"
  "g_exclusively_occupy (group h (cpu_join g s)) = g_exclusively_occupy (group h s)"
  by (simp_all add: cpu_join_group_nth)

lemma cpu_part_group_nth:
  "group h (cpu_part g s) = (if h = g \<and> g < length (groups s)
     then (group g s)\<lparr>g_cpus := (g_cpus (group g s))[me s := - 1]\<rparr> else group h s)"
proof (cases "g < length (groups s)")
  case True
  then show ?thesis by (cases "h = g") (simp_all add: cpu_part_def)
next
  case False
  then have "(groups s)[g := x] = groups s" for x by (simp add: list_update_beyond)
  then show ?thesis using False by (simp add: cpu_part_def)
qed

lemma cpu_part_group [simp]:
  "g_id (group h (cpu_part g s)) = g_id (group h s)"
  "g_exclusively_occupy (group h (cpu_part g s)) = g_exclusively_occupy (group h s)"
  by (simp_all add: cpu_part_group_nth)

lemma cpus_ok_D:
  assumes "cpus_ok s"
  shows "length (cpus s) = MAX_CPU_NUM" "length (groups s) = MAX_PROC_GROUP_NUM" "me s < MAX_CPU_NUM"
    "c_cpu_id (cpus s ! me s) = int (me s)"
  using assms by (simp_all add: cpus_ok_def)

lemma cpus_ok_array:
  assumes "cpus_ok s" "g < MAX_PROC_GROUP_NUM"
  shows "length (g_cpus (group g s)) = MAX_CPU_NUM"
    "c < MAX_CPU_NUM \<Longrightarrow> g_cpus (group g s) ! c = (if c_pgroup_id (cpus s ! c) = int g then int c else - 1)"
  using assms by (simp_all add: cpus_ok_def)

lemma cpu_join_c_pgroup_id:
  "cpus_ok s \<Longrightarrow> c_pgroup_id (cpus (cpu_join g s) ! c) = (if c = me s then int g else c_pgroup_id (cpus s ! c))"
  by (auto simp: cpu_join_def cpus_ok_def)

lemma cpu_part_c_pgroup_id:
  "cpus_ok s \<Longrightarrow> c_pgroup_id (cpus (cpu_part g s) ! c) = (if c = me s then - 1 else c_pgroup_id (cpus s ! c))"
  by (auto simp: cpu_part_def cpus_ok_def)

lemma cpu_my_proc [simp]:
  "cpus_ok s \<Longrightarrow> my_proc (cpu_join g s) = my_proc s" "cpus_ok s \<Longrightarrow> my_proc (cpu_part g s) = my_proc s"
  by (simp_all add: my_proc_def cpu_join_def cpu_part_def cpus_ok_def)

lemma cpus_in_join:
  "cpus_ok s \<Longrightarrow> c_pgroup_id (cpus s ! me s) = - 1 \<Longrightarrow>
     cpus_in h (cpu_join g s) = (if h = g then insert (me s) (cpus_in h s) else cpus_in h s)"
  by (auto simp: cpus_in_def cpu_join_c_pgroup_id dest: cpus_ok_D)

lemma cpus_in_part: "cpus_ok s \<Longrightarrow> cpus_in h (cpu_part g s) = cpus_in h s - {me s}"
  by (auto simp: cpus_in_def cpu_part_c_pgroup_id)

lemma cpu_join_ok:
  assumes "cpus_ok s" "c_pgroup_id (cpus s ! me s) = - 1" "g < MAX_PROC_GROUP_NUM"
  shows "cpus_ok (cpu_join g s)"
  using assms by (auto simp: cpus_ok_def cpu_join_def nth_list_update)

lemma cpu_part_ok:
  assumes "cpus_ok s" "c_pgroup_id (cpus s ! me s) = int g" "g < MAX_PROC_GROUP_NUM"
  shows "cpus_ok (cpu_part g s)"
  using assms by (auto simp: cpus_ok_def cpu_part_def nth_list_update)

lemma add_my_cpu_eq:
  assumes "cpus_ok s" "c_pgroup_id (cpus s ! me s) = - 1" "g < MAX_PROC_GROUP_NUM" "g_id (group g s) = int g"
  shows "add_my_cpu_to_pgroup g s = Ok (cpu_join g s)"
  using assms cpus_ok_array(2) [OF assms(1,3), of "me s"] cpus_ok_D [OF assms(1)]
  by (simp add: add_my_cpu_to_pgroup_def cpu_join_def upd_cpu_def upd_group_def Let_def)

lemma remove_my_cpu_eq:
  assumes "cpus_ok s" "c_pgroup_id (cpus s ! me s) = int g" "g < MAX_PROC_GROUP_NUM" "g_id (group g s) = int g"
  shows "remove_my_cpu_from_pgroup g s = Ok (cpu_part g s)"
  using assms cpus_ok_array(2) [OF assms(1,3), of "me s"] cpus_ok_D [OF assms(1)]
  by (simp add: remove_my_cpu_from_pgroup_def cpu_part_def upd_cpu_def upd_group_def Let_def)

text \<open>Leaving and joining again gives back the state.\<close>

lemma cpu_part_join:
  assumes "cpus_ok s" "c_pgroup_id (cpus s ! me s) = int g" "g < MAX_PROC_GROUP_NUM"
  shows "cpu_join g (cpu_part g s) = s"
proof -
  have "(g_cpus (group g s))[me s := int (me s)] = g_cpus (group g s)"
    using cpus_ok_array(2) [OF assms(1,3), of "me s"] cpus_ok_D(3) [OF assms(1)] assms(2)
    by (metis list_update_id)
  then have "(group g s)\<lparr>g_cpus := (g_cpus (group g s))[me s := int (me s)]\<rparr> = group g s" by simp
  moreover have "(cpus s ! me s)\<lparr>c_pgroup_id := int g\<rparr> = cpus s ! me s" using assms(2) [symmetric] by simp
  moreover have "g < length (groups s)" "me s < length (cpus s)" using cpus_ok_D [OF assms(1)] assms(3) by simp_all
  ultimately show ?thesis by (simp add: cpu_join_def cpu_part_def)
qed

lemma finite_cpus_in [simp]: "finite (cpus_in g s)"
  by (simp add: cpus_in_def)

lemma cpu_count_eq:
  assumes "cpus_ok s" "g < MAX_PROC_GROUP_NUM"
  shows "pgroup_cpu_count_unsafe g s = int (card (cpus_in g s))"
proof -
  have "{c. c < length (g_cpus (group g s)) \<and> g_cpus (group g s) ! c \<noteq> - 1} = cpus_in g s"
    using cpus_ok_array [OF assms] by (auto simp: cpus_in_def split: if_splits)
  then show ?thesis by (simp add: pgroup_cpu_count_unsafe_def length_filter_conv_card)
qed

lemma dec_free_cpus_eq:
  assumes "FreeCpusLock \<notin> held s" "0 \<le> free_cpus s"
  shows "dec_free_cpus s = Ok (if free_cpus s = 0 then (- 1, s) else (0, s\<lparr>free_cpus := free_cpus s - 1\<rparr>))"
  using assms by (simp add: dec_free_cpus_def lock_simps)

lemma inc_free_cpus_eq:
  assumes "FreeCpusLock \<notin> held s" "0 \<le> free_cpus s"
  shows "inc_free_cpus s = Ok (s\<lparr>free_cpus := free_cpus s + 1\<rparr>)"
  using assms by (simp add: inc_free_cpus_def lock_simps)

section \<open>Invariant\<close>

text \<open>
  The invariants stated in proc_group.h and what else the code relies on: \<open>m g\<close> lists the processes
  of group \<open>g\<close>; a group is in use exactly when some CPU belongs to it (so a group with processes has
  a CPU), and an unused one has no process and no exclusive owner; the default group is in use.
\<close>

definition pg_core :: "(nat \<Rightarrow> nat list) \<Rightarrow> 'a pgroup_state_scheme \<Rightarrow> bool" where
  "pg_core m s \<longleftrightarrow> rings m (plinks s) \<and> members m (procs s) \<and> length (procs s) = STATIC_PROC_NUM \<and> cpus_ok s \<and>
     (\<forall>p < STATIC_PROC_NUM. - 1 \<le> p_pgroup_id (proc p s) \<and> p_pgroup_id (proc p s) < int MAX_PROC_GROUP_NUM) \<and>
     (\<forall>c < MAX_CPU_NUM. - 1 \<le> c_pgroup_id (cpus s ! c) \<and> c_pgroup_id (cpus s ! c) < int MAX_PROC_GROUP_NUM) \<and>
     (\<forall>g < MAX_PROC_GROUP_NUM. g_id (group g s) = (if cpus_in g s = {} then - 1 else int g) \<and>
        (cpus_in g s = {} \<longrightarrow> m g = [] \<and> \<not> g_exclusively_occupy (group g s))) \<and>
     cpus_in 0 s \<noteq> {}"

text \<open>
  Accounting of CPUs: the default group keeps one CPU for itself; every other CPU in it is either
  free or promised to a request that still waits in the message box.
\<close>

fun message_ok :: "cpu_message \<Rightarrow> bool" where
  "message_ok (NEED_CPU c i) = (0 < i \<and> i < int MAX_PROC_GROUP_NUM)"
| "message_ok (NEED_CPU_FLEX g) = (0 < g \<and> g < MAX_PROC_GROUP_NUM)"
| "message_ok EMP_MESSAGE = False"

definition free_ok :: "'a pgroup_state_scheme \<Rightarrow> bool" where
  "free_ok s \<longleftrightarrow> box_ok (um_box s) \<and> (\<forall>x \<in> set (box_contents (um_box s)). message_ok x) \<and> 0 \<le> free_cpus s \<and>
     int (card (cpus_in 0 s)) = 1 + free_cpus s + int (length (box_contents (um_box s)))"

definition pg_inv :: "(nat \<Rightarrow> nat list) \<Rightarrow> 'a pgroup_state_scheme \<Rightarrow> bool" where
  "pg_inv m s \<longleftrightarrow> pg_core m s \<and> free_ok s"

lemma pg_core_D:
  assumes "pg_core m s"
  shows "rings m (plinks s)" "members m (procs s)" "length (procs s) = STATIC_PROC_NUM" "cpus_ok s" "cpus_in 0 s \<noteq> {}"
    "p < STATIC_PROC_NUM \<Longrightarrow> - 1 \<le> p_pgroup_id (proc p s) \<and> p_pgroup_id (proc p s) < int MAX_PROC_GROUP_NUM"
    "c < MAX_CPU_NUM \<Longrightarrow> - 1 \<le> c_pgroup_id (cpus s ! c) \<and> c_pgroup_id (cpus s ! c) < int MAX_PROC_GROUP_NUM"
    "g < MAX_PROC_GROUP_NUM \<Longrightarrow> g_id (group g s) = (if cpus_in g s = {} then - 1 else int g)"
    "g < MAX_PROC_GROUP_NUM \<Longrightarrow> cpus_in g s = {} \<Longrightarrow> m g = [] \<and> \<not> g_exclusively_occupy (group g s)"
  using assms by (simp_all add: pg_core_def)

text \<open>The state with a process moved to a group or out of all groups.\<close>

definition proc_to :: "nat \<Rightarrow> int \<Rightarrow> pnode lptr links \<Rightarrow> 'a pgroup_state_scheme \<Rightarrow> 'a pgroup_state_scheme" where
  "proc_to p i L s = upd_proc p (\<lambda>q. q\<lparr>p_pgroup_id := i\<rparr>) (s\<lparr>plinks := L\<rparr>)"

lemma proc_to_fields [simp]:
  "plinks (proc_to p i L s) = L" "held (proc_to p i L s) = held s" "noff (proc_to p i L s) = noff s"
  "um_box (proc_to p i L s) = um_box s" "free_cpus (proc_to p i L s) = free_cpus s" "me (proc_to p i L s) = me s"
  "groups (proc_to p i L s) = groups s" "cpus (proc_to p i L s) = cpus s" "ext_intr (proc_to p i L s) = ext_intr s"
  "my_proc (proc_to p i L s) = my_proc s" "length (procs (proc_to p i L s)) = length (procs s)"
  "cpus_in g (proc_to p i L s) = cpus_in g s" "cpus_ok (proc_to p i L s) = cpus_ok s"
  by (simp_all add: proc_to_def upd_proc_def my_proc_def cpus_in_def cpus_ok_def)

lemma proc_to_procs: "procs (proc_to p i L s) = (procs s)[p := (proc p s)\<lparr>p_pgroup_id := i\<rparr>]"
  by (simp add: proc_to_def upd_proc_def)

lemma proc_to_pgroup_id:
  "p < length (procs s) \<Longrightarrow> p_pgroup_id (proc q (proc_to p i L s)) = (if q = p then i else p_pgroup_id (proc q s))"
  by (simp add: proc_to_procs nth_list_update)

lemma add_proc_core:
  assumes core: "pg_core m s" and g: "g < MAX_PROC_GROUP_NUM" "cpus_in g s \<noteq> {}"
    and p: "p < STATIC_PROC_NUM" "p_pgroup_id (proc p s) = - 1"
  shows "\<exists>L. list_add (pgroup_list p) (procs_head g) (plinks s) = Ok L \<and>
    pg_core (m(g := p # m g)) (proc_to p (int g) L s)"
proof -
  note D = pg_core_D [OF core]
  obtain L where L: "list_add (pgroup_list p) (procs_head g) (plinks s) = Ok L" "rings (m(g := p # m g)) L"
    using rings_add [OF D(1,2) g(1), of p] p D(3) by (auto simp: kok_def)
  have "members (m(g := p # m g)) (procs (proc_to p (int g) L s))"
    using members_update [OF D(2), of p g "p # m g"] p g D(3) by (simp add: proc_to_procs)
  then have "pg_core (m(g := p # m g)) (proc_to p (int g) L s)"
    unfolding pg_core_def using L(2) D g p by (auto simp: proc_to_pgroup_id)
  then show ?thesis using L(1) by blast
qed

lemma del_proc_core:
  assumes core: "pg_core m s" and g: "g < MAX_PROC_GROUP_NUM"
    and p: "p < STATIC_PROC_NUM" "p_pgroup_id (proc p s) = int g"
  shows "\<exists>L. list_del (pgroup_list p) (plinks s) = Ok L \<and>
    pg_core (m(g := remove1 p (m g))) (proc_to p (- 1) L s)"
proof -
  note D = pg_core_D [OF core]
  have mem: "p \<in> set (m g)" using members_D [OF D(2) g] p D(3) by simp
  obtain L where L: "list_del (pgroup_list p) (plinks s) = Ok L" "rings (m(g := remove1 p (m g))) L"
    using rings_del [OF D(1,2) g mem] by (auto simp: kok_def)
  have "distinct (m g)" by (rule rings_distinct [OF D(1) g])
  then have "members (m(g := remove1 p (m g))) (procs (proc_to p (- 1) L s))"
    using members_remove [OF D(2), of p g "remove1 p (m g)"] p g D(3) by (simp add: proc_to_procs)
  then have "pg_core (m(g := remove1 p (m g))) (proc_to p (- 1) L s)"
    unfolding pg_core_def using L(2) D g p by (auto simp: proc_to_pgroup_id)
  then show ?thesis using L(1) by blast
qed

lemma add_my_proc_core:
  assumes "pg_core m s" "g < MAX_PROC_GROUP_NUM" "cpus_in g s \<noteq> {}" "my_proc s = Some p"
    "p < STATIC_PROC_NUM" "p_pgroup_id (proc p s) = - 1"
  shows "\<exists>L. add_my_proc_to_pgroup g p s = Ok (proc_to p (int g) L s) \<and>
    pg_core (m(g := p # m g)) (proc_to p (int g) L s)"
proof -
  have "g_id (group g s) = int g" using pg_core_D(8) [OF assms(1,2)] assms(3) by simp
  then show ?thesis
    using add_proc_core [OF assms(1-3,5,6)] assms(4,6)
    by (auto simp: add_my_proc_to_pgroup_def with_links_def proc_to_def)
qed

lemma remove_my_proc_core:
  assumes "pg_core m s" "g < MAX_PROC_GROUP_NUM" "my_proc s = Some p" "p < STATIC_PROC_NUM"
    "p_pgroup_id (proc p s) = int g"
  shows "\<exists>L. remove_my_proc_from_pgroup p s = Ok (proc_to p (- 1) L s) \<and>
    pg_core (m(g := remove1 p (m g))) (proc_to p (- 1) L s)"
  using del_proc_core [OF assms(1,2,4,5)] assms(3,5)
  by (auto simp: remove_my_proc_from_pgroup_def with_links_def proc_to_def)

lemma lock_update_keeps [simp]:
  "cpus_in g (s\<lparr>held := h\<rparr>) = cpus_in g s" "cpus_in g (s\<lparr>noff := n\<rparr>) = cpus_in g s"
  "cpus_in g (s\<lparr>free_cpus := k\<rparr>) = cpus_in g s" "cpus_in g (s\<lparr>um_box := b\<rparr>) = cpus_in g s"
  "cpus_ok (s\<lparr>held := h\<rparr>) = cpus_ok s" "cpus_ok (s\<lparr>noff := n\<rparr>) = cpus_ok s"
  "cpus_ok (s\<lparr>free_cpus := k\<rparr>) = cpus_ok s" "cpus_ok (s\<lparr>um_box := b\<rparr>) = cpus_ok s"
  "my_proc (s\<lparr>held := h\<rparr>) = my_proc s" "my_proc (s\<lparr>noff := n\<rparr>) = my_proc s"
  "my_proc (s\<lparr>free_cpus := k\<rparr>) = my_proc s" "my_proc (s\<lparr>um_box := b\<rparr>) = my_proc s"
  by (simp_all add: cpus_in_def cpus_ok_def my_proc_def)

lemma core_update_keeps [simp]:
  "pg_core m (s\<lparr>held := h\<rparr>) = pg_core m s" "pg_core m (s\<lparr>noff := n\<rparr>) = pg_core m s"
  "pg_core m (s\<lparr>free_cpus := k\<rparr>) = pg_core m s" "pg_core m (s\<lparr>um_box := b\<rparr>) = pg_core m s"
  "free_ok (s\<lparr>held := h\<rparr>) = free_ok s" "free_ok (s\<lparr>noff := n\<rparr>) = free_ok s"
  by (simp_all add: pg_core_def free_ok_def)

lemma inv_update_keeps [simp]:
  "pg_inv m (s\<lparr>held := h\<rparr>) = pg_inv m s" "pg_inv m (s\<lparr>noff := n\<rparr>) = pg_inv m s"
  by (simp_all add: pg_inv_def)

lemma free_ok_D:
  assumes "free_ok s"
  shows "box_ok (um_box s)" "0 \<le> free_cpus s" "x \<in> set (box_contents (um_box s)) \<Longrightarrow> message_ok x"
    "int (card (cpus_in 0 s)) = 1 + free_cpus s + int (length (box_contents (um_box s)))"
  using assms by (simp_all add: free_ok_def)

text \<open>Moving a process does not touch the accounting of CPUs.\<close>

lemma free_ok_proc_to [simp]: "free_ok (proc_to p i L s) = free_ok s"
  by (simp add: free_ok_def)

section \<open>A CPU leaves or joins a group\<close>

definition drop_group :: "nat \<Rightarrow> 'a pgroup_state_scheme \<Rightarrow> 'a pgroup_state_scheme" where
  "drop_group g s = upd_group g (\<lambda>gr. gr\<lparr>g_id := - 1, g_exclusively_occupy := False\<rparr>) s"

lemma drop_group_fields [simp]:
  "procs (drop_group g s) = procs s" "plinks (drop_group g s) = plinks s" "held (drop_group g s) = held s"
  "noff (drop_group g s) = noff s" "um_box (drop_group g s) = um_box s" "free_cpus (drop_group g s) = free_cpus s"
  "me (drop_group g s) = me s" "length (groups (drop_group g s)) = length (groups s)" "cpus (drop_group g s) = cpus s"
  "cpus_in h (drop_group g s) = cpus_in h s" "my_proc (drop_group g s) = my_proc s"
  by (simp_all add: drop_group_def upd_group_def cpus_in_def my_proc_def)

lemma drop_group_nth:
  "g < length (groups s) \<Longrightarrow> group h (drop_group g s) =
     (if h = g then (group g s)\<lparr>g_id := - 1, g_exclusively_occupy := False\<rparr> else group h s)"
  by (simp add: drop_group_def upd_group_def nth_list_update)

lemma drop_group_ok [simp]: "g < length (groups s) \<Longrightarrow> cpus_ok (drop_group g s) = cpus_ok s"
  by (auto simp: cpus_ok_def drop_group_nth)

lemma cpu_part_core:
  assumes core: "pg_core m s" and g: "g < MAX_PROC_GROUP_NUM" "c_pgroup_id (cpus s ! me s) = int g"
    and others: "cpus_in g s \<noteq> {me s}"
  shows "pg_core m (cpu_part g s)"
proof -
  note D = pg_core_D [OF core]
  have me: "me s \<in> cpus_in g s" using g(2) cpus_ok_D(3) [OF D(4)] by (simp add: cpus_in_def)
  have e: "cpus_in h (cpu_part g s) = {} \<longleftrightarrow> cpus_in h s = {}" for h
  proof (cases "h = g")
    case True
    then show ?thesis using cpus_in_part [OF D(4)] others me by auto
  next
    case False
    then have "me s \<notin> cpus_in h s" using g(2) by (simp add: cpus_in_def)
    then show ?thesis using cpus_in_part [OF D(4)] by auto
  qed
  show ?thesis
    unfolding pg_core_def
    using D(1-3,5,6) cpu_part_ok [OF D(4) g(2,1)] D(7-9)
    by (auto simp: e cpu_part_c_pgroup_id [OF D(4)] simp del: le_zero_eq)
qed

lemma cpu_drop_core:
  assumes core: "pg_core m s" and g: "0 < g" "g < MAX_PROC_GROUP_NUM" "c_pgroup_id (cpus s ! me s) = int g"
    and last: "cpus_in g s = {me s}" "m g = []"
  shows "pg_core m (drop_group g (cpu_part g s))"
proof -
  note D = pg_core_D [OF core]
  have len: "g < length (groups (cpu_part g s))" using cpus_ok_D(2) [OF D(4)] g(2) by simp
  have e: "cpus_in h (cpu_part g s) = {} \<longleftrightarrow> h = g \<or> cpus_in h s = {}" for h
  proof (cases "h = g")
    case True
    then show ?thesis using cpus_in_part [OF D(4)] last by auto
  next
    case False
    then have "me s \<notin> cpus_in h s" using g(3) by (simp add: cpus_in_def)
    then show ?thesis using cpus_in_part [OF D(4)] False by auto
  qed
  show ?thesis
    unfolding pg_core_def
    using D(1-3,5,6) cpu_part_ok [OF D(4) g(3,2)] D(7-9) last(2) g(1) len
    by (auto simp: e cpu_part_c_pgroup_id [OF D(4)] drop_group_nth [OF len])
qed

lemma cpu_join_core:
  assumes core: "pg_core m s" and g: "g < MAX_PROC_GROUP_NUM" "c_pgroup_id (cpus s ! me s) = - 1"
    and live: "cpus_in g s \<noteq> {}"
  shows "pg_core m (cpu_join g s)"
proof -
  note D = pg_core_D [OF core]
  have e: "cpus_in h (cpu_join g s) = {} \<longleftrightarrow> cpus_in h s = {}" for h
    using cpus_in_join [OF D(4) g(2)] live by auto
  show ?thesis
    unfolding pg_core_def
    using D(1-3,5,6) cpu_join_ok [OF D(4) g(2,1)] D(7-9) g(1)
    by (auto simp: e cpu_join_c_pgroup_id [OF D(4)])
qed

text \<open>Allocation of a group: the id is set and the CPU becomes its first member.\<close>

definition new_group :: "nat \<Rightarrow> 'a pgroup_state_scheme \<Rightarrow> 'a pgroup_state_scheme" where
  "new_group g s = cpu_join g (upd_group g (\<lambda>gr. gr\<lparr>g_id := int g\<rparr>) s)"

lemma upd_group_fields [simp]:
  "procs (upd_group g f s) = procs s" "plinks (upd_group g f s) = plinks s" "held (upd_group g f s) = held s"
  "noff (upd_group g f s) = noff s" "um_box (upd_group g f s) = um_box s" "free_cpus (upd_group g f s) = free_cpus s"
  "me (upd_group g f s) = me s" "length (groups (upd_group g f s)) = length (groups s)" "cpus (upd_group g f s) = cpus s"
  "cpus_in h (upd_group g f s) = cpus_in h s" "my_proc (upd_group g f s) = my_proc s"
  by (simp_all add: upd_group_def cpus_in_def my_proc_def)

lemma upd_group_nth: "g < length (groups s) \<Longrightarrow> group h (upd_group g f s) = (if h = g then f (group g s) else group h s)"
  by (simp add: upd_group_def nth_list_update)

lemma upd_group_cpus_ok: "g < length (groups s) \<Longrightarrow> (\<And>x. g_cpus (f x) = g_cpus x) \<Longrightarrow> cpus_ok (upd_group g f s) = cpus_ok s"
  by (auto simp: cpus_ok_def upd_group_nth)

lemma new_group_fields [simp]:
  "procs (new_group g s) = procs s" "plinks (new_group g s) = plinks s" "held (new_group g s) = held s"
  "noff (new_group g s) = noff s" "um_box (new_group g s) = um_box s" "free_cpus (new_group g s) = free_cpus s"
  "me (new_group g s) = me s"
  by (simp_all add: new_group_def)

lemma new_group_core:
  assumes core: "pg_core m s" and g: "g < MAX_PROC_GROUP_NUM" "c_pgroup_id (cpus s ! me s) = - 1"
    and unused: "cpus_in g s = {}"
  shows "pg_core m (new_group g s)" "cpus_in h (new_group g s) = (if h = g then {me s} else cpus_in h s)"
    "c_pgroup_id (cpus (new_group g s) ! c) = (if c = me s then int g else c_pgroup_id (cpus s ! c))"
    "my_proc (new_group g s) = my_proc s"
proof -
  note D = pg_core_D [OF core]
  let ?u = "upd_group g (\<lambda>gr. gr\<lparr>g_id := int g\<rparr>) s"
  have len: "g < length (groups s)" using cpus_ok_D(2) [OF D(4)] g(1) by simp
  have ok: "cpus_ok ?u" using D(4) len by (simp add: upd_group_cpus_ok)
  show ci: "cpus_in h (new_group g s) = (if h = g then {me s} else cpus_in h s)" for h
    using cpus_in_join [OF ok] g(2) unused by (simp add: new_group_def)
  show cp: "c_pgroup_id (cpus (new_group g s) ! c) = (if c = me s then int g else c_pgroup_id (cpus s ! c))" for c
    using cpu_join_c_pgroup_id [OF ok] by (simp add: new_group_def)
  show "my_proc (new_group g s) = my_proc s" using ok by (simp add: new_group_def)
  have "cpus_ok (new_group g s)" using cpu_join_ok [OF ok _ g(1)] g(2) by (simp add: new_group_def)
  moreover have "g_id (group h (new_group g s)) = (if h = g then int g else g_id (group h s))"
    "g_exclusively_occupy (group h (new_group g s)) = g_exclusively_occupy (group h s)" for h
    using upd_group_nth [OF len] by (simp_all add: new_group_def)
  ultimately show "pg_core m (new_group g s)"
    unfolding pg_core_def using D(1-3,5-9) g(1) by (auto simp: ci cp)
qed

lemma get_proc_group_ok [simp]: "g < MAX_PROC_GROUP_NUM \<Longrightarrow> get_proc_group (int g) = Ok g"
  by (simp add: get_proc_group_def)

text \<open>The five outcomes of a CPU that tries to leave its group.\<close>

lemma cpu_leave_eq:
  assumes core: "pg_core m s" and g: "g < MAX_PROC_GROUP_NUM" "c_pgroup_id (cpus s ! me s) = int g"
    and ctx: "0 < noff s" "FreeCpusLock \<notin> held s" "0 \<le> free_cpus s"
  shows "cpu_leave_pgroup s =
    (if cpus_in g s \<noteq> {me s} then
       if g \<noteq> 0 then Ok (0, cpu_part g s)
       else if free_cpus s = 0 then Ok (- 1, s)
       else Ok (0, (cpu_part 0 s)\<lparr>free_cpus := free_cpus s - 1\<rparr>)
     else if m g \<noteq> [] then Ok (- 1, s)
     else if g = 0 then Panic ''free_pgroup: default group been freed''
     else Ok (0, drop_group g (cpu_part g s)))"
proof -
  note D = pg_core_D [OF core]
  have me: "me s \<in> cpus_in g s" using g(2) cpus_ok_D(3) [OF D(4)] by (simp add: cpus_in_def)
  have live: "g_id (group g s) = int g" using D(8) [OF g(1)] me by auto
  have rm: "remove_my_cpu_from_pgroup g s = Ok (cpu_part g s)" by (rule remove_my_cpu_eq [OF D(4) g(2,1) live])
  have pok: "cpus_ok (cpu_part g s)" by (rule cpu_part_ok [OF D(4) g(2,1)])
  have out: "c_pgroup_id (cpus (cpu_part g s) ! me (cpu_part g s)) = - 1"
    using cpu_part_c_pgroup_id [OF D(4)] by simp
  have rejoin: "add_my_cpu_to_pgroup g (cpu_part g s) = Ok s"
    using add_my_cpu_eq [OF pok out g(1)] live cpu_part_join [OF D(4) g(2,1)] by simp
  have cnt: "pgroup_cpu_count_unsafe g (cpu_part g s) = 0 \<longleftrightarrow> cpus_in g s = {me s}"
  proof -
    have "pgroup_cpu_count_unsafe g (cpu_part g s) = 0 \<longleftrightarrow> cpus_in g s - {me s} = {}"
      using cpu_count_eq [OF pok g(1)] cpus_in_part [OF D(4), of g g] by (simp only: of_nat_eq_0_iff card_0_eq finite_cpus_in finite_Diff)
    then show ?thesis using me by auto
  qed
  have emp: "list_empty (procs_head g) (plinks s) \<longleftrightarrow> m g = []"
    using kl.empty_law [OF rings_D [OF D(1) g(1)]] by simp
  have dec: "dec_free_cpus (cpu_part g s) =
      Ok (if free_cpus s = 0 then (- 1, cpu_part g s) else (0, (cpu_part g s)\<lparr>free_cpus := free_cpus s - 1\<rparr>))"
    using dec_free_cpus_eq [of "cpu_part g s"] ctx by simp
  have fr: "free_pgroup g (cpu_part g s) =
      (if g = 0 then Panic ''free_pgroup: default group been freed'' else Ok (drop_group g (cpu_part g s)))"
    using live by (simp add: free_pgroup_def drop_group_def)
  show ?thesis
  proof (cases "g = 0")
    case True
    show ?thesis
      using ctx(1) rejoin dec fr g(2) rm cnt emp unfolding True
      by (simp add: cpu_leave_pgroup_def intr_is_on_def get_proc_group_def)
  next
    case False
    then show ?thesis
      using ctx(1) g(1) rejoin fr by (simp add: cpu_leave_pgroup_def intr_is_on_def g(2) rm cnt emp)
  qed
qed

text \<open>
  The invariant after each of the successful outcomes, with the accounting of CPUs. The CPU is in no
  group then.
\<close>

lemma cpu_leave_inv:
  assumes inv: "pg_inv m s" and g: "g < MAX_PROC_GROUP_NUM" "c_pgroup_id (cpus s ! me s) = int g"
    and ctx: "0 < noff s" "FreeCpusLock \<notin> held s"
    and nopanic: "\<not> (g = 0 \<and> cpus_in 0 s = {me s} \<and> m 0 = [])"
  shows "cpu_leave_pgroup s = Ok (- 1, s) \<and> (cpus_in g s = {me s} \<and> m g \<noteq> [] \<or> g = 0 \<and> free_cpus s = 0) \<or>
    \<not> (cpus_in g s = {me s} \<and> m g \<noteq> [] \<or> g = 0 \<and> free_cpus s = 0) \<and>
    (\<exists>t. cpu_leave_pgroup s = Ok (0, t) \<and> pg_inv m t \<and>
       (\<forall>c. c_pgroup_id (cpus t ! c) = (if c = me s then - 1 else c_pgroup_id (cpus s ! c))) \<and>
       procs t = procs s \<and> plinks t = plinks s \<and> me t = me s \<and> my_proc t = my_proc s \<and> held t = held s \<and> noff t = noff s)"
proof -
  have core: "pg_core m s" and fo: "free_ok s" using inv by (auto simp: pg_inv_def)
  note D = pg_core_D [OF core] and F = free_ok_D [OF fo]
  note eq = cpu_leave_eq [OF core g ctx F(2)]
  have me: "me s \<in> cpus_in g s" using g(2) cpus_ok_D(3) [OF D(4)] by (simp add: cpus_in_def)
  have len: "g < length (groups (cpu_part g s))" using cpus_ok_D(2) [OF D(4)] g(1) by simp
  have other: "g \<noteq> 0 \<Longrightarrow> cpus_in 0 (cpu_part g s) = cpus_in 0 s"
    using cpus_in_part [OF D(4), of 0 g] g(2) by (auto simp: cpus_in_def)
  consider (fail) "cpu_leave_pgroup s = Ok (- 1, s)" "cpus_in g s = {me s} \<and> m g \<noteq> [] \<or> g = 0 \<and> free_cpus s = 0"
    | (part) "cpu_leave_pgroup s = Ok (0, cpu_part g s)" "cpus_in g s \<noteq> {me s}" "g \<noteq> 0"
    | (dflt) "cpu_leave_pgroup s = Ok (0, (cpu_part 0 s)\<lparr>free_cpus := free_cpus s - 1\<rparr>)"
        "cpus_in g s \<noteq> {me s}" "g = 0" "free_cpus s \<noteq> 0"
    | (drop) "cpu_leave_pgroup s = Ok (0, drop_group g (cpu_part g s))" "cpus_in g s = {me s}" "m g = []" "g \<noteq> 0"
    using eq nopanic by (auto split: if_splits)
  then show ?thesis
  proof cases
    case fail
    then show ?thesis by blast
  next
    case part
    have "free_ok (cpu_part g s)" using fo other part(3) by (simp add: free_ok_def)
    then show ?thesis using part cpu_part_core [OF core g part(2)] cpu_part_c_pgroup_id [OF D(4)] D(4)
      by (simp add: pg_inv_def)
  next
    case dflt
    have "card (cpus_in 0 (cpu_part 0 s)) = card (cpus_in 0 s) - 1" "0 < card (cpus_in 0 s)"
      using me dflt(3) cpus_in_part [OF D(4)] by (auto simp: card_gt_0_iff)
    then have "free_ok ((cpu_part 0 s)\<lparr>free_cpus := free_cpus s - 1\<rparr>)"
      using F dflt(4) by (auto simp: free_ok_def of_nat_diff)
    then show ?thesis using dflt cpu_part_core [OF core g dflt(2)] cpu_part_c_pgroup_id [OF D(4)] D(4)
      by (simp add: pg_inv_def)
  next
    case drop
    have "free_ok (drop_group g (cpu_part g s))" using fo other drop(4) by (simp add: free_ok_def)
    then show ?thesis
      using drop cpu_drop_core [OF core _ g drop(2,3)] cpu_part_c_pgroup_id [OF D(4)] D(4) by (simp add: pg_inv_def)
  qed
qed

section \<open>Allocating a group\<close>

text \<open>
  A CPU that is in no group always finds an unused group: every group in use has a CPU of its own,
  and there are as many groups as CPUs.
\<close>

lemma unused_group_exists:
  assumes core: "pg_core m s" and out: "c_pgroup_id (cpus s ! me s) = - 1"
  shows "\<exists>g < MAX_PROC_GROUP_NUM. cpus_in g s = {}"
proof (rule ccontr)
  assume "\<not> ?thesis"
  then have "\<forall>g. \<exists>c. g < MAX_PROC_GROUP_NUM \<longrightarrow> c \<in> cpus_in g s" by blast
  then obtain f where f: "\<And>g. g < MAX_PROC_GROUP_NUM \<Longrightarrow> f g \<in> cpus_in g s" by metis
  then have id: "c_pgroup_id (cpus s ! f g) = int g" "f g < MAX_CPU_NUM" if "g < MAX_PROC_GROUP_NUM" for g
    using that by (simp_all add: cpus_in_def)
  have "inj_on f {..<MAX_PROC_GROUP_NUM}"
  proof (rule inj_onI)
    fix x y assume "x \<in> {..<MAX_PROC_GROUP_NUM}" "y \<in> {..<MAX_PROC_GROUP_NUM}" "f x = f y"
    then have "int x = int y" by (metis id(1) lessThan_iff)
    then show "x = y" by simp
  qed
  moreover have "f g \<noteq> me s" if "g < MAX_PROC_GROUP_NUM" for g using id(1) [OF that] out by auto
  then have "f ` {..<MAX_PROC_GROUP_NUM} \<subseteq> {..<MAX_CPU_NUM} - {me s}" using id(2) by auto
  ultimately have "card {..<MAX_PROC_GROUP_NUM} \<le> card ({..<MAX_CPU_NUM} - {me s})"
    by (metis card_image card_mono finite_Diff finite_lessThan)
  moreover have "me s < MAX_CPU_NUM" using cpus_ok_D(3) [OF pg_core_D(4) [OF core]] .
  ultimately show False by (simp add: MAX_CPU_NUM_def)
qed

lemma alloc_pgroup_try_eq:
  assumes core: "pg_core m s" and out: "c_pgroup_id (cpus s ! me s) = - 1" and i: "i < MAX_PROC_GROUP_NUM"
    and lk: "PgroupLock i \<notin> held s"
  shows "alloc_pgroup_try i s = Ok (if cpus_in i s = {} then (Some i, new_group i s) else (None, s))"
proof -
  note D = pg_core_D [OF core]
  have len: "i < length (groups s)" using cpus_ok_D(2) [OF D(4)] i by simp
  show ?thesis
  proof (cases "cpus_in i s = {}")
    case True
    let ?s1 = "s\<lparr>held := insert (PgroupLock i) (held s), noff := Suc (noff s)\<rparr>"
    let ?u = "upd_group i (\<lambda>gr. gr\<lparr>g_id := int i\<rparr>) ?s1"
    have ok: "cpus_ok ?u" using D(4) len by (simp add: upd_group_cpus_ok)
    have "add_my_cpu_to_pgroup i ?u = Ok (cpu_join i ?u)"
      using out i len by (intro add_my_cpu_eq [OF ok]) (simp_all add: upd_group_nth)
    moreover have "(cpu_join i ?u)\<lparr>held := held s, noff := noff s\<rparr> = new_group i s"
      by (simp add: new_group_def cpu_join_def upd_group_def)
    ultimately show ?thesis
      using True D(8) [OF i] lk by (simp add: alloc_pgroup_try_def lock_simps)
  next
    case False
    then show ?thesis using D(8) [OF i] lk by (simp add: alloc_pgroup_try_def lock_simps)
  qed
qed

lemma alloc_pgroup_from:
  assumes core: "pg_core m s" and out: "c_pgroup_id (cpus s ! me s) = - 1" and lk: "\<And>g. PgroupLock g \<notin> held s"
    and xs: "\<forall>g \<in> set xs. g < MAX_PROC_GROUP_NUM" "\<exists>g \<in> set xs. cpus_in g s = {}"
  shows "\<exists>g \<in> set xs. cpus_in g s = {} \<and> kfor alloc_pgroup_try xs s = Ok (Some g, new_group g s)"
  using xs
proof (induction xs)
  case (Cons i xs)
  have t: "alloc_pgroup_try i s = Ok (if cpus_in i s = {} then (Some i, new_group i s) else (None, s))"
    using Cons.prems(1) by (intro alloc_pgroup_try_eq [OF core out _ lk]) simp
  show ?case using Cons t by (cases "cpus_in i s = {}") auto
qed simp

lemma alloc_pgroup_inv:
  assumes inv: "pg_inv m s" and out: "c_pgroup_id (cpus s ! me s) = - 1" and lk: "\<And>g. PgroupLock g \<notin> held s"
  shows "\<exists>g. 0 < g \<and> g < MAX_PROC_GROUP_NUM \<and> cpus_in g s = {} \<and> alloc_pgroup s = Ok (Some g, new_group g s) \<and>
    pg_inv m (new_group g s)"
proof -
  have core: "pg_core m s" and fo: "free_ok s" using inv by (auto simp: pg_inv_def)
  obtain g where g: "g < MAX_PROC_GROUP_NUM" "cpus_in g s = {}" "alloc_pgroup s = Ok (Some g, new_group g s)"
  proof -
    have "\<exists>g \<in> set [0..<8]. cpus_in g s = {}" using unused_group_exists [OF core out] by auto
    then have "\<exists>g \<in> set [0..<8]. cpus_in g s = {} \<and> alloc_pgroup s = Ok (Some g, new_group g s)"
      unfolding alloc_pgroup_def by (intro alloc_pgroup_from [OF core out lk]) auto
    then show ?thesis using that by (metis atLeastLessThan_iff set_upt)
  qed
  have "0 < g" using g(2) pg_core_D(5) [OF core] by (cases g) auto
  moreover have "free_ok (new_group g s)"
    using fo new_group_core(2) [OF core g(1) out g(2), of 0] \<open>0 < g\<close> by (simp add: free_ok_def)
  ultimately show ?thesis using g new_group_core(1) [OF core g(1) out g(2)] by (auto simp: pg_inv_def)
qed

section \<open>A process leaves its group, with or without its CPU\<close>

lemma proc_leave_alone:
  assumes inv: "pg_inv m s" and p: "my_proc s = Some p" "p < STATIC_PROC_NUM" "p_pgroup_id (proc p s) = int g"
    and g: "g < MAX_PROC_GROUP_NUM" and ctx: "0 < noff s" "PgroupLock g \<notin> held s"
  shows "\<exists>L. proc_leave_pgroup_without_cpu s = Ok (proc_to p (- 1) L s) \<and>
    pg_inv (m(g := remove1 p (m g))) (proc_to p (- 1) L s)"
proof -
  have core: "pg_core m s" and fo: "free_ok s" using inv by (auto simp: pg_inv_def)
  let ?s1 = "s\<lparr>held := insert (PgroupLock g) (held s), noff := Suc (noff s)\<rparr>"
  obtain L where L: "remove_my_proc_from_pgroup p ?s1 = Ok (proc_to p (- 1) L ?s1)"
      "pg_core (m(g := remove1 p (m g))) (proc_to p (- 1) L ?s1)"
    using remove_my_proc_core [of m ?s1 g p] core p g by auto
  have unlock: "(proc_to p (- 1) L ?s1)\<lparr>held := held s, noff := noff s\<rparr> = proc_to p (- 1) L s"
    by (simp add: proc_to_def upd_proc_def)
  have "pg_core (m(g := remove1 p (m g))) (proc_to p (- 1) L s)"
    using L(2) unfolding unlock [symmetric] by simp
  then show ?thesis
    using L(1) unlock p g ctx fo
    by (auto simp: proc_leave_pgroup_without_cpu_def proc_leave_pgroup_may_with_cpu_def intr_is_on_def the_proc_def
        lock_simps pg_inv_def intro!: exI [of _ L])
qed

text \<open>What an operation may change about who belongs where: only process \<open>p\<close> and CPU \<open>c\<close>.\<close>

definition same_but :: "nat \<Rightarrow> int \<Rightarrow> int \<Rightarrow> 'a pgroup_state_scheme \<Rightarrow> 'a pgroup_state_scheme \<Rightarrow> bool" where
  "same_but p i j s t \<longleftrightarrow>
     (\<forall>q < STATIC_PROC_NUM. proc q t = (if q = p then (proc p s)\<lparr>p_pgroup_id := i\<rparr> else proc q s)) \<and>
     (\<forall>c < MAX_CPU_NUM. c_pgroup_id (cpus t ! c) = (if c = me s then j else c_pgroup_id (cpus s ! c))) \<and>
     me t = me s \<and> my_proc t = my_proc s \<and> held t = held s \<and> noff t = noff s"

lemma proc_to_nth:
  "p < length (procs s) \<Longrightarrow> proc q (proc_to p i L s) = (if q = p then (proc p s)\<lparr>p_pgroup_id := i\<rparr> else proc q s)"
  by (simp add: proc_to_procs nth_list_update)

lemma proc_leave_with_cpu:
  assumes inv: "pg_inv m s" and p: "my_proc s = Some p" "p < STATIC_PROC_NUM" "p_pgroup_id (proc p s) = int g"
    and g: "g < MAX_PROC_GROUP_NUM" "c_pgroup_id (cpus s ! me s) = int g"
    and ctx: "0 < noff s" "PgroupLock g \<notin> held s" "FreeCpusLock \<notin> held s"
  shows "if g = 0 \<and> cpus_in 0 s = {me s} \<and> m 0 = [p]
    then proc_leave_pgroup_with_cpu s = Panic ''free_pgroup: default group been freed''
    else if cpus_in g s = {me s} \<and> m g \<noteq> [p] \<or> g = 0 \<and> free_cpus s = 0
    then \<exists>t. proc_leave_pgroup_with_cpu s = Ok (- 1, t) \<and> pg_inv (m(g := p # remove1 p (m g))) t \<and>
           same_but p (int g) (int g) s t
    else \<exists>t. proc_leave_pgroup_with_cpu s = Ok (0, t) \<and> pg_inv (m(g := remove1 p (m g))) t \<and>
           same_but p (- 1) (- 1) s t"
proof -
  have core: "pg_core m s" and fo: "free_ok s" using inv by (auto simp: pg_inv_def)
  note D = pg_core_D [OF core]
  define m1 where "m1 = m(g := remove1 p (m g))"
  let ?s1 = "s\<lparr>held := insert (PgroupLock g) (held s), noff := Suc (noff s)\<rparr>"
  obtain L where L: "remove_my_proc_from_pgroup p ?s1 = Ok (proc_to p (- 1) L ?s1)"
      "pg_core m1 (proc_to p (- 1) L ?s1)"
    using remove_my_proc_core [of m ?s1 g p] core p g by (auto simp: m1_def)
  define s2 where "s2 = proc_to p (- 1) L ?s1"
  note L = L [folded s2_def]
  have f2: "cpus s2 = cpus s" "me s2 = me s" "held s2 = insert (PgroupLock g) (held s)" "noff s2 = Suc (noff s)"
    "my_proc s2 = my_proc s" "free_cpus s2 = free_cpus s" "cpus_in h s2 = cpus_in h s" "free_ok s2 = free_ok s" for h
    by (simp_all add: s2_def)
  have inv2: "pg_inv m1 s2" using L(2) fo f2 by (simp add: pg_inv_def)
  have mem: "p \<in> set (m g)" using members_D [OF D(2) g(1)] p(2,3) D(3) by simp
  have only: "m1 g = [] \<longleftrightarrow> m g = [p]"
    using mem rings_distinct [OF D(1) g(1)] by (cases "m g") (auto simp: m1_def)
  have len: "p < length (procs s)" using p(2) D(3) by simp
  have p2: "proc q s2 = (if q = p then (proc p s)\<lparr>p_pgroup_id := - 1\<rparr> else proc q s)" for q
    using len by (simp add: s2_def proc_to_nth)
  have g2: "c_pgroup_id (cpus s2 ! me s2) = int g" "0 < noff s2" "FreeCpusLock \<notin> held s2"
    using g(2) ctx by (auto simp: f2)
  have eq: "proc_leave_pgroup_with_cpu s =
     kbind (cpu_leave_pgroup s2) (\<lambda>(err, s).
          if err \<noteq> 0 then
            kbind (add_my_proc_to_pgroup g p s) (\<lambda>s.
            kbind (release (PgroupLock g) s) (\<lambda>s. Ok (- 1, s)))
          else kbind (release (PgroupLock g) s) (\<lambda>s. Ok (0, s)))"
    using ctx p g(1) L(1)
    by (simp add: proc_leave_pgroup_with_cpu_def proc_leave_pgroup_may_with_cpu_def intr_is_on_def the_proc_def lock_simps)
  have me: "cpus_in g s \<noteq> {}" using g(2) cpus_ok_D(3) [OF D(4)] by (auto simp: cpus_in_def)
  let ?alone = "g = 0 \<and> cpus_in 0 s = {me s} \<and> m 0 = [p]"
  let ?stay = "cpus_in g s = {me s} \<and> m g \<noteq> [p] \<or> g = 0 \<and> free_cpus s = 0"
  have panic: "proc_leave_pgroup_with_cpu s = Panic ''free_pgroup: default group been freed''" if ?alone
    using cpu_leave_eq [OF L(2) g(1) g2] that only eq free_ok_D(2) [OF fo] f2 by simp
  have lv: "cpu_leave_pgroup s2 = Ok (- 1, s2) \<and> ?stay \<or> \<not> ?stay \<and>
    (\<exists>t. cpu_leave_pgroup s2 = Ok (0, t) \<and> pg_inv m1 t \<and>
       (\<forall>c. c_pgroup_id (cpus t ! c) = (if c = me s then - 1 else c_pgroup_id (cpus s ! c))) \<and>
       procs t = procs s2 \<and> me t = me s \<and> my_proc t = my_proc s \<and> held t = held s2 \<and> noff t = noff s2)" if "\<not> ?alone"
  proof -
    have "\<not> (g = 0 \<and> cpus_in 0 s2 = {me s2} \<and> m1 0 = [])" using that only by (auto simp: f2)
    from cpu_leave_inv [OF inv2 g(1) g2 this] show ?thesis using only unfolding f2 by blast
  qed
  have stay: "\<exists>t. proc_leave_pgroup_with_cpu s = Ok (- 1, t) \<and> pg_inv (m(g := p # remove1 p (m g))) t \<and>
      same_but p (int g) (int g) s t" if "\<not> ?alone" ?stay
  proof -
    have f: "cpu_leave_pgroup s2 = Ok (- 1, s2)" using lv [OF that(1)] that(2) by blast
    obtain L' where L': "add_my_proc_to_pgroup g p s2 = Ok (proc_to p (int g) L' s2)"
        "pg_core (m1(g := p # m1 g)) (proc_to p (int g) L' s2)"
      using add_my_proc_core [OF L(2) g(1), of p] p p2 f2 me by auto
    let ?t = "(proc_to p (int g) L' s2)\<lparr>held := held s, noff := noff s\<rparr>"
    have "proc_leave_pgroup_with_cpu s = Ok (- 1, ?t)"
      using eq f L'(1) ctx by (simp add: lock_simps f2)
    moreover have "m1(g := p # m1 g) = m(g := p # remove1 p (m g))" by (simp add: m1_def)
    then have "pg_inv (m(g := p # remove1 p (m g))) ?t"
      using L'(2) fo f2 by (simp add: pg_inv_def)
    moreover have "length (procs s2) = length (procs s)" by (simp add: s2_def)
    then have "same_but p (int g) (int g) s ?t"
      using len g(2) D(3) by (auto simp: same_but_def proc_to_nth p2 f2)
    ultimately show ?thesis by blast
  qed
  have leave: "\<exists>t. proc_leave_pgroup_with_cpu s = Ok (0, t) \<and> pg_inv (m(g := remove1 p (m g))) t \<and>
      same_but p (- 1) (- 1) s t" if "\<not> ?alone" "\<not> ?stay"
  proof -
    from lv [OF that(1)] that(2) obtain t where t: "cpu_leave_pgroup s2 = Ok (0, t)" "pg_inv m1 t"
       "\<forall>c. c_pgroup_id (cpus t ! c) = (if c = me s then - 1 else c_pgroup_id (cpus s ! c))"
       "procs t = procs s2" "me t = me s" "my_proc t = my_proc s" "held t = held s2" "noff t = noff s2"
      by blast
    let ?t = "t\<lparr>held := held s, noff := noff s\<rparr>"
    have "proc_leave_pgroup_with_cpu s = Ok (0, ?t)" using eq t(1,7,8) ctx by (simp add: lock_simps f2)
    moreover have "same_but p (- 1) (- 1) s ?t"
      using t(3-6) by (auto simp: same_but_def p2)
    ultimately show ?thesis using t(2) unfolding m1_def by auto
  qed
  show ?thesis unfolding if_bool_eq_conj using panic stay leave by blast
qed

section \<open>Properties\<close>

lemma create_pgroup_joins:
  assumes inv: "pg_inv m s" and p: "my_proc s = Some p" "p < STATIC_PROC_NUM"
    and g: "c_pgroup_id (cpus s ! me s) = int g" and ctx: "held s = {}"
    and t: "proc_leave_pgroup_with_cpu (s\<lparr>noff := Suc (noff s)\<rparr>) = Ok (0, t)" "pg_inv (m(g := remove1 p (m g))) t"
      "same_but p (- 1) (- 1) (s\<lparr>noff := Suc (noff s)\<rparr>) t"
  shows "\<exists>v n. create_pgroup s = Ok (int n, v) \<and> n < MAX_PROC_GROUP_NUM \<and> (cpus_in n s = {} \<or> n = g) \<and>
    pg_inv (m(g := remove1 p (m g), n := [p])) v \<and> cpus_in n v = {me s} \<and> same_but p (int n) (int n) s v"
proof -
  have mlt: "me s < MAX_CPU_NUM" using inv cpus_ok_D(3) [OF pg_core_D(4)] by (auto simp: pg_inv_def)
  have f: "my_proc t = Some p" "held t = {}" "noff t = Suc (noff s)" "me t = me s"
    "p_pgroup_id (proc p t) = - 1" "c_pgroup_id (cpus t ! me t) = - 1"
    using t(3) p ctx mlt by (auto simp: same_but_def)
  define m1 where "m1 = m(g := remove1 p (m g))"
  have t2: "pg_inv m1 t" using t(2) by (simp add: m1_def)
  obtain n where n: "0 < n" "n < MAX_PROC_GROUP_NUM" "cpus_in n t = {}" "alloc_pgroup t = Ok (Some n, new_group n t)"
    "pg_inv m1 (new_group n t)"
    using alloc_pgroup_inv [OF t2 f(6)] f(2) by auto
  define u where "u = (new_group n t)\<lparr>held := {PgroupLock n}, noff := Suc (Suc (noff s))\<rparr>"
  have tcore: "pg_core m1 t" using t2 by (simp add: pg_inv_def)
  note N = new_group_core [OF tcore n(2) f(6) n(3)]
  have u: "pg_core m1 u" "free_ok u" "cpus_in n u \<noteq> {}" "my_proc u = Some p" "p_pgroup_id (proc p u) = - 1"
    using n(5) N f by (simp_all add: u_def pg_inv_def)
  have "m1 n = []" using pg_core_D(9) [OF tcore n(2,3)] by simp
  then obtain L where L: "add_my_proc_to_pgroup n p u = Ok (proc_to p (int n) L u)"
      "pg_core (m1(n := [p])) (proc_to p (int n) L u)"
    using add_my_proc_core [OF u(1) n(2) u(3,4) p(2) u(5)] by auto
  let ?v = "(proc_to p (int n) L u)\<lparr>held := {}, noff := noff s\<rparr>"
  have "length (procs u) = STATIC_PROC_NUM" using pg_core_D(3) [OF u(1)] .
  then have pv: "proc q (proc_to p (int n) L u) = (if q = p then (proc p u)\<lparr>p_pgroup_id := int n\<rparr> else proc q u)" for q
    using p(2) by (simp add: proc_to_nth)
  have "create_pgroup s = Ok (int n, ?v)"
    using t(1) f n(4) L(1) by (simp add: create_pgroup_def lock_simps the_proc_def u_def pv [unfolded u_def])
  moreover have "pg_inv (m1(n := [p])) ?v" using L(2) u(2) by (simp add: pg_inv_def)
  moreover have "cpus_in n ?v = {me s}" using N(2) [of n] f(4) by (simp add: u_def)
  moreover have "same_but p (int n) (int n) s ?v"
    using t(3) N f ctx by (auto simp: same_but_def pv) (auto simp: u_def)
  moreover have "c_pgroup_id (cpus s ! c) \<noteq> int n" if "c < MAX_CPU_NUM" "n \<noteq> g" for c
    using n(3) t(3) g that by (cases "c = me s") (auto simp: same_but_def cpus_in_def)
  then have "cpus_in n s = {} \<or> n = g" by (auto simp: cpus_in_def)
  ultimately show ?thesis using n(2) unfolding m1_def by blast
qed

text \<open>
  C14: \<open>create_pgroup\<close>. For a process that runs on a CPU of its own group, from any state that
  satisfies the invariant of the groups, exactly one of three things happens. A process that is
  alone with the only CPU of the default group makes the kernel panic ("default group been freed").
  Otherwise, when the CPU is the last one of a group with more processes, or it is a CPU of the
  default group and none is free, the call gives -1 and process and CPU stay in their group. In all
  other cases it gives the id of a group that was unused, and process and CPU are its only members:
  an unused group is always found, the panic "run out of proc group" is never taken. Whenever the
  call returns, all other processes and CPUs are where they were, the invariant holds and every
  lock is released.
\<close>

theorem create_pgroup_correct:
  assumes inv: "pg_inv m s" and p: "my_proc s = Some p" "p < STATIC_PROC_NUM" "p_pgroup_id (proc p s) = int g"
    and g: "g < MAX_PROC_GROUP_NUM" "c_pgroup_id (cpus s ! me s) = int g" and ctx: "held s = {}"
  shows "if g = 0 \<and> cpus_in 0 s = {me s} \<and> m 0 = [p]
    then create_pgroup s = Panic ''free_pgroup: default group been freed''
    else if cpus_in g s = {me s} \<and> m g \<noteq> [p] \<or> g = 0 \<and> free_cpus s = 0
    then \<exists>t. create_pgroup s = Ok (- 1, t) \<and> pg_inv (m(g := p # remove1 p (m g))) t \<and>
           same_but p (int g) (int g) s t
    else \<exists>t n. create_pgroup s = Ok (int n, t) \<and> n < MAX_PROC_GROUP_NUM \<and> (cpus_in n s = {} \<or> n = g) \<and>
           pg_inv (m(g := remove1 p (m g), n := [p])) t \<and> cpus_in n t = {me s} \<and>
           same_but p (int n) (int n) s t"
proof -
  let ?s1 = "s\<lparr>noff := Suc (noff s)\<rparr>"
  let ?alone = "g = 0 \<and> cpus_in 0 s = {me s} \<and> m 0 = [p]"
  let ?stay = "cpus_in g s = {me s} \<and> m g \<noteq> [p] \<or> g = 0 \<and> free_cpus s = 0"
  have "pg_inv m ?s1" using inv by simp
  note lv = proc_leave_with_cpu [OF this, of p g, unfolded if_bool_eq_conj]
  have panic: "create_pgroup s = Panic ''free_pgroup: default group been freed''" if ?alone
    using lv that p g ctx by (simp add: create_pgroup_def lock_simps)
  have stay: "\<exists>t. create_pgroup s = Ok (- 1, t) \<and> pg_inv (m(g := p # remove1 p (m g))) t \<and>
      same_but p (int g) (int g) s t" if "\<not> ?alone" ?stay
  proof -
    from lv that p g ctx obtain t where t: "proc_leave_pgroup_with_cpu ?s1 = Ok (- 1, t)"
        "pg_inv (m(g := p # remove1 p (m g))) t" "same_but p (int g) (int g) ?s1 t" by auto
    have "create_pgroup s = Ok (- 1, t\<lparr>noff := noff s\<rparr>)"
      using t(1,3) by (simp add: create_pgroup_def lock_simps same_but_def)
    moreover have "same_but p (int g) (int g) s (t\<lparr>noff := noff s\<rparr>)" using t(3) by (simp add: same_but_def)
    ultimately show ?thesis using t(2) by auto
  qed
  have leave: "\<exists>t n. create_pgroup s = Ok (int n, t) \<and> n < MAX_PROC_GROUP_NUM \<and> (cpus_in n s = {} \<or> n = g) \<and>
      pg_inv (m(g := remove1 p (m g), n := [p])) t \<and> cpus_in n t = {me s} \<and> same_but p (int n) (int n) s t"
    if "\<not> ?alone" "\<not> ?stay"
  proof -
    from lv that p g ctx obtain t where "proc_leave_pgroup_with_cpu ?s1 = Ok (0, t)"
        "pg_inv (m(g := remove1 p (m g))) t" "same_but p (- 1) (- 1) ?s1 t" by auto
    then show ?thesis by (rule create_pgroup_joins [OF inv p(1,2) g(2) ctx])
  qed
  show ?thesis unfolding if_bool_eq_conj using panic stay leave by blast
qed

text \<open>A small system that satisfies the invariant: two CPUs in the default group with process 0.\<close>

definition pg_example :: pgroup_state where
  "pg_example = \<lparr>held = {}, noff = 0, mem = (\<lambda>_. 0), mem_head = 0, kernel_end = 0,
     procs = map (\<lambda>i. \<lparr>p_pid = (if i = 0 then 0 else - 1), p_status = (if i = 0 then RUNNING else UNUSED), p_killed = False,
       p_xstatus = 0, p_chain = NoChan, p_parent = None, p_ustack = 0, p_mem_start = 0, p_mem_brk = 0, p_mem_end = 0,
       p_pgtable = 0, p_ofile = [], p_cwd = None, p_kstack = 0, p_trap_frame = 0, p_context = \<lparr>ctx_ra = 0, ctx_sp = 0\<rparr>,
       p_pgroup_id = (if i = 0 then 0 else - 1)\<rparr>) [0..<STATIC_PROC_NUM],
     pid_set = replicate STATIC_PROC_NUM False,
     cpus = map (\<lambda>c. \<lparr>c_cpu_id = (if c < 2 then int c else - 1), c_pgroup_id = (if c < 2 then 0 else - 1),
       c_my_proc = (if c = 0 then Some 0 else None)\<rparr>) [0..<MAX_CPU_NUM],
     me = 0, tick_count = 0, um_box = init_cpu_message,
     groups = map (\<lambda>g. \<lparr>g_id = (if g = 0 then 0 else - 1),
       g_cpus = map (\<lambda>c. if g = 0 \<and> c < 2 then int c else - 1) [0..<MAX_CPU_NUM], g_exclusively_occupy = False\<rparr>)
       [0..<MAX_PROC_GROUP_NUM],
     plinks = \<lparr>nxt = (\<lambda>a. if a = procs_head 0 then pgroup_list 0 else if a = pgroup_list 0 then procs_head 0 else a),
       prv = (\<lambda>a. if a = procs_head 0 then pgroup_list 0 else if a = pgroup_list 0 then procs_head 0 else a)\<rparr>,
     free_cpus = 1, ext_intr = replicate MAX_CPU_NUM True\<rparr>"

definition pg_example_members :: "nat \<Rightarrow> nat list" where
  "pg_example_members g = (if g = 0 then [0] else [])"

lemma pg_example_cpus_in: "cpus_in g pg_example = (if g = 0 then {0, 1} else {})"
  by (auto simp: cpus_in_def pg_example_def MAX_CPU_NUM_def split: if_splits)

lemma pg_example_inv: "pg_inv pg_example_members pg_example"
proof -
  have "rings pg_example_members (plinks pg_example)"
    by (auto simp: rings_def pg_example_def pg_example_members_def ring_def)
  moreover have "members pg_example_members (procs pg_example)"
    by (auto simp: members_def pg_example_def pg_example_members_def split: if_splits)
  moreover have "cpus_ok pg_example"
    by (auto simp: cpus_ok_def pg_example_def MAX_CPU_NUM_def nth_append)
  ultimately have "pg_core pg_example_members pg_example"
    unfolding pg_core_def pg_example_cpus_in by (auto simp: pg_example_def pg_example_members_def)
  moreover have "free_ok pg_example"
    unfolding free_ok_def pg_example_cpus_in by (simp add: pg_example_def init_box_ok)
  ultimately show ?thesis by (simp add: pg_inv_def)
qed

lemma pg_example_ctx:
  "my_proc pg_example = Some 0" "p_pgroup_id (proc 0 pg_example) = int 0" "me pg_example = 0" "held pg_example = {}"
  "c_pgroup_id (cpus pg_example ! 0) = int 0" "free_cpus pg_example = 1" "noff pg_example = 0"
  by (simp_all add: pg_example_def my_proc_def MAX_CPU_NUM_def upt_rec)

theorem create_pgroup_correct_witness:
  "pg_inv pg_example_members pg_example \<and>
   (\<exists>t n. create_pgroup pg_example = Ok (int n, t) \<and> n < MAX_PROC_GROUP_NUM \<and> 0 < n \<and>
      cpus_in n t = {0} \<and> same_but 0 (int n) (int n) pg_example t)"
proof -
  have c: "cpus_in 0 pg_example = {0, 1}" by (simp add: pg_example_cpus_in)
  have "c_pgroup_id (cpus pg_example ! me pg_example) = int 0" using pg_example_ctx by simp
  then obtain t n where t: "create_pgroup pg_example = Ok (int n, t)" "n < MAX_PROC_GROUP_NUM"
      "cpus_in n pg_example = {} \<or> n = 0" "cpus_in n t = {0}" "same_but 0 (int n) (int n) pg_example t"
      "pg_inv (pg_example_members(0 := remove1 0 (pg_example_members 0), n := [0])) t"
    using create_pgroup_correct [OF pg_example_inv pg_example_ctx(1) _ pg_example_ctx(2) _ _ pg_example_ctx(4)] c pg_example_ctx
    by (auto simp: doubleton_eq_iff)
  have "n \<noteq> 0"
  proof
    assume "n = 0"
    have "1 \<in> cpus_in 0 t" using t(5) pg_example_ctx(3)
      by (auto simp: same_but_def cpus_in_def pg_example_def MAX_CPU_NUM_def upt_rec)
    then show False using t(4) \<open>n = 0\<close> by simp
  qed
  then show ?thesis using t pg_example_inv by blast
qed

section \<open>Processes that move between groups\<close>

lemma forkproc_inv:
  assumes inv: "pg_inv m s" and p: "p < STATIC_PROC_NUM" "p_pgroup_id (proc p s) = - 1"
    and g: "g < MAX_PROC_GROUP_NUM" and lk: "PgroupLock g \<notin> held s"
  shows "if cpus_in g s = {} \<or> g_exclusively_occupy (group g s) then forkproc_into_pgroup (int g) p s = Ok (- 1, s)
    else \<exists>L. forkproc_into_pgroup (int g) p s = Ok (0, proc_to p (int g) L s) \<and>
           pg_inv (m(g := p # m g)) (proc_to p (int g) L s)"
proof -
  have core: "pg_core m s" and fo: "free_ok s" using inv by (auto simp: pg_inv_def)
  note D = pg_core_D [OF core]
  show ?thesis
  proof (cases "cpus_in g s = {} \<or> g_exclusively_occupy (group g s)")
    case True
    then have "g_id (group g s) = - 1 \<or> g_exclusively_occupy (group g s)" using D(8) [OF g] by auto
    then show ?thesis using True g lk by (auto simp: forkproc_into_pgroup_def MAX_CPU_NUM_def lock_simps)
  next
    case False
    then obtain L where L: "list_add (pgroup_list p) (procs_head g) (plinks s) = Ok L"
        "pg_core (m(g := p # m g)) (proc_to p (int g) L s)"
      using add_proc_core [OF core g _ p] by blast
    have "g_id (group g s) \<noteq> - 1" using D(8) [OF g] False by auto
    then have "forkproc_into_pgroup (int g) p s = Ok (0, proc_to p (int g) L s)"
      using False g lk L(1)
      by (simp add: forkproc_into_pgroup_def MAX_CPU_NUM_def lock_simps with_links_def)
         (simp add: proc_to_def upd_proc_def)
    then show ?thesis using False L(2) fo by (auto simp: pg_inv_def)
  qed
qed

lemma enter_pgroup_inv:
  assumes inv: "pg_inv m s" and p: "my_proc s = Some p" "p < STATIC_PROC_NUM" "p_pgroup_id (proc p s) = int g"
    and g: "g < MAX_PROC_GROUP_NUM" "cpus_in g s \<noteq> {}" and n: "n < MAX_PROC_GROUP_NUM" "n \<noteq> g" and ctx: "held s = {}"
  shows "if cpus_in n s = {}
    then \<exists>L. enter_pgroup sw (int n) s = Ok (- 1, proc_to p (int g) L s) \<and>
           pg_inv (m(g := p # remove1 p (m g))) (proc_to p (int g) L s)
    else \<exists>L. enter_pgroup sw (int n) s = kbind (yield sw RUNABLE (proc_to p (int n) L s)) (\<lambda>s. Ok (0, s)) \<and>
           pg_inv (m(g := remove1 p (m g), n := p # m n)) (proc_to p (int n) L s)"
proof -
  have core: "pg_core m s" and fo: "free_ok s" using inv by (auto simp: pg_inv_def)
  note D = pg_core_D [OF core]
  let ?s1 = "s\<lparr>noff := Suc (noff s)\<rparr>"
  have inv1: "pg_inv m ?s1" using inv by simp
  obtain L where L: "proc_leave_pgroup_without_cpu ?s1 = Ok (proc_to p (- 1) L ?s1)"
      "pg_inv (m(g := remove1 p (m g))) (proc_to p (- 1) L ?s1)"
    using proc_leave_alone [OF inv1, of p g] p g ctx by auto
  define s2 where "s2 = proc_to p (- 1) L ?s1"
  have len: "p < length (procs s)" using p(2) D(3) by simp
  have f2: "held s2 = {}" "noff s2 = Suc (noff s)" "groups s2 = groups s" "my_proc s2 = Some p" "cpus_in h s2 = cpus_in h s"
    "p_pgroup_id (proc p s2) = - 1" for h
    using ctx p len by (simp_all add: s2_def proc_to_nth)
  define m1 where "m1 = m(g := remove1 p (m g))"
  have core2: "pg_core m1 s2" using L(2) by (simp add: pg_inv_def s2_def m1_def)
  have join: "\<exists>L'. add_my_proc_to_pgroup h p (s2\<lparr>held := {PgroupLock h}, noff := Suc (Suc (noff s))\<rparr>) =
      Ok ((proc_to p (int h) L' s)\<lparr>held := {PgroupLock h}, noff := Suc (Suc (noff s))\<rparr>) \<and>
      pg_inv (m1(h := p # m1 h)) (proc_to p (int h) L' s)" if h: "h < MAX_PROC_GROUP_NUM" "cpus_in h s \<noteq> {}" for h
  proof -
    let ?s3 = "s2\<lparr>held := {PgroupLock h}, noff := Suc (Suc (noff s))\<rparr>"
    obtain L' where L': "add_my_proc_to_pgroup h p ?s3 = Ok (proc_to p (int h) L' ?s3)"
        "pg_core (m1(h := p # m1 h)) (proc_to p (int h) L' ?s3)"
      using add_my_proc_core [of m1 ?s3 h p] core2 h f2 p(2) by auto
    have e: "proc_to p (int h) L' ?s3 = (proc_to p (int h) L' s)\<lparr>held := {PgroupLock h}, noff := Suc (Suc (noff s))\<rparr>"
      using len by (simp add: s2_def proc_to_def upd_proc_def)
    show ?thesis using L' fo unfolding e by (auto simp: pg_inv_def)
  qed
  have eq: "enter_pgroup sw (int n) s =
      kbind (acquire (PgroupLock n) s2) (\<lambda>s.
          if g_id (group n s) = - 1 then
            kbind (release (PgroupLock n) s) (\<lambda>s.
            kbind (acquire (PgroupLock g) s) (\<lambda>s.
            kbind (add_my_proc_to_pgroup g p s) (\<lambda>s.
            kbind (release (PgroupLock g) s) (\<lambda>s.
            kbind (pop_off s) (\<lambda>s. Ok (- 1, s))))))
          else
            kbind (add_my_proc_to_pgroup n p s) (\<lambda>s.
            kbind (release (PgroupLock n) s) (\<lambda>s.
            kbind (pop_off s) (\<lambda>s.
            kbind (yield sw RUNABLE s) (\<lambda>s. Ok (0, s))))))"
    using p g(1) n L(1) by (simp add: enter_pgroup_def the_proc_def lock_simps s2_def)
  have unlock: "(proc_to p i L' s)\<lparr>held := {}, noff := noff s\<rparr> = proc_to p i L' s" for i L'
    using ctx by (simp add: proc_to_def upd_proc_def)
  show ?thesis
  proof (cases "cpus_in n s = {}")
    case True
    then have "g_id (group n s) = - 1" using D(8) [OF n(1)] by simp
    moreover obtain L' where "add_my_proc_to_pgroup g p (s2\<lparr>held := {PgroupLock g}, noff := Suc (Suc (noff s))\<rparr>) =
        Ok ((proc_to p (int g) L' s)\<lparr>held := {PgroupLock g}, noff := Suc (Suc (noff s))\<rparr>)"
        "pg_inv (m1(g := p # m1 g)) (proc_to p (int g) L' s)"
      using join [OF g] by blast
    ultimately show ?thesis using True f2 eq unlock by (auto simp: lock_simps m1_def)
  next
    case False
    then have "g_id (group n s) \<noteq> - 1" using D(8) [OF n(1)] by simp
    moreover obtain L' where "add_my_proc_to_pgroup n p (s2\<lparr>held := {PgroupLock n}, noff := Suc (Suc (noff s))\<rparr>) =
        Ok ((proc_to p (int n) L' s)\<lparr>held := {PgroupLock n}, noff := Suc (Suc (noff s))\<rparr>)"
        "pg_inv (m1(n := p # m1 n)) (proc_to p (int n) L' s)"
      using join [OF n(1) False] by blast
    ultimately show ?thesis using False f2 eq unlock n(2) by (auto simp: lock_simps m1_def)
  qed
qed

section \<open>Requests for CPUs\<close>

lemma request_room:
  assumes "free_ok s" "0 < free_cpus s"
  shows "length (box_contents (um_box s)) < CPU_MESSAGE_BOX_SIZE"
proof -
  have "card (cpus_in 0 s) \<le> card {..<MAX_CPU_NUM}" by (intro card_mono) (auto simp: cpus_in_def)
  then have "card (cpus_in 0 s) \<le> 8" by (simp add: MAX_CPU_NUM_def)
  then show ?thesis using free_ok_D(4) [OF assms(1)] assms(2) by linarith
qed

text \<open>
  A request takes one free CPU off the count and puts a message in the box: the accounting still
  holds and the box is never full.
\<close>

lemma send_request_inv:
  assumes inv: "pg_inv m s" and free: "0 < free_cpus s" and lk: "UmBoxLock \<notin> held s" and x: "message_ok x"
  shows "\<exists>b. send_cpu_message x (s\<lparr>free_cpus := free_cpus s - 1\<rparr>) = Ok (s\<lparr>free_cpus := free_cpus s - 1, um_box := b\<rparr>) \<and>
    box_contents b = box_contents (um_box s) @ [x] \<and> pg_inv m (s\<lparr>free_cpus := free_cpus s - 1, um_box := b\<rparr>)"
proof -
  have core: "pg_core m s" and fo: "free_ok s" using inv by (auto simp: pg_inv_def)
  note F = free_ok_D [OF fo]
  have "x \<noteq> EMP_MESSAGE" using x by auto
  moreover have "box_ok (um_box (s\<lparr>free_cpus := free_cpus s - 1\<rparr>))" "UmBoxLock \<notin> held (s\<lparr>free_cpus := free_cpus s - 1\<rparr>)"
    "length (box_contents (um_box (s\<lparr>free_cpus := free_cpus s - 1\<rparr>))) < CPU_MESSAGE_BOX_SIZE"
    using F(1) lk request_room [OF fo free] by simp_all
  ultimately have e: "send_cpu_message x (s\<lparr>free_cpus := free_cpus s - 1\<rparr>) =
      Ok (s\<lparr>free_cpus := free_cpus s - 1, um_box := box_put x (um_box s)\<rparr>)"
    and b: "box_ok (box_put x (um_box s))" "box_contents (box_put x (um_box s)) = box_contents (um_box s) @ [x]"
    using send_cpu_message_eq [of "s\<lparr>free_cpus := free_cpus s - 1\<rparr>" x] by simp_all
  have "free_ok (s\<lparr>free_cpus := free_cpus s - 1, um_box := box_put x (um_box s)\<rparr>)"
    using fo x b free by (simp add: free_ok_def)
  then show ?thesis using e core b by (auto simp: pg_inv_def)
qed

lemma cpu_moves_locks [simp]:
  "cpu_part g (s\<lparr>held := h\<rparr>) = (cpu_part g s)\<lparr>held := h\<rparr>" "cpu_part g (s\<lparr>noff := n\<rparr>) = (cpu_part g s)\<lparr>noff := n\<rparr>"
  "cpu_join g (s\<lparr>held := h\<rparr>) = (cpu_join g s)\<lparr>held := h\<rparr>" "cpu_join g (s\<lparr>noff := n\<rparr>) = (cpu_join g s)\<lparr>noff := n\<rparr>"
  "drop_group g (s\<lparr>held := h\<rparr>) = (drop_group g s)\<lparr>held := h\<rparr>" "drop_group g (s\<lparr>noff := n\<rparr>) = (drop_group g s)\<lparr>noff := n\<rparr>"
  by (simp_all add: cpu_part_def cpu_join_def drop_group_def upd_group_def)

lemma remove_my_cpu_core:
  assumes "pg_core m s" "g < MAX_PROC_GROUP_NUM" "c_pgroup_id (cpus s ! me s) = int g"
  shows "remove_my_cpu_from_pgroup g s = Ok (cpu_part g s)"
proof -
  note D = pg_core_D [OF assms(1)]
  have "me s \<in> cpus_in g s" using assms(3) cpus_ok_D(3) [OF D(4)] by (simp add: cpus_in_def)
  then have "g_id (group g s) = int g" using D(8) [OF assms(2)] by auto
  then show ?thesis by (rule remove_my_cpu_eq [OF D(4) assms(3,2)])
qed

lemma add_my_cpu_core:
  assumes "pg_core m s" "g < MAX_PROC_GROUP_NUM" "c_pgroup_id (cpus s ! me s) = - 1" "cpus_in g s \<noteq> {}"
  shows "add_my_cpu_to_pgroup g s = Ok (cpu_join g s)"
  using assms pg_core_D(8) [OF assms(1,2)] by (intro add_my_cpu_eq [OF pg_core_D(4) [OF assms(1)]]) simp_all

text \<open>A CPU comes home to the default group: one more free CPU.\<close>

lemma come_home_inv:
  assumes inv: "pg_inv m s" and out: "c_pgroup_id (cpus s ! me s) = - 1" and lk: "held s = {}"
  shows "kbind (acquire (PgroupLock 0) s) (\<lambda>s. kbind (add_my_cpu_to_pgroup 0 s) (\<lambda>s.
      kbind (release (PgroupLock 0) s) inc_free_cpus)) = Ok ((cpu_join 0 s)\<lparr>free_cpus := free_cpus s + 1\<rparr>)"
    "pg_inv m ((cpu_join 0 s)\<lparr>free_cpus := free_cpus s + 1\<rparr>)"
proof -
  have core: "pg_core m s" and fo: "free_ok s" using inv by (auto simp: pg_inv_def)
  note D = pg_core_D [OF core] and F = free_ok_D [OF fo]
  have a: "add_my_cpu_to_pgroup 0 (s\<lparr>held := h, noff := n\<rparr>) = Ok ((cpu_join 0 s)\<lparr>held := h, noff := n\<rparr>)" for h n
    using add_my_cpu_core [of m "s\<lparr>held := h, noff := n\<rparr>" 0] core out D(5) by simp
  have "(cpu_join 0 s)\<lparr>held := {}, noff := noff s\<rparr> = cpu_join 0 s"
    using lk by (simp add: cpu_join_def)
  then show "kbind (acquire (PgroupLock 0) s) (\<lambda>s. kbind (add_my_cpu_to_pgroup 0 s) (\<lambda>s.
      kbind (release (PgroupLock 0) s) inc_free_cpus)) = Ok ((cpu_join 0 s)\<lparr>free_cpus := free_cpus s + 1\<rparr>)"
    using lk F(2) by (simp add: lock_simps a inc_free_cpus_eq)
  have "me s \<notin> cpus_in 0 s" using out by (simp add: cpus_in_def)
  then have "card (cpus_in 0 (cpu_join 0 s)) = Suc (card (cpus_in 0 s))"
    using cpus_in_join [OF D(4) out, of 0 0] by simp
  then have "free_ok ((cpu_join 0 s)\<lparr>free_cpus := free_cpus s + 1\<rparr>)" using fo by (simp add: free_ok_def)
  then show "pg_inv m ((cpu_join 0 s)\<lparr>free_cpus := free_cpus s + 1\<rparr>)"
    using cpu_join_core [OF core _ out D(5)] by (simp add: pg_inv_def)
qed

text \<open>A CPU of a group without processes, called by the scheduler with the lock of the group.\<close>

lemma cpu_leave_if_empty_inv:
  assumes inv: "pg_inv m s" and g: "0 < g" "g < MAX_PROC_GROUP_NUM" "c_pgroup_id (cpus s ! me s) = int g"
    and lk: "held s = {PgroupLock g}" "noff s = Suc k"
  shows "if m g \<noteq> [] then cpu_leave_pgroup_if_empty s = Ok (- 1, s)
    else \<exists>t. cpu_leave_pgroup_if_empty s = Ok (0, t) \<and> pg_inv m t \<and> procs t = procs s \<and> held t = held s \<and>
           noff t = noff s \<and> free_cpus t = free_cpus s + 1 \<and>
           (\<forall>c. c_pgroup_id (cpus t ! c) = (if c = me s then 0 else c_pgroup_id (cpus s ! c)))"
proof -
  have core: "pg_core m s" and fo: "free_ok s" using inv by (auto simp: pg_inv_def)
  note D = pg_core_D [OF core]
  have emp: "list_empty (procs_head g) (plinks s) \<longleftrightarrow> m g = []"
    using kl.empty_law [OF rings_D [OF D(1) g(2)]] by simp
  have main: "\<exists>t. cpu_leave_pgroup_if_empty s = Ok (0, t) \<and> pg_inv m t \<and> procs t = procs s \<and> held t = held s \<and>
      noff t = noff s \<and> free_cpus t = free_cpus s + 1 \<and>
      (\<forall>c. c_pgroup_id (cpus t ! c) = (if c = me s then 0 else c_pgroup_id (cpus s ! c)))" if m: "m g = []"
  proof -
    define u where "u = (if cpus_in g s = {me s} then drop_group g (cpu_part g s) else cpu_part g s)"
    have ctx: "0 < noff s" "FreeCpusLock \<notin> held s" using lk by auto
    have "cpu_leave_pgroup s = Ok (0, u)"
      using cpu_leave_eq [OF core g(2,3) ctx free_ok_D(2) [OF fo]] m g(1) by (simp add: u_def)
    then have u: "pg_inv m u" "\<forall>c. c_pgroup_id (cpus u ! c) = (if c = me s then - 1 else c_pgroup_id (cpus s ! c))"
        "procs u = procs s" "me u = me s" "held u = held s" "noff u = noff s"
      using cpu_leave_inv [OF inv g(2,3) ctx] m g(1) by auto
    have fu: "free_cpus u = free_cpus s" by (simp add: u_def)
    have me: "me s \<in> cpus_in g s" using g(3) cpus_ok_D(3) [OF D(4)] by (simp add: cpus_in_def)
    then have live: "g_id (group g s) = int g" using D(8) [OF g(2)] by auto
    have pok: "cpus_ok (cpu_part g s)" by (rule cpu_part_ok [OF D(4) g(3,2)])
    have cnt: "pgroup_cpu_count_unsafe g (cpu_part g s) = 0 \<longleftrightarrow> cpus_in g s = {me s}"
    proof -
      have "pgroup_cpu_count_unsafe g (cpu_part g s) = 0 \<longleftrightarrow> cpus_in g s - {me s} = {}"
        using cpu_count_eq [OF pok g(2)] cpus_in_part [OF D(4), of g g]
        by (simp only: of_nat_eq_0_iff card_0_eq finite_cpus_in finite_Diff)
      then show ?thesis using me by auto
    qed
    have leave: "kbind (remove_my_cpu_from_pgroup g s) (\<lambda>s.
        if pgroup_cpu_count_unsafe g s = 0 then free_pgroup g s else Ok s) = Ok u"
      using remove_my_cpu_core [OF core g(2,3)] live g(1) cnt by (simp add: u_def free_pgroup_def drop_group_def)
    let ?u = "u\<lparr>held := {}, noff := k\<rparr>"
    have "pg_inv m ?u" "c_pgroup_id (cpus ?u ! me ?u) = - 1" "held ?u = {}" using u by simp_all
    note home = come_home_inv [OF this]
    let ?t = "(cpu_join 0 ?u)\<lparr>free_cpus := free_cpus ?u + 1, held := {PgroupLock g}, noff := Suc k\<rparr>"
    have "cpu_leave_pgroup_if_empty s = kbind (kbind (remove_my_cpu_from_pgroup g s) (\<lambda>s.
          if pgroup_cpu_count_unsafe g s = 0 then free_pgroup g s else Ok s)) (\<lambda>s.
        kbind (release (PgroupLock g) s) (\<lambda>s.
        kbind (kbind (acquire (PgroupLock 0) s) (\<lambda>s. kbind (add_my_cpu_to_pgroup 0 s) (\<lambda>s.
          kbind (release (PgroupLock 0) s) inc_free_cpus))) (\<lambda>s.
        kbind (acquire (PgroupLock g) s) (\<lambda>s. Ok (0, s)))))"
      using g emp m by (simp add: cpu_leave_pgroup_if_empty_def get_default_pgroup_def kbind_assoc)
    moreover have "release (PgroupLock g) u = Ok ?u" using u(5,6) lk by (simp add: lock_simps)
    moreover have "acquire (PgroupLock g) ((cpu_join 0 ?u)\<lparr>free_cpus := free_cpus ?u + 1\<rparr>) = Ok ?t"
      by (simp add: lock_simps cpu_join_def)
    ultimately have "cpu_leave_pgroup_if_empty s = Ok (0, ?t)" by (simp only: leave home(1) kbind.simps)
    moreover have "pg_inv m ?t" using home(2) by (simp only: inv_update_keeps)
    moreover have "cpus_ok ?u" using \<open>pg_inv m ?u\<close> pg_core_D(4) by (auto simp: pg_inv_def)
    from cpu_join_c_pgroup_id [OF this, of 0]
    have "c_pgroup_id (cpus ?t ! c) = (if c = me s then 0 else c_pgroup_id (cpus s ! c))" for c
      using u(2,4) by simp
    ultimately show ?thesis using u(3) lk fu by auto
  qed
  show ?thesis unfolding if_bool_eq_conj using main g emp by (auto simp: cpu_leave_pgroup_if_empty_def)
qed

text \<open>Waking processes up changes neither groups nor CPUs.\<close>

lemma woken_pgroup [simp]: "p_pgroup_id (woken c q) = p_pgroup_id q"
  by (simp add: woken_def)

lemma woken_inv: "pg_inv m s \<Longrightarrow> pg_inv m (s\<lparr>procs := map (woken c) (procs s)\<rparr>)"
  unfolding pg_inv_def pg_core_def free_ok_def
  by (auto simp: members_def cpus_in_def cpus_ok_def)

definition message_target :: "cpu_message \<Rightarrow> nat" where
  "message_target x = (case x of NEED_CPU c i \<Rightarrow> nat i | NEED_CPU_FLEX g \<Rightarrow> g | EMP_MESSAGE \<Rightarrow> 0)"

lemma message_target_ok:
  "message_ok x \<Longrightarrow> message_group x = Ok (Some (message_target x)) \<and> 0 < message_target x \<and> message_target x < MAX_PROC_GROUP_NUM"
  by (cases x) (auto simp: message_group_def message_target_def get_proc_group_def)

definition message_wakes :: "cpu_message \<Rightarrow> process list \<Rightarrow> process list" where
  "message_wakes x ps = (case x of NEED_CPU c i \<Rightarrow> map (woken c) ps | _ \<Rightarrow> ps)"

text \<open>
  A request at the head of the box is served by a CPU of the default group: the group in use gets
  the CPU and the requester is woken; for a group that is gone the CPU stays and counts as free
  again if nobody waits, and the kernel panics if somebody does.
\<close>

definition waiting_request :: "cpu_message \<Rightarrow> bool" where
  "waiting_request x = (case x of NEED_CPU c i \<Rightarrow> True | _ \<Rightarrow> False)"

lemma handle_request:
  assumes inv: "pg_inv m s" and home: "c_pgroup_id (cpus s ! me s) = 0" and lk: "held s = {}"
    and box: "box_contents (um_box s) = x # xs"
  shows "\<exists>b. box_contents b = xs \<and>
    (if cpus_in (message_target x) s \<noteq> {}
     then handle_cpu_acquire s = Ok ((cpu_join (message_target x) (cpu_part 0 (s\<lparr>um_box := b\<rparr>)))\<lparr>procs := message_wakes x (procs s)\<rparr>) \<and>
       pg_inv m ((cpu_join (message_target x) (cpu_part 0 (s\<lparr>um_box := b\<rparr>)))\<lparr>procs := message_wakes x (procs s)\<rparr>)
     else if waiting_request x then handle_cpu_acquire s = Panic ''handle_cpu_acquire: empty group acquire cpu''
     else handle_cpu_acquire s = Ok (s\<lparr>um_box := b, free_cpus := free_cpus s + 1\<rparr>) \<and>
       pg_inv m (s\<lparr>um_box := b, free_cpus := free_cpus s + 1\<rparr>))"
proof -
  have core: "pg_core m s" and fo: "free_ok s" using inv by (auto simp: pg_inv_def)
  note D = pg_core_D [OF core] and F = free_ok_D [OF fo]
  define b where "b = snd (box_take (um_box s))"
  note G = get_cpu_message_eq [OF F(1) _ box, folded b_def]
  define s1 where "s1 = s\<lparr>um_box := b\<rparr>"
  define g where "g = message_target x"
  have mx: "message_ok x" using F(3) box by simp
  note T = message_target_ok [OF mx, folded g_def]
  have core1: "pg_core m s1" using core by (simp add: s1_def)
  note D1 = pg_core_D [OF core1]
  have f1: "held s1 = {}" "noff s1 = noff s" "cpus s1 = cpus s" "me s1 = me s" "groups s1 = groups s"
    "cpus_in h s1 = cpus_in h s" "procs s1 = procs s" "um_box s1 = b" "free_cpus s1 = free_cpus s" for h
    using lk by (simp_all add: s1_def)
  have me0: "me s \<in> cpus_in 0 s" using home cpus_ok_D(3) [OF D(4)] by (simp add: cpus_in_def)
  have card: "int (card (cpus_in 0 s)) = 2 + free_cpus s + int (length xs)" using F(4) box by simp
  have many: "cpus_in 0 s \<noteq> {me s}" "int (card (cpus_in 0 s)) \<noteq> 1" using card F(2) by auto
  have cnt: "pgroup_cpu_count_unsafe 0 (s1\<lparr>held := h, noff := n\<rparr>) \<noteq> 1" for h n
    using cpu_count_eq [of "s1\<lparr>held := h, noff := n\<rparr>" 0] D1(4) many f1 by simp
  have home1: "c_pgroup_id (cpus s1 ! me s1) = int 0" using home f1 by simp
  have rm: "remove_my_cpu_from_pgroup 0 (s1\<lparr>held := h, noff := n\<rparr>) = Ok ((cpu_part 0 s1)\<lparr>held := h, noff := n\<rparr>)" for h n
    using remove_my_cpu_core [of m "s1\<lparr>held := h, noff := n\<rparr>" 0] core1 home1 by simp
  define s2 where "s2 = cpu_part 0 s1"
  have core2: "pg_core m s2" unfolding s2_def using cpu_part_core [OF core1 _ home1] many f1 by simp
  note D2 = pg_core_D [OF core2]
  have f2: "held s2 = {}" "noff s2 = noff s" "me s2 = me s" "procs s2 = procs s" "um_box s2 = b" "free_cpus s2 = free_cpus s"
    "c_pgroup_id (cpus s2 ! me s2) = - 1" "g_id (group h s2) = g_id (group h s)"
    "cpus_in h s2 = cpus_in h s - {me s}" for h
    using f1 cpu_part_c_pgroup_id [OF D1(4)] cpus_in_part [OF D1(4)] by (simp_all add: s2_def)
  have other: "h \<noteq> 0 \<Longrightarrow> cpus_in h s2 = cpus_in h s" for h using f2(9) home by (auto simp: cpus_in_def)
  have s1': "(cpu_part 0 s1)\<lparr>held := {}, noff := noff s\<rparr> = s2" using f1 by (simp add: s2_def cpu_part_def)
  have bok: "box_ok b" "box_contents b = xs" using G lk by simp_all
  have card2: "int (card (cpus_in 0 s2)) = 1 + free_cpus s + int (length xs)"
    using card me0 f2(9) [of 0] F(2) by simp
  have eq: "handle_cpu_acquire s =
      (if g_id (group g s) = - 1 then
         (case x of
            NEED_CPU_FLEX _ \<Rightarrow>
              kbind (acquire (PgroupLock 0) s2) (\<lambda>s.
              kbind (add_my_cpu_to_pgroup 0 s) (\<lambda>s.
              kbind (inc_free_cpus s) (release (PgroupLock 0))))
          | _ \<Rightarrow> Panic ''handle_cpu_acquire: empty group acquire cpu'')
       else
         kbind (add_my_cpu_to_pgroup g (s2\<lparr>held := {PgroupLock g}, noff := Suc (noff s)\<rparr>)) (\<lambda>s.
         kbind (case x of NEED_CPU c i \<Rightarrow> wake_up c s | _ \<Rightarrow> Ok s) (release (PgroupLock g))))"
    using home lk G T f1 f2 cnt rm s1'
    by (simp add: handle_cpu_acquire_def s1_def [symmetric] get_default_pgroup_def lock_simps s2_def [symmetric]
          cong: cpu_message.case_cong)
  consider (gone_wait) "cpus_in g s = {}" "waiting_request x" | (gone) "cpus_in g s = {}" "\<not> waiting_request x"
    | (live) "cpus_in g s \<noteq> {}" by blast
  then show ?thesis
  proof cases
    case gone_wait
    then have "handle_cpu_acquire s = Panic ''handle_cpu_acquire: empty group acquire cpu''"
      using eq D(8) [of g] T mx by (cases x) (simp_all add: waiting_request_def)
    then show ?thesis using gone_wait bok unfolding g_def [symmetric] by auto
  next
    case gone
    then obtain h where x: "x = NEED_CPU_FLEX h" using mx by (cases x) (auto simp: waiting_request_def)
    note True = gone(1)
    have "add_my_cpu_to_pgroup 0 (s2\<lparr>held := {PgroupLock 0}, noff := Suc (noff s)\<rparr>) =
        Ok (s1\<lparr>held := {PgroupLock 0}, noff := Suc (noff s)\<rparr>)"
      using add_my_cpu_core [of m "s2\<lparr>held := {PgroupLock 0}, noff := Suc (noff s)\<rparr>" 0] core2 f2 D2(5)
        cpu_part_join [OF D1(4) home1] by (simp add: s2_def)
    moreover have "inc_free_cpus (s1\<lparr>held := {PgroupLock 0}, noff := Suc (noff s)\<rparr>) =
        Ok (s1\<lparr>held := {PgroupLock 0}, noff := Suc (noff s), free_cpus := free_cpus s + 1\<rparr>)"
      using inc_free_cpus_eq [of "s1\<lparr>held := {PgroupLock 0}, noff := Suc (noff s)\<rparr>"] F(2) f1 by simp
    ultimately have "handle_cpu_acquire s = Ok (s1\<lparr>free_cpus := free_cpus s + 1\<rparr>)"
      using eq True D(8) [of g] T f1 f2 lk by (simp add: x lock_simps s1_def)
    moreover have "free_ok (s1\<lparr>free_cpus := free_cpus s + 1\<rparr>)"
      using fo bok f1 card box by (simp add: free_ok_def)
    ultimately show ?thesis
      using gone core1 bok unfolding g_def [symmetric] s1_def by (auto simp: pg_inv_def)
  next
    case live
    note False = live
    let ?t = "cpu_join g s2"
    have live2: "cpus_in g s2 \<noteq> {}" using other [of g] T False by simp
    have add: "add_my_cpu_to_pgroup g (s2\<lparr>held := {PgroupLock g}, noff := Suc (noff s)\<rparr>) =
        Ok (?t\<lparr>held := {PgroupLock g}, noff := Suc (noff s)\<rparr>)"
      using add_my_cpu_core [of m "s2\<lparr>held := {PgroupLock g}, noff := Suc (noff s)\<rparr>" g] core2 f2(7) live2 T by simp
    have rel: "?t\<lparr>held := {}, noff := noff s\<rparr> = ?t" using f2 by (simp add: cpu_join_def)
    have wake: "kbind (case x of NEED_CPU c i \<Rightarrow> wake_up c (?t\<lparr>held := {PgroupLock g}, noff := Suc (noff s)\<rparr>)
          | _ \<Rightarrow> Ok (?t\<lparr>held := {PgroupLock g}, noff := Suc (noff s)\<rparr>)) (release (PgroupLock g)) =
        Ok (?t\<lparr>procs := message_wakes x (procs s)\<rparr>)"
    proof (cases x)
      case (NEED_CPU c i)
      have "wake_up c (?t\<lparr>held := {PgroupLock g}, noff := Suc (noff s)\<rparr>) =
          Ok (?t\<lparr>held := {PgroupLock g}, noff := Suc (noff s), procs := map (woken c) (procs s)\<rparr>)"
        using wake_up_eq [of "?t\<lparr>held := {PgroupLock g}, noff := Suc (noff s)\<rparr>" c] D(3) f2 by simp
      moreover have "?t\<lparr>procs := ps, held := {}, noff := noff s\<rparr> = ?t\<lparr>procs := ps\<rparr>" for ps
        using f2 by (simp add: cpu_join_def)
      ultimately show ?thesis using NEED_CPU by (simp add: lock_simps message_wakes_def)
    next
      case (NEED_CPU_FLEX h)
      have "?t\<lparr>procs := procs s\<rparr> = ?t" using f2 by (simp add: cpu_join_def)
      then show ?thesis using NEED_CPU_FLEX rel by (simp add: lock_simps message_wakes_def)
    next
      case EMP_MESSAGE
      then show ?thesis using mx by simp
    qed
    have "g_id (group g s) \<noteq> - 1" using D(8) [of g] T False by simp
    then have "handle_cpu_acquire s = Ok (?t\<lparr>procs := message_wakes x (procs s)\<rparr>)"
      using eq add wake by simp
    moreover have "cpus_in 0 ?t = cpus_in 0 s2" using cpus_in_join [OF D2(4) f2(7)] T by simp
    then have "free_ok ?t" using fo bok box card2 f2 by (simp add: free_ok_def)
    then have "pg_inv m ?t" using cpu_join_core [OF core2 _ f2(7) live2] T by (simp add: pg_inv_def)
    then have "pg_inv m (?t\<lparr>procs := message_wakes x (procs s)\<rparr>)"
    proof (cases x)
      case (NEED_CPU c i)
      then show ?thesis using woken_inv [OF \<open>pg_inv m ?t\<close>, of c] f2 by (simp add: message_wakes_def)
    next
      case (NEED_CPU_FLEX h)
      have "?t\<lparr>procs := procs s\<rparr> = ?t" using f2 by (simp add: cpu_join_def)
      then show ?thesis using NEED_CPU_FLEX \<open>pg_inv m ?t\<close> by (simp add: message_wakes_def)
    qed (use mx in simp)
    ultimately show ?thesis
      using False bok unfolding g_def [symmetric] s2_def s1_def by auto
  qed
qed


text \<open>
  The example system after process 0 made group 3 with CPU 0; CPU 1 stays in the default group,
  which has no process.
\<close>

definition pg_moves_example :: pgroup_state where
  "pg_moves_example = pg_example\<lparr>
     procs := (procs pg_example)[0 := (proc 0 pg_example)\<lparr>p_pgroup_id := 3\<rparr>],
     cpus := (cpus pg_example)[0 := (cpus pg_example ! 0)\<lparr>c_pgroup_id := 3\<rparr>],
     groups := (groups pg_example)[
       0 := (group 0 pg_example)\<lparr>g_cpus := (g_cpus (group 0 pg_example))[0 := - 1]\<rparr>,
       3 := (group 3 pg_example)\<lparr>g_id := 3, g_cpus := (g_cpus (group 3 pg_example))[0 := 0]\<rparr>],
     plinks := \<lparr>nxt = (\<lambda>a. if a = procs_head 3 then pgroup_list 0 else if a = pgroup_list 0 then procs_head 3 else a),
       prv = (\<lambda>a. if a = procs_head 3 then pgroup_list 0 else if a = pgroup_list 0 then procs_head 3 else a)\<rparr>,
     free_cpus := 0\<rparr>"

definition pg_moves_members :: "nat \<Rightarrow> nat list" where
  "pg_moves_members g = (if g = 3 then [0] else [])"

lemma pg_moves_cpus_in: "cpus_in g pg_moves_example = (if g = 0 then {1} else if g = 3 then {0} else {})"
  by (auto simp: cpus_in_def pg_moves_example_def pg_example_def MAX_CPU_NUM_def nth_list_update split: if_splits)

lemma pg_moves_inv: "pg_inv pg_moves_members pg_moves_example"
proof -
  have "rings pg_moves_members (plinks pg_moves_example)"
    by (auto simp: rings_def pg_moves_example_def pg_moves_members_def ring_def)
  moreover have "members pg_moves_members (procs pg_moves_example)"
    by (auto simp: members_def pg_moves_example_def pg_example_def pg_moves_members_def nth_list_update split: if_splits)
  moreover have "cpus_ok pg_moves_example"
    by (auto simp: cpus_ok_def pg_moves_example_def pg_example_def MAX_CPU_NUM_def nth_append nth_list_update split: if_splits)
  ultimately have "pg_core pg_moves_members pg_moves_example"
    unfolding pg_core_def pg_moves_cpus_in
    by (auto simp: pg_moves_example_def pg_example_def pg_moves_members_def nth_list_update)
  moreover have "free_ok pg_moves_example"
    unfolding free_ok_def pg_moves_cpus_in by (simp add: pg_moves_example_def pg_example_def init_box_ok)
  ultimately show ?thesis by (simp add: pg_inv_def)
qed


text \<open>
  C16: a request for a CPU. \<open>inc_pgroup_cpus_flex\<close> refuses the default group, an exclusively
  occupied group, and a request when no CPU is free; otherwise it takes one CPU off the count and
  queues the request. The message box is never full at that point (the panic of \<open>send_cpu_message\<close>
  is not reached) because CPUs of the default group are either free or promised.
\<close>

theorem cpu_request_correct:
  assumes inv: "pg_inv m s" and p: "my_proc s = Some p" "p < STATIC_PROC_NUM" "p_pgroup_id (proc p s) = int g"
    and g: "g < MAX_PROC_GROUP_NUM" and ctx: "held s = {}"
  shows "if g = 0 \<or> g_exclusively_occupy (group g s) \<or> free_cpus s = 0 then inc_pgroup_cpus_flex s = Ok (- 1, s)
    else \<exists>b. inc_pgroup_cpus_flex s = Ok (0, s\<lparr>free_cpus := free_cpus s - 1, um_box := b\<rparr>) \<and>
           box_contents b = box_contents (um_box s) @ [NEED_CPU_FLEX g] \<and>
           pg_inv m (s\<lparr>free_cpus := free_cpus s - 1, um_box := b\<rparr>)"
proof -
  have fo: "0 \<le> free_cpus s" using inv by (auto simp: pg_inv_def dest: free_ok_D)
  have d: "dec_free_cpus s = Ok (if free_cpus s = 0 then (- 1, s) else (0, s\<lparr>free_cpus := free_cpus s - 1\<rparr>))"
    using dec_free_cpus_eq [of s] fo ctx by simp
  show ?thesis
  proof (cases "g = 0 \<or> g_exclusively_occupy (group g s) \<or> free_cpus s = 0")
    case True
    then show ?thesis using p g d by (auto simp: inc_pgroup_cpus_flex_def the_proc_def)
  next
    case False
    then have "message_ok (NEED_CPU_FLEX g)" "0 < free_cpus s" using g fo by auto
    from send_request_inv [OF inv this(2) _ this(1)]
    show ?thesis using False p g d ctx by (auto simp: inc_pgroup_cpus_flex_def the_proc_def)
  qed
qed

theorem cpu_request_correct_witness:
  "inc_pgroup_cpus_flex pg_example = Ok (- 1, pg_example)"
  using cpu_request_correct [OF pg_example_inv pg_example_ctx(1) _ pg_example_ctx(2) _ pg_example_ctx(4)] by simp

text \<open>
  C17: a request is served. A CPU of the default group that runs \<open>handle_cpu_acquire\<close> does nothing
  when the box is empty. Otherwise it takes the oldest request. If the group that asked is in use,
  the CPU moves to it and a requester that waits (\<open>NEED_CPU\<close>) is woken up. If the group is gone, a
  request nobody waits for (\<open>NEED_CPU_FLEX\<close>) leaves the CPU in the default group, counted free again,
  and a \<open>NEED_CPU\<close> request makes the kernel panic ("empty group acquire cpu"). Whenever the function
  returns, the request has left the box, the invariant holds, no other CPU has moved and no lock is
  left; the panics "too many cpus been allocate" and "add cpu that has been added" are not reached.
\<close>

theorem handle_cpu_acquire_correct:
  assumes inv: "pg_inv m s" and home: "c_pgroup_id (cpus s ! me s) = 0" and lk: "held s = {}"
  shows "case box_contents (um_box s) of [] \<Rightarrow> handle_cpu_acquire s = Ok s
    | x # xs \<Rightarrow>
        if cpus_in (message_target x) s = {} \<and> waiting_request x
        then handle_cpu_acquire s = Panic ''handle_cpu_acquire: empty group acquire cpu''
        else \<exists>t. handle_cpu_acquire s = Ok t \<and> pg_inv m t \<and> held t = {} \<and> box_contents (um_box t) = xs \<and>
          (if cpus_in (message_target x) s \<noteq> {}
           then (\<forall>c. c_pgroup_id (cpus t ! c) = (if c = me s then int (message_target x) else c_pgroup_id (cpus s ! c))) \<and>
             free_cpus t = free_cpus s \<and> procs t = message_wakes x (procs s)
           else cpus t = cpus s \<and> free_cpus t = free_cpus s + 1 \<and> procs t = procs s)"
proof (cases "box_contents (um_box s)")
  case Nil
  have "box_ok (um_box s)" using inv by (auto simp: pg_inv_def dest: free_ok_D)
  then show ?thesis using Nil home no_message_iff [of s] by (simp add: handle_cpu_acquire_def)
next
  case (Cons x xs)
  from handle_request [OF inv home lk Cons] obtain b where b: "box_contents b = xs"
    "if cpus_in (message_target x) s \<noteq> {}
     then handle_cpu_acquire s = Ok ((cpu_join (message_target x) (cpu_part 0 (s\<lparr>um_box := b\<rparr>)))\<lparr>procs := message_wakes x (procs s)\<rparr>) \<and>
       pg_inv m ((cpu_join (message_target x) (cpu_part 0 (s\<lparr>um_box := b\<rparr>)))\<lparr>procs := message_wakes x (procs s)\<rparr>)
     else if waiting_request x then handle_cpu_acquire s = Panic ''handle_cpu_acquire: empty group acquire cpu''
     else handle_cpu_acquire s = Ok (s\<lparr>um_box := b, free_cpus := free_cpus s + 1\<rparr>) \<and>
       pg_inv m (s\<lparr>um_box := b, free_cpus := free_cpus s + 1\<rparr>)" by blast
  have ok: "cpus_ok (s\<lparr>um_box := b\<rparr>)" "c_pgroup_id (cpus (s\<lparr>um_box := b\<rparr>) ! me (s\<lparr>um_box := b\<rparr>)) = int 0"
    using inv home by (auto simp: pg_inv_def dest: pg_core_D(4))
  have "c_pgroup_id (cpus (cpu_join h (cpu_part 0 (s\<lparr>um_box := b\<rparr>))) ! c) =
      (if c = me s then int h else c_pgroup_id (cpus s ! c))" for h c
    using cpu_join_c_pgroup_id [OF cpu_part_ok [OF ok], of h] cpu_part_c_pgroup_id [OF ok(1)] by simp
  then show ?thesis using b lk Cons
    by (cases "cpus_in (message_target x) s = {}"; cases "waiting_request x") auto
qed

text \<open>
  Process 0 of group 3 waits for a second CPU: its CPU 0 is idle, CPUs 1 and 2 are in the default
  group, the request is in the box, and CPU 1 looks at it.
\<close>

definition pg_request_example :: pgroup_state where
  "pg_request_example = pg_moves_example\<lparr>me := 1,
     procs := (procs pg_moves_example)[0 := (proc 0 pg_moves_example)\<lparr>p_status := SLEEP, p_chain := CpuMessageChan 0\<rparr>],
     cpus := (cpus pg_moves_example)[0 := (cpus pg_moves_example ! 0)\<lparr>c_my_proc := None\<rparr>,
       2 := (cpus pg_moves_example ! 2)\<lparr>c_cpu_id := 2, c_pgroup_id := 0\<rparr>],
     groups := (groups pg_moves_example)[0 := (group 0 pg_moves_example)\<lparr>g_cpus := (g_cpus (group 0 pg_moves_example))[2 := 2]\<rparr>],
     um_box := box_put (NEED_CPU (CpuMessageChan 0) 3) init_cpu_message\<rparr>"

lemma pg_request_cpus_in: "cpus_in g pg_request_example = (if g = 0 then {1, 2} else if g = 3 then {0} else {})"
  by (auto simp: cpus_in_def pg_request_example_def pg_moves_example_def pg_example_def MAX_CPU_NUM_def
      nth_list_update split: if_splits)

lemma pg_request_box:
  "box_contents (um_box pg_request_example) = [NEED_CPU (CpuMessageChan 0) 3]" "box_ok (um_box pg_request_example)"
  using send_cpu_message_eq [of pg_example "NEED_CPU (CpuMessageChan 0) 3"] init_box_ok pg_example_ctx(4)
  by (simp_all add: pg_request_example_def pg_example_def)

lemma pg_request_inv: "pg_inv pg_moves_members pg_request_example"
proof -
  have M: "pg_core pg_moves_members pg_moves_example" using pg_moves_inv by (simp add: pg_inv_def)
  have "members pg_moves_members (procs pg_request_example)"
    by (auto simp: members_def pg_request_example_def pg_moves_example_def pg_example_def pg_moves_members_def
        nth_list_update split: if_splits)
  moreover have "cpus_ok pg_request_example"
    by (auto simp: cpus_ok_def pg_request_example_def pg_moves_example_def pg_example_def MAX_CPU_NUM_def nth_append
        nth_list_update split: if_splits)
  moreover have "rings pg_moves_members (plinks pg_request_example)"
    using pg_core_D(1) [OF M] by (simp add: pg_request_example_def)
  ultimately have "pg_core pg_moves_members pg_request_example"
    unfolding pg_core_def pg_request_cpus_in
    by (auto simp: pg_request_example_def pg_moves_example_def pg_example_def pg_moves_members_def MAX_CPU_NUM_def
        nth_list_update)
  moreover have "free_cpus pg_request_example = 0" by (simp add: pg_request_example_def pg_moves_example_def)
  then have "free_ok pg_request_example"
    unfolding free_ok_def pg_request_cpus_in pg_request_box(1) using pg_request_box(2) by simp
  ultimately show ?thesis by (simp add: pg_inv_def)
qed

theorem handle_cpu_acquire_correct_witness:
  "\<exists>t. handle_cpu_acquire pg_request_example = Ok t \<and> box_contents (um_box t) = [] \<and>
     c_pgroup_id (cpus t ! 1) = 3 \<and> c_pgroup_id (cpus t ! 2) = 0 \<and> p_status (proc 0 t) = RUNABLE"
proof -
  have f: "c_pgroup_id (cpus pg_request_example ! me pg_request_example) = 0" "held pg_request_example = {}"
    "me pg_request_example = 1" "c_pgroup_id (cpus pg_request_example ! 2) = 0"
    "proc 0 pg_request_example = (proc 0 pg_example)\<lparr>p_pgroup_id := 3, p_status := SLEEP, p_chain := CpuMessageChan 0\<rparr>"
    "length (procs pg_request_example) = STATIC_PROC_NUM"
    by (simp_all add: pg_request_example_def pg_moves_example_def pg_example_def MAX_CPU_NUM_def)
  have "cpus_in 3 pg_request_example \<noteq> {}" by (simp add: pg_request_cpus_in)
  moreover have tgt: "message_target (NEED_CPU (CpuMessageChan 0) 3) = 3" by (simp add: message_target_def)
  ultimately obtain t where t: "handle_cpu_acquire pg_request_example = Ok t" "box_contents (um_box t) = []"
      "\<And>c. c_pgroup_id (cpus t ! c) = (if c = 1 then int 3 else c_pgroup_id (cpus pg_request_example ! c))"
      "procs t = map (woken (CpuMessageChan 0)) (procs pg_request_example)"
    using handle_cpu_acquire_correct [OF pg_request_inv f(1,2), unfolded pg_request_box(1) list.case tgt] f(3)
    by (auto simp: message_wakes_def)
  have "p_status (proc 0 t) = RUNABLE" using f(5,6) by (simp add: t(4) woken_def)
  then show ?thesis using t(1-3) f(4) by simp
qed

end
