(* ===== verification/Scheduler.thy ===== *)
theory Scheduler
  imports Pgroup_Inv
begin

text \<open>
  The scheduler: kernel/scheduler/scheduler.c. \<open>run_process\<close> is one round of the loop in
  \<open>scheduler\<close>; the switch to the chosen process and back is the parameter \<open>sw\<close>.
\<close>

section \<open>The code\<close>

text \<open>
  \<open>list_for_each_entry\<close> over the group's list: each process is locked, and the first runnable one
  is returned locked.
\<close>

fun first_runnable :: "pnode lptr list \<Rightarrow> 'a pgroup_state_scheme \<Rightarrow> (nat option \<times> 'a pgroup_state_scheme) kres" where
  "first_runnable [] s = Ok (None, s)"
| "first_runnable (Node (ProcNode p) # ns) s =
     kbind (acquire (ProcLock p) s) (\<lambda>s.
     if p_status (proc p s) = RUNABLE then Ok (Some p, s)
     else kbind (release (ProcLock p) s) (first_runnable ns))"
| "first_runnable (_ # ns) s = Panic ''list_for_each_entry: not a process''"

definition get_runnable_proc_with_lock :: "nat \<Rightarrow> 'a pgroup_state_scheme \<Rightarrow> (nat option \<times> 'a pgroup_state_scheme) kres" where
  "get_runnable_proc_with_lock g s =
     kbind (list_walk (Suc STATIC_PROC_NUM) (nxt (plinks s) (procs_head g)) (procs_head g) (plinks s)) (\<lambda>ns.
     first_runnable ns s)"

definition run_process ::
  "('a pgroup_state_scheme \<Rightarrow> 'a pgroup_state_scheme kres) \<Rightarrow> 'a pgroup_state_scheme \<Rightarrow> (int \<times> 'a pgroup_state_scheme) kres" where
  "run_process sw s =
     (let mycpu = me s in
      kbind (if c_pgroup_id (cpus s ! mycpu) = DEFAULT_PGROUP_ID then handle_cpu_acquire s else Ok s) (\<lambda>s.
      kbind (get_proc_group (c_pgroup_id (cpus s ! mycpu))) (\<lambda>g.
      kbind (acquire (PgroupLock g) s) (\<lambda>s.
      if g_id (group g s) = - 1 then Panic ''run_process: cpu try to run in empty proc group''
      else
        kbind (if c_pgroup_id (cpus s ! mycpu) \<noteq> DEFAULT_PGROUP_ID then cpu_leave_pgroup_if_empty s else Ok (- 1, s)) (\<lambda>(left, s).
        if left = 0 then kbind (release (PgroupLock g) s) (\<lambda>s. Ok (0, s))
        else
          kbind (get_runnable_proc_with_lock g s) (\<lambda>(r, s).
          case r of
            None \<Rightarrow> kbind (release (PgroupLock g) s) (\<lambda>s. Ok (- 1, s))
          | Some p \<Rightarrow>
              kbind (proc_move_to_tail g p s) (\<lambda>s.
              kbind (release (PgroupLock g) s) (\<lambda>s.
              kbind (sw (upd_proc p (\<lambda>q. q\<lparr>p_status := RUNNING\<rparr>) (upd_cpu mycpu (\<lambda>k. k\<lparr>c_my_proc := Some p\<rparr>) s))) (\<lambda>s.
              kbind (release (ProcLock p) (upd_cpu mycpu (\<lambda>k. k\<lparr>c_my_proc := None\<rparr>) s)) (\<lambda>s. Ok (0, s)))))))))))"

text \<open>The endless loop of \<open>scheduler\<close>, cut after \<open>n\<close> rounds.\<close>

primrec scheduler_rounds ::
  "nat \<Rightarrow> ('a pgroup_state_scheme \<Rightarrow> 'a pgroup_state_scheme kres) \<Rightarrow> 'a pgroup_state_scheme \<Rightarrow> 'a pgroup_state_scheme kres" where
  "scheduler_rounds 0 sw s = Ok s"
| "scheduler_rounds (Suc n) sw s = kbind (run_process sw s) (\<lambda>(no_runable_proc, s). scheduler_rounds n sw s)"

section \<open>Which process runs\<close>

definition runnable :: "'a proc_state_scheme \<Rightarrow> nat \<Rightarrow> bool" where
  "runnable s p \<longleftrightarrow> p_status (proc p s) = RUNABLE"

lemma first_runnable_eq:
  assumes "\<And>p. ProcLock p \<notin> held s"
  shows "first_runnable (map pgroup_list ps) s =
    (case List.find (runnable s) ps of
       None \<Rightarrow> Ok (None, s)
     | Some p \<Rightarrow> Ok (Some p, s\<lparr>held := insert (ProcLock p) (held s), noff := Suc (noff s)\<rparr>))"
proof (induction ps)
  case (Cons p ps)
  then show ?case using assms by (simp add: lock_simps runnable_def)
qed simp

lemma find_Some_split: "List.find P xs = Some x \<Longrightarrow> \<exists>ys zs. xs = ys @ x # zs \<and> P x \<and> (\<forall>y \<in> set ys. \<not> P y)"
proof (induction xs)
  case (Cons a xs)
  show ?case
  proof (cases "P a")
    case True
    then show ?thesis using Cons.prems by (intro exI [of _ "[]"] exI [of _ xs]) auto
  next
    case False
    then obtain ys zs where "xs = ys @ x # zs" "P x" "\<forall>y \<in> set ys. \<not> P y" using Cons by auto
    then show ?thesis using False by (intro exI [of _ "a # ys"] exI [of _ zs]) auto
  qed
qed simp

lemma group_list_length:
  assumes "pg_core m s" "g < MAX_PROC_GROUP_NUM"
  shows "length (m g) < Suc STATIC_PROC_NUM"
proof -
  note D = pg_core_D [OF assms(1)]
  have "distinct (m g)" by (rule rings_distinct [OF D(1) assms(2)])
  moreover have "set (m g) \<subseteq> {..<STATIC_PROC_NUM}" using members_D [OF D(2) assms(2)] D(3) by auto
  ultimately have "length (m g) \<le> card {..<STATIC_PROC_NUM}"
    by (metis card_mono distinct_card finite_lessThan)
  then show ?thesis by simp
qed

lemma get_runnable_eq:
  assumes "pg_core m s" "g < MAX_PROC_GROUP_NUM" "\<And>p. ProcLock p \<notin> held s"
  shows "get_runnable_proc_with_lock g s =
    (case List.find (runnable s) (m g) of
       None \<Rightarrow> Ok (None, s)
     | Some p \<Rightarrow> Ok (Some p, s\<lparr>held := insert (ProcLock p) (held s), noff := Suc (noff s)\<rparr>))"
  using list_walk_ring [OF rings_D [OF pg_core_D(1) [OF assms(1)] assms(2)], of "Suc STATIC_PROC_NUM"]
    group_list_length [OF assms(1,2)] first_runnable_eq [of s "m g"] assms(3)
  by (simp add: get_runnable_proc_with_lock_def)

text \<open>Moving to the tail keeps the invariant; the list is rotated around the process.\<close>

lemma move_to_tail_inv:
  assumes inv: "pg_inv m s" and g: "g < MAX_PROC_GROUP_NUM" and p: "p \<in> set (m g)"
  shows "\<exists>L. proc_move_to_tail g p s = Ok (s\<lparr>plinks := L\<rparr>) \<and> pg_inv (m(g := remove1 p (m g) @ [p])) (s\<lparr>plinks := L\<rparr>)"
proof -
  have core: "pg_core m s" and fo: "free_ok s" using inv by (auto simp: pg_inv_def)
  note D = pg_core_D [OF core]
  obtain L where L: "kbind (list_del (pgroup_list p) (plinks s)) (list_add_tail (pgroup_list p) (procs_head g)) = Ok L"
      "rings (m(g := remove1 p (m g) @ [p])) L"
    using rings_requeue [OF D(1,2) g p] by (auto simp: kok_def)
  have "members (m(g := remove1 p (m g) @ [p])) (procs s)"
    using D(2) p rings_distinct [OF D(1) g] by (auto simp: members_def)
  moreover have "cpus_in g s \<noteq> {}" using D(9) [OF g] p by auto
  ultimately have "pg_core (m(g := remove1 p (m g) @ [p])) (s\<lparr>plinks := L\<rparr>)"
    unfolding pg_core_def using L(2) D by (auto simp: cpus_ok_def cpus_in_def)
  moreover have "free_ok (s\<lparr>plinks := L\<rparr>)" using fo by (simp add: free_ok_def cpus_in_def)
  moreover have "proc_move_to_tail g p s = Ok (s\<lparr>plinks := L\<rparr>)"
    using L(1) by (auto simp: proc_move_to_tail_def with_links_def)
  ultimately show ?thesis by (auto simp: pg_inv_def)
qed

text \<open>The state a CPU switches to process \<open>p\<close> in: its lock held, \<open>my_proc\<close> set, status \<open>RUNNING\<close>.\<close>

definition dispatched :: "nat \<Rightarrow> pnode lptr links \<Rightarrow> 'a pgroup_state_scheme \<Rightarrow> 'a pgroup_state_scheme" where
  "dispatched p L s = upd_proc p (\<lambda>q. q\<lparr>p_status := RUNNING\<rparr>) (upd_cpu (me s) (\<lambda>k. k\<lparr>c_my_proc := Some p\<rparr>)
     (s\<lparr>plinks := L, held := {ProcLock p}, noff := Suc (noff s)\<rparr>))"

definition switched_back :: "nat \<Rightarrow> nat \<Rightarrow> 'a pgroup_state_scheme \<Rightarrow> (int \<times> 'a pgroup_state_scheme) kres" where
  "switched_back c p s = kbind (release (ProcLock p) (upd_cpu c (\<lambda>k. k\<lparr>c_my_proc := None\<rparr>) s)) (\<lambda>s. Ok (0, s))"

lemma run_process_eq:
  assumes inv: "pg_inv m s" and g: "g < MAX_PROC_GROUP_NUM" "c_pgroup_id (cpus s ! me s) = int g" and lk: "held s = {}"
    and quiet: "g = 0 \<Longrightarrow> box_contents (um_box s) = []"
    and find: "List.find (runnable s) (m g) = Some p"
  shows "\<exists>L. run_process sw s = kbind (sw (dispatched p L s)) (switched_back (me s) p) \<and>
    pg_inv (m(g := remove1 p (m g) @ [p])) (s\<lparr>plinks := L\<rparr>)"
proof -
  have core: "pg_core m s" and fo: "free_ok s" using inv by (auto simp: pg_inv_def)
  note D = pg_core_D [OF core]
  have mem: "p \<in> set (m g)" using find find_Some_split [OF find] by auto
  have ne: "m g \<noteq> []" using mem by auto
  have live: "g_id (group g s) \<noteq> - 1" using D(8,9) [OF g(1)] ne by auto
  let ?s1 = "s\<lparr>held := {PgroupLock g}, noff := Suc (noff s)\<rparr>"
  let ?s2 = "s\<lparr>held := {ProcLock p, PgroupLock g}, noff := Suc (Suc (noff s))\<rparr>"
  have msg: "(if c_pgroup_id (cpus s ! me s) = DEFAULT_PGROUP_ID then handle_cpu_acquire s else Ok s) = Ok s"
    using quiet g(2) no_message_iff [OF free_ok_D(1) [OF fo]] by (simp add: handle_cpu_acquire_def)
  have stay: "(if c_pgroup_id (cpus ?s1 ! me s) \<noteq> DEFAULT_PGROUP_ID then cpu_leave_pgroup_if_empty ?s1 else Ok (- 1, ?s1)) =
      Ok (- 1, ?s1)"
    using g kl.empty_law [OF rings_D [OF D(1) g(1)]] ne by (simp add: cpu_leave_pgroup_if_empty_def)
  have "runnable ?s1 = runnable s" by (simp add: runnable_def fun_eq_iff)
  then have pick: "get_runnable_proc_with_lock g ?s1 = Ok (Some p, ?s2)"
    using get_runnable_eq [of m ?s1 g] core g find by simp
  have "pg_inv m ?s2" using inv by simp
  then obtain L where L: "proc_move_to_tail g p ?s2 = Ok (?s2\<lparr>plinks := L\<rparr>)"
      "pg_inv (m(g := remove1 p (m g) @ [p])) (?s2\<lparr>plinks := L\<rparr>)"
    using move_to_tail_inv [of m ?s2 g p] g(1) mem by blast
  have "(?s2\<lparr>plinks := L\<rparr>)\<lparr>held := {}, noff := noff s\<rparr> = s\<lparr>plinks := L\<rparr>" using lk by simp
  then have inv': "pg_inv (m(g := remove1 p (m g) @ [p])) (s\<lparr>plinks := L\<rparr>)"
    using L(2) by (metis inv_update_keeps)
  have rel: "release (PgroupLock g) (?s2\<lparr>plinks := L\<rparr>) = Ok (s\<lparr>plinks := L, held := {ProcLock p}, noff := Suc (noff s)\<rparr>)"
    by (simp add: lock_simps insert_Diff_if)
  have "run_process sw s = kbind (sw (dispatched p L s)) (switched_back (me s) p)"
    using msg stay pick L(1) rel live g lk
    by (simp add: run_process_def Let_def lock_simps dispatched_def switched_back_def [abs_def])
  then show ?thesis using inv' by blast
qed

section \<open>Property\<close>

text \<open>How many processes are in front of \<open>q\<close> in a list.\<close>

definition ahead :: "nat \<Rightarrow> nat list \<Rightarrow> nat" where
  "ahead q xs = length (takeWhile (\<lambda>x. x \<noteq> q) xs)"

lemma ahead_requeue:
  assumes "xs = ys @ p # zs" "distinct xs" "q \<in> set zs"
  shows "Suc (ahead q (remove1 p xs @ [p])) = ahead q xs"
proof -
  have n: "p \<notin> set ys" "q \<notin> set ys" "q \<noteq> p" using assms by auto
  then have "remove1 p xs = ys @ zs" using assms(1) by (simp add: remove1_append)
  moreover have "takeWhile (\<lambda>x. x \<noteq> q) (ys @ zs @ [p]) = ys @ takeWhile (\<lambda>x. x \<noteq> q) zs"
    using n assms(3) by (subst takeWhile_append2) (auto intro: takeWhile_append1)
  moreover have "takeWhile (\<lambda>x. x \<noteq> q) (ys @ p # zs) = ys @ p # takeWhile (\<lambda>x. x \<noteq> q) zs"
    using n by (subst takeWhile_append2) auto
  ultimately show ?thesis using assms(1) by (simp add: ahead_def)
qed

text \<open>
  One round: a runnable process \<open>p\<close> of the group is switched to, and either it is \<open>q\<close> or one process
  less is in front of \<open>q\<close> afterwards.
\<close>

lemma run_process_round:
  assumes inv: "pg_inv m s" and g: "g < MAX_PROC_GROUP_NUM" "c_pgroup_id (cpus s ! me s) = int g" and lk: "held s = {}"
    and quiet: "g = 0 \<Longrightarrow> box_contents (um_box s) = []"
    and q: "q \<in> set (m g)" "runnable s q"
  shows "\<exists>p L. p \<in> set (m g) \<and> runnable s p \<and>
    run_process sw s = kbind (sw (dispatched p L s)) (switched_back (me s) p) \<and>
    pg_inv (m(g := remove1 p (m g) @ [p])) (s\<lparr>plinks := L\<rparr>) \<and>
    (p = q \<or> Suc (ahead q (remove1 p (m g) @ [p])) = ahead q (m g))"
proof -
  obtain p where p: "List.find (runnable s) (m g) = Some p"
    using q by (cases "List.find (runnable s) (m g)") (auto simp: find_None_iff)
  obtain ys zs where s: "m g = ys @ p # zs" "runnable s p" "\<forall>y \<in> set ys. \<not> runnable s y"
    using find_Some_split [OF p] by blast
  obtain L where L: "run_process sw s = kbind (sw (dispatched p L s)) (switched_back (me s) p)"
      "pg_inv (m(g := remove1 p (m g) @ [p])) (s\<lparr>plinks := L\<rparr>)"
    using run_process_eq [OF inv g lk quiet p, of sw] by blast
  have "pg_core m s" using inv by (simp add: pg_inv_def)
  then have "distinct (m g)" using g(1) by (intro rings_distinct [OF pg_core_D(1)])
  then have "p = q \<or> Suc (ahead q (remove1 p (m g) @ [p])) = ahead q (m g)"
    using ahead_requeue [OF s(1)] q s by auto
  then show ?thesis using L s by auto
qed

text \<open>
  What a CPU of group \<open>g\<close> needs of the time it is switched to another process \<open>p\<close> (which runs until
  it yields, sleeps or exits, and while other CPUs work) so that \<open>q\<close> keeps its turn: the CPU comes back
  with the lock of \<open>p\<close>, in its group and without a request to serve; the invariant holds; \<open>q\<close> is
  still in the group and has not run elsewhere, and nobody was put in front of it.
\<close>

definition turn_ctx :: "nat \<Rightarrow> nat \<Rightarrow> (nat \<Rightarrow> nat list) \<Rightarrow> 'a pgroup_state_scheme \<Rightarrow> bool" where
  "turn_ctx g q m s \<longleftrightarrow> pg_inv m s \<and> c_pgroup_id (cpus s ! me s) = int g \<and> (g = 0 \<longrightarrow> box_contents (um_box s) = []) \<and>
     q \<in> set (m g) \<and> runnable s q"

definition keeps_turn :: "nat \<Rightarrow> nat \<Rightarrow> ('a pgroup_state_scheme \<Rightarrow> 'a pgroup_state_scheme kres) \<Rightarrow> bool" where
  "keeps_turn g q sw \<longleftrightarrow> (\<forall>m s p. turn_ctx g q m s \<and> p \<in> set (m g) \<and> p \<noteq> q \<and> my_proc s = Some p \<and>
       p_status (proc p s) = RUNNING \<and> held s = {ProcLock p} \<and> 0 < noff s \<longrightarrow>
     (\<exists>m' t. sw s = Ok t \<and> turn_ctx g q m' t \<and> ahead q (m' g) \<le> ahead q (m g) \<and>
        me t = me s \<and> held t = {ProcLock p} \<and> noff t = noff s))"

lemma pg_inv_status [simp]: "pg_inv m (upd_proc p (\<lambda>q. q\<lparr>p_status := x\<rparr>) s) = pg_inv m s"
proof -
  have g: "p_pgroup_id (proc q (upd_proc p (\<lambda>q. q\<lparr>p_status := x\<rparr>) s)) = p_pgroup_id (proc q s)" for q
    by (cases "p < length (procs s)") (auto simp: upd_proc_def nth_list_update list_update_beyond)
  have "members m (procs (upd_proc p (\<lambda>q. q\<lparr>p_status := x\<rparr>) s)) = members m (procs s)"
    using g by (simp add: members_def upd_proc_def)
  moreover have "cpus_in h (upd_proc p (\<lambda>q. q\<lparr>p_status := x\<rparr>) s) = cpus_in h s" for h
    by (simp add: cpus_in_def upd_proc_def)
  ultimately show ?thesis
    unfolding pg_inv_def pg_core_def free_ok_def using g by (simp add: cpus_ok_def) (simp add: upd_proc_def)
qed

lemma cpu_my_proc_keeps [simp]:
  "c_pgroup_id (cpus (upd_cpu c (\<lambda>k. k\<lparr>c_my_proc := x\<rparr>) s) ! d) = c_pgroup_id (cpus s ! d)"
  "c_cpu_id (cpus (upd_cpu c (\<lambda>k. k\<lparr>c_my_proc := x\<rparr>) s) ! d) = c_cpu_id (cpus s ! d)"
  by (cases "c < length (cpus s)"; simp add: upd_cpu_def nth_list_update list_update_beyond)+

lemma pg_inv_my_proc [simp]: "pg_inv m (upd_cpu c (\<lambda>k. k\<lparr>c_my_proc := x\<rparr>) s) = pg_inv m s"
proof -
  have "cpus_in h (upd_cpu c (\<lambda>k. k\<lparr>c_my_proc := x\<rparr>) s) = cpus_in h s" for h
    by (simp add: cpus_in_def)
  then show ?thesis
    unfolding pg_inv_def pg_core_def free_ok_def by (simp add: cpus_ok_def) (simp add: upd_cpu_def)
qed

lemma turn_ctx_released [simp]:
  "turn_ctx g q m ((upd_cpu c (\<lambda>k. k\<lparr>c_my_proc := x\<rparr>) s)\<lparr>held := h, noff := n\<rparr>) = turn_ctx g q m s"
  unfolding turn_ctx_def runnable_def by simp (simp add: upd_cpu_def)

lemma turn_ctx_dispatched:
  assumes "turn_ctx g q m s" "q \<noteq> p" "p < length (procs s)" "pg_inv m' (s\<lparr>plinks := L\<rparr>)" "q \<in> set (m' g)"
  shows "turn_ctx g q m' (dispatched p L s)" "me (dispatched p L s) = me s" "held (dispatched p L s) = {ProcLock p}"
    "noff (dispatched p L s) = Suc (noff s)" "p_status (proc p (dispatched p L s)) = RUNNING"
  using assms by (simp_all add: turn_ctx_def dispatched_def runnable_def) (simp_all add: upd_proc_def upd_cpu_def)

lemma rounds_reach:
  assumes sw: "keeps_turn g q sw" and g: "g < MAX_PROC_GROUP_NUM"
  shows "turn_ctx g q m s \<Longrightarrow> held s = {} \<Longrightarrow> \<exists>n t L. n \<le> ahead q (m g) \<and> scheduler_rounds n sw s = Ok t \<and>
    me t = me s \<and> run_process sw t = kbind (sw (dispatched q L t)) (switched_back (me t) q)"
proof (induction "ahead q (m g)" arbitrary: m s rule: less_induct)
  case less
  note C = less.prems [unfolded turn_ctx_def]
  from run_process_round [of m s g q sw] C g obtain p L where
    p: "p \<in> set (m g)" "runnable s p" and r: "run_process sw s = kbind (sw (dispatched p L s)) (switched_back (me s) p)"
    and L: "pg_inv (m(g := remove1 p (m g) @ [p])) (s\<lparr>plinks := L\<rparr>)"
    and a: "p = q \<or> Suc (ahead q (remove1 p (m g) @ [p])) = ahead q (m g)" by auto
  show ?case
  proof (cases "p = q")
    case True
    then show ?thesis using r by (intro exI [of _ 0] exI [of _ s] exI [of _ L]) simp
  next
    case False
    let ?m = "m(g := remove1 p (m g) @ [p])"
    have core: "pg_core m s" using C by (simp add: pg_inv_def)
    note D = pg_core_D [OF core]
    have len: "p < length (procs s)" using members_D [OF D(2) g] p(1) by simp
    note T = turn_ctx_dispatched [OF less.prems(1) False [symmetric] len L]
    have q: "q \<in> set (?m g)" using C False by simp
    have my: "my_proc (dispatched p L s) = Some p"
      using cpus_ok_D [OF D(4)] by (simp add: my_proc_def dispatched_def upd_proc_def upd_cpu_def)
    obtain m' t where t: "sw (dispatched p L s) = Ok t" "turn_ctx g q m' t" "ahead q (m' g) \<le> ahead q (?m g)"
        "me t = me s" "held t = {ProcLock p}" "noff t = Suc (noff s)"
      using sw [unfolded keeps_turn_def, rule_format, of ?m "dispatched p L s" p] T [OF q] my False by auto
    let ?u = "(upd_cpu (me s) (\<lambda>k. k\<lparr>c_my_proc := None\<rparr>) t)\<lparr>held := {}, noff := noff s\<rparr>"
    have u: "run_process sw s = Ok (0, ?u)"
      using r t by (simp add: switched_back_def lock_simps upd_cpu_def)
    have "turn_ctx g q m' ?u" "held ?u = {}" using t(2) by simp_all
    moreover have "me ?u = me s" using t(4) by (simp add: upd_cpu_def)
    moreover have "ahead q (m' g) < ahead q (m g)" using t(3) a False by simp
    ultimately obtain n v L' where n: "n \<le> ahead q (m' g)" "scheduler_rounds n sw ?u = Ok v" "me v = me s"
        "run_process sw v = kbind (sw (dispatched q L' v)) (switched_back (me v) q)"
      using less.hyps [of m' ?u] by auto
    have "Suc n \<le> ahead q (m g)" using n(1) \<open>ahead q (m' g) < ahead q (m g)\<close> by simp
    moreover have "scheduler_rounds (Suc n) sw s = Ok v" using u n(2) by simp
    ultimately show ?thesis using n(3,4) by blast
  qed
qed

text \<open>
  C18: the scheduler is fair within a group. When a CPU of the group runs \<open>run_process\<close> and process
  \<open>q\<close> of the group is runnable, then a runnable process \<open>p\<close> of the group is switched to, with only its
  own lock held, marked \<open>RUNNING\<close> and moved to the end of the list; and either \<open>p\<close> is \<open>q\<close>, or one
  process less is in front of \<open>q\<close> afterwards. So, as long as the processes that run meanwhile give the
  CPU back and nobody is put in front of \<open>q\<close> (a process that joins the group goes to the head of the
  list), the loop of \<open>scheduler\<close> switches to \<open>q\<close> after at most as many rounds as there were processes
  in front of it.
\<close>

theorem run_process_fair:
  assumes inv: "pg_inv m s" and g: "g < MAX_PROC_GROUP_NUM" "c_pgroup_id (cpus s ! me s) = int g" and lk: "held s = {}"
    and quiet: "g = 0 \<Longrightarrow> box_contents (um_box s) = []"
    and q: "q \<in> set (m g)" "runnable s q"
  shows "(\<exists>p L. p \<in> set (m g) \<and> runnable s p \<and>
      run_process sw s = kbind (sw (dispatched p L s)) (switched_back (me s) p) \<and>
      pg_inv (m(g := remove1 p (m g) @ [p])) (s\<lparr>plinks := L\<rparr>) \<and>
      (p = q \<or> Suc (ahead q (remove1 p (m g) @ [p])) = ahead q (m g))) \<and>
    (keeps_turn g q sw \<longrightarrow>
      (\<exists>n t L. n \<le> ahead q (m g) \<and> scheduler_rounds n sw s = Ok t \<and> me t = me s \<and>
         run_process sw t = kbind (sw (dispatched q L t)) (switched_back (me t) q)))"
proof -
  have "turn_ctx g q m s" using assms by (simp add: turn_ctx_def)
  then show ?thesis using run_process_round [OF inv g lk quiet q, of sw] rounds_reach [of g q sw m s] g(1) lk by blast
qed

text \<open>
  Processes 0 and 1 of the default group are runnable, CPU 1 is idle, and every process that runs
  gives the CPU back with \<open>yield\<close>.
\<close>

definition idle_example :: pgroup_state where
  "idle_example = pg_example\<lparr>me := 1,
     procs := (procs pg_example)[0 := (proc 0 pg_example)\<lparr>p_status := RUNABLE\<rparr>,
       1 := (proc 1 pg_example)\<lparr>p_pid := 1, p_status := RUNABLE, p_pgroup_id := 0\<rparr>],
     plinks := \<lparr>nxt = (\<lambda>a. if a = procs_head 0 then pgroup_list 0 else if a = pgroup_list 0 then pgroup_list 1
         else if a = pgroup_list 1 then procs_head 0 else a),
       prv = (\<lambda>a. if a = procs_head 0 then pgroup_list 1 else if a = pgroup_list 0 then procs_head 0
         else if a = pgroup_list 1 then pgroup_list 0 else a)\<rparr>\<rparr>"

definition idle_members :: "nat \<Rightarrow> nat list" where
  "idle_members g = (if g = 0 then [0, 1] else [])"

definition gives_back :: "pgroup_state \<Rightarrow> pgroup_state kres" where
  "gives_back s = (case my_proc s of None \<Rightarrow> Panic ''NULL process''
     | Some p \<Rightarrow> Ok (upd_proc p (\<lambda>q. q\<lparr>p_status := RUNABLE\<rparr>) s))"

lemma gives_back_keeps_turn: "keeps_turn g q gives_back"
proof -
  have "turn_ctx g q m (upd_proc p (\<lambda>q. q\<lparr>p_status := RUNABLE\<rparr>) s)" if "turn_ctx g q m s" "p \<noteq> q" for m p and s :: pgroup_state
    using that by (simp add: turn_ctx_def runnable_def) (simp add: upd_proc_def)
  then show ?thesis unfolding keeps_turn_def gives_back_def by (auto simp: upd_proc_def)
qed

lemma idle_example_inv: "pg_inv idle_members idle_example"
proof -
  have c: "cpus_in g idle_example = (if g = 0 then {0, 1} else {})" for g
    using pg_example_cpus_in [of g] by (simp add: idle_example_def cpus_in_def)
  have "rings idle_members (plinks idle_example)"
    by (auto simp: rings_def idle_example_def idle_members_def ring_def)
  moreover have "members idle_members (procs idle_example)"
    by (auto simp: members_def idle_example_def pg_example_def idle_members_def nth_list_update split: if_splits)
  moreover have "cpus_ok idle_example"
    by (auto simp: idle_example_def cpus_ok_def pg_example_def MAX_CPU_NUM_def)
  ultimately have "pg_core idle_members idle_example"
    unfolding pg_core_def c by (auto simp: idle_example_def pg_example_def idle_members_def nth_list_update)
  moreover have "free_ok idle_example"
    unfolding free_ok_def c by (simp add: idle_example_def pg_example_def init_box_ok)
  ultimately show ?thesis by (simp add: pg_inv_def)
qed

theorem run_process_fair_witness:
  "\<exists>n t L. n \<le> 1 \<and> scheduler_rounds n gives_back idle_example = Ok t \<and>
     run_process gives_back t = kbind (gives_back (dispatched 1 L t)) (switched_back 1 1)"
proof -
  have f: "c_pgroup_id (cpus idle_example ! me idle_example) = int 0" "held idle_example = {}" "me idle_example = 1"
    "box_contents (um_box idle_example) = []" "runnable idle_example 1" "(1::nat) \<in> set (idle_members 0)"
    "ahead 1 (idle_members 0) = 1"
    by (simp_all add: idle_example_def pg_example_def MAX_CPU_NUM_def upt_rec init_box_ok runnable_def idle_members_def ahead_def)
  note T = run_process_fair [OF idle_example_inv _ f(1,2,4,6,5), of gives_back, unfolded f(7)]
  obtain n t L where "n \<le> 1" "scheduler_rounds n gives_back idle_example = Ok t" "me t = me idle_example"
      "run_process gives_back t = kbind (gives_back (dispatched 1 L t)) (switched_back (me t) 1)"
    using T gives_back_keeps_turn [of 0 1] by auto
  then show ?thesis using f(3) by metis
qed

end
