(* ===== verification/Bytes.thy ===== *)
theory Bytes
  imports Prelude
begin

text \<open>
  Little-endian fields of a byte array: how the code reads and writes \<open>short\<close>, \<open>int\<close> and \<open>uint\<close>
  members through a pointer into a disk block (\<open>struct dinode\<close>, \<open>struct dirent\<close>, \<open>struct logheader\<close>,
  \<open>struct superblock\<close>).
\<close>

primrec get_le :: "nat \<Rightarrow> u8 list \<Rightarrow> nat \<Rightarrow> 'w::len word" where
  "get_le 0 bs i = 0"
| "get_le (Suc k) bs i = ucast (bs ! i) OR push_bit 8 (get_le k bs (Suc i))"

definition le_bytes :: "nat \<Rightarrow> 'w::len word \<Rightarrow> u8 list" where
  "le_bytes k v = map (\<lambda>i. ucast (drop_bit (8 * i) v)) [0..<k]"

text \<open>\<open>put_bytes i xs bs\<close>: the bytes \<open>xs\<close> stored at index \<open>i\<close> of the array \<open>bs\<close>.\<close>

definition put_bytes :: "nat \<Rightarrow> u8 list \<Rightarrow> u8 list \<Rightarrow> u8 list" where
  "put_bytes i xs bs = take i bs @ xs @ drop (i + length xs) bs"

definition put_le :: "nat \<Rightarrow> nat \<Rightarrow> 'w::len word \<Rightarrow> u8 list \<Rightarrow> u8 list" where
  "put_le k i v bs = put_bytes i (le_bytes k v) bs"

abbreviation get16 :: "u8 list \<Rightarrow> nat \<Rightarrow> u16" where "get16 \<equiv> get_le 2"
abbreviation get32 :: "u8 list \<Rightarrow> nat \<Rightarrow> u32" where "get32 \<equiv> get_le 4"
abbreviation put16 :: "nat \<Rightarrow> u16 \<Rightarrow> u8 list \<Rightarrow> u8 list" where "put16 \<equiv> put_le 2"
abbreviation put32 :: "nat \<Rightarrow> u32 \<Rightarrow> u8 list \<Rightarrow> u8 list" where "put32 \<equiv> put_le 4"

lemma length_le_bytes [simp]: "length (le_bytes k v) = k"
  by (simp add: le_bytes_def)

lemma length_put_bytes [simp]: "i + length xs \<le> length bs \<Longrightarrow> length (put_bytes i xs bs) = length bs"
  by (simp add: put_bytes_def)

lemma length_put_le [simp]: "i + k \<le> length bs \<Longrightarrow> length (put_le k i v bs) = length bs"
  by (simp add: put_le_def)

lemma nth_put_bytes:
  assumes "i + length xs \<le> length bs" "j < length bs"
  shows "put_bytes i xs bs ! j = (if i \<le> j \<and> j < i + length xs then xs ! (j - i) else bs ! j)"
  using assms by (auto simp: put_bytes_def nth_append min_def)

lemma bit_get_le:
  "bit (get_le k bs i :: 'w::len word) n \<longleftrightarrow> n < LENGTH('w) \<and> n < 8 * k \<and> bit (bs ! (i + n div 8)) (n mod 8)"
proof (induction k arbitrary: i n)
  case (Suc k)
  show ?case
  proof (cases "n < 8")
    case True
    then show ?thesis by (auto simp: bit_simps)
  next
    case False
    then have "n div 8 = Suc ((n - 8) div 8)" "(n - 8) mod 8 = n mod 8" by (simp_all add: le_div_geq le_mod_geq)
    then show ?thesis using False Suc [of "Suc i" "n - 8"]
      by (auto simp: bit_simps dest: bit_imp_le_length)
  qed
qed simp

lemma get_le_cong: "(\<And>j. j < k \<Longrightarrow> bs ! (i + j) = cs ! (i' + j)) \<Longrightarrow> get_le k bs i = (get_le k cs i' :: 'w::len word)"
  by (rule bit_word_eqI) (auto simp: bit_get_le)

lemma get_le_bytes:
  assumes "LENGTH('w) = 8 * k" "\<And>j. j < k \<Longrightarrow> bs ! (i + j) = le_bytes k v ! j"
  shows "get_le k bs i = (v :: 'w::len word)"
proof (rule bit_word_eqI)
  fix n assume n: "n < LENGTH('w)"
  then have "n div 8 < k" using assms(1) by auto
  then have "bit (bs ! (i + n div 8)) (n mod 8) = bit v (8 * (n div 8) + n mod 8)"
    using assms(2) by (simp add: le_bytes_def bit_simps)
  then show "bit (get_le k bs i :: 'w word) n = bit v n"
    using n assms(1) by (simp add: bit_get_le)
qed

lemma get_put_le:
  assumes "LENGTH('w) = 8 * k" "i + k \<le> length bs"
  shows "get_le k (put_le k i v bs) i = (v :: 'w::len word)"
  using assms by (intro get_le_bytes) (simp_all add: put_le_def nth_put_bytes)

lemma get_put_bytes_other:
  assumes "i + length xs \<le> length bs" "j + k \<le> length bs" "j + k \<le> i \<or> i + length xs \<le> j"
  shows "get_le k (put_bytes i xs bs) j = (get_le k bs j :: 'w::len word)"
  using assms by (intro get_le_cong) (auto simp: nth_put_bytes)

lemma get_put_le_other:
  assumes "i + k' \<le> length bs" "j + k \<le> length bs" "j + k \<le> i \<or> i + k' \<le> j"
  shows "get_le k (put_le k' i v bs) j = (get_le k bs j :: 'w::len word)"
  using assms get_put_bytes_other [of i "le_bytes k' v" bs j k] by (simp add: put_le_def)

end
