(* ===== verification/Bio.thy ===== *)
theory Bio
  imports Scheduler Bytes
begin

text \<open>
  Sleep locks (kernel/lock/sleeplock.c) and the buffer cache (kernel/fs/bio.c).

  A pointer to a buffer is its index in \<open>bcache.buf\<close>, and index \<open>NBUF\<close> is \<open>bcache.head\<close>. The fields
  \<open>prev\<close> and \<open>next\<close> of all buffers are the links \<open>blinks\<close>. The device keeps the blocks in \<open>disk\<close>, and
  \<open>wlog\<close> records the blocks written to it in order (what a crash can leave is a prefix of it).
  \<open>virtio_disk_rw\<close> is what one completed request does: it moves one block between the buffer and the
  device.
\<close>

section \<open>Sleep locks\<close>

record sleeplock =
  sl_locked :: bool
  sl_pid :: int

definition initsleeplock :: sleeplock where
  "initsleeplock = \<lparr>sl_locked = False, sl_pid = 0\<rparr>"

text \<open>
  The lock lives in some object: \<open>get\<close> and \<open>put\<close> read and write it, \<open>lk\<close> is its spin lock and \<open>c\<close> the
  channel, its address.
\<close>

definition acquiresleep ::
  "lock_id \<Rightarrow> chan \<Rightarrow> ('a proc_state_scheme \<Rightarrow> sleeplock) \<Rightarrow> (sleeplock \<Rightarrow> 'a proc_state_scheme \<Rightarrow> 'a proc_state_scheme) \<Rightarrow>
     'a proc_state_scheme \<Rightarrow> 'a proc_state_scheme kres" where
  "acquiresleep lk c get put s =
     kbind (acquire lk s) (\<lambda>s.
     if sl_locked (get s) then sleep_block lk c s
     else
       case my_proc s of
         None \<Rightarrow> Panic ''NULL process''
       | Some p \<Rightarrow> release lk (put \<lparr>sl_locked = True, sl_pid = p_pid (proc p s)\<rparr> s))"

definition releasesleep ::
  "lock_id \<Rightarrow> chan \<Rightarrow> (sleeplock \<Rightarrow> 'a proc_state_scheme \<Rightarrow> 'a proc_state_scheme) \<Rightarrow>
     'a proc_state_scheme \<Rightarrow> 'a proc_state_scheme kres" where
  "releasesleep lk c put s =
     kbind (acquire lk s) (\<lambda>s.
     kbind (wake_up c (put \<lparr>sl_locked = False, sl_pid = 0\<rparr> s)) (release lk))"

definition holdingsleep ::
  "lock_id \<Rightarrow> ('a proc_state_scheme \<Rightarrow> sleeplock) \<Rightarrow> 'a proc_state_scheme \<Rightarrow> (bool \<times> 'a proc_state_scheme) kres" where
  "holdingsleep lk get s =
     kbind (acquire lk s) (\<lambda>s.
     case my_proc s of
       None \<Rightarrow> Panic ''NULL process''
     | Some p \<Rightarrow>
         let r = sl_locked (get s) \<and> sl_pid (get s) = p_pid (proc p s)
         in kbind (release lk s) (\<lambda>s. Ok (r, s)))"

section \<open>Buffers\<close>

definition NBUF :: nat where "NBUF = 30"
abbreviation (input) BSIZE :: nat where "BSIZE \<equiv> 1024"
abbreviation (input) ROOTDEV :: u32 where "ROOTDEV \<equiv> 1"
abbreviation (input) bhead :: nat where "bhead \<equiv> NBUF"

record buf =
  b_valid :: bool
  b_dev :: u32
  b_blockno :: u32
  b_lock :: sleeplock
  b_refcnt :: u32
  b_data :: "u8 list"

record bio_state = pgroup_state +
  disk :: "u32 \<Rightarrow> u8 list"
  wlog :: "(u32 \<times> u8 list) list"
  bufs :: "buf list"
  blinks :: "nat links"

abbreviation bbuf :: "nat \<Rightarrow> 'a bio_state_scheme \<Rightarrow> buf" where
  "bbuf i s \<equiv> bufs s ! i"

definition upd_buf :: "nat \<Rightarrow> (buf \<Rightarrow> buf) \<Rightarrow> 'a bio_state_scheme \<Rightarrow> 'a bio_state_scheme" where
  "upd_buf i f s = s\<lparr>bufs := (bufs s)[i := f (bufs s ! i)]\<rparr>"

abbreviation buf_lock :: "nat \<Rightarrow> 'a bio_state_scheme \<Rightarrow> sleeplock" where
  "buf_lock i s \<equiv> b_lock (bbuf i s)"

definition set_buf_lock :: "nat \<Rightarrow> sleeplock \<Rightarrow> 'a bio_state_scheme \<Rightarrow> 'a bio_state_scheme" where
  "set_buf_lock i l s = upd_buf i (\<lambda>b. b\<lparr>b_lock := l\<rparr>) s"

definition set_buf_data :: "nat \<Rightarrow> u8 list \<Rightarrow> 'a bio_state_scheme \<Rightarrow> 'a bio_state_scheme" where
  "set_buf_data i d s = upd_buf i (\<lambda>b. b\<lparr>b_data := d\<rparr>) s"

definition virtio_disk_rw :: "nat \<Rightarrow> bool \<Rightarrow> 'a bio_state_scheme \<Rightarrow> 'a bio_state_scheme" where
  "virtio_disk_rw i write s =
     (let b = bbuf i s in
      if write then s\<lparr>disk := (disk s)(b_blockno b := b_data b), wlog := wlog s @ [(b_blockno b, b_data b)]\<rparr>
      else upd_buf i (\<lambda>b. b\<lparr>b_data := disk s (b_blockno b)\<rparr>) s)"

text \<open>One round of the loop in \<open>binit\<close>: the buffer goes in front of the list.\<close>

definition binit_one :: "nat \<Rightarrow> 'a bio_state_scheme \<Rightarrow> 'a bio_state_scheme" where
  "binit_one b s =
     (let L = blinks s;
          L = set_next b (nxt L bhead) L;
          L = set_prev b bhead L;
          s = set_buf_lock b initsleeplock s;
          L = set_prev (nxt L bhead) b L;
          L = set_next bhead b L
      in s\<lparr>blinks := L\<rparr>)"

definition binit :: "'a bio_state_scheme \<Rightarrow> 'a bio_state_scheme" where
  "binit s = fold binit_one [0..<NBUF] (s\<lparr>blinks := set_next bhead bhead (set_prev bhead bhead (blinks s))\<rparr>)"

definition flip_links :: "'n links \<Rightarrow> 'n links" where
  "flip_links L = \<lparr>nxt = prv L, prv = nxt L\<rparr>"

definition bget :: "u32 \<Rightarrow> u32 \<Rightarrow> 'a bio_state_scheme \<Rightarrow> (nat \<times> 'a bio_state_scheme) kres" where
  "bget dev blockno s =
     kbind (acquire BcacheLock s) (\<lambda>s.
     kbind (list_walk (Suc NBUF) (nxt (blinks s) bhead) bhead (blinks s)) (\<lambda>forward.
     case List.find (\<lambda>i. b_dev (bbuf i s) = dev \<and> b_blockno (bbuf i s) = blockno) forward of
       Some i \<Rightarrow>
         kbind (release BcacheLock (upd_buf i (\<lambda>b. b\<lparr>b_refcnt := b_refcnt b + 1\<rparr>) s)) (\<lambda>s.
         kbind (acquiresleep (BufLk i) (BufLockChan i) (buf_lock i) (set_buf_lock i) s) (\<lambda>s. Ok (i, s)))
     | None \<Rightarrow>
         kbind (list_walk (Suc NBUF) (prv (blinks s) bhead) bhead (flip_links (blinks s))) (\<lambda>backward.
         case List.find (\<lambda>i. b_refcnt (bbuf i s) = 0) backward of
           Some i \<Rightarrow>
             kbind (release BcacheLock (upd_buf i (\<lambda>b. b\<lparr>b_dev := dev, b_blockno := blockno, b_valid := False, b_refcnt := 1\<rparr>) s)) (\<lambda>s.
             kbind (acquiresleep (BufLk i) (BufLockChan i) (buf_lock i) (set_buf_lock i) s) (\<lambda>s. Ok (i, s)))
         | None \<Rightarrow> Panic ''bget: no buffers'')))"

definition bread :: "u32 \<Rightarrow> u32 \<Rightarrow> 'a bio_state_scheme \<Rightarrow> (nat \<times> 'a bio_state_scheme) kres" where
  "bread dev blockno s =
     kbind (bget dev blockno s) (\<lambda>(i, s).
     if \<not> b_valid (bbuf i s)
     then Ok (i, upd_buf i (\<lambda>b. b\<lparr>b_valid := True\<rparr>) (virtio_disk_rw i False s))
     else Ok (i, s))"

definition bwrite :: "nat \<Rightarrow> 'a bio_state_scheme \<Rightarrow> 'a bio_state_scheme kres" where
  "bwrite i s =
     kbind (holdingsleep (BufLk i) (buf_lock i) s) (\<lambda>(h, s).
     if \<not> h then Panic ''bwrite'' else Ok (virtio_disk_rw i True s))"

definition brelse :: "nat \<Rightarrow> 'a bio_state_scheme \<Rightarrow> 'a bio_state_scheme kres" where
  "brelse i s =
     kbind (holdingsleep (BufLk i) (buf_lock i) s) (\<lambda>(h, s).
     if \<not> h then Panic ''brelse''
     else
       kbind (releasesleep (BufLk i) (BufLockChan i) (set_buf_lock i) s) (\<lambda>s.
       kbind (acquire BcacheLock s) (\<lambda>s.
       let s = upd_buf i (\<lambda>b. b\<lparr>b_refcnt := b_refcnt b - 1\<rparr>) s in
       if b_refcnt (bbuf i s) = 0 then
         let L = blinks s;
             L = set_prev (nxt L i) (prv L i) L;
             L = set_next (prv L i) (nxt L i) L;
             L = set_next i (nxt L bhead) L;
             L = set_prev i bhead L;
             L = set_prev (nxt L bhead) i L;
             L = set_next bhead i L
         in release BcacheLock (s\<lparr>blinks := L\<rparr>)
       else release BcacheLock s)))"

definition bpin :: "nat \<Rightarrow> 'a bio_state_scheme \<Rightarrow> 'a bio_state_scheme kres" where
  "bpin i s =
     kbind (acquire BcacheLock s) (\<lambda>s. release BcacheLock (upd_buf i (\<lambda>b. b\<lparr>b_refcnt := b_refcnt b + 1\<rparr>) s))"

definition bunpin :: "nat \<Rightarrow> 'a bio_state_scheme \<Rightarrow> 'a bio_state_scheme kres" where
  "bunpin i s =
     kbind (acquire BcacheLock s) (\<lambda>s. release BcacheLock (upd_buf i (\<lambda>b. b\<lparr>b_refcnt := b_refcnt b - 1\<rparr>) s))"

section \<open>The list of buffers\<close>

lemma path_flip: "path (flip_links L) (rev xs) = path L xs"
proof (induction L xs rule: path.induct)
  case (1 L a b xs)
  have "path (flip_links L) (rev (a # b # xs)) = (path (flip_links L) (rev xs @ [b]) \<and> prv L b = a \<and> nxt L a = b)"
    using path_snoc [of "flip_links L" "rev xs" b a] by (simp add: flip_links_def)
  then show ?case using 1 by auto
qed auto

lemma ring_flip: "ring (flip_links L) h (rev xs) = ring L h xs"
  using path_flip [of L "h # xs @ [h]"] by (simp add: ring_def)

lemma front_insert_ring:
  assumes "ring L h xs" "x \<notin> set (h # xs)"
  shows "ring (set_next h x (set_prev (nxt L h) x (set_prev x h (set_next x (nxt L h) L)))) h (x # xs)"
proof -
  have n: "nxt L h = hd (xs @ [h])" using ring_next [of L h "[]" xs] assms(1) by simp
  have "nxt L h \<in> set (h # xs)" unfolding n by (cases xs) auto
  then have "nxt L h \<noteq> x" using assms(2) by auto
  then have "set_next h x (set_prev (nxt L h) x (set_prev x h (set_next x (nxt L h) L))) =
      list_add_between x h (nxt L h) L"
    using assms(2) by (auto simp: list_add_between_def set_next_def set_prev_def fun_upd_twist)
  then show ?thesis using ring_insert [of L h "[]" xs x] assms n by simp
qed

lemma set_next_frame: "nxt (set_next a b L) a = b" "c \<noteq> a \<Longrightarrow> nxt (set_next a b L) c = nxt L c"
  by simp_all

text \<open>The pointer assignments of \<open>brelse\<close>: unlink the buffer and put it in front.\<close>

definition to_front :: "nat \<Rightarrow> nat links \<Rightarrow> nat links" where
  "to_front i L =
     (let L = set_prev (nxt L i) (prv L i) L;
          L = set_next (prv L i) (nxt L i) L;
          L = set_next i (nxt L bhead) L;
          L = set_prev i bhead L;
          L = set_prev (nxt L bhead) i L
      in set_next bhead i L)"

lemma to_front_ring:
  assumes r: "ring L bhead xs" and i: "i \<in> set xs"
  shows "ring (to_front i L) bhead (i # remove1 i xs)"
proof -
  obtain ys zs where d: "xs = ys @ i # zs" "i \<notin> set ys" using split_list_first [OF i] by blast
  have di: "distinct (bhead # xs)" using r by (simp add: ring_def)
  have rem: "remove1 i xs = ys @ zs" using d by (simp add: remove1_append)
  define p n where "p = last (bhead # ys)" and "n = hd (zs @ [bhead])"
  have pn: "prv L i = p" "nxt L i = n"
    using ring_prev [of L bhead ys "i # zs"] ring_next [of L bhead "ys @ [i]" zs] r d by (simp_all add: p_def n_def)
  have "p \<in> set (bhead # ys)" unfolding p_def by (rule last_in_set) simp
  moreover have "n \<in> set (zs @ [bhead])" unfolding n_def by (rule hd_in_set) simp
  ultimately have ne: "p \<noteq> i" "n \<noteq> i" "i \<noteq> bhead" using di d by auto
  let ?L = "u_list_del p n L"
  have rd: "ring ?L bhead (ys @ zs)" using ring_remove [of L bhead ys i zs] r d by (simp add: p_def n_def)
  have x: "i \<notin> set (bhead # ys @ zs)" using di d by auto
  let ?f = "nxt ?L bhead"
  have f: "?f \<noteq> i" "?f \<in> set (bhead # ys @ zs)"
  proof -
    have "?f = hd ((ys @ zs) @ [bhead])" using ring_next [of ?L bhead "[]" "ys @ zs"] rd by simp
    then show "?f \<in> set (bhead # ys @ zs)" by (cases "ys @ zs") auto
    then show "?f \<noteq> i" using x by auto
  qed
  have L2: "set_next (prv (set_prev n p L) i) (nxt (set_prev n p L) i) (set_prev n p L) = ?L"
    using pn ne by (simp add: u_list_del_def)
  have "to_front i L = set_next bhead i (set_prev (nxt (set_prev i bhead (set_next i ?f ?L)) bhead) i (set_prev i bhead (set_next i ?f ?L)))"
    unfolding to_front_def Let_def pn L2 ..
  also have "nxt (set_prev i bhead (set_next i ?f ?L)) bhead = ?f" using ne by simp
  finally show ?thesis using front_insert_ring [OF rd x] rem by simp
qed

section \<open>Abstraction\<close>

text \<open>The buffer that holds a block of the root device.\<close>

definition bslot :: "'a bio_state_scheme \<Rightarrow> u32 \<Rightarrow> nat option" where
  "bslot s b = List.find (\<lambda>i. b_dev (bbuf i s) = ROOTDEV \<and> b_blockno (bbuf i s) = b) [0..<NBUF]"

text \<open>What reading a block gives, who refers to it, and whether its buffer is locked.\<close>

definition bview :: "'a bio_state_scheme \<Rightarrow> u32 \<Rightarrow> u8 list" where
  "bview s b = (case bslot s b of Some i \<Rightarrow> if b_valid (bbuf i s) then b_data (bbuf i s) else disk s b | None \<Rightarrow> disk s b)"

definition bref :: "'a bio_state_scheme \<Rightarrow> u32 \<Rightarrow> nat" where
  "bref s b = (case bslot s b of Some i \<Rightarrow> unat (b_refcnt (bbuf i s)) | None \<Rightarrow> 0)"

definition blocked :: "'a bio_state_scheme \<Rightarrow> u32 \<Rightarrow> bool" where
  "blocked s b = (case bslot s b of Some i \<Rightarrow> sl_locked (buf_lock i s) | None \<Rightarrow> False)"

definition my_pid :: "'a proc_state_scheme \<Rightarrow> int" where
  "my_pid s = (case my_proc s of Some p \<Rightarrow> p_pid (proc p s) | None \<Rightarrow> - 1)"

text \<open>The buffers this process has locked, with the block in each.\<close>

definition bhnd :: "'a bio_state_scheme \<Rightarrow> nat \<Rightarrow> u32 option" where
  "bhnd s i = (if i < NBUF \<and> sl_locked (buf_lock i s) \<and> sl_pid (buf_lock i s) = my_pid s then Some (b_blockno (bbuf i s)) else None)"

definition buf_ok :: "'a bio_state_scheme \<Rightarrow> buf \<Rightarrow> bool" where
  "buf_ok s b \<longleftrightarrow> length (b_data b) = BSIZE \<and> (sl_locked (b_lock b) \<longrightarrow> 0 < b_refcnt b) \<and>
     (0 < b_refcnt b \<longrightarrow> b_valid b \<and> b_dev b = ROOTDEV) \<and>
     (b_refcnt b = 0 \<and> b_valid b \<and> b_dev b = ROOTDEV \<longrightarrow> b_data b = disk s (b_blockno b))"

definition buf_unique :: "buf list \<Rightarrow> bool" where
  "buf_unique bs \<longleftrightarrow> (\<forall>i < NBUF. \<forall>j < NBUF. b_dev (bs ! i) = ROOTDEV \<and> b_dev (bs ! j) = ROOTDEV \<and>
     b_blockno (bs ! i) = b_blockno (bs ! j) \<longrightarrow> i = j)"

text \<open>
  The invariant of the cache: the list holds every buffer, no block of the root device is in two
  buffers, a buffer in use is valid, and a valid buffer nobody uses has the contents of the disk.
  \<open>bc_base\<close> is the part that does not depend on the contents.
\<close>

definition bc_base :: "'a bio_state_scheme \<Rightarrow> bool" where
  "bc_base s \<longleftrightarrow> length (bufs s) = NBUF \<and> (\<exists>xs. ring (blinks s) bhead xs \<and> (\<forall>i. i \<in> set xs \<longleftrightarrow> i < NBUF)) \<and>
     (\<forall>b. length (disk s b) = BSIZE) \<and>
     (\<exists>p < STATIC_PROC_NUM. my_proc s = Some p) \<and> length (procs s) = STATIC_PROC_NUM \<and> BcacheLock \<notin> held s \<and>
     (\<forall>i. BufLk i \<notin> held s \<and> ProcLock i \<notin> held s)"

definition bc_inv :: "'a bio_state_scheme \<Rightarrow> bool" where
  "bc_inv s \<longleftrightarrow> bc_base s \<and> (\<forall>i < NBUF. buf_ok s (bbuf i s)) \<and> buf_unique (bufs s)"

lemma bc_base_D:
  assumes "bc_base s"
  shows "length (bufs s) = NBUF" "\<exists>p < STATIC_PROC_NUM. my_proc s = Some p" "length (disk s b) = BSIZE"
    "length (procs s) = STATIC_PROC_NUM" "BcacheLock \<notin> held s" "BufLk i \<notin> held s" "ProcLock i \<notin> held s"
  using assms unfolding bc_base_def by blast+

lemma bc_inv_D:
  assumes "bc_inv s"
  shows "bc_base s" "i < NBUF \<Longrightarrow> buf_ok s (bbuf i s)" "buf_unique (bufs s)"
  using assms unfolding bc_inv_def by blast+

lemma find_SomeD: "List.find P xs = Some x \<Longrightarrow> x \<in> set xs \<and> P x"
  by (induction xs) (auto split: if_splits)

lemma bslot_Some:
  assumes "bc_inv s"
  shows "bslot s b = Some i \<longleftrightarrow> i < NBUF \<and> b_dev (bbuf i s) = ROOTDEV \<and> b_blockno (bbuf i s) = b"
proof
  assume "bslot s b = Some i"
  then show "i < NBUF \<and> b_dev (bbuf i s) = ROOTDEV \<and> b_blockno (bbuf i s) = b"
    unfolding bslot_def by (auto dest: find_SomeD)
next
  assume i: "i < NBUF \<and> b_dev (bbuf i s) = ROOTDEV \<and> b_blockno (bbuf i s) = b"
  let ?P = "\<lambda>i. b_dev (bbuf i s) = ROOTDEV \<and> b_blockno (bbuf i s) = b"
  have "List.find ?P [0..<NBUF] \<noteq> None" using i by (auto simp: find_None_iff)
  then obtain j where j: "List.find ?P [0..<NBUF] = Some j" by blast
  then have "j < NBUF" "?P j" by (auto dest: find_SomeD)
  moreover have "buf_unique (bufs s)" using assms by (simp add: bc_inv_def)
  ultimately have "j = i" using i unfolding buf_unique_def by blast
  then show "bslot s b = Some i" using j by (simp add: bslot_def)
qed

lemma bslot_None:
  "bslot s b = None \<longleftrightarrow> (\<forall>i < NBUF. \<not> (b_dev (bbuf i s) = ROOTDEV \<and> b_blockno (bbuf i s) = b))"
  by (auto simp: bslot_def find_None_iff)

section \<open>What the operations do\<close>

lemma upd_buf_fields [simp]:
  "disk (upd_buf i f s) = disk s" "wlog (upd_buf i f s) = wlog s" "blinks (upd_buf i f s) = blinks s"
  "length (bufs (upd_buf i f s)) = length (bufs s)" "held (upd_buf i f s) = held s" "noff (upd_buf i f s) = noff s"
  "procs (upd_buf i f s) = procs s" "cpus (upd_buf i f s) = cpus s" "me (upd_buf i f s) = me s"
  "my_proc (upd_buf i f s) = my_proc s" "my_pid (upd_buf i f s) = my_pid s"
  by (simp_all add: upd_buf_def my_proc_def my_pid_def cong: option.case_cong)

lemma upd_buf_nth: "i < length (bufs s) \<Longrightarrow> bbuf j (upd_buf i f s) = (if j = i then f (bbuf i s) else bbuf j s)"
  by (simp add: upd_buf_def nth_list_update)

lemma upd_buf_locks [simp]:
  "upd_buf i f (s\<lparr>held := h\<rparr>) = (upd_buf i f s)\<lparr>held := h\<rparr>" "upd_buf i f (s\<lparr>noff := n\<rparr>) = (upd_buf i f s)\<lparr>noff := n\<rparr>"
  by (simp_all add: upd_buf_def)

lemma held_noff_id [simp]: "(upd_buf i f s)\<lparr>held := held s, noff := noff s\<rparr> = upd_buf i f s"
  by (simp add: upd_buf_def)

lemma upd_buf_upd_buf [simp]:
  "i < length (bufs s) \<Longrightarrow> upd_buf i g (upd_buf i f s) = upd_buf i (\<lambda>b. g (f b)) s"
  by (simp add: upd_buf_def)

lemma acquiresleep_buf:
  assumes "BufLk i \<notin> held s" "\<not> sl_locked (buf_lock i s)" "my_proc s = Some p"
  shows "acquiresleep (BufLk i) (BufLockChan i) (buf_lock i) (set_buf_lock i) s =
    Ok (set_buf_lock i \<lparr>sl_locked = True, sl_pid = my_pid s\<rparr> s)"
  using assms by (simp add: acquiresleep_def lock_simps set_buf_lock_def my_pid_def)

lemma list_walk_bufs:
  assumes "bc_base s"
  obtains xs where "\<forall>i. i \<in> set xs \<longleftrightarrow> i < NBUF"
    "list_walk (Suc NBUF) (nxt (blinks s) bhead) bhead (blinks s) = Ok xs"
    "list_walk (Suc NBUF) (prv (blinks s) bhead) bhead (flip_links (blinks s)) = Ok (rev xs)"
proof -
  obtain xs where xs: "ring (blinks s) bhead xs" "\<forall>i. i \<in> set xs \<longleftrightarrow> i < NBUF"
    using assms unfolding bc_base_def by blast
  have "distinct xs" using xs(1) by (simp add: ring_def)
  then have "length xs = card {i. i < NBUF}" using xs(2) distinct_card [of xs] by (metis Collect_mem_eq Collect_cong)
  then have len: "length xs < Suc NBUF" by simp
  have "ring (flip_links (blinks s)) bhead (rev xs)" using xs(1) by (simp add: ring_flip)
  from list_walk_ring [OF this, of "Suc NBUF"] len
  have "list_walk (Suc NBUF) (prv (blinks s) bhead) bhead (flip_links (blinks s)) = Ok (rev xs)"
    by (simp add: flip_links_def)
  then show ?thesis using that [of xs] xs list_walk_ring [OF xs(1) len] by blast
qed

lemma bget_hit:
  assumes inv: "bc_inv s" and i: "bslot s b = Some i" and free: "\<not> blocked s b"
  shows "bget ROOTDEV b s = Ok (i, upd_buf i (\<lambda>x. x\<lparr>b_refcnt := b_refcnt x + 1, b_lock := \<lparr>sl_locked = True, sl_pid = my_pid s\<rparr>\<rparr>) s)"
proof -
  note D = bc_base_D [OF bc_inv_D(1) [OF inv]]
  obtain p where p: "my_proc s = Some p" using D(2) by blast
  have ii: "i < NBUF" "b_dev (bbuf i s) = ROOTDEV" "b_blockno (bbuf i s) = b" using bslot_Some [OF inv] i by auto
  have lk: "\<not> sl_locked (buf_lock i s)" using free i by (simp add: blocked_def)
  obtain xs where xs: "\<forall>i. i \<in> set xs \<longleftrightarrow> i < NBUF" "list_walk (Suc NBUF) (nxt (blinks s) bhead) bhead (blinks s) = Ok xs"
    "list_walk (Suc NBUF) (prv (blinks s) bhead) bhead (flip_links (blinks s)) = Ok (rev xs)"
    by (rule list_walk_bufs [OF bc_inv_D(1) [OF inv]])
  let ?P = "\<lambda>i. b_dev (bbuf i s) = ROOTDEV \<and> b_blockno (bbuf i s) = b"
  have "List.find ?P xs = Some i"
  proof (cases "List.find ?P xs")
    case None
    then have "\<not> (\<exists>x. x \<in> set xs \<and> ?P x)" by (simp only: find_None_iff) blast
    then show ?thesis using ii xs(1) by blast
  next
    case (Some j)
    then have "j \<in> set xs \<and> ?P j" by (rule find_SomeD)
    then have "j < NBUF" "?P j" using xs(1) by blast+
    then have "bslot s b = Some j" using bslot_Some [OF inv] by blast
    then show ?thesis using i Some by simp
  qed
  moreover have "acquiresleep (BufLk i) (BufLockChan i) (buf_lock i) (set_buf_lock i) (upd_buf i (\<lambda>x. x\<lparr>b_refcnt := b_refcnt x + 1\<rparr>) s) =
      Ok (upd_buf i (\<lambda>x. x\<lparr>b_refcnt := b_refcnt x + 1, b_lock := \<lparr>sl_locked = True, sl_pid = my_pid s\<rparr>\<rparr>) s)"
    using acquiresleep_buf [of i "upd_buf i (\<lambda>x. x\<lparr>b_refcnt := b_refcnt x + 1\<rparr>) s" p] D(1,6) lk p ii
    by (simp add: upd_buf_nth set_buf_lock_def)
  ultimately show ?thesis
    using xs(2) D(5) by (simp add: bget_def lock_simps del: list_walk.simps)
qed

lemma bget_miss:
  assumes inv: "bc_inv s" and none: "bslot s b = None" and room: "\<exists>i < NBUF. b_refcnt (bbuf i s) = 0"
  shows "\<exists>i < NBUF. b_refcnt (bbuf i s) = 0 \<and>
    bget ROOTDEV b s = Ok (i, upd_buf i (\<lambda>x. x\<lparr>b_dev := ROOTDEV, b_blockno := b, b_valid := False, b_refcnt := 1,
      b_lock := \<lparr>sl_locked = True, sl_pid = my_pid s\<rparr>\<rparr>) s)"
proof -
  note D = bc_base_D [OF bc_inv_D(1) [OF inv]]
  obtain p where p: "my_proc s = Some p" using D(2) by blast
  obtain xs where xs: "\<forall>i. i \<in> set xs \<longleftrightarrow> i < NBUF" "list_walk (Suc NBUF) (nxt (blinks s) bhead) bhead (blinks s) = Ok xs"
    "list_walk (Suc NBUF) (prv (blinks s) bhead) bhead (flip_links (blinks s)) = Ok (rev xs)"
    by (rule list_walk_bufs [OF bc_inv_D(1) [OF inv]])
  have f1: "List.find (\<lambda>i. b_dev (bbuf i s) = ROOTDEV \<and> b_blockno (bbuf i s) = b) xs = None"
    using none xs(1) unfolding find_None_iff bslot_None by blast
  have "List.find (\<lambda>i. b_refcnt (bbuf i s) = 0) (rev xs) \<noteq> None"
    using room xs(1) unfolding find_None_iff set_rev by blast
  then obtain i where f2: "List.find (\<lambda>i. b_refcnt (bbuf i s) = 0) (rev xs) = Some i" by blast
  then have "i \<in> set (rev xs) \<and> b_refcnt (bbuf i s) = 0" by (rule find_SomeD)
  then have i: "i < NBUF" "b_refcnt (bbuf i s) = 0" using xs(1) by simp_all
  have lk: "\<not> sl_locked (buf_lock i s)" using bc_inv_D(2) [OF inv i(1)] i(2) by (auto simp: buf_ok_def)
  let ?f = "\<lambda>x. x\<lparr>b_dev := ROOTDEV, b_blockno := b, b_valid := False, b_refcnt := 1\<rparr>"
  have "acquiresleep (BufLk i) (BufLockChan i) (buf_lock i) (set_buf_lock i) (upd_buf i ?f s) =
      Ok (upd_buf i (\<lambda>x. (?f x)\<lparr>b_lock := \<lparr>sl_locked = True, sl_pid = my_pid s\<rparr>\<rparr>) s)"
    using acquiresleep_buf [of i "upd_buf i ?f s" p] D(1,6) lk p i
    by (simp add: upd_buf_nth set_buf_lock_def)
  then have "bget ROOTDEV b s = Ok (i, upd_buf i (\<lambda>x. (?f x)\<lparr>b_lock := \<lparr>sl_locked = True, sl_pid = my_pid s\<rparr>\<rparr>) s)"
    using xs(2,3) f1 f2 D(5) by (simp add: bget_def lock_simps del: list_walk.simps)
  then show ?thesis using i by auto
qed

lemma holdingsleep_buf:
  assumes "BufLk i \<notin> held s" "my_proc s = Some p"
  shows "holdingsleep (BufLk i) (buf_lock i) s = Ok (sl_locked (buf_lock i s) \<and> sl_pid (buf_lock i s) = my_pid s, s)"
  using assms by (simp add: holdingsleep_def lock_simps my_pid_def)

lemma releasesleep_buf:
  assumes "BufLk i \<notin> held s" "\<And>j. ProcLock j \<notin> held s" "length (procs s) = STATIC_PROC_NUM"
  shows "releasesleep (BufLk i) (BufLockChan i) (set_buf_lock i) s =
    Ok ((set_buf_lock i \<lparr>sl_locked = False, sl_pid = 0\<rparr> s)\<lparr>procs := map (woken (BufLockChan i)) (procs s)\<rparr>)"
proof -
  let ?t = "(set_buf_lock i \<lparr>sl_locked = False, sl_pid = 0\<rparr> s)\<lparr>held := insert (BufLk i) (held s), noff := Suc (noff s)\<rparr>"
  have w: "wake_up (BufLockChan i) ?t = Ok (?t\<lparr>procs := map (woken (BufLockChan i)) (procs s)\<rparr>)"
    using wake_up_eq [of ?t "BufLockChan i"] assms by (simp add: set_buf_lock_def)
  have "(?t\<lparr>procs := ps\<rparr>)\<lparr>held := held s, noff := noff s\<rparr> = (set_buf_lock i \<lparr>sl_locked = False, sl_pid = 0\<rparr> s)\<lparr>procs := ps\<rparr>" for ps
    by (simp add: set_buf_lock_def upd_buf_def)
  then show ?thesis using assms(1) w
    by (simp add: releasesleep_def lock_simps set_buf_lock_def)
qed

lemma brelse_eq:
  assumes base: "bc_base s" and i: "i < NBUF" and h: "sl_locked (buf_lock i s)" "sl_pid (buf_lock i s) = my_pid s"
  shows "brelse i s = Ok ((upd_buf i (\<lambda>x. x\<lparr>b_lock := \<lparr>sl_locked = False, sl_pid = 0\<rparr>, b_refcnt := b_refcnt x - 1\<rparr>) s)
    \<lparr>procs := map (woken (BufLockChan i)) (procs s),
     blinks := if b_refcnt (bbuf i s) - 1 = 0 then to_front i (blinks s) else blinks s\<rparr>)"
proof -
  note D = bc_base_D [OF base]
  obtain p where p: "my_proc s = Some p" using D(2) by blast
  let ?t = "(set_buf_lock i \<lparr>sl_locked = False, sl_pid = 0\<rparr> s)\<lparr>procs := map (woken (BufLockChan i)) (procs s)\<rparr>"
  have 1: "holdingsleep (BufLk i) (buf_lock i) s = Ok (True, s)"
    using holdingsleep_buf [OF D(6) p] h by simp
  have 2: "releasesleep (BufLk i) (BufLockChan i) (set_buf_lock i) s = Ok ?t"
    using releasesleep_buf [OF D(6) D(7) D(4)] by simp
  have b: "BcacheLock \<notin> held ?t" using D(5) by (simp add: set_buf_lock_def)
  have 3: "upd_buf i f ?t = (upd_buf i (\<lambda>x. f (x\<lparr>b_lock := \<lparr>sl_locked = False, sl_pid = 0\<rparr>\<rparr>)) s)\<lparr>procs := map (woken (BufLockChan i)) (procs s)\<rparr>" for f
    using D(1) i by (simp add: set_buf_lock_def upd_buf_def)
  have 4: "b_refcnt (bbuf i ?t) = b_refcnt (bbuf i s)" "blinks ?t = blinks s" using D(1) i by (simp_all add: set_buf_lock_def upd_buf_nth upd_buf_def)
  show ?thesis
    using b D(1) i 4 unfolding brelse_def 1 kbind.simps prod.case 2
    by (simp add: lock_simps 3 upd_buf_nth to_front_def Let_def) (simp add: upd_buf_def set_buf_lock_def)
qed

lemma bwrite_eq:
  assumes base: "bc_base s" and h: "sl_locked (buf_lock i s)" "sl_pid (buf_lock i s) = my_pid s"
  shows "bwrite i s = Ok (s\<lparr>disk := (disk s)(b_blockno (bbuf i s) := b_data (bbuf i s)),
    wlog := wlog s @ [(b_blockno (bbuf i s), b_data (bbuf i s))]\<rparr>)"
proof -
  note D = bc_base_D [OF base]
  obtain p where "my_proc s = Some p" using D(2) by blast
  then show ?thesis using holdingsleep_buf [OF D(6)] h by (simp add: bwrite_def virtio_disk_rw_def Let_def)
qed

lemma bpin_eq:
  "bc_base s \<Longrightarrow> bpin i s = Ok (upd_buf i (\<lambda>b. b\<lparr>b_refcnt := b_refcnt b + 1\<rparr>) s)"
  by (simp add: bpin_def lock_simps bc_base_D)

lemma bunpin_eq:
  "bc_base s \<Longrightarrow> bunpin i s = Ok (upd_buf i (\<lambda>b. b\<lparr>b_refcnt := b_refcnt b - 1\<rparr>) s)"
  by (simp add: bunpin_def lock_simps bc_base_D)

text \<open>Recycling a buffer nobody uses.\<close>

definition evict :: "nat \<Rightarrow> u32 \<Rightarrow> 'a bio_state_scheme \<Rightarrow> 'a bio_state_scheme" where
  "evict i b s = upd_buf i (\<lambda>x. x\<lparr>b_dev := ROOTDEV, b_blockno := b, b_valid := False, b_refcnt := 0\<rparr>) s"

lemma bc_base_bufs:
  assumes "bc_base s" "length bs = NBUF"
  shows "bc_base (s\<lparr>bufs := bs\<rparr>)"
  using assms by (simp add: bc_base_def my_proc_def)

lemma evict_inv:
  assumes inv: "bc_inv s" and none: "bslot s b = None" and i: "i < NBUF" "b_refcnt (bbuf i s) = 0"
  shows "bc_inv (evict i b s)"
proof -
  note D = bc_inv_D [OF inv]
  have len: "i < length (bufs s)" using bc_base_D(1) [OF D(1)] i by simp
  have 1: "bc_base (evict i b s)"
    unfolding evict_def upd_buf_def by (rule bc_base_bufs [OF D(1)]) (simp add: bc_base_D(1) [OF D(1)])
  have 2: "buf_ok (evict i b s) (bbuf j (evict i b s))" if "j < NBUF" for j
    using D(2) [OF that] D(2) [OF i(1)] i len by (simp add: evict_def upd_buf_nth buf_ok_def)
  have "buf_unique (bufs (evict i b s))"
    using D(3) none i len unfolding buf_unique_def bslot_None evict_def
    by (simp add: upd_buf_nth) blast
  then show ?thesis using 1 2 by (simp add: bc_inv_def)
qed

text \<open>How the abstraction changes when one buffer changes in place.\<close>

definition buf_change :: "'a bio_state_scheme \<Rightarrow> nat \<Rightarrow> buf \<Rightarrow> 'a bio_state_scheme \<Rightarrow> bool" where
  "buf_change s i x t \<longleftrightarrow> bc_inv s \<and> i < NBUF \<and> b_dev (bbuf i s) = ROOTDEV \<and> bufs t = (bufs s)[i := x] \<and>
     b_dev x = ROOTDEV \<and> b_blockno x = b_blockno (bbuf i s) \<and> my_pid t = my_pid s \<and> bc_base t \<and>
     (\<forall>c. c \<noteq> b_blockno x \<longrightarrow> disk t c = disk s c)"

lemma buf_change_D:
  assumes "buf_change s i x t"
  shows "bc_inv s" "i < NBUF" "b_dev (bbuf i s) = ROOTDEV" "bufs t = (bufs s)[i := x]" "b_dev x = ROOTDEV"
    "b_blockno x = b_blockno (bbuf i s)" "my_pid t = my_pid s" "bc_base t" "c \<noteq> b_blockno x \<Longrightarrow> disk t c = disk s c"
    "length (bufs s) = NBUF" "bbuf j t = (if j = i then x else bbuf j s)"
  using assms bc_base_D(1) [of s] bc_inv_D(1) [of s] unfolding buf_change_def by (auto simp: nth_list_update)

lemma buf_change_slot:
  assumes "buf_change s i x t"
  shows "bslot s (b_blockno x) = Some i" "bslot t c = bslot s c" "bslot s c = Some j \<Longrightarrow> c \<noteq> b_blockno x \<Longrightarrow> j \<noteq> i"
proof -
  note D = buf_change_D [OF assms]
  show "bslot s (b_blockno x) = Some i" using D by (simp add: bslot_Some)
  have "(b_dev (bbuf j t) = ROOTDEV \<and> b_blockno (bbuf j t) = c) = (b_dev (bbuf j s) = ROOTDEV \<and> b_blockno (bbuf j s) = c)" for j
    using D(3,5,6,11) by simp
  then show "bslot t c = bslot s c" unfolding bslot_def by simp
  show "bslot s c = Some j \<Longrightarrow> c \<noteq> b_blockno x \<Longrightarrow> j \<noteq> i" using D by (auto simp: bslot_Some)
qed

lemma buf_change_inv:
  assumes ch: "buf_change s i x t" and ok: "buf_ok t x"
  shows "bc_inv t"
proof -
  note D = buf_change_D [OF ch]
  note I = bc_inv_D [OF D(1)]
  have "buf_ok t (bbuf j t)" if j: "j < NBUF" for j
  proof (cases "j = i")
    case False
    have "b_dev (bbuf j s) = ROOTDEV \<Longrightarrow> b_blockno (bbuf j s) \<noteq> b_blockno x"
      using I(3) j D(2,3,6) False unfolding buf_unique_def by metis
    then show ?thesis using I(2) [OF j] False D(9,11) by (auto simp: buf_ok_def)
  qed (use ok D in simp)
  moreover have "buf_unique (bufs t)"
    unfolding buf_unique_def
  proof (intro allI impI)
    fix j k assume "j < NBUF" "k < NBUF" and "b_dev (bbuf j t) = ROOTDEV \<and> b_dev (bbuf k t) = ROOTDEV \<and> b_blockno (bbuf j t) = b_blockno (bbuf k t)"
    then have "b_dev (bbuf j s) = ROOTDEV \<and> b_dev (bbuf k s) = ROOTDEV \<and> b_blockno (bbuf j s) = b_blockno (bbuf k s)"
      using D(3,5,6,11) by (simp split: if_splits)
    then show "j = k" using I(3) \<open>j < NBUF\<close> \<open>k < NBUF\<close> unfolding buf_unique_def by blast
  qed
  ultimately show ?thesis using D(8) by (simp add: bc_inv_def)
qed

lemma buf_change_abs:
  assumes ch: "buf_change s i x t"
  shows "bref t = (bref s)(b_blockno x := unat (b_refcnt x))"
    "blocked t = (blocked s)(b_blockno x := sl_locked (b_lock x))"
    "bview t = (bview s)(b_blockno x := if b_valid x then b_data x else disk t (b_blockno x))"
    "bhnd t = (bhnd s)(i := if sl_locked (b_lock x) \<and> sl_pid (b_lock x) = my_pid s then Some (b_blockno x) else None)"
proof -
  note D = buf_change_D [OF ch] and S = buf_change_slot [OF ch]
  show "bref t = (bref s)(b_blockno x := unat (b_refcnt x))"
    by (rule ext) (auto simp: bref_def S(1,2) D(11) dest: S(3) split: option.splits)
  show "blocked t = (blocked s)(b_blockno x := sl_locked (b_lock x))"
    by (rule ext) (auto simp: blocked_def S(1,2) D(11) dest: S(3) split: option.splits)
  show "bview t = (bview s)(b_blockno x := if b_valid x then b_data x else disk t (b_blockno x))"
    by (rule ext) (auto simp: bview_def S(1,2) D(9,11) dest: S(3) split: option.splits)
  show "bhnd t = (bhnd s)(i := if sl_locked (b_lock x) \<and> sl_pid (b_lock x) = my_pid s then Some (b_blockno x) else None)"
    using D(2,6,7) by (intro ext) (auto simp: bhnd_def D(11))
qed

lemma evict_abs:
  assumes inv: "bc_inv s" and none: "bslot s b = None" and i: "i < NBUF" "b_refcnt (bbuf i s) = 0"
  shows "bview (evict i b s) = bview s" "bref (evict i b s) = bref s" "blocked (evict i b s) = blocked s"
    "bhnd (evict i b s) = bhnd s" "bslot (evict i b s) b = Some i"
proof -
  note inv' = evict_inv [OF assms]
  have len: "i < length (bufs s)" using bc_base_D(1) [OF bc_inv_D(1) [OF inv]] i by simp
  have nth: "bbuf j (evict i b s) = (if j = i then (bbuf i s)\<lparr>b_dev := ROOTDEV, b_blockno := b, b_valid := False, b_refcnt := 0\<rparr> else bbuf j s)" for j
    using len by (simp add: evict_def upd_buf_nth)
  have ok: "\<not> sl_locked (buf_lock i s)" "b_valid (bbuf i s) \<Longrightarrow> b_dev (bbuf i s) = ROOTDEV \<Longrightarrow> b_data (bbuf i s) = disk s (b_blockno (bbuf i s))"
    using bc_inv_D(2) [OF inv i(1)] i(2) by (auto simp: buf_ok_def)
  show new: "bslot (evict i b s) b = Some i" using bslot_Some [OF inv'] i nth by simp
  have other: "bslot (evict i b s) c = (if bslot s c = Some i then None else bslot s c)" if "c \<noteq> b" for c
  proof (cases "bslot (evict i b s) c")
    case None
    then have "bslot s c \<noteq> Some j" if "j \<noteq> i" for j
      using that nth bslot_Some [OF inv] unfolding bslot_None by metis
    then show ?thesis using None by (cases "bslot s c") auto
  next
    case (Some j)
    then have "j < NBUF \<and> b_dev (bbuf j (evict i b s)) = ROOTDEV \<and> b_blockno (bbuf j (evict i b s)) = c"
      using bslot_Some [OF inv'] by blast
    then have "j \<noteq> i" "j < NBUF \<and> b_dev (bbuf j s) = ROOTDEV \<and> b_blockno (bbuf j s) = c"
      using that nth by (auto split: if_splits)
    then have "bslot s c = Some j \<and> j \<noteq> i" using bslot_Some [OF inv] by blast
    then show ?thesis using Some by simp
  qed
  have dev: "disk (evict i b s) = disk s" by (simp add: evict_def)
  have slot_i: "bslot s c = Some i \<Longrightarrow> b_dev (bbuf i s) = ROOTDEV \<and> b_blockno (bbuf i s) = c" for c
    using bslot_Some [OF inv] by blast
  show "bview (evict i b s) = bview s"
  proof
    fix c show "bview (evict i b s) c = bview s c"
      using other [of c] none new nth dev slot_i [of c] ok by (cases "c = b") (auto simp: bview_def split: option.splits)
  qed
  show "bref (evict i b s) = bref s"
  proof
    fix c show "bref (evict i b s) c = bref s c"
      using other [of c] none new nth i by (cases "c = b") (auto simp: bref_def split: option.splits)
  qed
  show "blocked (evict i b s) = blocked s"
  proof
    fix c show "blocked (evict i b s) c = blocked s c"
      using other [of c] none new nth ok by (cases "c = b") (auto simp: blocked_def split: option.splits)
  qed
  have "my_pid (evict i b s) = my_pid s" by (simp add: evict_def)
  then show "bhnd (evict i b s) = bhnd s" using nth ok by (intro ext) (auto simp: bhnd_def)
qed

section \<open>Laws of the operations\<close>

text \<open>
  What the cache may change of the rest of the state: nothing but its own fields and, when a waiter
  is woken, the status and channel of processes.
\<close>

definition unslept :: "process \<Rightarrow> process" where
  "unslept p = p\<lparr>p_status := UNUSED, p_chain := NoChan\<rparr>"

definition bframe :: "'a bio_state_scheme \<Rightarrow> 'a bio_state_scheme \<Rightarrow> bool" where
  "bframe s t \<longleftrightarrow> (\<exists>ps d w bs L. t = s\<lparr>procs := ps, disk := d, wlog := w, bufs := bs, blinks := L\<rparr> \<and>
     map unslept ps = map unslept (procs s))"

lemma bframeI:
  "t = s\<lparr>procs := ps, disk := d, wlog := w, bufs := bs, blinks := L\<rparr> \<Longrightarrow> map unslept ps = map unslept (procs s) \<Longrightarrow> bframe s t"
  unfolding bframe_def by blast

lemma bframe_refl [simp]: "bframe s s"
  by (rule bframeI [where ps = "procs s" and d = "disk s" and w = "wlog s" and bs = "bufs s" and L = "blinks s"]) simp_all

lemma bframe_trans: "bframe s t \<Longrightarrow> bframe t u \<Longrightarrow> bframe s u"
  unfolding bframe_def by fastforce

lemma unslept_woken: "map unslept (map (woken c) ps) = map unslept ps"
  by (simp add: unslept_def woken_def)

lemma unslept_pid: "map unslept ps = map unslept qs \<Longrightarrow> i < length ps \<Longrightarrow> p_pid (ps ! i) = p_pid (qs ! i)"
proof -
  assume "map unslept ps = map unslept qs" "i < length ps"
  then have "unslept (ps ! i) = unslept (qs ! i)" using map_eq_imp_length_eq nth_map by metis
  then show ?thesis unfolding unslept_def by (metis process.select_convs(1) process.surjective process.update_convs(2,5))
qed

lemma bframe_upd_buf [simp]: "bframe s (upd_buf i f s)"
  by (rule bframeI [where ps = "procs s" and d = "disk s" and w = "wlog s" and L = "blinks s"]) (simp_all add: upd_buf_def)

lemma bc_base_upd_buf: "bc_base s \<Longrightarrow> bc_base (upd_buf i f s)"
  unfolding upd_buf_def by (rule bc_base_bufs) (simp_all add: bc_base_D(1))

lemma bhnd_SomeD:
  "bhnd s i = Some b \<Longrightarrow> i < NBUF \<and> sl_locked (buf_lock i s) \<and> sl_pid (buf_lock i s) = my_pid s \<and> b_blockno (bbuf i s) = b"
  by (simp add: bhnd_def split: if_splits)

lemma bhnd_buf:
  assumes "bc_inv s" "bhnd s i = Some b"
  shows "0 < b_refcnt (bbuf i s)" "b_valid (bbuf i s)" "b_dev (bbuf i s) = ROOTDEV" "length (b_data (bbuf i s)) = BSIZE"
    "bslot s b = Some i" "bview s b = b_data (bbuf i s)" "bref s b = unat (b_refcnt (bbuf i s))"
proof -
  note h = bhnd_SomeD [OF assms(2)]
  have "buf_ok s (bbuf i s)" using bc_inv_D(2) [OF assms(1)] h by blast
  then show ok: "0 < b_refcnt (bbuf i s)" "b_valid (bbuf i s)" "b_dev (bbuf i s) = ROOTDEV" "length (b_data (bbuf i s)) = BSIZE"
    using h by (auto simp: buf_ok_def)
  show "bslot s b = Some i" using bslot_Some [OF assms(1)] h ok by blast
  then show "bview s b = b_data (bbuf i s)" "bref s b = unat (b_refcnt (bbuf i s))" using ok by (simp_all add: bview_def bref_def)
qed

lemma upd_buf_change:
  assumes "bc_inv s" "bhnd s i = Some b" and "b_dev (f (bbuf i s)) = ROOTDEV" "b_blockno (f (bbuf i s)) = b"
  shows "buf_change s i (f (bbuf i s)) (upd_buf i f s)"
  using assms bhnd_SomeD [OF assms(2)] bhnd_buf [OF assms(1,2)] bc_base_upd_buf [OF bc_inv_D(1) [OF assms(1)]]
  by (simp add: buf_change_def) (simp add: upd_buf_def)

lemma set_buf_data_law:
  assumes inv: "bc_inv s" and h: "bhnd s i = Some b" and d: "length d = BSIZE"
  shows "let t = set_buf_data i d s in bc_inv t \<and> bframe s t \<and> disk t = disk s \<and> wlog t = wlog s \<and>
    bview t = (bview s)(b := d) \<and> bref t = bref s \<and> blocked t = blocked s \<and> bhnd t = bhnd s"
proof -
  note H = bhnd_SomeD [OF h] and B = bhnd_buf [OF inv h]
  let ?f = "\<lambda>x. x\<lparr>b_data := d\<rparr>"
  have ch: "buf_change s i (?f (bbuf i s)) (upd_buf i ?f s)"
    using upd_buf_change [OF inv h, of ?f] B H by simp
  have ok: "buf_ok (upd_buf i ?f s) (?f (bbuf i s))" using B d H by (auto simp: buf_ok_def)
  have "bref s b = unat (b_refcnt (bbuf i s))" "blocked s b = sl_locked (buf_lock i s)"
    using B by (simp_all add: bref_def blocked_def)
  then show ?thesis
    using buf_change_inv [OF ch ok] buf_change_abs [OF ch] B H h
    by (simp add: set_buf_data_def Let_def fun_eq_iff)
qed

lemma bwrite_law:
  assumes inv: "bc_inv s" and h: "bhnd s i = Some b"
  shows "\<exists>t. bwrite i s = Ok t \<and> bc_inv t \<and> bframe s t \<and> disk t = (disk s)(b := bview s b) \<and>
    wlog t = wlog s @ [(b, bview s b)] \<and> bview t = bview s \<and> bref t = bref s \<and> blocked t = blocked s \<and> bhnd t = bhnd s"
proof -
  note H = bhnd_SomeD [OF h] and B = bhnd_buf [OF inv h]
  let ?t = "s\<lparr>disk := (disk s)(b := bview s b), wlog := wlog s @ [(b, bview s b)]\<rparr>"
  have e: "bwrite i s = Ok ?t" using bwrite_eq [OF bc_inv_D(1) [OF inv]] H B by simp
  have base: "bc_base ?t" using bc_inv_D(1) [OF inv] B by (simp add: bc_base_def my_proc_def)
  have pid: "my_pid ?t = my_pid s" by (simp add: my_pid_def my_proc_def cong: option.case_cong)
  have ch: "buf_change s i (bbuf i s) ?t" using inv H B base pid by (simp add: buf_change_def)
  have ok: "buf_ok ?t (bbuf i s)" using B H by (auto simp: buf_ok_def)
  have fr: "bframe s ?t"
    by (rule bframeI [where ps = "procs s" and bs = "bufs s" and L = "blinks s"]) simp_all
  have "bref s b = unat (b_refcnt (bbuf i s))" "blocked s b = sl_locked (buf_lock i s)" "bview s b = b_data (bbuf i s)"
    using B by (simp_all add: bref_def blocked_def)
  then have "bview ?t = bview s" "bref ?t = bref s" "blocked ?t = blocked s" "bhnd ?t = bhnd s"
    using buf_change_abs [OF ch] B H h by (simp_all add: fun_eq_iff)
  then show ?thesis using e fr buf_change_inv [OF ch ok] by simp
qed

lemma bpin_law:
  assumes inv: "bc_inv s" and h: "bhnd s i = Some b" and n: "Suc (bref s b) < 2 ^ 32"
  shows "\<exists>t. bpin i s = Ok t \<and> bc_inv t \<and> bframe s t \<and> disk t = disk s \<and> wlog t = wlog s \<and> bview t = bview s \<and>
    bref t = (bref s)(b := Suc (bref s b)) \<and> blocked t = blocked s \<and> bhnd t = bhnd s"
proof -
  note H = bhnd_SomeD [OF h] and B = bhnd_buf [OF inv h]
  let ?f = "\<lambda>x. x\<lparr>b_refcnt := b_refcnt x + 1\<rparr>"
  have u: "unat (b_refcnt (bbuf i s) + 1) = Suc (bref s b)"
    using n B unat_add_no_wrap [of "b_refcnt (bbuf i s)" 1] by simp
  then have pos: "0 < b_refcnt (bbuf i s) + 1" by (metis Zero_not_Suc unat_0 word_gt_0)
  have ch: "buf_change s i (?f (bbuf i s)) (upd_buf i ?f s)" using upd_buf_change [OF inv h, of ?f] B H by simp
  have ok: "buf_ok (upd_buf i ?f s) (?f (bbuf i s))" using B H pos by (auto simp: buf_ok_def)
  have "blocked s b = sl_locked (buf_lock i s)" using B by (simp add: blocked_def)
  then have "bview (upd_buf i ?f s) = bview s" "bref (upd_buf i ?f s) = (bref s)(b := Suc (bref s b))"
      "blocked (upd_buf i ?f s) = blocked s" "bhnd (upd_buf i ?f s) = bhnd s"
    using buf_change_abs [OF ch] B H h u by (simp_all add: fun_eq_iff)
  then show ?thesis using bpin_eq [OF bc_inv_D(1) [OF inv]] buf_change_inv [OF ch ok] by simp
qed

lemma bunpin_law:
  assumes inv: "bc_inv s" and h: "bhnd s i = Some b" and n: "1 < bref s b"
  shows "\<exists>t. bunpin i s = Ok t \<and> bc_inv t \<and> bframe s t \<and> disk t = disk s \<and> wlog t = wlog s \<and> bview t = bview s \<and>
    bref t = (bref s)(b := bref s b - 1) \<and> blocked t = blocked s \<and> bhnd t = bhnd s"
proof -
  note H = bhnd_SomeD [OF h] and B = bhnd_buf [OF inv h]
  let ?f = "\<lambda>x. x\<lparr>b_refcnt := b_refcnt x - 1\<rparr>"
  have u: "unat (b_refcnt (bbuf i s) - 1) = bref s b - 1"
    using n B by (metis unat_minus_one word_gt_0)
  then have pos: "0 < b_refcnt (bbuf i s) - 1" using n by (metis unat_0 word_gt_0 zero_less_diff less_irrefl)
  have ch: "buf_change s i (?f (bbuf i s)) (upd_buf i ?f s)" using upd_buf_change [OF inv h, of ?f] B H by simp
  have ok: "buf_ok (upd_buf i ?f s) (?f (bbuf i s))" using B H pos by (auto simp: buf_ok_def)
  have "blocked s b = sl_locked (buf_lock i s)" using B by (simp add: blocked_def)
  then have "bview (upd_buf i ?f s) = bview s" "bref (upd_buf i ?f s) = (bref s)(b := bref s b - 1)"
      "blocked (upd_buf i ?f s) = blocked s" "bhnd (upd_buf i ?f s) = bhnd s"
    using buf_change_abs [OF ch] B H h u by (simp_all add: fun_eq_iff)
  then show ?thesis using bunpin_eq [OF bc_inv_D(1) [OF inv]] buf_change_inv [OF ch ok] by simp
qed

text \<open>A buffer can be had for block \<open>b\<close>: it is in use already, or some buffer is not.\<close>

definition room :: "'a bio_state_scheme \<Rightarrow> u32 \<Rightarrow> bool" where
  "room s b \<longleftrightarrow> 0 < bref s b \<or> card {c. 0 < bref s c} < NBUF"

lemma bref_pos:
  assumes "bc_inv s"
  shows "{c. 0 < bref s c} = (\<lambda>i. b_blockno (bbuf i s)) ` {i. i < NBUF \<and> b_refcnt (bbuf i s) \<noteq> 0}"
proof -
  have "0 < bref s c \<longleftrightarrow> (\<exists>i < NBUF. b_refcnt (bbuf i s) \<noteq> 0 \<and> b_blockno (bbuf i s) = c)" for c
  proof
    assume "0 < bref s c"
    then obtain i where "bslot s c = Some i" "b_refcnt (bbuf i s) \<noteq> 0"
      by (cases "bslot s c") (auto simp: bref_def unat_gt_0)
    then show "\<exists>i < NBUF. b_refcnt (bbuf i s) \<noteq> 0 \<and> b_blockno (bbuf i s) = c" using bslot_Some [OF assms] by blast
  next
    assume "\<exists>i < NBUF. b_refcnt (bbuf i s) \<noteq> 0 \<and> b_blockno (bbuf i s) = c"
    then obtain i where i: "i < NBUF" "b_refcnt (bbuf i s) \<noteq> 0" "b_blockno (bbuf i s) = c" by blast
    then have "b_dev (bbuf i s) = ROOTDEV" using bc_inv_D(2) [OF assms i(1)] by (auto simp: buf_ok_def word_gt_0)
    then have "bslot s c = Some i" using bslot_Some [OF assms] i by blast
    then show "0 < bref s c" using i by (simp add: bref_def unat_gt_0)
  qed
  then show ?thesis by auto
qed

lemma finite_bref: "bc_inv s \<Longrightarrow> finite {c. 0 < bref s c}"
  by (simp add: bref_pos)

lemma room_buffer:
  assumes inv: "bc_inv s" and r: "room s b"
  shows "bslot s b \<noteq> None \<or> (\<exists>i < NBUF. b_refcnt (bbuf i s) = 0)"
proof (rule ccontr)
  assume "\<not> ?thesis"
  then have none: "bslot s b = None" and all: "\<And>i. i < NBUF \<Longrightarrow> b_refcnt (bbuf i s) \<noteq> 0" by auto
  have "inj_on (\<lambda>i. b_blockno (bbuf i s)) {i. i < NBUF}"
  proof (rule inj_onI)
    fix i j assume ij: "i \<in> {i. i < NBUF}" "j \<in> {i. i < NBUF}" "b_blockno (bbuf i s) = b_blockno (bbuf j s)"
    have "b_dev (bbuf k s) = ROOTDEV" if "k < NBUF" for k
      using bc_inv_D(2) [OF inv that] all [OF that] by (auto simp: buf_ok_def word_gt_0)
    then show "i = j" using bc_inv_D(3) [OF inv] ij unfolding buf_unique_def by simp
  qed
  moreover have "{i. i < NBUF \<and> b_refcnt (bbuf i s) \<noteq> 0} = {i. i < NBUF}" using all by auto
  ultimately have "card {c. 0 < bref s c} = NBUF" using bref_pos [OF inv] by (simp add: card_image)
  moreover have "bref s b = 0" using none by (simp add: bref_def)
  ultimately show False using r by (simp add: room_def)
qed

lemma bread_from_slot:
  assumes inv: "bc_inv s" and i: "bslot s b = Some i" and free: "\<not> blocked s b" and n: "Suc (bref s b) < 2 ^ 32"
    and t: "t = upd_buf i (\<lambda>x. x\<lparr>b_refcnt := b_refcnt x + 1, b_lock := \<lparr>sl_locked = True, sl_pid = my_pid s\<rparr>, b_data := bview s b, b_valid := True\<rparr>) s"
  shows "bc_inv t \<and> bview t = bview s \<and> bref t = (bref s)(b := Suc (bref s b)) \<and>
    blocked t = (blocked s)(b := True) \<and> bhnd t = (bhnd s)(i \<mapsto> b) \<and> bhnd s i = None"
proof -
  have ii: "i < NBUF" "b_dev (bbuf i s) = ROOTDEV" "b_blockno (bbuf i s) = b" using bslot_Some [OF inv] i by auto
  have len: "length (bufs s) = NBUF" using bc_base_D(1) [OF bc_inv_D(1) [OF inv]] .
  have okb: "buf_ok s (bbuf i s)" using bc_inv_D(2) [OF inv ii(1)] .
  have u: "unat (b_refcnt (bbuf i s) + 1) = Suc (bref s b)"
    using n i unat_add_no_wrap [of "b_refcnt (bbuf i s)" 1] by (simp add: bref_def)
  then have pos: "0 < b_refcnt (bbuf i s) + 1" by (metis Zero_not_Suc unat_0 word_gt_0)
  have dl: "length (bview s b) = BSIZE"
    using okb i bc_base_D(3) [OF bc_inv_D(1) [OF inv]] by (simp add: bview_def buf_ok_def)
  let ?x = "(bbuf i s)\<lparr>b_refcnt := b_refcnt (bbuf i s) + 1, b_lock := \<lparr>sl_locked = True, sl_pid = my_pid s\<rparr>, b_data := bview s b, b_valid := True\<rparr>"
  have ch: "buf_change s i ?x t"
    using inv ii t len bc_base_upd_buf [OF bc_inv_D(1) [OF inv]] by (simp add: buf_change_def) (simp add: upd_buf_def)
  have ok: "buf_ok t ?x" using pos dl ii by (auto simp: buf_ok_def)
  have "bhnd s i = None" using free i by (simp add: blocked_def bhnd_def)
  then show ?thesis using buf_change_inv [OF ch ok] buf_change_abs [OF ch] ii u by (simp add: fun_eq_iff)
qed

lemma bread_law:
  assumes inv: "bc_inv s" and free: "\<not> blocked s b" and n: "Suc (bref s b) < 2 ^ 32" and r: "room s b"
  shows "\<exists>i t. bread ROOTDEV b s = Ok (i, t) \<and> bc_inv t \<and> bframe s t \<and> disk t = disk s \<and> wlog t = wlog s \<and>
    bview t = bview s \<and> bref t = (bref s)(b := Suc (bref s b)) \<and> blocked t = (blocked s)(b := True) \<and>
    bhnd t = (bhnd s)(i \<mapsto> b) \<and> bhnd s i = None"
proof -
  let ?L = "\<lparr>sl_locked = True, sl_pid = my_pid s\<rparr>"
  let ?f = "\<lambda>d x. x\<lparr>b_refcnt := b_refcnt x + 1, b_lock := ?L, b_data := d, b_valid := True\<rparr>"
  have len: "length (bufs s) = NBUF" using bc_base_D(1) [OF bc_inv_D(1) [OF inv]] .
  show ?thesis
  proof (cases "bslot s b")
    case (Some i)
    then have ii: "i < NBUF" "b_dev (bbuf i s) = ROOTDEV" "b_blockno (bbuf i s) = b" using bslot_Some [OF inv] by auto
    have upd_id: "upd_buf i (\<lambda>x. f (x\<lparr>b_valid := b_valid (bbuf i s), b_data := b_data (bbuf i s)\<rparr>)) s = upd_buf i f s" for f
      by (simp add: upd_buf_def)
    have e: "bread ROOTDEV b s = Ok (i, upd_buf i (?f (bview s b)) s)"
    proof (cases "b_valid (bbuf i s)")
      case True
      have "upd_buf i (?f (bview s b)) s = upd_buf i (\<lambda>x. x\<lparr>b_refcnt := b_refcnt x + 1, b_lock := ?L\<rparr>) s"
        using True Some by (cases "bbuf i s") (simp add: bview_def upd_buf_def)
      then show ?thesis using True ii len by (simp add: bread_def bget_hit [OF inv Some free] upd_buf_nth)
    next
      case False
      then show ?thesis using Some ii len
        by (simp add: bread_def bget_hit [OF inv Some free] upd_buf_nth virtio_disk_rw_def Let_def bview_def) (simp add: upd_buf_def)
    qed
    show ?thesis using bread_from_slot [OF inv Some free n refl] e by simp
  next
    case None
    then have "\<exists>i < NBUF. b_refcnt (bbuf i s) = 0" using room_buffer [OF inv r] by simp
    from bget_miss [OF inv None this] obtain i where i: "i < NBUF" "b_refcnt (bbuf i s) = 0" and
      g: "bget ROOTDEV b s = Ok (i, upd_buf i (\<lambda>x. x\<lparr>b_dev := ROOTDEV, b_blockno := b, b_valid := False, b_refcnt := 1, b_lock := ?L\<rparr>) s)"
      by blast
    let ?s = "evict i b s"
    note E = evict_abs [OF inv None i]
    have pid: "my_pid ?s = my_pid s" by (simp add: evict_def)
    have v: "bview s b = disk s b" using None by (simp add: bview_def)
    have e: "bread ROOTDEV b s = Ok (i, upd_buf i (?f (bview s b)) ?s)"
      using i len v by (simp add: bread_def g upd_buf_nth virtio_disk_rw_def Let_def evict_def)
    have "bframe s (upd_buf i g ?s)" for g
      unfolding evict_def by (meson bframe_trans bframe_upd_buf)
    moreover have "disk (upd_buf i g ?s) = disk s" "wlog (upd_buf i g ?s) = wlog s" for g by (simp_all add: evict_def)
    ultimately show ?thesis
      using bread_from_slot [OF evict_inv [OF inv None i] E(5) _ _ refl] E(1-4) free n pid e by simp
  qed
qed

lemma brelse_law:
  assumes inv: "bc_inv s" and h: "bhnd s i = Some b" and last: "bref s b = 1 \<longrightarrow> bview s b = disk s b"
  shows "\<exists>t. brelse i s = Ok t \<and> bc_inv t \<and> bframe s t \<and> disk t = disk s \<and> wlog t = wlog s \<and> bview t = bview s \<and>
    bref t = (bref s)(b := bref s b - 1) \<and> blocked t = (blocked s)(b := False) \<and> bhnd t = (bhnd s)(i := None)"
proof -
  note H = bhnd_SomeD [OF h] and B = bhnd_buf [OF inv h]
  note base = bc_inv_D(1) [OF inv]
  let ?f = "\<lambda>x. x\<lparr>b_lock := \<lparr>sl_locked = False, sl_pid = 0\<rparr>, b_refcnt := b_refcnt x - 1\<rparr>"
  let ?L = "if b_refcnt (bbuf i s) - 1 = 0 then to_front i (blinks s) else blinks s"
  define t where "t = (upd_buf i ?f s)\<lparr>procs := map (woken (BufLockChan i)) (procs s), blinks := ?L\<rparr>"
  have e: "brelse i s = Ok t" unfolding t_def using brelse_eq [OF base] H by simp
  have u: "unat (b_refcnt (bbuf i s) - 1) = bref s b - 1" using B by (metis unat_minus_one word_gt_0)
  have ring: "\<exists>xs. ring ?L bhead xs \<and> (\<forall>j. j \<in> set xs \<longleftrightarrow> j < NBUF)"
  proof -
    obtain xs where xs: "ring (blinks s) bhead xs" "\<forall>j. j \<in> set xs \<longleftrightarrow> j < NBUF" using base unfolding bc_base_def by blast
    then have "i \<in> set xs" using H by simp
    moreover have "distinct xs" using xs(1) by (simp add: ring_def)
    ultimately have "ring (to_front i (blinks s)) bhead (i # remove1 i xs)" "set (i # remove1 i xs) = set xs"
      using to_front_ring [OF xs(1)] by (auto simp: set_remove1_eq)
    then show ?thesis using xs by (cases "b_refcnt (bbuf i s) - 1 = 0") auto
  qed
  have fields: "bufs t = (bufs s)[i := ?f (bbuf i s)]" "disk t = disk s" "wlog t = wlog s" by (simp_all add: t_def upd_buf_def)
  have pid: "my_pid t = my_pid s"
  proof -
    obtain p where p: "my_proc s = Some p" "p < STATIC_PROC_NUM" using bc_base_D(2) [OF base] by blast
    have "p_pid (map (woken (BufLockChan i)) (procs s) ! p) = p_pid (procs s ! p)"
      using p(2) bc_base_D(4) [OF base] by (simp add: woken_def)
    moreover have "my_proc t = Some p" using p by (simp add: t_def my_proc_def upd_buf_def)
    moreover have "procs t = map (woken (BufLockChan i)) (procs s)" by (simp add: t_def)
    ultimately show ?thesis using p by (simp add: my_pid_def)
  qed
  have "bc_base t" using base ring fields by (simp add: bc_base_def t_def upd_buf_def my_proc_def)
  then have ch: "buf_change s i (?f (bbuf i s)) t" using inv H B fields pid by (simp add: buf_change_def)
  have "b_refcnt (bbuf i s) = 1 \<Longrightarrow> b_data (bbuf i s) = disk s b" using last B by simp
  then have ok: "buf_ok t (?f (bbuf i s))" using B H fields by (auto simp: buf_ok_def)
  have fr: "bframe s t"
    by (rule bframeI [where ps = "map (woken (BufLockChan i)) (procs s)" and d = "disk s" and w = "wlog s" and bs = "bufs t" and L = ?L])
      (simp_all add: t_def upd_buf_def unslept_woken [simplified])
  have "bview t = bview s" "bref t = (bref s)(b := bref s b - 1)" "blocked t = (blocked s)(b := False)" "bhnd t = (bhnd s)(i := None)"
    using buf_change_abs [OF ch] B H u by (simp_all add: fun_eq_iff)
  then show ?thesis using e fr fields buf_change_inv [OF ch ok] by simp
qed

section \<open>The cache as an interface\<close>

text \<open>
  The abstract cache: what reading a block gives, the contents of the disk, the writes done so far,
  how many users each block has, which blocks are locked and which handles the caller has.
\<close>

record 'h cache =
  cview :: "u32 \<Rightarrow> u8 list"
  cdisk :: "u32 \<Rightarrow> u8 list"
  cwrites :: "(u32 \<times> u8 list) list"
  crefs :: "u32 \<Rightarrow> nat"
  clocked :: "u32 \<Rightarrow> bool"
  chandle :: "'h \<Rightarrow> u32 option"

definition a_read :: "'h \<Rightarrow> u32 \<Rightarrow> 'h cache \<Rightarrow> 'h cache" where
  "a_read i b c = c\<lparr>crefs := (crefs c)(b := Suc (crefs c b)), clocked := (clocked c)(b := True), chandle := (chandle c)(i \<mapsto> b)\<rparr>"

definition a_write :: "u32 \<Rightarrow> 'h cache \<Rightarrow> 'h cache" where
  "a_write b c = c\<lparr>cdisk := (cdisk c)(b := cview c b), cwrites := cwrites c @ [(b, cview c b)]\<rparr>"

definition a_set :: "u32 \<Rightarrow> u8 list \<Rightarrow> 'h cache \<Rightarrow> 'h cache" where
  "a_set b d c = c\<lparr>cview := (cview c)(b := d)\<rparr>"

definition a_release :: "'h \<Rightarrow> u32 \<Rightarrow> 'h cache \<Rightarrow> 'h cache" where
  "a_release i b c = c\<lparr>crefs := (crefs c)(b := crefs c b - 1), clocked := (clocked c)(b := False), chandle := (chandle c)(i := None)\<rparr>"

definition a_refs :: "(nat \<Rightarrow> nat) \<Rightarrow> u32 \<Rightarrow> 'h cache \<Rightarrow> 'h cache" where
  "a_refs f b c = c\<lparr>crefs := (crefs c)(b := f (crefs c b))\<rparr>"

definition has_room :: "nat \<Rightarrow> 'h cache \<Rightarrow> u32 \<Rightarrow> bool" where
  "has_room cap c b \<longleftrightarrow> 0 < crefs c b \<or> card {x. 0 < crefs c x} < cap"

text \<open>New contents of a block, in the cache and on the disk.\<close>

definition store :: "u32 \<Rightarrow> u8 list \<Rightarrow> 'h cache \<Rightarrow> 'h cache" where
  "store b d c = c\<lparr>cview := (cview c)(b := d), cdisk := (cdisk c)(b := d), cwrites := cwrites c @ [(b, d)]\<rparr>"

lemmas cache_ops = a_read_def a_write_def a_set_def a_release_def a_refs_def

locale block_cache =
  fixes inv :: "'s \<Rightarrow> bool" and abs :: "'s \<Rightarrow> 'h cache" and frame :: "'s \<Rightarrow> 's \<Rightarrow> bool" and cap :: nat
    and rd :: "u32 \<Rightarrow> 's \<Rightarrow> ('h \<times> 's) kres" and wr rel pin unpin :: "'h \<Rightarrow> 's \<Rightarrow> 's kres"
    and set_data :: "'h \<Rightarrow> u8 list \<Rightarrow> 's \<Rightarrow> 's" and get_data :: "'h \<Rightarrow> 's \<Rightarrow> u8 list"
  assumes frame_refl: "frame s s"
    and frame_trans: "frame s t \<Longrightarrow> frame t u \<Longrightarrow> frame s u"
    and rd_law: "inv s \<Longrightarrow> \<not> clocked (abs s) b \<Longrightarrow> Suc (crefs (abs s) b) < 2 ^ 32 \<Longrightarrow> has_room cap (abs s) b \<Longrightarrow>
        \<exists>i t. rd b s = Ok (i, t) \<and> inv t \<and> frame s t \<and> chandle (abs s) i = None \<and> abs t = a_read i b (abs s)"
    and wr_law: "inv s \<Longrightarrow> chandle (abs s) i = Some b \<Longrightarrow>
        \<exists>t. wr i s = Ok t \<and> inv t \<and> frame s t \<and> abs t = a_write b (abs s)"
    and rel_law: "inv s \<Longrightarrow> chandle (abs s) i = Some b \<Longrightarrow> crefs (abs s) b = 1 \<longrightarrow> cview (abs s) b = cdisk (abs s) b \<Longrightarrow>
        \<exists>t. rel i s = Ok t \<and> inv t \<and> frame s t \<and> abs t = a_release i b (abs s)"
    and pin_law: "inv s \<Longrightarrow> chandle (abs s) i = Some b \<Longrightarrow> Suc (crefs (abs s) b) < 2 ^ 32 \<Longrightarrow>
        \<exists>t. pin i s = Ok t \<and> inv t \<and> frame s t \<and> abs t = a_refs Suc b (abs s)"
    and unpin_law: "inv s \<Longrightarrow> chandle (abs s) i = Some b \<Longrightarrow> 1 < crefs (abs s) b \<Longrightarrow>
        \<exists>t. unpin i s = Ok t \<and> inv t \<and> frame s t \<and> abs t = a_refs (\<lambda>n. n - 1) b (abs s)"
    and set_law: "inv s \<Longrightarrow> chandle (abs s) i = Some b \<Longrightarrow> length d = BSIZE \<Longrightarrow>
        inv (set_data i d s) \<and> frame s (set_data i d s) \<and> abs (set_data i d s) = a_set b d (abs s)"
    and get_law: "inv s \<Longrightarrow> chandle (abs s) i = Some b \<Longrightarrow> get_data i s = cview (abs s) b"
    and length_law: "inv s \<Longrightarrow> length (cview (abs s) b) = BSIZE"
    and finite_law: "inv s \<Longrightarrow> finite {x. 0 < crefs (abs s) x}"
    and handle_law: "inv s \<Longrightarrow> chandle (abs s) i = Some b \<Longrightarrow> clocked (abs s) b \<and> 0 < crefs (abs s) b"
begin

text \<open>Reading a block and releasing it leaves the cache as it was, and the data is the block's.\<close>

lemma peek:
  assumes "inv s" "\<not> clocked (abs s) b" "Suc (crefs (abs s) b) < 2 ^ 32" "has_room cap (abs s) b"
    and clean: "crefs (abs s) b = 0 \<longrightarrow> cview (abs s) b = cdisk (abs s) b"
  shows "\<exists>i u t. rd b s = Ok (i, u) \<and> get_data i u = cview (abs s) b \<and> rel i u = Ok t \<and> inv t \<and> frame s t \<and> abs t = abs s"
proof -
  obtain i u where u: "rd b s = Ok (i, u)" "inv u" "frame s u" "chandle (abs s) i = None" "abs u = a_read i b (abs s)"
    using rd_law assms by blast
  then have h: "chandle (abs u) i = Some b" by (simp add: cache_ops)
  have "crefs (abs u) b = 1 \<longrightarrow> cview (abs u) b = cdisk (abs u) b" using u(5) clean by (simp add: cache_ops)
  then obtain t where t: "rel i u = Ok t" "inv t" "frame u t" "abs t = a_release i b (abs u)"
    using rel_law [OF u(2) h] by blast
  have "abs t = abs s" using t(4) u(4,5) assms(2) by (cases "abs s") (simp add: cache_ops fun_upd_idem)
  moreover have "get_data i u = cview (abs s) b" using get_law [OF u(2) h] u(5) by (simp add: cache_ops)
  ultimately show ?thesis using u(1) t(1,2) frame_trans [OF u(3) t(3)] by blast
qed

lemma read_two:
  assumes "inv s" "a \<noteq> b" "\<not> clocked (abs s) a" "\<not> clocked (abs s) b"
    "Suc (crefs (abs s) a) < 2 ^ 32" "Suc (crefs (abs s) b) < 2 ^ 32"
    "has_room cap (abs s) a" "has_room cap (a_read undefined a (abs s)) b"
  shows "\<exists>i j u v. rd a s = Ok (i, u) \<and> rd b u = Ok (j, v) \<and> inv v \<and> frame s v \<and> i \<noteq> j \<and>
    chandle (abs s) i = None \<and> chandle (abs s) j = None \<and> abs v = a_read j b (a_read i a (abs s)) \<and>
    get_data i v = cview (abs s) a \<and> get_data j v = cview (abs s) b"
proof -
  obtain i u where u: "rd a s = Ok (i, u)" "inv u" "frame s u" "chandle (abs s) i = None" "abs u = a_read i a (abs s)"
    using rd_law assms by blast
  have "\<not> clocked (abs u) b" "Suc (crefs (abs u) b) < 2 ^ 32" "has_room cap (abs u) b"
    using assms u(5) by (simp_all add: cache_ops has_room_def)
  then obtain j v where v: "rd b u = Ok (j, v)" "inv v" "frame u v" "chandle (abs u) j = None" "abs v = a_read j b (abs u)"
    using rd_law [OF u(2)] by blast
  have "i \<noteq> j" using v(4) u(5) by (auto simp: cache_ops)
  then have "get_data i v = cview (abs s) a" "get_data j v = cview (abs s) b"
    using get_law [OF v(2)] v(5) u(5) by (simp_all add: cache_ops)
  moreover have "chandle (abs s) j = None" using v(4) u(5) \<open>i \<noteq> j\<close> by (simp add: cache_ops)
  ultimately show ?thesis using u(1,4) v(1,2) v(5) [unfolded u(5)] frame_trans [OF u(3) v(3)] \<open>i \<noteq> j\<close> by blast
qed

end

definition bcache_abs :: "'a bio_state_scheme \<Rightarrow> nat cache" where
  "bcache_abs s = \<lparr>cview = bview s, cdisk = disk s, cwrites = wlog s, crefs = bref s, clocked = blocked s, chandle = bhnd s\<rparr>"

lemma bcache_abs_simps [simp]:
  "cview (bcache_abs s) = bview s" "cdisk (bcache_abs s) = disk s" "cwrites (bcache_abs s) = wlog s"
  "crefs (bcache_abs s) = bref s" "clocked (bcache_abs s) = blocked s" "chandle (bcache_abs s) = bhnd s"
  by (simp_all add: bcache_abs_def)

lemma bview_length: "bc_inv s \<Longrightarrow> length (bview s b) = BSIZE"
proof (cases "bslot s b")
  case (Some i)
  assume inv: "bc_inv s"
  then have "buf_ok s (bbuf i s)" using Some bslot_Some [OF inv] bc_inv_D(2) [OF inv] by blast
  then show ?thesis using Some bc_base_D(3) [OF bc_inv_D(1) [OF inv]] by (simp add: bview_def buf_ok_def)
qed (simp add: bview_def bc_base_D(3) bc_inv_D(1))

interpretation bc: block_cache bc_inv bcache_abs bframe NBUF "bread ROOTDEV" bwrite brelse bpin bunpin set_buf_data "\<lambda>i s. b_data (bbuf i s)"
proof unfold_locales
  show "bframe s t \<Longrightarrow> bframe t u \<Longrightarrow> bframe s u" for s t u :: "'a bio_state_scheme" by (rule bframe_trans)
next
  fix s :: "'a bio_state_scheme" and b
  assume "bc_inv s" "\<not> clocked (bcache_abs s) b" "Suc (crefs (bcache_abs s) b) < 2 ^ 32" "has_room NBUF (bcache_abs s) b"
  then show "\<exists>i t. bread ROOTDEV b s = Ok (i, t) \<and> bc_inv t \<and> bframe s t \<and> chandle (bcache_abs s) i = None \<and> bcache_abs t = a_read i b (bcache_abs s)"
    using bread_law [of s b] by (auto simp: bcache_abs_def cache_ops has_room_def room_def)
next
  fix s :: "'a bio_state_scheme" and i b
  assume i: "bc_inv s" "chandle (bcache_abs s) i = Some b"
  then show "\<exists>t. bwrite i s = Ok t \<and> bc_inv t \<and> bframe s t \<and> bcache_abs t = a_write b (bcache_abs s)"
    using bwrite_law [of s i b] by (auto simp: bcache_abs_def cache_ops)
  show "b_data (bbuf i s) = cview (bcache_abs s) b" using bhnd_buf(6) [of s i b] i by simp
  show "clocked (bcache_abs s) b \<and> 0 < crefs (bcache_abs s) b"
    using bhnd_buf [of s i b] bhnd_SomeD [of s i b] i by (simp add: blocked_def unat_gt_0 word_gt_0)
  show "crefs (bcache_abs s) b = 1 \<longrightarrow> cview (bcache_abs s) b = cdisk (bcache_abs s) b \<Longrightarrow>
      \<exists>t. brelse i s = Ok t \<and> bc_inv t \<and> bframe s t \<and> bcache_abs t = a_release i b (bcache_abs s)"
    using brelse_law [of s i b] i by (auto simp: bcache_abs_def cache_ops)
  show "Suc (crefs (bcache_abs s) b) < 2 ^ 32 \<Longrightarrow> \<exists>t. bpin i s = Ok t \<and> bc_inv t \<and> bframe s t \<and> bcache_abs t = a_refs Suc b (bcache_abs s)"
    using bpin_law [of s i b] i by (auto simp: bcache_abs_def cache_ops)
  show "1 < crefs (bcache_abs s) b \<Longrightarrow> \<exists>t. bunpin i s = Ok t \<and> bc_inv t \<and> bframe s t \<and> bcache_abs t = a_refs (\<lambda>n. n - 1) b (bcache_abs s)"
    using bunpin_law [of s i b] i by (auto simp: bcache_abs_def cache_ops)
  fix d :: "u8 list" assume "length d = BSIZE"
  then show "bc_inv (set_buf_data i d s) \<and> bframe s (set_buf_data i d s) \<and> bcache_abs (set_buf_data i d s) = a_set b d (bcache_abs s)"
    using set_buf_data_law [of s i b d] i by (simp add: bcache_abs_def cache_ops Let_def)
qed (simp_all add: bview_length finite_bref)

section \<open>Initialisation, and the cache as a whole\<close>

lemma binit_fold:
  assumes "n \<le> NBUF" "length (bufs s) = NBUF" "nxt (blinks s) bhead = bhead" "prv (blinks s) bhead = bhead"
  shows "\<exists>L bs. fold binit_one [0..<n] s = s\<lparr>bufs := bs, blinks := L\<rparr> \<and> ring L bhead (rev [0..<n]) \<and> length bs = NBUF \<and>
    (\<forall>i < NBUF. bs ! i = (if i < n then (bbuf i s)\<lparr>b_lock := initsleeplock\<rparr> else bbuf i s))"
  using assms(1)
proof (induction n)
  case 0
  have "ring (blinks s) bhead []" using assms(3,4) by (simp add: ring_def)
  then show ?case using assms by (intro exI [of _ "blinks s"] exI [of _ "bufs s"]) simp
next
  case (Suc n)
  then obtain L bs where IH: "fold binit_one [0..<n] s = s\<lparr>bufs := bs, blinks := L\<rparr>" "ring L bhead (rev [0..<n])" "length bs = NBUF"
    "\<forall>i < NBUF. bs ! i = (if i < n then (bbuf i s)\<lparr>b_lock := initsleeplock\<rparr> else bbuf i s)"
    by auto
  have n: "n < NBUF" using Suc.prems by simp
  have nin: "n \<notin> set (bhead # rev [0..<n])" using n by simp
  have f: "nxt L bhead \<noteq> n"
  proof -
    have "nxt L bhead = hd (rev [0..<n] @ [bhead])" using ring_next [of L bhead "[]" "rev [0..<n]"] IH(2) by simp
    moreover have "hd (rev [0..<n] @ [bhead]) \<in> set (bhead # rev [0..<n])" by (cases "rev [0..<n]") auto
    ultimately show ?thesis using nin by metis
  qed
  have "binit_one n (s\<lparr>bufs := bs, blinks := L\<rparr>) =
      s\<lparr>bufs := bs[n := (bs ! n)\<lparr>b_lock := initsleeplock\<rparr>],
        blinks := set_next bhead n (set_prev (nxt L bhead) n (set_prev n bhead (set_next n (nxt L bhead) L)))\<rparr>"
    using n by (simp add: binit_one_def Let_def set_buf_lock_def upd_buf_def)
  moreover have "ring (set_next bhead n (set_prev (nxt L bhead) n (set_prev n bhead (set_next n (nxt L bhead) L)))) bhead (rev [0..<Suc n])"
    using front_insert_ring [OF IH(2) nin] by simp
  ultimately show ?case using IH(1,3,4) n
    by (intro exI [of _ "set_next bhead n (set_prev (nxt L bhead) n (set_prev n bhead (set_next n (nxt L bhead) L)))"]
        exI [of _ "bs[n := (bbuf n s)\<lparr>b_lock := initsleeplock\<rparr>]"] conjI) (simp_all add: nth_list_update)
qed

text \<open>The buffers as they are when the kernel starts.\<close>

definition fresh_buf :: "buf \<Rightarrow> bool" where
  "fresh_buf b \<longleftrightarrow> \<not> b_valid b \<and> b_dev b \<noteq> ROOTDEV \<and> b_refcnt b = 0 \<and> length (b_data b) = BSIZE"

definition boot_ready :: "'a bio_state_scheme \<Rightarrow> bool" where
  "boot_ready s \<longleftrightarrow> length (bufs s) = NBUF \<and> (\<forall>i < NBUF. fresh_buf (bbuf i s)) \<and> (\<forall>b. length (disk s b) = BSIZE) \<and>
     (\<exists>p < STATIC_PROC_NUM. my_proc s = Some p) \<and> length (procs s) = STATIC_PROC_NUM \<and> BcacheLock \<notin> held s \<and>
     (\<forall>i. BufLk i \<notin> held s \<and> ProcLock i \<notin> held s)"

lemma binit_inv:
  assumes ready: "boot_ready s"
  shows "bc_inv (binit s)" "bframe s (binit s)"
    "bcache_abs (binit s) = \<lparr>cview = disk s, cdisk = disk s, cwrites = wlog s, crefs = (\<lambda>_. 0), clocked = (\<lambda>_. False), chandle = (\<lambda>_. None)\<rparr>"
proof -
  let ?s = "s\<lparr>blinks := set_next bhead bhead (set_prev bhead bhead (blinks s))\<rparr>"
  have len: "length (bufs s) = NBUF" using ready by (simp add: boot_ready_def)
  have "length (bufs ?s) = NBUF" "nxt (blinks ?s) bhead = bhead" "prv (blinks ?s) bhead = bhead" using len by simp_all
  then obtain L bs where e: "binit s = ?s\<lparr>bufs := bs, blinks := L\<rparr>" and r: "ring L bhead (rev [0..<NBUF])" and bl: "length bs = NBUF"
    and nth: "\<forall>i < NBUF. bs ! i = (bbuf i s)\<lparr>b_lock := initsleeplock\<rparr>"
    unfolding binit_def using binit_fold [of NBUF ?s] by auto
  define t where "t = binit s"
  have t: "t = s\<lparr>bufs := bs, blinks := L\<rparr>" unfolding t_def e by simp
  have fr: "fresh_buf (bbuf i t)" "b_lock (bbuf i t) = initsleeplock" if "i < NBUF" for i
    using ready nth that t by (simp_all add: boot_ready_def fresh_buf_def)
  have ring: "\<exists>xs. ring (blinks t) bhead xs \<and> (\<forall>i. i \<in> set xs \<longleftrightarrow> i < NBUF)"
    using r t by (intro exI [of _ "rev [0..<NBUF]"]) simp
  have base: "bc_base t" using ready ring bl t by (simp add: bc_base_def boot_ready_def my_proc_def)
  have "buf_ok t (bbuf i t)" if "i < NBUF" for i
    using fr [OF that] by (simp add: buf_ok_def fresh_buf_def initsleeplock_def)
  moreover have "buf_unique (bufs t)" using fr unfolding buf_unique_def fresh_buf_def by blast
  ultimately have inv: "bc_inv t" using base by (simp add: bc_inv_def)
  then show "bc_inv (binit s)" by (simp add: t_def)
  show "bframe s (binit s)" unfolding t_def [symmetric] t
    by (rule bframeI [where ps = "procs s" and d = "disk s" and w = "wlog s"]) simp_all
  have none: "bslot t b = None" for b using fr unfolding bslot_None fresh_buf_def by blast
  have "bhnd t i = None" for i using fr(2) [of i] by (cases "i < NBUF") (simp_all add: bhnd_def initsleeplock_def)
  then have "bcache_abs t = \<lparr>cview = disk t, cdisk = disk t, cwrites = wlog t, crefs = (\<lambda>_. 0), clocked = (\<lambda>_. False), chandle = (\<lambda>_. None)\<rparr>"
    using none by (simp add: bcache_abs_def bview_def [abs_def] bref_def [abs_def] blocked_def [abs_def] fun_eq_iff)
  then show "bcache_abs (binit s) = \<lparr>cview = disk s, cdisk = disk s, cwrites = wlog s, crefs = (\<lambda>_. 0), clocked = (\<lambda>_. False), chandle = (\<lambda>_. None)\<rparr>"
    by (simp add: t_def [symmetric]) (simp add: t)
qed

lemma bget_full:
  assumes inv: "bc_inv s" and r: "\<not> room s b" and none: "bslot s b = None"
  shows "bread ROOTDEV b s = Panic ''bget: no buffers''"
proof -
  note D = bc_base_D [OF bc_inv_D(1) [OF inv]]
  obtain xs where xs: "\<forall>i. i \<in> set xs \<longleftrightarrow> i < NBUF" "list_walk (Suc NBUF) (nxt (blinks s) bhead) bhead (blinks s) = Ok xs"
    "list_walk (Suc NBUF) (prv (blinks s) bhead) bhead (flip_links (blinks s)) = Ok (rev xs)"
    by (rule list_walk_bufs [OF bc_inv_D(1) [OF inv]])
  have f1: "List.find (\<lambda>i. b_dev (bbuf i s) = ROOTDEV \<and> b_blockno (bbuf i s) = b) xs = None"
    using none xs(1) unfolding find_None_iff bslot_None by blast
  have "\<not> (\<exists>i. i < NBUF \<and> b_refcnt (bbuf i s) = 0)"
  proof
    assume "\<exists>i. i < NBUF \<and> b_refcnt (bbuf i s) = 0"
    then have "{i. i < NBUF \<and> b_refcnt (bbuf i s) \<noteq> 0} \<subset> {i. i < NBUF}" by blast
    from psubset_card_mono [OF _ this] have "card {i. i < NBUF \<and> b_refcnt (bbuf i s) \<noteq> 0} < NBUF" by simp
    moreover have "card {c. 0 < bref s c} \<le> card {i. i < NBUF \<and> b_refcnt (bbuf i s) \<noteq> 0}"
      unfolding bref_pos [OF inv] by (rule card_image_le) simp
    ultimately show False using r by (simp add: room_def)
  qed
  then have f2: "List.find (\<lambda>i. b_refcnt (bbuf i s) = 0) (rev xs) = None"
    using xs(1) unfolding find_None_iff set_rev by blast
  show ?thesis using xs(2,3) f1 f2 D(5) by (simp add: bread_def bget_def lock_simps del: list_walk.simps)
qed

lemma cache_call_laws:
  assumes inv: "bc_inv s"
  shows "\<not> blocked s b \<and> Suc (bref s b) < 2 ^ 32 \<and> room s b \<longrightarrow>
      (\<exists>i t. bread ROOTDEV b s = Ok (i, t) \<and> bc_inv t \<and> bcache_abs t = a_read i b (bcache_abs s) \<and> b_data (bbuf i t) = bview s b)"
    and "\<not> room s b \<and> bslot s b = None \<longrightarrow> bread ROOTDEV b s = Panic ''bget: no buffers''"
    and "bhnd s i = Some b \<longrightarrow> kok (\<lambda>t. bc_inv t \<and> bcache_abs t = a_write b (bcache_abs s)) (bwrite i s)"
    and "bhnd s i = Some b \<and> (bref s b = 1 \<longrightarrow> bview s b = disk s b) \<longrightarrow>
      kok (\<lambda>t. bc_inv t \<and> bcache_abs t = a_release i b (bcache_abs s)) (brelse i s)"
    and "bhnd s i = None \<and> i < NBUF \<longrightarrow> bwrite i s = Panic ''bwrite'' \<and> brelse i s = Panic ''brelse''"
proof -
  show "\<not> blocked s b \<and> Suc (bref s b) < 2 ^ 32 \<and> room s b \<longrightarrow>
      (\<exists>i t. bread ROOTDEV b s = Ok (i, t) \<and> bc_inv t \<and> bcache_abs t = a_read i b (bcache_abs s) \<and> b_data (bbuf i t) = bview s b)"
  proof
    assume "\<not> blocked s b \<and> Suc (bref s b) < 2 ^ 32 \<and> room s b"
    then obtain i t where t: "bread ROOTDEV b s = Ok (i, t)" "bc_inv t" "bcache_abs t = a_read i b (bcache_abs s)"
      using bc.rd_law [OF inv, of b] by (auto simp: has_room_def room_def)
    then have "chandle (bcache_abs t) i = Some b" "cview (bcache_abs t) = bview s" unfolding t(3) by (simp_all add: a_read_def)
    then have "b_data (bbuf i t) = bview s b" using bc.get_law [OF t(2)] by simp
    then show "\<exists>i t. bread ROOTDEV b s = Ok (i, t) \<and> bc_inv t \<and> bcache_abs t = a_read i b (bcache_abs s) \<and> b_data (bbuf i t) = bview s b"
      using t by blast
  qed
  show "\<not> room s b \<and> bslot s b = None \<longrightarrow> bread ROOTDEV b s = Panic ''bget: no buffers''"
    using bget_full [OF inv] by blast
  show "bhnd s i = Some b \<longrightarrow> kok (\<lambda>t. bc_inv t \<and> bcache_abs t = a_write b (bcache_abs s)) (bwrite i s)"
    using bc.wr_law [OF inv, of i b] by (auto simp: kok_def)
  show "bhnd s i = Some b \<and> (bref s b = 1 \<longrightarrow> bview s b = disk s b) \<longrightarrow>
      kok (\<lambda>t. bc_inv t \<and> bcache_abs t = a_release i b (bcache_abs s)) (brelse i s)"
    using bc.rel_law [OF inv, of i b] by (auto simp: kok_def)
  obtain p where "my_proc s = Some p" using bc_base_D(2) [OF bc_inv_D(1) [OF inv]] by blast
  then show "bhnd s i = None \<and> i < NBUF \<longrightarrow> bwrite i s = Panic ''bwrite'' \<and> brelse i s = Panic ''brelse''"
    using holdingsleep_buf [OF bc_base_D(6) [OF bc_inv_D(1) [OF inv]]]
    by (auto simp: bhnd_def bwrite_def brelse_def split: if_splits)
qed

text \<open>
  C19: the buffer cache is a cache of the disk. From a state that satisfies the invariant (which
  \<open>binit\<close> establishes), whatever is cached or recycled: \<open>bread\<close> of a block nobody has locked
  returns a locked buffer whose data is the last data given to the block, and changes nothing else
  a caller can see; it panics only when every buffer is in use for another block; \<open>bwrite\<close> puts
  the data on the disk; \<open>brelse\<close> gives the buffer up, and dropping the last reference to a block
  never loses data that is on the disk; the last two panic exactly when the caller does not hold
  the buffer.
\<close>

theorem buffer_cache_refines:
  assumes inv: "bc_inv s"
  shows "(\<not> blocked s b \<and> Suc (bref s b) < 2 ^ 32 \<and> room s b \<longrightarrow>
      (\<exists>i t. bread ROOTDEV b s = Ok (i, t) \<and> bc_inv t \<and> bcache_abs t = a_read i b (bcache_abs s) \<and> b_data (bbuf i t) = bview s b)) \<and>
    (\<not> room s b \<and> bslot s b = None \<longrightarrow> bread ROOTDEV b s = Panic ''bget: no buffers'') \<and>
    (bhnd s i = Some b \<longrightarrow> kok (\<lambda>t. bc_inv t \<and> bcache_abs t = a_write b (bcache_abs s)) (bwrite i s)) \<and>
    (bhnd s i = Some b \<and> (bref s b = 1 \<longrightarrow> bview s b = disk s b) \<longrightarrow>
      kok (\<lambda>t. bc_inv t \<and> bcache_abs t = a_release i b (bcache_abs s)) (brelse i s)) \<and>
    (bhnd s i = None \<and> i < NBUF \<longrightarrow> bwrite i s = Panic ''bwrite'' \<and> brelse i s = Panic ''brelse'')"
  by (intro conjI cache_call_laws [OF inv])

definition zero_buf :: buf where
  "zero_buf = \<lparr>b_valid = False, b_dev = 0, b_blockno = 0, b_lock = initsleeplock, b_refcnt = 0, b_data = replicate BSIZE 0\<rparr>"

definition bio_example :: bio_state where
  "bio_example = pgroup_state.extend pg_example (bio_state.fields (\<lambda>b. replicate BSIZE (ucast b)) [] (replicate NBUF zero_buf) \<lparr>nxt = id, prv = id\<rparr>)"

lemma bio_example_ready: "boot_ready bio_example"
  by (simp add: boot_ready_def bio_example_def pgroup_state.defs bio_state.defs fresh_buf_def zero_buf_def pg_example_ctx my_proc_def)
    (simp add: pg_example_def MAX_CPU_NUM_def)

theorem buffer_cache_refines_witness:
  "bc_inv (binit bio_example) \<and> (\<exists>i t. bread ROOTDEV 7 (binit bio_example) = Ok (i, t) \<and> b_data (bbuf i t) = replicate BSIZE 7)"
proof -
  note I = binit_inv [OF bio_example_ready]
  have "cview (bcache_abs (binit bio_example)) 7 = replicate BSIZE 7" "bref (binit bio_example) = (\<lambda>_. 0)" "blocked (binit bio_example) = (\<lambda>_. False)"
    using I(3) by (simp_all add: bcache_abs_def bio_example_def bio_state.defs pgroup_state.defs)
  then have v: "bview (binit bio_example) 7 = replicate BSIZE 7" "\<not> blocked (binit bio_example) 7"
    "Suc (bref (binit bio_example) 7) < 2 ^ 32" "room (binit bio_example) 7"
    by (simp_all add: room_def NBUF_def)
  then show ?thesis using buffer_cache_refines [OF I(1), of 7] I(1) by metis
qed

end
