(* ===== verification/Log.thy ===== *)
theory Log
  imports Bio
begin

text \<open>
  The log: kernel/fs/log.c.

  \<open>log_start\<close>, \<open>log_size\<close>, \<open>log_outstanding\<close>, \<open>log_committing\<close>, \<open>log_dev\<close> and the in-memory header
  \<open>lh_n\<close>, \<open>lh_block\<close> are the fields of \<open>struct log\<close>. They are C \<open>int\<close>s; a block number handed to
  \<open>bread\<close> is converted to \<open>uint\<close>. The header on disk is \<open>struct logheader\<close> at the start of block
  \<open>log_start\<close>: \<open>n\<close> in the first four bytes, \<open>block[i]\<close> at byte \<open>4 + 4 i\<close>.
\<close>

section \<open>State and operations\<close>

abbreviation (input) MAXOPBLOCKS :: int where "MAXOPBLOCKS \<equiv> 10"
abbreviation (input) LOGSIZE :: nat where "LOGSIZE \<equiv> 30"

record log_state = bio_state +
  log_start :: int
  log_size :: int
  log_outstanding :: int
  log_committing :: bool
  log_dev :: u32
  lh_n :: int
  lh_block :: "int list"

definition head_block :: "u8 list \<Rightarrow> nat \<Rightarrow> int" where
  "head_block d i = sint (get32 d (4 + 4 * i))"

definition install_one :: "nat \<Rightarrow> 'a log_state_scheme \<Rightarrow> 'a log_state_scheme kres" where
  "install_one tail s =
     kbind (bread (log_dev s) (word_of_int (log_start s + int tail + 1)) s) (\<lambda>(lbuf, s).
     kbind (bread (log_dev s) (word_of_int (lh_block s ! tail)) s) (\<lambda>(dbuf, s).
     let s = set_buf_data dbuf (b_data (bbuf lbuf s)) s in
     kbind (bwrite dbuf s) (\<lambda>s.
     kbind (bunpin dbuf s) (\<lambda>s.
     kbind (brelse lbuf s) (\<lambda>s.
     brelse dbuf s)))))"

definition install_trans :: "'a log_state_scheme \<Rightarrow> 'a log_state_scheme kres" where
  "install_trans s = kfold install_one [0..<nat (lh_n s)] s"

definition read_head :: "'a log_state_scheme \<Rightarrow> 'a log_state_scheme kres" where
  "read_head s =
     kbind (bread (log_dev s) (word_of_int (log_start s)) s) (\<lambda>(buf, s).
     let d = b_data (bbuf buf s);
         s = s\<lparr>lh_n := sint (get32 d 0)\<rparr>;
         s = s\<lparr>lh_block := fold (\<lambda>i bs. bs[i := head_block d i]) [0..<nat (lh_n s)] (lh_block s)\<rparr>
     in brelse buf s)"

definition encode_head :: "int \<Rightarrow> int list \<Rightarrow> u8 list \<Rightarrow> u8 list" where
  "encode_head n bs d = fold (\<lambda>i. put32 (4 + 4 * i) (word_of_int (bs ! i))) [0..<nat n] (put32 0 (word_of_int n) d)"

definition write_head :: "'a log_state_scheme \<Rightarrow> 'a log_state_scheme kres" where
  "write_head s =
     kbind (bread (log_dev s) (word_of_int (log_start s)) s) (\<lambda>(buf, s).
     let s = set_buf_data buf (encode_head (lh_n s) (lh_block s) (b_data (bbuf buf s))) s in
     kbind (bwrite buf s) (brelse buf))"

definition recover_from_log :: "'a log_state_scheme \<Rightarrow> 'a log_state_scheme kres" where
  "recover_from_log s =
     kbind (read_head s) (\<lambda>s.
     kbind (install_trans s) (\<lambda>s.
     write_head (s\<lparr>lh_n := 0\<rparr>)))"

text \<open>\<open>initlog\<close>; \<open>logstart\<close> and \<open>nlog\<close> come from the superblock. The size check is on constants.\<close>

definition initlog :: "u32 \<Rightarrow> u32 \<Rightarrow> u32 \<Rightarrow> 'a log_state_scheme \<Rightarrow> 'a log_state_scheme kres" where
  "initlog dev logstart nlog s =
     (if 4 + 4 * LOGSIZE \<ge> BSIZE then Panic ''initlog: too big logheader''
      else recover_from_log (s\<lparr>log_start := sint logstart, log_size := sint nlog, log_dev := dev\<rparr>))"

definition begin_op :: "'a log_state_scheme \<Rightarrow> 'a log_state_scheme kres" where
  "begin_op s =
     kbind (acquire LogLock s) (\<lambda>s.
     if log_committing s then sleep_block LogLock LogChan s
     else if lh_n s + (log_outstanding s + 1) * MAXOPBLOCKS > int LOGSIZE then sleep_block LogLock LogChan s
     else release LogLock (s\<lparr>log_outstanding := log_outstanding s + 1\<rparr>))"

definition write_log_one :: "nat \<Rightarrow> 'a log_state_scheme \<Rightarrow> 'a log_state_scheme kres" where
  "write_log_one tail s =
     kbind (bread (log_dev s) (word_of_int (log_start s + int tail + 1)) s) (\<lambda>(to, s).
     kbind (bread (log_dev s) (word_of_int (lh_block s ! tail)) s) (\<lambda>(from, s).
     let s = set_buf_data to (b_data (bbuf from s)) s in
     kbind (bwrite to s) (\<lambda>s.
     kbind (brelse from s) (\<lambda>s.
     brelse to s))))"

definition write_log :: "'a log_state_scheme \<Rightarrow> 'a log_state_scheme kres" where
  "write_log s = kfold write_log_one [0..<nat (lh_n s)] s"

definition commit :: "'a log_state_scheme \<Rightarrow> 'a log_state_scheme kres" where
  "commit s =
     (if lh_n s > 0 then
        kbind (write_log s) (\<lambda>s.
        kbind (write_head s) (\<lambda>s.
        kbind (install_trans s) (\<lambda>s.
        write_head (s\<lparr>lh_n := 0\<rparr>))))
      else Ok s)"

definition end_op :: "'a log_state_scheme \<Rightarrow> 'a log_state_scheme kres" where
  "end_op s =
     kbind (acquire LogLock s) (\<lambda>s.
     let s = s\<lparr>log_outstanding := log_outstanding s - 1\<rparr> in
     if log_committing s then Panic ''log.committing''
     else if log_outstanding s = 0 then
       kbind (release LogLock (s\<lparr>log_committing := True\<rparr>)) (\<lambda>s.
       kbind (commit s) (\<lambda>s.
       kbind (acquire LogLock s) (\<lambda>s.
       kbind (wake_up LogChan (s\<lparr>log_committing := False\<rparr>)) (release LogLock))))
     else kbind (wake_up LogChan s) (release LogLock))"

definition log_write :: "nat \<Rightarrow> 'a log_state_scheme \<Rightarrow> 'a log_state_scheme kres" where
  "log_write b s =
     (if lh_n s \<ge> int LOGSIZE \<or> lh_n s \<ge> log_size s - 1 then Panic ''too big a transaction''
      else if log_outstanding s < 1 then Panic ''log_write outside of trans''
      else
        kbind (acquire LogLock s) (\<lambda>s.
        let blockno = b_blockno (bbuf b s);
            i = (case find_index (\<lambda>x. word_of_int x = blockno) (take (nat (lh_n s)) (lh_block s)) of Some i \<Rightarrow> i | None \<Rightarrow> nat (lh_n s));
            s = s\<lparr>lh_block := (lh_block s)[i := sint blockno]\<rparr>
        in kbind (if int i = lh_n s then kbind (bpin b s) (\<lambda>s. Ok (s\<lparr>lh_n := lh_n s + 1\<rparr>)) else Ok s) (release LogLock)))"

section \<open>The header on disk\<close>

definition is_int32 :: "int \<Rightarrow> bool" where
  "is_int32 x \<longleftrightarrow> - (2 ^ 31) \<le> x \<and> x < 2 ^ 31"

lemma sint_word_of_int32: "is_int32 x \<Longrightarrow> sint (word_of_int x :: u32) = x"
  by (simp add: is_int32_def sint_word_ariths(1) sint_sbintrunc' signed_take_bit_int_eq_self_iff)

lemma encode_fold:
  assumes "length d = BSIZE" "m \<le> 255"
  shows "length (fold (\<lambda>i. put32 (4 + 4 * i) (w i)) [0..<m] d) = BSIZE \<and>
    get32 (fold (\<lambda>i. put32 (4 + 4 * i) (w i)) [0..<m] d) 0 = (get32 d 0 :: u32) \<and>
    (\<forall>i < m. get32 (fold (\<lambda>i. put32 (4 + 4 * i) (w i)) [0..<m] d) (4 + 4 * i) = w i)"
  using assms(2)
proof (induction m)
  case (Suc m)
  then show ?case by (auto simp: get_put_le get_put_le_other less_Suc_eq)
qed (use assms in simp)

lemma encode_head:
  assumes "length d = BSIZE" "n \<le> int LOGSIZE" "0 \<le> n"
  shows "length (encode_head n bs d) = BSIZE" "sint (get32 (encode_head n bs d) 0) = n"
    "\<And>i. i < nat n \<Longrightarrow> is_int32 (bs ! i) \<Longrightarrow> head_block (encode_head n bs d) i = bs ! i"
proof -
  have "length (put32 0 (word_of_int n) d) = BSIZE" using assms(1) by simp
  note e = encode_fold [OF this, of "nat n" "\<lambda>i. word_of_int (bs ! i)"]
  have n: "nat n \<le> 255" using assms(2) by simp
  show "length (encode_head n bs d) = BSIZE" using e n by (simp add: encode_head_def)
  have "is_int32 n" using assms(2,3) by (simp add: is_int32_def)
  then show "sint (get32 (encode_head n bs d) 0) = n"
    using e n assms(1) by (simp add: encode_head_def get_put_le sint_word_of_int32)
  show "\<And>i. i < nat n \<Longrightarrow> is_int32 (bs ! i) \<Longrightarrow> head_block (encode_head n bs d) i = bs ! i"
    using e n by (simp add: encode_head_def head_block_def sint_word_of_int32)
qed

text \<open>What recovery makes of a disk: the blocks named by the header get the contents of the log.\<close>

definition disk_n :: "u32 \<Rightarrow> (u32 \<Rightarrow> u8 list) \<Rightarrow> nat" where
  "disk_n st d = nat (sint (get32 (d st) 0))"

definition recovered :: "u32 \<Rightarrow> (u32 \<Rightarrow> u8 list) \<Rightarrow> u32 \<Rightarrow> u8 list" where
  "recovered st d = fold (\<lambda>i e. e(word_of_int (head_block (d st) i) := d (st + word_of_nat i + 1))) [0..<disk_n st d] d"

lemma fold_upd_notin:
  "(\<And>i. i < n \<Longrightarrow> f i \<noteq> b) \<Longrightarrow> fold (\<lambda>i e. e(f i := g i)) [0..<n] d b = d b"
  by (induction n) auto

lemma fold_upd_in:
  assumes "inj_on f {i. i < n}" "i < n"
  shows "fold (\<lambda>i e. e(f i := g i)) [0..<n] d (f i) = g i"
  using assms
proof (induction n)
  case (Suc n)
  show ?case
  proof (cases "i = n")
    case False
    then have "i < n" using Suc.prems by simp
    moreover have "inj_on f {i. i < n}" using Suc.prems(1) by (rule inj_on_subset) auto
    moreover have "f i \<noteq> f n" using Suc.prems False by (auto dest: inj_onD)
    ultimately show ?thesis using Suc.IH by simp
  qed simp
qed simp

section \<open>Copying a block through the cache\<close>

context block_cache
begin

text \<open>The calls of one round of \<open>write_log\<close>: block \<open>b\<close>, which is pinned, is copied to block \<open>a\<close>.\<close>

lemma copy_to_log:
  assumes inv: "inv s" and ab: "a \<noteq> b" and free: "\<not> clocked (abs s) a" "\<not> clocked (abs s) b"
    and few: "Suc (crefs (abs s) a) < 2 ^ 32" "Suc (crefs (abs s) b) < 2 ^ 32"
    and pinned: "0 < crefs (abs s) b" and cap: "card {x. 0 < crefs (abs s) x} < cap"
  shows "\<exists>x y u v w1 w2 t. rd a s = Ok (x, u) \<and> frame s u \<and> rd b u = Ok (y, v) \<and> frame s v \<and>
    wr x (set_data x (get_data y v) v) = Ok w1 \<and> rel y w1 = Ok w2 \<and> rel x w2 = Ok t \<and> inv t \<and> frame s t \<and>
    abs t = store a (cview (abs s) b) (abs s)"
proof -
  obtain x u where u: "rd a s = Ok (x, u)" "inv u" "frame s u" "chandle (abs s) x = None" "abs u = a_read x a (abs s)"
    using rd_law [OF inv free(1) few(1)] cap by (auto simp: has_room_def)
  have "\<not> clocked (abs u) b" "Suc (crefs (abs u) b) < 2 ^ 32" "has_room cap (abs u) b"
    using ab free(2) few(2) pinned u(5) by (simp_all add: cache_ops has_room_def)
  then obtain y v where v: "rd b u = Ok (y, v)" "inv v" "frame u v" "chandle (abs u) y = None" "abs v = a_read y b (abs u)"
    using rd_law [OF u(2)] by blast
  have xy: "x \<noteq> y" "chandle (abs s) y = None" using v(4) u(5) by (auto simp: cache_ops split: if_splits)
  have h: "chandle (abs v) x = Some a" "chandle (abs v) y = Some b" using u(5) v(5) xy by (simp_all add: cache_ops)
  have g: "get_data y v = cview (abs s) b" using get_law [OF v(2) h(2)] u(5) v(5) by (simp add: cache_ops)
  let ?d = "cview (abs s) b" and ?v = "set_data x (get_data y v) v"
  have s: "inv ?v" "frame v ?v" "abs ?v = a_set a ?d (abs v)"
    using set_law [OF v(2) h(1), of ?d] length_law [OF inv] g by simp_all
  obtain w1 where w1: "wr x ?v = Ok w1" "inv w1" "frame ?v w1" "abs w1 = a_write a (abs ?v)"
    using wr_law [OF s(1), of x a] s(3) h(1) by (auto simp: cache_ops)
  obtain w2 where w2: "rel y w1 = Ok w2" "inv w2" "frame w1 w2" "abs w2 = a_release y b (abs w1)"
    using rel_law [OF w1(2), of y b] w1(4) s(3) v(5) u(5) xy ab pinned by (auto simp: cache_ops)
  obtain t where t: "rel x w2 = Ok t" "inv t" "frame w2 t" "abs t = a_release x a (abs w2)"
    using rel_law [OF w2(2), of x a] w2(4) w1(4) s(3) v(5) u(5) xy ab by (auto simp: cache_ops)
  have "abs t = store a ?d (abs s)"
    using t(4) w2(4) w1(4) s(3) v(5) u(4,5) xy ab free by (cases "abs s") (simp add: cache_ops store_def fun_upd_idem fun_upd_twist)
  moreover have "frame s t" by (meson u(3) v(3) s(2) w1(3) w2(3) t(3) frame_trans)
  ultimately show ?thesis using u(1,3) v(1) w1(1) w2(1) t(1,2) frame_trans [OF u(3) v(3)] by blast
qed

text \<open>One round of \<open>install_trans\<close> in a commit: block \<open>a\<close> of the log is copied to block \<open>b\<close>, which loses its pin.\<close>

lemma copy_from_log:
  assumes inv: "inv s" and ab: "a \<noteq> b" and free: "\<not> clocked (abs s) a" "\<not> clocked (abs s) b"
    and few: "Suc (crefs (abs s) a) < 2 ^ 32" "Suc (crefs (abs s) b) < 2 ^ 32"
    and pinned: "0 < crefs (abs s) b" and cap: "card {x. 0 < crefs (abs s) x} < cap"
    and clean: "cview (abs s) a = cdisk (abs s) a"
  shows "\<exists>x y u v w1 w2 w3 t. rd a s = Ok (x, u) \<and> frame s u \<and> rd b u = Ok (y, v) \<and> frame s v \<and>
    wr y (set_data y (get_data x v) v) = Ok w1 \<and> unpin y w1 = Ok w2 \<and> rel x w2 = Ok w3 \<and> rel y w3 = Ok t \<and> inv t \<and> frame s t \<and>
    abs t = a_refs (\<lambda>n. n - 1) b (store b (cview (abs s) a) (abs s))"
proof -
  obtain x u where u: "rd a s = Ok (x, u)" "inv u" "frame s u" "chandle (abs s) x = None" "abs u = a_read x a (abs s)"
    using rd_law [OF inv free(1) few(1)] cap by (auto simp: has_room_def)
  have "\<not> clocked (abs u) b" "Suc (crefs (abs u) b) < 2 ^ 32" "has_room cap (abs u) b"
    using ab free(2) few(2) pinned u(5) by (simp_all add: cache_ops has_room_def)
  then obtain y v where v: "rd b u = Ok (y, v)" "inv v" "frame u v" "chandle (abs u) y = None" "abs v = a_read y b (abs u)"
    using rd_law [OF u(2)] by blast
  have xy: "x \<noteq> y" "chandle (abs s) y = None" using v(4) u(5) by (auto simp: cache_ops split: if_splits)
  have h: "chandle (abs v) x = Some a" "chandle (abs v) y = Some b" using u(5) v(5) xy by (simp_all add: cache_ops)
  have g: "get_data x v = cview (abs s) a" using get_law [OF v(2) h(1)] u(5) v(5) by (simp add: cache_ops)
  let ?d = "cview (abs s) a" and ?v = "set_data y (get_data x v) v"
  have s: "inv ?v" "frame v ?v" "abs ?v = a_set b ?d (abs v)"
    using set_law [OF v(2) h(2), of ?d] length_law [OF inv] g by simp_all
  obtain w1 where w1: "wr y ?v = Ok w1" "inv w1" "frame ?v w1" "abs w1 = a_write b (abs ?v)"
    using wr_law [OF s(1), of y b] s(3) h(2) by (auto simp: cache_ops)
  obtain w2 where w2: "unpin y w1 = Ok w2" "inv w2" "frame w1 w2" "abs w2 = a_refs (\<lambda>n. n - 1) b (abs w1)"
    using unpin_law [OF w1(2), of y b] w1(4) s(3) v(5) u(5) xy ab pinned by (auto simp: cache_ops)
  obtain w3 where w3: "rel x w2 = Ok w3" "inv w3" "frame w2 w3" "abs w3 = a_release x a (abs w2)"
    using rel_law [OF w2(2), of x a] w2(4) w1(4) s(3) v(5) u(5) xy ab clean by (auto simp: cache_ops)
  obtain t where t: "rel y w3 = Ok t" "inv t" "frame w3 t" "abs t = a_release y b (abs w3)"
    using rel_law [OF w3(2), of y b] w3(4) w2(4) w1(4) s(3) v(5) u(5) xy ab by (auto simp: cache_ops)
  have "abs t = a_refs (\<lambda>n. n - 1) b (store b ?d (abs s))"
    using t(4) w3(4) w2(4) w1(4) s(3) v(5) u(4,5) xy ab free by (cases "abs s") (simp add: cache_ops store_def fun_upd_idem fun_upd_twist)
  moreover have "frame s t" by (meson u(3) v(3) s(2) w1(3) w2(3) w3(3) t(3) frame_trans)
  ultimately show ?thesis using u(1,3) v(1) w1(1) w2(1) w3(1) t(1,2) frame_trans [OF u(3) v(3)] by blast
qed

text \<open>Reading a block, changing it and writing it through, as \<open>write_head\<close> does.\<close>

lemma update_block:
  assumes inv: "inv s" and free: "\<not> clocked (abs s) a" and few: "Suc (crefs (abs s) a) < 2 ^ 32" and cap: "has_room cap (abs s) a"
    and len: "length (f (cview (abs s) a)) = BSIZE"
  shows "\<exists>x u w t. rd a s = Ok (x, u) \<and> frame s u \<and> wr x (set_data x (f (get_data x u)) u) = Ok w \<and> rel x w = Ok t \<and> inv t \<and> frame s t \<and>
    abs t = store a (f (cview (abs s) a)) (abs s)"
proof -
  obtain x u where u: "rd a s = Ok (x, u)" "inv u" "frame s u" "chandle (abs s) x = None" "abs u = a_read x a (abs s)"
    using rd_law [OF inv free few cap] by blast
  have h: "chandle (abs u) x = Some a" using u(5) by (simp add: cache_ops)
  have g: "get_data x u = cview (abs s) a" using get_law [OF u(2) h] u(5) by (simp add: cache_ops)
  let ?d = "f (cview (abs s) a)" and ?v = "set_data x (f (get_data x u)) u"
  have s: "inv ?v" "frame u ?v" "abs ?v = a_set a ?d (abs u)" using set_law [OF u(2) h, of ?d] len g by simp_all
  obtain w where w: "wr x ?v = Ok w" "inv w" "frame ?v w" "abs w = a_write a (abs ?v)"
    using wr_law [OF s(1), of x a] s(3) h by (auto simp: cache_ops)
  obtain t where t: "rel x w = Ok t" "inv t" "frame w t" "abs t = a_release x a (abs w)"
    using rel_law [OF w(2), of x a] w(4) s(3) u(5) by (auto simp: cache_ops)
  have "abs t = store a ?d (abs s)"
    using t(4) w(4) s(3) u(4,5) free by (cases "abs s") (simp add: cache_ops store_def fun_upd_idem)
  moreover have "frame s t" by (meson u(3) s(2) w(3) t(3) frame_trans)
  ultimately show ?thesis using u(1,3) w(1) t(1,2) by blast
qed

end

section \<open>What the loops of the log do\<close>

definition after :: "(u32 \<times> u8 list) list \<Rightarrow> (u32 \<Rightarrow> u8 list) \<Rightarrow> u32 \<Rightarrow> u8 list" where
  "after ws d = fold (\<lambda>(b, x) e. e(b := x)) ws d"

lemma after_simps [simp]: "after [] d = d" "after (ws @ [(b, x)]) d = (after ws d)(b := x)" "after ((b, x) # ws) d = after ws (d(b := x))"
  by (simp_all add: after_def)

lemma after_append: "after (ws @ vs) d = after vs (after ws d)"
  by (simp add: after_def)

lemma after_notin: "b \<notin> fst ` set ws \<Longrightarrow> after ws d b = d b"
  by (induction ws arbitrary: d) (auto simp: after_def)

lemma after_in: "distinct (map fst ws) \<Longrightarrow> (b, x) \<in> set ws \<Longrightarrow> after ws d b = x"
proof (induction ws arbitrary: d)
  case (Cons w ws)
  obtain c y where w: "w = (c, y)" by (cases w)
  show ?case
  proof (cases "(b, x) \<in> set ws")
    case True
    then show ?thesis using Cons w by simp
  next
    case False
    then have "c = b" "y = x" "b \<notin> fst ` set ws" using Cons.prems w by auto
    then show ?thesis using w after_notin [of b ws] by simp
  qed
qed simp

definition lstart :: "'a log_state_scheme \<Rightarrow> u32" where
  "lstart s = word_of_int (log_start s)"

definition lblock :: "u32 \<Rightarrow> nat \<Rightarrow> u32" where
  "lblock st i = st + word_of_nat i + 1"

definition home :: "'a log_state_scheme \<Rightarrow> nat \<Rightarrow> u32" where
  "home s i = word_of_int (lh_block s ! i)"

definition log_area :: "u32 \<Rightarrow> u32 set" where
  "log_area st = insert st (lblock st ` {i. i < LOGSIZE})"

lemma lblock_word: "word_of_int (log_start s + int i + 1) = lblock (lstart s) i"
  by (simp add: lblock_def lstart_def)

lemma lblock_inj: "i < LOGSIZE \<Longrightarrow> j < LOGSIZE \<Longrightarrow> lblock st i = lblock st j \<longleftrightarrow> i = j"
proof -
  assume ij: "i < LOGSIZE" "j < LOGSIZE"
  have "word_of_nat i = (word_of_nat j :: u32) \<longleftrightarrow> i = j"
  proof
    assume "word_of_nat i = (word_of_nat j :: u32)"
    then have "unat (word_of_nat i :: u32) = unat (word_of_nat j :: u32)" by simp
    then show "i = j" using ij by simp
  qed simp
  then show ?thesis by (simp add: lblock_def)
qed

lemma lblock_not_start: "i < LOGSIZE \<Longrightarrow> lblock st i \<noteq> st"
proof
  assume i: "i < LOGSIZE" and e: "lblock st i = st"
  have "word_of_nat (i + 1) = (0 :: u32)" using e by (simp add: lblock_def) (metis add.assoc add_cancel_right_right add.commute)
  then have "unat (word_of_nat (i + 1) :: u32) = 0" by simp
  moreover have "unat (word_of_nat (i + 1) :: u32) = i + 1" using i by (intro unat_word_of_nat) simp
  ultimately show False by simp
qed

lemma lblock_in_area: "i < LOGSIZE \<Longrightarrow> lblock st i \<in> log_area st"
  by (simp add: log_area_def)

lemma bframe_log:
  assumes "bframe s t"
  shows "log_start t = log_start s" "log_dev t = log_dev s" "lh_n t = lh_n s" "lh_block t = lh_block s" "lstart t = lstart s" "home t = home s"
    "log_size t = log_size s" "log_outstanding t = log_outstanding s" "log_committing t = log_committing s"
  using assms by (auto simp: bframe_def lstart_def home_def fun_eq_iff)

text \<open>The writes of a commit, in order.\<close>

definition log_writes :: "'a log_state_scheme \<Rightarrow> nat \<Rightarrow> (u32 \<times> u8 list) list" where
  "log_writes s m = map (\<lambda>i. (lblock (lstart s) i, bview s (home s i))) [0..<m]"

definition home_writes :: "'a log_state_scheme \<Rightarrow> nat \<Rightarrow> (u32 \<times> u8 list) list" where
  "home_writes s m = map (\<lambda>i. (home s i, bview s (home s i))) [0..<m]"

definition quiet :: "'a log_state_scheme \<Rightarrow> bool" where
  "quiet s \<longleftrightarrow> bc_inv s \<and> log_dev s = ROOTDEV \<and> (\<forall>b. \<not> blocked s b) \<and> (\<forall>b. Suc (bref s b) < 2 ^ 32) \<and> card {b. 0 < bref s b} < NBUF"

definition logged :: "'a log_state_scheme \<Rightarrow> nat \<Rightarrow> bool" where
  "logged s n \<longleftrightarrow> n \<le> LOGSIZE \<and> (\<forall>i < n. home s i \<notin> log_area (lstart s) \<and> 0 < bref s (home s i)) \<and> inj_on (home s) {i. i < n}"

lemma write_log_loop:
  assumes q: "quiet s" and l: "logged s n" and m: "m \<le> n"
  shows "\<exists>t. kfold write_log_one [0..<m] s = Ok t \<and> bc_inv t \<and> bframe s t \<and>
    bcache_abs t = (bcache_abs s)\<lparr>cview := after (log_writes s m) (bview s), cdisk := after (log_writes s m) (disk s), cwrites := wlog s @ log_writes s m\<rparr>"
  using m
proof (induction m)
  case 0
  then show ?case using q by (simp add: log_writes_def quiet_def)
next
  case (Suc m)
  then obtain t where IH: "kfold write_log_one [0..<m] s = Ok t" "bc_inv t" "bframe s t"
    "bcache_abs t = (bcache_abs s)\<lparr>cview := after (log_writes s m) (bview s), cdisk := after (log_writes s m) (disk s), cwrites := wlog s @ log_writes s m\<rparr>"
    by auto
  let ?a = "lblock (lstart s) m" and ?b = "home s m"
  have m: "m < n" "m < LOGSIZE" using Suc.prems l by (auto simp: logged_def)
  have hb: "?b \<notin> log_area (lstart s)" "0 < bref s ?b" using l m by (auto simp: logged_def)
  then have ab: "?a \<noteq> ?b" using lblock_in_area [OF m(2), of "lstart s"] by auto
  have "?b \<notin> fst ` set (log_writes s m)" using hb m by (auto simp: log_writes_def log_area_def)
  then have view: "cview (bcache_abs t) ?b = bview s ?b" using IH(4) by (simp add: after_notin)
  obtain x y u v w1 w2 r where
    c: "bread ROOTDEV ?a t = Ok (x, u)" "bframe t u" "bread ROOTDEV ?b u = Ok (y, v)" "bframe t v"
      "bwrite x (set_buf_data x (b_data (bbuf y v)) v) = Ok w1" "brelse y w1 = Ok w2" "brelse x w2 = Ok r" "bc_inv r" "bframe t r"
      "bcache_abs r = store ?a (bview s ?b) (bcache_abs t)"
    using bc.copy_to_log [OF IH(2) ab] q hb IH(4) view by (auto simp: quiet_def)
  have f: "log_dev t = ROOTDEV" "log_start t = log_start s" "log_dev u = ROOTDEV" "home u = home s"
    using bframe_log [OF IH(3)] bframe_log [OF c(2)] q by (simp_all add: quiet_def)
  have "write_log_one m t = Ok r"
    unfolding write_log_one_def f(1,2) lblock_word c(1) kbind.simps prod.case f(3,4) home_def [symmetric] c(3) Let_def c(5,6,7) ..
  moreover have "log_writes s (Suc m) = log_writes s m @ [(?a, bview s ?b)]" by (simp add: log_writes_def)
  then have "bcache_abs r = (bcache_abs s)\<lparr>cview := after (log_writes s (Suc m)) (bview s),
      cdisk := after (log_writes s (Suc m)) (disk s), cwrites := wlog s @ log_writes s (Suc m)\<rparr>"
    using c(10) IH(4) by (simp add: store_def)
  ultimately show ?case using IH(1) c(8) bframe_trans [OF IH(3) c(9)] by (auto simp: kfold_snoc)
qed

lemma home_writes_fst: "fst ` set (home_writes s m) = home s ` {i. i < m}"
  unfolding home_writes_def by (simp add: image_image atLeast0LessThan lessThan_def)

lemma log_writes_fst: "fst ` set (log_writes s m) = lblock (lstart s) ` {i. i < m}"
  unfolding log_writes_def by (simp add: image_image atLeast0LessThan lessThan_def)

text \<open>A state in which the log blocks hold the new contents of the home blocks, as after \<open>write_log\<close>.\<close>

lemma install_loop:
  assumes q: "quiet s" and l: "logged s n" and m: "m \<le> n"
    and copy: "\<And>i. i < n \<Longrightarrow> bview s (lblock (lstart s) i) = bview s (home s i) \<and> disk s (lblock (lstart s) i) = bview s (home s i)"
  shows "\<exists>t. kfold install_one [0..<m] s = Ok t \<and> bc_inv t \<and> bframe s t \<and>
    bcache_abs t = (bcache_abs s)\<lparr>cview := after (home_writes s m) (bview s), cdisk := after (home_writes s m) (disk s),
      cwrites := wlog s @ home_writes s m, crefs := (\<lambda>b. if b \<in> home s ` {i. i < m} then bref s b - 1 else bref s b)\<rparr>"
  using m
proof (induction m)
  case 0
  then show ?case using q by (simp add: home_writes_def quiet_def)
next
  case (Suc m)
  let ?R = "\<lambda>m b. if b \<in> home s ` {i. i < m} then bref s b - 1 else bref s b"
  obtain t where IH: "kfold install_one [0..<m] s = Ok t" "bc_inv t" "bframe s t"
    "bcache_abs t = (bcache_abs s)\<lparr>cview := after (home_writes s m) (bview s), cdisk := after (home_writes s m) (disk s),
      cwrites := wlog s @ home_writes s m, crefs := ?R m\<rparr>"
    using Suc by auto
  let ?a = "lblock (lstart s) m" and ?b = "home s m"
  have m: "m < n" "m < LOGSIZE" using Suc.prems l by (auto simp: logged_def)
  have hb: "?b \<notin> log_area (lstart s)" "0 < bref s ?b" using l m by (auto simp: logged_def)
  have ab: "?a \<noteq> ?b" using hb lblock_in_area [OF m(2), of "lstart s"] by auto
  have la: "home s i \<noteq> ?a" if "i < m" for i
    using l that m lblock_in_area [OF m(2), of "lstart s"] unfolding logged_def by (metis less_trans)
  have inj: "?b \<notin> home s ` {i. i < m}"
    using l m by (auto simp: logged_def dest: inj_onD)
  have na: "?a \<notin> fst ` set (home_writes s m)" using la unfolding home_writes_fst by (metis (mono_tags) imageE mem_Collect_eq)
  have va: "cview (bcache_abs t) ?a = bview s ?b" "cdisk (bcache_abs t) ?a = bview s ?b"
    using IH(4) copy [OF m(1)] na by (simp_all add: after_notin)
  have refs: "Suc (?R m b) < 2 ^ 32" for b
  proof -
    have "?R m b \<le> bref s b" by simp
    moreover have "Suc (bref s b) < 2 ^ 32" using q by (simp add: quiet_def)
    ultimately show ?thesis by linarith
  qed
  have "{b. 0 < ?R m b} \<subseteq> {b. 0 < bref s b}" by auto
  moreover have "finite {b. 0 < bref s b}" using q by (auto simp: quiet_def finite_bref)
  ultimately have cardR: "card {b. 0 < ?R m b} < NBUF" using q card_mono le_less_trans unfolding quiet_def by blast
  have pre: "\<not> clocked (bcache_abs t) ?a" "\<not> clocked (bcache_abs t) ?b" "Suc (crefs (bcache_abs t) ?a) < 2 ^ 32"
    "Suc (crefs (bcache_abs t) ?b) < 2 ^ 32" "0 < crefs (bcache_abs t) ?b" "card {x. 0 < crefs (bcache_abs t) x} < NBUF"
    "cview (bcache_abs t) ?a = cdisk (bcache_abs t) ?a"
  proof -
    have R: "crefs (bcache_abs t) = ?R m" unfolding IH(4) by simp
    have K: "clocked (bcache_abs t) = blocked s" unfolding IH(4) by simp
    show "Suc (crefs (bcache_abs t) ?a) < 2 ^ 32" "Suc (crefs (bcache_abs t) ?b) < 2 ^ 32" unfolding R by (rule refs)+
    show "0 < crefs (bcache_abs t) ?b" unfolding R using inj hb(2) by simp
    show "card {x. 0 < crefs (bcache_abs t) x} < NBUF" unfolding R by (rule cardR)
    show "\<not> clocked (bcache_abs t) ?a" "\<not> clocked (bcache_abs t) ?b" unfolding K using q by (auto simp: quiet_def)
    show "cview (bcache_abs t) ?a = cdisk (bcache_abs t) ?a" using va by simp
  qed
  obtain x y u v w1 w2 w3 r where
    c: "bread ROOTDEV ?a t = Ok (x, u)" "bframe t u" "bread ROOTDEV ?b u = Ok (y, v)" "bframe t v"
      "bwrite y (set_buf_data y (b_data (bbuf x v)) v) = Ok w1" "bunpin y w1 = Ok w2" "brelse x w2 = Ok w3" "brelse y w3 = Ok r" "bc_inv r" "bframe t r"
      "bcache_abs r = a_refs (\<lambda>n. n - 1) ?b (store ?b (cview (bcache_abs t) ?a) (bcache_abs t))"
    using bc.copy_from_log [OF IH(2) ab pre] by blast
  have f: "log_dev t = ROOTDEV" "log_start t = log_start s" "log_dev u = ROOTDEV" "home u = home s"
    using bframe_log [OF IH(3)] bframe_log [OF c(2)] q by (simp_all add: quiet_def)
  have "install_one m t = Ok r"
    unfolding install_one_def f(1,2) lblock_word c(1) kbind.simps prod.case f(3,4) home_def [symmetric] c(3) Let_def c(5,6,7,8) ..
  moreover have hw: "home_writes s (Suc m) = home_writes s m @ [(?b, bview s ?b)]" by (simp add: home_writes_def)
  have R: "?R (Suc m) = (?R m)(?b := bref s ?b - 1)" by (auto simp: fun_eq_iff less_Suc_eq)
  have "bcache_abs r = (bcache_abs s)\<lparr>cview := after (home_writes s (Suc m)) (bview s),
      cdisk := after (home_writes s (Suc m)) (disk s), cwrites := wlog s @ home_writes s (Suc m), crefs := ?R (Suc m)\<rparr>"
    unfolding R hw using c(11) [unfolded va(1)] IH(4) inj by (simp add: store_def a_refs_def)
  ultimately show ?case using IH(1) c(9) bframe_trans [OF IH(3) c(10)] by (auto simp: kfold_snoc)
qed

lemma write_head_law:
  assumes inv: "bc_inv s" "log_dev s = ROOTDEV" and b: "\<not> blocked s (lstart s)" "Suc (bref s (lstart s)) < 2 ^ 32" "card {b. 0 < bref s b} < NBUF"
    and n: "0 \<le> lh_n s" "lh_n s \<le> int LOGSIZE"
  shows "\<exists>t. write_head s = Ok t \<and> bc_inv t \<and> bframe s t \<and>
    bcache_abs t = store (lstart s) (encode_head (lh_n s) (lh_block s) (bview s (lstart s))) (bcache_abs s)"
proof -
  let ?f = "encode_head (lh_n s) (lh_block s)"
  have "length (bview s (lstart s)) = BSIZE" using bview_length [OF inv(1)] .
  then have "length (?f (cview (bcache_abs s) (lstart s))) = BSIZE" using encode_head(1) n by simp
  then obtain x u w t where
    c: "bread ROOTDEV (lstart s) s = Ok (x, u)" "bframe s u" "bwrite x (set_buf_data x (?f (b_data (bbuf x u))) u) = Ok w"
      "brelse x w = Ok t" "bc_inv t" "bframe s t" "bcache_abs t = store (lstart s) (?f (cview (bcache_abs s) (lstart s))) (bcache_abs s)"
    using bc.update_block [OF inv(1), of "lstart s" ?f] b by (auto simp: has_room_def)
  have f: "lh_n u = lh_n s" "lh_block u = lh_block s" using bframe_log [OF c(2)] by simp_all
  have "write_head s = Ok t"
    unfolding write_head_def inv(2) lstart_def [symmetric] c(1) kbind.simps prod.case Let_def f c(3,4) ..
  then show ?thesis using c(5,6,7) by auto
qed

lemma quiet_D:
  assumes "quiet s"
  shows "bc_inv s" "log_dev s = ROOTDEV" "\<not> blocked s b" "Suc (bref s b) < 2 ^ 32" "card {b. 0 < bref s b} < NBUF"
  using assms by (simp_all add: quiet_def)

lemma quiet_abs:
  assumes "quiet s" "bc_inv t" "log_dev t = log_dev s" "clocked (bcache_abs t) = blocked s" "\<And>b. crefs (bcache_abs t) b \<le> bref s b"
  shows "quiet t"
proof -
  have le: "bref t b \<le> bref s b" for b using assms(5) [of b] by simp
  have "{b. 0 < bref t b} \<subseteq> {b. 0 < bref s b}" using le by (auto intro: less_le_trans)
  moreover have "finite {b. 0 < bref s b}" using assms(1) by (auto simp: quiet_def finite_bref)
  ultimately have "card {b. 0 < bref t b} < NBUF" using assms(1) card_mono le_less_trans unfolding quiet_def by blast
  moreover have "Suc (bref t b) < 2 ^ 32" for b using le [of b] assms(1) unfolding quiet_def by (meson Suc_le_mono le_less_trans)
  ultimately show ?thesis using assms by (simp add: quiet_def)
qed

lemma bc_cong:
  assumes "bufs t = bufs s" "disk t = disk s" "wlog t = wlog s" "blinks t = blinks s" "procs t = procs s" "cpus t = cpus s" "me t = me s"
    "\<forall>l. l = BcacheLock \<or> (\<exists>i. l = BufLk i \<or> l = ProcLock i) \<longrightarrow> (l \<in> held t \<longleftrightarrow> l \<in> held s)"
  shows "bc_inv t = bc_inv s" "bcache_abs t = bcache_abs s"
proof -
  have p: "my_proc t = my_proc s" "my_pid t = my_pid s" using assms(5-7) by (simp_all add: my_proc_def my_pid_def cong: option.case_cong)
  have h: "BcacheLock \<in> held t \<longleftrightarrow> BcacheLock \<in> held s" "BufLk i \<in> held t \<longleftrightarrow> BufLk i \<in> held s" "ProcLock i \<in> held t \<longleftrightarrow> ProcLock i \<in> held s" for i
    using assms(8) by blast+
  have "bc_base t = bc_base s" unfolding bc_base_def assms(1-5) p h ..
  then show "bc_inv t = bc_inv s" unfolding bc_inv_def buf_ok_def assms(1,2) by simp
  have "bslot t = bslot s" unfolding bslot_def assms(1) ..
  then show "bcache_abs t = bcache_abs s"
    unfolding bcache_abs_def by (simp add: assms p bview_def bref_def blocked_def bhnd_def fun_eq_iff cong: option.case_cong if_cong)
qed

lemma abs_eqD:
  "bcache_abs t = c \<Longrightarrow> bview t = cview c \<and> disk t = cdisk c \<and> wlog t = cwrites c \<and> bref t = crefs c \<and> blocked t = clocked c \<and> bhnd t = chandle c"
  by auto

lemma set_lh_n [simp]:
  "bc_inv (s\<lparr>lh_n := n\<rparr>) = bc_inv s" "bcache_abs (s\<lparr>lh_n := n\<rparr>) = bcache_abs s" "lstart (s\<lparr>lh_n := n\<rparr>) = lstart s" "home (s\<lparr>lh_n := n\<rparr>) = home s"
  "bview (s\<lparr>lh_n := n\<rparr>) = bview s" "bref (s\<lparr>lh_n := n\<rparr>) = bref s" "blocked (s\<lparr>lh_n := n\<rparr>) = blocked s"
proof -
  show "bc_inv (s\<lparr>lh_n := n\<rparr>) = bc_inv s" and a: "bcache_abs (s\<lparr>lh_n := n\<rparr>) = bcache_abs s" by (rule bc_cong, simp_all)+
  show "bview (s\<lparr>lh_n := n\<rparr>) = bview s" "bref (s\<lparr>lh_n := n\<rparr>) = bref s" "blocked (s\<lparr>lh_n := n\<rparr>) = blocked s" using abs_eqD [OF a] by simp_all
qed (simp_all add: lstart_def home_def fun_eq_iff)

lemma bframe_lh_n: "bframe s t \<Longrightarrow> bframe (s\<lparr>lh_n := n\<rparr>) (t\<lparr>lh_n := n\<rparr>)"
proof -
  assume "bframe s t"
  then obtain ps d w bs L where t: "t = s\<lparr>procs := ps, disk := d, wlog := w, bufs := bs, blinks := L\<rparr>" "map unslept ps = map unslept (procs s)"
    unfolding bframe_def by blast
  have "t\<lparr>lh_n := n\<rparr> = s\<lparr>lh_n := n\<rparr>\<lparr>procs := ps, disk := d, wlog := w, bufs := bs, blinks := L\<rparr>" unfolding t(1) by (cases s) simp
  then show ?thesis by (rule bframeI) (simp add: t(2))
qed

section \<open>Commit\<close>

definition head_new :: "'a log_state_scheme \<Rightarrow> u8 list" where
  "head_new s = encode_head (lh_n s) (lh_block s) (bview s (lstart s))"

definition head_clear :: "'a log_state_scheme \<Rightarrow> u8 list" where
  "head_clear s = encode_head 0 (lh_block s) (head_new s)"

definition commit_writes :: "'a log_state_scheme \<Rightarrow> (u32 \<times> u8 list) list" where
  "commit_writes s = log_writes s (nat (lh_n s)) @ (lstart s, head_new s) # home_writes s (nat (lh_n s)) @ [(lstart s, head_clear s)]"

lemma log_home_disjoint:
  assumes "logged s n" "i < n"
  shows "home s i \<noteq> lstart s" "j < LOGSIZE \<Longrightarrow> home s i \<noteq> lblock (lstart s) j"
    "home s i \<notin> fst ` set (log_writes s n)"
proof -
  have "home s i \<notin> log_area (lstart s)" "n \<le> LOGSIZE" using assms unfolding logged_def by blast+
  then show "home s i \<noteq> lstart s" "j < LOGSIZE \<Longrightarrow> home s i \<noteq> lblock (lstart s) j" "home s i \<notin> fst ` set (log_writes s n)"
    unfolding log_writes_fst log_area_def by auto
qed

lemma distinct_log_writes: "n \<le> LOGSIZE \<Longrightarrow> distinct (map fst (log_writes s n))"
  by (auto simp: log_writes_def distinct_map comp_def inj_on_def lblock_inj)

lemma distinct_home_writes: "inj_on (home s) {i. i < n} \<Longrightarrow> distinct (map fst (home_writes s n))"
  by (auto simp: home_writes_def distinct_map comp_def inj_on_def)

lemma commit_law:
  assumes q: "quiet s" and l: "logged s (nat (lh_n s))" and n: "0 < lh_n s"
  shows "\<exists>t. commit s = Ok t \<and> quiet t \<and> bframe (s\<lparr>lh_n := 0\<rparr>) t \<and> wlog t = wlog s @ commit_writes s \<and> disk t = after (commit_writes s) (disk s) \<and>
    bview t = after (commit_writes s) (bview s) \<and> bref t = (\<lambda>b. if b \<in> home s ` {i. i < nat (lh_n s)} then bref s b - 1 else bref s b)"
proof -
  define n where "n = nat (lh_n s)"
  have n30: "n \<le> LOGSIZE" and ln: "lh_n s = int n" using l assms(3) by (auto simp: logged_def n_def)
  have l: "logged s n" using l by (simp add: n_def)
  obtain s1 where s1: "write_log s = Ok s1" "bc_inv s1" "bframe s s1"
    "bcache_abs s1 = (bcache_abs s)\<lparr>cview := after (log_writes s n) (bview s), cdisk := after (log_writes s n) (disk s), cwrites := wlog s @ log_writes s n\<rparr>"
    using write_log_loop [OF q l order_refl] by (auto simp: write_log_def n_def)
  note f1 = bframe_log [OF s1(3)]
  have a1: "bview s1 = after (log_writes s n) (bview s)" "disk s1 = after (log_writes s n) (disk s)" "wlog s1 = wlog s @ log_writes s n"
      "bref s1 = bref s" "blocked s1 = blocked s"
    using abs_eqD [OF s1(4)]
    by simp_all
  have q1: "quiet s1" using quiet_abs [OF q s1(2)] f1 a1 by simp
  have "lstart s \<notin> fst ` set (log_writes s n)"
    unfolding log_writes_fst using lblock_not_start n30 by (metis (mono_tags, lifting) imageE less_le_trans mem_Collect_eq)
  then have hv: "bview s1 (lstart s) = bview s (lstart s)" using a1 by (simp add: after_notin)
  obtain s2 where s2: "write_head s1 = Ok s2" "bc_inv s2" "bframe s1 s2" "bcache_abs s2 = store (lstart s) (head_new s) (bcache_abs s1)"
    using write_head_law [OF quiet_D [OF q1]] f1 ln n30 hv by (auto simp: head_new_def)
  note f2 = bframe_log [OF s2(3)]
  have a2: "bview s2 = (bview s1)(lstart s := head_new s)" "disk s2 = (disk s1)(lstart s := head_new s)"
      "wlog s2 = wlog s1 @ [(lstart s, head_new s)]" "bref s2 = bref s" "blocked s2 = blocked s"
    using abs_eqD [OF s2(4)] a1
    by (simp_all add: store_def)
  have q2: "quiet s2" using quiet_abs [OF q1 s2(2)] f2 a1 a2 by simp
  have l2: "logged s2 n" using l f1 f2 a2 by (simp add: logged_def)
  have hm: "bview s2 (home s i) = bview s (home s i)" if "i < n" for i
    using log_home_disjoint [OF l that] a2(1) a1(1) by (simp add: after_notin)
  have lb: "after (log_writes s n) d (lblock (lstart s) i) = bview s (home s i)" if "i < n" for i d
    using that by (intro after_in distinct_log_writes [OF n30]) (auto simp: log_writes_def)
  have copy: "bview s2 (lblock (lstart s2) i) = bview s2 (home s2 i) \<and> disk s2 (lblock (lstart s2) i) = bview s2 (home s2 i)" if "i < n" for i
    using that n30 hm [OF that] lb [OF that] lblock_not_start [of i "lstart s"] a2 a1 f1 f2 by simp
  have hw: "home_writes s2 n = home_writes s n" using hm f1 f2 by (simp add: home_writes_def)
  obtain s3 where s3: "install_trans s2 = Ok s3" "bc_inv s3" "bframe s2 s3"
    "bcache_abs s3 = (bcache_abs s2)\<lparr>cview := after (home_writes s n) (bview s2), cdisk := after (home_writes s n) (disk s2),
      cwrites := wlog s2 @ home_writes s n, crefs := (\<lambda>b. if b \<in> home s2 ` {i. i < n} then bref s2 b - 1 else bref s2 b)\<rparr>"
    using install_loop [OF q2 l2 order_refl copy] hw f1 f2 ln by (auto simp: install_trans_def)
  note f3 = bframe_log [OF s3(3)]
  have a3: "bview s3 = after (home_writes s n) (bview s2)" "disk s3 = after (home_writes s n) (disk s2)" "wlog s3 = wlog s2 @ home_writes s n"
      "bref s3 = (\<lambda>b. if b \<in> home s ` {i. i < n} then bref s b - 1 else bref s b)" "blocked s3 = blocked s"
    using abs_eqD [OF s3(4)] a2 f1 f2
    by (simp_all cong: if_cong)
  have q3: "quiet (s3\<lparr>lh_n := 0\<rparr>)" using quiet_abs [OF q2, of "s3\<lparr>lh_n := 0\<rparr>"] s3(2) f3 a2 a3 by simp
  have "lstart s \<notin> fst ` set (home_writes s n)" unfolding home_writes_fst using log_home_disjoint(1) [OF l] by force
  then have hv3: "bview s3 (lstart s) = head_new s" using a3 a2 by (simp add: after_notin)
  obtain t where t: "write_head (s3\<lparr>lh_n := 0\<rparr>) = Ok t" "bc_inv t" "bframe (s3\<lparr>lh_n := 0\<rparr>) t" "bcache_abs t = store (lstart s) (head_clear s) (bcache_abs s3)"
    using write_head_law [OF quiet_D [OF q3]] f1 f2 f3 hv3 by (auto simp: head_clear_def)
  note ft = bframe_log [OF t(3)]
  have at: "bview t = (bview s3)(lstart s := head_clear s)" "disk t = (disk s3)(lstart s := head_clear s)"
      "wlog t = wlog s3 @ [(lstart s, head_clear s)]" "bref t = bref s3" "blocked t = blocked s3"
    using abs_eqD [OF t(4)]
    by (simp_all add: store_def)
  have qt: "quiet t" using quiet_abs [OF q3 t(2)] ft at a3 by simp
  have "commit s = Ok t" using assms(3) s1(1) s2(1) s3(1) t(1) by (simp add: commit_def)
  moreover have "bframe (s\<lparr>lh_n := 0\<rparr>) t"
  proof -
    have "bframe s s3" using s1(3) s2(3) s3(3) bframe_trans by blast
    then have "bframe (s\<lparr>lh_n := 0\<rparr>) (s3\<lparr>lh_n := 0\<rparr>)" by (rule bframe_lh_n)
    then show ?thesis using t(3) bframe_trans by blast
  qed
  ultimately show ?thesis using qt at a3 a2 a1 by (simp add: commit_writes_def n_def [symmetric] after_append)
qed

section \<open>Crashes during a commit\<close>

text \<open>
  \<open>commit_ready s\<close>: no operation is running; the header in memory names the pinned blocks that were
  written in the transaction, everything else in the cache agrees with the disk, and the log on disk
  is empty. This is what \<open>log_write\<close> and the previous commit leave.
\<close>

definition commit_ready :: "'a log_state_scheme \<Rightarrow> bool" where
  "commit_ready s \<longleftrightarrow> quiet s \<and> 0 < lh_n s \<and> logged s (nat (lh_n s)) \<and> (\<forall>i < nat (lh_n s). is_int32 (lh_block s ! i)) \<and>
     (\<forall>b. b \<notin> home s ` {i. i < nat (lh_n s)} \<longrightarrow> bview s b = disk s b) \<and> disk_n (lstart s) (disk s) = 0"

lemma recovered_empty: "disk_n st d = 0 \<Longrightarrow> recovered st d = d"
  by (simp add: recovered_def)

lemma commit_ready_D:
  assumes "commit_ready s" and n: "n = nat (lh_n s)"
  shows "quiet s" "logged s n" "lh_n s = int n" "n \<le> LOGSIZE" "i < n \<Longrightarrow> is_int32 (lh_block s ! i)"
    "b \<notin> home s ` {i. i < n} \<Longrightarrow> bview s b = disk s b" "disk_n (lstart s) (disk s) = 0"
    "length (bview s b) = BSIZE" "0 < lh_n s"
  using assms by (auto simp: commit_ready_def logged_def quiet_def bview_length)

lemma crash_before_header:
  assumes ready: "commit_ready s" and n: "n = nat (lh_n s)" and b: "b \<notin> log_area (lstart s)"
  shows "recovered (lstart s) (after (take k (log_writes s n)) (disk s)) b = disk s b"
proof -
  note D = commit_ready_D [OF ready n]
  have sub: "fst ` set (take k (log_writes s n)) \<subseteq> lblock (lstart s) ` {i. i < n}"
    using set_take_subset [of k "log_writes s n"] log_writes_fst [of s n] by blast
  have "x \<notin> lblock (lstart s) ` {i. i < n}" if "x = lstart s \<or> x \<notin> log_area (lstart s)" for x
    using that D(4) lblock_not_start [of _ "lstart s"] by (force simp: log_area_def)
  then have eq: "after (take k (log_writes s n)) (disk s) x = disk s x" if "x = lstart s \<or> x \<notin> log_area (lstart s)" for x
    using that sub by (intro after_notin) blast
  then have "disk_n (lstart s) (after (take k (log_writes s n)) (disk s)) = 0" using D(7) by (simp add: disk_n_def)
  then show ?thesis using eq b by (simp add: recovered_empty)
qed

lemma header_decode:
  assumes ready: "commit_ready s" and n: "n = nat (lh_n s)" and d: "d (lstart s) = head_new s"
  shows "disk_n (lstart s) d = n" "i < n \<Longrightarrow> word_of_int (head_block (d (lstart s)) i) = home s i"
proof -
  note D = commit_ready_D [OF ready n]
  have "0 \<le> lh_n s" "lh_n s \<le> int LOGSIZE" using D(3,4) by simp_all
  note e = encode_head [where bs = "lh_block s", OF D(8) [of "lstart s"] this(2,1)]
  show "disk_n (lstart s) d = n" using e(2) n by (simp add: disk_n_def d head_new_def)
  show "i < n \<Longrightarrow> word_of_int (head_block (d (lstart s)) i) = home s i"
    using e(3) [of i] D(3,5) by (simp add: d head_new_def home_def)
qed

lemma crash_after_header:
  assumes ready: "commit_ready s" and n: "n = nat (lh_n s)" and b: "b \<notin> log_area (lstart s)"
  shows "recovered (lstart s) (after (log_writes s n @ (lstart s, head_new s) # take k (home_writes s n)) (disk s)) b = bview s b"
proof -
  note D = commit_ready_D [OF ready n]
  let ?st = "lstart s"
  let ?d = "after (log_writes s n @ (?st, head_new s) # take k (home_writes s n)) (disk s)"
  have sub: "fst ` set (take k (home_writes s n)) \<subseteq> home s ` {i. i < n}"
    using set_take_subset [of k "home_writes s n"] home_writes_fst [of s n] by blast
  have hd: "x \<notin> home s ` {i. i < n}" if "x \<in> log_area ?st" for x using D(2) that by (auto simp: logged_def)
  have dst: "?d ?st = head_new s"
  proof -
    have "?st \<notin> fst ` set (take k (home_writes s n))" using hd [of ?st] sub by (auto simp: log_area_def)
    then show ?thesis by (simp add: after_append after_notin)
  qed
  have dl: "?d (lblock ?st i) = bview s (home s i)" if i: "i < n" for i
  proof -
    have "lblock ?st i \<notin> fst ` set (take k (home_writes s n))" using hd [of "lblock ?st i"] sub i D(4) lblock_in_area [of i ?st] by auto
    moreover have "after (log_writes s n) (disk s) (lblock ?st i) = bview s (home s i)"
      using i by (intro after_in distinct_log_writes [OF D(4)]) (auto simp: log_writes_def)
    ultimately show ?thesis using lblock_not_start [of i ?st] i D(4) by (simp add: after_append after_notin)
  qed
  note H = header_decode [where d = ?d, OF ready n dst]
  have inj: "inj_on (\<lambda>i. word_of_int (head_block (?d ?st) i) :: u32) {i. i < n}"
    using D(2) H(2) by (simp add: logged_def inj_on_def)
  show ?thesis
  proof (cases "b \<in> home s ` {i. i < n}")
    case True
    then obtain i where i: "b = home s i" "i < n" by auto
    have "recovered ?st ?d (word_of_int (head_block (?d ?st) i)) = ?d (?st + word_of_nat i + 1)"
      unfolding recovered_def H(1) by (rule fold_upd_in [OF inj i(2)])
    then show ?thesis using H(2) [OF i(2)] dl [OF i(2)] i by (simp add: lblock_def)
  next
    case False
    have "b \<notin> fst ` set (log_writes s n)" "b \<noteq> ?st"
      using b D(4) unfolding log_writes_fst log_area_def by auto
    moreover have "b \<notin> fst ` set (take k (home_writes s n))" using False sub by blast
    ultimately have "?d b = disk s b" by (simp add: after_append after_notin)
    moreover have "recovered ?st ?d b = ?d b"
      unfolding recovered_def H(1) using H(2) False by (intro fold_upd_notin) auto
    ultimately show ?thesis using D(6) [OF False] by simp
  qed
qed

lemma after_commit:
  assumes ready: "commit_ready s" and b: "b \<notin> log_area (lstart s)"
  shows "after (commit_writes s) (disk s) b = bview s b"
proof -
  define n where "n = nat (lh_n s)"
  note D = commit_ready_D [OF ready n_def]
  have ws: "commit_writes s = (log_writes s n @ [(lstart s, head_new s)]) @ home_writes s n @ [(lstart s, head_clear s)]"
    by (simp add: commit_writes_def n_def)
  have bs: "b \<noteq> lstart s" "b \<notin> fst ` set (log_writes s n)" using b D(4) unfolding log_writes_fst log_area_def by auto
  have hw: "after (home_writes s n) e (home s i) = bview s (home s i)" if "i < n" for e i
    using that D(2) by (intro after_in distinct_home_writes) (auto simp: home_writes_def logged_def)
  show "after (commit_writes s) (disk s) b = bview s b"
  proof (cases "b \<in> home s ` {i. i < n}")
    case True
    then show ?thesis using hw bs by (auto simp: ws after_append)
  next
    case False
    then have "b \<notin> fst ` set (home_writes s n)" by (simp add: home_writes_fst)
    then show ?thesis using bs D(6) [OF False] by (simp add: ws after_append after_notin)
  qed
qed

lemma after_commit_head:
  assumes ready: "commit_ready s"
  shows "disk_n (lstart s) (after (commit_writes s) (disk s)) = 0"
proof -
  define n where "n = nat (lh_n s)"
  note D = commit_ready_D [OF ready n_def]
  have "length (head_new s) = BSIZE" using encode_head(1) [OF D(8)] D(3,4) by (simp add: head_new_def)
  then have "sint (get32 (head_clear s) 0) = 0" using encode_head(2) [of "head_new s" 0] by (simp add: head_clear_def)
  moreover have "after (commit_writes s) (disk s) (lstart s) = head_clear s" by (simp add: commit_writes_def after_append)
  ultimately show ?thesis by (simp add: disk_n_def)
qed

lemma commit_prefix:
  assumes ready: "commit_ready s" and k: "k \<le> length (commit_writes s)"
  defines "d \<equiv> after (take k (commit_writes s)) (disk s)"
  shows "(\<forall>b. b \<notin> log_area (lstart s) \<longrightarrow> recovered (lstart s) d b = disk s b) \<or>
    (\<forall>b. b \<notin> log_area (lstart s) \<longrightarrow> recovered (lstart s) d b = bview s b)"
proof -
  define n where "n = nat (lh_n s)"
  have len: "length (log_writes s n) = n" "length (home_writes s n) = n" by (simp_all add: log_writes_def home_writes_def)
  have ws: "commit_writes s = log_writes s n @ (lstart s, head_new s) # home_writes s n @ [(lstart s, head_clear s)]"
    by (simp add: commit_writes_def n_def)
  consider "k \<le> n" | "n < k" "k \<le> 2 * n + 1" | "k = 2 * n + 2" using k len by (simp add: ws) linarith
  then show ?thesis
  proof cases
    case 1
    then have "take k (commit_writes s) = take k (log_writes s n)" by (simp add: ws len)
    then show ?thesis using crash_before_header [OF ready n_def] by (simp add: d_def)
  next
    case 2
    then have "take k (commit_writes s) = log_writes s n @ (lstart s, head_new s) # take (k - n - 1) (home_writes s n)"
      by (simp add: ws len take_Cons')
    then show ?thesis using crash_after_header [OF ready n_def] by (simp add: d_def)
  next
    case 3
    then have "take k (commit_writes s) = commit_writes s" by (simp add: ws len)
    then show ?thesis using after_commit [OF ready] after_commit_head [OF ready] by (simp add: d_def recovered_empty)
  qed
qed

section \<open>Recovery\<close>

text \<open>
  At recovery nothing was pinned, but \<open>install_trans\<close> calls \<open>bunpin\<close> all the same: the reference
  count of the home block drops to 0 while the buffer is locked, and \<open>brelse\<close> then wraps it to
  \<open>2 ^ 32 - 1\<close>. The buffer is never recycled again.
\<close>

lemma upd_buf_comm: "i \<noteq> j \<Longrightarrow> upd_buf i f (upd_buf j g s) = upd_buf j g (upd_buf i f s)"
  by (simp add: upd_buf_def list_update_swap)

lemma upd_buf_other: "i \<noteq> j \<Longrightarrow> bbuf j (upd_buf i f s) = bbuf j s"
  by (simp add: upd_buf_def)

lemma unpin_releases_wrap:
  assumes inv: "bc_inv s" and hx: "bhnd s x = Some a" and hy: "bhnd s y = Some b" and xy: "x \<noteq> y"
    and one: "bref s b = 1" and clean: "bview s a = disk s a"
  shows "\<exists>t1 t2 t. bunpin y s = Ok t1 \<and> brelse x t1 = Ok t2 \<and> brelse y t2 = Ok t \<and> bc_inv t \<and> bframe s t \<and>
    bcache_abs t = (a_release y b (a_release x a (bcache_abs s)))\<lparr>crefs := (crefs (a_release x a (bcache_abs s)))(b := 2 ^ 32 - 1)\<rparr>"
proof -
  note base = bc_inv_D(1) [OF inv]
  note X = bhnd_SomeD [OF hx] bhnd_buf [OF inv hx] and Y = bhnd_SomeD [OF hy] bhnd_buf [OF inv hy]
  let ?dec = "\<lambda>z. z\<lparr>b_refcnt := b_refcnt z - 1\<rparr>"
  let ?rel = "\<lambda>z. z\<lparr>b_lock := \<lparr>sl_locked = False, sl_pid = 0\<rparr>, b_refcnt := b_refcnt z - 1\<rparr>"
  obtain r where r: "brelse x s = Ok r" "bc_inv r" "bframe s r" "bcache_abs r = a_release x a (bcache_abs s)"
    using bc.rel_law [OF inv] hx clean by auto
  let ?L = "if b_refcnt (bbuf x s) - 1 = 0 then to_front x (blinks s) else blinks s"
  have re: "r = (upd_buf x ?rel s)\<lparr>procs := map (woken (BufLockChan x)) (procs s), blinks := ?L\<rparr>"
    using brelse_eq [OF base] X r(1) by simp
  have len: "length (bufs s) = NBUF" using bc_base_D(1) [OF base] .
  have t1: "bunpin y s = Ok (upd_buf y ?dec s)" by (rule bunpin_eq [OF base])
  have t2: "brelse x (upd_buf y ?dec s) = Ok (upd_buf y ?dec r)"
  proof -
    have h: "x < NBUF" "sl_locked (buf_lock x (upd_buf y ?dec s))" "sl_pid (buf_lock x (upd_buf y ?dec s)) = my_pid (upd_buf y ?dec s)"
      using X xy by (simp_all add: upd_buf_other)
    have "b_refcnt (bbuf x (upd_buf y ?dec s)) = b_refcnt (bbuf x s)" using xy by (simp add: upd_buf_other)
    moreover have "upd_buf y ?dec r = (upd_buf y ?dec (upd_buf x ?rel s))\<lparr>procs := map (woken (BufLockChan x)) (procs s), blinks := ?L\<rparr>"
      by (simp add: re upd_buf_def)
    ultimately show ?thesis
      using brelse_eq [OF bc_base_upd_buf [OF base] h] xy by (simp add: upd_buf_comm [of x y])
  qed
  have "b \<noteq> a" using X(6) Y(6) xy by auto
  then have ry: "bhnd r y = Some b" "bref r b = 1"
    using abs_eqD [OF r(4)] hy xy one hx by (auto simp: cache_ops)
  note R = bhnd_SomeD [OF ry(1)] bhnd_buf [OF r(2) ry(1)]
  have cnt: "b_refcnt (bbuf y r) = 1" using R(8) ry(2) by (metis unat_1 word_unat_eq_iff)
  have lenr: "y < length (bufs r)" using bc_base_D(1) [OF bc_inv_D(1) [OF r(2)]] R by simp
  let ?u = "upd_buf y ?dec r"
  define t where "t = (upd_buf y ?rel ?u)\<lparr>procs := map (woken (BufLockChan y)) (procs ?u), blinks := blinks ?u\<rparr>"
  have bu: "bbuf y ?u = ?dec (bbuf y r)" using lenr by (simp add: upd_buf_nth)
  have t3: "brelse y ?u = Ok t"
  proof -
    have h: "y < NBUF" "sl_locked (buf_lock y ?u)" "sl_pid (buf_lock y ?u) = my_pid ?u" using R bu by simp_all
    have "b_refcnt (bbuf y ?u) - 1 \<noteq> 0" using bu cnt by simp
    then show ?thesis using brelse_eq [OF bc_base_upd_buf [OF bc_inv_D(1) [OF r(2)]] h] by (simp add: t_def)
  qed
  let ?x = "?rel (?dec (bbuf y r))"
  have tf: "bufs t = (bufs r)[y := ?x]" "disk t = disk r" "wlog t = wlog r"
    using lenr by (simp_all add: t_def upd_buf_def)
  have "bframe ?u t"
    by (rule bframeI [where ps = "map (woken (BufLockChan y)) (procs ?u)" and d = "disk r" and w = "wlog r" and bs = "bufs t" and L = "blinks r"])
      (simp_all add: t_def upd_buf_def unslept_woken [simplified])
  then have fr: "bframe r t" using bframe_trans bframe_upd_buf by blast
  have pid: "my_pid t = my_pid r"
  proof -
    obtain p where p: "p < STATIC_PROC_NUM" "my_proc r = Some p" using bc_base_D(2) [OF bc_inv_D(1) [OF r(2)]] by blast
    have "p_pid (map (woken (BufLockChan y)) (procs r) ! p) = p_pid (procs r ! p)"
      using p(1) bc_base_D(4) [OF bc_inv_D(1) [OF r(2)]] by (simp add: woken_def)
    then show ?thesis using p by (simp add: my_pid_def t_def my_proc_def upd_buf_def)
  qed
  have "bc_base t" using bc_inv_D(1) [OF r(2)] lenr by (simp add: bc_base_def t_def upd_buf_def my_proc_def)
  then have ch: "buf_change r y ?x t" using r(2) R tf pid by (simp add: buf_change_def)
  have c1: "b_refcnt ?x = - 1" using cnt by simp
  have ok: "buf_ok t ?x" using R c1 by (simp add: buf_ok_def)
  have "bview t = bview r" "bref t = (bref r)(b := 2 ^ 32 - 1)" "blocked t = (blocked r)(b := False)" "bhnd t = (bhnd r)(y := None)"
    using buf_change_abs [OF ch] R c1 by (simp_all add: fun_eq_iff unsigned_minus_1_eq_mask mask_eq_exp_minus_1)
  then have "bcache_abs t = (a_release y b (bcache_abs r))\<lparr>crefs := (bref r)(b := 2 ^ 32 - 1)\<rparr>"
    using tf by (simp add: bcache_abs_def cache_ops)
  then show ?thesis using t1 t2 t3 buf_change_inv [OF ch ok] bframe_trans [OF r(3) fr] r(4) abs_eqD [OF r(4)] by auto
qed

definition fresh_cache :: "'a bio_state_scheme \<Rightarrow> bool" where
  "fresh_cache s \<longleftrightarrow> bc_inv s \<and> bcache_abs s = \<lparr>cview = disk s, cdisk = disk s, cwrites = wlog s, crefs = (\<lambda>_. 0), clocked = (\<lambda>_. False), chandle = (\<lambda>_. None)\<rparr>"

lemma fresh_cache_D:
  assumes "fresh_cache s"
  shows "bc_inv s" "bview s = disk s" "bref s = (\<lambda>_. 0)" "blocked s = (\<lambda>_. False)" "bhnd s = (\<lambda>_. None)"
    "bcache_abs s = \<lparr>cview = disk s, cdisk = disk s, cwrites = wlog s, crefs = (\<lambda>_. 0), clocked = (\<lambda>_. False), chandle = (\<lambda>_. None)\<rparr>"
proof -
  have a: "bcache_abs s = \<lparr>cview = disk s, cdisk = disk s, cwrites = wlog s, crefs = (\<lambda>_. 0), clocked = (\<lambda>_. False), chandle = (\<lambda>_. None)\<rparr>"
    and "bc_inv s" using assms by (simp_all add: fresh_cache_def)
  then show "bc_inv s" "bview s = disk s" "bref s = (\<lambda>_. 0)" "blocked s = (\<lambda>_. False)" "bhnd s = (\<lambda>_. None)"
    "bcache_abs s = \<lparr>cview = disk s, cdisk = disk s, cwrites = wlog s, crefs = (\<lambda>_. 0), clocked = (\<lambda>_. False), chandle = (\<lambda>_. None)\<rparr>"
    using abs_eqD [OF a] by simp_all
qed

definition valid_header :: "u32 \<Rightarrow> (u32 \<Rightarrow> u8 list) \<Rightarrow> bool" where
  "valid_header st d \<longleftrightarrow> disk_n st d < LOGSIZE \<and> inj_on (\<lambda>i. word_of_int (head_block (d st) i) :: u32) {i. i < disk_n st d} \<and>
     (\<forall>i < disk_n st d. word_of_int (head_block (d st) i) \<notin> log_area st)"

definition recovery_writes :: "'a log_state_scheme \<Rightarrow> nat \<Rightarrow> (u32 \<times> u8 list) list" where
  "recovery_writes s m = map (\<lambda>i. (home s i, disk s (lblock (lstart s) i))) [0..<m]"

lemma recovery_writes_fst: "fst ` set (recovery_writes s m) = home s ` {i. i < m}"
  unfolding recovery_writes_def by (simp add: image_image atLeast0LessThan lessThan_def)

text \<open>One round of \<open>install_trans\<close> at recovery, where the home block is not pinned.\<close>

lemma recover_one:
  assumes inv: "bc_inv s" "log_dev s = ROOTDEV" and ab: "lblock (lstart s) m \<noteq> home s m"
    and free: "\<And>c. \<not> blocked s c" and a0: "bref s (lblock (lstart s) m) = 0" and b0: "bref s (home s m) = 0"
    and room: "card {c. 0 < bref s c} + 2 \<le> NBUF" and clean: "bview s (lblock (lstart s) m) = disk s (lblock (lstart s) m)"
  shows "\<exists>t. install_one m s = Ok t \<and> bc_inv t \<and> bframe s t \<and>
    bcache_abs t = (store (home s m) (bview s (lblock (lstart s) m)) (bcache_abs s))\<lparr>crefs := (bref s)(home s m := 2 ^ 32 - 1)\<rparr>"
proof -
  let ?a = "lblock (lstart s) m" and ?b = "home s m"
  have fin: "finite {c. 0 < bref s c}" by (rule finite_bref [OF inv(1)])
  have "{c. 0 < crefs (a_read undefined ?a (bcache_abs s)) c} = insert ?a {c. 0 < bref s c}" by (auto simp: cache_ops)
  then have room2: "has_room NBUF (a_read undefined ?a (bcache_abs s)) ?b"
    using fin room a0 by (simp add: has_room_def card_insert_if)
  obtain x y u v where c: "bread ROOTDEV ?a s = Ok (x, u)" "bread ROOTDEV ?b u = Ok (y, v)" "bc_inv v" "bframe s v" "x \<noteq> y"
      "bhnd s x = None" "bhnd s y = None" "bcache_abs v = a_read y ?b (a_read x ?a (bcache_abs s))"
      "b_data (bbuf x v) = bview s ?a"
    using bc.read_two [OF inv(1) ab] free a0 b0 room room2 by (auto simp: has_room_def)
  have fu: "bframe s u" using bread_law [OF inv(1), of ?a] free a0 room c(1) by (auto simp: room_def)
  note V = abs_eqD [OF c(8)]
  have h: "bhnd v x = Some ?a" "bhnd v y = Some ?b" using V c(5) by (simp_all add: cache_ops)
  let ?v = "set_buf_data y (bview s ?a) v"
  have s: "bc_inv ?v" "bframe v ?v" "bcache_abs ?v = a_set ?b (bview s ?a) (bcache_abs v)"
    using bc.set_law [OF c(3), of y ?b "bview s ?a"] h(2) bview_length [OF inv(1)] by auto
  obtain w where w: "bwrite y ?v = Ok w" "bc_inv w" "bframe ?v w" "bcache_abs w = a_write ?b (bcache_abs ?v)"
    using bc.wr_law [OF s(1), of y ?b] abs_eqD [OF s(3)] h(2) by (auto simp: cache_ops)
  have W: "bcache_abs w = a_write ?b (a_set ?b (bview s ?a) (a_read y ?b (a_read x ?a (bcache_abs s))))"
    using w(4) s(3) c(8) by simp
  have hw: "bhnd w x = Some ?a" "bhnd w y = Some ?b" "bref w ?b = 1" "bview w ?a = disk w ?a"
    using abs_eqD [OF W] c(5) b0 ab clean by (auto simp: cache_ops)
  obtain t1 t2 t where t: "bunpin y w = Ok t1" "brelse x t1 = Ok t2" "brelse y t2 = Ok t" "bc_inv t" "bframe w t"
      "bcache_abs t = (a_release y ?b (a_release x ?a (bcache_abs w)))\<lparr>crefs := (crefs (a_release x ?a (bcache_abs w)))(?b := 2 ^ 32 - 1)\<rparr>"
    using unpin_releases_wrap [OF w(2) hw(1,2) c(5) hw(3,4)] by blast
  have f: "log_dev u = ROOTDEV" "home u = home s" using bframe_log [OF fu] inv(2) by simp_all
  have "install_one m s = Ok t"
    unfolding install_one_def inv(2) lblock_word c(1) kbind.simps prod.case f home_def [symmetric] c(2,9) Let_def w(1) t(1,2,3) ..
  moreover have "bframe s t" by (meson c(4) s(2) w(3) t(5) bframe_trans)
  moreover have "bcache_abs t = (store ?b (bview s ?a) (bcache_abs s))\<lparr>crefs := (bref s)(?b := 2 ^ 32 - 1)\<rparr>"
    unfolding t(6) W using c(5,6,7) free a0 b0 ab
    by (simp add: bcache_abs_def cache_ops store_def fun_upd_twist fun_upd_idem)
  ultimately show ?thesis using t(4) by blast
qed

lemma recovery_loop:
  assumes fresh: "fresh_cache s" and dev: "log_dev s = ROOTDEV" and n: "n < LOGSIZE"
    and out: "\<And>i. i < n \<Longrightarrow> home s i \<notin> log_area (lstart s)" and inj: "inj_on (home s) {i. i < n}" and m: "m \<le> n"
  shows "\<exists>t. kfold install_one [0..<m] s = Ok t \<and> bc_inv t \<and> bframe s t \<and>
    bcache_abs t = (bcache_abs s)\<lparr>cview := after (recovery_writes s m) (disk s), cdisk := after (recovery_writes s m) (disk s),
      cwrites := wlog s @ recovery_writes s m, crefs := (\<lambda>b. if b \<in> home s ` {i. i < m} then 2 ^ 32 - 1 else 0)\<rparr>"
  using m
proof (induction m)
  case 0
  then show ?case using fresh_cache_D [OF fresh] by (simp add: recovery_writes_def)
next
  case (Suc m)
  let ?R = "\<lambda>m b. if b \<in> home s ` {i. i < m} then (2 ^ 32 - 1 :: nat) else 0"
  obtain t where IH: "kfold install_one [0..<m] s = Ok t" "bc_inv t" "bframe s t"
    "bcache_abs t = (bcache_abs s)\<lparr>cview := after (recovery_writes s m) (disk s), cdisk := after (recovery_writes s m) (disk s),
      cwrites := wlog s @ recovery_writes s m, crefs := ?R m\<rparr>"
    using Suc by auto
  note F = fresh_cache_D [OF fresh] and T = abs_eqD [OF IH(4)] and f = bframe_log [OF IH(3)]
  let ?a = "lblock (lstart s) m" and ?b = "home s m"
  have m: "m < n" "m < LOGSIZE" using Suc.prems n by auto
  have aa: "?a \<in> log_area (lstart s)" using lblock_in_area m by simp
  have ab: "?a \<noteq> ?b" using aa out [OF m(1)] by auto
  have "home s i \<noteq> ?a" if "i < m" for i using aa out [of i] that m by auto
  then have na: "?a \<notin> home s ` {i. i < m}" by (metis (mono_tags) imageE mem_Collect_eq)
  have nb: "?b \<notin> home s ` {i. i < m}" using inj m by (auto dest: inj_onD)
  have R: "bref t = ?R m" using T by simp
  have free: "\<not> blocked t c" for c using T F by simp
  have "{c. 0 < bref t c} \<subseteq> home s ` {i. i < m}" unfolding R by (auto split: if_splits)
  then have "card {c. 0 < bref t c} \<le> card (home s ` {i. i < m})" by (rule card_mono [rotated]) simp
  also have "\<dots> \<le> m" using card_image_le [of "{i. i < m}" "home s"] by simp
  finally have room: "card {c. 0 < bref t c} + 2 \<le> NBUF" using m n by (simp add: NBUF_def)
  have va: "bview t ?a = disk s ?a" "disk t ?a = disk s ?a" using T na by (simp_all add: after_notin recovery_writes_fst)
  obtain r where r: "install_one m t = Ok r" "bc_inv r" "bframe t r"
      "bcache_abs r = (store ?b (disk s ?a) (bcache_abs t))\<lparr>crefs := (bref t)(?b := 2 ^ 32 - 1)\<rparr>"
    using recover_one [OF IH(2), of m] f dev ab free room va R na nb by auto
  have "?R (Suc m) = (?R m)(?b := 2 ^ 32 - 1)" by (auto simp: fun_eq_iff less_Suc_eq)
  moreover have "recovery_writes s (Suc m) = recovery_writes s m @ [(?b, disk s ?a)]" by (simp add: recovery_writes_def)
  ultimately have "bcache_abs r = (bcache_abs s)\<lparr>cview := after (recovery_writes s (Suc m)) (disk s), cdisk := after (recovery_writes s (Suc m)) (disk s),
      cwrites := wlog s @ recovery_writes s (Suc m), crefs := ?R (Suc m)\<rparr>"
    using r(4) IH(4) R by (simp add: store_def)
  then show ?case using IH(1) r(1,2) bframe_trans [OF IH(3) r(3)] by (auto simp: kfold_snoc)
qed

lemma fold_list_update:
  "length (fold (\<lambda>i bs. bs[i := g i]) [0..<n] bs) = length bs \<and>
   (\<forall>i < length bs. fold (\<lambda>i bs. bs[i := g i]) [0..<n] bs ! i = (if i < n then g i else bs ! i))"
  by (induction n) (auto simp: nth_list_update less_Suc_eq)

lemma read_head_law:
  assumes fresh: "fresh_cache s" and dev: "log_dev s = ROOTDEV" and len: "length (lh_block s) = LOGSIZE" and n: "disk_n (lstart s) (disk s) \<le> LOGSIZE"
  shows "\<exists>t. read_head s = Ok t \<and> fresh_cache t \<and> log_dev t = ROOTDEV \<and> lstart t = lstart s \<and> disk t = disk s \<and> wlog t = wlog s \<and>
    nat (lh_n t) = disk_n (lstart s) (disk s) \<and>
    (\<forall>i < disk_n (lstart s) (disk s). home t i = word_of_int (head_block (disk s (lstart s)) i))"
proof -
  note F = fresh_cache_D [OF fresh]
  let ?st = "lstart s"
  obtain x u where u: "bread ROOTDEV ?st s = Ok (x, u)" "bc_inv u" "bframe s u" "bcache_abs u = a_read x ?st (bcache_abs s)"
    using bc.rd_law [OF F(1), of ?st] F by (auto simp: has_room_def NBUF_def)
  note U = abs_eqD [OF u(4)] and f = bframe_log [OF u(3)]
  have hx: "bhnd u x = Some ?st" using U by (simp add: cache_ops)
  have d: "b_data (bbuf x u) = disk s ?st" using bc.get_law [OF u(2)] hx U F by (simp add: cache_ops)
  let ?d = "disk s ?st"
  define bs where "bs = fold (\<lambda>i bs. bs[i := head_block ?d i]) [0..<nat (sint (get32 ?d 0))] (lh_block s)"
  define u' where "u' = u\<lparr>lh_n := sint (get32 ?d 0), lh_block := bs\<rparr>"
  have cu: "bc_inv u'" "bcache_abs u' = bcache_abs u" using bc_cong [of u' u] u(2) by (simp_all add: u'_def)
  obtain t where t: "brelse x u' = Ok t" "bc_inv t" "bframe u' t" "bcache_abs t = a_release x ?st (bcache_abs u')"
    using bc.rel_law [OF cu(1), of x ?st] hx cu(2) U F by (auto simp: cache_ops)
  note f' = bframe_log [OF t(3)]
  have at: "bcache_abs t = bcache_abs s" unfolding t(4) cu(2) u(4) F(6) by (simp add: cache_ops fun_eq_iff)
  then have "fresh_cache t" using t(2) F(6) abs_eqD [OF at] by (simp add: fresh_cache_def)
  moreover have "read_head s = Ok t"
    unfolding read_head_def dev lstart_def [symmetric] u(1) kbind.simps prod.case d Let_def
    using t(1) f by (simp add: u'_def bs_def)
  moreover have "home t i = word_of_int (head_block ?d i)" if "i < disk_n ?st (disk s)" for i
  proof -
    have "lh_block t = bs" using f' by (simp add: u'_def)
    then show ?thesis using that n len fold_list_update [of "head_block ?d" "nat (sint (get32 ?d 0))" "lh_block s"]
      by (simp add: home_def bs_def disk_n_def)
  qed
  ultimately show ?thesis using f f' abs_eqD [OF at] dev by (auto simp: u'_def lstart_def disk_n_def)
qed

lemma recovered_after:
  "recovered st d = after (map (\<lambda>i. (word_of_int (head_block (d st) i), d (lblock st i))) [0..<disk_n st d]) d"
  by (simp add: recovered_def after_def fold_map comp_def lblock_def)

lemma recover_law:
  assumes fresh: "fresh_cache s" and dev: "log_dev s = ROOTDEV" and len: "length (lh_block s) = LOGSIZE" and v: "valid_header (lstart s) (disk s)"
  shows "\<exists>t. recover_from_log s = Ok t \<and> bc_inv t \<and> lh_n t = 0 \<and> disk_n (lstart s) (disk t) = 0 \<and> bview t = disk t \<and>
    (\<forall>b. b \<noteq> lstart s \<longrightarrow> disk t b = recovered (lstart s) (disk s) b) \<and>
    (\<forall>i < disk_n (lstart s) (disk s). bref t (word_of_int (head_block (disk s (lstart s)) i)) = 2 ^ 32 - 1)"
proof -
  let ?st = "lstart s"
  define n where "n = disk_n ?st (disk s)"
  have n: "n < LOGSIZE" using v by (simp add: valid_header_def n_def)
  obtain r where r: "read_head s = Ok r" "fresh_cache r" "log_dev r = ROOTDEV" "lstart r = ?st" "disk r = disk s" "nat (lh_n r) = n"
      "\<forall>i < n. home r i = word_of_int (head_block (disk s ?st) i)"
    using read_head_law [OF fresh dev len] n by (auto simp: n_def)
  have out: "home r i \<notin> log_area (lstart r)" if "i < n" for i using v r(4,7) that by (simp add: valid_header_def n_def)
  have inj: "inj_on (home r) {i. i < n}" using v r(7) by (simp add: valid_header_def n_def inj_on_def)
  let ?R = "\<lambda>b. if b \<in> home r ` {i. i < n} then (2 ^ 32 - 1 :: nat) else 0"
  obtain u where u: "install_trans r = Ok u" "bc_inv u" "bframe r u"
      "bcache_abs u = (bcache_abs r)\<lparr>cview := after (recovery_writes r n) (disk r), cdisk := after (recovery_writes r n) (disk r),
        cwrites := wlog r @ recovery_writes r n, crefs := ?R\<rparr>"
    using recovery_loop [OF r(2,3) n out inj order_refl] r(6) by (auto simp: install_trans_def)
  note U = abs_eqD [OF u(4)] and f = bframe_log [OF u(3)]
  have rw: "recovery_writes r n = map (\<lambda>i. (word_of_int (head_block (disk s ?st) i), disk s (lblock ?st i))) [0..<n]"
    using r(4,5,7) by (simp add: recovery_writes_def)
  have rec: "after (recovery_writes r n) (disk r) = recovered ?st (disk s)"
    unfolding rw r(5) by (simp add: recovered_after n_def)
  have st: "?st \<notin> home r ` {i. i < n}" using out r(4) by (force simp: log_area_def)
  have Ru: "bref u = ?R" using U by simp
  have "{b. 0 < bref u b} \<subseteq> home r ` {i. i < n}" unfolding Ru by (auto split: if_splits)
  then have "card {b. 0 < bref u b} \<le> card (home r ` {i. i < n})" by (rule card_mono [rotated]) simp
  also have "\<dots> \<le> n" using card_image_le [of "{i. i < n}" "home r"] by simp
  finally have room: "card {b. 0 < bref u b} < NBUF" using n by (simp add: NBUF_def)
  obtain t where t: "write_head (u\<lparr>lh_n := 0\<rparr>) = Ok t" "bc_inv t" "bframe (u\<lparr>lh_n := 0\<rparr>) t"
      "bcache_abs t = store ?st (encode_head 0 (lh_block u) (bview u ?st)) (bcache_abs u)"
    using write_head_law [of "u\<lparr>lh_n := 0\<rparr>"] u(2) f r(3,4) room st Ru U fresh_cache_D [OF r(2)] by auto
  note T = abs_eqD [OF t(4)] and ft = bframe_log [OF t(3)]
  have "recover_from_log s = Ok t" using r(1) u(1) t(1) by (simp add: recover_from_log_def)
  moreover have "length (bview u ?st) = BSIZE" using bview_length [OF u(2)] .
  then have "sint (get32 (disk t ?st) 0) = 0" using T encode_head(2) [of "bview u ?st" 0] by (simp add: store_def)
  moreover have "bview t = disk t" "disk t b = recovered ?st (disk s) b" if "b \<noteq> ?st" for b using T U rec that by (simp_all add: store_def fun_eq_iff)
  moreover have "bview t = disk t" using T U by (simp add: store_def fun_eq_iff)
  moreover have "bref t (word_of_int (head_block (disk s ?st) i)) = 2 ^ 32 - 1" if "i < n" for i
    using T Ru r(7) that by (auto simp: store_def image_iff)
  ultimately show ?thesis using t(2) ft n_def by (auto simp: disk_n_def)
qed

lemma prefix_header:
  assumes ready: "commit_ready s" and small: "lh_n s < int LOGSIZE"
  shows "valid_header (lstart s) (after (take k (commit_writes s)) (disk s))"
proof -
  define n where "n = nat (lh_n s)"
  note D = commit_ready_D [OF ready n_def]
  let ?st = "lstart s" and ?d = "after (take k (commit_writes s)) (disk s)"
  have len: "length (log_writes s n) = n" "length (home_writes s n) = n" by (simp_all add: log_writes_def home_writes_def)
  have ws: "commit_writes s = log_writes s n @ (?st, head_new s) # home_writes s n @ [(?st, head_clear s)]"
    by (simp add: commit_writes_def n_def)
  have stl: "?st \<notin> fst ` set (take j (log_writes s n))" for j
  proof -
    have "lblock ?st i \<noteq> ?st" if "i < n" for i using lblock_not_start [of i ?st] D(4) that by simp
    then have "?st \<notin> lblock ?st ` {i. i < n}" by (metis (mono_tags) imageE mem_Collect_eq)
    then show ?thesis using set_take_subset [of j "log_writes s n"] log_writes_fst [of s n] by blast
  qed
  have sth: "?st \<notin> fst ` set (take j (home_writes s n))" for j
  proof -
    have "?st \<notin> home s ` {i. i < n}" using D(2) by (force simp: logged_def log_area_def)
    then show ?thesis using set_take_subset [of j "home_writes s n"] home_writes_fst [of s n] by blast
  qed
  have empty: "valid_header ?st e" if "disk_n ?st e = 0" for e using that by (simp add: valid_header_def)
  consider "k \<le> n" | "n < k" "k \<le> 2 * n + 1" | "2 * n + 2 \<le> k" by linarith
  then show ?thesis
  proof cases
    case 1
    then have "take k (commit_writes s) = take k (log_writes s n)" by (simp add: ws len)
    then have "?d ?st = disk s ?st" using stl by (simp add: after_notin)
    then show ?thesis using D(7) by (intro empty) (simp add: disk_n_def)
  next
    case 2
    then have "take k (commit_writes s) = log_writes s n @ (?st, head_new s) # take (k - n - 1) (home_writes s n)"
      by (simp add: ws len take_Cons')
    then have dst: "?d ?st = head_new s" using sth by (simp add: after_append after_notin)
    note H = header_decode [where d = ?d, OF ready n_def dst]
    have "n < LOGSIZE" using small D(3) by simp
    moreover have "inj_on (\<lambda>i. word_of_int (head_block (?d ?st) i) :: u32) {i. i < n}"
      using D(2) H(2) by (simp add: logged_def inj_on_def)
    moreover have "\<forall>i < n. word_of_int (head_block (?d ?st) i) \<notin> log_area ?st" using D(2) H(2) by (simp add: logged_def)
    ultimately show ?thesis unfolding valid_header_def H(1) by blast
  next
    case 3
    then have "take k (commit_writes s) = commit_writes s" by (simp add: ws len)
    then show ?thesis using after_commit_head [OF ready] by (intro empty) simp
  qed
qed

text \<open>A machine that starts again with a given disk: \<open>binit\<close> has run, the log has not been read.\<close>

definition rebooted :: "(u32 \<Rightarrow> u8 list) \<Rightarrow> 'a log_state_scheme \<Rightarrow> bool" where
  "rebooted d r \<longleftrightarrow> fresh_cache r \<and> disk r = d \<and> length (lh_block r) = LOGSIZE"

lemma commit_done:
  assumes ready: "commit_ready s"
  shows "\<exists>t. commit s = Ok t \<and> wlog t = wlog s @ commit_writes s \<and> disk_n (lstart s) (disk t) = 0 \<and> lh_n t = 0 \<and>
      (\<forall>b. b \<notin> log_area (lstart s) \<longrightarrow> disk t b = bview s b \<and> bview t b = bview s b)"
proof -
  define n where "n = nat (lh_n s)"
  note D = commit_ready_D [OF ready n_def]
  let ?st = "lstart s"
  obtain t where t: "commit s = Ok t" "bframe (s\<lparr>lh_n := 0\<rparr>) t" "wlog t = wlog s @ commit_writes s" "disk t = after (commit_writes s) (disk s)"
      "bview t = after (commit_writes s) (bview s)"
    using commit_law [OF D(1) _ D(9)] D(2) by (auto simp: n_def)
  have "after (commit_writes s) (bview s) b = bview s b" if "b \<notin> log_area ?st" for b
  proof (cases "b \<in> home s ` {i. i < n}")
    case True
    then obtain i where i: "b = home s i" "i < n" by auto
    have "after (home_writes s n) e (home s i) = bview s (home s i)" for e
      using i D(2) by (intro after_in distinct_home_writes) (auto simp: home_writes_def logged_def)
    then show ?thesis using i that by (simp add: commit_writes_def n_def [symmetric] after_append) (simp add: log_area_def)
  next
    case False
    have "b \<notin> fst ` set (log_writes s n)" "b \<noteq> ?st" using that D(4) unfolding log_writes_fst log_area_def by auto
    moreover have "b \<notin> fst ` set (home_writes s n)" using False by (simp add: home_writes_fst)
    ultimately show ?thesis by (simp add: commit_writes_def n_def [symmetric] after_append after_notin)
  qed
  then show "\<exists>t. commit s = Ok t \<and> wlog t = wlog s @ commit_writes s \<and> disk_n ?st (disk t) = 0 \<and> lh_n t = 0 \<and>
      (\<forall>b. b \<notin> log_area ?st \<longrightarrow> disk t b = bview s b \<and> bview t b = bview s b)"
    using t after_commit [OF ready] bframe_log(3) [OF t(2)] after_commit_head [OF ready] by (intro exI [of _ t]) simp
qed

text \<open>
  C20: a transaction is atomic with respect to crashes. A commit writes its blocks to the disk in
  some order, one block at a time; when the machine stops after any number of these writes and
  starts again, \<open>initlog\<close> returns, and outside the log every block of the disk is then as it was before
  the transaction, or every block is as the transaction left it. A commit that is not
  interrupted returns with every block of the transaction in place and the log empty.
\<close>

theorem log_crash_safe:
  assumes ready: "commit_ready s" and small: "lh_n s < int LOGSIZE"
  shows "(\<exists>t. commit s = Ok t \<and> wlog t = wlog s @ commit_writes s \<and> disk_n (lstart s) (disk t) = 0 \<and> lh_n t = 0 \<and>
      (\<forall>b. b \<notin> log_area (lstart s) \<longrightarrow> disk t b = bview s b \<and> bview t b = bview s b)) \<and>
    (\<forall>k r. k \<le> length (commit_writes s) \<and> rebooted (after (take k (commit_writes s)) (disk s)) (r :: 'b log_state_scheme) \<longrightarrow>
      kok (\<lambda>r'. disk_n (lstart s) (disk r') = 0 \<and> bview r' = disk r' \<and>
        ((\<forall>b. b \<notin> log_area (lstart s) \<longrightarrow> disk r' b = disk s b) \<or>
         (\<forall>b. b \<notin> log_area (lstart s) \<longrightarrow> disk r' b = bview s b)))
      (initlog ROOTDEV (lstart s) nlog r))"
proof (intro conjI allI impI)
  show "\<exists>t. commit s = Ok t \<and> wlog t = wlog s @ commit_writes s \<and> disk_n (lstart s) (disk t) = 0 \<and> lh_n t = 0 \<and>
      (\<forall>b. b \<notin> log_area (lstart s) \<longrightarrow> disk t b = bview s b \<and> bview t b = bview s b)"
    by (rule commit_done [OF ready])
next
  fix k and r :: "'b log_state_scheme"
  assume kr: "k \<le> length (commit_writes s) \<and> rebooted (after (take k (commit_writes s)) (disk s)) r"
  let ?st = "lstart s" and ?r = "r\<lparr>log_start := sint (lstart s), log_size := sint nlog, log_dev := ROOTDEV\<rparr>"
  have a: "bc_inv ?r = bc_inv r" "bcache_abs ?r = bcache_abs r" by (rule bc_cong, simp_all)+
  have fresh: "fresh_cache ?r" using kr a by (simp add: rebooted_def fresh_cache_def)
  have st: "lstart ?r = ?st" by (simp add: lstart_def [of ?r])
  have d: "disk ?r = after (take k (commit_writes s)) (disk s)" using kr by (simp add: rebooted_def)
  have "valid_header (lstart ?r) (disk ?r)" unfolding st d by (rule prefix_header [OF ready small])
  then obtain t where t: "recover_from_log ?r = Ok t" "disk_n ?st (disk t) = 0" "bview t = disk t" "\<forall>b. b \<noteq> ?st \<longrightarrow> disk t b = recovered ?st (disk ?r) b"
    using recover_law [OF fresh] kr st by (auto simp: rebooted_def)
  have "initlog ROOTDEV ?st nlog r = Ok t" using t(1) by (simp add: initlog_def)
  moreover have "disk t b = recovered ?st (disk ?r) b" if "b \<notin> log_area ?st" for b using t(4) that by (auto simp: log_area_def)
  ultimately show "kok (\<lambda>r'. disk_n ?st (disk r') = 0 \<and> bview r' = disk r' \<and>
        ((\<forall>b. b \<notin> log_area ?st \<longrightarrow> disk r' b = disk s b) \<or> (\<forall>b. b \<notin> log_area ?st \<longrightarrow> disk r' b = bview s b)))
      (initlog ROOTDEV ?st nlog r)"
    using commit_prefix [OF ready, of k] kr t(2,3) d by simp
qed

section \<open>Writing in a transaction\<close>

definition homes :: "'a log_state_scheme \<Rightarrow> u32 set" where
  "homes s = home s ` {i. i < nat (lh_n s)}"

lemma homes_index:
  assumes "nat (lh_n s) \<le> length (lh_block s)"
  shows "find_index (\<lambda>x. word_of_int x = b) (take (nat (lh_n s)) (lh_block s)) = None \<longleftrightarrow> b \<notin> homes s"
  unfolding find_index_None homes_def home_def using assms by (force simp: set_conv_nth)

text \<open>The state between \<open>begin_op\<close> and \<open>end_op\<close>: what is dirty and not locked is in the log header.\<close>

definition tx_inv :: "'a log_state_scheme \<Rightarrow> bool" where
  "tx_inv s \<longleftrightarrow> bc_inv s \<and> log_dev s = ROOTDEV \<and> 0 \<le> lh_n s \<and> length (lh_block s) = LOGSIZE \<and> logged s (nat (lh_n s)) \<and>
     (\<forall>i < nat (lh_n s). is_int32 (lh_block s ! i)) \<and> LogLock \<notin> held s \<and> disk_n (lstart s) (disk s) = 0"

lemma sint_int32: "is_int32 (sint (w :: u32))"
  using sint_ge [of w] sint_lt [of w] by (simp add: is_int32_def)

lemma cache_frame_simps:
  "bc_inv (s\<lparr>held := insert LogLock (held s), noff := k\<rparr>) = bc_inv s"
  "bcache_abs (s\<lparr>held := insert LogLock (held s), noff := k\<rparr>) = bcache_abs s"
  "bc_inv (s\<lparr>lh_block := bs\<rparr>) = bc_inv s" "bcache_abs (s\<lparr>lh_block := bs\<rparr>) = bcache_abs s"
  by (rule bc_cong; auto)+

lemma log_write_law:
  assumes tx: "tx_inv s" and h: "bhnd s x = Some b" and area: "b \<notin> log_area (lstart s)" and few: "Suc (bref s b) < 2 ^ 32"
    and room: "lh_n s < int LOGSIZE" "lh_n s < log_size s - 1" and op: "1 \<le> log_outstanding s"
  shows "\<exists>t. log_write x s = Ok t \<and> tx_inv t \<and> homes t = insert b (homes s) \<and> log_start t = log_start s \<and>
    lh_n t = (if b \<in> homes s then lh_n s else lh_n s + 1) \<and> log_outstanding t = log_outstanding s \<and> log_size t = log_size s \<and>
    bcache_abs t = (if b \<in> homes s then bcache_abs s else a_refs Suc b (bcache_abs s))"
proof -
  have T: "bc_inv s" "0 \<le> lh_n s" "length (lh_block s) = LOGSIZE" "logged s (nat (lh_n s))" "LogLock \<notin> held s"
    "\<forall>i < nat (lh_n s). is_int32 (lh_block s ! i)" using tx by (simp_all add: tx_inv_def)
  have bn: "b_blockno (bbuf x s) = b" using bhnd_SomeD [OF h] by simp
  define s1 where "s1 = s\<lparr>held := insert LogLock (held s), noff := Suc (noff s)\<rparr>"
  have s1: "bc_inv s1" "bcache_abs s1 = bcache_abs s" unfolding s1_def cache_frame_simps using T(1) by simp_all
  have g: "\<not> (lh_n s \<ge> int LOGSIZE \<or> lh_n s \<ge> log_size s - 1)" "\<not> log_outstanding s < 1" using room op by simp_all
  show ?thesis
  proof (cases "b \<in> homes s")
    case True
    then obtain i where fi: "find_index (\<lambda>x. word_of_int x = b) (take (nat (lh_n s)) (lh_block s)) = Some i"
      using homes_index [of s b] T(3) room(1) by fastforce
    have i: "i < nat (lh_n s)" "word_of_int (lh_block s ! i) = b"
      using find_index_Some [OF fi] T(3) room(1) by auto
    have "sint b = lh_block s ! i" using i T(6) sint_word_of_int32 by blast
    then have same: "(lh_block s)[i := sint b] = lh_block s" by simp
    have "int i \<noteq> lh_n s" using i by simp
    then have "log_write x s = Ok s" using g T(5) fi bn same by (simp add: log_write_def lock_simps Let_def)
    moreover have "homes s = insert b (homes s)" using True by auto
    ultimately show ?thesis using tx True by auto
  next
    case False
    have fi: "find_index (\<lambda>x. word_of_int x = b) (take (nat (lh_n s)) (lh_block s)) = None"
      using homes_index [of s b] T(3) room(1) False by simp
    define s2 where "s2 = s1\<lparr>lh_block := (lh_block s)[nat (lh_n s) := sint b]\<rparr>"
    have s2: "bc_inv s2" "bcache_abs s2 = bcache_abs s" unfolding s2_def cache_frame_simps using s1 by simp_all
    obtain u where u: "bpin x s2 = Ok u" "bc_inv u" "bframe s2 u" "bcache_abs u = a_refs Suc b (bcache_abs s2)"
      using bc.pin_law [OF s2(1), of x b] s2(2) h few by auto
    have ue: "u = upd_buf x (\<lambda>b. b\<lparr>b_refcnt := b_refcnt b + 1\<rparr>) s2" using bpin_eq [OF bc_inv_D(1) [OF s2(1)]] u(1) by simp
    define t where "t = u\<lparr>lh_n := lh_n s + 1, held := held s, noff := noff s\<rparr>"
    have lk: "LogLock \<in> held u" "held u - {LogLock} = held s" "noff u = Suc (noff s)" "lh_n u = lh_n s"
      using ue T(5) by (simp_all add: s2_def s1_def upd_buf_def)
    have rl: "release LogLock (u\<lparr>lh_n := lh_n s + 1\<rparr>) = Ok t" using lk by (simp add: release_held t_def)
    have e: "log_write x s = Ok t"
      using g T(2,5) fi bn u(1) lk(4) rl by (simp add: log_write_def lock_simps Let_def s1_def [symmetric] s2_def [symmetric] t_def) (simp add: s2_def s1_def)
    have ct: "bc_inv t = bc_inv u" "bcache_abs t = bcache_abs u" using bc_cong [of t u] lk(2) by (auto simp: t_def)
    have hu: "home u i = (if i = nat (lh_n s) then b else home s i)" if "i \<le> nat (lh_n s)" for i
      using that T(3) room(1) ue by (auto simp: home_def s2_def s1_def upd_buf_def nth_list_update)
    have ht: "home t = home u" by (simp add: t_def home_def fun_eq_iff)
    have n1: "nat (lh_n t) = Suc (nat (lh_n s))" using T(2) by (simp add: t_def)
    have "{i. i < Suc (nat (lh_n s))} = insert (nat (lh_n s)) {i. i < nat (lh_n s)}" by auto
    moreover have "home u ` {i. i < nat (lh_n s)} = home s ` {i. i < nat (lh_n s)}" using hu by (intro image_cong) auto
    ultimately have hs: "homes t = insert b (homes s)" unfolding homes_def n1 ht using hu [OF order_refl] by simp
    have st: "lstart t = lstart s" "log_start t = log_start s" by (simp_all add: t_def ue s2_def s1_def upd_buf_def lstart_def)
    have at: "bcache_abs t = a_refs Suc b (bcache_abs s)" using ct(2) u(4) s2(2) by simp
    have refs: "bref t = (bref s)(b := Suc (bref s b))" using abs_eqD [OF at] by (simp add: a_refs_def)
    have lg: "logged t (nat (lh_n t))"
      unfolding logged_def n1 st(1) ht refs
      using T(4) room(1) area hu False by (auto simp: logged_def less_Suc_eq inj_on_def homes_def)
    have i32: "is_int32 (lh_block t ! i)" if "i < nat (lh_n t)" for i
      using that T(3,6) room(1) sint_int32 n1 by (auto simp: t_def ue s2_def s1_def upd_buf_def nth_list_update less_Suc_eq)
    have "tx_inv t"
      using u(2) ct(1) lg i32 tx st abs_eqD [OF at] by (simp add: tx_inv_def) (simp add: t_def ue s2_def s1_def upd_buf_def a_refs_def)
    then show ?thesis using e hs st at False by (simp add: t_def ue s2_def s1_def upd_buf_def)
  qed
qed

text \<open>At the end of a transaction the state is ready for the commit.\<close>

lemma tx_commit_ready:
  assumes "tx_inv s" "0 < lh_n s" "quiet s" "\<And>b. b \<notin> homes s \<Longrightarrow> bview s b = disk s b"
  shows "commit_ready s"
  using assms by (auto simp: tx_inv_def commit_ready_def homes_def)

lemma tx_frame:
  assumes "tx_inv s" "bc_inv t" "bframe s t" "disk t = disk s" "\<And>b. b \<in> homes s \<Longrightarrow> 0 < bref t b"
  shows "tx_inv t" "homes t = homes s"
proof -
  note f = bframe_log [OF assms(3)]
  have h: "held t = held s" using assms(3) by (auto simp: bframe_def)
  show "homes t = homes s" using f by (simp add: homes_def)
  show "tx_inv t" using assms(1,2,4,5) f h by (auto simp: tx_inv_def logged_def homes_def)
qed

section \<open>A transaction that writes one block\<close>

definition log_example :: log_state where
  "log_example = bio_state.extend (bio_example\<lparr>disk := \<lambda>_. replicate BSIZE 0\<rparr>) (log_state.fields 2 30 1 False ROOTDEV 0 (replicate LOGSIZE 0))"

lemma log_example_ready: "boot_ready log_example"
  using bio_example_ready by (simp add: boot_ready_def log_example_def bio_state.defs log_state.defs my_proc_def)

lemma zero_disk_n: "disk_n st (\<lambda>_. replicate BSIZE 0) = 0"
proof -
  have "get32 (replicate BSIZE 0) 0 = (0 :: u32)" by (rule bit_word_eqI) (simp add: bit_get_le)
  then show ?thesis by (simp add: disk_n_def)
qed

lemma log_example_boot: "tx_inv (binit log_example)" "fresh_cache (binit log_example)"
  "disk (binit log_example) = (\<lambda>_. replicate BSIZE 0)" "lh_n (binit log_example) = 0" "log_start (binit log_example) = 2"
  "log_size (binit log_example) = 30" "log_outstanding (binit log_example) = 1" "length (lh_block (binit log_example)) = LOGSIZE"
proof -
  note I = binit_inv [OF log_example_ready]
  note f = bframe_log [OF I(2)]
  note A = abs_eqD [OF I(3)]
  have e: "log_start log_example = 2" "log_size log_example = 30" "log_outstanding log_example = 1" "log_dev log_example = ROOTDEV" "lh_n log_example = 0"
    "lh_block log_example = replicate LOGSIZE 0" "disk log_example = (\<lambda>_. replicate BSIZE 0)" "held log_example = {}"
    by (simp_all add: log_example_def bio_example_def pgroup_state.defs bio_state.defs log_state.defs pg_example_def)
  show d: "disk (binit log_example) = (\<lambda>_. replicate BSIZE 0)" using A e by simp
  show "fresh_cache (binit log_example)" using I(1,3) A by (simp add: fresh_cache_def)
  show "lh_n (binit log_example) = 0" "log_start (binit log_example) = 2" "log_size (binit log_example) = 30"
    "log_outstanding (binit log_example) = 1" "length (lh_block (binit log_example)) = LOGSIZE" using f e by simp_all
  have "held (binit log_example) = {}" using I(2) e by (auto simp: bframe_def)
  then show "tx_inv (binit log_example)" using I(1) f e d by (simp add: tx_inv_def logged_def zero_disk_n)
qed

definition writing :: "log_state \<Rightarrow> nat \<Rightarrow> bool" where
  "writing u x \<longleftrightarrow> tx_inv u \<and> bhnd u x = Some 50 \<and> homes u = {} \<and> lh_n u = 0 \<and> log_size u = 30 \<and> log_outstanding u = 1 \<and> lstart u = 2 \<and>
     bref u 50 = 1 \<and> bview u = (\<lambda>_. replicate BSIZE 0)(50 := replicate BSIZE 1) \<and> disk u = (\<lambda>_. replicate BSIZE 0) \<and>
     blocked u = (\<lambda>_. False)(50 := True) \<and> bref u = (\<lambda>_. 0)(50 := 1)"

lemma writing_D:
  assumes "writing u x"
  shows "tx_inv u" "bhnd u x = Some 50" "homes u = {}" "lh_n u = 0" "log_size u = 30" "log_outstanding u = 1" "lstart u = 2"
    "bview u = (\<lambda>_. replicate BSIZE 0)(50 := replicate BSIZE 1)" "disk u = (\<lambda>_. replicate BSIZE 0)"
    "blocked u = (\<lambda>_. False)(50 := True)" "bref u = (\<lambda>_. 0)(50 := 1)"
  using assms unfolding writing_def by simp_all

lemma one_write: "\<exists>u x. writing u x"
proof -
  let ?s = "binit log_example"
  note B = log_example_boot
  note F = fresh_cache_D [OF B(2)]
  obtain x u where u: "bread ROOTDEV 50 ?s = Ok (x, u)" "bc_inv u" "bframe ?s u" "bcache_abs u = a_read x 50 (bcache_abs ?s)"
    using bc.rd_law [OF F(1), of 50] F by (auto simp: has_room_def NBUF_def)
  note U = abs_eqD [OF u(4)]
  have hx: "bhnd u x = Some 50" using U by (simp add: cache_ops)
  define v where "v = set_buf_data x (replicate BSIZE 1) u"
  have v: "bc_inv v" "bframe u v" "bcache_abs v = a_set 50 (replicate BSIZE 1) (bcache_abs u)"
    using bc.set_law [OF u(2), of x 50 "replicate BSIZE 1"] hx by (simp_all add: v_def)
  note V = abs_eqD [OF v(3)]
  have fr: "bframe ?s v" using u(3) v(2) by (rule bframe_trans)
  note f = bframe_log [OF fr]
  have "homes ?s = {}" using B(4) by (simp add: homes_def)
  then have "tx_inv v" "homes v = {}" using tx_frame [OF B(1) v(1) fr] U V by (auto simp: cache_ops)
  moreover have "lstart v = 2" using f B(5) by (simp add: lstart_def)
  ultimately have "writing v x" unfolding writing_def using U V F f B hx by (simp add: cache_ops fun_eq_iff)
  then show ?thesis by blast
qed

lemma area_example: "(50 :: u32) \<notin> log_area 2"
proof
  assume "(50 :: u32) \<in> log_area 2"
  then obtain i where i: "i < 30" "(50 :: u32) = 2 + word_of_nat i + 1" by (auto simp: log_area_def lblock_def)
  then have "(word_of_nat i :: u32) = word_of_nat 47" by (simp add: algebra_simps)
  then have "unat (word_of_nat i :: u32) = unat (word_of_nat 47 :: u32)" by simp
  then show False using i(1) by simp
qed

lemma commit_example:
  "\<exists>t :: log_state. commit_ready t \<and> lh_n t = 1 \<and> lstart t = 2 \<and> bview t 50 = replicate BSIZE 1 \<and> disk t = (\<lambda>_. replicate BSIZE 0)"
proof -
  obtain u x where wu: "writing u x" using one_write by blast
  note u = writing_D [OF wu]
  note area = area_example
  obtain w where w: "log_write x u = Ok w" "tx_inv w" "homes w = {50}" "lh_n w = 1" "bcache_abs w = a_refs Suc 50 (bcache_abs u)" "log_start w = log_start u"
    using log_write_law [OF u(1,2)] u area by auto
  note W = abs_eqD [OF w(5)]
  have iw: "bc_inv w" using w(2) by (simp add: tx_inv_def)
  obtain t where t: "brelse x w = Ok t" "bc_inv t" "bframe w t" "bcache_abs t = a_release x 50 (bcache_abs w)"
    using bc.rel_law [OF iw, of x 50] W u by (auto simp: a_refs_def)
  note T = abs_eqD [OF t(4)] and f = bframe_log [OF t(3)]
  have tx: "tx_inv t" "homes t = {50}" using tx_frame [OF w(2) t(2,3)] T W w(3) u by (auto simp: cache_ops)
  have R: "bref t = (\<lambda>_. 0)(50 := 1)" "blocked t = (\<lambda>_. False)" using T W u by (auto simp: cache_ops fun_eq_iff)
  have "{b. 0 < bref t b} = {50}" unfolding R by auto
  then have "quiet t" using t(2) tx(1) R unfolding quiet_def by (simp add: tx_inv_def NBUF_def)
  moreover have "bview t b = disk t b" if "b \<notin> homes t" for b using that T W u tx(2) by (auto simp: cache_ops)
  ultimately have "commit_ready t" using tx_commit_ready [OF tx(1)] f w(4) by simp
  moreover have "lstart t = 2" using f w(6) u(7) by (simp add: lstart_def)
  ultimately show ?thesis using f w(4) T W u by (intro exI [of _ t]) (simp add: cache_ops)
qed

theorem log_crash_safe_witness:
  "\<exists>s t :: log_state. commit_ready s \<and> lh_n s < int LOGSIZE \<and> commit s = Ok t \<and> disk s 50 = replicate BSIZE 0 \<and> disk t 50 = replicate BSIZE 1"
proof -
  obtain s :: log_state where s: "commit_ready s" "lh_n s = 1" "lstart s = 2" "bview s 50 = replicate BSIZE 1" "disk s = (\<lambda>_. replicate BSIZE 0)"
    using commit_example by blast
  have small: "lh_n s < int LOGSIZE" using s(2) by simp
  have "(50 :: u32) = home s 0"
  proof (rule ccontr)
    assume "(50 :: u32) \<noteq> home s 0"
    then have "(50 :: u32) \<notin> home s ` {i. i < nat (lh_n s)}" using s(2) by simp
    then have "bview s 50 = disk s 50" using s(1) by (simp add: commit_ready_def)
    then show False using s(4,5) by simp
  qed
  then have "(50 :: u32) \<notin> log_area (lstart s)" using s(1,2) unfolding commit_ready_def logged_def by simp
  moreover obtain t where t: "commit s = Ok t" "\<forall>b. b \<notin> log_area (lstart s) \<longrightarrow> disk t b = bview s b \<and> bview t b = bview s b"
    using log_crash_safe [OF s(1) small, where nlog = 30] by blast
  ultimately have "disk t 50 = replicate BSIZE 1" using s(4) by simp
  then show ?thesis using s t(1) by (intro exI [of _ s] exI [of _ t]) simp
qed

text \<open>
  C21: a write in a transaction. Within a transaction and while the log has room, \<open>log_write\<close> of a
  buffer the caller holds puts its block into the header exactly once: a block already there is
  absorbed and nothing changes, a new one takes the next entry and pins its buffer, so that the cache
  cannot drop it before the commit. Contents and disk stay as they are, and the entries remain
  distinct, pinned and outside the log. Otherwise it panics.
\<close>

theorem log_write_correct:
  assumes tx: "tx_inv s" and h: "bhnd s x = Some b" and area: "b \<notin> log_area (lstart s)" and few: "Suc (bref s b) < 2 ^ 32"
  shows "(lh_n s < int LOGSIZE \<and> lh_n s < log_size s - 1 \<and> 1 \<le> log_outstanding s \<longrightarrow>
      kok (\<lambda>t. tx_inv t \<and> homes t = insert b (homes s) \<and> lh_n t = int (card (homes t)) \<and>
        bcache_abs t = (if b \<in> homes s then bcache_abs s else a_refs Suc b (bcache_abs s))) (log_write x s)) \<and>
    (int LOGSIZE \<le> lh_n s \<or> log_size s - 1 \<le> lh_n s \<longrightarrow> log_write x s = Panic ''too big a transaction'') \<and>
    (lh_n s < int LOGSIZE \<and> lh_n s < log_size s - 1 \<and> log_outstanding s < 1 \<longrightarrow> log_write x s = Panic ''log_write outside of trans'')"
proof (intro conjI impI)
  assume r: "lh_n s < int LOGSIZE \<and> lh_n s < log_size s - 1 \<and> 1 \<le> log_outstanding s"
  have card: "lh_n u = int (card (homes u))" if "tx_inv u" for u :: "'a log_state_scheme"
    using that by (simp add: tx_inv_def logged_def homes_def card_image)
  show "kok (\<lambda>t. tx_inv t \<and> homes t = insert b (homes s) \<and> lh_n t = int (card (homes t)) \<and>
        bcache_abs t = (if b \<in> homes s then bcache_abs s else a_refs Suc b (bcache_abs s))) (log_write x s)"
    using log_write_law [OF tx h area few] r card by (auto simp: kok_def)
qed (simp_all add: log_write_def)

theorem log_write_correct_witness:
  "\<exists>(u :: log_state) x t. tx_inv u \<and> homes u = {} \<and> log_write x u = Ok t \<and> homes t = {50} \<and> bref u 50 = 1 \<and> bref t 50 = 2"
proof -
  obtain u x where wu: "writing u x" using one_write by blast
  note u = writing_D [OF wu]
  have r: "bref u 50 = 1" using u(11) by simp
  have area: "(50 :: u32) \<notin> log_area (lstart u)"
    using u(7) area_example by simp
  have few: "Suc (bref u 50) < 2 ^ 32" using r by simp
  have "lh_n u < int LOGSIZE \<and> lh_n u < log_size u - 1 \<and> 1 \<le> log_outstanding u" using u(4,5,6) by simp
  then have "kok (\<lambda>t. tx_inv t \<and> homes t = insert 50 (homes u) \<and> lh_n t = int (card (homes t)) \<and>
      bcache_abs t = (if 50 \<in> homes u then bcache_abs u else a_refs Suc 50 (bcache_abs u))) (log_write x u)"
    using log_write_correct [OF u(1,2) area few] by blast
  then obtain t where t: "log_write x u = Ok t" "homes t = {50}" "bcache_abs t = a_refs Suc 50 (bcache_abs u)" unfolding kok_def u(3) by auto
  then have "bref t 50 = 2" using abs_eqD [OF t(3)] r by (simp add: a_refs_def)
  then show ?thesis using u(1,3) t r by blast
qed

text \<open>
  C22: recovery leaves reference counts wrong. When \<open>initlog\<close> finds a committed transaction on the
  disk it installs it, but it calls \<open>bunpin\<close> on buffers that nobody pinned: for every block it
  installed, the 32-bit reference count of its buffer ends as \<open>2 ^ 32 - 1\<close> although nobody refers to
  it, so \<open>bget\<close> never recycles the buffer.
\<close>

theorem recovery_leaks_buffers:
  assumes fresh: "fresh_cache s" and len: "length (lh_block s) = LOGSIZE" and v: "valid_header logstart (disk s)"
  shows "kok (\<lambda>t. bc_inv t \<and> (\<forall>b. b \<noteq> logstart \<longrightarrow> disk t b = recovered logstart (disk s) b) \<and>
      (\<forall>i < disk_n logstart (disk s). bref t (word_of_int (head_block (disk s logstart) i)) = 2 ^ 32 - 1))
    (initlog ROOTDEV logstart nlog s)"
proof -
  let ?r = "s\<lparr>log_start := sint logstart, log_size := sint nlog, log_dev := ROOTDEV\<rparr>"
  have a: "bc_inv ?r = bc_inv s" "bcache_abs ?r = bcache_abs s" by (rule bc_cong; simp)+
  have "fresh_cache ?r" using fresh a by (simp add: fresh_cache_def)
  moreover have st: "lstart ?r = logstart" by (simp add: lstart_def)
  ultimately show ?thesis using recover_law [of ?r] len v by (auto simp: initlog_def kok_def)
qed

lemma boot_with_disk:
  assumes "\<And>b. length (d b) = BSIZE"
  shows "\<exists>r :: log_state. rebooted d r"
proof -
  let ?s = "log_example\<lparr>disk := d\<rparr>"
  have "boot_ready ?s" using log_example_ready assms by (simp add: boot_ready_def my_proc_def)
  note I = binit_inv [OF this]
  have "length (lh_block ?s) = LOGSIZE" by (simp add: log_example_def bio_state.defs log_state.defs)
  then have "rebooted d (binit ?s)"
    using I(1,3) abs_eqD [OF I(3)] bframe_log(4) [OF I(2)] by (simp add: rebooted_def fresh_cache_def)
  then show ?thesis by blast
qed

lemma after_length: "(\<And>b. length (d b) = BSIZE) \<Longrightarrow> (\<And>b x. (b, x) \<in> set ws \<Longrightarrow> length x = BSIZE) \<Longrightarrow> length (after ws d b) = BSIZE"
proof (induction ws arbitrary: d)
  case (Cons w ws)
  obtain c x where w: "w = (c, x)" by (cases w)
  have "length (after ws (d(c := x)) b) = BSIZE" using Cons.prems w by (intro Cons.IH) auto
  then show ?case using w by simp
qed simp

theorem recovery_leaks_buffers_witness:
  "\<exists>r t :: log_state. fresh_cache r \<and> initlog ROOTDEV 2 30 r = Ok t \<and> (\<exists>b. disk r b \<noteq> disk t b \<and> bref t b = 2 ^ 32 - 1)"
proof -
  obtain s :: log_state where s: "commit_ready s" "lh_n s = 1" "lstart s = 2" "bview s 50 = replicate BSIZE 1" "disk s = (\<lambda>_. replicate BSIZE 0)"
    using commit_example by blast
  note D = commit_ready_D [OF s(1) refl]
  have small: "lh_n s < int LOGSIZE" using s(2) by simp
  let ?d = "after (take 2 (commit_writes s)) (disk s)"
  have ws: "take 2 (commit_writes s) = log_writes s 1 @ [(2, head_new s)]"
    using s(2,3) by (simp add: commit_writes_def log_writes_def)
  have "length (head_new s) = BSIZE" using encode_head(1) [OF D(8)] s(2) by (simp add: head_new_def)
  then have "length (?d b) = BSIZE" for b
    using D(8) s(5) by (intro after_length) (auto simp: ws log_writes_def)
  then obtain r :: log_state where "rebooted ?d r" using boot_with_disk by blast
  then have r: "fresh_cache r" "disk r = ?d" "length (lh_block r) = LOGSIZE" by (simp_all add: rebooted_def)
  have v: "valid_header 2 (disk r)" unfolding r(2) using prefix_header [OF s(1) small, of 2] s(3) by simp
  have d2: "disk r (lstart s) = head_new s" using r(2) ws s(3) by (simp add: after_append)
  note H = header_decode [where d = "disk r", OF s(1) refl d2]
  have h: "home s 0 = 50"
  proof (rule ccontr)
    assume "home s 0 \<noteq> 50"
    then have "bview s 50 = disk s 50" using D(6) [of 50] s(2) by auto
    then show False using s(4,5) by simp
  qed
  obtain t where t: "initlog ROOTDEV 2 30 r = Ok t" "\<forall>b. b \<noteq> 2 \<longrightarrow> disk t b = recovered 2 (disk r) b"
      "\<forall>i < disk_n 2 (disk r). bref t (word_of_int (head_block (disk r 2) i)) = 2 ^ 32 - 1"
    using recovery_leaks_buffers [OF r(1,3) v, where nlog = 30] by (auto simp: kok_def)
  have "bref t 50 = 2 ^ 32 - 1" using t(3) H s(2,3) h by simp
  moreover have "(50 :: u32) \<notin> log_area 2" by (rule area_example)
  then have "recovered 2 (disk r) 50 = bview s 50" using crash_after_header [OF s(1) refl, of 50 0] s(2,3) r(2) ws by simp
  then have "disk t 50 = replicate BSIZE 1" using t(2) s(4) by simp
  moreover have "disk r 50 = replicate BSIZE 0"
  proof -
    have "lblock 2 0 \<noteq> 50" by (simp add: lblock_def)
    then show ?thesis using r(2) ws s(3,5) by (simp add: log_writes_def after_def)
  qed
  ultimately show ?thesis using r(1) t(1) by (intro exI [of _ r] exI [of _ t]) (auto intro!: exI [of _ 50])
qed

end
