(* ===== verification/Transaction.thy ===== *)
theory Transaction
  imports Log
begin

text \<open>
  What the log promises to the file system: between \<open>begin_op\<close> and \<open>end_op\<close>, blocks are read,
  changed and handed to \<open>log_write\<close>. The interface \<open>transaction\<close> states the laws of these calls on
  the contents a reader of a block sees, for a caller that holds a set of blocks locked and may
  still log a number of blocks; it is interpreted with the code of log.c and bio.c.
\<close>

section \<open>The interface\<close>

locale transaction =
  fixes ok :: "nat \<Rightarrow> u32 set \<Rightarrow> 's \<Rightarrow> bool" and view :: "'s \<Rightarrow> u32 \<Rightarrow> u8 list" and hnd :: "'s \<Rightarrow> 'h \<Rightarrow> u32 option"
    and logged_set :: "'s \<Rightarrow> u32 set" and usable :: "'s \<Rightarrow> u32 \<Rightarrow> bool" and frame :: "'s \<Rightarrow> 's \<Rightarrow> bool"
    and rd :: "u32 \<Rightarrow> 's \<Rightarrow> ('h \<times> 's) kres" and rel wr :: "'h \<Rightarrow> 's \<Rightarrow> 's kres"
    and set_data :: "'h \<Rightarrow> u8 list \<Rightarrow> 's \<Rightarrow> 's" and get_data :: "'h \<Rightarrow> 's \<Rightarrow> u8 list" and clean :: "'s \<Rightarrow> u32 \<Rightarrow> bool"
  assumes frame_refl: "frame s s"
    and frame_trans: "frame s t \<Longrightarrow> frame t u \<Longrightarrow> frame s u"
    and frame_usable: "frame s t \<Longrightarrow> usable t b \<longleftrightarrow> usable s b"
    and ok_finite: "ok k L s \<Longrightarrow> finite L"
    and ok_clean: "ok k L s \<Longrightarrow> b \<notin> L \<Longrightarrow> b \<in> logged_set s \<or> clean s b"
    and view_length: "ok k L s \<Longrightarrow> length (view s b) = BSIZE"
    and rd_law: "ok k L s \<Longrightarrow> b \<notin> L \<Longrightarrow> card L \<le> k \<Longrightarrow> usable s b \<Longrightarrow>
        \<exists>i t. rd b s = Ok (i, t) \<and> ok k (insert b L) t \<and> frame s t \<and> view t = view s \<and> hnd s i = None \<and> hnd t = (hnd s)(i \<mapsto> b) \<and>
          logged_set t = logged_set s \<and> (clean t = clean s)"
    and get_law: "ok k L s \<Longrightarrow> hnd s i = Some b \<Longrightarrow> get_data i s = view s b"
    and set_law: "ok k L s \<Longrightarrow> hnd s i = Some b \<Longrightarrow> b \<in> L \<Longrightarrow> length d = BSIZE \<Longrightarrow>
        ok k L (set_data i d s) \<and> frame s (set_data i d s) \<and> view (set_data i d s) = (view s)(b := d) \<and>
        hnd (set_data i d s) = hnd s \<and> logged_set (set_data i d s) = logged_set s"
    and wr_law: "ok (Suc k) L s \<Longrightarrow> hnd s i = Some b \<Longrightarrow> b \<in> L \<Longrightarrow>
        \<exists>t. wr i s = Ok t \<and> ok k L t \<and> frame s t \<and> view t = view s \<and> hnd t = hnd s \<and> logged_set t = insert b (logged_set s)"
    and rel_law: "ok k L s \<Longrightarrow> hnd s i = Some b \<Longrightarrow> b \<in> L \<Longrightarrow> b \<in> logged_set s \<or> clean s b \<Longrightarrow>
        \<exists>t. rel i s = Ok t \<and> ok k (L - {b}) t \<and> frame s t \<and> view t = view s \<and> hnd t = (hnd s)(i := None) \<and>
          logged_set t = logged_set s"
begin

text \<open>Reading a block.\<close>

lemma peek_block:
  assumes "ok k L s" "b \<notin> L" "card L \<le> k" "usable s b"
  shows "\<exists>i u t. rd b s = Ok (i, u) \<and> frame s u \<and> get_data i u = view s b \<and> rel i u = Ok t \<and> ok k L t \<and> frame s t \<and>
    view t = view s \<and> hnd t = hnd s \<and> logged_set t = logged_set s"
proof -
  obtain i u where u: "rd b s = Ok (i, u)" "ok k (insert b L) u" "frame s u" "view u = view s" "hnd s i = None" "hnd u = (hnd s)(i \<mapsto> b)"
      "logged_set u = logged_set s" "clean u = clean s"
    using rd_law [OF assms] by blast
  have h: "hnd u i = Some b" using u(6) by simp
  have "b \<in> logged_set u \<or> clean u b" using ok_clean [OF assms(1,2)] u(7,8) by simp
  then obtain t where t: "rel i u = Ok t" "ok k (insert b L - {b}) t" "frame u t" "view t = view u" "hnd t = (hnd u)(i := None)" "logged_set t = logged_set u"
    using rel_law [OF u(2) h] by blast
  have "insert b L - {b} = L" using assms(2) by auto
  moreover have "hnd t = hnd s" using t(5) u(5,6) by (simp add: fun_upd_idem)
  ultimately show ?thesis using u(1,3,4,7) t(1,2,4,6) get_law [OF u(2) h] frame_trans [OF u(3) t(3)] by auto
qed

text \<open>Reading a block, changing it and logging the change.\<close>

lemma update_block:
  assumes s: "ok (Suc k) L s" "b \<notin> L" "card L \<le> Suc k" "usable s b" and len: "length (f (view s b)) = BSIZE"
  shows "\<exists>i u w t. rd b s = Ok (i, u) \<and> frame s u \<and> get_data i u = view s b \<and> wr i (set_data i (f (view s b)) u) = Ok w \<and> frame s w \<and>
    rel i w = Ok t \<and> ok k L t \<and> frame s t \<and> view t = (view s)(b := f (view s b)) \<and> hnd t = hnd s \<and> logged_set t = insert b (logged_set s)"
proof -
  obtain i u where u: "rd b s = Ok (i, u)" "ok (Suc k) (insert b L) u" "frame s u" "view u = view s" "hnd s i = None" "hnd u = (hnd s)(i \<mapsto> b)"
      "logged_set u = logged_set s"
    using rd_law [OF s] by blast
  have h: "hnd u i = Some b" using u(6) by simp
  let ?v = "set_data i (f (view s b)) u"
  have v: "ok (Suc k) (insert b L) ?v" "frame u ?v" "view ?v = (view u)(b := f (view s b))" "hnd ?v = hnd u" "logged_set ?v = logged_set u"
    using set_law [OF u(2) h] len by auto
  obtain w where w: "wr i ?v = Ok w" "ok k (insert b L) w" "frame ?v w" "view w = view ?v" "hnd w = hnd ?v" "logged_set w = insert b (logged_set ?v)"
    using wr_law [OF v(1), of i b] h v(4) by auto
  obtain t where t: "rel i w = Ok t" "ok k (insert b L - {b}) t" "frame w t" "view t = view w" "hnd t = (hnd w)(i := None)" "logged_set t = logged_set w"
    using rel_law [OF w(2), of i b] h v(4) w(5,6) by auto
  have fr: "frame s w" "frame s t" using u(3) v(2) w(3) t(3) frame_trans by blast+
  have "insert b L - {b} = L" using s(2) by auto
  moreover have "hnd t = hnd s" using t(5) w(5) v(4) u(5,6) by (simp add: fun_upd_idem)
  ultimately show ?thesis using u(1,3,4,7) v(3,5) w(1,4,6) t(1,2,4,6) get_law [OF u(2) h] fr by auto
qed

end

section \<open>Its implementation\<close>

definition tframe :: "'a log_state_scheme \<Rightarrow> 'a log_state_scheme \<Rightarrow> bool" where
  "tframe s t \<longleftrightarrow> (\<exists>ps bs L n bl. t = s\<lparr>procs := ps, bufs := bs, blinks := L, lh_n := n, lh_block := bl\<rparr> \<and>
     map unslept ps = map unslept (procs s))"

lemma tframe_fields:
  assumes "tframe s t"
  shows "held t = held s" "noff t = noff s" "mem t = mem s" "cpus t = cpus s" "me t = me s" "disk t = disk s" "wlog t = wlog s"
    "log_start t = log_start s" "log_size t = log_size s" "log_outstanding t = log_outstanding s" "lstart t = lstart s" "my_proc t = my_proc s"
    "log_state.more t = log_state.more s" "map unslept (procs t) = map unslept (procs s)"
  using assms by (auto simp: tframe_def lstart_def my_proc_def)

lemma tframe_refl: "tframe s s"
  unfolding tframe_def by (rule exI [of _ "procs s"], rule exI [of _ "bufs s"], rule exI [of _ "blinks s"], rule exI [of _ "lh_n s"], rule exI [of _ "lh_block s"]) simp

lemma tframe_trans: "tframe s t \<Longrightarrow> tframe t u \<Longrightarrow> tframe s u"
  unfolding tframe_def by fastforce

lemma bframe_tframe: "bframe s t \<Longrightarrow> disk t = disk s \<Longrightarrow> wlog t = wlog s \<Longrightarrow> tframe s t"
proof -
  assume "bframe s t" "disk t = disk s" "wlog t = wlog s"
  then obtain ps bs L where t: "t = s\<lparr>procs := ps, disk := disk s, wlog := wlog s, bufs := bs, blinks := L\<rparr>" "map unslept ps = map unslept (procs s)"
    unfolding bframe_def by auto
  have "t = s\<lparr>procs := ps, bufs := bs, blinks := L, lh_n := lh_n s, lh_block := lh_block s\<rparr>" unfolding t(1) by simp
  then show ?thesis using t(2) unfolding tframe_def by blast
qed

definition tx_ok :: "nat \<Rightarrow> u32 set \<Rightarrow> 'a log_state_scheme \<Rightarrow> bool" where
  "tx_ok k L s \<longleftrightarrow> tx_inv s \<and> 1 \<le> log_outstanding s \<and> log_size s \<le> int LOGSIZE \<and> lh_n s + int k \<le> log_size s - 1 \<and>
     finite L \<and> L \<inter> log_area (lstart s) = {} \<and> blocked s = (\<lambda>b. b \<in> L) \<and>
     bref s = (\<lambda>b. (if b \<in> homes s then 1 else 0) + (if b \<in> L then 1 else 0)) \<and>
     (\<forall>b. b \<notin> homes s \<and> b \<notin> L \<longrightarrow> bview s b = disk s b)"

lemma tx_ok_D:
  assumes "tx_ok k L s"
  shows "tx_inv s" "1 \<le> log_outstanding s" "log_size s \<le> int LOGSIZE" "lh_n s + int k \<le> log_size s - 1" "finite L" "L \<inter> log_area (lstart s) = {}"
    "blocked s = (\<lambda>b. b \<in> L)" "bref s = (\<lambda>b. (if b \<in> homes s then 1 else 0) + (if b \<in> L then 1 else 0))"
    "b \<notin> homes s \<Longrightarrow> b \<notin> L \<Longrightarrow> bview s b = disk s b" "bc_inv s" "lh_n s = int (card (homes s))" "finite (homes s)"
  using assms by (auto simp: tx_ok_def tx_inv_def logged_def homes_def card_image)

lemma tx_frame_state:
  assumes ok: "tx_ok k L s" and t: "bc_inv t" "bframe s t" "disk t = disk s"
    and L': "finite L'" "L' \<inter> log_area (lstart s) = {}" "blocked t = (\<lambda>b. b \<in> L')"
      "bref t = (\<lambda>b. (if b \<in> homes s then 1 else 0) + (if b \<in> L' then 1 else 0))"
    and cl: "\<And>b. b \<notin> homes s \<Longrightarrow> b \<notin> L' \<Longrightarrow> bview t b = disk s b"
  shows "tx_ok k L' t" "homes t = homes s"
proof -
  note D = tx_ok_D [OF ok] and f = bframe_log [OF t(2)]
  have "0 < bref t b" if "b \<in> homes s" for b using L'(4) that by simp
  note T = tx_frame [OF D(1) t(1,2,3) this]
  show "homes t = homes s" by (rule T(2))
  show "tx_ok k L' t" using T D f L' cl t(3) by (simp add: tx_ok_def)
qed

definition usable :: "'a log_state_scheme \<Rightarrow> u32 \<Rightarrow> bool" where
  "usable s b \<longleftrightarrow> b \<notin> log_area (lstart s)"

definition tx_clean :: "'a log_state_scheme \<Rightarrow> u32 \<Rightarrow> bool" where
  "tx_clean s b \<longleftrightarrow> bview s b = disk s b"

lemma tx_read_law:
  assumes ok: "tx_ok k L s" and b: "b \<notin> L" and c: "card L \<le> k" and u: "usable s b"
  shows "\<exists>i t. bread ROOTDEV b s = Ok (i, t) \<and> tx_ok k (insert b L) t \<and> tframe s t \<and> bview t = bview s \<and> bhnd s i = None \<and>
    bhnd t = (bhnd s)(i \<mapsto> b) \<and> homes t = homes s \<and> tx_clean t = tx_clean s"
proof -
  note D = tx_ok_D [OF ok]
  have "{x. 0 < bref s x} \<subseteq> homes s \<union> L" unfolding D(8) by auto
  then have "card {x. 0 < bref s x} \<le> card (homes s \<union> L)" using D(5,12) by (intro card_mono) auto
  also have "\<dots> \<le> card (homes s) + card L" by (rule card_Un_le)
  also have "\<dots> < NBUF" using D(3,4,11) c by (simp add: NBUF_def)
  finally have room: "has_room NBUF (bcache_abs s) b" by (simp add: has_room_def)
  have few: "Suc (bref s b) < 2 ^ 32" unfolding D(8) using b by simp
  obtain i t where t: "bread ROOTDEV b s = Ok (i, t)" "bc_inv t" "bframe s t" "chandle (bcache_abs s) i = None" "bcache_abs t = a_read i b (bcache_abs s)"
    using bc.rd_law [OF D(10) _ _ room] D(7) b few by auto
  note T = abs_eqD [OF t(5)]
  have d: "disk t = disk s" "wlog t = wlog s" "bview t = bview s" using T by (simp_all add: cache_ops)
  have L: "finite (insert b L)" "insert b L \<inter> log_area (lstart s) = {}" "blocked t = (\<lambda>x. x \<in> insert b L)"
    "bref t = (\<lambda>x. (if x \<in> homes s then 1 else 0) + (if x \<in> insert b L then 1 else 0))"
    using T D(5,6,7,8) u b by (auto simp: cache_ops usable_def fun_eq_iff)
  have "bview t x = disk s x" if "x \<notin> homes s" "x \<notin> insert b L" for x using d D(9) that by simp
  note S = tx_frame_state [OF ok t(2,3) d(1) L this]
  show ?thesis using t(1,4) S bframe_tframe [OF t(3) d(1,2)] d T by (auto simp: cache_ops tx_clean_def fun_eq_iff)
qed

lemma tx_set_law:
  assumes ok: "tx_ok k L s" and h: "bhnd s i = Some b" and b: "b \<in> L" and len: "length d = BSIZE"
  shows "tx_ok k L (set_buf_data i d s) \<and> tframe s (set_buf_data i d s) \<and> bview (set_buf_data i d s) = (bview s)(b := d) \<and>
    bhnd (set_buf_data i d s) = bhnd s \<and> homes (set_buf_data i d s) = homes s"
proof -
  note D = tx_ok_D [OF ok]
  let ?t = "set_buf_data i d s"
  have t: "bc_inv ?t" "bframe s ?t" "bcache_abs ?t = a_set b d (bcache_abs s)" using bc.set_law [OF D(10)] h len by auto
  note T = abs_eqD [OF t(3)]
  have dd: "disk ?t = disk s" "wlog ?t = wlog s" using T by (simp_all add: cache_ops)
  have "blocked ?t = (\<lambda>x. x \<in> L)" "bref ?t = (\<lambda>x. (if x \<in> homes s then 1 else 0) + (if x \<in> L then 1 else 0))"
    using T D(7,8) by (simp_all add: cache_ops)
  moreover have "bview ?t x = disk s x" if "x \<notin> homes s" "x \<notin> L" for x using T D(9) that b by (auto simp: cache_ops)
  ultimately have "tx_ok k L ?t" "homes ?t = homes s" using tx_frame_state [OF ok t(1,2) dd(1) D(5,6)] by blast+
  then show ?thesis using bframe_tframe [OF t(2) dd] T by (simp add: cache_ops)
qed

lemma tx_rel_law:
  assumes ok: "tx_ok k L s" and h: "bhnd s i = Some b" and b: "b \<in> L" and c: "b \<in> homes s \<or> tx_clean s b"
  shows "\<exists>t. brelse i s = Ok t \<and> tx_ok k (L - {b}) t \<and> tframe s t \<and> bview t = bview s \<and> bhnd t = (bhnd s)(i := None) \<and> homes t = homes s"
proof -
  note D = tx_ok_D [OF ok]
  have "crefs (bcache_abs s) b = 1 \<longrightarrow> cview (bcache_abs s) b = cdisk (bcache_abs s) b"
    using c b D(8) by (auto simp: tx_clean_def)
  then obtain t where t: "brelse i s = Ok t" "bc_inv t" "bframe s t" "bcache_abs t = a_release i b (bcache_abs s)"
    using bc.rel_law [OF D(10), of i b] h by auto
  note T = abs_eqD [OF t(4)]
  have d: "disk t = disk s" "wlog t = wlog s" "bview t = bview s" using T by (simp_all add: cache_ops)
  have L: "finite (L - {b})" "(L - {b}) \<inter> log_area (lstart s) = {}" "blocked t = (\<lambda>x. x \<in> L - {b})"
    "bref t = (\<lambda>x. (if x \<in> homes s then 1 else 0) + (if x \<in> L - {b} then 1 else 0))"
    using T D(5,6,7,8) b by (auto simp: cache_ops fun_eq_iff)
  have "bview t x = disk s x" if "x \<notin> homes s" "x \<notin> L - {b}" for x
    using d D(9) that c by (cases "x = b") (auto simp: tx_clean_def)
  note S = tx_frame_state [OF ok t(2,3) d(1) L this]
  show ?thesis using t(1) S bframe_tframe [OF t(3) d(1,2)] d T by (auto simp: cache_ops)
qed

lemma log_write_tframe:
  assumes "log_write x s = Ok t" "bc_inv s" "LogLock \<notin> held s"
  shows "tframe s t"
proof -
  let ?s = "s\<lparr>held := insert LogLock (held s), noff := Suc (noff s)\<rparr>"
  have a: "acquire LogLock s = Ok ?s" using assms(3) by (simp add: lock_simps)
  have pin: "bpin x (?s\<lparr>lh_block := bl\<rparr>) = Ok (upd_buf x (\<lambda>b. b\<lparr>b_refcnt := b_refcnt b + 1\<rparr>) (?s\<lparr>lh_block := bl\<rparr>))" for bl
  proof -
    have "bc_inv (?s\<lparr>lh_block := bl\<rparr>)" using assms(2) by (simp add: cache_frame_simps)
    then show ?thesis using bpin_eq bc_inv_D(1) by blast
  qed
  obtain bl where "t = s\<lparr>lh_block := bl\<rparr> \<or>
      t = s\<lparr>lh_block := bl, bufs := (bufs s)[x := (bbuf x s)\<lparr>b_refcnt := b_refcnt (bbuf x s) + 1\<rparr>], lh_n := lh_n s + 1\<rparr>"
    using assms(1,3) unfolding log_write_def a Let_def
    by (auto simp: pin lock_simps upd_buf_def split: if_splits)
  moreover have "s\<lparr>lh_block := bl\<rparr> = s\<lparr>bufs := bufs s, lh_n := lh_n s, lh_block := bl\<rparr>" by simp
  moreover have "s\<lparr>lh_block := bl, bufs := bs, lh_n := n\<rparr> = s\<lparr>bufs := bs, lh_n := n, lh_block := bl\<rparr>" for bs n by (cases s) simp
  ultimately obtain bs n where "t = s\<lparr>bufs := bs, lh_n := n, lh_block := bl\<rparr>" by metis
  then have "t = s\<lparr>procs := procs s, bufs := bs, blinks := blinks s, lh_n := n, lh_block := bl\<rparr>" by simp
  then show ?thesis unfolding tframe_def by blast
qed

lemma tx_log_law:
  assumes ok: "tx_ok (Suc k) L s" and h: "bhnd s i = Some b" and b: "b \<in> L"
  shows "\<exists>t. log_write i s = Ok t \<and> tx_ok k L t \<and> tframe s t \<and> bview t = bview s \<and> bhnd t = bhnd s \<and> homes t = insert b (homes s)"
proof -
  note D = tx_ok_D [OF ok]
  have area: "b \<notin> log_area (lstart s)" using D(6) b by auto
  have few: "Suc (bref s b) < 2 ^ 32" unfolding D(8) by simp
  have room: "lh_n s < int LOGSIZE" "lh_n s < log_size s - 1" using D(3,4) by simp_all
  obtain t where t: "log_write i s = Ok t" "tx_inv t" "homes t = insert b (homes s)" "log_start t = log_start s"
      "lh_n t = (if b \<in> homes s then lh_n s else lh_n s + 1)" "log_outstanding t = log_outstanding s" "log_size t = log_size s"
      "bcache_abs t = (if b \<in> homes s then bcache_abs s else a_refs Suc b (bcache_abs s))"
    using log_write_law [OF D(1) h area few room D(2)] by blast
  have fr: "tframe s t" using log_write_tframe [OF t(1) D(10)] D(1) by (simp add: tx_inv_def)
  have T: "bview t = bview s" "disk t = disk s" "bhnd t = bhnd s" "blocked t = blocked s"
      "bref t = (if b \<in> homes s then bref s else (bref s)(b := Suc (bref s b)))"
    using abs_eqD [OF t(8)] by (auto simp: a_refs_def split: if_splits)
  have "bref t = (\<lambda>x. (if x \<in> insert b (homes s) then 1 else 0) + (if x \<in> L then 1 else 0))"
    unfolding T(5) D(8) by (auto simp: fun_eq_iff)
  moreover have "lh_n t + int k \<le> log_size t - 1" using t(5,7) D(4) by (simp split: if_splits)
  moreover have "lstart t = lstart s" using t(4) by (simp add: lstart_def)
  ultimately have "tx_ok k L t"
    unfolding tx_ok_def t(3) using t(2,6,7) T D(2,3,5,6,7,9) by auto
  then show ?thesis using t(1,3) fr T by auto
qed

interpretation tx: transaction tx_ok bview bhnd homes usable tframe "bread ROOTDEV" brelse log_write set_buf_data "\<lambda>i s. b_data (bbuf i s)" tx_clean
proof unfold_locales
  show "tframe s s" for s :: "'a log_state_scheme" by (rule tframe_refl)
  show "tframe s t \<Longrightarrow> tframe t u \<Longrightarrow> tframe s u" for s t u :: "'a log_state_scheme" by (rule tframe_trans)
  show "tframe s t \<Longrightarrow> usable t b = usable s b" for s t :: "'a log_state_scheme" and b by (simp add: usable_def tframe_fields)
  fix k L and s :: "'a log_state_scheme" and b
  assume ok: "tx_ok k L s"
  show "finite L" using tx_ok_D(5) [OF ok] .
  show "b \<notin> L \<Longrightarrow> b \<in> homes s \<or> tx_clean s b" using tx_ok_D(9) [OF ok] by (auto simp: tx_clean_def)
  show "length (bview s b) = BSIZE" using bview_length [OF tx_ok_D(10) [OF ok]] .
  show "b \<notin> L \<Longrightarrow> card L \<le> k \<Longrightarrow> usable s b \<Longrightarrow> \<exists>i t. bread ROOTDEV b s = Ok (i, t) \<and> tx_ok k (insert b L) t \<and> tframe s t \<and>
      bview t = bview s \<and> bhnd s i = None \<and> bhnd t = (bhnd s)(i \<mapsto> b) \<and> homes t = homes s \<and> tx_clean t = tx_clean s"
    by (rule tx_read_law [OF ok])
  show "b_data (bbuf i s) = bview s b" if "bhnd s i = Some b" for i using bhnd_buf(6) [OF tx_ok_D(10) [OF ok] that] by simp
  show "tx_ok k L (set_buf_data i d s) \<and> tframe s (set_buf_data i d s) \<and> bview (set_buf_data i d s) = (bview s)(b := d) \<and>
      bhnd (set_buf_data i d s) = bhnd s \<and> homes (set_buf_data i d s) = homes s" if "bhnd s i = Some b" "b \<in> L" "length d = BSIZE" for i d
    by (rule tx_set_law [OF ok that])
  show "\<exists>t. brelse i s = Ok t \<and> tx_ok k (L - {b}) t \<and> tframe s t \<and> bview t = bview s \<and> bhnd t = (bhnd s)(i := None) \<and> homes t = homes s"
    if "bhnd s i = Some b" "b \<in> L" "b \<in> homes s \<or> tx_clean s b" for i
    by (rule tx_rel_law [OF ok that])
next
  fix k L and s :: "'a log_state_scheme" and i b
  assume "tx_ok (Suc k) L s" "bhnd s i = Some b" "b \<in> L"
  then show "\<exists>t. log_write i s = Ok t \<and> tx_ok k L t \<and> tframe s t \<and> bview t = bview s \<and> bhnd t = bhnd s \<and> homes t = insert b (homes s)"
    by (rule tx_log_law)
qed

lemma bview_cong: "bufs t = bufs s \<Longrightarrow> disk t = disk s \<Longrightarrow> bview t = bview s"
  by (simp add: bview_def bslot_def fun_eq_iff cong: option.case_cong if_cong)

text \<open>The transaction that \<open>begin_op\<close> opens and \<open>end_op\<close> commits.\<close>

lemma begin_op_ok:
  assumes "LogLock \<notin> held s" "\<not> log_committing s" "lh_n s + (log_outstanding s + 1) * MAXOPBLOCKS \<le> int LOGSIZE"
  shows "begin_op s = Ok (s\<lparr>log_outstanding := log_outstanding s + 1\<rparr>)"
  using assms by (simp add: begin_op_def lock_simps)

text \<open>
  C23: a transaction reaches the disk. The \<open>end_op\<close> of the last running operation commits: it
  returns with every block outside the log on the disk as the operations left it in the cache, an
  empty log and no operation running. While other operations are running it only gives up its
  reservation, and nothing is written to the disk.
\<close>

theorem end_op_commits:
  assumes ok: "tx_ok k {} s" and n: "0 < lh_n s" and idle: "\<not> log_committing s"
  shows "(log_outstanding s = 1 \<longrightarrow>
      kok (\<lambda>t. log_outstanding t = 0 \<and> \<not> log_committing t \<and> lh_n t = 0 \<and> disk_n (lstart s) (disk t) = 0 \<and>
        (\<forall>b. b \<notin> log_area (lstart s) \<longrightarrow> disk t b = bview s b \<and> bview t b = bview s b)) (end_op s)) \<and>
    (log_outstanding s > 1 \<longrightarrow>
      kok (\<lambda>t. log_outstanding t = log_outstanding s - 1 \<and> lh_n t = lh_n s \<and> wlog t = wlog s \<and> bview t = bview s) (end_op s))"
proof -
  note D = tx_ok_D [OF ok]
  have T: "LogLock \<notin> held s" "log_dev s = ROOTDEV" using D(1) by (simp_all add: tx_inv_def)
  note B = bc_base_D [OF bc_inv_D(1) [OF D(10)]]
  have wake: "wake_up LogChan u = Ok (u\<lparr>procs := map (woken LogChan) (procs u)\<rparr>)" if "length (procs u) = STATIC_PROC_NUM" "\<And>i. ProcLock i \<notin> held u" for u :: "'a log_state_scheme"
    using wake_up_eq that by blast
  have last: "kok (\<lambda>t. log_outstanding t = 0 \<and> \<not> log_committing t \<and> lh_n t = 0 \<and> disk_n (lstart s) (disk t) = 0 \<and>
        (\<forall>b. b \<notin> log_area (lstart s) \<longrightarrow> disk t b = bview s b \<and> bview t b = bview s b)) (end_op s)" if one: "log_outstanding s = 1"
  proof -
    define u where "u = s\<lparr>log_outstanding := 0, log_committing := True\<rparr>"
    have cu: "bc_inv u = bc_inv s" "bcache_abs u = bcache_abs s" unfolding u_def by (rule bc_cong; simp)+
    note U = abs_eqD [OF cu(2)]
    have st: "lstart u = lstart s" "home u = home s" "homes u = homes s" by (simp_all add: u_def lstart_def home_def homes_def fun_eq_iff)
    have "{b. 0 < bref u b} \<subseteq> homes s" using U D(8) by auto
    then have "card {b. 0 < bref u b} \<le> card (homes s)" using D(12) by (intro card_mono)
    then have "card {b. 0 < bref u b} < NBUF" using D(3,4,11) by (simp add: NBUF_def)
    then have q: "quiet u" using U cu D(7,8,10) T(2) by (auto simp: quiet_def u_def)
    have "tx_inv u" using D(1) U cu st by (simp add: tx_inv_def logged_def) (simp add: u_def)
    then have ready: "commit_ready u" using tx_commit_ready [OF _ _ q] n D(9) U st by (simp add: u_def)
    obtain v where v: "commit u = Ok v" "disk_n (lstart s) (disk v) = 0" "lh_n v = 0"
        "\<forall>b. b \<notin> log_area (lstart s) \<longrightarrow> disk v b = bview s b \<and> bview v b = bview s b"
      using commit_done [OF ready] st U by auto
    obtain v' where v': "commit u = Ok v'" "quiet v'" "bframe (u\<lparr>lh_n := 0\<rparr>) v'"
      using commit_law [OF q] ready n by (auto simp: commit_ready_def u_def)
    have fv: "quiet v" "bframe (u\<lparr>lh_n := 0\<rparr>) v" using v' v(1) by auto
    have hv: "held v = held s" "log_outstanding v = 0" "noff v = noff s" using fv(2) by (auto simp: bframe_def u_def)
    define w where "w = v\<lparr>held := insert LogLock (held v), noff := Suc (noff v), log_committing := False\<rparr>"
    note BV = bc_base_D [OF bc_inv_D(1) [OF quiet_D(1) [OF fv(1)]]]
    have pw: "length (procs w) = STATIC_PROC_NUM" "\<And>i. ProcLock i \<notin> held w" using BV by (simp_all add: w_def)
    define t where "t = w\<lparr>procs := map (woken LogChan) (procs w), held := held s, noff := noff s\<rparr>"
    have "end_op s = Ok t"
    proof -
      have "end_op s = kbind (commit u) (\<lambda>s. kbind (acquire LogLock s) (\<lambda>s. kbind (wake_up LogChan (s\<lparr>log_committing := False\<rparr>)) (release LogLock)))"
        using T(1) idle one by (simp add: end_op_def lock_simps Let_def u_def)
      also have "\<dots> = Ok t" using v(1) hv T(1) wake [OF pw] by (simp add: lock_simps w_def t_def)
      finally show ?thesis .
    qed
    moreover have "bview t = bview v" "disk t = disk v" "lh_n t = lh_n v" "log_outstanding t = 0" "\<not> log_committing t"
      using hv bview_cong [of t v] by (simp_all add: t_def w_def)
    ultimately show ?thesis using v by simp
  qed
  moreover have "kok (\<lambda>t. log_outstanding t = log_outstanding s - 1 \<and> lh_n t = lh_n s \<and> wlog t = wlog s \<and> bview t = bview s) (end_op s)" if more: "log_outstanding s > 1"
  proof -
    define u where "u = s\<lparr>held := insert LogLock (held s), noff := Suc (noff s), log_outstanding := log_outstanding s - 1\<rparr>"
    have "wake_up LogChan u = Ok (u\<lparr>procs := map (woken LogChan) (procs u)\<rparr>)" using B by (intro wake) (simp_all add: u_def)
    then have "end_op s = Ok (u\<lparr>procs := map (woken LogChan) (procs u), held := held s, noff := noff s\<rparr>)"
      using T(1) idle more by (simp add: end_op_def lock_simps Let_def u_def)
    moreover have "bview (u\<lparr>procs := map (woken LogChan) (procs u), held := held s, noff := noff s\<rparr>) = bview s"
      by (rule bview_cong) (simp_all add: u_def)
    ultimately show ?thesis by (simp add: u_def)
  qed
  ultimately show ?thesis by blast
qed

lemma tx_example: "tx_ok 29 {} (binit log_example)" "log_size (binit log_example) = 30" "\<not> log_committing (binit log_example)"
proof -
  note B = log_example_boot
  note F = fresh_cache_D [OF B(2)]
  have h: "homes (binit log_example) = {}" using B(4) by (simp add: homes_def)
  show "tx_ok 29 {} (binit log_example)"
    unfolding tx_ok_def h using B F(2,3,4) by simp
  show "log_size (binit log_example) = 30" by (rule B(6))
  have "log_committing (binit log_example) = log_committing log_example"
    using bframe_log(9) [OF binit_inv(2) [OF log_example_ready]] .
  then show "\<not> log_committing (binit log_example)" by (simp add: log_example_def log_state.defs bio_state.defs)
qed

theorem end_op_commits_witness:
  "\<exists>s t :: log_state. tx_ok 28 {} s \<and> disk s 50 = replicate BSIZE 0 \<and> end_op s = Ok t \<and> disk t 50 = replicate BSIZE 1"
proof -
  let ?s = "binit log_example"
  have st: "lstart ?s = 2" using log_example_boot(5) by (simp add: lstart_def)
  have u50: "usable ?s 50" using area_example st by (simp add: usable_def)
  have "tx_ok (Suc 28) {} ?s" using tx_example(1) by simp
  then obtain t where t: "tx_ok 28 {} t" "tframe ?s t" "bview t = (bview ?s)(50 := replicate BSIZE 1)" "homes t = insert 50 (homes ?s)"
    using tx.update_block [of 28 "{}" ?s 50 "\<lambda>_. replicate BSIZE 1"] u50 by auto
  note f = tframe_fields [OF t(2)]
  have lc: "\<not> log_committing t" using t(2) tx_example(3) by (auto simp: tframe_def)
  have n: "0 < lh_n t" using tx_ok_D(11,12) [OF t(1)] t(4) by (simp add: card_gt_0_iff)
  have one: "log_outstanding t = 1" "disk t = (\<lambda>_. replicate BSIZE 0)" "lstart t = 2" using f log_example_boot(3,7) st by simp_all
  have "kok (\<lambda>t'. \<forall>b. b \<notin> log_area (lstart t) \<longrightarrow> disk t' b = bview t b \<and> bview t' b = bview t b) (end_op t)"
    using end_op_commits [OF t(1) n lc] one(1) by (auto intro: kok_mono)
  then obtain t' where "end_op t = Ok t'" "disk t' 50 = replicate BSIZE 1"
    using one(3) t(3) area_example by (auto simp: kok_def)
  then show ?thesis using t(1) one(2) by auto
qed

end
