(* ===== verification/Kstring.thy ===== *)
theory Kstring
  imports Bytes
begin

text \<open>
  C strings: kernel/util/string.c and the path parser \<open>skipelem\<close> of kernel/fs/fs.c.

  A \<open>char *\<close> is the list of the bytes from the pointer on; a read at the end of the list gives the
  terminating NUL, so a string may be given with or without its terminator. A pointer that is
  advanced is a tail of the list.
\<close>

section \<open>kernel/util/string.c\<close>

definition chr0 :: "u8 list \<Rightarrow> u8" where
  "chr0 p = (case p of [] \<Rightarrow> 0 | c # _ \<Rightarrow> c)"

lemma chr0_simps [simp]: "chr0 [] = 0" "chr0 (c # p) = c"
  by (simp_all add: chr0_def)

fun strncmp :: "u8 list \<Rightarrow> u8 list \<Rightarrow> nat \<Rightarrow> int" where
  "strncmp p q 0 = 0"
| "strncmp p q (Suc n) =
     (if chr0 p \<noteq> 0 \<and> chr0 p = chr0 q then strncmp (tl p) (tl q) n else uint (chr0 p) - uint (chr0 q))"

text \<open>The \<open>n\<close> bytes \<open>strncpy\<close> stores at the destination.\<close>

fun strncpy :: "nat \<Rightarrow> u8 list \<Rightarrow> u8 list" where
  "strncpy 0 t = []"
| "strncpy (Suc n) t = (if chr0 t \<noteq> 0 then chr0 t # strncpy n (tl t) else 0 # replicate n 0)"

text \<open>What \<open>safestrcpy\<close> stores, for \<open>n - 1 = m\<close>: after a NUL that was copied comes a second one.\<close>

fun safestrcpy_bytes :: "nat \<Rightarrow> u8 list \<Rightarrow> u8 list" where
  "safestrcpy_bytes 0 t = [0]"
| "safestrcpy_bytes (Suc m) t = (if chr0 t \<noteq> 0 then chr0 t # safestrcpy_bytes m (tl t) else [0, 0])"

definition safestrcpy :: "u8 list \<Rightarrow> u8 list \<Rightarrow> int \<Rightarrow> u8 list" where
  "safestrcpy s t n = (if n \<le> 0 then s else put_bytes 0 (safestrcpy_bytes (nat n - 1) t) s)"

primrec strlen :: "u8 list \<Rightarrow> int" where
  "strlen [] = 0"
| "strlen (c # s) = (if c = 0 then 0 else 1 + strlen s)"

text \<open>The bytes of the string at a pointer.\<close>

definition cstr :: "u8 list \<Rightarrow> u8 list" where
  "cstr p = takeWhile (\<lambda>c. c \<noteq> 0) p"

lemma cstr_simps [simp]: "cstr [] = []" "cstr (c # p) = (if c = 0 then [] else c # cstr p)"
  by (simp_all add: cstr_def)

lemma strlen_cstr: "strlen s = int (length (cstr s))"
  by (induction s) auto

lemma uint_diff_0: "uint a - uint b = 0 \<longleftrightarrow> a = (b :: 'a::len word)"
  by (simp add: word_uint_eq_iff)

lemma strncmp_eq: "strncmp p q n = 0 \<longleftrightarrow> take n (cstr p) = take n (cstr q)"
proof (induction p q n rule: strncmp.induct)
  case (2 p q n)
  then show ?case by (cases p; cases q) (auto simp: unsigned_eq_0_iff dest: unsigned_word_eqI)
qed simp

lemma length_strncpy [simp]: "length (strncpy n t) = n"
  by (induction n t rule: strncpy.induct) auto

lemma cstr_replicate [simp]: "cstr (replicate n 0) = []"
  by (cases n) auto

lemma cstr_strncpy: "cstr (strncpy n t) = take n (cstr t)"
proof (induction n t rule: strncpy.induct)
  case (2 n t)
  then show ?case by (cases t) auto
qed simp

lemma cstr_safestrcpy_bytes: "cstr (safestrcpy_bytes m t) = take m (cstr t)"
proof (induction m t rule: safestrcpy_bytes.induct)
  case (2 m t)
  then show ?case by (cases t) auto
qed simp

lemma length_safestrcpy_bytes: "length (safestrcpy_bytes m t) \<le> Suc m"
  by (induction m t rule: safestrcpy_bytes.induct) auto

section \<open>Paths\<close>

abbreviation (input) DIRSIZ :: nat where "DIRSIZ \<equiv> 14"
abbreviation (input) SLASH :: u8 where "SLASH \<equiv> 0x2f"

text \<open>
  \<open>skipelem\<close> returns the rest of the path, or \<open>None\<close> for NULL, and the new contents of the buffer
  \<open>name\<close> of \<open>DIRSIZ\<close> bytes.
\<close>

definition skip_slashes :: "u8 list \<Rightarrow> u8 list" where
  "skip_slashes p = dropWhile (\<lambda>c. c = SLASH) p"

definition skipelem :: "u8 list \<Rightarrow> u8 list \<Rightarrow> u8 list option \<times> u8 list" where
  "skipelem path name =
     (let path = skip_slashes path in
      if chr0 path = 0 then (None, name)
      else
        let s = takeWhile (\<lambda>c. c \<noteq> SLASH \<and> c \<noteq> 0) path;
            path = dropWhile (\<lambda>c. c \<noteq> SLASH \<and> c \<noteq> 0) path;
            name = (if length s \<ge> DIRSIZ then put_bytes 0 (take DIRSIZ s) name
                    else (put_bytes 0 s name)[length s := 0])
        in (Some (skip_slashes path), name))"

text \<open>The elements of a path, by the definition: the maximal runs of characters other than the slash.\<close>

function path_elems :: "u8 list \<Rightarrow> u8 list list" where
  "path_elems [] = []"
| "path_elems (c # p) =
     (if c = SLASH then path_elems p
      else takeWhile (\<lambda>c. c \<noteq> SLASH) (c # p) # path_elems (dropWhile (\<lambda>c. c \<noteq> SLASH) p))"
  by pat_completeness auto
termination
  by (relation "measure length") (auto simp: le_imp_less_Suc length_dropWhile_le)

lemma skip_slashes_elems: "path_elems (skip_slashes p) = path_elems p"
  by (induction p) (auto simp: skip_slashes_def)

lemma skip_slashes_head: "skip_slashes p = [] \<or> hd (skip_slashes p) \<noteq> SLASH"
  by (induction p) (auto simp: skip_slashes_def)

lemma skip_slashes_cstr: "cstr (skip_slashes p) = skip_slashes (cstr p)"
  by (induction p) (auto simp: skip_slashes_def)

lemma length_skip_slashes: "length (skip_slashes p) \<le> length p"
  by (simp add: skip_slashes_def length_dropWhile_le)

lemma elem_cstr:
  "takeWhile (\<lambda>c. c \<noteq> SLASH) (cstr p) = takeWhile (\<lambda>c. c \<noteq> SLASH \<and> c \<noteq> 0) p"
  "dropWhile (\<lambda>c. c \<noteq> SLASH) (cstr p) = cstr (dropWhile (\<lambda>c. c \<noteq> SLASH \<and> c \<noteq> 0) p)"
  by (induction p) auto

lemma skipelem_shorter: "skipelem path name = (Some rest, name') \<Longrightarrow> length rest < length path"
proof -
  assume s: "skipelem path name = (Some rest, name')"
  let ?p = "skip_slashes path"
  have ne: "chr0 ?p \<noteq> 0" and r: "rest = skip_slashes (dropWhile (\<lambda>c. c \<noteq> SLASH \<and> c \<noteq> 0) ?p)"
    using s by (auto simp: skipelem_def Let_def split: if_splits)
  obtain c q where cq: "?p = c # q" "c \<noteq> 0" using ne by (cases ?p) auto
  then have "c \<noteq> SLASH" using skip_slashes_head [of path] by auto
  then have "dropWhile (\<lambda>c. c \<noteq> SLASH \<and> c \<noteq> 0) ?p = dropWhile (\<lambda>c. c \<noteq> SLASH \<and> c \<noteq> 0) q" using cq by simp
  then have "length rest \<le> length (dropWhile (\<lambda>c. c \<noteq> SLASH \<and> c \<noteq> 0) q)" using r length_skip_slashes by simp
  also have "\<dots> \<le> length q" by (rule length_dropWhile_le)
  finally have "length rest \<le> length q" .
  moreover have "length q < length path" using cq length_skip_slashes [of path] by simp
  ultimately show ?thesis by simp
qed

lemma cstr_no_zero: "0 \<notin> set s \<Longrightarrow> cstr (s @ r) = s @ cstr r"
  by (induction s) auto

lemma skipelem_spec:
  assumes "length name = DIRSIZ"
  shows "case path_elems (cstr path) of
      [] \<Rightarrow> skipelem path name = (None, name)
    | e # es \<Rightarrow> \<exists>rest name'. skipelem path name = (Some rest, name') \<and> path_elems (cstr rest) = es \<and>
        length name' = DIRSIZ \<and> take DIRSIZ (cstr name') = take DIRSIZ e \<and> skip_slashes rest = rest"
proof -
  let ?p = "skip_slashes path"
  have el: "path_elems (cstr path) = path_elems (cstr ?p)" by (simp add: skip_slashes_cstr skip_slashes_elems)
  show ?thesis
  proof (cases "chr0 ?p = 0")
    case True
    then have "cstr ?p = []" by (cases ?p) auto
    then show ?thesis using True el by (simp add: skipelem_def Let_def)
  next
    case False
    then obtain c q where cq: "?p = c # q" "c \<noteq> 0" by (cases ?p) auto
    then have c: "c \<noteq> SLASH" using skip_slashes_head [of path] by auto
    define s where "s = takeWhile (\<lambda>c. c \<noteq> SLASH \<and> c \<noteq> 0) ?p"
    define r where "r = skip_slashes (dropWhile (\<lambda>c. c \<noteq> SLASH \<and> c \<noteq> 0) ?p)"
    have "path_elems (cstr ?p) = takeWhile (\<lambda>c. c \<noteq> SLASH) (cstr ?p) # path_elems (dropWhile (\<lambda>c. c \<noteq> SLASH) (cstr ?p))"
      using cq c by simp
    also have "\<dots> = s # path_elems (cstr r)"
      unfolding elem_cstr s_def r_def by (simp add: skip_slashes_cstr skip_slashes_elems)
    finally have es: "path_elems (cstr path) = s # path_elems (cstr r)" using el by simp
    have sz: "0 \<notin> set s" unfolding s_def using set_takeWhileD by fastforce
    have rr: "skip_slashes r = r" by (simp add: r_def skip_slashes_def dropWhile_idem)
    show ?thesis
    proof (cases "DIRSIZ \<le> length s")
      case True
      have "skipelem path name = (Some r, put_bytes 0 (take DIRSIZ s) name)"
        using False True by (simp add: skipelem_def Let_def s_def r_def)
      moreover have "put_bytes 0 (take DIRSIZ s) name = take DIRSIZ s" using assms True by (simp add: put_bytes_def)
      moreover have "cstr (take DIRSIZ s) = take DIRSIZ s" using cstr_no_zero [of "take DIRSIZ s" "[]"] sz by (auto dest: in_set_takeD)
      ultimately show ?thesis using es rr True by simp
    next
      case short: False
      have "skipelem path name = (Some r, (put_bytes 0 s name)[length s := 0])"
        using False short by (simp add: skipelem_def Let_def s_def r_def)
      moreover have "(put_bytes 0 s name)[length s := 0] = s @ 0 # drop (Suc (length s)) name"
        using assms short by (simp add: put_bytes_def list_update_append Cons_nth_drop_Suc [symmetric])
      moreover have "cstr (s @ 0 # drop (Suc (length s)) name) = s" using cstr_no_zero [OF sz] by simp
      ultimately show ?thesis using es rr short assms by simp
    qed
  qed
qed

text \<open>The names a loop over \<open>skipelem\<close> sees, as in \<open>namex\<close>.\<close>

function names_of :: "u8 list \<Rightarrow> u8 list \<Rightarrow> u8 list list" where
  "names_of path name =
     (case skipelem path name of (None, _) \<Rightarrow> [] | (Some rest, name) \<Rightarrow> cstr name # names_of rest name)"
  by pat_completeness auto
termination
  by (relation "measure (\<lambda>(path, name). length path)") (auto intro: skipelem_shorter [OF sym])

declare names_of.simps [simp del]

text \<open>
  C24: the path parser. For every path and whatever the name buffer holds, the loop over
  \<open>skipelem\<close> ends and yields the elements of the path in order, each cut to \<open>DIRSIZ\<close>
  characters: slashes at the front, at the end or repeated make no difference.
\<close>

theorem skipelem_elements:
  assumes "length name = DIRSIZ"
  shows "names_of path name = map (take DIRSIZ) (path_elems (cstr path))"
  using assms
proof (induction path name rule: names_of.induct)
  case (1 path name)
  show ?case
  proof (cases "path_elems (cstr path)")
    case Nil
    then show ?thesis using skipelem_spec [OF 1(2), of path] by (simp add: names_of.simps)
  next
    case (Cons e es)
    then obtain rest name' where s: "skipelem path name = (Some rest, name')" "path_elems (cstr rest) = es" "length name' = DIRSIZ"
        "take DIRSIZ (cstr name') = take DIRSIZ e"
      using skipelem_spec [OF 1(2), of path] by auto
    have "length (cstr name') \<le> DIRSIZ" using s(3) by (simp add: cstr_def length_takeWhile_le [THEN order_trans])
    then have "cstr name' = take DIRSIZ e" using s(4) by simp
    moreover have "names_of rest name' = map (take DIRSIZ) es" using 1(1) [OF s(1) [symmetric] refl] s(2,3) by simp
    ultimately show ?thesis using s(1) Cons by (simp add: names_of.simps [of path])
  qed
qed

theorem skipelem_elements_witness:
  "names_of [SLASH, SLASH, 0x61, SLASH, SLASH, 0x62, 0x62, SLASH, 0] (replicate DIRSIZ 0x78) = [[0x61], [0x62, 0x62]]"
  using skipelem_elements [of "replicate DIRSIZ 0x78" "[SLASH, SLASH, 0x61, SLASH, SLASH, 0x62, 0x62, SLASH, 0]"] by simp

end
