(* ===== verification/Fs.thy ===== *)
theory Fs
  imports Transaction Kstring
begin

text \<open>
  The file system: kernel/fs/fs.c, include/fs/fs.h, include/fs/file.h, include/fs/stat.h.

  A pointer to an inode is its index in \<open>icache.inode\<close>; \<open>None\<close> is NULL. The members of
  \<open>struct dinode\<close> and \<open>struct dirent\<close> in a block are read and written at their byte offsets. \<open>short\<close>
  members are kept as 16-bit words.

  \<open>bp->data\<close> and local structures are not part of the modelled memory \<open>mem\<close>. While the kernel copies
  between them and user memory, they are placed at the address \<open>kbuf\<close> (a buffer's data) or \<open>kobj\<close> (a
  local structure), which stands for their own address.
\<close>

section \<open>State\<close>

record superblock =
  sb_magic :: u32
  sb_size :: u32
  sb_nblocks :: u32
  sb_ninodes :: u32
  sb_nlog :: u32
  sb_logstart :: u32
  sb_inodestart :: u32
  sb_bmapstart :: u32

abbreviation (input) FSMAGIC :: u32 where "FSMAGIC \<equiv> 0x10203040"
abbreviation (input) NDIRECT :: nat where "NDIRECT \<equiv> 12"
abbreviation (input) NINDIRECT :: nat where "NINDIRECT \<equiv> 256"
abbreviation (input) MAXFILE :: nat where "MAXFILE \<equiv> 268"
abbreviation (input) IPB :: nat where "IPB \<equiv> 16"
abbreviation (input) BPB :: nat where "BPB \<equiv> 8192"
abbreviation (input) NINODE :: nat where "NINODE \<equiv> 50"
abbreviation (input) ROOTINO :: u32 where "ROOTINO \<equiv> 1"
abbreviation (input) T_DIR :: u16 where "T_DIR \<equiv> 1"
abbreviation (input) T_FILE :: u16 where "T_FILE \<equiv> 2"
abbreviation (input) T_DEVICE :: u16 where "T_DEVICE \<equiv> 3"

record inode =
  i_dev :: u32
  i_inum :: u32
  i_ref :: int
  i_lock :: sleeplock
  i_valid :: bool
  i_type :: u16
  i_major :: u16
  i_minor :: u16
  i_nlink :: u16
  i_size :: u32
  i_addrs :: "u32 list"

record stat =
  st_dev :: u32
  st_ino :: u32
  st_type :: u16
  st_nlink :: u16
  st_size :: u64

record fs_state = log_state +
  sb :: superblock
  icache :: "inode list"
  kbuf :: u64
  kobj :: u64

abbreviation ino :: "nat \<Rightarrow> 'a fs_state_scheme \<Rightarrow> inode" where
  "ino ip s \<equiv> icache s ! ip"

definition upd_ino :: "nat \<Rightarrow> (inode \<Rightarrow> inode) \<Rightarrow> 'a fs_state_scheme \<Rightarrow> 'a fs_state_scheme" where
  "upd_ino ip f s = s\<lparr>icache := (icache s)[ip := f (icache s ! ip)]\<rparr>"

abbreviation ino_lock :: "nat \<Rightarrow> 'a fs_state_scheme \<Rightarrow> sleeplock" where
  "ino_lock ip s \<equiv> i_lock (ino ip s)"

definition set_ino_lock :: "nat \<Rightarrow> sleeplock \<Rightarrow> 'a fs_state_scheme \<Rightarrow> 'a fs_state_scheme" where
  "set_ino_lock ip l s = upd_ino ip (\<lambda>i. i\<lparr>i_lock := l\<rparr>) s"

definition IBLOCK :: "u32 \<Rightarrow> superblock \<Rightarrow> u32" where
  "IBLOCK i b = i div 16 + sb_inodestart b"

definition BBLOCK :: "u32 \<Rightarrow> superblock \<Rightarrow> u32" where
  "BBLOCK i b = i div 8192 + sb_bmapstart b"

section \<open>Blocks\<close>

definition decode_superblock :: "u8 list \<Rightarrow> superblock" where
  "decode_superblock d = \<lparr>sb_magic = get32 d 0, sb_size = get32 d 4, sb_nblocks = get32 d 8, sb_ninodes = get32 d 12,
     sb_nlog = get32 d 16, sb_logstart = get32 d 20, sb_inodestart = get32 d 24, sb_bmapstart = get32 d 28\<rparr>"

definition readsb :: "u32 \<Rightarrow> 'a fs_state_scheme \<Rightarrow> 'a fs_state_scheme kres" where
  "readsb dev s = kbind (bread dev 1 s) (\<lambda>(bp, s). brelse bp (s\<lparr>sb := decode_superblock (b_data (bbuf bp s))\<rparr>))"

definition fsinit :: "u32 \<Rightarrow> 'a fs_state_scheme \<Rightarrow> 'a fs_state_scheme kres" where
  "fsinit dev s =
     kbind (readsb dev s) (\<lambda>s.
     if sb_magic (sb s) \<noteq> FSMAGIC then Panic ''invalid file system''
     else initlog dev (sb_logstart (sb s)) (sb_nlog (sb s)) s)"

definition bzero :: "u32 \<Rightarrow> u32 \<Rightarrow> 'a fs_state_scheme \<Rightarrow> 'a fs_state_scheme kres" where
  "bzero dev bno s =
     kbind (bread dev bno s) (\<lambda>(bp, s).
     kbind (log_write bp (set_buf_data bp (replicate BSIZE 0) s)) (brelse bp))"

definition bit_mask :: "nat \<Rightarrow> u8" where
  "bit_mask bi = push_bit (bi mod 8) 1"

definition block_free :: "u8 list \<Rightarrow> nat \<Rightarrow> bool" where
  "block_free d bi \<longleftrightarrow> d ! (bi div 8) AND bit_mask bi = 0"

text \<open>
  One round of the outer loop of \<open>balloc\<close>, for the block of the bitmap that starts with block number
  \<open>b = j * BPB\<close>. The variables of the loop are natural numbers: a file system has fewer than \<open>2 ^ 31\<close>
  blocks, so that the \<open>int\<close> does not overflow.
\<close>

definition balloc_block :: "u32 \<Rightarrow> nat \<Rightarrow> 'a fs_state_scheme \<Rightarrow> (u32 option \<times> 'a fs_state_scheme) kres" where
  "balloc_block dev j s =
     kbind (bread dev (BBLOCK (word_of_nat (j * BPB)) (sb s)) s) (\<lambda>(bp, s).
     let d = b_data (bbuf bp s) in
     case List.find (block_free d) [0..<min BPB (unat (sb_size (sb s)) - j * BPB)] of
       Some bi \<Rightarrow>
         kbind (log_write bp (set_buf_data bp (d[bi div 8 := d ! (bi div 8) OR bit_mask bi]) s)) (\<lambda>s.
         kbind (brelse bp s) (\<lambda>s.
         kbind (bzero dev (word_of_nat (j * BPB + bi)) s) (\<lambda>s.
         Ok (Some (word_of_nat (j * BPB + bi)), s))))
     | None \<Rightarrow> kbind (brelse bp s) (\<lambda>s. Ok (None, s)))"

definition balloc :: "u32 \<Rightarrow> 'a fs_state_scheme \<Rightarrow> (u32 \<times> 'a fs_state_scheme) kres" where
  "balloc dev s =
     kbind (kfor (balloc_block dev) [0..<(unat (sb_size (sb s)) + (BPB - 1)) div BPB] s) (\<lambda>(r, s).
     case r of Some b \<Rightarrow> Ok (b, s) | None \<Rightarrow> Panic ''balloc: out of blocks'')"

definition bfree :: "u32 \<Rightarrow> u32 \<Rightarrow> 'a fs_state_scheme \<Rightarrow> 'a fs_state_scheme kres" where
  "bfree dev b s =
     kbind (bread dev (BBLOCK b (sb s)) s) (\<lambda>(bp, s).
     let d = b_data (bbuf bp s); bi = unat b mod BPB in
     if block_free d bi then Panic ''freeing free block''
     else
       kbind (log_write bp (set_buf_data bp (d[bi div 8 := d ! (bi div 8) AND NOT (bit_mask bi)]) s)) (brelse bp))"

section \<open>Inodes\<close>

text \<open>\<open>struct dinode\<close>, 64 bytes: the five scalar members, then \<open>addrs\<close>.\<close>

definition dinode_off :: "u32 \<Rightarrow> nat" where
  "dinode_off inum = 64 * (unat inum mod IPB)"

definition load_dinode :: "u8 list \<Rightarrow> nat \<Rightarrow> inode \<Rightarrow> inode" where
  "load_dinode d k i = i\<lparr>i_type := get16 d k, i_major := get16 d (k + 2), i_minor := get16 d (k + 4), i_nlink := get16 d (k + 6),
     i_size := get32 d (k + 8), i_addrs := map (\<lambda>j. get32 d (k + 12 + 4 * j)) [0..<NDIRECT + 1]\<rparr>"

definition put_addrs :: "nat \<Rightarrow> u32 list \<Rightarrow> u8 list \<Rightarrow> u8 list" where
  "put_addrs k as d = fold (\<lambda>j. put32 (k + 4 * j) (as ! j)) [0..<NDIRECT + 1] d"

definition store_dinode :: "inode \<Rightarrow> nat \<Rightarrow> u8 list \<Rightarrow> u8 list" where
  "store_dinode i k d =
     (let d = put16 k (i_type i) d;
          d = put16 (k + 2) (i_major i) d;
          d = put16 (k + 4) (i_minor i) d;
          d = put16 (k + 6) (i_nlink i) d;
          d = put32 (k + 8) (i_size i) d
      in put_addrs (k + 12) (i_addrs i) d)"

definition iinit :: "'a fs_state_scheme \<Rightarrow> 'a fs_state_scheme" where
  "iinit s = s\<lparr>icache := map (\<lambda>i. i\<lparr>i_lock := initsleeplock\<rparr>) (icache s)\<rparr>"

definition iget :: "u32 \<Rightarrow> u32 \<Rightarrow> 'a fs_state_scheme \<Rightarrow> (nat \<times> 'a fs_state_scheme) kres" where
  "iget dev inum s =
     kbind (acquire IcacheLock s) (\<lambda>s.
     case find_index (\<lambda>i. i_ref i > 0 \<and> i_dev i = dev \<and> i_inum i = inum) (icache s) of
       Some ip \<Rightarrow>
         kbind (release IcacheLock (upd_ino ip (\<lambda>i. i\<lparr>i_ref := i_ref i + 1\<rparr>) s)) (\<lambda>s. Ok (ip, s))
     | None \<Rightarrow>
         case find_index (\<lambda>i. i_ref i = 0) (icache s) of
           None \<Rightarrow> Panic ''iget: no inodes''
         | Some ip \<Rightarrow>
             kbind (release IcacheLock (upd_ino ip (\<lambda>i. i\<lparr>i_dev := dev, i_inum := inum, i_ref := 1, i_valid := False\<rparr>) s)) (\<lambda>s.
             Ok (ip, s)))"

definition idup :: "nat \<Rightarrow> 'a fs_state_scheme \<Rightarrow> (nat \<times> 'a fs_state_scheme) kres" where
  "idup ip s =
     kbind (acquire IcacheLock s) (\<lambda>s.
     kbind (release IcacheLock (upd_ino ip (\<lambda>i. i\<lparr>i_ref := i_ref i + 1\<rparr>) s)) (\<lambda>s. Ok (ip, s)))"

definition ialloc_one :: "u32 \<Rightarrow> u16 \<Rightarrow> nat \<Rightarrow> 'a fs_state_scheme \<Rightarrow> (nat option \<times> 'a fs_state_scheme) kres" where
  "ialloc_one dev type inum s =
     kbind (bread dev (IBLOCK (word_of_nat inum) (sb s)) s) (\<lambda>(bp, s).
     let d = b_data (bbuf bp s); k = dinode_off (word_of_nat inum) in
     if get16 d k = (0 :: u16) then
       kbind (log_write bp (set_buf_data bp (put16 k type (put_bytes k (replicate 64 0) d)) s)) (\<lambda>s.
       kbind (brelse bp s) (\<lambda>s.
       kbind (iget dev (word_of_nat inum) s) (\<lambda>(ip, s). Ok (Some ip, s))))
     else kbind (brelse bp s) (\<lambda>s. Ok (None, s)))"

definition ialloc :: "u32 \<Rightarrow> u16 \<Rightarrow> 'a fs_state_scheme \<Rightarrow> (nat \<times> 'a fs_state_scheme) kres" where
  "ialloc dev type s =
     kbind (kfor (ialloc_one dev type) [1..<unat (sb_ninodes (sb s))] s) (\<lambda>(r, s).
     case r of Some ip \<Rightarrow> Ok (ip, s) | None \<Rightarrow> Panic ''ialloc: no inodes'')"

definition iupdate :: "nat \<Rightarrow> 'a fs_state_scheme \<Rightarrow> 'a fs_state_scheme kres" where
  "iupdate ip s =
     kbind (bread (i_dev (ino ip s)) (IBLOCK (i_inum (ino ip s)) (sb s)) s) (\<lambda>(bp, s).
     kbind (log_write bp (set_buf_data bp (store_dinode (ino ip s) (dinode_off (i_inum (ino ip s))) (b_data (bbuf bp s))) s)) (brelse bp))"

definition ilock :: "nat option \<Rightarrow> 'a fs_state_scheme \<Rightarrow> 'a fs_state_scheme kres" where
  "ilock ip0 s =
     (case ip0 of None \<Rightarrow> Panic ''ilock'' | Some ip \<Rightarrow>
        if i_ref (ino ip s) < 1 then Panic ''ilock''
        else
          kbind (acquiresleep (InodeLk ip) (InodeLockChan ip) (ino_lock ip) (set_ino_lock ip) s) (\<lambda>s.
          if i_valid (ino ip s) then Ok s
          else
            kbind (bread (i_dev (ino ip s)) (IBLOCK (i_inum (ino ip s)) (sb s)) s) (\<lambda>(bp, s).
            let s = upd_ino ip (load_dinode (b_data (bbuf bp s)) (dinode_off (i_inum (ino ip s)))) s in
            kbind (brelse bp s) (\<lambda>s.
            let s = upd_ino ip (\<lambda>i. i\<lparr>i_valid := True\<rparr>) s in
            if i_type (ino ip s) = 0 then Panic ''ilock: no type'' else Ok s))))"

definition iunlock :: "nat option \<Rightarrow> 'a fs_state_scheme \<Rightarrow> 'a fs_state_scheme kres" where
  "iunlock ip0 s =
     (case ip0 of None \<Rightarrow> Panic ''iunlock'' | Some ip \<Rightarrow>
        kbind (holdingsleep (InodeLk ip) (ino_lock ip) s) (\<lambda>(h, s).
        if \<not> h \<or> i_ref (ino ip s) < 1 then Panic ''iunlock''
        else releasesleep (InodeLk ip) (InodeLockChan ip) (set_ino_lock ip) s))"

section \<open>Contents of an inode\<close>

definition set_addr :: "nat \<Rightarrow> nat \<Rightarrow> u32 \<Rightarrow> 'a fs_state_scheme \<Rightarrow> 'a fs_state_scheme" where
  "set_addr ip k a s = upd_ino ip (\<lambda>i. i\<lparr>i_addrs := (i_addrs i)[k := a]\<rparr>) s"

text \<open>The entry \<open>k\<close> of \<open>ip->addrs\<close>, allocated when it is 0.\<close>

definition addr_or_alloc :: "nat \<Rightarrow> nat \<Rightarrow> 'a fs_state_scheme \<Rightarrow> (u32 \<times> 'a fs_state_scheme) kres" where
  "addr_or_alloc ip k s =
     (if i_addrs (ino ip s) ! k = 0 then kbind (balloc (i_dev (ino ip s)) s) (\<lambda>(a, s). Ok (a, set_addr ip k a s))
      else Ok (i_addrs (ino ip s) ! k, s))"

definition bmap :: "nat \<Rightarrow> u32 \<Rightarrow> 'a fs_state_scheme \<Rightarrow> (u32 \<times> 'a fs_state_scheme) kres" where
  "bmap ip bn s =
     (if unat bn < NDIRECT then addr_or_alloc ip (unat bn) s
      else
        let bn = unat bn - NDIRECT in
        if bn < NINDIRECT then
          kbind (addr_or_alloc ip NDIRECT s) (\<lambda>(addr, s).
          kbind (bread (i_dev (ino ip s)) addr s) (\<lambda>(bp, s).
          let addr = get32 (b_data (bbuf bp s)) (4 * bn) in
          if addr = 0 then
            kbind (balloc (i_dev (ino ip s)) s) (\<lambda>(addr, s).
            kbind (log_write bp (set_buf_data bp (put32 (4 * bn) addr (b_data (bbuf bp s))) s)) (\<lambda>s.
            kbind (brelse bp s) (\<lambda>s. Ok (addr, s))))
          else kbind (brelse bp s) (\<lambda>s. Ok (addr, s))))
        else Panic ''bmap: out of range'')"

definition itrunc_direct :: "nat \<Rightarrow> nat \<Rightarrow> 'a fs_state_scheme \<Rightarrow> 'a fs_state_scheme kres" where
  "itrunc_direct ip k s =
     (if i_addrs (ino ip s) ! k \<noteq> 0
      then kbind (bfree (i_dev (ino ip s)) (i_addrs (ino ip s) ! k) s) (\<lambda>s. Ok (set_addr ip k 0 s))
      else Ok s)"

definition itrunc_indirect :: "nat \<Rightarrow> nat \<Rightarrow> nat \<Rightarrow> 'a fs_state_scheme \<Rightarrow> 'a fs_state_scheme kres" where
  "itrunc_indirect ip bp j s =
     (let a = get32 (b_data (bbuf bp s)) (4 * j) in
      if a \<noteq> 0 then bfree (i_dev (ino ip s)) a s else Ok s)"

definition itrunc :: "nat \<Rightarrow> 'a fs_state_scheme \<Rightarrow> 'a fs_state_scheme kres" where
  "itrunc ip s =
     kbind (kfold (itrunc_direct ip) [0..<NDIRECT] s) (\<lambda>s.
     kbind (if i_addrs (ino ip s) ! NDIRECT \<noteq> 0 then
              kbind (bread (i_dev (ino ip s)) (i_addrs (ino ip s) ! NDIRECT) s) (\<lambda>(bp, s).
              kbind (kfold (itrunc_indirect ip bp) [0..<NINDIRECT] s) (\<lambda>s.
              kbind (brelse bp s) (\<lambda>s.
              kbind (bfree (i_dev (ino ip s)) (i_addrs (ino ip s) ! NDIRECT) s) (\<lambda>s.
              Ok (set_addr ip NDIRECT 0 s)))))
            else Ok s) (\<lambda>s.
     iupdate ip (upd_ino ip (\<lambda>i. i\<lparr>i_size := 0\<rparr>) s)))"

definition iput :: "nat \<Rightarrow> 'a fs_state_scheme \<Rightarrow> 'a fs_state_scheme kres" where
  "iput ip s =
     kbind (acquire IcacheLock s) (\<lambda>s.
     kbind (if i_ref (ino ip s) = 1 \<and> i_valid (ino ip s) \<and> i_nlink (ino ip s) = 0 then
              kbind (acquiresleep (InodeLk ip) (InodeLockChan ip) (ino_lock ip) (set_ino_lock ip) s) (\<lambda>s.
              kbind (release IcacheLock s) (\<lambda>s.
              kbind (itrunc ip s) (\<lambda>s.
              kbind (iupdate ip (upd_ino ip (\<lambda>i. i\<lparr>i_type := 0\<rparr>) s)) (\<lambda>s.
              kbind (releasesleep (InodeLk ip) (InodeLockChan ip) (set_ino_lock ip) (upd_ino ip (\<lambda>i. i\<lparr>i_valid := False\<rparr>) s))
                (acquire IcacheLock)))))
            else Ok s) (\<lambda>s.
     release IcacheLock (upd_ino ip (\<lambda>i. i\<lparr>i_ref := i_ref i - 1\<rparr>) s)))"

definition iunlockput :: "nat \<Rightarrow> 'a fs_state_scheme \<Rightarrow> 'a fs_state_scheme kres" where
  "iunlockput ip s = kbind (iunlock (Some ip) s) (iput ip)"

definition stati :: "nat \<Rightarrow> 'a fs_state_scheme \<Rightarrow> stat" where
  "stati ip s = \<lparr>st_dev = i_dev (ino ip s), st_ino = i_inum (ino ip s), st_type = i_type (ino ip s), st_nlink = i_nlink (ino ip s),
     st_size = ucast (i_size (ino ip s))\<rparr>"

section \<open>Reading and writing\<close>

text \<open>The bytes of memory at an address, and placing bytes there.\<close>

definition peek :: "mem \<Rightarrow> u64 \<Rightarrow> nat \<Rightarrow> u8 list" where
  "peek m a n = map (\<lambda>i. m (a + word_of_nat i)) [0..<n]"

definition poke :: "mem \<Rightarrow> u64 \<Rightarrow> u8 list \<Rightarrow> mem" where
  "poke m a bs = (\<lambda>x. if unat (x - a) < length bs then bs ! unat (x - a) else m x)"

definition my_pgtable :: "'a proc_state_scheme \<Rightarrow> u64 kres" where
  "my_pgtable s = (case my_proc s of None \<Rightarrow> Panic ''NULL process'' | Some p \<Rightarrow> Ok (p_pgtable (proc p s)))"

text \<open>Copies between bytes the kernel holds (placed at \<open>kbuf\<close>) and an address.\<close>

definition either_copyout :: "bool \<Rightarrow> u64 \<Rightarrow> u8 list \<Rightarrow> 'a fs_state_scheme \<Rightarrow> (int \<times> 'a fs_state_scheme) kres" where
  "either_copyout user_dst dst bs s =
     kbind (my_pgtable s) (\<lambda>pt.
     copyout_uork pt dst (kbuf s) (word_of_nat (length bs)) user_dst (s\<lparr>mem := poke (mem s) (kbuf s) bs\<rparr>))"

definition either_copyin :: "u8 list \<Rightarrow> bool \<Rightarrow> u64 \<Rightarrow> 'a fs_state_scheme \<Rightarrow> (int \<times> u8 list \<times> 'a fs_state_scheme) kres" where
  "either_copyin old user_src src s =
     kbind (my_pgtable s) (\<lambda>pt.
     kbind (copyin_uork pt (kbuf s) src (word_of_nat (length old)) user_src (s\<lparr>mem := poke (mem s) (kbuf s) old\<rparr>)) (\<lambda>(r, s).
     Ok (r, peek (mem s) (kbuf s) (length old), s)))"

definition rw_chunk :: "u32 \<Rightarrow> u32 \<Rightarrow> u32" where
  "rw_chunk rest off = min rest (1024 - off mod 1024)"

lemma rw_chunk_pos: "tot < n \<Longrightarrow> 0 < rw_chunk (n - tot) off"
proof -
  assume "tot < n"
  then have "0 < unat (n - tot)" by (simp add: unat_sub_if' word_less_nat_alt)
  moreover have "unat (1024 - off mod 1024 :: u32) = 1024 - unat off mod 1024"
    by (simp add: unat_sub_if' unat_mod)
  then have "0 < unat (1024 - off mod 1024 :: u32)" by simp
  ultimately show ?thesis by (simp add: rw_chunk_def min_def word_less_nat_alt)
qed

lemma rw_chunk_le: "rw_chunk r off \<le> r"
  by (simp add: rw_chunk_def)

lemma rw_chunk_measure: "tot < n \<Longrightarrow> unat (n - (tot + rw_chunk (n - tot) off)) < unat (n - tot)"
proof -
  assume t: "tot < n"
  let ?m = "rw_chunk (n - tot) off"
  have 1: "n - (tot + ?m) = (n - tot) - ?m" by (simp add: diff_diff_eq)
  have 2: "unat ((n - tot) - ?m) = unat (n - tot) - unat ?m" using rw_chunk_le by (simp add: unat_sub)
  have "0 < unat ?m" using rw_chunk_pos [OF t] by (simp add: word_less_nat_alt)
  moreover have "0 < unat (n - tot)" using t by (simp add: unat_sub_if' word_less_nat_alt)
  ultimately show ?thesis unfolding 1 2 by simp
qed

text \<open>The loops of \<open>readi\<close> and \<open>writei\<close>; \<open>readi_loop\<close> returns \<open>tot\<close>, \<open>writei_loop\<close> the final \<open>off\<close>.\<close>

function readi_loop :: "nat \<Rightarrow> bool \<Rightarrow> u32 \<Rightarrow> u32 \<Rightarrow> u32 \<Rightarrow> u64 \<Rightarrow> 'a fs_state_scheme \<Rightarrow> (u32 \<times> 'a fs_state_scheme) kres" where
  "readi_loop ip user_dst n tot off dst s =
     (if \<not> tot < n then Ok (tot, s)
      else
        kbind (bmap ip (off div 1024) s) (\<lambda>(addr, s).
        kbind (bread (i_dev (ino ip s)) addr s) (\<lambda>(bp, s).
        let m = rw_chunk (n - tot) off in
        kbind (either_copyout user_dst dst (take (unat m) (drop (unat off mod BSIZE) (b_data (bbuf bp s)))) s) (\<lambda>(r, s).
        if r = -1 then kbind (brelse bp s) (\<lambda>s. Ok (tot, s))
        else kbind (brelse bp s) (\<lambda>s. readi_loop ip user_dst n (tot + m) (off + m) (dst + ucast m) s)))))"
  by pat_completeness auto
termination
  by (relation "measure (\<lambda>(ip, u, n, tot, off, dst, s). unat (n - tot))") (auto simp: rw_chunk_measure)

declare readi_loop.simps [simp del]

definition readi :: "nat \<Rightarrow> bool \<Rightarrow> u64 \<Rightarrow> u32 \<Rightarrow> u32 \<Rightarrow> 'a fs_state_scheme \<Rightarrow> (int \<times> 'a fs_state_scheme) kres" where
  "readi ip user_dst dst off n s =
     (let sz = i_size (ino ip s) in
      if off > sz \<or> off + n < off then Ok (0, s)
      else
        kbind (readi_loop ip user_dst (if off + n > sz then sz - off else n) 0 off dst s) (\<lambda>(tot, s). Ok (sint tot, s)))"

function writei_loop :: "nat \<Rightarrow> bool \<Rightarrow> u32 \<Rightarrow> u32 \<Rightarrow> u32 \<Rightarrow> u64 \<Rightarrow> 'a fs_state_scheme \<Rightarrow> (u32 \<times> 'a fs_state_scheme) kres" where
  "writei_loop ip user_src n tot off src s =
     (if \<not> tot < n then Ok (off, s)
      else
        kbind (bmap ip (off div 1024) s) (\<lambda>(addr, s).
        kbind (bread (i_dev (ino ip s)) addr s) (\<lambda>(bp, s).
        let m = rw_chunk (n - tot) off; k = unat off mod BSIZE; d = b_data (bbuf bp s) in
        kbind (either_copyin (take (unat m) (drop k d)) user_src src s) (\<lambda>(r, bs, s).
        let s = set_buf_data bp (put_bytes k bs d) s in
        if r = -1 then kbind (brelse bp s) (\<lambda>s. Ok (off, s))
        else
          kbind (log_write bp s) (\<lambda>s.
          kbind (brelse bp s) (\<lambda>s.
          writei_loop ip user_src n (tot + m) (off + m) (src + ucast m) s))))))"
  by pat_completeness auto
termination
  by (relation "measure (\<lambda>(ip, u, n, tot, off, src, s). unat (n - tot))") (auto simp: rw_chunk_measure)

declare writei_loop.simps [simp del]

definition writei :: "nat \<Rightarrow> bool \<Rightarrow> u64 \<Rightarrow> u32 \<Rightarrow> u32 \<Rightarrow> 'a fs_state_scheme \<Rightarrow> (int \<times> 'a fs_state_scheme) kres" where
  "writei ip user_src src off n s =
     (if off > i_size (ino ip s) \<or> off + n < off then Ok (-1, s)
      else if unat (off + n) > MAXFILE * BSIZE then Ok (-1, s)
      else
        kbind (writei_loop ip user_src n 0 off src s) (\<lambda>(off, s).
        kbind (if n > 0 then
                 iupdate ip (if off > i_size (ino ip s) then upd_ino ip (\<lambda>i. i\<lparr>i_size := off\<rparr>) s else s)
               else Ok s) (\<lambda>s.
        Ok (sint n, s))))"

section \<open>Directories\<close>

record dirent =
  de_inum :: u16
  de_name :: "u8 list"

definition decode_dirent :: "u8 list \<Rightarrow> dirent" where
  "decode_dirent d = \<lparr>de_inum = get16 d 0, de_name = take DIRSIZ (drop 2 d)\<rparr>"

definition encode_dirent :: "dirent \<Rightarrow> u8 list" where
  "encode_dirent e = le_bytes 2 (de_inum e) @ de_name e"

definition namecmp :: "u8 list \<Rightarrow> u8 list \<Rightarrow> int" where
  "namecmp s t = strncmp s t DIRSIZ"

text \<open>\<open>readi\<close> of a whole entry into the local variable \<open>de\<close>.\<close>

definition read_dirent :: "string \<Rightarrow> nat \<Rightarrow> u32 \<Rightarrow> 'a fs_state_scheme \<Rightarrow> (dirent \<times> 'a fs_state_scheme) kres" where
  "read_dirent msg dp off s =
     kbind (readi dp False (kobj s) off 16 s) (\<lambda>(r, s).
     if r \<noteq> 16 then Panic msg else Ok (decode_dirent (peek (mem s) (kobj s) 16), s))"

text \<open>
  The offsets the loops over a directory visit. They are multiples of the entry size below
  \<open>dp->size\<close>; \<open>writei\<close> keeps sizes below \<open>2 ^ 31\<close>, so the increments do not wrap.
\<close>

definition dir_offsets :: "u32 \<Rightarrow> u32 list" where
  "dir_offsets sz = map (\<lambda>k. word_of_nat (16 * k)) [0..<(unat sz + 15) div 16]"

definition dirlookup_one :: "nat \<Rightarrow> u8 list \<Rightarrow> u32 \<Rightarrow> 'a fs_state_scheme \<Rightarrow> ((nat \<times> u32) option \<times> 'a fs_state_scheme) kres" where
  "dirlookup_one dp name off s =
     kbind (read_dirent ''dirlookup read'' dp off s) (\<lambda>(de, s).
     if de_inum de = 0 then Ok (None, s)
     else if namecmp name (de_name de) = 0 then
       kbind (iget (i_dev (ino dp s)) (ucast (de_inum de)) s) (\<lambda>(ip, s). Ok (Some (ip, off), s))
     else Ok (None, s))"

text \<open>The second component of the result is what is stored at \<open>poff\<close>.\<close>

definition dirlookup :: "nat \<Rightarrow> u8 list \<Rightarrow> 'a fs_state_scheme \<Rightarrow> ((nat \<times> u32) option \<times> 'a fs_state_scheme) kres" where
  "dirlookup dp name s =
     (if i_type (ino dp s) \<noteq> T_DIR then Panic ''dirlookup not DIR''
      else kfor (dirlookup_one dp name) (dir_offsets (i_size (ino dp s))) s)"

definition dirlink_one :: "nat \<Rightarrow> u32 \<Rightarrow> 'a fs_state_scheme \<Rightarrow> (u32 option \<times> 'a fs_state_scheme) kres" where
  "dirlink_one dp off s =
     kbind (read_dirent ''dirlink read'' dp off s) (\<lambda>(de, s).
     Ok (if de_inum de = 0 then Some off else None, s))"

definition dirlink :: "nat \<Rightarrow> u8 list \<Rightarrow> u32 \<Rightarrow> 'a fs_state_scheme \<Rightarrow> (int \<times> 'a fs_state_scheme) kres" where
  "dirlink dp name inum s =
     kbind (dirlookup dp name s) (\<lambda>(r, s).
     case r of
       Some (ip, _) \<Rightarrow> kbind (iput ip s) (\<lambda>s. Ok (-1, s))
     | None \<Rightarrow>
         kbind (kfor (dirlink_one dp) (dir_offsets (i_size (ino dp s))) s) (\<lambda>(r, s).
         let off = (case r of Some off \<Rightarrow> off | None \<Rightarrow> word_of_nat (16 * ((unat (i_size (ino dp s)) + 15) div 16)));
             de = \<lparr>de_inum = ucast inum, de_name = strncpy DIRSIZ name\<rparr>;
             s = s\<lparr>mem := poke (mem s) (kobj s) (encode_dirent de)\<rparr>
         in kbind (writei dp False (kobj s) off 16 s) (\<lambda>(r, s).
            if r \<noteq> 16 then Panic ''dirlink'' else Ok (0, s))))"

section \<open>Paths\<close>

text \<open>The loop of \<open>namex\<close>; the result is the inode and the name buffer.\<close>

function namex_loop ::
  "u8 list \<Rightarrow> bool \<Rightarrow> u8 list \<Rightarrow> nat \<Rightarrow> 'a fs_state_scheme \<Rightarrow> ((nat option \<times> u8 list) \<times> 'a fs_state_scheme) kres" where
  "namex_loop pth nameiparent name ip s =
     (case skipelem pth name of
        (None, name) \<Rightarrow>
          if nameiparent then kbind (iput ip s) (\<lambda>s. Ok ((None, name), s)) else Ok ((Some ip, name), s)
      | (Some pth, name) \<Rightarrow>
          kbind (ilock (Some ip) s) (\<lambda>s.
          if i_type (ino ip s) \<noteq> T_DIR then kbind (iunlockput ip s) (\<lambda>s. Ok ((None, name), s))
          else if nameiparent \<and> chr0 pth = 0 then kbind (iunlock (Some ip) s) (\<lambda>s. Ok ((Some ip, name), s))
          else
            kbind (dirlookup ip name s) (\<lambda>(r, s).
            case r of
              None \<Rightarrow> kbind (iunlockput ip s) (\<lambda>s. Ok ((None, name), s))
            | Some (next, _) \<Rightarrow> kbind (iunlockput ip s) (\<lambda>s. namex_loop pth nameiparent name next s))))"
  by pat_completeness auto
termination
  by (relation "measure (\<lambda>(pth, p, name, ip, s). length pth)") (auto intro: skipelem_shorter [OF sym])

declare namex_loop.simps [simp del]

definition namex :: "u8 list \<Rightarrow> bool \<Rightarrow> u8 list \<Rightarrow> 'a fs_state_scheme \<Rightarrow> ((nat option \<times> u8 list) \<times> 'a fs_state_scheme) kres" where
  "namex pth nameiparent name s =
     kbind (if chr0 pth = SLASH then iget ROOTDEV ROOTINO s
            else
              case my_proc s of
                None \<Rightarrow> Panic ''NULL process''
              | Some p \<Rightarrow> (case p_cwd (proc p s) of None \<Rightarrow> Panic ''NULL cwd'' | Some ip \<Rightarrow> idup ip s)) (\<lambda>(ip, s).
     namex_loop pth nameiparent name ip s)"

definition namei :: "u8 list \<Rightarrow> 'a fs_state_scheme \<Rightarrow> (nat option \<times> 'a fs_state_scheme) kres" where
  "namei pth s = kbind (namex pth False (replicate DIRSIZ 0) s) (\<lambda>((ip, _), s). Ok (ip, s))"

definition nameiparent :: "u8 list \<Rightarrow> u8 list \<Rightarrow> 'a fs_state_scheme \<Rightarrow> ((nat option \<times> u8 list) \<times> 'a fs_state_scheme) kres" where
  "nameiparent pth name s = namex pth True name s"

end
