(* ===== verification/Fs_Inv.thy ===== *)
theory Fs_Inv
  imports Fs
begin

text \<open>
  Correctness of the block allocator, of the inode table and of the inode cache of kernel/fs/fs.c, on
  the contents of the blocks that a transaction sees.
\<close>

section \<open>The bitmap\<close>

lemma block_free_bit: "block_free d bi \<longleftrightarrow> \<not> bit (d ! (bi div 8)) (bi mod 8)"
  by (simp add: block_free_def bit_mask_def push_bit_of_1 and_exp_eq_0_iff_not_bit)

lemma bit_bit_mask: "bit (bit_mask bi) k \<longleftrightarrow> k = bi mod 8"
  by (auto simp: bit_mask_def bit_simps)

lemma set_bit_mask:
  assumes "bi < 8 * length d" "bj < 8 * length d"
  shows "block_free (d[bi div 8 := d ! (bi div 8) OR bit_mask bi]) bj \<longleftrightarrow> block_free d bj \<and> bj \<noteq> bi"
    "block_free (d[bi div 8 := d ! (bi div 8) AND NOT (bit_mask bi)]) bj \<longleftrightarrow> block_free d bj \<or> bj = bi"
proof -
  have l: "bi div 8 < length d" using assms by auto
  have m: "bj mod 8 < LENGTH(8)" by simp
  have bits: "bit (x OR bit_mask bi) (bj mod 8) = (bit x (bj mod 8) \<or> bj mod 8 = bi mod 8)"
    "bit (x AND NOT (bit_mask bi)) (bj mod 8) = (bit x (bj mod 8) \<and> bj mod 8 \<noteq> bi mod 8)" for x :: u8
    using m by (auto simp: bit_or_iff bit_and_iff bit_not_iff bit_bit_mask)
  have e: "bi = bj \<longleftrightarrow> bi div 8 = bj div 8 \<and> bi mod 8 = bj mod 8" by (metis div_mult_mod_eq)
  show "block_free (d[bi div 8 := d ! (bi div 8) OR bit_mask bi]) bj \<longleftrightarrow> block_free d bj \<and> bj \<noteq> bi"
    unfolding block_free_bit using l bits e by (cases "bi div 8 = bj div 8") auto
  show "block_free (d[bi div 8 := d ! (bi div 8) AND NOT (bit_mask bi)]) bj \<longleftrightarrow> block_free d bj \<or> bj = bi"
    unfolding block_free_bit using l bits e by (cases "bi div 8 = bj div 8") auto
qed

text \<open>Block \<open>j\<close> of the bitmap, and whether a block number is marked free.\<close>

definition bmblock :: "'a fs_state_scheme \<Rightarrow> nat \<Rightarrow> u32" where
  "bmblock s j = word_of_nat j + sb_bmapstart (sb s)"

definition nblocks :: "'a fs_state_scheme \<Rightarrow> nat" where
  "nblocks s = unat (sb_size (sb s))"

definition nfree :: "'a fs_state_scheme \<Rightarrow> nat \<Rightarrow> bool" where
  "nfree s n \<longleftrightarrow> n < nblocks s \<and> block_free (bview s (bmblock s (n div BPB))) (n mod BPB)"

lemma nblocks_less: "nblocks s < 2 ^ 32"
  using unsigned_less [of "sb_size (sb s)", where ?'a = nat] by (simp add: nblocks_def)

lemma BBLOCK_bmblock: "BBLOCK b (sb s) = bmblock s (unat b div BPB)"
proof -
  have "b div 8192 = word_of_nat (unat b div BPB)"
  proof (rule word_eq_iff_unat [THEN iffD2])
    have "unat b < 2 ^ 32" using unsigned_less [of b, where ?'a = nat] by simp
    then have "unat (word_of_nat (unat b div BPB) :: u32) = unat b div BPB" by (intro unat_word_of_nat) simp
    then show "unat (b div 8192) = unat (word_of_nat (unat b div BPB) :: u32)" by (simp add: unat_div)
  qed
  then show ?thesis by (simp add: BBLOCK_def bmblock_def)
qed

lemma tframe_fs:
  assumes "tframe s t"
  shows "sb t = sb s" "icache t = icache s" "kbuf t = kbuf s" "kobj t = kobj s" "bmblock t = bmblock s" "nblocks t = nblocks s" "usable t = usable s"
  using assms by (auto simp: tframe_def bmblock_def nblocks_def usable_def lstart_def fun_eq_iff)

text \<open>
  The layout of the disk: bitmap blocks are outside the log, and no block that is marked free belongs
  to the log or to the bitmap.
\<close>

definition fs_layout :: "'a fs_state_scheme \<Rightarrow> bool" where
  "fs_layout s \<longleftrightarrow> (\<forall>n < nblocks s. usable s (bmblock s (n div BPB))) \<and>
     (\<forall>n. nfree s n \<longrightarrow> usable s (word_of_nat n) \<and> (\<forall>m < nblocks s. word_of_nat n \<noteq> bmblock s (m div BPB))) \<and>
     (\<forall>n < nblocks s. \<forall>m < nblocks s. bmblock s (n div BPB) = bmblock s (m div BPB) \<longrightarrow> n div BPB = m div BPB)"

text \<open>The caller holds no block of the bitmap and no free block.\<close>

definition locks_ok :: "u32 set \<Rightarrow> 'a fs_state_scheme \<Rightarrow> bool" where
  "locks_ok L s \<longleftrightarrow> (\<forall>n < nblocks s. bmblock s (n div BPB) \<notin> L) \<and> (\<forall>n. nfree s n \<longrightarrow> word_of_nat n \<notin> L)"

lemma bzero_law:
  assumes "tx_ok (Suc k) L s" "b \<notin> L" "card L \<le> Suc k" "usable s b"
  shows "\<exists>t. bzero ROOTDEV b s = Ok t \<and> tx_ok k L t \<and> tframe s t \<and> bview t = (bview s)(b := replicate BSIZE 0) \<and> bhnd t = bhnd s"
  using tx.update_block [OF assms, where f = "\<lambda>_. replicate BSIZE 0"] by (auto simp: bzero_def)

text \<open>What one call of \<open>balloc\<close> does when it takes block \<open>n\<close>.\<close>

definition allocated :: "nat \<Rightarrow> 'a fs_state_scheme \<Rightarrow> 'a fs_state_scheme \<Rightarrow> bool" where
  "allocated n s t \<longleftrightarrow> nfree s n \<and> tframe s t \<and> bview t (word_of_nat n) = replicate BSIZE 0 \<and>
     (\<forall>m. nfree t m \<longleftrightarrow> nfree s m \<and> m \<noteq> n) \<and>
     (\<forall>b. b \<noteq> word_of_nat n \<and> b \<noteq> bmblock s (n div BPB) \<longrightarrow> bview t b = bview s b)"

lemma balloc_take:
  assumes ok: "tx_ok (Suc (Suc k)) L s" and c: "card L \<le> Suc k" and lay: "fs_layout s" and lk: "locks_ok L s"
    and n: "nfree s n" and first: "List.find (block_free (bview s (bmblock s (n div BPB)))) [0..<min BPB (nblocks s - n div BPB * BPB)] = Some (n mod BPB)"
  shows "\<exists>t. balloc_block ROOTDEV (n div BPB) s = Ok (Some (word_of_nat n), t) \<and> tx_ok k L t \<and> allocated n s t \<and> bhnd t = bhnd s"
proof -
  let ?j = "n div BPB" and ?bi = "n mod BPB"
  let ?b = "bmblock s ?j"
  have nb: "n < nblocks s" using n by (simp add: nfree_def)
  have n32: "n < 2 ^ 32" using nb nblocks_less less_trans by blast
  have u: "usable s ?b" "?b \<notin> L" "usable s (word_of_nat n)" "word_of_nat n \<notin> L" "word_of_nat n \<noteq> ?b"
    using lay lk n nb by (auto simp: fs_layout_def locks_ok_def)
  have j32: "?j * BPB < 2 ^ 32" using n32 by (simp add: order.strict_trans1 [OF div_times_less_eq_dividend])
  have bb: "BBLOCK (word_of_nat (?j * BPB)) (sb s) = ?b"
  proof -
    have "unat (word_of_nat (?j * BPB) :: u32) = ?j * BPB" using j32 by (intro unat_word_of_nat) simp
    then show ?thesis by (simp only: BBLOCK_bmblock) simp
  qed
  have nn: "?j * BPB + ?bi = n" by simp
  let ?f = "\<lambda>d. d[?bi div 8 := d ! (?bi div 8) OR bit_mask ?bi] :: u8 list"
  have lb: "length (bview s x) = BSIZE" for x using tx.view_length [OF ok] .
  have len: "length (?f (bview s ?b)) = BSIZE" using lb by simp
  have c2: "card L \<le> Suc (Suc k)" using c by simp
  obtain i u' w t where t: "bread ROOTDEV ?b s = Ok (i, u')" "tframe s u'" "b_data (bbuf i u') = bview s ?b"
      "log_write i (set_buf_data i (?f (bview s ?b)) u') = Ok w" "brelse i w = Ok t" "tx_ok (Suc k) L t" "tframe s t"
      "bview t = (bview s)(?b := ?f (bview s ?b))" "bhnd t = bhnd s"
    using tx.update_block [OF ok u(2) c2 u(1), where f = ?f] len by blast
  note ft = tframe_fs [OF t(7)]
  obtain r where r: "bzero ROOTDEV (word_of_nat n) t = Ok r" "tx_ok k L r" "tframe t r" "bview r = (bview t)(word_of_nat n := replicate BSIZE 0)" "bhnd r = bhnd t"
    using bzero_law [OF t(6) u(4) c] u(3) ft by auto
  have "sb u' = sb s" using tframe_fs [OF t(2)] by simp
  then have "balloc_block ROOTDEV ?j s = Ok (Some (word_of_nat n), r)"
    unfolding balloc_block_def bb t(1) kbind.simps prod.case t(3) Let_def
    using first t(4,5) r(1) by (simp add: nblocks_def)
  moreover have fr: "tframe s r" using t(7) r(3) tframe_trans by blast
  moreover have "nfree r m \<longleftrightarrow> nfree s m \<and> m \<noteq> n" for m
  proof (cases "m < nblocks s")
    case True
    have "word_of_nat n \<noteq> bmblock s (m div BPB)" using lay n True unfolding fs_layout_def by blast
    then have mb: "bview r (bmblock s (m div BPB)) = bview t (bmblock s (m div BPB))" using r(4) by simp
    show ?thesis
    proof (cases "m div BPB = ?j")
      case same: True
      have "block_free (?f (bview s ?b)) (m mod BPB) \<longleftrightarrow> block_free (bview s ?b) (m mod BPB) \<and> m mod BPB \<noteq> ?bi"
        using lb by (intro set_bit_mask(1)) simp_all
      moreover have "m mod BPB = ?bi \<longleftrightarrow> m = n" using same by (metis div_mult_mod_eq)
      ultimately show ?thesis using True same mb t(8) tframe_fs [OF fr] by (simp add: nfree_def)
    next
      case False
      then have "bmblock s (m div BPB) \<noteq> ?b" using lay True nb by (auto simp: fs_layout_def)
      then show ?thesis using True False mb t(8) tframe_fs [OF fr] by (auto simp: nfree_def)
    qed
  next
    case False
    then show ?thesis using tframe_fs [OF fr] by (simp add: nfree_def)
  qed
  ultimately show ?thesis using n r(2,4,5) t(8,9) by (intro exI [of _ r]) (auto simp: allocated_def)
qed

lemma nfree_same: "tframe s t \<Longrightarrow> bview t = bview s \<Longrightarrow> nfree t = nfree s"
  by (simp add: nfree_def tframe_fs fun_eq_iff)

lemma layout_same: "tframe s t \<Longrightarrow> bview t = bview s \<Longrightarrow> fs_layout t = fs_layout s \<and> locks_ok L t = locks_ok L s"
  using nfree_same [of s t] by (simp add: fs_layout_def locks_ok_def tframe_fs)

lemma find_upt_Some: "List.find P [0..<M] = Some b \<longleftrightarrow> b < M \<and> P b \<and> (\<forall>c < b. \<not> P c)"
  by (auto simp: find_Some_iff)

lemma find_upt_None: "List.find P [0..<M] = None \<longleftrightarrow> (\<forall>c < M. \<not> P c)"
  by (auto simp: find_None_iff)

lemma bpb_split: "a * BPB \<le> n \<Longrightarrow> n < Suc a * BPB \<Longrightarrow> n div BPB = a \<and> n mod BPB = n - a * BPB"
proof -
  assume "a * BPB \<le> n" "n < Suc a * BPB"
  then have "n div BPB = a" by (intro div_nat_eqI) simp_all
  then show ?thesis by (simp add: modulo_nat_def)
qed

lemma bitmap_block_use:
  assumes "fs_layout s" "locks_ok L s" "j * BPB < nblocks s"
  shows "usable s (bmblock s j)" "bmblock s j \<notin> L" "BBLOCK (word_of_nat (j * BPB)) (sb s) = bmblock s j"
proof -
  have "(j * BPB) div BPB = j" by simp
  then show "usable s (bmblock s j)" "bmblock s j \<notin> L" using assms unfolding fs_layout_def locks_ok_def by metis+
  have "j * BPB < 2 ^ 32" using assms(3) nblocks_less less_trans by blast
  then have "unat (word_of_nat (j * BPB) :: u32) = j * BPB" by (intro unat_word_of_nat) simp
  then show "BBLOCK (word_of_nat (j * BPB)) (sb s) = bmblock s j" by (simp only: BBLOCK_bmblock) simp
qed

lemma balloc_skip:
  assumes ok: "tx_ok k L s" and c: "card L \<le> k" and lay: "fs_layout s" "locks_ok L s" and j: "j * BPB < nblocks s"
    and none: "List.find (block_free (bview s (bmblock s j))) [0..<min BPB (nblocks s - j * BPB)] = None"
  shows "\<exists>t. balloc_block ROOTDEV j s = Ok (None, t) \<and> tx_ok k L t \<and> tframe s t \<and> bview t = bview s \<and> bhnd t = bhnd s"
proof -
  note B = bitmap_block_use [OF lay j]
  obtain i u t where t: "bread ROOTDEV (bmblock s j) s = Ok (i, u)" "tframe s u" "b_data (bbuf i u) = bview s (bmblock s j)" "brelse i u = Ok t"
      "tx_ok k L t" "tframe s t" "bview t = bview s" "bhnd t = bhnd s"
    using tx.peek_block [OF ok B(2) c B(1)] by blast
  have "sb u = sb s" using tframe_fs [OF t(2)] by simp
  then have "balloc_block ROOTDEV j s = Ok (None, t)"
    unfolding balloc_block_def B(3) t(1) kbind.simps prod.case t(3) Let_def using none t(4) by (simp add: nblocks_def)
  then show ?thesis using t by blast
qed

lemma balloc_loop:
  assumes "tx_ok (Suc (Suc k)) L s" "card L \<le> Suc k" "fs_layout s" "locks_ok L s" "N = (nblocks s + (BPB - 1)) div BPB" "a \<le> N"
    "\<forall>n < a * BPB. \<not> nfree s n"
  shows "if \<exists>n. nfree s n
    then \<exists>n t. (\<forall>m < n. \<not> nfree s m) \<and> kfor (balloc_block ROOTDEV) [a..<N] s = Ok (Some (word_of_nat n), t) \<and> tx_ok k L t \<and> allocated n s t \<and> bhnd t = bhnd s
    else \<exists>t. kfor (balloc_block ROOTDEV) [a..<N] s = Ok (None, t)"
  using assms
proof (induction "N - a" arbitrary: a s)
  case 0
  then have "nblocks s \<le> a * BPB" "a = N" by (auto simp: less_Suc_eq_le)
  then have "\<not> nfree s n" for n using 0 by (auto simp: nfree_def)
  then show ?case using \<open>a = N\<close> by simp
next
  case (Suc x)
  then have a: "a < N" "a * BPB < nblocks s" by auto
  have up: "[a..<N] = a # [Suc a..<N]" using a by (simp add: upt_conv_Cons)
  let ?F = "List.find (block_free (bview s (bmblock s a))) [0..<min BPB (nblocks s - a * BPB)]"
  show ?case
  proof (cases ?F)
    case None
    have ok: "tx_ok (Suc (Suc k)) L s" "card L \<le> Suc (Suc k)" using Suc.prems by simp_all
    obtain t where t: "balloc_block ROOTDEV a s = Ok (None, t)" "tx_ok (Suc (Suc k)) L t" "tframe s t" "bview t = bview s" "bhnd t = bhnd s"
      using balloc_skip [OF ok Suc.prems(3,4) a(2) None] by blast
    have nf: "nfree t = nfree s" using nfree_same [OF t(3,4)] .
    have "\<not> nfree s n" if "n < Suc a * BPB" for n
    proof (cases "n < a * BPB")
      case False
      then have "n div BPB = a" "n mod BPB = n - a * BPB" using that bpb_split [of a n] by simp_all
      moreover have "n < nblocks s \<Longrightarrow> n - a * BPB < min BPB (nblocks s - a * BPB)" using that False by simp linarith
      ultimately show ?thesis using None unfolding find_upt_None nfree_def by metis
    qed (use Suc.prems in simp)
    then have IH: "if \<exists>n. nfree t n
      then \<exists>n r. (\<forall>m < n. \<not> nfree t m) \<and> kfor (balloc_block ROOTDEV) [Suc a..<N] t = Ok (Some (word_of_nat n), r) \<and> tx_ok k L r \<and> allocated n t r \<and> bhnd r = bhnd t
      else \<exists>r. kfor (balloc_block ROOTDEV) [Suc a..<N] t = Ok (None, r)"
      using Suc.hyps(2) Suc.prems a t layout_same [OF t(3,4)] tframe_fs [OF t(3)] nf by (intro Suc.hyps(1)) auto
    have al: "allocated n t r \<Longrightarrow> allocated n s r" for n r
      unfolding allocated_def nf t(4) tframe_fs(5) [OF t(3)] using tframe_trans [OF t(3)] by blast
    show ?thesis using IH nf t(1,5) up al by (auto split: if_splits)
  next
    case (Some bi)
    define n where "n = a * BPB + bi"
    have bi: "bi < BPB" "a * BPB + bi < nblocks s" using Some unfolding find_upt_Some by auto
    have n: "n div BPB = a" "n mod BPB = bi" using bi by (simp_all add: n_def)
    have nf: "nfree s n" using Some n bi unfolding find_upt_Some by (simp add: nfree_def n_def)
    have "\<exists>t. balloc_block ROOTDEV (n div BPB) s = Ok (Some (word_of_nat n), t) \<and> tx_ok k L t \<and> allocated n s t \<and> bhnd t = bhnd s"
      using Some n by (intro balloc_take [OF Suc.prems(1-4) nf]) simp
    moreover have "\<not> nfree s m" if "m < n" for m
    proof (cases "m < a * BPB")
      case False
      then have "m div BPB = a" "m mod BPB = m - a * BPB" using that bi bpb_split [of a m] by (simp_all add: n_def)
      moreover have "m - a * BPB < bi" using that False by (simp add: n_def)
      ultimately show ?thesis using Some unfolding find_upt_Some nfree_def by metis
    qed (use Suc.prems in simp)
    ultimately have "\<exists>n t. (\<forall>m < n. \<not> nfree s m) \<and> kfor (balloc_block ROOTDEV) [a..<N] s = Ok (Some (word_of_nat n), t) \<and> tx_ok k L t \<and>
        allocated n s t \<and> bhnd t = bhnd s"
      unfolding up n(1) by (intro exI [of _ n]) auto
    then show ?thesis using nf by auto
  qed
qed

lemma bfree_law:
  assumes ok: "tx_ok (Suc k) L s" and c: "card L \<le> Suc k" and lay: "fs_layout s" "locks_ok L s" and b: "unat b < nblocks s"
  shows "if nfree s (unat b) then bfree ROOTDEV b s = Panic ''freeing free block''
    else \<exists>t. bfree ROOTDEV b s = Ok t \<and> tx_ok k L t \<and> tframe s t \<and> bhnd t = bhnd s \<and> (\<forall>m. nfree t m \<longleftrightarrow> nfree s m \<or> m = unat b) \<and>
      (\<forall>x. x \<noteq> bmblock s (unat b div BPB) \<longrightarrow> bview t x = bview s x)"
proof -
  let ?j = "unat b div BPB" and ?bi = "unat b mod BPB"
  let ?b = "bmblock s ?j"
  have u: "usable s ?b" "?b \<notin> L" using lay b unfolding fs_layout_def locks_ok_def by blast+
  let ?f = "\<lambda>d. d[?bi div 8 := d ! (?bi div 8) AND NOT (bit_mask ?bi)] :: u8 list"
  have lb: "length (bview s x) = BSIZE" for x using tx.view_length [OF ok] .
  have len: "length (?f (bview s ?b)) = BSIZE" using lb by simp
  have nf: "nfree s (unat b) \<longleftrightarrow> block_free (bview s ?b) ?bi" using b by (simp add: nfree_def)
  obtain i u' w t where t: "bread ROOTDEV ?b s = Ok (i, u')" "b_data (bbuf i u') = bview s ?b"
      "log_write i (set_buf_data i (?f (bview s ?b)) u') = Ok w" "brelse i w = Ok t" "tx_ok k L t" "tframe s t"
      "bview t = (bview s)(?b := ?f (bview s ?b))" "bhnd t = bhnd s"
    using tx.update_block [OF ok u(2) c u(1), where f = ?f] len by blast
  show ?thesis
  proof (cases "nfree s (unat b)")
    case True
    then show ?thesis using nf unfolding bfree_def BBLOCK_bmblock t(1) kbind.simps prod.case t(2) Let_def by simp
  next
    case False
    then have "bfree ROOTDEV b s = Ok t"
      using nf t(3,4) unfolding bfree_def BBLOCK_bmblock t(1) kbind.simps prod.case t(2) Let_def by simp
    moreover have "nfree t m \<longleftrightarrow> nfree s m \<or> m = unat b" for m
    proof (cases "m < nblocks s")
      case True
      show ?thesis
      proof (cases "m div BPB = ?j")
        case same: True
        have "block_free (?f (bview s ?b)) (m mod BPB) \<longleftrightarrow> block_free (bview s ?b) (m mod BPB) \<or> m mod BPB = ?bi"
          using lb by (intro set_bit_mask(2)) simp_all
        moreover have "m mod BPB = ?bi \<longleftrightarrow> m = unat b" using same by (metis div_mult_mod_eq)
        ultimately show ?thesis using True same t(7) tframe_fs [OF t(6)] by (simp add: nfree_def)
      next
        case False
        then have "bmblock s (m div BPB) \<noteq> ?b" using lay(1) True b unfolding fs_layout_def by blast
        then show ?thesis using True False t(7) tframe_fs [OF t(6)] by (auto simp: nfree_def)
      qed
    next
      case False
      then show ?thesis using tframe_fs [OF t(6)] b by (auto simp: nfree_def)
    qed
    ultimately show ?thesis using False t(5,6,7,8) by auto
  qed
qed

text \<open>
  C25: the block allocator. In a transaction on a disk whose layout is sound, \<open>balloc\<close> returns the
  lowest block marked free, marks it used, clears its contents and changes nothing else; it panics
  exactly when no block is free. \<open>bfree\<close> marks a used block free and changes nothing else, and
  panics exactly when the block is free already.
\<close>

theorem block_allocator_correct:
  assumes ok: "tx_ok (Suc (Suc k)) L s" and c: "card L \<le> Suc k" and lay: "fs_layout s" "locks_ok L s"
  shows "(if \<exists>n. nfree s n
      then \<exists>n t. balloc ROOTDEV s = Ok (word_of_nat n, t) \<and> (\<forall>m < n. \<not> nfree s m) \<and> allocated n s t \<and> tx_ok k L t
      else balloc ROOTDEV s = Panic ''balloc: out of blocks'') \<and>
    (unat b < nblocks s \<longrightarrow>
      (if nfree s (unat b) then bfree ROOTDEV b s = Panic ''freeing free block''
       else \<exists>t. bfree ROOTDEV b s = Ok t \<and> tx_ok (Suc k) L t \<and> tframe s t \<and> (\<forall>m. nfree t m \<longleftrightarrow> nfree s m \<or> m = unat b) \<and>
         (\<forall>x. x \<noteq> bmblock s (unat b div BPB) \<longrightarrow> bview t x = bview s x)))"
proof
  let ?N = "(nblocks s + (BPB - 1)) div BPB"
  have N: "(unat (sb_size (sb s)) + (BPB - 1)) div BPB = ?N" by (simp add: nblocks_def)
  have "if \<exists>n. nfree s n
    then \<exists>n t. (\<forall>m < n. \<not> nfree s m) \<and> kfor (balloc_block ROOTDEV) [0..<?N] s = Ok (Some (word_of_nat n), t) \<and> tx_ok k L t \<and> allocated n s t \<and> bhnd t = bhnd s
    else \<exists>t. kfor (balloc_block ROOTDEV) [0..<?N] s = Ok (None, t)"
    using balloc_loop [OF assms refl, of 0] by simp
  then show "if \<exists>n. nfree s n
      then \<exists>n t. balloc ROOTDEV s = Ok (word_of_nat n, t) \<and> (\<forall>m < n. \<not> nfree s m) \<and> allocated n s t \<and> tx_ok k L t
      else balloc ROOTDEV s = Panic ''balloc: out of blocks''"
    unfolding balloc_def N by (auto split: if_splits)
next
  have "card L \<le> Suc (Suc k)" using c by simp
  then show "unat b < nblocks s \<longrightarrow>
      (if nfree s (unat b) then bfree ROOTDEV b s = Panic ''freeing free block''
       else \<exists>t. bfree ROOTDEV b s = Ok t \<and> tx_ok (Suc k) L t \<and> tframe s t \<and> (\<forall>m. nfree t m \<longleftrightarrow> nfree s m \<or> m = unat b) \<and>
         (\<forall>x. x \<noteq> bmblock s (unat b div BPB) \<longrightarrow> bview t x = bview s x))"
    using bfree_law [OF ok _ lay] by (fastforce split: if_splits)
qed

section \<open>A small file system\<close>

text \<open>
  The disk of \<open>fs_example\<close>: 200 blocks, log in blocks 2 to 31, inodes from block 32, bitmap in block
  45; the blocks up to 45 and the last of the log area are marked used, the rest is free.
\<close>

definition example_bitmap :: "u8 list" where
  "example_bitmap = replicate 8 255 @ replicate (BSIZE - 8) 0"

definition fs_example :: fs_state where
  "fs_example = log_state.extend (log_example\<lparr>disk := (\<lambda>_. replicate BSIZE 0)(45 := example_bitmap)\<rparr>)
     (fs_state.fields \<lparr>sb_magic = FSMAGIC, sb_size = 200, sb_nblocks = 154, sb_ninodes = 200, sb_nlog = 30, sb_logstart = 2, sb_inodestart = 32, sb_bmapstart = 45\<rparr>
       (replicate NINODE \<lparr>i_dev = 0, i_inum = 0, i_ref = 0, i_lock = initsleeplock, i_valid = False, i_type = 0, i_major = 0, i_minor = 0, i_nlink = 0,
         i_size = 0, i_addrs = replicate 13 0\<rparr>) 0x87000000 0x87001000)"

lemma fs_example_ready: "boot_ready fs_example"
  using log_example_ready by (simp add: boot_ready_def fs_example_def log_state.defs fs_state.defs my_proc_def example_bitmap_def)

lemma fs_example_boot: "tx_ok 29 {} (binit fs_example)" "bview (binit fs_example) = (\<lambda>_. replicate BSIZE 0)(45 := example_bitmap)"
  "lstart (binit fs_example) = 2" "sb (binit fs_example) = sb fs_example" "icache (binit fs_example) = icache fs_example"
  "held (binit fs_example) = {}" "blocked (binit fs_example) = (\<lambda>_. False)" "bref (binit fs_example) = (\<lambda>_. 0)"
proof -
  note I = binit_inv [OF fs_example_ready]
  note f = bframe_log [OF I(2)] and A = abs_eqD [OF I(3)]
  have e: "log_start fs_example = 2" "log_size fs_example = 30" "log_outstanding fs_example = 1" "log_dev fs_example = ROOTDEV" "lh_n fs_example = 0"
    "lh_block fs_example = replicate LOGSIZE 0" "disk fs_example = (\<lambda>_. replicate BSIZE 0)(45 := example_bitmap)" "held fs_example = {}"
    by (simp_all add: fs_example_def log_example_def bio_example_def pgroup_state.defs bio_state.defs log_state.defs fs_state.defs pg_example_def)
  show v: "bview (binit fs_example) = (\<lambda>_. replicate BSIZE 0)(45 := example_bitmap)" using A e by simp
  show h: "held (binit fs_example) = {}" using I(2) e by (auto simp: bframe_def)
  show b: "blocked (binit fs_example) = (\<lambda>_. False)" "bref (binit fs_example) = (\<lambda>_. 0)" using A by simp_all
  show st: "lstart (binit fs_example) = 2" using f e by (simp add: lstart_def)
  show "sb (binit fs_example) = sb fs_example" "icache (binit fs_example) = icache fs_example" using I(2) by (auto simp: bframe_def)
  have hm: "homes (binit fs_example) = {}" using f e by (simp add: homes_def)
  have "disk_n 2 (disk (binit fs_example)) = 0" using A e zero_disk_n [of 2] by (simp add: disk_n_def)
  then have "tx_inv (binit fs_example)" using I(1) f e h st by (simp add: tx_inv_def logged_def)
  then show "tx_ok 29 {} (binit fs_example)" unfolding tx_ok_def hm using f e b v A by simp
qed

lemma example_bitmap_free: "n < 8 * BSIZE \<Longrightarrow> block_free example_bitmap n \<longleftrightarrow> 64 \<le> n"
proof -
  assume n: "n < 8 * BSIZE"
  have "example_bitmap ! (n div 8) = (if n < 64 then 255 else 0)"
    using n by (auto simp: example_bitmap_def nth_append)
  moreover have "bit (255 :: u8) (n mod 8)"
  proof -
    have "n mod 8 < 8" by simp
    then consider "n mod 8 = 0" | "n mod 8 = 1" | "n mod 8 = 2" | "n mod 8 = 3" | "n mod 8 = 4" | "n mod 8 = 5" | "n mod 8 = 6" | "n mod 8 = 7" by linarith
    then show ?thesis by cases simp_all
  qed
  ultimately show ?thesis by (auto simp: block_free_bit)
qed

lemma fs_example_free: "nfree (binit fs_example) n \<longleftrightarrow> 64 \<le> n \<and> n < 200" "nblocks (binit fs_example) = 200"
  "bmblock (binit fs_example) 0 = 45"
proof -
  note B = fs_example_boot
  have e: "sb_size (sb fs_example) = 200" "sb_bmapstart (sb fs_example) = 45" by (simp_all add: fs_example_def fs_state.defs log_state.defs)
  show nb: "nblocks (binit fs_example) = 200" using B(4) e by (simp add: nblocks_def)
  show bm: "bmblock (binit fs_example) 0 = 45" using B(4) e by (simp add: bmblock_def)
  show "nfree (binit fs_example) n \<longleftrightarrow> 64 \<le> n \<and> n < 200"
    using nb bm B(2) example_bitmap_free [of n] by (auto simp: nfree_def)
qed

lemma area_2: "unat b \<ge> 33 \<Longrightarrow> b \<notin> log_area 2"
proof
  assume b: "unat b \<ge> 33" and a: "b \<in> log_area 2"
  then consider "b = 2" | i where "i < 30" "b = lblock 2 i" by (auto simp: log_area_def)
  then show False
  proof cases
    case 2
    have "b = word_of_nat (i + 3)" using 2(2) by (simp add: lblock_def)
    moreover have "unat (word_of_nat (i + 3) :: u32) = i + 3" using 2(1) by (intro unat_word_of_nat) simp
    ultimately show False using b 2(1) by simp
  qed (use b in simp)
qed

lemma fs_example_layout: "fs_layout (binit fs_example)" "locks_ok {} (binit fs_example)"
proof -
  note B = fs_example_boot and F = fs_example_free
  have u: "usable (binit fs_example) b" if "33 \<le> unat b" for b using B(3) area_2 [OF that] by (simp add: usable_def)
  have w: "unat (word_of_nat n :: u32) = n" if "n < 200" for n using that by simp
  have z: "n div BPB = 0" if "n < 200" for n using that by simp
  show "fs_layout (binit fs_example)"
    unfolding fs_layout_def F(1,2)
  proof (intro conjI allI impI)
    fix n :: nat assume "n < 200"
    then show "usable (binit fs_example) (bmblock (binit fs_example) (n div BPB))" using z F(3) u [of 45] by simp
  next
    fix n :: nat assume n: "64 \<le> n \<and> n < 200"
    then show "usable (binit fs_example) (word_of_nat n)" using u [of "word_of_nat n"] w [of n] by simp
    fix m :: nat assume m: "m < 200"
    show "word_of_nat n \<noteq> bmblock (binit fs_example) (m div BPB)"
    proof
      assume "word_of_nat n = bmblock (binit fs_example) (m div BPB)"
      then have "unat (word_of_nat n :: u32) = unat (45 :: u32)" using z [OF m] F(3) by simp
      then show False using n w [of n] by simp
    qed
  qed simp
  show "locks_ok {} (binit fs_example)" by (simp add: locks_ok_def)
qed

theorem block_allocator_correct_witness:
  "\<exists>t. balloc ROOTDEV (binit fs_example) = Ok (64, t) \<and> nfree (binit fs_example) 64 \<and> \<not> nfree t 64 \<and> nfree t 65"
proof -
  let ?s = "binit fs_example"
  have ok: "tx_ok (Suc (Suc 27)) {} ?s" using fs_example_boot(1) by simp
  have "\<exists>n. nfree ?s n" using fs_example_free(1) by auto
  then obtain n t where t: "balloc ROOTDEV ?s = Ok (word_of_nat n, t)" "\<forall>m < n. \<not> nfree ?s m" "allocated n ?s t"
    using block_allocator_correct [OF ok _ fs_example_layout, of 0] by (auto split: if_splits)
  have "nfree ?s n" using t(3) by (simp add: allocated_def)
  then have "n = 64" using t(2) fs_example_free(1) by (cases "64 < n") (auto simp: not_less)
  then show ?thesis using t fs_example_free(1) by (auto simp: allocated_def)
qed

section \<open>Inodes on disk\<close>

lemma put_addrs_length:
  "k + 4 * m \<le> length d \<Longrightarrow> length (fold (\<lambda>j. put32 (k + 4 * j) (as ! j)) [0..<m] d) = length d"
  by (induction m) auto

lemma put_addrs_other:
  "k + 4 * m \<le> length d \<Longrightarrow> x + w \<le> length d \<Longrightarrow> x + w \<le> k \<or> k + 4 * m \<le> x \<Longrightarrow>
     get_le w (fold (\<lambda>j. put32 (k + 4 * j) (as ! j)) [0..<m] d) x = (get_le w d x :: 'w::len word)"
  by (induction m) (auto simp: put_addrs_length get_put_le_other)

lemma put_addrs_get:
  "k + 4 * m \<le> length d \<Longrightarrow> j < m \<Longrightarrow> get32 (fold (\<lambda>j. put32 (k + 4 * j) (as ! j)) [0..<m] d) (k + 4 * j) = (as ! j :: u32)"
proof (induction m)
  case (Suc m)
  then show ?case by (cases "j = m") (auto simp: put_addrs_length get_put_le get_put_le_other)
qed simp

definition same_file :: "inode \<Rightarrow> inode \<Rightarrow> bool" where
  "same_file i j \<longleftrightarrow> i_type i = i_type j \<and> i_major i = i_major j \<and> i_minor i = i_minor j \<and> i_nlink i = i_nlink j \<and>
     i_size i = i_size j \<and> i_addrs i = i_addrs j"

lemma store_dinode_length:
  assumes "k + 64 \<le> length d"
  shows "length (store_dinode i k d) = length d"
proof -
  let ?e = "put32 (k + 8) (i_size i) (put16 (k + 6) (i_nlink i) (put16 (k + 4) (i_minor i) (put16 (k + 2) (i_major i) (put16 k (i_type i) d))))"
  have "length ?e = length d" using assms by simp
  then show ?thesis using put_addrs_length [of "k + 12" 13 ?e "i_addrs i"] assms by (simp add: store_dinode_def Let_def put_addrs_def)
qed

lemma load_store_dinode:
  assumes d: "k + 64 \<le> length d" and a: "length (i_addrs i) = NDIRECT + 1"
  shows "same_file (load_dinode (store_dinode i k d) k j) i"
proof -
  let ?e = "put32 (k + 8) (i_size i) (put16 (k + 6) (i_nlink i) (put16 (k + 4) (i_minor i) (put16 (k + 2) (i_major i) (put16 k (i_type i) d))))"
  have len: "length ?e = length d" using d by simp
  have s: "store_dinode i k d = fold (\<lambda>j. put32 (k + 12 + 4 * j) (i_addrs i ! j)) [0..<13] ?e" by (simp add: store_dinode_def Let_def put_addrs_def)
  have low: "get_le w (store_dinode i k d) x = (get_le w ?e x :: 'w::len word)" if "x + w \<le> k + 12" for x w
    unfolding s by (rule put_addrs_other) (use that d len in simp_all)
  have "get16 ?e k = i_type i" "get16 ?e (k + 2) = i_major i" "get16 ?e (k + 4) = i_minor i" "get16 ?e (k + 6) = i_nlink i" "get32 ?e (k + 8) = i_size i"
    using d by (simp_all add: get_put_le get_put_le_other)
  moreover have "map (\<lambda>j. get32 (store_dinode i k d) (k + 12 + 4 * j)) [0..<13] = map ((!) (i_addrs i)) [0..<13]"
  proof (intro map_cong refl)
    fix j assume "j \<in> set [0..<13]"
    then show "get32 (store_dinode i k d) (k + 12 + 4 * j) = i_addrs i ! j"
      unfolding s by (intro put_addrs_get) (use d len in simp_all)
  qed
  moreover have "map ((!) (i_addrs i)) [0..<13] = i_addrs i" using a map_nth [of "i_addrs i"] by simp
  ultimately show ?thesis by (simp add: same_file_def load_dinode_def low del: upt_rec_numeral)
qed

lemma load_store_dinode_other:
  assumes "k + 64 \<le> length d" "k' + 64 \<le> length d" "k' + 64 \<le> k \<or> k + 64 \<le> k'"
  shows "load_dinode (store_dinode i k d) k' j = load_dinode d k' j"
proof -
  let ?e = "put32 (k + 8) (i_size i) (put16 (k + 6) (i_nlink i) (put16 (k + 4) (i_minor i) (put16 (k + 2) (i_major i) (put16 k (i_type i) d))))"
  have len: "length ?e = length d" using assms by simp
  have s: "store_dinode i k d = fold (\<lambda>j. put32 (k + 12 + 4 * j) (i_addrs i ! j)) [0..<13] ?e" by (simp add: store_dinode_def Let_def put_addrs_def)
  have get: "get_le w (store_dinode i k d) x = (get_le w d x :: 'w::len word)" if "k' \<le> x" "x + w \<le> k' + 64" for x w
  proof -
    have "get_le w (store_dinode i k d) x = (get_le w ?e x :: 'w word)"
      unfolding s by (rule put_addrs_other) (use that assms len in auto)
    also have "\<dots> = get_le w d x" using that assms by (auto simp: get_put_le_other)
    finally show ?thesis .
  qed
  have "map (\<lambda>j. get32 (store_dinode i k d) (k' + 12 + 4 * j)) [0..<13] = map (\<lambda>j. get32 d (k' + 12 + 4 * j)) [0..<13]"
    by (intro map_cong) (auto intro!: get)
  then show ?thesis by (simp add: load_dinode_def get del: upt_rec_numeral)
qed

lemma dinode_off_le: "dinode_off n + 64 \<le> BSIZE"
proof -
  have "unat n mod IPB < IPB" by simp
  then show ?thesis unfolding dinode_off_def by linarith
qed

section \<open>The state of the inode cache\<close>

lemma fs_upd_cache:
  "bc_inv (s\<lparr>icache := c\<rparr>) = bc_inv s" "bcache_abs (s\<lparr>icache := c\<rparr>) = bcache_abs s" "bview (s\<lparr>icache := c\<rparr>) = bview s"
  "tx_ok k L (s\<lparr>icache := c\<rparr>) = tx_ok k L s" "homes (s\<lparr>icache := c\<rparr>) = homes s" "usable (s\<lparr>icache := c\<rparr>) = usable s"
proof -
  let ?t = "s\<lparr>icache := c\<rparr>"
  show a: "bc_inv ?t = bc_inv s" "bcache_abs ?t = bcache_abs s" by (rule bc_cong; simp)+
  show v: "bview ?t = bview s" using abs_eqD [OF a(2)] by simp
  have st: "lstart ?t = lstart s" "home ?t = home s" by (simp_all add: lstart_def home_def fun_eq_iff)
  show h: "homes ?t = homes s" using st by (simp add: homes_def)
  show "usable ?t = usable s" using st by (simp add: usable_def fun_eq_iff)
  show "tx_ok k L ?t = tx_ok k L s" unfolding tx_ok_def tx_inv_def logged_def h st v a(1) using abs_eqD [OF a(2)] by simp
qed

lemma upd_ino_tx [simp]:
  "tx_ok k L (upd_ino ip f s) = tx_ok k L s" "bview (upd_ino ip f s) = bview s" "bhnd (upd_ino ip f s) = bhnd s" "usable (upd_ino ip f s) = usable s"
  "held (upd_ino ip f s) = held s" "noff (upd_ino ip f s) = noff s" "sb (upd_ino ip f s) = sb s" "length (icache (upd_ino ip f s)) = length (icache s)"
  "my_proc (upd_ino ip f s) = my_proc s" "procs (upd_ino ip f s) = procs s" "my_pid (upd_ino ip f s) = my_pid s" "bufs (upd_ino ip f s) = bufs s"
  "disk (upd_ino ip f s) = disk s"
  using abs_eqD [OF fs_upd_cache(2) [where s = s and c = "(icache s)[ip := f (icache s ! ip)]"]]
  by (simp_all add: upd_ino_def fs_upd_cache my_proc_def my_pid_def cong: option.case_cong)

text \<open>A step that may also change the inode cache.\<close>

definition fframe :: "'a fs_state_scheme \<Rightarrow> 'a fs_state_scheme \<Rightarrow> bool" where
  "fframe s t \<longleftrightarrow> tframe (s\<lparr>icache := icache t\<rparr>) t"

lemma tframe_icache: "tframe s t \<Longrightarrow> tframe (s\<lparr>icache := c\<rparr>) (t\<lparr>icache := c\<rparr>)"
proof -
  assume "tframe s t"
  then obtain ps bs L n bl where t: "t = s\<lparr>procs := ps, bufs := bs, blinks := L, lh_n := n, lh_block := bl\<rparr>" "map unslept ps = map unslept (procs s)"
    unfolding tframe_def by blast
  have "t\<lparr>icache := c\<rparr> = s\<lparr>icache := c\<rparr>\<lparr>procs := ps, bufs := bs, blinks := L, lh_n := n, lh_block := bl\<rparr>" unfolding t(1) by (cases s) simp
  then show ?thesis using t(2) unfolding tframe_def by force
qed

lemma fframe_refl: "fframe s s"
  by (simp add: fframe_def tframe_refl)

lemma tframe_fframe: "tframe s t \<Longrightarrow> fframe s t"
  using tframe_icache [of s t "icache t"] by (simp add: fframe_def)

lemma fframe_upd_ino: "fframe s (upd_ino ip f s)"
  by (simp add: fframe_def upd_ino_def tframe_refl)

lemma fframe_trans: "fframe s t \<Longrightarrow> fframe t u \<Longrightarrow> fframe s u"
  using tframe_icache [of "s\<lparr>icache := icache t\<rparr>" t "icache u"] tframe_trans by (force simp: fframe_def)

lemma fframe_fields:
  assumes "fframe s t"
  shows "held t = held s" "noff t = noff s" "mem t = mem s" "disk t = disk s" "my_proc t = my_proc s" "sb t = sb s" "kbuf t = kbuf s" "kobj t = kobj s"
    "usable t = usable s" "bmblock t = bmblock s" "nblocks t = nblocks s" "lstart t = lstart s" "map unslept (procs t) = map unslept (procs s)"
  using assms tframe_fields [of "s\<lparr>icache := icache t\<rparr>" t] tframe_fs [of "s\<lparr>icache := icache t\<rparr>" t]
  by (auto simp: fframe_def my_proc_def usable_def lstart_def bmblock_def nblocks_def fun_eq_iff)

lemma ino_upd_ino: "ip < length (icache s) \<Longrightarrow> ino jp (upd_ino ip f s) = (if jp = ip then f (ino ip s) else ino jp s)"
  by (simp add: upd_ino_def nth_list_update)

lemma iupdate_law:
  assumes ok: "tx_ok (Suc k) L s" and c: "card L \<le> Suc k" and dev: "i_dev (ino ip s) = ROOTDEV"
    and b: "IBLOCK (i_inum (ino ip s)) (sb s) \<notin> L" "usable s (IBLOCK (i_inum (ino ip s)) (sb s))"
  shows "\<exists>t. iupdate ip s = Ok t \<and> tx_ok k L t \<and> tframe s t \<and> bhnd t = bhnd s \<and>
    bview t = (bview s)(IBLOCK (i_inum (ino ip s)) (sb s) :=
      store_dinode (ino ip s) (dinode_off (i_inum (ino ip s))) (bview s (IBLOCK (i_inum (ino ip s)) (sb s))))"
proof -
  let ?b = "IBLOCK (i_inum (ino ip s)) (sb s)" and ?k = "dinode_off (i_inum (ino ip s))"
  let ?f = "store_dinode (ino ip s) ?k"
  have "length (?f (bview s ?b)) = BSIZE" using store_dinode_length [of ?k "bview s ?b"] dinode_off_le tx.view_length [OF ok] by simp
  then obtain i u w t where t: "bread ROOTDEV ?b s = Ok (i, u)" "tframe s u" "b_data (bbuf i u) = bview s ?b"
      "log_write i (set_buf_data i (?f (bview s ?b)) u) = Ok w" "brelse i w = Ok t" "tx_ok k L t" "tframe s t"
      "bview t = (bview s)(?b := ?f (bview s ?b))" "bhnd t = bhnd s"
    using tx.update_block [OF ok b(1) c b(2), where f = ?f] by blast
  have "icache u = icache s" using tframe_fs [OF t(2)] by simp
  then have "iupdate ip s = Ok t" unfolding iupdate_def dev t(1) kbind.simps prod.case t(3) using t(4,5) by simp
  then show ?thesis using t(6-9) by blast
qed

text \<open>\<open>ilock\<close> of an inode nobody has locked: it is locked, and read from the disk when it is not valid.\<close>

definition locked_by_me :: "'a fs_state_scheme \<Rightarrow> sleeplock" where
  "locked_by_me s = \<lparr>sl_locked = True, sl_pid = my_pid s\<rparr>"

lemma acquiresleep_ino:
  assumes "InodeLk ip \<notin> held s" "\<not> sl_locked (ino_lock ip s)" "my_proc s = Some p"
  shows "acquiresleep (InodeLk ip) (InodeLockChan ip) (ino_lock ip) (set_ino_lock ip) s = Ok (set_ino_lock ip (locked_by_me s) s)"
  using assms by (simp add: acquiresleep_def lock_simps set_ino_lock_def upd_ino_def locked_by_me_def my_pid_def)

lemma ilock_law:
  assumes ok: "tx_ok k L s" and c: "card L \<le> k" and ip: "ip < length (icache s)" and ref: "1 \<le> i_ref (ino ip s)"
    and free: "\<not> sl_locked (ino_lock ip s)" "InodeLk ip \<notin> held s" and dev: "i_dev (ino ip s) = ROOTDEV"
    and b: "IBLOCK (i_inum (ino ip s)) (sb s) \<notin> L" "usable s (IBLOCK (i_inum (ino ip s)) (sb s))"
  defines "loaded \<equiv> load_dinode (bview s (IBLOCK (i_inum (ino ip s)) (sb s))) (dinode_off (i_inum (ino ip s))) (ino ip s)"
  shows "if \<not> i_valid (ino ip s) \<and> i_type loaded = 0 then ilock (Some ip) s = Panic ''ilock: no type''
    else \<exists>t. ilock (Some ip) s = Ok t \<and> tx_ok k L t \<and> fframe s t \<and> bview t = bview s \<and> bhnd t = bhnd s \<and>
      icache t = (icache s)[ip := (if i_valid (ino ip s) then ino ip s else loaded\<lparr>i_valid := True\<rparr>)\<lparr>i_lock := locked_by_me s\<rparr>]"
proof -
  let ?s = "set_ino_lock ip (locked_by_me s) s"
  let ?b = "IBLOCK (i_inum (ino ip s)) (sb s)" and ?k = "dinode_off (i_inum (ino ip s))"
  obtain p where p: "my_proc s = Some p" using bc_base_D(2) [OF bc_inv_D(1) [OF tx_ok_D(10) [OF ok]]] by blast
  have a: "ilock (Some ip) s = (if i_valid (ino ip ?s) then Ok ?s else kbind (bread (i_dev (ino ip ?s)) (IBLOCK (i_inum (ino ip ?s)) (sb ?s)) ?s) (\<lambda>(bp, s).
            let s = upd_ino ip (load_dinode (b_data (bbuf bp s)) (dinode_off (i_inum (ino ip s)))) s in
            kbind (brelse bp s) (\<lambda>s.
            let s = upd_ino ip (\<lambda>i. i\<lparr>i_valid := True\<rparr>) s in
            if i_type (ino ip s) = 0 then Panic ''ilock: no type'' else Ok s)))"
    using ref acquiresleep_ino [OF free(2,1) p] by (simp add: ilock_def)
  have i: "ino ip ?s = (ino ip s)\<lparr>i_lock := locked_by_me s\<rparr>" using ip by (simp add: set_ino_lock_def ino_upd_ino)
  show ?thesis
  proof (cases "i_valid (ino ip s)")
    case True
    moreover have "tx_ok k L ?s" "bview ?s = bview s" "bhnd ?s = bhnd s" "fframe s ?s" "icache ?s = (icache s)[ip := (ino ip s)\<lparr>i_lock := locked_by_me s\<rparr>]"
      using ok by (simp_all add: set_ino_lock_def fframe_upd_ino) (simp add: upd_ino_def)
    ultimately show ?thesis using a i by simp
  next
    case False
    have ok': "tx_ok k L ?s" using ok by (simp add: set_ino_lock_def)
    have us: "usable ?s ?b" using b(2) by (simp add: set_ino_lock_def)
    obtain bp u where u: "bread ROOTDEV ?b ?s = Ok (bp, u)" "tx_ok k (insert ?b L) u" "tframe ?s u" "bview u = bview ?s" "bhnd ?s bp = None" "bhnd u = (bhnd ?s)(bp \<mapsto> ?b)"
        "homes u = homes ?s" "tx_clean u = tx_clean ?s"
      using tx.rd_law [OF ok' b(1) c us] by blast
    have d: "b_data (bbuf bp u) = bview s ?b" using tx.get_law [OF u(2)] u(4,6) by (simp add: set_ino_lock_def)
    have iu: "icache u = icache ?s" "sb u = sb s" using tframe_fs [OF u(3)] by (simp_all add: set_ino_lock_def)
    define v where "v = upd_ino ip (load_dinode (bview s ?b) ?k) u"
    have v: "tx_ok k (insert ?b L) v" "bhnd v bp = Some ?b" "homes v = homes u" using u by (simp_all add: v_def) (simp add: upd_ino_def fs_upd_cache)
    have "?b \<in> homes v \<or> tx_clean v ?b"
      using v(3) u(4,7,8) tx_ok_D(9) [OF ok' _ b(1)] by (auto simp: tx_clean_def v_def set_ino_lock_def tframe_fields(6) [OF u(3)])
    then obtain t where t: "brelse bp v = Ok t" "tx_ok k (insert ?b L - {?b}) t" "tframe v t" "bview t = bview v" "bhnd t = (bhnd v)(bp := None)"
      using tx.rel_law [OF v(1,2)] by blast
    have it: "icache t = icache v" using tframe_fs [OF t(3)] by simp
    have iv: "ino ip v = loaded\<lparr>i_lock := locked_by_me s\<rparr>" "length (icache v) = length (icache s)"
      using ip iu i by (simp_all add: v_def ino_upd_ino loaded_def load_dinode_def set_ino_lock_def)
    have "ilock (Some ip) s = kbind (brelse bp v) (\<lambda>s. let s = upd_ino ip (\<lambda>i. i\<lparr>i_valid := True\<rparr>) s in
            if i_type (ino ip s) = 0 then Panic ''ilock: no type'' else Ok s)"
      unfolding a v_def using False i dev u(1) d iu by (simp add: Let_def) (simp add: set_ino_lock_def)
    then have e: "ilock (Some ip) s = (if i_type loaded = 0 then Panic ''ilock: no type'' else Ok (upd_ino ip (\<lambda>i. i\<lparr>i_valid := True\<rparr>) t))"
      using t(1) it iv ip by (simp add: Let_def ino_upd_ino)
    let ?t = "upd_ino ip (\<lambda>i. i\<lparr>i_valid := True\<rparr>) t"
    have "insert ?b L - {?b} = L" using b(1) by auto
    then have "tx_ok k L ?t" "bview ?t = bview s" "bhnd ?t = bhnd s"
      using t(2,4,5) u(4,5,6) by (simp_all add: v_def set_ino_lock_def fun_upd_idem)
    moreover have "fframe s ?t"
      using fframe_upd_ino [of s] tframe_fframe [OF u(3)] fframe_upd_ino [of u] tframe_fframe [OF t(3)] fframe_upd_ino [of t] fframe_trans
      unfolding set_ino_lock_def v_def by meson
    moreover have "icache ?t = (icache s)[ip := loaded\<lparr>i_lock := locked_by_me s, i_valid := True\<rparr>]"
      using it iu i iv ip by (simp add: upd_ino_def) (simp add: v_def upd_ino_def set_ino_lock_def)
    moreover have "loaded\<lparr>i_lock := l, i_valid := True\<rparr> = loaded\<lparr>i_valid := True, i_lock := l\<rparr>" for l by (cases loaded) simp
    ultimately show ?thesis using e False by auto
  qed
qed

text \<open>The inode with a given number, as the blocks have it.\<close>

definition disk_inode :: "'a fs_state_scheme \<Rightarrow> u32 \<Rightarrow> inode \<Rightarrow> inode" where
  "disk_inode s n i = load_dinode (bview s (IBLOCK n (sb s))) (dinode_off n) i"

lemma inode_div: "unat ((n :: u32) div 16) = unat n div 16"
  by (simp add: unat_div)

lemma inode_slot_inj:
  assumes "n \<noteq> m" "IBLOCK n b = IBLOCK m b"
  shows "dinode_off n + 64 \<le> dinode_off m \<or> dinode_off m + 64 \<le> dinode_off n"
proof -
  have "n div 16 = m div 16" using assms(2) by (simp add: IBLOCK_def)
  then have "unat n div 16 = unat m div 16" by (metis inode_div)
  moreover have "unat n \<noteq> unat m" using assms(1) by (simp add: word_unat_eq_iff)
  ultimately have "unat n mod 16 \<noteq> unat m mod 16" by (metis div_mult_mod_eq)
  then show ?thesis unfolding dinode_off_def by auto
qed

text \<open>Two cache entries of \<open>fs_example\<close>: inode 17, in use and valid, and a second entry.\<close>

definition inode_example :: inode where
  "inode_example = \<lparr>i_dev = ROOTDEV, i_inum = 17, i_ref = 2, i_lock = initsleeplock, i_valid = True, i_type = 2, i_major = 0, i_minor = 0, i_nlink = 1,
     i_size = 5, i_addrs = 70 # replicate 12 0\<rparr>"

definition icache_example :: "inode \<Rightarrow> fs_state" where
  "icache_example i = (binit fs_example)\<lparr>icache := [inode_example, i]\<rparr>"

lemma icache_example_fields:
  "tx_ok 29 {} (icache_example i)" "usable (icache_example i) 33" "sb_inodestart (sb (icache_example i)) = 32" "held (icache_example i) = {}"
  "icache (icache_example i) = [inode_example, i]"
  using fs_example_boot area_2 [of 33] by (simp_all add: icache_example_def fs_upd_cache usable_def) (simp add: fs_example_def fs_state.defs log_state.defs)

section \<open>The inode cache\<close>

definition icache_ok :: "'a fs_state_scheme \<Rightarrow> bool" where
  "icache_ok s \<longleftrightarrow> (\<forall>i < length (icache s). 0 \<le> i_ref (ino i s)) \<and>
     (\<forall>i < length (icache s). \<forall>j < length (icache s). 0 < i_ref (ino i s) \<and> 0 < i_ref (ino j s) \<and>
        i_dev (ino i s) = i_dev (ino j s) \<and> i_inum (ino i s) = i_inum (ino j s) \<longrightarrow> i = j)"

definition cached_at :: "u32 \<Rightarrow> u32 \<Rightarrow> nat \<Rightarrow> 'a fs_state_scheme \<Rightarrow> bool" where
  "cached_at dev inum i s \<longleftrightarrow> i < length (icache s) \<and> 0 < i_ref (ino i s) \<and> i_dev (ino i s) = dev \<and> i_inum (ino i s) = inum"

lemma icache_ok_uniq:
  assumes "icache_ok s" "ip < length (icache s)" "0 < i_ref (ino ip s)"
  shows "\<forall>j < length (icache s). j \<noteq> ip \<and> 0 < i_ref (ino j s) \<longrightarrow> \<not> (i_dev (ino j s) = i_dev (ino ip s) \<and> i_inum (ino j s) = i_inum (ino ip s))"
  using assms unfolding icache_ok_def by blast

lemma icache_ok_upd:
  assumes "icache_ok s" "ip < length (icache s)" "0 \<le> i_ref (f (ino ip s))"
    "0 < i_ref (f (ino ip s)) \<Longrightarrow> \<forall>j < length (icache s). j \<noteq> ip \<and> 0 < i_ref (ino j s) \<longrightarrow>
       \<not> (i_dev (ino j s) = i_dev (f (ino ip s)) \<and> i_inum (ino j s) = i_inum (f (ino ip s)))"
  shows "icache_ok (upd_ino ip f s)"
  using assms unfolding icache_ok_def by (auto simp: ino_upd_ino)

lemma iget_eq:
  assumes l: "IcacheLock \<notin> held s"
  shows "iget dev inum s =
    (case find_index (\<lambda>i. i_ref i > 0 \<and> i_dev i = dev \<and> i_inum i = inum) (icache s) of
       Some ip \<Rightarrow> Ok (ip, upd_ino ip (\<lambda>i. i\<lparr>i_ref := i_ref i + 1\<rparr>) s)
     | None \<Rightarrow> (case find_index (\<lambda>i. i_ref i = 0) (icache s) of
           None \<Rightarrow> Panic ''iget: no inodes''
         | Some ip \<Rightarrow> Ok (ip, upd_ino ip (\<lambda>i. i\<lparr>i_dev := dev, i_inum := inum, i_ref := 1, i_valid := False\<rparr>) s)))"
  using l by (simp add: iget_def lock_simps upd_ino_def split: option.split)

text \<open>An entry that other references keep alive, or whose file still has links, is only counted down.\<close>

lemma iput_keeps:
  assumes "IcacheLock \<notin> held s" "\<not> (i_ref (ino ip s) = 1 \<and> i_valid (ino ip s) \<and> i_nlink (ino ip s) = 0)"
  shows "iput ip s = Ok (upd_ino ip (\<lambda>i. i\<lparr>i_ref := i_ref i - 1\<rparr>) s)"
  using assms by (simp add: iput_def lock_simps upd_ino_def) blast

text \<open>Waking processes up is invisible to the cache of blocks and to the transaction.\<close>

lemma woken_tx:
  fixes s :: "'a fs_state_scheme" and c :: chan
  assumes ok: "tx_ok k L s"
  defines "t \<equiv> s\<lparr>procs := map (woken c) (procs s)\<rparr>"
  shows "tx_ok k L t" "bview t = bview s" "usable t = usable s" "my_pid t = my_pid s"
proof -
  note B = bc_inv_D(1) [OF tx_ok_D(10) [OF ok]]
  obtain p where p: "my_proc s = Some p" "p < STATIC_PROC_NUM" using bc_base_D(2) [OF B] by blast
  have mp: "my_proc t = my_proc s" by (simp add: t_def my_proc_def)
  show pid: "my_pid t = my_pid s"
    using p mp bc_base_D(4) [OF B] by (simp add: my_pid_def) (simp add: t_def woken_def)
  have sl: "bslot t = bslot s" unfolding bslot_def by (simp add: t_def)
  have v: "bview t = bview s" "bref t = bref s" "blocked t = blocked s"
    by (simp_all add: fun_eq_iff bview_def bref_def blocked_def sl) (simp_all add: t_def cong: option.case_cong if_cong)
  show "bview t = bview s" by (rule v)
  show "usable t = usable s" by (simp add: usable_def fun_eq_iff lstart_def t_def)
  have "bc_base t" using B mp by (simp add: bc_base_def t_def)
  then have "bc_inv t" using tx_ok_D(10) [OF ok] by (simp add: bc_inv_def buf_ok_def t_def)
  moreover have "bframe s t" "disk t = disk s"
    by (rule bframeI [where ps = "map (woken c) (procs s)" and d = "disk s" and w = "wlog s" and bs = "bufs s" and L = "blinks s"])
      (simp_all add: t_def unslept_woken [simplified])
  ultimately show "tx_ok k L t"
    using tx_frame_state(1) [OF ok, of t L] tx_ok_D [OF ok] v by auto
qed

abbreviation (input) unlocked :: sleeplock where
  "unlocked \<equiv> \<lparr>sl_locked = False, sl_pid = 0\<rparr>"

lemma iunlock_eq:
  assumes ok: "tx_ok k L s" and l: "ino_lock ip s = locked_by_me s" "InodeLk ip \<notin> held s" and r: "1 \<le> i_ref (ino ip s)"
  shows "iunlock (Some ip) s = Ok ((set_ino_lock ip unlocked s)\<lparr>procs := map (woken (InodeLockChan ip)) (procs s)\<rparr>)"
proof -
  note B = bc_inv_D(1) [OF tx_ok_D(10) [OF ok]]
  obtain p where p: "my_proc s = Some p" using bc_base_D(2) [OF B] by blast
  have h: "holdingsleep (InodeLk ip) (ino_lock ip) s = Ok (True, s)"
    using l p by (simp add: holdingsleep_def lock_simps locked_by_me_def my_pid_def my_proc_def)
  let ?t = "(set_ino_lock ip unlocked s)\<lparr>held := insert (InodeLk ip) (held s), noff := Suc (noff s)\<rparr>"
  have "wake_up (InodeLockChan ip) ?t = Ok (?t\<lparr>procs := map (woken (InodeLockChan ip)) (procs s)\<rparr>)"
    using wake_up_eq [of ?t "InodeLockChan ip"] bc_base_D(4,7) [OF B] by (simp add: set_ino_lock_def)
  moreover have "set_ino_lock ip unlocked (s\<lparr>held := insert (InodeLk ip) (held s), noff := Suc (noff s)\<rparr>) = ?t"
    by (simp add: set_ino_lock_def upd_ino_def)
  moreover have "?t\<lparr>procs := ps, held := held s, noff := noff s\<rparr> = (set_ino_lock ip unlocked s)\<lparr>procs := ps\<rparr>" for ps
    by (simp add: set_ino_lock_def upd_ino_def)
  ultimately have "releasesleep (InodeLk ip) (InodeLockChan ip) (set_ino_lock ip) s =
      Ok ((set_ino_lock ip unlocked s)\<lparr>procs := map (woken (InodeLockChan ip)) (procs s)\<rparr>)"
    using l(2) by (simp add: releasesleep_def lock_simps)
  then show ?thesis using h r by (simp add: iunlock_def)
qed

text \<open>\<open>ilock\<close> of an entry whose contents are, or are to be read as, those of the file \<open>d\<close>.\<close>

lemma ilock_reads:
  assumes ok: "tx_ok k L s" and c: "card L \<le> k" and j: "j < length (icache s)" "1 \<le> i_ref (ino j s)"
    and free: "\<not> sl_locked (ino_lock j s)" "InodeLk j \<notin> held s" and id: "i_dev (ino j s) = ROOTDEV" "i_inum (ino j s) = n"
    and b: "IBLOCK n (sb s) \<notin> L" "usable s (IBLOCK n (sb s))"
    and d: "\<And>i. same_file (disk_inode s n i) d" "i_valid (ino j s) \<Longrightarrow> same_file (ino j s) d" "i_type d \<noteq> 0"
  shows "\<exists>u x. ilock (Some j) s = Ok u \<and> tx_ok k L u \<and> bview u = bview s \<and> sb u = sb s \<and> icache u = (icache s)[j := x] \<and>
    same_file x d \<and> i_valid x \<and> i_ref x = i_ref (ino j s) \<and> i_dev x = ROOTDEV \<and> i_inum x = n"
proof -
  let ?l = "disk_inode s n (ino j s)"
  have "i_type ?l \<noteq> 0" using d(1,3) by (simp add: same_file_def)
  then obtain u where u: "ilock (Some j) s = Ok u" "tx_ok k L u" "fframe s u" "bview u = bview s"
      "icache u = (icache s)[j := (if i_valid (ino j s) then ino j s else ?l\<lparr>i_valid := True\<rparr>)\<lparr>i_lock := locked_by_me s\<rparr>]"
    using ilock_law [OF ok c j free id(1)] b id(2) by (auto simp: disk_inode_def)
  have "i_ref ?l = i_ref (ino j s)" "i_dev ?l = i_dev (ino j s)" "i_inum ?l = i_inum (ino j s)"
    by (simp_all add: disk_inode_def load_dinode_def)
  then show ?thesis
    using u fframe_fields(6) [OF u(3)] d(1) [of "ino j s"] d(2) id
    by (intro exI [of _ u] exI [of _ "(if i_valid (ino j s) then ino j s else ?l\<lparr>i_valid := True\<rparr>)\<lparr>i_lock := locked_by_me s\<rparr>"])
      (auto simp: same_file_def)
qed

lemma icache_ok_cong: "icache t = icache s \<Longrightarrow> icache_ok t = icache_ok s"
  by (simp add: icache_ok_def)

lemma icache_ok_same:
  assumes "icache_ok s" "icache t = (icache s)[j := x]" "i_ref x = i_ref (ino j s)" "i_dev x = i_dev (ino j s)" "i_inum x = i_inum (ino j s)"
  shows "icache_ok t"
proof (cases "j < length (icache s)")
  case True
  have "0 \<le> i_ref (ino j s)" using assms(1) True by (simp add: icache_ok_def)
  then have "icache_ok (upd_ino j (\<lambda>_. x) s)"
    using icache_ok_uniq [OF assms(1) True] assms(3-5) by (intro icache_ok_upd [OF assms(1) True]) simp_all
  moreover have "icache t = icache (upd_ino j (\<lambda>_. x) s)" using assms(2) by (simp add: upd_ino_def)
  ultimately show ?thesis by (metis icache_ok_cong)
next
  case False
  then show ?thesis using assms(1,2) icache_ok_cong [of t s] by (simp add: list_update_beyond)
qed

text \<open>\<open>iget\<close> of an inode that is cached in at most one entry.\<close>

lemma iget_cases:
  assumes ok: "icache_ok s" and l: "IcacheLock \<notin> held s" and e: "\<exists>i < length (icache s). i_ref (ino i s) = 0 \<or> cached_at dev inum i s"
  obtains (hit) ip where "cached_at dev inum ip s" "iget dev inum s = Ok (ip, upd_ino ip (\<lambda>i. i\<lparr>i_ref := i_ref i + 1\<rparr>) s)"
  | (miss) ip where "\<And>i. \<not> cached_at dev inum i s" "ip < length (icache s)" "i_ref (ino ip s) = 0"
      "iget dev inum s = Ok (ip, upd_ino ip (\<lambda>i. i\<lparr>i_dev := dev, i_inum := inum, i_ref := 1, i_valid := False\<rparr>) s)"
proof (cases "find_index (\<lambda>i. i_ref i > 0 \<and> i_dev i = dev \<and> i_inum i = inum) (icache s)")
  case (Some i)
  then have "cached_at dev inum i s" using find_index_Some [OF Some] by (auto simp: cached_at_def)
  then show ?thesis using hit Some iget_eq [OF l] by simp
next
  case None
  then have nc: "\<not> cached_at dev inum i s" for i unfolding find_index_None cached_at_def by (metis nth_mem)
  then obtain i where i: "i < length (icache s)" "i_ref (ino i s) = 0" using e by blast
  then obtain j where j: "find_index (\<lambda>i. i_ref i = 0) (icache s) = Some j"
    by (cases "find_index (\<lambda>i. i_ref i = 0) (icache s)") (auto simp: find_index_None)
  show ?thesis using miss [OF nc, of j] find_index_Some [OF j] j None iget_eq [OF l] by auto
qed

text \<open>The caller lets go of a locked inode and later opens the inode with that number again.\<close>

definition put_and_reopen :: "u32 \<Rightarrow> u32 \<Rightarrow> nat \<Rightarrow> 'a fs_state_scheme \<Rightarrow> (nat \<times> 'a fs_state_scheme) kres" where
  "put_and_reopen dev inum ip s =
     kbind (iunlockput ip s) (\<lambda>s.
     kbind (iget dev inum s) (\<lambda>(jp, s).
     kbind (ilock (Some jp) s) (\<lambda>s. Ok (jp, s))))"

lemma put_and_reopen_eq:
  assumes ok: "tx_ok k L s" and c: "card L \<le> k" and cache: "icache_ok s" and ip: "cached_at ROOTDEV n ip s"
    and mine: "ino_lock ip s = locked_by_me s" "i_valid (ino ip s)" and nd: "i_type (ino ip s) \<noteq> 0" "i_nlink (ino ip s) \<noteq> 0"
    and b: "IBLOCK n (sb s) \<notin> L" "usable s (IBLOCK n (sb s))" and lk: "held s = {}"
    and idle: "\<And>j. j < length (icache s) \<Longrightarrow> i_ref (ino j s) = 0 \<Longrightarrow> \<not> sl_locked (ino_lock j s)"
    and disk: "\<And>i. same_file (disk_inode s n i) (ino ip s)"
  shows "\<exists>jp u. put_and_reopen ROOTDEV n ip s = Ok (jp, u) \<and> same_file (ino jp u) (ino ip s) \<and> i_valid (ino jp u) \<and>
    cached_at ROOTDEV n jp u \<and> i_ref (ino jp u) = i_ref (ino ip s) \<and> icache_ok u \<and> tx_ok k L u \<and>
    bview u = bview s \<and> sb u = sb s"
proof -
  have i: "ip < length (icache s)" "0 < i_ref (ino ip s)" "i_dev (ino ip s) = ROOTDEV" "i_inum (ino ip s) = n"
    using ip by (simp_all add: cached_at_def)
  define t1 where "t1 = (set_ino_lock ip unlocked s)\<lparr>procs := map (woken (InodeLockChan ip)) (procs s)\<rparr>"
  have "iunlock (Some ip) s = Ok t1" using iunlock_eq [OF ok mine(1)] lk i(2) by (simp add: t1_def)
  moreover have ok1: "tx_ok k L (set_ino_lock ip unlocked s)" using ok by (simp add: set_ino_lock_def)
  note W = woken_tx [OF ok1, of "InodeLockChan ip"]
  have pr: "procs (set_ino_lock ip unlocked s) = procs s" by (simp add: set_ino_lock_def)
  have T1: "tx_ok k L t1" "bview t1 = bview s" "usable t1 = usable s" using W(1-3) by (simp_all add: t1_def pr) (simp_all add: set_ino_lock_def)
  have f1: "icache t1 = (icache s)[ip := (ino ip s)\<lparr>i_lock := unlocked\<rparr>]" "held t1 = {}" "sb t1 = sb s"
    using lk by (simp_all add: t1_def set_ino_lock_def) (simp add: upd_ino_def)
  define t2 where "t2 = upd_ino ip (\<lambda>i. i\<lparr>i_ref := i_ref i - 1\<rparr>) t1"
  have "iput ip t1 = Ok t2" unfolding t2_def using f1 i nd by (intro iput_keeps) simp_all
  ultimately have put: "iunlockput ip s = Ok t2" by (simp add: iunlockput_def)
  define x where "x = (ino ip s)\<lparr>i_lock := unlocked, i_ref := i_ref (ino ip s) - 1\<rparr>"
  have f2: "icache t2 = (icache s)[ip := x]" "held t2 = {}" "sb t2 = sb s" "tx_ok k L t2" "bview t2 = bview s" "usable t2 = usable s"
    using f1 T1 i by (simp_all add: t2_def x_def) (simp add: upd_ino_def f1)
  have n2: "ino j t2 = (if j = ip then x else ino j s)" "length (icache t2) = length (icache s)" for j using f2(1) i(1) by simp_all
  have "icache_ok (upd_ino ip (\<lambda>_. x) s)"
    using i icache_ok_uniq [OF cache i(1,2)] by (intro icache_ok_upd [OF cache]) (auto simp: x_def)
  moreover have "icache t2 = icache (upd_ino ip (\<lambda>_. x) s)" using f2(1) by (simp add: upd_ino_def)
  ultimately have ok2: "icache_ok t2" by (metis icache_ok_cong)
  have e: "\<exists>i < length (icache t2). i_ref (ino i t2) = 0 \<or> cached_at ROOTDEV n i t2"
    using i by (intro exI [of _ ip]) (auto simp: n2 cached_at_def x_def)
  obtain jp f where g: "iget ROOTDEV n t2 = Ok (jp, upd_ino jp f t2)" "icache_ok (upd_ino jp f t2)" "jp < length (icache s)"
    "i_ref (f (ino jp t2)) = i_ref (ino ip s)" "i_dev (f (ino jp t2)) = ROOTDEV" "i_inum (f (ino jp t2)) = n"
    "\<not> sl_locked (i_lock (f (ino jp t2)))" "i_valid (f (ino jp t2)) \<Longrightarrow> same_file (f (ino jp t2)) (ino ip s)"
  proof (rule iget_cases [OF ok2 _ e])
    show "IcacheLock \<notin> held t2" using f2 by simp
  next
    fix j assume j: "cached_at ROOTDEV n j t2" "iget ROOTDEV n t2 = Ok (j, upd_ino j (\<lambda>i. i\<lparr>i_ref := i_ref i + 1\<rparr>) t2)"
    have "j = ip" using j(1) icache_ok_uniq [OF cache i(1,2)] i n2 by (auto simp: cached_at_def split: if_splits)
    moreover have "icache_ok (upd_ino j (\<lambda>i. i\<lparr>i_ref := i_ref i + 1\<rparr>) t2)"
      using j(1) icache_ok_uniq [OF ok2, of j] by (intro icache_ok_upd [OF ok2]) (auto simp: cached_at_def)
    ultimately show thesis using j i by (intro that [of j "\<lambda>i. i\<lparr>i_ref := i_ref i + 1\<rparr>"]) (simp_all add: n2 x_def same_file_def)
  next
    fix j assume j: "\<And>i. \<not> cached_at ROOTDEV n i t2" "j < length (icache t2)" "i_ref (ino j t2) = 0"
      "iget ROOTDEV n t2 = Ok (j, upd_ino j (\<lambda>i. i\<lparr>i_dev := ROOTDEV, i_inum := n, i_ref := 1, i_valid := False\<rparr>) t2)"
    have "icache_ok (upd_ino j (\<lambda>i. i\<lparr>i_dev := ROOTDEV, i_inum := n, i_ref := 1, i_valid := False\<rparr>) t2)"
      using j(1-3) by (intro icache_ok_upd [OF ok2]) (auto simp: cached_at_def)
    moreover have "i_ref (ino ip s) = 1" using j(1) [of ip] i by (auto simp: cached_at_def n2 x_def)
    moreover have "\<not> sl_locked (ino_lock j t2)" using idle [of j] j(2,3) by (auto simp: n2 x_def)
    ultimately show thesis
      using j n2 by (intro that [of j "\<lambda>i. i\<lparr>i_dev := ROOTDEV, i_inum := n, i_ref := 1, i_valid := False\<rparr>"]) simp_all
  qed
  let ?t3 = "upd_ino jp f t2"
  have n3: "ino jp ?t3 = f (ino jp t2)" "length (icache ?t3) = length (icache s)" using g(3) n2 by (simp_all add: ino_upd_ino)
  have d3: "disk_inode ?t3 n i = disk_inode s n i" for i by (simp add: disk_inode_def f2)
  have "\<exists>u y. ilock (Some jp) ?t3 = Ok u \<and> tx_ok k L u \<and> bview u = bview ?t3 \<and> sb u = sb ?t3 \<and> icache u = (icache ?t3)[jp := y] \<and>
      same_file y (ino ip s) \<and> i_valid y \<and> i_ref y = i_ref (ino jp ?t3) \<and> i_dev y = ROOTDEV \<and> i_inum y = n"
    using f2 g i(2) disk d3 nd(1) b c by (intro ilock_reads) (simp_all add: n3)
  then obtain u y where u: "ilock (Some jp) ?t3 = Ok u" "tx_ok k L u" "bview u = bview s" "sb u = sb s"
      "icache u = (icache ?t3)[jp := y]" "same_file y (ino ip s)" "i_valid y" "i_ref y = i_ref (ino ip s)" "i_dev y = ROOTDEV" "i_inum y = n"
    using f2 g(4) n3 by auto
  have "put_and_reopen ROOTDEV n ip s = Ok (jp, u)" using put g(1) u(1) by (simp add: put_and_reopen_def)
  moreover have "ino jp u = y" "length (icache u) = length (icache s)" using u(5) n3 g(3) by simp_all
  moreover have "icache_ok u" using icache_ok_same [OF g(2) u(5)] u(8-10) g(4-6) n3 by simp
  ultimately show ?thesis using u i(2) g(3) by (auto simp: cached_at_def)
qed

text \<open>
  C26: inodes survive the trip to the disk. A process that has inode \<open>n\<close> locked writes it back with
  \<open>iupdate\<close>, unlocks and drops it with \<open>iunlockput\<close>, and opens it again with \<open>iget\<close> and \<open>ilock\<close>. No step
  panics, and it gets the type, device numbers, link count, size and block addresses that it wrote:
  whether other references kept the cache entry alive, or the entry was given up and the inode is
  read back from the disk into whichever entry is unused. It has the inode in one cache entry with
  the same number of references as before, and every other inode on the disk, those in the same
  block included, is unchanged.
\<close>

theorem inode_roundtrip:
  assumes ok: "tx_ok (Suc k) L s" and c: "card L \<le> k" and cache: "icache_ok s" and ip: "cached_at ROOTDEV n ip s"
    and mine: "ino_lock ip s = locked_by_me s" "i_valid (ino ip s)"
    and ty: "i_type (ino ip s) \<noteq> 0" "i_nlink (ino ip s) \<noteq> 0" "length (i_addrs (ino ip s)) = NDIRECT + 1"
    and b: "IBLOCK n (sb s) \<notin> L" "usable s (IBLOCK n (sb s))" and lk: "held s = {}"
    and idle: "\<And>j. j < length (icache s) \<Longrightarrow> i_ref (ino j s) = 0 \<Longrightarrow> \<not> sl_locked (ino_lock j s)"
  shows "kok (\<lambda>t. kok (\<lambda>(jp, u). same_file (ino jp u) (ino ip s) \<and> i_valid (ino jp u) \<and> cached_at ROOTDEV n jp u \<and>
      i_ref (ino jp u) = i_ref (ino ip s) \<and> icache_ok u \<and> tx_ok k L u \<and>
      (\<forall>m i. m \<noteq> n \<longrightarrow> disk_inode u m i = disk_inode s m i)) (put_and_reopen ROOTDEV n ip t)) (iupdate ip s)"
proof -
  let ?b = "IBLOCK n (sb s)" and ?k = "dinode_off n"
  have i: "i_dev (ino ip s) = ROOTDEV" "i_inum (ino ip s) = n" using ip by (simp_all add: cached_at_def)
  have c': "card L \<le> Suc k" using c by simp
  obtain t where t: "iupdate ip s = Ok t" "tx_ok k L t" "tframe s t" "bview t = (bview s)(?b := store_dinode (ino ip s) ?k (bview s ?b))"
    using iupdate_law [OF ok c' i(1)] b i(2) by auto
  note f = tframe_fs [OF t(3)]
  have len: "length (bview s ?b) = BSIZE" using tx.view_length [OF ok] .
  have other: "disk_inode t m i = disk_inode s m i" if "m \<noteq> n" for m i
  proof (cases "IBLOCK m (sb s) = ?b")
    case True
    have "load_dinode (store_dinode (ino ip s) ?k (bview s ?b)) (dinode_off m) i = load_dinode (bview s ?b) (dinode_off m) i"
      using inode_slot_inj [OF that True] dinode_off_le [of m] dinode_off_le [of n] len by (intro load_store_dinode_other) auto
    then show ?thesis using t(4) f(1) True by (simp add: disk_inode_def)
  next
    case False
    then show ?thesis using t(4) f(1) by (simp add: disk_inode_def)
  qed
  have disk: "same_file (disk_inode t n i) (ino ip t)" for i
    using load_store_dinode [OF _ ty(3), of ?k "bview s ?b" i] dinode_off_le [of n] len t(4) f by (simp add: disk_inode_def)
  have "my_pid t = my_pid s"
  proof -
    obtain p where p: "my_proc s = Some p" "p < STATIC_PROC_NUM" "length (procs s) = STATIC_PROC_NUM"
      using bc_base_D(2,4) [OF bc_inv_D(1) [OF tx_ok_D(10) [OF ok]]] by blast
    then show ?thesis using tframe_fields(12,14) [OF t(3)] unslept_pid [of "procs s" "procs t" p] by (simp add: my_pid_def)
  qed
  then have mine': "ino_lock ip t = locked_by_me t" using mine(1) f(2) by (simp add: locked_by_me_def)
  have "icache_ok t" "cached_at ROOTDEV n ip t" using cache ip f(2) by (simp_all add: icache_ok_def cached_at_def)
  then obtain jp u where u: "put_and_reopen ROOTDEV n ip t = Ok (jp, u)" "same_file (ino jp u) (ino ip t)" "i_valid (ino jp u)"
      "cached_at ROOTDEV n jp u" "i_ref (ino jp u) = i_ref (ino ip t)" "icache_ok u" "tx_ok k L u" "bview u = bview t" "sb u = sb t"
    using put_and_reopen_eq [OF t(2) c _ _ mine' _ _ _ _ _ _ _ disk] mine ty b lk idle f tframe_fields(1) [OF t(3)] by auto
  have "disk_inode u m i = disk_inode t m i" for m i using u(8,9) by (simp add: disk_inode_def)
  then show ?thesis using t(1) u f(2) other by simp
qed

text \<open>Inode 17 of \<open>fs_example\<close> with one reference, locked by the caller; the second entry is unused.\<close>

definition reopen_example :: fs_state where
  "reopen_example = (icache_example (inode_example\<lparr>i_ref := 0\<rparr>))\<lparr>icache :=
     [inode_example\<lparr>i_ref := 1, i_lock := locked_by_me (icache_example (inode_example\<lparr>i_ref := 0\<rparr>))\<rparr>, inode_example\<lparr>i_ref := 0\<rparr>]\<rparr>"

theorem inode_roundtrip_witness:
  "icache_ok reopen_example \<and>
   kok (\<lambda>t. kok (\<lambda>(jp, u). i_size (ino jp u) = 5 \<and> i_ref (ino jp u) = 1 \<and> cached_at ROOTDEV 17 jp u) (put_and_reopen ROOTDEV 17 0 t))
     (iupdate 0 reopen_example)"
proof -
  let ?s = "icache_example (inode_example\<lparr>i_ref := 0\<rparr>)"
  note F = icache_example_fields [of "inode_example\<lparr>i_ref := 0\<rparr>"]
  have G: "tx_ok 29 {} reopen_example" "usable reopen_example 33" "sb_inodestart (sb reopen_example) = 32" "held reopen_example = {}"
    "icache reopen_example = [inode_example\<lparr>i_ref := 1, i_lock := locked_by_me ?s\<rparr>, inode_example\<lparr>i_ref := 0\<rparr>]"
    using F by (simp_all add: reopen_example_def fs_upd_cache)
  have me: "locked_by_me reopen_example = locked_by_me ?s"
    by (simp add: reopen_example_def locked_by_me_def my_pid_def my_proc_def cong: option.case_cong)
  have ok: "icache_ok reopen_example" using G(5) by (auto simp: icache_ok_def inode_example_def less_Suc_eq)
  have idle: "\<not> sl_locked (ino_lock j reopen_example)" if "j < length (icache reopen_example)" "i_ref (ino j reopen_example) = 0" for j
    using that G(5) by (auto simp: inode_example_def initsleeplock_def less_Suc_eq)
  have "kok (\<lambda>t. kok (\<lambda>(jp, u). same_file (ino jp u) (ino 0 reopen_example) \<and> i_valid (ino jp u) \<and> cached_at ROOTDEV 17 jp u \<and>
      i_ref (ino jp u) = i_ref (ino 0 reopen_example) \<and> icache_ok u \<and> tx_ok 28 {} u \<and>
      (\<forall>m i. m \<noteq> 17 \<longrightarrow> disk_inode u m i = disk_inode reopen_example m i)) (put_and_reopen ROOTDEV 17 0 t)) (iupdate 0 reopen_example)"
    using G me ok idle by (intro inode_roundtrip) (simp_all add: inode_example_def IBLOCK_def cached_at_def)
  then show ?thesis using ok G(5) by (auto elim!: kok_mono simp: same_file_def inode_example_def)
qed

text \<open>
  C27: the inode cache. While the cache is consistent (no two entries in use stand for the same
  inode), \<open>iget\<close> returns the entry of the inode if there is one, leaves its contents alone and
  counts one more reference; otherwise it takes an unused entry and marks it as not yet read;
  it panics exactly when the inode is not cached and every entry is in use. \<open>idup\<close> counts one more
  reference, and \<open>iput\<close> of an entry that other references keep alive, or whose file still has
  links, one less. All of them keep the cache consistent.
\<close>

theorem inode_cache_correct:
  assumes ok: "icache_ok s" and l: "IcacheLock \<notin> held s"
  shows "(if (\<exists>i. cached_at dev inum i s) \<or> (\<exists>i < length (icache s). i_ref (ino i s) = 0)
      then kok (\<lambda>(ip, t). icache_ok t \<and> cached_at dev inum ip t \<and>
        i_ref (ino ip t) = (if cached_at dev inum ip s then i_ref (ino ip s) else 0) + 1 \<and>
        (if \<exists>i. cached_at dev inum i s then ino ip t = (ino ip s)\<lparr>i_ref := i_ref (ino ip s) + 1\<rparr> else \<not> i_valid (ino ip t)) \<and>
        (\<forall>j. j \<noteq> ip \<longrightarrow> ino j t = ino j s)) (iget dev inum s)
      else iget dev inum s = Panic ''iget: no inodes'') \<and>
    (cached_at dev inum ip s \<longrightarrow>
      idup ip s = Ok (ip, upd_ino ip (\<lambda>i. i\<lparr>i_ref := i_ref i + 1\<rparr>) s) \<and> icache_ok (upd_ino ip (\<lambda>i. i\<lparr>i_ref := i_ref i + 1\<rparr>) s)) \<and>
    (cached_at dev inum ip s \<and> (1 < i_ref (ino ip s) \<or> i_nlink (ino ip s) \<noteq> 0 \<or> \<not> i_valid (ino ip s)) \<longrightarrow>
      iput ip s = Ok (upd_ino ip (\<lambda>i. i\<lparr>i_ref := i_ref i - 1\<rparr>) s) \<and> icache_ok (upd_ino ip (\<lambda>i. i\<lparr>i_ref := i_ref i - 1\<rparr>) s))"
proof (intro conjI impI)
  let ?P = "\<lambda>i. i_ref i > 0 \<and> i_dev i = dev \<and> i_inum i = inum"
  note upd = icache_ok_upd [OF ok] and uniq = icache_ok_uniq [OF ok]
  show "if (\<exists>i. cached_at dev inum i s) \<or> (\<exists>i < length (icache s). i_ref (ino i s) = 0)
      then kok (\<lambda>(ip, t). icache_ok t \<and> cached_at dev inum ip t \<and>
        i_ref (ino ip t) = (if cached_at dev inum ip s then i_ref (ino ip s) else 0) + 1 \<and>
        (if \<exists>i. cached_at dev inum i s then ino ip t = (ino ip s)\<lparr>i_ref := i_ref (ino ip s) + 1\<rparr> else \<not> i_valid (ino ip t)) \<and>
        (\<forall>j. j \<noteq> ip \<longrightarrow> ino j t = ino j s)) (iget dev inum s)
      else iget dev inum s = Panic ''iget: no inodes''"
  proof (cases "find_index ?P (icache s)")
    case (Some i)
    have i: "i < length (icache s)" "?P (ino i s)" using find_index_Some [OF Some] by auto
    have "icache_ok (upd_ino i (\<lambda>x. x\<lparr>i_ref := i_ref x + 1\<rparr>) s)" using i uniq [OF i(1)] by (intro upd) auto
    moreover have "\<exists>i. cached_at dev inum i s" "cached_at dev inum i s" using i by (auto simp: cached_at_def)
    ultimately show ?thesis using Some iget_eq [OF l] i by (simp add: ino_upd_ino) (simp add: cached_at_def ino_upd_ino)
  next
    case None
    then have nc: "\<not> cached_at dev inum i s" for i unfolding find_index_None cached_at_def by (metis nth_mem)
    show ?thesis
    proof (cases "find_index (\<lambda>i. i_ref i = 0) (icache s)")
      case none: None
      then have "\<not> (\<exists>i < length (icache s). i_ref (ino i s) = 0)" unfolding find_index_None by (metis nth_mem)
      then show ?thesis using nc None none iget_eq [OF l] by simp
    next
      case (Some i)
      have i: "i < length (icache s)" "i_ref (ino i s) = 0" using find_index_Some [OF Some] by auto
      have "icache_ok (upd_ino i (\<lambda>x. x\<lparr>i_dev := dev, i_inum := inum, i_ref := 1, i_valid := False\<rparr>) s)"
        using i nc by (intro upd) (auto simp: cached_at_def)
      then show ?thesis using Some None iget_eq [OF l] i nc by (auto simp: ino_upd_ino cached_at_def)
    qed
  qed
  assume ca: "cached_at dev inum ip s"
  then have i: "ip < length (icache s)" "0 < i_ref (ino ip s)" by (simp_all add: cached_at_def)
  show "idup ip s = Ok (ip, upd_ino ip (\<lambda>i. i\<lparr>i_ref := i_ref i + 1\<rparr>) s)" using l by (simp add: idup_def lock_simps upd_ino_def)
  show "icache_ok (upd_ino ip (\<lambda>i. i\<lparr>i_ref := i_ref i + 1\<rparr>) s)" using i uniq [OF i] by (intro upd) auto
next
  note upd = icache_ok_upd [OF ok] and uniq = icache_ok_uniq [OF ok]
  assume "cached_at dev inum ip s \<and> (1 < i_ref (ino ip s) \<or> i_nlink (ino ip s) \<noteq> 0 \<or> \<not> i_valid (ino ip s))"
  then have i: "ip < length (icache s)" "0 < i_ref (ino ip s)" and n: "\<not> (i_ref (ino ip s) = 1 \<and> i_valid (ino ip s) \<and> i_nlink (ino ip s) = 0)"
    by (auto simp: cached_at_def)
  show "iput ip s = Ok (upd_ino ip (\<lambda>i. i\<lparr>i_ref := i_ref i - 1\<rparr>) s)" by (rule iput_keeps [OF l n])
  show "icache_ok (upd_ino ip (\<lambda>i. i\<lparr>i_ref := i_ref i - 1\<rparr>) s)"
    using i uniq [OF i] by (intro upd) auto
qed

theorem inode_cache_correct_witness:
  "let s = icache_example (inode_example\<lparr>i_ref := 0\<rparr>) in
   kok (\<lambda>(ip, t). cached_at ROOTDEV 17 ip t \<and> i_ref (ino ip t) = (if ip = 0 then 3 else 1)) (iget ROOTDEV 17 s) \<and>
   kok (\<lambda>(ip, t). cached_at ROOTDEV 18 ip t \<and> \<not> i_valid (ino ip t)) (iget ROOTDEV 18 s) \<and>
   kok (\<lambda>t. i_ref (ino 0 t) = 1) (iput 0 s)"
proof -
  let ?s = "icache_example (inode_example\<lparr>i_ref := 0\<rparr>)"
  note F = icache_example_fields [of "inode_example\<lparr>i_ref := 0\<rparr>"]
  have ok: "icache_ok ?s" "IcacheLock \<notin> held ?s" using F(4,5) by (auto simp: icache_ok_def inode_example_def less_Suc_eq)
  have c: "cached_at ROOTDEV 17 i ?s \<longleftrightarrow> i = 0" "\<not> cached_at ROOTDEV 18 i ?s" for i
    using F(5) by (auto simp: cached_at_def inode_example_def nth_Cons' split: if_splits)
  have r: "i_ref (ino 0 ?s) = 2" "i_ref (ino (Suc 0) ?s) = 0" "length (icache ?s) = 2" using F(5) by (simp_all add: inode_example_def)
  note I = inode_cache_correct [OF ok, of ROOTDEV 17 0, unfolded c] inode_cache_correct [OF ok, of ROOTDEV 18 0, unfolded c]
  have "kok (\<lambda>(ip, t). cached_at ROOTDEV 17 ip t \<and> i_ref (ino ip t) = (if ip = 0 then 3 else 1)) (iget ROOTDEV 17 ?s)"
    using I(1) r by (auto elim!: kok_mono split: if_splits)
  moreover have "\<exists>i < length (icache ?s). i_ref (ino i ?s) = 0" using r by (intro exI [of _ 1]) simp
  then have "kok (\<lambda>(ip, t). cached_at ROOTDEV 18 ip t \<and> \<not> i_valid (ino ip t)) (iget ROOTDEV 18 ?s)"
    using I(2) by (simp only: c) (auto elim!: kok_mono)
  moreover have "kok (\<lambda>t. i_ref (ino 0 t) = 1) (iput 0 ?s)" using I(1) r by (simp add: ino_upd_ino)
  ultimately show ?thesis unfolding Let_def by blast
qed

end
