(* ===== verification/Pipe.thy ===== *)
theory Pipe
  imports Fs_Inv Ring_Buffer
begin

text \<open>
  Pipes: kernel/fs/pipe.c. A pipe lives in a page from \<open>kalloc\<close>; \<open>pipes\<close> gives its members by the
  address of the page. They are kept beside the bytes of the memory: nothing else refers to the page
  between \<open>kalloc\<close> and \<open>kfree\<close>. A local variable \<open>ch\<close> that is copied to or from user memory is at \<open>kobj\<close>.

  A call that has to sleep continues after the other processes have run. What they do while it sleeps
  for the first, second and later times are the elements of the list \<open>env\<close>; when the list is used up the call
  is still asleep (\<open>Block\<close>).
\<close>

section \<open>The code\<close>

abbreviation (input) PIPESIZE :: nat where "PIPESIZE \<equiv> 512"

record pipe =
  pi_data :: "u8 list"
  pi_nread :: u32
  pi_nwrite :: u32
  pi_readopen :: bool
  pi_writeopen :: bool

record pipe_state = fs_state +
  pipes :: "u64 \<Rightarrow> pipe"

type_synonym 'a switches = "('a \<Rightarrow> 'a kres) list"

definition upd_pipe :: "u64 \<Rightarrow> (pipe \<Rightarrow> pipe) \<Rightarrow> 'a pipe_state_scheme \<Rightarrow> 'a pipe_state_scheme" where
  "upd_pipe pi f s = s\<lparr>pipes := (pipes s)(pi := f (pipes s pi))\<rparr>"

definition pipeclose :: "u64 \<Rightarrow> bool \<Rightarrow> 'a pipe_state_scheme \<Rightarrow> 'a pipe_state_scheme kres" where
  "pipeclose pi writable s =
     kbind (acquire (PipeLock pi) s) (\<lambda>s.
     kbind (if writable then wake_up (PipeReadChan pi) (upd_pipe pi (\<lambda>p. p\<lparr>pi_writeopen := False\<rparr>) s)
            else wake_up (PipeWriteChan pi) (upd_pipe pi (\<lambda>p. p\<lparr>pi_readopen := False\<rparr>) s)) (\<lambda>s.
     if \<not> pi_readopen (pipes s pi) \<and> \<not> pi_writeopen (pipes s pi)
     then kbind (release (PipeLock pi) s) (kfree pi)
     else release (PipeLock pi) s))"

definition pipe_full :: "pipe \<Rightarrow> bool" where
  "pipe_full p \<longleftrightarrow> pi_nwrite p = pi_nread p + 512"

definition pipe_empty :: "pipe \<Rightarrow> bool" where
  "pipe_empty p \<longleftrightarrow> pi_nread p = pi_nwrite p"

text \<open>\<open>pi->data[pi->nwrite++ % PIPESIZE] = ch\<close> and \<open>ch = pi->data[pi->nread++ % PIPESIZE]\<close>.\<close>

definition pipe_put :: "u8 \<Rightarrow> pipe \<Rightarrow> pipe" where
  "pipe_put ch p = p\<lparr>pi_data := (pi_data p)[unat (pi_nwrite p mod 512) := ch], pi_nwrite := pi_nwrite p + 1\<rparr>"

definition pipe_take :: "pipe \<Rightarrow> u8 \<times> pipe" where
  "pipe_take p = (pi_data p ! unat (pi_nread p mod 512), p\<lparr>pi_nread := pi_nread p + 1\<rparr>)"

text \<open>The loop of \<open>pipewrite\<close> with everything after it; \<open>pr\<close> is the calling process.\<close>

function pipewrite_loop ::
  "'a pipe_state_scheme switches \<Rightarrow> nat \<Rightarrow> u64 \<Rightarrow> u64 \<Rightarrow> int \<Rightarrow> int \<Rightarrow> 'a pipe_state_scheme \<Rightarrow> (int \<times> 'a pipe_state_scheme) kres" where
  "pipewrite_loop env pr pi addr n i s =
     (if \<not> i < n then
        kbind (wake_up (PipeReadChan pi) s) (\<lambda>s. kbind (release (PipeLock pi) s) (\<lambda>s. Ok (i, s)))
      else if pipe_full (pipes s pi) then
        if \<not> pi_readopen (pipes s pi) \<or> p_killed (proc pr s) then kbind (release (PipeLock pi) s) (\<lambda>s. Ok (-1, s))
        else
          kbind (wake_up (PipeReadChan pi) s) (\<lambda>s.
          case env of
            [] \<Rightarrow> sleep_block (PipeLock pi) (PipeWriteChan pi) s
          | sw # env \<Rightarrow> kbind (sleep sw (PipeLock pi) (PipeWriteChan pi) s) (pipewrite_loop env pr pi addr n i))
      else
        kbind (copyin (p_pgtable (proc pr s)) (kobj s) (addr + word_of_int i) 1 s) (\<lambda>(r, s).
        if r = -1 then
          kbind (wake_up (PipeReadChan pi) s) (\<lambda>s. kbind (release (PipeLock pi) s) (\<lambda>s. Ok (i, s)))
        else pipewrite_loop env pr pi addr n (i + 1) (upd_pipe pi (pipe_put (mem s (kobj s))) s)))"
  by pat_completeness auto
termination
  by (relation "measure (\<lambda>(env, pr, pi, addr, n, i, s). length env + nat (n - i))") auto

declare pipewrite_loop.simps [simp del]

definition pipewrite ::
  "'a pipe_state_scheme switches \<Rightarrow> u64 \<Rightarrow> u64 \<Rightarrow> int \<Rightarrow> 'a pipe_state_scheme \<Rightarrow> (int \<times> 'a pipe_state_scheme) kres" where
  "pipewrite env pi addr n s =
     (case my_proc s of
        None \<Rightarrow> Panic ''NULL process''
      | Some pr \<Rightarrow> kbind (acquire (PipeLock pi) s) (pipewrite_loop env pr pi addr n 0))"

text \<open>The copying loop of \<open>piperead\<close>; the result is \<open>i\<close> when it ends.\<close>

function piperead_copy :: "nat \<Rightarrow> u64 \<Rightarrow> u64 \<Rightarrow> int \<Rightarrow> int \<Rightarrow> 'a pipe_state_scheme \<Rightarrow> (int \<times> 'a pipe_state_scheme) kres" where
  "piperead_copy pr pi addr n i s =
     (if \<not> i < n \<or> pipe_empty (pipes s pi) then Ok (i, s)
      else
        let (ch, p) = pipe_take (pipes s pi);
            s = upd_pipe pi (\<lambda>_. p) s;
            s = s\<lparr>mem := (mem s)(kobj s := ch)\<rparr> in
        kbind (copyout (p_pgtable (proc pr s)) (addr + word_of_int i) (kobj s) 1 s) (\<lambda>(r, s).
        if r = -1 then Ok (i, s) else piperead_copy pr pi addr n (i + 1) s))"
  by pat_completeness auto
termination
  by (relation "measure (\<lambda>(pr, pi, addr, n, i, s). nat (n - i))") auto

declare piperead_copy.simps [simp del]

text \<open>The loop that waits for data; it returns with the lock held, or with the result -1.\<close>

fun piperead_wait :: "'a pipe_state_scheme switches \<Rightarrow> nat \<Rightarrow> u64 \<Rightarrow> 'a pipe_state_scheme \<Rightarrow> (int option \<times> 'a pipe_state_scheme) kres" where
  "piperead_wait env pr pi s =
     (if pipe_empty (pipes s pi) \<and> pi_writeopen (pipes s pi) then
        if p_killed (proc pr s) then kbind (release (PipeLock pi) s) (\<lambda>s. Ok (Some (-1), s))
        else
          case env of
            [] \<Rightarrow> sleep_block (PipeLock pi) (PipeReadChan pi) s
          | sw # env \<Rightarrow> kbind (sleep sw (PipeLock pi) (PipeReadChan pi) s) (piperead_wait env pr pi)
      else Ok (None, s))"

declare piperead_wait.simps [simp del]

definition piperead ::
  "'a pipe_state_scheme switches \<Rightarrow> u64 \<Rightarrow> u64 \<Rightarrow> int \<Rightarrow> 'a pipe_state_scheme \<Rightarrow> (int \<times> 'a pipe_state_scheme) kres" where
  "piperead env pi addr n s =
     (case my_proc s of
        None \<Rightarrow> Panic ''NULL process''
      | Some pr \<Rightarrow>
          kbind (acquire (PipeLock pi) s) (\<lambda>s.
          kbind (piperead_wait env pr pi s) (\<lambda>(r, s).
          case r of
            Some r \<Rightarrow> Ok (r, s)
          | None \<Rightarrow>
              kbind (piperead_copy pr pi addr n 0 s) (\<lambda>(i, s).
              kbind (wake_up (PipeWriteChan pi) s) (\<lambda>s.
              kbind (release (PipeLock pi) s) (\<lambda>s. Ok (i, s)))))))"

section \<open>The queue\<close>

definition pipe_ok :: "pipe \<Rightarrow> bool" where
  "pipe_ok p \<longleftrightarrow> ring_ok PIPESIZE (pi_data p) (pi_nread p) (pi_nwrite p)"

definition pipe_contents :: "pipe \<Rightarrow> u8 list" where
  "pipe_contents p = ring_contents (pi_data p) (pi_nread p) (pi_nwrite p)"

interpretation pq: bounded_queue pipe_ok pipe_contents PIPESIZE pipe_empty pipe_full pipe_put pipe_take
proof
  fix p x
  assume "pipe_ok p"
  then have r: "ring_ok PIPESIZE (pi_data p) (pi_nread p) (pi_nwrite p)" by (simp add: pipe_ok_def)
  show "length (pipe_contents p) \<le> PIPESIZE" using r by (simp add: pipe_contents_def ring_ok_def)
  show "pipe_empty p = (pipe_contents p = [])" by (simp add: pipe_empty_def pipe_contents_def ring_empty_iff)
  show "pipe_full p = (length (pipe_contents p) = PIPESIZE)"
    using ring_full_iff(1) [OF r] by (simp add: pipe_full_def pipe_contents_def)
  show "pipe_ok (pipe_put x p) \<and> pipe_contents (pipe_put x p) = pipe_contents p @ [x]" if "length (pipe_contents p) < PIPESIZE"
    using ring_push [OF r, of x] that by (simp add: pipe_put_def pipe_ok_def pipe_contents_def unat_mod)
  show "pipe_ok (snd (pipe_take p)) \<and> pipe_contents p = fst (pipe_take p) # pipe_contents (snd (pipe_take p))" if "pipe_contents p \<noteq> []"
  proof -
    have "pi_nread p \<noteq> pi_nwrite p" using that by (simp add: pipe_contents_def ring_empty_iff)
    then show ?thesis using ring_pop [OF r] by (simp add: pipe_take_def pipe_contents_def pipe_ok_def unat_mod)
  qed
qed

section \<open>Copying one byte\<close>

lemma chunk_one: "chunk u 1 = 1"
proof -
  have "unat (chunk u 1) = 1" unfolding unat_chunk using mod_less_divisor [of 4096 "unat u"] by (simp del: mod_less_divisor)
  then show ?thesis by (metis unat_1 word_unat_eq_iff)
qed

lemma copy_byte_one:
  assumes "table_wf (mem s) 2 t"
  shows "copyin t d u 1 s = (case uaddr (mem s) t u of None \<Rightarrow> Ok (-1, s) | Some a \<Rightarrow> Ok (0, s\<lparr>mem := (mem s)(d := mem s a)\<rparr>))"
    "copyout t u d 1 s = (case uaddr (mem s) t u of None \<Rightarrow> Ok (-1, s) | Some a \<Rightarrow> Ok (0, s\<lparr>mem := (mem s)(a := mem s d)\<rparr>))"
proof -
  have z: "copy_in_or_out_may_str t u' k 0 w s' = Ok (0, s')" for u' k w and s' :: "'a vm_state_scheme" by (subst copy_in_or_out_may_str.simps) simp
  have m: "memcpy m a b 1 = m(a := m b)" for m :: mem and a b by (simp add: memcpy_def copy_byte_def)
  show "copyin t d u 1 s = (case uaddr (mem s) t u of None \<Rightarrow> Ok (-1, s) | Some a \<Rightarrow> Ok (0, s\<lparr>mem := (mem s)(d := mem s a)\<rparr>))"
    unfolding copyin_def copy_in_def using copy_step [OF assms, of 1] by (simp add: chunk_one handle_copy_for_page_with_way_def m z split: option.split)
  show "copyout t u d 1 s = (case uaddr (mem s) t u of None \<Rightarrow> Ok (-1, s) | Some a \<Rightarrow> Ok (0, s\<lparr>mem := (mem s)(a := mem s d)\<rparr>))"
    unfolding copyout_def copy_out_def using copy_step [OF assms, of 1] by (simp add: chunk_one handle_copy_for_page_with_way_def m z split: option.split)
qed

section \<open>What a call transfers\<close>

text \<open>
  \<open>fill room xs\<close>: a writer with room for \<open>room\<close> bytes and user bytes \<open>xs\<close> (\<open>None\<close> where the address is
  not accessible) writes the bytes up to the end, a full buffer, or a fault. \<open>drain c fs\<close>: a reader of
  the contents \<open>c\<close> with destinations that are accessible where \<open>fs\<close> says so delivers bytes until one of
  the two ends, or until a destination faults; the byte meant for that destination is lost.
\<close>

datatype fill_end = All | Full | Fault

fun fill :: "nat \<Rightarrow> 'x option list \<Rightarrow> 'x list \<times> fill_end" where
  "fill r [] = ([], All)"
| "fill 0 (x # xs) = ([], Full)"
| "fill (Suc r) (None # xs) = ([], Fault)"
| "fill (Suc r) (Some x # xs) = (let (ys, e) = fill r xs in (x # ys, e))"

fun drain :: "'x list \<Rightarrow> bool list \<Rightarrow> 'x list \<times> 'x list" where
  "drain xs [] = ([], xs)"
| "drain [] (f # fs) = ([], [])"
| "drain (x # xs) (False # fs) = ([], xs)"
| "drain (x # xs) (True # fs) = (let (ys, r) = drain xs fs in (x # ys, r))"

lemma drain_length: "drain xs fs = (ds, rest) \<Longrightarrow> length ds \<le> length fs"
  by (induction xs fs arbitrary: ds rest rule: drain.induct) (auto split: prod.splits)

definition user_byte :: "mem \<Rightarrow> u64 \<Rightarrow> u64 \<Rightarrow> u8 option" where
  "user_byte m t a = map_option m (uaddr m t a)"

definition user_bytes :: "mem \<Rightarrow> u64 \<Rightarrow> u64 \<Rightarrow> nat \<Rightarrow> nat \<Rightarrow> u8 option list" where
  "user_bytes m t addr i n = map (\<lambda>j. user_byte m t (addr + word_of_nat j)) [i..<n]"

text \<open>The local variable is outside the page tables and is not one of the user's bytes.\<close>

definition private_byte :: "mem \<Rightarrow> u64 \<Rightarrow> u64 \<Rightarrow> u64 \<Rightarrow> nat \<Rightarrow> bool" where
  "private_byte m t k addr n \<longleftrightarrow> table_wf m 2 t \<and> off_table m t {k} \<and> (\<forall>j < n. uaddr m t (addr + word_of_nat j) \<noteq> Some k)"

lemma private_byte_upd:
  assumes p: "private_byte m t k addr n"
  shows "private_byte (m(k := x)) t k addr n" "user_bytes (m(k := x)) t addr i n = user_bytes m t addr i n" "uaddr (m(k := x)) t = uaddr m t"
    "table_wf (m(k := x)) 2 t"
proof -
  have f: "table_wf (m(k := x)) 2 t \<and> tables (m(k := x)) 2 t = tables m 2 t \<and> uaddr (m(k := x)) t = uaddr m t"
    using p by (intro off_table_frame [of m t "{k}"]) (auto simp: private_byte_def)
  then show "private_byte (m(k := x)) t k addr n" using p by (auto simp: private_byte_def off_table_def)
  show "uaddr (m(k := x)) t = uaddr m t" "table_wf (m(k := x)) 2 t" using f by auto
  have "user_byte (m(k := x)) t (addr + word_of_nat j) = user_byte m t (addr + word_of_nat j)" if "j < n" for j
    using f p that by (cases "uaddr m t (addr + word_of_nat j)") (auto simp: user_byte_def private_byte_def)
  then show "user_bytes (m(k := x)) t addr i n = user_bytes m t addr i n" by (simp add: user_bytes_def)
qed

lemma upd_pipe_simps [simp]:
  "held (upd_pipe pi f s) = held s" "noff (upd_pipe pi f s) = noff s" "mem (upd_pipe pi f s) = mem s" "procs (upd_pipe pi f s) = procs s"
  "my_proc (upd_pipe pi f s) = my_proc s" "kobj (upd_pipe pi f s) = kobj s" "pipes (upd_pipe pi f s) pi = f (pipes s pi)"
  "upd_pipe pi f (upd_pipe pi g s) = upd_pipe pi (\<lambda>p. f (g p)) s"
  by (simp_all add: upd_pipe_def my_proc_def)

text \<open>A run of the loop up to the point where it stops putting bytes into the pipe.\<close>

lemma pipewrite_fill:
  assumes "fill (PIPESIZE - length (pipe_contents (pipes s pi))) (user_bytes (mem s) (p_pgtable (proc pr s)) addr i n) = (bs, e)"
    "pipe_ok (pipes s pi)" "private_byte (mem s) (p_pgtable (proc pr s)) (kobj s) addr n" "i \<le> n"
  shows "\<exists>x p. pipewrite_loop env pr pi addr (int n) (int i) s =
      pipewrite_loop env pr pi addr (int n) (int (i + length bs)) (upd_pipe pi (\<lambda>_. p) (s\<lparr>mem := (mem s)(kobj s := x)\<rparr>)) \<and>
    pipe_ok p \<and> pipe_contents p = pipe_contents (pipes s pi) @ bs \<and> pi_readopen p = pi_readopen (pipes s pi) \<and> pi_writeopen p = pi_writeopen (pipes s pi) \<and>
    (e = All \<longrightarrow> i + length bs = n) \<and> (e \<noteq> All \<longrightarrow> i + length bs < n) \<and> (e = Full \<longrightarrow> pipe_full p) \<and>
    (e = Fault \<longrightarrow> \<not> pipe_full p \<and> uaddr (mem s) (p_pgtable (proc pr s)) (addr + word_of_nat (i + length bs)) = None)"
  using assms
proof (induction "n - i" arbitrary: i s bs e)
  case 0
  have "upd_pipe pi (\<lambda>_. pipes s pi) (s\<lparr>mem := (mem s)(kobj s := mem s (kobj s))\<rparr>) = s" by (simp add: upd_pipe_def)
  moreover have "bs = []" "e = All" using 0 by (auto simp: user_bytes_def)
  ultimately show ?case using 0 by (intro exI [of _ "mem s (kobj s)"] exI [of _ "pipes s pi"]) simp
next
  case (Suc k)
  let ?t = "p_pgtable (proc pr s)" and ?c = "pipe_contents (pipes s pi)"
  have same: "upd_pipe pi (\<lambda>_. pipes s pi) (s\<lparr>mem := (mem s)(kobj s := mem s (kobj s))\<rparr>) = s" by (simp add: upd_pipe_def)
  have lt: "i < n" using Suc.hyps(2) by simp
  have ub: "user_bytes (mem s) ?t addr i n = user_byte (mem s) ?t (addr + word_of_nat i) # user_bytes (mem s) ?t addr (Suc i) n"
    using lt by (simp add: user_bytes_def upt_conv_Cons)
  note full = pq.full_iff [OF Suc.prems(2)] and cap = pq.cap [OF Suc.prems(2)]
  show ?case
  proof (cases "PIPESIZE - length ?c")
    case 0
    then have "bs = []" "e = Full" "pipe_full (pipes s pi)" using Suc.prems(1) ub full cap by auto
    then show ?thesis using same lt Suc.prems(2) by (intro exI [of _ "mem s (kobj s)"] exI [of _ "pipes s pi"]) simp
  next
    case (Suc r)
    then have nf: "\<not> pipe_full (pipes s pi)" "length ?c < PIPESIZE" using full by auto
    show ?thesis
    proof (cases "uaddr (mem s) ?t (addr + word_of_nat i)")
      case None
      then have "bs = []" "e = Fault" using Suc.prems(1) ub Suc by (auto simp: user_byte_def)
      then show ?thesis using same lt Suc.prems(2) None nf by (intro exI [of _ "mem s (kobj s)"] exI [of _ "pipes s pi"]) simp
    next
      case (Some a)
      let ?x = "mem s a"
      let ?s = "upd_pipe pi (pipe_put ?x) (s\<lparr>mem := (mem s)(kobj s := ?x)\<rparr>)"
      obtain bs' where bs: "bs = ?x # bs'" "fill r (user_bytes (mem s) ?t addr (Suc i) n) = (bs', e)"
        using Suc.prems(1) ub Suc Some by (auto simp: user_byte_def split: prod.splits)
      note P = private_byte_upd [OF Suc.prems(3), of ?x]
      have put: "pipe_ok (pipe_put ?x (pipes s pi))" "pipe_contents (pipe_put ?x (pipes s pi)) = ?c @ [?x]"
        using pq.put_ok [OF Suc.prems(2) nf(2), of ?x] by auto
      have step: "pipewrite_loop env pr pi addr (int n) (int i) s = pipewrite_loop env pr pi addr (int n) (int (Suc i)) ?s"
        using lt nf(1) Some Suc.prems(3) by (subst pipewrite_loop.simps) (simp add: copy_byte_one private_byte_def add.commute)
      have len: "PIPESIZE - length (pipe_contents (pipes ?s pi)) = r" using put(2) Suc by simp
      have ub': "user_bytes (mem ?s) ?t addr (Suc i) n = user_bytes (mem s) ?t addr (Suc i) n" using P(2) by simp
      have tt: "p_pgtable (proc pr ?s) = ?t" "kobj ?s = kobj s" by simp_all
      have pre: "k = n - Suc i" "fill (PIPESIZE - length (pipe_contents (pipes ?s pi))) (user_bytes (mem ?s) (p_pgtable (proc pr ?s)) addr (Suc i) n) = (bs', e)"
          "pipe_ok (pipes ?s pi)" "private_byte (mem ?s) (p_pgtable (proc pr ?s)) (kobj ?s) addr n" "Suc i \<le> n"
        unfolding len ub' tt using Suc.hyps(2) lt bs(2) put(1) P(1) by simp_all
      obtain y p where ih: "pipewrite_loop env pr pi addr (int n) (int (Suc i)) ?s =
          pipewrite_loop env pr pi addr (int n) (int (Suc i + length bs')) (upd_pipe pi (\<lambda>_. p) (?s\<lparr>mem := (mem ?s)(kobj s := y)\<rparr>))"
          "pipe_ok p" "pipe_contents p = pipe_contents (pipes ?s pi) @ bs'" "pi_readopen p = pi_readopen (pipes ?s pi)" "pi_writeopen p = pi_writeopen (pipes ?s pi)"
          "e = All \<longrightarrow> Suc i + length bs' = n" "e \<noteq> All \<longrightarrow> Suc i + length bs' < n" "e = Full \<longrightarrow> pipe_full p"
          "e = Fault \<longrightarrow> \<not> pipe_full p \<and> uaddr (mem ?s) ?t (addr + word_of_nat (Suc i + length bs')) = None"
        using Suc.hyps(1) [OF pre] unfolding tt by blast
      have "upd_pipe pi (\<lambda>_. p) (?s\<lparr>mem := (mem ?s)(kobj s := y)\<rparr>) = upd_pipe pi (\<lambda>_. p) (s\<lparr>mem := (mem s)(kobj s := y)\<rparr>)"
        by (simp add: upd_pipe_def)
      then show ?thesis using step ih bs(1) put(2) P(3)
        by (intro exI [of _ y] exI [of _ p]) (auto simp: pipe_put_def)
    qed
  qed
qed

text \<open>A destination in user memory: outside the page tables, no two addresses the same byte.\<close>

definition user_dst :: "mem \<Rightarrow> u64 \<Rightarrow> u64 \<Rightarrow> u64 \<Rightarrow> nat \<Rightarrow> bool" where
  "user_dst m t k addr n \<longleftrightarrow> private_byte m t k addr n \<and> off_table m t (uset m t addr n) \<and> uinj m t addr n"

lemma user_dst_upd:
  assumes d: "user_dst m t k addr n" and a: "a \<in> insert k (uset m t addr n)"
  shows "user_dst (m(a := x)) t k addr n" "uaddr (m(a := x)) t = uaddr m t" "uset (m(a := x)) t addr n = uset m t addr n" "table_wf (m(a := x)) 2 t"
proof -
  have w: "table_wf m 2 t" "off_table m t {a}" using d a by (auto simp: user_dst_def private_byte_def off_table_def)
  have f: "table_wf (m(a := x)) 2 t \<and> tables (m(a := x)) 2 t = tables m 2 t \<and> uaddr (m(a := x)) t = uaddr m t"
    using w by (intro off_table_frame [of m t "{a}"]) auto
  then show u: "uaddr (m(a := x)) t = uaddr m t" "uset (m(a := x)) t addr n = uset m t addr n" "table_wf (m(a := x)) 2 t"
    by (auto simp: uset_def)
  show "user_dst (m(a := x)) t k addr n"
    using d f u unfolding user_dst_def private_byte_def off_table_def uinj_def by simp
qed

lemma piperead_drain:
  assumes "drain (pipe_contents (pipes s pi)) (map (\<lambda>j. uaddr (mem s) (p_pgtable (proc pr s)) (addr + word_of_nat j) \<noteq> None) [i..<n]) = (ds, rest)"
    "pipe_ok (pipes s pi)" "user_dst (mem s) (p_pgtable (proc pr s)) (kobj s) addr n" "i \<le> n"
  shows "\<exists>m' p. piperead_copy pr pi addr (int n) (int i) s = Ok (int (i + length ds), upd_pipe pi (\<lambda>_. p) (s\<lparr>mem := m'\<rparr>)) \<and>
    pipe_ok p \<and> pipe_contents p = rest \<and> pi_readopen p = pi_readopen (pipes s pi) \<and> pi_writeopen p = pi_writeopen (pipes s pi) \<and>
    uaddr m' (p_pgtable (proc pr s)) = uaddr (mem s) (p_pgtable (proc pr s)) \<and>
    (\<forall>j < length ds. user_byte m' (p_pgtable (proc pr s)) (addr + word_of_nat (i + j)) = Some (ds ! j)) \<and>
    (\<forall>x. x \<noteq> kobj s \<and> (\<forall>j. i \<le> j \<and> j < i + length ds \<longrightarrow> uaddr (mem s) (p_pgtable (proc pr s)) (addr + word_of_nat j) \<noteq> Some x) \<longrightarrow> m' x = mem s x)"
  using assms
proof (induction "n - i" arbitrary: i s ds rest)
  case 0
  then have "ds = []" "rest = pipe_contents (pipes s pi)" by auto
  moreover have "upd_pipe pi (\<lambda>_. pipes s pi) (s\<lparr>mem := mem s\<rparr>) = s" by (simp add: upd_pipe_def)
  ultimately show ?case using 0 by (intro exI [of _ "mem s"] exI [of _ "pipes s pi"]) (simp add: piperead_copy.simps)
next
  case (Suc k)
  let ?t = "p_pgtable (proc pr s)" and ?c = "pipe_contents (pipes s pi)"
  let ?fl = "\<lambda>m j. uaddr m ?t (addr + word_of_nat j) \<noteq> None"
  have lt: "i < n" using Suc.hyps(2) by simp
  have fl: "map (?fl (mem s)) [i..<n] = ?fl (mem s) i # map (?fl (mem s)) [Suc i..<n]" using lt by (simp add: upt_conv_Cons)
  note emp = pq.empty_iff [OF Suc.prems(2)]
  show ?case
  proof (cases ?c)
    case Nil
    then have "ds = []" "rest = []" using Suc.prems(1) fl by auto
    moreover have "upd_pipe pi (\<lambda>_. pipes s pi) (s\<lparr>mem := mem s\<rparr>) = s" by (simp add: upd_pipe_def)
    ultimately show ?thesis using Nil emp Suc.prems(2) by (intro exI [of _ "mem s"] exI [of _ "pipes s pi"]) (simp add: piperead_copy.simps)
  next
    case (Cons ch c')
    obtain p where p: "pipe_take (pipes s pi) = (ch, p)" "pipe_ok p" "pipe_contents p = c'"
      using pq.get_ok [OF Suc.prems(2)] Cons by (metis list.inject list.simps(3) prod.collapse)
    have op: "pi_readopen p = pi_readopen (pipes s pi)" "pi_writeopen p = pi_writeopen (pipes s pi)" using p(1) by (auto simp: pipe_take_def)
    let ?m = "(mem s)(kobj s := ch)"
    let ?s = "upd_pipe pi (\<lambda>_. p) (s\<lparr>mem := ?m\<rparr>)"
    have s1: "(upd_pipe pi (\<lambda>_. p) s)\<lparr>mem := ?m\<rparr> = ?s" by (simp add: upd_pipe_def)
    note D = user_dst_upd [OF Suc.prems(3), of "kobj s" ch]
    have run: "piperead_copy pr pi addr (int n) (int i) s = kbind (copyout ?t (addr + word_of_nat i) (kobj s) 1 ?s) (\<lambda>(r, s).
        if r = -1 then Ok (int i, s) else piperead_copy pr pi addr (int n) (int i + 1) s)"
      using lt Cons emp p(1) s1 by (subst piperead_copy.simps) (simp add: Let_def)
    show ?thesis
    proof (cases "uaddr (mem s) ?t (addr + word_of_nat i)")
      case None
      then have "ds = []" "rest = c'" using Suc.prems(1) fl Cons by auto
      then show ?thesis using run None D p(2,3) op by (intro exI [of _ ?m] exI [of _ p]) (simp add: copy_byte_one)
    next
      case (Some a)
      let ?n = "?m(a := ch)"
      let ?u = "upd_pipe pi (\<lambda>_. p) (s\<lparr>mem := ?n\<rparr>)"
      have au: "a \<in> uset (mem s) ?t addr n" using Some lt by (auto simp: uset_def)
      have ak: "a \<noteq> kobj s" using Some lt Suc.prems(3) by (auto simp: user_dst_def private_byte_def)
      have E: "user_dst ?n ?t (kobj s) addr n" "uaddr ?n ?t = uaddr (mem s) ?t" using user_dst_upd [OF D(1), of a ch] D(2,3) au by auto
      have step: "piperead_copy pr pi addr (int n) (int i) s = piperead_copy pr pi addr (int n) (int (Suc i)) ?u"
      proof -
        have "?s\<lparr>mem := ?n\<rparr> = ?u" by (simp add: upd_pipe_def)
        then show ?thesis using run Some D by (simp add: copy_byte_one add.commute)
      qed
      obtain ds' where ds: "ds = ch # ds'" "drain c' (map (?fl (mem s)) [Suc i..<n]) = (ds', rest)"
        using Suc.prems(1) fl Cons Some by (auto split: prod.splits)
      have tt: "p_pgtable (proc pr ?u) = ?t" "kobj ?u = kobj s" "mem ?u = ?n" "pipes ?u pi = p" by simp_all
      have pre: "k = n - Suc i" "drain (pipe_contents (pipes ?u pi)) (map (\<lambda>j. uaddr (mem ?u) (p_pgtable (proc pr ?u)) (addr + word_of_nat j) \<noteq> None) [Suc i..<n]) = (ds', rest)"
          "pipe_ok (pipes ?u pi)" "user_dst (mem ?u) (p_pgtable (proc pr ?u)) (kobj ?u) addr n" "Suc i \<le> n"
        unfolding tt E(2) p(3) using Suc.hyps(2) lt ds(2) p(2) E(1) by simp_all
      obtain m' q where ih: "piperead_copy pr pi addr (int n) (int (Suc i)) ?u = Ok (int (Suc i + length ds'), upd_pipe pi (\<lambda>_. q) (?u\<lparr>mem := m'\<rparr>))"
          "pipe_ok q" "pipe_contents q = rest" "pi_readopen q = pi_readopen p" "pi_writeopen q = pi_writeopen p" "uaddr m' ?t = uaddr (mem s) ?t"
          "\<forall>j < length ds'. user_byte m' ?t (addr + word_of_nat (Suc i + j)) = Some (ds' ! j)"
          "\<forall>x. x \<noteq> kobj s \<and> (\<forall>j. Suc i \<le> j \<and> j < Suc i + length ds' \<longrightarrow> uaddr (mem s) ?t (addr + word_of_nat j) \<noteq> Some x) \<longrightarrow> m' x = ?n x"
        using Suc.hyps(1) [OF pre] unfolding tt E(2) by blast
      have le: "Suc i + length ds' \<le> n" using drain_length [OF ds(2)] lt by simp
      have "uaddr (mem s) ?t (addr + word_of_nat j) \<noteq> Some a" if "Suc i \<le> j" "j < Suc i + length ds'" for j
      proof
        assume j: "uaddr (mem s) ?t (addr + word_of_nat j) = Some a"
        have "uinj (mem s) ?t addr n" "j < n" using Suc.prems(3) that le by (simp_all add: user_dst_def)
        then have "i = j" using Some lt j unfolding uinj_def by blast
        then show False using that(1) by simp
      qed
      then have ma: "m' a = ch" using ih(8) ak by auto
      have first: "\<forall>j < length ds. user_byte m' ?t (addr + word_of_nat (i + j)) = Some (ds ! j)"
      proof (intro allI impI)
        fix j assume "j < length ds"
        then show "user_byte m' ?t (addr + word_of_nat (i + j)) = Some (ds ! j)"
          using ma ih(6,7) Some ds(1) by (cases j) (auto simp: user_byte_def)
      qed
      have "upd_pipe pi (\<lambda>_. q) (?u\<lparr>mem := m'\<rparr>) = upd_pipe pi (\<lambda>_. q) (s\<lparr>mem := m'\<rparr>)" by (simp add: upd_pipe_def)
      then show ?thesis using step ih(1-6) first ds(1) op
      proof (intro exI [of _ m'] exI [of _ q] conjI)
        show "\<forall>x. x \<noteq> kobj s \<and> (\<forall>j. i \<le> j \<and> j < i + length ds \<longrightarrow> uaddr (mem s) ?t (addr + word_of_nat j) \<noteq> Some x) \<longrightarrow> m' x = mem s x"
        proof (intro allI impI)
          fix x assume x: "x \<noteq> kobj s \<and> (\<forall>j. i \<le> j \<and> j < i + length ds \<longrightarrow> uaddr (mem s) ?t (addr + word_of_nat j) \<noteq> Some x)"
          have "i < i + length ds" using ds(1) by simp
          then have "x \<noteq> a" using Some x by auto
          moreover have "m' x = ?n x" using ih(8) x ds(1) by auto
          ultimately show "m' x = mem s x" using x by simp
        qed
      qed auto
    qed
  qed
qed

lemma fill_Some: "fill r (map Some xs) = (take r xs, if length xs \<le> r then All else Full)"
  by (induction r "map Some xs" arbitrary: xs rule: fill.induct) (auto simp: Cons_eq_map_conv)

lemma woken_other: "p_chain p \<noteq> c \<Longrightarrow> woken c p = p"
  by (simp add: woken_def)

section \<open>One call\<close>

text \<open>A process calls into the pipe with no lock held.\<close>

definition pipe_caller :: "nat \<Rightarrow> u64 \<Rightarrow> 'a pipe_state_scheme \<Rightarrow> bool" where
  "pipe_caller pr pi s \<longleftrightarrow> my_proc s = Some pr \<and> pr < STATIC_PROC_NUM \<and> length (procs s) = STATIC_PROC_NUM \<and> held s = {} \<and> noff s = 0 \<and>
     p_chain (proc pr s) = NoChan \<and> pipe_ok (pipes s pi)"

text \<open>The same inside the critical section of the pipe.\<close>

definition pipe_inside :: "nat \<Rightarrow> u64 \<Rightarrow> 'a pipe_state_scheme \<Rightarrow> bool" where
  "pipe_inside pr pi s \<longleftrightarrow> my_proc s = Some pr \<and> pr < STATIC_PROC_NUM \<and> length (procs s) = STATIC_PROC_NUM \<and> held s = {PipeLock pi} \<and> noff s = 1 \<and>
     p_chain (proc pr s) = NoChan \<and> pipe_ok (pipes s pi)"

abbreviation pipe_enter :: "u64 \<Rightarrow> 'a pipe_state_scheme \<Rightarrow> 'a pipe_state_scheme" where
  "pipe_enter pi s \<equiv> s\<lparr>held := {PipeLock pi}, noff := Suc 0\<rparr>"

lemma pipe_enter_inside: "pipe_caller pr pi s \<Longrightarrow> pipe_inside pr pi (pipe_enter pi s)"
  by (simp add: pipe_caller_def pipe_inside_def my_proc_def)

text \<open>Waking the other side and leaving.\<close>

lemma pipe_leave:
  assumes "pipe_inside pr pi s"
  shows "wake_up c s = Ok (s\<lparr>procs := map (woken c) (procs s)\<rparr>)"
    "release (PipeLock pi) (s\<lparr>procs := ps\<rparr>) = Ok (s\<lparr>procs := ps, held := {}, noff := 0\<rparr>)" "release (PipeLock pi) s = Ok (s\<lparr>held := {}, noff := 0\<rparr>)"
  using assms wake_up_eq [of s c] by (auto simp: pipe_inside_def lock_simps)

lemma pipewrite_enter: "pipe_caller pr pi s \<Longrightarrow> pipewrite env pi addr n s = pipewrite_loop env pr pi addr n 0 (pipe_enter pi s)"
  by (simp add: pipewrite_def pipe_caller_def lock_simps)

lemma pipe_sleep_block:
  assumes "pipe_inside pr pi s" "c \<noteq> PipeReadChan pi \<or> d \<noteq> PipeReadChan pi"
  shows "sleep_block (PipeLock pi) c s = Block" "sleep_block (PipeLock pi) c (s\<lparr>procs := map (woken d) (procs s)\<rparr>) = Block"
  using assms by (auto simp: sleep_def pipe_inside_def lock_simps switch_to_scheduler_def my_proc_def woken_def)

lemma pipewrite_cases:
  assumes call: "pipe_caller pr pi s" and priv: "private_byte (mem s) (p_pgtable (proc pr s)) (kobj s) addr n"
    and f: "fill (PIPESIZE - length (pipe_contents (pipes s pi))) (user_bytes (mem s) (p_pgtable (proc pr s)) addr 0 n) = (bs, e)"
  defines "post \<equiv> \<lambda>t. pipe_contents (pipes t pi) = pipe_contents (pipes s pi) @ bs \<and> pipe_ok (pipes t pi) \<and> held t = {} \<and> (\<forall>x. x \<noteq> kobj s \<longrightarrow> mem t x = mem s x)"
  shows "e \<noteq> Full \<Longrightarrow> kok (\<lambda>(r, t). r = int (length bs) \<and> post t \<and> procs t = map (woken (PipeReadChan pi)) (procs s)) (pipewrite env pi addr (int n) s)"
    "e = Full \<Longrightarrow> \<not> pi_readopen (pipes s pi) \<or> p_killed (proc pr s) \<Longrightarrow> kok (\<lambda>(r, t). r = -1 \<and> post t \<and> procs t = procs s) (pipewrite env pi addr (int n) s)"
    "e = Full \<Longrightarrow> pi_readopen (pipes s pi) \<Longrightarrow> \<not> p_killed (proc pr s) \<Longrightarrow> pipewrite [] pi addr (int n) s = Block"
proof -
  let ?t = "p_pgtable (proc pr s)" and ?s = "pipe_enter pi s"
  let ?u = "\<lambda>p x. upd_pipe pi (\<lambda>_. p) (?s\<lparr>mem := (mem s)(kobj s := x)\<rparr>)"
  note ins = pipe_enter_inside [OF call]
  have ok: "pipe_ok (pipes s pi)" using call by (simp add: pipe_caller_def)
  have inu: "pipe_inside pr pi (?u p x)" if "pipe_ok p" for p x using ins that by (simp add: pipe_inside_def my_proc_def upd_pipe_def)
  have tu: "table_wf (mem (?u p x)) 2 ?t" "uaddr (mem (?u p x)) ?t = uaddr (mem s) ?t" for p x using private_byte_upd [OF priv, of x] by auto
  have run: "\<exists>x p. pipewrite env pi addr (int n) s = pipewrite_loop env pr pi addr (int n) (int (length bs)) (?u p x) \<and>
      pipe_ok p \<and> pipe_contents p = pipe_contents (pipes s pi) @ bs \<and> pi_readopen p = pi_readopen (pipes s pi) \<and>
      (e = All \<longrightarrow> length bs = n) \<and> (e \<noteq> All \<longrightarrow> length bs < n) \<and> (e = Full \<longrightarrow> pipe_full p) \<and>
      (e = Fault \<longrightarrow> \<not> pipe_full p \<and> uaddr (mem s) ?t (addr + word_of_nat (length bs)) = None)" for env
    using pipewrite_fill [of ?s pi pr addr 0 n bs e env] f ok priv pipewrite_enter [OF call, of env addr "int n"] by fastforce
  have ne: "e = Full \<Longrightarrow> e \<noteq> All" by simp
  show "kok (\<lambda>(r, t). r = int (length bs) \<and> post t \<and> procs t = map (woken (PipeReadChan pi)) (procs s)) (pipewrite env pi addr (int n) s)" if "e \<noteq> Full"
  proof -
    obtain x p where w: "pipewrite env pi addr (int n) s = pipewrite_loop env pr pi addr (int n) (int (length bs)) (?u p x)" "pipe_ok p"
        "pipe_contents p = pipe_contents (pipes s pi) @ bs" "e = All \<longrightarrow> length bs = n" "e \<noteq> All \<longrightarrow> length bs < n"
        "e = Fault \<longrightarrow> \<not> pipe_full p \<and> uaddr (mem s) ?t (addr + word_of_nat (length bs)) = None" using run [of env] by blast
    have "pipewrite_loop env pr pi addr (int n) (int (length bs)) (?u p x) =
        Ok (int (length bs), (?u p x)\<lparr>procs := map (woken (PipeReadChan pi)) (procs s), held := {}, noff := 0\<rparr>)"
      using that w(4-6) pipe_leave [OF inu [OF w(2)]] tu by (cases e; subst pipewrite_loop.simps) (simp_all add: copy_byte_one)
    then show ?thesis using w(1-3) by (simp add: post_def upd_pipe_def)
  qed
  show "kok (\<lambda>(r, t). r = -1 \<and> post t \<and> procs t = procs s) (pipewrite env pi addr (int n) s)" if "e = Full" "\<not> pi_readopen (pipes s pi) \<or> p_killed (proc pr s)"
  proof -
    note full = that(1)
    obtain x p where w: "pipewrite env pi addr (int n) s = pipewrite_loop env pr pi addr (int n) (int (length bs)) (?u p x)" "pipe_ok p"
        "pipe_contents p = pipe_contents (pipes s pi) @ bs" "pi_readopen p = pi_readopen (pipes s pi)" "length bs < n" "pipe_full p"
      using run [of env] full ne [OF full] by blast
    have "pipewrite_loop env pr pi addr (int n) (int (length bs)) (?u p x) = Ok (-1, (?u p x)\<lparr>held := {}, noff := 0\<rparr>)"
      using that w(4-6) pipe_leave [OF inu [OF w(2)]] by (subst pipewrite_loop.simps) auto
    then show ?thesis using w(1-3) by (simp add: post_def upd_pipe_def)
  qed
  show "pipewrite [] pi addr (int n) s = Block" if "e = Full" "pi_readopen (pipes s pi)" "\<not> p_killed (proc pr s)"
  proof -
    note full = that(1)
    obtain x p where w: "pipewrite [] pi addr (int n) s = pipewrite_loop [] pr pi addr (int n) (int (length bs)) (?u p x)" "pipe_ok p"
        "pi_readopen p = pi_readopen (pipes s pi)" "length bs < n" "pipe_full p"
      using run [of "[]"] full ne [OF full] by blast
    show ?thesis using that w pipe_leave [OF inu [OF w(2)]] pipe_sleep_block(2) [OF inu [OF w(2)], of "PipeWriteChan pi" "PipeReadChan pi"]
      by (subst w(1), subst pipewrite_loop.simps) simp
  qed
qed

lemma piperead_enter:
  assumes "pipe_caller pr pi s"
  shows "piperead env pi addr n s = kbind (piperead_wait env pr pi (pipe_enter pi s)) (\<lambda>(r, s).
    case r of Some r \<Rightarrow> Ok (r, s)
    | None \<Rightarrow> kbind (piperead_copy pr pi addr n 0 s) (\<lambda>(i, s).
        kbind (wake_up (PipeWriteChan pi) s) (\<lambda>s. kbind (release (PipeLock pi) s) (\<lambda>s. Ok (i, s)))))"
  using assms by (simp add: piperead_def pipe_caller_def lock_simps)

text \<open>A read that does not have to wait, with the state it leaves.\<close>

lemma piperead_run:
  assumes call: "pipe_caller pr pi s" and dst: "user_dst (mem s) (p_pgtable (proc pr s)) (kobj s) addr n"
    and ne: "\<not> (pipe_contents (pipes s pi) = [] \<and> pi_writeopen (pipes s pi))"
    and d: "drain (pipe_contents (pipes s pi)) (map (\<lambda>j. uaddr (mem s) (p_pgtable (proc pr s)) (addr + word_of_nat j) \<noteq> None) [0..<n]) = (ds, rest)"
  shows "\<exists>m' p. piperead env pi addr (int n) s = Ok (int (length ds), (upd_pipe pi (\<lambda>_. p) (s\<lparr>mem := m'\<rparr>))\<lparr>procs := map (woken (PipeWriteChan pi)) (procs s)\<rparr>) \<and>
    pipe_ok p \<and> pipe_contents p = rest \<and> pi_readopen p = pi_readopen (pipes s pi) \<and>
    (\<forall>j < length ds. user_byte m' (p_pgtable (proc pr s)) (addr + word_of_nat j) = Some (ds ! j)) \<and>
    (\<forall>x. x \<noteq> kobj s \<and> x \<notin> uset (mem s) (p_pgtable (proc pr s)) addr n \<longrightarrow> m' x = mem s x)"
proof -
  let ?s = "pipe_enter pi s" and ?t = "p_pgtable (proc pr s)"
  note ins = pipe_enter_inside [OF call]
  have ok: "pipe_ok (pipes s pi)" using call by (simp add: pipe_caller_def)
  have w: "piperead_wait env pr pi ?s = Ok (None, ?s)" using ne pq.empty_iff [OF ok] by (auto simp: piperead_wait.simps)
  obtain m' p where r: "piperead_copy pr pi addr (int n) 0 ?s = Ok (int (length ds), upd_pipe pi (\<lambda>_. p) (?s\<lparr>mem := m'\<rparr>))" "pipe_ok p" "pipe_contents p = rest"
      "pi_readopen p = pi_readopen (pipes s pi)" "\<forall>j < length ds. user_byte m' ?t (addr + word_of_nat j) = Some (ds ! j)"
      "\<forall>x. x \<noteq> kobj s \<and> (\<forall>j. j < length ds \<longrightarrow> uaddr (mem s) ?t (addr + word_of_nat j) \<noteq> Some x) \<longrightarrow> m' x = mem s x"
    using piperead_drain [of ?s pi pr addr 0 n ds rest] d ok dst by auto
  let ?u = "upd_pipe pi (\<lambda>_. p) (?s\<lparr>mem := m'\<rparr>)"
  have inu: "pipe_inside pr pi ?u" using ins r(2) by (simp add: pipe_inside_def my_proc_def upd_pipe_def)
  have "piperead env pi addr (int n) s = Ok (int (length ds), ?u\<lparr>procs := map (woken (PipeWriteChan pi)) (procs s), held := {}, noff := 0\<rparr>)"
    using w r(1) pipe_leave [OF inu] by (simp add: piperead_enter [OF call])
  moreover have "?u\<lparr>procs := ps, held := {}, noff := 0\<rparr> = (upd_pipe pi (\<lambda>_. p) (s\<lparr>mem := m'\<rparr>))\<lparr>procs := ps\<rparr>" for ps
    using call by (simp add: upd_pipe_def pipe_caller_def)
  moreover have "m' x = mem s x" if "x \<noteq> kobj s" "x \<notin> uset (mem s) ?t addr n" for x
    using r(6) that drain_length [OF d] unfolding uset_def by fastforce
  ultimately show ?thesis using r by (intro exI [of _ m'] exI [of _ p]) simp
qed

lemma piperead_cases:
  assumes call: "pipe_caller pr pi s" and dst: "user_dst (mem s) (p_pgtable (proc pr s)) (kobj s) addr n"
  defines "t0 \<equiv> p_pgtable (proc pr s)" and "c \<equiv> pipe_contents (pipes s pi)"
  shows "c = [] \<Longrightarrow> pi_writeopen (pipes s pi) \<Longrightarrow> p_killed (proc pr s) \<Longrightarrow> piperead env pi addr (int n) s = Ok (-1, s)"
    "c = [] \<Longrightarrow> pi_writeopen (pipes s pi) \<Longrightarrow> \<not> p_killed (proc pr s) \<Longrightarrow> piperead [] pi addr (int n) s = Block"
    "\<not> (c = [] \<and> pi_writeopen (pipes s pi)) \<Longrightarrow> drain c (map (\<lambda>j. uaddr (mem s) t0 (addr + word_of_nat j) \<noteq> None) [0..<n]) = (ds, rest) \<Longrightarrow>
      kok (\<lambda>(r, t). r = int (length ds) \<and> pipe_contents (pipes t pi) = rest \<and> pipe_ok (pipes t pi) \<and> held t = {} \<and>
         procs t = map (woken (PipeWriteChan pi)) (procs s) \<and>
         (\<forall>j < length ds. user_byte (mem t) t0 (addr + word_of_nat j) = Some (ds ! j)) \<and>
         (\<forall>x. x \<noteq> kobj s \<and> x \<notin> uset (mem s) t0 addr n \<longrightarrow> mem t x = mem s x)) (piperead env pi addr (int n) s)"
proof -
  let ?s = "pipe_enter pi s"
  note ins = pipe_enter_inside [OF call]
  have ok: "pipe_ok (pipes s pi)" using call by (simp add: pipe_caller_def)
  note emp = pq.empty_iff [OF ok, folded c_def]
  have leave: "?s\<lparr>held := {}, noff := 0\<rparr> = s" using call by (simp add: pipe_caller_def)
  show "piperead env pi addr (int n) s = Ok (-1, s)" if "c = []" "pi_writeopen (pipes s pi)" "p_killed (proc pr s)"
    using that emp pipe_leave(3) [OF ins] leave by (simp add: piperead_enter [OF call] piperead_wait.simps)
  show "piperead [] pi addr (int n) s = Block" if "c = []" "pi_writeopen (pipes s pi)" "\<not> p_killed (proc pr s)"
    using that emp by (simp add: piperead_enter [OF call] piperead_wait.simps pipe_sleep_block(1) [OF ins, of "PipeReadChan pi" NoChan])
  assume ne: "\<not> (c = [] \<and> pi_writeopen (pipes s pi))" and d: "drain c (map (\<lambda>j. uaddr (mem s) t0 (addr + word_of_nat j) \<noteq> None) [0..<n]) = (ds, rest)"
  have "pipe_ok p \<Longrightarrow> held ((upd_pipe pi (\<lambda>_. p) (s\<lparr>mem := m'\<rparr>))\<lparr>procs := ps\<rparr>) = {}" for p m' ps
    using call by (simp add: upd_pipe_def pipe_caller_def)
  then show "kok (\<lambda>(r, t). r = int (length ds) \<and> pipe_contents (pipes t pi) = rest \<and> pipe_ok (pipes t pi) \<and> held t = {} \<and>
         procs t = map (woken (PipeWriteChan pi)) (procs s) \<and>
         (\<forall>j < length ds. user_byte (mem t) t0 (addr + word_of_nat j) = Some (ds ! j)) \<and>
         (\<forall>x. x \<noteq> kobj s \<and> x \<notin> uset (mem s) t0 addr n \<longrightarrow> mem t x = mem s x)) (piperead env pi addr (int n) s)"
    using piperead_run [OF call dst, of ds rest env] ne d unfolding c_def t0_def by (auto simp: upd_pipe_def)
qed

text \<open>
  C28: a pipe is a byte stream through a bounded FIFO buffer. A write puts the accessible bytes of the
  user's buffer into the pipe in order until all are written, an address faults, or 512 bytes wait.
  In the first two cases it wakes the readers and returns how many it wrote; in the third it returns
  -1 if the reading end is closed or the process is killed and sleeps otherwise. A read of an empty
  pipe whose writing end is open sleeps, or returns -1 if the process is killed; any other read takes
  bytes from the front, leaves them in order in the user's buffer, touches no other byte of memory but
  its local variable, wakes the writers and returns how many it delivered. The counters may wrap.
\<close>

theorem pipe_fifo:
  assumes call: "pipe_caller pr pi s" and dst: "user_dst (mem s) (p_pgtable (proc pr s)) (kobj s) addr n"
  defines "c \<equiv> pipe_contents (pipes s pi)"
  shows "(case fill (PIPESIZE - length c) (user_bytes (mem s) (p_pgtable (proc pr s)) addr 0 n) of (bs, e) \<Rightarrow>
      if e = Full \<and> pi_readopen (pipes s pi) \<and> \<not> p_killed (proc pr s) then pipewrite [] pi addr (int n) s = Block
      else kok (\<lambda>(r, t). r = (if e = Full then -1 else int (length bs)) \<and> (pipe_contents (pipes t pi) = c @ bs \<and> pipe_ok (pipes t pi) \<and> held t = {} \<and> (\<forall>x. x \<noteq> kobj s \<longrightarrow> mem t x = mem s x)) \<and>
        procs t = (if e = Full then procs s else map (woken (PipeReadChan pi)) (procs s))) (pipewrite env pi addr (int n) s)) \<and>
    (if c = [] \<and> pi_writeopen (pipes s pi) then
       if p_killed (proc pr s) then piperead env pi addr (int n) s = Ok (-1, s) else piperead [] pi addr (int n) s = Block
     else case drain c (map (\<lambda>j. uaddr (mem s) (p_pgtable (proc pr s)) (addr + word_of_nat j) \<noteq> None) [0..<n]) of (ds, rest) \<Rightarrow>
       kok (\<lambda>(r, t). r = int (length ds) \<and> pipe_contents (pipes t pi) = rest \<and> pipe_ok (pipes t pi) \<and> held t = {} \<and>
         procs t = map (woken (PipeWriteChan pi)) (procs s) \<and>
         (\<forall>j < length ds. user_byte (mem t) (p_pgtable (proc pr s)) (addr + word_of_nat j) = Some (ds ! j)) \<and>
         (\<forall>x. x \<noteq> kobj s \<and> x \<notin> uset (mem s) (p_pgtable (proc pr s)) addr n \<longrightarrow> mem t x = mem s x)) (piperead env pi addr (int n) s))"
proof -
  obtain bs e where f: "fill (PIPESIZE - length c) (user_bytes (mem s) (p_pgtable (proc pr s)) addr 0 n) = (bs, e)" by fastforce
  obtain ds rest where d: "drain c (map (\<lambda>j. uaddr (mem s) (p_pgtable (proc pr s)) (addr + word_of_nat j) \<noteq> None) [0..<n]) = (ds, rest)" by fastforce
  have priv: "private_byte (mem s) (p_pgtable (proc pr s)) (kobj s) addr n" using dst by (simp add: user_dst_def)
  note W = pipewrite_cases [OF call priv, folded c_def, OF f] and R = piperead_cases [OF call dst, folded c_def]
  show ?thesis
    unfolding f d prod.case
  proof (intro conjI, goal_cases)
    case 1
    show ?case using W(1,2) [of env] W(3)
      by (cases "e = Full"; cases "pi_readopen (pipes s pi)"; cases "p_killed (proc pr s)") simp_all
    case 2
    show ?case using R(1) [of env] R(2) R(3) [OF _ d, of env]
      by (cases "c = []"; cases "pi_writeopen (pipes s pi)"; cases "p_killed (proc pr s)") simp_all
  qed
qed

text \<open>A process whose user memory is one page at \<open>0x1000\<close>, and a pipe with counters about to wrap.\<close>

definition pipe_example :: "mem \<Rightarrow> pipe_state" where
  "pipe_example m = fs_state.extend (fs_example\<lparr>mem := m, procs := (procs fs_example)[0 := (procs fs_example ! 0)\<lparr>p_pgtable := tiny_root\<rparr>], kobj := 0x80002000\<rparr>)
     (pipe_state.fields (\<lambda>_. \<lparr>pi_data = replicate PIPESIZE 7, pi_nread = -1, pi_nwrite = 1, pi_readopen = True, pi_writeopen = True\<rparr>))"

lemma pipe_example_caller:
  "pipe_caller 0 pi (pipe_example m)" "mem (pipe_example m) = m" "p_pgtable (proc 0 (pipe_example m)) = tiny_root" "kobj (pipe_example m) = 0x80002000"
  "pipe_contents (pipes (pipe_example m) pi) = [7, 7]" "pi_readopen (pipes (pipe_example m) pi)" "pi_writeopen (pipes (pipe_example m) pi)"
  "\<not> p_killed (proc 0 (pipe_example m))"
proof -
  note d = pipe_example_def fs_example_def log_example_def bio_example_def pgroup_state.defs bio_state.defs log_state.defs fs_state.defs pipe_state.defs
  have p: "pg_example = pg_example\<lparr>held := {}\<rparr>" "procs pg_example ! 0 = (procs pg_example ! 0)\<lparr>p_chain := NoChan, p_killed := False\<rparr>" "length (procs pg_example) = 64"
    by (simp_all add: pg_example_def)
  show "mem (pipe_example m) = m" "kobj (pipe_example m) = 0x80002000" by (simp_all add: d)
  show "p_pgtable (proc 0 (pipe_example m)) = tiny_root" "\<not> p_killed (proc 0 (pipe_example m))" by (simp_all add: d) (simp_all add: pg_example_def)
  have r: "pipe_ok (pipes (pipe_example m) pi)" by (simp add: d pipe_ok_def ring_ok_def)
  then show "pipe_caller 0 pi (pipe_example m)"
    using pg_example_ctx by (simp add: pipe_caller_def my_proc_def d) (simp add: pg_example_def)
  show "pipe_contents (pipes (pipe_example m) pi) = [7, 7]" by (simp add: d pipe_contents_def ring_contents_def upt_rec)
  show "pi_readopen (pipes (pipe_example m) pi)" "pi_writeopen (pipes (pipe_example m) pi)" by (simp_all add: d)
qed

lemma tiny_user_dst:
  "\<exists>m. user_dst m tiny_root 0x80002000 0x1000 16 \<and> (\<forall>j < 16. uaddr m tiny_root (0x1000 + word_of_nat j) = Some (0x80000000 + word_of_nat j))"
proof -
  obtain s :: vm_state where s: "table_wf (mem s) 2 tiny_root" "tables (mem s) 2 tiny_root \<subseteq> {tiny_root, 0x87ffe000, 0x87fff000}"
    "\<forall>j < 4096. uaddr (mem s) tiny_root (0x1000 + word_of_nat j) = Some (0x80000000 + word_of_nat j)"
    using tiny_user by blast
  note pre = tiny_copy_pre [OF s(2,1,3), of "0x80002000"]
  have "off_table (mem s) tiny_root {0x80002000}" using tiny_off_table [OF s(2), of "{0x80002000}"] by simp
  moreover have "0x80000000 + word_of_nat j \<noteq> (0x80002000 :: u64)" if "j < 16" for j
  proof -
    have "unat (0x80000000 + word_of_nat j :: u64) = 0x80000000 + j" using that by (subst unat_add_of_nat) simp_all
    then show ?thesis using that by auto
  qed
  ultimately have "user_dst (mem s) tiny_root 0x80002000 0x1000 16"
    using s pre by (auto simp: user_dst_def private_byte_def)
  then show ?thesis using s(3) by (intro exI [of _ "mem s"]) auto
qed

theorem pipe_fifo_witness:
  "\<exists>m. kok (\<lambda>(r, t). r = 2 \<and> pipe_contents (pipes t 0x87000000) = [] \<and> user_byte (mem t) tiny_root 0x1001 = Some 7) (piperead [] 0x87000000 0x1000 16 (pipe_example m)) \<and>
     kok (\<lambda>(r, t). r = 16 \<and> length (pipe_contents (pipes t 0x87000000)) = 18) (pipewrite [] 0x87000000 0x1000 16 (pipe_example m))"
proof -
  obtain m where m: "user_dst m tiny_root 0x80002000 0x1000 16" "\<forall>j < 16. uaddr m tiny_root (0x1000 + word_of_nat j) = Some (0x80000000 + word_of_nat j)"
    using tiny_user_dst by blast
  let ?s = "pipe_example m" and ?pi = "0x87000000 :: u64"
  note E = pipe_example_caller [where m = m]
  have f: "map (\<lambda>j. uaddr m tiny_root (0x1000 + word_of_nat j) \<noteq> None) [0..<16] = replicate 16 True"
    using m(2) by (intro nth_equalityI) simp_all
  have "user_bytes m tiny_root 0x1000 0 16 = map Some (map (\<lambda>j. m (0x80000000 + word_of_nat j)) [0..<16])"
    using m(2) by (simp add: user_bytes_def user_byte_def del: upt_rec_numeral)
  then have w: "fill 510 (user_bytes m tiny_root 0x1000 0 16) = (map (\<lambda>j. m (0x80000000 + word_of_nat j)) [0..<16], All)"
    by (simp only: fill_Some) (simp del: upt_rec_numeral)
  have dst: "user_dst (mem ?s) (p_pgtable (proc 0 ?s)) (kobj ?s) 0x1000 16" using m(1) E(2-4) by simp
  have d: "drain [7, 7] (replicate 16 True) = ([7, 7], [] :: u8 list)" by (simp add: numeral_eq_Suc)
  have n: "int 16 = 16" "PIPESIZE - length [7, 7 :: u8] = 510" by simp_all
  have P: "kok (\<lambda>(r, t). r = int 16 \<and> (pipe_contents (pipes t ?pi) = [7, 7] @ map (\<lambda>j. m (0x80000000 + word_of_nat j)) [0..<16] \<and> pipe_ok (pipes t ?pi) \<and> held t = {} \<and> (\<forall>x. x \<noteq> kobj ?s \<longrightarrow> mem t x = m x)) \<and>
        procs t = map (woken (PipeReadChan ?pi)) (procs ?s)) (pipewrite [] ?pi 0x1000 (int 16) ?s)"
    "kok (\<lambda>(r, t). r = int 2 \<and> pipe_contents (pipes t ?pi) = [] \<and> pipe_ok (pipes t ?pi) \<and> held t = {} \<and>
         procs t = map (woken (PipeWriteChan ?pi)) (procs ?s) \<and>
         (\<forall>j < 2. user_byte (mem t) tiny_root (0x1000 + word_of_nat j) = Some ([7, 7] ! j)) \<and>
         (\<forall>x. x \<noteq> kobj ?s \<and> x \<notin> uset m tiny_root 0x1000 16 \<longrightarrow> mem t x = m x)) (piperead [] ?pi 0x1000 (int 16) ?s)"
    using pipe_fifo [where pi = ?pi and env = "[]", OF E(1) dst, unfolded E(2,3,5) n(2) w f d] by (simp_all add: numeral_2_eq_2 del: upt_rec_numeral)
  have "kok (\<lambda>(r, t). r = 2 \<and> pipe_contents (pipes t ?pi) = [] \<and> user_byte (mem t) tiny_root 0x1001 = Some 7) (piperead [] ?pi 0x1000 16 ?s)"
    using P(2) unfolding n by (rule kok_mono) (auto simp: numeral_2_eq_2 dest: spec [of _ 1])
  moreover have "kok (\<lambda>(r, t). r = 16 \<and> length (pipe_contents (pipes t ?pi)) = 18) (pipewrite [] ?pi 0x1000 16 ?s)"
    using P(1) unfolding n by (rule kok_mono) auto
  ultimately show ?thesis by blast
qed

section \<open>A writer with readers\<close>

text \<open>
  Everything \<open>pipewrite\<close> does to the state between two context switches: it changes locks, its local
  variable, the pipe, its own status and wakes readers. A condition \<open>J\<close> on the rest of the system is
  kept by the writer when none of this affects it.
\<close>

definition writer_step :: "nat \<Rightarrow> u64 \<Rightarrow> 'a pipe_state_scheme \<Rightarrow> 'a pipe_state_scheme \<Rightarrow> bool" where
  "writer_step pr pi s t \<longleftrightarrow> (\<exists>h k x p ps. t = s\<lparr>held := h, noff := k, mem := (mem s)(kobj s := x), procs := ps, pipes := (pipes s)(pi := p)\<rparr> \<and>
     length ps = length (procs s) \<and> unslept (ps ! pr) = unslept (proc pr s) \<and>
     (\<forall>q < length ps. q \<noteq> pr \<longrightarrow> ps ! q = proc q s \<or> ps ! q = woken (PipeReadChan pi) (proc q s)))"

definition kept_by_writer :: "nat \<Rightarrow> u64 \<Rightarrow> ('a pipe_state_scheme \<Rightarrow> bool) \<Rightarrow> bool" where
  "kept_by_writer pr pi J \<longleftrightarrow> (\<forall>s t. writer_step pr pi s t \<and> J s \<longrightarrow> J t)"

text \<open>
  What a writer relies on while it sleeps on a full pipe. The history of the readers, \<open>got\<close>, is the
  sequence of bytes they have received so far; it is kept in the extension of the state, which no
  function of the kernel touches. When the writer runs again the readers have taken bytes from the
  front of the pipe, at least one, and have received exactly these; the writer's process, its locks,
  the bytes of its buffer and the translation of its addresses are as they were.
\<close>

definition serves ::
  "nat \<Rightarrow> u64 \<Rightarrow> u64 \<Rightarrow> nat \<Rightarrow> ('a pipe_state_scheme \<Rightarrow> bool) \<Rightarrow> ('a \<Rightarrow> u8 list) \<Rightarrow> ('a pipe_state_scheme \<Rightarrow> 'a pipe_state_scheme kres) \<Rightarrow> bool" where
  "serves pr pi addr n J got sw \<longleftrightarrow>
     (\<forall>s. J s \<and> my_proc s = Some pr \<and> pr < STATIC_PROC_NUM \<and> length (procs s) = STATIC_PROC_NUM \<and> held s = {ProcLock pr} \<and> noff s = 1 \<and>
        p_status (proc pr s) = SLEEP \<and> p_chain (proc pr s) = PipeWriteChan pi \<and> pipe_full (pipes s pi) \<and> pipe_ok (pipes s pi) \<and>
        private_byte (mem s) (p_pgtable (proc pr s)) (kobj s) addr n \<longrightarrow>
        kok (\<lambda>t. J t \<and> my_proc t = my_proc s \<and> held t = held s \<and> noff t = noff s \<and> length (procs t) = length (procs s) \<and>
          proc pr t = (proc pr s)\<lparr>p_status := RUNNING, p_chain := NoChan\<rparr> \<and>
          private_byte (mem t) (p_pgtable (proc pr s)) (kobj t) addr n \<and>
          user_bytes (mem t) (p_pgtable (proc pr s)) addr 0 n = user_bytes (mem s) (p_pgtable (proc pr s)) addr 0 n \<and>
          pipe_ok (pipes t pi) \<and> pi_readopen (pipes t pi) = pi_readopen (pipes s pi) \<and>
          length (pipe_contents (pipes t pi)) < length (pipe_contents (pipes s pi)) \<and>
          got (pipe_state.more t) @ pipe_contents (pipes t pi) = got (pipe_state.more s) @ pipe_contents (pipes s pi)) (sw s))"

lemma writer_step_locks: "writer_step pr pi s (s\<lparr>held := h, noff := k\<rparr>)"
  unfolding writer_step_def
  by (rule exI [of _ h], rule exI [of _ k], rule exI [of _ "mem s (kobj s)"], rule exI [of _ "pipes s pi"], rule exI [of _ "procs s"]) simp

lemma writer_step_put: "writer_step pr pi s (upd_pipe pi (\<lambda>_. p) (s\<lparr>mem := (mem s)(kobj s := x)\<rparr>))"
  unfolding writer_step_def upd_pipe_def
  by (rule exI [of _ "held s"], rule exI [of _ "noff s"], rule exI [of _ x], rule exI [of _ p], rule exI [of _ "procs s"]) simp

lemma writer_step_sleep:
  assumes "pr < length (procs s)" "p_chain (proc pr s) = NoChan"
  shows "writer_step pr pi s (upd_proc pr (\<lambda>q. q\<lparr>p_status := SLEEP, p_chain := PipeWriteChan pi\<rparr>)
    (s\<lparr>procs := map (woken (PipeReadChan pi)) (procs s), held := h, noff := k\<rparr>))"
  unfolding writer_step_def upd_proc_def using assms
  by (intro exI [of _ h] exI [of _ k] exI [of _ "mem s (kobj s)"] exI [of _ "pipes s pi"]
      exI [of _ "(map (woken (PipeReadChan pi)) (procs s))[pr := (woken (PipeReadChan pi) (proc pr s))\<lparr>p_status := SLEEP, p_chain := PipeWriteChan pi\<rparr>]"])
    (simp add: unslept_def woken_other)

text \<open>The writer sleeps once, and the readers take bytes.\<close>

lemma pipe_sleep_served:
  assumes ins: "pipe_inside pr pi s" and full: "pipe_full (pipes s pi)" and J: "J s" "kept_by_writer pr pi J"
    and priv: "private_byte (mem s) (p_pgtable (proc pr s)) (kobj s) addr n" and sv: "serves pr pi addr n J got sw"
  shows "\<exists>t. sleep sw (PipeLock pi) (PipeWriteChan pi) (s\<lparr>procs := map (woken (PipeReadChan pi)) (procs s)\<rparr>) = Ok t \<and>
    pipe_inside pr pi t \<and> J t \<and> p_pgtable (proc pr t) = p_pgtable (proc pr s) \<and> p_killed (proc pr t) = p_killed (proc pr s) \<and>
    private_byte (mem t) (p_pgtable (proc pr s)) (kobj t) addr n \<and>
    user_bytes (mem t) (p_pgtable (proc pr s)) addr 0 n = user_bytes (mem s) (p_pgtable (proc pr s)) addr 0 n \<and>
    pi_readopen (pipes t pi) = pi_readopen (pipes s pi) \<and> length (pipe_contents (pipes t pi)) < length (pipe_contents (pipes s pi)) \<and>
    got (pipe_state.more t) @ pipe_contents (pipes t pi) = got (pipe_state.more s) @ pipe_contents (pipes s pi)"
proof -
  let ?w = "s\<lparr>procs := map (woken (PipeReadChan pi)) (procs s)\<rparr>"
  let ?z = "upd_proc pr (\<lambda>q. q\<lparr>p_status := SLEEP, p_chain := PipeWriteChan pi\<rparr>) (?w\<lparr>held := {ProcLock pr}, noff := 1\<rparr>)"
  have i: "my_proc s = Some pr" "pr < 64" "length (procs s) = 64" "held s = {PipeLock pi}" "noff s = 1" "p_chain (proc pr s) = NoChan" "pipe_ok (pipes s pi)"
    using ins by (simp_all add: pipe_inside_def)
  have pw: "proc pr ?w = proc pr s" using i by (simp add: woken_other)
  have z: "proc pr ?z = (proc pr s)\<lparr>p_status := SLEEP, p_chain := PipeWriteChan pi\<rparr>" "pipes ?z = pipes s" "length (procs ?z) = 64"
      "my_proc ?z = Some pr" "held ?z = {ProcLock pr}" "noff ?z = 1" "mem ?z = mem s" "kobj ?z = kobj s" "pipe_state.more ?z = pipe_state.more s"
    using i pw by (simp_all add: proc_upd_proc) (simp_all add: upd_proc_def my_proc_def)
  have "writer_step pr pi s ?z" by (rule writer_step_sleep) (use i in simp_all)
  then have "J ?z" using J unfolding kept_by_writer_def by blast
  then have "kok (\<lambda>t. J t \<and> my_proc t = my_proc ?z \<and> held t = held ?z \<and> noff t = noff ?z \<and> length (procs t) = length (procs ?z) \<and>
          proc pr t = (proc pr ?z)\<lparr>p_status := RUNNING, p_chain := NoChan\<rparr> \<and>
          private_byte (mem t) (p_pgtable (proc pr ?z)) (kobj t) addr n \<and>
          user_bytes (mem t) (p_pgtable (proc pr ?z)) addr 0 n = user_bytes (mem ?z) (p_pgtable (proc pr ?z)) addr 0 n \<and>
          pipe_ok (pipes t pi) \<and> pi_readopen (pipes t pi) = pi_readopen (pipes ?z pi) \<and>
          length (pipe_contents (pipes t pi)) < length (pipe_contents (pipes ?z pi)) \<and>
          got (pipe_state.more t) @ pipe_contents (pipes t pi) = got (pipe_state.more ?z) @ pipe_contents (pipes ?z pi)) (sw ?z)"
    using sv [unfolded serves_def, THEN spec, of ?z] full i(2,7) z priv by simp
  then obtain t where t: "sw ?z = Ok t" "my_proc t = Some pr" "held t = {ProcLock pr}" "noff t = 1" "length (procs t) = 64"
      "proc pr t = (proc pr s)\<lparr>p_status := RUNNING, p_chain := NoChan\<rparr>" "pipe_ok (pipes t pi)" and J': "J t" and
    r: "private_byte (mem t) (p_pgtable (proc pr s)) (kobj t) addr n"
      "user_bytes (mem t) (p_pgtable (proc pr s)) addr 0 n = user_bytes (mem s) (p_pgtable (proc pr s)) addr 0 n"
      "pi_readopen (pipes t pi) = pi_readopen (pipes s pi)" "length (pipe_contents (pipes t pi)) < length (pipe_contents (pipes s pi))"
      "got (pipe_state.more t) @ pipe_contents (pipes t pi) = got (pipe_state.more s) @ pipe_contents (pipes s pi)"
    unfolding z by (auto elim!: kokE)
  let ?t = "t\<lparr>held := {PipeLock pi}, noff := 1\<rparr>"
  have "my_proc ?w = Some pr" "p_chain (proc pr ?w) = NoChan" "held ?w = {PipeLock pi}" "noff ?w = 1" using i pw by (simp_all add: my_proc_def)
  then have "sleep sw (PipeLock pi) (PipeWriteChan pi) ?w = Ok ?t" by (rule sleep_through) (use t(1,3,4) in simp_all)
  moreover have "pipe_inside pr pi ?t" using t i(2) by (simp add: pipe_inside_def my_proc_def)
  moreover have "J ?t" using J' J(2) writer_step_locks [of pr pi t] unfolding kept_by_writer_def by blast
  ultimately show ?thesis using t(6) r by (intro exI [of _ ?t]) simp
qed

lemma user_bytes_drop: "user_bytes m t addr k n = drop k (user_bytes m t addr 0 n)"
  by (simp add: user_bytes_def drop_map)

lemma pipewrite_fill_map:
  assumes ins: "pipe_inside pr pi s" and priv: "private_byte (mem s) (p_pgtable (proc pr s)) (kobj s) addr n" and i: "i \<le> n"
    and xs: "user_bytes (mem s) (p_pgtable (proc pr s)) addr i n = map Some xs"
  defines "r \<equiv> PIPESIZE - length (pipe_contents (pipes s pi))"
  shows "\<exists>u. pipewrite_loop env pr pi addr (int n) (int i) s = pipewrite_loop env pr pi addr (int n) (int (i + min r (length xs))) u \<and>
    pipe_inside pr pi u \<and> private_byte (mem u) (p_pgtable (proc pr u)) (kobj u) addr n \<and> proc pr u = proc pr s \<and> pi_readopen (pipes u pi) = pi_readopen (pipes s pi) \<and>
    user_bytes (mem u) (p_pgtable (proc pr u)) addr (i + min r (length xs)) n = map Some (drop r xs) \<and>
    pipe_contents (pipes u pi) = pipe_contents (pipes s pi) @ take r xs \<and> (r < length xs \<longrightarrow> pipe_full (pipes u pi)) \<and>
    writer_step pr pi s u \<and> pipe_state.more u = pipe_state.more s"
proof -
  let ?t = "p_pgtable (proc pr s)"
  have f: "fill r (user_bytes (mem s) ?t addr i n) = (take r xs, if length xs \<le> r then All else Full)" unfolding xs by (rule fill_Some)
  have ok: "pipe_ok (pipes s pi)" using ins by (simp add: pipe_inside_def)
  obtain x p where w: "pipewrite_loop env pr pi addr (int n) (int i) s =
      pipewrite_loop env pr pi addr (int n) (int (i + length (take r xs))) (upd_pipe pi (\<lambda>_. p) (s\<lparr>mem := (mem s)(kobj s := x)\<rparr>))"
      "pipe_ok p" "pipe_contents p = pipe_contents (pipes s pi) @ take r xs" "pi_readopen p = pi_readopen (pipes s pi)"
      "(if length xs \<le> r then All else Full) = Full \<longrightarrow> pipe_full p"
    using pipewrite_fill [OF f [unfolded r_def] ok priv i, of env] unfolding r_def by blast
  let ?u = "upd_pipe pi (\<lambda>_. p) (s\<lparr>mem := (mem s)(kobj s := x)\<rparr>)"
  have u: "proc pr ?u = proc pr s" "mem ?u = (mem s)(kobj s := x)" "kobj ?u = kobj s" "pipes ?u pi = p" "pipe_state.more ?u = pipe_state.more s"
    by (simp_all add: upd_pipe_def)
  have "user_bytes (mem s) ?t addr (i + min r (length xs)) n = drop (min r (length xs)) (user_bytes (mem s) ?t addr i n)"
    by (simp add: user_bytes_def drop_map)
  also have "\<dots> = map Some (drop r xs)" unfolding xs by (simp add: drop_map min_def)
  finally have "user_bytes (mem ?u) ?t addr (i + min r (length xs)) n = map Some (drop r xs)" using private_byte_upd(2) [OF priv] u(2) by simp
  moreover have "pipe_inside pr pi ?u" using ins w(2) by (simp add: pipe_inside_def my_proc_def upd_pipe_def)
  ultimately show ?thesis
    using w private_byte_upd(1) [OF priv, of x] u writer_step_put [of pr pi s p x] by (intro exI [of _ ?u]) (simp add: min.commute)
qed

text \<open>The result of a write whose bytes \<open>xs\<close> from position \<open>i\<close> on are still to be written.\<close>

definition written :: "nat \<Rightarrow> u64 \<Rightarrow> ('a \<Rightarrow> u8 list) \<Rightarrow> u8 list \<Rightarrow> 'a pipe_state_scheme \<Rightarrow> int \<times> 'a pipe_state_scheme \<Rightarrow> bool" where
  "written n pi got xs s = (\<lambda>(r, t). r = int n \<and> held t = {} \<and> pipe_ok (pipes t pi) \<and>
     got (pipe_state.more t) @ pipe_contents (pipes t pi) = got (pipe_state.more s) @ pipe_contents (pipes s pi) @ xs)"

lemma pipewrite_all:
  assumes "pipe_inside pr pi s" "private_byte (mem s) (p_pgtable (proc pr s)) (kobj s) addr n" "i \<le> n"
    "user_bytes (mem s) (p_pgtable (proc pr s)) addr i n = map Some xs" "length xs \<le> PIPESIZE - length (pipe_contents (pipes s pi))"
  shows "kok (written n pi got xs s) (pipewrite_loop env pr pi addr (int n) (int i) s)"
proof -
  have "length xs = n - i" using arg_cong [OF assms(4), of length] by (simp add: user_bytes_def)
  then have l: "i + min (PIPESIZE - length (pipe_contents (pipes s pi))) (length xs) = n" "take (PIPESIZE - length (pipe_contents (pipes s pi))) xs = xs"
    using assms(3,5) by (simp_all add: min_def)
  obtain u where u: "pipewrite_loop env pr pi addr (int n) (int i) s = pipewrite_loop env pr pi addr (int n) (int n) u"
      "pipe_inside pr pi u" "pipe_contents (pipes u pi) = pipe_contents (pipes s pi) @ xs" "pipe_state.more u = pipe_state.more s"
    using pipewrite_fill_map [OF assms(1-4), of env] unfolding l by blast
  have "pipe_ok (pipes u pi)" using u(2) by (simp add: pipe_inside_def)
  moreover have "pipewrite_loop env pr pi addr (int n) (int n) u = Ok (int n, u\<lparr>procs := map (woken (PipeReadChan pi)) (procs u), held := {}, noff := 0\<rparr>)"
    using pipe_leave [OF u(2)] by (subst pipewrite_loop.simps) simp
  ultimately show ?thesis using u(1,3,4) by (simp add: written_def)
qed

lemma pipewrite_served:
  assumes "pipe_inside pr pi s" "private_byte (mem s) (p_pgtable (proc pr s)) (kobj s) addr n" "i \<le> n"
    "user_bytes (mem s) (p_pgtable (proc pr s)) addr i n = map Some xs" "pi_readopen (pipes s pi)" "\<not> p_killed (proc pr s)" "J s" "kept_by_writer pr pi J"
    "\<forall>sw \<in> set env. serves pr pi addr n J got sw" "n - i \<le> length env + (PIPESIZE - length (pipe_contents (pipes s pi)))"
  shows "kok (written n pi got xs s) (pipewrite_loop env pr pi addr (int n) (int i) s)"
  using assms
proof (induction env arbitrary: i s xs)
  case (Nil i s xs)
  have "length xs = n - i" using arg_cong [OF Nil.prems(4), of length] by (simp add: user_bytes_def)
  then have "length xs \<le> PIPESIZE - length (pipe_contents (pipes s pi))" using Nil.prems(10) by simp
  then show ?case by (rule pipewrite_all [OF Nil.prems(1-4)])
next
  case (Cons sw env i s xs)
  let ?r = "PIPESIZE - length (pipe_contents (pipes s pi))"
  have len: "length xs = n - i" using arg_cong [OF Cons.prems(4), of length] by (simp add: user_bytes_def)
  show ?case
  proof (cases "length xs \<le> ?r")
    case True
    then show ?thesis by (rule pipewrite_all [OF Cons.prems(1-4)])
  next
    case False
    then have r: "min ?r (length xs) = ?r" "?r < length xs" by simp_all
    obtain u where u: "pipewrite_loop (sw # env) pr pi addr (int n) (int i) s = pipewrite_loop (sw # env) pr pi addr (int n) (int (i + ?r)) u"
        "pipe_inside pr pi u" "private_byte (mem u) (p_pgtable (proc pr u)) (kobj u) addr n" "proc pr u = proc pr s" "pi_readopen (pipes u pi)"
        "user_bytes (mem u) (p_pgtable (proc pr u)) addr (i + ?r) n = map Some (drop ?r xs)" "pipe_contents (pipes u pi) = pipe_contents (pipes s pi) @ take ?r xs" "pipe_full (pipes u pi)"
        "writer_step pr pi s u" "pipe_state.more u = pipe_state.more s"
      using pipewrite_fill_map [OF Cons.prems(1-4), of "sw # env"] r Cons.prems(5) unfolding r(1) by blast
    have Ju: "J u" using u(9) Cons.prems(7,8) unfolding kept_by_writer_def by blast
    have sv: "serves pr pi addr n J got sw" using Cons.prems(9) by simp
    obtain t where t: "sleep sw (PipeLock pi) (PipeWriteChan pi) (u\<lparr>procs := map (woken (PipeReadChan pi)) (procs u)\<rparr>) = Ok t" "pipe_inside pr pi t" "J t"
        "p_pgtable (proc pr t) = p_pgtable (proc pr u)" "p_killed (proc pr t) = p_killed (proc pr u)" "private_byte (mem t) (p_pgtable (proc pr u)) (kobj t) addr n"
        "user_bytes (mem t) (p_pgtable (proc pr u)) addr 0 n = user_bytes (mem u) (p_pgtable (proc pr u)) addr 0 n"
        "pi_readopen (pipes t pi) = pi_readopen (pipes u pi)" "length (pipe_contents (pipes t pi)) < length (pipe_contents (pipes u pi))"
        "got (pipe_state.more t) @ pipe_contents (pipes t pi) = got (pipe_state.more u) @ pipe_contents (pipes u pi)"
      using pipe_sleep_served [OF u(2,8) Ju Cons.prems(8) u(3) sv] by blast
    have lt: "int (i + ?r) < int n" using False len by linarith
    have nk: "\<not> p_killed (proc pr u)" using Cons.prems(6) u(4) by simp
    have step: "pipewrite_loop (sw # env) pr pi addr (int n) (int (i + ?r)) u = pipewrite_loop env pr pi addr (int n) (int (i + ?r)) t"
      using lt u(5,8) nk t(1) pipe_leave(1) [OF u(2), of "PipeReadChan pi"] by (subst pipewrite_loop.simps) simp
    have full: "length (pipe_contents (pipes u pi)) = PIPESIZE" using pq.full_iff u(2,8) by (auto simp: pipe_inside_def)
    have "user_bytes (mem t) (p_pgtable (proc pr t)) addr (i + ?r) n = drop (i + ?r) (user_bytes (mem u) (p_pgtable (proc pr u)) addr 0 n)"
      by (subst user_bytes_drop) (simp only: t(4,7))
    also have "\<dots> = user_bytes (mem u) (p_pgtable (proc pr u)) addr (i + ?r) n" by (rule user_bytes_drop [symmetric])
    finally have ub: "user_bytes (mem t) (p_pgtable (proc pr t)) addr (i + ?r) n = map Some (drop ?r xs)" using u(6) by (simp only:)
    have room: "n - (i + ?r) \<le> length env + (PIPESIZE - length (pipe_contents (pipes t pi)))"
    proof -
      have "n - i \<le> Suc (length env) + ?r" using Cons.prems(10) by simp
      then have "n - (i + ?r) \<le> Suc (length env)" by linarith
      moreover have "length (pipe_contents (pipes t pi)) < PIPESIZE" using t(9) full by simp
      ultimately show ?thesis by linarith
    qed
    have pre: "private_byte (mem t) (p_pgtable (proc pr t)) (kobj t) addr n" "pi_readopen (pipes t pi)" "\<not> p_killed (proc pr t)"
      using t(4-6,8) u(5) nk by simp_all
    have "i + ?r \<le> n" "\<forall>sw \<in> set env. serves pr pi addr n J got sw" using lt Cons.prems(9) by simp_all
    note pre = pre this
    have "kok (written n pi got (drop ?r xs) t) (pipewrite_loop env pr pi addr (int n) (int (i + ?r)) t)"
      by (rule Cons.IH [OF t(2) pre(1,4) ub pre(2,3) t(3) Cons.prems(8) pre(5) room])
    moreover have "got (pipe_state.more t) @ pipe_contents (pipes t pi) @ drop ?r xs = got (pipe_state.more s) @ pipe_contents (pipes s pi) @ xs"
    proof -
      have "(got (pipe_state.more t) @ pipe_contents (pipes t pi)) @ drop ?r xs = got (pipe_state.more s) @ (pipe_contents (pipes s pi) @ take ?r xs) @ drop ?r xs"
        unfolding t(10) u(7,10) by simp
      then show ?thesis by simp
    qed
    ultimately show ?thesis using u(1) step by (simp add: written_def)
  qed
qed

text \<open>
  C29: a write to a pipe completes when there are readers, and no byte is lost, repeated or reordered.
  If the user's buffer is accessible, the reading end is open, the process is not killed and the other
  processes take at least one byte whenever the writer sleeps, then \<open>pipewrite\<close> returns \<open>n\<close> after
  sleeping at most as often as there are bytes without room at the start. What the readers have
  received by then, followed by what is in the pipe, is what they had received before, followed by the
  old contents of the pipe and all the bytes written. The condition \<open>J\<close> stands for whatever else the
  readers rely on, for example that their own buffers are mapped.
\<close>

theorem pipewrite_completes:
  assumes "pipe_caller pr pi s" "private_byte (mem s) (p_pgtable (proc pr s)) (kobj s) addr n"
    "user_bytes (mem s) (p_pgtable (proc pr s)) addr 0 n = map Some xs" "pi_readopen (pipes s pi)" "\<not> p_killed (proc pr s)"
    "J s" "kept_by_writer pr pi J" "\<forall>sw \<in> set env. serves pr pi addr n J got sw" "n \<le> length env + (PIPESIZE - length (pipe_contents (pipes s pi)))"
  shows "kok (\<lambda>(r, t). r = int n \<and> held t = {} \<and> pipe_ok (pipes t pi) \<and>
      got (pipe_state.more t) @ pipe_contents (pipes t pi) = got (pipe_state.more s) @ pipe_contents (pipes s pi) @ xs)
    (pipewrite env pi addr (int n) s)"
proof -
  have "J (pipe_enter pi s)" using assms(6,7) writer_step_locks [of pr pi s] unfolding kept_by_writer_def by blast
  then have "kok (written n pi got xs (pipe_enter pi s)) (pipewrite_loop env pr pi addr (int n) (int 0) (pipe_enter pi s))"
    using pipe_enter_inside [OF assms(1)] assms(2-5,7-9) by (intro pipewrite_served) simp_all
  then show ?thesis by (simp add: pipewrite_enter [OF assms(1)] written_def)
qed

text \<open>
  Readers that serve: process \<open>rd\<close> calls \<open>piperead\<close> for \<open>k\<close> bytes at \<open>ra\<close> while the writer sleeps, and
  appends what arrived in its buffer to the history; then the CPU is switched back to the writer.
\<close>

definition read_turn :: "nat \<Rightarrow> nat \<Rightarrow> u64 \<Rightarrow> u64 \<Rightarrow> nat \<Rightarrow> u8 list pipe_state_scheme \<Rightarrow> u8 list pipe_state_scheme kres" where
  "read_turn pr rd pi ra k s =
     kbind (piperead [] pi ra (int k) (upd_cpu (me s) (\<lambda>c. c\<lparr>c_my_proc := Some rd\<rparr>) (s\<lparr>held := {}, noff := 0\<rparr>))) (\<lambda>(r, t).
     Ok (upd_proc pr (\<lambda>q. q\<lparr>p_status := RUNNING, p_chain := NoChan\<rparr>) (upd_cpu (me t) (\<lambda>c. c\<lparr>c_my_proc := Some pr\<rparr>)
       (pipe_state.more_update (\<lambda>l. l @ map (\<lambda>j. the (user_byte (mem t) (p_pgtable (proc rd t)) (ra + word_of_nat j))) [0..<nat r])
         (t\<lparr>held := {ProcLock pr}, noff := 1\<rparr>)))))"

text \<open>
  What the reader relies on: its buffer is mapped, outside the page tables and apart from the buffer of
  the writer, and it is not asleep.
\<close>

definition reader_ready :: "nat \<Rightarrow> u64 \<Rightarrow> nat \<Rightarrow> nat \<Rightarrow> u64 \<Rightarrow> nat \<Rightarrow> 'a pipe_state_scheme \<Rightarrow> bool" where
  "reader_ready pr addr n rd ra k s \<longleftrightarrow> rd \<noteq> pr \<and> rd < length (procs s) \<and> pr < length (procs s) \<and> me s < length (cpus s) \<and> p_chain (proc rd s) = NoChan \<and>
     user_dst (mem s) (p_pgtable (proc rd s)) (kobj s) ra k \<and> (\<forall>j < k. uaddr (mem s) (p_pgtable (proc rd s)) (ra + word_of_nat j) \<noteq> None) \<and>
     private_byte (mem s) (p_pgtable (proc pr s)) (kobj s) addr n \<and>
     off_table (mem s) (p_pgtable (proc pr s)) (uset (mem s) (p_pgtable (proc rd s)) ra k) \<and>
     (\<forall>j < n. \<forall>a. uaddr (mem s) (p_pgtable (proc pr s)) (addr + word_of_nat j) = Some a \<longrightarrow> a \<notin> uset (mem s) (p_pgtable (proc rd s)) ra k)"

text \<open>Changing only the local variable and the reader's buffer keeps all of it, and the writer's bytes.\<close>

lemma reader_ready_frame:
  assumes r: "reader_ready pr addr n rd ra k s"
    and m: "\<And>x. x \<noteq> kobj s \<Longrightarrow> x \<notin> uset (mem s) (p_pgtable (proc rd s)) ra k \<Longrightarrow> mem t x = mem s x"
    and t: "kobj t = kobj s" "length (procs t) = length (procs s)" "p_pgtable (proc pr t) = p_pgtable (proc pr s)"
      "p_pgtable (proc rd t) = p_pgtable (proc rd s)" "p_chain (proc rd t) = NoChan" "me t < length (cpus t)"
  shows "reader_ready pr addr n rd ra k t" "user_bytes (mem t) (p_pgtable (proc pr s)) addr 0 n = user_bytes (mem s) (p_pgtable (proc pr s)) addr 0 n"
    "uset (mem t) (p_pgtable (proc rd s)) ra k = uset (mem s) (p_pgtable (proc rd s)) ra k"
proof -
  let ?w = "p_pgtable (proc pr s)" and ?r = "p_pgtable (proc rd s)" and ?A = "insert (kobj s) (uset (mem s) (p_pgtable (proc rd s)) ra k)"
  have same: "x \<notin> ?A \<Longrightarrow> mem t x = mem s x" for x using m by simp
  have W: "private_byte (mem s) ?w (kobj s) addr n" "off_table (mem s) ?w ?A" and D: "user_dst (mem s) ?r (kobj s) ra k"
    and sep: "\<And>j a. j < n \<Longrightarrow> uaddr (mem s) ?w (addr + word_of_nat j) = Some a \<Longrightarrow> a \<notin> uset (mem s) ?r ra k"
    using r by (auto simp: reader_ready_def private_byte_def off_table_def)
  have R: "off_table (mem s) ?r ?A" using D by (auto simp: user_dst_def private_byte_def off_table_def)
  have fw: "table_wf (mem t) 2 ?w \<and> tables (mem t) 2 ?w = tables (mem s) 2 ?w \<and> uaddr (mem t) ?w = uaddr (mem s) ?w"
    using W by (intro off_table_frame [of "mem s" ?w ?A] same) (auto simp: private_byte_def)
  have fr: "table_wf (mem t) 2 ?r \<and> tables (mem t) 2 ?r = tables (mem s) 2 ?r \<and> uaddr (mem t) ?r = uaddr (mem s) ?r"
    using D R by (intro off_table_frame [of "mem s" ?r ?A] same) (auto simp: user_dst_def private_byte_def)
  show u: "uset (mem t) ?r ra k = uset (mem s) ?r ra k" using fr by (simp add: uset_def)
  have "user_dst (mem t) ?r (kobj s) ra k" using D fr u unfolding user_dst_def private_byte_def off_table_def uinj_def by simp
  moreover have "private_byte (mem t) ?w (kobj s) addr n" using W(1) fw unfolding private_byte_def off_table_def by simp
  moreover have "off_table (mem t) ?w (uset (mem t) ?r ra k)" using W(2) fw u by (simp add: off_table_def)
  ultimately show "reader_ready pr addr n rd ra k t" using r t fw fr u unfolding reader_ready_def by simp
  have "user_byte (mem t) ?w (addr + word_of_nat j) = user_byte (mem s) ?w (addr + word_of_nat j)" if "j < n" for j
  proof (cases "uaddr (mem s) ?w (addr + word_of_nat j)")
    case (Some a)
    then have "a \<notin> ?A" using sep [OF that] W(1) that by (auto simp: private_byte_def)
    then show ?thesis using Some fw same by (simp add: user_byte_def)
  qed (simp add: user_byte_def fw)
  then show "user_bytes (mem t) ?w addr 0 n = user_bytes (mem s) ?w addr 0 n" by (simp add: user_bytes_def)
qed

lemma unslept_pgtable: "unslept p = unslept q \<Longrightarrow> p_pgtable p = p_pgtable q"
  unfolding unslept_def by (metis process.select_convs(11) process.surjective process.update_convs(2,5))

lemma reader_ready_kept: "kept_by_writer pr pi (reader_ready pr addr n rd ra k)"
  unfolding kept_by_writer_def
proof (intro allI impI)
  fix s t :: "'a pipe_state_scheme"
  assume a: "writer_step pr pi s t \<and> reader_ready pr addr n rd ra k s"
  then obtain h l x p ps where t: "t = s\<lparr>held := h, noff := l, mem := (mem s)(kobj s := x), procs := ps, pipes := (pipes s)(pi := p)\<rparr>"
      "length ps = length (procs s)" "unslept (ps ! pr) = unslept (proc pr s)"
      "\<forall>q < length ps. q \<noteq> pr \<longrightarrow> ps ! q = proc q s \<or> ps ! q = woken (PipeReadChan pi) (proc q s)"
    unfolding writer_step_def by blast
  have r: "rd \<noteq> pr" "rd < length (procs s)" "p_chain (proc rd s) = NoChan" "me s < length (cpus s)" using a by (simp_all add: reader_ready_def)
  have p: "ps ! rd = proc rd s" using t(2,4) r by (auto simp: woken_other)
  show "reader_ready pr addr n rd ra k t"
    by (rule reader_ready_frame(1) [OF conjunct2 [OF a]]) (use t(1,2) unslept_pgtable [OF t(3)] p r in simp_all)
qed

lemma drain_all: "drain c (replicate k True) = (take k c, drop k c)"
proof (induction k arbitrary: c)
  case (Suc k)
  then show ?case by (cases c) simp_all
qed simp

lemma read_turn_serves:
  assumes k: "0 < k" "k \<le> PIPESIZE"
  shows "serves pr pi addr n (reader_ready pr addr n rd ra k) (\<lambda>l. l) (read_turn pr rd pi ra k)"
  unfolding serves_def
proof (intro allI impI)
  fix s :: "u8 list pipe_state_scheme"
  assume a: "reader_ready pr addr n rd ra k s \<and> my_proc s = Some pr \<and> pr < STATIC_PROC_NUM \<and> length (procs s) = STATIC_PROC_NUM \<and> held s = {ProcLock pr} \<and> noff s = 1 \<and>
        p_status (proc pr s) = SLEEP \<and> p_chain (proc pr s) = PipeWriteChan pi \<and> pipe_full (pipes s pi) \<and> pipe_ok (pipes s pi) \<and>
        private_byte (mem s) (p_pgtable (proc pr s)) (kobj s) addr n"
  let ?c = "pipe_contents (pipes s pi)" and ?rt = "p_pgtable (proc rd s)"
  let ?s = "upd_cpu (me s) (\<lambda>c. c\<lparr>c_my_proc := Some rd\<rparr>) (s\<lparr>held := {}, noff := 0\<rparr>)"
  have R: "reader_ready pr addr n rd ra k s" using a by blast
  have r: "rd \<noteq> pr" "rd < length (procs s)" "p_chain (proc rd s) = NoChan" "me s < length (cpus s)" "user_dst (mem s) ?rt (kobj s) ra k"
      "\<forall>j < k. uaddr (mem s) ?rt (ra + word_of_nat j) \<noteq> None"
    using R by (simp_all add: reader_ready_def)
  have len: "length ?c = PIPESIZE" using a pq.full_iff by auto
  have call: "pipe_caller rd pi ?s" using a r by (simp add: pipe_caller_def my_proc_def upd_cpu_def)
  have f: "proc q ?s = proc q s" "mem ?s = mem s" "kobj ?s = kobj s" "pipes ?s = pipes s" for q by (simp_all add: upd_cpu_def)
  have "map (\<lambda>j. uaddr (mem s) ?rt (ra + word_of_nat j) \<noteq> None) [0..<k] = replicate k True" using r(6) by (intro nth_equalityI) simp_all
  then have d: "drain ?c (map (\<lambda>j. uaddr (mem s) ?rt (ra + word_of_nat j) \<noteq> None) [0..<k]) = (take k ?c, drop k ?c)" by (simp only: drain_all)
  have ne: "\<not> (?c = [] \<and> pi_writeopen (pipes s pi))" using len by auto
  have lk: "length (take k ?c) = k" using k(2) len by simp
  obtain m' p where t: "piperead [] pi ra (int k) ?s = Ok (int k, (upd_pipe pi (\<lambda>_. p) (?s\<lparr>mem := m'\<rparr>))\<lparr>procs := map (woken (PipeWriteChan pi)) (procs ?s)\<rparr>)"
      "pipe_ok p" "pipe_contents p = drop k ?c" "pi_readopen p = pi_readopen (pipes s pi)"
      "\<forall>j < k. user_byte m' ?rt (ra + word_of_nat j) = Some (take k ?c ! j)"
      "\<forall>x. x \<noteq> kobj s \<and> x \<notin> uset (mem s) ?rt ra k \<longrightarrow> m' x = mem s x"
    using piperead_run [OF call, of ra k, unfolded f, OF r(5) ne d, of "[]"] unfolding lk by blast
  let ?t = "(upd_pipe pi (\<lambda>_. p) (?s\<lparr>mem := m'\<rparr>))\<lparr>procs := map (woken (PipeWriteChan pi)) (procs ?s)\<rparr>"
  have pt: "procs ?t = map (woken (PipeWriteChan pi)) (procs s)" "mem ?t = m'" "me ?t = me s" "pipe_state.more ?t = pipe_state.more s" "kobj ?t = kobj s"
    by (simp_all add: upd_cpu_def upd_pipe_def)
  have prd: "proc rd ?t = proc rd s" using pt(1) r(2,3) by (simp add: woken_other)
  have ppr: "proc pr ?t = (proc pr s)\<lparr>p_status := RUNABLE, p_chain := NoChan\<rparr>" using pt(1) a by (simp add: woken_def)
  have "map (\<lambda>j. the (user_byte m' ?rt (ra + word_of_nat j))) [0..<k] = take k ?c"
    using t(5) lk by (intro nth_equalityI) simp_all
  then have log: "map (\<lambda>j. the (user_byte (mem ?t) (p_pgtable (proc rd ?t)) (ra + word_of_nat j))) [0..<nat (int k)] = take k ?c" using pt(2) prd by simp
  define v where "v = upd_proc pr (\<lambda>q. q\<lparr>p_status := RUNNING, p_chain := NoChan\<rparr>) (upd_cpu (me ?t) (\<lambda>c. c\<lparr>c_my_proc := Some pr\<rparr>)
       (pipe_state.more_update (\<lambda>l. l @ take k ?c) (?t\<lparr>held := {ProcLock pr}, noff := 1\<rparr>)))"
  have run: "read_turn pr rd pi ra k s = Ok v" unfolding read_turn_def t(1) kbind.simps prod.case log v_def ..
  have v: "procs v = (procs ?t)[pr := (proc pr ?t)\<lparr>p_status := RUNNING, p_chain := NoChan\<rparr>]" "mem v = m'" "kobj v = kobj s" "pipes v pi = p"
      "held v = {ProcLock pr}" "noff v = 1" "pipe_state.more v = pipe_state.more s @ take k ?c" "me v = me s" "length (cpus v) = length (cpus s)"
    by (simp_all add: v_def upd_proc_def upd_cpu_def upd_pipe_def)
  have len64: "length (procs ?t) = 64" "pr < 64" using a pt(1) by simp_all
  have pv: "proc pr v = (proc pr s)\<lparr>p_status := RUNNING, p_chain := NoChan\<rparr>" "proc rd v = proc rd s" "length (procs v) = length (procs s)"
    using v(1) ppr prd len64 r(1) a by simp_all
  have my: "my_proc v = Some pr" using r(4) by (simp add: v_def my_proc_def upd_proc_def upd_cpu_def upd_pipe_def)
  have F: "reader_ready pr addr n rd ra k v" "user_bytes (mem v) (p_pgtable (proc pr s)) addr 0 n = user_bytes (mem s) (p_pgtable (proc pr s)) addr 0 n"
    by (rule reader_ready_frame [OF R]; use t(6) v(2,3,8,9) pv r(3,4) in simp)+
  have "private_byte (mem v) (p_pgtable (proc pr s)) (kobj v) addr n" using F(1) pv(1) by (simp add: reader_ready_def)
  moreover have "length (pipe_contents (pipes v pi)) < length ?c" using v(4) t(3) k(1) len by simp
  moreover have "pipe_state.more v @ pipe_contents (pipes v pi) = pipe_state.more s @ ?c" using v(4,7) t(3) by simp
  ultimately show "kok (\<lambda>t. reader_ready pr addr n rd ra k t \<and> my_proc t = my_proc s \<and> held t = held s \<and> noff t = noff s \<and> length (procs t) = length (procs s) \<and>
          proc pr t = (proc pr s)\<lparr>p_status := RUNNING, p_chain := NoChan\<rparr> \<and>
          private_byte (mem t) (p_pgtable (proc pr s)) (kobj t) addr n \<and>
          user_bytes (mem t) (p_pgtable (proc pr s)) addr 0 n = user_bytes (mem s) (p_pgtable (proc pr s)) addr 0 n \<and>
          pipe_ok (pipes t pi) \<and> pi_readopen (pipes t pi) = pi_readopen (pipes s pi) \<and>
          length (pipe_contents (pipes t pi)) < length (pipe_contents (pipes s pi)) \<and>
          pipe_state.more t @ pipe_contents (pipes t pi) = pipe_state.more s @ pipe_contents (pipes s pi)) (read_turn pr rd pi ra k s)"
    using run F my v(4-6) t(2,4) pv a by simp
qed

text \<open>
  A pipe that holds 510 bytes, a write of 16 bytes by process 0 from address \<open>0x1000\<close>, and process 1,
  which reads four bytes at a time to address \<open>0x1100\<close> (in the example the two processes share a page
  table and have their buffers in one page).
\<close>

definition nearly_full :: pipe where
  "nearly_full = \<lparr>pi_data = replicate PIPESIZE 7, pi_nread = -1, pi_nwrite = 509, pi_readopen = True, pi_writeopen = True\<rparr>"

definition stream_example :: "mem \<Rightarrow> u8 list pipe_state_scheme" where
  "stream_example m = pipe_state.extend ((pipe_example m)\<lparr>pipes := \<lambda>_. nearly_full,
     procs := (procs (pipe_example m))[1 := (proc 1 (pipe_example m))\<lparr>p_pgtable := tiny_root, p_chain := NoChan\<rparr>]\<rparr>) []"

lemma stream_example_fields:
  "mem (stream_example m) = m" "kobj (stream_example m) = 0x80002000" "pipes (stream_example m) pi = nearly_full" "pipe_state.more (stream_example m) = []"
  "pipe_caller 0 pi (stream_example m)" "p_pgtable (proc 0 (stream_example m)) = tiny_root" "\<not> p_killed (proc 0 (stream_example m))"
  "p_pgtable (proc 1 (stream_example m)) = tiny_root" "p_chain (proc 1 (stream_example m)) = NoChan" "length (procs (stream_example m)) = 64"
  "me (stream_example m) < length (cpus (stream_example m))"
proof -
  note E = pipe_example_caller [where m = m]
  have l: "length (procs (pipe_example m)) = 64" using E(1) by (simp add: pipe_caller_def)
  have x: "mem (pipe_state.extend s l) = mem s" "kobj (pipe_state.extend s l) = kobj s" "pipes (pipe_state.extend s l) = pipes s" "procs (pipe_state.extend s l) = procs s"
      "held (pipe_state.extend s l) = held s" "noff (pipe_state.extend s l) = noff s" "cpus (pipe_state.extend s l) = cpus s" "me (pipe_state.extend s l) = me s"
      "pipe_state.more (pipe_state.extend s l) = l" for s :: pipe_state and l :: "u8 list"
    by (simp_all add: pipe_state.defs)
  note d = stream_example_def x
  show "mem (stream_example m) = m" "kobj (stream_example m) = 0x80002000" "pipes (stream_example m) pi = nearly_full" "pipe_state.more (stream_example m) = []"
    "p_pgtable (proc 0 (stream_example m)) = tiny_root" "\<not> p_killed (proc 0 (stream_example m))"
    "p_pgtable (proc 1 (stream_example m)) = tiny_root" "p_chain (proc 1 (stream_example m)) = NoChan" "length (procs (stream_example m)) = 64"
    using E l by (simp_all add: d)
  have "pipe_ok nearly_full" by (simp add: nearly_full_def pipe_ok_def ring_ok_def)
  then show "pipe_caller 0 pi (stream_example m)" using E(1) by (simp add: pipe_caller_def my_proc_def d)
  show "me (stream_example m) < length (cpus (stream_example m))"
    by (simp add: d pipe_example_def fs_example_def log_example_def bio_example_def pg_example_def pgroup_state.defs bio_state.defs log_state.defs fs_state.defs pipe_state.defs MAX_CPU_NUM_def)
qed

lemma tiny_stream:
  "\<exists>m. user_dst m tiny_root 0x80002000 0x1000 16 \<and> reader_ready 0 0x1000 16 1 0x1100 4 (stream_example m) \<and>
     (\<forall>j < 16. uaddr m tiny_root (0x1000 + word_of_nat j) = Some (0x80000000 + word_of_nat j))"
proof -
  obtain s :: vm_state where s: "table_wf (mem s) 2 tiny_root" "tables (mem s) 2 tiny_root \<subseteq> {tiny_root, 0x87ffe000, 0x87fff000}"
    "\<forall>j < 4096. uaddr (mem s) tiny_root (0x1000 + word_of_nat j) = Some (0x80000000 + word_of_nat j)"
    using tiny_user by blast
  note pre = tiny_copy_pre [OF s(2,1,3), of "0x80002000"]
  let ?m = "mem s"
  have val: "unat (0x80000000 + word_of_nat j :: u64) = 0x80000000 + j" if "j < 4096" for j using that by (subst unat_add_of_nat) simp_all
  have ne: "0x80000000 + word_of_nat j \<noteq> (0x80002000 :: u64)" if "j < 4096" for j using val [OF that] that by auto
  have u: "uaddr ?m tiny_root (0x1100 + word_of_nat j) = Some (0x80000000 + word_of_nat (0x100 + j))" if "j < 4" for j
    using s(3) that by (auto dest!: spec [of _ "0x100 + j"])
  have us: "uset ?m tiny_root 0x1100 4 = (\<lambda>j. 0x80000000 + word_of_nat (0x100 + j)) ` {..<4}" using u by (auto simp: uset_def)
  have k: "off_table ?m tiny_root {0x80002000}" using tiny_off_table [OF s(2), of "{0x80002000}"] by simp
  have o: "off_table ?m tiny_root (uset ?m tiny_root 0x1100 4)"
    unfolding us by (rule tiny_off_table [OF s(2)]) (auto simp: val simp del: of_nat_add)
  have inj: "(0x80000000 + word_of_nat i :: u64) = 0x80000000 + word_of_nat j \<longleftrightarrow> i = j" if "i < 4096" "j < 4096" for i j
    using val [OF that(1)] val [OF that(2)] by (metis add_left_cancel)
  have "uinj ?m tiny_root 0x1100 4" unfolding uinj_def using u inj by (auto simp del: of_nat_add)
  moreover have "private_byte ?m tiny_root 0x80002000 0x1100 4"
    unfolding private_byte_def using s(1) k u ne by (auto simp del: of_nat_add)
  ultimately have rd: "user_dst ?m tiny_root 0x80002000 0x1100 4" using o by (simp add: user_dst_def)
  have wr: "user_dst ?m tiny_root 0x80002000 0x1000 16" using s pre k ne by (auto simp: user_dst_def private_byte_def)
  have sep: "0x80000000 + word_of_nat j \<notin> uset ?m tiny_root 0x1100 4" if "j < 16" for j
    unfolding us using inj [of j "0x100 + _"] that by (auto simp del: of_nat_add)
  note F = stream_example_fields [where m = ?m]
  have "reader_ready 0 0x1000 16 1 0x1100 4 (stream_example ?m)"
    unfolding reader_ready_def F using rd wr o sep s(3) u F(11) by (auto simp: user_dst_def)
  then show ?thesis using wr s(3) by (intro exI [of _ ?m]) auto
qed

theorem pipewrite_completes_witness:
  "\<exists>m. kok (\<lambda>(r, t). r = 16 \<and> pipe_state.more t @ pipe_contents (pipes t 0x87000000) =
       pipe_contents nearly_full @ map (\<lambda>j. m (0x80000000 + word_of_nat j)) [0..<16])
     (pipewrite (replicate 14 (read_turn 0 1 0x87000000 0x1100 4)) 0x87000000 0x1000 16 (stream_example m))"
proof -
  obtain m where m: "user_dst m tiny_root 0x80002000 0x1000 16" "reader_ready 0 0x1000 16 1 0x1100 4 (stream_example m)"
      "\<forall>j < 16. uaddr m tiny_root (0x1000 + word_of_nat j) = Some (0x80000000 + word_of_nat j)"
    using tiny_stream by blast
  let ?pi = "0x87000000 :: u64"
  note F = stream_example_fields [where m = m]
  have n: "length (pipe_contents nearly_full) = 510" by (simp add: nearly_full_def pipe_contents_def)
  have "kok (\<lambda>(r, t). r = int 16 \<and> held t = {} \<and> pipe_ok (pipes t ?pi) \<and> pipe_state.more t @ pipe_contents (pipes t ?pi) =
      pipe_state.more (stream_example m) @ pipe_contents (pipes (stream_example m) ?pi) @ map (\<lambda>j. m (0x80000000 + word_of_nat j)) [0..<16])
    (pipewrite (replicate 14 (read_turn 0 1 ?pi 0x1100 4)) ?pi 0x1000 (int 16) (stream_example m))"
  proof (rule pipewrite_completes [where J = "reader_ready 0 0x1000 16 1 0x1100 4"])
    show "private_byte (mem (stream_example m)) (p_pgtable (proc 0 (stream_example m))) (kobj (stream_example m)) 0x1000 16"
      using m(1) F by (simp add: user_dst_def)
    show "user_bytes (mem (stream_example m)) (p_pgtable (proc 0 (stream_example m))) 0x1000 0 16 = map Some (map (\<lambda>j. m (0x80000000 + word_of_nat j)) [0..<16])"
      unfolding F using m(3) by (simp add: user_bytes_def user_byte_def del: upt_rec_numeral)
    show "\<forall>sw \<in> set (replicate 14 (read_turn 0 1 ?pi 0x1100 4)). serves 0 ?pi 0x1000 16 (reader_ready 0 0x1000 16 1 0x1100 4) (\<lambda>l. l) sw"
      using read_turn_serves [of 4 0 ?pi "0x1000" 16 1 "0x1100"] by simp
    show "pi_readopen (pipes (stream_example m) ?pi)" by (simp add: F nearly_full_def)
    show "16 \<le> length (replicate 14 (read_turn 0 1 ?pi 0x1100 4)) + (PIPESIZE - length (pipe_contents (pipes (stream_example m) ?pi)))" using n by (simp add: F)
  qed (use F m(2) reader_ready_kept in simp_all)
  then show ?thesis unfolding F by (intro exI [of _ m]) (auto elim!: kok_mono)
qed


end
