(* ===== verification/Files.thy ===== *)
theory Files
  imports Pipe
begin

text \<open>
  The table of open files: kernel/fs/file.c, and \<open>pipealloc\<close> of kernel/fs/pipe.c. A pointer to a
  \<open>struct file\<close> is its index in \<open>ftable.file\<close>. The device switch \<open>devsw\<close> is a parameter: for a
  major number the functions the drivers have registered (kernel/io/console/console.c registers the
  console's). \<open>env\<close> is what the other processes do while the call sleeps in a pipe.
\<close>

section \<open>The code\<close>

abbreviation (input) NFILE :: nat where "NFILE \<equiv> 100"
abbreviation (input) NDEV :: int where "NDEV \<equiv> 10"

datatype fdtype = FD_NONE | FD_PIPE | FD_INODE | FD_DEVICE

record kfile =
  f_type :: fdtype
  f_ref :: int
  f_readable :: bool
  f_writable :: bool
  f_pipe :: u64
  f_ip :: "nat option"
  f_off :: u32
  f_major :: u16

record file_state = pipe_state +
  ftable :: "kfile list"

type_synonym 'a devfn = "bool \<Rightarrow> u64 \<Rightarrow> int \<Rightarrow> 'a \<Rightarrow> (int \<times> 'a) kres"

record 'a devsw =
  dev_read :: "'a devfn option"
  dev_write :: "'a devfn option"

abbreviation ofile :: "nat \<Rightarrow> 'a file_state_scheme \<Rightarrow> kfile" where
  "ofile f s \<equiv> ftable s ! f"

definition upd_file :: "nat \<Rightarrow> (kfile \<Rightarrow> kfile) \<Rightarrow> 'a file_state_scheme \<Rightarrow> 'a file_state_scheme" where
  "upd_file f g s = s\<lparr>ftable := (ftable s)[f := g (ftable s ! f)]\<rparr>"

definition filealloc :: "'a file_state_scheme \<Rightarrow> (nat option \<times> 'a file_state_scheme) kres" where
  "filealloc s =
     kbind (acquire FtableLock s) (\<lambda>s.
     case find_index (\<lambda>f. f_ref f = 0) (ftable s) of
       Some f \<Rightarrow> kbind (release FtableLock (upd_file f (\<lambda>f. f\<lparr>f_ref := 1\<rparr>) s)) (\<lambda>s. Ok (Some f, s))
     | None \<Rightarrow> kbind (release FtableLock s) (\<lambda>s. Ok (None, s)))"

definition filedup :: "nat \<Rightarrow> 'a file_state_scheme \<Rightarrow> (nat \<times> 'a file_state_scheme) kres" where
  "filedup f s =
     kbind (acquire FtableLock s) (\<lambda>s.
     if f_ref (ofile f s) < 1 then Panic ''filedup''
     else kbind (release FtableLock (upd_file f (\<lambda>f. f\<lparr>f_ref := f_ref f + 1\<rparr>) s)) (\<lambda>s. Ok (f, s)))"

text \<open>\<open>iput\<close> of a file's inode; a null pointer would be dereferenced.\<close>

definition file_iput :: "kfile \<Rightarrow> 'a file_state_scheme \<Rightarrow> 'a file_state_scheme kres" where
  "file_iput ff s = (case f_ip ff of None \<Rightarrow> Panic ''NULL inode'' | Some ip \<Rightarrow> iput ip s)"

definition fileclose :: "nat \<Rightarrow> 'a file_state_scheme \<Rightarrow> 'a file_state_scheme kres" where
  "fileclose f s =
     kbind (acquire FtableLock s) (\<lambda>s.
     if f_ref (ofile f s) < 1 then Panic ''fileclose''
     else
       let s = upd_file f (\<lambda>f. f\<lparr>f_ref := f_ref f - 1\<rparr>) s in
       if f_ref (ofile f s) > 0 then release FtableLock s
       else
         let ff = ofile f s in
         kbind (release FtableLock (upd_file f (\<lambda>f. f\<lparr>f_ref := 0, f_type := FD_NONE\<rparr>) s)) (\<lambda>s.
         if f_type ff = FD_PIPE then pipeclose (f_pipe ff) (f_writable ff) s
         else if f_type ff = FD_INODE \<or> f_type ff = FD_DEVICE then
           kbind (begin_op s) (\<lambda>s. kbind (file_iput ff s) end_op)
         else Ok s))"

text \<open>
  \<open>struct stat\<close> has 24 bytes: the members and four bytes of padding after \<open>nlink\<close>, which the code
  never sets and copies with the rest.
\<close>

definition encode_stat :: "stat \<Rightarrow> u8 list \<Rightarrow> u8 list" where
  "encode_stat st padding = le_bytes 4 (st_dev st) @ le_bytes 4 (st_ino st) @ le_bytes 2 (st_type st) @ le_bytes 2 (st_nlink st) @ padding @ le_bytes 8 (st_size st)"

definition filestat :: "nat \<Rightarrow> u64 \<Rightarrow> 'a file_state_scheme \<Rightarrow> (int \<times> 'a file_state_scheme) kres" where
  "filestat f addr s =
     kbind (my_pgtable s) (\<lambda>pt.
     if f_type (ofile f s) = FD_INODE \<or> f_type (ofile f s) = FD_DEVICE then
       case f_ip (ofile f s) of None \<Rightarrow> Panic ''ilock'' | Some ip \<Rightarrow>
         kbind (ilock (Some ip) s) (\<lambda>s.
         let st = stati ip s in
         kbind (iunlock (Some ip) s) (\<lambda>s.
         let s = s\<lparr>mem := poke (mem s) (kobj s) (encode_stat st (peek (mem s) (kobj s + 12) 4))\<rparr> in
         kbind (copyout pt addr (kobj s) 24 s) (\<lambda>(r, s).
         Ok (if r < 0 then -1 else 0, s))))
     else Ok (-1, s))"

definition fileread ::
  "(nat \<Rightarrow> 'a file_state_scheme devsw) \<Rightarrow> 'a file_state_scheme switches \<Rightarrow> nat \<Rightarrow> u64 \<Rightarrow> int \<Rightarrow> 'a file_state_scheme \<Rightarrow> (int \<times> 'a file_state_scheme) kres" where
  "fileread devsw env f addr n s =
     (if \<not> f_readable (ofile f s) then Ok (-1, s)
      else
        case f_type (ofile f s) of
          FD_PIPE \<Rightarrow> piperead env (f_pipe (ofile f s)) addr n s
        | FD_DEVICE \<Rightarrow>
            let major = sint (f_major (ofile f s)) in
            if major < 0 \<or> major \<ge> NDEV then Ok (-1, s)
            else (case dev_read (devsw (nat major)) of None \<Rightarrow> Ok (-1, s) | Some rd \<Rightarrow> rd True addr n s)
        | FD_INODE \<Rightarrow>
            (case f_ip (ofile f s) of None \<Rightarrow> Panic ''ilock'' | Some ip \<Rightarrow>
               kbind (ilock (Some ip) s) (\<lambda>s.
               kbind (readi ip True addr (f_off (ofile f s)) (word_of_int n) s) (\<lambda>(r, s).
               let s = (if r > 0 then upd_file f (\<lambda>f. f\<lparr>f_off := f_off f + word_of_int r\<rparr>) s else s) in
               kbind (iunlock (Some ip) s) (\<lambda>s. Ok (r, s)))))
        | FD_NONE \<Rightarrow> Panic ''fileread'')"

text \<open>The loop of \<open>filewrite\<close> over transactions of at most \<open>max\<close> bytes; the result is the final \<open>i\<close>.\<close>

definition MAX_WRITE :: int where
  "MAX_WRITE = ((10 - 1 - 1 - 2) div 2) * 1024"

function filewrite_loop :: "nat \<Rightarrow> nat \<Rightarrow> u64 \<Rightarrow> int \<Rightarrow> int \<Rightarrow> 'a file_state_scheme \<Rightarrow> (int \<times> 'a file_state_scheme) kres" where
  "filewrite_loop f ip addr n i s =
     (if \<not> i < n then Ok (i, s)
      else
        let n1 = (if n - i > MAX_WRITE then MAX_WRITE else n - i) in
        kbind (begin_op s) (\<lambda>s.
        kbind (ilock (Some ip) s) (\<lambda>s.
        kbind (writei ip True (addr + word_of_int i) (f_off (ofile f s)) (word_of_int n1) s) (\<lambda>(r, s).
        let s = (if r > 0 then upd_file f (\<lambda>f. f\<lparr>f_off := f_off f + word_of_int r\<rparr>) s else s) in
        kbind (iunlock (Some ip) s) (\<lambda>s.
        kbind (end_op s) (\<lambda>s.
        if r < 0 then Ok (i, s)
        else if r \<noteq> n1 then Panic ''short filewrite''
        else filewrite_loop f ip addr n (i + r) s))))))"
  by pat_completeness auto
termination
  by (relation "measure (\<lambda>(f, ip, addr, n, i, s). nat (n - i))") (auto simp: MAX_WRITE_def split: if_splits)

declare filewrite_loop.simps [simp del]

definition filewrite ::
  "(nat \<Rightarrow> 'a file_state_scheme devsw) \<Rightarrow> 'a file_state_scheme switches \<Rightarrow> nat \<Rightarrow> u64 \<Rightarrow> int \<Rightarrow> 'a file_state_scheme \<Rightarrow> (int \<times> 'a file_state_scheme) kres" where
  "filewrite devsw env f addr n s =
     (if \<not> f_writable (ofile f s) then Ok (-1, s)
      else
        case f_type (ofile f s) of
          FD_PIPE \<Rightarrow> pipewrite env (f_pipe (ofile f s)) addr n s
        | FD_DEVICE \<Rightarrow>
            let major = sint (f_major (ofile f s)) in
            if major < 0 \<or> major \<ge> NDEV then Ok (-1, s)
            else (case dev_write (devsw (nat major)) of None \<Rightarrow> Ok (-1, s) | Some wr \<Rightarrow> wr True addr n s)
        | FD_INODE \<Rightarrow>
            (case f_ip (ofile f s) of
               None \<Rightarrow> if 0 < n then kbind (begin_op s) (\<lambda>_. Panic ''ilock'') else Ok (if 0 = n then n else -1, s)
             | Some ip \<Rightarrow> kbind (filewrite_loop f ip addr n 0 s) (\<lambda>(i, s). Ok (if i = n then n else -1, s)))
        | FD_NONE \<Rightarrow> Panic ''filewrite'')"

section \<open>Pipes as files\<close>

text \<open>\<open>pi\<close> is not set at any \<open>goto bad\<close>, so the \<open>kfree\<close> there is never reached.\<close>

definition pipealloc :: "'a file_state_scheme \<Rightarrow> ((nat \<times> nat) option \<times> 'a file_state_scheme) kres" where
  "pipealloc s =
     kbind (filealloc s) (\<lambda>(f0, s).
     case f0 of None \<Rightarrow> Ok (None, s) | Some f0 \<Rightarrow>
       kbind (filealloc s) (\<lambda>(f1, s).
       case f1 of None \<Rightarrow> kbind (fileclose f0 s) (\<lambda>s. Ok (None, s)) | Some f1 \<Rightarrow>
         kbind (kalloc s) (\<lambda>(pi, s).
         if pi = 0 then kbind (fileclose f0 s) (\<lambda>s. kbind (fileclose f1 s) (\<lambda>s. Ok (None, s)))
         else
           let s = upd_pipe pi (\<lambda>p. p\<lparr>pi_readopen := True, pi_writeopen := True, pi_nwrite := 0, pi_nread := 0\<rparr>) s;
               s = upd_file f0 (\<lambda>f. f\<lparr>f_type := FD_PIPE, f_readable := True, f_writable := False, f_pipe := pi\<rparr>) s;
               s = upd_file f1 (\<lambda>f. f\<lparr>f_type := FD_PIPE, f_readable := False, f_writable := True, f_pipe := pi\<rparr>) s
           in Ok (Some (f0, f1), s))))"

end
