(* ===== verification/Sysfile.thy ===== *)
theory Sysfile
  imports Files
begin

text \<open>
  System calls on files: kernel/fs/sysfile.c, and \<open>get_arg_n\<close> of kernel/syscall/syscall.c. The
  registers of a trap frame are words of memory; register \<open>a0\<close> is the tenth. Path buffers on the
  kernel stack are placed at \<open>kobj\<close> while a string is copied in. Results that the code returns as
  \<open>uint64\<close> are kept as integers; -1 is an error.
\<close>

section \<open>Arguments\<close>

abbreviation (input) NOFILE :: nat where "NOFILE \<equiv> 16"
abbreviation (input) MAXPATH :: nat where "MAXPATH \<equiv> 128"

definition tf_a0 :: "u64 \<Rightarrow> u64" where "tf_a0 tf = tf + 72"

definition get_arg_n :: "u64 \<Rightarrow> nat \<Rightarrow> mem \<Rightarrow> u64" where
  "get_arg_n tf i m = load64 m (tf_a0 tf + 8 * word_of_nat i)"

definition myproc :: "'a proc_state_scheme \<Rightarrow> nat kres" where
  "myproc s = (case my_proc s of None \<Rightarrow> Panic ''NULL process'' | Some p \<Rightarrow> Ok p)"

definition argraw :: "nat \<Rightarrow> 'a proc_state_scheme \<Rightarrow> u64 kres" where
  "argraw n s = kbind (myproc s) (\<lambda>p. Ok (get_arg_n (p_trap_frame (proc p s)) n (mem s)))"

definition argint :: "nat \<Rightarrow> 'a proc_state_scheme \<Rightarrow> int kres" where
  "argint n s = kbind (argraw n s) (\<lambda>a. Ok (sint (ucast a :: u32)))"

definition argaddr :: "nat \<Rightarrow> 'a proc_state_scheme \<Rightarrow> u64 kres" where
  "argaddr n s = argraw n s"

text \<open>The result, the word read, and the state.\<close>

definition fetchaddr :: "u64 \<Rightarrow> 'a fs_state_scheme \<Rightarrow> (int \<times> u64 \<times> 'a fs_state_scheme) kres" where
  "fetchaddr addr s =
     kbind (myproc s) (\<lambda>p.
     if addr \<ge> p_mem_end (proc p s) \<or> addr + 8 > p_mem_end (proc p s) then Ok (-1, load64 (mem s) (kobj s), s)
     else
       kbind (copyin (p_pgtable (proc p s)) (kobj s) addr 8 s) (\<lambda>(r, s).
       Ok (if r \<noteq> 0 then -1 else 0, load64 (mem s) (kobj s), s)))"

text \<open>The result and the contents of the buffer of \<open>n\<close> bytes.\<close>

definition fetchstr :: "u64 \<Rightarrow> nat \<Rightarrow> 'a fs_state_scheme \<Rightarrow> (int \<times> u8 list \<times> 'a fs_state_scheme) kres" where
  "fetchstr addr n s =
     kbind (myproc s) (\<lambda>p.
     kbind (copyinstr (p_pgtable (proc p s)) (kobj s) addr (word_of_nat n) s) (\<lambda>(err, s).
     let buf = peek (mem s) (kobj s) n in
     Ok (if err < 0 then err else strlen buf, buf, s)))"

definition argstr :: "nat \<Rightarrow> nat \<Rightarrow> 'a fs_state_scheme \<Rightarrow> (int \<times> u8 list \<times> 'a fs_state_scheme) kres" where
  "argstr n mx s = kbind (argaddr n s) (\<lambda>addr. fetchstr addr mx s)"

text \<open>The descriptor and the file, or \<open>None\<close> for -1.\<close>

definition argfd :: "nat \<Rightarrow> 'a proc_state_scheme \<Rightarrow> (nat \<times> nat) option kres" where
  "argfd n s =
     kbind (argint n s) (\<lambda>fd.
     kbind (myproc s) (\<lambda>p.
     if fd < 0 \<or> fd \<ge> int NOFILE then Ok None
     else Ok (map_option (\<lambda>f. (nat fd, f)) (p_ofile (proc p s) ! nat fd))))"

definition set_ofile :: "nat \<Rightarrow> nat \<Rightarrow> nat option \<Rightarrow> 'a proc_state_scheme \<Rightarrow> 'a proc_state_scheme" where
  "set_ofile p fd f s = upd_proc p (\<lambda>q. q\<lparr>p_ofile := (p_ofile q)[fd := f]\<rparr>) s"

definition fdalloc :: "nat \<Rightarrow> 'a proc_state_scheme \<Rightarrow> (int \<times> 'a proc_state_scheme) kres" where
  "fdalloc f s =
     kbind (myproc s) (\<lambda>p.
     case find_index (\<lambda>x. x = None) (take NOFILE (p_ofile (proc p s))) of
       Some fd \<Rightarrow> Ok (int fd, set_ofile p fd (Some f) s)
     | None \<Rightarrow> Ok (-1, s))"

section \<open>Descriptors\<close>

definition sys_dup :: "'a file_state_scheme \<Rightarrow> (int \<times> 'a file_state_scheme) kres" where
  "sys_dup s =
     kbind (argfd 0 s) (\<lambda>a.
     case a of None \<Rightarrow> Ok (-1, s) | Some (_, f) \<Rightarrow>
       kbind (fdalloc f s) (\<lambda>(fd, s).
       if fd < 0 then Ok (-1, s) else kbind (filedup f s) (\<lambda>(_, s). Ok (fd, s))))"

definition sys_read ::
  "(nat \<Rightarrow> 'a file_state_scheme devsw) \<Rightarrow> 'a file_state_scheme switches \<Rightarrow> 'a file_state_scheme \<Rightarrow> (int \<times> 'a file_state_scheme) kres" where
  "sys_read devsw env s =
     kbind (argfd 0 s) (\<lambda>a.
     case a of None \<Rightarrow> Ok (-1, s) | Some (_, f) \<Rightarrow>
       kbind (argint 2 s) (\<lambda>n. kbind (argaddr 1 s) (\<lambda>p. fileread devsw env f p n s)))"

definition sys_write ::
  "(nat \<Rightarrow> 'a file_state_scheme devsw) \<Rightarrow> 'a file_state_scheme switches \<Rightarrow> 'a file_state_scheme \<Rightarrow> (int \<times> 'a file_state_scheme) kres" where
  "sys_write devsw env s =
     kbind (argfd 0 s) (\<lambda>a.
     case a of None \<Rightarrow> Ok (-1, s) | Some (_, f) \<Rightarrow>
       kbind (argint 2 s) (\<lambda>n. kbind (argaddr 1 s) (\<lambda>p. filewrite devsw env f p n s)))"

definition sys_close :: "'a file_state_scheme \<Rightarrow> (int \<times> 'a file_state_scheme) kres" where
  "sys_close s =
     kbind (argfd 0 s) (\<lambda>a.
     case a of None \<Rightarrow> Ok (-1, s) | Some (fd, f) \<Rightarrow>
       kbind (myproc s) (\<lambda>p.
       kbind (fileclose f (set_ofile p fd None s)) (\<lambda>s. Ok (0, s))))"

definition sys_fstat :: "'a file_state_scheme \<Rightarrow> (int \<times> 'a file_state_scheme) kres" where
  "sys_fstat s =
     kbind (argfd 0 s) (\<lambda>a.
     case a of None \<Rightarrow> Ok (-1, s) | Some (_, f) \<Rightarrow> kbind (argaddr 1 s) (\<lambda>st. filestat f st s))"

section \<open>Links\<close>

text \<open>The label \<open>bad\<close> of \<open>sys_link\<close>.\<close>

definition link_bad :: "nat \<Rightarrow> 'a fs_state_scheme \<Rightarrow> (int \<times> 'a fs_state_scheme) kres" where
  "link_bad ip s =
     kbind (ilock (Some ip) s) (\<lambda>s.
     kbind (iupdate ip (upd_ino ip (\<lambda>i. i\<lparr>i_nlink := i_nlink i - 1\<rparr>) s)) (\<lambda>s.
     kbind (iunlockput ip s) (\<lambda>s.
     kbind (end_op s) (\<lambda>s. Ok (-1, s)))))"

definition sys_link :: "'a fs_state_scheme \<Rightarrow> (int \<times> 'a fs_state_scheme) kres" where
  "sys_link s =
     kbind (argstr 0 MAXPATH s) (\<lambda>(r, old, s).
     if r < 0 then Ok (-1, s)
     else
       kbind (argstr 1 MAXPATH s) (\<lambda>(r, new, s).
       if r < 0 then Ok (-1, s)
       else
         kbind (begin_op s) (\<lambda>s.
         kbind (namei old s) (\<lambda>(ip, s).
         case ip of None \<Rightarrow> kbind (end_op s) (\<lambda>s. Ok (-1, s)) | Some ip \<Rightarrow>
           kbind (ilock (Some ip) s) (\<lambda>s.
           if i_type (ino ip s) = T_DIR then
             kbind (iunlockput ip s) (\<lambda>s. kbind (end_op s) (\<lambda>s. Ok (-1, s)))
           else
             kbind (iupdate ip (upd_ino ip (\<lambda>i. i\<lparr>i_nlink := i_nlink i + 1\<rparr>) s)) (\<lambda>s.
             kbind (iunlock (Some ip) s) (\<lambda>s.
             kbind (nameiparent new (replicate DIRSIZ 0) s) (\<lambda>((dp, name), s).
             case dp of None \<Rightarrow> link_bad ip s | Some dp \<Rightarrow>
               kbind (ilock (Some dp) s) (\<lambda>s.
               kbind (if i_dev (ino dp s) \<noteq> i_dev (ino ip s) then Ok (-1, s)
                      else dirlink dp name (i_inum (ino ip s)) s) (\<lambda>(r, s).
               if r < 0 then kbind (iunlockput dp s) (link_bad ip)
               else
                 kbind (iunlockput dp s) (\<lambda>s.
                 kbind (iput ip s) (\<lambda>s.
                 kbind (end_op s) (\<lambda>s. Ok (0, s))))))))))))))"

definition isdirempty_one :: "nat \<Rightarrow> u32 \<Rightarrow> 'a fs_state_scheme \<Rightarrow> (bool option \<times> 'a fs_state_scheme) kres" where
  "isdirempty_one dp off s =
     kbind (read_dirent ''isdirempty: readi'' dp off s) (\<lambda>(de, s).
     Ok (if de_inum de \<noteq> 0 then Some False else None, s))"

definition isdirempty :: "nat \<Rightarrow> 'a fs_state_scheme \<Rightarrow> (bool \<times> 'a fs_state_scheme) kres" where
  "isdirempty dp s =
     kbind (kfor (isdirempty_one dp) (drop 2 (dir_offsets (i_size (ino dp s)))) s) (\<lambda>(r, s).
     Ok (r = None, s))"

text \<open>The label \<open>bad\<close> of \<open>sys_unlink\<close>.\<close>

definition unlink_bad :: "nat \<Rightarrow> 'a fs_state_scheme \<Rightarrow> (int \<times> 'a fs_state_scheme) kres" where
  "unlink_bad dp s = kbind (iunlockput dp s) (\<lambda>s. kbind (end_op s) (\<lambda>s. Ok (-1, s)))"

abbreviation (input) DOT :: "u8 list" where "DOT \<equiv> [0x2e]"
abbreviation (input) DOTDOT :: "u8 list" where "DOTDOT \<equiv> [0x2e, 0x2e]"

definition sys_unlink :: "'a fs_state_scheme \<Rightarrow> (int \<times> 'a fs_state_scheme) kres" where
  "sys_unlink s =
     kbind (argstr 0 MAXPATH s) (\<lambda>(r, pth, s).
     if r < 0 then Ok (-1, s)
     else
       kbind (begin_op s) (\<lambda>s.
       kbind (nameiparent pth (replicate DIRSIZ 0) s) (\<lambda>((dp, name), s).
       case dp of None \<Rightarrow> kbind (end_op s) (\<lambda>s. Ok (-1, s)) | Some dp \<Rightarrow>
         kbind (ilock (Some dp) s) (\<lambda>s.
         if namecmp name DOT = 0 \<or> namecmp name DOTDOT = 0 then unlink_bad dp s
         else
           kbind (dirlookup dp name s) (\<lambda>(r, s).
           case r of None \<Rightarrow> unlink_bad dp s | Some (ip, off) \<Rightarrow>
             kbind (ilock (Some ip) s) (\<lambda>s.
             if sint (i_nlink (ino ip s)) < 1 then Panic ''unlink: nlink < 1''
             else
               kbind (if i_type (ino ip s) = T_DIR then isdirempty ip s else Ok (True, s)) (\<lambda>(e, s).
               if \<not> e then kbind (iunlockput ip s) (unlink_bad dp)
               else
                 let s = s\<lparr>mem := poke (mem s) (kobj s) (replicate 16 0)\<rparr> in
                 kbind (writei dp False (kobj s) off 16 s) (\<lambda>(r, s).
                 if r \<noteq> 16 then Panic ''unlink: writei''
                 else
                   kbind (if i_type (ino ip s) = T_DIR
                          then iupdate dp (upd_ino dp (\<lambda>i. i\<lparr>i_nlink := i_nlink i - 1\<rparr>) s) else Ok s) (\<lambda>s.
                   kbind (iunlockput dp s) (\<lambda>s.
                   kbind (iupdate ip (upd_ino ip (\<lambda>i. i\<lparr>i_nlink := i_nlink i - 1\<rparr>) s)) (\<lambda>s.
                   kbind (iunlockput ip s) (\<lambda>s.
                   kbind (end_op s) (\<lambda>s. Ok (0, s))))))))))))))"

section \<open>Creating and opening\<close>

text \<open>\<open>ialloc\<close> never returns NULL: it panics by itself.\<close>

definition create :: "u8 list \<Rightarrow> u16 \<Rightarrow> u16 \<Rightarrow> u16 \<Rightarrow> 'a fs_state_scheme \<Rightarrow> (nat option \<times> 'a fs_state_scheme) kres" where
  "create pth ty major minor s =
     kbind (nameiparent pth (replicate DIRSIZ 0) s) (\<lambda>((dp, name), s).
     case dp of None \<Rightarrow> Ok (None, s) | Some dp \<Rightarrow>
       kbind (ilock (Some dp) s) (\<lambda>s.
       kbind (dirlookup dp name s) (\<lambda>(r, s).
       case r of
         Some (ip, _) \<Rightarrow>
           kbind (iunlockput dp s) (\<lambda>s.
           kbind (ilock (Some ip) s) (\<lambda>s.
           if ty = T_FILE \<and> (i_type (ino ip s) = T_FILE \<or> i_type (ino ip s) = T_DEVICE) then Ok (Some ip, s)
           else kbind (iunlockput ip s) (\<lambda>s. Ok (None, s))))
       | None \<Rightarrow>
           kbind (ialloc (i_dev (ino dp s)) ty s) (\<lambda>(ip, s).
           kbind (ilock (Some ip) s) (\<lambda>s.
           kbind (iupdate ip (upd_ino ip (\<lambda>i. i\<lparr>i_major := major, i_minor := minor, i_nlink := 1\<rparr>) s)) (\<lambda>s.
           kbind (if ty = T_DIR then
                    kbind (iupdate dp (upd_ino dp (\<lambda>i. i\<lparr>i_nlink := i_nlink i + 1\<rparr>) s)) (\<lambda>s.
                    kbind (dirlink ip DOT (i_inum (ino ip s)) s) (\<lambda>(r, s).
                    if r < 0 then Panic ''create dots''
                    else
                      kbind (dirlink ip DOTDOT (i_inum (ino dp s)) s) (\<lambda>(r, s).
                      if r < 0 then Panic ''create dots'' else Ok s)))
                  else Ok s) (\<lambda>s.
           kbind (dirlink dp name (i_inum (ino ip s)) s) (\<lambda>(r, s).
           if r < 0 then Panic ''create: dirlink''
           else kbind (iunlockput dp s) (\<lambda>s. Ok (Some ip, s))))))))))"

abbreviation (input) O_WRONLY :: u32 where "O_WRONLY \<equiv> 0x001"
abbreviation (input) O_RDWR :: u32 where "O_RDWR \<equiv> 0x002"
abbreviation (input) O_CREATE :: u32 where "O_CREATE \<equiv> 0x200"
abbreviation (input) O_TRUNC :: u32 where "O_TRUNC \<equiv> 0x400"

definition end_op_fail :: "'a fs_state_scheme \<Rightarrow> (int \<times> 'a fs_state_scheme) kres" where
  "end_op_fail s = kbind (end_op s) (\<lambda>s. Ok (-1, s))"

text \<open>The second half of \<open>sys_open\<close>, with \<open>ip\<close> locked.\<close>

definition open_inode :: "nat \<Rightarrow> u32 \<Rightarrow> 'a file_state_scheme \<Rightarrow> (int \<times> 'a file_state_scheme) kres" where
  "open_inode ip omode s =
     (if i_type (ino ip s) = T_DEVICE \<and> (sint (i_major (ino ip s)) < 0 \<or> sint (i_major (ino ip s)) \<ge> NDEV)
      then kbind (iunlockput ip s) end_op_fail
      else
        kbind (filealloc s) (\<lambda>(f, s).
        case f of None \<Rightarrow> kbind (iunlockput ip s) end_op_fail | Some f \<Rightarrow>
          kbind (fdalloc f s) (\<lambda>(fd, s).
          if fd < 0 then kbind (fileclose f s) (\<lambda>s. kbind (iunlockput ip s) end_op_fail)
          else
            let s = (if i_type (ino ip s) = T_DEVICE
                     then upd_file f (\<lambda>x. x\<lparr>f_type := FD_DEVICE, f_major := i_major (ino ip s)\<rparr>) s
                     else upd_file f (\<lambda>x. x\<lparr>f_type := FD_INODE, f_off := 0\<rparr>) s);
                s = upd_file f (\<lambda>x. x\<lparr>f_ip := Some ip, f_readable := (omode AND O_WRONLY = 0),
                      f_writable := (omode AND O_WRONLY \<noteq> 0 \<or> omode AND O_RDWR \<noteq> 0)\<rparr>) s in
            kbind (if omode AND O_TRUNC \<noteq> 0 \<and> i_type (ino ip s) = T_FILE then itrunc ip s else Ok s) (\<lambda>s.
            kbind (iunlock (Some ip) s) (\<lambda>s.
            kbind (end_op s) (\<lambda>s. Ok (fd, s)))))))"

definition sys_open :: "'a file_state_scheme \<Rightarrow> (int \<times> 'a file_state_scheme) kres" where
  "sys_open s =
     kbind (argstr 0 MAXPATH s) (\<lambda>(n, pth, s).
     if n < 0 then Ok (-1, s)
     else
       kbind (argint 1 s) (\<lambda>omode.
       let om = word_of_int omode in
       kbind (begin_op s) (\<lambda>s.
       if om AND O_CREATE \<noteq> 0 then
         kbind (create pth T_FILE 0 0 s) (\<lambda>(ip, s).
         case ip of None \<Rightarrow> end_op_fail s | Some ip \<Rightarrow> open_inode ip om s)
       else
         kbind (namei pth s) (\<lambda>(ip, s).
         case ip of None \<Rightarrow> end_op_fail s | Some ip \<Rightarrow>
           kbind (ilock (Some ip) s) (\<lambda>s.
           if i_type (ino ip s) = T_DIR \<and> omode \<noteq> 0 then kbind (iunlockput ip s) end_op_fail
           else open_inode ip om s)))))"

definition sys_mkdir :: "'a fs_state_scheme \<Rightarrow> (int \<times> 'a fs_state_scheme) kres" where
  "sys_mkdir s =
     kbind (begin_op s) (\<lambda>s.
     kbind (argstr 0 MAXPATH s) (\<lambda>(r, pth, s).
     if r < 0 then end_op_fail s
     else
       kbind (create pth T_DIR 0 0 s) (\<lambda>(ip, s).
       case ip of None \<Rightarrow> end_op_fail s | Some ip \<Rightarrow>
         kbind (iunlockput ip s) (\<lambda>s. kbind (end_op s) (\<lambda>s. Ok (0, s))))))"

definition sys_mknod :: "'a fs_state_scheme \<Rightarrow> (int \<times> 'a fs_state_scheme) kres" where
  "sys_mknod s =
     kbind (begin_op s) (\<lambda>s.
     kbind (argstr 0 MAXPATH s) (\<lambda>(r, pth, s).
     if r < 0 then end_op_fail s
     else
       kbind (argint 1 s) (\<lambda>major.
       kbind (argint 2 s) (\<lambda>minor.
       kbind (create pth T_DEVICE (word_of_int major) (word_of_int minor) s) (\<lambda>(ip, s).
       case ip of None \<Rightarrow> end_op_fail s | Some ip \<Rightarrow>
         kbind (iunlockput ip s) (\<lambda>s. kbind (end_op s) (\<lambda>s. Ok (0, s))))))))"

definition sys_chdir :: "'a fs_state_scheme \<Rightarrow> (int \<times> 'a fs_state_scheme) kres" where
  "sys_chdir s =
     kbind (myproc s) (\<lambda>p.
     kbind (begin_op s) (\<lambda>s.
     kbind (argstr 0 MAXPATH s) (\<lambda>(r, pth, s).
     if r < 0 then end_op_fail s
     else
       kbind (namei pth s) (\<lambda>(ip, s).
       case ip of None \<Rightarrow> end_op_fail s | Some ip \<Rightarrow>
         kbind (ilock (Some ip) s) (\<lambda>s.
         if i_type (ino ip s) \<noteq> T_DIR then kbind (iunlockput ip s) end_op_fail
         else
           kbind (iunlock (Some ip) s) (\<lambda>s.
           kbind (case p_cwd (proc p s) of None \<Rightarrow> Panic ''NULL inode'' | Some c \<Rightarrow> iput c s) (\<lambda>s.
           kbind (end_op s) (\<lambda>s.
           Ok (0, upd_proc p (\<lambda>q. q\<lparr>p_cwd := Some ip\<rparr>) s)))))))))"

text \<open>A local \<open>int\<close> copied to user memory.\<close>

definition copyout_int :: "u64 \<Rightarrow> u64 \<Rightarrow> int \<Rightarrow> 'a fs_state_scheme \<Rightarrow> (int \<times> 'a fs_state_scheme) kres" where
  "copyout_int pt uva v s = copyout pt uva (kobj s) 4 (s\<lparr>mem := poke (mem s) (kobj s) (le_bytes 4 (word_of_int v :: u32))\<rparr>)"

definition pipe_close_both :: "nat \<Rightarrow> nat \<Rightarrow> 'a file_state_scheme \<Rightarrow> (int \<times> 'a file_state_scheme) kres" where
  "pipe_close_both rfl wfl s = kbind (fileclose rfl s) (\<lambda>s. kbind (fileclose wfl s) (\<lambda>s. Ok (-1, s)))"

definition sys_pipe :: "'a file_state_scheme \<Rightarrow> (int \<times> 'a file_state_scheme) kres" where
  "sys_pipe s =
     kbind (myproc s) (\<lambda>p.
     kbind (argaddr 0 s) (\<lambda>fdarray.
     kbind (pipealloc s) (\<lambda>(r, s).
     case r of None \<Rightarrow> Ok (-1, s) | Some (rfl, wfl) \<Rightarrow>
       kbind (fdalloc rfl s) (\<lambda>(fd0, s).
       if fd0 < 0 then pipe_close_both rfl wfl s
       else
         kbind (fdalloc wfl s) (\<lambda>(fd1, s).
         if fd1 < 0 then pipe_close_both rfl wfl (set_ofile p (nat fd0) None s)
         else
           kbind (copyout_int (p_pgtable (proc p s)) fdarray fd0 s) (\<lambda>(r, s).
           kbind (if r < 0 then Ok (r, s) else copyout_int (p_pgtable (proc p s)) (fdarray + 4) fd1 s) (\<lambda>(r, s).
           if r < 0 then pipe_close_both rfl wfl (set_ofile p (nat fd1) None (set_ofile p (nat fd0) None s))
           else Ok (0, s))))))))"

end
