(* ===== verification/Uvm.thy ===== *)
theory Uvm
  imports Sysfile
begin

text \<open>
  User memory: kernel/syscall/uvm.c (\<open>brk\<close> and \<open>sbrk\<close>). The loop of \<open>increment_mem_end\<close> runs
  \<open>cur\<close> from 0 in steps of a page up to \<open>pages * PGSIZE\<close>, a multiple of the page size.
\<close>

section \<open>The code\<close>

definition page_count :: "u64 \<Rightarrow> int" where
  "page_count bytes = sint (ucast (bytes div PGSIZE) :: u32)"

definition increment_fail :: "u64 \<Rightarrow> u64 \<Rightarrow> u64 \<Rightarrow> 'a vm_state_scheme \<Rightarrow> (int \<times> 'a vm_state_scheme) kres" where
  "increment_fail pt pre_mem_end cur s = kbind (unmap_n_pages_free pt pre_mem_end (page_count cur) s) (\<lambda>s. Ok (-1, s))"

primrec increment_loop :: "nat \<Rightarrow> u64 \<Rightarrow> u64 \<Rightarrow> u64 \<Rightarrow> 'a vm_state_scheme \<Rightarrow> (int \<times> 'a vm_state_scheme) kres" where
  "increment_loop 0 pt pre_mem_end cur s = Ok (0, s)"
| "increment_loop (Suc n) pt pre_mem_end cur s =
     kbind (kalloc s) (\<lambda>(page, s).
     if page = 0 then increment_fail pt pre_mem_end cur s
     else
       kbind (map_page pt (pre_mem_end + cur) page (PTE_R OR PTE_W OR PTE_X OR PTE_U) s) (\<lambda>(err, s).
       if err \<noteq> 0 then kbind (kfree page s) (increment_fail pt pre_mem_end cur)
       else increment_loop n pt pre_mem_end (cur + PGSIZE) s))"

definition increment_mem_end :: "nat \<Rightarrow> u64 \<Rightarrow> 'a proc_state_scheme \<Rightarrow> (int \<times> 'a proc_state_scheme) kres" where
  "increment_mem_end p pages s =
     increment_loop (unat (pages * PGSIZE) div 4096) (p_pgtable (proc p s)) (p_mem_end (proc p s)) 0 s"

definition decrease_mem_end :: "nat \<Rightarrow> u64 \<Rightarrow> 'a proc_state_scheme \<Rightarrow> 'a proc_state_scheme kres" where
  "decrease_mem_end p pages s =
     unmap_n_pages_free (p_pgtable (proc p s)) (p_mem_end (proc p s) - pages * PGSIZE) (sint (ucast pages :: u32)) s"

definition brk :: "nat \<Rightarrow> u64 \<Rightarrow> 'a proc_state_scheme \<Rightarrow> (int \<times> 'a proc_state_scheme) kres" where
  "brk p new_brk s =
     (let pre_mem_brk = p_mem_brk (proc p s); pre_mem_end = p_mem_end (proc p s) in
      if pre_mem_brk > pre_mem_end then Panic ''brk: mem_brk > mem_end''
      else if pre_mem_end mod PGSIZE \<noteq> 0 then Panic ''brk: mem_end is not aligned to PGSIZE''
      else if new_brk < p_mem_start (proc p s) \<or> new_brk \<ge> PROC_VA_END then Ok (-1, s)
      else
        let new_mem_end = ROUND_UP_PGSIZE new_brk in
        kbind (if new_brk > pre_mem_end then increment_mem_end p ((new_mem_end - pre_mem_end) div PGSIZE) s
               else if new_brk < pre_mem_brk \<and> new_mem_end < pre_mem_end then
                 kbind (unmap_n_pages_free (p_pgtable (proc p s)) new_mem_end (page_count (pre_mem_end - new_mem_end)) s) (\<lambda>s. Ok (0, s))
               else Ok (0, s)) (\<lambda>(err, s).
        if err \<noteq> 0 then Ok (-1, s)
        else Ok (0, upd_proc p (\<lambda>q. q\<lparr>p_mem_end := new_mem_end, p_mem_brk := new_brk\<rparr>) s)))"

text \<open>The result of \<open>sbrk\<close> is an address or -1.\<close>

definition sbrk :: "nat \<Rightarrow> u64 \<Rightarrow> 'a proc_state_scheme \<Rightarrow> (u64 \<times> 'a proc_state_scheme) kres" where
  "sbrk p increment s =
     (let pre_mem_brk = p_mem_brk (proc p s) in
      kbind (brk p (p_mem_brk (proc p s) + increment) s) (\<lambda>(err, s).
      Ok (if err \<noteq> 0 then -1 else pre_mem_brk, s)))"

end
