(* ===== verification/Loader.thy ===== *)
theory Loader
  imports Uvm
begin

text \<open>
  Loading an ELF file: kernel/process/process_loader.c and include/process/elf.h. The function
  \<open>elf_read\<close> that reads the file, with the file it reads, is a parameter: \<open>readi\<close> of an inode for
  \<open>exec\<close>, \<open>fake_elf_read\<close> of a binary in the kernel for the first process. The local headers are at
  \<open>kobj\<close>. Loops over addresses that wrap take a bound on the rounds; \<open>Hang\<close> is running past it.
\<close>

record Elf64_Ehdr =
  e_ident :: "u8 list"
  e_type :: u16
  e_entry :: u64
  e_phoff :: u64
  e_phentsize :: u16
  e_phnum :: u16

record Elf64_Phdr =
  ph_type :: u32
  ph_flags :: u32
  ph_offset :: u64
  ph_vaddr :: u64
  ph_filesz :: u64
  ph_memsz :: u64
  ph_align :: u64

type_synonym 'a elf_read_fn = "bool \<Rightarrow> u64 \<Rightarrow> u32 \<Rightarrow> u32 \<Rightarrow> 'a \<Rightarrow> (int \<times> 'a) kres"

definition decode_ehdr :: "u8 list \<Rightarrow> Elf64_Ehdr" where
  "decode_ehdr d = \<lparr>e_ident = take 16 d, e_type = get16 d 16, e_entry = get_le 8 d 24, e_phoff = get_le 8 d 32,
     e_phentsize = get16 d 54, e_phnum = get16 d 56\<rparr>"

definition decode_phdr :: "u8 list \<Rightarrow> Elf64_Phdr" where
  "decode_phdr d = \<lparr>ph_type = get32 d 0, ph_flags = get32 d 4, ph_offset = get_le 8 d 8, ph_vaddr = get_le 8 d 16,
     ph_filesz = get_le 8 d 32, ph_memsz = get_le 8 d 40, ph_align = get_le 8 d 48\<rparr>"

definition EI_MAGIC :: "u8 list" where "EI_MAGIC = [0x7f, 0x45, 0x4c, 0x46]"

definition check_elf_header :: "Elf64_Ehdr \<Rightarrow> int" where
  "check_elf_header h =
     (if \<exists>i \<in> set [0..<4]. e_ident h ! i \<noteq> EI_MAGIC ! i then -1
      else if e_ident h ! 4 \<noteq> 2 then -1
      else if e_ident h ! 5 \<noteq> 1 then -1
      else if e_type h \<noteq> 2 then -1
      else if e_entry h \<noteq> PROC_VA_START then -1
      else if e_phoff h = 0 \<or> e_phentsize h = 0 \<or> e_phnum h = 0 then -1
      else 0)"

definition check_segment :: "Elf64_Phdr \<Rightarrow> u32 \<Rightarrow> int" where
  "check_segment g file_size =
     (if ph_filesz g > ph_memsz g then -1
      else if ph_vaddr g mod PGSIZE \<noteq> 0 \<or> ph_vaddr g < PROC_VA_START then -1
      else if ph_vaddr g + ph_memsz g > USTACK_BASE then -1
      else if ph_offset g + ph_filesz g > ucast file_size then -1
      else if ph_align g > PGSIZE then -1
      else 0)"

text \<open>The code tests the page table bits \<open>PTE_R\<close> (2) and \<open>PTE_W\<close> (4) in the flags of the segment.\<close>

definition get_attribute_from_p_flages :: "u32 \<Rightarrow> u64" where
  "get_attribute_from_p_flages fl =
     (let f = ucast fl :: u64;
          a = PTE_U;
          a = (if f AND 1 \<noteq> 0 \<or> f AND PTE_R \<noteq> 0 then a OR (PTE_R OR PTE_X) else a)
      in if f AND PTE_W \<noteq> 0 then a OR (PTE_R OR PTE_W OR PTE_X) else a)"

definition append_map_page :: "u64 \<Rightarrow> u64 \<Rightarrow> u64 \<Rightarrow> 'a vm_state_scheme \<Rightarrow> (u64 \<times> 'a vm_state_scheme) kres" where
  "append_map_page pt va attribute s =
     kbind (kalloc s) (\<lambda>(page, s).
     if page = 0 then Ok (0, s)
     else
       kbind (map_page pt va page attribute s) (\<lambda>(err, s).
       if err \<noteq> 0 then kbind (kfree page s) (\<lambda>s. Ok (0, s)) else Ok (page, s)))"

definition read_check :: "'a elf_read_fn \<Rightarrow> u64 \<Rightarrow> u32 \<Rightarrow> u32 \<Rightarrow> 'a \<Rightarrow> (bool \<times> 'a) kres" where
  "read_check elf_read dst off n s = kbind (elf_read False dst off n s) (\<lambda>(sz, s). Ok (word_of_int sz \<noteq> n, s))"

text \<open>
  The three parts of \<open>map_segment_for_segment\<close>. Each returns whether it failed and the new \<open>va\<close>; the
  first also the new \<open>file_off\<close>.
\<close>

primrec map_file_pages ::
  "nat \<Rightarrow> 'a vm_state_scheme elf_read_fn \<Rightarrow> u64 \<Rightarrow> u64 \<Rightarrow> u64 \<Rightarrow> u64 \<Rightarrow> u64 \<Rightarrow> 'a vm_state_scheme \<Rightarrow> ((bool \<times> u64 \<times> u64) \<times> 'a vm_state_scheme) kres" where
  "map_file_pages 0 elf_read pt attribute fin file_off va s = Hang"
| "map_file_pages (Suc k) elf_read pt attribute fin file_off va s =
     (if \<not> file_off < fin then Ok ((False, file_off, va), s)
      else
        kbind (append_map_page pt va attribute s) (\<lambda>(page, s).
        if page = 0 then Ok ((True, file_off, va), s)
        else
          kbind (read_check elf_read page (ucast file_off) 4096 s) (\<lambda>(err, s).
          if err then Ok ((True, file_off, va + PGSIZE), s)
          else map_file_pages k elf_read pt attribute fin (file_off + PGSIZE) (va + PGSIZE) s)))"

definition map_file_rest ::
  "'a vm_state_scheme elf_read_fn \<Rightarrow> u64 \<Rightarrow> u64 \<Rightarrow> u64 \<Rightarrow> u64 \<Rightarrow> u64 \<Rightarrow> 'a vm_state_scheme \<Rightarrow> ((bool \<times> u64) \<times> 'a vm_state_scheme) kres" where
  "map_file_rest elf_read pt attribute file_end file_off va s =
     (if file_off < file_end then
        kbind (append_map_page pt va attribute s) (\<lambda>(page, s).
        if page = 0 then Ok ((True, va), s)
        else
          let rest_size = file_end - file_off in
          kbind (read_check elf_read page (ucast file_off) (ucast rest_size) s) (\<lambda>(err, s).
          if err then Ok ((True, va + PGSIZE), s)
          else Ok ((False, va + PGSIZE), s\<lparr>mem := memset (mem s) (page + rest_size) 0 (PGSIZE - rest_size)\<rparr>)))
      else Ok ((False, va), s))"

primrec map_zero_pages :: "nat \<Rightarrow> u64 \<Rightarrow> u64 \<Rightarrow> u64 \<Rightarrow> u64 \<Rightarrow> 'a vm_state_scheme \<Rightarrow> ((bool \<times> u64) \<times> 'a vm_state_scheme) kres" where
  "map_zero_pages 0 pt attribute fin va s = Hang"
| "map_zero_pages (Suc k) pt attribute fin va s =
     (if \<not> va < fin then Ok ((False, va), s)
      else
        kbind (append_map_page pt va attribute s) (\<lambda>(page, s).
        if page = 0 then Ok ((True, va), s)
        else map_zero_pages k pt attribute fin (va + PGSIZE) (s\<lparr>mem := memset (mem s) page 0 PGSIZE\<rparr>)))"

definition map_segment_for_segment ::
  "u64 \<Rightarrow> Elf64_Phdr \<Rightarrow> 'a vm_state_scheme elf_read_fn \<Rightarrow> 'a vm_state_scheme \<Rightarrow> (int \<times> 'a vm_state_scheme) kres" where
  "map_segment_for_segment pt g elf_read s =
     (let start = ph_offset g;
          file_size = ucast (ucast (ph_filesz g) :: u32) :: u64;
          va_start = ph_vaddr g;
          attribute = get_attribute_from_p_flages (ph_flags g);
          fail = (\<lambda>va s. kbind (unmap_n_pages_free pt va_start (page_count (va - va_start)) s) (\<lambda>s. Ok (-1, s))) in
      kbind (map_file_pages (unat file_size div 4096 + 1) elf_read pt attribute (start + ROUND_DOWN_PGSIZE file_size) start va_start s)
        (\<lambda>((err, file_off, va), s).
      if err then fail va s
      else
        kbind (map_file_rest elf_read pt attribute (start + file_size) file_off va s) (\<lambda>((err, va), s).
        if err then fail va s
        else
          let fin = va_start + ROUND_UP_PGSIZE (ph_memsz g) in
          kbind (map_zero_pages (unat (fin - va) div 4096 + 2) pt attribute fin va s) (\<lambda>((err, va), s).
          if err then fail va s else Ok (0, s)))))"

text \<open>
  One program header; \<open>None\<close> is the jump to \<open>err_ret\<close>. The error path of \<open>load_process_elf\<close> passes
  \<open>mem_end\<close>, an address, as the number of pages.
\<close>

definition load_segment ::
  "'a fs_state_scheme elf_read_fn \<Rightarrow> u64 \<Rightarrow> u32 \<Rightarrow> Elf64_Ehdr \<Rightarrow> nat \<Rightarrow> u64 \<Rightarrow> 'a fs_state_scheme \<Rightarrow> (u64 option \<times> 'a fs_state_scheme) kres" where
  "load_segment elf_read pt file_size h i mem_end s =
     kbind (read_check elf_read (kobj s) (ucast (e_phoff h + ucast (e_phentsize h) * word_of_nat i)) 56 s) (\<lambda>(err, s).
     if err then Ok (None, s)
     else
       let g = decode_phdr (peek (mem s) (kobj s) 56) in
       if ph_type g \<noteq> 1 \<or> ph_memsz g = 0 then Ok (Some mem_end, s)
       else if check_segment g file_size \<noteq> 0 then Ok (None, s)
       else
         kbind (map_segment_for_segment pt g elf_read s) (\<lambda>(err, s).
         if err \<noteq> 0 then Ok (None, s)
         else Ok (Some (max mem_end (ph_vaddr g + ph_memsz g)), s)))"

primrec load_segments ::
  "'a fs_state_scheme elf_read_fn \<Rightarrow> u64 \<Rightarrow> u32 \<Rightarrow> Elf64_Ehdr \<Rightarrow> nat list \<Rightarrow> u64 \<Rightarrow> 'a fs_state_scheme \<Rightarrow> (u64 \<times> 'a fs_state_scheme) kres" where
  "load_segments elf_read pt file_size h [] mem_end s = Ok (ROUND_UP_PGSIZE mem_end, s)"
| "load_segments elf_read pt file_size h (i # is) mem_end s =
     kbind (load_segment elf_read pt file_size h i mem_end s) (\<lambda>(r, s).
     case r of
       None \<Rightarrow> kbind (unmap_n_pages_free_hole pt PROC_VA_START (sint (ucast mem_end :: u32)) s) (\<lambda>s. Ok (-1, s))
     | Some mem_end \<Rightarrow> load_segments elf_read pt file_size h is mem_end s)"

definition load_process_elf :: "u64 \<Rightarrow> u32 \<Rightarrow> 'a fs_state_scheme elf_read_fn \<Rightarrow> 'a fs_state_scheme \<Rightarrow> (u64 \<times> 'a fs_state_scheme) kres" where
  "load_process_elf pt file_size elf_read s =
     kbind (read_check elf_read (kobj s) 0 64 s) (\<lambda>(err, s).
     if err then Ok (-1, s)
     else
       let h = decode_ehdr (peek (mem s) (kobj s) 64) in
       if check_elf_header h \<noteq> 0 then Ok (-1, s)
       else load_segments elf_read pt file_size h [0..<unat (e_phnum h)] PROC_VA_START s)"

text \<open>Reading a binary that is part of the kernel image, at address \<open>bin\<close>.\<close>

definition fake_elf_read :: "u64 \<Rightarrow> 'a vm_state_scheme elf_read_fn" where
  "fake_elf_read bin udst dst off n s =
     (if udst then Panic ''fake_elf_read: try to read into user addr''
      else Ok (sint n, s\<lparr>mem := memmove (mem s) dst (bin + ucast off) (sint n)\<rparr>))"

end
