(* ===== verification/Process.thy ===== *)
theory Process
  imports Loader
begin

text \<open>
  Processes: kernel/process/process.c. Addresses of code and of the kernel's page table, which the
  linker and the boot code provide, are members of the state. A pointer to a process is its index.
  \<open>sw\<close> and \<open>env\<close> stand for what the other processes do while the caller is switched out.
\<close>

section \<open>State\<close>

record kernel_state = file_state +
  init_fs :: bool
  user_trap_entry_addr :: u64
  kernel_trap_entry_addr :: u64
  user_trap_handler_addr :: u64
  user_proc_entry_addr :: u64
  kernel_page_table :: u64
  init_code_binary :: u64
  init_code_binary_size :: u32

definition MAKE_SATP :: "u64 \<Rightarrow> u64" where
  "MAKE_SATP t = push_bit 60 8 OR (drop_bit 12 t AND (push_bit 44 1 - 1))"

text \<open>Word \<open>i\<close> of \<open>struct trap_frame\<close> at address \<open>tf\<close>.\<close>

definition set_tf :: "u64 \<Rightarrow> nat \<Rightarrow> u64 \<Rightarrow> 'a vm_state_scheme \<Rightarrow> 'a vm_state_scheme" where
  "set_tf tf i v s = s\<lparr>mem := store64 (mem s) (tf + 8 * word_of_nat i) v\<rparr>"

definition get_tf :: "u64 \<Rightarrow> nat \<Rightarrow> 'a vm_state_scheme \<Rightarrow> u64" where
  "get_tf tf i s = load64 (mem s) (tf + 8 * word_of_nat i)"

abbreviation (input) TF_SP :: nat where "TF_SP \<equiv> 1"
abbreviation (input) TF_A0 :: nat where "TF_A0 \<equiv> 9"
abbreviation (input) TF_A1 :: nat where "TF_A1 \<equiv> 10"
abbreviation (input) TF_SEPC :: nat where "TF_SEPC \<equiv> 31"
abbreviation (input) TF_CPU_ID :: nat where "TF_CPU_ID \<equiv> 32"
abbreviation (input) TF_TRAP_ENTRY :: nat where "TF_TRAP_ENTRY \<equiv> 33"
abbreviation (input) TF_TRAP_HANDLER :: nat where "TF_TRAP_HANDLER \<equiv> 34"
abbreviation (input) TF_KSTACK :: nat where "TF_KSTACK \<equiv> 35"
abbreviation (input) TF_SATP :: nat where "TF_SATP \<equiv> 36"

section \<open>Allocating a process\<close>

text \<open>The three mappings every user page table has; the result is the or of the errors.\<close>

definition map_user_pages :: "u64 \<Rightarrow> u64 \<Rightarrow> u64 \<Rightarrow> 'a kernel_state_scheme \<Rightarrow> (bool \<times> 'a kernel_state_scheme) kres" where
  "map_user_pages pt trap_frame ustack s =
     kbind (map_page pt TRAMPOLINE_BASE (ROUND_DOWN_PGSIZE (user_trap_entry_addr s)) (PTE_R OR PTE_X) s) (\<lambda>(e1, s).
     kbind (map_page pt TRAPFRAME_BASE trap_frame (PTE_R OR PTE_W) s) (\<lambda>(e2, s).
     kbind (map_page pt USTACK_BASE ustack (PTE_R OR PTE_W OR PTE_U) s) (\<lambda>(e3, s).
     Ok (e1 \<noteq> 0 \<or> e2 \<noteq> 0 \<or> e3 \<noteq> 0, s))))"

definition init_user_pagetable :: "nat \<Rightarrow> u64 \<Rightarrow> 'a kernel_state_scheme \<Rightarrow> (int \<times> 'a kernel_state_scheme) kres" where
  "init_user_pagetable p pt s =
     kbind (kalloc s) (\<lambda>(tf, s).
     if tf = 0 then Ok (-1, s)
     else
       kbind (kalloc s) (\<lambda>(ustack, s).
       if ustack = 0 then kbind (kfree tf s) (\<lambda>s. Ok (-1, s))
       else
         kbind (map_user_pages pt tf ustack s) (\<lambda>(err, s).
         if err then kbind (kfree tf s) (\<lambda>s. kbind (kfree ustack s) (\<lambda>s. Ok (-1, s)))
         else Ok (0, upd_proc p (\<lambda>q. q\<lparr>p_ustack := ustack, p_trap_frame := tf\<rparr>) s))))"

text \<open>The label \<open>err_ret\<close> of \<open>init_user_process\<close>.\<close>

definition init_user_fail :: "nat \<Rightarrow> 'a kernel_state_scheme \<Rightarrow> (int \<times> 'a kernel_state_scheme) kres" where
  "init_user_fail p s =
     kbind (free_page_table (p_pgtable (proc p s)) s) (\<lambda>s.
     kbind (kfree (p_ustack (proc p s)) s) (\<lambda>s.
     kbind (kfree (p_trap_frame (proc p s)) s) (\<lambda>s. Ok (-1, s))))"

definition init_user_process :: "nat \<Rightarrow> 'a kernel_state_scheme \<Rightarrow> (int \<times> 'a kernel_state_scheme) kres" where
  "init_user_process p s =
     kbind (get_clear_page s) (\<lambda>(pt, s).
     if pt = 0 then Ok (-1, s)
     else
       let s = upd_proc p (\<lambda>q. q\<lparr>p_pgtable := pt\<rparr>) s in
       kbind (init_user_pagetable p pt s) (\<lambda>(err, s).
       if err \<noteq> 0 then kbind (free_page_table (p_pgtable (proc p s)) s) (\<lambda>s. Ok (-1, s))
       else
         kbind (kalloc s) (\<lambda>(kstack, s).
         if kstack = 0 then init_user_fail p s
         else
           let s = upd_proc p (\<lambda>q. q\<lparr>p_kstack := kstack\<rparr>) s in
           kbind (alloc_pid s) (\<lambda>(pid, s).
           if pid = -1 then kbind (kfree kstack s) (init_user_fail p)
           else
             let s = upd_proc p (\<lambda>q. q\<lparr>p_pid := pid, p_status := USED, p_killed := False, p_xstatus := 0, p_chain := NoChan, p_parent := None\<rparr>) s;
                 tf = p_trap_frame (proc p s);
                 s = set_tf tf TF_TRAP_ENTRY (kernel_trap_entry_addr s) s;
                 s = set_tf tf TF_KSTACK (p_kstack (proc p s)) s;
                 s = set_tf tf TF_SATP (MAKE_SATP (kernel_page_table s)) s;
                 s = set_tf tf TF_TRAP_HANDLER (user_trap_handler_addr s) s;
                 s = set_tf tf TF_SEPC PROC_VA_START s;
                 s = set_tf tf TF_SP (USTACK_BASE + PGSIZE) s;
                 s = upd_proc p (\<lambda>q. q\<lparr>p_context := (p_context q)\<lparr>ctx_ra := user_proc_entry_addr s, ctx_sp := p_kstack q + PGSIZE\<rparr>\<rparr>) s
             in Ok (0, s)))))"

definition set_status :: "nat \<Rightarrow> pstatus \<Rightarrow> 'a proc_state_scheme \<Rightarrow> 'a proc_state_scheme" where
  "set_status p st s = upd_proc p (\<lambda>q. q\<lparr>p_status := st\<rparr>) s"

definition alloc_process_one :: "nat \<Rightarrow> 'a kernel_state_scheme \<Rightarrow> (nat option option \<times> 'a kernel_state_scheme) kres" where
  "alloc_process_one i s =
     kbind (acquire (ProcLock i) s) (\<lambda>s.
     if p_status (proc i s) \<noteq> UNUSED then kbind (release (ProcLock i) s) (\<lambda>s. Ok (None, s))
     else
       kbind (release (ProcLock i) (set_status i USED s)) (\<lambda>s.
       kbind (init_user_process i s) (\<lambda>(err, s).
       if err \<noteq> 0 then
         kbind (acquire (ProcLock i) s) (\<lambda>s.
         kbind (release (ProcLock i) (set_status i UNUSED s)) (\<lambda>s. Ok (Some None, s)))
       else Ok (Some (Some i), s))))"

definition alloc_process :: "'a kernel_state_scheme \<Rightarrow> (nat option \<times> 'a kernel_state_scheme) kres" where
  "alloc_process s =
     kbind (kfor alloc_process_one [0..<STATIC_PROC_NUM] s) (\<lambda>(r, s).
     Ok (case r of None \<Rightarrow> None | Some p \<Rightarrow> p, s))"

definition setup_init_proc :: "'a kernel_state_scheme \<Rightarrow> 'a kernel_state_scheme kres" where
  "setup_init_proc s =
     kbind (alloc_process s) (\<lambda>(p, s).
     case p of None \<Rightarrow> Panic ''setup_init_proc: fail to setup init process, process alloc error'' | Some p \<Rightarrow>
       kbind (load_process_elf (p_pgtable (proc p s)) (init_code_binary_size s) (fake_elf_read (init_code_binary s)) s) (\<lambda>(mem_end, s).
       if mem_end = -1 then Panic ''setup_init_proc: fail to setup init process, elf load error''
       else
         let s = upd_proc p (\<lambda>q. q\<lparr>p_status := RUNABLE, p_mem_start := mem_end, p_mem_brk := mem_end, p_mem_end := mem_end\<rparr>) s in
         kbind (namei [SLASH] s) (\<lambda>(ip, s).
         setup_default_proc_group p (upd_proc p (\<lambda>q. q\<lparr>p_cwd := ip\<rparr>) s))))"

text \<open>Where a new process starts; returning to user space is not part of the model.\<close>

definition user_proc_entry :: "'a kernel_state_scheme \<Rightarrow> 'a kernel_state_scheme kres" where
  "user_proc_entry s =
     kbind (myproc s) (\<lambda>p.
     kbind (release (ProcLock p) s) (\<lambda>s.
     if \<not> init_fs s then fsinit ROOTDEV (s\<lparr>init_fs := True\<rparr>) else Ok s))"

section \<open>Releasing a process\<close>

definition free_user_memory :: "u64 \<Rightarrow> u64 \<Rightarrow> 'a vm_state_scheme \<Rightarrow> 'a vm_state_scheme kres" where
  "free_user_memory pt mem_end s = unmap_n_pages_free pt PROC_VA_START (page_count (mem_end - PROC_VA_START)) s"

definition free_process_user_memory :: "nat \<Rightarrow> 'a proc_state_scheme \<Rightarrow> 'a proc_state_scheme kres" where
  "free_process_user_memory p s = free_user_memory (p_pgtable (proc p s)) (p_mem_end (proc p s)) s"

definition unused_proc :: "process \<Rightarrow> process" where
  "unused_proc q = q\<lparr>p_pid := -1, p_status := UNUSED, p_killed := False, p_xstatus := 0, p_chain := NoChan, p_parent := None, p_pgroup_id := -1\<rparr>"

definition free_process :: "nat \<Rightarrow> 'a proc_state_scheme \<Rightarrow> 'a proc_state_scheme kres" where
  "free_process p s =
     kbind (free_pid (p_pid (proc p s)) s) (\<lambda>s.
     kbind (free_process_user_memory p s) (\<lambda>s.
     kbind (kfree (p_ustack (proc p s)) s) (\<lambda>s.
     kbind (kfree (p_trap_frame (proc p s)) s) (\<lambda>s.
     kbind (free_page_table (p_pgtable (proc p s)) s) (\<lambda>s.
     kbind (kfree (p_kstack (proc p s)) s) (\<lambda>s.
     Ok (upd_proc p unused_proc s)))))))"

section \<open>Fork\<close>

definition fork_dup_one :: "nat \<Rightarrow> nat \<Rightarrow> nat \<Rightarrow> 'a file_state_scheme \<Rightarrow> 'a file_state_scheme kres" where
  "fork_dup_one p c i s =
     (case p_ofile (proc p s) ! i of None \<Rightarrow> Ok s | Some f \<Rightarrow>
        kbind (filedup f s) (\<lambda>(f, s). Ok (set_ofile c i (Some f) s)))"

definition fork :: "nat \<Rightarrow> 'a kernel_state_scheme \<Rightarrow> (int \<times> 'a kernel_state_scheme) kres" where
  "fork p s =
     kbind (alloc_process s) (\<lambda>(r, s).
     case r of None \<Rightarrow> Ok (-1, s) | Some c \<Rightarrow>
       kbind (merge_page_table_in_interval (p_pgtable (proc c s)) (p_pgtable (proc p s)) PROC_VA_START (p_mem_end (proc p s)) s) (\<lambda>(err, s).
       if err \<noteq> 0 then
         kbind (acquire (ProcLock c) s) (\<lambda>s.
         kbind (free_process c s) (\<lambda>s.
         kbind (release (ProcLock c) s) (\<lambda>s. Ok (-1, s))))
       else
         let s = s\<lparr>mem := memcpy (mem s) (p_ustack (proc c s)) (p_ustack (proc p s)) PGSIZE\<rparr>;
             ctf = p_trap_frame (proc c s); ptf = p_trap_frame (proc p s);
             s = s\<lparr>mem := memcpy (mem s) ctf ptf (8 * 31)\<rparr>;
             s = set_tf ctf TF_A0 0 s;
             s = set_tf ctf TF_SEPC (get_tf ptf TF_SEPC s) s;
             s = upd_proc c (\<lambda>q. q\<lparr>p_parent := Some p, p_mem_start := p_mem_start (proc p s), p_mem_brk := p_mem_brk (proc p s),
                   p_mem_end := p_mem_end (proc p s)\<rparr>) s in
         kbind (kfold (fork_dup_one p c) [0..<NOFILE] s) (\<lambda>s.
         kbind (case p_cwd (proc p s) of None \<Rightarrow> Panic ''NULL inode'' | Some ip \<Rightarrow> idup ip s) (\<lambda>(ip, s).
         let s = upd_proc c (\<lambda>q. q\<lparr>p_cwd := Some ip\<rparr>) s;
             pid = p_pid (proc c s) in
         kbind (acquire (ProcLock c) s) (\<lambda>s.
         kbind (release (ProcLock c) (set_status c RUNABLE s)) (\<lambda>s.
         kbind (forkproc_into_pgroup (p_pgroup_id (proc p s)) c s) (\<lambda>(err, s).
         if err \<noteq> 0 then Panic ''fork: fail to add child to parent's proc group''
         else Ok (pid, s))))))))"

section \<open>Exit and wait\<close>

definition reparent_one :: "nat \<Rightarrow> nat \<Rightarrow> 'a proc_state_scheme \<Rightarrow> 'a proc_state_scheme kres" where
  "reparent_one parent i s =
     (if p_parent (proc i s) = Some parent then
        kbind (acquire (ProcLock i) s) (\<lambda>s. release (ProcLock i) (upd_proc i (\<lambda>q. q\<lparr>p_parent := Some 0\<rparr>) s))
      else Ok s)"

definition reparent_children :: "nat \<Rightarrow> 'a proc_state_scheme \<Rightarrow> 'a proc_state_scheme kres" where
  "reparent_children parent s = kfold (reparent_one parent) [0..<STATIC_PROC_NUM] s"

definition wake_up_parent :: "nat \<Rightarrow> 'a proc_state_scheme \<Rightarrow> 'a proc_state_scheme" where
  "wake_up_parent parent s =
     (if p_status (proc parent s) = SLEEP then upd_proc parent (\<lambda>q. q\<lparr>p_status := RUNABLE, p_chain := NoChan\<rparr>) s else s)"

definition exit_close_one :: "nat \<Rightarrow> nat \<Rightarrow> 'a file_state_scheme \<Rightarrow> 'a file_state_scheme kres" where
  "exit_close_one p i s =
     (case p_ofile (proc p s) ! i of None \<Rightarrow> Ok s | Some f \<Rightarrow>
        kbind (fileclose f s) (\<lambda>s. Ok (set_ofile p i None s)))"

text \<open>The last part of \<open>exit\<close>: telling the parent and becoming a zombie.\<close>

definition exit_zombie :: "nat \<Rightarrow> nat \<Rightarrow> int \<Rightarrow> 'a proc_state_scheme \<Rightarrow> 'a proc_state_scheme kres" where
  "exit_zombie p parent xstatus s =
     kbind (acquire (ProcLock parent) s) (\<lambda>s.
     kbind (acquire (ProcLock p) s) (\<lambda>s.
     kbind (if p_parent (proc p s) = Some parent then release (ProcLock parent) (wake_up_parent parent s)
            else if p_parent (proc p s) \<noteq> Some 0 then Panic ''exit: reparent proc to other proc(not proc 0)''
            else
              kbind (release (ProcLock parent) s) (\<lambda>s.
              kbind (release (ProcLock p) s) (\<lambda>s.
              kbind (acquire (ProcLock 0) s) (\<lambda>s.
              kbind (acquire (ProcLock p) s) (\<lambda>s.
              release (ProcLock 0) (wake_up_parent 0 s)))))) (\<lambda>s.
     pop_off (upd_proc p (\<lambda>q. q\<lparr>p_status := ZOMBIE, p_xstatus := xstatus, p_chain := NoChan\<rparr>) s))))"

definition exit :: "('a file_state_scheme \<Rightarrow> 'a file_state_scheme kres) \<Rightarrow> nat \<Rightarrow> int \<Rightarrow> 'a file_state_scheme \<Rightarrow> 'a file_state_scheme kres" where
  "exit sw p xstatus s =
     (if my_proc s \<noteq> Some p then Panic ''exit: exit on other proc''
      else if p_pid (proc p s) = 0 then Panic ''exit: init proc exit''
      else
        kbind (kfold (exit_close_one p) [0..<NOFILE] s) (\<lambda>s.
        kbind (begin_op s) (\<lambda>s.
        kbind (case p_cwd (proc p s) of None \<Rightarrow> Panic ''NULL inode'' | Some ip \<Rightarrow> iput ip s) (\<lambda>s.
        kbind (end_op s) (\<lambda>s.
        let s = upd_proc p (\<lambda>q. q\<lparr>p_cwd := None\<rparr>) s in
        kbind (acquire (ProcLock 0) s) (\<lambda>s.
        kbind (acquire (ProcLock p) s) (\<lambda>s.
        kbind (reparent_children p s) (\<lambda>s.
        let s = wake_up_parent 0 s in
        case p_parent (proc p s) of None \<Rightarrow> Panic ''NULL process'' | Some parent \<Rightarrow>
          kbind (release (ProcLock 0) s) (\<lambda>s.
          kbind (release (ProcLock p) s) (\<lambda>s.
          kbind (push_off s) (\<lambda>s.
          kbind (exit_pgroup s) (\<lambda>s.
          kbind (exit_zombie p parent xstatus s) (\<lambda>s.
          kbind (switch_to_scheduler sw s) (\<lambda>_.
          Panic ''exit: ZOMBIE proc returned''))))))))))))))"

text \<open>The loop of \<open>handle_exit_child\<close>: the returned error and \<open>*pid\<close>.\<close>

primrec handle_exit_loop :: "nat \<Rightarrow> u64 \<Rightarrow> nat list \<Rightarrow> int \<Rightarrow> 'a fs_state_scheme \<Rightarrow> ((int \<times> int) \<times> 'a fs_state_scheme) kres" where
  "handle_exit_loop p int_uva [] no_child_err s = Ok ((no_child_err, -1), s)"
| "handle_exit_loop p int_uva (i # is) no_child_err s =
     (if p_parent (proc i s) \<noteq> Some p then handle_exit_loop p int_uva is no_child_err s
      else
        kbind (acquire (ProcLock i) s) (\<lambda>s.
        if p_status (proc i s) \<noteq> ZOMBIE then
          kbind (release (ProcLock i) s) (handle_exit_loop p int_uva is 0)
        else
          let pid = p_pid (proc i s) in
          kbind (if int_uva \<noteq> 0 then copyout_int (p_pgtable (proc p s)) int_uva (p_xstatus (proc i s)) s else Ok (0, s)) (\<lambda>(err, s).
          if err \<noteq> 0 then kbind (release (ProcLock i) s) (\<lambda>s. Ok ((-1, pid), s))
          else
            kbind (free_process i s) (\<lambda>s.
            kbind (release (ProcLock i) s) (\<lambda>s. Ok ((0, pid), s))))))"

definition handle_exit_child :: "nat \<Rightarrow> u64 \<Rightarrow> 'a fs_state_scheme \<Rightarrow> ((int \<times> int) \<times> 'a fs_state_scheme) kres" where
  "handle_exit_child p int_uva s = handle_exit_loop p int_uva [0..<STATIC_PROC_NUM] 1 s"

primrec wait_loop :: "'a fs_state_scheme switches \<Rightarrow> nat \<Rightarrow> u64 \<Rightarrow> 'a fs_state_scheme \<Rightarrow> (int \<times> 'a fs_state_scheme) kres" where
  "wait_loop [] p int_uva s = sleep_block (ProcLock p) NoChan s"
| "wait_loop (sw # env) p int_uva s =
     kbind (sleep sw (ProcLock p) NoChan s) (\<lambda>s.
     kbind (handle_exit_child p int_uva s) (\<lambda>((err, pid), s).
     if err \<noteq> 0 then Panic ''wait: wake up parent without any child''
     else if pid = -1 then wait_loop env p int_uva s
     else kbind (release (ProcLock p) s) (\<lambda>s. Ok (pid, s))))"

definition wait :: "'a fs_state_scheme switches \<Rightarrow> nat \<Rightarrow> u64 \<Rightarrow> 'a fs_state_scheme \<Rightarrow> (int \<times> 'a fs_state_scheme) kres" where
  "wait env p int_uva s =
     kbind (acquire (ProcLock p) s) (\<lambda>s.
     kbind (handle_exit_child p int_uva s) (\<lambda>((err, pid), s).
     if err \<noteq> 0 then kbind (release (ProcLock p) s) (\<lambda>s. Ok (-1, s))
     else if pid \<noteq> -1 then kbind (release (ProcLock p) s) (\<lambda>s. Ok (pid, s))
     else wait_loop env p int_uva s))"

section \<open>Kill, sleep and counting\<close>

definition kill_one :: "int \<Rightarrow> nat \<Rightarrow> 'a proc_state_scheme \<Rightarrow> (nat option \<times> 'a proc_state_scheme) kres" where
  "kill_one pid i s =
     kbind (acquire (ProcLock i) s) (\<lambda>s.
     if p_status (proc i s) = USED \<or> p_pid (proc i s) \<noteq> pid then kbind (release (ProcLock i) s) (\<lambda>s. Ok (None, s))
     else Ok (Some i, s))"

definition kill :: "int \<Rightarrow> 'a proc_state_scheme \<Rightarrow> (int \<times> 'a proc_state_scheme) kres" where
  "kill pid s =
     kbind (kfor (kill_one pid) [0..<STATIC_PROC_NUM] s) (\<lambda>(r, s).
     case r of
       None \<Rightarrow> Ok (-1, s)
     | Some i \<Rightarrow> kbind (release (ProcLock i) (upd_proc i (\<lambda>q. q\<lparr>p_killed := True\<rparr>) s)) (\<lambda>s. Ok (0, s)))"

text \<open>\<open>start_ticks\<close> is a 32-bit variable, \<open>tick_count\<close> and the comparison have 64 bits.\<close>

fun sys_sleep_loop :: "'a proc_state_scheme switches \<Rightarrow> nat \<Rightarrow> u32 \<Rightarrow> int \<Rightarrow> 'a proc_state_scheme \<Rightarrow> (int \<times> 'a proc_state_scheme) kres" where
  "sys_sleep_loop env p start_ticks sleep_ticks s =
     (if tick_count s - ucast start_ticks < word_of_int sleep_ticks then
        if p_killed (proc p s) then kbind (release TickLock s) (\<lambda>s. Ok (-1, s))
        else
          case env of
            [] \<Rightarrow> sleep_block TickLock TickChan s
          | sw # env \<Rightarrow> kbind (sleep sw TickLock TickChan s) (sys_sleep_loop env p start_ticks sleep_ticks)
      else kbind (release TickLock s) (\<lambda>s. Ok (0, s)))"

declare sys_sleep_loop.simps [simp del]

definition proc_sys_sleep :: "'a proc_state_scheme switches \<Rightarrow> int \<Rightarrow> 'a proc_state_scheme \<Rightarrow> (int \<times> 'a proc_state_scheme) kres" where
  "proc_sys_sleep env sleep_ticks s =
     kbind (acquire TickLock s) (\<lambda>s.
     kbind (myproc s) (\<lambda>p.
     sys_sleep_loop env p (ucast (tick_count s)) sleep_ticks s))"

text \<open>
  \<open>lock_all_process_aux\<close> recurses along the children; the first argument bounds the depth, and \<open>Hang\<close>
  is running past it. \<open>lkd\<close> is the array \<open>locked\<close> of the caller.
\<close>

primrec lock_all_process_aux :: "nat \<Rightarrow> nat \<Rightarrow> (bool list \<times> 'a proc_state_scheme) \<Rightarrow> (bool list \<times> 'a proc_state_scheme) kres" where
  "lock_all_process_aux 0 p ls = Hang"
| "lock_all_process_aux (Suc depth) p ls =
     (case ls of (lkd, s) \<Rightarrow>
        kbind (acquire (ProcLock p) s) (\<lambda>s.
        kfold (\<lambda>i (lkd, s).
          if p_parent (proc i s) = Some p then lock_all_process_aux depth i (lkd, s) else Ok (lkd, s))
          [0..<STATIC_PROC_NUM] (lkd[p := True], s)))"

definition lock_rest_process :: "bool list \<Rightarrow> 'a proc_state_scheme \<Rightarrow> 'a proc_state_scheme kres" where
  "lock_rest_process lkd s = kfold (\<lambda>i s. if lkd ! i then Ok s else acquire (ProcLock i) s) [0..<STATIC_PROC_NUM] s"

definition lock_all_process :: "nat \<Rightarrow> 'a proc_state_scheme \<Rightarrow> 'a proc_state_scheme kres" where
  "lock_all_process depth s =
     kbind (lock_all_process_aux depth 0 (replicate STATIC_PROC_NUM False, s)) (\<lambda>(lkd, s). lock_rest_process lkd s)"

definition release_all_process :: "'a proc_state_scheme \<Rightarrow> 'a proc_state_scheme kres" where
  "release_all_process s = kfold (\<lambda>i. release (ProcLock i)) [0..<STATIC_PROC_NUM] s"

definition count_proc_num :: "nat \<Rightarrow> 'a proc_state_scheme \<Rightarrow> (int \<times> 'a proc_state_scheme) kres" where
  "count_proc_num depth s =
     kbind (lock_all_process depth s) (\<lambda>s.
     let n = int (length (filter (\<lambda>i. p_status (proc i s) \<noteq> UNUSED) [0..<STATIC_PROC_NUM])) in
     kbind (release_all_process s) (\<lambda>s. Ok (n, s)))"

end
