(* ===== verification/Syscall.thy ===== *)
theory Syscall
  imports Process
begin

text \<open>
  \<open>exec\<close> of kernel/process/process.c and the system call table of kernel/syscall/syscall.c.

  \<open>devsw\<close> is the device switch. \<open>sw\<close> and \<open>env\<close> stand for what the other processes do while the caller
  is switched out. Results are the 64-bit values of register \<open>a0\<close>.
\<close>

section \<open>Replacing the program of a process\<close>

abbreviation (input) ARGVN :: nat where "ARGVN \<equiv> 32"
abbreviation (input) ARGV_STR_LEN :: nat where "ARGV_STR_LEN \<equiv> 64"

definition alloc_page_copy_argv :: "nat \<Rightarrow> u64 \<Rightarrow> 'a vm_state_scheme \<Rightarrow> (u64 \<times> 'a vm_state_scheme) kres" where
  "alloc_page_copy_argv argc str_in_argv s =
     kbind (kalloc s) (\<lambda>(page, s).
     if page = 0 then Ok (0, s)
     else
       let str_start = 8 * (word_of_nat argc + 1);
           m = memcpy (mem s) (page + str_start) str_in_argv (word_of_nat (ARGV_STR_LEN * argc));
           m = fold (\<lambda>i m. store64 m (page + 8 * word_of_nat i) (str_start + word_of_nat (ARGV_STR_LEN * i))) [0..<argc] m;
           m = store64 m (page + 8 * word_of_nat argc) 0
       in Ok (page, s\<lparr>mem := m\<rparr>))"

text \<open>The loop over the pointers ends at a null pointer; a page has 512 words.\<close>

primrec relocate_argv :: "nat \<Rightarrow> u64 \<Rightarrow> u64 \<Rightarrow> nat \<Rightarrow> mem \<Rightarrow> mem kres" where
  "relocate_argv 0 uva page i m = Hang"
| "relocate_argv (Suc k) uva page i m =
     (let a = page + 8 * word_of_nat i in
      if load64 m a = 0 then Ok m
      else relocate_argv k uva page (Suc i) (store64 m a (uva + load64 m a)))"

definition map_argv_to_page_table :: "u64 \<Rightarrow> u64 \<Rightarrow> u64 \<Rightarrow> u64 \<Rightarrow> 'a vm_state_scheme \<Rightarrow> (int \<times> 'a vm_state_scheme) kres" where
  "map_argv_to_page_table pt uva argv_page attribute s =
     kbind (map_page pt uva argv_page attribute s) (\<lambda>(err, s).
     if err \<noteq> 0 then Ok (-1, s)
     else kbind (relocate_argv 512 uva argv_page 0 (mem s)) (\<lambda>m. Ok (0, s\<lparr>mem := m\<rparr>)))"

definition drop_new_pgtable :: "u64 \<Rightarrow> u64 \<Rightarrow> 'a vm_state_scheme \<Rightarrow> (int \<times> 'a vm_state_scheme) kres" where
  "drop_new_pgtable pt mem_end s =
     kbind (free_user_memory pt mem_end s) (\<lambda>s. kbind (free_page_table pt s) (\<lambda>s. Ok (-1, s)))"

definition load_new_process_for_exec :: "nat \<Rightarrow> nat \<Rightarrow> u64 \<Rightarrow> 'a kernel_state_scheme \<Rightarrow> (int \<times> 'a kernel_state_scheme) kres" where
  "load_new_process_for_exec p elf argv_page s =
     kbind (get_clear_page s) (\<lambda>(pt, s).
     if pt = 0 then Ok (-1, s)
     else
       kbind (ilock (Some elf) s) (\<lambda>s.
       if i_type (ino elf s) \<noteq> T_FILE then
         kbind (iunlock (Some elf) s) (\<lambda>s. kbind (kfree pt s) (\<lambda>s. Ok (-1, s)))
       else
         kbind (load_process_elf pt (i_size (ino elf s)) (readi elf) s) (\<lambda>(mem_end, s).
         kbind (iunlock (Some elf) s) (\<lambda>s.
         if mem_end = -1 then kbind (free_page_table pt s) (\<lambda>s. Ok (-1, s))
         else
           kbind (map_user_pages pt (p_trap_frame (proc p s)) (p_ustack (proc p s)) s) (\<lambda>(err, s).
           if err then drop_new_pgtable pt mem_end s
           else
             kbind (if argv_page \<noteq> 0 then map_argv_to_page_table pt mem_end argv_page (PTE_R OR PTE_W OR PTE_U) s else Ok (0, s)) (\<lambda>(err, s).
             if err \<noteq> 0 then drop_new_pgtable pt mem_end s
             else
               let mem_end = (if argv_page \<noteq> 0 then mem_end + PGSIZE else mem_end);
                   old = p_pgtable (proc p s) in
               kbind (free_user_memory old (p_mem_end (proc p s)) s) (\<lambda>s.
               kbind (free_page_table old s) (\<lambda>s.
               Ok (0, upd_proc p (\<lambda>q. q\<lparr>p_pgtable := pt, p_mem_start := mem_end, p_mem_brk := mem_end, p_mem_end := mem_end\<rparr>) s)))))))))"

definition put_inode :: "nat \<Rightarrow> 'a fs_state_scheme \<Rightarrow> 'a fs_state_scheme kres" where
  "put_inode ip s = kbind (begin_op s) (\<lambda>s. kbind (iput ip s) end_op)"

text \<open>\<open>argv\<close> itself is not used by the code.\<close>

definition exec :: "nat \<Rightarrow> u8 list \<Rightarrow> nat \<Rightarrow> u64 \<Rightarrow> 'a kernel_state_scheme \<Rightarrow> (int \<times> 'a kernel_state_scheme) kres" where
  "exec p path_name argc str_in_argv s =
     kbind (namei path_name s) (\<lambda>(elf, s).
     case elf of None \<Rightarrow> Ok (-1, s) | Some elf \<Rightarrow>
       kbind (if argc \<noteq> 0 then alloc_page_copy_argv argc str_in_argv s else Ok (0, s)) (\<lambda>(argv_page, s).
       if argc \<noteq> 0 \<and> argv_page = 0 then kbind (put_inode elf s) (\<lambda>s. Ok (-1, s))
       else
         kbind (load_new_process_for_exec p elf argv_page s) (\<lambda>(err, s).
         kbind (put_inode elf s) (\<lambda>s.
         if err \<noteq> 0 then
           kbind (if argv_page \<noteq> 0 then kfree argv_page s else Ok s) (\<lambda>s. Ok (-1, s))
         else
           let tf = p_trap_frame (proc p s);
               s = set_tf tf TF_A0 (word_of_nat argc) s;
               s = set_tf tf TF_A1 (p_mem_end (proc p s) - PGSIZE) s;
               s = set_tf tf TF_SP (USTACK_BASE + PGSIZE) s;
               s = set_tf tf TF_SEPC PROC_VA_START s
           in Ok (0, s)))))"

section \<open>System calls\<close>

definition arg :: "nat \<Rightarrow> nat \<Rightarrow> 'a proc_state_scheme \<Rightarrow> u64" where
  "arg p i s = get_arg_n (p_trap_frame (proc p s)) i (mem s)"

definition int_arg :: "nat \<Rightarrow> nat \<Rightarrow> 'a proc_state_scheme \<Rightarrow> int" where
  "int_arg p i s = sint (ucast (arg p i s) :: u32)"

definition ret_int :: "(int \<times> 'a) kres \<Rightarrow> (u64 \<times> 'a) kres" where
  "ret_int r = kbind r (\<lambda>(x, s). Ok (word_of_int x, s))"

definition kernelbreak :: u64 where "kernelbreak = -1"

text \<open>
  The two loops of \<open>copy_in_argv\<close>. The first returns \<open>argc\<close> (\<open>None\<close> on an error), 0 when no null pointer
  was found.
\<close>

primrec copy_argv_ptrs :: "nat list \<Rightarrow> u64 \<Rightarrow> u64 \<Rightarrow> u64 \<Rightarrow> 'a vm_state_scheme \<Rightarrow> (nat option \<times> 'a vm_state_scheme) kres" where
  "copy_argv_ptrs [] pt argv_uva argv s = Ok (Some 0, s)"
| "copy_argv_ptrs (i # is) pt argv_uva argv s =
     kbind (copy_in pt (argv_uva + 8 * word_of_nat i) (argv + 8 * word_of_nat i) 8 s) (\<lambda>(err, s).
     if err \<noteq> 0 then Ok (None, s)
     else if load64 (mem s) (argv + 8 * word_of_nat i) = 0 then Ok (Some i, s)
     else copy_argv_ptrs is pt argv_uva argv s)"

definition copy_argv_str :: "u64 \<Rightarrow> u64 \<Rightarrow> u64 \<Rightarrow> nat \<Rightarrow> 'a vm_state_scheme \<Rightarrow> (unit option \<times> 'a vm_state_scheme) kres" where
  "copy_argv_str pt argv str i s =
     (let a = argv + 8 * word_of_nat i; d = str + word_of_nat (ARGV_STR_LEN * i) in
      kbind (copy_in_str pt (load64 (mem s) a) d (word_of_nat ARGV_STR_LEN) s) (\<lambda>(err, s).
      if err \<noteq> 0 then Ok (Some (), s) else Ok (None, s\<lparr>mem := store64 (mem s) a d\<rparr>)))"

text \<open>The result is \<open>argc\<close>, or \<open>None\<close> for -1.\<close>

definition copy_in_argv :: "nat \<Rightarrow> u64 \<Rightarrow> u64 \<Rightarrow> u64 \<Rightarrow> 'a proc_state_scheme \<Rightarrow> (nat option \<times> 'a proc_state_scheme) kres" where
  "copy_in_argv p argv_uva argv str s =
     kbind (copy_argv_ptrs [0..<ARGVN] (p_pgtable (proc p s)) argv_uva argv s) (\<lambda>(r, s).
     case r of None \<Rightarrow> Ok (None, s) | Some argc \<Rightarrow>
       if load64 (mem s) (argv + 8 * (32 - 1)) \<noteq> 0 then Ok (None, s)
       else
         kbind (kfor (copy_argv_str (p_pgtable (proc p s)) argv str) [0..<argc] s) (\<lambda>(r, s).
         Ok (if r = None then Some argc else None, s)))"

text \<open>
  In the branch with arguments the code declares a second variable \<open>err\<close>, so the result of \<open>exec\<close>
  there is not seen by the test at the end.
\<close>

definition syscall_exec :: "nat \<Rightarrow> 'a kernel_state_scheme \<Rightarrow> (u64 \<times> 'a kernel_state_scheme) kres" where
  "syscall_exec p s =
     kbind (kalloc s) (\<lambda>(page, s).
     if page = 0 then Ok (-1, s)
     else
       let file_name = page; str = page + 128; argv = str + word_of_nat (ARGVN * ARGV_STR_LEN);
           s = s\<lparr>mem := memset (mem s) page 0 (word_of_nat (MAXPATH + ARGVN * ARGV_STR_LEN + 8 * ARGVN))\<rparr>;
           file_uva = arg p 0 s; argv_uva = arg p 1 s in
       kbind (copy_in_str (p_pgtable (proc p s)) file_uva file_name (word_of_nat MAXPATH) s) (\<lambda>(err, s).
       if err \<noteq> 0 then kbind (kfree page s) (\<lambda>s. Ok (-1, s))
       else if argv_uva = 0 then
         kbind (exec p (peek (mem s) file_name MAXPATH) 0 0 s) (\<lambda>(err, s).
         kbind (kfree page s) (\<lambda>s.
         Ok (if err \<noteq> 0 then -1 else get_tf (p_trap_frame (proc p s)) TF_A0 s, s)))
       else
         kbind (copy_in_argv p argv_uva argv str s) (\<lambda>(argc, s).
         case argc of
           None \<Rightarrow> kbind (kfree page s) (\<lambda>s. Ok (-1, s))
         | Some argc \<Rightarrow>
             kbind (exec p (peek (mem s) file_name MAXPATH) argc str s) (\<lambda>(inner_err, s).
             kbind (kfree page s) (\<lambda>s.
             Ok (get_tf (p_trap_frame (proc p s)) TF_A0 s, s))))))"

text \<open>The 64-bit tick counter copied to user memory; the result of the copy is ignored.\<close>

definition syscall_time :: "nat \<Rightarrow> 'a fs_state_scheme \<Rightarrow> (u64 \<times> 'a fs_state_scheme) kres" where
  "syscall_time p s =
     (let uva = arg p 0 s; ticks = tick_count s in
      if uva \<noteq> 0 then
        kbind (copyout (p_pgtable (proc p s)) uva (kobj s) 8 (s\<lparr>mem := store64 (mem s) (kobj s) ticks\<rparr>)) (\<lambda>(_, s). Ok (ticks, s))
      else Ok (ticks, s))"

definition syscall_table ::
  "(nat \<Rightarrow> 'a kernel_state_scheme devsw) \<Rightarrow> ('a kernel_state_scheme \<Rightarrow> 'a kernel_state_scheme kres) \<Rightarrow> 'a kernel_state_scheme switches \<Rightarrow>
     nat \<Rightarrow> nat \<Rightarrow> 'a kernel_state_scheme \<Rightarrow> (u64 \<times> 'a kernel_state_scheme) kres" where
  "syscall_table devsw sw env i p s =
     (if i = 0 then Ok (kernelbreak, s)
      else if i = 1 then ret_int (proc_sys_sleep env (int_arg p 0 s) s)
      else if i = 2 then sbrk p (arg p 0 s) s
      else if i = 3 then ret_int (fork p s)
      else if i = 4 then syscall_exec p s
      else if i = 5 then Ok (word_of_int (p_pid (proc p s)), s)
      else if i = 6 then kbind (exit sw p (int_arg p 0 s) s) (\<lambda>s. Ok (0, s))
      else if i = 7 then ret_int (wait env p (arg p 0 s) s)
      else if i = 8 then ret_int (kill (int_arg p 0 s) s)
      else if i = 9 then ret_int (brk p (arg p 0 s) s)
      else if i = 10 then syscall_time p s
      else if i = 11 then ret_int (sys_dup s)
      else if i = 12 then ret_int (sys_read devsw env s)
      else if i = 13 then ret_int (sys_write devsw env s)
      else if i = 14 then ret_int (sys_close s)
      else if i = 15 then ret_int (sys_fstat s)
      else if i = 16 then ret_int (sys_link s)
      else if i = 17 then ret_int (sys_unlink s)
      else if i = 18 then ret_int (sys_open s)
      else if i = 19 then ret_int (sys_mkdir s)
      else if i = 20 then ret_int (sys_mknod s)
      else if i = 21 then ret_int (sys_chdir s)
      else ret_int (sys_pipe s))"

definition syscall_pg_table ::
  "('a kernel_state_scheme \<Rightarrow> 'a kernel_state_scheme kres) \<Rightarrow> nat \<Rightarrow> nat \<Rightarrow> 'a kernel_state_scheme \<Rightarrow> (u64 \<times> 'a kernel_state_scheme) kres" where
  "syscall_pg_table sw i p s =
     (if i = 0 then ret_int (kbind (get_pgroup_id s) (\<lambda>x. Ok (x, s)))
      else if i = 1 then ret_int (create_pgroup s)
      else if i = 2 then ret_int (enter_pgroup sw (int_arg p 0 s) s)
      else if i = 3 then ret_int (pgroup_cpu_count s)
      else if i = 4 then ret_int (inc_pgroup_cpus sw s)
      else if i = 5 then ret_int (dec_pgroup_cpus sw s)
      else if i = 6 then ret_int (pgroup_procs_count s)
      else if i = 7 then ret_int (proc_occupy_cpu s)
      else if i = 8 then ret_int (proc_release_cpu s)
      else ret_int (inc_pgroup_cpus_flex s))"

definition handle_db_syscall :: "nat \<Rightarrow> u64 \<Rightarrow> 'a kernel_state_scheme \<Rightarrow> (int \<times> 'a kernel_state_scheme) kres" where
  "handle_db_syscall p i s =
     (if i = 1000 then
        kbind (count_proc_num 65 s) (\<lambda>(n, s). Ok (0, set_tf (p_trap_frame (proc p s)) TF_A0 (word_of_int n) s))
      else Ok (-1, s))"

definition handle_syscall ::
  "(nat \<Rightarrow> 'a kernel_state_scheme devsw) \<Rightarrow> ('a kernel_state_scheme \<Rightarrow> 'a kernel_state_scheme kres) \<Rightarrow> 'a kernel_state_scheme switches \<Rightarrow>
     nat \<Rightarrow> 'a kernel_state_scheme \<Rightarrow> (int \<times> 'a kernel_state_scheme) kres" where
  "handle_syscall devsw sw env p s =
     (let tf = p_trap_frame (proc p s); i = arg p 7 s in
      if i \<ge> 100 \<and> i \<le> 109 then
        kbind (syscall_pg_table sw (unat (i - 100)) p s) (\<lambda>(r, s). Ok (0, set_tf tf TF_A0 r s))
      else if i \<le> 22 then
        kbind (syscall_table devsw sw env (unat i) p s) (\<lambda>(r, s). Ok (0, set_tf tf TF_A0 r s))
      else handle_db_syscall p i s)"

end
