(* ===== verification/Fs_Frame.thy ===== *)
theory Fs_Frame
  imports Sysfile
begin

text \<open>
  What the file system leaves alone. \<open>fs_frame\<close> is the interface: a view of the state that the fields
  of the file system, the log, the buffer cache, memory and the locks do not influence, and that does
  not see whether a process sleeps. Its lemmas: no operation of the file system changes such a view,
  whenever it returns.
\<close>

section \<open>Partial correctness\<close>

text \<open>\<open>kout P r\<close>: if the call returns, its result satisfies \<open>P\<close>.\<close>

definition kout :: "('a \<Rightarrow> bool) \<Rightarrow> 'a kres \<Rightarrow> bool" where
  "kout P r \<longleftrightarrow> (\<forall>x. r = Ok x \<longrightarrow> P x)"

named_theorems kout_intros "rules for kout, by the shape of the program"

lemma kout_simps [simp]: "kout P (Ok x) \<longleftrightarrow> P x" "kout P (Panic e)" "kout P Block" "kout P Hang"
  by (simp_all add: kout_def)

lemma kout_D: "kout P r \<Longrightarrow> r = Ok x \<Longrightarrow> P x"
  by (simp add: kout_def)

lemma kout_mono: "kout P r \<Longrightarrow> (\<And>x. P x \<Longrightarrow> Q x) \<Longrightarrow> kout Q r"
  by (simp add: kout_def)

lemma kout_bind: "kout (\<lambda>x. kout P (f x)) m \<Longrightarrow> kout P (kbind m f)"
  by (cases m) (auto simp: kout_def)

lemma kout_ignore: "(\<And>x. kout P (f x)) \<Longrightarrow> kout P (kbind m f)"
  by (cases m) auto

lemma kout_if [kout_intros]: "(b \<Longrightarrow> kout P x) \<Longrightarrow> (\<not> b \<Longrightarrow> kout P y) \<Longrightarrow> kout P (if b then x else y)"
  by simp

lemma kout_let [kout_intros]: "kout P (f v) \<Longrightarrow> kout P (let x = v in f x)"
  by simp

lemma kout_case_option [kout_intros]:
  "(x = None \<Longrightarrow> kout P a) \<Longrightarrow> (\<And>y. x = Some y \<Longrightarrow> kout P (f y)) \<Longrightarrow> kout P (case x of None \<Rightarrow> a | Some y \<Rightarrow> f y)"
  by (cases x) auto

lemma kout_case_prod [kout_intros]: "(\<And>a b. x = (a, b) \<Longrightarrow> kout P (f a b)) \<Longrightarrow> kout P (case x of (a, b) \<Rightarrow> f a b)"
  by (cases x) auto

lemma kout_case_prod_fun [kout_intros]: "(\<And>a b. x = (a, b) \<Longrightarrow> kout P (f a b t)) \<Longrightarrow> kout P ((case x of (a, b) \<Rightarrow> f a b) t)"
  by (cases x) auto

lemma kout_copy_res [kout_intros]:
  "(r = COPY_SUCCESS \<Longrightarrow> kout P a) \<Longrightarrow> (r = COPY_FAIL \<Longrightarrow> kout P b) \<Longrightarrow> (r = COPY_FINISH \<Longrightarrow> kout P c) \<Longrightarrow>
     kout P (case r of COPY_SUCCESS \<Rightarrow> a | COPY_FAIL \<Rightarrow> b | COPY_FINISH \<Rightarrow> c)"
  by (cases r) auto

lemma kout_kfold:
  assumes "\<And>i s. Q s \<Longrightarrow> kout Q (f i s)" "Q s"
  shows "kout Q (kfold f is s)"
  using assms(2)
proof (induction "is" arbitrary: s)
  case (Cons i js)
  show ?case
    by (simp, rule kout_bind, rule kout_mono [OF assms(1) [OF Cons.prems]]) (rule Cons.IH)
qed simp

lemma kout_kfor:
  assumes "\<And>i s. Q s \<Longrightarrow> kout (\<lambda>x. Q (snd x)) (f i s)" "Q s"
  shows "kout (\<lambda>x. Q (snd x)) (kfor f is s)"
  using assms(2)
proof (induction "is" arbitrary: s)
  case (Cons i js)
  show ?case
    by (simp, rule kout_bind, rule kout_mono [OF assms(1) [OF Cons.prems]]) (use Cons.IH in \<open>auto split: option.splits\<close>)
qed simp

section \<open>The interfaces\<close>

text \<open>A view of the state and the calls that leave it alone.\<close>

locale state_view =
  fixes view :: "'s \<Rightarrow> 'v"
begin

abbreviation keeps :: "'v \<Rightarrow> 's kres \<Rightarrow> bool" where
  "keeps K \<equiv> kout (\<lambda>t. view t = K)"

abbreviation keeps2 :: "'v \<Rightarrow> ('r \<times> 's) kres \<Rightarrow> bool" where
  "keeps2 K \<equiv> kout (\<lambda>x. view (snd x) = K)"

abbreviation keeps3 :: "'v \<Rightarrow> ('r \<times> 'q \<times> 's) kres \<Rightarrow> bool" where
  "keeps3 K \<equiv> kout (\<lambda>x. view (snd (snd x)) = K)"

lemma seqs [kout_intros]:
  "keeps K m1 \<Longrightarrow> (\<And>t. view t = K \<Longrightarrow> keeps K (f1 t)) \<Longrightarrow> keeps K (kbind m1 f1)"
  "keeps K m1 \<Longrightarrow> (\<And>t. view t = K \<Longrightarrow> keeps2 K (f2 t)) \<Longrightarrow> keeps2 K (kbind m1 f2)"
  "keeps K m1 \<Longrightarrow> (\<And>t. view t = K \<Longrightarrow> keeps3 K (f3 t)) \<Longrightarrow> keeps3 K (kbind m1 f3)"
  "keeps2 K m2 \<Longrightarrow> (\<And>r t. view t = K \<Longrightarrow> keeps K (g1 (r, t))) \<Longrightarrow> keeps K (kbind m2 g1)"
  "keeps2 K m2 \<Longrightarrow> (\<And>r t. view t = K \<Longrightarrow> keeps2 K (g2 (r, t))) \<Longrightarrow> keeps2 K (kbind m2 g2)"
  "keeps2 K m2 \<Longrightarrow> (\<And>r t. view t = K \<Longrightarrow> keeps3 K (g3 (r, t))) \<Longrightarrow> keeps3 K (kbind m2 g3)"
  "keeps3 K m3 \<Longrightarrow> (\<And>r b t. view t = K \<Longrightarrow> keeps K (h1 (r, b, t))) \<Longrightarrow> keeps K (kbind m3 h1)"
  "keeps3 K m3 \<Longrightarrow> (\<And>r b t. view t = K \<Longrightarrow> keeps2 K (h2 (r, b, t))) \<Longrightarrow> keeps2 K (kbind m3 h2)"
  by (cases m1; cases m2; cases m3; force)+

lemma loops [kout_intros]:
  "(\<And>i s. view s = K \<Longrightarrow> keeps K (f i s)) \<Longrightarrow> view s = K \<Longrightarrow> keeps K (kfold f is s)"
  "(\<And>i s. view s = K \<Longrightarrow> keeps2 K (g i s)) \<Longrightarrow> view s = K \<Longrightarrow> keeps2 K (kfor g is s)"
  by (rule kout_kfold, simp_all) (rule kout_kfor, simp_all)

end

locale fs_frame = state_view view
  for view :: "'a fs_state_scheme \<Rightarrow> 'v" +
  assumes view_lock: "view (s\<lparr>held := h, noff := n\<rparr>) = view s"
    and view_mem: "view (s\<lparr>mem := m\<rparr>) = view s"
    and view_mem_head: "view (s\<lparr>mem_head := p\<rparr>) = view s"
    and view_sleep: "view (upd_proc i (\<lambda>q. q\<lparr>p_status := st, p_chain := c\<rparr>) s) = view s"
    and view_bufs: "view (s\<lparr>bufs := b\<rparr>) = view s"
    and view_blinks: "view (s\<lparr>blinks := L\<rparr>) = view s"
    and view_disk: "view (s\<lparr>disk := d, wlog := w\<rparr>) = view s"
    and view_outstanding: "view (s\<lparr>log_outstanding := o1\<rparr>) = view s"
    and view_committing: "view (s\<lparr>log_committing := cm\<rparr>) = view s"
    and view_lh_n: "view (s\<lparr>lh_n := n1\<rparr>) = view s"
    and view_lh_block: "view (s\<lparr>lh_block := hb\<rparr>) = view s"
    and view_icache: "view (s\<lparr>icache := ic\<rparr>) = view s"
begin

lemmas view_simps [simp] = view_lock view_mem view_mem_head view_sleep view_bufs view_blinks view_disk
  view_outstanding view_committing view_lh_n view_lh_block view_icache

lemma upd_view [simp]:
  "view (upd_buf i f s) = view s" "view (set_buf_lock i l s) = view s" "view (set_buf_data i d s) = view s"
  "view (virtio_disk_rw i w s) = view s" "view (upd_ino ip g s) = view s" "view (set_ino_lock ip l s) = view s"
  "view (set_addr ip k a s) = view s"
  by (simp_all add: upd_buf_def set_buf_lock_def set_buf_data_def virtio_disk_rw_def upd_ino_def set_ino_lock_def set_addr_def Let_def)

lemma acquire_view [kout_intros]: "view s = K \<Longrightarrow> keeps K (acquire l s)"
  by (simp add: acquire_def)

lemma release_view [kout_intros]: "view s = K \<Longrightarrow> keeps K (release l s)"
  by (simp add: release_def)

lemma wake_up_view [kout_intros]: "view s = K \<Longrightarrow> keeps K (wake_up c s)"
  unfolding wake_up_def wake_up_one_def by ((intro kout_intros) | simp)+

lemma sleep_block_view [kout_intros]: "kout P (sleep_block l c s)"
  by (rule kout_ignore) simp

lemma kfree_view [kout_intros]: "view s = K \<Longrightarrow> keeps K (kfree p s)"
  unfolding kfree_def by ((intro kout_intros) | simp)+

lemma kalloc_view [kout_intros]: "view s = K \<Longrightarrow> keeps2 K (kalloc s)"
  unfolding kalloc_def by ((intro kout_intros) | simp)+

section \<open>Buffers and log\<close>

lemma acquiresleep_view [kout_intros]:
  "view s = K \<Longrightarrow> (\<And>l t. view (put l t) = view t) \<Longrightarrow> keeps K (acquiresleep lk c get put s)"
  unfolding acquiresleep_def by ((intro kout_intros) | simp)+

lemma releasesleep_view [kout_intros]:
  "view s = K \<Longrightarrow> (\<And>l t. view (put l t) = view t) \<Longrightarrow> keeps K (releasesleep lk c put s)"
  unfolding releasesleep_def by ((intro kout_intros) | simp)+

lemma holdingsleep_view [kout_intros]: "view s = K \<Longrightarrow> keeps2 K (holdingsleep lk get s)"
  unfolding holdingsleep_def by ((intro kout_intros) | simp)+

lemma list_walk_view [kout_intros]: "(\<And>xs. kout P (f xs)) \<Longrightarrow> kout P (kbind (list_walk n a b L) f)"
  by (rule kout_ignore)

lemma bread_view [kout_intros]: "view s = K \<Longrightarrow> keeps2 K (bread dev b s)"
  unfolding bread_def bget_def by ((intro kout_intros) | simp)+

lemma brelse_view [kout_intros]: "view s = K \<Longrightarrow> keeps K (brelse b s)"
  unfolding brelse_def by ((intro kout_intros) | simp)+

lemma bwrite_view [kout_intros]: "view s = K \<Longrightarrow> keeps K (bwrite b s)"
  unfolding bwrite_def by ((intro kout_intros) | simp)+

lemma pin_view [kout_intros]: "view s = K \<Longrightarrow> keeps K (bpin b s)" "view s = K \<Longrightarrow> keeps K (bunpin b s)"
  unfolding bpin_def bunpin_def by ((intro kout_intros) | simp)+

lemma write_log_view [kout_intros]: "view s = K \<Longrightarrow> keeps K (write_log s)"
  unfolding write_log_def write_log_one_def by ((intro kout_intros) | simp)+

lemma write_head_view [kout_intros]: "view s = K \<Longrightarrow> keeps K (write_head s)"
  unfolding write_head_def by ((intro kout_intros) | simp)+

lemma install_trans_view [kout_intros]: "view s = K \<Longrightarrow> keeps K (install_trans s)"
  unfolding install_trans_def install_one_def by ((intro kout_intros) | simp)+

lemma commit_view [kout_intros]: "view s = K \<Longrightarrow> keeps K (commit s)"
  unfolding commit_def by ((intro kout_intros) | simp)+

lemma begin_op_view [kout_intros]: "view s = K \<Longrightarrow> keeps K (begin_op s)"
  unfolding begin_op_def by ((intro kout_intros) | simp)+

lemma end_op_view [kout_intros]: "view s = K \<Longrightarrow> keeps K (end_op s)"
  unfolding end_op_def by ((intro kout_intros) | simp)+

lemma log_write_view [kout_intros]: "view s = K \<Longrightarrow> keeps K (log_write b s)"
  unfolding log_write_def by ((intro kout_intros) | simp)+

section \<open>Inodes\<close>

lemma bzero_view [kout_intros]: "view s = K \<Longrightarrow> keeps K (bzero dev b s)"
  unfolding bzero_def by ((intro kout_intros) | simp)+

lemma balloc_view [kout_intros]: "view s = K \<Longrightarrow> keeps2 K (balloc dev s)"
  unfolding balloc_def balloc_block_def by ((intro kout_intros) | simp)+

lemma bfree_view [kout_intros]: "view s = K \<Longrightarrow> keeps K (bfree dev b s)"
  unfolding bfree_def by ((intro kout_intros) | simp)+

lemma iget_view [kout_intros]: "view s = K \<Longrightarrow> keeps2 K (iget dev i s)"
  unfolding iget_def by ((intro kout_intros) | simp)+

lemma idup_view [kout_intros]: "view s = K \<Longrightarrow> keeps2 K (idup i s)"
  unfolding idup_def by ((intro kout_intros) | simp)+

lemma ialloc_view [kout_intros]: "view s = K \<Longrightarrow> keeps2 K (ialloc dev ty s)"
  unfolding ialloc_def ialloc_one_def by ((intro kout_intros) | simp)+

lemma iupdate_view [kout_intros]: "view s = K \<Longrightarrow> keeps K (iupdate ip s)"
  unfolding iupdate_def by ((intro kout_intros) | simp)+

lemma ilock_view [kout_intros]: "view s = K \<Longrightarrow> keeps K (ilock ip s)"
  unfolding ilock_def by ((intro kout_intros) | simp)+

lemma iunlock_view [kout_intros]: "view s = K \<Longrightarrow> keeps K (iunlock ip s)"
  unfolding iunlock_def by ((intro kout_intros) | simp)+

lemma bmap_view [kout_intros]: "view s = K \<Longrightarrow> keeps2 K (bmap ip bn s)"
  unfolding bmap_def addr_or_alloc_def by ((intro kout_intros) | simp)+

lemma itrunc_view [kout_intros]: "view s = K \<Longrightarrow> keeps K (itrunc ip s)"
  unfolding itrunc_def itrunc_direct_def itrunc_indirect_def by ((intro kout_intros) | simp)+

lemma iput_view [kout_intros]: "view s = K \<Longrightarrow> keeps K (iput ip s)"
  unfolding iput_def by ((intro kout_intros) | simp)+

lemma iunlockput_view [kout_intros]: "view s = K \<Longrightarrow> keeps K (iunlockput ip s)"
  unfolding iunlockput_def by ((intro kout_intros) | simp)+

section \<open>Contents and directories\<close>

lemma get_clear_page_view [kout_intros]: "view s = K \<Longrightarrow> keeps2 K (get_clear_page s)"
  unfolding get_clear_page_def by ((intro kout_intros) | simp)+

lemma walk_loop_view [kout_intros]: "view s = K \<Longrightarrow> keeps2 K (walk_loop n pt va al s)"
proof (induction n arbitrary: pt s)
  case (Suc n)
  show ?case
    unfolding walk_loop.simps using Suc.prems by ((intro kout_intros Suc.IH) | simp)+
qed simp

lemma walk_view [kout_intros]: "view s = K \<Longrightarrow> keeps2 K (walk pt va al s)"
  unfolding walk_def by ((intro kout_intros) | simp)+

lemma copy_loop_view [kout_intros]: "view s = K \<Longrightarrow> keeps2 K (copy_in_or_out_may_str pt uva kva sz way s)"
proof (induction "unat sz" arbitrary: uva kva sz s rule: less_induct)
  case less
  have step: "keeps2 K (copy_in_or_out_may_str pt u k (sz - chunk uva sz) way t)" if "view t = K" "sz > 0" for u k t
    by (rule less.hyps) (use that in \<open>auto simp: chunk_rest unat_chunk word_less_nat_alt\<close>)
  show ?case
    unfolding copy_in_or_out_may_str.simps [of pt uva kva sz way s] using less.prems
    by ((intro kout_intros kout_copy_res step) | simp)+
qed

lemmas copy_defs = copyin_def copyout_def copyinstr_def copyoutstr_def copy_in_def copy_out_def copy_in_str_def copy_out_str_def

lemma copyin_view [kout_intros]: "view s = K \<Longrightarrow> keeps2 K (copyin pt a b n s)"
  unfolding copy_defs by ((intro kout_intros) | simp)+

lemma copyout_view [kout_intros]: "view s = K \<Longrightarrow> keeps2 K (copyout pt a b n s)"
  unfolding copy_defs by ((intro kout_intros) | simp)+

lemma copyinstr_view [kout_intros]: "view s = K \<Longrightarrow> keeps2 K (copyinstr pt a b n s)"
  unfolding copy_defs by ((intro kout_intros) | simp)+

lemma copyout_uork_view [kout_intros]: "view s = K \<Longrightarrow> keeps2 K (copyout_uork pt a b n u s)"
  unfolding copyout_uork_def by ((intro kout_intros) | simp)+

lemma copyin_uork_view [kout_intros]: "view s = K \<Longrightarrow> keeps2 K (copyin_uork pt a b n u s)"
  unfolding copyin_uork_def by ((intro kout_intros) | simp)+

lemma my_pgtable_view [kout_intros]: "(\<And>pt. kout P (f pt)) \<Longrightarrow> kout P (kbind (my_pgtable s) f)"
  by (rule kout_ignore)

lemma either_copyout_view [kout_intros]: "view s = K \<Longrightarrow> keeps2 K (either_copyout u d bs s)"
  unfolding either_copyout_def by ((intro kout_intros) | simp)+

lemma either_copyin_view [kout_intros]: "view s = K \<Longrightarrow> keeps3 K (either_copyin old u d s)"
  unfolding either_copyin_def by ((intro kout_intros) | simp)+

lemma readi_loop_view [kout_intros]: "view s = K \<Longrightarrow> keeps2 K (readi_loop ip u n tot off a s)"
proof (induction "unat (n - tot)" arbitrary: tot off a s rule: less_induct)
  case less
  have step: "keeps2 K (readi_loop ip u n (tot + rw_chunk (n - tot) off) (off + rw_chunk (n - tot) off) b t)"
    if "view t = K" "tot < n" for b t
    by (rule less.hyps) (use that rw_chunk_measure in auto)
  show ?case
    unfolding readi_loop.simps [of ip u n tot] using less.prems by ((intro kout_intros step) | simp)+
qed

lemma writei_loop_view [kout_intros]: "view s = K \<Longrightarrow> keeps2 K (writei_loop ip u n tot off a s)"
proof (induction "unat (n - tot)" arbitrary: tot off a s rule: less_induct)
  case less
  have step: "keeps2 K (writei_loop ip u n (tot + rw_chunk (n - tot) off) (off + rw_chunk (n - tot) off) b t)"
    if "view t = K" "tot < n" for b t
    by (rule less.hyps) (use that rw_chunk_measure in auto)
  show ?case
    unfolding writei_loop.simps [of ip u n tot] using less.prems by ((intro kout_intros step) | simp)+
qed

lemma readi_view [kout_intros]: "view s = K \<Longrightarrow> keeps2 K (readi ip u d off n s)"
  unfolding readi_def by ((intro kout_intros) | simp)+

lemma writei_view [kout_intros]: "view s = K \<Longrightarrow> keeps2 K (writei ip u d off n s)"
  unfolding writei_def by ((intro kout_intros) | simp)+

lemma read_dirent_view [kout_intros]: "view s = K \<Longrightarrow> keeps2 K (read_dirent msg dp off s)"
  unfolding read_dirent_def by ((intro kout_intros) | simp)+

lemma dirlookup_view [kout_intros]: "view s = K \<Longrightarrow> keeps2 K (dirlookup dp name s)"
  unfolding dirlookup_def dirlookup_one_def by ((intro kout_intros) | simp)+

lemma dirlink_view [kout_intros]: "view s = K \<Longrightarrow> keeps2 K (dirlink dp name i s)"
  unfolding dirlink_def dirlink_one_def by ((intro kout_intros) | simp)+

lemma namex_loop_view [kout_intros]: "view s = K \<Longrightarrow> keeps2 K (namex_loop pth np name ip s)"
proof (induction "length pth" arbitrary: pth name ip s rule: less_induct)
  case less
  have step: "keeps2 K (namex_loop q np nm i t)" if "view t = K" "skipelem pth name = (Some q, nm)" for q nm i t
    by (rule less.hyps) (use that skipelem_shorter [OF that(2)] in auto)
  show ?case
    unfolding namex_loop.simps [of pth] using less.prems by ((intro kout_intros step) | simp)+
qed

lemma namex_view [kout_intros]: "view s = K \<Longrightarrow> keeps2 K (namex pth np name s)"
  unfolding namex_def by ((intro kout_intros) | simp)+

lemma namei_view [kout_intros]: "view s = K \<Longrightarrow> keeps2 K (namei pth s)"
  unfolding namei_def by ((intro kout_intros) | simp)+

lemma nameiparent_view [kout_intros]: "view s = K \<Longrightarrow> keeps2 K (nameiparent pth name s)"
  unfolding nameiparent_def by ((intro kout_intros) | simp)+

section \<open>System calls on paths\<close>

lemma argint_view [kout_intros]: "(\<And>v. kout P (f v)) \<Longrightarrow> kout P (kbind (argint n s) f)"
  by (rule kout_ignore)

lemma argaddr_view [kout_intros]: "(\<And>v. kout P (f v)) \<Longrightarrow> kout P (kbind (argaddr n s) f)"
  by (rule kout_ignore)

lemma myproc_view [kout_intros]: "(\<And>v. kout P (f v)) \<Longrightarrow> kout P (kbind (myproc s) f)"
  by (rule kout_ignore)

lemma argstr_view [kout_intros]: "view s = K \<Longrightarrow> keeps3 K (argstr n m s)"
  unfolding argstr_def fetchstr_def by ((intro kout_intros) | simp)+

lemma create_view [kout_intros]: "view s = K \<Longrightarrow> keeps2 K (create pth ty mj mn s)"
  unfolding create_def by ((intro kout_intros) | simp)+

lemma end_op_fail_view [kout_intros]: "view s = K \<Longrightarrow> keeps2 K (end_op_fail s)"
  unfolding end_op_fail_def by ((intro kout_intros) | simp)+

lemma copyout_int_view [kout_intros]: "view s = K \<Longrightarrow> keeps2 K (copyout_int pt a v s)"
  unfolding copyout_int_def by ((intro kout_intros) | simp)+

lemma sys_link_view [kout_intros]: "view s = K \<Longrightarrow> keeps2 K (sys_link s)"
  unfolding sys_link_def link_bad_def by ((intro kout_intros) | simp)+

lemma sys_unlink_view [kout_intros]: "view s = K \<Longrightarrow> keeps2 K (sys_unlink s)"
  unfolding sys_unlink_def isdirempty_def isdirempty_one_def unlink_bad_def by ((intro kout_intros) | simp)+

lemma sys_mkdir_view [kout_intros]: "view s = K \<Longrightarrow> keeps2 K (sys_mkdir s)"
  unfolding sys_mkdir_def by ((intro kout_intros) | simp)+

lemma sys_mknod_view [kout_intros]: "view s = K \<Longrightarrow> keeps2 K (sys_mknod s)"
  unfolding sys_mknod_def by ((intro kout_intros) | simp)+

end

end
