(* ===== verification/Descriptors.thy ===== *)
theory Descriptors
  imports Fs_Frame Process
begin

text \<open>
  Reference counts of open files: the fields \<open>ref\<close> of kernel/fs/file.c against the descriptors \<open>ofile\<close> of all processes,
  through the system calls of kernel/fs/sysfile.c and the loops of \<open>fork\<close> and \<open>exit\<close> in kernel/process/process.c.
\<close>

section \<open>References to open files\<close>

text \<open>The descriptors of all processes, and how many of them are the file \<open>f\<close>.\<close>

abbreviation ofiles :: "'a file_state_scheme \<Rightarrow> nat option list list" where
  "ofiles s \<equiv> map p_ofile (procs s)"

definition nrefs :: "nat \<Rightarrow> nat option list list \<Rightarrow> nat" where
  "nrefs f D = sum_list (map (\<lambda>ds. count_list ds (Some f)) D)"

text \<open>
  Every file has as many references as descriptors, plus the references \<open>E\<close> that calls in progress hold.
\<close>

definition fd_ok :: "(nat \<Rightarrow> int) \<Rightarrow> int list \<Rightarrow> nat option list list \<Rightarrow> bool" where
  "fd_ok E R D \<longleftrightarrow> length R = NFILE \<and> length D = STATIC_PROC_NUM \<and>
     (\<forall>ds \<in> set D. length ds = NOFILE \<and> (\<forall>f. Some f \<in> set ds \<longrightarrow> f < NFILE)) \<and>
     (\<forall>f < NFILE. R ! f = int (nrefs f D) + E f)"

abbreviation no_extra :: "nat \<Rightarrow> int" where "no_extra \<equiv> \<lambda>_. 0"

definition fd_inv :: "(nat \<Rightarrow> int) \<Rightarrow> 'a file_state_scheme \<Rightarrow> bool" where
  "fd_inv E s \<longleftrightarrow> fd_ok E (map f_ref (ftable s)) (ofiles s) \<and> (\<forall>p. my_proc s = Some p \<longrightarrow> p < STATIC_PROC_NUM)"

lemma count_list_update:
  "i < length xs \<Longrightarrow> int (count_list (xs[i := y]) x) = int (count_list xs x) + of_bool (y = x) - of_bool (xs ! i = x)"
proof (induction xs arbitrary: i)
  case (Cons a xs)
  then show ?case by (cases i) auto
qed simp

lemma sum_list_int_update:
  "i < length xs \<Longrightarrow> int (sum_list (xs[i := y])) = int (sum_list xs) + int y - int (xs ! i)"
proof (induction xs arbitrary: i)
  case (Cons a xs)
  then show ?case by (cases i) auto
qed simp

text \<open>Changing one descriptor.\<close>

definition put_fd :: "nat \<Rightarrow> nat \<Rightarrow> nat option \<Rightarrow> nat option list list \<Rightarrow> nat option list list" where
  "put_fd p fd x D = D[p := (D ! p)[fd := x]]"

lemma nrefs_put_fd:
  assumes "p < length D" "fd < length (D ! p)"
  shows "int (nrefs f (put_fd p fd x D)) = int (nrefs f D) + of_bool (x = Some f) - of_bool (D ! p ! fd = Some f)"
proof -
  let ?c = "\<lambda>ds. count_list ds (Some f)"
  have "map ?c (put_fd p fd x D) = (map ?c D)[p := ?c ((D ! p)[fd := x])]" by (simp add: put_fd_def map_update)
  then show ?thesis using assms by (simp add: nrefs_def sum_list_int_update count_list_update)
qed

lemma nrefs_pos: "p < length D \<Longrightarrow> Some f \<in> set (D ! p) \<Longrightarrow> 0 < nrefs f D"
proof -
  assume a: "p < length D" "Some f \<in> set (D ! p)"
  have "count_list (D ! p) (Some f) \<noteq> 0" using a(2) by (simp add: count_list_0_iff)
  moreover have "count_list (D ! p) (Some f) \<in> set (map (\<lambda>ds. count_list ds (Some f)) D)" using a(1) by simp
  then have "count_list (D ! p) (Some f) \<le> nrefs f D" unfolding nrefs_def by (rule member_le_sum_list) simp
  ultimately show ?thesis by simp
qed

lemma fd_ok_put:
  assumes "fd_ok E R D" "p < STATIC_PROC_NUM" "fd < NOFILE" "\<forall>f. x = Some f \<longrightarrow> f < NFILE"
  shows "fd_ok (\<lambda>f. E f - of_bool (x = Some f) + of_bool (D ! p ! fd = Some f)) R (put_fd p fd x D)"
proof -
  have l: "length (D ! p) = NOFILE" "p < length D" using assms by (auto simp: fd_ok_def)
  have "length ds = NOFILE \<and> (\<forall>f. Some f \<in> set ds \<longrightarrow> f < NFILE)" if "ds \<in> set (put_fd p fd x D)" for ds
  proof -
    have "ds \<in> set D \<or> ds = (D ! p)[fd := x]" using that set_update_subset_insert [of D p] by (auto simp: put_fd_def)
    moreover have "D ! p \<in> set D" using l by simp
    ultimately show ?thesis
      using assms(1,4) set_update_subset_insert [of "D ! p" fd x] unfolding fd_ok_def by (metis insert_iff length_list_update subsetD)
  qed
  then show ?thesis using assms l nrefs_put_fd [of p D fd _ x] by (auto simp: fd_ok_def put_fd_def)
qed

lemma fd_ok_ref:
  assumes "fd_ok E R D" "f < NFILE"
  shows "fd_ok (E(f := E f + d)) (R[f := R ! f + d]) D"
  using assms by (auto simp: fd_ok_def nth_list_update)

section \<open>The operations on files\<close>

definition fd_view :: "'a file_state_scheme \<Rightarrow> int list \<times> nat option list list \<times> nat option" where
  "fd_view s = (map f_ref (ftable s), ofiles s, my_proc s)"

lemma map_update_same: "f y = f (xs ! i) \<Longrightarrow> map f (xs[i := y]) = map f xs"
  by (simp add: map_update) (metis list_update_id map_update)

interpretation fdv: fs_frame fd_view
  by unfold_locales (auto simp: fd_view_def my_proc_def upd_proc_def map_update_same)

lemma fd_inv_view: "fd_view t = fd_view s \<Longrightarrow> fd_inv E t \<longleftrightarrow> fd_inv E s"
  by (simp add: fd_view_def fd_inv_def)

lemma fd_view_upd_pipe [simp]: "fd_view (upd_pipe pi f s) = fd_view s"
  by (simp add: fd_view_def upd_pipe_def my_proc_def)

lemma pipeclose_view [kout_intros]: "fd_view s = K \<Longrightarrow> kout (\<lambda>t. fd_view t = K) (pipeclose pi w s)"
  unfolding pipeclose_def by ((intro kout_intros) | simp)+

text \<open>The references change to \<open>E\<close>, the descriptors and the process do not.\<close>

definition fd_step :: "(nat \<Rightarrow> int) \<Rightarrow> 'a file_state_scheme \<Rightarrow> 'a file_state_scheme \<Rightarrow> bool" where
  "fd_step E s t \<longleftrightarrow> fd_inv E t \<and> ofiles t = ofiles s \<and> my_proc t = my_proc s"

lemma fd_view_step: "fd_inv E s \<Longrightarrow> fd_view t = fd_view s \<Longrightarrow> fd_step E s t"
  using fd_inv_view [of t s E] by (simp add: fd_step_def fd_view_def)

lemma fd_step_trans: "fd_step E s t \<Longrightarrow> fd_step E' t u \<Longrightarrow> fd_step E' s u"
  by (simp add: fd_step_def)

lemma upd_ref:
  assumes "fd_inv E s" "f < NFILE" "\<And>x. f_ref (g x) = f_ref x + d"
  shows "fd_step (E(f := E f + d)) s (upd_file f g s)"
proof -
  have l: "f < length (ftable s)" using assms by (auto simp: fd_inv_def fd_ok_def)
  have "map f_ref (ftable (upd_file f g s)) = (map f_ref (ftable s))[f := map f_ref (ftable s) ! f + d]"
    using l assms(3) by (simp add: upd_file_def map_update)
  then show ?thesis using assms fd_ok_ref [of E "map f_ref (ftable s)" "ofiles s" f d]
    by (simp add: fd_step_def fd_inv_def) (simp add: upd_file_def my_proc_def)
qed

text \<open>Two calls in a row, by the view after the first.\<close>

lemma view_seq:
  assumes "kout (\<lambda>t. fd_view t = fd_view s) m" "\<And>t. fd_view t = fd_view s \<Longrightarrow> kout P (f t)"
  shows "kout P (kbind m f)"
  by (rule kout_bind) (rule kout_mono [OF assms(1)], rule assms(2))

lemma fd_step_D: "fd_step E s t \<Longrightarrow> fd_inv E t"
  by (simp add: fd_step_def)

lemma fd_step_view: "fd_step E s t \<Longrightarrow> fd_view u = fd_view t \<Longrightarrow> fd_step E s u"
  using fd_step_trans fd_view_step fd_step_D by blast

lemma fd_step_upd:
  "fd_step E s t \<Longrightarrow> f < NFILE \<Longrightarrow> (\<And>x. f_ref (g x) = f_ref x + d) \<Longrightarrow> fd_step (E(f := E f + d)) s (upd_file f g t)"
  using fd_step_trans upd_ref fd_step_D by blast

lemma unlock_step: "fd_step E s t \<Longrightarrow> kout (fd_step E s) (release l t)"
  by (rule kout_mono [OF fdv.release_view [OF refl]]) (rule fd_step_view)

lemma filealloc_refs:
  fixes s :: "'a file_state_scheme"
  assumes "fd_inv E s"
  shows "kout (\<lambda>(r, t). case r of None \<Rightarrow> fd_step E s t | Some f \<Rightarrow> f < NFILE \<and> fd_step (E(f := E f + 1)) s t) (filealloc s)"
  unfolding filealloc_def
proof (rule view_seq [OF fdv.acquire_view [OF refl]])
  fix t :: "'a file_state_scheme" assume v: "fd_view t = fd_view s"
  have t: "fd_step E s t" by (rule fd_view_step [OF assms v])
  have "kout (\<lambda>(r, t). case r of None \<Rightarrow> fd_step E s t | Some f \<Rightarrow> f < NFILE \<and> fd_step (E(f := E f + 1)) s t)
      (kbind (release FtableLock (upd_file f (\<lambda>f. f\<lparr>f_ref := 1\<rparr>) t)) (\<lambda>u. Ok (Some f, u)))"
    if "find_index (\<lambda>f. f_ref f = 0) (ftable t) = Some f" for f
  proof -
    note f = find_index_Some [OF that]
    have "f < NFILE" using f t by (auto simp: fd_step_def fd_inv_def fd_ok_def)
    moreover have "upd_file f (\<lambda>f. f\<lparr>f_ref := 1\<rparr>) t = upd_file f (\<lambda>f. f\<lparr>f_ref := f_ref f + 1\<rparr>) t"
      using f by (simp add: upd_file_def)
    ultimately have "fd_step (E(f := E f + 1)) s (upd_file f (\<lambda>f. f\<lparr>f_ref := 1\<rparr>) t)"
      using fd_step_upd [OF t, of f "\<lambda>f. f\<lparr>f_ref := f_ref f + 1\<rparr>" 1] by simp
    from kout_mono [OF unlock_step [OF this]] show ?thesis using \<open>f < NFILE\<close> by (auto intro!: kout_bind)
  qed
  moreover have "kout (\<lambda>(r, t). case r of None \<Rightarrow> fd_step E s t | Some f \<Rightarrow> f < NFILE \<and> fd_step (E(f := E f + 1)) s t)
      (kbind (release FtableLock t) (\<lambda>u. Ok (None, u)))"
    using unlock_step [OF t] by (auto intro!: kout_bind)
  ultimately show "kout (\<lambda>(r, t). case r of None \<Rightarrow> fd_step E s t | Some f \<Rightarrow> f < NFILE \<and> fd_step (E(f := E f + 1)) s t)
      (case find_index (\<lambda>f. f_ref f = 0) (ftable t) of
        Some f \<Rightarrow> kbind (release FtableLock (upd_file f (\<lambda>f. f\<lparr>f_ref := 1\<rparr>) t)) (\<lambda>s. Ok (Some f, s))
      | None \<Rightarrow> kbind (release FtableLock t) (\<lambda>s. Ok (None, s)))"
    by (auto split: option.splits)
qed

lemma filedup_refs:
  fixes s :: "'a file_state_scheme"
  assumes "fd_inv E s" "f < NFILE"
  shows "kout (\<lambda>(r, t). r = f \<and> fd_step (E(f := E f + 1)) s t) (filedup f s)"
  unfolding filedup_def
proof (rule view_seq [OF fdv.acquire_view [OF refl]], rule kout_if)
  fix t :: "'a file_state_scheme" assume v: "fd_view t = fd_view s"
  have t: "fd_step E s t" by (rule fd_view_step [OF assms(1) v])
  have "fd_step (E(f := E f + 1)) s (upd_file f (\<lambda>f. f\<lparr>f_ref := f_ref f + 1\<rparr>) t)"
    by (rule fd_step_upd [OF t assms(2)]) simp
  from unlock_step [OF this] show "kout (\<lambda>(r, t). r = f \<and> fd_step (E(f := E f + 1)) s t)
    (kbind (release FtableLock (upd_file f (\<lambda>f. f\<lparr>f_ref := f_ref f + 1\<rparr>) t)) (\<lambda>s. Ok (f, s)))"
    by (auto intro!: kout_bind)
qed simp

lemma fileclose_refs:
  fixes s :: "'a file_state_scheme"
  assumes "fd_inv E s" "f < NFILE"
  shows "kout (fd_step (E(f := E f - 1)) s) (fileclose f s)"
  unfolding fileclose_def Let_def
proof (rule view_seq [OF fdv.acquire_view [OF refl]], rule kout_if)
  fix t :: "'a file_state_scheme" assume v: "fd_view t = fd_view s" and r: "\<not> f_ref (ofile f t) < 1"
  let ?E = "E(f := E f - 1)" and ?u = "upd_file f (\<lambda>f. f\<lparr>f_ref := f_ref f - 1\<rparr>) t"
  let ?w = "upd_file f (\<lambda>f. f\<lparr>f_ref := 0, f_type := FD_NONE\<rparr>) ?u"
  have t: "fd_step E s t" by (rule fd_view_step [OF assms(1) v])
  then have l: "f < length (ftable t)" using assms(2) by (auto simp: fd_step_def fd_inv_def fd_ok_def)
  have u: "fd_step ?E s ?u"
    using fd_step_upd [OF t assms(2), of "\<lambda>f. f\<lparr>f_ref := f_ref f - 1\<rparr>" "-1"] by simp
  show "kout (fd_step ?E s)
     (if 0 < f_ref (ofile f ?u) then release FtableLock ?u
      else kbind (release FtableLock ?w) (\<lambda>s.
         if f_type (ofile f ?u) = FD_PIPE then pipeclose (f_pipe (ofile f ?u)) (f_writable (ofile f ?u)) s
         else if f_type (ofile f ?u) = FD_INODE \<or> f_type (ofile f ?u) = FD_DEVICE then
           kbind (begin_op s) (\<lambda>s. kbind (file_iput (ofile f ?u) s) end_op)
         else Ok s))"
  proof (rule kout_if)
    assume "\<not> 0 < f_ref (ofile f ?u)"
    then have "f_ref (ofile f ?u) = 0" using r l by (simp add: upd_file_def)
    then have "fd_view ?w = fd_view ?u" using l by (simp add: fd_view_def upd_file_def map_update my_proc_def)
    then have w: "fd_step ?E s ?w" by (rule fd_step_view [OF u])
    have "kout (\<lambda>x. fd_view x = fd_view ?w) (kbind (release FtableLock ?w) (\<lambda>s.
         if f_type (ofile f ?u) = FD_PIPE then pipeclose (f_pipe (ofile f ?u)) (f_writable (ofile f ?u)) s
         else if f_type (ofile f ?u) = FD_INODE \<or> f_type (ofile f ?u) = FD_DEVICE then
           kbind (begin_op s) (\<lambda>s. kbind (file_iput (ofile f ?u) s) end_op)
         else Ok s))"
      unfolding file_iput_def by ((intro kout_intros) | simp)+
    then show "kout (fd_step ?E s) (kbind (release FtableLock ?w) (\<lambda>s.
         if f_type (ofile f ?u) = FD_PIPE then pipeclose (f_pipe (ofile f ?u)) (f_writable (ofile f ?u)) s
         else if f_type (ofile f ?u) = FD_INODE \<or> f_type (ofile f ?u) = FD_DEVICE then
           kbind (begin_op s) (\<lambda>s. kbind (file_iput (ofile f ?u) s) end_op)
         else Ok s))"
      by (rule kout_mono) (rule fd_step_view [OF w])
  qed (rule unlock_step [OF u])
qed simp

section \<open>The system calls\<close>

lemma set_ofile_refs:
  assumes "fd_inv E s" "p < STATIC_PROC_NUM" "fd < NOFILE" "\<forall>f. x = Some f \<longrightarrow> f < NFILE"
  shows "fd_inv (\<lambda>f. E f - of_bool (x = Some f) + of_bool (p_ofile (proc p s) ! fd = Some f)) (set_ofile p fd x s)"
    "ofiles (set_ofile p fd x s) = put_fd p fd x (ofiles s)" "my_proc (set_ofile p fd x s) = my_proc s"
proof -
  have l: "p < length (procs s)" using assms(1,2) by (auto simp: fd_inv_def fd_ok_def)
  then show o: "ofiles (set_ofile p fd x s) = put_fd p fd x (ofiles s)"
    by (simp add: set_ofile_def upd_proc_def put_fd_def map_update)
  show m: "my_proc (set_ofile p fd x s) = my_proc s" by (simp add: set_ofile_def)
  have f: "ftable (set_ofile p fd x s) = ftable s" by (simp add: set_ofile_def upd_proc_def)
  show "fd_inv (\<lambda>f. E f - of_bool (x = Some f) + of_bool (p_ofile (proc p s) ! fd = Some f)) (set_ofile p fd x s)"
    using fd_ok_put [of E "map f_ref (ftable s)" "ofiles s" p fd x] assms l by (simp add: fd_inv_def o m f)
qed

lemma argfd_D:
  assumes "argfd n s = Ok (Some (fd, f))" "fd_inv E s"
  obtains p where "my_proc s = Some p" "p < STATIC_PROC_NUM" "fd < NOFILE" "p_ofile (proc p s) ! fd = Some f" "f < NFILE"
proof -
  obtain p where p: "my_proc s = Some p" "fd < NOFILE" "p_ofile (proc p s) ! fd = Some f"
    using assms(1) by (auto simp: argfd_def argint_def argraw_def myproc_def split: option.splits if_splits)
  then have q: "p < STATIC_PROC_NUM" using assms(2) by (simp add: fd_inv_def)
  then have "ofiles s ! p \<in> set (ofiles s)" "ofiles s ! p = p_ofile (proc p s)" using assms(2) by (auto simp: fd_inv_def fd_ok_def)
  then have "length (p_ofile (proc p s)) = NOFILE" "\<forall>g. Some g \<in> set (p_ofile (proc p s)) \<longrightarrow> g < NFILE"
    using assms(2) by (auto simp: fd_inv_def fd_ok_def)
  then have "f < NFILE" using p nth_mem [of fd "p_ofile (proc p s)"] by auto
  then show ?thesis using that p q by blast
qed

lemma kout_seq: "kout Q m \<Longrightarrow> (\<And>x. m = Ok x \<Longrightarrow> Q x \<Longrightarrow> kout P (f x)) \<Longrightarrow> kout P (kbind m f)"
  by (cases m) auto

lemma kout_any: "(\<And>x. m = Ok x \<Longrightarrow> kout P (f x)) \<Longrightarrow> kout P (kbind m f)"
  by (cases m) auto

text \<open>The same as rules for a call followed by the rest of the caller.\<close>

lemma filealloc_bind:
  assumes "fd_inv E s" "\<And>t. fd_inv E t \<Longrightarrow> kout P (f (None, t))"
    "\<And>g t. g < NFILE \<Longrightarrow> fd_inv (E(g := E g + 1)) t \<Longrightarrow> kout P (f (Some g, t))"
  shows "kout P (kbind (filealloc s) f)"
proof (rule kout_seq [OF filealloc_refs [OF assms(1)]])
  fix x assume x: "case x of (r, t) \<Rightarrow> case r of None \<Rightarrow> fd_step E s t | Some g \<Rightarrow> g < NFILE \<and> fd_step (E(g := E g + 1)) s t"
  obtain r t where [simp]: "x = (r, t)" by fastforce
  show "kout P (f x)" using x assms(2,3) by (cases r) (auto dest: fd_step_D)
qed

lemma filedup_bind:
  assumes "fd_inv E s" "g < NFILE" "\<And>t. fd_step (E(g := E g + 1)) s t \<Longrightarrow> kout P (f (g, t))"
  shows "kout P (kbind (filedup g s) f)"
  by (rule kout_seq [OF filedup_refs [OF assms(1,2)]]) (auto intro: assms)

lemma fileclose_bind:
  assumes "fd_inv E s" "g < NFILE" "\<And>t. fd_step (E(g := E g - 1)) s t \<Longrightarrow> kout P (f t)"
  shows "kout P (kbind (fileclose g s) f)"
  by (rule kout_seq [OF fileclose_refs [OF assms(1,2)]]) (auto intro: assms)

lemma fdalloc_bind:
  assumes "fd_inv E s" "g < NFILE" "\<And>r. r < 0 \<Longrightarrow> kout P (f (r, s))"
    and ok: "\<And>p fd t. my_proc s = Some p \<Longrightarrow> p < STATIC_PROC_NUM \<Longrightarrow> fd < NOFILE \<Longrightarrow> p_ofile (proc p s) ! fd = None \<Longrightarrow>
      t = set_ofile p fd (Some g) s \<Longrightarrow> fd_inv (E(g := E g - 1)) t \<Longrightarrow> kout P (f (int fd, t))"
  shows "kout P (kbind (fdalloc g s) f)"
proof (cases "my_proc s")
  case (Some p)
  have q: "p < STATIC_PROC_NUM" using Some assms(1) by (simp add: fd_inv_def)
  show ?thesis
  proof (cases "find_index (\<lambda>x. x = None) (take NOFILE (p_ofile (proc p s)))")
    case fd: (Some fd)
    have i: "fd < NOFILE" "p_ofile (proc p s) ! fd = None" using find_index_Some [OF fd] by auto
    have "(\<lambda>h. E h - of_bool (Some g = Some h) + of_bool (p_ofile (proc p s) ! fd = Some h)) = E(g := E g - 1)"
      using i by auto
    then have "fd_inv (E(g := E g - 1)) (set_ofile p fd (Some g) s)"
      using set_ofile_refs(1) [OF assms(1) q i(1), of "Some g"] assms(2) by simp
    from ok [OF Some q i refl this] show ?thesis using fd Some by (simp add: fdalloc_def myproc_def)
  qed (use Some assms(3) in \<open>simp add: fdalloc_def myproc_def\<close>)
qed (simp add: fdalloc_def myproc_def)

text \<open>Taking a file out of a descriptor leaves a reference to it with the caller.\<close>

lemma clear_fd_refs:
  assumes "fd_inv E s" "p < STATIC_PROC_NUM" "fd < NOFILE" "p_ofile (proc p s) ! fd = Some g"
  shows "fd_inv (E(g := E g + 1)) (set_ofile p fd None s)"
proof -
  have "(\<lambda>h. E h - of_bool (None = Some h) + of_bool (p_ofile (proc p s) ! fd = Some h)) = E(g := E g + 1)"
    using assms(4) by auto
  then show ?thesis using set_ofile_refs(1) [OF assms(1-3), of None] by simp
qed

text \<open>The calls keep the references, whatever they return.\<close>

abbreviation refs_kept :: "(nat \<Rightarrow> int) \<Rightarrow> ('r \<times> 'a file_state_scheme) kres \<Rightarrow> bool" where
  "refs_kept E \<equiv> kout (\<lambda>x. fd_inv E (snd x))"

lemma sys_dup_refs: "fd_inv no_extra s \<Longrightarrow> refs_kept no_extra (sys_dup s)"
  unfolding sys_dup_def
  by (rule kout_any, intro kout_case_option kout_case_prod)
    (auto elim!: argfd_D intro!: fdalloc_bind filedup_bind simp: fd_step_def fun_upd_idem)

lemma close_refs:
  assumes "fd_inv no_extra s" "argfd 0 s = Ok (Some (fd, f))"
  shows "refs_kept no_extra (kbind (myproc s) (\<lambda>p. kbind (fileclose f (set_ofile p fd None s)) (\<lambda>s. Ok (0, s))))"
proof -
  obtain p where p: "my_proc s = Some p" "p < STATIC_PROC_NUM" "fd < NOFILE" "p_ofile (proc p s) ! fd = Some f" and f: "f < NFILE"
    using argfd_D [OF assms(2,1)] by blast
  have "refs_kept no_extra (kbind (fileclose f (set_ofile p fd None s)) (\<lambda>s. Ok (0, s)))"
    by (rule fileclose_bind [OF clear_fd_refs [OF assms(1) p(2-4)] f]) (simp add: fd_step_def fun_upd_idem)
  then show ?thesis using p(1) by (simp add: myproc_def)
qed

lemma sys_close_refs: "fd_inv no_extra s \<Longrightarrow> refs_kept no_extra (sys_close s)"
  unfolding sys_close_def
  by (rule kout_any, intro kout_case_option kout_case_prod) (auto intro!: close_refs)

lemma view_refs: "kout (\<lambda>x. fd_view (snd x) = fd_view s) m \<Longrightarrow> fd_inv E s \<Longrightarrow> refs_kept E m"
proof -
  assume a: "kout (\<lambda>x. fd_view (snd x) = fd_view s) m" "fd_inv E s"
  show ?thesis by (rule kout_mono [OF a(1)]) (use a(2) fd_inv_view in blast)
qed

lemma fd_view_upd_file [simp]: "(\<And>x. f_ref (g x) = f_ref x) \<Longrightarrow> fd_view (upd_file f g s) = fd_view s"
  by (simp add: fd_view_def upd_file_def map_update_same my_proc_def)

lemma open_file_refs:
  fixes s :: "'a file_state_scheme"
  assumes "fd_inv no_extra s"
  shows "refs_kept no_extra
     (let s = (if i_type (ino ip s) = T_DEVICE
               then upd_file f (\<lambda>x. x\<lparr>f_type := FD_DEVICE, f_major := i_major (ino ip s)\<rparr>) s
               else upd_file f (\<lambda>x. x\<lparr>f_type := FD_INODE, f_off := 0\<rparr>) s);
          s = upd_file f (\<lambda>x. x\<lparr>f_ip := Some ip, f_readable := (omode AND O_WRONLY = 0),
                f_writable := (omode AND O_WRONLY \<noteq> 0 \<or> omode AND O_RDWR \<noteq> 0)\<rparr>) s in
      kbind (if omode AND O_TRUNC \<noteq> 0 \<and> i_type (ino ip s) = T_FILE then itrunc ip s else Ok s) (\<lambda>s.
      kbind (iunlock (Some ip) s) (\<lambda>s.
      kbind (end_op s) (\<lambda>s. Ok (fd, s)))))"
  by (rule view_refs [OF _ assms]) ((intro kout_intros) | simp)+

lemma open_fail_refs:
  fixes s :: "'a file_state_scheme"
  assumes "fd_inv E s"
  shows "refs_kept E (kbind (iunlockput ip s) end_op_fail)"
  by (rule view_refs [OF _ assms]) ((intro kout_intros) | simp)+

lemma install_refs:
  fixes s :: "'a file_state_scheme"
  assumes "fd_inv (no_extra(g := 0 + 1)) s" "g < NFILE"
    "\<And>u. fd_inv no_extra u \<Longrightarrow> refs_kept no_extra (B u)" "\<And>r u. fd_inv no_extra u \<Longrightarrow> refs_kept no_extra (A r u)"
  shows "refs_kept no_extra (kbind (fdalloc g s) (\<lambda>(fd, s). if fd < 0 then kbind (fileclose g s) B else A fd s))"
  by (rule fdalloc_bind [OF assms(1,2)])
    (auto intro!: fileclose_bind [OF assms(1,2)] assms(3,4) dest!: fd_step_D simp: fun_upd_idem)

lemma open_inode_refs:
  fixes s :: "'a file_state_scheme"
  assumes "fd_inv no_extra s"
  shows "refs_kept no_extra (open_inode ip omode s)"
  unfolding open_inode_def
  by (rule kout_if [OF open_fail_refs [OF assms]], rule filealloc_bind [OF assms], simp_all only: prod.case option.case)
    (erule open_fail_refs, rule install_refs, assumption+, erule open_fail_refs, erule open_file_refs)

lemma inv_seqs:
  "fd_inv E s \<Longrightarrow> kout (\<lambda>t. fd_view t = fd_view s) m1 \<Longrightarrow> (\<And>t. fd_inv E t \<Longrightarrow> kout P (f1 t)) \<Longrightarrow> kout P (kbind m1 f1)"
  "fd_inv E s \<Longrightarrow> kout (\<lambda>x. fd_view (snd x) = fd_view s) m2 \<Longrightarrow> (\<And>r t. fd_inv E t \<Longrightarrow> kout P (f2 (r, t))) \<Longrightarrow> kout P (kbind m2 f2)"
  "fd_inv E s \<Longrightarrow> kout (\<lambda>x. fd_view (snd (snd x)) = fd_view s) m3 \<Longrightarrow> (\<And>r b t. fd_inv E t \<Longrightarrow> kout P (f3 (r, b, t))) \<Longrightarrow>
     kout P (kbind m3 f3)"
proof -
  show "kout P (kbind m1 f1)" if "fd_inv E s" "kout (\<lambda>t. fd_view t = fd_view s) m1" "\<And>t. fd_inv E t \<Longrightarrow> kout P (f1 t)"
    by (rule kout_seq [OF that(2)]) (use that(1,3) fd_inv_view in blast)
  show "kout P (kbind m2 f2)" if "fd_inv E s" "kout (\<lambda>x. fd_view (snd x) = fd_view s) m2" "\<And>r t. fd_inv E t \<Longrightarrow> kout P (f2 (r, t))"
    by (rule kout_seq [OF that(2)]) (metis that(1,3) fd_inv_view surjective_pairing)
  show "kout P (kbind m3 f3)"
    if "fd_inv E s" "kout (\<lambda>x. fd_view (snd (snd x)) = fd_view s) m3" "\<And>r b t. fd_inv E t \<Longrightarrow> kout P (f3 (r, b, t))"
    by (rule kout_seq [OF that(2)]) (metis that(1,3) fd_inv_view surjective_pairing)
qed

lemma sys_open_refs:
  fixes s :: "'a file_state_scheme"
  assumes "fd_inv no_extra s"
  shows "refs_kept no_extra (sys_open s)"
  unfolding sys_open_def Let_def
proof (rule inv_seqs(3) [OF assms fdv.argstr_view [OF refl]], simp only: prod.case, intro kout_if fdv.argint_view)
  fix r b v and t :: "'a file_state_scheme" assume t: "fd_inv no_extra t"
  show "refs_kept no_extra (Ok (-1, t))" using t by simp
  let ?om = "word_of_int v :: u32"
  have fail: "refs_kept no_extra (end_op_fail u)" if "fd_inv no_extra u" for u :: "'a file_state_scheme"
    by (rule view_refs [OF fdv.end_op_fail_view [OF refl] that])
  have try_open: "refs_kept no_extra (kbind (ilock (Some ip) u) (\<lambda>s. if i_type (ino ip s) = T_DIR \<and> v \<noteq> 0
      then kbind (iunlockput ip s) end_op_fail else open_inode ip ?om s))" if "fd_inv no_extra u" for ip and u :: "'a file_state_scheme"
    by (rule inv_seqs(1) [OF that fdv.ilock_view [OF refl]]) (intro kout_if open_fail_refs open_inode_refs)
  show "refs_kept no_extra (kbind (begin_op t) (\<lambda>s.
       if ?om AND O_CREATE \<noteq> 0 then
         kbind (create b T_FILE 0 0 s) (\<lambda>(ip, s). case ip of None \<Rightarrow> end_op_fail s | Some ip \<Rightarrow> open_inode ip ?om s)
       else
         kbind (namei b s) (\<lambda>(ip, s). case ip of None \<Rightarrow> end_op_fail s | Some ip \<Rightarrow>
           kbind (ilock (Some ip) s) (\<lambda>s.
           if i_type (ino ip s) = T_DIR \<and> v \<noteq> 0 then kbind (iunlockput ip s) end_op_fail else open_inode ip ?om s))))"
  proof (rule inv_seqs(1) [OF t fdv.begin_op_view [OF refl]], rule kout_if)
    fix u :: "'a file_state_scheme" assume u: "fd_inv no_extra u"
    show "refs_kept no_extra (kbind (create b T_FILE 0 0 u) (\<lambda>(ip, s). case ip of None \<Rightarrow> end_op_fail s | Some ip \<Rightarrow> open_inode ip ?om s))"
      by (rule inv_seqs(2) [OF u fdv.create_view [OF refl]]) (auto split: option.splits intro: fail open_inode_refs)
    show "refs_kept no_extra (kbind (namei b u) (\<lambda>(ip, s). case ip of None \<Rightarrow> end_op_fail s | Some ip \<Rightarrow>
           kbind (ilock (Some ip) s) (\<lambda>s.
           if i_type (ino ip s) = T_DIR \<and> v \<noteq> 0 then kbind (iunlockput ip s) end_op_fail else open_inode ip ?om s)))"
      by (rule inv_seqs(2) [OF u fdv.namei_view [OF refl]]) (auto split: option.splits intro: fail try_open)
  qed
qed

section \<open>Pipes\<close>

lemma fd_inv_eq: "fd_inv E s \<Longrightarrow> (\<And>f. E f = E' f) \<Longrightarrow> fd_inv E' s"
  by (metis ext)

text \<open>One more reference with the caller.\<close>

abbreviation one_more :: "nat \<Rightarrow> (nat \<Rightarrow> int) \<Rightarrow> nat \<Rightarrow> int" where
  "one_more g E \<equiv> E(g := E g + 1)"

lemma close2_refs:
  fixes s :: "'a file_state_scheme"
  assumes "fd_inv (one_more g (one_more f E)) s" "f < NFILE" "g < NFILE" "\<And>t. fd_inv E t \<Longrightarrow> kout P (h t)"
  shows "kout P (kbind (fileclose f s) (\<lambda>s. kbind (fileclose g s) h))"
proof (rule fileclose_bind [OF assms(1,2)], drule fd_step_D, rule fileclose_bind [OF _ assms(3)], assumption, drule fd_step_D, rule assms(4))
qed (erule fd_inv_eq, simp)

definition pipe_refs :: "(nat \<Rightarrow> int) \<Rightarrow> (nat \<times> nat) option \<times> 'a file_state_scheme \<Rightarrow> bool" where
  "pipe_refs E x \<longleftrightarrow> (case x of (None, t) \<Rightarrow> fd_inv E t
     | (Some (f, g), t) \<Rightarrow> f < NFILE \<and> g < NFILE \<and> fd_inv (one_more g (one_more f E)) t)"

lemma pipealloc_refs:
  fixes s :: "'a file_state_scheme"
  assumes "fd_inv E s"
  shows "kout (pipe_refs E) (pipealloc s)"
  unfolding pipealloc_def
proof (rule filealloc_bind [OF assms], simp_all only: prod.case option.case)
  fix f and t :: "'a file_state_scheme" assume f: "f < NFILE" and t: "fd_inv (one_more f E) t"
  show "kout (pipe_refs E)
     (kbind (filealloc t) (\<lambda>(f1, s).
       case f1 of None \<Rightarrow> kbind (fileclose f s) (\<lambda>s. Ok (None, s)) | Some f1 \<Rightarrow>
         kbind (kalloc s) (\<lambda>(pi, s).
         if pi = 0 then kbind (fileclose f s) (\<lambda>s. kbind (fileclose f1 s) (\<lambda>s. Ok (None, s)))
         else
           let s = upd_pipe pi (\<lambda>p. p\<lparr>pi_readopen := True, pi_writeopen := True, pi_nwrite := 0, pi_nread := 0\<rparr>) s;
               s = upd_file f (\<lambda>f. f\<lparr>f_type := FD_PIPE, f_readable := True, f_writable := False, f_pipe := pi\<rparr>) s;
               s = upd_file f1 (\<lambda>f. f\<lparr>f_type := FD_PIPE, f_readable := False, f_writable := True, f_pipe := pi\<rparr>) s
           in Ok (Some (f, f1), s))))"
  proof (rule filealloc_bind [OF t], simp_all only: prod.case option.case)
    fix u :: "'a file_state_scheme" assume u: "fd_inv (one_more f E) u"
    show "kout (pipe_refs E) (kbind (fileclose f u) (\<lambda>s. Ok (None, s)))"
      by (rule fileclose_bind [OF u f]) (auto simp: pipe_refs_def dest: fd_step_D)
  next
    fix g and u :: "'a file_state_scheme" assume g: "g < NFILE" and u: "fd_inv (one_more g (one_more f E)) u"
    show "kout (pipe_refs E)
      (kbind (kalloc u) (\<lambda>(pi, s).
         if pi = 0 then kbind (fileclose f s) (\<lambda>s. kbind (fileclose g s) (\<lambda>s. Ok (None, s)))
         else
           let s = upd_pipe pi (\<lambda>p. p\<lparr>pi_readopen := True, pi_writeopen := True, pi_nwrite := 0, pi_nread := 0\<rparr>) s;
               s = upd_file f (\<lambda>f. f\<lparr>f_type := FD_PIPE, f_readable := True, f_writable := False, f_pipe := pi\<rparr>) s;
               s = upd_file g (\<lambda>f. f\<lparr>f_type := FD_PIPE, f_readable := False, f_writable := True, f_pipe := pi\<rparr>) s
           in Ok (Some (f, g), s)))"
    proof (rule inv_seqs(2) [OF u fdv.kalloc_view [OF refl]], simp only: prod.case, rule kout_if)
      fix v :: "'a file_state_scheme" assume v: "fd_inv (one_more g (one_more f E)) v"
      show "kout (pipe_refs E) (kbind (fileclose f v) (\<lambda>s. kbind (fileclose g s) (\<lambda>s. Ok (None, s))))"
        by (rule close2_refs [OF v f g]) (simp add: pipe_refs_def)
      fix pi
      let ?w = "upd_file g (\<lambda>f. f\<lparr>f_type := FD_PIPE, f_readable := False, f_writable := True, f_pipe := pi\<rparr>)
        (upd_file f (\<lambda>f. f\<lparr>f_type := FD_PIPE, f_readable := True, f_writable := False, f_pipe := pi\<rparr>)
          (upd_pipe pi (\<lambda>p. p\<lparr>pi_readopen := True, pi_writeopen := True, pi_nwrite := 0, pi_nread := 0\<rparr>) v))"
      have "fd_view ?w = fd_view v" by simp
      then have "fd_inv (one_more g (one_more f E)) ?w" using v fd_inv_view by blast
      then show "kout (pipe_refs E)
         (let s = upd_pipe pi (\<lambda>p. p\<lparr>pi_readopen := True, pi_writeopen := True, pi_nwrite := 0, pi_nread := 0\<rparr>) v;
               s = upd_file f (\<lambda>f. f\<lparr>f_type := FD_PIPE, f_readable := True, f_writable := False, f_pipe := pi\<rparr>) s;
               s = upd_file g (\<lambda>f. f\<lparr>f_type := FD_PIPE, f_readable := False, f_writable := True, f_pipe := pi\<rparr>) s
           in Ok (Some (f, g), s))"
        unfolding Let_def kout_simps pipe_refs_def prod.case option.case using f g by blast
    qed
  qed
qed (simp add: pipe_refs_def)

interpretation mpv: fs_frame my_proc
  by unfold_locales (simp_all add: my_proc_def upd_proc_def)

lemma my_proc_upd [simp]: "my_proc (upd_file f g s) = my_proc s" "my_proc (upd_pipe pi h s) = my_proc s"
  by (simp_all add: my_proc_def upd_file_def upd_pipe_def)

lemma pipealloc_my_proc: "kout (\<lambda>x. my_proc (snd x) = my_proc s) (pipealloc s)"
  unfolding pipealloc_def filealloc_def fileclose_def file_iput_def pipeclose_def by ((intro kout_intros) | simp)+

lemma kout_conj: "kout P m \<Longrightarrow> kout Q m \<Longrightarrow> kout (\<lambda>x. P x \<and> Q x) m"
  by (simp add: kout_def)

lemma pipe_close_both_refs:
  fixes s :: "'a file_state_scheme"
  assumes "fd_inv (one_more g (one_more f E)) s" "f < NFILE" "g < NFILE"
  shows "refs_kept E (pipe_close_both f g s)"
  unfolding pipe_close_both_def by (rule close2_refs [OF assms]) simp

lemma other_fd:
  assumes "fd_inv E s" "p < STATIC_PROC_NUM" "p_ofile (proc p s) ! fd = Some f" "p_ofile (proc p s) ! fd' = None"
  shows "p_ofile (proc p (set_ofile p fd' x s)) ! fd = Some f"
proof -
  have "p < length (procs s)" using assms(1,2) by (auto simp: fd_inv_def fd_ok_def)
  moreover have "fd \<noteq> fd'" using assms(3,4) by auto
  ultimately show ?thesis using assms(3) by (simp add: set_ofile_def proc_upd_proc)
qed

lemma this_fd:
  assumes "fd_inv E s" "p < STATIC_PROC_NUM" "fd < NOFILE"
  shows "p_ofile (proc p (set_ofile p fd x s)) ! fd = x"
proof -
  have "p < length (procs s)" "ofiles s ! p \<in> set (ofiles s)" using assms(1,2) by (auto simp: fd_inv_def fd_ok_def)
  then have "length (p_ofile (proc p s)) = NOFILE" using assms(1) by (auto simp: fd_inv_def fd_ok_def)
  then show ?thesis using assms(3) \<open>p < length (procs s)\<close> by (simp add: set_ofile_def proc_upd_proc)
qed

text \<open>The two copies to user memory, and undoing everything when one fails.\<close>

lemma pipe_copy_refs:
  fixes s :: "'a file_state_scheme"
  assumes s: "fd_inv no_extra s" and p: "p < STATIC_PROC_NUM" and i: "i < NOFILE" "j < NOFILE" and f: "f < NFILE" "g < NFILE"
    and fd: "p_ofile (proc p s) ! i = Some f" "p_ofile (proc p s) ! j = Some g" "i \<noteq> j"
  shows "refs_kept no_extra
    (kbind (copyout_int (p_pgtable (proc p s)) a (int i) s) (\<lambda>(r, s).
     kbind (if r < 0 then Ok (r, s) else copyout_int (p_pgtable (proc p s)) (a + 4) (int j) s) (\<lambda>(r, s).
     if r < 0 then pipe_close_both f g (set_ofile p (nat (int j)) None (set_ofile p (nat (int i)) None s))
     else Ok (0, s))))"
proof -
  have undo: "refs_kept no_extra (pipe_close_both f g (set_ofile p (nat (int j)) None (set_ofile p (nat (int i)) None u)))"
    if v: "fd_view u = fd_view s" for u :: "'a file_state_scheme"
  proof -
    have u: "fd_inv no_extra u" using s v fd_inv_view by blast
    have l: "p < length (procs u)" "p < length (procs s)" using u s p by (auto simp: fd_inv_def fd_ok_def)
    then have "p_ofile (proc p u) = p_ofile (proc p s)" using v nth_map [of p "procs u" p_ofile] nth_map [of p "procs s" p_ofile]
      by (simp add: fd_view_def del: nth_map)
    then have d: "p_ofile (proc p u) ! i = Some f" "p_ofile (proc p u) ! j = Some g" using fd by auto
    have 1: "fd_inv (one_more f no_extra) (set_ofile p i None u)" by (rule clear_fd_refs [OF u p i(1) d(1)])
    have "p_ofile (proc p (set_ofile p i None u)) ! j = Some g" using d fd(3) l by (simp add: set_ofile_def proc_upd_proc)
    then have "fd_inv (one_more g (one_more f no_extra)) (set_ofile p j None (set_ofile p i None u))"
      by (rule clear_fd_refs [OF 1 p i(2)])
    from pipe_close_both_refs [OF this f] show ?thesis by simp
  qed
  show ?thesis
    by (rule kout_seq [OF fdv.copyout_int_view [OF refl]], rule kout_case_prod, rule kout_seq [where Q = "\<lambda>x. fd_view (snd x) = fd_view s"])
      (auto intro!: kout_if kout_case_prod fdv.copyout_int_view undo dest: fd_inv_view [of _ s no_extra] simp: s)
qed

lemma pipe_second_refs:
  fixes t :: "'a file_state_scheme"
  assumes t: "fd_inv (one_more g no_extra) t" and f: "f < NFILE" "g < NFILE" and m: "my_proc t = Some p"
    and i: "i < NOFILE" "p_ofile (proc p t) ! i = Some f"
  shows "refs_kept no_extra (kbind (fdalloc g t) (\<lambda>(fd1, s).
         if fd1 < 0 then pipe_close_both f g (set_ofile p (nat (int i)) None s)
         else
           kbind (copyout_int (p_pgtable (proc p s)) a (int i) s) (\<lambda>(r, s).
           kbind (if r < 0 then Ok (r, s) else copyout_int (p_pgtable (proc p s)) (a + 4) fd1 s) (\<lambda>(r, s).
           if r < 0 then pipe_close_both f g (set_ofile p (nat fd1) None (set_ofile p (nat (int i)) None s))
           else Ok (0, s)))))"
proof -
  have p: "p < STATIC_PROC_NUM" using t m by (simp add: fd_inv_def)
  have "fd_inv (one_more g (one_more f no_extra)) (set_ofile p i None t)"
    by (rule fd_inv_eq [OF clear_fd_refs [OF t p i]]) auto
  from pipe_close_both_refs [OF this f]
  have fail: "refs_kept no_extra (pipe_close_both f g (set_ofile p i None t))" .
  have ok: "refs_kept no_extra
     (kbind (copyout_int (p_pgtable (proc p u)) a (int i) u) (\<lambda>(r, s).
      kbind (if r < 0 then Ok (r, s) else copyout_int (p_pgtable (proc p s)) (a + 4) (int j) s) (\<lambda>(r, s).
      if r < 0 then pipe_close_both f g (set_ofile p (nat (int j)) None (set_ofile p (nat (int i)) None s))
      else Ok (0, s))))"
    if u: "u = set_ofile p j (Some g) t" "fd_inv ((one_more g no_extra)(g := one_more g no_extra g - 1)) u"
      and j: "j < NOFILE" "p_ofile (proc p t) ! j = None" for j and u :: "'a file_state_scheme"
  proof -
    have 1: "fd_inv no_extra u" by (rule fd_inv_eq [OF u(2)]) simp
    have 2: "p_ofile (proc p u) ! i = Some f" unfolding u(1) by (rule other_fd [OF t p i(2) j(2)])
    have 3: "p_ofile (proc p u) ! j = Some g" unfolding u(1) by (rule this_fd [OF t p j(1)])
    have "i \<noteq> j" using i(2) j(2) by auto
    from pipe_copy_refs [OF 1 p i(1) j(1) f 2 3 this] show ?thesis .
  qed
  show ?thesis
    by (rule fdalloc_bind [OF t f(2)]) (use fail ok m in auto)
qed

lemma pipe_install_refs:
  fixes s :: "'a file_state_scheme"
  assumes s: "fd_inv (one_more g (one_more f no_extra)) s" and f: "f < NFILE" "g < NFILE" and m: "my_proc s = Some p"
  shows "refs_kept no_extra
     (kbind (fdalloc f s) (\<lambda>(fd0, s).
       if fd0 < 0 then pipe_close_both f g s
       else
         kbind (fdalloc g s) (\<lambda>(fd1, s).
         if fd1 < 0 then pipe_close_both f g (set_ofile p (nat fd0) None s)
         else
           kbind (copyout_int (p_pgtable (proc p s)) a fd0 s) (\<lambda>(r, s).
           kbind (if r < 0 then Ok (r, s) else copyout_int (p_pgtable (proc p s)) (a + 4) fd1 s) (\<lambda>(r, s).
           if r < 0 then pipe_close_both f g (set_ofile p (nat fd1) None (set_ofile p (nat fd0) None s))
           else Ok (0, s))))))"
proof (rule fdalloc_bind [OF s f(1)], simp_all only: prod.case if_True)
  show "refs_kept no_extra (pipe_close_both f g s)" by (rule pipe_close_both_refs [OF s f])
next
  fix q i and t :: "'a file_state_scheme"
  assume q: "my_proc s = Some q" "q < STATIC_PROC_NUM" and i: "i < NOFILE"
    and t: "fd_inv ((one_more g (one_more f no_extra))(f := one_more g (one_more f no_extra) f - 1)) (set_ofile q i (Some f) s)"
  have [simp]: "q = p" using q(1) m by simp
  have t': "fd_inv (one_more g no_extra) (set_ofile p i (Some f) s)" by (rule fd_inv_eq [OF t [simplified \<open>q = p\<close>]]) auto
  have m': "my_proc (set_ofile p i (Some f) s) = Some p" using m by (simp add: set_ofile_def)
  have "p_ofile (proc p (set_ofile p i (Some f) s)) ! i = Some f" using this_fd [OF s _ i] q(2) by simp
  from pipe_second_refs [OF t' f m' i this]
  show "refs_kept no_extra (if int i < 0 then pipe_close_both f g (set_ofile q i (Some f) s)
       else
         kbind (fdalloc g (set_ofile q i (Some f) s)) (\<lambda>(fd1, s).
         if fd1 < 0 then pipe_close_both f g (set_ofile p (nat (int i)) None s)
         else
           kbind (copyout_int (p_pgtable (proc p s)) a (int i) s) (\<lambda>(r, s).
           kbind (if r < 0 then Ok (r, s) else copyout_int (p_pgtable (proc p s)) (a + 4) fd1 s) (\<lambda>(r, s).
           if r < 0 then pipe_close_both f g (set_ofile p (nat fd1) None (set_ofile p (nat (int i)) None s))
           else Ok (0, s)))))"
    by simp
qed

lemma sys_pipe_refs:
  fixes s :: "'a file_state_scheme"
  assumes "fd_inv no_extra s"
  shows "refs_kept no_extra (sys_pipe s)"
proof (cases "my_proc s")
  case (Some p)
  have "kout (\<lambda>x. pipe_refs no_extra x \<and> my_proc (snd x) = Some p) (pipealloc s)"
    using kout_conj [OF pipealloc_refs [OF assms] pipealloc_my_proc] Some by simp
  then show ?thesis
    unfolding sys_pipe_def using Some
    by (simp add: myproc_def, intro fdv.argaddr_view)
      (rule kout_seq, assumption, auto split: option.splits simp: pipe_refs_def intro!: pipe_install_refs [simplified])
qed (simp add: sys_pipe_def myproc_def)

section \<open>Fork and exit\<close>

lemma kout_upto:
  assumes "Q 0 s" "\<And>i t. i < n \<Longrightarrow> Q i t \<Longrightarrow> kout (Q (Suc i)) (f i t)"
  shows "kout (Q n) (kfold f [0..<n] s)"
  using assms(2)
proof (induction n)
  case (Suc n)
  show ?case
    unfolding upt_Suc_append [OF le0] kfold_snoc
    by (rule kout_seq [OF Suc.IH]) (use Suc.prems in auto)
qed (simp add: assms(1))

lemma fds_of:
  assumes "fd_inv E s" "p < STATIC_PROC_NUM"
  shows "ofiles s ! p = p_ofile (proc p s)" "length (p_ofile (proc p s)) = NOFILE" "Some f \<in> set (p_ofile (proc p s)) \<Longrightarrow> f < NFILE"
    "p < length (procs s)"
proof -
  show l: "p < length (procs s)" using assms by (auto simp: fd_inv_def fd_ok_def)
  then show o: "ofiles s ! p = p_ofile (proc p s)" by simp
  have "ofiles s ! p \<in> set (ofiles s)" using l by simp
  then show "length (p_ofile (proc p s)) = NOFILE" "Some f \<in> set (p_ofile (proc p s)) \<Longrightarrow> f < NFILE"
    using assms(1) unfolding o fd_inv_def fd_ok_def by blast+
qed

text \<open>Files copied so far.\<close>

definition copied :: "nat option list \<Rightarrow> nat \<Rightarrow> nat option list" where
  "copied ds i = take i ds @ replicate (NOFILE - i) None"

lemma copied_put: "i < NOFILE \<Longrightarrow> length ds = NOFILE \<Longrightarrow> (copied ds i)[i := ds ! i] = copied ds (Suc i)"
  by (rule nth_equalityI) (auto simp: copied_def nth_append nth_list_update)

lemma copied_none: "i < NOFILE \<Longrightarrow> length ds = NOFILE \<Longrightarrow> ds ! i = None \<Longrightarrow> copied ds (Suc i) = copied ds i"
  by (rule nth_equalityI) (auto simp: copied_def nth_append less_Suc_eq)

lemma fork_dup_one_refs:
  fixes s :: "'a file_state_scheme"
  assumes s: "fd_inv no_extra s" and pc: "p < STATIC_PROC_NUM" "c < STATIC_PROC_NUM" "p \<noteq> c" and i: "i < NOFILE"
    and c: "p_ofile (proc c s) = copied (p_ofile (proc p s)) i"
  shows "kout (\<lambda>t. fd_inv no_extra t \<and> p_ofile (proc p t) = p_ofile (proc p s) \<and> p_ofile (proc c t) = copied (p_ofile (proc p s)) (Suc i))
    (fork_dup_one p c i s)"
proof (cases "p_ofile (proc p s) ! i")
  case None
  then show ?thesis using s c copied_none [OF i fds_of(2) [OF s pc(1)]] by (simp add: fork_dup_one_def)
next
  case (Some f)
  have "Some f \<in> set (p_ofile (proc p s))" using Some i fds_of(2) [OF s pc(1)] by (metis nth_mem)
  then have f: "f < NFILE" by (rule fds_of(3) [OF s pc(1)])
  have end_: "fd_inv no_extra (set_ofile c i (Some f) t) \<and> p_ofile (proc p (set_ofile c i (Some f) t)) = p_ofile (proc p s) \<and>
      p_ofile (proc c (set_ofile c i (Some f) t)) = copied (p_ofile (proc p s)) (Suc i)"
    if "fd_step (no_extra(f := 0 + 1)) s t" for t :: "'a file_state_scheme"
  proof -
    have t: "fd_inv (no_extra(f := 0 + 1)) t" by (rule fd_step_D [OF that])
    have "ofiles t = ofiles s" using that by (simp add: fd_step_def)
    then have o: "p_ofile (proc p t) = p_ofile (proc p s)" "p_ofile (proc c t) = p_ofile (proc c s)"
      using fds_of(1) [OF t pc(1)] fds_of(1) [OF t pc(2)] fds_of(1) [OF s pc(1)] fds_of(1) [OF s pc(2)] by (simp_all del: nth_map)
    have "p_ofile (proc c t) ! i = None" using o(2) c fds_of(2) [OF s pc(1)] i by (simp add: copied_def nth_append)
    then have "fd_inv no_extra (set_ofile c i (Some f) t)"
      using fd_inv_eq [OF set_ofile_refs(1) [OF t pc(2) i, of "Some f"], of no_extra] f by simp
    moreover have "(copied (p_ofile (proc p s)) i)[i := Some f] = copied (p_ofile (proc p s)) (Suc i)"
      using copied_put [OF i fds_of(2) [OF s pc(1)]] Some by simp
    ultimately show ?thesis using o c pc(3) fds_of(4) [OF t pc(2)] by (simp add: set_ofile_def proc_upd_proc)
  qed
  show ?thesis
    using filedup_bind [OF s f, of "\<lambda>t. fd_inv no_extra t \<and> p_ofile (proc p t) = p_ofile (proc p s) \<and>
      p_ofile (proc c t) = copied (p_ofile (proc p s)) (Suc i)" "\<lambda>(f, s). Ok (set_ofile c i (Some f) s)"] end_ Some
    by (simp add: fork_dup_one_def)
qed

lemma fork_dup_refs:
  fixes s :: "'a file_state_scheme"
  assumes s: "fd_inv no_extra s" and pc: "p < STATIC_PROC_NUM" "c < STATIC_PROC_NUM" "p \<noteq> c"
    and c: "p_ofile (proc c s) = replicate NOFILE None"
  shows "kout (\<lambda>t. fd_inv no_extra t \<and> p_ofile (proc c t) = p_ofile (proc p s)) (kfold (fork_dup_one p c) [0..<NOFILE] s)"
proof -
  let ?Q = "\<lambda>i t. fd_inv no_extra t \<and> p_ofile (proc p t) = p_ofile (proc p s) \<and> p_ofile (proc c t) = copied (p_ofile (proc p s)) i"
  have "kout (?Q NOFILE) (kfold (fork_dup_one p c) [0..<NOFILE] s)"
  proof (rule kout_upto)
    show "?Q 0 s" using s c by (simp add: copied_def)
  next
    fix i and t :: "'a file_state_scheme" assume "i < NOFILE" "?Q i t"
    then show "kout (?Q (Suc i)) (fork_dup_one p c i t)" using fork_dup_one_refs [of t p c i] pc by simp
  qed
  then show ?thesis by (rule kout_mono) (simp add: copied_def fds_of(2) [OF s pc(1)])
qed

lemma exit_close_one_refs:
  fixes s :: "'a file_state_scheme"
  assumes s: "fd_inv no_extra s" and p: "p < STATIC_PROC_NUM" and i: "i < NOFILE" and d: "\<forall>j < i. p_ofile (proc p s) ! j = None"
  shows "kout (\<lambda>t. fd_inv no_extra t \<and> (\<forall>j < Suc i. p_ofile (proc p t) ! j = None)) (exit_close_one p i s)"
proof (cases "p_ofile (proc p s) ! i")
  case None
  then show ?thesis using s d by (auto simp: exit_close_one_def less_Suc_eq)
next
  case (Some f)
  have "Some f \<in> set (p_ofile (proc p s))" using Some i fds_of(2) [OF s p] by (metis nth_mem)
  then have f: "f < NFILE" by (rule fds_of(3) [OF s p])
  have end_: "fd_inv no_extra (set_ofile p i None t) \<and> (\<forall>j < Suc i. p_ofile (proc p (set_ofile p i None t)) ! j = None)"
    if "fd_step (no_extra(f := 0 - 1)) s t" for t :: "'a file_state_scheme"
  proof -
    have t: "fd_inv (no_extra(f := 0 - 1)) t" by (rule fd_step_D [OF that])
    have "ofiles t = ofiles s" using that by (simp add: fd_step_def)
    then have o: "p_ofile (proc p t) = p_ofile (proc p s)"
      using fds_of(1) [OF t p] fds_of(1) [OF s p] by (simp del: nth_map)
    have "fd_inv no_extra (set_ofile p i None t)" by (rule fd_inv_eq [OF clear_fd_refs [OF t p i]]) (use o Some in auto)
    then show ?thesis using o d fds_of(2,4) [OF t p] i by (simp add: set_ofile_def proc_upd_proc nth_list_update less_Suc_eq)
  qed
  show ?thesis
    using fileclose_bind [OF s f, of "\<lambda>t. fd_inv no_extra t \<and> (\<forall>j < Suc i. p_ofile (proc p t) ! j = None)"
      "\<lambda>s. Ok (set_ofile p i None s)"] end_ Some
    by (simp add: exit_close_one_def)
qed

lemma exit_close_refs:
  fixes s :: "'a file_state_scheme"
  assumes "fd_inv no_extra s" "p < STATIC_PROC_NUM"
  shows "kout (\<lambda>t. fd_inv no_extra t \<and> (\<forall>j < NOFILE. p_ofile (proc p t) ! j = None)) (kfold (exit_close_one p) [0..<NOFILE] s)"
  by (rule kout_upto) (use assms exit_close_one_refs in auto)

section \<open>Sequences of calls\<close>

text \<open>
  The calls that open and close descriptors, in any order and by any process; \<open>fd_other\<close> is everything else the
  kernel does, switching to another process included.
\<close>

inductive fd_steps :: "'a file_state_scheme \<Rightarrow> 'a file_state_scheme \<Rightarrow> bool" for s0 where
  fd_start: "fd_steps s0 s0"
| fd_dup: "fd_steps s0 s \<Longrightarrow> sys_dup s = Ok (r, t) \<Longrightarrow> fd_steps s0 t"
| fd_close: "fd_steps s0 s \<Longrightarrow> sys_close s = Ok (r, t) \<Longrightarrow> fd_steps s0 t"
| fd_open: "fd_steps s0 s \<Longrightarrow> sys_open s = Ok (r, t) \<Longrightarrow> fd_steps s0 t"
| fd_pipe: "fd_steps s0 s \<Longrightarrow> sys_pipe s = Ok (r, t) \<Longrightarrow> fd_steps s0 t"
| fd_link: "fd_steps s0 s \<Longrightarrow> sys_link s = Ok (r, t) \<or> sys_unlink s = Ok (r, t) \<or> sys_mkdir s = Ok (r, t) \<or> sys_mknod s = Ok (r, t) \<Longrightarrow>
    fd_steps s0 t"
| fd_fork: "fd_steps s0 s \<Longrightarrow> p < STATIC_PROC_NUM \<Longrightarrow> c < STATIC_PROC_NUM \<Longrightarrow> p \<noteq> c \<Longrightarrow> p_ofile (proc c s) = replicate NOFILE None \<Longrightarrow>
    kfold (fork_dup_one p c) [0..<NOFILE] s = Ok t \<Longrightarrow> fd_steps s0 t"
| fd_exit: "fd_steps s0 s \<Longrightarrow> p < STATIC_PROC_NUM \<Longrightarrow> kfold (exit_close_one p) [0..<NOFILE] s = Ok t \<Longrightarrow> fd_steps s0 t"
| fd_other: "fd_steps s0 s \<Longrightarrow> map f_ref (ftable t) = map f_ref (ftable s) \<Longrightarrow> ofiles t = ofiles s \<Longrightarrow>
    (\<forall>p. my_proc t = Some p \<longrightarrow> p < STATIC_PROC_NUM) \<Longrightarrow> fd_steps s0 t"

lemma fd_steps_inv: "fd_steps s0 s \<Longrightarrow> fd_inv no_extra s0 \<Longrightarrow> fd_inv no_extra s"
proof (induction rule: fd_steps.induct)
  case (fd_dup s r t)
  then show ?case using sys_dup_refs kout_D by fastforce
next
  case (fd_close s r t)
  then show ?case using sys_close_refs kout_D by fastforce
next
  case (fd_open s r t)
  then show ?case using sys_open_refs kout_D by fastforce
next
  case (fd_pipe s r t)
  then show ?case using sys_pipe_refs kout_D by fastforce
next
  case (fd_link s r t)
  note i = view_refs [OF _ fd_link.IH [OF fd_link.prems]]
  have r: "refs_kept no_extra (sys_link s)" "refs_kept no_extra (sys_unlink s)"
    by (rule i [OF fdv.sys_link_view [OF refl]], rule i [OF fdv.sys_unlink_view [OF refl]])
  have q: "refs_kept no_extra (sys_mkdir s)" "refs_kept no_extra (sys_mknod s)"
    by (rule i [OF fdv.sys_mkdir_view [OF refl]], rule i [OF fdv.sys_mknod_view [OF refl]])
  from fd_link.hyps(2) show ?case
    by (elim disjE) (drule kout_D [OF r(1)] kout_D [OF r(2)] kout_D [OF q(1)] kout_D [OF q(2)], simp)+
next
  case (fd_fork s p c t)
  then show ?case using kout_D [OF fork_dup_refs [of s p c]] by blast
next
  case (fd_exit s p t)
  then show ?case using kout_D [OF exit_close_refs [of s p]] by blast
next
  case (fd_other s t)
  then have "fd_inv no_extra s" by blast
  then show ?case unfolding fd_inv_def fd_other.hyps(2,3) using fd_other.hyps(4) by blast
qed simp

lemma fd_inv_boot:
  assumes "length (ftable s) = NFILE" "\<forall>x \<in> set (ftable s). f_ref x = 0" "length (procs s) = STATIC_PROC_NUM"
    "\<forall>q \<in> set (procs s). p_ofile q = replicate NOFILE None" "\<forall>p. my_proc s = Some p \<longrightarrow> p < STATIC_PROC_NUM"
  shows "fd_inv no_extra s"
proof -
  have "count_list (p_ofile q) (Some f) = 0" if "q \<in> set (procs s)" for q f
    using assms(4) that by (simp add: count_list_0_iff)
  then have "nrefs f (ofiles s) = 0" for f unfolding nrefs_def by (simp add: sum_list_eq_0_iff)
  then show ?thesis using assms by (auto simp: fd_inv_def fd_ok_def)
qed

text \<open>
  C30: Reference counts of open files. From a state where every file has as many references as descriptors (as
  at boot, where there are none), any sequence of \<open>dup\<close>, \<open>close\<close>, \<open>open\<close>, \<open>pipe\<close>, \<open>link\<close>, \<open>unlink\<close>,
  \<open>mkdir\<close>, \<open>mknod\<close>, the copying of descriptors in \<open>fork\<close> and the closing in \<open>exit\<close>, on every path through them
  and whatever they return, leads to a state where again \<open>f_ref\<close> of each file is the number of descriptors, in all
  processes, that point to it. So a file that some descriptor points to is never free for \<open>filealloc\<close>.
\<close>

theorem descriptor_references:
  assumes "fd_steps s t" "fd_inv no_extra s"
  shows "(\<forall>f < NFILE. f_ref (ofile f t) = int (nrefs f (ofiles t))) \<and>
    (\<forall>p < STATIC_PROC_NUM. \<forall>fd < NOFILE. \<forall>f. p_ofile (proc p t) ! fd = Some f \<longrightarrow> f < NFILE \<and> 1 \<le> f_ref (ofile f t))"
proof -
  have t: "fd_inv no_extra t" by (rule fd_steps_inv [OF assms])
  then have refs: "f_ref (ofile f t) = int (nrefs f (ofiles t))" if "f < NFILE" for f
    using that by (auto simp: fd_inv_def fd_ok_def)
  have "f < NFILE \<and> 1 \<le> f_ref (ofile f t)" if "p < STATIC_PROC_NUM" "fd < NOFILE" "p_ofile (proc p t) ! fd = Some f" for p fd f
  proof -
    note d = fds_of [OF t that(1)]
    have "Some f \<in> set (p_ofile (proc p t))" using that(2,3) d(2) by (metis nth_mem)
    then have "f < NFILE" "0 < nrefs f (ofiles t)" using d nrefs_pos [of p "ofiles t" f] by auto
    then show ?thesis using refs by simp
  qed
  then show ?thesis using refs by blast
qed

text \<open>Process 0 with file 3 open as descriptor 0, and nothing else open.\<close>

definition fd_boot :: file_state where
  "fd_boot = pipe_state.extend ((pipe_example (\<lambda>_. 0))\<lparr>procs := map (\<lambda>q. q\<lparr>p_ofile := replicate NOFILE None\<rparr>) (procs pg_example)\<rparr>)
     (file_state.fields (replicate NFILE \<lparr>f_type = FD_NONE, f_ref = 0, f_readable = True, f_writable = True, f_pipe = 0, f_ip = None,
       f_off = 0, f_major = 0\<rparr>))"

definition fd_example :: file_state where
  "fd_example = upd_file 3 (\<lambda>f. f\<lparr>f_ref := f_ref f + 1\<rparr>) (set_ofile 0 0 (Some 3) fd_boot)"

lemma fd_boot_fields:
  "length (ftable fd_boot) = NFILE" "\<forall>x \<in> set (ftable fd_boot). f_ref x = 0" "f_ref (ofile 3 fd_boot) = 0"
  "procs fd_boot = map (\<lambda>q. q\<lparr>p_ofile := replicate NOFILE None\<rparr>) (procs pg_example)"
  "my_proc fd_boot = Some 0" "held fd_boot = {}" "mem fd_boot = (\<lambda>_. 0)" "length (procs pg_example) = STATIC_PROC_NUM"
proof -
  note d = fd_boot_def pipe_state.defs file_state.defs
  note e = pipe_example_def fs_example_def log_example_def bio_example_def pgroup_state.defs bio_state.defs log_state.defs fs_state.defs pipe_state.defs
  show "length (ftable fd_boot) = NFILE" "\<forall>x \<in> set (ftable fd_boot). f_ref x = 0" "f_ref (ofile 3 fd_boot) = 0"
    by (simp_all add: d)
  show "procs fd_boot = map (\<lambda>q. q\<lparr>p_ofile := replicate NOFILE None\<rparr>) (procs pg_example)" by (simp add: d)
  show "mem fd_boot = (\<lambda>_. 0)" using pipe_example_caller(2) by (simp add: d)
  show "length (procs pg_example) = STATIC_PROC_NUM" by (simp add: pg_example_def)
  have "cpus (pipe_example (\<lambda>_. 0)) = cpus pg_example" "me (pipe_example (\<lambda>_. 0)) = me pg_example" "held (pipe_example (\<lambda>_. 0)) = {}"
    using pg_example_ctx by (simp_all add: e)
  then show "my_proc fd_boot = Some 0" "held fd_boot = {}" using pg_example_ctx by (simp_all add: d my_proc_def)
qed

lemma fd_example_inv: "fd_inv no_extra fd_example"
proof -
  have "fd_inv no_extra fd_boot" by (rule fd_inv_boot) (use fd_boot_fields in auto)
  note set_ofile_refs(1) [OF this, of 0 0 "Some 3"]
  then have 1: "fd_inv (\<lambda>f. 0 - of_bool (Some 3 = Some f) + of_bool (p_ofile (proc 0 fd_boot) ! 0 = Some f)) (set_ofile 0 0 (Some 3) fd_boot)" by simp
  have "p_ofile (proc 0 fd_boot) ! 0 = None" using fd_boot_fields(4,8) by simp
  then have "fd_inv (no_extra(3 := - 1)) (set_ofile 0 0 (Some 3) fd_boot)" by (intro fd_inv_eq [OF 1]) auto
  from fd_step_D [OF upd_ref [OF this, of 3 "\<lambda>f. f\<lparr>f_ref := f_ref f + 1\<rparr>" 1]]
  show ?thesis unfolding fd_example_def by (simp add: fun_upd_idem)
qed

lemma fd_example_fields:
  "p_ofile (proc 0 fd_example) = (replicate NOFILE None)[0 := Some 3]" "my_proc fd_example = Some 0" "held fd_example = {}"
  "mem fd_example = (\<lambda>_. 0)" "f_ref (ofile 3 fd_example) = 1" "length (ftable fd_example) = NFILE"
  using fd_boot_fields by (simp_all add: fd_example_def upd_file_def set_ofile_def upd_proc_def my_proc_def)

lemma fd_example_dup: "\<exists>t. sys_dup fd_example = Ok (1, t) \<and> f_ref (ofile 3 t) = 2"
proof -
  have "load_bytes k (\<lambda>_. 0) a = (0 :: u64)" for k a by (induction k arbitrary: a) auto
  then have "load64 (\<lambda>_. 0) a = 0" for a by (simp add: load64_def)
  then have a: "argfd 0 fd_example = Ok (Some (0, 3))"
    using fd_example_fields by (simp add: argfd_def argint_def argraw_def myproc_def get_arg_n_def)
  let ?u = "set_ofile 0 1 (Some 3) fd_example"
  have "find_index (\<lambda>x. x = None) (take NOFILE (p_ofile (proc 0 fd_example))) = Some 1"
    unfolding fd_example_fields(1) by (simp add: find_index_def numeral_eq_Suc)
  then have b: "fdalloc 3 fd_example = Ok (1, ?u)"
    using fd_example_fields by (simp add: fdalloc_def myproc_def)
  have f: "ofile 3 ?u = ofile 3 fd_example" "held ?u = {}" "length (ftable ?u) = NFILE"
    using fd_example_fields by (simp_all add: set_ofile_def upd_proc_def)
  then show ?thesis
    using a b fd_example_fields(5) by (auto simp: sys_dup_def filedup_def acquire_def release_def upd_file_def)
qed

theorem descriptor_references_witness:
  "\<exists>t. sys_dup fd_example = Ok (1, t) \<and> f_ref (ofile 3 t) = 2 \<and> nrefs 3 (ofiles t) = 2"
proof -
  obtain t where t: "sys_dup fd_example = Ok (1, t)" "f_ref (ofile 3 t) = 2" using fd_example_dup by blast
  have "fd_steps fd_example t" by (rule fd_dup [OF fd_start t(1)])
  from descriptor_references [OF this fd_example_inv] have "f_ref (ofile 3 t) = int (nrefs 3 (ofiles t))" by simp
  then show ?thesis using t by auto
qed

end
