(* ===== verification/Heap.thy ===== *)
theory Heap
  imports Uvm
begin

text \<open>
  The heap of a process: what \<open>brk\<close> and \<open>sbrk\<close> of kernel/syscall/uvm.c do to the address space, the page allocator
  and the bounds kept in the process.
\<close>

section \<open>Pages of the heap\<close>

abbreviation (input) heap_pte :: "u64 \<Rightarrow> u64" where
  "heap_pte pa \<equiv> MAKE_PTE pa ((PTE_R OR PTE_W OR PTE_X OR PTE_U) OR PTE_V)"

text \<open>
  The pages with numbers in \<open>K\<close> are mapped, each to a frame \<open>f k\<close> of its own that is neither free nor part of the table.
\<close>

definition frames_ok :: "'a vm_state_scheme \<Rightarrow> u64 \<Rightarrow> u64 set \<Rightarrow> (nat \<Rightarrow> u64) \<Rightarrow> nat set \<Rightarrow> bool" where
  "frames_ok s t F f K \<longleftrightarrow> inj_on f K \<and> f ` K \<subseteq> pages_of s - F - tables (mem s) 2 t \<and> (\<forall>k \<in> K. lookup s t k = Some (heap_pte (f k)))"

lemma frames_subset: "frames_ok s t F f K \<Longrightarrow> J \<subseteq> K \<Longrightarrow> frames_ok s t F f J"
  by (auto simp: frames_ok_def intro: inj_on_subset)

lemma frames_frame:
  assumes "frames_ok s t F f K" "pages_of s' = pages_of s" "F' \<inter> f ` K = {}" "tables (mem s') 2 t \<inter> f ` K = {}"
    "\<And>k. k \<in> K \<Longrightarrow> lookup s' t k = lookup s t k"
  shows "frames_ok s' t F' f K"
  using assms by (auto simp: frames_ok_def)

lemma frame_pa: "valid_page ke pa \<Longrightarrow> PTE_GET_PA (MAKE_PTE pa a) = pa"
  using PTE_GET_PA_MAKE_PTE valid_page_pte_pa by blast

section \<open>One page\<close>

lemma kalloc_space:
  assumes "space_ok s t F"
  shows "kok (\<lambda>(p, s'). only_mem s s' \<and> tables (mem s') 2 t = tables (mem s) 2 t \<and> lookup s' t = lookup s t \<and>
    (if F = {} then p = 0 \<and> space_ok s' t F else p \<in> F \<and> p \<noteq> 0 \<and> space_ok s' t (F - {p}))) (kalloc s)"
proof -
  have wf: "table_wf (mem s) 2 t" and rep: "free_repr s F" and dj: "tables (mem s) 2 t \<inter> F = {}"
    using assms by (auto simp: space_ok_def)
  obtain ps where ps: "MemContainerLock \<notin> held s" "free_list s ps" "set ps = F"
    using rep by (auto simp: free_repr_def)
  show ?thesis
  proof (cases ps)
    case Nil
    then show ?thesis using ps assms by (simp add: free_list_def kalloc_empty)
  next
    case (Cons p qs)
    then obtain s1 where s1: "kalloc s = Ok (p, s1)" "free_list s1 qs"
      "s1 = s\<lparr>mem_head := load64 (mem s) p, mem := make_garbage_value p (mem s)\<rparr>"
      using kalloc_free_list [of s p qs] ps by auto
    have v: "page_aligned p" "p \<noteq> 0" "p \<notin> set qs" "p \<in> F" "F - {p} = set qs"
      using ps Cons by (auto simp: free_list_def valid_page_def)
    have "same_page q (mem s) (mem s1)" if "q \<in> tables (mem s) 2 t" for q
      using that tables_aligned [OF wf that] dj v by (auto simp: s1(3) intro!: same_page_garbage)
    note fr = tables_frame [OF wf this]
    have "free_repr s1 (F - {p})" using s1 ps(1) v(5) by (auto simp: free_repr_def)
    then have "space_ok s1 t (F - {p})" using fr dj by (auto simp: space_ok_def)
    moreover have "lookup s1 t = lookup s t" by (rule lookup_cong) (use fr in blast)
    ultimately show ?thesis using s1 fr v by (auto simp: only_mem_def)
  qed
qed

lemma kfree_space:
  assumes "space_ok s t F" "p \<in> pages_of s - F - tables (mem s) 2 t"
  shows "kok (\<lambda>s'. only_mem s s' \<and> tables (mem s') 2 t = tables (mem s) 2 t \<and> lookup s' t = lookup s t \<and> space_ok s' t (insert p F)) (kfree p s)"
proof -
  have wf: "table_wf (mem s) 2 t" and rep: "free_repr s F" and dj: "tables (mem s) 2 t \<inter> F = {}"
    using assms by (auto simp: space_ok_def)
  obtain ps where ps: "MemContainerLock \<notin> held s" "free_list s ps" "set ps = F"
    using rep by (auto simp: free_repr_def)
  have pv: "valid_page (kernel_end s) p" "p \<notin> set ps" "page_aligned p" using assms(2) ps by (auto simp: pages_of_def)
  obtain s1 where s1: "kfree p s = Ok s1" "free_list s1 (p # ps)" "s1 = s\<lparr>mem := store64 (mem s) p (mem_head s), mem_head := p\<rparr>"
    using kfree_free_list [OF ps(2,1) pv(1,2)] by blast
  have "same_page q (mem s) (mem s1)" if "q \<in> tables (mem s) 2 t" for q
    using same_page_store64 [OF _ pv(3) in_page_self page_aligned_aligned8] tables_aligned [OF wf that] pv(3) assms(2) that
    by (auto simp: s1(3))
  note fr = tables_frame [OF wf this]
  have "free_repr s1 (insert p F)" using s1 ps by (auto simp: free_repr_def intro!: exI [of _ "p # ps"])
  then have "space_ok s1 t (insert p F)" using fr dj assms(2) by (auto simp: space_ok_def)
  moreover have "lookup s1 t = lookup s t" by (rule lookup_cong) (use fr in blast)
  ultimately show ?thesis using s1 fr by (auto simp: only_mem_def)
qed

section \<open>Giving pages back\<close>

lemma unmap_free_loop_spec:
  assumes "space_ok s t F" "k = unat va div 4096" "k + n \<le> 2 ^ 26" "frames_ok s t F f K" "{k..<k + n} \<subseteq> K"
  shows "kok (\<lambda>s'. only_mem s s' \<and> space_ok s' t (F \<union> f ` {k..<k + n}) \<and> tables (mem s') 2 t = tables (mem s) 2 t \<and>
      lookup s' t = remap (\<lambda>_. None) k n (lookup s t)) (unmap_loop n t va True True s)"
  using assms
proof (induction n arbitrary: s F va k K)
  case (Suc n)
  have va: "va \<le> MAX_VA" using Suc.prems(2,3) by (simp add: MAX_VA_page)
  have kK: "k \<in> K" using Suc.prems(5) by auto
  have e: "lookup s t (unat va div 4096) = Some (heap_pte (f k))" and fk: "f k \<in> pages_of s - F - tables (mem s) 2 t"
    using Suc.prems(2,4) kK by (auto simp: frames_ok_def)
  have pa: "PTE_GET_PA (heap_pte (f k)) = f k" using fk frame_pa by (auto simp: pages_of_def)
  obtain s1 where s1: "unmap_page_flex t va True True s = Ok s1" "only_mem s s1" "space_ok s1 t (insert (f k) F)"
    "tables (mem s1) 2 t = tables (mem s) 2 t" "lookup s1 t = (lookup s t)(k := None)"
    using unmap_free_spec [OF Suc.prems(1) va e, unfolded pa, OF fk, of True] Suc.prems(2) by (auto simp: kok_def)
  have "frames_ok s1 t (insert (f k) F) f (K - {k})"
  proof (rule frames_frame [OF frames_subset [OF Suc.prems(4)]])
    show "insert (f k) F \<inter> f ` (K - {k}) = {}" "tables (mem s1) 2 t \<inter> f ` (K - {k}) = {}"
      using Suc.prems(4) kK s1(4) by (auto simp: frames_ok_def inj_on_def)
  qed (use s1 only_mem_pages_of in auto)
  moreover have "{Suc k..<Suc k + n} \<subseteq> K - {k}" using Suc.prems(5) by auto
  moreover have "Suc k = unat (va + 4096) div 4096" using next_page_no [OF va] Suc.prems(2) by simp
  ultimately have "kok (\<lambda>s'. only_mem s1 s' \<and> space_ok s' t (insert (f k) F \<union> f ` {Suc k..<Suc k + n}) \<and> tables (mem s') 2 t = tables (mem s1) 2 t \<and>
      lookup s' t = remap (\<lambda>_. None) (Suc k) n (lookup s1 t)) (unmap_loop n t (va + 4096) True True s1)"
    using Suc.IH [OF s1(3)] Suc.prems(3) by simp
  moreover have "insert (f k) F \<union> f ` {Suc k..<Suc k + n} = F \<union> f ` {k..<k + Suc n}"
    by (auto simp: atLeastLessThan_def) (metis Suc_leI le_neq_implies_less atLeast_iff lessThan_iff IntI imageI)
  ultimately show ?case
    using s1 only_mem_trans [OF s1(2)] by (auto simp: remap_Suc_front kok_def)
qed simp

section \<open>Growing\<close>

lemma page_count_pages: "i \<le> 2 ^ 26 \<Longrightarrow> page_count (word_of_nat (4096 * i)) = int i"
proof -
  assume i: "i \<le> 2 ^ 26"
  have "unat (word_of_nat (4096 * i) :: u64) = 4096 * i" using i by (intro unat_word_of_nat) simp
  then have "(word_of_nat (4096 * i) :: u64) div 4096 = word_of_nat i"
    using i by (intro word_unat_eq_iff [THEN iffD2]) (simp add: unat_div unat_word_of_nat)
  moreover have "sint (ucast (word_of_nat i :: u64) :: u32) = int i"
  proof -
    have "ucast (word_of_nat i :: u64) = (word_of_nat i :: u32)"
      using i by (intro word_unat_eq_iff [THEN iffD2]) (simp add: unat_word_of_nat unsigned_ucast_eq take_bit_nat_eq_self)
    moreover have "sint (word_of_nat i :: u32) = int i"
      using i by (simp add: signed_of_nat signed_take_bit_int_eq_self)
    ultimately show ?thesis by simp
  qed
  ultimately show ?thesis by (simp add: page_count_def)
qed

lemma increment_fail_spec:
  assumes ok: "space_ok s t F" and k: "k = unat e0 div 4096" "k + i \<le> 2 ^ 26" and own: "frames_ok s t F f (H \<union> {k..<k + i})"
    and H: "H \<inter> {k..} = {}"
  shows "kok (\<lambda>(err, s'). err = -1 \<and> only_mem s s' \<and> space_ok s' t (F \<union> f ` {k..<k + i}) \<and> frames_ok s' t (F \<union> f ` {k..<k + i}) f H \<and>
    tables (mem s') 2 t = tables (mem s) 2 t \<and> lookup s' t = remap (\<lambda>_. None) k i (lookup s t))
    (increment_fail t e0 (word_of_nat (4096 * i)) s)"
proof -
  have "i \<le> 2 ^ 26" using k(2) by simp
  note pc = page_count_pages [OF this]
  obtain s' where s': "unmap_loop i t e0 True True s = Ok s'" "only_mem s s'" "space_ok s' t (F \<union> f ` {k..<k + i})"
    "tables (mem s') 2 t = tables (mem s) 2 t" "lookup s' t = remap (\<lambda>_. None) k i (lookup s t)"
    using unmap_free_loop_spec [OF ok k own Un_upper2] by (auto simp: kok_def)
  have "frames_ok s' t (F \<union> f ` {k..<k + i}) f H"
  proof (rule frames_frame [OF frames_subset [OF own Un_upper1] only_mem_pages_of [OF s'(2)]])
    have "f ` {k..<k + i} \<inter> f ` H = {}" 
    proof -
      have "inj_on f (H \<union> {k..<k + i})" "H \<inter> {k..<k + i} = {}" using own H by (auto simp: frames_ok_def)
      then show ?thesis by (metis Int_commute image_empty inj_on_image_Int Un_upper1 Un_upper2)
    qed
    then show "(F \<union> f ` {k..<k + i}) \<inter> f ` H = {}" "tables (mem s') 2 t \<inter> f ` H = {}" using own s'(4) by (auto simp: frames_ok_def)
  qed (use s'(5) H in \<open>auto simp: remap_def\<close>)
  then show ?thesis using s' pc by (simp add: increment_fail_def unmap_n_pages_free_def unmap_n_pages_flex_def)
qed

text \<open>The state after \<open>increment_loop\<close> has run to its end, or has given up and undone everything.\<close>

definition grown :: "u64 \<Rightarrow> nat set \<Rightarrow> nat \<Rightarrow> nat \<Rightarrow> nat \<Rightarrow> 'a vm_state_scheme \<Rightarrow> u64 set \<Rightarrow> (nat \<Rightarrow> u64) \<Rightarrow> 'a vm_state_scheme \<Rightarrow> bool" where
  "grown t H k i n s F f s' \<longleftrightarrow> (\<exists>F' f'. only_mem s s' \<and> space_ok s' t F' \<and> (\<forall>j \<in> H \<union> {k..<k + i}. f' j = f j) \<and>
     frames_ok s' t F' f' (H \<union> {k..<k + i + n}) \<and> (\<forall>j. j \<notin> {k + i..<k + i + n} \<longrightarrow> lookup s' t j = lookup s t j) \<and>
     F' \<union> tables (mem s') 2 t \<union> f' ` {k..<k + i + n} = F \<union> tables (mem s) 2 t \<union> f ` {k..<k + i})"

definition undone :: "u64 \<Rightarrow> nat set \<Rightarrow> nat \<Rightarrow> nat \<Rightarrow> 'a vm_state_scheme \<Rightarrow> u64 set \<Rightarrow> (nat \<Rightarrow> u64) \<Rightarrow> 'a vm_state_scheme \<Rightarrow> bool" where
  "undone t H k i s F f s' \<longleftrightarrow> (\<exists>F'. only_mem s s' \<and> space_ok s' t F' \<and> frames_ok s' t F' f H \<and>
     lookup s' t = remap (\<lambda>_. None) k i (lookup s t) \<and> F' \<union> tables (mem s') 2 t = F \<union> tables (mem s) 2 t \<union> f ` {k..<k + i})"

lemma step_pages:
  assumes "p \<in> F" "F2 \<subseteq> F - {p}" "T2 = T \<union> (F - {p} - F2)" "k + i \<notin> {k..<k + i}"
  shows "F2 \<union> T2 \<union> (f(k + i := p)) ` {k..<k + Suc i} = F \<union> T \<union> f ` {k..<k + i}"
proof -
  have "(f(k + i := p)) ` {k..<k + Suc i} = insert p (f ` {k..<k + i})" by (auto simp: atLeastLessThanSuc)
  then show ?thesis using assms by auto
qed

lemma frames_fun: "frames_ok s t F f K \<Longrightarrow> (\<And>j. j \<in> K \<Longrightarrow> g j = f j) \<Longrightarrow> frames_ok s t F g K"
  unfolding frames_ok_def by (metis image_cong inj_on_cong)

lemma frames_insert:
  assumes "frames_ok s t F f K" "j \<notin> K" "p \<in> pages_of s - F - tables (mem s) 2 t" "p \<notin> f ` K" "lookup s t j = Some (heap_pte p)"
  shows "frames_ok s t F (f(j := p)) (insert j K)"
proof -
  have "frames_ok s t F (f(j := p)) K" by (rule frames_fun [OF assms(1)]) (use assms(2) in auto)
  moreover have "(f(j := p)) ` K = f ` K" using assms(2) by auto
  ultimately show ?thesis using assms(2-5) by (auto simp: frames_ok_def)
qed

lemma undone_step:
  assumes "undone t H k (Suc i) s2 F2 (f(k + i := p)) s'" "only_mem s s2" "lookup s2 t = (lookup s t)(k + i \<mapsto> e)"
    "lookup s t (k + i) = None" "H \<inter> {k..} = {}"
    and pg: "p \<in> F" "F2 \<subseteq> F - {p}" "tables (mem s2) 2 t = tables (mem s) 2 t \<union> (F - {p} - F2)"
  shows "undone t H k i s F f s'"
proof -
  obtain F' where F': "only_mem s2 s'" "space_ok s' t F'" "frames_ok s' t F' (f(k + i := p)) H"
     "lookup s' t = remap (\<lambda>_. None) k (Suc i) (lookup s2 t)"
     "F' \<union> tables (mem s') 2 t = F2 \<union> tables (mem s2) 2 t \<union> (f(k + i := p)) ` {k..<k + Suc i}"
    using assms(1) by (auto simp: undone_def)
  have "k + i \<notin> H" using assms(5) by auto
  then have "frames_ok s' t F' f H" by (intro frames_fun [OF F'(3)]) auto
  moreover have "lookup s' t = remap (\<lambda>_. None) k i (lookup s t)"
    unfolding F'(4) assms(3) using assms(4) by (intro ext) (auto simp: remap_def less_Suc_eq)
  moreover have "F' \<union> tables (mem s') 2 t = F \<union> tables (mem s) 2 t \<union> f ` {k..<k + i}"
    unfolding F'(5) by (rule step_pages [OF pg]) simp
  ultimately show ?thesis using F'(2) only_mem_trans [OF assms(2) F'(1)] by (auto simp: undone_def)
qed

lemma grown_step:
  assumes "grown t H k (Suc i) n s2 F2 (f(k + i := p)) s'" "only_mem s s2" "lookup s2 t = (lookup s t)(k + i \<mapsto> e)"
    "H \<inter> {k..} = {}"
    and pg: "p \<in> F" "F2 \<subseteq> F - {p}" "tables (mem s2) 2 t = tables (mem s) 2 t \<union> (F - {p} - F2)"
  shows "grown t H k i (Suc n) s F f s'"
proof -
  obtain F' f' where F': "only_mem s2 s'" "space_ok s' t F'" "\<forall>j \<in> H \<union> {k..<k + Suc i}. f' j = (f(k + i := p)) j"
     "frames_ok s' t F' f' (H \<union> {k..<k + Suc i + n})" "\<forall>j. j \<notin> {k + Suc i..<k + Suc i + n} \<longrightarrow> lookup s' t j = lookup s2 t j"
     "F' \<union> tables (mem s') 2 t \<union> f' ` {k..<k + Suc i + n} = F2 \<union> tables (mem s2) 2 t \<union> (f(k + i := p)) ` {k..<k + Suc i}"
    using assms(1) by (auto simp: grown_def)
  have e: "k + Suc i + n = k + i + Suc n" by simp
  have "\<forall>j \<in> H \<union> {k..<k + i}. f' j = f j"
  proof
    fix j assume "j \<in> H \<union> {k..<k + i}"
    then have "j \<in> H \<union> {k..<k + Suc i}" "j \<noteq> k + i" using assms(4) by auto
    then show "f' j = f j" using F'(3) by simp
  qed
  moreover have "\<forall>j. j \<notin> {k + i..<k + i + Suc n} \<longrightarrow> lookup s' t j = lookup s t j" using F'(5) assms(3) by auto
  moreover have "F' \<union> tables (mem s') 2 t \<union> f' ` {k..<k + i + Suc n} = F \<union> tables (mem s) 2 t \<union> f ` {k..<k + i}"
    unfolding F'(6) [unfolded e] by (rule step_pages [OF pg]) simp
  ultimately show ?thesis
    using F'(2) F'(4) [unfolded e] only_mem_trans [OF assms(2) F'(1)] unfolding grown_def by blast
qed

lemma increment_loop_spec:
  assumes "space_ok s t F" "k = unat e0 div 4096" "page_aligned e0" "k + i + n \<le> 2 ^ 26" "frames_ok s t F f (H \<union> {k..<k + i})"
    "H \<inter> {k..} = {}" "\<forall>j. k + i \<le> j \<and> j < k + i + n \<longrightarrow> lookup s t j = None"
  shows "kok (\<lambda>(err, s'). err = 0 \<and> grown t H k i n s F f s' \<or> err = -1 \<and> undone t H k i s F f s')
    (increment_loop n t e0 (word_of_nat (4096 * i)) s)"
  using assms
proof (induction n arbitrary: s F f i)
  case 0
  then show ?case by (auto simp: grown_def)
next
  case (Suc n)
  let ?va = "e0 + word_of_nat (4096 * i)"
  have "unat (word_of_nat (4096 * i) :: u64) = 4096 * i" using Suc.prems(4) by (intro unat_word_of_nat) simp
  moreover have "unat e0 = 4096 * k" using Suc.prems(2,3) by (auto simp: page_aligned_unat)
  then have "unat e0 + 4096 * i < 2 ^ 64" using Suc.prems(4) by simp
  ultimately have "unat ?va = unat e0 + 4096 * i" by (simp add: unat_add_no_wrap)
  then have vak: "unat ?va div 4096 = k + i" using Suc.prems(2) by simp
  then have va: "?va \<le> MAX_VA" using Suc.prems(4) by (simp add: MAX_VA_page)
  obtain p s1 where s1: "kalloc s = Ok (p, s1)" "only_mem s s1" "tables (mem s1) 2 t = tables (mem s) 2 t" "lookup s1 t = lookup s t"
    "if F = {} then p = 0 \<and> space_ok s1 t F else p \<in> F \<and> p \<noteq> 0 \<and> space_ok s1 t (F - {p})"
    using kalloc_space [OF Suc.prems(1)] by (auto simp: kok_def)
  have pages: "pages_of s1 = pages_of s" by (rule only_mem_pages_of [OF s1(2)])
  have ki: "k + i \<le> 2 ^ 26" using Suc.prems(4) by simp
  show ?case
  proof (cases "F = {}")
    case True
    then have e: "p = 0" "space_ok s1 t F" using s1(5) by auto
    have own1: "frames_ok s1 t F f (H \<union> {k..<k + i})"
      by (rule frames_frame [OF Suc.prems(5) pages]) (use Suc.prems(5) s1(3,4) in \<open>auto simp: frames_ok_def\<close>)
    show ?thesis
      using increment_fail_spec [OF e(2) Suc.prems(2) ki own1 Suc.prems(6)] s1(1,3,4) e(1) only_mem_trans [OF s1(2)]
      by (auto simp: kok_def undone_def)
  next
    case False
    then have p: "p \<in> F" "p \<noteq> 0" "space_ok s1 t (F - {p})" using s1(5) by auto
    have own1: "frames_ok s1 t (F - {p}) f (H \<union> {k..<k + i})"
      by (rule frames_frame [OF Suc.prems(5) pages]) (use Suc.prems(5) s1(3,4) in \<open>auto simp: frames_ok_def\<close>)
    have un: "lookup s1 t (unat ?va div 4096) = None" using Suc.prems(7) s1(4) vak by simp
    obtain err s2 F2 where m: "map_page t ?va p (PTE_R OR PTE_W OR PTE_X OR PTE_U) s1 = Ok (err, s2)" and st: "table_step 2 t s1 (F - {p}) s2 F2"
      and r: "if err = 0 then lookup s2 t = (lookup s1 t)(k + i \<mapsto> heap_pte p) else err = -1 \<and> lookup s2 t = lookup s1 t"
      using map_page_spec [OF p(3) va un, of p "PTE_R OR PTE_W OR PTE_X OR PTE_U"] vak by (auto simp: kok_def map_post_def)
    have tb: "F2 \<subseteq> F - {p}" "tables (mem s2) 2 t = tables (mem s) 2 t \<union> (F - {p} - F2)" "only_mem s1 s2"
      using st s1(3) by (auto simp: table_step_def)
    have om: "only_mem s s2" by (rule only_mem_trans [OF s1(2) tb(3)])
    have ok2: "space_ok s2 t F2" by (rule table_step_space_ok [OF p(3) st])
    have "tables (mem s) 2 t \<inter> F = {}" "F \<subseteq> pages_of s"
      using Suc.prems(1) kmem.repr_arena(1) by (auto simp: space_ok_def)
    then have pf: "p \<in> pages_of s2 - F2 - tables (mem s2) 2 t" using p(1) tb only_mem_pages_of [OF om] by auto
    have kin: "k + i \<notin> H \<union> {k..<k + i}" using Suc.prems(6) by auto
    have own2: "frames_ok s2 t F2 f (H \<union> {k..<k + i})"
      by (rule frames_frame [OF Suc.prems(5) only_mem_pages_of [OF om]])
        (use Suc.prems(5) tb r s1(4) kin in \<open>auto simp: frames_ok_def split: if_splits\<close>)
    show ?thesis
    proof (cases "err = 0")
      case True
      have l2: "lookup s2 t = (lookup s t)(k + i \<mapsto> heap_pte p)" using r True s1(4) by simp
      have own3: "frames_ok s2 t F2 (f(k + i := p)) (H \<union> {k..<k + Suc i})"
      proof -
        have "p \<notin> f ` (H \<union> {k..<k + i})" using Suc.prems(5) p(1) unfolding frames_ok_def by blast
        then have "frames_ok s2 t F2 (f(k + i := p)) (insert (k + i) (H \<union> {k..<k + i}))"
          using frames_insert [OF own2 kin pf] l2 by simp
        moreover have "insert (k + i) (H \<union> {k..<k + i}) = H \<union> {k..<k + Suc i}" by auto
        ultimately show ?thesis by simp
      qed
      have "kok (\<lambda>(err, s'). err = 0 \<and> grown t H k (Suc i) n s2 F2 (f(k + i := p)) s' \<or> err = -1 \<and> undone t H k (Suc i) s2 F2 (f(k + i := p)) s')
          (increment_loop n t e0 (word_of_nat (4096 * Suc i)) s2)"
        by (rule Suc.IH [OF ok2 Suc.prems(2,3) _ own3 Suc.prems(6)]) (use Suc.prems(4,7) l2 in auto)
      moreover have "word_of_nat (4096 * Suc i) = word_of_nat (4096 * i) + (4096 :: u64)" by simp
      moreover have "lookup s t (k + i) = None" using Suc.prems(7) by simp
      ultimately show ?thesis
        using m True s1(1) p(2) grown_step [OF _ om l2 Suc.prems(6) p(1) tb(1,2), of n] undone_step [OF _ om l2 _ Suc.prems(6) p(1) tb(1,2)]
        by (auto simp: kok_def add.commute)
    next
      case False
      obtain s3 where s3: "kfree p s2 = Ok s3" "only_mem s2 s3" "tables (mem s3) 2 t = tables (mem s2) 2 t" "lookup s3 t = lookup s2 t"
        "space_ok s3 t (insert p F2)"
        using kfree_space [OF ok2 pf] by (auto simp: kok_def)
      have "frames_ok s3 t (insert p F2) f (H \<union> {k..<k + i})"
        by (rule frames_frame [OF own2 only_mem_pages_of [OF s3(2)]])
          (use Suc.prems(5) own2 s3(3,4) p(1) in \<open>auto simp: frames_ok_def\<close>)
      then obtain s4 where s4: "increment_fail t e0 (word_of_nat (4096 * i)) s3 = Ok (-1, s4)" "only_mem s3 s4"
        "space_ok s4 t (insert p F2 \<union> f ` {k..<k + i})" "frames_ok s4 t (insert p F2 \<union> f ` {k..<k + i}) f H"
        "tables (mem s4) 2 t = tables (mem s3) 2 t" "lookup s4 t = remap (\<lambda>_. None) k i (lookup s3 t)"
        using increment_fail_spec [OF s3(5) Suc.prems(2) ki _ Suc.prems(6)] by (auto simp: kok_def)
      have "only_mem s s4" using om s3(2) s4(2) only_mem_trans by blast
      moreover have "lookup s3 t = lookup s t" using s3(4) r False s1(4) by simp
      moreover have "insert p F2 \<union> f ` {k..<k + i} \<union> tables (mem s4) 2 t = F \<union> tables (mem s) 2 t \<union> f ` {k..<k + i}"
        using s4(5) s3(3) tb p(1) by auto
      ultimately have "undone t H k i s F f s4" using s4(3,4,6) unfolding undone_def by metis
      then show ?thesis using s1(1) p(2) m False s3(1) s4(1) by simp
    qed
  qed
qed

section \<open>The break\<close>

abbreviation pgno :: "u64 \<Rightarrow> nat" where "pgno a \<equiv> unat a div 4096"

definition heap_ok :: "nat \<Rightarrow> 'a proc_state_scheme \<Rightarrow> u64 set \<Rightarrow> (nat \<Rightarrow> u64) \<Rightarrow> bool" where
  "heap_ok p s F f \<longleftrightarrow> p < length (procs s) \<and>
     (let q = proc p s; t = p_pgtable q in
      page_aligned (p_mem_start q) \<and> p_mem_start q \<le> p_mem_brk q \<and> p_mem_brk q \<le> PROC_VA_END \<and> p_mem_end q = ROUND_UP_PGSIZE (p_mem_brk q) \<and>
      space_ok s t F \<and> frames_ok s t F f {pgno (p_mem_start q)..<pgno (p_mem_end q)} \<and>
      (\<forall>k. pgno (p_mem_end q) \<le> k \<and> k < pgno PROC_VA_END \<longrightarrow> lookup s t k = None))"

text \<open>The pages that are free, tables of the process, or frames of its heap.\<close>

definition heap_pages :: "nat \<Rightarrow> 'a proc_state_scheme \<Rightarrow> u64 set \<Rightarrow> (nat \<Rightarrow> u64) \<Rightarrow> u64 set" where
  "heap_pages p s F f = F \<union> tables (mem s) 2 (p_pgtable (proc p s)) \<union>
     f ` {pgno (p_mem_start (proc p s))..<pgno (p_mem_end (proc p s))}"

lemma round_up_heap:
  assumes "a \<le> PROC_VA_END"
  shows "unat (ROUND_UP_PGSIZE a) = 4096 * ((unat a + 4095) div 4096)" "ROUND_UP_PGSIZE a \<le> PROC_VA_END" "a \<le> ROUND_UP_PGSIZE a"
    "pgno (ROUND_UP_PGSIZE a) \<le> 67108860"
proof -
  have a: "unat a \<le> 4096 * 67108860" using assms by (simp add: layout_simps word_le_nat_alt)
  then show u: "unat (ROUND_UP_PGSIZE a) = 4096 * ((unat a + 4095) div 4096)" by (subst unat_ROUND_UP_PGSIZE) auto
  have "(unat a + 4095) div 4096 \<le> 67108860" using a by linarith
  then show "ROUND_UP_PGSIZE a \<le> PROC_VA_END" "pgno (ROUND_UP_PGSIZE a) \<le> 67108860" using u by (auto simp: layout_simps word_le_nat_alt)
  show "a \<le> ROUND_UP_PGSIZE a" using u by (simp add: word_le_nat_alt)
qed

lemma pgno_end: "pgno PROC_VA_END = 67108860"
  by (simp add: layout_simps)

lemma only_mem_procs: "only_mem s t \<Longrightarrow> procs t = procs s"
  for s t :: "'a proc_state_scheme"
  unfolding only_mem_def by (metis proc_state.select_convs(1) proc_state.surjective vm_state.update_convs(1,2) proc_state.ext_inject)

lemma upd_proc_space [simp]:
  "space_ok (upd_proc i g s) t F = space_ok s t F" "lookup (upd_proc i g s) t = lookup s t" "frames_ok (upd_proc i g s) t F f K = frames_ok s t F f K"
proof -
  have "free_repr (upd_proc i g s) F = free_repr s F" for F by (simp add: free_repr_def free_list_def)
  then show "space_ok (upd_proc i g s) t F = space_ok s t F" by (simp add: space_ok_def)
  show l: "lookup (upd_proc i g s) t = lookup s t" by (rule lookup_cong) simp
  show "frames_ok (upd_proc i g s) t F f K = frames_ok s t F f K" by (simp add: frames_ok_def l pages_of_def)
qed

text \<open>What \<open>brk\<close> leaves: the new bounds, or on failure everything as it was.\<close>

definition brk_post :: "nat \<Rightarrow> u64 \<Rightarrow> 'a proc_state_scheme \<Rightarrow> u64 set \<Rightarrow> (nat \<Rightarrow> u64) \<Rightarrow> int \<times> 'a proc_state_scheme \<Rightarrow> bool" where
  "brk_post p new s F f x \<longleftrightarrow> (case x of (r, u) \<Rightarrow> \<exists>F' f'. heap_ok p u F' f' \<and> heap_pages p u F' f' = heap_pages p s F f \<and>
     (if r = 0 then proc p u = (proc p s)\<lparr>p_mem_end := ROUND_UP_PGSIZE new, p_mem_brk := new\<rparr> \<and>
        (\<forall>k. pgno (p_mem_start (proc p s)) \<le> k \<and> k < min (pgno (p_mem_end (proc p s))) (pgno (ROUND_UP_PGSIZE new)) \<longrightarrow> f' k = f k)
      else r = -1 \<and> p_mem_end (proc p s) < new \<and> procs u = procs s \<and> f' = f \<and>
        lookup u (p_pgtable (proc p s)) = lookup s (p_pgtable (proc p s))))"

text \<open>Setting the bounds once the pages are there.\<close>

lemma set_bounds:
  assumes h: "heap_ok p s F f" and new: "p_mem_start (proc p s) \<le> new" "new \<le> PROC_VA_END" and om: "only_mem s u"
    and sp: "space_ok u (p_pgtable (proc p s)) F'"
    and own: "frames_ok u (p_pgtable (proc p s)) F' f' {pgno (p_mem_start (proc p s))..<pgno (ROUND_UP_PGSIZE new)}"
    and none: "\<forall>k. pgno (ROUND_UP_PGSIZE new) \<le> k \<and> k < pgno PROC_VA_END \<longrightarrow> lookup u (p_pgtable (proc p s)) k = None"
    and pages: "F' \<union> tables (mem u) 2 (p_pgtable (proc p s)) \<union> f' ` {pgno (p_mem_start (proc p s))..<pgno (ROUND_UP_PGSIZE new)} = heap_pages p s F f"
    and old: "\<forall>k. pgno (p_mem_start (proc p s)) \<le> k \<and> k < min (pgno (p_mem_end (proc p s))) (pgno (ROUND_UP_PGSIZE new)) \<longrightarrow> f' k = f k"
  shows "brk_post p new s F f (0, upd_proc p (\<lambda>q. q\<lparr>p_mem_end := ROUND_UP_PGSIZE new, p_mem_brk := new\<rparr>) u)"
proof -
  let ?u = "upd_proc p (\<lambda>q. q\<lparr>p_mem_end := ROUND_UP_PGSIZE new, p_mem_brk := new\<rparr>) u"
  have pr: "procs u = procs s" by (rule only_mem_procs [OF om])
  have l: "p < length (procs u)" using h pr by (simp add: heap_ok_def)
  have q: "proc p ?u = (proc p s)\<lparr>p_mem_end := ROUND_UP_PGSIZE new, p_mem_brk := new\<rparr>" using l pr by (simp add: proc_upd_proc)
  have "heap_ok p ?u F' f'"
    unfolding heap_ok_def q using h new sp own none l by (simp add: heap_ok_def Let_def)
  moreover have "heap_pages p ?u F' f' = heap_pages p s F f" using pages unfolding heap_pages_def q by simp
  ultimately show ?thesis unfolding brk_post_def using q old by auto
qed

lemma heap_bounds:
  assumes "heap_ok p s F f"
  shows "p_mem_brk (proc p s) \<le> p_mem_end (proc p s)" "p_mem_end (proc p s) mod 4096 = 0" "page_aligned (p_mem_end (proc p s))"
    "p_mem_start (proc p s) \<le> p_mem_end (proc p s)" "p_mem_end (proc p s) \<le> PROC_VA_END"
    "unat (p_mem_end (proc p s)) = 4096 * pgno (p_mem_end (proc p s))" "pgno (p_mem_end (proc p s)) \<le> 67108860"
    "pgno (p_mem_start (proc p s)) \<le> pgno (p_mem_end (proc p s))"
proof -
  have h: "p_mem_end (proc p s) = ROUND_UP_PGSIZE (p_mem_brk (proc p s))" "p_mem_brk (proc p s) \<le> PROC_VA_END" "p_mem_start (proc p s) \<le> p_mem_brk (proc p s)"
    using assms by (simp_all add: heap_ok_def Let_def)
  note r = round_up_heap [OF h(2)]
  show b: "p_mem_brk (proc p s) \<le> p_mem_end (proc p s)" "p_mem_end (proc p s) \<le> PROC_VA_END" "pgno (p_mem_end (proc p s)) \<le> 67108860"
    "unat (p_mem_end (proc p s)) = 4096 * pgno (p_mem_end (proc p s))"
    using r unfolding h(1) by simp_all
  show al: "page_aligned (p_mem_end (proc p s))" unfolding h(1) by (rule page_aligned_ROUND_UP)
  then show "p_mem_end (proc p s) mod 4096 = 0" by (simp add: page_aligned_def)
  show m: "p_mem_start (proc p s) \<le> p_mem_end (proc p s)" using h(3) b(1) by simp
  then show "pgno (p_mem_start (proc p s)) \<le> pgno (p_mem_end (proc p s))" by (simp add: word_le_nat_alt div_le_mono)
qed

lemma pages_between:
  assumes "unat a = 4096 * x" "unat b = 4096 * y" "x \<le> y" "y \<le> 2 ^ 26"
  shows "b - a = word_of_nat (4096 * (y - x))" "unat ((b - a) div 4096 * 4096 :: u64) div 4096 = y - x"
proof -
  have "unat (b - a) = 4096 * (y - x)" using assms by (simp add: unat_sub word_le_nat_alt diff_mult_distrib2)
  moreover have "unat (word_of_nat (4096 * (y - x)) :: u64) = 4096 * (y - x)" using assms by (intro unat_word_of_nat) simp
  ultimately show e: "b - a = word_of_nat (4096 * (y - x))" by (simp add: word_unat_eq_iff)
  have "unat ((b - a) div 4096) = y - x" using \<open>unat (b - a) = _\<close> by (simp add: unat_div)
  moreover have "(y - x) * 4096 < 2 ^ 64" using assms by simp
  ultimately have "unat ((b - a) div 4096 * 4096) = (y - x) * 4096" by (subst unat_mult_lem [THEN iffD1]) simp_all
  then show "unat ((b - a) div 4096 * 4096 :: u64) div 4096 = y - x" by simp
qed

lemma brk_grow:
  assumes h: "heap_ok p s F f" and new: "new < PROC_VA_END" "p_mem_end (proc p s) < new"
  shows "kok (brk_post p new s F f) (brk p new s)"
proof -
  let ?q = "proc p s" and ?t = "p_pgtable (proc p s)" and ?S = "pgno (p_mem_start (proc p s))" and ?E = "pgno (p_mem_end (proc p s))"
    and ?E' = "pgno (ROUND_UP_PGSIZE new)"
  note b = heap_bounds [OF h]
  have le: "new \<le> PROC_VA_END" using new(1) by simp
  note r = round_up_heap [OF le]
  have u': "unat (ROUND_UP_PGSIZE new) = 4096 * ?E'" using r(1) by simp
  have "p_mem_end ?q \<le> ROUND_UP_PGSIZE new" using new(2) r(3) by simp
  then have EE: "?E \<le> ?E'" by (simp add: word_le_nat_alt div_le_mono)
  have sp: "space_ok s ?t F" and own: "frames_ok s ?t F f {?S..<?E}" and none: "\<forall>k. ?E \<le> k \<and> k < pgno PROC_VA_END \<longrightarrow> lookup s ?t k = None"
    using h unfolding heap_ok_def Let_def by blast+
  have "?E' \<le> 2 ^ 26" using r(4) by simp
  from pages_between(2) [OF b(6) u' EE this]
  have inc: "increment_mem_end p ((ROUND_UP_PGSIZE new - p_mem_end ?q) div 4096) s = increment_loop (?E' - ?E) ?t (p_mem_end ?q) (word_of_nat (4096 * 0)) s"
    by (simp add: increment_mem_end_def)
  have "kok (\<lambda>(err, s'). err = 0 \<and> grown ?t {?S..<?E} ?E 0 (?E' - ?E) s F f s' \<or> err = -1 \<and> undone ?t {?S..<?E} ?E 0 s F f s')
      (increment_loop (?E' - ?E) ?t (p_mem_end ?q) (word_of_nat (4096 * 0)) s)"
    by (rule increment_loop_spec [OF sp refl b(3)]) (use EE r(4) own none in \<open>auto simp: pgno_end\<close>)
  then obtain err u where e: "increment_mem_end p ((ROUND_UP_PGSIZE new - p_mem_end ?q) div 4096) s = Ok (err, u)"
    and cs: "err = 0 \<and> grown ?t {?S..<?E} ?E 0 (?E' - ?E) s F f u \<or> err = -1 \<and> undone ?t {?S..<?E} ?E 0 s F f u"
    unfolding inc by (auto simp: kok_def)
  have "p_mem_start ?q \<le> new" using b(4) new(2) by simp
  then have brk: "brk p new s = Ok (if err \<noteq> 0 then (-1, u) else (0, upd_proc p (\<lambda>q. q\<lparr>p_mem_end := ROUND_UP_PGSIZE new, p_mem_brk := new\<rparr>) u))"
    using b(1,2) new e by (simp add: brk_def Let_def not_less not_le)
  from cs show ?thesis
  proof
    assume g: "err = 0 \<and> grown ?t {?S..<?E} ?E 0 (?E' - ?E) s F f u"
    then obtain F' f' where g: "only_mem s u" "space_ok u ?t F'" "\<forall>j \<in> {?S..<?E}. f' j = f j" "frames_ok u ?t F' f' ({?S..<?E} \<union> {?E..<?E'})"
      "\<forall>j. j \<notin> {?E..<?E'} \<longrightarrow> lookup u ?t j = lookup s ?t j" "F' \<union> tables (mem u) 2 ?t \<union> f' ` {?E..<?E'} = F \<union> tables (mem s) 2 ?t" and z: "err = 0"
      using EE by (auto simp: grown_def)
    have rng: "{?S..<?E} \<union> {?E..<?E'} = {?S..<?E'}" using EE b(8) by auto
    have "f' ` {?S..<?E'} = f ` {?S..<?E} \<union> f' ` {?E..<?E'}"
      unfolding rng [symmetric] image_Un using g(3) by auto
    then have pages: "F' \<union> tables (mem u) 2 ?t \<union> f' ` {?S..<?E'} = heap_pages p s F f" using g(6) by (auto simp: heap_pages_def)
    have "brk_post p new s F f (0, upd_proc p (\<lambda>q. q\<lparr>p_mem_end := ROUND_UP_PGSIZE new, p_mem_brk := new\<rparr>) u)"
      by (rule set_bounds [OF h \<open>p_mem_start ?q \<le> new\<close> le g(1,2) g(4) [unfolded rng] _ pages]) (use g(3,5) none EE in auto)
    then show ?thesis using brk z by simp
  next
    assume g: "err = -1 \<and> undone ?t {?S..<?E} ?E 0 s F f u"
    then obtain F' where g: "only_mem s u" "space_ok u ?t F'" "frames_ok u ?t F' f {?S..<?E}" "lookup u ?t = lookup s ?t"
      "F' \<union> tables (mem u) 2 ?t = F \<union> tables (mem s) 2 ?t" and z: "err = -1"
      by (auto simp: undone_def)
    have pr: "procs u = procs s" by (rule only_mem_procs [OF g(1)])
    have "heap_ok p u F' f" using h g(2,3,4) by (simp add: heap_ok_def Let_def pr)
    moreover have "heap_pages p u F' f = heap_pages p s F f" using g(5) by (simp add: heap_pages_def pr)
    ultimately show ?thesis using brk z pr g(4) new(2) by (auto simp: brk_post_def)
  qed
qed

lemma brk_shrink:
  assumes h: "heap_ok p s F f" and new: "p_mem_start (proc p s) \<le> new" "new \<le> p_mem_end (proc p s)" "new < PROC_VA_END"
  shows "kok (brk_post p new s F f) (brk p new s)"
proof -
  let ?q = "proc p s" and ?t = "p_pgtable (proc p s)" and ?S = "pgno (p_mem_start (proc p s))" and ?E = "pgno (p_mem_end (proc p s))"
    and ?E' = "pgno (ROUND_UP_PGSIZE new)"
  note b = heap_bounds [OF h]
  have le: "new \<le> PROC_VA_END" using new(3) by simp
  note r = round_up_heap [OF le]
  have u': "unat (ROUND_UP_PGSIZE new) = 4096 * ?E'" using r(1) by simp
  have sp: "space_ok s ?t F" and own: "frames_ok s ?t F f {?S..<?E}" and none: "\<forall>k. ?E \<le> k \<and> k < pgno PROC_VA_END \<longrightarrow> lookup s ?t k = None"
    and end_: "p_mem_end ?q = ROUND_UP_PGSIZE (p_mem_brk ?q)" "p_mem_brk ?q \<le> PROC_VA_END"
    using h unfolding heap_ok_def Let_def by blast+
  have n: "unat new \<le> 4096 * ?E" using new(2) b(6) by (simp add: word_le_nat_alt)
  have E'eq: "?E' = (unat new + 4095) div 4096" using r(1) by simp
  have EE: "?E' \<le> ?E" unfolding E'eq using n by linarith
  have SE: "?S \<le> ?E'" unfolding E'eq using new(1) by (simp add: word_le_nat_alt div_le_mono)
  have kept: "frames_ok u ?t (F \<union> f ` {?E'..<?E}) f {?S..<?E'}"
    if "only_mem s u" "tables (mem u) 2 ?t = tables (mem s) 2 ?t" "lookup u ?t = remap (\<lambda>_. None) ?E' (?E - ?E') (lookup s ?t)" for u :: "'a proc_state_scheme"
  proof (rule frames_frame [OF frames_subset [OF own] only_mem_pages_of [OF that(1)]])
    have "inj_on f {?S..<?E}" "f ` {?S..<?E} \<inter> F = {}" "f ` {?S..<?E} \<inter> tables (mem s) 2 ?t = {}" using own by (auto simp: frames_ok_def)
    moreover have "f ` {?E'..<?E} \<inter> f ` {?S..<?E'} = {}"
      using \<open>inj_on f {?S..<?E}\<close> inj_on_image_Int [of f "{?S..<?E}" "{?E'..<?E}" "{?S..<?E'}"] SE EE by auto
    moreover have "f ` {?S..<?E'} \<subseteq> f ` {?S..<?E}" using EE by auto
    moreover have "(G \<union> C) \<inter> B = {} \<and> T \<inter> B = {}" if "A \<inter> G = {}" "A \<inter> T = {}" "C \<inter> B = {}" "B \<subseteq> A" for A B C G T :: "u64 set"
      using that by blast
    ultimately show "(F \<union> f ` {?E'..<?E}) \<inter> f ` {?S..<?E'} = {}" "tables (mem u) 2 ?t \<inter> f ` {?S..<?E'} = {}"
      unfolding that(2) by metis+
  qed (use that(3) EE in \<open>auto simp: remap_def\<close>)
  have split: "f ` {?S..<?E} = f ` {?S..<?E'} \<union> f ` {?E'..<?E}"
    unfolding image_Un [symmetric] using SE EE by (simp add: ivl_disj_un)
  show ?thesis
  proof (cases "?E' = ?E")
    case True
    then have same: "ROUND_UP_PGSIZE new = p_mem_end ?q" using u' b(6) by (simp add: word_unat_eq_iff)
    then have "brk p new s = Ok (0, upd_proc p (\<lambda>q. q\<lparr>p_mem_end := ROUND_UP_PGSIZE new, p_mem_brk := new\<rparr>) s)"
      using b(1,2) new by (auto simp: brk_def Let_def not_less not_le)
    moreover have "brk_post p new s F f (0, upd_proc p (\<lambda>q. q\<lparr>p_mem_end := ROUND_UP_PGSIZE new, p_mem_brk := new\<rparr>) s)"
      by (rule set_bounds [OF h new(1) le only_mem_refl sp]) (use own none same in \<open>auto simp: heap_pages_def\<close>)
    ultimately show ?thesis by simp
  next
    case False
    then have lt: "?E' < ?E" using EE by simp
    have lt2: "ROUND_UP_PGSIZE new < p_mem_end ?q" using lt u' b(6) by (simp add: word_less_nat_alt)
    have lt3: "new < p_mem_brk ?q"
    proof (rule ccontr)
      assume "\<not> new < p_mem_brk ?q"
      then have "(unat (p_mem_brk ?q) + 4095) div 4096 \<le> (unat new + 4095) div 4096" by (simp add: word_less_nat_alt div_le_mono)
      then show False using lt r(1) round_up_heap(1) [OF end_(2)] end_(1) by simp
    qed
    have "?E' + (?E - ?E') \<le> 2 ^ 26" and n2: "?E - ?E' \<le> 2 ^ 26" "?E \<le> 2 ^ 26" using b(7) EE by simp_all
    moreover have "{?E'..<?E' + (?E - ?E')} \<subseteq> {?S..<?E}" using SE by auto
    moreover have e: "?E' + (?E - ?E') = ?E" using EE by simp
    ultimately obtain u where ul: "unmap_loop (?E - ?E') ?t (ROUND_UP_PGSIZE new) True True s = Ok u" and u: "only_mem s u"
        "space_ok u ?t (F \<union> f ` {?E'..<?E})" "tables (mem u) 2 ?t = tables (mem s) 2 ?t" "lookup u ?t = remap (\<lambda>_. None) ?E' (?E - ?E') (lookup s ?t)"
      using unmap_free_loop_spec [OF sp refl _ own, of "ROUND_UP_PGSIZE new" "?E - ?E'"] unfolding e kok_def by blast
    have "page_count (p_mem_end ?q - ROUND_UP_PGSIZE new) = int (?E - ?E')"
      using pages_between(1) [OF u' b(6) EE n2(2)] page_count_pages [OF n2(1)] by simp
    then have un: "unmap_n_pages_free ?t (ROUND_UP_PGSIZE new) (page_count (p_mem_end ?q - ROUND_UP_PGSIZE new)) s = Ok u"
      using ul unfolding unmap_n_pages_free_def unmap_n_pages_flex_def by (simp only: nat_int)
    have "brk p new s = Ok (0, upd_proc p (\<lambda>q. q\<lparr>p_mem_end := ROUND_UP_PGSIZE new, p_mem_brk := new\<rparr>) u)"
      using b(1,2) new lt2 lt3 un by (auto simp: brk_def Let_def not_less not_le)
    moreover have "brk_post p new s F f (0, upd_proc p (\<lambda>q. q\<lparr>p_mem_end := ROUND_UP_PGSIZE new, p_mem_brk := new\<rparr>) u)"
      by (rule set_bounds [OF h new(1) le u(1,2) kept [OF u(1,3,4)]])
        (use u(3,4) none split EE in \<open>auto simp: heap_pages_def remap_def\<close>)
    ultimately show ?thesis by simp
  qed
qed

text \<open>
  C31: \<open>brk\<close> keeps the heap within its bounds and loses no page. A request outside of \<open>mem_start\<close> and \<open>PROC_VA_END\<close>
  returns -1 and changes nothing. Any other request returns, without panic, with the heap again well formed: \<open>mem_end\<close> is
  \<open>mem_brk\<close> rounded up and at most \<open>PROC_VA_END\<close>, exactly the pages from \<open>mem_start\<close> to \<open>mem_end\<close> are mapped, each to a
  frame of its own, readable and writable by the user, and the pages that stay keep their frames; on success the break is
  the requested one. It can fail only when the heap grows, and then the bounds and all mappings are as before. In every case
  each page is still free, a page of the table or a frame of the heap: none leaks and none is used twice.
\<close>

theorem brk_correct:
  assumes "heap_ok p s F f"
  shows "if new_brk < p_mem_start (proc p s) \<or> PROC_VA_END \<le> new_brk then brk p new_brk s = Ok (-1, s)
    else kok (brk_post p new_brk s F f) (brk p new_brk s)"
proof (cases "new_brk < p_mem_start (proc p s) \<or> PROC_VA_END \<le> new_brk")
  case True
  then show ?thesis using heap_bounds(1,2) [OF assms] by (auto simp: brk_def Let_def not_less not_le)
next
  case False
  then have a: "p_mem_start (proc p s) \<le> new_brk" "new_brk < PROC_VA_END" by auto
  have "kok (brk_post p new_brk s F f) (brk p new_brk s)"
  proof (cases "p_mem_end (proc p s) < new_brk")
    case True
    then show ?thesis by (rule brk_grow [OF assms a(2)])
  next
    case False
    then have "new_brk \<le> p_mem_end (proc p s)" by simp
    then show ?thesis by (rule brk_shrink [OF assms a(1) _ a(2)])
  qed
  then show ?thesis using False by simp
qed

text \<open>A process with an empty heap at \<open>0x1000\<close>, an empty table and two free pages.\<close>

definition heap_example :: pgroup_state where
  "heap_example = pg_example\<lparr>mem := mem tiny_vm, mem_head := mem_head tiny_vm, kernel_end := kernel_end tiny_vm,
     procs := (procs pg_example)[0 := (proc 0 pg_example)\<lparr>p_pgtable := tiny_root, p_mem_start := 0x1000, p_mem_brk := 0x1000, p_mem_end := 0x1000\<rparr>]\<rparr>"

lemma heap_example_ok: "heap_ok 0 heap_example {0x87ffe000, 0x87fff000} f"
proof -
  have "procs heap_example ! 0 = (proc 0 pg_example)\<lparr>p_pgtable := tiny_root, p_mem_start := 0x1000, p_mem_brk := 0x1000, p_mem_end := 0x1000\<rparr>"
    "length (procs heap_example) = STATIC_PROC_NUM"
    by (simp_all add: heap_example_def pg_example_def)
  moreover have "ROUND_UP_PGSIZE 0x1000 = 0x1000" by (simp add: ROUND_UP_PGSIZE_def PGSIZE_MASK_def push_bit_eq_mult)
  moreover have same: "held heap_example = held tiny_vm" "mem heap_example = mem tiny_vm" "mem_head heap_example = mem_head tiny_vm"
    "kernel_end heap_example = kernel_end tiny_vm"
    by (simp_all add: heap_example_def pg_example_def) (simp add: tiny_vm_def)
  then have "space_ok heap_example tiny_root F = space_ok tiny_vm tiny_root F" for F
    by (simp add: space_ok_def free_repr_def free_list_def)
  then have "space_ok heap_example tiny_root {0x87ffe000, 0x87fff000}" using tiny_space by simp
  moreover have "lookup heap_example tiny_root k = None" for k
    using tiny_space [of k] same(2) by (auto simp: lookup_def split: if_splits)
  ultimately show ?thesis by (simp add: heap_ok_def Let_def frames_ok_def page_aligned_def layout_simps)
qed

theorem brk_correct_witness:
  "heap_ok 0 heap_example {0x87ffe000, 0x87fff000} word_of_nat \<and> brk 0 0xfff heap_example = Ok (-1, heap_example) \<and>
   kok (brk_post 0 0x1800 heap_example {0x87ffe000, 0x87fff000} word_of_nat) (brk 0 0x1800 heap_example)"
proof -
  have q: "p_mem_start (proc 0 heap_example) = 0x1000" by (simp add: heap_example_def pg_example_def)
  have "brk 0 0xfff heap_example = Ok (-1, heap_example)"
    using brk_correct [OF heap_example_ok [of word_of_nat], of "0xfff"] by (simp add: q)
  moreover have "kok (brk_post 0 0x1800 heap_example {0x87ffe000, 0x87fff000} word_of_nat) (brk 0 0x1800 heap_example)"
    using brk_correct [OF heap_example_ok [of word_of_nat], of "0x1800"] by (simp add: q layout_simps)
  ultimately show ?thesis using heap_example_ok by blast
qed

end
