(* ===== verification/Process_Inv.thy ===== *)
theory Process_Inv
  imports Syscall Descriptors Heap
begin

text \<open>
  Properties of the operations of kernel/process/process.c: locking the whole table of processes, waiting for a child.
\<close>

section \<open>Locking all processes\<close>

text \<open>\<open>below par p q\<close>: \<open>q\<close> is \<open>p\<close> or a descendant of it, for the parents \<open>par\<close>.\<close>

inductive below :: "(nat \<Rightarrow> nat option) \<Rightarrow> nat \<Rightarrow> nat \<Rightarrow> bool" for par where
  below_refl: "below par p p"
| below_child: "below par p q \<Longrightarrow> par r = Some q \<Longrightarrow> r < STATIC_PROC_NUM \<Longrightarrow> below par p r"

inductive_cases belowE: "below par p q"

lemma below_trans: "below par q r \<Longrightarrow> below par p q \<Longrightarrow> below par p r"
  by (induction rule: below.induct) (auto intro: below_child)

text \<open>From a root without parent no cycle is reached.\<close>

lemma below_no_cycle:
  assumes "below par 0 p" "par 0 = None"
  shows "\<not> (\<exists>c < STATIC_PROC_NUM. par c = Some p \<and> below par c p)"
  using assms
proof (induction rule: below.induct)
  case below_refl
  then show ?case by (auto elim: belowE)
next
  case (below_child z q r)
  show ?case
  proof
    assume "\<exists>c < STATIC_PROC_NUM. par c = Some r \<and> below par c r"
    then obtain c where c: "c < STATIC_PROC_NUM" "par c = Some r" "below par c r" by blast
    have rc: "below par r c" using c(1,2) below.intros by blast
    consider "c = r" | y where "below par c y" "par r = Some y" using c(3) by (auto elim: belowE)
    then have "below par r q"
    proof cases
      case 1
      then have "q = r" using c(2) below_child.hyps(2) by simp
      then show ?thesis by (simp add: below.below_refl)
    next
      case 2
      then have "below par c q" using below_child.hyps(2) by simp
      then show ?thesis using rc below_trans by blast
    qed
    then show False using below_child by blast
  qed
qed

lemma below_linear: "below par c q \<Longrightarrow> below par d q \<Longrightarrow> below par c d \<or> below par d c"
proof (induction arbitrary: d rule: below.induct)
  case below_refl
  then show ?case by blast
next
  case (below_child z q r)
  consider "d = r" | y where "below par d y" "par r = Some y" using below_child.prems by (auto elim: belowE)
  then show ?case
  proof cases
    case 1
    then show ?thesis using below.below_child [OF below_child.hyps] by blast
  next
    case 2
    then show ?thesis using below_child.hyps below_child.IH by simp
  qed
qed

lemma siblings_disjoint:
  assumes "par c = Some p" "par d = Some p" "c \<noteq> d" "\<not> below par c p" "\<not> below par d p" "below par c q"
  shows "\<not> below par d q"
proof
  assume "below par d q"
  then consider "below par c d" | "below par d c" using below_linear assms(6) by blast
  then show False using assms(1-5) by cases (auto elim: belowE)
qed

lemma below_cases: "below par p q \<longleftrightarrow> q = p \<or> (\<exists>c < STATIC_PROC_NUM. par c = Some p \<and> below par c q)"
proof
  assume "below par p q"
  then show "q = p \<or> (\<exists>c < STATIC_PROC_NUM. par c = Some p \<and> below par c q)"
    by (induction rule: below.induct) (auto intro: below.intros)
next
  assume "q = p \<or> (\<exists>c < STATIC_PROC_NUM. par c = Some p \<and> below par c q)"
  then show "below par p q" using below.intros below_trans by metis
qed

definition subtree :: "(nat \<Rightarrow> nat option) \<Rightarrow> nat \<Rightarrow> nat set" where
  "subtree par p = {q. below par p q}"

lemma subtree_range: "p < STATIC_PROC_NUM \<Longrightarrow> subtree par p \<subseteq> {..<STATIC_PROC_NUM}"
proof
  fix q assume "p < STATIC_PROC_NUM" "q \<in> subtree par p"
  then have "below par p q" by (simp add: subtree_def)
  then show "q \<in> {..<STATIC_PROC_NUM}" using \<open>p < STATIC_PROC_NUM\<close> by induction auto
qed

abbreviation parents :: "'a proc_state_scheme \<Rightarrow> nat \<Rightarrow> nat option" where
  "parents s i \<equiv> p_parent (proc i s)"

text \<open>The state with the locks of the processes in \<open>V\<close> taken.\<close>

definition with_plocks :: "nat set \<Rightarrow> 'a proc_state_scheme \<Rightarrow> 'a proc_state_scheme" where
  "with_plocks V s = s\<lparr>held := held s \<union> ProcLock ` V, noff := noff s + card V\<rparr>"

lemma with_plocks_simps [simp]:
  "procs (with_plocks V s) = procs s" "with_plocks {} s = s"
  by (simp_all add: with_plocks_def)

lemma acquire_plock:
  assumes "ProcLock p \<notin> held s" "p \<notin> V" "finite V"
  shows "acquire (ProcLock p) (with_plocks V s) = Ok (with_plocks (insert p V) s)"
  using assms by (auto simp: acquire_def with_plocks_def)

text \<open>\<open>locked\<close> after the processes in \<open>V\<close> have been locked.\<close>

definition marks :: "nat set \<Rightarrow> bool list" where
  "marks V = map (\<lambda>i. i \<in> V) [0..<STATIC_PROC_NUM]"

lemma marks_upd: "p < STATIC_PROC_NUM \<Longrightarrow> (marks V)[p := True] = marks (insert p V)"
  by (rule nth_equalityI) (auto simp: marks_def nth_list_update)

lemma marks_empty: "marks {} = replicate STATIC_PROC_NUM False"
  by (simp add: marks_def map_replicate_const)

lemma lock_all_aux:
  assumes "p < STATIC_PROC_NUM" "V \<subseteq> {..<STATIC_PROC_NUM}" "subtree (parents s) p \<inter> V = {}" "STATIC_PROC_NUM - card V < depth"
    "\<forall>i. ProcLock i \<notin> held s" "below (parents s) 0 p" "parents s 0 = None"
  shows "lock_all_process_aux depth p (marks V, with_plocks V s) =
    Ok (marks (V \<union> subtree (parents s) p), with_plocks (V \<union> subtree (parents s) p) s)"
  using assms
proof (induction depth arbitrary: p V)
  case (Suc depth)
  let ?par = "parents s" and ?W = "insert p V"
  let ?kids = "\<lambda>n. {c. c < n \<and> ?par c = Some p}"
  let ?S = "\<lambda>n. ?W \<union> (\<Union>c \<in> ?kids n. subtree ?par c)"
  have fin: "finite V" using Suc.prems(2) finite_subset by blast
  have pV: "p \<notin> V" using Suc.prems(3) by (auto simp: subtree_def intro: below.below_refl)
  have cyc: "\<not> below ?par c p" if "c < STATIC_PROC_NUM" "?par c = Some p" for c
    using below_no_cycle [OF Suc.prems(6,7)] that by blast
  have sub: "subtree ?par p = {p} \<union> (\<Union>c \<in> ?kids STATIC_PROC_NUM. subtree ?par c)"
    unfolding subtree_def using below_cases [of ?par p] by auto
  have S_mono: "?S (Suc i) = ?S i \<union> (if ?par i = Some p then subtree ?par i else {})" for i
    by (auto simp: less_Suc_eq)
  have S_range: "?S i \<subseteq> {..<STATIC_PROC_NUM}" if "i \<le> STATIC_PROC_NUM" for i
  proof -
    have "subtree ?par c \<subseteq> {..<STATIC_PROC_NUM}" if "c < i" for c
      using subtree_range [of c ?par] that \<open>i \<le> STATIC_PROC_NUM\<close> by simp
    then show ?thesis using Suc.prems(1,2) by blast
  qed
  have child_fresh: "subtree ?par i \<inter> ?S i = {}" if i: "i < STATIC_PROC_NUM" "?par i = Some p" for i
  proof -
    have "subtree ?par i \<subseteq> subtree ?par p" using i sub by blast
    moreover have "p \<notin> subtree ?par i" using cyc [OF i] by (simp add: subtree_def)
    moreover have "subtree ?par i \<inter> subtree ?par c = {}" if "c < i" "?par c = Some p" for c
      using siblings_disjoint [of ?par i p c] i that cyc by (auto simp: subtree_def)
    ultimately show ?thesis using Suc.prems(3) by blast
  qed
  have deeper: "lock_all_process_aux depth i (marks (?S i), with_plocks (?S i) s) =
      Ok (marks (?S i \<union> subtree ?par i), with_plocks (?S i \<union> subtree ?par i) s)"
    if i: "i < STATIC_PROC_NUM" "?par i = Some p" for i
  proof (rule Suc.IH)
    show "i < STATIC_PROC_NUM" by (rule i)
    show r: "?S i \<subseteq> {..<STATIC_PROC_NUM}" by (rule S_range [OF less_imp_le [OF i(1)]])
    show "subtree ?par i \<inter> ?S i = {}" by (rule child_fresh [OF i])
    have "card ?W \<le> card (?S i)" by (rule card_mono [OF finite_subset [OF r finite_lessThan] Un_upper1])
    moreover have "card ?W = Suc (card V)" using fin pV by simp
    moreover have "card ?W \<le> STATIC_PROC_NUM"
      using card_mono [of "{..<STATIC_PROC_NUM}" ?W] Suc.prems(1,2) by simp
    ultimately show "STATIC_PROC_NUM - card (?S i) < depth" using Suc.prems(4) by linarith
    show "\<forall>i. ProcLock i \<notin> held s" "parents s 0 = None" by (rule Suc.prems)+
    show "below ?par 0 i" using below.below_child [of ?par 0 p i] Suc.prems(6) i by blast
  qed
  let ?f = "\<lambda>i (lkd, t). if p_parent (proc i t) = Some p then lock_all_process_aux depth i (lkd, t) else Ok (lkd, t)"
  have loop: "kfold ?f [0..<i] (marks ?W, with_plocks ?W s) = Ok (marks (?S i), with_plocks (?S i) s)"
    if "i \<le> STATIC_PROC_NUM" for i
    using that
  proof (induction i)
    case (Suc i)
    have "lock_all_process_aux depth i (marks (?S i), with_plocks (?S i) s) =
      Ok (marks (?S i \<union> subtree ?par i), with_plocks (?S i \<union> subtree ?par i) s)" if "?par i = Some p"
    proof (rule deeper)
      show "i < STATIC_PROC_NUM" using Suc.prems by simp
      show "?par i = Some p" by (rule that)
    qed
    then show ?case using Suc S_mono [of i] by (simp add: kfold_snoc)
  qed simp
  show ?case
    using loop [of STATIC_PROC_NUM] acquire_plock [of p s V] Suc.prems fin pV sub marks_upd [of p V]
    by (simp add: Un_assoc)
qed simp

lemma with_plocks_held: "ProcLock i \<in> held (with_plocks V s) \<longleftrightarrow> i \<in> V \<or> ProcLock i \<in> held s"
  by (auto simp: with_plocks_def)

lemma lock_rest:
  assumes "\<forall>i. ProcLock i \<notin> held s" "V \<subseteq> {..<STATIC_PROC_NUM}"
  shows "lock_rest_process (marks V) (with_plocks V s) = Ok (with_plocks {..<STATIC_PROC_NUM} s)"
proof -
  have fin: "finite V" using assms(2) finite_subset by blast
  have "kfold (\<lambda>i t. if marks V ! i then Ok t else acquire (ProcLock i) t) [0..<n] (with_plocks V s) =
      Ok (with_plocks (V \<union> {..<n}) s)" if "n \<le> STATIC_PROC_NUM" for n
    using that
  proof (induction n)
    case (Suc n)
    have "marks V ! n = (n \<in> V)" using Suc.prems by (simp add: marks_def)
    moreover have "V \<union> {..<Suc n} = insert n (V \<union> {..<n})" by auto
    moreover have "n \<in> V \<Longrightarrow> insert n (V \<union> {..<n}) = V \<union> {..<n}" by auto
    ultimately show ?case using Suc acquire_plock [of n s "V \<union> {..<n}"] assms(1) fin by (simp add: kfold_snoc)
  qed simp
  then show ?thesis using assms(2) by (simp add: lock_rest_process_def sup.absorb2)
qed

lemma release_all:
  assumes "\<forall>i. ProcLock i \<notin> held s"
  shows "release_all_process (with_plocks {..<STATIC_PROC_NUM} s) = Ok s"
proof -
  have "kfold (\<lambda>i. release (ProcLock i)) [0..<n] (with_plocks {..<STATIC_PROC_NUM} s) =
      Ok (with_plocks {n..<STATIC_PROC_NUM} s)" if "n \<le> STATIC_PROC_NUM" for n
    using that
  proof (induction n)
    case (Suc n)
    have "{n..<STATIC_PROC_NUM} = insert n {Suc n..<STATIC_PROC_NUM}" using Suc.prems by auto
    then have "with_plocks {n..<STATIC_PROC_NUM} s = with_plocks (insert n {Suc n..<STATIC_PROC_NUM}) s" by simp
    moreover have "release (ProcLock n) (with_plocks (insert n {Suc n..<STATIC_PROC_NUM}) s) = Ok (with_plocks {Suc n..<STATIC_PROC_NUM} s)"
    proof -
      have "held s \<union> ProcLock ` {Suc n..<STATIC_PROC_NUM} - {ProcLock n} = held s \<union> ProcLock ` {Suc n..<STATIC_PROC_NUM}"
        using assms by auto
      then show ?thesis by (simp add: release_def with_plocks_def)
    qed
    ultimately show ?case using Suc by (simp add: kfold_snoc)
  qed (simp add: atLeast0LessThan)
  from this [of STATIC_PROC_NUM] show ?thesis by (simp add: release_all_process_def)
qed

text \<open>
  C33: \<open>count_proc_num\<close> terminates and counts the used slots. Whatever the parent links are, as long as
  process 0 has no parent and the caller holds no process lock, the recursion of \<open>lock_all_process_aux\<close> over
  the children is never deeper than \<open>STATIC_PROC_NUM\<close> and takes no lock twice (with depth
  \<open>STATIC_PROC_NUM + 1\<close> it neither runs past its depth nor panics), every lock is released again and the
  state is left as it was.
\<close>

theorem count_proc_num_terminates:
  assumes "\<forall>i. ProcLock i \<notin> held s" "p_parent (proc 0 s) = None"
  shows "count_proc_num (Suc STATIC_PROC_NUM) s =
    Ok (int (card {i. i < STATIC_PROC_NUM \<and> p_status (proc i s) \<noteq> UNUSED}), s)"
proof -
  let ?V = "subtree (parents s) 0"
  have "lock_all_process_aux (Suc STATIC_PROC_NUM) 0 (marks {}, with_plocks {} s) =
      Ok (marks ({} \<union> ?V), with_plocks ({} \<union> ?V) s)"
    by (rule lock_all_aux) (use assms below.below_refl in auto)
  then have "lock_all_process (Suc STATIC_PROC_NUM) s = Ok (with_plocks {..<STATIC_PROC_NUM} s)"
    using lock_rest [OF assms(1) subtree_range [of 0 "parents s"]]
    by (simp add: lock_all_process_def marks_empty del: lock_all_process_aux.simps)
  moreover have "length (filter (\<lambda>i. p_status (proc i s) \<noteq> UNUSED) [0..<STATIC_PROC_NUM]) =
      card {i. i < STATIC_PROC_NUM \<and> p_status (proc i s) \<noteq> UNUSED}"
    by (simp add: length_filter_conv_card cong: conj_cong)
  ultimately show ?thesis using release_all [OF assms(1)] by (simp add: count_proc_num_def Let_def)
qed

text \<open>Processes 0 to 5, each the child of the one before it, and a cycle of two further slots.\<close>

definition family_example :: pgroup_state where
  "family_example = pg_example\<lparr>procs := map (\<lambda>i. (proc i pg_example)\<lparr>
     p_status := (if i < 6 then SLEEP else UNUSED),
     p_parent := (if i = 0 then None else if i < 6 then Some (i - 1) else if i = 6 then Some 7 else if i = 7 then Some 6 else None)\<rparr>)
     [0..<STATIC_PROC_NUM]\<rparr>"

theorem count_proc_num_terminates_witness: "count_proc_num 65 family_example = Ok (6, family_example)"
proof -
  have "{i. i < STATIC_PROC_NUM \<and> p_status (proc i family_example) \<noteq> UNUSED} = {..<6}"
    by (auto simp: family_example_def split: if_splits)
  moreover have "\<forall>i. ProcLock i \<notin> held family_example" "p_parent (proc 0 family_example) = None"
    by (simp_all add: family_example_def pg_example_def)
  ultimately show ?thesis using count_proc_num_terminates [of family_example] by simp
qed

section \<open>Waiting for a child\<close>

text \<open>What the page allocator and the page tables do not touch: locks and processes.\<close>

definition lk_view :: "'a proc_state_scheme \<Rightarrow> lock_id set \<times> nat \<times> process list" where
  "lk_view s = (held s, noff s, procs s)"

interpretation lkv: state_view lk_view .

lemma lk_mem [simp]:
  "lk_view (s\<lparr>mem := m\<rparr>) = lk_view s" "lk_view (s\<lparr>mem_head := h\<rparr>) = lk_view s" "lk_view (s\<lparr>pid_set := b\<rparr>) = lk_view s"
  by (simp_all add: lk_view_def)

lemma kfree_lk [kout_intros]: "lk_view s = K \<Longrightarrow> kout (\<lambda>t. lk_view t = K) (kfree p s)"
  by (auto simp: kfree_def acquire_def release_def Let_def lk_view_def kout_def split: if_splits)

lemma kalloc_lk [kout_intros]: "lk_view s = K \<Longrightarrow> kout (\<lambda>x. lk_view (snd x) = K) (kalloc s)"
  by (auto simp: kalloc_def acquire_def release_def Let_def lk_view_def kout_def split: if_splits)

lemma free_pid_lk [kout_intros]: "lk_view s = K \<Longrightarrow> kout (\<lambda>t. lk_view t = K) (free_pid i s)"
  by (auto simp: free_pid_def acquire_def release_def Let_def lk_view_def kout_def split: if_splits)

lemma walk_loop_lk [kout_intros]: "lk_view s = K \<Longrightarrow> kout (\<lambda>x. lk_view (snd x) = K) (walk_loop n pt va al s)"
proof (induction n arbitrary: pt s)
  case (Suc n)
  show ?case
    unfolding walk_loop.simps get_clear_page_def using Suc.prems by ((intro kout_intros Suc.IH) | simp)+
qed simp

lemma unmap_loop_lk [kout_intros]: "lk_view s = K \<Longrightarrow> kout (\<lambda>t. lk_view t = K) (unmap_loop n pt va f p s)"
proof (induction n arbitrary: va s)
  case (Suc n)
  show ?case
    unfolding unmap_loop.simps unmap_page_flex_def walk_def using Suc.prems by ((intro kout_intros Suc.IH) | simp)+
qed simp

lemma free_page_table_lk [kout_intros]: "lk_view s = K \<Longrightarrow> kout (\<lambda>t. lk_view t = K) (free_page_table pt s)"
proof -
  have "kout (\<lambda>t. lk_view t = K) (free_page_table_aux n pt l s)" if "lk_view s = K" for n l pt s
    using that
  proof (induction n arbitrary: pt l s)
    case (Suc n)
    show ?case
      unfolding free_page_table_aux.simps using Suc.prems by ((intro kout_intros Suc.IH) | simp)+
  qed simp
  then show "lk_view s = K \<Longrightarrow> ?thesis" by (simp add: free_page_table_def)
qed

lemma copy_loop_lk [kout_intros]:
  fixes s :: "'a proc_state_scheme"
  shows "lk_view s = K \<Longrightarrow> kout (\<lambda>x. lk_view (snd x) = K) (copy_in_or_out_may_str pt uva kva sz way s)"
proof (induction "unat sz" arbitrary: uva kva sz s rule: less_induct)
  case less
  have step: "kout (\<lambda>x. lk_view (snd x) = K) (copy_in_or_out_may_str pt u k (sz - chunk uva sz) way t)" if "lk_view t = K" "sz > 0" for u k and t :: "'a proc_state_scheme"
    by (rule less.hyps) (use that in \<open>auto simp: chunk_rest unat_chunk word_less_nat_alt\<close>)
  show ?case
    unfolding copy_in_or_out_may_str.simps [of pt uva kva sz way s] walk_def using less.prems
    by ((intro kout_intros step) | simp)+
qed

lemma copyout_int_lk: "kout (\<lambda>x. lk_view (snd x) = lk_view s) (copyout_int pt a v s)"
  unfolding copyout_int_def copyout_def copy_out_def by ((intro kout_intros) | simp)+

text \<open>Only the slot of the process changes.\<close>

lemma lk_seq: "kout (\<lambda>t. lk_view t = K) m \<Longrightarrow> (\<And>t. lk_view t = K \<Longrightarrow> kout P (f t)) \<Longrightarrow> kout P (kbind m f)"
  by (cases m) auto

lemma free_process_lk:
  "kout (\<lambda>t. held t = held s \<and> noff t = noff s \<and> procs t = (procs s)[i := unused_proc (proc i s)]) (free_process i s)"
  unfolding free_process_def free_process_user_memory_def free_user_memory_def unmap_n_pages_free_def unmap_n_pages_flex_def
  by (rule lk_seq [where K = "lk_view s"], rule free_pid_lk, rule refl,
      rule lk_seq [where K = "lk_view s"], erule unmap_loop_lk,
      (rule lk_seq [where K = "lk_view s"], erule kfree_lk)+,
      rule lk_seq [where K = "lk_view s"], erule free_page_table_lk,
      rule lk_seq [where K = "lk_view s"], erule kfree_lk)
    (simp add: lk_view_def upd_proc_def)

text \<open>Looking at a child and leaving it alone.\<close>

lemma look_at:
  assumes "ProcLock i \<notin> held s"
  shows "kbind (acquire (ProcLock i) s) (release (ProcLock i)) = Ok s"
proof -
  have "insert (ProcLock i) (held s) - {ProcLock i} = held s" using assms by auto
  then show ?thesis using assms by (simp add: acquire_def release_def)
qed

lemma handle_exit_skip:
  assumes "\<And>i. i \<in> set is \<Longrightarrow> p_parent (proc i s) = Some p \<Longrightarrow> p_status (proc i s) \<noteq> ZOMBIE \<and> ProcLock i \<notin> held s"
  shows "handle_exit_loop p uva (is @ js) err s =
    handle_exit_loop p uva js (if \<exists>i \<in> set is. p_parent (proc i s) = Some p then 0 else err) s"
  using assms
proof (induction "is" arbitrary: err)
  case (Cons i ks)
  have IH: "handle_exit_loop p uva (ks @ js) e s = handle_exit_loop p uva js (if \<exists>i \<in> set ks. p_parent (proc i s) = Some p then 0 else e) s" for e
    using Cons by auto
  show ?case
  proof (cases "p_parent (proc i s) = Some p")
    case True
    then have z: "p_status (proc i s) \<noteq> ZOMBIE" "ProcLock i \<notin> held s" using Cons.prems by auto
    have "insert (ProcLock i) (held s) - {ProcLock i} = held s" using z by auto
    then show ?thesis using True z IH [of 0] by (simp add: acquire_def release_def)
  qed (simp add: IH)
qed simp

text \<open>The caller holds its own lock.\<close>

definition own_lock :: "nat \<Rightarrow> 'a lock_state_scheme \<Rightarrow> 'a lock_state_scheme" where
  "own_lock p s = s\<lparr>held := insert (ProcLock p) (held s), noff := Suc (noff s)\<rparr>"

definition child :: "nat \<Rightarrow> nat \<Rightarrow> 'a proc_state_scheme \<Rightarrow> bool" where
  "child p i s \<longleftrightarrow> i < STATIC_PROC_NUM \<and> p_parent (proc i s) = Some p"

definition may_wait :: "nat \<Rightarrow> 'a proc_state_scheme \<Rightarrow> bool" where
  "may_wait p s \<longleftrightarrow> (\<forall>i. ProcLock i \<notin> held s) \<and> \<not> child p p s \<and> p < STATIC_PROC_NUM"

lemma own_lock_simps [simp]: "procs (own_lock p s) = procs s" "held (own_lock p s) = insert (ProcLock p) (held s)"
  "my_proc (own_lock p s) = my_proc s" "noff (own_lock p s) = Suc (noff s)"
  by (simp_all add: own_lock_def my_proc_def)

lemma own_lock_acquire: "ProcLock p \<notin> held s \<Longrightarrow> acquire (ProcLock p) s = Ok (own_lock p s)"
  by (simp add: acquire_def own_lock_def)

lemma own_lock_release: "ProcLock p \<notin> held s \<Longrightarrow> release (ProcLock p) (own_lock p s) = Ok s"
proof -
  assume "ProcLock p \<notin> held s"
  then have "insert (ProcLock p) (held s) - {ProcLock p} = held s" by auto
  then show ?thesis by (simp add: release_def own_lock_def)
qed

lemma handle_no_zombie:
  assumes "may_wait p s" "\<forall>i. child p i s \<longrightarrow> p_status (proc i s) \<noteq> ZOMBIE"
  shows "handle_exit_child p uva (own_lock p s) = Ok ((if \<exists>i. child p i s then 0 else 1, -1), own_lock p s)"
proof -
  have p: "\<And>i. ProcLock i \<notin> held s" "p < STATIC_PROC_NUM" using assms(1) by (auto simp: may_wait_def)
  have "handle_exit_loop p uva ([0..<STATIC_PROC_NUM] @ []) 1 (own_lock p s) =
    handle_exit_loop p uva [] (if \<exists>i \<in> set [0..<STATIC_PROC_NUM]. p_parent (proc i (own_lock p s)) = Some p then 0 else 1) (own_lock p s)"
    by (rule handle_exit_skip) (use assms p in \<open>auto simp: child_def may_wait_def\<close>)
  then show ?thesis by (auto simp: handle_exit_child_def child_def)
qed

lemma wait_no_zombie:
  assumes "may_wait p s" "\<forall>i. child p i s \<longrightarrow> p_status (proc i s) \<noteq> ZOMBIE"
  shows "wait env p uva s = (if \<exists>i. child p i s then wait_loop env p uva (own_lock p s) else Ok (-1, s))"
proof -
  have p: "\<And>i. ProcLock i \<notin> held s" using assms(1) by (auto simp: may_wait_def)
  show ?thesis
    using handle_no_zombie [OF assms] own_lock_acquire [OF p] own_lock_release [OF p] by (simp add: wait_def)
qed

definition first_zombie :: "nat \<Rightarrow> nat \<Rightarrow> 'a proc_state_scheme \<Rightarrow> bool" where
  "first_zombie p c s \<longleftrightarrow> child p c s \<and> p_status (proc c s) = ZOMBIE \<and> p_pid (proc c s) \<noteq> -1 \<and>
     (\<forall>i < c. child p i s \<longrightarrow> p_status (proc i s) \<noteq> ZOMBIE)"

text \<open>Copying the exit status to the parent, with both locks held.\<close>

definition report_status :: "nat \<Rightarrow> nat \<Rightarrow> u64 \<Rightarrow> 'a fs_state_scheme \<Rightarrow> (int \<times> 'a fs_state_scheme) kres" where
  "report_status p c uva s =
     (let u = own_lock c (own_lock p s) in
      if uva \<noteq> 0 then copyout_int (p_pgtable (proc p s)) uva (p_xstatus (proc c s)) u else Ok (0, u))"

lemma report_status_lk:
  assumes "report_status p c uva s = Ok (err, t)"
  shows "held t = insert (ProcLock c) (insert (ProcLock p) (held s))" "noff t = Suc (Suc (noff s))" "procs t = procs s"
proof -
  have "lk_view t = lk_view (own_lock c (own_lock p s))"
    using assms kout_D [OF copyout_int_lk] by (fastforce simp: report_status_def Let_def split: if_splits)
  then show "held t = insert (ProcLock c) (insert (ProcLock p) (held s))" "noff t = Suc (Suc (noff s))" "procs t = procs s"
    by (simp_all add: lk_view_def)
qed

text \<open>After the child's lock is released.\<close>

definition let_go :: "nat \<Rightarrow> 'a lock_state_scheme \<Rightarrow> 'a lock_state_scheme" where
  "let_go c t = t\<lparr>held := held t - {ProcLock c}, noff := noff t - 1\<rparr>"

lemma handle_zombie:
  assumes w: "may_wait p s" and z: "first_zombie p c s"
  shows "handle_exit_child p uva (own_lock p s) =
    kbind (report_status p c uva s) (\<lambda>(err, t).
      if err \<noteq> 0 then Ok ((-1, p_pid (proc c s)), let_go c t)
      else kbind (free_process c t) (\<lambda>t. Ok ((0, p_pid (proc c s)), let_go c t)))"
proof -
  have c: "c < STATIC_PROC_NUM" "p_parent (proc c s) = Some p" "p_status (proc c s) = ZOMBIE" and cp: "c \<noteq> p" and l: "\<And>i. ProcLock i \<notin> held s"
    using w z by (auto simp: may_wait_def first_zombie_def child_def)
  have "[0..<STATIC_PROC_NUM] = [0..<c] @ c # [Suc c..<STATIC_PROC_NUM]" 
    using c(1) upt_add_eq_append [of 0 c "STATIC_PROC_NUM - c"] upt_conv_Cons [of c STATIC_PROC_NUM] by simp
  moreover have "handle_exit_loop p uva ([0..<c] @ c # [Suc c..<STATIC_PROC_NUM]) 1 (own_lock p s) =
    handle_exit_loop p uva (c # [Suc c..<STATIC_PROC_NUM]) (if \<exists>i \<in> set [0..<c]. p_parent (proc i (own_lock p s)) = Some p then 0 else 1) (own_lock p s)"
    by (rule handle_exit_skip) (use w z c(1) in \<open>auto simp: may_wait_def first_zombie_def child_def\<close>)
  moreover have acq: "acquire (ProcLock c) (own_lock p s) = Ok (own_lock c (own_lock p s))" using l cp by (intro own_lock_acquire) simp
  ultimately have "handle_exit_child p uva (own_lock p s) =
      kbind (report_status p c uva s) (\<lambda>(err, t).
        if err \<noteq> 0 then kbind (release (ProcLock c) t) (\<lambda>t. Ok ((-1, p_pid (proc c s)), t))
        else kbind (free_process c t) (\<lambda>t. kbind (release (ProcLock c) t) (\<lambda>t. Ok ((0, p_pid (proc c s)), t))))"
    using c(2,3) by (simp add: handle_exit_child_def report_status_def Let_def)
  also have "\<dots> = kbind (report_status p c uva s) (\<lambda>(err, t).
      if err \<noteq> 0 then Ok ((-1, p_pid (proc c s)), let_go c t)
      else kbind (free_process c t) (\<lambda>t. Ok ((0, p_pid (proc c s)), let_go c t)))"
  proof (rule kbind_cong [OF refl])
    fix x assume r: "report_status p c uva s = Ok x"
    obtain err t where x: "x = (err, t)" by (metis prod.exhaust)
    note k = report_status_lk [OF r [unfolded x]]
    have rel: "release (ProcLock c) u = Ok (let_go c u)" if "held u = held t" "noff u = noff t" for u :: "'a fs_state_scheme"
      using that k by (simp add: release_def let_go_def)
    have "release (ProcLock c) u = Ok (let_go c u)" if "free_process c t = Ok u" for u
      using kout_D [OF free_process_lk that] by (intro rel) auto
    then have "kbind (free_process c t) (\<lambda>t. kbind (release (ProcLock c) t) (\<lambda>t. Ok ((0 :: int, p_pid (proc c s)), t))) =
        kbind (free_process c t) (\<lambda>t. Ok ((0 :: int, p_pid (proc c s)), let_go c t))"
      by (intro kbind_cong [OF refl]) simp
    then show "(case x of (err, t) \<Rightarrow> if err \<noteq> 0 then kbind (release (ProcLock c) t) (\<lambda>t. Ok ((-1 :: int, p_pid (proc c s)), t))
          else kbind (free_process c t) (\<lambda>t. kbind (release (ProcLock c) t) (\<lambda>t. Ok ((0 :: int, p_pid (proc c s)), t)))) =
        (case x of (err, t) \<Rightarrow> if err \<noteq> 0 then Ok ((-1 :: int, p_pid (proc c s)), let_go c t)
          else kbind (free_process c t) (\<lambda>t. Ok ((0 :: int, p_pid (proc c s)), let_go c t)))"
      unfolding x using rel [of t] by simp
  qed
  finally show ?thesis .
qed

text \<open>The caller's lock is released last.\<close>

definition waited :: "nat \<Rightarrow> nat \<Rightarrow> 'a proc_state_scheme \<Rightarrow> 'a proc_state_scheme" where
  "waited p c t = let_go p (let_go c t)"

lemma release_own:
  assumes "held t = insert (ProcLock c) (insert (ProcLock p) (held s))" "noff t = Suc (Suc (noff s))" "c \<noteq> p"
  shows "release (ProcLock p) (let_go c t) = Ok (waited p c t)"
  using assms by (simp add: release_def let_go_def waited_def)

lemma waited_fields:
  assumes "held t = insert (ProcLock c) (insert (ProcLock p) (held s))" "noff t = Suc (Suc (noff s))" "may_wait p s" "first_zombie p c s"
  shows "held (waited p c t) = held s" "noff (waited p c t) = noff s" "procs (waited p c t) = procs t"
proof -
  have "ProcLock c \<notin> held s" "ProcLock p \<notin> held s" using assms(3) by (auto simp: may_wait_def)
  then show "held (waited p c t) = held s" "noff (waited p c t) = noff s" "procs (waited p c t) = procs t"
    using assms(1,2) by (auto simp: waited_def let_go_def)
qed

text \<open>The rest of \<open>wait\<close> once a zombie is found, in a form that serves the call and its loop.\<close>

lemma reap:
  assumes "may_wait p s" "first_zombie p c s" "report_status p c uva s = Ok (0, t)" "free_process c t = Ok u"
  shows "\<exists>v. kbind (handle_exit_child p uva (own_lock p s)) (\<lambda>((err, pid), s).
       if err \<noteq> 0 then A s else if pid = -1 then B s else kbind (release (ProcLock p) s) (\<lambda>s. Ok (pid, s))) = Ok (p_pid (proc c s), v) \<and>
     held v = held s \<and> noff v = noff s \<and> procs v = (procs s)[c := unused_proc (proc c s)]"
proof -
  note k = report_status_lk [OF assms(3)]
  have f: "held u = held t" "noff u = noff t" "procs u = (procs t)[c := unused_proc (proc c t)]"
    using kout_D [OF free_process_lk assms(4)] by auto
  have pid: "p_pid (proc c s) \<noteq> -1" "c \<noteq> p" using assms(1,2) by (auto simp: first_zombie_def may_wait_def)
  have u: "held u = insert (ProcLock c) (insert (ProcLock p) (held s))" "noff u = Suc (Suc (noff s))" using f k by simp_all
  note w = waited_fields [OF u assms(1,2)] and r = release_own [OF u pid(2)]
  show ?thesis
    using assms(3,4) pid r w f k by (simp add: handle_zombie [OF assms(1,2)])
qed

text \<open>Child \<open>c\<close> was reaped: its pid is returned, its slot is unused, nothing else has changed in the table and the locks.\<close>

definition reaped :: "nat \<Rightarrow> 'a fs_state_scheme \<Rightarrow> (int \<times> 'a fs_state_scheme) kres \<Rightarrow> bool" where
  "reaped c s r \<longleftrightarrow> (\<exists>w. r = Ok (p_pid (proc c s), w) \<and> held w = held s \<and> noff w = noff s \<and> procs w = (procs s)[c := unused_proc (proc c s)])"

text \<open>The loop of \<open>wait\<close> when the process runs again in state \<open>v\<close>.\<close>

lemma wait_loop_wakes:
  fixes s :: "'a fs_state_scheme"
  assumes sl: "sleep sw (ProcLock p) NoChan s = Ok (own_lock p v)" and v: "may_wait p v"
  shows "(\<nexists>i. child p i v) \<Longrightarrow> wait_loop (sw # env) p uva s = Panic ''wait: wake up parent without any child''"
    "(\<exists>i. child p i v) \<Longrightarrow> \<forall>i. child p i v \<longrightarrow> p_status (proc i v) \<noteq> ZOMBIE \<Longrightarrow> wait_loop (sw # env) p uva s = wait_loop env p uva (own_lock p v)"
    "first_zombie p c v \<Longrightarrow> report_status p c uva v = Ok (err, t) \<Longrightarrow> err \<noteq> 0 \<Longrightarrow>
      wait_loop (sw # env) p uva s = Panic ''wait: wake up parent without any child''"
    "first_zombie p c v \<Longrightarrow> report_status p c uva v = Ok (0, t) \<Longrightarrow> free_process c t = Ok u \<Longrightarrow> reaped c v (wait_loop (sw # env) p uva s)"
proof -
  show "wait_loop (sw # env) p uva s = Panic ''wait: wake up parent without any child''" if "\<nexists>i. child p i v"
    using handle_no_zombie [OF v, of uva] that sl by simp
  show "wait_loop (sw # env) p uva s = wait_loop env p uva (own_lock p v)"
    if "\<exists>i. child p i v" "\<forall>i. child p i v \<longrightarrow> p_status (proc i v) \<noteq> ZOMBIE"
    using handle_no_zombie [OF v that(2), of uva] that(1) sl by simp
  show "wait_loop (sw # env) p uva s = Panic ''wait: wake up parent without any child''"
    if "first_zombie p c v" "report_status p c uva v = Ok (err, t)" "err \<noteq> 0"
    using handle_zombie [OF v that(1), of uva] that(2,3) sl by simp
  show "reaped c v (wait_loop (sw # env) p uva s)"
    if "first_zombie p c v" "report_status p c uva v = Ok (0, t)" "free_process c t = Ok u"
    using reap [OF v that, of "\<lambda>_. Panic ''wait: wake up parent without any child''" "wait_loop env p uva"] sl by (simp add: reaped_def)
qed

text \<open>
  C32: \<open>wait\<close>. A process without children gets -1 at once, and nothing changes. When a child has exited, the first one in
  the table is reaped: if the exit status cannot be copied to the caller, -1 is returned and the child is left as it was;
  otherwise, once its resources are given back, \<open>wait\<close> returns its pid, its slot is unused and free for \<open>alloc_process\<close>, and
  every other process is as before. With children of which none has exited it sleeps. When it runs again it sleeps again
  as long as no child has exited, and else reaps the first one in the same way; but a status that cannot be copied, like a
  wake-up without children, now makes the kernel panic ("wake up parent without any child"). Whenever \<open>wait\<close> returns, no
  lock is left held.
\<close>

theorem wait_correct:
  fixes s :: "'a fs_state_scheme"
  assumes "may_wait p s"
  shows "((\<nexists>i. child p i s) \<longrightarrow> wait env p uva s = Ok (-1, s)) \<and>
    (\<forall>c err t. first_zombie p c s \<and> report_status p c uva s = Ok (err, t) \<longrightarrow>
      (if err \<noteq> 0 then \<exists>w. wait env p uva s = Ok (-1, w) \<and> held w = held s \<and> noff w = noff s \<and> procs w = procs s
       else \<forall>u. free_process c t = Ok u \<longrightarrow> reaped c s (wait env p uva s))) \<and>
    ((\<exists>i. child p i s) \<and> (\<forall>i. child p i s \<longrightarrow> p_status (proc i s) \<noteq> ZOMBIE) \<and> my_proc s = Some p \<and> p_chain (proc p s) = NoChan \<and> noff s = 0 \<longrightarrow>
      wait [] p uva s = Block \<and>
      (\<forall>sw v. sw (upd_proc p (\<lambda>q. q\<lparr>p_status := SLEEP, p_chain := NoChan\<rparr>) (own_lock p s)) = Ok (own_lock p v) \<and> may_wait p v \<longrightarrow>
        ((\<nexists>i. child p i v) \<longrightarrow> wait (sw # env) p uva s = Panic ''wait: wake up parent without any child'') \<and>
        ((\<exists>i. child p i v) \<and> (\<forall>i. child p i v \<longrightarrow> p_status (proc i v) \<noteq> ZOMBIE) \<longrightarrow>
          wait (sw # env) p uva s = wait_loop env p uva (own_lock p v)) \<and>
        (\<forall>c err t. first_zombie p c v \<and> report_status p c uva v = Ok (err, t) \<longrightarrow>
          (if err \<noteq> 0 then wait (sw # env) p uva s = Panic ''wait: wake up parent without any child''
           else \<forall>u. free_process c t = Ok u \<longrightarrow> reaped c v (wait (sw # env) p uva s)))))"
proof (intro conjI impI)
  have acq: "acquire (ProcLock p) s = Ok (own_lock p s)" using assms own_lock_acquire by (auto simp: may_wait_def)
  show "wait env p uva s = Ok (-1, s)" if "\<nexists>i. child p i s" using that wait_no_zombie [OF assms] by simp
  show "\<forall>c err t. first_zombie p c s \<and> report_status p c uva s = Ok (err, t) \<longrightarrow>
      (if err \<noteq> 0 then \<exists>w. wait env p uva s = Ok (-1, w) \<and> held w = held s \<and> noff w = noff s \<and> procs w = procs s
       else \<forall>u. free_process c t = Ok u \<longrightarrow> reaped c s (wait env p uva s))"
  proof (intro allI impI)
    fix c err t assume z: "first_zombie p c s \<and> report_status p c uva s = Ok (err, t)"
    note k = report_status_lk [OF conjunct2 [OF z]]
    have "\<exists>w. wait env p uva s = Ok (-1, w) \<and> held w = held s \<and> noff w = noff s \<and> procs w = procs s" if "err \<noteq> 0"
    proof -
      have "c \<noteq> p" using z assms by (auto simp: first_zombie_def may_wait_def)
      then have "wait env p uva s = Ok (-1, waited p c t)"
        using that z release_own [OF k(1,2)] acq by (simp add: wait_def handle_zombie [OF assms conjunct1 [OF z]])
      then show ?thesis using waited_fields [OF k(1,2) assms conjunct1 [OF z]] k(3) by auto
    qed
    moreover have "reaped c s (wait env p uva s)" if "err = 0" "free_process c t = Ok u" for u
    proof -
      have e: "wait env p uva s = kbind (handle_exit_child p uva (own_lock p s)) (\<lambda>((err, pid), s).
          if err \<noteq> 0 then kbind (release (ProcLock p) s) (\<lambda>s. Ok (-1, s))
          else if pid = -1 then wait_loop env p uva s else kbind (release (ProcLock p) s) (\<lambda>s. Ok (pid, s)))"
        using acq by (auto simp: wait_def intro!: kbind_cong)
      show ?thesis unfolding e reaped_def by (rule reap [OF assms conjunct1 [OF z] _ that(2)]) (use z that(1) in simp)
    qed
    ultimately show "if err \<noteq> 0 then \<exists>w. wait env p uva s = Ok (-1, w) \<and> held w = held s \<and> noff w = noff s \<and> procs w = procs s
       else \<forall>u. free_process c t = Ok u \<longrightarrow> reaped c s (wait env p uva s)" by simp
  qed
  assume b: "(\<exists>i. child p i s) \<and> (\<forall>i. child p i s \<longrightarrow> p_status (proc i s) \<noteq> ZOMBIE) \<and> my_proc s = Some p \<and> p_chain (proc p s) = NoChan \<and> noff s = 0"
  then have loop: "wait e p uva s = wait_loop e p uva (own_lock p s)" for e using wait_no_zombie [OF assms] by simp
  have sleep: "sleep sw (ProcLock p) NoChan (own_lock p s) = sw (upd_proc p (\<lambda>q. q\<lparr>p_status := SLEEP, p_chain := NoChan\<rparr>) (own_lock p s))" for sw
    using b by (simp add: sleep_def switch_to_scheduler_def)
  show "wait [] p uva s = Block" using loop sleep by simp
  show "\<forall>sw v. sw (upd_proc p (\<lambda>q. q\<lparr>p_status := SLEEP, p_chain := NoChan\<rparr>) (own_lock p s)) = Ok (own_lock p v) \<and> may_wait p v \<longrightarrow>
        ((\<nexists>i. child p i v) \<longrightarrow> wait (sw # env) p uva s = Panic ''wait: wake up parent without any child'') \<and>
        ((\<exists>i. child p i v) \<and> (\<forall>i. child p i v \<longrightarrow> p_status (proc i v) \<noteq> ZOMBIE) \<longrightarrow>
          wait (sw # env) p uva s = wait_loop env p uva (own_lock p v)) \<and>
        (\<forall>c err t. first_zombie p c v \<and> report_status p c uva v = Ok (err, t) \<longrightarrow>
          (if err \<noteq> 0 then wait (sw # env) p uva s = Panic ''wait: wake up parent without any child''
           else \<forall>u. free_process c t = Ok u \<longrightarrow> reaped c v (wait (sw # env) p uva s)))"
  proof (intro allI impI, elim conjE)
    fix sw and v :: "'a fs_state_scheme"
    assume sw: "sw (upd_proc p (\<lambda>q. q\<lparr>p_status := SLEEP, p_chain := NoChan\<rparr>) (own_lock p s)) = Ok (own_lock p v)" and v: "may_wait p v"
    have sl: "sleep sw (ProcLock p) NoChan (own_lock p s) = Ok (own_lock p v)" unfolding sleep by (rule sw)
    note W = wait_loop_wakes [OF sl v, where env = env and uva = uva]
    show "((\<nexists>i. child p i v) \<longrightarrow> wait (sw # env) p uva s = Panic ''wait: wake up parent without any child'') \<and>
        ((\<exists>i. child p i v) \<and> (\<forall>i. child p i v \<longrightarrow> p_status (proc i v) \<noteq> ZOMBIE) \<longrightarrow>
          wait (sw # env) p uva s = wait_loop env p uva (own_lock p v)) \<and>
        (\<forall>c err t. first_zombie p c v \<and> report_status p c uva v = Ok (err, t) \<longrightarrow>
          (if err \<noteq> 0 then wait (sw # env) p uva s = Panic ''wait: wake up parent without any child''
           else \<forall>u. free_process c t = Ok u \<longrightarrow> reaped c v (wait (sw # env) p uva s)))"
      unfolding loop [of "sw # env"] using W(1-3) W(4) by (auto simp del: wait_loop.simps)
  qed
qed

text \<open>Conditions under which the resources of a process without heap can be given back.\<close>

lemma free_process_ok:
  fixes s :: "'a proc_state_scheme"
  assumes pid: "PidLock \<notin> held s" "pid_set s ! nat (p_pid (proc i s))" and me: "p_mem_end (proc i s) = PROC_VA_START"
    and sp: "space_ok s (p_pgtable (proc i s)) F" and tb: "tables (mem s) 2 (p_pgtable (proc i s)) \<subseteq> pages_of s"
    and pg: "{p_ustack (proc i s), p_trap_frame (proc i s), p_kstack (proc i s)} \<subseteq> pages_of s - F - tables (mem s) 2 (p_pgtable (proc i s))"
    and ds: "distinct [p_ustack (proc i s), p_trap_frame (proc i s), p_kstack (proc i s)]"
  shows "\<exists>u. free_process i s = Ok u"
proof -
  let ?q = "proc i s" and ?T = "tables (mem s) 2 (p_pgtable (proc i s))"
  define s1 where "s1 = s\<lparr>pid_set := (pid_set s)[nat (p_pid ?q) := False]\<rparr>"
  have "insert PidLock (held s) - {PidLock} = held s" using pid(1) by auto
  then have fp: "free_pid (p_pid ?q) s = Ok s1" using pid by (simp add: free_pid_def acquire_def release_def s1_def)
  have pr: "procs s1 = procs s" and m1: "mem s1 = mem s" "pages_of s1 = pages_of s" by (simp_all add: s1_def pages_of_def)
  have sp1: "space_ok s1 (p_pgtable ?q) F" using sp by (simp add: s1_def space_ok_def free_repr_def free_list_def)
  have um: "free_process_user_memory i s1 = Ok s1"
    by (simp add: free_process_user_memory_def free_user_memory_def unmap_n_pages_free_def unmap_n_pages_flex_def pr me page_count_def)
  obtain s2 where s2: "kfree (p_ustack ?q) s1 = Ok s2" "only_mem s1 s2" "tables (mem s2) 2 (p_pgtable ?q) = ?T" "space_ok s2 (p_pgtable ?q) (insert (p_ustack ?q) F)"
    using kfree_space [OF sp1, of "p_ustack ?q"] pg m1 by (auto simp: kok_def)
  have p2: "procs s2 = procs s" "pages_of s2 = pages_of s" using only_mem_procs [OF s2(2)] only_mem_pages_of [OF s2(2)] pr m1(2) by simp_all
  obtain s3 where s3: "kfree (p_trap_frame ?q) s2 = Ok s3" "only_mem s2 s3" "tables (mem s3) 2 (p_pgtable ?q) = ?T"
      "space_ok s3 (p_pgtable ?q) (insert (p_trap_frame ?q) (insert (p_ustack ?q) F))"
    using kfree_space [OF s2(4), of "p_trap_frame ?q"] pg ds p2 s2(3) by (auto simp: kok_def)
  let ?F3 = "insert (p_trap_frame ?q) (insert (p_ustack ?q) F)"
  have p3: "procs s3 = procs s" "pages_of s3 = pages_of s" using only_mem_procs [OF s3(2)] only_mem_pages_of [OF s3(2)] p2 by simp_all
  obtain s4 where s4: "free_page_table (p_pgtable ?q) s3 = Ok s4" "frees s3 ?F3 s4 ?T"
    using free_level2 [of s3 "p_pgtable ?q" ?F3] s3(3,4) tb p3(2) by (auto simp: kok_def space_ok_def)
  have o4: "only_mem s3 s4" "free_repr s4 (?F3 \<union> ?T)" using s4(2) by (simp_all add: frees_def)
  have p4: "procs s4 = procs s" "pages_of s4 = pages_of s" using only_mem_procs [OF o4(1)] only_mem_pages_of [OF o4(1)] p3 by simp_all
  obtain s5 where s5: "kfree (p_kstack ?q) s4 = Ok s5"
    using kfree_frees [OF o4(2), of "p_kstack ?q"] pg ds p4 by (auto simp: kok_def)
  show ?thesis
    using fp um s2(1) s3(1) s4(1) s5 pr p2 p3 p4 by (simp add: free_process_def)
qed

text \<open>Process 1 has exited; process 0 is its parent.\<close>

definition zombie_example :: fs_state where
  "zombie_example = fs_example\<lparr>mem := (\<lambda>_. 0), mem_head := 0, kernel_end := 0x87ff0000, pid_set := replicate 64 True,
     procs := (procs pg_example)[1 := (proc 1 pg_example)\<lparr>p_pid := 1, p_status := ZOMBIE, p_parent := Some 0, p_mem_end := PROC_VA_START,
       p_ustack := 0x87ff1000, p_trap_frame := 0x87ff2000, p_pgtable := 0x87ff3000, p_kstack := 0x87ff4000\<rparr>]\<rparr>"

lemma zombie_example_fields:
  "procs zombie_example = (procs pg_example)[1 := (proc 1 pg_example)\<lparr>p_pid := 1, p_status := ZOMBIE, p_parent := Some 0, p_mem_end := PROC_VA_START,
       p_ustack := 0x87ff1000, p_trap_frame := 0x87ff2000, p_pgtable := 0x87ff3000, p_kstack := 0x87ff4000\<rparr>]"
  "held zombie_example = {}" "mem zombie_example = (\<lambda>_. 0)" "mem_head zombie_example = 0" "kernel_end zombie_example = 0x87ff0000"
  "pid_set zombie_example = replicate 64 True" "length (procs pg_example) = 64" "\<And>i. i < 64 \<Longrightarrow> p_parent (proc i pg_example) = None"
  by (simp_all add: zombie_example_def fs_example_def log_example_def bio_example_def pgroup_state.defs bio_state.defs log_state.defs fs_state.defs)
    (simp_all add: pg_example_def)

theorem wait_correct_witness:
  "may_wait 0 zombie_example \<and> (\<exists>w. wait [] 0 0 zombie_example = Ok (1, w) \<and> held w = {} \<and> p_status (proc 1 w) = UNUSED)"
proof -
  let ?s = zombie_example and ?r = "0x87ff3000 :: u64"
  note z = zombie_example_fields
  have ch: "child 0 i ?s \<longleftrightarrow> i = 1" for i
    using z(8) by (auto simp: child_def z(1,7) nth_list_update)
  have w: "may_wait 0 ?s" using ch by (simp add: may_wait_def z(2))
  have one: "proc 1 ?s = (proc 1 pg_example)\<lparr>p_pid := 1, p_status := ZOMBIE, p_parent := Some 0, p_mem_end := PROC_VA_START,
       p_ustack := 0x87ff1000, p_trap_frame := 0x87ff2000, p_pgtable := 0x87ff3000, p_kstack := 0x87ff4000\<rparr>"
    by (simp add: z(1,7))
  have f: "first_zombie 0 1 ?s" using ch one by (auto simp: first_zombie_def)
  let ?t = "own_lock 1 (own_lock 0 ?s)"
  have r: "report_status 0 1 0 ?s = Ok (0, ?t)" by (simp add: report_status_def Let_def)
  have t: "procs ?t = procs ?s" "held ?t = {ProcLock 1, ProcLock 0}" "mem ?t = (\<lambda>_. 0)" "mem_head ?t = 0" "kernel_end ?t = 0x87ff0000"
      "pid_set ?t = replicate 64 True"
    using z by (simp_all add: own_lock_def)
  have pages: "valid_page 0x87ff0000 0x87ff1000" "valid_page 0x87ff0000 0x87ff2000" "valid_page 0x87ff0000 ?r" "valid_page 0x87ff0000 0x87ff4000"
    by (simp_all add: valid_page_def page_aligned_def layout_simps)
  have e: "tables (\<lambda>_. 0) 2 ?r = {?r} \<and> table_wf (\<lambda>_. 0) 2 ?r" using empty_table [of ?r "\<lambda>_. 0" 2 0] by (simp add: page_aligned_def)
  have "free_list ?t []" using t by (simp add: free_list_def)
  then have "space_ok ?t ?r {}" using e t by (auto simp: space_ok_def free_repr_def)
  then have "\<exists>u. free_process 1 ?t = Ok u"
    by (intro free_process_ok) (use t one e pages in \<open>auto simp: pages_of_def\<close>)
  then obtain u where u: "free_process 1 ?t = Ok u" by blast
  note wait_correct [OF w, of "[]" 0, THEN conjunct2, THEN conjunct1, rule_format, OF conjI [OF f r]]
  then obtain w where "wait [] 0 0 ?s = Ok (p_pid (proc 1 ?s), w)" "held w = held ?s" "procs w = (procs ?s)[1 := unused_proc (proc 1 ?s)]"
    using u by (auto simp: reaped_def)
  then show ?thesis using w one z(2,7) by (auto simp: z(1) unused_proc_def)
qed

end
