(* ===== verification/Loader_Inv.thy ===== *)
theory Loader_Inv
  imports Loader Fs_Frame
begin

text \<open>
  Bounds of the program loader, kernel/process/process_loader.c: its loops end, and the end of memory it returns is a page
  boundary between the start of user memory and the stack.
\<close>

section \<open>Loops that end\<close>

text \<open>\<open>ends r\<close>: the call does not run past its bound.\<close>

definition ends :: "'a kres \<Rightarrow> bool" where
  "ends r \<longleftrightarrow> r \<noteq> Hang"

named_theorems ends_intros "rules for ends, by the shape of the program"

lemma ends_simps [simp]: "ends (Ok x)" "ends (Panic e)" "ends Block" "\<not> ends Hang"
  by (simp_all add: ends_def)

lemma ends_bind [ends_intros]: "ends m \<Longrightarrow> (\<And>x. m = Ok x \<Longrightarrow> ends (f x)) \<Longrightarrow> ends (kbind m f)"
  by (cases m) auto

lemma ends_if [ends_intros]: "(b \<Longrightarrow> ends x) \<Longrightarrow> (\<not> b \<Longrightarrow> ends y) \<Longrightarrow> ends (if b then x else y)"
  by simp

lemma ends_let [ends_intros]: "ends (f v) \<Longrightarrow> ends (let x = v in f x)"
  by simp

lemma ends_case_prod [ends_intros]: "(\<And>a b. x = (a, b) \<Longrightarrow> ends (f a b)) \<Longrightarrow> ends (case x of (a, b) \<Rightarrow> f a b)"
  by (cases x) auto

lemma ends_case_prod_fun [ends_intros]: "(\<And>a b. x = (a, b) \<Longrightarrow> ends (f a b t)) \<Longrightarrow> ends ((case x of (a, b) \<Rightarrow> f a b) t)"
  by (cases x) auto

lemma ends_case_option [ends_intros]:
  "(x = None \<Longrightarrow> ends a) \<Longrightarrow> (\<And>y. x = Some y \<Longrightarrow> ends (f y)) \<Longrightarrow> ends (case x of None \<Rightarrow> a | Some y \<Rightarrow> f y)"
  by (cases x) auto

lemma ends_acquire [ends_intros]: "ends (acquire l s)" and ends_release [ends_intros]: "ends (release l s)"
  by (simp_all add: acquire_def release_def)

lemma ends_kalloc [ends_intros]: "ends (kalloc s)"
  unfolding kalloc_def by ((intro ends_intros) | simp)+

lemma ends_kfree [ends_intros]: "ends (kfree p s)"
  unfolding kfree_def by ((intro ends_intros) | simp)+

lemma ends_get_clear_page [ends_intros]: "ends (get_clear_page s)"
  unfolding get_clear_page_def by ((intro ends_intros) | simp)+

lemma ends_walk_loop [ends_intros]: "ends (walk_loop n t va a s)"
proof (induction n arbitrary: t s)
  case (Suc n)
  show ?case unfolding walk_loop.simps by ((intro ends_intros Suc.IH) | simp)+
qed simp

lemma ends_walk [ends_intros]: "ends (walk t va a s)"
  unfolding walk_def by ((intro ends_intros) | simp)+

lemma ends_map_page [ends_intros]: "ends (map_page t va pa a s)"
  unfolding map_page_def by ((intro ends_intros) | simp)+

lemma ends_unmap_loop [ends_intros]: "ends (unmap_loop n t va f p s)"
proof (induction n arbitrary: va s)
  case (Suc n)
  show ?case unfolding unmap_loop.simps unmap_page_flex_def by ((intro ends_intros Suc.IH) | simp)+
qed simp

lemmas unmap_defs = unmap_n_pages_free_def unmap_n_pages_free_hole_def unmap_n_pages_flex_def

lemma ends_append_map_page [ends_intros]: "ends (append_map_page t va a s)"
  unfolding append_map_page_def by ((intro ends_intros) | simp)+

text \<open>Steps of a page towards an end that is a whole number of pages away.\<close>

lemma page_step:
  assumes "a < b" "page_aligned (b - a)" "unat (b - a) \<le> 4096 * Suc n"
  shows "page_aligned (b - (a + 4096))" "unat (b - (a + 4096)) \<le> 4096 * n"
proof -
  have "b - a \<noteq> 0" using assms(1) by auto
  then have "4096 \<le> unat (b - a)" by (rule page_aligned_nonzero [OF assms(2)])
  moreover have e: "b - (a + 4096) = (b - a) - 4096" by simp
  ultimately have "unat (b - (a + 4096)) = unat (b - a) - 4096" unfolding e by (subst unat_sub) (simp_all add: word_le_nat_alt)
  then show "unat (b - (a + 4096)) \<le> 4096 * n" using assms(3) by simp
  show "page_aligned (b - (a + 4096))" unfolding e by (rule page_aligned_diff [OF assms(2)]) simp
qed

lemma ends_map_file_pages:
  assumes "\<And>u d i n t. ends (elf_read u d i n t)"
    and "page_aligned (fin - file_off)" "unat (fin - file_off) \<le> 4096 * n"
  shows "ends (map_file_pages (Suc n) elf_read t a fin file_off va s)"
  using assms(2,3)
proof (induction n arbitrary: file_off va s)
  case 0
  then have "fin - file_off = 0" by (simp add: unat_eq_zero)
  then show ?case by simp
next
  case (Suc n)
  show ?case
    unfolding map_file_pages.simps(2) [of "Suc n"] read_check_def
    by ((intro ends_intros assms(1) Suc.IH page_step [OF _ Suc.prems]) | simp)+
qed

lemma ends_map_zero_pages:
  assumes "page_aligned (fin - va)" "unat (fin - va) \<le> 4096 * n"
  shows "ends (map_zero_pages (Suc n) t a fin va s)"
  using assms
proof (induction n arbitrary: va s)
  case 0
  then have "fin - va = 0" by (simp add: unat_eq_zero)
  then show ?case by simp
next
  case (Suc n)
  show ?case
    unfolding map_zero_pages.simps(2) [of "Suc n"] by ((intro ends_intros Suc.IH page_step [OF _ Suc.prems]) | simp)+
qed

section \<open>The address reached\<close>

lemma map_file_pages_va:
  "page_aligned va \<Longrightarrow> kout (\<lambda>x. page_aligned (snd (snd (fst x)))) (map_file_pages n elf_read t a fin file_off va s)"
proof (induction n arbitrary: file_off va s)
  case (Suc n)
  have v: "page_aligned (va + 4096)" using Suc.prems by auto
  show ?case
    unfolding map_file_pages.simps read_check_def
    by ((intro kout_if kout_let kout_case_prod kout_ignore Suc.IH v) | simp add: Suc.prems v)+
qed simp

lemma map_file_rest_va:
  "page_aligned va \<Longrightarrow> kout (\<lambda>x. page_aligned (snd (fst x))) (map_file_rest elf_read t a fin file_off va s)"
  unfolding map_file_rest_def read_check_def Let_def
  by ((intro kout_if kout_case_prod kout_ignore) | auto)+

lemma ends_file_rest:
  "(\<And>u d i n t. ends (elf_read u d i n t)) \<Longrightarrow> ends (map_file_rest elf_read t a fin file_off va s)"
  unfolding map_file_rest_def read_check_def Let_def by ((intro ends_intros) | simp)+

lemma page_aligned_diff_start: "page_aligned (start + ROUND_DOWN_PGSIZE n - start)"
  using page_aligned_ROUND_DOWN by simp

lemma file_pages_bound: "unat (start + ROUND_DOWN_PGSIZE n - start) \<le> 4096 * (unat n div 4096)"
  by (simp add: unat_ROUND_DOWN_PGSIZE minus_mod_eq_mult_div)

lemma ends_zero_pages:
  assumes "page_aligned va" "page_aligned start"
  shows "ends (map_zero_pages (unat (start + ROUND_UP_PGSIZE n - va) div 4096 + 2) t a (start + ROUND_UP_PGSIZE n) va s)"
proof -
  have "page_aligned (start + ROUND_UP_PGSIZE n - va)" using assms page_aligned_ROUND_UP by auto
  moreover have "unat (start + ROUND_UP_PGSIZE n - va) \<le> 4096 * Suc (unat (start + ROUND_UP_PGSIZE n - va) div 4096)"
  proof -
    have "m \<le> 4096 * Suc (m div 4096)" for m :: nat
      using div_mult_mod_eq [of m 4096] mod_less_divisor [of 4096 m, OF zero_less_numeral] by simp
    then show ?thesis .
  qed
  ultimately show ?thesis unfolding add_2_eq_Suc' by (rule ends_map_zero_pages)
qed

lemma ends_seq: "ends m \<Longrightarrow> kout Q m \<Longrightarrow> (\<And>x. Q x \<Longrightarrow> ends (f x)) \<Longrightarrow> ends (kbind m f)"
  by (cases m) auto

lemma ends_map_segment:
  assumes er: "\<And>u d i n t. ends (elf_read u d i n t)" and al: "page_aligned (ph_vaddr g)"
  shows "ends (map_segment_for_segment t g elf_read s)"
  unfolding map_segment_for_segment_def Let_def unmap_defs
proof (rule ends_seq [OF _ map_file_pages_va [OF al]], goal_cases)
  case 1
  then show ?case using ends_map_file_pages [OF er page_aligned_diff_start file_pages_bound] by simp
next
  case (2 x)
  obtain err off va s1 where x: "x = ((err, off, va), s1)" by (metis prod.exhaust)
  have va: "page_aligned va" using 2 by (simp add: x)
  show ?case
    unfolding x prod.case
  proof (rule ends_if [OF ends_bind [OF ends_unmap_loop ends_simps(1)]], rule ends_seq [OF ends_file_rest [OF er] map_file_rest_va [OF va]], goal_cases)
    case (1 y)
    obtain err' va' s2 where y: "y = ((err', va'), s2)" by (metis prod.exhaust)
    have "page_aligned va'" using 1 by (simp add: y)
    note z = ends_zero_pages [OF this al]
    show ?case
      unfolding y prod.case
      by (intro ends_if ends_bind [OF ends_unmap_loop] ends_bind [OF z] ends_case_prod ends_case_prod_fun ends_simps)
  qed
qed

section \<open>The end of memory\<close>

lemma check_segment_D:
  assumes "check_segment g n = 0"
  shows "page_aligned (ph_vaddr g)" "ph_vaddr g + ph_memsz g \<le> USTACK_BASE"
  using assms by (auto simp: check_segment_def page_aligned_def split: if_splits)

lemma ends_load_segment:
  assumes "\<And>u d i n t. ends (elf_read u d i n t)"
  shows "ends (load_segment elf_read t n h i e s)"
  unfolding load_segment_def read_check_def Let_def
  by ((intro ends_intros assms ends_map_segment check_segment_D) | simp)+

definition end_ok :: "u64 \<Rightarrow> bool" where
  "end_ok e \<longleftrightarrow> PROC_VA_START \<le> e \<and> e \<le> USTACK_BASE"

lemma load_segment_end: "end_ok e \<Longrightarrow> kout (\<lambda>x. \<forall>e'. fst x = Some e' \<longrightarrow> end_ok e') (load_segment elf_read t n h i e s)"
  unfolding load_segment_def read_check_def Let_def
  by ((intro kout_if kout_case_prod kout_ignore) | auto simp: end_ok_def max_def dest: check_segment_D(2))+

lemma round_up_end: "end_ok e \<Longrightarrow> PROC_VA_START \<le> ROUND_UP_PGSIZE e \<and> ROUND_UP_PGSIZE e \<le> USTACK_BASE"
proof -
  assume "end_ok e"
  then have e: "4096 \<le> unat e" "unat e \<le> 4096 * 67108861" by (simp_all add: end_ok_def layout_simps word_le_nat_alt)
  then have "unat (ROUND_UP_PGSIZE e) = 4096 * ((unat e + 4095) div 4096)" by (subst unat_ROUND_UP_PGSIZE) auto
  moreover have "1 \<le> (unat e + 4095) div 4096" "(unat e + 4095) div 4096 \<le> 67108861" using e by linarith+
  ultimately show ?thesis by (simp add: layout_simps word_le_nat_alt)
qed

lemma load_segments_end:
  assumes "\<And>u d i n t. ends (elf_read u d i n t)" "end_ok e"
  shows "ends (load_segments elf_read t n h is e s) \<and>
    kout (\<lambda>x. fst x = -1 \<or> PROC_VA_START \<le> fst x \<and> fst x \<le> USTACK_BASE \<and> page_aligned (fst x)) (load_segments elf_read t n h is e s)"
  using assms(2)
proof (induction "is" arbitrary: e s)
  case Nil
  then show ?case using round_up_end page_aligned_ROUND_UP by simp
next
  case (Cons i js)
  note l = load_segment_end [OF Cons.prems]
  have "ends (load_segments elf_read t n h (i # js) e s)"
    unfolding load_segments.simps unmap_defs
    by (rule ends_seq [OF ends_load_segment [OF assms(1)] l])
      (auto split: option.splits intro!: ends_bind [OF ends_unmap_loop] Cons.IH [THEN conjunct1])
  moreover have "kout (\<lambda>x. fst x = -1 \<or> PROC_VA_START \<le> fst x \<and> fst x \<le> USTACK_BASE \<and> page_aligned (fst x)) (load_segments elf_read t n h (i # js) e s)"
    unfolding load_segments.simps
    by (rule kout_bind, rule kout_mono [OF l]) (auto split: option.splits intro!: kout_ignore Cons.IH [THEN conjunct2])
  ultimately show ?case by blast
qed

text \<open>The sum in \<open>check_segment\<close> can wrap: a segment above the stack is accepted.\<close>

lemma check_segment_wraps:
  "\<exists>g. check_segment g 4096 = 0 \<and> USTACK_BASE < ph_vaddr g \<and> ph_vaddr g \<le> MAX_VA \<and> ph_filesz g = 4096"
proof -
  define g where "g = \<lparr>ph_type = 1, ph_flags = 7, ph_offset = 0, ph_vaddr = TRAPFRAME_BASE, ph_filesz = 4096, ph_memsz = - TRAPFRAME_BASE, ph_align = 4096\<rparr>"
  have "check_segment g 4096 = 0 \<and> USTACK_BASE < ph_vaddr g \<and> ph_vaddr g \<le> MAX_VA \<and> ph_filesz g = 4096"
    by (simp add: g_def check_segment_def layout_simps)
  then show ?thesis by blast
qed

text \<open>
  C34: Loading an ELF file ends, and gives a sound end of memory. Whatever the file contains, as long as the function that
  reads it returns, no loop of the loader runs past its bound: the loops over pages stop also when offsets or sizes in the
  file wrap around. The returned value is -1 or a page boundary from \<open>PROC_VA_START\<close> to \<open>USTACK_BASE\<close>, which becomes the
  start of the heap.
\<close>

theorem load_process_elf_bounds:
  assumes "\<forall>u d i n t. elf_read u d i n t \<noteq> Hang"
  shows "load_process_elf pt file_size elf_read s \<noteq> Hang \<and>
    (\<forall>e t. load_process_elf pt file_size elf_read s = Ok (e, t) \<longrightarrow>
       e = -1 \<or> PROC_VA_START \<le> e \<and> e \<le> USTACK_BASE \<and> page_aligned e)"
proof -
  have er: "ends (elf_read u d i n t)" for u d i n t using assms by (simp add: ends_def)
  have "end_ok PROC_VA_START" by (simp add: end_ok_def layout_simps)
  note l = load_segments_end [OF er this]
  let ?Q = "\<lambda>x. fst x = -1 \<or> PROC_VA_START \<le> fst x \<and> fst x \<le> USTACK_BASE \<and> page_aligned (fst x)"
  have "ends (load_process_elf pt file_size elf_read s)"
    unfolding load_process_elf_def read_check_def Let_def by ((intro ends_intros er l [THEN conjunct1]) | simp)+
  moreover have "kout ?Q (load_process_elf pt file_size elf_read s)"
    unfolding load_process_elf_def read_check_def Let_def
    by ((intro kout_if kout_case_prod kout_ignore l [THEN conjunct2]) | simp)+
  ultimately show ?thesis by (auto simp: ends_def dest: kout_D)
qed

theorem load_process_elf_bounds_witness:
  "(\<forall>u d i n t. fake_elf_read 0x80010000 u d i n (t :: fs_state) \<noteq> Hang) \<and>
   load_process_elf tiny_root 64 (fake_elf_read 0x80010000) fs_example \<noteq> Hang"
proof -
  have "\<forall>u d i n t. fake_elf_read 0x80010000 u d i n (t :: fs_state) \<noteq> Hang" by (simp add: fake_elf_read_def)
  then show ?thesis using load_process_elf_bounds by blast
qed

end
