(* ===== verification/Console.thy ===== *)
theory Console
  imports Syscall
begin

text \<open>
  The console: kernel/driver/uart.c, kernel/io/console/console.c and kernel/util/kprint.c, with the
  registers of include/driver/uart.h.

  The UART is outside the program. \<open>hw\<close> stands for it: given every access to its registers so far
  (\<open>uart_io\<close>, newest first) it says what reading a register returns now. Loops that wait for the device
  have \<open>fuel\<close>; that enough fuel exists is a hypothesis on the device where a theorem needs it
  (\<open>tx_ready\<close>, \<open>rx_limit\<close>). \<open>env\<close> is what the rest of the system does while the caller sleeps; a function
  that may sleep returns what is left of it. A \<open>char\<close> is unsigned on this machine.
\<close>

section \<open>The device\<close>

datatype uart_access = Rd nat u8 | Wr nat u8

type_synonym uart_hw = "uart_access list \<Rightarrow> nat \<Rightarrow> u8"

abbreviation (input) RHR :: nat where "RHR \<equiv> 0"
abbreviation (input) THR :: nat where "THR \<equiv> 0"
abbreviation (input) IER :: nat where "IER \<equiv> 1"
abbreviation (input) FCR :: nat where "FCR \<equiv> 2"
abbreviation (input) LCR :: nat where "LCR \<equiv> 3"
abbreviation (input) LSR :: nat where "LSR \<equiv> 5"
abbreviation (input) LSR_RHR_READY :: u8 where "LSR_RHR_READY \<equiv> 1"
abbreviation (input) LSR_THR_READY :: u8 where "LSR_THR_READY \<equiv> 32"
abbreviation (input) UART_OUTPUT_SIZE :: nat where "UART_OUTPUT_SIZE \<equiv> 16"
abbreviation (input) UART_INPUT_SIZE :: nat where "UART_INPUT_SIZE \<equiv> 64"

record console_state = kernel_state +
  uart_io :: "uart_access list"
  uart_output_queue :: "u8 list"
  uart_oq_beg :: u64
  uart_oq_end :: u64
  uart_input_queue :: "u8 list"
  uart_iq_beg :: u64
  uart_iq_end :: u64
  input_lines :: u64
  panicked :: bool

definition READ_UART_REG :: "uart_hw \<Rightarrow> nat \<Rightarrow> 'a console_state_scheme \<Rightarrow> u8 \<times> 'a console_state_scheme" where
  "READ_UART_REG hw r s = (let v = hw (uart_io s) r in (v, s\<lparr>uart_io := Rd r v # uart_io s\<rparr>))"

definition WRITE_UART_REG :: "nat \<Rightarrow> u8 \<Rightarrow> 'a console_state_scheme \<Rightarrow> 'a console_state_scheme" where
  "WRITE_UART_REG r v s = s\<lparr>uart_io := Wr r v # uart_io s\<rparr>"

definition uartinit :: "'a console_state_scheme \<Rightarrow> 'a console_state_scheme" where
  "uartinit s =
     (let s = WRITE_UART_REG IER 0x00 s;
          s = WRITE_UART_REG LCR (push_bit 7 1) s;
          s = WRITE_UART_REG 0 0x03 s;
          s = WRITE_UART_REG 1 0x00 s;
          s = WRITE_UART_REG LCR (push_bit 1 1 OR push_bit 0 1) s;
          s = WRITE_UART_REG FCR (push_bit 0 1 OR push_bit 1 1 OR push_bit 2 1) s
      in WRITE_UART_REG IER (push_bit 0 1 OR push_bit 1 1) s)"

section \<open>Output by polling\<close>

primrec uart_polling_putc :: "uart_hw \<Rightarrow> nat \<Rightarrow> u8 \<Rightarrow> 'a console_state_scheme \<Rightarrow> 'a console_state_scheme kres" where
  "uart_polling_putc hw 0 c s = Hang"
| "uart_polling_putc hw (Suc fuel) c s =
     (let (v, s) = READ_UART_REG hw LSR s in
      if v AND LSR_THR_READY = 0 then uart_polling_putc hw fuel c s
      else Ok (WRITE_UART_REG THR c s))"

definition console_kputc :: "uart_hw \<Rightarrow> nat \<Rightarrow> u8 \<Rightarrow> 'a console_state_scheme \<Rightarrow> 'a console_state_scheme kres" where
  "console_kputc hw fuel c s = kbind (push_off s) (\<lambda>s. kbind (uart_polling_putc hw fuel c s) pop_off)"

definition console_kwrite :: "uart_hw \<Rightarrow> nat \<Rightarrow> u8 list \<Rightarrow> 'a console_state_scheme \<Rightarrow> 'a console_state_scheme kres" where
  "console_kwrite hw fuel bs s = kbind (push_off s) (\<lambda>s. kbind (kfold (uart_polling_putc hw fuel) bs s) pop_off)"

definition console_kwrite_str :: "uart_hw \<Rightarrow> nat \<Rightarrow> u8 list \<Rightarrow> 'a console_state_scheme \<Rightarrow> 'a console_state_scheme kres" where
  "console_kwrite_str hw fuel p s = kbind (push_off s) (\<lambda>s. kbind (kfold (uart_polling_putc hw fuel) (cstr p) s) pop_off)"

section \<open>The queues\<close>

definition uart_queue_empty :: "u64 \<Rightarrow> u64 \<Rightarrow> bool" where
  "uart_queue_empty b e \<longleftrightarrow> b = e"

definition uart_queue_full :: "u64 \<Rightarrow> u64 \<Rightarrow> u64 \<Rightarrow> bool" where
  "uart_queue_full b e sz \<longleftrightarrow> e - b = sz"

definition uart_input_not_empty :: "'a console_state_scheme \<Rightarrow> bool" where
  "uart_input_not_empty s \<longleftrightarrow> uart_iq_beg s \<noteq> uart_iq_end s"

definition uart_putc_output_queue :: "uart_hw \<Rightarrow> 'a console_state_scheme \<Rightarrow> int \<times> 'a console_state_scheme" where
  "uart_putc_output_queue hw s =
     (let (v, s) = READ_UART_REG hw LSR s in
      if v AND LSR_THR_READY \<noteq> 0 \<and> \<not> uart_queue_empty (uart_oq_beg s) (uart_oq_end s) then
        let s = WRITE_UART_REG THR (uart_output_queue s ! unat (uart_oq_beg s mod 16)) s
        in (0, s\<lparr>uart_oq_beg := uart_oq_beg s + 1\<rparr>)
      else (-1, s))"

text \<open>The loop of \<open>uart_running_output_queue\<close>, which counts as output when it ran at least once.\<close>

lemma uart_putc_progress:
  assumes "uart_putc_output_queue hw s = (0, t)"
  shows "unat (uart_oq_end t - uart_oq_beg t) < unat (uart_oq_end s - uart_oq_beg s)"
proof -
  have ne: "uart_oq_beg s \<noteq> uart_oq_end s" and t: "uart_oq_beg t = uart_oq_beg s + 1" "uart_oq_end t = uart_oq_end s"
    using assms by (auto simp: uart_putc_output_queue_def uart_queue_empty_def READ_UART_REG_def WRITE_UART_REG_def Let_def split: if_splits)
  have "uart_oq_end s - uart_oq_beg s \<noteq> 0" using ne by auto
  then have "unat (uart_oq_end s - uart_oq_beg s - 1) < unat (uart_oq_end s - uart_oq_beg s)"
    by (metis diff_less unat_eq_zero neq0_conv unat_minus_one zero_less_one)
  then show ?thesis by (simp add: t algebra_simps)
qed

function uart_output_loop :: "uart_hw \<Rightarrow> 'a console_state_scheme \<Rightarrow> bool \<times> 'a console_state_scheme" where
  "uart_output_loop hw s =
     (case uart_putc_output_queue hw s of (r, t) \<Rightarrow>
        if r = 0 then (True, snd (uart_output_loop hw t)) else (False, t))"
  by pat_completeness auto
termination
  by (relation "measure (\<lambda>(hw, s). unat (uart_oq_end s - uart_oq_beg s))") (auto dest: uart_putc_progress [OF sym])

declare uart_output_loop.simps [simp del]

definition uart_running_output_queue :: "uart_hw \<Rightarrow> 'a console_state_scheme \<Rightarrow> 'a console_state_scheme kres" where
  "uart_running_output_queue hw s =
     (let (has_output, s) = uart_output_loop hw s in if has_output then wake_up UartTxChan s else Ok s)"

section \<open>Input\<close>

datatype console_event = BACKSPACE | GET_LINE | GET_EOF | GET_CH

text \<open>\<open>CTRL('H')\<close> is 8 and \<open>CTRL('D')\<close> is 4.\<close>

definition console_intr :: "uart_hw \<Rightarrow> nat \<Rightarrow> u8 \<Rightarrow> 'a console_state_scheme \<Rightarrow> (console_event \<times> 'a console_state_scheme) kres" where
  "console_intr hw fuel c s =
     (if c = 8 then
        kbind (if uart_input_not_empty s then
            kbind (console_kputc hw fuel 8 s) (\<lambda>s. kbind (console_kputc hw fuel 32 s) (console_kputc hw fuel 8))
          else Ok s) (\<lambda>s. Ok (BACKSPACE, s))
      else if c = 13 \<or> c = 10 \<or> c = 4 then
        kbind (console_kputc hw fuel 10 s) (\<lambda>s.
        kbind (acquire InputLinesLock s) (\<lambda>s.
        kbind (release InputLinesLock (s\<lparr>input_lines := input_lines s + 1\<rparr>)) (\<lambda>s.
        kbind (wake_up LinesChan s) (\<lambda>s.
        Ok (if c = 4 then GET_EOF else GET_LINE, s)))))
      else kbind (console_kputc hw fuel c s) (\<lambda>s. Ok (GET_CH, s)))"

definition uart_input_put :: "u8 \<Rightarrow> 'a console_state_scheme \<Rightarrow> 'a console_state_scheme" where
  "uart_input_put c s =
     (let full = uart_queue_full (uart_iq_beg s) (uart_iq_end s) 64;
          s = s\<lparr>uart_input_queue := (uart_input_queue s)[unat (uart_iq_end s mod 64) := c]\<rparr>;
          s = (if full then s\<lparr>uart_iq_beg := uart_iq_beg s + 1\<rparr> else s)
      in s\<lparr>uart_iq_end := uart_iq_end s + 1\<rparr>)"

definition uart_getc_input_queue :: "uart_hw \<Rightarrow> nat \<Rightarrow> 'a console_state_scheme \<Rightarrow> (int \<times> 'a console_state_scheme) kres" where
  "uart_getc_input_queue hw fuel s =
     (let (v, s) = READ_UART_REG hw LSR s in
      if v AND LSR_RHR_READY \<noteq> 0 then
        let (c, s) = READ_UART_REG hw RHR s in
        kbind (console_intr hw fuel c s) (\<lambda>(res, s).
        case res of
          BACKSPACE \<Rightarrow>
            Ok (0, if \<not> uart_queue_empty (uart_iq_beg s) (uart_iq_end s) then s\<lparr>uart_iq_end := uart_iq_end s - 1\<rparr> else s)
        | GET_LINE \<Rightarrow> Ok (0, uart_input_put 10 s)
        | GET_EOF \<Rightarrow> Ok (0, uart_input_put c s)
        | GET_CH \<Rightarrow> Ok (0, uart_input_put c s))
      else Ok (-1, s))"

primrec uart_input_loop :: "nat \<Rightarrow> uart_hw \<Rightarrow> nat \<Rightarrow> 'a console_state_scheme \<Rightarrow> (bool \<times> 'a console_state_scheme) kres" where
  "uart_input_loop 0 hw fuel s = Hang"
| "uart_input_loop (Suc n) hw fuel s =
     kbind (uart_getc_input_queue hw fuel s) (\<lambda>(r, s).
     if r = 0 then kbind (uart_input_loop n hw fuel s) (\<lambda>(_, s). Ok (True, s)) else Ok (False, s))"

definition uart_running_input_queue :: "uart_hw \<Rightarrow> nat \<Rightarrow> 'a console_state_scheme \<Rightarrow> 'a console_state_scheme kres" where
  "uart_running_input_queue hw fuel s =
     kbind (uart_input_loop fuel hw fuel s) (\<lambda>(has_input, s). if has_input then wake_up UartRxChan s else Ok s)"

definition uart_intr :: "uart_hw \<Rightarrow> nat \<Rightarrow> 'a console_state_scheme \<Rightarrow> 'a console_state_scheme kres" where
  "uart_intr hw fuel s =
     kbind (acquire UartInputLock s) (\<lambda>s.
     kbind (uart_running_input_queue hw fuel s) (\<lambda>s.
     kbind (release UartInputLock s) (\<lambda>s.
     kbind (acquire UartOutputLock s) (\<lambda>s.
     kbind (uart_running_output_queue hw s) (release UartOutputLock)))))"

section \<open>Writing\<close>

text \<open>The inner loop of \<open>uart_write\<close>: the bytes that are left, and the state.\<close>

fun uart_fill :: "u8 list \<Rightarrow> 'a console_state_scheme \<Rightarrow> u8 list \<times> 'a console_state_scheme" where
  "uart_fill [] s = ([], s)"
| "uart_fill (b # bs) s =
     (if \<not> uart_queue_full (uart_oq_beg s) (uart_oq_end s) 16 then
        uart_fill bs (s\<lparr>uart_output_queue := (uart_output_queue s)[unat (uart_oq_end s mod 16) := b],
                        uart_oq_end := uart_oq_end s + 1\<rparr>)
      else (b # bs, s))"

lemma uart_fill_length: "length (fst (uart_fill bs s)) \<le> length bs"
  by (induction bs s rule: uart_fill.induct) auto

lemma uart_fill_shorter:
  "bs \<noteq> [] \<Longrightarrow> \<not> uart_queue_full (uart_oq_beg s) (uart_oq_end s) 16 \<Longrightarrow> length (fst (uart_fill bs s)) < length bs"
  by (cases bs) (auto simp: less_Suc_eq_le intro: uart_fill_length)

text \<open>
  \<open>uart_write\<close> from the head of its outer loop. The result is the part of \<open>env\<close> that is left and the state.
\<close>

function uart_write_loop ::
  "uart_hw \<Rightarrow> 'a console_state_scheme switches \<Rightarrow> u8 list \<Rightarrow> 'a console_state_scheme \<Rightarrow>
     ('a console_state_scheme switches \<times> 'a console_state_scheme) kres" where
  "uart_write_loop hw env bs s =
     (if bs = [] then kbind (release UartOutputLock s) (\<lambda>s. Ok (env, s))
      else if uart_queue_full (uart_oq_beg s) (uart_oq_end s) 16 then
        case env of
          [] \<Rightarrow> sleep_block UartOutputLock UartTxChan s
        | sw # env \<Rightarrow> kbind (sleep sw UartOutputLock UartTxChan s) (uart_write_loop hw env bs)
      else
        kbind (uart_running_output_queue hw (snd (uart_fill bs s))) (uart_write_loop hw env (fst (uart_fill bs s))))"
  by pat_completeness auto
termination
  by (relation "measure (\<lambda>(hw, env, bs, s). length env + length bs)") (auto intro: uart_fill_shorter)

declare uart_write_loop.simps [simp del]

definition uart_write ::
  "uart_hw \<Rightarrow> 'a console_state_scheme switches \<Rightarrow> u8 list \<Rightarrow> 'a console_state_scheme \<Rightarrow>
     ('a console_state_scheme switches \<times> 'a console_state_scheme) kres" where
  "uart_write hw env bs s = kbind (acquire UartOutputLock s) (uart_write_loop hw env bs)"

definition uart_putc ::
  "uart_hw \<Rightarrow> 'a console_state_scheme switches \<Rightarrow> u8 \<Rightarrow> 'a console_state_scheme \<Rightarrow>
     ('a console_state_scheme switches \<times> 'a console_state_scheme) kres" where
  "uart_putc hw env c s = uart_write hw env [c] s"

text \<open>
  \<open>console_write_dev\<close> from round \<open>i\<close>; \<open>n\<close> is the number of rounds left, and \<open>None\<close> the end of the loop.
\<close>

primrec console_write_loop ::
  "nat \<Rightarrow> uart_hw \<Rightarrow> 'a console_state_scheme switches \<Rightarrow> bool \<Rightarrow> u64 \<Rightarrow> int \<Rightarrow> 'a console_state_scheme \<Rightarrow> (int option \<times> 'a console_state_scheme) kres" where
  "console_write_loop 0 hw env userdst ustr i s = Ok (None, s)"
| "console_write_loop (Suc n) hw env userdst ustr i s =
     (case my_proc s of
        None \<Rightarrow> Panic ''NULL process''
      | Some p \<Rightarrow>
          kbind (copyin_uork (p_pgtable (proc p s)) (kobj s) ustr 1 userdst s) (\<lambda>(err, s).
          if err \<noteq> 0 then Ok (Some i, s)
          else
            kbind (uart_putc hw env (mem s (kobj s)) s) (\<lambda>(env, s).
            console_write_loop n hw env userdst (ustr + 1) (i + 1) s)))"

definition console_write_dev ::
  "uart_hw \<Rightarrow> 'a console_state_scheme switches \<Rightarrow> 'a console_state_scheme devfn" where
  "console_write_dev hw env userdst ustr len s =
     kbind (console_write_loop (nat len) hw env userdst ustr 0 s) (\<lambda>(r, s). Ok (case r of None \<Rightarrow> len | Some i \<Rightarrow> i, s))"

section \<open>Reading\<close>

definition uart_input_take :: "'a console_state_scheme \<Rightarrow> u8 \<times> 'a console_state_scheme" where
  "uart_input_take s = (uart_input_queue s ! unat (uart_iq_beg s mod 64), s\<lparr>uart_iq_beg := uart_iq_beg s + 1\<rparr>)"

definition uart_just_getc :: "'a console_state_scheme \<Rightarrow> (u8 option \<times> 'a console_state_scheme) kres" where
  "uart_just_getc s =
     kbind (acquire UartInputLock s) (\<lambda>s.
     if uart_queue_empty (uart_iq_beg s) (uart_iq_end s) then kbind (release UartInputLock s) (\<lambda>s. Ok (None, s))
     else
       let (c, s) = uart_input_take s in
       kbind (release UartInputLock s) (\<lambda>s. Ok (Some c, s)))"

fun uart_getc_wait ::
  "'a console_state_scheme switches \<Rightarrow> 'a console_state_scheme \<Rightarrow> ('a console_state_scheme switches \<times> 'a console_state_scheme) kres" where
  "uart_getc_wait env s =
     (if uart_queue_empty (uart_iq_beg s) (uart_iq_end s) then
        case env of
          [] \<Rightarrow> sleep_block UartInputLock UartRxChan s
        | sw # env \<Rightarrow> kbind (sleep sw UartInputLock UartRxChan s) (uart_getc_wait env)
      else Ok (env, s))"

declare uart_getc_wait.simps [simp del]

definition uart_getc ::
  "'a console_state_scheme switches \<Rightarrow> 'a console_state_scheme \<Rightarrow> (u8 \<times> 'a console_state_scheme switches \<times> 'a console_state_scheme) kres" where
  "uart_getc env s =
     kbind (acquire UartInputLock s) (\<lambda>s.
     kbind (uart_getc_wait env s) (\<lambda>(env, s).
     let (c, s) = uart_input_take s in
     kbind (release UartInputLock s) (\<lambda>s. Ok (c, env, s))))"

fun console_line_wait ::
  "'a console_state_scheme switches \<Rightarrow> 'a console_state_scheme \<Rightarrow> ('a console_state_scheme switches \<times> 'a console_state_scheme) kres" where
  "console_line_wait env s =
     (if input_lines s = 0 then
        case env of
          [] \<Rightarrow> sleep_block InputLinesLock LinesChan s
        | sw # env \<Rightarrow> kbind (sleep sw InputLinesLock LinesChan s) (console_line_wait env)
      else Ok (env, s))"

declare console_line_wait.simps [simp del]

definition console_getc ::
  "'a console_state_scheme switches \<Rightarrow> 'a console_state_scheme \<Rightarrow> (u8 \<times> 'a console_state_scheme switches \<times> 'a console_state_scheme) kres" where
  "console_getc env s =
     kbind (acquire InputLinesLock s) (\<lambda>s.
     kbind (console_line_wait env s) (\<lambda>(env, s).
     kbind (uart_just_getc s) (\<lambda>(c, s).
     kbind (case c of
         Some c \<Rightarrow> Ok (c, env, s)
       | None \<Rightarrow>
           kbind (release InputLinesLock s) (\<lambda>s.
           kbind (uart_getc env s) (\<lambda>(c, env, s).
           kbind (acquire InputLinesLock s) (\<lambda>s. Ok (c, env, s))))) (\<lambda>(c, env, s).
     let s = (if c = 10 \<or> c = 4 then s\<lparr>input_lines := input_lines s - 1\<rparr> else s) in
     kbind (release InputLinesLock s) (\<lambda>s. Ok (c, env, s))))))"

primrec console_read_loop ::
  "nat \<Rightarrow> 'a console_state_scheme switches \<Rightarrow> bool \<Rightarrow> u64 \<Rightarrow> int \<Rightarrow> 'a console_state_scheme \<Rightarrow> (int option \<times> 'a console_state_scheme) kres" where
  "console_read_loop 0 env userdst ustr i s = Ok (None, s)"
| "console_read_loop (Suc n) env userdst ustr i s =
     kbind (console_getc env s) (\<lambda>(c, env, s).
     if c = 4 then Ok (Some (-1), s)
     else
       let s = s\<lparr>mem := (mem s)(kobj s := c)\<rparr> in
       case my_proc s of
         None \<Rightarrow> Panic ''NULL process''
       | Some p \<Rightarrow>
           kbind (copyout_uork (p_pgtable (proc p s)) ustr (kobj s) 1 userdst s) (\<lambda>(err, s).
           if err \<noteq> 0 then Ok (Some i, s) else console_read_loop n env userdst (ustr + 1) (i + 1) s))"

definition console_read_dev :: "'a console_state_scheme switches \<Rightarrow> 'a console_state_scheme devfn" where
  "console_read_dev env userdst ustr len s =
     kbind (console_read_loop (nat len) env userdst ustr 0 s) (\<lambda>(r, s). Ok (case r of None \<Rightarrow> len | Some i \<Rightarrow> i, s))"

text \<open>\<open>console_init\<close>: the device is set up, and \<open>devsw[CONSOLE]\<close> gets its functions.\<close>

abbreviation (input) CONSOLE :: nat where "CONSOLE \<equiv> 1"

definition console_init ::
  "uart_hw \<Rightarrow> 'a console_state_scheme switches \<Rightarrow> (nat \<Rightarrow> 'a console_state_scheme devsw) \<Rightarrow> 'a console_state_scheme \<Rightarrow>
     (nat \<Rightarrow> 'a console_state_scheme devsw) \<times> 'a console_state_scheme" where
  "console_init hw env devsw s =
     (devsw(CONSOLE := \<lparr>dev_read = Some (console_read_dev env), dev_write = Some (console_write_dev hw env)\<rparr>), uartinit s)"

section \<open>Formatted output\<close>

text \<open>The arguments of \<open>kprintf\<close>; taking one of another type, or one too many, has no meaning in C.\<close>

datatype karg = ArgInt u32 | ArgPtr u64 | ArgStr "u8 list option"

definition kdigits :: "u8 list" where
  "kdigits = [0x30, 0x31, 0x32, 0x33, 0x34, 0x35, 0x36, 0x37, 0x38, 0x39, 0x61, 0x62, 0x63, 0x64, 0x65, 0x66]"

text \<open>The digits in \<open>buf\<close>, least first; \<open>n\<close> is the room left, past which the code would overrun \<open>buf\<close>.\<close>

primrec printint_digits :: "nat \<Rightarrow> u32 \<Rightarrow> u32 \<Rightarrow> u8 list kres" where
  "printint_digits 0 base x = Panic ''printint: buf overrun''"
| "printint_digits (Suc n) base x =
     (let d = kdigits ! unat (x mod base) in
      if x div base \<noteq> 0 then kbind (printint_digits n base (x div base)) (\<lambda>ds. Ok (d # ds)) else Ok [d])"

definition printint_buf :: "u32 \<Rightarrow> u32 \<Rightarrow> bool \<Rightarrow> u8 list kres" where
  "printint_buf xx base sg =
     (let neg = sg \<and> xx <s 0;
          x = (if neg then - xx else xx) in
      kbind (printint_digits 16 base x) (\<lambda>ds.
      if neg then if length ds < 16 then Ok (ds @ [0x2d]) else Panic ''printint: buf overrun'' else Ok ds))"

definition printint :: "uart_hw \<Rightarrow> nat \<Rightarrow> u32 \<Rightarrow> u32 \<Rightarrow> bool \<Rightarrow> 'a console_state_scheme \<Rightarrow> 'a console_state_scheme kres" where
  "printint hw fuel xx base sg s = kbind (printint_buf xx base sg) (\<lambda>b. kfold (console_kputc hw fuel) (rev b) s)"

definition printptr :: "uart_hw \<Rightarrow> nat \<Rightarrow> u64 \<Rightarrow> 'a console_state_scheme \<Rightarrow> 'a console_state_scheme kres" where
  "printptr hw fuel x s =
     kbind (console_kputc hw fuel 0x30 s) (\<lambda>s.
     kbind (console_kputc hw fuel 0x78 s) (\<lambda>s.
     kfold (\<lambda>i. console_kputc hw fuel (kdigits ! unat (drop_bit 60 (push_bit (4 * i) x)))) [0..<16] s))"

fun kprintf_loop :: "uart_hw \<Rightarrow> nat \<Rightarrow> u8 list \<Rightarrow> karg list \<Rightarrow> 'a console_state_scheme \<Rightarrow> 'a console_state_scheme kres" where
  "kprintf_loop hw fuel [] ap s = Ok s"
| "kprintf_loop hw fuel [c] ap s = (if c \<noteq> 0x25 then console_kputc hw fuel c s else Ok s)"
| "kprintf_loop hw fuel (c # d # fmt) ap s =
     (if c \<noteq> 0x25 then kbind (console_kputc hw fuel c s) (kprintf_loop hw fuel (d # fmt) ap)
      else if d = 0x64 then
        (case ap of ArgInt x # ap \<Rightarrow> kbind (printint hw fuel x 10 True s) (kprintf_loop hw fuel fmt ap) | _ \<Rightarrow> Panic ''va_arg'')
      else if d = 0x78 then
        (case ap of ArgInt x # ap \<Rightarrow> kbind (printint hw fuel x 16 True s) (kprintf_loop hw fuel fmt ap) | _ \<Rightarrow> Panic ''va_arg'')
      else if d = 0x70 then
        (case ap of ArgPtr x # ap \<Rightarrow> kbind (printptr hw fuel x s) (kprintf_loop hw fuel fmt ap) | _ \<Rightarrow> Panic ''va_arg'')
      else if d = 0x73 then
        (case ap of
           ArgStr p # ap \<Rightarrow>
             kbind (kfold (console_kputc hw fuel)
               (case p of None \<Rightarrow> [0x28, 0x6e, 0x75, 0x6c, 0x6c, 0x29] | Some p \<Rightarrow> cstr p) s) (kprintf_loop hw fuel fmt ap)
         | _ \<Rightarrow> Panic ''va_arg'')
      else if d = 0x25 then kbind (console_kputc hw fuel 0x25 s) (kprintf_loop hw fuel fmt ap)
      else
        kbind (console_kputc hw fuel 0x25 s) (\<lambda>s.
        kbind (console_kputc hw fuel d s) (kprintf_loop hw fuel fmt ap)))"

definition kprintf :: "uart_hw \<Rightarrow> nat \<Rightarrow> u8 list option \<Rightarrow> karg list \<Rightarrow> 'a console_state_scheme \<Rightarrow> 'a console_state_scheme kres" where
  "kprintf hw fuel fmt ap s =
     (case fmt of
        None \<Rightarrow> Panic ''try to kprint(null)''
      | Some fmt \<Rightarrow>
          kbind (acquire KprintfLock s) (\<lambda>s. kbind (kprintf_loop hw fuel (cstr fmt) ap s) (release KprintfLock)))"

text \<open>What \<open>panic_2str\<close> does before its endless loop; the format is \<open>"panic: %s%s\n"\<close>.\<close>

definition panic_2str :: "uart_hw \<Rightarrow> nat \<Rightarrow> u8 list option \<Rightarrow> u8 list option \<Rightarrow> 'a console_state_scheme \<Rightarrow> 'a console_state_scheme kres" where
  "panic_2str hw fuel s1 s2 s =
     (if \<not> panicked s then
        kprintf hw fuel (Some [0x70, 0x61, 0x6e, 0x69, 0x63, 0x3a, 0x20, 0x25, 0x73, 0x25, 0x73, 0x0a, 0]) [ArgStr s1, ArgStr s2] (s\<lparr>panicked := True\<rparr>)
      else Ok s)"

end
