(* ===== verification/Virtio.thy ===== *)
theory Virtio
  imports Console
begin

text \<open>
  The disk driver: kernel/driver/virtio_disk.c and include/driver/virtio.h.

  The memory shared with the device (descriptors, ring of available chains, ring of used chains) are
  members of the state, as are \<open>disk.free\<close>, \<open>disk.used_idx\<close> and \<open>disk.info\<close>; \<open>b_disk\<close> is the member \<open>disk\<close> of the
  buffers. An address a descriptor holds is one of memory (the request header, a local variable at
  \<open>hdr\<close>), of the data of a buffer, or of a status byte in \<open>disk.info\<close>. The registers of the device are
  accessed through \<open>hw\<close>, which says what a read returns after the accesses so far. \<open>env\<close> is what the rest
  of the system, the device included, does while the caller sleeps.
\<close>

section \<open>State\<close>

abbreviation (input) NUM :: nat where "NUM \<equiv> 8"
abbreviation (input) VRING_DESC_F_NEXT :: u16 where "VRING_DESC_F_NEXT \<equiv> 1"
abbreviation (input) VRING_DESC_F_WRITE :: u16 where "VRING_DESC_F_WRITE \<equiv> 2"
abbreviation (input) VIRTIO_BLK_T_IN :: u32 where "VIRTIO_BLK_T_IN \<equiv> 0"
abbreviation (input) VIRTIO_BLK_T_OUT :: u32 where "VIRTIO_BLK_T_OUT \<equiv> 1"

datatype vaddr = AddrNull | AddrMem u64 | AddrBuf nat | AddrStatus nat

record VRingDesc =
  vd_addr :: vaddr
  vd_len :: u32
  vd_flags :: u16
  vd_next :: u16

datatype vio_access = VRd u64 u32 | VWr u64 u32

type_synonym vio_hw = "vio_access list \<Rightarrow> u64 \<Rightarrow> u32"

record vdisk_state = console_state +
  vd_desc :: "VRingDesc list"
  avail_idx :: u16
  avail_ring :: "u16 list"
  used_id :: u16
  used_elems :: "u32 list"
  vd_free :: "bool list"
  used_idx :: u16
  info_b :: "nat option list"
  info_status :: "u8 list"
  b_disk :: "nat \<Rightarrow> bool"
  vd_io :: "vio_access list"

definition read_R :: "vio_hw \<Rightarrow> u64 \<Rightarrow> 'a vdisk_state_scheme \<Rightarrow> u32 \<times> 'a vdisk_state_scheme" where
  "read_R hw r s = (let v = hw (vd_io s) r in (v, s\<lparr>vd_io := VRd r v # vd_io s\<rparr>))"

definition write_R :: "u64 \<Rightarrow> u32 \<Rightarrow> 'a vdisk_state_scheme \<Rightarrow> 'a vdisk_state_scheme" where
  "write_R r v s = s\<lparr>vd_io := VWr r v # vd_io s\<rparr>"

section \<open>Initialisation\<close>

text \<open>The condition of the first test, which stops at the first register with a wrong value.\<close>

fun virtio_probe :: "vio_hw \<Rightarrow> (u64 \<times> u32) list \<Rightarrow> 'a vdisk_state_scheme \<Rightarrow> bool \<times> 'a vdisk_state_scheme" where
  "virtio_probe hw [] s = (True, s)"
| "virtio_probe hw ((r, v) # rs) s = (let (x, s) = read_R hw r s in if x \<noteq> v then (False, s) else virtio_probe hw rs s)"

definition driver_features :: "u64 \<Rightarrow> u64" where
  "driver_features f =
     f AND NOT (push_bit 5 1) AND NOT (push_bit 7 1) AND NOT (push_bit 11 1) AND NOT (push_bit 12 1)
       AND NOT (push_bit 27 1) AND NOT (push_bit 29 1) AND NOT (push_bit 28 1)"

definition virtio_disk_init :: "vio_hw \<Rightarrow> u64 \<Rightarrow> 'a vdisk_state_scheme \<Rightarrow> 'a vdisk_state_scheme kres" where
  "virtio_disk_init hw pages s =
     (let (found, s) = virtio_probe hw [(0x000, 0x74726976), (0x004, 1), (0x008, 2), (0x00c, 0x554d4551)] s in
      if \<not> found then Panic ''could not find virtio disk''
      else
        let s = write_R 0x070 1 s;
            s = write_R 0x070 (1 OR 2) s;
            (f, s) = read_R hw 0x010 s;
            s = write_R 0x020 (ucast (driver_features (ucast f))) s;
            s = write_R 0x070 (1 OR 2 OR 8) s;
            s = write_R 0x070 (1 OR 2 OR 8 OR 4) s;
            s = write_R 0x028 4096 s;
            s = write_R 0x030 0 s;
            (max, s) = read_R hw 0x034 s in
        if max = 0 then Panic ''virtio disk has no queue 0''
        else if max < 8 then Panic ''virtio disk max queue too short''
        else
          let s = write_R 0x038 8 s;
              s = s\<lparr>vd_desc := replicate NUM \<lparr>vd_addr = AddrNull, vd_len = 0, vd_flags = 0, vd_next = 0\<rparr>,
                    avail_idx := 0, avail_ring := replicate NUM 0, used_id := 0, used_elems := replicate NUM 0\<rparr>;
              s = write_R 0x040 (ucast (drop_bit 12 pages)) s in
          Ok (s\<lparr>vd_free := replicate NUM True\<rparr>))"

section \<open>Descriptors\<close>

definition alloc_desc :: "'a vdisk_state_scheme \<Rightarrow> nat option \<times> 'a vdisk_state_scheme" where
  "alloc_desc s =
     (case find_index id (vd_free s) of
        Some i \<Rightarrow> (Some i, s\<lparr>vd_free := (vd_free s)[i := False]\<rparr>)
      | None \<Rightarrow> (None, s))"

definition upd_desc :: "nat \<Rightarrow> (VRingDesc \<Rightarrow> VRingDesc) \<Rightarrow> 'a vdisk_state_scheme \<Rightarrow> 'a vdisk_state_scheme" where
  "upd_desc i f s = s\<lparr>vd_desc := (vd_desc s)[i := f (vd_desc s ! i)]\<rparr>"

definition free_desc :: "nat \<Rightarrow> 'a vdisk_state_scheme \<Rightarrow> 'a vdisk_state_scheme kres" where
  "free_desc i s =
     (if i \<ge> NUM then Panic ''virtio_disk_intr 1''
      else if vd_free s ! i then Panic ''virtio_disk_intr 2''
      else wake_up DiskFreeChan ((upd_desc i (\<lambda>d. d\<lparr>vd_addr := AddrNull\<rparr>) s)\<lparr>vd_free := (vd_free s)[i := True]\<rparr>))"

text \<open>Each round frees a descriptor that was not free, so there are at most \<open>NUM\<close> before the panic.\<close>

primrec free_chain_loop :: "nat \<Rightarrow> nat \<Rightarrow> 'a vdisk_state_scheme \<Rightarrow> 'a vdisk_state_scheme kres" where
  "free_chain_loop 0 i s = Hang"
| "free_chain_loop (Suc n) i s =
     kbind (free_desc i s) (\<lambda>s.
     if vd_flags (vd_desc s ! i) AND VRING_DESC_F_NEXT \<noteq> 0 then free_chain_loop n (unat (vd_next (vd_desc s ! i))) s
     else Ok s)"

definition free_chain :: "nat \<Rightarrow> 'a vdisk_state_scheme \<Rightarrow> 'a vdisk_state_scheme kres" where
  "free_chain i s = free_chain_loop (Suc NUM) i s"

text \<open>\<open>alloc3_desc\<close> when \<open>idx\<close> already holds \<open>got\<close> and \<open>n\<close> are missing.\<close>

primrec alloc3_loop :: "nat \<Rightarrow> nat list \<Rightarrow> 'a vdisk_state_scheme \<Rightarrow> (nat list option \<times> 'a vdisk_state_scheme) kres" where
  "alloc3_loop 0 got s = Ok (Some got, s)"
| "alloc3_loop (Suc n) got s =
     (let (r, s) = alloc_desc s in
      case r of
        Some i \<Rightarrow> alloc3_loop n (got @ [i]) s
      | None \<Rightarrow> kbind (kfold free_desc got s) (\<lambda>s. Ok (None, s)))"

definition alloc3_desc :: "'a vdisk_state_scheme \<Rightarrow> (nat list option \<times> 'a vdisk_state_scheme) kres" where
  "alloc3_desc s = alloc3_loop 3 [] s"

section \<open>Requests\<close>

definition kvmpa :: "u64 \<Rightarrow> u64 \<Rightarrow> 'a vm_state_scheme \<Rightarrow> (u64 \<times> 'a vm_state_scheme) kres" where
  "kvmpa kpt va s =
     kbind (walk kpt va False s) (\<lambda>(pte, s).
     if pte = 0 then Panic ''kvmpa''
     else if \<not> pte_valid (load64 (mem s) pte) then Panic ''kvmpa''
     else Ok (push_bit 12 (drop_bit 10 (load64 (mem s) pte)) + va mod PGSIZE, s))"

fun rw_alloc ::
  "'a vdisk_state_scheme switches \<Rightarrow> 'a vdisk_state_scheme \<Rightarrow> (nat list \<times> 'a vdisk_state_scheme switches \<times> 'a vdisk_state_scheme) kres" where
  "rw_alloc env s =
     kbind (alloc3_desc s) (\<lambda>(r, s).
     case r of
       Some idx \<Rightarrow> Ok (idx, env, s)
     | None \<Rightarrow>
         (case env of
            [] \<Rightarrow> sleep_block VdiskLock DiskFreeChan s
          | sw # env \<Rightarrow> kbind (sleep sw VdiskLock DiskFreeChan s) (rw_alloc env)))"

declare rw_alloc.simps [simp del]

text \<open>\<open>struct virtio_blk_outhdr\<close> at \<open>hdr\<close>, and the three descriptors.\<close>

definition rw_header :: "u64 \<Rightarrow> bool \<Rightarrow> u64 \<Rightarrow> mem \<Rightarrow> mem" where
  "rw_header hdr write sector m =
     store64 (store_bytes 4 (store_bytes 4 m hdr (if write then VIRTIO_BLK_T_OUT else VIRTIO_BLK_T_IN)) (hdr + 4) (0 :: u32)) (hdr + 8) sector"

definition rw_submit :: "nat \<Rightarrow> nat \<Rightarrow> nat \<Rightarrow> u64 \<Rightarrow> nat \<Rightarrow> bool \<Rightarrow> 'a vdisk_state_scheme \<Rightarrow> 'a vdisk_state_scheme" where
  "rw_submit i0 i1 i2 pa b write s =
     (let s = upd_desc i0 (\<lambda>_. \<lparr>vd_addr = AddrMem pa, vd_len = 16, vd_flags = VRING_DESC_F_NEXT, vd_next = word_of_nat i1\<rparr>) s;
          s = upd_desc i1 (\<lambda>_. \<lparr>vd_addr = AddrBuf b, vd_len = 1024,
                vd_flags = (if write then 0 else VRING_DESC_F_WRITE) OR VRING_DESC_F_NEXT, vd_next = word_of_nat i2\<rparr>) s;
          s = s\<lparr>info_status := (info_status s)[i0 := 0]\<rparr>;
          s = upd_desc i2 (\<lambda>_. \<lparr>vd_addr = AddrStatus i0, vd_len = 1, vd_flags = VRING_DESC_F_WRITE, vd_next = 0\<rparr>) s;
          s = s\<lparr>b_disk := (b_disk s)(b := True), info_b := (info_b s)[i0 := Some b]\<rparr>;
          s = s\<lparr>avail_ring := (avail_ring s)[unat (avail_idx s mod 8) := word_of_nat i0]\<rparr>;
          s = s\<lparr>avail_idx := avail_idx s + 1\<rparr>
      in write_R 0x050 0 s)"

fun rw_wait :: "'a vdisk_state_scheme switches \<Rightarrow> nat \<Rightarrow> 'a vdisk_state_scheme \<Rightarrow> 'a vdisk_state_scheme kres" where
  "rw_wait env b s =
     (if b_disk s b then
        case env of
          [] \<Rightarrow> sleep_block VdiskLock (BufChan b) s
        | sw # env \<Rightarrow> kbind (sleep sw VdiskLock (BufChan b) s) (rw_wait env b)
      else Ok s)"

declare rw_wait.simps [simp del]

text \<open>\<open>hdr\<close> is the address of the local variable \<open>buf0\<close>.\<close>

definition virtio_disk_rw ::
  "'a vdisk_state_scheme switches \<Rightarrow> u64 \<Rightarrow> nat \<Rightarrow> bool \<Rightarrow> 'a vdisk_state_scheme \<Rightarrow> 'a vdisk_state_scheme kres" where
  "virtio_disk_rw env hdr b write s =
     (let sector = ucast (b_blockno (bbuf b s) * 2) :: u64 in
      kbind (acquire VdiskLock s) (\<lambda>s.
      kbind (rw_alloc env s) (\<lambda>(idx, env, s).
      let s = s\<lparr>mem := rw_header hdr write sector (mem s)\<rparr> in
      kbind (kvmpa (kernel_page_table s) hdr s) (\<lambda>(pa, s).
      let s = rw_submit (idx ! 0) (idx ! 1) (idx ! 2) pa b write s in
      kbind (rw_wait env b s) (\<lambda>s.
      let s = s\<lparr>info_b := (info_b s)[idx ! 0 := None]\<rparr> in
      kbind (free_chain (idx ! 0) s) (release VdiskLock))))))"

section \<open>Completion\<close>

text \<open>The loop of \<open>virtio_disk_intr\<close>: \<open>used_idx\<close> goes round the ring to \<open>used->id\<close>, in fewer than \<open>NUM\<close> rounds.\<close>

primrec virtio_intr_loop :: "nat \<Rightarrow> 'a vdisk_state_scheme \<Rightarrow> 'a vdisk_state_scheme kres" where
  "virtio_intr_loop 0 s = Hang"
| "virtio_intr_loop (Suc n) s =
     (if used_idx s mod 8 \<noteq> used_id s mod 8 then
        let id = unat (used_elems s ! unat (used_idx s)) in
        if id \<ge> NUM then Panic ''disk.info: index out of range''
        else if info_status s ! id \<noteq> 0 then Panic ''virtio_disk_intr status''
        else
          case info_b s ! id of
            None \<Rightarrow> Panic ''NULL buffer''
          | Some b \<Rightarrow>
              kbind (wake_up (BufChan b) (s\<lparr>b_disk := (b_disk s)(b := False)\<rparr>)) (\<lambda>s.
              virtio_intr_loop n (s\<lparr>used_idx := (used_idx s + 1) mod 8\<rparr>))
      else Ok s)"

definition virtio_disk_intr :: "vio_hw \<Rightarrow> 'a vdisk_state_scheme \<Rightarrow> 'a vdisk_state_scheme kres" where
  "virtio_disk_intr hw s =
     kbind (acquire VdiskLock s) (\<lambda>s.
     kbind (virtio_intr_loop NUM s) (\<lambda>s.
     let (v, s) = read_R hw 0x060 s in
     release VdiskLock (write_R 0x064 (v AND 0x3) s)))"

end
