(* ===== verification/Console_Inv.thy ===== *)
theory Console_Inv
  imports Console
begin

text \<open>
  Correctness of the console: what the interrupt handler of kernel/driver/uart.c does with the
  characters the device delivers, that output reaches the device in order, and that the numbers
  kernel/util/kprint.c prints can be read back.
\<close>

section \<open>Specification\<close>

text \<open>The bytes a sequence of accesses (newest first) has read from \<open>RHR\<close> and written to \<open>THR\<close>, oldest first.\<close>

primrec received :: "uart_access list \<Rightarrow> u8 list" where
  "received [] = []"
| "received (a # io) = received io @ (case a of Rd r v \<Rightarrow> if r = RHR then [v] else [] | Wr r v \<Rightarrow> [])"

primrec sent :: "uart_access list \<Rightarrow> u8 list" where
  "sent [] = []"
| "sent (a # io) = sent io @ (case a of Rd r v \<Rightarrow> [] | Wr r v \<Rightarrow> if r = THR then [v] else [])"

lemma received_append [simp]: "received (xs @ ys) = received ys @ received xs"
  by (induction xs) auto

lemma sent_append [simp]: "sent (xs @ ys) = sent ys @ sent xs"
  by (induction xs) auto

text \<open>Every read among the accesses \<open>new\<close> that followed \<open>io\<close> returned what the device answers.\<close>

primrec answers :: "uart_hw \<Rightarrow> uart_access list \<Rightarrow> uart_access list \<Rightarrow> bool" where
  "answers hw [] io \<longleftrightarrow> True"
| "answers hw (a # new) io \<longleftrightarrow> (case a of Rd r v \<Rightarrow> v = hw (new @ io) r | Wr r v \<Rightarrow> True) \<and> answers hw new io"

lemma answers_append [simp]: "answers hw (n2 @ n1) io \<longleftrightarrow> answers hw n2 (n1 @ io) \<and> answers hw n1 io"
  by (induction n2) (auto split: uart_access.splits)

definition iq :: "'a console_state_scheme \<Rightarrow> u8 list" where
  "iq s = ring_contents (uart_input_queue s) (uart_iq_beg s) (uart_iq_end s)"

definition oq :: "'a console_state_scheme \<Rightarrow> u8 list" where
  "oq s = ring_contents (uart_output_queue s) (uart_oq_beg s) (uart_oq_end s)"

definition iq_ok :: "'a console_state_scheme \<Rightarrow> bool" where
  "iq_ok s \<longleftrightarrow> ring_ok UART_INPUT_SIZE (uart_input_queue s) (uart_iq_beg s) (uart_iq_end s)"

definition oq_ok :: "'a console_state_scheme \<Rightarrow> bool" where
  "oq_ok s \<longleftrightarrow> ring_ok UART_OUTPUT_SIZE (uart_output_queue s) (uart_oq_beg s) (uart_oq_end s)"

text \<open>
  Typing a character on the line being edited: backspace removes the last character, everything else is
  added at the end, a return as a newline; when 64 characters wait the oldest is lost.
\<close>

definition type_char :: "u8 \<Rightarrow> u8 list \<Rightarrow> u8 list" where
  "type_char c q = (if c = 8 then butlast q
     else (if length q = UART_INPUT_SIZE then tl q else q) @ [if c = 13 then 10 else c])"

definition line_end :: "u8 \<Rightarrow> bool" where
  "line_end c \<longleftrightarrow> c = 13 \<or> c = 10 \<or> c = 4"

definition echo :: "u8 \<Rightarrow> u8 list \<Rightarrow> u8 list" where
  "echo c q = (if c = 8 then if q = [] then [] else [8, 32, 8] else if line_end c then [10] else [c])"

fun echoes :: "u8 list \<Rightarrow> u8 list \<Rightarrow> u8 list" where
  "echoes [] q = []"
| "echoes (c # cs) q = echo c q @ echoes cs (type_char c q)"

text \<open>
  What is asked of the device: whenever it is polled for room in the transmitter it has room within
  \<open>fuel\<close> polls, and it delivers at most \<open>N\<close> characters.
\<close>

primrec polls :: "uart_hw \<Rightarrow> nat \<Rightarrow> uart_access list \<Rightarrow> uart_access list" where
  "polls hw 0 io = io"
| "polls hw (Suc k) io = polls hw k (Rd LSR (hw io LSR) # io)"

definition tx_ready :: "uart_hw \<Rightarrow> nat \<Rightarrow> bool" where
  "tx_ready hw fuel \<longleftrightarrow> (\<forall>io. \<exists>k < fuel. hw (polls hw k io) LSR AND LSR_THR_READY \<noteq> 0)"

definition rx_limit :: "uart_hw \<Rightarrow> nat \<Rightarrow> bool" where
  "rx_limit hw N \<longleftrightarrow> (\<forall>io. N \<le> length (received io) \<longrightarrow> hw io LSR AND LSR_RHR_READY = 0)"

section \<open>Characters by polling\<close>

lemma uart_polling_putc_ok:
  assumes "\<exists>k < fuel. hw (polls hw k (uart_io s)) LSR AND LSR_THR_READY \<noteq> 0"
  shows "\<exists>new. uart_polling_putc hw fuel c s = Ok (s\<lparr>uart_io := new @ uart_io s\<rparr>) \<and> answers hw new (uart_io s) \<and> received new = [] \<and> sent new = [c]"
  using assms
proof (induction fuel arbitrary: s)
  case (Suc fuel)
  let ?v = "hw (uart_io s) LSR" and ?t = "s\<lparr>uart_io := Rd LSR (hw (uart_io s) LSR) # uart_io s\<rparr>"
  show ?case
  proof (cases "?v AND LSR_THR_READY = 0")
    case True
    obtain k where k: "k < Suc fuel" "hw (polls hw k (uart_io s)) LSR AND LSR_THR_READY \<noteq> 0" using Suc.prems by blast
    then obtain j where j: "k = Suc j" using True by (cases k) auto
    then have "\<exists>k < fuel. hw (polls hw k (uart_io ?t)) LSR AND LSR_THR_READY \<noteq> 0" using k by (intro exI [of _ j]) simp
    from Suc.IH [OF this] obtain new where "uart_polling_putc hw fuel c ?t = Ok (?t\<lparr>uart_io := new @ uart_io ?t\<rparr>)" "answers hw new (uart_io ?t)" "received new = []" "sent new = [c]"
      by blast
    then show ?thesis using True by (intro exI [of _ "new @ [Rd LSR ?v]"]) (simp add: READ_UART_REG_def Let_def)
  next
    case False
    then show ?thesis by (intro exI [of _ "[Wr THR c, Rd LSR ?v]"]) (simp add: READ_UART_REG_def WRITE_UART_REG_def Let_def)
  qed
qed simp

lemma console_kputc_ok:
  assumes "tx_ready hw fuel"
  shows "\<exists>new. console_kputc hw fuel c s = Ok (s\<lparr>uart_io := new @ uart_io s\<rparr>) \<and> answers hw new (uart_io s) \<and> received new = [] \<and> sent new = [c]"
proof -
  let ?t = "s\<lparr>noff := Suc (noff s)\<rparr>"
  obtain new where n: "uart_polling_putc hw fuel c ?t = Ok (?t\<lparr>uart_io := new @ uart_io ?t\<rparr>)" "answers hw new (uart_io ?t)" "received new = []" "sent new = [c]"
    using uart_polling_putc_ok [of fuel hw ?t c] assms unfolding tx_ready_def by blast
  then show ?thesis by (intro exI [of _ new]) (simp add: console_kputc_def lock_simps)
qed

section \<open>The interrupt\<close>

text \<open>The locks the interrupt handler takes are free; it holds \<open>UartInputLock\<close> while it reads.\<close>

definition intr_ctx :: "'a console_state_scheme \<Rightarrow> bool" where
  "intr_ctx s \<longleftrightarrow> InputLinesLock \<notin> held s \<and> (\<forall>i. ProcLock i \<notin> held s) \<and> length (procs s) = STATIC_PROC_NUM"

lemma console_intr_ok:
  assumes tx: "tx_ready hw fuel" and ctx: "intr_ctx s" and q: "uart_input_not_empty s \<longleftrightarrow> q \<noteq> []"
  shows "\<exists>new. console_intr hw fuel c s =
      Ok (if c = 8 then BACKSPACE else if c = 4 then GET_EOF else if line_end c then GET_LINE else GET_CH,
        s\<lparr>uart_io := new @ uart_io s, input_lines := input_lines s + (if line_end c then 1 else 0),
          procs := if line_end c then map (woken LinesChan) (procs s) else procs s\<rparr>) \<and>
    answers hw new (uart_io s) \<and> received new = [] \<and> sent new = echo c q"
proof -
  consider (bs) "c = 8" "q \<noteq> []" | (none) "c = 8" "q = []" | (line) "line_end c" | (ch) "c \<noteq> 8" "\<not> line_end c" by blast
  then show ?thesis
  proof cases
    case bs
    obtain n1 where 1: "console_kputc hw fuel 8 s = Ok (s\<lparr>uart_io := n1 @ uart_io s\<rparr>)" "answers hw n1 (uart_io s)" "received n1 = []" "sent n1 = [8]"
      using console_kputc_ok [OF tx] by blast
    obtain n2 where 2: "console_kputc hw fuel 32 (s\<lparr>uart_io := n1 @ uart_io s\<rparr>) = Ok (s\<lparr>uart_io := n2 @ n1 @ uart_io s\<rparr>)" "answers hw n2 (n1 @ uart_io s)" "received n2 = []" "sent n2 = [32]"
      using console_kputc_ok [OF tx, of 32 "s\<lparr>uart_io := n1 @ uart_io s\<rparr>"] by auto
    obtain n3 where 3: "console_kputc hw fuel 8 (s\<lparr>uart_io := n2 @ n1 @ uart_io s\<rparr>) = Ok (s\<lparr>uart_io := n3 @ n2 @ n1 @ uart_io s\<rparr>)" "answers hw n3 (n2 @ n1 @ uart_io s)" "received n3 = []" "sent n3 = [8]"
      using console_kputc_ok [OF tx, of 8 "s\<lparr>uart_io := n2 @ n1 @ uart_io s\<rparr>"] by auto
    show ?thesis using bs q 1 2 3 by (intro exI [of _ "n3 @ n2 @ n1"]) (simp add: console_intr_def line_end_def echo_def)
  next
    case none
    then show ?thesis using q by (intro exI [of _ "[]"]) (simp add: console_intr_def line_end_def echo_def)
  next
    case line
    obtain n1 where 1: "console_kputc hw fuel 10 s = Ok (s\<lparr>uart_io := n1 @ uart_io s\<rparr>)" "answers hw n1 (uart_io s)" "received n1 = []" "sent n1 = [10]"
      using console_kputc_ok [OF tx] by blast
    let ?t = "s\<lparr>uart_io := n1 @ uart_io s, input_lines := input_lines s + 1\<rparr>"
    have "wake_up LinesChan ?t = Ok (?t\<lparr>procs := map (woken LinesChan) (procs ?t)\<rparr>)"
      using ctx by (intro wake_up_eq) (auto simp: intr_ctx_def)
    moreover have "insert InputLinesLock (held s) - {InputLinesLock} = held s" using ctx by (auto simp: intr_ctx_def)
    ultimately show ?thesis using line 1 ctx
      by (intro exI [of _ n1]) (auto simp: console_intr_def line_end_def echo_def intr_ctx_def lock_simps)
  next
    case ch
    obtain n1 where 1: "console_kputc hw fuel c s = Ok (s\<lparr>uart_io := n1 @ uart_io s\<rparr>)" "answers hw n1 (uart_io s)" "received n1 = []" "sent n1 = [c]"
      using console_kputc_ok [OF tx] by blast
    then show ?thesis using ch by (intro exI [of _ n1]) (simp add: console_intr_def line_end_def echo_def)
  qed
qed

text \<open>The queue operations against the list.\<close>

lemma iq_empty: "uart_input_not_empty s \<longleftrightarrow> iq s \<noteq> []"
  by (simp add: uart_input_not_empty_def iq_def ring_empty_iff)

lemma uart_input_put_ok:
  assumes "iq_ok s"
  shows "\<exists>d b e. uart_input_put c s = s\<lparr>uart_input_queue := d, uart_iq_beg := b, uart_iq_end := e\<rparr> \<and> ring_ok UART_INPUT_SIZE d b e \<and>
    ring_contents d b e = (if length (iq s) = UART_INPUT_SIZE then tl (iq s) else iq s) @ [c]"
proof -
  let ?d = "uart_input_queue s" and ?b = "uart_iq_beg s" and ?e = "uart_iq_end s"
  let ?n = "?d[unat ?e mod 64 := c]"
  have ok: "ring_ok 64 ?d ?b ?e" using assms by (simp add: iq_ok_def)
  have m: "unat (?e mod 64) = unat ?e mod 64" by (simp add: unat_mod)
  have full: "length (iq s) = 64 \<longleftrightarrow> ?e - ?b = 64" using ring_full_iff(2) [OF ok] by (simp add: iq_def)
  show ?thesis
  proof (cases "?e - ?b = 64")
    case True
    have ne: "?b \<noteq> ?e" using True by auto
    note pop = ring_pop [OF ok ne]
    have "unat (?e - (?b + 1)) = 63"
    proof -
      have "?e - (?b + 1) = (?e - ?b) - 1" by (rule diff_diff_eq [symmetric])
      also have "\<dots> = 63" unfolding True by simp
      finally have x: "?e - (?b + 1) = 63" .
      show ?thesis unfolding x by simp
    qed
    then have room: "unat (?e - (?b + 1)) < 64" by simp
    note push = ring_push [OF pop(1) room, of c]
    have "tl (iq s) = ring_contents ?d (?b + 1) ?e" unfolding iq_def pop(2) by simp
    then show ?thesis using True push full m
      by (intro exI [of _ ?n] exI [of _ "?b + 1"] exI [of _ "?e + 1"]) (simp add: uart_input_put_def uart_queue_full_def Let_def)
  next
    case False
    then have "length (iq s) \<noteq> 64" using full by simp
    moreover have "unat (?e - ?b) \<le> 64" using ok by (simp add: ring_ok_def)
    ultimately have "unat (?e - ?b) < 64" by (simp add: iq_def)
    note push = ring_push [OF ok this, of c]
    then show ?thesis using False full m
      by (intro exI [of _ ?n] exI [of _ ?b] exI [of _ "?e + 1"]) (simp add: uart_input_put_def uart_queue_full_def Let_def iq_def)
  qed
qed

lemma uart_input_drop_ok:
  assumes "iq_ok s" "iq s \<noteq> []"
  shows "ring_ok UART_INPUT_SIZE (uart_input_queue s) (uart_iq_beg s) (uart_iq_end s - 1)"
    "ring_contents (uart_input_queue s) (uart_iq_beg s) (uart_iq_end s - 1) = butlast (iq s)"
proof -
  let ?b = "uart_iq_beg s" and ?e = "uart_iq_end s"
  have "?e - ?b \<noteq> 0" using assms(2) by (auto simp: iq_def ring_empty_iff)
  then have u: "unat (?e - 1 - ?b) = unat (?e - ?b) - 1" by (metis diff_right_commute unat_minus_one)
  then show "ring_ok UART_INPUT_SIZE (uart_input_queue s) ?b (?e - 1)" using assms(1) by (auto simp: iq_ok_def ring_ok_def)
  show "ring_contents (uart_input_queue s) ?b (?e - 1) = butlast (iq s)"
    unfolding iq_def ring_contents_def u by (cases "unat (?e - ?b)") simp_all
qed

text \<open>The state after the characters \<open>cs\<close> have been read from the device.\<close>

definition typed :: "uart_hw \<Rightarrow> u8 list \<Rightarrow> 'a console_state_scheme \<Rightarrow> 'a console_state_scheme \<Rightarrow> bool" where
  "typed hw cs s t \<longleftrightarrow> (\<exists>new d b e.
     t = s\<lparr>uart_io := new @ uart_io s, uart_input_queue := d, uart_iq_beg := b, uart_iq_end := e,
           input_lines := input_lines s + word_of_nat (length (filter line_end cs)),
           procs := if \<exists>c \<in> set cs. line_end c then map (woken LinesChan) (procs s) else procs s\<rparr> \<and>
     ring_ok UART_INPUT_SIZE d b e \<and> ring_contents d b e = fold type_char cs (iq s) \<and>
     answers hw new (uart_io s) \<and> received new = cs \<and> sent new = echoes cs (iq s))"

lemma echoes_append: "echoes (cs @ ds) q = echoes cs q @ echoes ds (fold type_char cs q)"
  by (induction cs arbitrary: q) auto

lemma typed_trans:
  assumes "typed hw cs s t" "typed hw ds t u"
  shows "typed hw (cs @ ds) s u"
proof -
  obtain n1 d1 b1 e1 where t: "t = s\<lparr>uart_io := n1 @ uart_io s, uart_input_queue := d1, uart_iq_beg := b1, uart_iq_end := e1,
           input_lines := input_lines s + word_of_nat (length (filter line_end cs)),
           procs := if \<exists>c \<in> set cs. line_end c then map (woken LinesChan) (procs s) else procs s\<rparr>"
      "ring_contents d1 b1 e1 = fold type_char cs (iq s)" "received n1 = cs" "sent n1 = echoes cs (iq s)" "answers hw n1 (uart_io s)"
    using assms(1) unfolding typed_def by blast
  obtain n2 d2 b2 e2 where u: "u = t\<lparr>uart_io := n2 @ uart_io t, uart_input_queue := d2, uart_iq_beg := b2, uart_iq_end := e2,
           input_lines := input_lines t + word_of_nat (length (filter line_end ds)),
           procs := if \<exists>c \<in> set ds. line_end c then map (woken LinesChan) (procs t) else procs t\<rparr>"
      "ring_ok UART_INPUT_SIZE d2 b2 e2" "ring_contents d2 b2 e2 = fold type_char ds (iq t)" "received n2 = ds" "sent n2 = echoes ds (iq t)" "answers hw n2 (uart_io t)"
    using assms(2) unfolding typed_def by blast
  have q: "iq t = fold type_char cs (iq s)" using t(1,2) by (simp add: iq_def)
  have p: "procs u = (if \<exists>c \<in> set (cs @ ds). line_end c then map (woken LinesChan) (procs s) else procs s)"
    using t(1) u(1) by (auto simp: o_def)
  have eq: "u = s\<lparr>uart_io := (n2 @ n1) @ uart_io s, uart_input_queue := d2, uart_iq_beg := b2, uart_iq_end := e2,
           input_lines := input_lines s + word_of_nat (length (filter line_end (cs @ ds))), procs := procs u\<rparr>"
    using t(1) u(1) by (simp add: add.assoc)
  show ?thesis unfolding typed_def p [symmetric]
  proof (intro exI conjI)
    show "ring_contents d2 b2 e2 = fold type_char (cs @ ds) (iq s)" "received (n2 @ n1) = cs @ ds" "sent (n2 @ n1) = echoes (cs @ ds) (iq s)"
      using u(3-5) t(3,4) q by (simp_all add: echoes_append)
    show "answers hw (n2 @ n1) (uart_io s)" using u(6) t(1,5) by simp
  qed (rule eq u(2))+
qed

lemma typed_frame:
  assumes "typed hw cs s t"
  shows "held t = held s" "noff t = noff s" "iq_ok t" "iq t = fold type_char cs (iq s)" "length (procs t) = length (procs s)"
    "intr_ctx t \<longleftrightarrow> intr_ctx s" "length (received (uart_io t)) = length (received (uart_io s)) + length cs"
proof -
  obtain new d b e where t: "t = s\<lparr>uart_io := new @ uart_io s, uart_input_queue := d, uart_iq_beg := b, uart_iq_end := e,
           input_lines := input_lines s + word_of_nat (length (filter line_end cs)),
           procs := if \<exists>c \<in> set cs. line_end c then map (woken LinesChan) (procs s) else procs s\<rparr>"
      "ring_ok UART_INPUT_SIZE d b e" "ring_contents d b e = fold type_char cs (iq s)" "received new = cs"
    using assms unfolding typed_def by blast
  show h: "held t = held s" "noff t = noff s" and l: "length (procs t) = length (procs s)" using t(1) by simp_all
  show "iq_ok t" "iq t = fold type_char cs (iq s)" using t(1-3) by (simp_all add: iq_ok_def iq_def)
  show "intr_ctx t \<longleftrightarrow> intr_ctx s" unfolding intr_ctx_def h l by simp
  show "length (received (uart_io t)) = length (received (uart_io s)) + length cs" using t(1,4) by simp
qed

lemma uart_getc_input_queue_ok:
  assumes tx: "tx_ready hw fuel" and ctx: "intr_ctx s" and ok: "iq_ok s"
  shows "\<exists>t cs. uart_getc_input_queue hw fuel s = Ok (if cs = [] then -1 else 0, t) \<and> typed hw cs s t \<and> length cs \<le> 1 \<and>
    (cs \<noteq> [] \<longleftrightarrow> hw (uart_io s) LSR AND LSR_RHR_READY \<noteq> 0) \<and> (cs = [] \<longrightarrow> uart_io t = Rd LSR (hw (uart_io s) LSR) # uart_io s)"
proof (cases "hw (uart_io s) LSR AND LSR_RHR_READY = 0")
  case True
  let ?t = "s\<lparr>uart_io := [Rd LSR (hw (uart_io s) LSR)] @ uart_io s\<rparr>"
  have "uart_getc_input_queue hw fuel s = Ok (-1, ?t)" using True by (simp add: uart_getc_input_queue_def READ_UART_REG_def Let_def)
  moreover have "typed hw [] s ?t" unfolding typed_def using ok
    by (intro exI [of _ "[Rd LSR (hw (uart_io s) LSR)]"] exI [of _ "uart_input_queue s"] exI [of _ "uart_iq_beg s"] exI [of _ "uart_iq_end s"])
      (simp add: iq_ok_def iq_def)
  ultimately show ?thesis using True by (intro exI [of _ ?t] exI [of _ "[]"]) simp
next
  case False
  define v where "v = hw (uart_io s) LSR"
  define c where "c = hw (Rd LSR v # uart_io s) RHR"
  define r where "r = s\<lparr>uart_io := Rd RHR c # Rd LSR v # uart_io s\<rparr>"
  have r: "intr_ctx r" "iq_ok r" "iq r = iq s" "uart_input_not_empty r \<longleftrightarrow> iq s \<noteq> []"
    using ctx ok iq_empty [of r] by (simp_all add: r_def intr_ctx_def iq_ok_def iq_def)
  obtain new where n: "console_intr hw fuel c r =
      Ok (if c = 8 then BACKSPACE else if c = 4 then GET_EOF else if line_end c then GET_LINE else GET_CH,
        r\<lparr>uart_io := new @ uart_io r, input_lines := input_lines r + (if line_end c then 1 else 0),
          procs := if line_end c then map (woken LinesChan) (procs r) else procs r\<rparr>)" "received new = []" "sent new = echo c (iq s)" "answers hw new (uart_io r)"
    using console_intr_ok [OF tx r(1,4), of c] by blast
  define w where "w = r\<lparr>uart_io := new @ uart_io r, input_lines := input_lines r + (if line_end c then 1 else 0),
          procs := if line_end c then map (woken LinesChan) (procs r) else procs r\<rparr>"
  have w: "iq_ok w" "iq w = iq s" using r(2,3) by (simp_all add: w_def iq_ok_def iq_def)
  have call: "uart_getc_input_queue hw fuel s = kbind (console_intr hw fuel c r) (\<lambda>(res, s). case res of
          BACKSPACE \<Rightarrow> Ok (0, if \<not> uart_queue_empty (uart_iq_beg s) (uart_iq_end s) then s\<lparr>uart_iq_end := uart_iq_end s - 1\<rparr> else s)
        | GET_LINE \<Rightarrow> Ok (0, uart_input_put 10 s) | GET_EOF \<Rightarrow> Ok (0, uart_input_put c s) | GET_CH \<Rightarrow> Ok (0, uart_input_put c s))"
  proof -
    have 1: "READ_UART_REG hw LSR s = (v, s\<lparr>uart_io := Rd LSR v # uart_io s\<rparr>)" by (simp add: READ_UART_REG_def v_def Let_def)
    have 2: "READ_UART_REG hw RHR (s\<lparr>uart_io := Rd LSR v # uart_io s\<rparr>) = (c, r)" by (simp add: READ_UART_REG_def c_def r_def Let_def)
    have 3: "v AND LSR_RHR_READY \<noteq> 0" using False by (simp add: v_def)
    show ?thesis unfolding uart_getc_input_queue_def 1 Let_def prod.case 2 using 3 by simp
  qed
  have ty: "typed hw [c] s t" if "t = w\<lparr>uart_input_queue := d, uart_iq_beg := b, uart_iq_end := e\<rparr>" "ring_ok UART_INPUT_SIZE d b e" "ring_contents d b e = type_char c (iq s)" for t d b e
    unfolding typed_def using that n(2-4)
    by (intro exI [of _ "new @ [Rd RHR c, Rd LSR v]"] exI [of _ d] exI [of _ b] exI [of _ e]) (simp add: w_def r_def v_def c_def)
  have put: "\<exists>t. uart_getc_input_queue hw fuel s = Ok (0, t) \<and> typed hw [c] s t"
    if "c \<noteq> 8" "uart_getc_input_queue hw fuel s = Ok (0, uart_input_put (if c = 13 then 10 else c) w)"
  proof -
    obtain d b e where "uart_input_put (if c = 13 then 10 else c) w = w\<lparr>uart_input_queue := d, uart_iq_beg := b, uart_iq_end := e\<rparr>" "ring_ok UART_INPUT_SIZE d b e"
      "ring_contents d b e = (if length (iq s) = UART_INPUT_SIZE then tl (iq s) else iq s) @ [if c = 13 then 10 else c]"
      using uart_input_put_ok [OF w(1)] unfolding w(2) by blast
    then show ?thesis using that ty by (auto simp: type_char_def)
  qed
  have "\<exists>t. uart_getc_input_queue hw fuel s = Ok (0, t) \<and> typed hw [c] s t"
  proof (cases "c = 8")
    case True
    let ?e = "if iq s \<noteq> [] then uart_iq_end w - 1 else uart_iq_end w"
    have e: "uart_queue_empty (uart_iq_beg w) (uart_iq_end w) \<longleftrightarrow> iq s = []"
      unfolding w(2) [symmetric] by (simp add: uart_queue_empty_def iq_def ring_empty_iff)
    have "uart_getc_input_queue hw fuel s = Ok (0, w\<lparr>uart_iq_end := ?e\<rparr>)"
      unfolding call n(1) w_def [symmetric] using True e by simp
    moreover have "typed hw [c] s (w\<lparr>uart_iq_end := ?e\<rparr>)"
    proof (rule ty)
      show "w\<lparr>uart_iq_end := ?e\<rparr> = w\<lparr>uart_input_queue := uart_input_queue w, uart_iq_beg := uart_iq_beg w, uart_iq_end := ?e\<rparr>" by simp
      show "ring_ok UART_INPUT_SIZE (uart_input_queue w) (uart_iq_beg w) ?e"
        using uart_input_drop_ok(1) [OF w(1)] w by (simp add: iq_ok_def)
      show "ring_contents (uart_input_queue w) (uart_iq_beg w) ?e = type_char c (iq s)"
        using uart_input_drop_ok(2) [OF w(1)] w True by (auto simp: type_char_def iq_def)
    qed
    ultimately show ?thesis by blast
  next
    case F: False
    have "uart_getc_input_queue hw fuel s = Ok (0, uart_input_put (if c = 13 then 10 else c) w)"
      unfolding call n(1) w_def [symmetric] using F by (auto simp: line_end_def)
    with F show ?thesis by (rule put)
  qed
  then obtain t where "uart_getc_input_queue hw fuel s = Ok (0, t)" "typed hw [c] s t" by blast
  then show ?thesis using False by (intro exI [of _ t] exI [of _ "[c]"]) simp
qed

lemma uart_input_loop_ok:
  assumes "tx_ready hw fuel" "rx_limit hw N" "intr_ctx s" "iq_ok s" "N < length (received (uart_io s)) + n" "0 < n"
  shows "\<exists>t cs. uart_input_loop n hw fuel s = Ok (cs \<noteq> [], t) \<and> typed hw cs s t \<and> (\<exists>v io. uart_io t = Rd LSR v # io @ uart_io s \<and> v AND LSR_RHR_READY = 0)"
  using assms
proof (induction n arbitrary: s)
  case (Suc n)
  obtain t cs where t: "uart_getc_input_queue hw fuel s = Ok (if cs = [] then -1 else 0, t)" "typed hw cs s t" "length cs \<le> 1"
      "cs \<noteq> [] \<longleftrightarrow> hw (uart_io s) LSR AND LSR_RHR_READY \<noteq> 0" "cs = [] \<longrightarrow> uart_io t = Rd LSR (hw (uart_io s) LSR) # uart_io s"
    using uart_getc_input_queue_ok [OF Suc.prems(1,3,4)] by blast
  show ?case
  proof (cases "cs = []")
    case True
    then show ?thesis using t by (intro exI [of _ t] exI [of _ "[]"]) simp
  next
    case False
    then have l: "length cs = 1" using t(3) by (cases cs) auto
    note f = typed_frame [OF t(2)]
    have "N < length (received (uart_io t)) + n" using Suc.prems(5) f(7) l by simp
    moreover have "length (received (uart_io s)) < N" using t(4) False Suc.prems(2) unfolding rx_limit_def by (meson not_less)
    then have "0 < n" using Suc.prems(5) f(7) l \<open>N < length (received (uart_io t)) + n\<close> by simp
    ultimately have "\<exists>u ds. uart_input_loop n hw fuel t = Ok (ds \<noteq> [], u) \<and> typed hw ds t u \<and> (\<exists>v io. uart_io u = Rd LSR v # io @ uart_io t \<and> v AND LSR_RHR_READY = 0)"
      using Suc.IH [OF Suc.prems(1,2) _ f(3)] Suc.prems(3) f(6) by simp
    then
    obtain u ds where u: "uart_input_loop n hw fuel t = Ok (ds \<noteq> [], u)" "typed hw ds t u" "\<exists>v io. uart_io u = Rd LSR v # io @ uart_io t \<and> v AND LSR_RHR_READY = 0" by blast
    obtain new where "uart_io t = new @ uart_io s" using t(2) by (auto simp: typed_def)
    then have "\<exists>v io. uart_io u = Rd LSR v # io @ uart_io s \<and> v AND LSR_RHR_READY = 0" using u(3) by auto
    then show ?thesis using t(1) u(1) False typed_trans [OF t(2) u(2)] by (intro exI [of _ u] exI [of _ "cs @ ds"]) simp
  qed
qed simp

text \<open>The state after \<open>k\<close> characters of the output queue went to the device.\<close>

definition drained :: "uart_hw \<Rightarrow> nat \<Rightarrow> 'a console_state_scheme \<Rightarrow> 'a console_state_scheme \<Rightarrow> bool" where
  "drained hw k s t \<longleftrightarrow> k \<le> length (oq s) \<and> (\<exists>new.
     t = s\<lparr>uart_io := new @ uart_io s, uart_oq_beg := uart_oq_beg s + word_of_nat k\<rparr> \<and>
     answers hw new (uart_io s) \<and> received new = [] \<and> sent new = take k (oq s) \<and> oq_ok t \<and> oq t = drop k (oq s) \<and>
     (k < length (oq s) \<longrightarrow> (\<exists>v io. new = Rd LSR v # io \<and> v AND LSR_THR_READY = 0)))"

lemma uart_output_loop_ok:
  assumes "oq_ok s"
  shows "\<exists>k t. uart_output_loop hw s = (0 < k, t) \<and> drained hw k s t"
  using assms
proof (induction hw s rule: uart_output_loop.induct)
  case (1 hw s)
  define v where "v = hw (uart_io s) LSR"
  have e: "uart_oq_beg s = uart_oq_end s \<longleftrightarrow> oq s = []" by (simp add: oq_def ring_empty_iff)
  show ?case
  proof (cases "v AND LSR_THR_READY \<noteq> 0 \<and> oq s \<noteq> []")
    case False
    let ?t = "s\<lparr>uart_io := [Rd LSR v] @ uart_io s, uart_oq_beg := uart_oq_beg s + word_of_nat 0\<rparr>"
    have "uart_putc_output_queue hw s = (-1, ?t)"
      using False e by (auto simp: uart_putc_output_queue_def READ_UART_REG_def uart_queue_empty_def v_def Let_def)
    then have "uart_output_loop hw s = (False, ?t)" by (simp add: uart_output_loop.simps)
    moreover have "drained hw 0 s ?t" unfolding drained_def using False "1.prems"
      by (intro conjI exI [of _ "[Rd LSR v]"]) (auto simp: oq_ok_def oq_def ring_empty_iff v_def)
    ultimately show ?thesis by (intro exI [of _ 0] exI [of _ ?t]) simp
  next
    case True
    define c where "c = uart_output_queue s ! (unat (uart_oq_beg s) mod 16)"
    define t where "t = s\<lparr>uart_io := Wr THR c # Rd LSR v # uart_io s, uart_oq_beg := uart_oq_beg s + 1\<rparr>"
    have ne: "uart_oq_beg s \<noteq> uart_oq_end s" using True e by simp
    note pop = ring_pop [OF "1.prems" [unfolded oq_ok_def] ne]
    have put: "uart_putc_output_queue hw s = (0, t)"
      using True ne by (simp add: uart_putc_output_queue_def READ_UART_REG_def WRITE_UART_REG_def uart_queue_empty_def v_def c_def t_def Let_def unat_mod)
    have t: "oq_ok t" "oq s = c # oq t" using pop by (simp_all add: t_def oq_ok_def oq_def c_def)
    obtain k u where k: "uart_output_loop hw t = (0 < k, u)" "drained hw k t u" using "1.IH" [OF put [symmetric] refl t(1)] by blast
    then obtain new where n: "u = t\<lparr>uart_io := new @ uart_io t, uart_oq_beg := uart_oq_beg t + word_of_nat k\<rparr>" "received new = []" "sent new = take k (oq t)"
        "answers hw new (uart_io t)" "oq_ok u" "oq u = drop k (oq t)" "k < length (oq t) \<longrightarrow> (\<exists>v io. new = Rd LSR v # io \<and> v AND LSR_THR_READY = 0)" "k \<le> length (oq t)"
      unfolding drained_def by blast
    have "u = s\<lparr>uart_io := (new @ [Wr THR c, Rd LSR v]) @ uart_io s, uart_oq_beg := uart_oq_beg s + word_of_nat (Suc k)\<rparr>"
      using n(1) by (simp add: t_def add.commute add.left_commute)
    then have "drained hw (Suc k) s u" unfolding drained_def using n(2-8) t(2)
      by (intro conjI exI [of _ "new @ [Wr THR c, Rd LSR v]"]) (auto simp: t_def v_def)
    moreover have "uart_output_loop hw s = (True, u)" using put k(1) by (simp add: uart_output_loop.simps)
    ultimately show ?thesis by (intro exI [of _ "Suc k"] exI [of _ u]) simp
  qed
qed

definition wake_if :: "bool \<Rightarrow> chan \<Rightarrow> process \<Rightarrow> process" where
  "wake_if b c p = (if b then woken c p else p)"

lemma uart_running_output_queue_ok:
  assumes "oq_ok s" "intr_ctx s"
  shows "\<exists>k t. uart_running_output_queue hw s = Ok (t\<lparr>procs := map (wake_if (0 < k) UartTxChan) (procs s)\<rparr>) \<and> drained hw k s t"
proof -
  obtain k t where t: "uart_output_loop hw s = (0 < k, t)" "drained hw k s t" using uart_output_loop_ok [OF assms(1)] by blast
  have f: "held t = held s" "procs t = procs s" using t(2) by (auto simp: drained_def)
  have w: "wake_up UartTxChan t = Ok (t\<lparr>procs := map (woken UartTxChan) (procs t)\<rparr>)"
    using assms(2) f by (intro wake_up_eq) (auto simp: intr_ctx_def)
  have "t\<lparr>procs := procs s\<rparr> = t" using f(2) by simp
  moreover have "map (wake_if True c) ps = map (woken c) ps" "map (wake_if False c) ps = ps" for c ps by (simp_all add: wake_if_def cong: map_cong)
  ultimately show ?thesis using t w f(2)
    by (intro exI [of _ k] exI [of _ t]) (cases "0 < k"; simp add: uart_running_output_queue_def)
qed

lemma uart_running_input_queue_ok:
  assumes "tx_ready hw fuel" "rx_limit hw N" "N < length (received (uart_io s)) + fuel" "intr_ctx s" "iq_ok s"
  shows "\<exists>t cs. uart_running_input_queue hw fuel s = Ok (t\<lparr>procs := map (wake_if (cs \<noteq> []) UartRxChan) (procs t)\<rparr>) \<and> typed hw cs s t \<and>
    (\<exists>v io. uart_io t = Rd LSR v # io @ uart_io s \<and> v AND LSR_RHR_READY = 0)"
proof -
  have "0 < fuel" using assms(1) by (auto simp: tx_ready_def)
  then obtain t cs where t: "uart_input_loop fuel hw fuel s = Ok (cs \<noteq> [], t)" "typed hw cs s t" "\<exists>v io. uart_io t = Rd LSR v # io @ uart_io s \<and> v AND LSR_RHR_READY = 0"
    using uart_input_loop_ok [OF assms(1,2,4,5,3)] by blast
  have c: "intr_ctx t" using typed_frame(6) [OF t(2)] assms(4) by simp
  have w: "wake_up UartRxChan t = Ok (t\<lparr>procs := map (woken UartRxChan) (procs t)\<rparr>)"
    using c by (intro wake_up_eq) (auto simp: intr_ctx_def)
  have "map (wake_if True c) ps = map (woken c) ps" "map (wake_if False c) ps = ps" for c ps by (simp_all add: wake_if_def cong: map_cong)
  then show ?thesis using t w
    by (intro exI [of _ t] exI [of _ cs]) (cases "cs = []"; simp add: uart_running_input_queue_def)
qed

text \<open>
  The UART interrupt. Whatever the device answers, if its transmitter accepts a character within
  \<open>fuel\<close> polls and it has fewer than \<open>fuel\<close> characters to deliver, the handler returns after it has
  read every character the device had (the last status it read before it turned to the output says there is no more). The input
  queue is then the old one edited by these characters (backspace removes, a return becomes a newline,
  the oldest is lost when 64 wait), \<open>input_lines\<close> has grown by the line ends among them, their echo
  and then a first part of the output queue were transmitted in order, the rest is still queued and
  only if the device refused more. The processes that wait for input, for a line or for room in the
  output queue are woken; nothing else changes.
\<close>

lemma uart_intr_correct:
  assumes dev: "tx_ready hw fuel" "rx_limit hw N" "N < length (received (uart_io s)) + fuel"
    and ctx: "intr_ctx s" "UartInputLock \<notin> held s" "UartOutputLock \<notin> held s" and ok: "iq_ok s" "oq_ok s"
  shows "\<exists>t out v inp k. uart_intr hw fuel s = Ok t \<and> uart_io t = out @ Rd LSR v # inp @ uart_io s \<and> v AND LSR_RHR_READY = 0 \<and>
    answers hw (out @ Rd LSR v # inp) (uart_io s) \<and> received out = [] \<and> iq_ok t \<and> iq t = fold type_char (received inp) (iq s) \<and>
    input_lines t = input_lines s + word_of_nat (length (filter line_end (received inp))) \<and>
    sent inp = echoes (received inp) (iq s) \<and> sent out = take k (oq s) \<and> k \<le> length (oq s) \<and> oq_ok t \<and> oq t = drop k (oq s) \<and>
    (k < length (oq s) \<longrightarrow> (\<exists>w io. out = Rd LSR w # io \<and> w AND LSR_THR_READY = 0)) \<and>
    procs t = map (\<lambda>p. wake_if (0 < k) UartTxChan (wake_if (received inp \<noteq> []) UartRxChan
      (wake_if (\<exists>c \<in> set (received inp). line_end c) LinesChan p))) (procs s) \<and>
    t = s\<lparr>uart_io := uart_io t, uart_input_queue := uart_input_queue t, uart_iq_beg := uart_iq_beg t, uart_iq_end := uart_iq_end t,
      uart_oq_beg := uart_oq_beg t, input_lines := input_lines t, procs := procs t\<rparr>"
proof -
  define s1 where "s1 = s\<lparr>held := insert UartInputLock (held s), noff := Suc (noff s)\<rparr>"
  have s1: "intr_ctx s1" "iq_ok s1" "iq s1 = iq s" "uart_io s1 = uart_io s" "N < length (received (uart_io s1)) + fuel"
    using ctx ok dev(3) by (simp_all add: s1_def intr_ctx_def iq_ok_def iq_def)
  obtain t cs v inp where t: "uart_running_input_queue hw fuel s1 = Ok (t\<lparr>procs := map (wake_if (cs \<noteq> []) UartRxChan) (procs t)\<rparr>)" "typed hw cs s1 t"
      "uart_io t = Rd LSR v # inp @ uart_io s1" "v AND LSR_RHR_READY = 0"
    using uart_running_input_queue_ok [OF dev(1,2) s1(5,1,2)] by blast
  obtain new d b e where ty: "t = s1\<lparr>uart_io := new @ uart_io s, uart_input_queue := d, uart_iq_beg := b, uart_iq_end := e,
           input_lines := input_lines s1 + word_of_nat (length (filter line_end cs)),
           procs := if \<exists>c \<in> set cs. line_end c then map (woken LinesChan) (procs s1) else procs s1\<rparr>"
      "ring_ok UART_INPUT_SIZE d b e" "ring_contents d b e = fold type_char cs (iq s)" "received new = cs" "sent new = echoes cs (iq s)" "answers hw new (uart_io s)"
    using t(2) unfolding typed_def s1(3,4) by blast
  define s2 where "s2 = t\<lparr>procs := map (wake_if (cs \<noteq> []) UartRxChan) (procs t), held := insert UartOutputLock (held s), noff := Suc (noff s)\<rparr>"
  have "insert UartInputLock (held s) - {UartInputLock} = held s" using ctx(2) by auto
  then have r1: "release UartInputLock (t\<lparr>procs := map (wake_if (cs \<noteq> []) UartRxChan) (procs t)\<rparr>) =
      Ok (t\<lparr>procs := map (wake_if (cs \<noteq> []) UartRxChan) (procs t), held := held s, noff := noff s\<rparr>)"
    by (simp add: ty(1) s1_def lock_simps)
  have a1: "acquire UartOutputLock (t\<lparr>procs := map (wake_if (cs \<noteq> []) UartRxChan) (procs t), held := held s, noff := noff s\<rparr>) = Ok s2"
    using ctx(3) by (simp add: s2_def lock_simps)
  have s2: "intr_ctx s2" "oq_ok s2" "oq s2 = oq s"
    using ctx ok by (simp_all add: s2_def ty(1) s1_def intr_ctx_def oq_ok_def oq_def)
  obtain k u where u: "uart_running_output_queue hw s2 = Ok (u\<lparr>procs := map (wake_if (0 < k) UartTxChan) (procs s2)\<rparr>)" "drained hw k s2 u"
    using uart_running_output_queue_ok [OF s2(2,1)] by blast
  obtain out where o: "u = s2\<lparr>uart_io := out @ uart_io s2, uart_oq_beg := uart_oq_beg s2 + word_of_nat k\<rparr>" "received out = []" "sent out = take k (oq s)"
      "oq_ok u" "oq u = drop k (oq s)" "k < length (oq s) \<longrightarrow> (\<exists>v io. out = Rd LSR v # io \<and> v AND LSR_THR_READY = 0)" "k \<le> length (oq s)" "answers hw out (uart_io s2)"
    using u(2) unfolding drained_def s2(3) by blast
  define z where "z = u\<lparr>procs := map (wake_if (0 < k) UartTxChan) (procs s2), held := held s, noff := noff s\<rparr>"
  have "insert UartOutputLock (held s) - {UartOutputLock} = held s" using ctx(3) by auto
  then have r2: "release UartOutputLock (u\<lparr>procs := map (wake_if (0 < k) UartTxChan) (procs s2)\<rparr>) = Ok z"
    by (simp add: z_def o(1) s2_def lock_simps)
  have a0: "acquire UartInputLock s = Ok s1" using ctx(2) by (simp add: s1_def lock_simps)
  have run: "uart_intr hw fuel s = Ok z" unfolding uart_intr_def by (simp only: a0 t(1) r1 a1 u(1) r2 kbind.simps)
  have inp: "new = Rd LSR v # inp" using t(3) ty(1) s1(4) by simp
  have rs: "received inp = cs" "sent inp = echoes cs (iq s)" using ty(4,5) inp by simp_all
  have ps: "procs z = map (\<lambda>p. wake_if (0 < k) UartTxChan (wake_if (cs \<noteq> []) UartRxChan (wake_if (\<exists>c \<in> set cs. line_end c) LinesChan p))) (procs s)"
    by (cases "cs = []") (simp_all add: z_def s2_def ty(1) s1_def wake_if_def o_def)
  have io: "uart_io z = out @ Rd LSR v # inp @ uart_io s" by (simp add: z_def o(1) s2_def ty(1) inp s1_def)
  have q: "iq_ok z" "iq z = fold type_char cs (iq s)" "input_lines z = input_lines s + word_of_nat (length (filter line_end cs))"
    using ty(2,3) by (simp_all add: z_def o(1) s2_def ty(1) s1_def iq_ok_def iq_def)
  have an: "answers hw (out @ Rd LSR v # inp) (uart_io s)" using ty(6) o(8) inp by (simp add: s2_def ty(1))
  have oz: "oq_ok z" "oq z = drop k (oq s)" using o(4,5) by (simp_all add: z_def oq_ok_def oq_def)
  have fr: "z = s\<lparr>uart_io := uart_io z, uart_input_queue := uart_input_queue z, uart_iq_beg := uart_iq_beg z, uart_iq_end := uart_iq_end z,
      uart_oq_beg := uart_oq_beg z, input_lines := input_lines z, procs := procs z\<rparr>"
    by (simp add: z_def o(1) s2_def ty(1) s1_def)
  show ?thesis
    by (intro exI conjI, rule run, rule io, rule t(4), rule an, rule o(2), rule q(1), simp only: rs q, simp only: rs q, simp only: rs, rule o(3), rule o(7),
      rule oz(1), rule oz(2), rule o(6), simp only: rs ps, rule fr)
qed

section \<open>Writing to the console\<close>

text \<open>A process calls with no lock held, or is inside \<open>uart_write\<close>.\<close>

definition tx_process :: "nat \<Rightarrow> lock_id set \<Rightarrow> 'a console_state_scheme \<Rightarrow> bool" where
  "tx_process pr L s \<longleftrightarrow> my_proc s = Some pr \<and> pr < STATIC_PROC_NUM \<and> length (procs s) = STATIC_PROC_NUM \<and> held s = L \<and> noff s = card L \<and>
     p_chain (proc pr s) = NoChan \<and> oq_ok s"

text \<open>
  \<open>outputs xs s t\<close>: between the two states the device and the queue took over the characters \<open>xs\<close>, in order and after
  the ones that were queued, and memory and the calling process are as they were.
\<close>

definition outputs :: "nat \<Rightarrow> u8 list \<Rightarrow> 'a console_state_scheme \<Rightarrow> 'a console_state_scheme \<Rightarrow> bool" where
  "outputs pr xs s t \<longleftrightarrow> (\<exists>new. uart_io t = new @ uart_io s \<and> sent new @ oq t = oq s @ xs) \<and> mem t = mem s \<and> kobj t = kobj s \<and>
     p_pgtable (proc pr t) = p_pgtable (proc pr s)"

lemma outputs_refl: "outputs pr [] s s"
  by (simp add: outputs_def)

lemma outputs_trans: "outputs pr xs s t \<Longrightarrow> outputs pr ys t u \<Longrightarrow> outputs pr (xs @ ys) s u"
  unfolding outputs_def
proof (elim conjE exE, intro conjI)
  fix n1 n2 assume "uart_io t = n1 @ uart_io s" "sent n1 @ oq t = oq s @ xs" "uart_io u = n2 @ uart_io t" "sent n2 @ oq u = oq t @ ys"
  then have "uart_io u = (n2 @ n1) @ uart_io s \<and> sent (n2 @ n1) @ oq u = oq s @ xs @ ys" by simp
  then show "\<exists>new. uart_io u = new @ uart_io s \<and> sent new @ oq u = oq s @ xs @ ys" by blast
qed simp_all

text \<open>
  What a writer relies on while it sleeps: when it runs again a first part of the queue has been
  transmitted, nothing else was written, and its process, memory and locks are as they were.
\<close>

definition transmits :: "nat \<Rightarrow> ('a console_state_scheme \<Rightarrow> 'a console_state_scheme kres) \<Rightarrow> bool" where
  "transmits pr sw \<longleftrightarrow>
     (\<forall>s. oq_ok s \<and> length (oq s) = UART_OUTPUT_SIZE \<and> pr < length (procs s) \<and> p_status (proc pr s) = SLEEP \<and> p_chain (proc pr s) = UartTxChan \<longrightarrow>
        kok (\<lambda>t. my_proc t = my_proc s \<and> held t = held s \<and> noff t = noff s \<and> length (procs t) = length (procs s) \<and>
          proc pr t = (proc pr s)\<lparr>p_status := RUNNING, p_chain := NoChan\<rparr> \<and> oq_ok t \<and> outputs pr [] s t \<and> length (oq t) < UART_OUTPUT_SIZE) (sw s))"

lemma oq_full:
  assumes "oq_ok s"
  shows "uart_queue_full (uart_oq_beg s) (uart_oq_end s) 16 \<longleftrightarrow> length (oq s) = UART_OUTPUT_SIZE" "length (oq s) \<le> UART_OUTPUT_SIZE"
  using ring_full_iff(2) [OF assms [unfolded oq_ok_def]] assms by (simp_all add: uart_queue_full_def oq_def oq_ok_def ring_ok_def)

lemma uart_fill_ok:
  assumes "oq_ok s"
  shows "\<exists>d e. uart_fill bs s = (drop (UART_OUTPUT_SIZE - length (oq s)) bs, s\<lparr>uart_output_queue := d, uart_oq_end := e\<rparr>) \<and>
    oq_ok (s\<lparr>uart_output_queue := d, uart_oq_end := e\<rparr>) \<and> oq (s\<lparr>uart_output_queue := d, uart_oq_end := e\<rparr>) = oq s @ take (UART_OUTPUT_SIZE - length (oq s)) bs"
  using assms
proof (induction bs s rule: uart_fill.induct)
  case (1 s)
  then show ?case by (intro exI [of _ "uart_output_queue s"] exI [of _ "uart_oq_end s"]) simp
next
  case (2 b bs s)
  let ?t = "s\<lparr>uart_output_queue := (uart_output_queue s)[unat (uart_oq_end s mod 16) := b], uart_oq_end := uart_oq_end s + 1\<rparr>"
  note full = oq_full [OF "2.prems"]
  show ?case
  proof (cases "length (oq s) = UART_OUTPUT_SIZE")
    case True
    then show ?thesis using "2.prems" full by (intro exI [of _ "uart_output_queue s"] exI [of _ "uart_oq_end s"]) simp
  next
    case False
    then have lt: "unat (uart_oq_end s - uart_oq_beg s) < 16" using full(2) by (simp add: oq_def)
    note push = ring_push [OF "2.prems" [unfolded oq_ok_def] lt, of b]
    have t: "oq_ok ?t" "oq ?t = oq s @ [b]" using push by (simp_all add: oq_ok_def oq_def unat_mod)
    have nf: "\<not> uart_queue_full (uart_oq_beg s) (uart_oq_end s) 16" using False full(1) by simp
    obtain d e where ih: "uart_fill bs ?t = (drop (16 - length (oq ?t)) bs, ?t\<lparr>uart_output_queue := d, uart_oq_end := e\<rparr>)"
        "oq_ok (?t\<lparr>uart_output_queue := d, uart_oq_end := e\<rparr>)" "oq (?t\<lparr>uart_output_queue := d, uart_oq_end := e\<rparr>) = oq ?t @ take (16 - length (oq ?t)) bs"
      using "2.IH" [OF nf t(1)] by blast
    obtain m where m: "16 - length (oq s) = Suc m" using lt by (cases "16 - length (oq s)") (simp_all add: oq_def)
    then have "16 - length (oq ?t) = m" using t(2) by simp
    then show ?thesis using ih nf t(2) m by (intro exI [of _ d] exI [of _ e]) simp
  qed
qed

lemma tx_sleep:
  assumes ins: "tx_process pr {UartOutputLock} s" and full: "length (oq s) = UART_OUTPUT_SIZE" and sv: "transmits pr sw"
  shows "\<exists>t. sleep sw UartOutputLock UartTxChan s = Ok t \<and> tx_process pr {UartOutputLock} t \<and> outputs pr [] s t \<and> length (oq t) < UART_OUTPUT_SIZE"
proof -
  let ?w = "s\<lparr>held := {ProcLock pr}, noff := 1\<rparr>"
  let ?z = "upd_proc pr (\<lambda>q. q\<lparr>p_status := SLEEP, p_chain := UartTxChan\<rparr>) ?w"
  have i: "my_proc s = Some pr" "pr < 64" "length (procs s) = 64" "held s = {UartOutputLock}" "noff s = 1" "p_chain (proc pr s) = NoChan" "oq_ok s"
    using ins by (simp_all add: tx_process_def)
  have z: "proc pr ?z = (proc pr s)\<lparr>p_status := SLEEP, p_chain := UartTxChan\<rparr>" "length (procs ?z) = 64"
      "my_proc ?z = Some pr" "held ?z = {ProcLock pr}" "noff ?z = 1" "mem ?z = mem s" "kobj ?z = kobj s" "uart_io ?z = uart_io s" "oq ?z = oq s" "oq_ok ?z"
    using i by (simp_all add: proc_upd_proc) (simp_all add: upd_proc_def my_proc_def oq_def oq_ok_def)
  obtain t where t: "sw ?z = Ok t" "my_proc t = Some pr" "held t = {ProcLock pr}" "noff t = 1" "length (procs t) = 64"
      "proc pr t = (proc pr s)\<lparr>p_status := RUNNING, p_chain := NoChan\<rparr>" "oq_ok t" "outputs pr [] ?z t" "length (oq t) < 16"
    using sv [unfolded transmits_def, THEN spec, of ?z] full i(2) z(1-5,9,10) by (auto elim!: kokE)
  let ?t = "t\<lparr>held := {UartOutputLock}, noff := 1\<rparr>"
  have "sleep sw UartOutputLock UartTxChan s = Ok ?t" using i(1,6,4,5) by (rule sleep_through) (use t(1,3,4) in simp_all)
  moreover have "tx_process pr {UartOutputLock} ?t" using t i(2) by (simp add: tx_process_def my_proc_def oq_ok_def)
  moreover have "outputs pr [] s ?t" using t(8) z(1,6-9) by (simp add: outputs_def oq_def) 
  moreover have "length (oq ?t) < 16" using t(9) by (simp add: oq_def)
  ultimately show ?thesis by blast
qed

text \<open>One round of \<open>uart_write\<close> with room in the queue.\<close>

lemma uart_write_round:
  assumes ins: "tx_process pr {UartOutputLock} s"
  shows "\<exists>t. uart_running_output_queue hw (snd (uart_fill bs s)) = Ok t \<and> tx_process pr {UartOutputLock} t \<and>
    fst (uart_fill bs s) = drop (UART_OUTPUT_SIZE - length (oq s)) bs \<and> outputs pr (take (UART_OUTPUT_SIZE - length (oq s)) bs) s t"
proof -
  let ?r = "UART_OUTPUT_SIZE - length (oq s)"
  have i: "my_proc s = Some pr" "pr < 64" "length (procs s) = 64" "held s = {UartOutputLock}" "noff s = 1" "p_chain (proc pr s) = NoChan" "oq_ok s"
    using ins by (simp_all add: tx_process_def)
  obtain d e where f: "uart_fill bs s = (drop ?r bs, s\<lparr>uart_output_queue := d, uart_oq_end := e\<rparr>)"
      "oq_ok (s\<lparr>uart_output_queue := d, uart_oq_end := e\<rparr>)" "oq (s\<lparr>uart_output_queue := d, uart_oq_end := e\<rparr>) = oq s @ take ?r bs"
    using uart_fill_ok [OF i(7)] by blast
  define u where "u = s\<lparr>uart_output_queue := d, uart_oq_end := e\<rparr>"
  have c: "intr_ctx u" using i by (simp add: u_def intr_ctx_def)
  obtain k v where v: "uart_running_output_queue hw u = Ok (v\<lparr>procs := map (wake_if (0 < k) UartTxChan) (procs u)\<rparr>)" "drained hw k u v"
    using uart_running_output_queue_ok [OF f(2) [folded u_def] c] by blast
  obtain new where n: "v = u\<lparr>uart_io := new @ uart_io u, uart_oq_beg := uart_oq_beg u + word_of_nat k\<rparr>" "sent new = take k (oq u)" "oq_ok v" "oq v = drop k (oq u)"
    using v(2) unfolding drained_def by blast
  let ?t = "v\<lparr>procs := map (wake_if (0 < k) UartTxChan) (procs u)\<rparr>"
  have p: "proc pr ?t = proc pr s" using i(2,3,6) by (simp add: u_def wake_if_def woken_other)
  have q: "oq_ok ?t" "oq ?t = drop k (oq s @ take ?r bs)" using n(3,4) f(3) by (simp_all add: oq_ok_def oq_def u_def)
  have "tx_process pr {UartOutputLock} ?t"
    using i p q(1) n(1) by (simp add: tx_process_def my_proc_def u_def)
  moreover have "outputs pr (take ?r bs) s ?t" unfolding outputs_def p
  proof (intro conjI exI [of _ new])
    show "sent new @ oq ?t = oq s @ take ?r bs" unfolding n(2) q(2) f(3) [folded u_def] by (rule append_take_drop_id)
  qed (simp_all add: n(1) u_def)
  ultimately show ?thesis using f(1) v(1) by (intro exI [of _ ?t]) (simp add: u_def)
qed

lemma uart_write_loop_ok:
  assumes "tx_process pr {UartOutputLock} s" "\<forall>sw \<in> set env. transmits pr sw"
    "length bs \<le> length env + (if length (oq s) = UART_OUTPUT_SIZE then 0 else 1)"
  shows "\<exists>env' t. uart_write_loop hw env bs s = Ok (env', t) \<and> tx_process pr {} t \<and> outputs pr bs s t \<and> set env' \<subseteq> set env \<and>
    length env + (if length (oq s) = UART_OUTPUT_SIZE \<or> bs = [] then 0 else 1) \<le> length env' + length bs"
  using assms
proof (induction hw env bs s rule: uart_write_loop.induct)
  case (1 hw env bs s)
  note ins = "1.prems"(1)
  have i: "my_proc s = Some pr" "pr < 64" "length (procs s) = 64" "held s = {UartOutputLock}" "noff s = 1" "p_chain (proc pr s) = NoChan" "oq_ok s"
    using ins by (simp_all add: tx_process_def)
  note full = oq_full [OF i(7)]
  show ?case
  proof (cases "bs = []")
    case True
    let ?t = "s\<lparr>held := {}, noff := 0\<rparr>"
    have "uart_write_loop hw env bs s = Ok (env, ?t)" using True i(4,5) by (simp add: uart_write_loop.simps lock_simps)
    moreover have "tx_process pr {} ?t" "outputs pr [] s ?t" using i by (simp_all add: tx_process_def outputs_def my_proc_def oq_ok_def oq_def)
    ultimately show ?thesis using True by (intro exI [of _ env] exI [of _ ?t]) simp
  next
    case ne: False
    show ?thesis
    proof (cases "length (oq s) = UART_OUTPUT_SIZE")
      case True
      then obtain sw env2 where e: "env = sw # env2" using "1.prems"(3) ne by (cases env) auto
      have fl: "uart_queue_full (uart_oq_beg s) (uart_oq_end s) 16" using full(1) True by simp
      obtain t where t: "sleep sw UartOutputLock UartTxChan s = Ok t" "tx_process pr {UartOutputLock} t" "outputs pr [] s t" "length (oq t) < UART_OUTPUT_SIZE"
        using tx_sleep [OF ins True, of sw] "1.prems"(2) e by auto
      have w: "uart_write_loop hw env bs s = uart_write_loop hw env2 bs t" using ne fl e t(1) by (subst uart_write_loop.simps) simp
      have "length bs \<le> length env2 + (if length (oq t) = UART_OUTPUT_SIZE then 0 else 1)" using "1.prems"(3) True t(4) e by simp
      then obtain env' u where u: "uart_write_loop hw env2 bs t = Ok (env', u)" "tx_process pr {} u" "outputs pr bs t u" "set env' \<subseteq> set env2"
          "length env2 + (if length (oq t) = UART_OUTPUT_SIZE \<or> bs = [] then 0 else 1) \<le> length env' + length bs"
        using "1.IH"(1) [OF ne fl e t(1,2)] "1.prems"(2) e by auto
      show ?thesis using w u outputs_trans [OF t(3) u(3)] True t(4) ne e by (intro exI [of _ env'] exI [of _ u]) auto
    next
      case False
      let ?r = "UART_OUTPUT_SIZE - length (oq s)"
      have fl: "\<not> uart_queue_full (uart_oq_beg s) (uart_oq_end s) 16" using full(1) False by simp
      obtain t where t: "uart_running_output_queue hw (snd (uart_fill bs s)) = Ok t" "tx_process pr {UartOutputLock} t"
          "fst (uart_fill bs s) = drop ?r bs" "outputs pr (take ?r bs) s t"
        using uart_write_round [OF ins] by blast
      have w: "uart_write_loop hw env bs s = uart_write_loop hw env (drop ?r bs) t" using ne fl t(1,3) by (subst uart_write_loop.simps) simp
      have r: "0 < ?r" using False full(2) by simp
      have l: "length (drop ?r bs) < length bs" using r ne unfolding length_drop by (intro diff_less) simp_all
      have "length (drop ?r bs) \<le> length env" using "1.prems"(3) False l by simp
      then have pre: "length (drop ?r bs) \<le> length env + (if length (oq t) = UART_OUTPUT_SIZE then 0 else 1)" by simp
      obtain env' u where u: "uart_write_loop hw env (drop ?r bs) t = Ok (env', u)" "tx_process pr {} u" "outputs pr (drop ?r bs) t u" "set env' \<subseteq> set env"
          "length env + (if length (oq t) = UART_OUTPUT_SIZE \<or> drop ?r bs = [] then 0 else 1) \<le> length env' + length (drop ?r bs)"
        using "1.IH"(2) [OF ne fl t(1,2) "1.prems"(2), unfolded t(3), OF pre] by blast
      have "length env \<le> length env' + length (drop ?r bs)" using u(5) by linarith
      then have "length env + 1 \<le> length env' + length bs" using l by linarith
      moreover have "outputs pr bs s u" using outputs_trans [OF t(4) u(3)] by simp
      ultimately show ?thesis using w u(1,2,4) False ne by (intro exI [of _ env'] exI [of _ u]) simp
    qed
  qed
qed

lemma uart_putc_ok:
  assumes s: "tx_process pr {} s" and env: "\<forall>sw \<in> set env. transmits pr sw" "env \<noteq> []"
  shows "\<exists>env' t. uart_putc hw env c s = Ok (env', t) \<and> tx_process pr {} t \<and> outputs pr [c] s t \<and> set env' \<subseteq> set env \<and> length env \<le> Suc (length env')"
proof -
  let ?s = "s\<lparr>held := {UartOutputLock}, noff := 1\<rparr>"
  have ins: "tx_process pr {UartOutputLock} ?s" using s by (simp add: tx_process_def my_proc_def oq_ok_def)
  have q: "oq ?s = oq s" by (simp add: oq_def)
  have "length [c] \<le> length env + (if length (oq ?s) = UART_OUTPUT_SIZE then 0 else 1)" using env(2) by (cases env) auto
  then obtain env' t where t: "uart_write_loop hw env [c] ?s = Ok (env', t)" "tx_process pr {} t" "outputs pr [c] ?s t" "set env' \<subseteq> set env"
      "length env + (if length (oq ?s) = UART_OUTPUT_SIZE \<or> [c] = [] then 0 else 1) \<le> length env' + length [c]"
    using uart_write_loop_ok [OF ins env(1)] by blast
  have "acquire UartOutputLock s = Ok ?s" using s by (simp add: tx_process_def lock_simps)
  moreover have "outputs pr [c] s t" using t(3) unfolding outputs_def q by simp
  ultimately show ?thesis using t by (intro exI [of _ env'] exI [of _ t]) (simp add: uart_putc_def uart_write_def split: if_splits)
qed

text \<open>The bytes at the user's address up to the first that is not accessible.\<close>

definition accessible :: "u8 option list \<Rightarrow> u8 list" where
  "accessible xs = map the (takeWhile (\<lambda>x. x \<noteq> None) xs)"

lemma console_write_loop_ok:
  assumes "tx_process pr {} s" "\<forall>sw \<in> set env. transmits pr sw" "n - i \<le> length env" "i \<le> n"
    "private_byte (mem s) (p_pgtable (proc pr s)) (kobj s) addr n"
  defines "xs \<equiv> accessible (user_bytes (mem s) (p_pgtable (proc pr s)) addr i n)"
  shows "\<exists>t. console_write_loop (n - i) hw env True (addr + word_of_nat i) (int i) s =
      Ok (if i + length xs = n then None else Some (int (i + length xs)), t) \<and> tx_process pr {} t \<and>
    (\<exists>new. uart_io t = new @ uart_io s \<and> sent new @ oq t = oq s @ xs)"
  using assms(1-5) unfolding xs_def
proof (induction "n - i" arbitrary: i s env)
  case 0
  then show ?case by (intro exI [of _ s]) (simp add: user_bytes_def accessible_def)
next
  case (Suc k)
  let ?t = "p_pgtable (proc pr s)"
  have lt: "i < n" using Suc.hyps(2) by simp
  have m: "my_proc s = Some pr" using Suc.prems(1) by (simp add: tx_process_def)
  have ub: "user_bytes (mem s) ?t addr i n = user_byte (mem s) ?t (addr + word_of_nat i) # user_bytes (mem s) ?t addr (Suc i) n"
    using lt by (simp add: user_bytes_def upt_conv_Cons)
  have wf: "table_wf (mem s) 2 ?t" using Suc.prems(5) by (simp add: private_byte_def)
  have "n - i = Suc (n - Suc i)" using lt by simp
  then have run: "console_write_loop (n - i) hw env True (addr + word_of_nat i) (int i) s =
      kbind (copyin ?t (kobj s) (addr + word_of_nat i) 1 s) (\<lambda>(err, s).
        if err \<noteq> 0 then Ok (Some (int i), s)
        else kbind (uart_putc hw env (mem s (kobj s)) s) (\<lambda>(env, s). console_write_loop (n - Suc i) hw env True (addr + word_of_nat i + 1) (int i + 1) s))"
    using m by (simp add: copyin_uork_def)
  show ?case
  proof (cases "uaddr (mem s) ?t (addr + word_of_nat i)")
    case None
    then have "accessible (user_bytes (mem s) ?t addr i n) = []" using ub by (simp add: accessible_def user_byte_def)
    moreover have "console_write_loop (n - i) hw env True (addr + word_of_nat i) (int i) s = Ok (Some (int i), s)"
      unfolding run copy_byte_one(1) [OF wf] None by simp
    ultimately show ?thesis using Suc.prems(1) lt by (intro exI [of _ s]) simp
  next
    case (Some a)
    define c where "c = mem s a"
    define u where "u = s\<lparr>mem := (mem s)(kobj s := c)\<rparr>"
    note P = private_byte_upd [OF Suc.prems(5), of c]
    have u: "tx_process pr {} u" "oq u = oq s" "uart_io u = uart_io s" "proc pr u = proc pr s" "kobj u = kobj s" "mem u = (mem s)(kobj s := c)"
      using Suc.prems(1) by (simp_all add: u_def tx_process_def my_proc_def oq_ok_def oq_def)
    have ne: "env \<noteq> []" using Suc.prems(3) lt by auto
    obtain env' t where t: "uart_putc hw env c u = Ok (env', t)" "tx_process pr {} t" "outputs pr [c] u t" "set env' \<subseteq> set env" "length env \<le> Suc (length env')"
      using uart_putc_ok [OF u(1) Suc.prems(2) ne] by blast
    have o: "mem t = (mem s)(kobj s := c)" "kobj t = kobj s" "p_pgtable (proc pr t) = ?t" using t(3) u by (simp_all add: outputs_def)
    obtain new where new: "uart_io t = new @ uart_io s" "sent new @ oq t = oq s @ [c]" using t(3) u(2,3) by (auto simp: outputs_def)
    have acc: "accessible (user_bytes (mem s) ?t addr i n) = c # accessible (user_bytes (mem s) ?t addr (Suc i) n)"
      unfolding ub by (simp add: accessible_def user_byte_def Some c_def)
    have ub': "user_bytes (mem t) (p_pgtable (proc pr t)) addr (Suc i) n = user_bytes (mem s) ?t addr (Suc i) n" unfolding o by (rule P(2))
    have pre: "k = n - Suc i" "\<forall>sw \<in> set env'. transmits pr sw" "n - Suc i \<le> length env'" "Suc i \<le> n" "private_byte (mem t) (p_pgtable (proc pr t)) (kobj t) addr n"
      using Suc.hyps(2) Suc.prems(2,3) t(4,5) lt P(1) unfolding o by auto
    obtain v where v: "console_write_loop (n - Suc i) hw env' True (addr + word_of_nat (Suc i)) (int (Suc i)) t =
          Ok (if Suc i + length (accessible (user_bytes (mem s) ?t addr (Suc i) n)) = n then None else Some (int (Suc i + length (accessible (user_bytes (mem s) ?t addr (Suc i) n)))), v)"
        "tx_process pr {} v" "\<exists>new. uart_io v = new @ uart_io t \<and> sent new @ oq v = oq t @ accessible (user_bytes (mem s) ?t addr (Suc i) n)"
      using Suc.hyps(1) [OF pre(1) t(2) pre(2-5)] unfolding ub' by blast
    have step: "console_write_loop (n - i) hw env True (addr + word_of_nat i) (int i) s = console_write_loop (n - Suc i) hw env' True (addr + word_of_nat (Suc i)) (int (Suc i)) t"
    proof -
      have "copyin ?t (kobj s) (addr + word_of_nat i) 1 s = Ok (0, u)" unfolding copy_byte_one(1) [OF wf] Some by (simp add: u_def c_def)
      moreover have "mem u (kobj s) = c" using u(6) by simp
      moreover have "kobj u = kobj s" by (rule u(5))
      ultimately show ?thesis unfolding run using t(1) by (simp add: add.commute add.left_commute)
    qed
    obtain new2 where new2: "uart_io v = new2 @ uart_io t" "sent new2 @ oq v = oq t @ accessible (user_bytes (mem s) ?t addr (Suc i) n)" using v(3) by blast
    have io: "uart_io v = (new2 @ new) @ uart_io s \<and> sent (new2 @ new) @ oq v = oq s @ accessible (user_bytes (mem s) ?t addr i n)"
      using new new2 by (simp add: acc)
    show ?thesis unfolding step v(1) using v(2) io acc by (intro exI [of _ v]) auto
  qed
qed

section \<open>Properties\<close>

text \<open>A device that has the characters \<open>cs\<close> to deliver and always room to transmit.\<close>

definition typing :: "u8 list \<Rightarrow> uart_hw" where
  "typing cs io r = (if r = LSR then 32 OR (if length (received io) < length cs then 1 else 0)
     else if r = RHR then cs ! length (received io) else 0)"

lemma typing_device: "tx_ready (typing cs) (Suc n)" "rx_limit (typing cs) (length cs)"
proof -
  show "tx_ready (typing cs) (Suc n)" unfolding tx_ready_def by (intro allI exI [of _ 0]) (simp add: typing_def)
  show "rx_limit (typing cs) (length cs)" by (simp add: rx_limit_def typing_def)
qed

lemma typing_received:
  assumes "answers (typing cs) io []"
  shows "\<forall>i < length (received io). received io ! i = cs ! i"
  using assms
proof (induction io)
  case (Cons a io)
  then show ?case
    by (cases a) (auto simp: typing_def nth_append less_Suc_eq split: if_splits)
qed simp

lemma typing_all:
  assumes "answers (typing cs) (Rd LSR v # io) []" "v AND LSR_RHR_READY = 0"
  shows "take (length cs) (received io) = cs"
proof (rule nth_equalityI)
  have "length cs \<le> length (received io)"
  proof (rule ccontr)
    assume "\<not> ?thesis"
    then have "v = 33" using assms(1) by (simp add: typing_def)
    then show False using assms(2) by simp
  qed
  then show "length (take (length cs) (received io)) = length cs" by simp
  show "take (length cs) (received io) ! i = cs ! i" if "i < length (take (length cs) (received io))" for i
    using typing_received [of cs io] assms(1) that by simp
qed

definition console_example :: "mem \<Rightarrow> console_state" where
  "console_example m = kernel_state.extend (file_state.extend (pipe_state.extend (pipe_example m) (file_state.fields []))
     (kernel_state.fields False 0 0 0 0 0 0 0)) (console_state.fields [] (replicate 16 65) (-1) 1 (replicate 64 66) (-2) 0 0 False)"

lemma console_example_ctx:
  "tx_process 0 {} (console_example m)" "intr_ctx (console_example m)" "held (console_example m) = {}" "iq_ok (console_example m)" "oq_ok (console_example m)"
  "iq (console_example m) = [66, 66]" "oq (console_example m) = [65, 65]" "uart_io (console_example m) = []" "input_lines (console_example m) = 0"
  "mem (console_example m) = m" "p_pgtable (proc 0 (console_example m)) = tiny_root" "kobj (console_example m) = 0x80002000"
proof -
  note E = pipe_example_caller [where m = m]
  have f: "pipe_state.truncate (console_example m) = pipe_example m"
    by (simp add: console_example_def kernel_state.defs file_state.defs pipe_state.defs console_state.defs)
  have t: "my_proc (console_example m) = my_proc (pipe_example m)" "procs (console_example m) = procs (pipe_example m)" "held (console_example m) = held (pipe_example m)"
      "noff (console_example m) = noff (pipe_example m)" "mem (console_example m) = mem (pipe_example m)" "kobj (console_example m) = kobj (pipe_example m)"
    unfolding f [symmetric] by (simp_all add: pipe_state.defs my_proc_def)
  show o: "oq_ok (console_example m)" "iq_ok (console_example m)"
    by (simp_all add: oq_ok_def iq_ok_def ring_ok_def console_example_def console_state.defs kernel_state.defs)
  show "iq (console_example m) = [66, 66]" "oq (console_example m) = [65, 65]" "uart_io (console_example m) = []" "input_lines (console_example m) = 0"
    by (simp_all add: oq_def iq_def ring_contents_def console_example_def console_state.defs kernel_state.defs upt_rec)
  show "tx_process 0 {} (console_example m)" using E(1) o by (simp add: tx_process_def pipe_caller_def t)
  show "intr_ctx (console_example m)" "held (console_example m) = {}" using E(1) by (simp_all add: intr_ctx_def pipe_caller_def t)
  show "mem (console_example m) = m" "p_pgtable (proc 0 (console_example m)) = tiny_root" "kobj (console_example m) = 0x80002000" using E by (simp_all add: t)
qed

text \<open>
  C35: writing to the console. If the device makes progress whenever the writer has to sleep on the
  full output queue, \<open>console_write_dev\<close> returns, with as many bytes as were accessible in the user's
  buffer (all \<open>n\<close>, or those before the first bad address); exactly these bytes were handed over, in order
  and after the ones that were queued before: what was transmitted since, followed by what is still
  queued, is the old queue followed by them. No lock is held at the end.
\<close>

theorem console_write_correct:
  assumes "tx_process pr {} s" "\<forall>sw \<in> set env. transmits pr sw" "n \<le> length env"
    "private_byte (mem s) (p_pgtable (proc pr s)) (kobj s) addr n"
  shows "\<exists>t new. console_write_dev hw env True addr (int n) s = Ok (int (length (accessible (user_bytes (mem s) (p_pgtable (proc pr s)) addr 0 n))), t) \<and>
    uart_io t = new @ uart_io s \<and> sent new @ oq t = oq s @ accessible (user_bytes (mem s) (p_pgtable (proc pr s)) addr 0 n) \<and> tx_process pr {} t"
proof -
  let ?xs = "accessible (user_bytes (mem s) (p_pgtable (proc pr s)) addr 0 n)"
  obtain t where t: "console_write_loop n hw env True addr 0 s = Ok (if length ?xs = n then None else Some (int (length ?xs)), t)" "tx_process pr {} t"
      "\<exists>new. uart_io t = new @ uart_io s \<and> sent new @ oq t = oq s @ ?xs"
    using console_write_loop_ok [of pr s env n 0 addr hw] assms by auto
  then show ?thesis by (auto simp: console_write_dev_def)
qed

text \<open>The interrupt of another CPU sends one character and wakes the writer, which runs again.\<close>

definition transmit_one :: "nat \<Rightarrow> 'a console_state_scheme \<Rightarrow> 'a console_state_scheme kres" where
  "transmit_one pr s = Ok (upd_proc pr (\<lambda>p. p\<lparr>p_status := RUNNING, p_chain := NoChan\<rparr>)
     (s\<lparr>uart_io := Wr THR (hd (oq s)) # uart_io s, uart_oq_beg := uart_oq_beg s + 1\<rparr>))"

lemma transmit_one_transmits: "transmits pr transmit_one'" if "transmit_one' = transmit_one pr" for transmit_one' :: "'a console_state_scheme \<Rightarrow> _"
  unfolding transmits_def that
proof (intro allI impI, elim conjE)
  fix s :: "'a console_state_scheme"
  let ?t = "upd_proc pr (\<lambda>p. p\<lparr>p_status := RUNNING, p_chain := NoChan\<rparr>) (s\<lparr>uart_io := Wr THR (hd (oq s)) # uart_io s, uart_oq_beg := uart_oq_beg s + 1\<rparr>)"
  assume ok: "oq_ok s" and full: "length (oq s) = UART_OUTPUT_SIZE" and pr: "pr < length (procs s)"
  have ne: "uart_oq_beg s \<noteq> uart_oq_end s" using full by (auto simp: oq_def)
  note pop = ring_pop [OF ok [unfolded oq_ok_def] ne]
  have t: "oq_ok ?t" "oq ?t = tl (oq s)" "hd (oq s) # oq ?t = oq s"
    using pop by (simp_all add: oq_ok_def oq_def upd_proc_def)
  have "outputs pr [] s ?t" unfolding outputs_def
  proof (intro conjI exI [of _ "[Wr THR (hd (oq s))]"])
    show "sent [Wr THR (hd (oq s))] @ oq ?t = oq s @ []" using t(3) by simp
  qed (use pr in \<open>simp_all add: upd_proc_def\<close>)
  moreover have "length (oq ?t) < UART_OUTPUT_SIZE" using t(2) full by simp
  moreover have "my_proc ?t = my_proc s" "proc pr ?t = (proc pr s)\<lparr>p_status := RUNNING, p_chain := NoChan\<rparr>" using pr by (simp_all add: upd_proc_def my_proc_def)
  ultimately show "kok (\<lambda>t. my_proc t = my_proc s \<and> held t = held s \<and> noff t = noff s \<and> length (procs t) = length (procs s) \<and>
      proc pr t = (proc pr s)\<lparr>p_status := RUNNING, p_chain := NoChan\<rparr> \<and> oq_ok t \<and> outputs pr [] s t \<and> length (oq t) < UART_OUTPUT_SIZE) (transmit_one pr s)"
    unfolding transmit_one_def using t(1) by simp
qed

theorem console_write_correct_witness:
  "\<exists>m t new. console_write_dev (typing []) (replicate 16 (transmit_one 0)) True 0x1000 16 (console_example m) = Ok (16, t) \<and>
     sent new @ oq t = [65, 65] @ map (\<lambda>j. m (0x80000000 + word_of_nat j)) [0..<16] \<and> held t = {}"
proof -
  obtain m where m: "user_dst m tiny_root 0x80002000 0x1000 16" "\<forall>j < 16. uaddr m tiny_root (0x1000 + word_of_nat j) = Some (0x80000000 + word_of_nat j)"
    using tiny_user_dst by blast
  let ?s = "console_example m"
  note E = console_example_ctx [of m]
  have "user_bytes m tiny_root 0x1000 0 16 = map Some (map (\<lambda>j. m (0x80000000 + word_of_nat j)) [0..<16])"
    using m(2) by (simp add: user_bytes_def user_byte_def del: upt_rec_numeral)
  moreover have "accessible (map Some ys) = ys" for ys by (simp add: accessible_def takeWhile_map o_def)
  ultimately have a: "accessible (user_bytes m tiny_root 0x1000 0 16) = map (\<lambda>j. m (0x80000000 + word_of_nat j)) [0..<16]" by (simp only:)
  have p: "private_byte (mem ?s) (p_pgtable (proc 0 ?s)) (kobj ?s) 0x1000 16" using m(1) E by (simp add: user_dst_def)
  have env: "\<forall>sw \<in> set (replicate 16 (transmit_one 0)). transmits 0 sw" "16 \<le> length (replicate 16 (transmit_one 0))"
    using transmit_one_transmits [OF refl] by simp_all
  obtain t new where "console_write_dev (typing []) (replicate 16 (transmit_one 0)) True 0x1000 (int 16) ?s =
        Ok (int (length (map (\<lambda>j. m (0x80000000 + word_of_nat j)) [0..<16])), t)"
      "sent new @ oq t = [65, 65] @ map (\<lambda>j. m (0x80000000 + word_of_nat j)) [0..<16]" "tx_process 0 {} t"
    using console_write_correct [OF E(1) env p, of "typing []", unfolded E(7,10,11) a] by blast
  then show ?thesis by (intro exI [of _ m] exI [of _ t] exI [of _ new]) (simp add: tx_process_def del: upt_rec_numeral)
qed

section \<open>Numbers in formatted output\<close>

text \<open>The value of digits in a base, least first, and the number a string of \<open>printint\<close> denotes.\<close>

definition digit_value :: "u8 \<Rightarrow> nat" where
  "digit_value d = (if d \<ge> 0x61 then unat d - 0x61 + 10 else unat d - 0x30)"

primrec digits_value :: "nat \<Rightarrow> u8 list \<Rightarrow> nat" where
  "digits_value base [] = 0"
| "digits_value base (d # ds) = digit_value d + base * digits_value base ds"

lemma kdigits_value: "k < 16 \<Longrightarrow> digit_value (kdigits ! k) = k \<and> kdigits ! k \<noteq> 0x2d"
proof -
  assume "k < 16"
  then have "k \<in> set [0..<16]" by simp
  then show ?thesis unfolding kdigits_def digit_value_def by (auto simp: upt_rec)
qed

lemma printint_digits_ok:
  assumes "unat x < unat base ^ Suc n" "2 \<le> unat base" "unat base \<le> 16"
  shows "\<exists>ds. printint_digits (Suc n) base x = Ok ds \<and> digits_value (unat base) ds = unat x \<and> length ds \<le> Suc n \<and> 0x2d \<notin> set ds \<and> ds \<noteq> []"
  using assms(1)
proof (induction n arbitrary: x)
  case 0
  then have "x div base = 0" "unat (x mod base) = unat x" by (simp_all add: unat_mod word_eq_iff_unat unat_div)
  moreover have "unat x < 16" using 0 assms(3) by simp
  ultimately show ?case using kdigits_value [of "unat x"] by (simp add: Let_def)
next
  case (Suc n)
  have m: "unat (x mod base) < 16" using assms(2,3) mod_less_divisor [of "unat base" "unat x"] unfolding unat_mod by linarith
  note K = kdigits_value [OF m]
  show ?case
  proof (cases "x div base = 0")
    case True
    then have "unat x div unat base = 0" by (metis unat_0 unat_div)
    then have "unat (x mod base) = unat x" using assms(2) by (simp add: unat_mod div_eq_0_iff)
    then show ?thesis using True K by (subst printint_digits.simps) (simp add: Let_def)
  next
    case False
    have "unat (x div base) < unat base ^ Suc n"
      using Suc.prems by (simp add: unat_div less_mult_imp_div_less mult.commute)
    then obtain ds where d: "printint_digits (Suc n) base (x div base) = Ok ds" "digits_value (unat base) ds = unat (x div base)" "length ds \<le> Suc n" "0x2d \<notin> set ds"
      using Suc.IH by blast
    have "unat (x mod base) + unat base * unat (x div base) = unat x" by (simp add: unat_mod unat_div)
    moreover have "printint_digits (Suc (Suc n)) base x = Ok (kdigits ! unat (x mod base) # ds)" using False d(1) by (subst printint_digits.simps) (simp add: Let_def)
    ultimately show ?thesis using d(2-4) K by auto
  qed
qed

lemma printint_digits_mono: "printint_digits n base x = Ok ds \<Longrightarrow> printint_digits (n + k) base x = Ok ds"
proof (induction n arbitrary: x ds)
  case (Suc n)
  then show ?case by (auto simp: Let_def split: if_splits)
qed simp

definition shown :: "nat \<Rightarrow> u8 list \<Rightarrow> int" where
  "shown base b = (if b \<noteq> [] \<and> last b = 0x2d then - int (digits_value base (butlast b)) else int (digits_value base b))"

lemma unat_lt_exp: "unat (x :: 'w::len word) < 2 ^ LENGTH('w)"
  by (rule unsigned_less)

lemma sint32: "sint (x :: u32) = (if uint x < 2 ^ 31 then uint x else uint x - 2 ^ 32)"
proof -
  have s: "sint x = (uint x + 2 ^ 31) mod 2 ^ 32 - 2 ^ 31"
    by (simp add: sint_uint signed_take_bit_eq_take_bit_shift take_bit_eq_mod)
  have u: "uint x < 2 ^ 32" "0 \<le> uint x" using uint_lt2p [of x] by simp_all
  show ?thesis
  proof (cases "uint x < 2 ^ 31")
    case True
    then show ?thesis using s u by simp
  next
    case False
    have "(uint x + 2 ^ 31) mod 2 ^ 32 = (uint x - 2 ^ 31 + 1 * 2 ^ 32) mod 2 ^ 32" by (simp add: add.commute)
    also have "\<dots> = uint x - 2 ^ 31" using u False by (simp only: mod_mult_self1) simp
    finally show ?thesis using s False by simp
  qed
qed
lemma uneg: "x \<noteq> 0 \<Longrightarrow> uint (- x :: u32) = 2 ^ 32 - uint x"
  using uint_lt2p [of x] uint_ge_0 [of x] 
  by (simp add: uint_word_ariths zmod_zminus1_eq_if uint_0_iff)
lemma unat_minus_neg: "(x :: u32) <s 0 \<Longrightarrow> int (unat (- x)) = - sint x"
  using uneg [of x] uint_lt2p [of x] uint_ge_0 [of x] by (cases "x = 0") (simp_all add: word_sless_alt sint32 split: if_splits)

lemma sint_nonneg: "\<not> (x :: u32) <s 0 \<Longrightarrow> sint x = int (unat x)"
  using uint_lt2p [of x] by (simp add: word_sless_alt sint32 split: if_splits)

text \<open>
  \<open>printint\<close> never overruns its buffer, and the digits it leaves there, read back, are the number.
\<close>

lemma printint_roundtrip:
  assumes "base = 10 \<or> base = 16"
  shows "\<exists>b. printint_buf xx base True = Ok b \<and> length b \<le> 16 \<and> shown (unat base) b = sint xx"
    "\<exists>b. printint_buf xx base False = Ok b \<and> length b \<le> 16 \<and> shown (unat base) b = uint xx"
proof -
  have b: "2 \<le> unat base" "unat base \<le> 16" "(2::nat) ^ 32 \<le> unat base ^ Suc 9" using assms by auto
  have d: "\<exists>ds. printint_digits 16 base x = Ok ds \<and> digits_value (unat base) ds = unat x \<and> length ds \<le> 10 \<and> 0x2d \<notin> set ds \<and> ds \<noteq> []" for x :: u32
  proof -
    have "unat x < 2 ^ 32" using unat_lt_exp [of x] by simp
    then have "unat x < unat base ^ Suc 9" using b(3) by (rule less_le_trans)
    then obtain ds where "printint_digits (Suc 9) base x = Ok ds" "digits_value (unat base) ds = unat x" "length ds \<le> 10" "0x2d \<notin> set ds" "ds \<noteq> []"
      using printint_digits_ok [OF _ b(1,2)] by fastforce
    then show ?thesis using printint_digits_mono [of "Suc 9" base x ds 6] by auto
  qed
  have plain: "shown (unat base) ds = int (digits_value (unat base) ds)" if "0x2d \<notin> set ds" for ds
    using that by (auto simp: shown_def dest: last_in_set)
  obtain ds where ds: "printint_digits 16 base xx = Ok ds" "digits_value (unat base) ds = unat xx" "length ds \<le> 10" "0x2d \<notin> set ds" using d by blast
  then show "\<exists>b. printint_buf xx base False = Ok b \<and> length b \<le> 16 \<and> shown (unat base) b = uint xx"
    using plain by (intro exI [of _ ds]) (simp add: printint_buf_def)
  show "\<exists>b. printint_buf xx base True = Ok b \<and> length b \<le> 16 \<and> shown (unat base) b = sint xx"
  proof (cases "xx <s 0")
    case True
    obtain es where es: "printint_digits 16 base (- xx) = Ok es" "digits_value (unat base) es = unat (- xx)" "length es \<le> 10" "0x2d \<notin> set es" using d by blast
    have "int (unat (- xx)) = - sint xx" using True by (rule unat_minus_neg)
    then show ?thesis using es True by (intro exI [of _ "es @ [0x2d]"]) (simp add: printint_buf_def shown_def)
  next
    case False
    then have "sint xx = int (unat xx)" by (rule sint_nonneg)
    then show ?thesis using ds plain False by (intro exI [of _ ds]) (simp add: printint_buf_def)
  qed
qed

end
