(* ===== verification/Virtio_Inv.thy ===== *)
theory Virtio_Inv
  imports Virtio Console_Inv
begin

text \<open>
  The disk driver against the contract of a block device: a call of \<open>virtio_disk_rw\<close> of
  kernel/driver/virtio_disk.c, together with the device and the interrupt handler, is the transfer of one
  block that kernel/fs/bio.c relies on.
\<close>

section \<open>The device\<close>

text \<open>
  \<open>request s h b write blk\<close>: the chain that starts at descriptor \<open>h\<close> asks for block \<open>blk\<close> to be written from, or read into,
  the data of buffer \<open>b\<close>, with the status at \<open>info[h]\<close>. A sector has 512 bytes.
\<close>

definition request :: "'a vdisk_state_scheme \<Rightarrow> nat \<Rightarrow> nat \<Rightarrow> bool \<Rightarrow> u32 \<Rightarrow> bool" where
  "request s h b write blk \<longleftrightarrow> (\<exists>pa i1 i2. h < NUM \<and> i1 < NUM \<and> i2 < NUM \<and> distinct [h, i1, i2] \<and>
     vd_desc s ! h = \<lparr>vd_addr = AddrMem pa, vd_len = 16, vd_flags = VRING_DESC_F_NEXT, vd_next = word_of_nat i1\<rparr> \<and>
     vd_desc s ! i1 = \<lparr>vd_addr = AddrBuf b, vd_len = 1024, vd_flags = (if write then 0 else VRING_DESC_F_WRITE) OR VRING_DESC_F_NEXT, vd_next = word_of_nat i2\<rparr> \<and>
     vd_desc s ! i2 = \<lparr>vd_addr = AddrStatus h, vd_len = 1, vd_flags = VRING_DESC_F_WRITE, vd_next = 0\<rparr> \<and>
     load_bytes 4 (mem s) pa = (if write then VIRTIO_BLK_T_OUT else VIRTIO_BLK_T_IN) \<and> load64 (mem s) (pa + 8) = 2 * ucast blk)"

text \<open>
  What the driver relies on: a device that finds one new entry in the ring of available chains carries
  out the request, reports status 0 and appends the chain to the ring of used ones.
\<close>

definition transfer :: "nat \<Rightarrow> bool \<Rightarrow> u32 \<Rightarrow> 'a bio_state_scheme \<Rightarrow> 'a bio_state_scheme" where
  "transfer b write blk s =
     (if write then s\<lparr>disk := (disk s)(blk := b_data (bbuf b s)), wlog := wlog s @ [(blk, b_data (bbuf b s))]\<rparr>
      else upd_buf b (\<lambda>x. x\<lparr>b_data := disk s blk\<rparr>) s)"

definition completed :: "nat \<Rightarrow> 'a vdisk_state_scheme \<Rightarrow> 'a vdisk_state_scheme" where
  "completed h s = s\<lparr>info_status := (info_status s)[h := 0],
     used_elems := (used_elems s)[unat (used_id s) mod NUM := word_of_nat h], used_id := used_id s + 1\<rparr>"

definition block_device :: "('a vdisk_state_scheme \<Rightarrow> 'a vdisk_state_scheme) \<Rightarrow> bool" where
  "block_device dev \<longleftrightarrow> (\<forall>s h b write blk. avail_idx s = used_id s + 1 \<and> avail_ring s ! (unat (used_id s) mod NUM) = word_of_nat h \<and>
     request s h b write blk \<longrightarrow> dev s = completed h (transfer b write blk s))"

text \<open>
  While the process sleeps the device serves the request and raises its interrupt, some CPU handles it,
  and the scheduler runs the process again. The lock of the process is free meanwhile.
\<close>

definition disk_serves :: "vio_hw \<Rightarrow> ('a vdisk_state_scheme \<Rightarrow> 'a vdisk_state_scheme) \<Rightarrow> nat \<Rightarrow> 'a vdisk_state_scheme \<Rightarrow> 'a vdisk_state_scheme kres" where
  "disk_serves hw dev pr s =
     kbind (virtio_disk_intr hw (dev (s\<lparr>held := {}, noff := 0\<rparr>))) (\<lambda>t.
     Ok ((upd_proc pr (\<lambda>p. p\<lparr>p_status := RUNNING\<rparr>) t)\<lparr>held := held s, noff := noff s\<rparr>))"

section \<open>Pieces of a request\<close>

text \<open>No request is in flight.\<close>

definition vd_idle :: "nat \<Rightarrow> 'a vdisk_state_scheme \<Rightarrow> bool" where
  "vd_idle pr s \<longleftrightarrow> my_proc s = Some pr \<and> pr < STATIC_PROC_NUM \<and> length (procs s) = STATIC_PROC_NUM \<and> held s = {} \<and> noff s = 0 \<and>
     p_chain (proc pr s) = NoChan \<and> vd_free s = replicate NUM True \<and> length (vd_desc s) = NUM \<and> length (avail_ring s) = NUM \<and>
     length (used_elems s) = NUM \<and> length (info_b s) = NUM \<and> length (info_status s) = NUM \<and> avail_idx s = used_id s \<and>
     used_idx s = used_id s mod 8 \<and> (\<forall>b. \<not> b_disk s b)"

abbreviation (input) busy3 :: "bool list" where
  "busy3 \<equiv> [False, False, False, True, True, True, True, True]"

lemma alloc3_idle:
  assumes "vd_free s = replicate NUM True"
  shows "alloc3_desc s = Ok (Some [0, 1, 2], s\<lparr>vd_free := busy3\<rparr>)"
  using assms by (simp add: alloc3_desc_def alloc_desc_def find_index_def eval_nat_numeral Let_def)

lemma mod8_mod8 [simp]: "(u :: u16) mod 8 mod 8 = u mod 8"
  by (simp add: word_unat_eq_iff unat_mod)

lemma index_step:
  fixes u :: u16
  shows "(u mod 8 + 1) mod 8 = (u + 1) mod 8" "u mod 8 \<noteq> (u + 1) mod 8"
proof -
  have a: "unat ((u + 1) mod 8) = (unat u + 1) mod 8"
  proof -
    have "unat (u + 1) = (unat u + 1) mod 2 ^ 16" by (simp add: unat_word_ariths)
    then show ?thesis by (simp add: unat_mod mod_mod_cancel)
  qed
  have b: "unat ((u mod 8 + 1) mod 8) = (unat u mod 8 + 1) mod 8"
  proof -
    have "unat (u mod 8 + 1) = (unat u mod 8 + 1) mod 2 ^ 16" by (simp add: unat_word_ariths unat_mod)
    then show ?thesis by (simp add: unat_mod mod_mod_cancel)
  qed
  show "(u mod 8 + 1) mod 8 = (u + 1) mod 8" unfolding word_unat_eq_iff a b by (rule mod_add_left_eq)
  show "u mod 8 \<noteq> (u + 1) mod 8"
  proof
    assume "u mod 8 = (u + 1) mod 8"
    then have "unat (u mod 8) = (unat u + 1) mod 8" using a by simp
    then have "unat u mod 8 = (unat u + 1) mod 8" by (simp add: unat_mod)
    then show False by (simp add: mod_Suc split: if_splits)
  qed
qed

text \<open>One completed request in the interrupt handler.\<close>

lemma virtio_disk_intr_one:
  assumes ctx: "VdiskLock \<notin> held s" "\<forall>i. ProcLock i \<notin> held s" "length (procs s) = STATIC_PROC_NUM"
    and ring: "used_idx s = u mod 8" "used_id s = u + 1" "used_elems s ! (unat u mod NUM) = word_of_nat h" "h < NUM"
    and info: "info_status s ! h = 0" "info_b s ! h = Some b"
  shows "\<exists>io. virtio_disk_intr hw s = Ok (s\<lparr>b_disk := (b_disk s)(b := False), procs := map (woken (BufChan b)) (procs s), used_idx := used_id s mod 8, vd_io := io\<rparr>)"
proof -
  define s1 where "s1 = s\<lparr>held := insert VdiskLock (held s), noff := Suc (noff s)\<rparr>"
  define s2 where "s2 = s1\<lparr>b_disk := (b_disk s)(b := False), procs := map (woken (BufChan b)) (procs s), used_idx := used_id s mod 8\<rparr>"
  have w: "wake_up (BufChan b) (s1\<lparr>b_disk := (b_disk s1)(b := False)\<rparr>) =
      Ok (s1\<lparr>b_disk := (b_disk s)(b := False), procs := map (woken (BufChan b)) (procs s)\<rparr>)"
    using wake_up_eq [of "s1\<lparr>b_disk := (b_disk s1)(b := False)\<rparr>" "BufChan b"] ctx by (simp add: s1_def)
  have i: "unat (u mod 8) = unat u mod 8" by (simp add: unat_mod)
  have h: "unat (word_of_nat h :: u32) = h" using ring(4) by (simp add: unat_of_nat)
  have l1: "virtio_intr_loop NUM s1 = virtio_intr_loop 7 s2"
  proof -
    have "virtio_intr_loop (Suc 7) s1 = virtio_intr_loop 7 (s1\<lparr>b_disk := (b_disk s)(b := False), procs := map (woken (BufChan b)) (procs s), used_idx := (used_idx s1 + 1) mod 8\<rparr>)"
      using w ring info i h index_step(2) [of u] by (subst virtio_intr_loop.simps) (simp add: s1_def Let_def)
    moreover have "(used_idx s1 + 1) mod 8 = used_id s mod 8" using ring index_step(1) [of u] by (simp add: s1_def)
    ultimately show ?thesis by (simp add: s2_def eval_nat_numeral)
  qed
  have l2: "virtio_intr_loop 7 s2 = Ok s2"
  proof -
    have "used_idx s2 mod 8 = used_id s2 mod 8" by (simp add: s2_def s1_def)
    then have "virtio_intr_loop (Suc 6) s2 = Ok s2" by (subst virtio_intr_loop.simps) simp
    then show ?thesis by simp
  qed
  have "insert VdiskLock (held s) - {VdiskLock} = held s" using ctx(1) by auto
  then show ?thesis using ctx(1) l1 l2
    by (intro exI [of _ "VWr 0x064 (hw (vd_io s) 0x060 AND 0x3) # VRd 0x060 (hw (vd_io s) 0x060) # vd_io s"])
      (simp add: virtio_disk_intr_def lock_simps s1_def [symmetric] read_R_def write_R_def Let_def, simp add: s2_def s1_def lock_simps)
qed

text \<open>Freeing the three descriptors of a request.\<close>

definition vd_chain :: "'a vdisk_state_scheme \<Rightarrow> nat \<Rightarrow> nat \<Rightarrow> nat \<Rightarrow> bool" where
  "vd_chain s i0 i1 i2 \<longleftrightarrow> vd_flags (vd_desc s ! i0) AND VRING_DESC_F_NEXT \<noteq> 0 \<and> unat (vd_next (vd_desc s ! i0)) = i1 \<and>
     vd_flags (vd_desc s ! i1) AND VRING_DESC_F_NEXT \<noteq> 0 \<and> unat (vd_next (vd_desc s ! i1)) = i2 \<and> vd_flags (vd_desc s ! i2) AND VRING_DESC_F_NEXT = 0"

lemma free_desc_ok:
  assumes "i < NUM" "\<not> vd_free s ! i" "\<forall>i. ProcLock i \<notin> held s" "length (procs s) = STATIC_PROC_NUM"
  shows "free_desc i s = Ok (s\<lparr>vd_desc := (vd_desc s)[i := (vd_desc s ! i)\<lparr>vd_addr := AddrNull\<rparr>], vd_free := (vd_free s)[i := True],
    procs := map (woken DiskFreeChan) (procs s)\<rparr>)"
  using assms wake_up_eq [of "(upd_desc i (\<lambda>d. d\<lparr>vd_addr := AddrNull\<rparr>) s)\<lparr>vd_free := (vd_free s)[i := True]\<rparr>" DiskFreeChan]
  by (simp add: free_desc_def upd_desc_def)

lemma desc_same:
  assumes "i < length D"
  shows "vd_flags (D[i := (D ! i)\<lparr>vd_addr := a\<rparr>] ! j) = vd_flags (D ! j)" "vd_next (D[i := (D ! i)\<lparr>vd_addr := a\<rparr>] ! j) = vd_next (D ! j)"
  using assms by (cases "i = j"; simp)+

lemma free_chain_step:
  assumes "i < NUM" "\<not> vd_free s ! i" "\<forall>i. ProcLock i \<notin> held s" "length (procs s) = STATIC_PROC_NUM" "length (vd_desc s) = NUM"
  defines "t \<equiv> s\<lparr>vd_desc := (vd_desc s)[i := (vd_desc s ! i)\<lparr>vd_addr := AddrNull\<rparr>], vd_free := (vd_free s)[i := True], procs := map (woken DiskFreeChan) (procs s)\<rparr>"
  shows "free_chain_loop (Suc n) i s = (if vd_flags (vd_desc s ! i) AND VRING_DESC_F_NEXT \<noteq> 0 then free_chain_loop n (unat (vd_next (vd_desc s ! i))) t else Ok t)"
  using free_desc_ok [OF assms(1-4)] assms(1,5) unfolding t_def by (simp add: desc_same)

lemma free_chain_ok:
  assumes ch: "vd_chain s i0 i1 i2" "i0 < NUM" "i1 < NUM" "i2 < NUM" "distinct [i0, i1, i2]"
    and fr: "\<not> vd_free s ! i0" "\<not> vd_free s ! i1" "\<not> vd_free s ! i2" "length (vd_free s) = NUM" "length (vd_desc s) = NUM"
    and ctx: "\<forall>i. ProcLock i \<notin> held s" "length (procs s) = STATIC_PROC_NUM"
  shows "\<exists>D. free_chain i0 s = Ok (s\<lparr>vd_desc := D, vd_free := (vd_free s)[i0 := True, i1 := True, i2 := True], procs := map (woken DiskFreeChan) (procs s)\<rparr>) \<and> length D = NUM"
proof -
  let ?f = "\<lambda>i s. s\<lparr>vd_desc := (vd_desc s)[i := (vd_desc s ! i)\<lparr>vd_addr := AddrNull\<rparr>], vd_free := (vd_free s)[i := True], procs := map (woken DiskFreeChan) (procs s)\<rparr>"
  have c: "vd_flags (vd_desc s ! i0) AND 1 \<noteq> 0" "unat (vd_next (vd_desc s ! i0)) = i1" "vd_flags (vd_desc s ! i1) AND 1 \<noteq> 0" "unat (vd_next (vd_desc s ! i1)) = i2"
      "vd_flags (vd_desc s ! i2) AND 1 = 0"
    using ch(1) unfolding vd_chain_def by blast+
  have n: "i0 \<noteq> i1" "i0 \<noteq> i2" "i1 \<noteq> i2" using ch(5) by auto
  define s1 where "s1 = ?f i0 s"
  define s2 where "s2 = ?f i1 s1"
  have d1: "vd_desc s1 ! i1 = vd_desc s ! i1" "vd_desc s1 ! i2 = vd_desc s ! i2" "\<not> vd_free s1 ! i1" "length (vd_desc s1) = NUM"
    using n fr ch by (simp_all add: s1_def)
  have d2: "vd_desc s2 ! i2 = vd_desc s ! i2" "\<not> vd_free s2 ! i2" "length (vd_desc s2) = NUM"
    using n fr ch d1 by (simp_all add: s2_def) (simp add: s1_def)
  have x: "\<forall>i. ProcLock i \<notin> held s1" "length (procs s1) = STATIC_PROC_NUM" "\<forall>i. ProcLock i \<notin> held s2" "length (procs s2) = STATIC_PROC_NUM"
    using ctx by (simp_all add: s2_def s1_def)
  have a: "free_chain_loop (Suc 8) i0 s = free_chain_loop 8 i1 s1"
    using free_chain_step [OF ch(2) fr(1) ctx fr(5), of 8] c by (simp add: s1_def)
  have b: "free_chain_loop (Suc 7) i1 s1 = free_chain_loop 7 i2 s2"
    using free_chain_step [OF ch(3) d1(3) x(1,2) d1(4), of 7] c d1 by (simp add: s2_def)
  have e: "free_chain_loop (Suc 6) i2 s2 = Ok (?f i2 s2)"
    using free_chain_step [OF ch(4) d2(2) x(3,4) d2(3), of 6] c d2 by simp
  have "free_chain i0 s = Ok (?f i2 s2)" unfolding free_chain_def a using b e by (simp only: eval_nat_numeral BitM.simps) 
  moreover have "?f i2 s2 = s\<lparr>vd_desc := vd_desc (?f i2 s2), vd_free := (vd_free s)[i0 := True, i1 := True, i2 := True], procs := map (woken DiskFreeChan) (procs s)\<rparr>"
    by (simp add: s2_def s1_def o_def)
  moreover have "length (vd_desc (?f i2 s2)) = NUM" using d2(3) by simp
  ultimately show ?thesis by metis
qed

text \<open>
  The address of the header is one the kernel maps to itself, and the header is not part of the page table.
  Theory Kvm shows this for the writable memory of this kernel, the stacks included.
\<close>

definition direct_mapped :: "mem \<Rightarrow> u64 \<Rightarrow> u64 \<Rightarrow> bool" where
  "direct_mapped m t va \<longleftrightarrow> table_wf m 2 t \<and> va \<le> MAX_VA \<and> pte_valid (pte_at m 2 t va) \<and>
     push_bit 12 (drop_bit 10 (pte_at m 2 t va)) + va mod PGSIZE = va \<and> off_table m t {x. unat (x - va) < 16}"

lemma unat_sub_ge:
  fixes y :: u64
  assumes "unat k \<le> unat y"
  shows "unat (y - k) = unat y - unat k"
  using assms by (intro unat_sub) (simp add: word_le_nat_alt)

lemma rw_header_same:
  assumes "\<not> unat (x - hdr) < 16"
  shows "rw_header hdr w sec m x = m x"
proof -
  have e: "x - (hdr + 4) = x - hdr - 4" "x - (hdr + 8) = x - hdr - 8" by simp_all
  have "unat (x - hdr - 4) = unat (x - hdr) - 4" "unat (x - hdr - 8) = unat (x - hdr) - 8"
    using unat_sub_ge [of 4 "x - hdr"] unat_sub_ge [of 8 "x - hdr"] assms by simp_all
  then have "\<not> unat (x - (hdr + 4)) < 4" "\<not> unat (x - (hdr + 8)) < 8" unfolding e using assms by linarith+
  then show ?thesis using assms unfolding rw_header_def store64_def store_bytes_def by simp
qed

lemma rw_header_load:
  "load_bytes 4 (rw_header hdr w sec m) hdr = (if w then VIRTIO_BLK_T_OUT else VIRTIO_BLK_T_IN)" "load64 (rw_header hdr w sec m) (hdr + 8) = sec"
proof -
  let ?v = "if w then VIRTIO_BLK_T_OUT else VIRTIO_BLK_T_IN"
  show "load64 (rw_header hdr w sec m) (hdr + 8) = sec" unfolding rw_header_def by (rule load64_store64_same)
  have "rw_header hdr w sec m (hdr + j) = store_bytes 4 m hdr ?v (hdr + j)" if "j \<in> {0, 1, 2, 3}" for j
  proof -
    have "\<not> unat (hdr + j - (hdr + 4)) < 4" "\<not> unat (hdr + j - (hdr + 8)) < 8" using that by (auto simp: unsigned_minus_1_eq_mask mask_eq_exp_minus_1)
    then show ?thesis unfolding rw_header_def store64_def by (simp add: store_bytes_def)
  qed
  note E = this [of 0] this [of 1] this [of 2] this [of 3]
  have "load_bytes 4 (rw_header hdr w sec m) hdr = (load_bytes 4 (store_bytes 4 m hdr ?v) hdr :: u32)"
    using E by (simp add: eval_nat_numeral add.assoc)
  then show "load_bytes 4 (rw_header hdr w sec m) hdr = ?v" by (simp add: load_store_bytes)
qed

lemma kvmpa_header:
  fixes s :: "'a vdisk_state_scheme"
  assumes dm: "direct_mapped (mem s) t hdr"
  shows "kvmpa t hdr (s\<lparr>mem := rw_header hdr w sec (mem s)\<rparr>) = Ok (hdr, s\<lparr>mem := rw_header hdr w sec (mem s)\<rparr>)"
proof -
  let ?m = "rw_header hdr w sec (mem s)"
  have d: "table_wf (mem s) 2 t" "hdr \<le> MAX_VA" "pte_valid (pte_at (mem s) 2 t hdr)" "push_bit 12 (drop_bit 10 (pte_at (mem s) 2 t hdr)) + hdr mod PGSIZE = hdr"
      "off_table (mem s) t {x. unat (x - hdr) < 16}"
    using dm by (simp_all add: direct_mapped_def)
  have "same_page p (mem s) ?m" if p: "p \<in> tables (mem s) 2 t" for p
    unfolding same_page_def
  proof (intro allI impI)
    fix x assume "in_page p x"
    then have "\<not> unat (x - hdr) < 16" using d(5) p unfolding off_table_def by blast
    then show "mem s x = ?m x" by (simp add: rw_header_same)
  qed
  then have f: "table_wf ?m 2 t" "pte_at ?m 2 t hdr = pte_at (mem s) 2 t hdr" "leaf_addr ?m 2 t hdr = leaf_addr (mem s) 2 t hdr"
    using tables_frame [OF d(1), of ?m hdr] by auto
  have l: "leaf_addr ?m 2 t hdr \<noteq> 0" using pte_at_leaf [OF f(1), of hdr] f(2) d(3) by (auto simp: pte_valid_def)
  then have "load64 ?m (leaf_addr ?m 2 t hdr) = pte_at (mem s) 2 t hdr" using pte_at_leaf [OF f(1), of hdr] f(2) by simp
  then show ?thesis using l d by (simp add: kvmpa_def walk_no_alloc not_less [symmetric])
qed

section \<open>A request\<close>

lemma unat_u32_u64 [simp]: "unat (ucast (x :: u32) :: u64) = unat x"
proof -
  have "unat x < 2 ^ 32" using unsigned_less [of x] by simp
  then show ?thesis by (simp add: unsigned_ucast_eq take_bit_nat_eq_self)
qed

lemma sector_of_block: "unat (blk :: u32) < 2 ^ 31 \<Longrightarrow> (ucast (blk * 2) :: u64) = 2 * ucast blk"
proof -
  assume "unat blk < 2 ^ 31"
  then have "unat (blk * 2) = unat blk * 2" by (simp add: unat_word_ariths)
  moreover have "unat (2 * ucast blk :: u64) = unat blk * 2"
  proof -
    have "unat (2 * ucast blk :: u64) = (2 * unat blk) mod 2 ^ 64" by (simp add: unat_word_ariths)
    then show ?thesis using \<open>unat blk < 2 ^ 31\<close> by simp
  qed
  ultimately show ?thesis by (simp add: word_unat_eq_iff)
qed

text \<open>What \<open>rw_submit\<close> leaves, with descriptors 0, 1 and 2.\<close>

lemma rw_submit_fields:
  fixes s :: "'a vdisk_state_scheme" and pa :: u64 and b :: nat and w :: bool
  assumes "length (vd_desc s) = NUM" "length (avail_ring s) = NUM"
  defines "t \<equiv> rw_submit 0 1 2 pa b w s"
  shows "vd_desc t = [\<lparr>vd_addr = AddrMem pa, vd_len = 16, vd_flags = VRING_DESC_F_NEXT, vd_next = 1\<rparr>,
      \<lparr>vd_addr = AddrBuf b, vd_len = 1024, vd_flags = (if w then 0 else VRING_DESC_F_WRITE) OR VRING_DESC_F_NEXT, vd_next = 2\<rparr>,
      \<lparr>vd_addr = AddrStatus 0, vd_len = 1, vd_flags = VRING_DESC_F_WRITE, vd_next = 0\<rparr>] @ drop 3 (vd_desc s)"
    "t = s\<lparr>vd_desc := vd_desc t, info_status := (info_status s)[0 := 0], b_disk := (b_disk s)(b := True), info_b := (info_b s)[0 := Some b],
       avail_ring := (avail_ring s)[unat (avail_idx s) mod NUM := 0], avail_idx := avail_idx s + 1, vd_io := VWr 0x050 0 # vd_io s\<rparr>"
proof -
  have "length (vd_desc s) = Suc (Suc (Suc 5))" using assms(1) by simp
  then obtain a0 a1 a2 D where D: "vd_desc s = a0 # a1 # a2 # D" unfolding length_Suc_conv by blast
  then show "vd_desc t = [\<lparr>vd_addr = AddrMem pa, vd_len = 16, vd_flags = VRING_DESC_F_NEXT, vd_next = 1\<rparr>,
      \<lparr>vd_addr = AddrBuf b, vd_len = 1024, vd_flags = (if w then 0 else VRING_DESC_F_WRITE) OR VRING_DESC_F_NEXT, vd_next = 2\<rparr>,
      \<lparr>vd_addr = AddrStatus 0, vd_len = 1, vd_flags = VRING_DESC_F_WRITE, vd_next = 0\<rparr>] @ drop 3 (vd_desc s)"
    unfolding t_def rw_submit_def upd_desc_def write_R_def Let_def by (simp add: numeral_2_eq_2 numeral_3_eq_3)
  show "t = s\<lparr>vd_desc := vd_desc t, info_status := (info_status s)[0 := 0], b_disk := (b_disk s)(b := True), info_b := (info_b s)[0 := Some b],
       avail_ring := (avail_ring s)[unat (avail_idx s) mod NUM := 0], avail_idx := avail_idx s + 1, vd_io := VWr 0x050 0 # vd_io s\<rparr>"
    unfolding t_def rw_submit_def upd_desc_def write_R_def Let_def by (simp add: unat_mod)
qed

text \<open>The state with one request submitted by a process that is about to sleep.\<close>

definition vd_waiting :: "nat \<Rightarrow> nat \<Rightarrow> bool \<Rightarrow> u32 \<Rightarrow> 'a vdisk_state_scheme \<Rightarrow> bool" where
  "vd_waiting pr b w blk s \<longleftrightarrow> my_proc s = Some pr \<and> pr < STATIC_PROC_NUM \<and> length (procs s) = STATIC_PROC_NUM \<and> held s = {VdiskLock} \<and> noff s = 1 \<and>
     p_chain (proc pr s) = NoChan \<and> vd_free s = busy3 \<and> length (vd_desc s) = NUM \<and> vd_chain s 0 1 2 \<and> length (avail_ring s) = NUM \<and>
     length (used_elems s) = NUM \<and> length (info_b s) = NUM \<and> length (info_status s) = NUM \<and> avail_idx s = used_id s + 1 \<and>
     avail_ring s ! (unat (used_id s) mod NUM) = 0 \<and> used_idx s = used_id s mod 8 \<and> b_disk s = (\<lambda>_. False)(b := True) \<and> info_b s ! 0 = Some b \<and>
     request s 0 b w blk"

lemma submitted:
  fixes s :: "'a vdisk_state_scheme" and hdr :: u64 and w :: bool
  assumes idle: "vd_idle pr s" and blk: "unat blk < 2 ^ 31"
  defines "s1 \<equiv> s\<lparr>held := {VdiskLock}, noff := 1, vd_free := busy3, mem := rw_header hdr w (ucast (blk * 2)) (mem s)\<rparr>"
  shows "vd_waiting pr b w blk (rw_submit 0 1 2 hdr b w s1)"
proof -
  let ?t = "rw_submit 0 1 2 hdr b w s1"
  have i: "my_proc s = Some pr" "pr < 64" "length (procs s) = 64" "p_chain (proc pr s) = NoChan" "length (vd_desc s) = 8" "length (avail_ring s) = 8"
      "length (used_elems s) = 8" "length (info_b s) = 8" "length (info_status s) = 8" "avail_idx s = used_id s" "used_idx s = used_id s mod 8" "b_disk s = (\<lambda>_. False)"
    using idle by (auto simp: vd_idle_def)
  have l: "length (vd_desc s1) = 8" "length (avail_ring s1) = 8" using i by (simp_all add: s1_def)
  note D = rw_submit_fields(1) [OF l, of hdr b w] and T = rw_submit_fields(2) [OF l, of hdr b w]
  have "my_proc ?t = my_proc s" by (subst T) (simp add: s1_def my_proc_def)
  moreover have f: "procs ?t = procs s" "held ?t = {VdiskLock}" "noff ?t = 1" "vd_free ?t = busy3" "mem ?t = rw_header hdr w (ucast (blk * 2)) (mem s)"
      "avail_ring ?t = (avail_ring s)[unat (used_id s) mod NUM := 0]" "avail_idx ?t = used_id s + 1" "used_id ?t = used_id s" "used_idx ?t = used_id s mod 8"
      "used_elems ?t = used_elems s" "info_b ?t = (info_b s)[0 := Some b]" "info_status ?t = (info_status s)[0 := 0]" "b_disk ?t = (\<lambda>_. False)(b := True)"
    by (subst T; simp add: s1_def i)+
  have n: "vd_desc ?t ! 0 = \<lparr>vd_addr = AddrMem hdr, vd_len = 16, vd_flags = VRING_DESC_F_NEXT, vd_next = 1\<rparr>"
      "vd_desc ?t ! 1 = \<lparr>vd_addr = AddrBuf b, vd_len = 1024, vd_flags = (if w then 0 else VRING_DESC_F_WRITE) OR VRING_DESC_F_NEXT, vd_next = 2\<rparr>"
      "vd_desc ?t ! 2 = \<lparr>vd_addr = AddrStatus 0, vd_len = 1, vd_flags = VRING_DESC_F_WRITE, vd_next = 0\<rparr>" "length (vd_desc ?t) = 8"
    unfolding D using l by simp_all
  have r: "request ?t 0 b w blk" unfolding request_def
    by (rule exI [of _ hdr], rule exI [of _ "1 :: nat"], rule exI [of _ "2 :: nat"], unfold n f(5) rw_header_load sector_of_block [OF blk]) simp
  have c: "vd_chain ?t 0 1 2" unfolding vd_chain_def n by simp
  have m: "unat (used_id s) mod 8 < 8" by simp
  ultimately show ?thesis unfolding vd_waiting_def f using i r c n(4) m by simp
qed

text \<open>The device serves the request while the process sleeps.\<close>

lemma served:
  fixes s :: "'a vdisk_state_scheme"
  assumes wt: "vd_waiting pr b w blk s" and dev: "block_device dev" and b: "b < length (bufs s)"
  shows "\<exists>t. sleep (disk_serves hw dev pr) VdiskLock (BufChan b) s = Ok t \<and> bufs t = bufs (transfer b w blk s) \<and> disk t = disk (transfer b w blk s) \<and>
    wlog t = wlog (transfer b w blk s) \<and> mem t = mem s \<and> my_proc t = Some pr \<and> length (procs t) = STATIC_PROC_NUM \<and> held t = {VdiskLock} \<and> noff t = 1 \<and>
    p_chain (proc pr t) = NoChan \<and> vd_free t = busy3 \<and> vd_desc t = vd_desc s \<and> length (avail_ring t) = NUM \<and> length (used_elems t) = NUM \<and>
    length (info_b t) = NUM \<and> length (info_status t) = NUM \<and> avail_idx t = used_id t \<and> used_idx t = used_id t mod 8 \<and> b_disk t = (\<lambda>_. False)"
proof -
  have i: "my_proc s = Some pr" "pr < 64" "length (procs s) = 64" "held s = {VdiskLock}" "noff s = 1" "p_chain (proc pr s) = NoChan" "vd_free s = busy3"
      "length (avail_ring s) = 8" "length (used_elems s) = 8" "length (info_b s) = 8" "length (info_status s) = 8" "avail_idx s = used_id s + 1"
      "avail_ring s ! (unat (used_id s) mod 8) = 0" "used_idx s = used_id s mod 8" "b_disk s = (\<lambda>_. False)(b := True)" "info_b s ! 0 = Some b" "request s 0 b w blk"
    using wt unfolding vd_waiting_def by blast+
  define z where "z = upd_proc pr (\<lambda>q. q\<lparr>p_status := SLEEP, p_chain := BufChan b\<rparr>) (s\<lparr>held := {ProcLock pr}, noff := 1\<rparr>)"
  define y where "y = z\<lparr>held := {}, noff := 0\<rparr>"
  have y: "avail_idx y = used_id y + 1" "avail_ring y ! (unat (used_id y) mod 8) = word_of_nat 0" "request y 0 b w blk" "used_id y = used_id s"
    using i(12,13,17) by (simp_all add: y_def z_def upd_proc_def request_def)
  have d: "dev y = completed 0 (transfer b w blk y)" using dev y(1-3) unfolding block_device_def by blast
  define x where "x = completed 0 (transfer b w blk y)"
  have x: "held x = {}" "procs x = procs z" "used_idx x = used_id s mod 8" "used_id x = used_id s + 1" "used_elems x ! (unat (used_id s) mod 8) = word_of_nat 0"
      "info_status x ! 0 = 0" "info_b x ! 0 = Some b" "b_disk x = b_disk s" "length (used_elems x) = 8" "length (info_status x) = 8"
    using i by (simp_all add: x_def completed_def transfer_def upd_buf_def y_def z_def upd_proc_def)
  have p: "length (procs x) = 64" "proc pr x = (proc pr s)\<lparr>p_status := SLEEP, p_chain := BufChan b\<rparr>"
    using i(2,3) unfolding x(2) by (simp_all add: z_def proc_upd_proc)
  have pre: "VdiskLock \<notin> held x" "\<forall>i. ProcLock i \<notin> held x" "(0 :: nat) < 8" by (simp_all add: x(1))
  obtain io where io: "virtio_disk_intr hw x = Ok (x\<lparr>b_disk := (b_disk x)(b := False), procs := map (woken (BufChan b)) (procs x), used_idx := used_id x mod 8, vd_io := io\<rparr>)"
    using virtio_disk_intr_one [OF pre(1,2) p(1) x(3,4,5) pre(3) x(6,7), of hw] by blast
  define v where "v = x\<lparr>b_disk := (b_disk x)(b := False), procs := map (woken (BufChan b)) (procs x), used_idx := used_id x mod 8, vd_io := io\<rparr>"
  define t where "t = (upd_proc pr (\<lambda>p. p\<lparr>p_status := RUNNING\<rparr>) v)\<lparr>held := {ProcLock pr}, noff := 1\<rparr>"
  have hz: "held z = {ProcLock pr}" "noff z = 1" by (simp_all add: z_def)
  have sw: "disk_serves hw dev pr z = Ok t" unfolding disk_serves_def y_def [symmetric] d x_def [symmetric] io by (simp add: t_def v_def hz)
  have t: "held t = {ProcLock pr}" "noff t = 1" by (simp_all add: t_def)
  have sl: "sleep (disk_serves hw dev pr) VdiskLock (BufChan b) s = Ok (t\<lparr>held := {VdiskLock}, noff := 1\<rparr>)"
    using i(1,6,4,5) by (rule sleep_through) (use sw [unfolded z_def] t in simp_all)
  have c: "p_chain (proc pr t) = NoChan" using p i(2) by (simp add: t_def v_def proc_upd_proc woken_def)
  have e: "bufs t = bufs (transfer b w blk s)" "disk t = disk (transfer b w blk s)" "wlog t = wlog (transfer b w blk s)" "mem t = mem s" "my_proc t = my_proc s"
      "vd_free t = vd_free s" "vd_desc t = vd_desc s" "avail_ring t = avail_ring s" "info_b t = info_b s" "avail_idx t = avail_idx s"
    by (simp_all add: t_def v_def x_def completed_def transfer_def upd_buf_def y_def z_def upd_proc_def my_proc_def)
  have g: "length (used_elems t) = 8" "length (info_status t) = 8" "length (procs t) = 64" "used_id t = used_id s + 1" "used_idx t = used_id t mod 8" "b_disk t = (\<lambda>_. False)"
    using i(15) p(1) x(4,8-10) by (simp_all add: t_def v_def upd_proc_def fun_eq_iff)
  show ?thesis
    using sl c e g i by (intro exI [of _ "t\<lparr>held := {VdiskLock}, noff := 1\<rparr>"]) (simp add: my_proc_def)
qed

section \<open>Properties\<close>

text \<open>
  C36: the disk driver implements one block transfer. With no request in flight, and a device that
  carries out the chain it finds in the ring of available descriptors and raises its interrupt,
  \<open>virtio_disk_rw\<close> returns; buffers, disk and the order of writes are those of the transfer that the buffer
  cache assumes (a read fills the buffer with the block, a write stores it); the three descriptors are
  free again, the rings agree, no lock is held, and of memory only the 16 bytes of the request header
  changed. The ring indices may wrap.
\<close>

theorem virtio_disk_rw_refines:
  fixes s :: "'a vdisk_state_scheme"
  assumes idle: "vd_idle pr s" and b: "b < length (bufs s)" "unat (b_blockno (bbuf b s)) < 2 ^ 31"
    and dm: "direct_mapped (mem s) (kernel_page_table s) hdr" and dev: "block_device dev"
  shows "\<exists>t. virtio_disk_rw [disk_serves hw dev pr] hdr b w s = Ok t \<and> vd_idle pr t \<and>
    bufs t = bufs (Bio.virtio_disk_rw b w s) \<and> disk t = disk (Bio.virtio_disk_rw b w s) \<and> wlog t = wlog (Bio.virtio_disk_rw b w s) \<and>
    (\<forall>x. \<not> unat (x - hdr) < 16 \<longrightarrow> mem t x = mem s x)"
proof -
  let ?blk = "b_blockno (bbuf b s)" and ?sec = "ucast (b_blockno (bbuf b s) * 2) :: u64"
  have i: "my_proc s = Some pr" "pr < 64" "length (procs s) = 64" "held s = {}" "noff s = 0" "vd_free s = replicate NUM True" using idle by (simp_all add: vd_idle_def)
  define s0 where "s0 = s\<lparr>held := {VdiskLock}, noff := 1\<rparr>"
  define s1 where "s1 = s\<lparr>held := {VdiskLock}, noff := 1, vd_free := busy3, mem := rw_header hdr w ?sec (mem s)\<rparr>"
  define s2 where "s2 = rw_submit 0 1 2 hdr b w s1"
  have a: "acquire VdiskLock s = Ok s0" using i(4,5) by (simp add: s0_def lock_simps)
  have al: "rw_alloc env s0 = Ok ([0, 1, 2], env, s0\<lparr>vd_free := busy3\<rparr>)" for env
    using alloc3_idle [of s0] i(6) by (subst rw_alloc.simps) (simp add: s0_def)
  have e1: "(s0\<lparr>vd_free := busy3\<rparr>)\<lparr>mem := rw_header hdr w ?sec (mem (s0\<lparr>vd_free := busy3\<rparr>))\<rparr> = s1" by (simp add: s0_def s1_def)
  have k: "kvmpa (kernel_page_table s1) hdr s1 = Ok (hdr, s1)"
    using kvmpa_header [of "s\<lparr>held := {VdiskLock}, noff := 1, vd_free := busy3\<rparr>" "kernel_page_table s" hdr w ?sec] dm by (simp add: s1_def)
  have wt: "vd_waiting pr b w ?blk s2" unfolding s2_def s1_def by (rule submitted [OF idle b(2)])
  have f2: "bufs s2 = bufs s" "disk s2 = disk s" "wlog s2 = wlog s" "mem s2 = rw_header hdr w ?sec (mem s)" "vd_free s2 = busy3"
    by (simp_all add: s2_def s1_def rw_submit_def upd_desc_def write_R_def Let_def)
  obtain t where t: "sleep (disk_serves hw dev pr) VdiskLock (BufChan b) s2 = Ok t" "bufs t = bufs (transfer b w ?blk s2)" "disk t = disk (transfer b w ?blk s2)"
      "wlog t = wlog (transfer b w ?blk s2)" "mem t = mem s2" "my_proc t = Some pr" "length (procs t) = 64" "held t = {VdiskLock}" "noff t = 1"
      "p_chain (proc pr t) = NoChan" "vd_free t = busy3" "vd_desc t = vd_desc s2" "length (avail_ring t) = 8" "length (used_elems t) = 8"
      "length (info_b t) = 8" "length (info_status t) = 8" "avail_idx t = used_id t" "used_idx t = used_id t mod 8" "b_disk t = (\<lambda>_. False)"
    using served [OF wt dev, of hw] b(1) f2(1) by auto
  have w1: "rw_wait [disk_serves hw dev pr] b s2 = Ok t"
  proof -
    have "b_disk s2 b" using wt by (simp add: vd_waiting_def)
    then show ?thesis using t(1,19) by (subst rw_wait.simps) (simp add: rw_wait.simps)
  qed
  define u where "u = t\<lparr>info_b := (info_b t)[0 := None]\<rparr>"
  have ch: "vd_chain u 0 1 2" "length (vd_desc u) = 8" using wt t(12) by (simp_all add: u_def vd_waiting_def vd_chain_def)
  have fr: "\<not> vd_free u ! 0" "\<not> vd_free u ! 1" "\<not> vd_free u ! 2" "length (vd_free u) = 8" "\<forall>i. ProcLock i \<notin> held u" "length (procs u) = 64" using t by (simp_all add: u_def)
  obtain D where D: "free_chain 0 u = Ok (u\<lparr>vd_desc := D, vd_free := (vd_free u)[0 := True, 1 := True, 2 := True], procs := map (woken DiskFreeChan) (procs u)\<rparr>)" "length D = 8"
    using free_chain_ok [OF ch(1) _ _ _ _ fr(1-4) ch(2) fr(5,6)] by auto
  define v where "v = u\<lparr>vd_desc := D, vd_free := replicate NUM True, procs := map (woken DiskFreeChan) (procs u), held := {}, noff := 0\<rparr>"
  have "(vd_free u)[0 := True, 1 := True, 2 := True] = replicate NUM True" using t(11) by (simp add: u_def eval_nat_numeral)
  then have rl: "kbind (free_chain 0 u) (release VdiskLock) = Ok v" using D(1) t(8,9) by (simp add: u_def v_def lock_simps)
  have run: "virtio_disk_rw [disk_serves hw dev pr] hdr b w s = Ok v"
  proof -
    have n: "[0, 1, 2] ! 0 = (0 :: nat)" "[0, 1, 2] ! 1 = (1 :: nat)" "[0, 1, 2] ! 2 = (2 :: nat)" by simp_all
    show ?thesis unfolding virtio_disk_rw_def Let_def by (simp only: a al kbind.simps prod.case e1 k n s2_def [symmetric] w1 u_def [symmetric] rl)
  qed
  have "vd_idle pr v" unfolding vd_idle_def
    using t i(2) D(2) by (simp add: v_def u_def my_proc_def woken_other)
  moreover have "bufs v = bufs (Bio.virtio_disk_rw b w s)" "disk v = disk (Bio.virtio_disk_rw b w s)" "wlog v = wlog (Bio.virtio_disk_rw b w s)"
    using t(2-4) f2 by (simp_all add: v_def u_def Bio.virtio_disk_rw_def transfer_def upd_buf_def Let_def)
  moreover have "\<forall>x. \<not> unat (x - hdr) < 16 \<longrightarrow> mem v x = mem s x" using t(5) f2(4) by (simp add: v_def u_def rw_header_same)
  ultimately show ?thesis using run by blast
qed

text \<open>A device that follows the chains.\<close>

definition sample_device :: "'a vdisk_state_scheme \<Rightarrow> 'a vdisk_state_scheme" where
  "sample_device s =
     (let h = unat (avail_ring s ! (unat (used_id s) mod NUM));
          d0 = vd_desc s ! h;
          d1 = vd_desc s ! unat (vd_next d0) in
      case (vd_addr d0, vd_addr d1) of
        (AddrMem pa, AddrBuf b) \<Rightarrow>
          completed h (transfer b (load_bytes 4 (mem s) pa = VIRTIO_BLK_T_OUT) (ucast (load64 (mem s) (pa + 8) div 2)) s)
      | _ \<Rightarrow> s)"

lemma half_double: "(ucast ((2 * ucast (x :: u32) :: u64) div 2) :: u32) = x"
proof -
  have "unat (2 * ucast x :: u64) = 2 * unat x"
  proof -
    have "unat x < 2 ^ 32" using unsigned_less [of x] by simp
    then show ?thesis by (simp add: unat_word_ariths)
  qed
  then have "unat ((2 * ucast x :: u64) div 2) = unat x" by (simp add: unat_div)
  then have "(2 * ucast x :: u64) div 2 = ucast x" by (simp add: word_unat_eq_iff)
  moreover have "(ucast (ucast x :: u64) :: u32) = x" by (rule bit_word_eqI) (simp add: bit_simps)
  ultimately show ?thesis by simp
qed

lemma sample_device: "block_device sample_device"
  unfolding block_device_def
proof (intro allI impI, elim conjE)
  fix s :: "'a vdisk_state_scheme" and h b wr blk
  assume ring: "avail_ring s ! (unat (used_id s) mod NUM) = word_of_nat h" and r: "request s h b wr blk"
  obtain pa i1 where q: "h < 8" "i1 < 8" "vd_desc s ! h = \<lparr>vd_addr = AddrMem pa, vd_len = 16, vd_flags = VRING_DESC_F_NEXT, vd_next = word_of_nat i1\<rparr>"
      "vd_addr (vd_desc s ! i1) = AddrBuf b" "load_bytes 4 (mem s) pa = (if wr then VIRTIO_BLK_T_OUT else VIRTIO_BLK_T_IN)" "load64 (mem s) (pa + 8) = 2 * ucast blk"
    using r unfolding request_def by fastforce
  have "unat (word_of_nat h :: u16) = h" "unat (word_of_nat i1 :: u16) = i1" using q(1,2) by (simp_all add: unat_of_nat)
  then show "sample_device s = completed h (transfer b wr blk s)"
    using q unfolding sample_device_def ring by (simp add: half_double)
qed

definition vd_example :: "mem \<Rightarrow> vdisk_state" where
  "vd_example m = console_state.extend
     ((console_example m)\<lparr>kernel_page_table := tiny_root, disk := (\<lambda>b. replicate BSIZE (ucast b)), bufs := (replicate NBUF zero_buf)[3 := zero_buf\<lparr>b_blockno := 9\<rparr>]\<rparr>)
     (vdisk_state.fields (replicate NUM \<lparr>vd_addr = AddrNull, vd_len = 0, vd_flags = 0, vd_next = 0\<rparr>) (-1) (replicate NUM 0) (-1) (replicate NUM 0)
        (replicate NUM True) 7 (replicate NUM None) (replicate NUM 0) (\<lambda>_. False) [])"

lemma vd_example_idle:
  "vd_idle 0 (vd_example m)" "mem (vd_example m) = m" "kernel_page_table (vd_example m) = tiny_root" "length (bufs (vd_example m)) = NBUF"
  "b_blockno (bbuf 3 (vd_example m)) = 9" "disk (vd_example m) 9 = replicate BSIZE 9"
proof -
  note d = vd_example_def vdisk_state.defs console_state.defs
  have w: "(7 :: u16) = (-1) mod 8" by (simp add: word_unat_eq_iff unat_mod unsigned_minus_1_eq_mask mask_eq_exp_minus_1)
  show "vd_idle 0 (vd_example m)"
    using console_example_ctx(1) [of m] by (simp add: vd_idle_def tx_process_def d my_proc_def w [symmetric])
  show "mem (vd_example m) = m" using console_example_ctx(10) [of m] by (simp add: d)
  show "kernel_page_table (vd_example m) = tiny_root" "length (bufs (vd_example m)) = NBUF"
    "b_blockno (bbuf 3 (vd_example m)) = 9" "disk (vd_example m) 9 = replicate BSIZE 9" by (simp_all add: d NBUF_def)
qed

lemma tiny_direct: "\<exists>m. direct_mapped m tiny_root 0x80000000"
proof -
  let ?attr = "PTE_R OR PTE_W"
  let ?e = "MAKE_PTE 0x80000000 (?attr OR PTE_V)"
  obtain s F where s: "table_step 2 tiny_root tiny_vm {0x87ffe000, 0x87fff000} s F" "lookup s tiny_root = [0x80000 \<mapsto> ?e]"
    using tiny_map_page [of "0x80000" "0x80000000" ?attr] by auto
  have m: "(0x80000000 :: u64) \<le> MAX_VA" by (simp add: layout_simps)
  have p: "pte_valid (pte_at (mem s) 2 tiny_root 0x80000000) \<and> pte_at (mem s) 2 tiny_root 0x80000000 = ?e"
    using lookup_va [OF m, of s tiny_root] s(2) by (auto split: if_splits)
  note pv = conjunct1 [OF p, unfolded conjunct2 [OF p]]
  have t: "table_wf (mem s) 2 tiny_root" "tables (mem s) 2 tiny_root \<subseteq> {tiny_root, 0x87ffe000, 0x87fff000}"
    using s(1) tiny_tables by (auto simp: table_step_def)
  have "off_table (mem s) tiny_root {x. unat (x - 0x80000000) < 16}"
  proof (rule tiny_off_table [OF t(2)])
    fix x :: u64 assume "x \<in> {x. unat (x - 0x80000000) < 16}"
    then have "unat (x - 0x80000000) < 16" by simp
    then have "unat ((x - 0x80000000) + 0x80000000) = unat (x - 0x80000000) + 0x80000000"
      by (subst unat_add_no_wrap) simp_all
    then show "unat x < 0x87ffd000" using \<open>unat (x - 0x80000000) < 16\<close> by simp
  qed
  moreover have "push_bit 12 (drop_bit 10 ?e) = (0x80000000 :: u64)"
    by (simp add: MAKE_PTE_def push_bit_eq_mult drop_bit_eq_div pte_flag_consts PTE_PPN_MASK_def PTE_ATTRIBUTE_MASK_def)
  ultimately show ?thesis using t(1) m pv conjunct2 [OF p] by (intro exI [of _ "mem s"]) (simp add: direct_mapped_def layout_simps)
qed

theorem virtio_disk_rw_refines_witness:
  "\<exists>m t. virtio_disk_rw [disk_serves (\<lambda>_ _. 1) sample_device 0] 0x80000000 3 False (vd_example m) = Ok t \<and> vd_idle 0 t \<and> b_data (bbuf 3 t) = replicate BSIZE 9"
proof -
  obtain m where m: "direct_mapped m tiny_root 0x80000000" using tiny_direct by blast
  note E = vd_example_idle [of m]
  have dm: "direct_mapped (mem (vd_example m)) (kernel_page_table (vd_example m)) 0x80000000" using m E by simp
  obtain t where t: "virtio_disk_rw [disk_serves (\<lambda>_ _. 1) sample_device 0] 0x80000000 3 False (vd_example m) = Ok t" "vd_idle 0 t"
      "bufs t = bufs (Bio.virtio_disk_rw 3 False (vd_example m))"
    using virtio_disk_rw_refines [OF E(1) _ _ dm sample_device, of 3 "\<lambda>_ _. 1" False] E by (auto simp: NBUF_def)
  have "b_data (bbuf 3 t) = replicate BSIZE 9" unfolding t(3) using E(4-6) by (simp add: Bio.virtio_disk_rw_def upd_buf_def NBUF_def)
  then show ?thesis using t by blast
qed

end
