(* ===== verification/Kvm.thy ===== *)
theory Kvm
  imports Virtio_Inv
begin

text \<open>
  The kernel's own address space: kernel/vm/kvm.c, with \<open>init_page_table\<close> of include/vm/vm.h and the layouts of
  include/vm/memory_layout.h, include/riscv/clint.h, include/riscv/plic.h, include/driver/uart.h and include/fs/memlayout.h. The
  end of the code, \<open>etext\<close>, is a symbol of the linker and an argument; \<open>user_trap_entry_addr\<close> is a member of
  the state. The lemmas bound the pages that a run of mappings takes, so that building the table succeeds
  for certain when enough pages are free.
\<close>

section \<open>Operations\<close>

text \<open>\<open>None\<close>: no page was free, and \<open>*pgtable\<close> keeps its value.\<close>

definition init_page_table :: "'a vm_state_scheme \<Rightarrow> (u64 option \<times> 'a vm_state_scheme) kres" where
  "init_page_table s = kbind (get_clear_page s) (\<lambda>(pg, s). Ok (if pg = 0 then None else Some pg, s))"

record region =
  r_va :: u64
  r_pages :: int
  r_pa :: u64
  r_attr :: u64

text \<open>The arguments of the calls of \<open>map_n_pages\<close>, in order.\<close>

definition kvm_regions :: "u64 \<Rightarrow> u64 \<Rightarrow> region list" where
  "kvm_regions etext user_trap_entry =
     [\<lparr>r_va = 0x2000000, r_pages = uint (ROUND_UP_PGSIZE 0x10000 div PGSIZE), r_pa = 0x2000000, r_attr = PTE_R OR PTE_W\<rparr>,
      \<lparr>r_va = 0x0c000000, r_pages = uint (ROUND_UP_PGSIZE 0x4000000 div PGSIZE), r_pa = 0x0c000000, r_attr = PTE_R OR PTE_W\<rparr>,
      \<lparr>r_va = 0x10000000, r_pages = uint (ROUND_UP_PGSIZE 0x100 div PGSIZE), r_pa = 0x10000000, r_attr = PTE_R OR PTE_W\<rparr>,
      \<lparr>r_va = 0x10001000, r_pages = uint PGSIZE, r_pa = 0x10001000, r_attr = PTE_R OR PTE_W\<rparr>,
      \<lparr>r_va = KERNEL_BASE, r_pages = uint ((etext - KERNEL_BASE) div PGSIZE), r_pa = KERNEL_BASE, r_attr = PTE_R OR PTE_X\<rparr>,
      \<lparr>r_va = etext, r_pages = uint ((MEMORY_END - etext) div PGSIZE), r_pa = etext, r_attr = PTE_R OR PTE_W\<rparr>,
      \<lparr>r_va = TRAMPOLINE_BASE, r_pages = 1, r_pa = ROUND_DOWN_PGSIZE user_trap_entry, r_attr = PTE_R OR PTE_X\<rparr>]"

text \<open>The calls one after the other; the first component is whether \<open>map_err\<close> is not zero.\<close>

fun map_regions :: "u64 \<Rightarrow> region list \<Rightarrow> bool \<Rightarrow> 'a vm_state_scheme \<Rightarrow> (bool \<times> 'a vm_state_scheme) kres" where
  "map_regions t [] map_err s = Ok (map_err, s)"
| "map_regions t (r # rs) map_err s =
     kbind (map_n_pages t (r_va r) (r_pages r) (r_pa r) (r_attr r) s) (\<lambda>(err, s). map_regions t rs (map_err \<or> err \<noteq> 0) s)"

definition kvm_init :: "u64 \<Rightarrow> 'a kernel_state_scheme \<Rightarrow> 'a kernel_state_scheme kres" where
  "kvm_init etext s =
     kbind (init_page_table s) (\<lambda>(pt, s).
     case pt of
       None \<Rightarrow> Panic ''kvm_init: fail to init kernel_page_table''
     | Some pt \<Rightarrow>
         let s = s\<lparr>kernel_page_table := pt\<rparr> in
         if etext mod PGSIZE \<noteq> 0 then Panic ''kvm_init: etext is not aligned to PGSIZE''
         else
           kbind (map_regions pt (kvm_regions etext (user_trap_entry_addr s)) False s) (\<lambda>(map_err, s).
           if map_err then Panic ''kvm_init: kernel_page_table init fail'' else Ok s))"

section \<open>Pages of tables that a run of mappings takes\<close>

text \<open>A leaf table serves 512 pages: once one of them is mapped, mapping another allocates nothing.\<close>

lemma leaf_addr_same_table:
  assumes "table_wf m 2 t" "vpn va (Suc 0) = vpn w (Suc 0)" "vpn va 2 = vpn w 2" "leaf_addr m 2 t va \<noteq> 0"
  shows "leaf_addr m 2 t w \<noteq> 0"
proof -
  have c: "table_wf m 0 u \<Longrightarrow> entry u (vpn w 0) \<noteq> 0" for u by (simp add: entry_nonzero)
  show ?thesis
    using assms table_wf_child [of m 1 t, OF _ vpn_less] table_wf_child [of m 0 _, OF _ vpn_less] c
    by (auto simp: numeral_2_eq_2 Let_def split: if_splits)
qed

lemma vpn_same_table:
  assumes "unat va div 4096 div 512 = unat w div 4096 div 512"
  shows "vpn va (Suc 0) = vpn w (Suc 0)" "vpn va 2 = vpn w 2"
proof -
  have "unat va div 2097152 = unat w div 2097152" using assms by (simp add: div_mult2_eq [symmetric])
  moreover have "unat x div 1073741824 = unat x div 2097152 div 512" for x :: u64 by (simp add: div_mult2_eq [symmetric])
  ultimately show "vpn va (Suc 0) = vpn w (Suc 0)" "vpn va 2 = vpn w 2" by (simp_all add: vpn_div)
qed

definition warm :: "'a vm_state_scheme \<Rightarrow> u64 \<Rightarrow> nat \<Rightarrow> bool" where
  "warm s t k \<longleftrightarrow> (\<exists>j. j div 512 = k div 512 \<and> lookup s t j \<noteq> None)"

lemma map_page_warm:
  assumes ok: "space_ok s t F" and va: "va \<le> MAX_VA" and un: "lookup s t (unat va div 4096) = None"
    and w: "warm s t (unat va div 4096)"
  shows "kok (\<lambda>(err, s'). err = 0 \<and> table_step 2 t s F s' F \<and>
    lookup s' t = (lookup s t)(unat va div 4096 \<mapsto> MAKE_PTE pa (attr OR PTE_V))) (map_page t va pa attr s)"
proof -
  let ?v = "MAKE_PTE pa (attr OR PTE_V)" and ?a = "leaf_addr (mem s) 2 t va"
  obtain j e where j: "j div 512 = unat va div 4096 div 512" "lookup s t j = Some e" using w by (auto simp: warm_def)
  have jk: "j < 2 ^ 26" using j(2) by (simp add: lookup_def split: if_splits)
  note pj = page_va_page [OF jk]
  have "leaf_addr (mem s) 2 t (page_va j) \<noteq> 0" using lookup_leaf [OF ok, of "page_va j" e] pj j(2) by simp
  then have la: "?a \<noteq> 0"
    using leaf_addr_same_table [of "mem s" t "page_va j" va] vpn_same_table [of "page_va j" va] pj j(1) ok by (simp add: space_ok_def)
  have nv: "\<not> pte_valid (load64 (mem s) ?a)" using lookup_no_leaf [OF ok va un] la by blast
  have v: "pte_valid ?v" by (rule pte_valid_MAKE_PTE) (simp add: pte_flag_consts bit_simps)
  define s' where "s' = s\<lparr>mem := store64 (mem s) ?a ?v\<rparr>"
  note sl = store_leaf_step [OF ok la s'_def]
  have "lookup s' t = (lookup s t)(unat va div 4096 \<mapsto> ?v)" using lookup_update [OF va, of s' t ?v s] sl v by simp
  moreover have "map_page t va pa attr s = Ok (0, s')"
    using la nv va walk_loop_present [OF la, of True] by (simp add: map_page_def walk_def s'_def not_less)
  ultimately show ?thesis using sl by simp
qed

text \<open>
  Two pages are enough for every leaf table a run enters: one for it, one for the table above. \<open>w\<close>: the
  first leaf table is there already.
\<close>

definition run_cost :: "nat \<Rightarrow> nat \<Rightarrow> bool \<Rightarrow> nat" where
  "run_cost k n w = 2 * ((k + n + 511) div 512 - (k div 512 + (if w then 1 else 0)))"

lemma map_page_cost:
  assumes "space_ok s t F" "va \<le> MAX_VA" "lookup s t (unat va div 4096) = None"
    and "w \<Longrightarrow> warm s t (unat va div 4096)" "(if w then 0 else 2) \<le> card F"
  shows "kok (\<lambda>(err, s'). err = 0 \<and> (\<exists>F'. table_step 2 t s F s' F' \<and> card F \<le> card F' + (if w then 0 else 2)) \<and>
    lookup s' t = (lookup s t)(unat va div 4096 \<mapsto> MAKE_PTE pa (attr OR PTE_V))) (map_page t va pa attr s)"
proof (cases w)
  case True
  then have "warm s t (unat va div 4096)" using assms(4) by blast
  from map_page_warm [OF assms(1-3) this] show ?thesis by (rule kok_mono) (use True in auto)
next
  case False
  with map_page_spec [OF assms(1-3), of pa attr] assms(5) show ?thesis
    by (auto simp: kok_def map_post_def split: kres.splits if_splits)
qed

lemma run_cost_step:
  assumes "w' = ((k + 1) div 512 = k div 512)"
  shows "run_cost (k + 1) n w' + (if w then 0 else 2) \<le> run_cost k (Suc n) w"
proof -
  have a: "k div 512 < (k + Suc n + 511) div 512"
    using div_le_mono [of "k + 512" "k + Suc n + 511" 512] by simp
  have b: "(k + 1) div 512 = k div 512 \<or> (k + 1) div 512 = k div 512 + 1" by (simp add: div_Suc)
  define A where "A = (k + Suc n + 511) div 512"
  have "run_cost (k + 1) n w' = 2 * (A - (k div 512 + 1))" using b assms by (auto simp: run_cost_def A_def)
  moreover have "run_cost k (Suc n) w = 2 * (A - (k div 512 + (if w then 1 else 0)))" by (simp add: run_cost_def A_def)
  moreover have "k div 512 < A" using a by (simp add: A_def)
  ultimately show ?thesis by (cases w) simp_all
qed

lemma map_n_loop_enough:
  assumes "space_ok s t F" "unat va div 4096 = k" "k + n \<le> 2 ^ 26"
    and "\<And>j. j < n \<Longrightarrow> lookup s t (k + j) = None" and "w \<Longrightarrow> warm s t k" "run_cost k n w \<le> card F"
  shows "kok (\<lambda>(err, s'). err = 0 \<and> (\<exists>F'. table_step 2 t s F s' F' \<and> card F \<le> card F' + run_cost k n w) \<and>
    lookup s' t = remap (\<lambda>j. Some (MAKE_PTE (pa + 4096 * word_of_nat j) (attr OR PTE_V))) k n (lookup s t))
    (map_n_loop n i t va0 va pa attr s)"
  using assms
proof (induction n arbitrary: s F va k pa i w)
  case 0
  then show ?case using table_step_refl [of s 2 t F] by (auto simp: space_ok_def)
next
  case (Suc n)
  have va: "va \<le> MAX_VA" using Suc.prems(2,3) by (simp add: MAX_VA_page)
  have un: "lookup s t (unat va div 4096) = None" using Suc.prems(2) Suc.prems(4) [of 0] by simp
  define w' where "w' = ((k + 1) div 512 = k div 512)"
  note c = run_cost_step [OF w'_def, of n w]
  have pre: "w \<Longrightarrow> warm s t (unat va div 4096)" "(if w then 0 else 2) \<le> card F" using c Suc.prems(2,5,6) by auto
  obtain s1 F1 where m: "map_page t va pa attr s = Ok (0, s1)" and st: "table_step 2 t s F s1 F1"
    and cF: "card F \<le> card F1 + (if w then 0 else 2)" and l1: "lookup s1 t = (lookup s t)(k \<mapsto> MAKE_PTE pa (attr OR PTE_V))"
    using map_page_cost [OF Suc.prems(1) va un pre, of pa attr] Suc.prems(2) by (auto simp: kok_def)
  have "kok (\<lambda>(err, s'). err = 0 \<and> (\<exists>F'. table_step 2 t s1 F1 s' F' \<and> card F1 \<le> card F' + run_cost (k + 1) n w') \<and>
    lookup s' t = remap (\<lambda>j. Some (MAKE_PTE (pa + 4096 + 4096 * word_of_nat j) (attr OR PTE_V))) (k + 1) n (lookup s1 t))
    (map_n_loop n (i + 1) t va0 (va + 4096) (pa + 4096) attr s1)"
  proof (rule Suc.IH)
    show "space_ok s1 t F1" by (rule table_step_space_ok [OF Suc.prems(1) st])
    show "unat (va + 4096) div 4096 = k + 1" using next_page_no [OF va] Suc.prems(2) by simp
    show "lookup s1 t (k + 1 + j) = None" if "j < n" for j using Suc.prems(4) [of "Suc j"] that l1 by simp
    show "warm s1 t (k + 1)" if w' using that l1 by (auto simp: warm_def w'_def intro!: exI [of _ k])
    show "run_cost (k + 1) n w' \<le> card F1" using c cF Suc.prems(6) by linarith
  qed (use Suc.prems(3) in simp)
  then obtain s2 F2 where s2: "map_n_loop n (i + 1) t va0 (va + 4096) (pa + 4096) attr s1 = Ok (0, s2)" "table_step 2 t s1 F1 s2 F2"
      "card F1 \<le> card F2 + run_cost (k + 1) n w'"
      "lookup s2 t = remap (\<lambda>j. Some (MAKE_PTE (pa + 4096 + 4096 * word_of_nat j) (attr OR PTE_V))) (k + 1) n (lookup s1 t)"
    by (auto simp: kok_def)
  have "map_n_loop (Suc n) i t va0 va pa attr s = Ok (0, s2)" using m s2(1) by simp
  moreover have "card F \<le> card F2 + run_cost k (Suc n) w" using cF s2(3) c by linarith
  ultimately show ?case
    using table_step_trans [OF st s2(2)] s2(4) l1 by (auto simp: remap_Suc_front algebra_simps intro!: exI [of _ F2])
qed

section \<open>A list of regions\<close>

definition region_page :: "region \<Rightarrow> nat" where
  "region_page r = unat (r_va r) div 4096"

definition region_map :: "region \<Rightarrow> (nat \<Rightarrow> u64 option) \<Rightarrow> nat \<Rightarrow> u64 option" where
  "region_map r = remap (\<lambda>j. Some (MAKE_PTE (r_pa r + 4096 * word_of_nat j) (r_attr r OR PTE_V))) (region_page r) (nat (r_pages r))"

definition region_cost :: "region \<Rightarrow> nat" where
  "region_cost r = run_cost (region_page r) (nat (r_pages r)) False"

text \<open>Each region lies in the address space, on pages that \<open>L\<close> and the regions before it leave unmapped.\<close>

fun regions_fit :: "region list \<Rightarrow> (nat \<Rightarrow> u64 option) \<Rightarrow> bool" where
  "regions_fit [] L = True"
| "regions_fit (r # rs) L =
     (region_page r + nat (r_pages r) \<le> 2 ^ 26 \<and> (\<forall>j < nat (r_pages r). L (region_page r + j) = None) \<and> regions_fit rs (region_map r L))"

lemma map_regions_enough:
  assumes "space_ok s t F" "regions_fit rs (lookup s t)" "sum_list (map region_cost rs) \<le> card F"
  shows "kok (\<lambda>(e', s'). e' = e \<and> (\<exists>F'. table_step 2 t s F s' F' \<and> card F \<le> card F' + sum_list (map region_cost rs)) \<and>
    lookup s' t = fold region_map rs (lookup s t)) (map_regions t rs e s)"
  using assms
proof (induction rs arbitrary: s F)
  case Nil
  then show ?case using table_step_refl [of s 2 t F] by (auto simp: space_ok_def)
next
  case (Cons r rs)
  let ?k = "region_page r" and ?n = "nat (r_pages r)"
  obtain s1 F1 where m: "map_n_pages t (r_va r) (r_pages r) (r_pa r) (r_attr r) s = Ok (0, s1)" and st: "table_step 2 t s F s1 F1"
    and c: "card F \<le> card F1 + region_cost r" and l: "lookup s1 t = region_map r (lookup s t)"
    using map_n_loop_enough [OF Cons.prems(1), of "r_va r" ?k ?n False "r_pa r" "r_attr r" 0 "r_va r"] Cons.prems(2,3)
    by (auto simp: kok_def map_n_pages_def region_page_def region_map_def region_cost_def)
  have "kok (\<lambda>(e', s'). e' = e \<and> (\<exists>F'. table_step 2 t s1 F1 s' F' \<and> card F1 \<le> card F' + sum_list (map region_cost rs)) \<and>
    lookup s' t = fold region_map rs (lookup s1 t)) (map_regions t rs e s1)"
    using Cons.prems(2,3) c l by (intro Cons.IH table_step_space_ok [OF Cons.prems(1) st]) auto
  then obtain s2 F2 where s2: "map_regions t rs e s1 = Ok (e, s2)" "table_step 2 t s1 F1 s2 F2"
      "card F1 \<le> card F2 + sum_list (map region_cost rs)" "lookup s2 t = fold region_map rs (lookup s1 t)"
    by (auto simp: kok_def)
  have "card F \<le> card F2 + sum_list (map region_cost (r # rs))" using c s2(3) by simp
  then show ?case using m s2(1,4) l table_step_trans [OF st s2(2)] by auto
qed

section \<open>The kernel's address space\<close>

text \<open>
  The address space that the calls of \<open>map_n_pages\<close> build, page by page. Devices and memory are mapped to
  themselves, the kernel's code read-only and executable, the rest writable; the last page of the
  address space is the trampoline.
\<close>

definition kernel_map :: "u64 \<Rightarrow> u64 \<Rightarrow> nat \<Rightarrow> u64 option" where
  "kernel_map etext user_trap_entry k =
     (let e = unat etext div 4096 in
      if 0x2000 \<le> k \<and> k < 0x2010 \<or> 0xc000 \<le> k \<and> k < 0x11001 \<or> e \<le> k \<and> k < 0x88000
      then Some (MAKE_PTE (page_va k) (PTE_R OR PTE_W OR PTE_V))
      else if 0x80000 \<le> k \<and> k < e then Some (MAKE_PTE (page_va k) (PTE_R OR PTE_X OR PTE_V))
      else if k = 2 ^ 26 - 1 then Some (MAKE_PTE (ROUND_DOWN_PGSIZE user_trap_entry) (PTE_R OR PTE_X OR PTE_V))
      else None)"

definition etext_ok :: "u64 \<Rightarrow> bool" where
  "etext_ok etext \<longleftrightarrow> page_aligned etext \<and> KERNEL_BASE \<le> etext \<and> etext \<le> MEMORY_END"

lemma etext_page:
  assumes "etext_ok etext"
  obtains e where "0x80000 \<le> e" "e \<le> 0x88000" "etext = page_va e" "unat etext = 4096 * e"
proof
  let ?e = "unat etext div 4096"
  have "4096 dvd unat etext" using assms by (auto simp: etext_ok_def page_aligned_unat dvd_eq_mod_eq_0)
  then have u: "unat etext = 4096 * ?e" by simp
  then show "unat etext = 4096 * ?e" .
  show "etext = page_va ?e" unfolding page_va_def u [symmetric] by simp
  have "2147483648 \<le> unat etext" "unat etext \<le> 2281701376"
    using assms by (simp_all add: etext_ok_def layout_simps word_le_nat_alt)
  then show "0x80000 \<le> ?e" "?e \<le> 0x88000" using div_le_mono [of 2147483648 "unat etext" 4096] div_le_mono [of "unat etext" 2281701376 4096] by simp_all
qed

lemma page_va_add: "page_va k + 4096 * word_of_nat j = page_va (k + j)"
  by (simp add: page_va_def algebra_simps)

text \<open>The regions of \<open>kvm_init\<close> in pages.\<close>

lemma kvm_region_pages:
  assumes e: "0x80000 \<le> e" "e \<le> 0x88000" and etext: "etext = page_va e" "unat etext = 4096 * e"
  shows "map (\<lambda>r. (region_page r, nat (r_pages r))) (kvm_regions etext ute) =
    [(0x2000, 0x10), (0xc000, 0x4000), (0x10000, 1), (0x10001, 0x1000), (0x80000, e - 0x80000), (e, 0x88000 - e), (2 ^ 26 - 1, 1)]"
proof -
  have a: "unat (etext - KERNEL_BASE) = unat etext - 2147483648"
    using e etext(2) by (subst unat_sub) (simp_all add: layout_simps word_le_nat_alt)
  have b: "unat (MEMORY_END - etext) = 2281701376 - unat etext"
    using e etext(2) by (subst unat_sub) (simp_all add: layout_simps word_le_nat_alt)
  have "nat (uint ((etext - KERNEL_BASE) div PGSIZE)) = e - 0x80000"
    unfolding unat_eq_nat_uint [symmetric] unat_div a etext(2) by simp
  moreover have "nat (uint ((MEMORY_END - etext) div PGSIZE)) = 0x88000 - e"
    unfolding unat_eq_nat_uint [symmetric] unat_div b etext(2) by simp
  ultimately show ?thesis
    using etext(2) by (simp add: kvm_regions_def region_page_def layout_simps ROUND_UP_PGSIZE_def PGSIZE_MASK_def)
qed

lemma kvm_regions_ok:
  assumes e: "0x80000 \<le> e" "e \<le> 0x88000" and etext: "etext = page_va e" "unat etext = 4096 * e"
  shows "sum_list (map region_cost (kvm_regions etext ute)) \<le> 218" "regions_fit (kvm_regions etext ute) (\<lambda>_. None)"
    "fold region_map (kvm_regions etext ute) (\<lambda>_. None) = kernel_map etext ute"
proof -
  obtain r1 r2 r3 r4 r5 r6 r7 where r: "kvm_regions etext ute = [r1, r2, r3, r4, r5, r6, r7]" by (simp add: kvm_regions_def)
  note p = kvm_region_pages [OF assms, of ute, unfolded r, simplified]
  have "(e + 511) div 512 \<le> e div 512 + 1" by (simp add: div_le_mono [of "e + 511" "e + 512" 512, simplified])
  then show "sum_list (map region_cost (kvm_regions etext ute)) \<le> 218"
    using p e by (simp add: r region_cost_def run_cost_def)
  show "regions_fit (kvm_regions etext ute) (\<lambda>_. None)"
    using p e by (simp add: r region_map_def remap_def)
  have d: "r_pa r1 = page_va 0x2000 \<and> r_pa r2 = page_va 0xc000 \<and> r_pa r3 = page_va 0x10000 \<and> r_pa r4 = page_va 0x10001 \<and>
      r_pa r5 = page_va 0x80000 \<and> r_pa r6 = page_va e \<and> r_pa r7 = ROUND_DOWN_PGSIZE ute"
    using r etext(1) by (auto simp: kvm_regions_def page_va_def layout_simps)
  have f: "r_attr r1 = PTE_R OR PTE_W \<and> r_attr r2 = PTE_R OR PTE_W \<and> r_attr r3 = PTE_R OR PTE_W \<and> r_attr r4 = PTE_R OR PTE_W \<and>
      r_attr r5 = PTE_R OR PTE_X \<and> r_attr r6 = PTE_R OR PTE_W \<and> r_attr r7 = PTE_R OR PTE_X"
    using r by (auto simp: kvm_regions_def)
  show "fold region_map (kvm_regions etext ute) (\<lambda>_. None) = kernel_map etext ute"
  proof
    fix k :: nat
    have k: "65536 \<le> k \<Longrightarrow> \<not> 65537 \<le> k \<Longrightarrow> k = 65536" by simp
    show "fold region_map (kvm_regions etext ute) (\<lambda>_. None) k = kernel_map etext ute k"
      using p e d f by (auto simp: r region_map_def remap_def kernel_map_def etext(2) page_va_add or.assoc dest: k)
  qed
qed

text \<open>
  The kernel memory layout as the comment in include/vm/memory_layout.h lists it, with the disk of
  include/fs/memlayout.h: the areas by their first address, the address behind them, and the flags. The
  sizes of the device areas are those of the headers of the devices, one page for the disk. Page
  \<open>k\<close> is mapped to itself if it meets one of the areas; \<open>VA_END - PGSIZE\<close> is the trampoline; everything else
  is a hole.
\<close>

definition layout_areas :: "u64 \<Rightarrow> (nat \<times> nat \<times> u64) list" where
  "layout_areas etext =
     [(0x2000000, 0x2000000 + 0x10000, PTE_R OR PTE_W),
      (0xc000000, 0xc000000 + 0x4000000, PTE_R OR PTE_W),
      (0x10000000, 0x10000000 + 0x100, PTE_R OR PTE_W),
      (0x10001000, 0x10001000 + 4096, PTE_R OR PTE_W),
      (0x80000000, unat etext, PTE_R OR PTE_X),
      (unat etext, 0x80000000 + 128 * 2 ^ 20, PTE_R OR PTE_W)]"

definition documented_page :: "u64 \<Rightarrow> u64 \<Rightarrow> nat \<Rightarrow> u64 option" where
  "documented_page etext user_trap_entry k =
     (if 4096 * k = 2 ^ 38 - 4096 then Some (MAKE_PTE (ROUND_DOWN_PGSIZE user_trap_entry) (PTE_R OR PTE_X OR PTE_V))
      else map_option (\<lambda>(a, b, attr). MAKE_PTE (page_va k) (attr OR PTE_V))
        (List.find (\<lambda>(a, b, attr). a < 4096 * Suc k \<and> 4096 * k < b) (layout_areas etext)))"

text \<open>
  The table differs from the layout in one place: the call for the disk gives the number of bytes of a
  page where the number of pages is meant, so 4095 more pages are mapped behind the page of the disk.
\<close>

lemma kernel_map_documented:
  assumes "etext_ok etext"
  shows "kernel_map etext ute k =
    (if 0x10002 \<le> k \<and> k < 0x11001 then Some (MAKE_PTE (page_va k) (PTE_R OR PTE_W OR PTE_V)) else documented_page etext ute k)"
proof -
  obtain e where e: "0x80000 \<le> e" "e \<le> 0x88000" "unat etext = 4096 * e" using etext_page [OF assms] by blast
  show ?thesis using e by (auto simp: kernel_map_def documented_page_def layout_areas_def or.assoc)
qed

text \<open>No page of the kernel is both writable and executable, none is open to user mode.\<close>

lemma kernel_map_flags:
  assumes "kernel_map etext ute k = Some e"
  shows "e AND PTE_U = 0" "e AND PTE_W = 0 \<or> e AND PTE_X = 0"
proof -
  have a: "MAKE_PTE pa (PTE_R OR PTE_W OR PTE_V) AND PTE_U = 0" "MAKE_PTE pa (PTE_R OR PTE_W OR PTE_V) AND PTE_X = 0"
    "MAKE_PTE pa (PTE_R OR PTE_X OR PTE_V) AND PTE_U = 0" "MAKE_PTE pa (PTE_R OR PTE_X OR PTE_V) AND PTE_W = 0" for pa
    by (simp_all add: MAKE_PTE_def pte_flag_consts PTE_PPN_MASK_def PTE_ATTRIBUTE_MASK_def bit.conj_disj_distrib2 and.assoc)
  then show "e AND PTE_U = 0" "e AND PTE_W = 0 \<or> e AND PTE_X = 0"
    using assms by (auto simp: kernel_map_def Let_def split: if_splits)
qed

lemma init_page_table_spec:
  assumes "free_repr s F" "F \<noteq> {}"
  shows "kok (\<lambda>(pt, s'). \<exists>t. pt = Some t \<and> t \<in> F \<and> only_mem s s' \<and> space_ok s' t (F - {t}) \<and> tables (mem s') 2 t = {t} \<and>
    lookup s' t = (\<lambda>_. None) \<and> (\<forall>p. page_aligned p \<and> p \<noteq> t \<longrightarrow> same_page p (mem s) (mem s'))) (init_page_table s)"
proof -
  obtain t s' where g: "get_clear_page s = Ok (t, s')" "only_mem s s'" "t \<in> F" "free_repr s' (F - {t})"
    and m: "\<And>x. mem s' x = (if in_page t x then 0 else mem s x)"
    using get_clear_page_spec [OF assms(1)] assms(2) by (auto simp: kok_def)
  have t: "page_aligned t" "t \<noteq> 0" using free_repr_aligned [OF assms(1) g(3)] kmem.repr_nonzero [OF assms(1)] g(3) by auto
  have "tables (mem s') 2 t = {t} \<and> table_wf (mem s') 2 t \<and> pte_at (mem s') 2 t va = 0" for va
    using m t by (intro empty_table) auto
  then have "space_ok s' t (F - {t})" "tables (mem s') 2 t = {t}" "lookup s' t = (\<lambda>_. None)"
    using g(4) by (auto simp: space_ok_def lookup_def)
  moreover have "same_page p (mem s) (mem s')" if "page_aligned p" "p \<noteq> t" for p
    using in_page_unique [OF t(1) that(1)] that(2) by (auto simp: same_page_def m)
  ultimately show ?thesis using g t by (auto simp: init_page_table_def)
qed

lemma space_ok_kernel_page_table [simp]: "space_ok (s\<lparr>kernel_page_table := t\<rparr>) u F = space_ok s u F"
  by (simp add: space_ok_def free_repr_def free_list_def)

lemma lookup_kernel_page_table [simp]: "lookup (s\<lparr>kernel_page_table := t\<rparr>) u = lookup s u"
  by (rule ext) (simp add: lookup_def)

lemma pte_shift_MAKE_PTE: "pte_pa pa \<Longrightarrow> push_bit 12 (drop_bit 10 (MAKE_PTE pa attr)) = pa"
  unfolding pte_pa_bit by (rule bit_word_eqI) (auto simp: MAKE_PTE_def mask_consts bit_simps)

text \<open>
  What the disk driver asks of the table (a request header is mapped to itself, outside the table) holds
  of every header in the writable part of memory that lies in a page of its own.
\<close>

lemma kernel_map_direct:
  assumes ok: "space_ok s t F" "lookup s t = kernel_map etext ute"
    and et: "etext_ok etext" and hdr: "etext \<le> hdr" "hdr < MEMORY_END" "unat hdr mod 4096 \<le> 4080"
    and off: "ROUND_DOWN_PGSIZE hdr \<notin> tables (mem s) 2 t"
  shows "direct_mapped (mem s) t hdr"
proof -
  let ?k = "unat hdr div 4096" and ?p = "ROUND_DOWN_PGSIZE hdr"
  have u: "unat hdr < 2281701376" "unat etext \<le> unat hdr" using hdr by (simp_all add: layout_simps word_le_nat_alt word_less_nat_alt)
  have va: "hdr \<le> MAX_VA" using u by (simp add: layout_simps word_le_nat_alt)
  have k: "unat etext div 4096 \<le> ?k" "?k < 0x88000" using u by (simp_all add: div_le_mono div_less_iff_less_mult)
  have pa: "page_va ?k = ?p"
    using unat_page_va [of ?k] k(2) by (simp add: word_eq_iff_unat unat_ROUND_DOWN_PGSIZE minus_mod_eq_mult_div)
  let ?e = "MAKE_PTE ?p (PTE_R OR PTE_W OR PTE_V)"
  have p: "pte_valid (pte_at (mem s) 2 t hdr) \<and> pte_at (mem s) 2 t hdr = ?e"
    using lookup_va [OF va, of s t] k by (auto simp: ok(2) kernel_map_def Let_def pa split: if_splits)
  have wf: "table_wf (mem s) 2 t" using ok(1) by (simp add: space_ok_def)
  have "?p < MEMORY_END" using u by (simp add: word_less_nat_alt unat_ROUND_DOWN_PGSIZE layout_simps)
  moreover have "0 < ?k" using et u by (auto simp: div_greater_zero_iff etext_ok_def layout_simps word_le_nat_alt)
  then have "unat ?p \<noteq> 0" using unat_page_va [of ?k] k(2) unfolding pa by simp
  then have "?p \<noteq> 0" by auto
  ultimately have "valid_page 0 ?p" by (simp add: valid_page_def page_aligned_ROUND_DOWN)
  then have v: "push_bit 12 (drop_bit 10 ?e) = ?p" by (intro pte_shift_MAKE_PTE valid_page_pte_pa)
  have al: "page_aligned ?p" by (rule page_aligned_ROUND_DOWN)
  have h: "hdr = ?p + word_of_nat (unat hdr mod 4096)"
    using aligned_add_unat [OF al, of "unat hdr mod 4096"] by (simp add: word_eq_iff_unat unat_ROUND_DOWN_PGSIZE)
  moreover have "hdr mod 4096 = word_of_nat (unat hdr mod 4096)" by (simp add: word_eq_iff_unat unat_mod unat_word_of_nat)
  ultimately have "?p + hdr mod 4096 = hdr" by simp
  moreover have "off_table (mem s) t {x. unat (x - hdr) < 16}"
    unfolding off_table_def
  proof (intro ballI notI)
    fix x q assume x: "x \<in> {x. unat (x - hdr) < 16}" and q: "q \<in> tables (mem s) 2 t" "in_page q x"
    have "x = hdr + word_of_nat (unat (x - hdr))" by simp
    also have "\<dots> = ?p + word_of_nat (unat hdr mod 4096) + word_of_nat (unat (x - hdr))" using h by simp
    finally have e: "x = ?p + word_of_nat (unat hdr mod 4096 + unat (x - hdr))" by (simp only: of_nat_add add.assoc)
    have "in_page ?p x" by (subst e) (rule in_page_add, use x hdr(3) in simp)
    then show False using in_page_unique [OF al _ _ q(2)] tables_aligned [OF wf q(1)] off q(1) by blast
  qed
  ultimately show ?thesis using wf va p v by (auto simp: direct_mapped_def)
qed

lemma kvm_init_enough:
  assumes rep: "free_repr s F" and F: "219 \<le> card F" and et: "etext_ok etext"
  shows "kok (\<lambda>s'. \<exists>F'. space_ok s' (kernel_page_table s') F' \<and> F' \<subseteq> F \<and> card F \<le> card F' + 219 \<and>
      tables (mem s') 2 (kernel_page_table s') = F - F' \<and> lookup s' (kernel_page_table s') = kernel_map etext (user_trap_entry_addr s) \<and>
      (\<forall>p. page_aligned p \<and> p \<notin> F \<longrightarrow> same_page p (mem s) (mem s')) \<and>
      s' = s\<lparr>mem := mem s', mem_head := mem_head s', kernel_page_table := kernel_page_table s'\<rparr>) (kvm_init etext s)"
proof -
  have "F \<noteq> {}" using F by auto
  then obtain t s1 where i: "init_page_table s = Ok (Some t, s1)" "t \<in> F" "only_mem s s1" "space_ok s1 t (F - {t})"
      "tables (mem s1) 2 t = {t}" "lookup s1 t = (\<lambda>_. None)" "\<And>p. page_aligned p \<Longrightarrow> p \<noteq> t \<Longrightarrow> same_page p (mem s) (mem s1)"
    using init_page_table_spec [OF rep] by (auto simp: kok_def)
  obtain e where e: "0x80000 \<le> e" "e \<le> 0x88000" "etext = page_va e" "unat etext = 4096 * e" using etext_page [OF et] by blast
  define s2 where "s2 = s1\<lparr>kernel_page_table := t\<rparr>"
  obtain m1 h1 where s1: "s1 = s\<lparr>mem := m1, mem_head := h1\<rparr>" using i(3) unfolding only_mem_def by blast
  have u: "user_trap_entry_addr s1 = user_trap_entry_addr s" by (simp add: s1)
  let ?rs = "kvm_regions etext (user_trap_entry_addr s)"
  note r = kvm_regions_ok [OF e, of "user_trap_entry_addr s"]
  have "card F = Suc (card (F - {t}))" using i(2) F by (metis card.infinite card_Suc_Diff1 not_numeral_le_zero)
  then have c: "sum_list (map region_cost ?rs) \<le> card (F - {t})" "card F = Suc (card (F - {t}))" using r(1) F by simp_all
  have "space_ok s2 t (F - {t})" "regions_fit ?rs (lookup s2 t)" using i(4,6) r(2) by (simp_all add: s2_def)
  from map_regions_enough [OF this c(1), of False] obtain s3 F3 where
    m: "map_regions t ?rs False s2 = Ok (False, s3)" "table_step 2 t s2 (F - {t}) s3 F3"
      "card (F - {t}) \<le> card F3 + sum_list (map region_cost ?rs)" "lookup s3 t = fold region_map ?rs (lookup s2 t)"
    by (auto simp: kok_def)
  obtain m3 h3 where s3': "s3 = s2\<lparr>mem := m3, mem_head := h3\<rparr>" using m(2) unfolding table_step_def only_mem_def by blast
  have s3: "kernel_page_table s3 = t" "s3 = s\<lparr>mem := mem s3, mem_head := mem_head s3, kernel_page_table := t\<rparr>"
    by (simp_all add: s3' s2_def s1)
  have "etext mod PGSIZE = 0" using et by (simp add: etext_ok_def page_aligned_def)
  then have "kvm_init etext s = Ok s3" using i(1) m(1) by (simp add: kvm_init_def s2_def [symmetric] u)
  moreover have "space_ok s3 t F3" using table_step_space_ok [OF _ m(2)] i(4) by (simp add: s2_def)
  moreover have "F3 \<subseteq> F" "tables (mem s3) 2 t = F - F3" using m(2) i(2,5) by (auto simp: table_step_def s2_def)
  moreover have "card F \<le> card F3 + 219" using c(2) m(3) r(1) by linarith
  moreover have "lookup s3 t = kernel_map etext (user_trap_entry_addr s)" using m(4) i(6) r(3) by (simp add: s2_def)
  moreover have "same_page p (mem s) (mem s3)" if "page_aligned p" "p \<notin> F" for p
  proof -
    have "p \<notin> tables (mem s3) 2 t" "p \<noteq> t" using that i(2) \<open>tables (mem s3) 2 t = F - F3\<close> by auto
    then have "same_page p (mem s2) (mem s3)" using m(2) that(1) by (simp add: table_step_def)
    with i(7) [OF that(1) \<open>p \<noteq> t\<close>] show ?thesis by (auto simp: s2_def intro: same_page_trans)
  qed
  ultimately show ?thesis using s3 by (auto intro!: exI [of _ F3])
qed

section \<open>Properties\<close>

text \<open>
  C37: \<open>kvm_init\<close> builds the kernel's address space. When the code ends on a page boundary in memory
  (\<open>etext_ok\<close>, as the linker script has it) and 219 pages are free, it returns. Every table is a page that
  was free, at most 219 are taken, and no other page changes. The table maps the areas of the kernel memory
  layout in include/vm/memory_layout.h and the page of the disk, with code read-only and executable
  and the rest writable, leaves the hole of that layout unmapped, and has one deviation: the 4095 pages
  behind the page of the disk are mapped too. (Kernel stacks are pages of the memory area here; the comment
  about stacks beneath the trampoline in include/fs/memlayout.h is about another kernel.) No page is
  both writable and executable, and none is open to user mode. Any request header in the writable part
  of memory that lies in a page outside the table is mapped the way the disk driver needs.
\<close>

theorem kvm_init_maps:
  assumes "free_repr s F" "219 \<le> card F" "etext_ok etext"
  shows "kok (\<lambda>s'. let t = kernel_page_table s' in \<exists>F'. space_ok s' t F' \<and> F' \<subseteq> F \<and> card F \<le> card F' + 219 \<and> tables (mem s') 2 t = F - F' \<and>
      (\<forall>k. lookup s' t k = (if 0x10002 \<le> k \<and> k < 0x11001 then Some (MAKE_PTE (page_va k) (PTE_R OR PTE_W OR PTE_V))
        else documented_page etext (user_trap_entry_addr s) k)) \<and>
      (\<forall>k e. lookup s' t k = Some e \<longrightarrow> e AND PTE_U = 0 \<and> (e AND PTE_W = 0 \<or> e AND PTE_X = 0)) \<and>
      (\<forall>hdr. etext \<le> hdr \<and> hdr < MEMORY_END \<and> unat hdr mod 4096 \<le> 4080 \<and> ROUND_DOWN_PGSIZE hdr \<notin> F - F' \<longrightarrow> direct_mapped (mem s') t hdr) \<and>
      (\<forall>p. page_aligned p \<and> p \<notin> F \<longrightarrow> same_page p (mem s) (mem s')) \<and>
      s' = s\<lparr>mem := mem s', mem_head := mem_head s', kernel_page_table := t\<rparr>) (kvm_init etext s)"
proof -
  obtain s' F' where s': "kvm_init etext s = Ok s'" "space_ok s' (kernel_page_table s') F'" "F' \<subseteq> F" "card F \<le> card F' + 219"
      "tables (mem s') 2 (kernel_page_table s') = F - F'" "lookup s' (kernel_page_table s') = kernel_map etext (user_trap_entry_addr s)"
      "\<And>p. page_aligned p \<Longrightarrow> p \<notin> F \<Longrightarrow> same_page p (mem s) (mem s')"
      "s' = s\<lparr>mem := mem s', mem_head := mem_head s', kernel_page_table := kernel_page_table s'\<rparr>"
    using kvm_init_enough [OF assms] by (auto simp: kok_def)
  have "direct_mapped (mem s') (kernel_page_table s') hdr"
    if "etext \<le> hdr" "hdr < MEMORY_END" "unat hdr mod 4096 \<le> 4080" "ROUND_DOWN_PGSIZE hdr \<notin> F - F'" for hdr
  proof -
    have "ROUND_DOWN_PGSIZE hdr \<notin> tables (mem s') 2 (kernel_page_table s')" using that(4) s'(5) by simp
    from kernel_map_direct [OF s'(2,6) assms(3) that(1-3) this] show ?thesis .
  qed
  then show ?thesis
    unfolding s'(1) kok_Ok Let_def s'(6)
    using s'(2-5,7,8) kernel_map_flags [of etext "user_trap_entry_addr s"] kernel_map_documented [OF assms(3), of "user_trap_entry_addr s"]
    by (intro exI [of _ F'] conjI allI impI) blast+
qed

lemma card_pages_of:
  assumes "kernel_end s \<le> 0x87000000"
  shows "219 \<le> card (pages_of s)"
proof -
  have u: "unat (page_va (0x87000 + i)) = 4096 * (0x87000 + i)" if "i < 219" for i using that by (simp add: unat_page_va)
  have "inj_on (\<lambda>i. page_va (0x87000 + i)) {..<219}" using u by (intro inj_onI) (auto simp: word_eq_iff_unat)
  then have "card ((\<lambda>i. page_va (0x87000 + i)) ` {..<219}) = 219" by (simp add: card_image)
  moreover have "(\<lambda>i. page_va (0x87000 + i)) ` {..<219} \<subseteq> pages_of s"
  proof
    fix p assume "p \<in> (\<lambda>i. page_va (0x87000 + i)) ` {..<219}"
    then obtain i where i: "i < 219" "p = page_va (0x87000 + i)" by auto
    then have p: "unat p = 4096 * (0x87000 + i)" using u by simp
    have "unat (kernel_end s) \<le> 0x87000000" using assms by (simp add: word_le_nat_alt)
    then show "p \<in> pages_of s" using p i(1)
      by (auto simp: pages_of_def valid_page_def page_aligned_unat word_le_nat_alt word_less_nat_alt layout_simps)
  qed
  moreover have "finite (pages_of s)" by (rule finite_subset [OF subset_UNIV]) simp
  ultimately show ?thesis using card_mono [of "pages_of s"] by metis
qed

theorem kvm_init_maps_witness:
  "kok (\<lambda>s. kok (\<lambda>s'. lookup s' (kernel_page_table s') 0x80000 = Some (MAKE_PTE (page_va 0x80000) (PTE_R OR PTE_X OR PTE_V)) \<and>
       lookup s' (kernel_page_table s') 0x80010 = Some (MAKE_PTE (page_va 0x80010) (PTE_R OR PTE_W OR PTE_V)) \<and>
       lookup s' (kernel_page_table s') 0x88000 = None) (kvm_init 0x80010000 s))
     (kalloc_init ((console_example (\<lambda>_. 0))\<lparr>kernel_end := 0x80020000\<rparr>))"
proof -
  let ?s = "(console_example (\<lambda>_. 0))\<lparr>kernel_end := 0x80020000\<rparr>"
  have "linker_layout (kernel_end ?s)" "MemContainerLock \<notin> held ?s"
    using console_example_ctx(3) [of "\<lambda>_. 0"] by (simp_all add: linker_layout_def layout_simps)
  from kalloc_init_frees [OF this] obtain s where
    s: "kalloc_init ?s = Ok s" "free_repr s (pages_of s)" "kernel_end s = 0x80020000" by (auto simp: kok_def)
  have "etext_ok 0x80010000" by (simp add: etext_ok_def page_aligned_def layout_simps)
  from kvm_init_maps [OF s(2) card_pages_of this] s(3)
  have "kok (\<lambda>s'. \<forall>k. lookup s' (kernel_page_table s') k = (if 0x10002 \<le> k \<and> k < 0x11001 then Some (MAKE_PTE (page_va k) (PTE_R OR PTE_W OR PTE_V))
        else documented_page 0x80010000 (user_trap_entry_addr s) k)) (kvm_init 0x80010000 s)"
    by (auto simp: kok_def Let_def)
  then show ?thesis unfolding s(1) kok_Ok by (auto elim!: kok_mono simp: documented_page_def layout_areas_def or.assoc)
qed

end
