(* ===== verification/Trap.thy ===== *)
theory Trap
  imports Kvm
begin

text \<open>
  Traps: kernel/trap/intr_handler.c, kernel/trap/user_trap_handler.c, kernel/trap/kernel_trap.c,
  kernel/riscv/plic.c with include/riscv/plic.h, the helpers of include/cpus.h and include/trap/introff.h, and
  \<open>kvm_init_hart\<close> of kernel/vm/kvm.c.

  The control registers are those of the CPU that runs (\<open>me\<close>); of \<open>sie\<close> only the bit of external
  interrupts varies (\<open>ext_intr\<close>). The bit \<open>SIE\<close> of \<open>sstatus\<close> is the one in force outside
  \<open>push_introff\<close> sections; inside one interrupts are off. The three devices are the arguments of \<open>devices\<close>.
  What the assembly around the handlers does with registers is outside the model: a handler ends
  with the argument it passes to \<open>user_trap_ret_end\<close> or \<open>kernel_trap_ret_end\<close>.
\<close>

section \<open>State\<close>

datatype plic_access = PRd u64 u32 | PWr u64 u32

record devices =
  dv_uart :: uart_hw
  dv_fuel :: nat
  dv_disk :: vio_hw
  dv_plic :: "plic_access list \<Rightarrow> u64 \<Rightarrow> u32"

record trap_state = vdisk_state +
  sstatus :: u64
  stvec :: u64
  sscratch :: u64
  sepc :: u64
  scause :: u64
  stval :: u64
  sip :: u64
  satp :: u64
  plic_io :: "plic_access list"

definition XSTATUS_SIE :: u64 where "XSTATUS_SIE = push_bit 1 1"
definition XSTATUS_SPIE :: u64 where "XSTATUS_SPIE = push_bit 5 1"
definition XSTATUS_SPP :: u64 where "XSTATUS_SPP = push_bit 8 1"
definition XIP_SSIP :: u64 where "XIP_SSIP = push_bit 1 1"
definition SCAUSE_INTERRPUT_MASK :: u64 where "SCAUSE_INTERRPUT_MASK = push_bit 63 1"
definition SCAUSE_SSI :: u64 where "SCAUSE_SSI = SCAUSE_INTERRPUT_MASK OR 1"
definition SCAUSE_SEI :: u64 where "SCAUSE_SEI = SCAUSE_INTERRPUT_MASK OR 9"

abbreviation (input) SCAUSE_ECALL_FROM_U :: u64 where "SCAUSE_ECALL_FROM_U \<equiv> 8"
abbreviation (input) UART_IRQ :: u32 where "UART_IRQ \<equiv> 10"
abbreviation (input) VIRTIO0_IRQ :: u32 where "VIRTIO0_IRQ \<equiv> 1"

lemma trap_consts:
  "XSTATUS_SIE = 2" "XSTATUS_SPIE = 32" "XSTATUS_SPP = 256" "XIP_SSIP = 2" "SCAUSE_INTERRPUT_MASK = 0x8000000000000000"
  "SCAUSE_SSI = 0x8000000000000001" "SCAUSE_SEI = 0x8000000000000009"
  by (simp_all add: XSTATUS_SIE_def XSTATUS_SPIE_def XSTATUS_SPP_def XIP_SSIP_def SCAUSE_SSI_def SCAUSE_SEI_def SCAUSE_INTERRPUT_MASK_def)

definition intron :: "'a trap_state_scheme \<Rightarrow> 'a trap_state_scheme" where
  "intron s = s\<lparr>sstatus := sstatus s OR XSTATUS_SIE\<rparr>"

definition introff :: "'a trap_state_scheme \<Rightarrow> 'a trap_state_scheme" where
  "introff s = s\<lparr>sstatus := sstatus s AND NOT XSTATUS_SIE\<rparr>"

definition enable_soft_intr :: "'a trap_state_scheme \<Rightarrow> 'a trap_state_scheme" where
  "enable_soft_intr s = s\<lparr>ext_intr := (ext_intr s)[me s := False]\<rparr>"

definition enable_soft_n_external_intr :: "'a trap_state_scheme \<Rightarrow> 'a trap_state_scheme" where
  "enable_soft_n_external_intr s = s\<lparr>ext_intr := (ext_intr s)[me s := True]\<rparr>"

text \<open>\<open>cpu_id\<close> does not return when interrupts are on.\<close>

definition cpu_id :: "'a trap_state_scheme \<Rightarrow> nat kres" where
  "cpu_id s = (if noff s = 0 \<and> sstatus s AND XSTATUS_SIE \<noteq> 0 then Hang else Ok (me s))"

section \<open>The interrupt controller\<close>

definition PLIC_I_SOURCE_ENABLE :: "u32 \<Rightarrow> u64" where
  "PLIC_I_SOURCE_ENABLE i = 0x0c000000 + ucast i * 4"

definition PLIC_S_I_ENABLE :: "nat \<Rightarrow> u64" where
  "PLIC_S_I_ENABLE h = 0x0c000000 + 0x2080 + word_of_nat h * 0x100"

definition PLIC_S_PRIORITY :: "nat \<Rightarrow> u64" where
  "PLIC_S_PRIORITY h = 0x0c000000 + 0x201000 + word_of_nat h * 0x2000"

definition PLIC_S_CLAIM :: "nat \<Rightarrow> u64" where
  "PLIC_S_CLAIM h = 0x0c000000 + 0x201004 + word_of_nat h * 0x2000"

definition plic_write :: "u64 \<Rightarrow> u32 \<Rightarrow> 'a trap_state_scheme \<Rightarrow> 'a trap_state_scheme" where
  "plic_write a v s = s\<lparr>plic_io := PWr a v # plic_io s\<rparr>"

definition plic_init :: "'a trap_state_scheme \<Rightarrow> 'a trap_state_scheme" where
  "plic_init s = plic_write (PLIC_I_SOURCE_ENABLE VIRTIO0_IRQ) 1 (plic_write (PLIC_I_SOURCE_ENABLE UART_IRQ) 1 s)"

definition plic_init_hart :: "'a trap_state_scheme \<Rightarrow> 'a trap_state_scheme kres" where
  "plic_init_hart s =
     kbind (cpu_id s) (\<lambda>h.
     let s = plic_write (PLIC_S_I_ENABLE h) (push_bit (unat UART_IRQ) 1 OR push_bit (unat VIRTIO0_IRQ) 1) s
     in Ok (plic_write (PLIC_S_PRIORITY h) 0 s))"

definition plic_claim :: "devices \<Rightarrow> 'a trap_state_scheme \<Rightarrow> (u32 \<times> 'a trap_state_scheme) kres" where
  "plic_claim d s =
     kbind (cpu_id s) (\<lambda>h.
     let irq = dv_plic d (plic_io s) (PLIC_S_CLAIM h)
     in Ok (irq, s\<lparr>plic_io := PRd (PLIC_S_CLAIM h) irq # plic_io s\<rparr>))"

definition plic_complete :: "u32 \<Rightarrow> 'a trap_state_scheme \<Rightarrow> 'a trap_state_scheme kres" where
  "plic_complete irq s = kbind (cpu_id s) (\<lambda>h. Ok (plic_write (PLIC_S_CLAIM h) irq s))"

section \<open>Interrupts\<close>

text \<open>A string literal of C, with its terminating zero; \<open>NL\<close> is a line feed.\<close>

definition cbytes :: "string \<Rightarrow> u8 list" where
  "cbytes x = map of_char x @ [0]"

abbreviation (input) NL :: string where "NL \<equiv> [CHR 0x0A]"

definition kprint :: "devices \<Rightarrow> string \<Rightarrow> karg list \<Rightarrow> 'a console_state_scheme \<Rightarrow> 'a console_state_scheme kres" where
  "kprint d fmt ap s = kprintf (dv_uart d) (dv_fuel d) (Some (cbytes fmt)) ap s"

definition intr_init :: "'a trap_state_scheme \<Rightarrow> 'a trap_state_scheme" where
  "intr_init s = s\<lparr>held := held s - {TickLock}\<rparr>"

definition get_ticks :: "'a proc_state_scheme \<Rightarrow> u64" where
  "get_ticks s = tick_count s"

text \<open>The branch of a device interrupt.\<close>

definition external_intr :: "devices \<Rightarrow> 'a trap_state_scheme \<Rightarrow> 'a trap_state_scheme kres" where
  "external_intr d s =
     kbind (plic_claim d s) (\<lambda>(irq, s).
     kbind (if irq = UART_IRQ then uart_intr (dv_uart d) (dv_fuel d) s
            else if irq = VIRTIO0_IRQ then virtio_disk_intr (dv_disk d) s
            else if irq \<noteq> 0 then kprint d (''unexpect irq: %d'' @ NL) [ArgInt irq] s
            else Ok s) (\<lambda>s.
     if irq \<noteq> 0 then plic_complete irq s else Ok s))"

text \<open>The tick of CPU 0.\<close>

definition clock_tick :: "'a trap_state_scheme \<Rightarrow> 'a trap_state_scheme kres" where
  "clock_tick s =
     kbind (cpu_id s) (\<lambda>h.
     if h = 0 then
       kbind (acquire TickLock s) (\<lambda>s.
       kbind (wake_up TickChan (s\<lparr>tick_count := tick_count s + 1\<rparr>)) (release TickLock))
     else Ok s)"

definition intr_handler ::
  "devices \<Rightarrow> ('a trap_state_scheme \<Rightarrow> 'a trap_state_scheme kres) \<Rightarrow> u64 \<Rightarrow> 'a trap_state_scheme \<Rightarrow> 'a trap_state_scheme kres" where
  "intr_handler d sw cause s =
     (if cause = SCAUSE_SEI then external_intr d s
      else if cause = SCAUSE_SSI then
        kbind (clock_tick (s\<lparr>sip := sip s AND NOT XIP_SSIP\<rparr>)) (\<lambda>s.
        case my_proc s of
          None \<Rightarrow> Ok s
        | Some p \<Rightarrow> kbind (is_exclusive_occupy p s) (\<lambda>ex. if ex then Ok s else yield sw RUNABLE s))
      else
        kprint d (''unexpect intrrupt:'' @ NL @ '' scause: %p'' @ NL @ '' stval: %p'' @ NL) [ArgPtr cause, ArgPtr (stval s)] s)"

section \<open>Traps from the kernel\<close>

definition kernel_trap_init_hart :: "'a trap_state_scheme \<Rightarrow> 'a trap_state_scheme kres" where
  "kernel_trap_init_hart s =
     kbind (cpu_id s) (\<lambda>h.
     let s = (if h = 0 then intr_init s else s)
     in Ok (enable_soft_n_external_intr (s\<lparr>stvec := kernel_trap_entry_addr s\<rparr>)))"

definition kvm_init_hart :: "'a trap_state_scheme \<Rightarrow> 'a trap_state_scheme" where
  "kvm_init_hart s = s\<lparr>satp := MAKE_SATP (kernel_page_table s)\<rparr>"

text \<open>The result is the argument of \<open>kernel_trap_ret_end\<close> and the state.\<close>

definition kernel_trap_ret :: "u64 \<Rightarrow> u64 \<Rightarrow> 'a trap_state_scheme \<Rightarrow> u64 \<times> 'a trap_state_scheme" where
  "kernel_trap_ret origin_sp epc s = (origin_sp, s\<lparr>sstatus := sstatus s OR XSTATUS_SPP OR XSTATUS_SPIE, sepc := epc\<rparr>)"

definition kernel_trap_handler ::
  "devices \<Rightarrow> ('a trap_state_scheme \<Rightarrow> 'a trap_state_scheme kres) \<Rightarrow> 'a trap_state_scheme \<Rightarrow> (u64 \<times> 'a trap_state_scheme) kres" where
  "kernel_trap_handler d sw s =
     (let origin_sp = sscratch s; epc = sepc s in
      if sstatus s AND XSTATUS_SPP = 0 then Panic ''kernel_trap_handler: trap not from kernel''
      else if scause s AND SCAUSE_INTERRPUT_MASK \<noteq> 0 then
        kbind (intr_handler d sw (scause s) s) (\<lambda>s. Ok (kernel_trap_ret origin_sp epc s))
      else
        kbind (kprint d (''unexpect exception from kernel:'' @ NL @ '' scause: %p'' @ NL @ '' stval: %p'' @ NL @ '' spec: %p'' @ NL)
          [ArgPtr (scause s), ArgPtr (stval s), ArgPtr (sepc s)] s) (\<lambda>_.
        Panic ''kernel trap''))"

section \<open>Traps from user programs\<close>

definition GET_TRAMPOLINE_FN_VA :: "u64 \<Rightarrow> u64" where
  "GET_TRAMPOLINE_FN_VA f = TRAMPOLINE_BASE + f mod PGSIZE"

text \<open>The result is the argument of \<open>user_trap_ret_end\<close> and the state.\<close>

definition user_trap_ret :: "'a trap_state_scheme \<Rightarrow> (u64 \<times> 'a trap_state_scheme) kres" where
  "user_trap_ret s =
     (let s = introff s in
      case my_proc s of
        None \<Rightarrow> Panic ''NULL process''
      | Some p \<Rightarrow>
          let s = s\<lparr>sstatus := (sstatus s OR XSTATUS_SPIE) AND NOT XSTATUS_SPP\<rparr>; tf = p_trap_frame (proc p s) in
          kbind (is_exclusive_occupy p s) (\<lambda>ex.
          let s = (if ex then enable_soft_intr s else enable_soft_n_external_intr s);
              s = s\<lparr>sepc := get_tf tf TF_SEPC s\<rparr>;
              s = s\<lparr>stvec := GET_TRAMPOLINE_FN_VA (user_trap_entry_addr s), sscratch := TRAPFRAME_BASE\<rparr> in
          kbind (cpu_id s) (\<lambda>h.
          let s = set_tf tf TF_CPU_ID (word_of_nat h) s in
          Ok (MAKE_SATP (p_pgtable (proc p s)), s))))"

text \<open>The first part of \<open>user_trap_handler\<close>: the variable \<open>killed\<close> and the state.\<close>

definition user_trap_serve ::
  "devices \<Rightarrow> (nat \<Rightarrow> 'a trap_state_scheme devsw) \<Rightarrow> ('a trap_state_scheme \<Rightarrow> 'a trap_state_scheme kres) \<Rightarrow> 'a trap_state_scheme switches \<Rightarrow>
     nat \<Rightarrow> 'a trap_state_scheme \<Rightarrow> (bool \<times> 'a trap_state_scheme) kres" where
  "user_trap_serve d devsw sw env p s =
     (let tf = p_trap_frame (proc p s) in
      if scause s = SCAUSE_ECALL_FROM_U then
        kbind (handle_syscall devsw sw env p (intron (set_tf tf TF_SEPC (get_tf tf TF_SEPC s + 4) s))) (\<lambda>(err, s). Ok (err \<noteq> 0, s))
      else if scause s AND SCAUSE_INTERRPUT_MASK \<noteq> 0 then kbind (intr_handler d sw (scause s) s) (\<lambda>s. Ok (False, s))
      else
        kbind (kprint d (''unexpect exception from user:'' @ NL @ ''    scause: %p stval: %p'' @ NL @ ''    spec: %p pid: %d'' @ NL)
          [ArgPtr (scause s), ArgPtr (stval s), ArgPtr (sepc s), ArgInt (word_of_int (p_pid (proc p s)))] s) (\<lambda>s. Ok (True, s)))"

definition user_trap_handler ::
  "devices \<Rightarrow> (nat \<Rightarrow> 'a trap_state_scheme devsw) \<Rightarrow> ('a trap_state_scheme \<Rightarrow> 'a trap_state_scheme kres) \<Rightarrow> 'a trap_state_scheme switches \<Rightarrow>
     'a trap_state_scheme \<Rightarrow> (u64 \<times> 'a trap_state_scheme) kres" where
  "user_trap_handler d devsw sw env s =
     (case my_proc s of
        None \<Rightarrow> Panic ''NULL process''
      | Some p \<Rightarrow>
          kbind (user_trap_serve d devsw sw env p s) (\<lambda>(killed, s).
          kbind (if killed \<or> p_killed (proc p s) then exit sw p (-1) s else Ok s) (\<lambda>s.
          if panicked s then Hang else user_trap_ret s)))"

end
