(* ===== verification/Trap_Inv.thy ===== *)
theory Trap_Inv
  imports Trap
begin

text \<open>
  Correctness of the trap handlers: the clock interrupt of the kernel, the return to user mode, and the
  UART interrupt from the claim at the interrupt controller to its completion.
\<close>

section \<open>The clock\<close>

definition tick_state :: "'a trap_state_scheme \<Rightarrow> 'a trap_state_scheme" where
  "tick_state s =
     (let s = s\<lparr>sip := sip s AND NOT XIP_SSIP\<rparr> in
      if me s = 0 then s\<lparr>tick_count := tick_count s + 1, procs := map (woken TickChan) (procs s)\<rparr> else s)"

lemma woken_simps [simp]: "p_pgroup_id (woken c q) = p_pgroup_id q" "p_killed (woken c q) = p_killed q" "p_trap_frame (woken c q) = p_trap_frame q"
  by (simp_all add: woken_def)

lemma tick_state_simps [simp]:
  "held (tick_state s) = held s" "noff (tick_state s) = noff s" "me (tick_state s) = me s" "cpus (tick_state s) = cpus s" "groups (tick_state s) = groups s"
  "sstatus (tick_state s) = sstatus s" "sepc (tick_state s) = sepc s" "mem (tick_state s) = mem s" "my_proc (tick_state s) = my_proc s"
  "length (procs (tick_state s)) = length (procs s)"
  by (simp_all add: tick_state_def Let_def my_proc_def)

lemma tick_state_group: "p < length (procs s) \<Longrightarrow> p_pgroup_id (proc p (tick_state s)) = p_pgroup_id (proc p s)"
  by (simp add: tick_state_def Let_def)

lemma clock_tick_eq:
  assumes "held s = {}" "noff s = 0" "sstatus s AND XSTATUS_SIE = 0" "length (procs s) = 64"
  shows "clock_tick (s\<lparr>sip := sip s AND NOT XIP_SSIP\<rparr>) = Ok (tick_state s)"
proof -
  let ?s = "s\<lparr>sip := sip s AND NOT XIP_SSIP, held := {TickLock}, noff := 1, tick_count := tick_count s + 1\<rparr>"
  have "wake_up TickChan ?s = Ok (?s\<lparr>procs := map (woken TickChan) (procs ?s)\<rparr>)" using assms(4) by (intro wake_up_eq) simp_all
  then show ?thesis using assms by (simp add: clock_tick_def cpu_id_def tick_state_def lock_simps)
qed

text \<open>Giving up the CPU: the scheduler gets the process runnable and locked, and hands it back locked.\<close>

lemma yield_through:
  assumes "my_proc s = Some p" "held s = {}" "noff s = 0"
    and "sw (upd_proc p (\<lambda>q. q\<lparr>p_status := RUNABLE\<rparr>) (s\<lparr>held := {ProcLock p}, noff := 1\<rparr>)) = Ok u" "held u = {ProcLock p}" "noff u = 1"
  shows "yield sw RUNABLE s = Ok (u\<lparr>held := {}, noff := 0\<rparr>)"
  using assms by (simp add: yield_def lock_simps switch_to_scheduler_def)

text \<open>The process goes on: there is none, or its group has the CPU for itself.\<close>

definition keeps_cpu :: "'a pgroup_state_scheme \<Rightarrow> bool" where
  "keeps_cpu s = (case my_proc s of None \<Rightarrow> True | Some p \<Rightarrow> g_exclusively_occupy (group (nat (p_pgroup_id (proc p s))) s))"

definition in_group :: "'a pgroup_state_scheme \<Rightarrow> bool" where
  "in_group s = (case my_proc s of None \<Rightarrow> True | Some p \<Rightarrow> p < length (procs s) \<and> 0 \<le> p_pgroup_id (proc p s) \<and> p_pgroup_id (proc p s) < int MAX_PROC_GROUP_NUM)"

text \<open>The state in which the scheduler takes over on a tick.\<close>

definition preempted :: "nat \<Rightarrow> 'a trap_state_scheme \<Rightarrow> 'a trap_state_scheme" where
  "preempted p s = upd_proc p (\<lambda>q. q\<lparr>p_status := RUNABLE\<rparr>) ((tick_state s)\<lparr>held := {ProcLock p}, noff := 1\<rparr>)"

lemma SSI_not_SEI [simp]: "SCAUSE_SSI \<noteq> SCAUSE_SEI"
  by (simp add: trap_consts)

lemma soft_intr:
  assumes ctx: "held s = {}" "noff s = 0" "sstatus s AND XSTATUS_SIE = 0" "length (procs s) = 64" "in_group s"
    and sw: "\<And>p. my_proc s = Some p \<Longrightarrow> \<not> keeps_cpu s \<Longrightarrow> \<exists>u. sw (preempted p s) = Ok u \<and> held u = {ProcLock p} \<and> noff u = 1"
  shows "\<exists>t. intr_handler d sw SCAUSE_SSI s = Ok t \<and> held t = {} \<and> noff t = 0 \<and>
    (if keeps_cpu s then t = tick_state s
     else \<exists>p u. my_proc s = Some p \<and> sw (preempted p s) = Ok u \<and> t = u\<lparr>held := {}, noff := 0\<rparr>)"
proof (cases "my_proc s")
  case None
  then show ?thesis using clock_tick_eq [OF ctx(1-4)] ctx by (simp add: intr_handler_def keeps_cpu_def)
next
  case (Some p)
  let ?g = "nat (p_pgroup_id (proc p s))"
  have p: "p < length (procs s)" "0 \<le> p_pgroup_id (proc p s)" "p_pgroup_id (proc p s) < 8" using ctx(5) Some by (simp_all add: in_group_def)
  have ex: "is_exclusive_occupy p (tick_state s) = Ok (keeps_cpu s)"
    using p Some by (simp add: is_exclusive_occupy_def get_proc_group_def tick_state_group keeps_cpu_def)
  show ?thesis
  proof (cases "keeps_cpu s")
    case True
    then show ?thesis using clock_tick_eq [OF ctx(1-4)] ctx Some ex by (simp add: intr_handler_def)
  next
    case False
    then obtain u where u: "sw (preempted p s) = Ok u" "held u = {ProcLock p}" "noff u = 1" using sw Some by blast
    have "yield sw RUNABLE (tick_state s) = Ok (u\<lparr>held := {}, noff := 0\<rparr>)"
      using Some ctx u by (intro yield_through) (simp_all add: preempted_def)
    then show ?thesis using clock_tick_eq [OF ctx(1-4)] Some ex False u by (auto simp: intr_handler_def)
  qed
qed

lemma SSI_interrupt [simp]: "SCAUSE_SSI AND SCAUSE_INTERRPUT_MASK \<noteq> 0" "SCAUSE_SEI AND SCAUSE_INTERRPUT_MASK \<noteq> 0"
  by (simp_all add: trap_consts)

lemma kernel_ret_bits:
  "(x OR XSTATUS_SPP OR XSTATUS_SPIE) AND XSTATUS_SPP \<noteq> 0" "(x OR XSTATUS_SPP OR XSTATUS_SPIE) AND XSTATUS_SPIE \<noteq> 0"
  by (simp_all add: trap_consts bit.conj_disj_distrib2)

text \<open>
  C38: a clock interrupt is invisible to the kernel code it interrupts. From a trap taken in the kernel
  with no lock held, the handler returns, to the stack pointer and the instruction that were interrupted and
  in supervisor mode with interrupts on again, whatever the processes that ran in between did to the control
  registers. On CPU 0 the tick count has grown by one and exactly the processes that sleep on it are
  woken. A process whose group does not occupy the CPU is handed to the scheduler runnable, with its lock the only one
  held, and its lock is released when it comes back; a CPU without a process and an occupied one go on at once.
\<close>

theorem kernel_trap_tick:
  fixes s :: "'a trap_state_scheme"
  assumes trap: "scause s = SCAUSE_SSI" "sstatus s AND XSTATUS_SPP \<noteq> 0" "sstatus s AND XSTATUS_SIE = 0"
    and ctx: "held s = {}" "noff s = 0" "length (procs s) = 64" "in_group s"
    and sw: "\<And>p. my_proc s = Some p \<Longrightarrow> \<not> keeps_cpu s \<Longrightarrow> \<exists>u. sw (preempted p s) = Ok u \<and> held u = {ProcLock p} \<and> noff u = 1"
  shows "\<exists>t. kernel_trap_handler d sw s = Ok (sscratch s, t) \<and> sepc t = sepc s \<and> sstatus t AND XSTATUS_SPP \<noteq> 0 \<and> sstatus t AND XSTATUS_SPIE \<noteq> 0 \<and>
    held t = {} \<and> noff t = 0 \<and>
    (if keeps_cpu s then procs t = (if me s = 0 then map (woken TickChan) (procs s) else procs s) \<and>
       tick_count t = tick_count s + (if me s = 0 then 1 else 0) \<and> mem t = mem s
     else \<exists>p u v. my_proc s = Some p \<and> sw v = Ok u \<and> t = u\<lparr>held := {}, noff := 0, sstatus := sstatus t, sepc := sepc t\<rparr> \<and>
       held v = {ProcLock p} \<and> noff v = 1 \<and> tick_count v = tick_count s + (if me s = 0 then 1 else 0) \<and> mem v = mem s \<and>
       procs v = (let ps = if me s = 0 then map (woken TickChan) (procs s) else procs s in ps[p := (ps ! p)\<lparr>p_status := RUNABLE\<rparr>]))"
proof -
  obtain t where t: "intr_handler d sw SCAUSE_SSI s = Ok t" "held t = {}" "noff t = 0"
      "if keeps_cpu s then t = tick_state s else \<exists>p u. my_proc s = Some p \<and> sw (preempted p s) = Ok u \<and> t = u\<lparr>held := {}, noff := 0\<rparr>"
    using soft_intr [OF ctx(1,2) trap(3) ctx(3,4) sw] by blast
  let ?t = "t\<lparr>sstatus := sstatus t OR XSTATUS_SPP OR XSTATUS_SPIE, sepc := sepc s\<rparr>"
  have k: "kernel_trap_handler d sw s = Ok (sscratch s, ?t)" using t(1) trap by (simp add: kernel_trap_handler_def kernel_trap_ret_def)
  show ?thesis
  proof (cases "keeps_cpu s")
    case True
    then have "t = tick_state s" using t(4) by simp
    then show ?thesis using k t(2,3) True kernel_ret_bits [of "sstatus t"] by (intro exI [of _ ?t]) (simp add: tick_state_def Let_def)
  next
    case False
    then obtain p u where u: "my_proc s = Some p" "sw (preempted p s) = Ok u" "t = u\<lparr>held := {}, noff := 0\<rparr>" using t(4) by auto
    have p: "p < length (procs s)" using ctx(4) u(1) by (simp add: in_group_def)
    have v: "held (preempted p s) = {ProcLock p}" "noff (preempted p s) = 1" "tick_count (preempted p s) = tick_count s + (if me s = 0 then 1 else 0)" "mem (preempted p s) = mem s"
       "procs (preempted p s) = (let ps = if me s = 0 then map (woken TickChan) (procs s) else procs s in ps[p := (ps ! p)\<lparr>p_status := RUNABLE\<rparr>])"
      using p by (simp_all add: preempted_def tick_state_def Let_def upd_proc_def)
    have "my_proc s = Some p \<and> sw (preempted p s) = Ok u \<and> ?t = u\<lparr>held := {}, noff := 0, sstatus := sstatus ?t, sepc := sepc ?t\<rparr>" using u by simp
    then have "\<exists>p u v. my_proc s = Some p \<and> sw v = Ok u \<and> ?t = u\<lparr>held := {}, noff := 0, sstatus := sstatus ?t, sepc := sepc ?t\<rparr> \<and>
       held v = {ProcLock p} \<and> noff v = 1 \<and> tick_count v = tick_count s + (if me s = 0 then 1 else 0) \<and> mem v = mem s \<and>
       procs v = (let ps = if me s = 0 then map (woken TickChan) (procs s) else procs s in ps[p := (ps ! p)\<lparr>p_status := RUNABLE\<rparr>])"
      using v by blast
    moreover have "held ?t = {}" "noff ?t = 0" "sepc ?t = sepc s" "sstatus ?t AND XSTATUS_SPP \<noteq> 0" "sstatus ?t AND XSTATUS_SPIE \<noteq> 0"
      using t(2,3) kernel_ret_bits [of "sstatus t"] by simp_all
    ultimately show ?thesis unfolding k using False by (intro exI [of _ ?t] conjI) (assumption | simp only: if_False)+
  qed
qed

section \<open>Back to user programs\<close>

lemma exit_no_return: "exit sw p x s \<noteq> Ok t"
  by (auto simp: exit_def Let_def split: option.splits if_splits)

lemma user_ret_bits:
  "((x AND NOT XSTATUS_SIE OR XSTATUS_SPIE) AND NOT XSTATUS_SPP) AND XSTATUS_SPP = 0"
  "((x AND NOT XSTATUS_SIE OR XSTATUS_SPIE) AND NOT XSTATUS_SPP) AND XSTATUS_SPIE = XSTATUS_SPIE"
  "((x AND NOT XSTATUS_SIE OR XSTATUS_SPIE) AND NOT XSTATUS_SPP) AND XSTATUS_SIE = 0"
  unfolding trap_consts by (simp_all add: bit.conj_disj_distrib2 and.assoc)

definition user_sstatus :: "u64 \<Rightarrow> u64" where
  "user_sstatus x = (x AND NOT XSTATUS_SIE OR XSTATUS_SPIE) AND NOT XSTATUS_SPP"

text \<open>Everything \<open>user_trap_ret\<close> changes; \<open>ex\<close>: the group of the process occupies the CPU.\<close>

definition user_ready :: "nat \<Rightarrow> bool \<Rightarrow> 'a trap_state_scheme \<Rightarrow> 'a trap_state_scheme" where
  "user_ready p ex s = s\<lparr>mem := store64 (mem s) (p_trap_frame (proc p s) + 256) (word_of_nat (me s)), ext_intr := (ext_intr s)[me s := \<not> ex],
     sstatus := user_sstatus (sstatus s), stvec := TRAMPOLINE_BASE + user_trap_entry_addr s mod 4096, sscratch := TRAPFRAME_BASE,
     sepc := get_tf (p_trap_frame (proc p s)) TF_SEPC s\<rparr>"

lemma user_trap_ret_eq:
  "user_trap_ret s =
     (case my_proc s of
        None \<Rightarrow> Panic ''NULL process''
      | Some p \<Rightarrow> kbind (is_exclusive_occupy p s) (\<lambda>ex. Ok (MAKE_SATP (p_pgtable (proc p s)), user_ready p ex s)))"
proof (cases "my_proc s")
  case None
  then show ?thesis by (simp add: user_trap_ret_def introff_def my_proc_def)
next
  case (Some p)
  have "is_exclusive_occupy p (s\<lparr>sstatus := x\<rparr>) = is_exclusive_occupy p s" for x by (simp add: is_exclusive_occupy_def)
  then show ?thesis using Some user_ret_bits(3) [of "sstatus s"]
    by (cases "is_exclusive_occupy p s")
      (auto simp: user_trap_ret_def introff_def my_proc_def enable_soft_intr_def enable_soft_n_external_intr_def cpu_id_def set_tf_def get_tf_def
        user_ready_def user_sstatus_def GET_TRAMPOLINE_FN_VA_def Let_def)
qed

lemma tf_word:
  assumes "aligned8 tf" "i < 64" "j < 64"
  shows "aligned8 (tf + 8 * word_of_nat i)" "tf + 8 * word_of_nat i = tf + 8 * word_of_nat j \<longleftrightarrow> i = j"
proof -
  have u: "unat (8 * word_of_nat i :: u64) = 8 * i" if "i < 64" for i
  proof -
    have "8 * word_of_nat i = (word_of_nat (8 * i) :: u64)" by simp
    then show ?thesis using that by (simp add: unat_word_of_nat del: of_nat_mult)
  qed
  have "unat (tf + 8 * word_of_nat i) mod 8 = (unat tf + 8 * i) mod 8"
    using u [OF assms(2)] by (simp add: unat_word_ariths(1) mod_mod_cancel)
  then show "aligned8 (tf + 8 * word_of_nat i)" using assms(1) by (simp add: aligned8_def)
  show "tf + 8 * word_of_nat i = tf + 8 * word_of_nat j \<longleftrightarrow> i = j"
  proof
    assume "tf + 8 * word_of_nat i = tf + 8 * word_of_nat j"
    then have "8 * word_of_nat i = (8 * word_of_nat j :: u64)" by simp
    then show "i = j" using u [OF assms(2)] u [OF assms(3)] by (metis mult_left_cancel zero_neq_numeral)
  qed simp
qed

lemma get_set_tf:
  assumes "aligned8 tf" "i < 64" "j < 64"
  shows "get_tf tf j (set_tf tf i v s) = (if i = j then v else get_tf tf j s)"
  using load64_store64 [OF tf_word(1) [OF assms] tf_word(1) [OF assms(1,3,2)]] tf_word(2) [OF assms]
  by (simp add: get_tf_def set_tf_def)

text \<open>A whole system call: \<open>getpid\<close>, number 5 in register \<open>a7\<close>.\<close>

lemma getpid_serve:
  fixes s :: "'a trap_state_scheme"
  defines "tf \<equiv> \<lambda>p. p_trap_frame (proc p s)"
  assumes "scause s = SCAUSE_ECALL_FROM_U" "aligned8 (tf p)" "get_tf (tf p) 16 s = 5"
  shows "user_trap_serve d devsw sw env p s =
    Ok (False, set_tf (tf p) TF_A0 (word_of_int (p_pid (proc p s))) (intron (set_tf (tf p) TF_SEPC (get_tf (tf p) TF_SEPC s + 4) s)))"
proof -
  let ?s = "intron (set_tf (tf p) TF_SEPC (get_tf (tf p) TF_SEPC s + 4) s)"
  have p: "procs ?s = procs s" by (simp add: intron_def set_tf_def)
  have "arg p 7 ?s = get_tf (tf p) 16 ?s" by (simp add: arg_def get_arg_n_def tf_a0_def get_tf_def tf_def intron_def set_tf_def add.commute)
  also have "\<dots> = get_tf (tf p) 16 (set_tf (tf p) TF_SEPC (get_tf (tf p) TF_SEPC s + 4) s)" by (simp add: intron_def get_tf_def)
  also have "\<dots> = 5" by (simp add: get_set_tf [OF assms(3)] assms(4))
  finally have a: "arg p 7 ?s = 5" .
  have t: "syscall_table devsw sw env (unat (5 :: u64)) p ?s = Ok (word_of_int (p_pid (proc p s)), ?s)" by (simp add: syscall_table_def p)
  have "\<not> ((100 :: u64) \<le> 5 \<and> (5 :: u64) \<le> 109)" "(5 :: u64) \<le> 22" by simp_all
  then have h: "handle_syscall devsw sw env p ?s = Ok (0, set_tf (tf p) TF_A0 (word_of_int (p_pid (proc p s))) ?s)"
    unfolding handle_syscall_def a Let_def t p by (simp add: tf_def)
  show ?thesis unfolding user_trap_serve_def Let_def assms(2) using h by (simp add: tf_def)
qed

section \<open>Device interrupts\<close>

text \<open>
  C40: a character arrives. With interrupts off and the interrupt controller naming the UART, the handler
  returns if the device's transmitter accepts a character within \<open>dv_fuel\<close> polls and it has fewer than \<open>dv_fuel\<close>
  characters to deliver. The interrupt is claimed and completed once, on this CPU. Every character the device had was read
  (the last status before the output says there is no more); the input queue is the old one edited by
  them (backspace removes, a return becomes a newline, the oldest is lost when 64 wait), \<open>input_lines\<close> has grown by the line
  ends among them, their echo and then a first part of the output queue were transmitted in order, the rest stays queued
  only if the device refused more. The processes that wait for input, for a line or for room are woken;
  locks, memory and everything else are as before.
\<close>

theorem uart_interrupt_served:
  fixes s :: "'a trap_state_scheme"
  assumes dev: "tx_ready (dv_uart d) (dv_fuel d)" "rx_limit (dv_uart d) N" "N < length (received (uart_io s)) + dv_fuel d"
    and irq: "dv_plic d (plic_io s) (PLIC_S_CLAIM (me s)) = UART_IRQ" "sstatus s AND XSTATUS_SIE = 0"
    and ctx: "intr_ctx s" "UartInputLock \<notin> held s" "UartOutputLock \<notin> held s" and ok: "iq_ok s" "oq_ok s"
  shows "\<exists>t out v inp k. intr_handler d sw SCAUSE_SEI s = Ok t \<and>
    plic_io t = PWr (PLIC_S_CLAIM (me s)) UART_IRQ # PRd (PLIC_S_CLAIM (me s)) UART_IRQ # plic_io s \<and>
    uart_io t = out @ Rd LSR v # inp @ uart_io s \<and> v AND LSR_RHR_READY = 0 \<and> answers (dv_uart d) (out @ Rd LSR v # inp) (uart_io s) \<and> received out = [] \<and>
    iq_ok t \<and> iq t = fold type_char (received inp) (iq s) \<and> input_lines t = input_lines s + word_of_nat (length (filter line_end (received inp))) \<and>
    sent inp = echoes (received inp) (iq s) \<and> sent out = take k (oq s) \<and> k \<le> length (oq s) \<and> oq_ok t \<and> oq t = drop k (oq s) \<and>
    (k < length (oq s) \<longrightarrow> (\<exists>w io. out = Rd LSR w # io \<and> w AND LSR_THR_READY = 0)) \<and>
    procs t = map (\<lambda>p. wake_if (0 < k) UartTxChan (wake_if (received inp \<noteq> []) UartRxChan
      (wake_if (\<exists>c \<in> set (received inp). line_end c) LinesChan p))) (procs s) \<and>
    t = s\<lparr>uart_io := uart_io t, uart_input_queue := uart_input_queue t, uart_iq_beg := uart_iq_beg t, uart_iq_end := uart_iq_end t,
      uart_oq_beg := uart_oq_beg t, input_lines := input_lines t, procs := procs t, plic_io := plic_io t\<rparr>"
proof -
  let ?c = "PLIC_S_CLAIM (me s)"
  define s1 where "s1 = s\<lparr>plic_io := PRd ?c UART_IRQ # plic_io s\<rparr>"
  have h: "cpu_id s = Ok (me s)" using irq(2) by (simp add: cpu_id_def)
  then have a: "plic_claim d s = Ok (UART_IRQ, s1)" using irq(1) by (simp add: plic_claim_def s1_def)
  have e: "uart_io s1 = uart_io s" "iq s1 = iq s" "oq s1 = oq s" "input_lines s1 = input_lines s" "procs s1 = procs s"
    by (simp_all add: s1_def iq_def oq_def)
  have c: "intr_ctx s1" "UartInputLock \<notin> held s1" "UartOutputLock \<notin> held s1" "iq_ok s1" "oq_ok s1" "N < length (received (uart_io s1)) + dv_fuel d"
    using ctx ok dev(3) by (simp_all add: s1_def intr_ctx_def iq_ok_def oq_ok_def)
  from uart_intr_correct [OF dev(1,2) c(6,1-5), unfolded e]
  obtain u out v inp k where u: "uart_intr (dv_uart d) (dv_fuel d) s1 = Ok u"
    and io: "uart_io u = out @ Rd LSR v # inp @ uart_io s" "v AND LSR_RHR_READY = 0" "answers (dv_uart d) (out @ Rd LSR v # inp) (uart_io s)" "received out = []"
    and q: "iq_ok u" "iq u = fold type_char (received inp) (iq s)" "input_lines u = input_lines s + word_of_nat (length (filter line_end (received inp)))"
      "sent inp = echoes (received inp) (iq s)" "sent out = take k (oq s)" "k \<le> length (oq s)" "oq_ok u" "oq u = drop k (oq s)"
      "k < length (oq s) \<longrightarrow> (\<exists>w io. out = Rd LSR w # io \<and> w AND LSR_THR_READY = 0)"
    and ps: "procs u = map (\<lambda>p. wake_if (0 < k) UartTxChan (wake_if (received inp \<noteq> []) UartRxChan (wake_if (\<exists>c \<in> set (received inp). line_end c) LinesChan p))) (procs s)"
    and fr: "u = s1\<lparr>uart_io := uart_io u, uart_input_queue := uart_input_queue u, uart_iq_beg := uart_iq_beg u, uart_iq_end := uart_iq_end u,
      uart_oq_beg := uart_oq_beg u, input_lines := input_lines u, procs := procs u\<rparr>"
    by blast
  obtain i1 i2 i3 i4 i5 i6 i7 where fr': "u = s1\<lparr>uart_io := i1, uart_input_queue := i2, uart_iq_beg := i3, uart_iq_end := i4,
      uart_oq_beg := i5, input_lines := i6, procs := i7\<rparr>" using fr by blast
  define t where "t = plic_write ?c UART_IRQ u"
  have "cpu_id u = Ok (me s)" using irq(2) by (simp add: fr' s1_def cpu_id_def)
  then have "plic_complete UART_IRQ u = Ok t" by (simp add: plic_complete_def t_def)
  then have run: "intr_handler d sw SCAUSE_SEI s = Ok t" using a u by (simp add: intr_handler_def external_intr_def)
  have f: "uart_io t = uart_io u" "iq_ok t = iq_ok u" "iq t = iq u" "input_lines t = input_lines u" "oq_ok t = oq_ok u" "oq t = oq u" "procs t = procs u"
    by (simp_all add: t_def plic_write_def iq_ok_def iq_def oq_ok_def oq_def)
  have pl: "plic_io t = PWr ?c UART_IRQ # PRd ?c UART_IRQ # plic_io s" by (simp add: t_def plic_write_def fr' s1_def)
  have "t = s\<lparr>uart_io := uart_io t, uart_input_queue := uart_input_queue t, uart_iq_beg := uart_iq_beg t, uart_iq_end := uart_iq_end t,
      uart_oq_beg := uart_oq_beg t, input_lines := input_lines t, procs := procs t, plic_io := plic_io t\<rparr>"
    by (simp add: t_def plic_write_def fr' s1_def)
  with run pl io q ps show ?thesis
    unfolding f [symmetric] by (intro exI [of _ t] exI [of _ out] exI [of _ v] exI [of _ inp] exI [of _ k] conjI)
qed

text \<open>
  C39: who gets back to user mode, and how. If \<open>user_trap_handler\<close> returns to user mode, the trap was a system
  call or an interrupt that was served without an error, the process had not been killed when it was
  served and the kernel has not panicked: after any other exception, a failed system call or a kill, no
  user instruction of the process runs again. The registers are set for the return: user mode, interrupts off now and on in user
  mode, the next trap goes through the trampoline and finds the trap frame, execution goes on at the saved address, on the
  page table of the running process, with device interrupts exactly if its group does not occupy the CPU; nothing else but the CPU number in the trap
  frame is changed.
\<close>

theorem user_trap_safe:
  fixes s :: "'a trap_state_scheme"
  assumes "user_trap_handler d devsw sw env s = Ok (root, t)"
  shows "\<exists>p q u ex. my_proc s = Some p \<and> (scause s = SCAUSE_ECALL_FROM_U \<or> scause s AND SCAUSE_INTERRPUT_MASK \<noteq> 0) \<and>
    user_trap_serve d devsw sw env p s = Ok (False, u) \<and> \<not> p_killed (proc p u) \<and> \<not> panicked u \<and>
    my_proc u = Some q \<and> root = MAKE_SATP (p_pgtable (proc q u)) \<and> is_exclusive_occupy q u = Ok ex \<and>
    t = u\<lparr>mem := store64 (mem u) (p_trap_frame (proc q u) + 256) (word_of_nat (me u)), ext_intr := (ext_intr u)[me u := \<not> ex],
      sstatus := sstatus t, stvec := TRAMPOLINE_BASE + user_trap_entry_addr u mod 4096, sscratch := TRAPFRAME_BASE,
      sepc := get_tf (p_trap_frame (proc q u)) TF_SEPC u\<rparr> \<and>
    sstatus t AND XSTATUS_SPP = 0 \<and> sstatus t AND XSTATUS_SPIE \<noteq> 0 \<and> sstatus t AND XSTATUS_SIE = 0"
proof -
  obtain p where p: "my_proc s = Some p" using assms by (cases "my_proc s") (simp_all add: user_trap_handler_def)
  obtain k u where u: "user_trap_serve d devsw sw env p s = Ok (k, u)" using assms p by (auto simp: user_trap_handler_def)
  have k: "\<not> k" "\<not> p_killed (proc p u)" using assms p u exit_no_return [of sw p "-1" u] by (auto simp: user_trap_handler_def split: if_splits)
  then have r: "\<not> panicked u" "user_trap_ret u = Ok (root, t)" using assms p u by (auto simp: user_trap_handler_def split: if_splits)
  have c: "scause s = SCAUSE_ECALL_FROM_U \<or> scause s AND SCAUSE_INTERRPUT_MASK \<noteq> 0"
    using u k(1) by (auto simp: user_trap_serve_def Let_def split: if_splits)
  obtain q ex where q: "my_proc u = Some q" "is_exclusive_occupy q u = Ok ex" "root = MAKE_SATP (p_pgtable (proc q u))" "t = user_ready q ex u"
    using r(2) by (auto simp: user_trap_ret_eq split: option.splits)
  have "sstatus t = user_sstatus (sstatus u)" using q(4) by (simp add: user_ready_def)
  then have b: "sstatus t AND XSTATUS_SPP = 0 \<and> sstatus t AND XSTATUS_SPIE \<noteq> 0 \<and> sstatus t AND XSTATUS_SIE = 0"
    using user_ret_bits [of "sstatus u"] by (simp add: user_sstatus_def trap_consts)
  have "t = u\<lparr>mem := store64 (mem u) (p_trap_frame (proc q u) + 256) (word_of_nat (me u)), ext_intr := (ext_intr u)[me u := \<not> ex],
      sstatus := sstatus t, stvec := TRAMPOLINE_BASE + user_trap_entry_addr u mod 4096, sscratch := TRAPFRAME_BASE,
      sepc := get_tf (p_trap_frame (proc q u)) TF_SEPC u\<rparr>" unfolding q(4) user_ready_def by simp
  moreover have "user_trap_serve d devsw sw env p s = Ok (False, u)" using u k(1) by simp
  ultimately show ?thesis using p c k(2) r(1) q(1-3) b by blast
qed

lemma getpid_return:
  fixes s :: "'a trap_state_scheme"
  assumes p: "my_proc s = Some p" "scause s = SCAUSE_ECALL_FROM_U" "aligned8 (p_trap_frame (proc p s))" "get_tf (p_trap_frame (proc p s)) 16 s = 5"
    and ok: "\<not> p_killed (proc p s)" "\<not> panicked s" "in_group s"
  shows "\<exists>t. user_trap_handler d devsw sw env s = Ok (MAKE_SATP (p_pgtable (proc p s)), t) \<and>
    get_tf (p_trap_frame (proc p s)) TF_A0 t = word_of_int (p_pid (proc p s)) \<and> sepc t = get_tf (p_trap_frame (proc p s)) TF_SEPC s + 4 \<and>
    (\<forall>i < 31. i \<noteq> TF_A0 \<longrightarrow> get_tf (p_trap_frame (proc p s)) i t = get_tf (p_trap_frame (proc p s)) i s) \<and> procs t = procs s"
proof -
  define tf where "tf = p_trap_frame (proc p s)"
  define u where "u = set_tf tf TF_A0 (word_of_int (p_pid (proc p s))) (intron (set_tf tf TF_SEPC (get_tf tf TF_SEPC s + 4) s))"
  note al = p(3) [folded tf_def]
  have u: "procs u = procs s" "my_proc u = Some p" "panicked u = panicked s" "groups u = groups s" "me u = me s"
    using p(1) by (simp_all add: u_def set_tf_def intron_def my_proc_def)
  have g: "get_tf tf i u = (if i = 9 then word_of_int (p_pid (proc p s)) else if i = 31 then get_tf tf 31 s + 4 else get_tf tf i s)" if "i < 64" for i
  proof -
    have "get_tf tf i (intron w) = get_tf tf i w" for w :: "'a trap_state_scheme" by (simp add: intron_def get_tf_def)
    then show ?thesis using that by (simp add: u_def get_set_tf [OF al])
  qed
  obtain ex where ex: "is_exclusive_occupy p u = Ok ex"
    using ok(3) p(1) u by (auto simp: is_exclusive_occupy_def get_proc_group_def in_group_def)
  define t where "t = user_ready p ex u"
  have "get_tf tf i t = get_tf tf i u" if "i < 32" for i
  proof -
    have "get_tf tf i t = get_tf tf i (set_tf tf 32 (word_of_nat (me u)) u)" by (simp add: t_def user_ready_def get_tf_def set_tf_def u tf_def)
    then show ?thesis using that by (simp add: get_set_tf [OF al])
  qed
  then have f: "get_tf tf TF_A0 t = word_of_int (p_pid (proc p s))" "\<forall>i < 31. i \<noteq> TF_A0 \<longrightarrow> get_tf tf i t = get_tf tf i s" by (simp_all add: g)
  have "sepc t = get_tf tf TF_SEPC s + 4" using g [of 31] by (simp add: t_def user_ready_def u tf_def)
  moreover have "procs t = procs s" by (simp add: t_def user_ready_def u)
  moreover have "user_trap_handler d devsw sw env s = Ok (MAKE_SATP (p_pgtable (proc p s)), t)"
    using getpid_serve [OF p(2-4), of d devsw sw env] p(1) ok(1,2) u ex
    by (simp add: user_trap_handler_def tf_def [symmetric] u_def [symmetric] user_trap_ret_eq t_def)
  ultimately show ?thesis using f unfolding tf_def by blast
qed

section \<open>Examples\<close>

text \<open>Process 0 traps with \<open>getpid\<close> in \<open>a7\<close>; its trap frame is at 0x80003000.\<close>

definition trap_example :: "u64 \<Rightarrow> u64 \<Rightarrow> trap_state" where
  "trap_example cause status = vdisk_state.extend
     (let s = vd_example (store64 (\<lambda>_. 0) 0x80003080 5) in upd_proc 0 (\<lambda>q. q\<lparr>p_trap_frame := 0x80003000\<rparr>) s)
     (trap_state.fields status 0 0 0x80000abc cause 0 2 0 [])"

lemma trap_example_ctx:
  "scause (trap_example c st) = c" "sstatus (trap_example c st) = st" "sepc (trap_example c st) = 0x80000abc" "my_proc (trap_example c st) = Some 0" "held (trap_example c st) = {}" "noff (trap_example c st) = 0"
  "length (procs (trap_example c st)) = 64" "in_group (trap_example c st)" "p_trap_frame (proc 0 (trap_example c st)) = 0x80003000"
  "\<not> p_killed (proc 0 (trap_example c st))" "\<not> panicked (trap_example c st)" "get_tf 0x80003000 16 (trap_example c st) = 5"
proof -
  note d = trap_example_def vd_example_def console_example_def pipe_example_def fs_example_def log_example_def bio_example_def pg_example_def
    pgroup_state.defs bio_state.defs log_state.defs fs_state.defs pipe_state.defs file_state.defs kernel_state.defs console_state.defs vdisk_state.defs trap_state.defs
  show "scause (trap_example c st) = c" "sstatus (trap_example c st) = st" "sepc (trap_example c st) = 0x80000abc"
    "held (trap_example c st) = {}" "noff (trap_example c st) = 0" "\<not> panicked (trap_example c st)" by (simp_all add: d upd_proc_def)
  show "my_proc (trap_example c st) = Some 0" "length (procs (trap_example c st)) = 64" "p_trap_frame (proc 0 (trap_example c st)) = 0x80003000" "\<not> p_killed (proc 0 (trap_example c st))"
    by (simp_all add: d upd_proc_def my_proc_def MAX_CPU_NUM_def)
  show "in_group (trap_example c st)" by (simp add: d upd_proc_def my_proc_def in_group_def MAX_CPU_NUM_def)
  have "mem (trap_example c st) = store64 (\<lambda>_. 0) 0x80003080 5" by (simp add: d upd_proc_def)
  then show "get_tf 0x80003000 16 (trap_example c st) = 5" by (simp add: get_tf_def)
qed

definition quiet_devices :: devices where
  "quiet_devices = \<lparr>dv_uart = (\<lambda>_ _. 32), dv_fuel = 1, dv_disk = (\<lambda>_ _. 0), dv_plic = (\<lambda>_ _. 0)\<rparr>"

text \<open>While process 0 is switched out, the registers are overwritten.\<close>

theorem kernel_trap_tick_witness:
  "\<exists>t. kernel_trap_handler quiet_devices (\<lambda>u. Ok (u\<lparr>sepc := 7, sstatus := 0\<rparr>)) (trap_example SCAUSE_SSI XSTATUS_SPP) =
      Ok (sscratch (trap_example SCAUSE_SSI XSTATUS_SPP), t) \<and> sepc t = 0x80000abc \<and> sstatus t AND XSTATUS_SPP \<noteq> 0 \<and> held t = {}"
proof -
  let ?s = "trap_example SCAUSE_SSI XSTATUS_SPP" and ?sw = "\<lambda>u :: trap_state. Ok (u\<lparr>sepc := 7, sstatus := 0\<rparr>)"
  note E = trap_example_ctx [of SCAUSE_SSI XSTATUS_SPP]
  have b: "sstatus ?s AND XSTATUS_SPP \<noteq> 0" "sstatus ?s AND XSTATUS_SIE = 0" unfolding E(2) by (simp_all add: trap_consts)
  have "\<exists>u. ?sw (preempted p ?s) = Ok u \<and> held u = {ProcLock p} \<and> noff u = 1" for p by (simp add: preempted_def)
  from kernel_trap_tick [OF E(1) b E(5-8), of ?sw quiet_devices, OF this] E(3) show ?thesis by auto
qed

theorem user_trap_safe_witness:
  "\<exists>t. user_trap_handler quiet_devices (\<lambda>_. \<lparr>dev_read = None, dev_write = None\<rparr>) Ok [] (trap_example SCAUSE_ECALL_FROM_U 0) =
      Ok (MAKE_SATP (p_pgtable (proc 0 (trap_example SCAUSE_ECALL_FROM_U 0))), t) \<and>
    get_tf 0x80003000 TF_A0 t = word_of_int (p_pid (proc 0 (trap_example SCAUSE_ECALL_FROM_U 0))) \<and>
    sstatus t AND XSTATUS_SPP = 0 \<and> sstatus t AND XSTATUS_SPIE \<noteq> 0 \<and> sstatus t AND XSTATUS_SIE = 0"
proof -
  let ?s = "trap_example SCAUSE_ECALL_FROM_U 0"
  note E = trap_example_ctx [of SCAUSE_ECALL_FROM_U 0]
  have "aligned8 (p_trap_frame (proc 0 ?s))" "get_tf (p_trap_frame (proc 0 ?s)) 16 ?s = 5" unfolding E(9) using E(12) by (simp_all add: aligned8_def)
  from getpid_return [OF E(4,1) this E(10,11,8), of quiet_devices "\<lambda>_. \<lparr>dev_read = None, dev_write = None\<rparr>" Ok "[]"]
  obtain t where t: "user_trap_handler quiet_devices (\<lambda>_. \<lparr>dev_read = None, dev_write = None\<rparr>) Ok [] ?s = Ok (MAKE_SATP (p_pgtable (proc 0 ?s)), t)"
      "get_tf 0x80003000 TF_A0 t = word_of_int (p_pid (proc 0 ?s))" unfolding E(9) by blast
  from user_trap_safe [OF t(1)] t show ?thesis by blast
qed

lemma trap_example_uart:
  "intr_ctx (trap_example c st)" "iq_ok (trap_example c st)" "oq_ok (trap_example c st)" "iq (trap_example c st) = [66, 66]" "oq (trap_example c st) = [65, 65]" "uart_io (trap_example c st) = []"
proof -
  let ?m = "store64 (\<lambda>_. 0) 0x80003080 5 :: mem"
  note E = console_example_ctx [of ?m]
  have f: "uart_input_queue (trap_example c st) = uart_input_queue (console_example ?m)" "uart_iq_beg (trap_example c st) = uart_iq_beg (console_example ?m)"
    "uart_iq_end (trap_example c st) = uart_iq_end (console_example ?m)" "uart_output_queue (trap_example c st) = uart_output_queue (console_example ?m)"
    "uart_oq_beg (trap_example c st) = uart_oq_beg (console_example ?m)" "uart_oq_end (trap_example c st) = uart_oq_end (console_example ?m)"
    "uart_io (trap_example c st) = uart_io (console_example ?m)"
    by (simp_all add: trap_example_def vd_example_def console_state.defs vdisk_state.defs upd_proc_def)
  show "iq_ok (trap_example c st)" "oq_ok (trap_example c st)" "iq (trap_example c st) = [66, 66]" "oq (trap_example c st) = [65, 65]" "uart_io (trap_example c st) = []"
    using E by (simp_all add: iq_ok_def oq_ok_def iq_def oq_def f)
  show "intr_ctx (trap_example c st)" using trap_example_ctx(5,7) [of c st] by (simp add: intr_ctx_def)
qed

theorem uart_interrupt_served_witness:
  "\<exists>t out inp k. intr_handler \<lparr>dv_uart = typing [104, 105, 8, 13], dv_fuel = 9, dv_disk = (\<lambda>_ _. 0), dv_plic = (\<lambda>_ _. UART_IRQ)\<rparr> Ok SCAUSE_SEI (trap_example SCAUSE_SEI 0) = Ok t \<and>
     take 4 (received inp) = [104, 105, 8, 13] \<and> iq t = fold type_char (received inp) [66, 66] \<and> sent out = take k [65, 65] \<and>
     plic_io t = PWr (PLIC_S_CLAIM (me (trap_example SCAUSE_SEI 0))) UART_IRQ # PRd (PLIC_S_CLAIM (me (trap_example SCAUSE_SEI 0))) UART_IRQ # plic_io (trap_example SCAUSE_SEI 0)"
proof -
  let ?s = "trap_example SCAUSE_SEI 0" and ?cs = "[104, 105, 8, 13]"
  let ?d = "\<lparr>dv_uart = typing ?cs, dv_fuel = 9, dv_disk = (\<lambda>_ _. 0), dv_plic = (\<lambda>_ _. UART_IRQ)\<rparr>"
  note U = trap_example_uart [of SCAUSE_SEI 0]
  note E = trap_example_ctx [of SCAUSE_SEI 0]
  have "tx_ready (dv_uart ?d) (dv_fuel ?d)" using typing_device(1) [of ?cs 8] by (simp add: eval_nat_numeral)
  moreover have "rx_limit (dv_uart ?d) 4" using typing_device(2) [of ?cs] by (simp add: eval_nat_numeral)
  moreover have "4 < length (received (uart_io ?s)) + dv_fuel ?d" "UartInputLock \<notin> held ?s" "UartOutputLock \<notin> held ?s" "sstatus ?s AND XSTATUS_SIE = 0"
     "dv_plic ?d (plic_io ?s) (PLIC_S_CLAIM (me ?s)) = UART_IRQ" using E(2,5) by simp_all
  ultimately obtain t out v inp k where t: "intr_handler ?d Ok SCAUSE_SEI ?s = Ok t" "v AND LSR_RHR_READY = 0"
      "answers (dv_uart ?d) (out @ Rd LSR v # inp) (uart_io ?s)" "iq t = fold type_char (received inp) (iq ?s)" "sent out = take k (oq ?s)"
      "plic_io t = PWr (PLIC_S_CLAIM (me ?s)) UART_IRQ # PRd (PLIC_S_CLAIM (me ?s)) UART_IRQ # plic_io ?s"
    using uart_interrupt_served [of ?d 4 ?s Ok] U(1-3) by blast
  have "answers (typing ?cs) (Rd LSR v # inp) []" using t(3) U(6) by simp
  from typing_all [OF this t(2)] have "take 4 (received inp) = ?cs" by (simp add: eval_nat_numeral)
  with t U(4,5) show ?thesis by (intro exI conjI) (assumption | simp only:)+
qed

end
