(* ===== verification/Spec2Isabelle.thy ===== *)
theory Spec2Isabelle
  imports Rw_Lock Process_Inv Loader_Inv Trap_Inv
begin

text \<open>
  myv6: a RISC-V kernel in the tradition of xv6, with process groups that own CPUs. This library
  models the kernel (src/kernel, src/include) and proves what makes its parts correct.

  \<^bold>\<open>The program.\<close> Each CPU runs \<open>scheduler\<close> (kernel/scheduler), which picks a runnable process of the
  group the CPU serves and switches to it. Processes enter the kernel by system calls
  (kernel/syscall), which work on the process table (kernel/process), the address spaces
  (kernel/vm), open files and pipes (kernel/fs/file.c, pipe.c, sysfile.c) and the file system:
  fs.c over the log (log.c) over the buffer cache (bio.c) over the disk driver
  (kernel/driver/virtio\_disk.c). Traps (kernel/trap) bring in the clock, which preempts processes, and the interrupts of the
  disk and of the UART, whose driver feeds the console (kernel/driver/uart.c, kernel/io/console). Everything shared is
  guarded by spin locks (kernel/lock), waiting is \<open>sleep\<close> and \<open>wake_up\<close> on a channel.

  \<^bold>\<open>How code is modelled.\<close> A C function is a HOL function from the kernel state to \<open>'a kres\<close> (Prelude):
  \<open>Ok\<close> it returns, \<open>Panic\<close> it calls \<open>panic\<close>, \<open>Block\<close> it is asleep or waits for ever, \<open>Hang\<close> a loop ran
  past its bound. The state is a chain of records, each component adding its globals:
  \<open>lock_state\<close> (held locks, interrupt nesting), \<open>vm_state\<close> (memory as bytes, free list), \<open>proc_state\<close>
  (process table, CPUs, ticks), \<open>box_state\<close>, \<open>pgroup_state\<close>, \<open>bio_state\<close>, \<open>log_state\<close>,
  \<open>fs_state\<close>, \<open>pipe_state\<close>, \<open>file_state\<close>, \<open>kernel_state\<close>, \<open>console_state\<close>, \<open>vdisk_state\<close>,
  \<open>trap_state\<close> (control registers of the CPU); an operation is polymorphic in what later
  components add. Machine integers are words of their width; a C \<open>int\<close> that cannot overflow where it
  is used is \<open>int\<close>. Pointers into static tables are indices, pointers to pages are addresses; page
  tables, free pages, trap frames and ELF headers are bytes of the memory. A function that sleeps
  takes as a parameter what the other processes do meanwhile (one function per sleep); what they may do is a hypothesis where a
  theorem needs one. Interleaving at the level of single accesses is modelled where it is the point:
  the spin lock and the sleep protocol are step relations.

  \<^bold>\<open>Theories.\<close>
  \<^item> Prelude: words, \<open>kres\<close>, \<open>kbind\<close>, loops with early exit (\<open>kfold\<close>), generic lemmas.
  \<^item> Spin\_Lock: trap/introff.c, lock/spin\_lock.c, cpus.h. Step relation of many CPUs; mutual exclusion;
    every panic of the lock code happens exactly on misuse; the sequential view (\<open>held\<close>, \<open>noff\<close>) that
    the other theories use is refined by the steps of a CPU.
  \<^item> Kalloc: vm/kalloc.c, the byte loops of vm.c. The free list lives in the free pages; locale
    \<open>page_allocator\<close> is the contract (pages handed out are distinct and were free), interpreted on \<open>kalloc\<close> and \<open>kfree\<close>.
  \<^item> Vm: page tables of vm.c and vm\_system.h. \<open>walk\<close>, mapping, unmapping and freeing against an
    abstract map from page numbers to entries. Depth 3 of the table bounds every recursion.
  \<^item> Vm\_Copy: \<open>copy_in\<close>, \<open>copy_out\<close>, \<open>copy_in_str\<close> against the user's view of its memory, page faults included.
  \<^item> List\_Head: include/util/list.h, util/list.c, against HOL lists; locale \<open>node_list\<close>.
  \<^item> Ring\_Buffer: circular\_queue.h and the queues with free-running counters; locale \<open>bounded_queue\<close>,
    interpreted for the generic queue, the message box and the pipe, wrap-around of the counters included.
  \<^item> Proc\_State, Sleep: process.h, sleep.c, the pid allocator; no wake-up is lost in the step
    relation of sleepers and wakers.
  \<^item> Rw\_Lock: lock/rw\_r\_lock.c; exclusion, exact counts of readers and writer, and the lock is never stuck.
  \<^item> Cpu\_Message, Proc\_Group, Pgroup\_Inv: process/cpu\_message.c and proc\_group.c; the invariant of
    groups (lists, members, CPUs, free CPUs against pending requests) and what each operation does under
    it on every branch, the cases in which the kernel panics included.
  \<^item> Scheduler: scheduler.c; each round brings a runnable process one place forward, so it is run within as many
    rounds as processes were in front of it, provided nobody is put in front of it meanwhile (\<open>keeps_turn\<close>).
  \<^item> Bytes, Bio: little-endian fields; lock/sleeplock.c and fs/bio.c; locale \<open>block_cache\<close>: the cache refines a disk of
    blocks with pinned and released buffers.
  \<^item> Log, Transaction: fs/log.c; a commit is atomic under a crash at any disk write; \<open>end_op\<close>; a defect of recovery.
  \<^item> Kstring: util/string.c and \<open>skipelem\<close>.
  \<^item> Fs, Fs\_Inv, Fs\_Frame: fs/fs.c; block allocator, inode cache, and that an inode written back, dropped
    and opened again is the same; what the whole file system leaves alone (locales \<open>state_view\<close> and \<open>fs_frame\<close>, interpreted for descriptors, the running
    process and the locks).
  \<^item> Pipe, Files, Sysfile, Descriptors: fs/pipe.c, file.c, sysfile.c; pipes are FIFO byte streams, and a write
    returns when there are readers with no byte lost, repeated or reordered; reference counts are the number of descriptors.
  \<^item> Uvm, Heap: syscall/uvm.c; \<open>brk\<close> keeps the heap mapped exactly and undoes a failed growth.
  \<^item> Loader, Loader\_Inv: process/process\_loader.c; the loops end for every file, bounds of the result.
  \<^item> Process, Process\_Inv: process/process.c; \<open>wait\<close> before and after sleeping, the recursive locking of the process tree.
  \<^item> Syscall: syscall/syscall.c, the argument vector of \<open>exec\<close> and the dispatch of all system calls.
  \<^item> Console, Console\_Inv: driver/uart.c, io/console/console.c, util/kprint.c; output queue and line editing; a
    write to the console hands over every byte once and in order; printed numbers can be read back.
  \<^item> Virtio, Virtio\_Inv: driver/virtio\_disk.c; the descriptors and rings with the device and the interrupt
    handler refine the block transfer that the buffer cache uses.
  \<^item> Kvm: vm/kvm.c; the page table of the kernel against the layout of memory\_layout.h (\<open>documented_page\<close>).
  \<^item> Trap, Trap\_Inv: kernel/trap, riscv/plic.c; clock tick and preemption, the return to user mode, the UART interrupt.

  \<^bold>\<open>Bounds and fuel.\<close> Recursion over page tables has the depth of the table (3). The loops of the loader
  have a bound that is proved never to be reached (Loader\_Inv), the recursion over the
  process tree has the size of the table, which is proved enough for a forest
  (Process\_Inv). Loops that poll a device register have a bound as an argument and give \<open>Hang\<close> past it; the properties
  that rely on them assume a device that answers within the bound. The endless loop of \<open>scheduler\<close> is cut after a number
  of rounds, and a bound on that number is what its property gives. Every other loop is structural or has a termination measure.

  \<^bold>\<open>Parameters.\<close> The UART, the interrupt controller and the registers of the disk are functions from the accesses
  so far to the value read; the disk itself is what carries out the requests in the ring (\<open>block_device\<close>). The device switch,
  the function that reads an ELF file, the addresses the linker fixes, and what other processes do during a sleep
  are arguments too. Hypotheses on them are instantiated in the witnesses.

  \<^bold>\<open>Not modelled.\<close> The assembly (context switch, trap entry, boot) with start.c and main.c, which write control registers and
  call the initialisers; the user programs and the user library; mkfs; the embedded binaries the build generates; the
  macros of list.h that the kernel does not use.
\<close>

end
